(* ===== verification/Prelude.thy ===== *)
theory Prelude
  imports Main
begin

text \<open>
  Shared vocabulary of the development: the three-valued result of comparisons
  (\<^verbatim>\<open>core::cmp::Ordering\<close>), colours and directions, and generic facts on lists.
\<close>

datatype ordering = Less | Equal | Greater

definition is_le :: "ordering \<Rightarrow> bool" where
  "is_le o1 \<longleftrightarrow> o1 \<noteq> Greater"

definition cmp_of :: "'a::linorder \<Rightarrow> 'a \<Rightarrow> ordering" where
  "cmp_of a b = (if a < b then Less else if a = b then Equal else Greater)"

lemma is_le_cmp_of [simp]: "is_le (cmp_of a b) \<longleftrightarrow> a \<le> b"
  by (auto simp: is_le_def cmp_of_def)

end
