(* ===== verification/Rb_Tree.thy ===== *)
theory Rb_Tree
  imports Prelude
begin

text \<open>
  Red-black trees with cached augmented values, as a functional datatype.  A position in a tree is a
  zipper: the path of frames from the position up to the root, and the subtree below it.  The operations
  on this type mirror, step by step, what \<^verbatim>\<open>memory/rbtree.rs\<close> does with pointers; the theories
  \<^verbatim>\<open>Rb_Insert\<close> and \<^verbatim>\<open>Rb_Remove\<close> prove that the pointer programs implement them.
\<close>

datatype color = Red | Black
datatype direction = Left | Right

fun opposite :: "direction \<Rightarrow> direction" where
  "opposite Left = Right"
| "opposite Right = Left"

datatype ('a, 'v) rbtree =
  Leaf | Node color "('a, 'v) rbtree" 'a "'v option" "('a, 'v) rbtree"

datatype ('a, 'v) frame =
  Frame direction color 'a "'v option" "('a, 'v) rbtree"

type_synonym ('a, 'v) location = "('a, 'v) frame list \<times> ('a, 'v) rbtree"

fun bin :: "direction \<Rightarrow> color \<Rightarrow> 'a \<Rightarrow> 'v option \<Rightarrow> ('a, 'v) rbtree \<Rightarrow> ('a, 'v) rbtree \<Rightarrow> ('a, 'v) rbtree" where
  "bin Left c x a t s = Node c t x a s"
| "bin Right c x a t s = Node c s x a t"

fun plug :: "('a, 'v) frame list \<Rightarrow> ('a, 'v) rbtree \<Rightarrow> ('a, 'v) rbtree" where
  "plug [] t = t"
| "plug (Frame d c x a s # fs) t = plug fs (bin d c x a t s)"

fun tree_color :: "('a, 'v) rbtree \<Rightarrow> color" where
  "tree_color Leaf = Black"
| "tree_color (Node c l x a r) = c"

fun paint :: "color \<Rightarrow> ('a, 'v) rbtree \<Rightarrow> ('a, 'v) rbtree" where
  "paint c Leaf = Leaf"
| "paint c (Node _ l x a r) = Node c l x a r"

fun tree_child :: "direction \<Rightarrow> ('a, 'v) rbtree \<Rightarrow> ('a, 'v) rbtree" where
  "tree_child d Leaf = Leaf"
| "tree_child Left (Node c l x a r) = l"
| "tree_child Right (Node c l x a r) = r"

fun tree_aug :: "('a, 'v) rbtree \<Rightarrow> 'v option" where
  "tree_aug Leaf = None"
| "tree_aug (Node c l x a r) = a"

fun inorder :: "('a, 'v) rbtree \<Rightarrow> 'a list" where
  "inorder Leaf = []"
| "inorder (Node c l x a r) = inorder l @ x # inorder r"

fun before :: "('a, 'v) frame list \<Rightarrow> 'a list" where
  "before [] = []"
| "before (Frame Left c x a s # fs) = before fs"
| "before (Frame Right c x a s # fs) = before fs @ inorder s @ [x]"

fun after :: "('a, 'v) frame list \<Rightarrow> 'a list" where
  "after [] = []"
| "after (Frame Left c x a s # fs) = x # inorder s @ after fs"
| "after (Frame Right c x a s # fs) = after fs"

fun dirty_frame :: "('a, 'v) frame \<Rightarrow> ('a, 'v) frame" where
  "dirty_frame (Frame d c x a s) = Frame d c x None s"

abbreviation dirty :: "('a, 'v) frame list \<Rightarrow> ('a, 'v) frame list" where
  "dirty fs \<equiv> map dirty_frame fs"

section \<open>Insertion\<close>

fun tree_place :: "('a \<Rightarrow> 'a \<Rightarrow> ordering) \<Rightarrow> 'a \<Rightarrow> ('a, 'v) frame list \<Rightarrow> ('a, 'v) rbtree \<Rightarrow> ('a, 'v) frame list" where
  "tree_place cmp x fs Leaf = fs"
| "tree_place cmp x fs (Node c l y a r) =
     (if is_le (cmp x y) then tree_place cmp x (Frame Left c y a r # fs) l
      else tree_place cmp x (Frame Right c y a l # fs) r)"

fun tree_recolor :: "('a, 'v) frame list \<Rightarrow> ('a, 'v) rbtree \<Rightarrow> ('a, 'v) location" where
  "tree_recolor (Frame pd pc px pa ps # Frame gd gc gx ga gs # fs) t =
     (if pc = Red \<and> tree_color gs = Red
      then tree_recolor fs (bin gd Red gx ga (bin pd Black px pa t ps) (paint Black gs))
      else (Frame pd pc px pa ps # Frame gd gc gx ga gs # fs, t))"
| "tree_recolor [] t = ([], t)"
| "tree_recolor [f] t = ([f], t)"

fun tree_rotate :: "('a, 'v) frame list \<Rightarrow> ('a, 'v) rbtree \<Rightarrow> ('a, 'v) rbtree" where
  "tree_rotate [Frame pd pc px pa ps] t = bin pd Black px pa t ps"
| "tree_rotate (Frame pd pc px pa ps # Frame gd gc gx ga gs # fs) (Node nc nl nx na nr) =
     (if gd = pd
      then plug fs (bin gd Black px None (Node nc nl nx na nr) (bin gd Red gx None ps gs))
      else plug fs (bin gd Black nx None
             (bin gd pc px None ps (tree_child gd (Node nc nl nx na nr)))
             (bin gd Red gx None (tree_child pd (Node nc nl nx na nr)) gs)))"
| "tree_rotate fs t = plug fs t"

fun tree_update_augments :: "('a \<Rightarrow> 'v option \<Rightarrow> 'v option \<Rightarrow> 'v) \<Rightarrow> ('a, 'v) rbtree \<Rightarrow> ('a, 'v) rbtree" where
  "tree_update_augments f (Node c l x None r) =
     (let l' = tree_update_augments f l; r' = tree_update_augments f r
      in Node c l' x (Some (f x (tree_aug l') (tree_aug r'))) r')"
| "tree_update_augments f t = t"

fun top_color :: "('a, 'v) frame list \<Rightarrow> color" where
  "top_color [] = Black"
| "top_color (Frame d c x a s # fs) = c"

definition tree_insert where
  "tree_insert f cmp x t =
     (let fs = dirty (tree_place cmp x [] t);
          (fs', w) = tree_recolor fs (Node Red Leaf x None Leaf)
      in tree_update_augments f (if top_color fs' = Red then tree_rotate fs' w else plug fs' w))"

section \<open>Removal\<close>

fun tree_leftmost :: "('a, 'v) frame list \<Rightarrow> ('a, 'v) rbtree \<Rightarrow> ('a, 'v) location" where
  "tree_leftmost fs (Node c (Node lc ll lx la lr) x a r) =
     tree_leftmost (Frame Left c x a r # fs) (Node lc ll lx la lr)"
| "tree_leftmost fs t = (fs, t)"

fun tree_unplace :: "('a, 'v) frame list \<Rightarrow> ('a, 'v) rbtree \<Rightarrow> ('a, 'v) frame list \<times> ('a, 'v) rbtree \<times> color" where
  "tree_unplace fs Leaf = (fs, Leaf, Red)"
| "tree_unplace fs (Node c l x a r) =
     (if l = Leaf then (dirty fs, r, c)
      else if r = Leaf then (dirty fs, l, c)
      else case tree_leftmost [] r of
             (gs, Node sc sl sx sa sr) \<Rightarrow>
               (dirty (gs @ Frame Right c sx None l # fs), sr, sc)
           | (gs, Leaf) \<Rightarrow> (dirty fs, Leaf, Red))"

fun fix_black :: "direction \<Rightarrow> color \<Rightarrow> 'a \<Rightarrow> ('a, 'v) rbtree \<Rightarrow> ('a, 'v) rbtree \<Rightarrow> ('a, 'v) rbtree \<times> bool" where
  "fix_black d c x (Node sc sl sx sa sr) t =
     (let s = Node sc sl sx sa sr; inner = tree_child d s; outer = tree_child (opposite d) s in
      if tree_color sl = Black \<and> tree_color sr = Black
      then (bin d Black x None t (paint Red s), c = Black)
      else if tree_color outer = Black
      then (case inner of
              Node ic il ix ia ir \<Rightarrow>
                (bin d c ix None
                   (bin d Black x None t (tree_child d inner))
                   (bin d Black sx None (tree_child (opposite d) inner) outer), False)
            | Leaf \<Rightarrow> (bin d c x None t s, False))
      else (bin d c sx None (bin d Black x None t inner) (paint Black outer), False))"
| "fix_black d c x Leaf t = (bin d c x None t Leaf, False)"

fun tree_fixup_step :: "direction \<Rightarrow> color \<Rightarrow> 'a \<Rightarrow> ('a, 'v) rbtree \<Rightarrow> ('a, 'v) rbtree \<Rightarrow> ('a, 'v) rbtree \<times> bool" where
  "tree_fixup_step d c x (Node Red sl sx sa sr) t =
     (let s = Node Red sl sx sa sr;
          (u, deficit) = fix_black d Red x (tree_child d s) t
      in (bin d c sx None u (tree_child (opposite d) s), deficit))"
| "tree_fixup_step d c x s t = fix_black d c x s t"

fun tree_remove_fixup :: "('a, 'v) frame list \<Rightarrow> ('a, 'v) rbtree \<Rightarrow> ('a, 'v) rbtree" where
  "tree_remove_fixup [] t = t"
| "tree_remove_fixup (Frame d c x a s # fs) t =
     (let (u, deficit) = tree_fixup_step d c x s t
      in if deficit then tree_remove_fixup fs u else plug fs u)"

definition tree_remove where
  "tree_remove f loc =
     (let (fs, child, removed) = tree_unplace (fst loc) (snd loc)
      in tree_update_augments f
           (if removed = Red then plug fs child
            else if child \<noteq> Leaf then plug fs (paint Black child)
            else tree_remove_fixup fs Leaf))"

section \<open>Invariants\<close>

fun bheight :: "('a, 'v) rbtree \<Rightarrow> nat" where
  "bheight Leaf = 0"
| "bheight (Node c l x a r) = bheight l + (if c = Black then 1 else 0)"

fun invh :: "('a, 'v) rbtree \<Rightarrow> bool" where
  "invh Leaf = True"
| "invh (Node c l x a r) \<longleftrightarrow> bheight l = bheight r \<and> invh l \<and> invh r"

fun invc :: "('a, 'v) rbtree \<Rightarrow> bool" where
  "invc Leaf = True"
| "invc (Node c l x a r) \<longleftrightarrow>
     (c = Red \<longrightarrow> tree_color l = Black \<and> tree_color r = Black) \<and> invc l \<and> invc r"

fun ctx_h :: "('a, 'v) frame list \<Rightarrow> nat \<Rightarrow> bool" where
  "ctx_h [] n = True"
| "ctx_h (Frame d c x a s # fs) n \<longleftrightarrow>
     bheight s = n \<and> invh s \<and> ctx_h fs (n + (if c = Black then 1 else 0))"

fun ctx_c :: "('a, 'v) frame list \<Rightarrow> bool" where
  "ctx_c [] = True"
| "ctx_c (Frame d c x a s # fs) \<longleftrightarrow>
     invc s \<and> (c = Red \<longrightarrow> tree_color s = Black \<and> top_color fs = Black) \<and> ctx_c fs"

section \<open>Basic facts\<close>

lemma not_Black [simp]: "(c \<noteq> Black) = (c = Red)"
  by (cases c) auto

lemma not_Red [simp]: "(c \<noteq> Red) = (c = Black)"
  by (cases c) auto

lemma bin_simps [simp]:
  "bheight t = bheight s \<Longrightarrow> bheight (bin d c x a t s) = bheight t + (if c = Black then 1 else 0)"
  "invh (bin d c x a t s) \<longleftrightarrow> bheight t = bheight s \<and> invh t \<and> invh s"
  "invc (bin d c x a t s) \<longleftrightarrow>
     (c = Red \<longrightarrow> tree_color t = Black \<and> tree_color s = Black) \<and> invc t \<and> invc s"
  "tree_color (bin d c x a t s) = c"
  "tree_aug (bin d c x a t s) = a"
  "bin d c x a t s \<noteq> Leaf"
  by (cases d; auto)+

lemma inorder_plug: "inorder (plug fs t) = before fs @ inorder t @ after fs"
proof (induction fs t rule: plug.induct)
  case (2 d c x a s fs t)
  then show ?case by (cases d) auto
qed simp

lemma invh_plug: "invh (plug fs t) \<longleftrightarrow> invh t \<and> ctx_h fs (bheight t)"
  by (induction fs t rule: plug.induct) (auto)

lemma invc_plug:
  "invc (plug fs t) \<longleftrightarrow> ctx_c fs \<and> invc t \<and> (tree_color t = Red \<longrightarrow> top_color fs = Black)"
  by (induction fs t rule: plug.induct) (auto)

end
