(* ===== verification/Rb_Tree_Laws.thy ===== *)
theory Rb_Tree_Laws
  imports Rb_Tree
begin

text \<open>
  The laws of the functional red-black trees: insertion and removal preserve the colour and black-height
  invariants, change the in-order sequence only at the position they work on, and leave every cached
  augmented value equal to the one computed from its subtree.
\<close>

section \<open>Insertion\<close>

lemma dirty_frame_simps [simp]:
  "ctx_h (dirty fs) n = ctx_h fs n"
  "ctx_c (dirty fs) = ctx_c fs"
  "top_color (dirty fs) = top_color fs"
  "before (dirty fs) = before fs"
  "after (dirty fs) = after fs"
proof -
  show "top_color (dirty fs) = top_color fs" for fs :: "('a, 'v) frame list"
    by (cases fs rule: top_color.cases) auto
  note [simp] = this
  show "ctx_h (dirty fs) n = ctx_h fs n"
    by (induction fs n rule: ctx_h.induct) auto
  show "ctx_c (dirty fs) = ctx_c fs"
    by (induction fs rule: ctx_c.induct) auto
  show "before (dirty fs) = before fs"
    by (induction fs rule: before.induct) auto
  show "after (dirty fs) = after fs"
    by (induction fs rule: after.induct) auto
qed

lemma bin_inorder_before:
  "before fs @ inorder (bin d c x a t s) @ after fs =
   before (Frame d c x a s # fs) @ inorder t @ after (Frame d c x a s # fs)"
  by (cases d) auto

lemma tree_place_split:
  "before (tree_place cmp x fs t) @ after (tree_place cmp x fs t) = before fs @ inorder t @ after fs"
  by (induction cmp x fs t rule: tree_place.induct) auto

lemma tree_place_inv:
  "ctx_h fs (bheight t) \<Longrightarrow> invh t \<Longrightarrow> ctx_h (tree_place cmp x fs t) 0"
  "ctx_c fs \<Longrightarrow> invc t \<Longrightarrow> (tree_color t = Red \<longrightarrow> top_color fs = Black) \<Longrightarrow> ctx_c (tree_place cmp x fs t)"
  by (induction cmp x fs t rule: tree_place.induct) auto

lemma paint_simps [simp]:
  "inorder (paint c t) = inorder t"
  "invh (paint c t) = invh t"
  "tree_color t = Red \<Longrightarrow> bheight (paint Black t) = Suc (bheight t)"
  "tree_color t = Black \<Longrightarrow> t \<noteq> Leaf \<Longrightarrow> Suc (bheight (paint Red t)) = bheight t"
  "invc t \<Longrightarrow> invc (paint Black t)"
  "tree_color (paint Black t) = Black"
  "paint c t = Leaf \<longleftrightarrow> t = Leaf"
  by (cases t; simp)+

lemma tree_recolor_inorder:
  "tree_recolor fs t = (fs', w) \<Longrightarrow>
   before fs' @ inorder w @ after fs' = before fs @ inorder t @ after fs"
proof (induction fs t rule: tree_recolor.induct)
  case (1 pd pc px pa ps gd gc gx ga gs fs t)
  then show ?case by (cases pd; cases gd) (auto split: if_splits)
qed auto

text \<open>The tree is valid except that the focus and its parent may both be red.\<close>

definition almost :: "('a, 'v) frame list \<Rightarrow> ('a, 'v) rbtree \<Rightarrow> bool" where
  "almost fs t \<longleftrightarrow> ctx_c fs \<and> ctx_h fs (bheight t) \<and> invc t \<and> invh t \<and> tree_color t = Red"

lemma tree_recolor_almost:
  "tree_recolor fs t = (fs', w) \<Longrightarrow> almost fs t \<Longrightarrow> almost fs' w"
proof (induction fs t rule: tree_recolor.induct)
  case (1 pd pc px pa ps gd gc gx ga gs fs t)
  then show ?case by (auto simp: almost_def split: if_splits)
qed auto

lemma tree_recolor_stop:
  "tree_recolor fs t = (fs', w) \<Longrightarrow> top_color fs' = Red \<Longrightarrow>
    (\<exists>pd px pa ps. fs' = [Frame pd Red px pa ps]) \<or>
    (\<exists>pd px pa ps gd gc gx ga gs gfs. fs' = Frame pd Red px pa ps # Frame gd gc gx ga gs # gfs \<and> tree_color gs = Black)"
proof (induction fs t rule: tree_recolor.induct)
  case (1 pd pc px pa ps gd gc gx ga gs fs t)
  then show ?case by (auto split: if_splits)
next
  case (3 v t)
  then show ?case by (cases v) auto
qed auto

lemma tree_rotate_inorder: "inorder (tree_rotate fs t) = before fs @ inorder t @ after fs"
proof (cases "(fs, t)" rule: tree_rotate.cases)
  case (2 pd pc px pa ps gd gc gx ga gs fs' nc nl nx na nr)
  then show ?thesis by (cases pd; cases gd) (auto simp: inorder_plug)
next
  case (1 pd pc px pa ps t')
  then show ?thesis by (cases pd) auto
qed (auto simp: inorder_plug)

lemma tree_child_bin [simp]:
  "tree_child d (bin d c x a t s) = t" "tree_child (opposite d) (bin d c x a t s) = s"
  by (cases d; simp)+

lemma tree_child_inv [simp]:
  "invc t \<Longrightarrow> invc (tree_child d t)"
  "invh t \<Longrightarrow> invh (tree_child d t)"
  "invc t \<Longrightarrow> tree_color t = Red \<Longrightarrow> tree_color (tree_child d t) = Black"
  "invh t \<Longrightarrow> tree_color t = Red \<Longrightarrow> bheight (tree_child d t) = bheight t"
  by (cases d; cases t; auto)+

lemma tree_rotate_inv:
  assumes "almost fs t" and "top_color fs = Red"
    and "\<And>pd px pa ps gd gc gx ga gs gfs. fs = Frame pd Red px pa ps # Frame gd gc gx ga gs # gfs \<Longrightarrow> tree_color gs = Black"
  shows "invc (tree_rotate fs t) \<and> invh (tree_rotate fs t)"
proof (cases "(fs, t)" rule: tree_rotate.cases)
  case (2 pd pc px pa ps gd gc gx ga gs fs' nc nl nx na nr)
  moreover from 2 assms(2) have "pc = Red" by simp
  moreover from calculation assms(3) have "tree_color gs = Black" by simp
  ultimately show ?thesis using assms(1) by (cases pd; cases gd) (auto simp: almost_def invc_plug invh_plug)
qed (use assms in \<open>auto simp: almost_def invc_plug invh_plug\<close>)

theorem tree_insert_inv_core:
  assumes "tree_recolor fs (Node Red Leaf x None Leaf) = (fs', w)" "ctx_c fs" "ctx_h fs 0"
  shows "invc (if top_color fs' = Red then tree_rotate fs' w else plug fs' w) \<and>
         invh (if top_color fs' = Red then tree_rotate fs' w else plug fs' w)"
proof -
  have "almost fs (Node Red Leaf x None Leaf)" using assms by (simp add: almost_def)
  with assms(1) have a: "almost fs' w" by (rule tree_recolor_almost)
  show ?thesis
  proof (cases "top_color fs' = Red")
    case True
    have "invc (tree_rotate fs' w) \<and> invh (tree_rotate fs' w)"
      using a True tree_recolor_stop [OF assms(1) True] by (intro tree_rotate_inv) auto
    with True show ?thesis by simp
  next
    case False
    with a show ?thesis by (auto simp: almost_def invc_plug invh_plug)
  qed
qed

lemma tree_update_augments_simps [simp]:
  "tree_color (tree_update_augments f t) = tree_color t"
  "bheight (tree_update_augments f t) = bheight t"
  "inorder (tree_update_augments f t) = inorder t"
  by (induction f t rule: tree_update_augments.induct) (auto simp: Let_def)

lemma tree_update_augments_inv [simp]:
  "invc (tree_update_augments f t) = invc t"
  "invh (tree_update_augments f t) = invh t"
  by (induction f t rule: tree_update_augments.induct) (auto simp: Let_def)

lemma tree_insert_inv:
  assumes "invc t" "invh t"
  shows "invc (tree_insert f cmp x t)" "invh (tree_insert f cmp x t)"
proof -
  obtain fs' w where r: "tree_recolor (dirty (tree_place cmp x [] t)) (Node Red Leaf x None Leaf) = (fs', w)"
    by (rule prod.exhaust)
  from assms have "ctx_c (tree_place cmp x [] t)" "ctx_h (tree_place cmp x [] t) 0"
    by (auto intro: tree_place_inv)
  with tree_insert_inv_core [OF r] show "invc (tree_insert f cmp x t)" "invh (tree_insert f cmp x t)"
    by (auto simp: tree_insert_def r Let_def)
qed

lemma tree_insert_inorder:
  "inorder (tree_insert f cmp x t) = before (tree_place cmp x [] t) @ x # after (tree_place cmp x [] t)"
proof -
  obtain fs' w where r: "tree_recolor (dirty (tree_place cmp x [] t)) (Node Red Leaf x None Leaf) = (fs', w)"
    by (rule prod.exhaust)
  from tree_recolor_inorder [OF r] show ?thesis
    by (auto simp: tree_insert_def r Let_def tree_rotate_inorder inorder_plug)
qed

text \<open>removal\<close>

lemma before_append [simp]: "before (fs @ gs) = before gs @ before fs"
  by (induction fs rule: before.induct) auto

lemma after_append [simp]: "after (fs @ gs) = after fs @ after gs"
  by (induction fs rule: after.induct) auto

lemma ctx_h_append: "ctx_h (fs @ gs) n \<longleftrightarrow> ctx_h fs n \<and> ctx_h gs (n + length (filter (\<lambda>fr. case fr of Frame d c x a s \<Rightarrow> c = Black) fs))"
  by (induction fs n rule: ctx_h.induct) (auto simp: add_ac)

lemma tree_leftmost_plug: "tree_leftmost fs t = (gs, u) \<Longrightarrow> plug gs u = plug fs t"
  by (induction fs t rule: tree_leftmost.induct) auto

lemma tree_leftmost_frames:
  "tree_leftmost fs t = (gs, u) \<Longrightarrow> \<exists>hs. gs = hs @ fs \<and> before hs = []"
  by (induction fs t rule: tree_leftmost.induct) force+

lemma tree_leftmost_Leaf: "tree_leftmost fs t = (gs, u) \<Longrightarrow> (u = Leaf) = (t = Leaf) \<and> tree_child Left u = Leaf"
  by (induction fs t rule: tree_leftmost.induct) auto

lemma tree_leftmost_before: "tree_leftmost [] t = (gs, u) \<Longrightarrow> before gs = []"
  using tree_leftmost_frames [of "[]" t gs u] by simp

lemma tree_leftmost_inorder:
  "tree_leftmost [] t = (gs, u) \<Longrightarrow> inorder t = inorder u @ after gs"
  using tree_leftmost_plug [of "[]" t gs u] tree_leftmost_before [of t gs u]
  by (metis append_Nil inorder_plug plug.simps(1))

lemma tree_unplace_inorder:
  assumes "tree_unplace fs (Node c l x a r) = (fs', u, col)"
  shows "before fs' @ inorder u @ after fs' = before fs @ inorder l @ inorder r @ after fs"
proof (cases "l = Leaf \<or> r = Leaf")
  case True
  with assms show ?thesis by (auto split: if_splits)
next
  case False
  obtain gs v where lm: "tree_leftmost [] r = (gs, v)" by (rule prod.exhaust)
  with False tree_leftmost_Leaf [OF lm] obtain sc sx sa sr where v: "v = Node sc Leaf sx sa sr"
    by (cases v) auto
  from lm v False assms show ?thesis
    using tree_leftmost_inorder [OF lm] tree_leftmost_before [OF lm] by auto
qed

lemma tree_child_cases_inorder:
  "inorder (bin d c x a t s) = (if d = Left then inorder t @ x # inorder s else inorder s @ x # inorder t)"
  by (cases d) auto

lemma fix_black_inorder:
  "inorder (fst (fix_black d c x s t)) = inorder (bin d c x None t s)"
proof (cases "(d, c, x, s, t)" rule: fix_black.cases)
  case (1 d c x sc sl sx sa sr t)
  then show ?thesis by (cases d) (auto simp: Let_def split: rbtree.splits)
qed auto

lemma tree_fixup_step_inorder:
  "inorder (fst (tree_fixup_step d c x s t)) = inorder (bin d c x None t s)"
proof (cases "(d, c, x, s, t)" rule: tree_fixup_step.cases)
  case (1 d c x sl sx sa sr t)
  then show ?thesis
    using fix_black_inorder [of d Red x "tree_child d (Node Red sl sx sa sr)" t]
    by (cases d) (auto simp: Let_def split: prod.splits)
qed (auto simp: fix_black_inorder simp del: fix_black.simps)

lemma tree_remove_fixup_inorder:
  "inorder (tree_remove_fixup fs t) = before fs @ inorder t @ after fs"
proof (induction fs t rule: tree_remove_fixup.induct)
  case (2 d c x a s fs t)
  then show ?case
    using tree_fixup_step_inorder [of d c x s t]
    by (cases d) (auto simp: inorder_plug split: prod.splits)
qed simp

lemma tree_remove_inorder:
  "inorder (tree_remove f (fs, Node c l x a r)) = before fs @ inorder l @ inorder r @ after fs"
proof -
  obtain fs' u col where un: "tree_unplace fs (Node c l x a r) = (fs', u, col)"
    by (metis prod_cases3)
  from tree_unplace_inorder [OF un] show ?thesis
    by (auto simp: tree_remove_def un inorder_plug tree_remove_fixup_inorder simp del: tree_unplace.simps)
qed

lemma fix_black_inv:
  assumes "fix_black d c x s t = (u, deficit)" and "invc t" "invh t" "tree_color t = Black"
    and "invc s" "invh s" "bheight s = Suc (bheight t)" "tree_color s = Black"
  shows "invc u \<and> invh u \<and> (if deficit then bheight u = Suc (bheight t) \<and> c = Black
                             else bheight u = bheight s + (if c = Black then 1 else 0)) \<and>
         (c = Black \<longrightarrow> tree_color u = Black) \<and> (c = Red \<longrightarrow> \<not> deficit)"
proof (cases "(d, c, x, s, t)" rule: fix_black.cases)
  case (1 d' c' x' sc sl sx sa sr t')
  then show ?thesis
    using assms by (cases d) (auto simp: Let_def split: if_splits rbtree.splits)
next
  case (2 d c x t)
  with assms show ?thesis by simp
qed

lemma tree_fixup_step_inv:
  assumes "tree_fixup_step d c x s t = (u, deficit)" and "invc t" "invh t" "tree_color t = Black"
    and "invc s" "invh s" "bheight s = Suc (bheight t)" "c = Red \<longrightarrow> tree_color s = Black"
  shows "invc u \<and> invh u \<and> (if deficit then bheight u = Suc (bheight t) \<and> c = Black
                             else bheight u = bheight s + (if c = Black then 1 else 0)) \<and>
         (c = Black \<longrightarrow> tree_color u = Black)"
proof (cases "tree_color s = Black")
  case True
  with assms have "fix_black d c x s t = (u, deficit)" by (cases s) auto
  from fix_black_inv [OF this assms(2-7) True] show ?thesis by auto
next
  case False
  with assms(7) obtain sl sx sa sr where s: "s = Node Red sl sx sa sr" by (cases s) auto
  obtain v df where fb: "fix_black d Red x (tree_child d s) t = (v, df)" by (rule prod.exhaust)
  have "invc (tree_child d s)" "invh (tree_child d s)" "tree_color (tree_child d s) = Black"
    "bheight (tree_child d s) = Suc (bheight t)" for d
    using assms(5-7) s tree_child_inv [of s d] by auto
  with fix_black_inv [OF fb assms(2-4)]
  have v: "invc v" "invh v" "\<not> df" "bheight v = bheight (tree_child (opposite d) s)"
    by (auto split: if_splits)
  from assms(1) s fb have "u = bin d c sx None v (tree_child (opposite d) s)" "deficit = df"
    by auto
  with v assms(5-8) s show ?thesis by auto
qed

lemma tree_remove_fixup_inv:
  assumes "ctx_c fs" "ctx_h fs (Suc (bheight t))" "invc t" "invh t" "tree_color t = Black"
  shows "invc (tree_remove_fixup fs t) \<and> invh (tree_remove_fixup fs t)"
  using assms
proof (induction fs t rule: tree_remove_fixup.induct)
  case (2 d c x a s fs t)
  obtain u df where st: "tree_fixup_step d c x s t = (u, df)" by (rule prod.exhaust)
  from "2.prems" have inv: "invc u \<and> invh u \<and> (if df then bheight u = Suc (bheight t) \<and> c = Black
      else bheight u = bheight s + (if c = Black then 1 else 0)) \<and> (c = Black \<longrightarrow> tree_color u = Black)"
    by (intro tree_fixup_step_inv [OF st]) auto
  show ?case
  proof (cases df)
    case True
    with 2 inv st show ?thesis by auto
  next
    case False
    with "2.prems" inv st show ?thesis by (cases c) (auto simp: invc_plug invh_plug)
  qed
qed simp

lemma plug_append: "plug (fs @ gs) t = plug gs (plug fs t)"
  by (induction fs t rule: plug.induct) auto

lemma black_height_0: "invh t \<Longrightarrow> bheight t = 0 \<Longrightarrow> invc t \<Longrightarrow> tree_color t = Black \<Longrightarrow> t = Leaf"
  by (cases t) auto

text \<open>
  The location that \<^verbatim>\<open>tree_unplace\<close> returns is the one of a node with at most one child, so the
  child has black height zero.
\<close>

lemma unplaced_shape:
  assumes "invc (plug fs (bin d col y b u Leaf))" "invh (plug fs (bin d col y b u Leaf))"
  shows "ctx_c fs" "ctx_h fs (if col = Black then 1 else 0)" "invc u" "invh u" "bheight u = 0"
    "col = Red \<Longrightarrow> u = Leaf"
  using assms by (auto simp: invc_plug invh_plug split: if_splits intro: black_height_0)

lemma tree_unplace_shape:
  assumes "tree_unplace fs (Node c l x a r) = (fs', u, col)"
    and "invc (plug fs (Node c l x a r))" "invh (plug fs (Node c l x a r))"
  shows "\<exists>d y b. invc (plug fs' (bin d col y b u Leaf)) \<and> invh (plug fs' (bin d col y b u Leaf))"
proof (cases "l = Leaf \<or> r = Leaf")
  case True
  then show ?thesis
  proof
    assume "l = Leaf"
    with assms have "fs' = dirty fs" "u = r" "col = c" by auto
    with \<open>l = Leaf\<close> assms show ?thesis
      by (intro exI [of _ Right] exI [of _ x] exI [of _ a]) (auto simp: invc_plug invh_plug)
  next
    assume r: "r = Leaf"
    then have "fs' = dirty fs" "u = l" "col = c" using assms by (auto split: if_splits)
    with r assms show ?thesis
      by (intro exI [of _ Left] exI [of _ x] exI [of _ a]) (auto simp: invc_plug invh_plug)
  qed
next
  case False
  obtain gs v where lm: "tree_leftmost [] r = (gs, v)" by (rule prod.exhaust)
  with False tree_leftmost_Leaf [OF lm] obtain sx sa where v: "v = bin Right col sx sa u Leaf"
    and fs': "fs' = dirty (gs @ Frame Right c sx None l # fs)"
    using assms(1) by (cases v) auto
  have "plug (gs @ Frame Right c sx None l # fs) v = plug fs (Node c l sx None r)"
    using tree_leftmost_plug [OF lm] by (simp add: plug_append)
  moreover have "invc (plug fs (Node c l sx None r))" "invh (plug fs (Node c l sx None r))"
    using assms(2,3) by (auto simp: invc_plug invh_plug)
  ultimately have "invc (plug fs' v)" "invh (plug fs' v)"
    unfolding fs' invc_plug invh_plug dirty_frame_simps by (metis invc_plug, metis invh_plug)
  with v show ?thesis by blast
qed

lemma tree_remove_inv:
  assumes "invc (plug fs (Node c l x a r))" "invh (plug fs (Node c l x a r))"
  shows "invc (tree_remove f (fs, Node c l x a r))" "invh (tree_remove f (fs, Node c l x a r))"
proof -
  obtain fs' u col where un: "tree_unplace fs (Node c l x a r) = (fs', u, col)"
    by (metis prod_cases3)
  from tree_unplace_shape [OF un assms] obtain d y b where
    i: "invc (plug fs' (bin d col y b u Leaf))" "invh (plug fs' (bin d col y b u Leaf))" by blast
  note sh = unplaced_shape [OF i]
  have "invc (tree_remove f (fs, Node c l x a r)) \<and> invh (tree_remove f (fs, Node c l x a r))"
  proof (cases col)
    case Red
    with sh show ?thesis
      by (auto simp: tree_remove_def un invc_plug invh_plug simp del: tree_unplace.simps)
  next
    case Black
    show ?thesis
    proof (cases "u = Leaf")
      case True
      with Black sh tree_remove_fixup_inv [of fs' Leaf] show ?thesis
        by (auto simp: tree_remove_def un simp del: tree_unplace.simps)
    next
      case False
      with sh have "tree_color u = Red" using black_height_0 by fastforce
      with Black False sh show ?thesis
        by (auto simp: tree_remove_def un invc_plug invh_plug simp del: tree_unplace.simps)
    qed
  qed
  then show "invc (tree_remove f (fs, Node c l x a r))" "invh (tree_remove f (fs, Node c l x a r))"
    by auto
qed

section \<open>Augmented values\<close>

fun clean :: "('a \<Rightarrow> 'v option \<Rightarrow> 'v option \<Rightarrow> 'v) \<Rightarrow> ('a, 'v) rbtree \<Rightarrow> bool" where
  "clean f Leaf = True"
| "clean f (Node c l x a r) \<longleftrightarrow> clean f l \<and> clean f r \<and> a = Some (f x (tree_aug l) (tree_aug r))"

text \<open>A node without a cached value has only such ancestors: \<^verbatim>\<open>semi\<close> trees are clean below their
  dirty top part.\<close>

fun semi :: "('a \<Rightarrow> 'v option \<Rightarrow> 'v option \<Rightarrow> 'v) \<Rightarrow> ('a, 'v) rbtree \<Rightarrow> bool" where
  "semi f Leaf = True"
| "semi f (Node c l x None r) \<longleftrightarrow> semi f l \<and> semi f r"
| "semi f (Node c l x (Some v) r) \<longleftrightarrow> clean f (Node c l x (Some v) r)"

fun ctx_clean :: "('a \<Rightarrow> 'v option \<Rightarrow> 'v option \<Rightarrow> 'v) \<Rightarrow> ('a, 'v) frame list \<Rightarrow> bool" where
  "ctx_clean f [] = True"
| "ctx_clean f (Frame d c x a s # fs) \<longleftrightarrow> a = None \<and> semi f s \<and> ctx_clean f fs"

lemma clean_semi [simp]: "clean f t \<Longrightarrow> semi f t"
  by (cases t; cases "tree_aug t") auto

lemma semi_update_augments: "semi f t \<Longrightarrow> clean f (tree_update_augments f t)"
  by (induction f t rule: semi.induct) (auto simp: Let_def)

lemma semi_bin [simp]: "semi f (bin d c x None t s) \<longleftrightarrow> semi f t \<and> semi f s"
  by (cases d) auto

lemma semi_paint [simp]: "semi f (paint c t) = semi f t"
  by (cases t; cases "tree_aug t") auto

lemma semi_child [simp]: "semi f t \<Longrightarrow> semi f (tree_child d t)"
  by (cases t; cases d; cases "tree_aug t") auto

lemma semi_NodeD: "semi f (Node c l x a r) \<Longrightarrow> semi f l \<and> semi f r"
  by (cases a) auto

lemma semi_recolor: "semi f (Node c l x a r) \<Longrightarrow> semi f (Node c' l x a r)"
  by (cases a) auto

lemma semi_plug: "ctx_clean f fs \<Longrightarrow> semi f (plug fs t) = semi f t"
  by (induction fs t rule: plug.induct) auto

lemma semi_bin_D: "semi f (bin d c x a t s) \<Longrightarrow> semi f t \<and> semi f s"
  by (cases d; cases a) auto

lemma semi_ctx: "semi f (plug fs t) \<Longrightarrow> ctx_clean f (dirty fs) \<and> semi f t"
proof (induction fs t rule: plug.induct)
  case (2 d c x a s fs t)
  then show ?case using semi_bin_D [of f d c x a t s] by auto
qed simp

lemma ctx_clean_append [simp]: "ctx_clean f (fs @ gs) \<longleftrightarrow> ctx_clean f fs \<and> ctx_clean f gs"
  by (induction f fs rule: ctx_clean.induct) auto

lemma tree_place_plug: "plug (tree_place cmp x fs t) Leaf = plug fs t"
  by (induction cmp x fs t rule: tree_place.induct) auto

lemma tree_recolor_clean:
  "tree_recolor fs t = (fs', w) \<Longrightarrow> ctx_clean f fs \<Longrightarrow> semi f t \<Longrightarrow> ctx_clean f fs' \<and> semi f w"
proof (induction fs t rule: tree_recolor.induct)
  case (1 pd pc px pa ps gd gc gx ga gs fs t)
  then show ?case by (auto split: if_splits)
qed auto

lemma tree_rotate_clean: "ctx_clean f fs \<Longrightarrow> semi f t \<Longrightarrow> semi f (tree_rotate fs t)"
  by (cases "(fs, t)" rule: tree_rotate.cases) (auto simp: semi_plug)

lemma tree_insert_clean:
  assumes "semi f t"
  shows "clean f (tree_insert f cmp x t)"
proof -
  obtain fs' w where r: "tree_recolor (dirty (tree_place cmp x [] t)) (Node Red Leaf x None Leaf) = (fs', w)"
    by (rule prod.exhaust)
  have "semi f (plug (tree_place cmp x [] t) Leaf)" by (simp add: tree_place_plug assms)
  then have "ctx_clean f (dirty (tree_place cmp x [] t))" by (blast dest: semi_ctx)
  with tree_recolor_clean [OF r, of f] have "ctx_clean f fs'" "semi f w" by auto
  then show ?thesis
    by (auto simp: tree_insert_def r Let_def semi_plug tree_rotate_clean intro!: semi_update_augments)
qed

lemma fix_black_clean: "semi f s \<Longrightarrow> semi f t \<Longrightarrow> semi f (fst (fix_black d c x s t))"
  by (cases s; cases d) (auto simp: Let_def split: rbtree.splits dest: semi_NodeD intro: semi_recolor)

lemma tree_fixup_step_clean:
  assumes "semi f s" "semi f t"
  shows "semi f (fst (tree_fixup_step d c x s t))"
proof (cases "(d, c, x, s, t)" rule: tree_fixup_step.cases)
  case (1 d c x sl sx sa sr t)
  with assms show ?thesis
    using fix_black_clean [of f "tree_child d s" t d Red x] semi_child [of f s "opposite d"]
    by (auto simp: Let_def split: prod.splits)
qed (use assms in \<open>auto simp: fix_black_clean simp del: fix_black.simps\<close>)

lemma tree_remove_fixup_clean:
  "ctx_clean f fs \<Longrightarrow> semi f t \<Longrightarrow> semi f (tree_remove_fixup fs t)"
proof (induction fs t rule: tree_remove_fixup.induct)
  case (2 d c x a s fs t)
  then show ?case
    using tree_fixup_step_clean [of f s t d c x] by (auto simp: semi_plug split: prod.splits)
qed simp

lemma tree_unplace_clean:
  assumes "tree_unplace fs (Node c l x a r) = (fs', u, col)" "semi f (plug fs (Node c l x a r))"
  shows "ctx_clean f fs' \<and> semi f u"
proof -
  from semi_ctx [OF assms(2)] have cl: "ctx_clean f (dirty fs)" "semi f l" "semi f r"
    using semi_NodeD [of f c l x a r] by auto
  show ?thesis
  proof (cases "l = Leaf \<or> r = Leaf")
    case True
    with assms(1) cl show ?thesis by (auto split: if_splits)
  next
    case False
    obtain gs v where lm: "tree_leftmost [] r = (gs, v)" by (rule prod.exhaust)
    have "semi f (plug gs v)" using tree_leftmost_plug [OF lm] cl by simp
    then have "ctx_clean f (dirty gs) \<and> semi f v" by (rule semi_ctx)
    with False lm assms(1) cl tree_leftmost_Leaf [OF lm] show ?thesis
      by (cases v) (auto split: if_splits dest: semi_NodeD)
  qed
qed

lemma tree_remove_clean:
  assumes "semi f (plug fs (Node c l x a r))"
  shows "clean f (tree_remove f (fs, Node c l x a r))"
proof -
  obtain fs' u col where un: "tree_unplace fs (Node c l x a r) = (fs', u, col)"
    by (metis prod_cases3)
  with tree_unplace_clean [OF un assms] show ?thesis
    by (auto simp: tree_remove_def semi_plug tree_remove_fixup_clean simp del: tree_unplace.simps intro!: semi_update_augments)
qed

end
