(* ===== verification/Rb_Heap.thy ===== *)
theory Rb_Heap
  imports Rb_Tree "HOL-Library.Monad_Syntax"
begin

text \<open>
  The pointer programs of \<^verbatim>\<open>memory/rbtree.rs\<close>, translated statement by statement.  A heap maps addresses
  to nodes, a null pointer is \<^term>\<open>None\<close>, and every program runs in the option monad: reading through a
  null or dangling pointer, a failed \<^verbatim>\<open>assert!\<close> and a loop that does not end are all \<^term>\<open>None\<close>.
\<close>

type_synonym ptr = "nat option"

record ('a, 'v) rbnode =
  rb_color :: color
  rb_parent :: ptr
  rb_left :: ptr
  rb_right :: ptr
  rb_value :: 'a
  rb_augment :: "'v option"

type_synonym ('a, 'v) heap = "nat \<Rightarrow> ('a, 'v) rbnode option"

record ('a, 'v) rbmem =
  mem :: "('a, 'v) heap"
  head :: ptr

definition node_new :: "'a \<Rightarrow> ('a, 'v) rbnode" where
  "node_new v = \<lparr>rb_color = Red, rb_parent = None, rb_left = None, rb_right = None,
                rb_value = v, rb_augment = None\<rparr>"

partial_function (option) mark_dirty :: "('a, 'v) heap \<Rightarrow> ptr \<Rightarrow> ('a, 'v) heap option" where
  "mark_dirty h node =
     (case node of
        None \<Rightarrow> Some h
      | Some p \<Rightarrow> do {
          n \<leftarrow> h p;
          if rb_augment n = None then Some h
          else mark_dirty (h(p \<mapsto> n\<lparr>rb_augment := None\<rparr>)) (rb_parent n) })"

fun child :: "('a, 'v) rbnode \<Rightarrow> direction \<Rightarrow> ptr" where
  "child n Left = rb_left n"
| "child n Right = rb_right n"

fun upd_child :: "direction \<Rightarrow> ptr \<Rightarrow> ('a, 'v) rbnode \<Rightarrow> ('a, 'v) rbnode" where
  "upd_child Left p n = n\<lparr>rb_left := p\<rparr>"
| "upd_child Right p n = n\<lparr>rb_right := p\<rparr>"

definition set_child :: "('a, 'v) heap \<Rightarrow> nat \<Rightarrow> direction \<Rightarrow> ptr \<Rightarrow> ('a, 'v) heap option" where
  "set_child h self dir v = do {
     n \<leftarrow> h self;
     h \<leftarrow> mark_dirty (h(self \<mapsto> upd_child dir v n)) (Some self);
     case v of
       None \<Rightarrow> Some h
     | Some p \<Rightarrow> do { m \<leftarrow> h p; Some (h(p \<mapsto> m\<lparr>rb_parent := Some self\<rparr>)) } }"

definition child_dir :: "('a, 'v) rbnode \<Rightarrow> ptr \<Rightarrow> direction option" where
  "child_dir n c =
     (if rb_left n = c \<or> rb_right n = c
      then Some (if rb_left n = c then Left else Right)
      else None)"

definition grandparent :: "('a, 'v) heap \<Rightarrow> ('a, 'v) rbnode \<Rightarrow> ptr option" where
  "grandparent h n =
     (case rb_parent n of None \<Rightarrow> Some None | Some p \<Rightarrow> do { m \<leftarrow> h p; Some (rb_parent m) })"

definition uncle :: "('a, 'v) heap \<Rightarrow> ('a, 'v) rbnode \<Rightarrow> ptr option" where
  "uncle h n = do {
     g \<leftarrow> grandparent h n;
     case g of
       None \<Rightarrow> Some None
     | Some q \<Rightarrow> do {
         m \<leftarrow> h q;
         Some (if rb_left m = rb_parent n then rb_right m else rb_left m) } }"

definition color_at :: "('a, 'v) heap \<Rightarrow> ptr \<Rightarrow> color option" where
  "color_at h node = (case node of None \<Rightarrow> Some Black | Some p \<Rightarrow> do { n \<leftarrow> h p; Some (rb_color n) })"

definition is_dirty :: "('a, 'v) heap \<Rightarrow> ptr \<Rightarrow> bool option" where
  "is_dirty h node =
     (case node of None \<Rightarrow> Some False | Some p \<Rightarrow> do { n \<leftarrow> h p; Some (rb_augment n = None) })"

definition set_color :: "('a, 'v) heap \<Rightarrow> ptr \<Rightarrow> color \<Rightarrow> ('a, 'v) heap option" where
  "set_color h node c = do { p \<leftarrow> node; n \<leftarrow> h p; Some (h(p \<mapsto> n\<lparr>rb_color := c\<rparr>)) }"

datatype link = HeadLink | ChildLink nat direction

fun read_link :: "('a, 'v) rbmem \<Rightarrow> link \<Rightarrow> ptr option" where
  "read_link s HeadLink = Some (head s)"
| "read_link s (ChildLink p d) = do { n \<leftarrow> mem s p; Some (child n d) }"

fun write_link :: "('a, 'v) rbmem \<Rightarrow> link \<Rightarrow> ptr \<Rightarrow> ('a, 'v) rbmem option" where
  "write_link s HeadLink v = Some (s\<lparr>head := v\<rparr>)"
| "write_link s (ChildLink p d) v = do { n \<leftarrow> mem s p; Some (s\<lparr>mem := (mem s)(p \<mapsto> upd_child d v n)\<rparr>) }"

partial_function (option) place_loop ::
  "('a, 'v) rbmem \<Rightarrow> ('a \<Rightarrow> 'a \<Rightarrow> ordering) \<Rightarrow> 'a \<Rightarrow> ptr \<Rightarrow> link \<Rightarrow> (ptr \<times> link) option" where
  "place_loop s cmp x parent link = do {
     p \<leftarrow> read_link s link;
     case p of
       None \<Rightarrow> Some (parent, link)
     | Some q \<Rightarrow> do {
         m \<leftarrow> mem s q;
         place_loop s cmp x (Some q)
           (if is_le (cmp x (rb_value m)) then ChildLink q Left else ChildLink q Right) } }"

definition place :: "('a, 'v) rbmem \<Rightarrow> nat \<Rightarrow> ('a \<Rightarrow> 'a \<Rightarrow> ordering) \<Rightarrow> ('a, 'v) rbmem option" where
  "place s node cmp = do {
     n \<leftarrow> mem s node;
     let n = n\<lparr>rb_color := Red, rb_left := None, rb_right := None, rb_augment := None\<rparr>;
     let s = s\<lparr>mem := (mem s)(node \<mapsto> n)\<rparr>;
     (parent, link) \<leftarrow> place_loop s cmp (rb_value n) None HeadLink;
     let s = s\<lparr>mem := (mem s)(node \<mapsto> n\<lparr>rb_parent := parent\<rparr>)\<rparr>;
     write_link s link (Some node) }"

partial_function (option) leftmost :: "('a, 'v) heap \<Rightarrow> nat \<Rightarrow> nat option" where
  "leftmost h p = do {
     n \<leftarrow> h p;
     case rb_left n of None \<Rightarrow> Some p | Some l \<Rightarrow> leftmost h l }"

definition successor_child :: "('a, 'v) heap \<Rightarrow> nat \<Rightarrow> nat option" where
  "successor_child h node = do { n \<leftarrow> h node; r \<leftarrow> rb_right n; leftmost h r }"

partial_function (option) recolor :: "('a, 'v) heap \<Rightarrow> nat \<Rightarrow> (('a, 'v) heap \<times> nat) option" where
  "recolor h node = do {
     n \<leftarrow> h node;
     g \<leftarrow> grandparent h n;
     u \<leftarrow> uncle h n;
     pc \<leftarrow> color_at h (rb_parent n);
     uc \<leftarrow> color_at h u;
     if pc = Red \<and> uc = Red then do {
       h \<leftarrow> set_color h g Red;
       h \<leftarrow> set_color h (rb_parent n) Black;
       h \<leftarrow> set_color h u Black;
       q \<leftarrow> g;
       recolor h q }
     else Some (h, node) }"

definition child_augment :: "('a, 'v) heap \<Rightarrow> ptr \<Rightarrow> 'v option option" where
  "child_augment h node =
     (case node of None \<Rightarrow> Some None | Some p \<Rightarrow> do { n \<leftarrow> h p; Some (rb_augment n) })"

definition calculate_augment ::
  "('a, 'v) heap \<Rightarrow> ('a \<Rightarrow> 'v option \<Rightarrow> 'v option \<Rightarrow> 'v) \<Rightarrow> nat \<Rightarrow> ('a, 'v) heap option" where
  "calculate_augment h f node = do {
     n \<leftarrow> h node;
     l \<leftarrow> child_augment h (rb_left n);
     r \<leftarrow> child_augment h (rb_right n);
     Some (h(node \<mapsto> n\<lparr>rb_augment := Some (f (rb_value n) l r)\<rparr>)) }"

partial_function (option) update_loop ::
  "('a, 'v) heap \<Rightarrow> ('a \<Rightarrow> 'v option \<Rightarrow> 'v option \<Rightarrow> 'v) \<Rightarrow> nat \<Rightarrow> ('a, 'v) heap option" where
  "update_loop h f node = do {
     n \<leftarrow> h node;
     ld \<leftarrow> is_dirty h (rb_left n);
     if ld then do { l \<leftarrow> rb_left n; update_loop h f l }
     else do {
       rd \<leftarrow> is_dirty h (rb_right n);
       if rd then do { r \<leftarrow> rb_right n; update_loop h f r }
       else do {
         h \<leftarrow> calculate_augment h f node;
         (case rb_parent n of None \<Rightarrow> Some h | Some p \<Rightarrow> update_loop h f p) } } }"

definition update_augments ::
  "('a, 'v) rbmem \<Rightarrow> ('a \<Rightarrow> 'v option \<Rightarrow> 'v option \<Rightarrow> 'v) \<Rightarrow> ('a, 'v) rbmem option" where
  "update_augments s f = do {
     d \<leftarrow> is_dirty (mem s) (head s);
     if \<not> d then Some s
     else do { p \<leftarrow> head s; h \<leftarrow> update_loop (mem s) f p; Some (s\<lparr>mem := h\<rparr>) } }"

definition replace_node :: "('a, 'v) rbmem \<Rightarrow> nat \<Rightarrow> ptr \<Rightarrow> ('a, 'v) rbmem option" where
  "replace_node s node replacement = do {
     n \<leftarrow> mem s node;
     case rb_parent n of
       None \<Rightarrow>
         (case replacement of
            None \<Rightarrow> Some (s\<lparr>head := None\<rparr>)
          | Some r \<Rightarrow> do {
              m \<leftarrow> mem s r;
              Some (s\<lparr>mem := (mem s)(r \<mapsto> m\<lparr>rb_parent := None\<rparr>), head := Some r\<rparr>) })
     | Some p \<Rightarrow> do {
         m \<leftarrow> mem s p;
         d \<leftarrow> child_dir m (Some node);
         h \<leftarrow> set_child (mem s) p d replacement;
         Some (s\<lparr>mem := h\<rparr>) } }"

definition rotate :: "('a, 'v) rbmem \<Rightarrow> nat \<Rightarrow> ('a, 'v) rbmem option" where
  "rotate s node = do {
     n \<leftarrow> mem s node;
     parent \<leftarrow> rb_parent n;
     g \<leftarrow> grandparent (mem s) n;
     case g of
       None \<Rightarrow> do { h \<leftarrow> set_color (mem s) (Some parent) Black; Some (s\<lparr>mem := h\<rparr>) }
     | Some grand \<Rightarrow> do {
         gn \<leftarrow> mem s grand;
         side \<leftarrow> child_dir gn (Some parent);
         pn \<leftarrow> mem s parent;
         nd \<leftarrow> child_dir pn (Some node);
         (h, parent) \<leftarrow>
           (if side \<noteq> nd then do {
              let child_outer = child n side;
              h \<leftarrow> set_child (mem s) grand side (Some node);
              h \<leftarrow> set_child h node side (Some parent);
              h \<leftarrow> set_child h parent (opposite side) child_outer;
              Some (h, node) }
            else Some (mem s, parent));
         pn \<leftarrow> h parent;
         let sibling = child pn (opposite side);
         s \<leftarrow> replace_node (s\<lparr>mem := h\<rparr>) grand (Some parent);
         h \<leftarrow> set_child (mem s) parent (opposite side) (Some grand);
         h \<leftarrow> set_child h grand side sibling;
         h \<leftarrow> set_color h (Some parent) Black;
         h \<leftarrow> set_color h (Some grand) Red;
         Some (s\<lparr>mem := h\<rparr>) } }"

definition insert_raw ::
  "('a, 'v) rbmem \<Rightarrow> ('a \<Rightarrow> 'v option \<Rightarrow> 'v option \<Rightarrow> 'v) \<Rightarrow> nat \<Rightarrow> ('a \<Rightarrow> 'a \<Rightarrow> ordering) \<Rightarrow> ('a, 'v) rbmem option" where
  "insert_raw s f node cmp = do {
     s \<leftarrow> place s node cmp;
     n \<leftarrow> mem s node;
     h \<leftarrow> mark_dirty (mem s) (rb_parent n);
     (h, w) \<leftarrow> recolor h node;
     wn \<leftarrow> h w;
     pc \<leftarrow> color_at h (rb_parent wn);
     s \<leftarrow> (if pc = Red then rotate (s\<lparr>mem := h\<rparr>) w else Some (s\<lparr>mem := h\<rparr>));
     update_augments s f }"

definition unplace :: "('a, 'v) rbmem \<Rightarrow> nat \<Rightarrow> (('a, 'v) rbmem \<times> ptr \<times> ptr \<times> color) option" where
  "unplace s node = do {
     n \<leftarrow> mem s node;
     if rb_left n = None then do {
       s \<leftarrow> replace_node s node (rb_right n);
       n \<leftarrow> mem s node;
       Some (s, rb_parent n, rb_right n, rb_color n) }
     else if rb_right n = None then do {
       s \<leftarrow> replace_node s node (rb_left n);
       n \<leftarrow> mem s node;
       Some (s, rb_parent n, rb_left n, rb_color n) }
     else do {
       succ \<leftarrow> successor_child (mem s) node;
       sn \<leftarrow> mem s succ;
       let fixup_parent = (if rb_parent sn = Some node then Some succ else rb_parent sn);
       let replacement = rb_right sn;
       s \<leftarrow> replace_node s succ (rb_right sn);
       s \<leftarrow> replace_node s node (Some succ);
       n \<leftarrow> mem s node;
       h \<leftarrow> set_child (mem s) succ Left (rb_left n);
       n \<leftarrow> h node;
       h \<leftarrow> set_child h succ Right (rb_right n);
       n \<leftarrow> h node;
       sn \<leftarrow> h succ;
       h \<leftarrow> set_color h (Some node) (rb_color sn);
       h \<leftarrow> set_color h (Some succ) (rb_color n);
       Some (s\<lparr>mem := h\<rparr>, fixup_parent, replacement, rb_color sn) } }"

definition swap_color :: "('a, 'v) heap \<Rightarrow> nat \<Rightarrow> nat \<Rightarrow> ('a, 'v) heap option" where
  "swap_color h p q = do {
     m \<leftarrow> h p;
     n \<leftarrow> h q;
     h \<leftarrow> set_color h (Some p) (rb_color n);
     set_color h (Some q) (rb_color m) }"

definition fixup_sibling :: "('a, 'v) rbmem \<Rightarrow> nat \<Rightarrow> direction \<Rightarrow> (('a, 'v) rbmem \<times> nat) option" where
  "fixup_sibling s parent ds = do {
     pn \<leftarrow> mem s parent;
     sibling \<leftarrow> child pn (opposite ds);
     sc \<leftarrow> color_at (mem s) (Some sibling);
     if sc = Red then do {
       sn \<leftarrow> mem s sibling;
       let sibling_child = child sn ds;
       s \<leftarrow> replace_node s parent (Some sibling);
       h \<leftarrow> set_child (mem s) sibling ds (Some parent);
       h \<leftarrow> set_child h parent (opposite ds) sibling_child;
       h \<leftarrow> swap_color h sibling parent;
       sb \<leftarrow> sibling_child;
       Some (s\<lparr>mem := h\<rparr>, sb) }
     else Some (s, sibling) }"

definition fixup_inner :: "('a, 'v) rbmem \<Rightarrow> nat \<Rightarrow> direction \<Rightarrow> nat \<Rightarrow> (('a, 'v) rbmem \<times> nat) option" where
  "fixup_inner s parent ds sibling = do {
     sn \<leftarrow> mem s sibling;
     let inner_child = child sn ds;
     let outer_child = child sn (opposite ds);
     oc \<leftarrow> color_at (mem s) outer_child;
     if oc = Black then do {
       inner \<leftarrow> inner_child;
       icn \<leftarrow> mem s inner;
       let grand_child = child icn (opposite ds);
       h \<leftarrow> set_child (mem s) parent (opposite ds) (Some inner);
       h \<leftarrow> set_child h inner (opposite ds) (Some sibling);
       h \<leftarrow> set_child h sibling ds grand_child;
       h \<leftarrow> swap_color h sibling inner;
       Some (s\<lparr>mem := h\<rparr>, inner) }
     else Some (s, sibling) }"

definition fixup_outer :: "('a, 'v) rbmem \<Rightarrow> nat \<Rightarrow> direction \<Rightarrow> nat \<Rightarrow> ('a, 'v) rbmem option" where
  "fixup_outer s parent ds sibling = do {
     sn \<leftarrow> mem s sibling;
     let inner_child = child sn ds;
     let outer_child = child sn (opposite ds);
     s \<leftarrow> replace_node s parent (Some sibling);
     h \<leftarrow> set_child (mem s) sibling ds (Some parent);
     h \<leftarrow> set_child h parent (opposite ds) inner_child;
     pn \<leftarrow> h parent;
     h \<leftarrow> set_color h (Some sibling) (rb_color pn);
     h \<leftarrow> set_color h (Some parent) Black;
     h \<leftarrow> set_color h outer_child Black;
     Some (s\<lparr>mem := h\<rparr>) }"

definition fixup_balance :: "('a, 'v) rbmem \<Rightarrow> nat \<Rightarrow> direction \<Rightarrow> nat \<Rightarrow> (('a, 'v) rbmem \<times> bool) option" where
  "fixup_balance s parent ds sibling = do {
     sn \<leftarrow> mem s sibling;
     lc \<leftarrow> color_at (mem s) (rb_left sn);
     rc \<leftarrow> color_at (mem s) (rb_right sn);
     if lc = Black \<and> rc = Black then do {
       h \<leftarrow> set_color (mem s) (Some sibling) Red;
       pc \<leftarrow> color_at h (Some parent);
       if pc = Red then do {
         h \<leftarrow> set_color h (Some parent) Black;
         Some (s\<lparr>mem := h\<rparr>, False) }
       else Some (s\<lparr>mem := h\<rparr>, True) }
     else do {
       (s, sibling) \<leftarrow> fixup_inner s parent ds sibling;
       s \<leftarrow> fixup_outer s parent ds sibling;
       Some (s, False) } }"

partial_function (option) remove_fixup :: "('a, 'v) rbmem \<Rightarrow> nat \<Rightarrow> direction \<Rightarrow> ('a, 'v) rbmem option" where
  "remove_fixup s parent ds = do {
     (s, sibling) \<leftarrow> fixup_sibling s parent ds;
     (s, going_up) \<leftarrow> fixup_balance s parent ds sibling;
     if \<not> going_up then Some s
     else do {
       pn \<leftarrow> mem s parent;
       (case rb_parent pn of
          None \<Rightarrow> Some s
        | Some g \<Rightarrow> do {
            gn \<leftarrow> mem s g;
            d \<leftarrow> child_dir gn (Some parent);
            remove_fixup s g d }) } }"

definition remove_rebalance ::
  "('a, 'v) rbmem \<Rightarrow> ptr \<Rightarrow> ptr \<Rightarrow> color \<Rightarrow> ('a, 'v) rbmem option" where
  "remove_rebalance s fixup_parent fixup_child removed_color =
     (if removed_color = Red then Some s
      else case fixup_child of
        Some c \<Rightarrow> do {
          cn \<leftarrow> mem s c;
          if rb_color cn = Red then do {
            h \<leftarrow> set_color (mem s) (Some c) Black;
            Some (s\<lparr>mem := h\<rparr>) }
          else None }
      | None \<Rightarrow>
          (case fixup_parent of
             None \<Rightarrow> Some s
           | Some p \<Rightarrow> do {
               pn \<leftarrow> mem s p;
               remove_fixup s p (if rb_left pn = None then Left else Right) }))"

definition remove_raw ::
  "('a, 'v) rbmem \<Rightarrow> ('a \<Rightarrow> 'v option \<Rightarrow> 'v option \<Rightarrow> 'v) \<Rightarrow> nat \<Rightarrow> ('a, 'v) rbmem option" where
  "remove_raw s f node = do {
     (s, fixup_parent, fixup_child, removed_color) \<leftarrow> unplace s node;
     s \<leftarrow> remove_rebalance s fixup_parent fixup_child removed_color;
     update_augments s f }"

section \<open>Searching\<close>

partial_function (option) find_loop :: "('a, 'v) heap \<Rightarrow> ('a \<Rightarrow> 'v \<Rightarrow> ordering) \<Rightarrow> ptr \<Rightarrow> ptr option" where
  "find_loop h eval node =
     (case node of
        None \<Rightarrow> Some None
      | Some p \<Rightarrow> do {
          n \<leftarrow> h p;
          a \<leftarrow> rb_augment n;
          (case eval (rb_value n) a of
             Greater \<Rightarrow> find_loop h eval (rb_left n)
           | Equal \<Rightarrow> Some (Some p)
           | Less \<Rightarrow> find_loop h eval (rb_right n)) })"

definition find_raw :: "('a, 'v) rbmem \<Rightarrow> ('a \<Rightarrow> 'v \<Rightarrow> ordering) \<Rightarrow> ptr option" where
  "find_raw s eval = find_loop (mem s) eval (head s)"

partial_function (option) lower_bound_loop ::
  "('a, 'v) heap \<Rightarrow> ('a \<Rightarrow> 'v \<Rightarrow> bool) \<Rightarrow> ptr \<Rightarrow> ptr \<Rightarrow> ptr option" where
  "lower_bound_loop h eval candidate node =
     (case node of
        None \<Rightarrow> Some candidate
      | Some p \<Rightarrow> do {
          n \<leftarrow> h p;
          a \<leftarrow> rb_augment n;
          (if eval (rb_value n) a then lower_bound_loop h eval (Some p) (rb_left n)
           else lower_bound_loop h eval candidate (rb_right n)) })"

definition lower_bound_raw :: "('a, 'v) rbmem \<Rightarrow> ('a \<Rightarrow> 'v \<Rightarrow> bool) \<Rightarrow> ptr option" where
  "lower_bound_raw s eval = lower_bound_loop (mem s) eval None (head s)"

section \<open>Walking through a tree\<close>

definition lowest_node_raw :: "('a, 'v) rbmem \<Rightarrow> ptr option" where
  "lowest_node_raw s =
     (case head s of None \<Rightarrow> Some None | Some p \<Rightarrow> do { q \<leftarrow> leftmost (mem s) p; Some (Some q) })"

partial_function (option) climb :: "('a, 'v) heap \<Rightarrow> nat \<Rightarrow> ptr option" where
  "climb h node = do {
     n \<leftarrow> h node;
     (case rb_parent n of
        None \<Rightarrow> Some None
      | Some p \<Rightarrow> do {
          m \<leftarrow> h p;
          (if rb_left m = Some node then Some (Some p) else climb h p) }) }"

definition successor :: "('a, 'v) heap \<Rightarrow> nat \<Rightarrow> ptr option" where
  "successor h p = do {
     n \<leftarrow> h p;
     (if rb_right n = None then climb h p
      else do { q \<leftarrow> successor_child h p; Some (Some q) }) }"

definition iter_next :: "('a, 'v) heap \<Rightarrow> ptr \<Rightarrow> ((nat \<times> ptr) option) option" where
  "iter_next h node =
     (case node of
        None \<Rightarrow> Some None
      | Some p \<Rightarrow> do { q \<leftarrow> successor h p; Some (Some (p, q)) })"

partial_function (option) iter_values :: "('a, 'v) heap \<Rightarrow> ptr \<Rightarrow> 'a list option" where
  "iter_values h node = do {
     it \<leftarrow> iter_next h node;
     (case it of
        None \<Rightarrow> Some []
      | Some (p, q) \<Rightarrow> do {
          n \<leftarrow> h p;
          xs \<leftarrow> iter_values h q;
          Some (rb_value n # xs) }) }"

partial_function (option) eq_loop :: "('a, 'v) heap \<Rightarrow> ('a, 'v) heap \<Rightarrow> ptr \<Rightarrow> ptr \<Rightarrow> bool option" where
  "eq_loop ha hb ptr_a ptr_b =
     (case (ptr_a, ptr_b) of
        (Some p, Some q) \<Rightarrow> do {
          m \<leftarrow> ha p;
          n \<leftarrow> hb q;
          (if rb_value m \<noteq> rb_value n then Some False
           else do {
             p' \<leftarrow> successor ha p;
             q' \<leftarrow> successor hb q;
             eq_loop ha hb p' q' }) }
      | _ \<Rightarrow> Some (ptr_a = None \<and> ptr_b = None))"

definition tree_eq :: "('a, 'v) rbmem \<Rightarrow> ('a, 'v) rbmem \<Rightarrow> bool option" where
  "tree_eq s1 s2 = do {
     ptr_a \<leftarrow> lowest_node_raw s1;
     ptr_b \<leftarrow> lowest_node_raw s2;
     eq_loop (mem s1) (mem s2) ptr_a ptr_b }"

partial_function (option) update_values_loop :: "('a, 'v) heap \<Rightarrow> ('a \<Rightarrow> 'a) \<Rightarrow> ptr \<Rightarrow> ('a, 'v) heap option" where
  "update_values_loop h g node =
     (case node of
        None \<Rightarrow> Some h
      | Some p \<Rightarrow> do {
          n \<leftarrow> h p;
          let h = h(p \<mapsto> n\<lparr>rb_value := g (rb_value n)\<rparr>);
          q \<leftarrow> successor h p;
          update_values_loop h g q })"

definition update_values :: "('a, 'v) rbmem \<Rightarrow> ('a \<Rightarrow> 'a) \<Rightarrow> ('a, 'v) rbmem option" where
  "update_values s g = do {
     node \<leftarrow> lowest_node_raw s;
     h \<leftarrow> update_values_loop (mem s) g node;
     Some (s\<lparr>mem := h\<rparr>) }"

partial_function (option) merge_loop ::
  "('a, 'v) rbmem \<Rightarrow> ('a \<Rightarrow> 'v option \<Rightarrow> 'v option \<Rightarrow> 'v) \<Rightarrow> ('a \<Rightarrow> 'a \<Rightarrow> 'a \<times> bool) \<Rightarrow> nat \<Rightarrow> ('a, 'v) rbmem option" where
  "merge_loop s f merge_fn node = do {
     succ \<leftarrow> successor (mem s) node;
     (case succ of
        None \<Rightarrow> Some s
      | Some q \<Rightarrow> do {
          n \<leftarrow> mem s node;
          m \<leftarrow> mem s q;
          let (left, merged) = merge_fn (rb_value n) (rb_value m);
          let s = s\<lparr>mem := (mem s)(node \<mapsto> n\<lparr>rb_value := left\<rparr>)\<rparr>;
          (if merged then do {
             s \<leftarrow> remove_raw s f q;
             h \<leftarrow> mark_dirty (mem s) (Some node);
             merge_loop (s\<lparr>mem := h\<rparr>) f merge_fn node }
           else merge_loop s f merge_fn q) }) }"

definition pairwise_merge ::
  "('a, 'v) rbmem \<Rightarrow> ('a \<Rightarrow> 'v option \<Rightarrow> 'v option \<Rightarrow> 'v) \<Rightarrow> ('a \<Rightarrow> 'a \<Rightarrow> 'a \<times> bool) \<Rightarrow> ('a, 'v) rbmem option" where
  "pairwise_merge s f merge_fn = do {
     node \<leftarrow> lowest_node_raw s;
     (case node of
        None \<Rightarrow> Some s
      | Some p \<Rightarrow> do { s \<leftarrow> merge_loop s f merge_fn p; update_augments s f }) }"

section \<open>The run-time self check\<close>

partial_function (option) tree_check ::
  "('a, 'v) heap \<Rightarrow> ('a \<Rightarrow> 'v option \<Rightarrow> 'v option \<Rightarrow> 'v) \<Rightarrow> ('a \<Rightarrow> 'a \<Rightarrow> ordering) \<Rightarrow>
   ptr \<Rightarrow> ptr \<Rightarrow> 'a option \<Rightarrow> 'a option \<Rightarrow> (nat \<times> 'v option) option" where
  "tree_check h f cmp node parent lo hi =
     (case node of
        None \<Rightarrow> Some (1, None)
      | Some p \<Rightarrow> do {
          n \<leftarrow> h p;
          lc \<leftarrow> color_at h (rb_left n);
          rc \<leftarrow> color_at h (rb_right n);
          (if rb_parent n = parent \<and> (rb_color n = Black \<or> lc = Black) \<and> (rb_color n = Black \<or> rc = Black) \<and>
              (case lo of None \<Rightarrow> True | Some b \<Rightarrow> cmp (rb_value n) b \<noteq> Less) \<and>
              (case hi of None \<Rightarrow> True | Some b \<Rightarrow> is_le (cmp (rb_value n) b))
           then do {
             (ld, la) \<leftarrow> tree_check h f cmp (rb_left n) (Some p) lo (Some (rb_value n));
             (rd, ra) \<leftarrow> tree_check h f cmp (rb_right n) (Some p) (Some (rb_value n)) hi;
             let augment = f (rb_value n) la ra;
             (if ld = rd \<and> rb_augment n = Some augment
              then Some (ld + (if rb_color n = Black then 1 else 0), Some augment)
              else None) }
           else None) })"

declare mark_dirty.simps [code] place_loop.simps [code] leftmost.simps [code] recolor.simps [code]
  update_loop.simps [code] remove_fixup.simps [code]
  find_loop.simps [code] lower_bound_loop.simps [code] climb.simps [code] iter_values.simps [code] eq_loop.simps [code]
  update_values_loop.simps [code] merge_loop.simps [code] tree_check.simps [code]

end
