(* ===== verification/Rb_Rep.thy ===== *)
theory Rb_Rep
  imports Rb_Tree_Laws Rb_Heap
begin

text \<open>
  The representation relation between heaps and trees.  \<^verbatim>\<open>zrep s fs t\<close> says that the heap of \<^verbatim>\<open>s\<close> holds the
  tree \<^verbatim>\<open>plug fs t\<close>, whose elements are pairs of the node's address and its value.  The first programs are
  refined here: marking a path dirty, the descent of an insertion and the recolouring loop.
\<close>

type_synonym ('a, 'v) atree = "(nat \<times> 'a, 'v) rbtree"
type_synonym ('a, 'v) aframe = "(nat \<times> 'a, 'v) frame"

definition mknode :: "direction \<Rightarrow> color \<Rightarrow> ptr \<Rightarrow> ptr \<Rightarrow> ptr \<Rightarrow> 'a \<Rightarrow> 'v option \<Rightarrow> ('a, 'v) rbnode" where
  "mknode d c par p q x a =
     \<lparr>rb_color = c, rb_parent = par,
      rb_left = (if d = Left then p else q), rb_right = (if d = Left then q else p),
      rb_value = x, rb_augment = a\<rparr>"

fun root :: "('a, 'v) atree \<Rightarrow> ptr" where
  "root Leaf = None"
| "root (Node c l (q, x) a r) = Some q"

fun addrs :: "('a, 'v) atree \<Rightarrow> nat list" where
  "addrs Leaf = []"
| "addrs (Node c l (q, x) a r) = q # addrs l @ addrs r"

fun rep :: "('a, 'v) heap \<Rightarrow> ptr \<Rightarrow> ('a, 'v) atree \<Rightarrow> bool" where
  "rep h par Leaf \<longleftrightarrow> True"
| "rep h par (Node c l (q, x) a r) \<longleftrightarrow>
     h q = Some (mknode Left c par (root l) (root r) x a) \<and> rep h (Some q) l \<and> rep h (Some q) r"

fun parent_of :: "('a, 'v) aframe list \<Rightarrow> ptr" where
  "parent_of [] = None"
| "parent_of (Frame d c (q, x) a s # fs) = Some q"

fun faddrs :: "('a, 'v) aframe list \<Rightarrow> nat list" where
  "faddrs [] = []"
| "faddrs (Frame d c (q, x) a s # fs) = q # addrs s @ faddrs fs"

fun rep_fs :: "('a, 'v) heap \<Rightarrow> ptr \<Rightarrow> ('a, 'v) aframe list \<Rightarrow> bool" where
  "rep_fs h p [] \<longleftrightarrow> True"
| "rep_fs h p (Frame d c (q, x) a s # fs) \<longleftrightarrow>
     h q = Some (mknode d c (parent_of fs) p (root s) x a) \<and> rep h (Some q) s \<and> rep_fs h (Some q) fs"

fun head_of :: "ptr \<Rightarrow> ('a, 'v) aframe list \<Rightarrow> ptr" where
  "head_of p [] = p"
| "head_of p (Frame d c (q, x) a s # fs) = head_of (Some q) fs"

lemma opposite_simps [simp]: "opposite (opposite d) = d" "opposite d \<noteq> d" "d \<noteq> opposite d"
  by (cases d; simp)+

lemma mknode_sel [simp]:
  "rb_color (mknode d c par p q x a) = c"
  "rb_parent (mknode d c par p q x a) = par"
  "rb_value (mknode d c par p q x a) = x"
  "rb_augment (mknode d c par p q x a) = a"
  "child (mknode d c par p q x a) d = p"
  "child (mknode d c par p q x a) (opposite d) = q"
  "child (mknode (opposite d) c par p q x a) d = q"
  "rb_left (mknode d c par p q x a) = (if d = Left then p else q)"
  "rb_right (mknode d c par p q x a) = (if d = Left then q else p)"
  by (cases d; simp add: mknode_def)+

lemma mknode_upd [simp]:
  "(mknode d c par p q x a)\<lparr>rb_color := c'\<rparr> = mknode d c' par p q x a"
  "(mknode d c par p q x a)\<lparr>rb_parent := par'\<rparr> = mknode d c par' p q x a"
  "(mknode d c par p q x a)\<lparr>rb_augment := a'\<rparr> = mknode d c par p q x a'"
  "upd_child d v (mknode d c par p q x a) = mknode d c par v q x a"
  "upd_child (opposite d) v (mknode d c par p q x a) = mknode d c par p v x a"
  "upd_child d v (mknode (opposite d) c par p q x a) = mknode d c par v p x a"
  by (cases d; simp add: mknode_def)+

lemma mknode_opposite: "mknode (opposite d) c par p q x a = mknode d c par q p x a"
  by (cases d) (simp_all add: mknode_def)

lemma mknode_inject [simp]:
  "mknode d c par p q x a = mknode d c' par' p' q' x' a' \<longleftrightarrow>
   c = c' \<and> par = par' \<and> p = p' \<and> q = q' \<and> x = x' \<and> a = a'"
  by (cases d) (auto simp: mknode_def)

lemma bin_addr [simp]:
  "root (bin d c (q, x) a t s) = Some q"
  "set (addrs (bin d c (q, x) a t s)) = insert q (set (addrs t) \<union> set (addrs s))"
  "distinct (addrs (bin d c (q, x) a t s)) \<longleftrightarrow> distinct (q # addrs t @ addrs s)"
  "rep h par (bin d c (q, x) a t s) \<longleftrightarrow>
     h q = Some (mknode d c par (root t) (root s) x a) \<and> rep h (Some q) t \<and> rep h (Some q) s"
  by (cases d; auto simp: mknode_def)+

lemma plug_addr:
  "set (addrs (plug fs t)) = set (addrs t) \<union> set (faddrs fs)"
  "distinct (addrs (plug fs t)) \<longleftrightarrow> distinct (addrs t @ faddrs fs)"
proof (induction fs t rule: plug.induct)
  case (2 d c e a s fs t)
  obtain q x where e: "e = (q, x)" by (rule prod.exhaust)
  { case 1 with 2 e show ?case by auto }
  { case 2 with "2.IH" e show ?case by auto }
qed auto

lemma root_plug: "root (plug fs t) = head_of (root t) fs"
proof (induction fs t rule: plug.induct)
  case (2 d c e a s fs t)
  then show ?case by (cases e) auto
qed simp

lemma rep_plug: "rep h None (plug fs t) \<longleftrightarrow> rep h (parent_of fs) t \<and> rep_fs h (root t) fs"
proof (induction fs t rule: plug.induct)
  case (2 d c e a s fs t)
  then show ?case by (cases e) auto
qed simp

lemma rep_cong: "(\<And>p. p \<in> set (addrs t) \<Longrightarrow> h' p = h p) \<Longrightarrow> rep h' par t = rep h par t"
  by (induction h par t rule: rep.induct) auto

lemma rep_fs_cong: "(\<And>p. p \<in> set (faddrs fs) \<Longrightarrow> h' p = h p) \<Longrightarrow> rep_fs h' p fs = rep_fs h p fs"
proof (induction h p fs rule: rep_fs.induct)
  case (2 h p d c q x a s fs)
  then show ?case using rep_cong [of s h' h "Some q"] by auto
qed simp

definition rep_any :: "('a, 'v) heap \<Rightarrow> ('a, 'v) atree \<Rightarrow> bool" where
  "rep_any h t \<longleftrightarrow> (\<exists>par. rep h par t)"

lemma rep_anyI [simp]: "rep h par t \<Longrightarrow> rep_any h t"
  by (auto simp: rep_any_def)

fun set_par :: "('a, 'v) heap \<Rightarrow> ptr \<Rightarrow> ptr \<Rightarrow> ('a, 'v) heap" where
  "set_par h None par = h"
| "set_par h (Some p) par = (case h p of None \<Rightarrow> h | Some n \<Rightarrow> h(p \<mapsto> n\<lparr>rb_parent := par\<rparr>))"

lemma root_in_addrs: "root t = Some p \<Longrightarrow> p \<in> set (addrs t)"
  by (cases t rule: root.cases) auto

lemma root_None [simp]: "root t = None \<longleftrightarrow> t = Leaf" "None = root t \<longleftrightarrow> t = Leaf"
  by (cases t rule: root.cases; auto)+

lemma rep_upd [simp]:
  "q \<notin> set (addrs t) \<Longrightarrow> rep (h(q := v)) par t = rep h par t"
  "q \<notin> set (addrs t) \<Longrightarrow> rep_any (h(q := v)) t = rep_any h t"
  "q \<notin> set (faddrs fs) \<Longrightarrow> rep_fs (h(q := v)) p fs = rep_fs h p fs"
  unfolding rep_any_def by (auto intro!: rep_cong rep_fs_cong ex_cong1)

lemma set_par_other [simp]:
  "p \<notin> set (addrs t) \<Longrightarrow> set_par h (root t) par p = h p"
  by (cases "root t") (auto dest: root_in_addrs split: option.splits)

lemma rep_set_par_other [simp]:
  "set (addrs t) \<inter> set (addrs u) = {} \<Longrightarrow> rep (set_par h (root t) par') par u = rep h par u"
  "set (addrs u) \<inter> set (addrs t) = {} \<Longrightarrow> rep (set_par h (root t) par') par u = rep h par u"
  "set (addrs t) \<inter> set (addrs u) = {} \<Longrightarrow> rep_any (set_par h (root t) par') u = rep_any h u"
  "set (addrs u) \<inter> set (addrs t) = {} \<Longrightarrow> rep_any (set_par h (root t) par') u = rep_any h u"
  "set (addrs t) \<inter> set (faddrs fs) = {} \<Longrightarrow> rep_fs (set_par h (root t) par') p fs = rep_fs h p fs"
  unfolding rep_any_def by (auto intro!: rep_cong rep_fs_cong ex_cong1 set_par_other)

lemma rep_set_par:
  "rep h par t \<Longrightarrow> distinct (addrs t) \<Longrightarrow> rep (set_par h (root t) par') par' t"
  by (cases "(h, par, t)" rule: rep.cases) auto

lemma rep_set_par_iff [simp]:
  "distinct (addrs t) \<Longrightarrow> rep (set_par h (root t) par') par' t = rep_any h t"
  unfolding rep_any_def
proof
  assume d: "distinct (addrs t)"
  show "\<exists>par. rep h par t" if "rep (set_par h (root t) par') par' t"
  proof (cases t rule: root.cases)
    case (2 c l q x a r)
    with that d obtain n where n: "h q = Some n" by (auto split: option.splits)
    with that d 2 have eq: "n\<lparr>rb_parent := par'\<rparr> = mknode Left c par' (root l) (root r) x a" by simp
    have "n = (n\<lparr>rb_parent := par'\<rparr>)\<lparr>rb_parent := rb_parent n\<rparr>" by simp
    also have "\<dots> = mknode Left c (rb_parent n) (root l) (root r) x a" unfolding eq by simp
    finally have "n = \<dots>" .
    with that n d 2 show ?thesis by (intro exI [of _ "rb_parent n"]) auto
  qed simp
qed (auto intro: rep_set_par)

lemma rep_any_set_par [simp]:
  "distinct (addrs t) \<Longrightarrow> rep_any h t \<Longrightarrow> rep_any (set_par h (root t) par') t"
  unfolding rep_any_def using rep_set_par by blast

lemma rep_any_alloc: "rep_any h t \<Longrightarrow> root t = Some p \<Longrightarrow> \<exists>n. h p = Some n"
  by (cases t rule: root.cases) (auto simp: rep_any_def)


text \<open>Closed forms of the heap operations\<close>

lemma mark_dirty_None [simp]: "mark_dirty h None = Some h"
  by (simp add: mark_dirty.simps)

lemma mark_dirty_dirty [simp]:
  "h p = Some n \<Longrightarrow> rb_augment n = None \<Longrightarrow> mark_dirty h (Some p) = Some h"
  by (simp add: mark_dirty.simps)

definition stops :: "('a, 'v) heap \<Rightarrow> nat \<Rightarrow> ptr \<Rightarrow> 'v option \<Rightarrow> bool" where
  "stops h q par a \<longleftrightarrow>
     (a = None \<or> par = None \<or> (\<exists>g m. par = Some g \<and> g \<noteq> q \<and> h g = Some m \<and> rb_augment m = None))"

lemma stops_simps [simp]:
  "stops h q par None" "stops h q None a"
  "h g = Some m \<Longrightarrow> g \<noteq> q \<Longrightarrow> rb_augment m = None \<Longrightarrow> stops h q (Some g) a"
  by (auto simp: stops_def)

lemma set_child_closed:
  assumes "h q = Some (mknode d c par p s x a)" "stops h q par a"
    and "\<And>r. v = Some r \<Longrightarrow> \<exists>n. h r = Some n"
  shows "set_child h q d v = Some (set_par (h(q \<mapsto> mknode d c par v s x None)) v (Some q))"
proof -
  have "mark_dirty (h(q \<mapsto> mknode d c par v s x a)) (Some q) = Some (h(q \<mapsto> mknode d c par v s x None))"
  proof (cases a)
    case None
    then show ?thesis by simp
  next
    case (Some b)
    with assms(2) show ?thesis
      by (subst mark_dirty.simps) (auto simp: stops_def)
  qed
  with assms(1,3) show ?thesis
    by (cases v) (force simp: set_child_def)+
qed

lemma set_child_tree:
  assumes "h q = Some (mknode d c par p s x a)" "stops h q par a" "rep_any h t"
  shows "set_child h q d (root t) = Some (set_par (h(q \<mapsto> mknode d c par (root t) s x None)) (root t) (Some q))"
  using assms rep_any_alloc by (intro set_child_closed) auto

lemma set_child_node:
  assumes "h q = Some (mknode d c par p s x a)" "stops h q par a" "h r = Some n" "r \<noteq> q"
  shows "set_child h q d (Some r) = Some (h(q \<mapsto> mknode d c par (Some r) s x None, r \<mapsto> n\<lparr>rb_parent := Some q\<rparr>))"
  using assms by (subst set_child_closed) auto

lemma child_dir_mknode:
  "p \<noteq> s \<or> d = Left \<Longrightarrow> child_dir (mknode d c par p s x a) p = Some d"
  by (cases d) (auto simp: child_dir_def)

lemma set_color_closed [simp]:
  "h p = Some n \<Longrightarrow> set_color h (Some p) c = Some (h(p \<mapsto> n\<lparr>rb_color := c\<rparr>))"
  by (simp add: set_color_def)

lemma color_at_root [simp]: "rep_any h t \<Longrightarrow> color_at h (root t) = Some (tree_color t)"
  by (cases t rule: root.cases) (auto simp: color_at_def rep_any_def)

lemma color_at_node [simp]: "h p = Some n \<Longrightarrow> color_at h (Some p) = Some (rb_color n)"
  by (simp add: color_at_def)

lemma rep_set_color:
  "root t = Some p \<Longrightarrow> rep h par t \<Longrightarrow> distinct (addrs t) \<Longrightarrow>
   \<exists>h'. set_color h (Some p) c = Some h' \<and> rep h' par (paint c t) \<and> (\<forall>q. q \<noteq> p \<longrightarrow> h' q = h q)"
  by (cases "(h, par, t)" rule: rep.cases) auto

lemma paint_addr [simp]:
  "root (paint c t) = root t" "addrs (paint c t) = addrs t"
  by (cases t rule: root.cases; simp)+

text \<open>Marking the path above a location dirty.\<close>

fun up_dirty :: "('a, 'v) frame list \<Rightarrow> bool" where
  "up_dirty [] = True"
| "up_dirty (Frame d c x a s # fs) \<longleftrightarrow> (a = None \<longrightarrow> dirty fs = fs) \<and> up_dirty fs"

definition only :: "nat set \<Rightarrow> ('a, 'v) heap \<Rightarrow> ('a, 'v) heap \<Rightarrow> bool" where
  "only S h h' \<longleftrightarrow> (\<forall>p. p \<notin> S \<longrightarrow> h' p = h p)"

lemma onlyD: "only S h h' \<Longrightarrow> p \<notin> S \<Longrightarrow> h' p = h p"
  by (simp add: only_def)

lemma rep_only:
  "only S h h' \<Longrightarrow> S \<inter> set (addrs t) = {} \<Longrightarrow> rep h' par t = rep h par t"
  "only S h h' \<Longrightarrow> S \<inter> set (faddrs fs) = {} \<Longrightarrow> rep_fs h' p fs = rep_fs h p fs"
  by (rule rep_cong, force simp: only_def) (rule rep_fs_cong, force simp: only_def)

lemma faddrs_dirty [simp]: "faddrs (dirty fs) = faddrs fs" "parent_of (dirty fs) = parent_of fs" "head_of p (dirty fs) = head_of p fs"
proof -
  show "faddrs (dirty fs) = faddrs fs" by (induction fs rule: faddrs.induct) auto
  show "parent_of (dirty fs) = parent_of fs" by (cases fs rule: parent_of.cases) auto
  show "head_of p (dirty fs) = head_of p fs" by (induction p fs rule: head_of.induct) auto
qed

lemma mark_dirty_path:
  assumes "rep_fs h p fs" "distinct (faddrs fs)" "up_dirty fs"
  shows "\<exists>h'. mark_dirty h (parent_of fs) = Some h' \<and> rep_fs h' p (dirty fs) \<and> only (set (faddrs fs)) h h'"
  using assms
proof (induction fs arbitrary: h p)
  case Nil
  then show ?case by (simp add: only_def)
next
  case (Cons f fs)
  obtain d c q x a s where f: "f = Frame d c (q, x) a s"
    by (cases f) (metis prod.exhaust)
  let ?n = "mknode d c (parent_of fs) p (root s) x None"
  show ?case
  proof (cases a)
    case None
    with Cons.prems f show ?thesis by (auto simp: only_def)
  next
    case (Some b)
    have "rep_fs (h(q \<mapsto> ?n)) (Some q) fs" "distinct (faddrs fs)" "up_dirty fs"
      using Cons.prems f by simp_all
    from Cons.IH [OF this] obtain h' where h': "mark_dirty (h(q \<mapsto> ?n)) (parent_of fs) = Some h'"
      "rep_fs h' (Some q) (dirty fs)" "only (set (faddrs fs)) (h(q \<mapsto> ?n)) h'"
      by blast
    have "mark_dirty h (Some q) = mark_dirty (h(q \<mapsto> ?n)) (parent_of fs)"
      using Cons.prems f Some by (subst mark_dirty.simps) simp
    moreover have "h' q = Some ?n" using onlyD [OF h'(3)] Cons.prems f by simp
    moreover have "rep h' (Some q) s"
      using Cons.prems f rep_only(1) [OF h'(3), of s "Some q"] by (auto simp: Int_commute)
    moreover have "only (set (faddrs (f # fs))) h h'" using h'(3) f by (auto simp: only_def)
    ultimately show ?thesis using h'(1,2) f by simp
  qed
qed

definition zrep :: "('a, 'v) rbmem \<Rightarrow> ('a, 'v) aframe list \<Rightarrow> ('a, 'v) atree \<Rightarrow> bool" where
  "zrep s fs t \<longleftrightarrow>
     rep_fs (mem s) (root t) fs \<and> rep (mem s) (parent_of fs) t \<and>
     head s = head_of (root t) fs \<and> distinct (addrs t @ faddrs fs)"

lemma zrep_plug: "zrep s [] (plug fs t) \<longleftrightarrow> zrep s fs t"
  by (auto simp: zrep_def rep_plug root_plug plug_addr)

fun link_of :: "('a, 'v) aframe list \<Rightarrow> link" where
  "link_of [] = HeadLink"
| "link_of (Frame d c (q, x) a s # fs) = ChildLink q d"

abbreviation acmp :: "('a \<Rightarrow> 'a \<Rightarrow> ordering) \<Rightarrow> nat \<times> 'a \<Rightarrow> nat \<times> 'a \<Rightarrow> ordering" where
  "acmp cmp \<equiv> \<lambda>a b. cmp (snd a) (snd b)"

lemma read_link_of: "rep_fs (mem s) p fs \<Longrightarrow> head s = head_of p fs \<Longrightarrow> read_link s (link_of fs) = Some p"
  by (cases fs rule: link_of.cases) auto

lemma place_loop_path:
  assumes "rep_fs (mem s) (root t) fs" "rep (mem s) (parent_of fs) t" "head s = head_of (root t) fs"
  shows "place_loop s cmp x (parent_of fs) (link_of fs) =
           Some (parent_of (tree_place (acmp cmp) (q, x) fs t), link_of (tree_place (acmp cmp) (q, x) fs t))"
  using assms
proof (induction t arbitrary: fs)
  case Leaf
  then show ?case by (subst place_loop.simps) (simp add: read_link_of)
next
  case (Node c l e a r)
  obtain p y where e: "e = (p, y)" by (rule prod.exhaust)
  have rl: "read_link s (link_of fs) = Some (Some p)"
    using Node.prems e by (simp add: read_link_of)
  show ?case
  proof (cases "is_le (cmp x y)")
    case True
    with Node.prems e rl Node.IH(1) [of "Frame Left c (p, y) a r # fs"] show ?thesis
      by (subst place_loop.simps) simp
  next
    case False
    have "rep_fs (mem s) (root r) (Frame Right c (p, y) a l # fs)"
      using Node.prems e by (simp add: mknode_def)
    with False Node.prems e rl Node.IH(2) [of "Frame Right c (p, y) a l # fs"] show ?thesis
      by (subst place_loop.simps) simp
  qed
qed

lemma zrep_move: "plug fs t = plug gs u \<Longrightarrow> zrep s fs t \<Longrightarrow> zrep s gs u"
  by (metis zrep_plug)

lemma place_zrep:
  assumes "zrep s [] T" "mem s q = Some n" "rb_value n = x" "q \<notin> set (addrs T)"
    and fs_def: "fs = tree_place (acmp cmp) (q, x) [] T"
  shows "\<exists>s'. place s q cmp = Some s' \<and> zrep s' fs (Node Red Leaf (q, x) None Leaf) \<and>
              only (insert q (set (addrs T))) (mem s) (mem s')"
proof -
  let ?m = "n\<lparr>rb_color := Red, rb_left := None, rb_right := None, rb_augment := None\<rparr>"
  let ?s = "s\<lparr>mem := (mem s)(q \<mapsto> ?m)\<rparr>"
  have T: "zrep ?s [] T" using assms(1,4) by (simp add: zrep_def)
  have pl: "place_loop ?s cmp x None HeadLink = Some (parent_of fs, link_of fs)"
    using place_loop_path [of ?s T "[]" cmp x q] T by (simp add: zrep_def fs_def)
  have p: "plug [] T = plug fs Leaf" by (simp add: fs_def tree_place_plug)
  from zrep_move [OF p T] have z: "zrep ?s fs Leaf" .
  have sub: "set (faddrs fs) = set (addrs T)" using p by (metis plug.simps(1) plug_addr(1) addrs.simps(1) empty_set sup_bot_left)
  let ?h = "(mem s)(q \<mapsto> mknode Left Red (parent_of fs) None None x None)"
  have r: "rep_fs ?h None fs" "distinct (faddrs fs)" "q \<notin> set (faddrs fs)" "head s = head_of None fs"
    using z sub assms(4) by (auto simp: zrep_def)
  have pl2: "place s q cmp = write_link (s\<lparr>mem := ?h\<rparr>) (link_of fs) (Some q)"
    using assms(2,3) pl by (cases n) (simp add: place_def Let_def mknode_def)
  show ?thesis
  proof (cases fs rule: link_of.cases)
    case 1
    then show ?thesis using pl2 r by (auto simp: zrep_def only_def)
  next
    case (2 d c p y a u gs)
    from r 2 sub show ?thesis
      by (auto simp: pl2 zrep_def only_def)
  qed
qed

lemma grandparent_None [simp]: "rb_parent n = None \<Longrightarrow> grandparent h n = Some None"
  by (simp add: grandparent_def)

lemma grandparent_Some [simp]: "rb_parent n = Some p \<Longrightarrow> h p = Some m \<Longrightarrow> grandparent h n = Some (rb_parent m)"
  by (simp add: grandparent_def)

lemma uncle_None [simp]: "grandparent h n = Some None \<Longrightarrow> uncle h n = Some None"
  by (simp add: uncle_def)

lemma uncle_Some:
  "grandparent h n = Some (Some g) \<Longrightarrow> h g = Some (mknode d c par (rb_parent n) s x a) \<Longrightarrow> s \<noteq> rb_parent n \<Longrightarrow>
   uncle h n = Some s"
  by (cases d) (auto simp: uncle_def)

lemma recolor_zrep:
  assumes "zrep s fs t" "root t = Some q" "tree_recolor fs t = (fs', t')"
  shows "\<exists>h w. recolor (mem s) q = Some (h, w) \<and> zrep (s\<lparr>mem := h\<rparr>) fs' t' \<and> root t' = Some w \<and>
           only (set (addrs (plug fs t))) (mem s) h"
  using assms
proof (induction fs t arbitrary: s q rule: tree_recolor.induct)
  case (1 pd pc pe pa ps gd gc ge ga gs fs t)
  obtain p px where pe: "pe = (p, px)" by (rule prod.exhaust)
  obtain g gx where ge: "ge = (g, gx)" by (rule prod.exhaust)
  obtain n where n: "mem s q = Some n" "rb_parent n = Some p"
    using "1.prems"(1,2) pe by (cases t rule: root.cases) (auto simp: zrep_def)
  have z: "mem s p = Some (mknode pd pc (Some g) (Some q) (root ps) px pa)"
    "mem s g = Some (mknode gd gc (parent_of fs) (Some p) (root gs) gx ga)"
    "rep (mem s) (Some g) gs"
    using "1.prems" pe ge by (auto simp: zrep_def)
  have gp: "grandparent (mem s) n = Some (Some g)" using n z by simp
  have u: "uncle (mem s) n = Some (root gs)"
    using "1.prems"(1) pe ge gp n z by (intro uncle_Some [OF gp]) (auto simp: zrep_def dest: root_in_addrs)
  show ?case
  proof (cases "pc = Red \<and> tree_color gs = Red")
    case False
    then have "recolor (mem s) q = Some (mem s, q)"
      using n gp u z by (subst recolor.simps) auto
    with False "1.prems" show ?thesis by (auto simp: only_def)
  next
    case True
    then obtain uq where uq: "root gs = Some uq" by (cases gs rule: root.cases) auto
    let ?t = "bin gd Red ge ga (bin pd Black pe pa t ps) (paint Black gs)"
    let ?h1 = "(mem s)(g \<mapsto> mknode gd Red (parent_of fs) (Some p) (root gs) gx ga,
                 p \<mapsto> mknode pd Black (Some g) (Some q) (root ps) px pa)"
    have d: "distinct (addrs t @ p # addrs ps @ g # addrs gs @ faddrs fs)"
      using "1.prems"(1) pe ge by (auto simp: zrep_def)
    have "rep ?h1 (Some g) gs" using z d by simp
    from rep_set_color [OF uq this, of Black] d obtain h2 where h2:
      "set_color ?h1 (Some uq) Black = Some h2" "rep h2 (Some g) (paint Black gs)"
      "\<forall>q. q \<noteq> uq \<longrightarrow> h2 q = ?h1 q" by auto
    have o2: "only {uq} ?h1 h2" using h2(3) by (simp add: only_def)
    have uqd: "uq \<in> set (addrs gs)" using uq by (rule root_in_addrs)
    have cu: "color_at (mem s) (Some uq) = Some Red"
      using color_at_root [OF rep_anyI [OF z(3)]] uq True by simp
    have rc: "recolor (mem s) q = recolor h2 g"
      using True n gp u z(1,2) uq h2(1) d cu by (subst recolor.simps) simp
    have "uq \<noteq> g" "uq \<noteq> p" "uq \<notin> set (addrs t)" "uq \<notin> set (addrs ps)" "uq \<notin> set (faddrs fs)"
      using d uqd by auto
    then have hs: "h2 g = ?h1 g" "h2 p = ?h1 p" "rep h2 (Some p) t = rep ?h1 (Some p) t"
      "rep h2 (Some p) ps = rep ?h1 (Some p) ps" "rep_fs h2 (Some g) fs = rep_fs ?h1 (Some g) fs"
      using h2(3) rep_only [OF o2] by auto
    have z2: "zrep (s\<lparr>mem := h2\<rparr>) fs ?t"
      using "1.prems"(1,2) d hs h2(2) pe ge by (auto simp: zrep_def)
    from "1.prems"(3) True have "tree_recolor fs ?t = (fs', t')" by simp
    from "1.IH" [OF True z2 _ this, of g] ge obtain h w where
      hw: "recolor h2 g = Some (h, w)" "zrep (s\<lparr>mem := h\<rparr>) fs' t'" "root t' = Some w"
      "only (set (addrs (plug fs ?t))) h2 h" by auto
    have "only (set (addrs (plug fs ?t))) (mem s) h"
      using hw(4) h2(3) uqd pe ge unfolding only_def plug_addr by auto
    then have "only (set (addrs (plug (Frame pd pc pe pa ps # Frame gd gc ge ga gs # fs) t))) (mem s) h"
      using pe ge by (simp add: plug_addr only_def)
    with hw rc show ?thesis by auto
  qed
next
  case (2 t)
  then have "recolor (mem s) q = Some (mem s, q)"
    by (cases t rule: root.cases) (auto simp: zrep_def recolor.simps [of _ q] color_at_def)
  with 2 show ?case by (auto simp: only_def)
next
  case (3 f t)
  obtain d c p x a u where f: "f = Frame d c (p, x) a u" by (cases f) (metis prod.exhaust)
  with 3 have "recolor (mem s) q = Some (mem s, q)"
    by (cases t rule: root.cases) (auto simp: zrep_def recolor.simps [of _ q] color_at_def)
  with 3 show ?case by (auto simp: only_def)
qed

end
