(* ===== verification/Rb_Rotate.thy ===== *)
theory Rb_Rotate
  imports Rb_Rep
begin

text \<open>
  Rotations on the heap: replacing a node below its parent, the outer and the inner rotation, and the
  rotation step of an insertion.  The two basic rotations are shared with removal.
\<close>

lemma replace_node_gen:
  assumes "rep_fs (mem s) (Some node) fs" "head s = head_of (Some node) fs" "distinct (faddrs fs)"
    and "up_dirty fs" "mem s node = Some n" "rb_parent n = parent_of fs" "node \<notin> set (faddrs fs)"
    and v: "\<And>r. v = Some r \<Longrightarrow> r \<notin> set (faddrs fs) \<and> (\<exists>m. mem s r = Some m)"
  shows "\<exists>h1. replace_node s node v = Some (s\<lparr>mem := set_par h1 v (parent_of fs), head := head_of v fs\<rparr>) \<and>
              rep_fs h1 v (dirty fs) \<and> only (set (faddrs fs)) (mem s) h1"
proof (cases fs rule: parent_of.cases)
  case 1
  have "replace_node s node v = Some (s\<lparr>mem := set_par (mem s) v None, head := v\<rparr>)"
    using assms(5,6) 1 v by (cases v) (auto simp: replace_node_def)
  then show ?thesis using 1 by (intro exI [of _ "mem s"]) (simp add: only_def)
next
  case (2 d c g x a u gs)
  let ?h = "(mem s)(g \<mapsto> mknode d c (parent_of gs) v (root u) x a)"
  have "rep_fs ?h v fs" using assms(1,3) 2 by simp
  from mark_dirty_path [OF this assms(3,4)] obtain h1 where
    h1: "mark_dirty ?h (Some g) = Some h1" "rep_fs h1 v (dirty fs)" "only (set (faddrs fs)) ?h h1"
    using 2 by auto
  have o: "only (set (faddrs fs)) (mem s) h1" using h1(3) 2 by (auto simp: only_def)
  have cd: "child_dir (mknode d c (parent_of gs) (Some node) (root u) x a) (Some node) = Some d"
    using assms(7) 2 root_in_addrs [of u node] by (intro child_dir_mknode) auto
  have "set_child (mem s) g d v = Some (set_par h1 v (Some g))"
    using assms(1) 2 h1(1) v onlyD [OF o] by (cases v) (auto simp: set_child_def)
  moreover have "head_of v fs = head s" using assms(2) 2 by simp
  ultimately show ?thesis
    using assms(1,5,6) 2 h1(2) o cd by (auto simp: replace_node_def)
qed

lemma up_dirty_dirty [simp]: "dirty fs = fs \<Longrightarrow> up_dirty fs"
  by (induction fs rule: up_dirty.induct) auto

lemma stops_path: "rep_fs h p fs \<Longrightarrow> dirty fs = fs \<Longrightarrow> q \<notin> set (faddrs fs) \<Longrightarrow> stops h q (parent_of fs) a"
  by (cases fs rule: parent_of.cases) (auto simp: stops_def)

lemma rotate_up:
  assumes "zrep s fs (bin d gc (g, gx) None (bin d mc (m, mx) ma A B) C)" "dirty fs = fs"
  shows "\<exists>s1 h2 h3. replace_node s g (Some m) = Some s1 \<and>
           set_child (mem s1) m (opposite d) (Some g) = Some h2 \<and>
           set_child h2 g d (root B) = Some h3 \<and>
           zrep (s1\<lparr>mem := h3\<rparr>) fs (bin d mc (m, mx) None A (bin d gc (g, gx) None B C)) \<and>
           only (set (addrs (plug fs (bin d gc (g, gx) None (bin d mc (m, mx) ma A B) C)))) (mem s) h3"
proof -
  have z: "rep_fs (mem s) (Some g) fs" "head s = head_of (Some g) fs"
    "mem s g = Some (mknode d gc (parent_of fs) (Some m) (root C) gx None)"
    "mem s m = Some (mknode d mc (Some g) (root A) (root B) mx ma)"
    "rep (mem s) (Some m) A" "rep (mem s) (Some m) B" "rep (mem s) (Some g) C"
    and dist0: "distinct (g # m # addrs A @ addrs B @ addrs C @ faddrs fs)"
    using assms(1) by (auto simp: zrep_def)
  note dist = dist0 [simplified, unfolded Int_Un_distrib Un_empty]
  obtain h1 where h1:
    "replace_node s g (Some m) = Some (s\<lparr>mem := set_par h1 (Some m) (parent_of fs), head := head_of (Some m) fs\<rparr>)"
    "rep_fs h1 (Some m) (dirty fs)" "only (set (faddrs fs)) (mem s) h1"
    using replace_node_gen [of s g fs _ "Some m"] z dist assms(2) by auto
  have k: "h1 g = mem s g" "h1 m = mem s m" "rep h1 (Some m) A" "rep h1 (Some m) B" "rep h1 (Some g) C"
    using dist onlyD [OF h1(3)] rep_only(1) [OF h1(3)] z(5-7) by (auto simp: Int_commute)
  let ?h1 = "h1(m \<mapsto> mknode d mc (parent_of fs) (root A) (root B) mx ma)"
  let ?h2 = "?h1(m \<mapsto> mknode d mc (parent_of fs) (root A) (Some g) mx None,
                g \<mapsto> mknode d gc (Some m) (Some m) (root C) gx None)"
  let ?h3 = "set_par (?h2(g \<mapsto> mknode d gc (Some m) (root B) (root C) gx None)) (root B) (Some g)"
  have m1: "set_par h1 (Some m) (parent_of fs) = ?h1" using k(2) z(4) by simp
  have r1: "rep_fs ?h1 (Some m) fs" using h1(2) assms(2) dist by simp
  have "stops ?h1 m (parent_of fs) ma" using stops_path [OF r1 assms(2)] dist by simp
  then have s2: "set_child ?h1 m (opposite d) (Some g) = Some ?h2"
    using k(1) z(3) dist set_child_node [of ?h1 m "opposite d" mc "parent_of fs" "root B" "root A" mx ma g]
    by (simp add: mknode_opposite)
  have s3: "set_child ?h2 g d (root B) = Some ?h3"
    using dist k set_child_tree [of ?h2 g d gc "Some m" "Some m" "root C" gx None B] by simp
  let ?s1 = "s\<lparr>mem := ?h1, head := head_of (Some m) fs\<rparr>"
  have "zrep (?s1\<lparr>mem := ?h3\<rparr>) fs (bin d mc (m, mx) None A (bin d gc (g, gx) None B C))"
    using dist k r1 by (auto simp: zrep_def)
  moreover have "only (set (addrs (plug fs (bin d gc (g, gx) None (bin d mc (m, mx) ma A B) C)))) (mem s) ?h3"
    using h1(3) by (auto simp: only_def plug_addr)
  moreover have "replace_node s g (Some m) = Some ?s1" using h1(1) unfolding m1 .
  moreover have "set_child (mem ?s1) m (opposite d) (Some g) = Some ?h2" using s2 by simp
  ultimately show ?thesis using s3 by blast
qed

lemma rotate_in:
  assumes "zrep s fs (bin d gc (g, gx) None (bin d pc (p, px) pa A (bin d nc (q, nx) na B C)) D)"
  shows "\<exists>h1 h2 h3. set_child (mem s) g d (Some q) = Some h1 \<and>
           set_child h1 q d (Some p) = Some h2 \<and>
           set_child h2 p (opposite d) (root B) = Some h3 \<and>
           zrep (s\<lparr>mem := h3\<rparr>) fs (bin d gc (g, gx) None (bin d nc (q, nx) None (bin d pc (p, px) None A B) C) D) \<and>
           only (set (addrs (bin d gc (g, gx) None (bin d pc (p, px) pa A (bin d nc (q, nx) na B C)) D))) (mem s) h3"
proof -
  have z: "rep_fs (mem s) (Some g) fs" "head s = head_of (Some g) fs"
    "mem s g = Some (mknode d gc (parent_of fs) (Some p) (root D) gx None)"
    "mem s p = Some (mknode d pc (Some g) (root A) (Some q) px pa)"
    "mem s q = Some (mknode d nc (Some p) (root B) (root C) nx na)"
    "rep (mem s) (Some p) A" "rep (mem s) (Some q) B" "rep (mem s) (Some q) C" "rep (mem s) (Some g) D"
    and dist0: "distinct (g # p # q # addrs A @ addrs B @ addrs C @ addrs D @ faddrs fs)"
    using assms by (auto simp: zrep_def)
  note dist = dist0 [simplified, unfolded Int_Un_distrib Un_empty]
  let ?h1 = "(mem s)(g \<mapsto> mknode d gc (parent_of fs) (Some q) (root D) gx None,
                q \<mapsto> mknode d nc (Some g) (root B) (root C) nx na)"
  let ?h2 = "?h1(q \<mapsto> mknode d nc (Some g) (Some p) (root C) nx None,
                p \<mapsto> mknode d pc (Some q) (root A) (Some q) px pa)"
  let ?h3 = "set_par (?h2(p \<mapsto> mknode d pc (Some q) (root A) (root B) px None)) (root B) (Some p)"
  have s1: "set_child (mem s) g d (Some q) = Some ?h1"
    using dist z set_child_node [of "mem s" g d gc "parent_of fs" "Some p" "root D" gx None q] by simp
  have s2: "set_child ?h1 q d (Some p) = Some ?h2"
    using dist z set_child_node [of ?h1 q d nc "Some g" "root B" "root C" nx na p] by simp
  have "stops ?h2 p (Some q) pa" using dist by simp
  then have s3: "set_child ?h2 p (opposite d) (root B) = Some ?h3"
    using dist z set_child_tree [of ?h2 p "opposite d" pc "Some q" "Some q" "root A" px pa B]
    by (simp add: mknode_opposite)
  have "zrep (s\<lparr>mem := ?h3\<rparr>) fs (bin d gc (g, gx) None (bin d nc (q, nx) None (bin d pc (p, px) None A B) C) D)"
    using dist z by (auto simp: zrep_def)
  moreover have "only (set (addrs (bin d gc (g, gx) None (bin d pc (p, px) pa A (bin d nc (q, nx) na B C)) D))) (mem s) ?h3"
    by (auto simp: only_def)
  ultimately show ?thesis using s1 s2 s3 by blast
qed

lemma tree_as_bin:
  "root t = Some q \<Longrightarrow>
   \<exists>nc nx na. t = bin d nc (q, nx) na (tree_child d t) (tree_child (opposite d) t)"
  by (cases t rule: root.cases; cases d) auto

lemma set_colors_zrep:
  assumes "zrep s fs (bin d mc (m, mx) ma A (bin d gc (g, gx) ga B C))"
  shows "\<exists>h1 h2. set_color (mem s) (Some m) c1 = Some h1 \<and> set_color h1 (Some g) c2 = Some h2 \<and>
    zrep (s\<lparr>mem := h2\<rparr>) fs (bin d c1 (m, mx) ma A (bin d c2 (g, gx) ga B C)) \<and> only {m, g} (mem s) h2"
proof -
  have z: "mem s m = Some (mknode d mc (parent_of fs) (root A) (Some g) mx ma)"
    "mem s g = Some (mknode d gc (Some m) (root B) (root C) gx ga)" and "m \<noteq> g"
    using assms by (auto simp: zrep_def)
  with assms show ?thesis by (auto simp: zrep_def only_def)
qed

lemma only_trans: "only S h h' \<Longrightarrow> only S h' h'' \<Longrightarrow> only S h h''"
  by (simp add: only_def)

lemma only_mono: "only S h h' \<Longrightarrow> S \<subseteq> S' \<Longrightarrow> only S' h h'"
  by (auto simp: only_def)

lemma rotate_outer_core:
  assumes "zrep s fs (bin d gc (g, gx) None (bin d mc (m, mx) ma A B) C)" "dirty fs = fs"
  shows "\<exists>s'. (do { pn \<leftarrow> mem s m;
           let sibling = child pn (opposite d);
           s \<leftarrow> replace_node s g (Some m);
           h \<leftarrow> set_child (mem s) m (opposite d) (Some g);
           h \<leftarrow> set_child h g d sibling;
           h \<leftarrow> set_color h (Some m) Black;
           h \<leftarrow> set_color h (Some g) Red;
           Some (s\<lparr>mem := h\<rparr>) }) = Some s' \<and>
         zrep s' fs (bin d Black (m, mx) None A (bin d Red (g, gx) None B C)) \<and>
         only (set (addrs (plug fs (bin d gc (g, gx) None (bin d mc (m, mx) ma A B) C)))) (mem s) (mem s')"
proof -
  have m: "mem s m = Some (mknode d mc (Some g) (root A) (root B) mx ma)"
    using assms(1) by (simp add: zrep_def)
  from rotate_up [OF assms] obtain s1 h2 h3 where
    r: "replace_node s g (Some m) = Some s1" "set_child (mem s1) m (opposite d) (Some g) = Some h2"
       "set_child h2 g d (root B) = Some h3"
    and z: "zrep (s1\<lparr>mem := h3\<rparr>) fs (bin d mc (m, mx) None A (bin d gc (g, gx) None B C))"
    and o: "only (set (addrs (plug fs (bin d gc (g, gx) None (bin d mc (m, mx) ma A B) C)))) (mem s) h3"
    by blast
  from set_colors_zrep [OF z, of Black Red] obtain h4 h5 where
    c: "set_color h3 (Some m) Black = Some h4" "set_color h4 (Some g) Red = Some h5"
      "zrep (s1\<lparr>mem := h5\<rparr>) fs (bin d Black (m, mx) None A (bin d Red (g, gx) None B C))"
      "only {m, g} h3 h5" by auto
  have "only (set (addrs (plug fs (bin d gc (g, gx) None (bin d mc (m, mx) ma A B) C)))) (mem s) h5"
    by (rule only_trans [OF o only_mono [OF c(4)]]) (simp add: plug_addr)
  with m r c show ?thesis by (auto simp: Let_def)
qed

lemma rotate_zrep:
  assumes "zrep s fs t" "dirty fs = fs" "root t = Some q" "fs \<noteq> []"
  shows "\<exists>s'. rotate s q = Some s' \<and> zrep s' [] (tree_rotate fs t) \<and>
              only (set (addrs (plug fs t))) (mem s) (mem s')"
proof (cases "(fs, t)" rule: tree_rotate.cases)
  case (1 pd pc pe pa ps t')
  obtain p px where pe: "pe = (p, px)" by (rule prod.exhaust)
  obtain n where n: "mem s q = Some n" "rb_parent n = Some p"
    using assms(1,3) 1 pe by (cases t rule: root.cases) (auto simp: zrep_def)
  have p: "mem s p = Some (mknode pd pc None (Some q) (root ps) px pa)"
    using assms(1,3) 1 pe by (auto simp: zrep_def)
  then have "rotate s q = Some (s\<lparr>mem := (mem s)(p \<mapsto> mknode pd Black None (Some q) (root ps) px pa)\<rparr>)"
    using n by (simp add: rotate_def)
  with assms 1 pe p show ?thesis by (auto simp: zrep_def only_def)
next
  case (2 pd pc pe pa ps gd gc ge ga gs fs' nc nl nx na nr)
  obtain p px where pe: "pe = (p, px)" by (rule prod.exhaust)
  obtain g gx where ge: "ge = (g, gx)" by (rule prod.exhaust)
  from 2 assms(2) have a: "pa = None" "ga = None" "dirty fs' = fs'" by auto
  have z0: "zrep s fs' (bin gd gc (g, gx) None (bin pd pc (p, px) None t ps) gs)"
    using assms(1) 2 pe ge a zrep_move [of fs t fs' _ s] by simp
  obtain n where n: "mem s q = Some n" "rb_parent n = Some p" "child n gd = root (tree_child gd t)"
    using assms(1,3) 2 pe by (cases t rule: root.cases; cases gd) (auto simp: zrep_def)
  have pg: "mem s p = Some (mknode pd pc (Some g) (Some q) (root ps) px None)"
    "mem s g = Some (mknode gd gc (parent_of fs') (Some p) (root gs) gx None)"
    using z0 assms(3) by (auto simp: zrep_def)
  have "\<And>n. mem s g = Some n \<Longrightarrow> child_dir n (Some p) = Some gd"
    "\<And>n. mem s p = Some n \<Longrightarrow> child_dir n (Some q) = Some pd"
    using pg z0 assms(3) root_in_addrs [of gs p] root_in_addrs [of ps q] root_in_addrs [of t q]
    by (auto simp: zrep_def intro!: child_dir_mknode)
  note k = n pg this
  show ?thesis
  proof (cases "gd = pd")
    case True
    from rotate_outer_core [OF z0 [unfolded True] a(3)] obtain s' where s':
      "(do { pn \<leftarrow> mem s p;
           let sibling = child pn (opposite gd);
           s \<leftarrow> replace_node s g (Some p);
           h \<leftarrow> set_child (mem s) p (opposite gd) (Some g);
           h \<leftarrow> set_child h g gd sibling;
           h \<leftarrow> set_color h (Some p) Black;
           h \<leftarrow> set_color h (Some g) Red;
           Some (s\<lparr>mem := h\<rparr>) }) = Some s'"
      "zrep s' fs' (bin gd Black (p, px) None t (bin gd Red (g, gx) None ps gs))"
      "only (set (addrs (plug fs' (bin gd gc (g, gx) None (bin gd pc (p, px) None t ps) gs)))) (mem s) (mem s')"
      using True by auto
    have "rotate s q = Some s'"
      using s'(1) k True by (simp add: rotate_def Let_def)
    with s' True 2 pe ge a show ?thesis by (auto simp: zrep_plug)
  next
    case False
    then have pd: "pd = opposite gd" by (cases gd; cases pd) auto
    obtain nc' nx' na' where t: "t = bin gd nc' (q, nx') na' (tree_child gd t) (tree_child pd t)"
      using tree_as_bin [OF assms(3), of gd] pd by auto
    let ?B = "tree_child gd t" let ?C = "tree_child pd t"
    have "bin pd pc (p, px) None t ps = bin gd pc (p, px) None ps t"
      unfolding pd by (cases gd) auto
    with z0 t have z1: "zrep s fs' (bin gd gc (g, gx) None (bin gd pc (p, px) None ps (bin gd nc' (q, nx') na' ?B ?C)) gs)"
      by metis
    from rotate_in [OF z1] obtain h1 h2 h3 where
      r: "set_child (mem s) g gd (Some q) = Some h1" "set_child h1 q gd (Some p) = Some h2"
        "set_child h2 p (opposite gd) (root ?B) = Some h3"
      and z2: "zrep (s\<lparr>mem := h3\<rparr>) fs' (bin gd gc (g, gx) None (bin gd nc' (q, nx') None (bin gd pc (p, px) None ps ?B) ?C) gs)"
      and o2: "only (set (addrs (bin gd gc (g, gx) None (bin gd pc (p, px) None ps (bin gd nc' (q, nx') na' ?B ?C)) gs))) (mem s) h3"
      by blast
    from rotate_outer_core [OF z2 a(3)] obtain s' where s':
      "(do { pn \<leftarrow> h3 q;
           let sibling = child pn (opposite gd);
           s \<leftarrow> replace_node (s\<lparr>mem := h3\<rparr>) g (Some q);
           h \<leftarrow> set_child (mem s) q (opposite gd) (Some g);
           h \<leftarrow> set_child h g gd sibling;
           h \<leftarrow> set_color h (Some q) Black;
           h \<leftarrow> set_color h (Some g) Red;
           Some (s\<lparr>mem := h\<rparr>) }) = Some s'"
      "zrep s' fs' (bin gd Black (q, nx') None (bin gd pc (p, px) None ps ?B) (bin gd Red (g, gx) None ?C gs))"
      "only (set (addrs (plug fs' (bin gd gc (g, gx) None (bin gd nc' (q, nx') None (bin gd pc (p, px) None ps ?B) ?C) gs)))) h3 (mem s')"
      by auto
    have rot: "rotate s q = Some s'"
      using s'(1) k False r pd by (simp add: rotate_def Let_def)
    have ad: "set (addrs t) = insert q (set (addrs ?B) \<union> set (addrs ?C))" by (subst t) simp
    have tr: "tree_rotate fs t = plug fs' (bin gd Black (q, nx') None (bin gd pc (p, px) None ps ?B) (bin gd Red (g, gx) None ?C gs))"
      using 2 False pe ge t by (cases gd) auto
    have "only (set (addrs (plug fs t))) (mem s) (mem s')"
    proof (rule only_trans)
      show "only (set (addrs (plug fs t))) (mem s) h3"
        by (rule only_mono [OF o2]) (use 2 pe ge ad in \<open>auto simp: plug_addr\<close>)
      show "only (set (addrs (plug fs t))) h3 (mem s')"
        by (rule only_mono [OF s'(3)]) (use 2 pe ge ad in \<open>auto simp: plug_addr\<close>)
    qed
    with rot s'(2) tr show ?thesis by (simp add: zrep_plug)
  qed
qed (use assms in auto)

end
