(* ===== verification/Rb_Insert.thy ===== *)
theory Rb_Insert
  imports Rb_Rotate
begin

text \<open>
  Recomputing the augmented values of dirty nodes, and the refinement theorem for insertion.
\<close>

abbreviation aaug :: "('a \<Rightarrow> 'v option \<Rightarrow> 'v option \<Rightarrow> 'v) \<Rightarrow> nat \<times> 'a \<Rightarrow> 'v option \<Rightarrow> 'v option \<Rightarrow> 'v" where
  "aaug f \<equiv> \<lambda>e. f (snd e)"

lemma is_dirty_root:
  "rep h par t \<Longrightarrow> is_dirty h (root t) = Some (t \<noteq> Leaf \<and> tree_aug t = None)"
  by (cases t rule: root.cases) (auto simp: is_dirty_def)

lemma child_augment_root: "rep h par t \<Longrightarrow> child_augment h (root t) = Some (tree_aug t)"
  by (cases t rule: root.cases) (auto simp: child_augment_def)

lemma update_augments_addr [simp]:
  "root (tree_update_augments f t) = root t" "addrs (tree_update_augments f t) = addrs t"
proof -
  show "root (tree_update_augments f t) = root t"
    by (cases "(f, t)" rule: tree_update_augments.cases; cases t rule: root.cases) (auto simp: Let_def)
  show "addrs (tree_update_augments f t) = addrs t"
  proof (induction f t rule: tree_update_augments.induct)
    case (1 f c l x r)
    then show ?case by (cases x) (auto simp: Let_def)
  qed auto
qed

lemma update_augments_not_dirty:
  "tree_update_augments f t = Leaf \<or> tree_aug (tree_update_augments f t) \<noteq> None"
  by (cases "(f, t)" rule: tree_update_augments.cases) (auto simp: Let_def)

definition continue_at :: "('a, 'v) heap \<Rightarrow> ('a \<Rightarrow> 'v option \<Rightarrow> 'v option \<Rightarrow> 'v) \<Rightarrow> ptr \<Rightarrow> ('a, 'v) heap option" where
  "continue_at h f par = (case par of None \<Rightarrow> Some h | Some p \<Rightarrow> update_loop h f p)"

lemma continue_at_Some [simp]: "continue_at h f (Some p) = update_loop h f p"
  by (simp add: continue_at_def)

lemma update_loop_both_clean:
  assumes "h q = Some (mknode Left c par (root l) (root r) x None)" "rep h (Some q) l" "rep h (Some q) r"
    "l = Leaf \<or> tree_aug l \<noteq> None" "r = Leaf \<or> tree_aug r \<noteq> None"
  shows "update_loop h f q =
    continue_at (h(q \<mapsto> mknode Left c par (root l) (root r) x (Some (f x (tree_aug l) (tree_aug r))))) f par"
  using assms
  by (subst update_loop.simps)
    (auto simp: is_dirty_root child_augment_root calculate_augment_def continue_at_def)

lemma update_loop_tree:
  assumes "rep h par t" "distinct (addrs t)" "root t = Some q" "tree_aug t = None"
  shows "\<exists>h'. update_loop h f q = continue_at h' f par \<and> rep h' par (tree_update_augments (aaug f) t) \<and>
              only (set (addrs t)) h h'"
  using assms
proof (induction t arbitrary: h par q)
  case (Node c l e a r)
  obtain x where e: "e = (q, x)" using Node.prems(3) by (cases e) auto
  let ?U = "tree_update_augments (aaug f)"
  from Node.prems e have h0: "h q = Some (mknode Left c par (root l) (root r) x None)"
    "rep h (Some q) l" "rep h (Some q) r" "q \<notin> set (addrs l)" "q \<notin> set (addrs r)"
    "distinct (addrs l)" "distinct (addrs r)" "set (addrs l) \<inter> set (addrs r) = {}" by auto
  have "\<exists>h1. update_loop h f q = update_loop h1 f q \<and> rep h1 (Some q) (?U l) \<and> only (set (addrs l)) h h1"
  proof (cases "l = Leaf \<or> tree_aug l \<noteq> None")
    case True
    then have "?U l = l" by (cases "(aaug f, l)" rule: tree_update_augments.cases) auto
    with h0(2) show ?thesis by (auto simp: only_def)
  next
    case False
    then obtain p where p: "root l = Some p" by (cases l rule: root.cases) auto
    from Node.IH(1) [OF h0(2) h0(6) p] False obtain h1 where
      "update_loop h f p = update_loop h1 f q" "rep h1 (Some q) (?U l)" "only (set (addrs l)) h h1" by auto
    moreover have "update_loop h f q = update_loop h f p"
      using h0(1) p False is_dirty_root [OF h0(2)] by (subst update_loop.simps) simp
    ultimately show ?thesis by auto
  qed
  then obtain h1 where h1: "update_loop h f q = update_loop h1 f q" "rep h1 (Some q) (?U l)"
    "only (set (addrs l)) h h1" by blast
  have k1: "h1 q = h q" "rep h1 (Some q) r" using onlyD [OF h1(3)] rep_only(1) [OF h1(3)] h0 by auto
  have "\<exists>h2. update_loop h1 f q = update_loop h2 f q \<and> rep h2 (Some q) (?U r) \<and> only (set (addrs r)) h1 h2"
  proof (cases "r = Leaf \<or> tree_aug r \<noteq> None")
    case True
    then have "?U r = r" by (cases "(aaug f, r)" rule: tree_update_augments.cases) auto
    with k1 show ?thesis by (auto simp: only_def)
  next
    case False
    then obtain p where p: "root r = Some p" by (cases r rule: root.cases) auto
    from Node.IH(2) [OF k1(2) h0(7) p] False obtain h2 where
      "update_loop h1 f p = update_loop h2 f q" "rep h2 (Some q) (?U r)" "only (set (addrs r)) h1 h2" by auto
    moreover have "update_loop h1 f q = update_loop h1 f p"
      using h0(1) k1 p False is_dirty_root [OF k1(2)] is_dirty_root [OF h1(2)]
        update_augments_not_dirty [of "aaug f" l]
      by (subst update_loop.simps) auto
    ultimately show ?thesis by auto
  qed
  then obtain h2 where h2: "update_loop h1 f q = update_loop h2 f q" "rep h2 (Some q) (?U r)"
    "only (set (addrs r)) h1 h2" by blast
  have k2: "h2 q = h q" "rep h2 (Some q) (?U l)"
    using onlyD [OF h2(3)] rep_only(1) [OF h2(3), of "?U l" "Some q"] h0 h1(2) k1(1)
    by (auto simp: Int_commute)
  let ?h3 = "h2(q \<mapsto> mknode Left c par (root l) (root r) x (Some (f x (tree_aug (?U l)) (tree_aug (?U r)))))"
  have "update_loop h2 f q = continue_at ?h3 f par"
    using update_loop_both_clean [of h2 q c par "?U l" "?U r" x f] k2 h2(2) h0(1)
      update_augments_not_dirty [of "aaug f" l] update_augments_not_dirty [of "aaug f" r] by simp
  moreover have "rep ?h3 par (?U (Node c l e a r))"
    using k2 h2(2) h0 e Node.prems(4) by (simp add: Let_def)
  moreover have "only (set (addrs (Node c l e a r))) h ?h3"
    using h1(3) h2(3) e by (auto simp: only_def)
  ultimately show ?case using h1(1) h2(1) by metis
qed simp

lemma update_augments_zrep:
  assumes "zrep s [] T"
  shows "\<exists>s'. update_augments s f = Some s' \<and> zrep s' [] (tree_update_augments (aaug f) T) \<and>
              only (set (addrs T)) (mem s) (mem s')"
proof (cases "T = Leaf \<or> tree_aug T \<noteq> None")
  case True
  then have "tree_update_augments (aaug f) T = T"
    by (cases "(aaug f, T)" rule: tree_update_augments.cases) auto
  with assms True is_dirty_root [of "mem s" None T] show ?thesis
    by (auto simp: update_augments_def zrep_def only_def)
next
  case False
  then obtain q where q: "root T = Some q" by (cases T rule: root.cases) auto
  from assms have "rep (mem s) None T" "distinct (addrs T)" by (auto simp: zrep_def)
  from update_loop_tree [OF this q, of f] False obtain h' where
    h': "update_loop (mem s) f q = Some h'" "rep h' None (tree_update_augments (aaug f) T)"
      "only (set (addrs T)) (mem s) h'" by (auto simp: continue_at_def)
  with assms False q is_dirty_root [of "mem s" None T] show ?thesis
    by (auto simp: update_augments_def zrep_def)
qed

lemma tree_insert_addrs: "set (addrs t) = fst ` set (inorder t)"
  by (induction t rule: addrs.induct) auto

text \<open>Insertion on the heap is insertion on trees.\<close>

lemma mark_dirty_zrep:
  assumes "zrep s fs t" "up_dirty fs"
  shows "\<exists>h. mark_dirty (mem s) (parent_of fs) = Some h \<and> zrep (s\<lparr>mem := h\<rparr>) (dirty fs) t \<and>
             only (set (faddrs fs)) (mem s) h"
proof -
  from assms obtain h where h: "mark_dirty (mem s) (parent_of fs) = Some h"
    "rep_fs h (root t) (dirty fs)" "only (set (faddrs fs)) (mem s) h"
    using mark_dirty_path [of "mem s" "root t" fs] by (auto simp: zrep_def)
  have "rep h (parent_of fs) t"
    using rep_only(1) [OF h(3), of t "parent_of fs"] assms(1) by (auto simp: zrep_def Int_commute)
  with h assms show ?thesis by (auto simp: zrep_def)
qed

lemma clean_frames_dirty: "ctx_clean f fs \<Longrightarrow> dirty fs = fs"
  by (induction fs rule: ctx_clean.induct) auto

lemma semi_clean_path: "semi f (plug fs t) \<Longrightarrow> tree_aug t = None \<Longrightarrow> t \<noteq> Leaf \<Longrightarrow> dirty fs = fs"
proof (induction fs t rule: plug.induct)
  case (2 d c x a s fs t)
  then have "semi f (bin d c x a t s)" using semi_ctx by fastforce
  with "2.prems" have "a = None" by (cases a; cases d; cases t) auto
  with 2 show ?case by auto
qed simp

lemma semi_up_dirty: "semi f (plug fs t) \<Longrightarrow> up_dirty fs"
proof (induction fs t rule: plug.induct)
  case (2 d c x a s fs t)
  then show ?case using semi_clean_path [of f fs "bin d c x a t s"] by auto
qed simp

text \<open>A tree in which the ancestors of a node without a cached value have none either; nothing is said of the values.\<close>

definition closed_up :: "(nat \<times> 'a, 'v) rbtree \<Rightarrow> bool" where
  "closed_up T \<longleftrightarrow> (\<forall>fs t. T = plug fs t \<longrightarrow> up_dirty fs)"

lemma semi_closed_up: "semi f T \<Longrightarrow> closed_up T"
  unfolding closed_up_def using semi_up_dirty by blast

lemma dirty_frame_idem [simp]: "dirty_frame (dirty_frame f) = dirty_frame f"
  by (cases f) simp

lemma tree_recolor_dirty: "tree_recolor fs t = (fs', w) \<Longrightarrow> dirty fs = fs \<Longrightarrow> dirty fs' = fs'"
  by (induction fs t rule: tree_recolor.induct) (auto split: if_splits)

theorem insert_raw_refines:
  assumes "zrep s [] T" "semi (aaug f) T" "mem s q = Some n" "rb_value n = x" "q \<notin> set (addrs T)"
  shows "\<exists>s'. insert_raw s f q cmp = Some s' \<and> zrep s' [] (tree_insert (aaug f) (acmp cmp) (q, x) T) \<and>
              only (insert q (set (addrs T))) (mem s) (mem s')"
proof -
  let ?fs = "tree_place (acmp cmp) (q, x) [] T" and ?n = "Node Red Leaf (q, x) None Leaf"
  let ?S = "insert q (set (addrs T))"
  have p: "plug ?fs Leaf = T" by (simp add: tree_place_plug)
  then have F: "set (faddrs ?fs) = set (addrs T)" using plug_addr(1) [of ?fs Leaf] by simp
  then have S: "set (addrs (plug ?fs ?n)) = ?S" by (simp add: plug_addr)
  from place_zrep [OF assms(1,3-5) refl] obtain s1 where
    s1: "place s q cmp = Some s1" "zrep s1 ?fs ?n" "only ?S (mem s) (mem s1)" by blast
  have n1: "mem s1 q = Some (mknode Left Red (parent_of ?fs) None None x None)"
    using s1(2) by (simp add: zrep_def)
  have "up_dirty ?fs" using assms(2) p by (metis semi_up_dirty)
  from mark_dirty_zrep [OF s1(2) this] obtain h1 where
    h1: "mark_dirty (mem s1) (parent_of ?fs) = Some h1" "zrep (s1\<lparr>mem := h1\<rparr>) (dirty ?fs) ?n"
      "only (set (faddrs ?fs)) (mem s1) h1" by blast
  obtain fs' w where rc: "tree_recolor (dirty ?fs) ?n = (fs', w)" by (rule prod.exhaust)
  from recolor_zrep [OF h1(2) _ rc, of q] obtain h2 wq where
    h2: "recolor h1 q = Some (h2, wq)" "zrep (s1\<lparr>mem := h2\<rparr>) fs' w" "root w = Some wq"
      "only (set (addrs (plug (dirty ?fs) ?n))) h1 h2" by auto
  have ad: "set (addrs (plug fs' w)) = ?S"
    using tree_recolor_inorder [OF rc] S by (simp add: tree_insert_addrs inorder_plug)
  obtain wn where wn: "h2 wq = Some wn" "rb_parent wn = parent_of fs'"
    using h2(2,3) by (cases w rule: root.cases) (auto simp: zrep_def)
  have pc: "color_at h2 (parent_of fs') = Some (top_color fs')"
    using h2(2) by (cases fs' rule: parent_of.cases) (auto simp: zrep_def color_at_def)
  have df: "dirty fs' = fs'" using tree_recolor_dirty [OF rc] by simp
  let ?T2 = "if top_color fs' = Red then tree_rotate fs' w else plug fs' w"
  have "\<exists>s2. (if top_color fs' = Red then rotate (s1\<lparr>mem := h2\<rparr>) wq else Some (s1\<lparr>mem := h2\<rparr>)) = Some s2 \<and>
      zrep s2 [] ?T2 \<and> only ?S h2 (mem s2)"
    using rotate_zrep [OF h2(2) df h2(3)] h2(2) ad by (cases fs') (auto simp: zrep_plug only_def)
  then obtain s2 where s2: "(if top_color fs' = Red then rotate (s1\<lparr>mem := h2\<rparr>) wq else Some (s1\<lparr>mem := h2\<rparr>)) = Some s2"
    "zrep s2 [] ?T2" "only ?S h2 (mem s2)" by blast
  from update_augments_zrep [OF s2(2), of f] obtain s3 where
    s3: "update_augments s2 f = Some s3" "zrep s3 [] (tree_update_augments (aaug f) ?T2)"
      "only (set (addrs ?T2)) (mem s2) (mem s3)" by blast
  have "set (addrs ?T2) = ?S"
    using ad by (auto simp: tree_insert_addrs inorder_plug tree_rotate_inorder)
  with s3(3) s2(3) h2(4) h1(3) s1(3) F
  have "only ?S (mem s) (mem s3)" by (simp add: only_def plug_addr)
  moreover have "insert_raw s f q cmp = Some s3"
    using s1(1) n1 h1(1) h2(1) wn pc s2(1) s3(1) by (simp add: insert_raw_def)
  ultimately show ?thesis using s3(2) rc by (auto simp: tree_insert_def)
qed

end
