(* ===== verification/Rb_Remove.thy ===== *)
theory Rb_Remove
  imports Rb_Insert
begin

text \<open>
  Removal on the heap: unlinking the node, the repair loop and the refinement theorem.
\<close>

lemma only_sub: "only S h h' \<Longrightarrow> only S' h' h'' \<Longrightarrow> S \<subseteq> T \<Longrightarrow> S' \<subseteq> T \<Longrightarrow> only T h h''"
  unfolding only_def by (metis subsetD)

lemma only_refl [simp]: "only S h h"
  by (simp add: only_def)

lemma bin_opposite: "bin (opposite d) c x a t s = bin d c x a s t"
  by (cases d) auto

lemma mknode_Right: "mknode Right c par p q x a = mknode Left c par q p x a"
  by (simp add: mknode_def)

lemma leftmost_rep:
  "rep h par t \<Longrightarrow> tree_leftmost fs t = (gs, u) \<Longrightarrow> root t = Some p \<Longrightarrow> leftmost h p = root u"
proof (induction fs t arbitrary: par p rule: tree_leftmost.induct)
  case (1 fs c lc ll lx la lr x a r)
  then show ?case by (cases x; cases lx) (subst leftmost.simps, auto)
qed (auto simp: leftmost.simps split: if_splits)

text \<open>Replacing a node by one of its subtrees while the other one is empty.\<close>

lemma replace_node_zrep:
  assumes "zrep s fs (bin d c (p, x) a t Leaf)" "up_dirty fs"
  shows "\<exists>s'. replace_node s p (root t) = Some s' \<and> zrep s' (dirty fs) t \<and> mem s' p = mem s p \<and>
              only (set (faddrs fs) \<union> set (addrs t)) (mem s) (mem s')"
proof -
  have z: "rep_fs (mem s) (Some p) fs" "head s = head_of (Some p) fs"
    "mem s p = Some (mknode d c (parent_of fs) (root t) None x a)" "rep (mem s) (Some p) t"
    and dist0: "distinct (p # addrs t @ faddrs fs)"
    using assms(1) by (auto simp: zrep_def)
  note dist = dist0 [simplified, unfolded Int_Un_distrib Un_empty]
  have v: "r \<notin> set (faddrs fs) \<and> (\<exists>m. mem s r = Some m)" if "root t = Some r" for r
    using that dist root_in_addrs [OF that] rep_any_alloc [OF rep_anyI [OF z(4)] that] by auto
  obtain h1 where h1:
    "replace_node s p (root t) = Some (s\<lparr>mem := set_par h1 (root t) (parent_of fs), head := head_of (root t) fs\<rparr>)"
    "rep_fs h1 (root t) (dirty fs)" "only (set (faddrs fs)) (mem s) h1"
    using replace_node_gen [of s p fs _ "root t"] z dist assms(2) v by auto
  have k: "h1 p = mem s p" "rep h1 (Some p) t"
    using dist onlyD [OF h1(3)] rep_only(1) [OF h1(3)] z(4) by (auto simp: Int_commute)
  let ?s' = "s\<lparr>mem := set_par h1 (root t) (parent_of fs), head := head_of (root t) fs\<rparr>"
  have "zrep ?s' (dirty fs) t" using h1(2) k(2) dist by (auto simp: zrep_def intro: rep_set_par)
  moreover have "only (set (faddrs fs) \<union> set (addrs t)) (mem s) (mem ?s')"
    using h1(3) by (auto simp: only_def)
  ultimately show ?thesis using h1(1) k(1) dist by auto
qed

text \<open>Replacing a node by another one that is outside the tree, with the children handed over.\<close>

lemma transplant_zrep:
  assumes "zrep s fs (Node c l (p, x) a r)" "dirty fs = fs"
    and "mem s q = Some (mknode Left qc qp ql qr y b)" "q \<notin> set (addrs (plug fs (Node c l (p, x) a r)))"
  shows "\<exists>s1 h2 h3 h4 h5. replace_node s p (Some q) = Some s1 \<and>
           mem s1 p = Some (mknode Left c (parent_of fs) (root l) (root r) x a) \<and>
           set_child (mem s1) q Left (root l) = Some h2 \<and> h2 p = mem s1 p \<and>
           set_child h2 q Right (root r) = Some h3 \<and> h3 p = mem s1 p \<and>
           map_option rb_color (h3 q) = Some qc \<and>
           set_color h3 (Some p) qc = Some h4 \<and> set_color h4 (Some q) c = Some h5 \<and>
           zrep (s1\<lparr>mem := h5\<rparr>) fs (Node c l (q, y) None r) \<and>
           only (insert q (set (addrs (plug fs (Node c l (p, x) a r))))) (mem s) h5"
proof -
  have z: "rep_fs (mem s) (Some p) fs" "head s = head_of (Some p) fs"
    "mem s p = Some (mknode Left c (parent_of fs) (root l) (root r) x a)"
    "rep (mem s) (Some p) l" "rep (mem s) (Some p) r"
    and dist0: "distinct (q # p # addrs l @ addrs r @ faddrs fs)"
    using assms(1,4) by (auto simp: zrep_def plug_addr)
  note dist = dist0 [simplified, unfolded Int_Un_distrib Un_empty]
  obtain h1 where h1:
    "replace_node s p (Some q) = Some (s\<lparr>mem := set_par h1 (Some q) (parent_of fs), head := head_of (Some q) fs\<rparr>)"
    "rep_fs h1 (Some q) (dirty fs)" "only (set (faddrs fs)) (mem s) h1"
    using replace_node_gen [of s p fs _ "Some q"] z dist assms(2,3) by auto
  have k: "h1 p = mem s p" "h1 q = mem s q" "rep h1 (Some p) l" "rep h1 (Some p) r"
    using dist onlyD [OF h1(3)] rep_only(1) [OF h1(3)] z(4,5) by (auto simp: Int_commute)
  let ?h1 = "h1(q \<mapsto> mknode Left qc (parent_of fs) ql qr y b)"
  let ?h2 = "set_par (?h1(q \<mapsto> mknode Left qc (parent_of fs) (root l) qr y None)) (root l) (Some q)"
  let ?h3 = "set_par (?h2(q \<mapsto> mknode Left qc (parent_of fs) (root l) (root r) y None)) (root r) (Some q)"
  let ?h5 = "?h3(p \<mapsto> mknode Left qc (parent_of fs) (root l) (root r) x a,
                 q \<mapsto> mknode Left c (parent_of fs) (root l) (root r) y None)"
  have m1: "set_par h1 (Some q) (parent_of fs) = ?h1" using k(2) assms(3) by simp
  have r1: "rep_fs ?h1 (Some q) fs" using h1(2) assms(2) dist by simp
  have "stops ?h1 q (parent_of fs) b" using stops_path [OF r1 assms(2)] dist by simp
  then have s2: "set_child ?h1 q Left (root l) = Some ?h2"
    using k dist set_child_tree [of ?h1 q Left qc "parent_of fs" ql qr y b l] by simp
  have s3: "set_child ?h2 q Right (root r) = Some ?h3"
    using k dist set_child_tree [of ?h2 q Right qc "parent_of fs" qr "root l" y None r]
    by (simp add: mknode_Right)
  let ?s1 = "s\<lparr>mem := ?h1, head := head_of (Some q) fs\<rparr>"
  have "zrep (?s1\<lparr>mem := ?h5\<rparr>) fs (Node c l (q, y) None r)"
    using dist k r1 by (auto simp: zrep_def)
  moreover have "only (insert q (set (addrs (plug fs (Node c l (p, x) a r))))) (mem s) ?h5"
    using h1(3) by (auto simp: only_def plug_addr)
  moreover have "replace_node s p (Some q) = Some ?s1" using h1(1) unfolding m1 .
  moreover have "set_child (mem ?s1) q Left (root l) = Some ?h2" using s2 by simp
  moreover have "mem ?s1 p = Some (mknode Left c (parent_of fs) (root l) (root r) x a)"
    using k z dist by simp
  moreover have "?h2 p = mem ?s1 p" "?h3 p = mem ?s1 p" using dist by simp_all
  moreover have "map_option rb_color (?h3 q) = Some qc" using dist by simp
  moreover have "set_color ?h3 (Some p) qc = Some (?h3(p \<mapsto> mknode Left qc (parent_of fs) (root l) (root r) x a))"
    using k z dist by simp
  moreover have "set_color (?h3(p \<mapsto> mknode Left qc (parent_of fs) (root l) (root r) x a)) (Some q) c = Some ?h5"
    using dist by simp
  ultimately show ?thesis using s3 by blast
qed

lemma plug_dirty_append: "dirty (fs @ gs) = dirty fs @ dirty gs"
  by simp

lemma parent_of_append: "parent_of (gs @ fs) = (if gs = [] then parent_of fs else parent_of gs)"
  by (cases gs rule: parent_of.cases) auto

lemma parent_in_faddrs: "parent_of fs = Some p \<Longrightarrow> p \<in> set (faddrs fs)"
  by (cases fs rule: parent_of.cases) auto

lemma faddrs_append: "faddrs (fs @ gs) = faddrs fs @ faddrs gs"
  by (induction fs rule: faddrs.induct) auto

lemma dirty_dirty [simp]: "dirty (dirty fs) = dirty fs"
  by simp

lemma unplace_two_zrep:
  assumes z0: "zrep s fs (Node c l (p, x) a r)" and cl: "closed_up (plug fs (Node c l (p, x) a r))"
    and ne: "l \<noteq> Leaf" "r \<noteq> Leaf" and lm: "tree_leftmost [] r = (gs, Node sc Leaf (q, y) sa sr)"
  shows "\<exists>s'. unplace s p = Some (s', (if gs = [] then Some q else parent_of gs), root sr, sc) \<and>
              zrep s' (dirty (gs @ Frame Right c (q, y) None l # fs)) sr \<and>
              only (set (addrs (plug fs (Node c l (p, x) a r)))) (mem s) (mem s')"
proof -
  let ?F = "gs @ Frame Right c (p, x) a l # fs" and ?v = "Node sc Leaf (q, y) sa sr"
  let ?S = "set (addrs (plug fs (Node c l (p, x) a r)))"
  have pl: "plug ?F ?v = plug fs (Node c l (p, x) a r)"
    using tree_leftmost_plug [OF lm] by (simp add: plug_append)
  have zF: "zrep s ?F (bin Right sc (q, y) sa sr Leaf)" using zrep_move [OF pl [symmetric] z0] by simp
  have S: "?S = insert q (set (addrs sr) \<union> set (faddrs ?F))" using pl plug_addr(1) [of ?F ?v] by auto
  have up: "up_dirty ?F" using cl pl unfolding closed_up_def by metis
  from replace_node_zrep [OF zF up] obtain s1 where
    s1: "replace_node s q (root sr) = Some s1" "zrep s1 (dirty ?F) sr" "mem s1 q = mem s q"
      "only (set (faddrs ?F) \<union> set (addrs sr)) (mem s) (mem s1)" by blast
  let ?r = "plug (dirty gs) sr"
  have z1: "zrep s1 (dirty fs) (Node c l (p, x) None ?r)"
    using zrep_move [OF _ s1(2), of "dirty fs" "Node c l (p, x) None ?r"] by (simp add: plug_append)
  have q: "mem s q = Some (mknode Left sc (parent_of ?F) None (root sr) y sa)"
    using zF by (simp add: zrep_def mknode_Right)
  have "distinct (addrs (plug ?F ?v))" using z0 pl zrep_plug [of s fs "Node c l (p, x) a r"] by (simp add: zrep_def)
  then have qF: "q \<notin> set (faddrs ?F)" "q \<notin> set (addrs sr)" "distinct (faddrs ?F)"
    unfolding plug_addr(2) by auto
  then have qS: "q \<notin> set (addrs (plug (dirty fs) (Node c l (p, x) None ?r)))"
    by (auto simp: plug_addr faddrs_append)
  from transplant_zrep [OF z1 _ _ qS] s1(3) q obtain s2 h2 h3 h4 h5 where
    t: "replace_node s1 p (Some q) = Some s2"
      "mem s2 p = Some (mknode Left c (parent_of (dirty fs)) (root l) (root ?r) x None)"
      "set_child (mem s2) q Left (root l) = Some h2" "h2 p = mem s2 p"
      "set_child h2 q Right (root ?r) = Some h3" "h3 p = mem s2 p"
      "map_option rb_color (h3 q) = Some sc"
      "set_color h3 (Some p) sc = Some h4" "set_color h4 (Some q) c = Some h5"
      "zrep (s2\<lparr>mem := h5\<rparr>) (dirty fs) (Node c l (q, y) None ?r)"
      "only (insert q (set (addrs (plug (dirty fs) (Node c l (p, x) None ?r))))) (mem s1) h5"
    by (auto simp del: mknode_upd)
  from t(7) obtain sn where sn: "h3 q = Some sn" "rb_color sn = sc" by auto
  have p0: "mem s p = Some (mknode Left c (parent_of fs) (root l) (root r) x a)"
    using z0 by (simp add: zrep_def)
  have sc: "successor_child (mem s) p = Some q"
  proof -
    obtain rq where rq: "root r = Some rq" using ne(2) by (cases r rule: root.cases) auto
    have "rep (mem s) (Some p) r" using z0 by (simp add: zrep_def)
    from leftmost_rep [OF this lm rq] p0 rq show ?thesis by (simp add: successor_child_def)
  qed
  have fp: "(if parent_of ?F = Some p then Some q else parent_of ?F) = (if gs = [] then Some q else parent_of gs)"
    using qF(3) parent_in_faddrs [of gs p] by (auto simp: parent_of_append faddrs_append)
  have "unplace s p = Some (s2\<lparr>mem := h5\<rparr>, (if gs = [] then Some q else parent_of gs), root sr, sc)"
    using p0 q ne sc s1(1) t(1-6,8,9) sn fp by (simp add: unplace_def Let_def split: if_splits)
  moreover have "zrep (s2\<lparr>mem := h5\<rparr>) (dirty (gs @ Frame Right c (q, y) None l # fs)) sr"
    by (rule zrep_move [OF _ t(10)]) (simp add: plug_append)
  moreover have "only ?S (mem s) h5"
    by (rule only_sub [OF s1(4) t(11)]) (unfold S, auto simp: plug_addr faddrs_append)
  ultimately show ?thesis by auto
qed

lemma unplace_zrep:
  assumes z0: "zrep s fs (Node c l (p, x) a r)" and cl: "closed_up (plug fs (Node c l (p, x) a r))"
    and un: "tree_unplace fs (Node c l (p, x) a r) = (fs', u, col)"
  shows "\<exists>s'. unplace s p = Some (s', parent_of fs', root u, col) \<and> zrep s' fs' u \<and>
              only (set (addrs (plug fs (Node c l (p, x) a r)))) (mem s) (mem s')"
proof -
  have up: "up_dirty fs" using cl unfolding closed_up_def by blast
  have p0: "mem s p = Some (mknode Left c (parent_of fs) (root l) (root r) x a)"
    using z0 by (simp add: zrep_def)
  consider "l = Leaf" | "l \<noteq> Leaf" "r = Leaf" | "l \<noteq> Leaf" "r \<noteq> Leaf" by blast
  then show ?thesis
  proof cases
    case 1
    with z0 have "zrep s fs (bin Right c (p, x) a r Leaf)" by simp
    from replace_node_zrep [OF this up] obtain s' where
      "replace_node s p (root r) = Some s'" "zrep s' (dirty fs) r" "mem s' p = mem s p"
      "only (set (faddrs fs) \<union> set (addrs r)) (mem s) (mem s')" by blast
    with 1 p0 un show ?thesis by (auto simp: unplace_def plug_addr elim: only_mono)
  next
    case 2
    with z0 have "zrep s fs (bin Left c (p, x) a l Leaf)" by simp
    from replace_node_zrep [OF this up] obtain s' where
      "replace_node s p (root l) = Some s'" "zrep s' (dirty fs) l" "mem s' p = mem s p"
      "only (set (faddrs fs) \<union> set (addrs l)) (mem s) (mem s')" by blast
    with 2 p0 un show ?thesis by (auto simp: unplace_def plug_addr elim: only_mono)
  next
    case 3
    obtain gs v where lm: "tree_leftmost [] r = (gs, v)" by (rule prod.exhaust)
    with 3 tree_leftmost_Leaf [OF lm] obtain sc q y sa sr where v: "v = Node sc Leaf (q, y) sa sr"
      by (cases v) auto
    have "fs' = dirty (gs @ Frame Right c (q, y) None l # fs)" "u = sr" "col = sc" using 3 lm v un by auto
    then show ?thesis using unplace_two_zrep [OF z0 cl 3 lm [unfolded v]]
      by (auto simp: parent_of_append)
  qed
qed

lemma set_color_at:
  assumes "zrep s fs (bin d c (m, x) a t u)"
  shows "\<exists>h. set_color (mem s) (Some m) c' = Some h \<and> zrep (s\<lparr>mem := h\<rparr>) fs (bin d c' (m, x) a t u) \<and> only {m} (mem s) h"
proof -
  have "mem s m = Some (mknode d c (parent_of fs) (root t) (root u) x a)"
    using assms by (simp add: zrep_def)
  with assms show ?thesis by (auto simp: zrep_def only_def)
qed

lemma paint_zrep:
  assumes "zrep s fs t" "root t = Some b"
  shows "\<exists>h. set_color (mem s) (Some b) c = Some h \<and> zrep (s\<lparr>mem := h\<rparr>) fs (paint c t) \<and> only {b} (mem s) h"
proof (cases t rule: root.cases)
  case (2 c' l q x a r)
  then show ?thesis using set_color_at [of s fs Left c' q x a l r c] assms by auto
qed (use assms in simp)

lemma zrep_Frame: "zrep s (Frame d c x a u # fs) t \<longleftrightarrow> zrep s fs (bin d c x a t u)"
  using zrep_plug [of s "Frame d c x a u # fs" t] zrep_plug [of s fs "bin d c x a t u"] by simp

lemma swap_color_zrep:
  assumes "zrep s fs (bin d mc (m, mx) ma A (bin e gc (g, gx) ga B C))"
  shows "\<exists>h. swap_color (mem s) m g = Some h \<and> swap_color (mem s) g m = Some h \<and>
    zrep (s\<lparr>mem := h\<rparr>) fs (bin d gc (m, mx) ma A (bin e mc (g, gx) ga B C)) \<and> only {m, g} (mem s) h"
proof -
  have z: "mem s m = Some (mknode d mc (parent_of fs) (root A) (Some g) mx ma)"
    "mem s g = Some (mknode e gc (Some m) (root B) (root C) gx ga)" and ne: "m \<noteq> g"
    using assms by (auto simp: zrep_def)
  let ?h = "(mem s)(m \<mapsto> mknode d gc (parent_of fs) (root A) (Some g) mx ma,
                    g \<mapsto> mknode e mc (Some m) (root B) (root C) gx ga)"
  have "swap_color (mem s) m g = Some ?h" using z ne by (simp add: swap_color_def)
  moreover have "swap_color (mem s) g m = Some ?h"
    using z ne by (simp add: swap_color_def fun_upd_twist)
  moreover have "zrep (s\<lparr>mem := ?h\<rparr>) fs (bin d gc (m, mx) ma A (bin e mc (g, gx) ga B C))"
    using assms ne by (auto simp: zrep_def)
  moreover have "only {m, g} (mem s) ?h" by (auto simp: only_def)
  ultimately show ?thesis by blast
qed

text \<open>The red sibling is rotated above the parent.\<close>

lemma fixup_sibling_red:
  assumes z0: "zrep s fs (bin d c (q, x) None t (bin d Red (m, mx) ma A B))" and df: "dirty fs = fs"
    and A: "root A = Some b"
  shows "\<exists>s'. fixup_sibling s q d = Some (s', b) \<and>
              zrep s' fs (bin d c (m, mx) None (bin d Red (q, x) None t A) B) \<and>
              only (set (addrs (plug fs (bin d c (q, x) None t (bin d Red (m, mx) ma A B))))) (mem s) (mem s')"
proof -
  let ?o = "opposite d" and ?S = "set (addrs (plug fs (bin d c (q, x) None t (bin d Red (m, mx) ma A B))))"
  have z1: "zrep s fs (bin ?o c (q, x) None (bin ?o Red (m, mx) ma B A) t)"
    using z0 by (simp add: bin_opposite)
  from rotate_up [OF z1 df] obtain s1 h2 h3 where
    r: "replace_node s q (Some m) = Some s1" "set_child (mem s1) m d (Some q) = Some h2"
      "set_child h2 q ?o (root A) = Some h3"
      "zrep (s1\<lparr>mem := h3\<rparr>) fs (bin ?o Red (m, mx) None B (bin ?o c (q, x) None A t))"
      "only (set (addrs (plug fs (bin ?o c (q, x) None (bin ?o Red (m, mx) ma B A) t)))) (mem s) h3"
    by auto
  from swap_color_zrep [OF r(4)] obtain h4 where
    h4: "swap_color h3 m q = Some h4"
      "zrep (s1\<lparr>mem := h4\<rparr>) fs (bin ?o c (m, mx) None B (bin ?o Red (q, x) None A t))"
      "only {m, q} h3 h4" by auto
  have k: "mem s q = Some (mknode d c (parent_of fs) (root t) (Some m) x None)"
    "mem s m = Some (mknode d Red (Some q) (root A) (root B) mx ma)"
    using z0 by (simp_all add: zrep_def)
  have "fixup_sibling s q d = Some (s1\<lparr>mem := h4\<rparr>, b)"
    using k r(1-3) h4(1) A by (simp add: fixup_sibling_def)
  moreover have "only ?S (mem s) h4"
    by (rule only_sub [OF r(5) h4(3)]) (auto simp: plug_addr)
  ultimately show ?thesis using h4(2) by (auto simp: bin_opposite)
qed

lemma fixup_sibling_black:
  assumes "zrep s fs (bin d c (q, x) None t (bin d Black (m, mx) ma A B))"
  shows "fixup_sibling s q d = Some (s, m)"
proof -
  have "mem s q = Some (mknode d c (parent_of fs) (root t) (Some m) x None)"
    "mem s m = Some (mknode d Black (Some q) (root A) (root B) mx ma)"
    using assms by (simp_all add: zrep_def)
  then show ?thesis by (simp add: fixup_sibling_def)
qed

lemma fixup_inner_zrep:
  assumes z0: "zrep s fs (bin d c (q, x) None t (bin d sc (m, mx) ma (bin d ic (i, ix) ia A B) C))"
    and C: "tree_color C = Black"
  shows "\<exists>s'. fixup_inner s q d m = Some (s', i) \<and>
     zrep s' fs (bin d c (q, x) None t (bin d sc (i, ix) None A (bin d ic (m, mx) None B C))) \<and>
     only (set (addrs (plug fs (bin d c (q, x) None t (bin d sc (m, mx) ma (bin d ic (i, ix) ia A B) C))))) (mem s) (mem s')"
proof -
  let ?o = "opposite d"
  let ?S = "set (addrs (plug fs (bin d c (q, x) None t (bin d sc (m, mx) ma (bin d ic (i, ix) ia A B) C))))"
  have z1: "zrep s fs (bin ?o c (q, x) None (bin ?o sc (m, mx) ma C (bin ?o ic (i, ix) ia B A)) t)"
    using z0 by (simp add: bin_opposite)
  from rotate_in [OF z1] obtain h1 h2 h3 where
    r: "set_child (mem s) q ?o (Some i) = Some h1" "set_child h1 i ?o (Some m) = Some h2"
      "set_child h2 m d (root B) = Some h3"
      "zrep (s\<lparr>mem := h3\<rparr>) fs (bin ?o c (q, x) None (bin ?o ic (i, ix) None (bin ?o sc (m, mx) None C B) A) t)"
      "only (set (addrs (bin ?o c (q, x) None (bin ?o sc (m, mx) ma C (bin ?o ic (i, ix) ia B A)) t))) (mem s) h3"
    by auto
  have "zrep (s\<lparr>mem := h3\<rparr>) (Frame ?o c (q, x) None t # fs) (bin d ic (i, ix) None A (bin d sc (m, mx) None B C))"
    using r(4) by (simp add: zrep_Frame bin_opposite)
  from swap_color_zrep [OF this] obtain h4 where
    h4: "swap_color h3 m i = Some h4"
      "zrep (s\<lparr>mem := h4\<rparr>) (Frame ?o c (q, x) None t # fs) (bin d sc (i, ix) None A (bin d ic (m, mx) None B C))"
      "only {i, m} h3 h4" by auto
  have k: "mem s m = Some (mknode d sc (Some q) (Some i) (root C) mx ma)"
    "mem s i = Some (mknode d ic (Some m) (root A) (root B) ix ia)" "rep (mem s) (Some m) C"
    using z0 by (simp_all add: zrep_def)
  have "fixup_inner s q d m = Some (s\<lparr>mem := h4\<rparr>, i)"
    using k r(1-3) h4(1) C by (simp add: fixup_inner_def)
  moreover have "only ?S (mem s) h4"
    by (rule only_sub [OF r(5) h4(3)]) (auto simp: plug_addr)
  ultimately show ?thesis using h4(2) by (auto simp: zrep_Frame bin_opposite)
qed

lemma fixup_outer_zrep:
  assumes z0: "zrep s fs (bin d c (q, x) None t (bin d mc (m, mx) ma A B))" and df: "dirty fs = fs"
    and B: "root B = Some b"
  shows "\<exists>s'. fixup_outer s q d m = Some s' \<and>
              zrep s' fs (bin d c (m, mx) None (bin d Black (q, x) None t A) (paint Black B)) \<and>
              only (set (addrs (plug fs (bin d c (q, x) None t (bin d mc (m, mx) ma A B))))) (mem s) (mem s')"
proof -
  let ?o = "opposite d" and ?S = "set (addrs (plug fs (bin d c (q, x) None t (bin d mc (m, mx) ma A B))))"
  have z1: "zrep s fs (bin ?o c (q, x) None (bin ?o mc (m, mx) ma B A) t)"
    using z0 by (simp add: bin_opposite)
  from rotate_up [OF z1 df] obtain s1 h2 h3 where
    r: "replace_node s q (Some m) = Some s1" "set_child (mem s1) m d (Some q) = Some h2"
      "set_child h2 q ?o (root A) = Some h3"
      "zrep (s1\<lparr>mem := h3\<rparr>) fs (bin ?o mc (m, mx) None B (bin ?o c (q, x) None A t))"
      "only (set (addrs (plug fs (bin ?o c (q, x) None (bin ?o mc (m, mx) ma B A) t)))) (mem s) h3"
    by auto
  from set_colors_zrep [OF r(4), of c Black] obtain h4 h5 where
    h5: "set_color h3 (Some m) c = Some h4" "set_color h4 (Some q) Black = Some h5"
      "zrep (s1\<lparr>mem := h5\<rparr>) fs (bin ?o c (m, mx) None B (bin ?o Black (q, x) None A t))"
      "only {m, q} h3 h5" by auto
  have q3: "h3 q = Some (mknode ?o c (Some m) (root A) (root t) x None)"
    using r(4) by (simp add: zrep_def)
  have z5: "zrep (s1\<lparr>mem := h5\<rparr>) (Frame ?o c (m, mx) None (bin ?o Black (q, x) None A t) # fs) B"
    using h5(3) by (simp add: zrep_Frame)
  from paint_zrep [OF this B, of Black] obtain h6 where
    h6: "set_color h5 (Some b) Black = Some h6" "only {b} h5 h6"
      and z6: "zrep (s1\<lparr>mem := h6\<rparr>) (Frame ?o c (m, mx) None (bin ?o Black (q, x) None A t) # fs) (paint Black B)"
    by auto
  have bB: "b \<in> set (addrs B)" using B by (rule root_in_addrs)
  have k: "mem s m = Some (mknode d mc (Some q) (root A) (root B) mx ma)"
    using z0 by (simp add: zrep_def)
  have "fixup_outer s q d m = Some (s1\<lparr>mem := h6\<rparr>)"
    using k r(1-3) h5(1,2) h6(1) q3 B by (simp add: fixup_outer_def)
  moreover have "only ?S (mem s) h6"
    using r(5) h5(4) h6(2) bB by (auto simp: only_def plug_addr)
  ultimately show ?thesis using z6 by (auto simp: zrep_Frame bin_opposite)
qed

text \<open>One iteration at a black sibling with a red child.\<close>

lemma fixup_rotate_zrep:
  assumes z0: "zrep s fs (bin d c (q, x) None t sib)" and df: "dirty fs = fs" and sib: "root sib = Some m"
    and red: "\<not> (tree_color (tree_child Left sib) = Black \<and> tree_color (tree_child Right sib) = Black)"
  shows "\<exists>s1 i s'. fixup_inner s q d m = Some (s1, i) \<and> fixup_outer s1 q d i = Some s' \<and>
              zrep s' fs (fst (fix_black d c (q, x) sib t)) \<and>
              only (set (addrs (plug fs (bin d c (q, x) None t sib)))) (mem s) (mem s')"
proof -
  let ?A = "tree_child d sib" and ?B = "tree_child (opposite d) sib"
  obtain mc mx ma where s: "sib = bin d mc (m, mx) ma ?A ?B" using tree_as_bin [OF sib] by blast
  have red': "tree_color ?A = Red \<or> tree_color ?B = Red" using red by (cases d) auto
  show ?thesis
  proof (cases "tree_color ?B")
    case Black
    with red' obtain i where i: "root ?A = Some i" by (cases ?A rule: root.cases) auto
    let ?C = "tree_child d ?A" and ?D = "tree_child (opposite d) ?A"
    obtain ic ix ia where A: "?A = bin d ic (i, ix) ia ?C ?D" using tree_as_bin [OF i] by blast
    have z1: "zrep s fs (bin d c (q, x) None t (bin d mc (m, mx) ma (bin d ic (i, ix) ia ?C ?D) ?B))"
      using z0 s A by metis
    from fixup_inner_zrep [OF z1 Black] obtain s1 where
      s1: "fixup_inner s q d m = Some (s1, i)"
        "zrep s1 fs (bin d c (q, x) None t (bin d mc (i, ix) None ?C (bin d ic (m, mx) None ?D ?B)))"
        "only (set (addrs (plug fs (bin d c (q, x) None t (bin d mc (m, mx) ma (bin d ic (i, ix) ia ?C ?D) ?B))))) (mem s) (mem s1)"
      by blast
    from fixup_outer_zrep [OF s1(2) df] obtain s2 where
      s2: "fixup_outer s1 q d i = Some s2"
        "zrep s2 fs (bin d c (i, ix) None (bin d Black (q, x) None t ?C) (paint Black (bin d ic (m, mx) None ?D ?B)))"
        "only (set (addrs (plug fs (bin d c (q, x) None t (bin d mc (i, ix) None ?C (bin d ic (m, mx) None ?D ?B)))))) (mem s1) (mem s2)"
      by auto
    have "fst (fix_black d c (q, x) sib t) =
        bin d c (i, ix) None (bin d Black (q, x) None t ?C) (paint Black (bin d ic (m, mx) None ?D ?B))"
      using s A Black red' by (cases d; cases sib; cases ?A) auto
    moreover have "bin d c (q, x) None t sib = bin d c (q, x) None t (bin d mc (m, mx) ma (bin d ic (i, ix) ia ?C ?D) ?B)"
      using s A by metis
    moreover have "only (set (addrs (plug fs (bin d c (q, x) None t (bin d mc (m, mx) ma (bin d ic (i, ix) ia ?C ?D) ?B))))) (mem s) (mem s2)"
      by (rule only_sub [OF s1(3) s2(3)]) (auto simp: plug_addr)
    ultimately show ?thesis using s1(1) s2(1,2) by metis
  next
    case Red
    then obtain b where b: "root ?B = Some b" by (cases ?B rule: root.cases) auto
    have z1: "zrep s fs (bin d c (q, x) None t (bin d mc (m, mx) ma ?A ?B))" using z0 s by metis
    have "mem s m = Some (mknode d mc (Some q) (root ?A) (root ?B) mx ma)" "rep (mem s) (Some m) ?B"
      using z1 by (simp_all add: zrep_def)
    then have "fixup_inner s q d m = Some (s, m)" using Red by (simp add: fixup_inner_def)
    moreover have "fst (fix_black d c (q, x) sib t) =
        bin d c (m, mx) None (bin d Black (q, x) None t ?A) (paint Black ?B)"
      using s Red by (cases d; cases sib) auto
    moreover have "bin d c (q, x) None t sib = bin d c (q, x) None t (bin d mc (m, mx) ma ?A ?B)" using s by metis
    ultimately show ?thesis using fixup_outer_zrep [OF z1 df b] by metis
  qed
qed

lemma fixup_balance_zrep:
  assumes z0: "zrep s fs (bin d c (q, x) None t sib)" and df: "dirty fs = fs" and sib: "root sib = Some m"
    and fb: "fix_black d c (q, x) sib t = (u, deficit)"
  shows "\<exists>s'. fixup_balance s q d m = Some (s', deficit) \<and> zrep s' fs u \<and> (deficit \<longrightarrow> root u = Some q) \<and>
              only (set (addrs (plug fs (bin d c (q, x) None t sib)))) (mem s) (mem s')"
proof -
  let ?A = "tree_child d sib" and ?B = "tree_child (opposite d) sib"
  let ?S = "set (addrs (plug fs (bin d c (q, x) None t sib)))"
  let ?bb = "tree_color (tree_child Left sib) = Black \<and> tree_color (tree_child Right sib) = Black"
  obtain sc l sx sa r where s: "sib = Node sc l (m, sx) sa r" using sib by (cases sib rule: root.cases) auto
  have k: "mem s q = Some (mknode d c (parent_of fs) (root t) (Some m) x None)"
    "mem s m = Some (mknode Left sc (Some q) (root l) (root r) sx sa)"
    "rep (mem s) (Some m) l" "rep (mem s) (Some m) r" "m \<noteq> q"
    using z0 s by (auto simp: zrep_def)
  show ?thesis
  proof (cases ?bb)
    case True
    have "zrep s (Frame (opposite d) c (q, x) None t # fs) sib"
      using z0 by (simp add: zrep_Frame bin_opposite)
    from paint_zrep [OF this sib, of Red] obtain h1 where
      h1: "set_color (mem s) (Some m) Red = Some h1" "only {m} (mem s) h1"
        "zrep (s\<lparr>mem := h1\<rparr>) (Frame (opposite d) c (q, x) None t # fs) (paint Red sib)" by blast
    then have z1: "zrep (s\<lparr>mem := h1\<rparr>) fs (bin d c (q, x) None t (paint Red sib))"
      by (simp add: zrep_Frame bin_opposite)
    have u: "u = bin d Black (q, x) None t (paint Red sib)" "deficit = (c = Black)"
      using fb True s by auto
    have c1: "color_at h1 (Some q) = Some c" using k onlyD [OF h1(2), of q] by simp
    from set_color_at [OF z1, of Black] obtain h2 where
      h2: "set_color h1 (Some q) Black = Some h2" "only {q} h1 h2"
        "zrep (s\<lparr>mem := h2\<rparr>) fs u" using u by auto
    let ?s' = "if c = Red then s\<lparr>mem := h2\<rparr> else s\<lparr>mem := h1\<rparr>"
    have "fixup_balance s q d m = Some (?s', deficit)"
      using True s k h1(1) h2(1) c1 u by (simp add: fixup_balance_def)
    moreover have "zrep ?s' fs u" using h2(3) z1 u by (cases c) auto
    moreover have "only ?S (mem s) (mem ?s')" using h1(2) h2(2) s by (auto simp: only_def plug_addr)
    ultimately show ?thesis using u by auto
  next
    case False
    from fixup_rotate_zrep [OF z0 df sib False] fb obtain s1 i s' where
      r: "fixup_inner s q d m = Some (s1, i)" "fixup_outer s1 q d i = Some s'" "zrep s' fs u"
        "only ?S (mem s) (mem s')" by auto
    have "\<not> deficit" using fb False s by (auto simp: Let_def split: if_splits rbtree.splits)
    moreover have "fixup_balance s q d m = Some (s', False)"
      using False s k r(1,2) by (auto simp: fixup_balance_def)
    ultimately show ?thesis using r(3,4) by auto
  qed
qed

text \<open>One iteration of the loop, for a sibling that is allowed by the invariants.\<close>

lemma fixup_step_zrep:
  assumes z0: "zrep s fs (bin d c (q, x) None t sib)" and df: "dirty fs = fs"
    and ne: "sib \<noteq> Leaf" "tree_color sib = Red \<Longrightarrow> tree_child d sib \<noteq> Leaf \<and> tree_color (tree_child d sib) = Black"
    and st: "tree_fixup_step d c (q, x) sib t = (u, deficit)"
  shows "\<exists>s1 m s'. fixup_sibling s q d = Some (s1, m) \<and> fixup_balance s1 q d m = Some (s', deficit) \<and>
              zrep s' fs u \<and> (deficit \<longrightarrow> root u = Some q) \<and>
              only (set (addrs (plug fs (bin d c (q, x) None t sib)))) (mem s) (mem s')"
proof -
  let ?A = "tree_child d sib" and ?B = "tree_child (opposite d) sib"
  let ?S = "set (addrs (plug fs (bin d c (q, x) None t sib)))"
  obtain m where m: "root sib = Some m" using ne(1) by (cases sib rule: root.cases) auto
  obtain sc mx ma where s: "sib = bin d sc (m, mx) ma ?A ?B" using tree_as_bin [OF m] by blast
  show ?thesis
  proof (cases sc)
    case Black
    with s have "tree_color sib = Black" by (metis bin_simps(4))
    with st have fb: "fix_black d c (q, x) sib t = (u, deficit)" using ne(1) by (cases sib) auto
    have "fixup_sibling s q d = Some (s, m)" using z0 s Black fixup_sibling_black by metis
    with fixup_balance_zrep [OF z0 df m fb] show ?thesis by auto
  next
    case Red
    with s have sr: "tree_color sib = Red" by (metis bin_simps(4))
    from ne(2) [OF this] obtain b where b: "root ?A = Some b" by (cases ?A rule: root.cases) auto
    have z1: "zrep s fs (bin d c (q, x) None t (bin d Red (m, mx) ma ?A ?B))" using z0 s Red by metis
    have eq: "bin d Red (m, mx) ma ?A ?B = sib" using s Red by simp
    from fixup_sibling_red [OF z1 df b, unfolded eq] obtain s1 where
      s1: "fixup_sibling s q d = Some (s1, b)" "zrep s1 fs (bin d c (m, mx) None (bin d Red (q, x) None t ?A) ?B)"
        "only ?S (mem s) (mem s1)" by blast
    then have z2: "zrep s1 (Frame d c (m, mx) None ?B # fs) (bin d Red (q, x) None t ?A)"
      by (simp add: zrep_Frame)
    obtain v df' where fb: "fix_black d Red (q, x) ?A t = (v, df')" by (rule prod.exhaust)
    from fixup_balance_zrep [OF z2 _ b fb] df obtain s' where
      s': "fixup_balance s1 q d b = Some (s', df')" "zrep s' (Frame d c (m, mx) None ?B # fs) v"
        "only (set (addrs (plug (Frame d c (m, mx) None ?B # fs) (bin d Red (q, x) None t ?A)))) (mem s1) (mem s')"
      by auto
    have u: "u = bin d c (m, mx) None v ?B" "deficit = df'"
      using st fb sr eq by (cases sib; cases d; auto split: prod.splits)+
    have "\<not> df'" using fb by (cases "(d, Red, (q, x), ?A, t)" rule: fix_black.cases) (auto simp: Let_def split: if_splits rbtree.splits)
    moreover have "set (addrs sib) = insert m (set (addrs ?A) \<union> set (addrs ?B))" by (subst s) simp
    then have "only ?S (mem s) (mem s')"
      by (intro only_sub [OF s1(3) s'(3)]) (auto simp: plug_addr)
    ultimately show ?thesis using s1(1) s' u by (auto simp: zrep_Frame)
  qed
qed

lemma remove_fixup_zrep:
  assumes "zrep s (Frame d c (q, x) None sib # fs) t" "dirty fs = fs"
    and "ctx_c (Frame d c (q, x) None sib # fs)" "ctx_h (Frame d c (q, x) None sib # fs) (Suc (bheight t))"
    and "invc t" "invh t" "tree_color t = Black"
  shows "\<exists>s'. remove_fixup s q d = Some s' \<and> zrep s' [] (tree_remove_fixup (Frame d c (q, x) None sib # fs) t) \<and>
              only (set (addrs (plug (Frame d c (q, x) None sib # fs) t))) (mem s) (mem s')"
  using assms
proof (induction "length fs" arbitrary: fs s d c q x sib t rule: less_induct)
  case less
  let ?S = "set (addrs (plug (Frame d c (q, x) None sib # fs) t))"
  obtain u deficit where st: "tree_fixup_step d c (q, x) sib t = (u, deficit)" by (rule prod.exhaust)
  have z0: "zrep s fs (bin d c (q, x) None t sib)" using less.prems(1) by (simp add: zrep_Frame)
  from less.prems(3,4) have sib: "invc sib" "invh sib" "bheight sib = Suc (bheight t)"
    "c = Red \<longrightarrow> tree_color sib = Black" by auto
  then have ne: "sib \<noteq> Leaf" by auto
  have A: "tree_child d sib \<noteq> Leaf \<and> tree_color (tree_child d sib) = Black" if "tree_color sib = Red"
    using that sib(1-3) tree_child_inv(3,4) [of sib d] by (cases "tree_child d sib") auto
  from fixup_step_zrep [OF z0 less.prems(2) ne A st] obtain s1 m s2 where
    s2: "fixup_sibling s q d = Some (s1, m)" "fixup_balance s1 q d m = Some (s2, deficit)"
      "zrep s2 fs u" "deficit \<longrightarrow> root u = Some q" "only ?S (mem s) (mem s2)" by auto
  show ?case
  proof (cases deficit)
    case False
    then have "remove_fixup s q d = Some s2" using s2(1,2) by (subst remove_fixup.simps) simp
    with False st s2(3,5) show ?thesis by (auto simp: zrep_plug)
  next
    case True
    have inv: "invc u" "invh u" "bheight u = Suc (bheight t)" "c = Black" "tree_color u = Black"
      using tree_fixup_step_inv [OF st less.prems(5-7) sib] True by auto
    obtain n where n: "mem s2 q = Some n" "rb_parent n = parent_of fs"
      using s2(3,4) True by (cases u rule: root.cases) (auto simp: zrep_def)
    show ?thesis
    proof (cases fs rule: parent_of.cases)
      case 1
      then have "remove_fixup s q d = Some s2"
        using s2(1,2) True n by (subst remove_fixup.simps) simp
      with 1 st s2(3,5) show ?thesis by auto
    next
      case (2 d' c' g y a' sib' fs')
      with less.prems(2) have a: "a' = None" "dirty fs' = fs'" by auto
      have "root sib' \<noteq> Some q"
        using less.prems(1) 2 root_in_addrs [of sib' q] by (auto simp: zrep_def)
      moreover have "mem s2 g = Some (mknode d' c' (parent_of fs') (Some q) (root sib') y None)"
        using s2(3,4) True 2 a by (simp add: zrep_def)
      ultimately have "\<And>m. mem s2 g = Some m \<Longrightarrow> child_dir m (Some q) = Some d'"
        by (auto intro!: child_dir_mknode)
      then have eq: "remove_fixup s q d = remove_fixup s2 g d'"
        using s2(1,2) True n 2 \<open>mem s2 g = _\<close> by (subst remove_fixup.simps) simp
      have z2: "zrep s2 (Frame d' c' (g, y) None sib' # fs') u" using s2(3) 2 a by simp
      have "ctx_h fs (Suc (bheight u))" using less.prems(4) inv by simp
      with less.hyps [OF _ z2 a(2)] less.prems(3) inv 2 a obtain s' where
        s': "remove_fixup s2 g d' = Some s'" "zrep s' [] (tree_remove_fixup (Frame d' c' (g, y) None sib' # fs') u)"
          "only (set (addrs (plug (Frame d' c' (g, y) None sib' # fs') u))) (mem s2) (mem s')" by auto
      have "set (addrs (plug (Frame d' c' (g, y) None sib' # fs') u)) = ?S"
        using tree_fixup_step_inorder [of d c "(q, x)" sib t] st 2
        by (cases d') (simp_all add: tree_insert_addrs inorder_plug)
      with s'(3) s2(5) have "only ?S (mem s) (mem s')" by (metis only_trans)
      with s' eq True st 2 a show ?thesis by auto
    qed
  qed
qed

lemma remove_rebalance_zrep:
  assumes z: "zrep s fs u" and df: "dirty fs = fs"
    and i: "invc (plug fs (bin d col y b u Leaf))" "invh (plug fs (bin d col y b u Leaf))"
  shows "\<exists>s'. remove_rebalance s (parent_of fs) (root u) col = Some s' \<and>
           zrep s' [] (if col = Red then plug fs u else if u \<noteq> Leaf then plug fs (paint Black u)
                       else tree_remove_fixup fs Leaf) \<and>
           only (set (addrs (plug fs u))) (mem s) (mem s')"
proof -
  note sh = unplaced_shape [OF i]
  consider "col = Red" | b where "col = Black" "root u = Some b" | "col = Black" "u = Leaf"
    by (cases u rule: root.cases; cases col) auto
  then show ?thesis
  proof cases
    case 1
    with z show ?thesis by (auto simp: zrep_plug remove_rebalance_def)
  next
    case 2
    then have "tree_color u = Red" using sh black_height_0 by fastforce
    then obtain n where n: "mem s b = Some n" "rb_color n = Red"
      using z 2 by (cases u rule: root.cases) (auto simp: zrep_def)
    from paint_zrep [OF z 2(2), of Black] obtain h where
      "set_color (mem s) (Some b) Black = Some h" "zrep (s\<lparr>mem := h\<rparr>) fs (paint Black u)" "only {b} (mem s) h"
      by blast
    with 2 n root_in_addrs [OF 2(2)] show ?thesis
      by (auto simp: zrep_plug plug_addr remove_rebalance_def elim: only_mono)
  next
    case 3
    show ?thesis
    proof (cases fs rule: parent_of.cases)
      case 1
      with 3 z show ?thesis by (auto simp: remove_rebalance_def)
    next
      case (2 d' c' g y' a' sib gs)
      with df have a: "a' = None" "dirty gs = gs" by auto
      have g: "mem s g = Some (mknode d' c' (parent_of gs) None (root sib) y' None)"
        using z 2 3 a by (simp add: zrep_def)
      have "sib \<noteq> Leaf" using sh(2) 2 3 by auto
      with g have "\<And>n. mem s g = Some n \<Longrightarrow> (if rb_left n = None then Left else Right) = d'"
        by (cases d') auto
      with remove_fixup_zrep [OF _ a(2), of s d' c' g y' sib u] z sh 2 3 a g show ?thesis
        by (auto simp: remove_rebalance_def)
    qed
  qed
qed

lemma tree_unplace_dirty: "tree_unplace fs (Node c l x a r) = (fs', u, col) \<Longrightarrow> dirty fs' = fs'"
  by (auto split: if_splits prod.splits rbtree.splits)

text \<open>Removal on the heap is removal on trees, whatever the cached values are.\<close>

theorem remove_raw_refines:
  assumes "zrep s fs (Node c l (q, x) a r)" "closed_up (plug fs (Node c l (q, x) a r))"
    and inv: "invc (plug fs (Node c l (q, x) a r))" "invh (plug fs (Node c l (q, x) a r))"
  shows "\<exists>s'. remove_raw s f q = Some s' \<and> zrep s' [] (tree_remove (aaug f) (fs, Node c l (q, x) a r)) \<and>
              only (set (addrs (plug fs (Node c l (q, x) a r)))) (mem s) (mem s')"
proof -
  let ?S = "set (addrs (plug fs (Node c l (q, x) a r)))"
  obtain fs' u col where un: "tree_unplace fs (Node c l (q, x) a r) = (fs', u, col)"
    by (metis prod_cases3)
  from unplace_zrep [OF assms(1,2) un] obtain s1 where
    s1: "unplace s q = Some (s1, parent_of fs', root u, col)" "zrep s1 fs' u" "only ?S (mem s) (mem s1)"
    by blast
  have df: "dirty fs' = fs'"
    by (rule tree_unplace_dirty [OF un])
  have S: "set (addrs (plug fs' u)) \<subseteq> ?S"
    using tree_unplace_inorder [OF un] by (auto simp: tree_insert_addrs inorder_plug)
  let ?T = "if col = Red then plug fs' u else if u \<noteq> Leaf then plug fs' (paint Black u) else tree_remove_fixup fs' Leaf"
  from tree_unplace_shape [OF un inv] remove_rebalance_zrep [OF s1(2) df] obtain s2 where
    s2: "remove_rebalance s1 (parent_of fs') (root u) col = Some s2" "zrep s2 [] ?T"
      "only (set (addrs (plug fs' u))) (mem s1) (mem s2)" by metis
  from update_augments_zrep [OF s2(2), of f] obtain s3 where
    s3: "update_augments s2 f = Some s3" "zrep s3 [] (tree_update_augments (aaug f) ?T)"
      "only (set (addrs ?T)) (mem s2) (mem s3)" by blast
  have "inorder ?T = inorder (plug fs' u)" by (auto simp: inorder_plug tree_remove_fixup_inorder)
  then have "set (addrs ?T) \<subseteq> ?S" using S by (simp add: tree_insert_addrs)
  then have "only ?S (mem s) (mem s3)" using s1(3) s2(3) s3(3) S by (meson only_mono only_trans)
  moreover have "remove_raw s f q = Some s3"
    using s1(1) s2(1) s3(1) by (simp add: remove_raw_def)
  ultimately show ?thesis using s3(2) un by (simp add: tree_remove_def del: tree_unplace.simps)
qed

end
