(* ===== verification/Rb_Seq.thy ===== *)
theory Rb_Seq
  imports Rb_Tree_Laws
begin

text \<open>
  Red-black trees as ordered sequences.  The searches \<^verbatim>\<open>find\<close> and \<^verbatim>\<open>lower_bound\<close>, the successor and the
  lowest node return locations; the laws say where a location lies in the in-order sequence.  The locale
  \<^verbatim>\<open>ordered_store\<close> is the interface that the clients of the trees (the interval allocators and the banded
  regions) rely on; the trees interpret it.
\<close>

section \<open>Locations and searches\<close>

fun loc_tree :: "('a, 'v) location \<Rightarrow> ('a, 'v) rbtree" where
  "loc_tree (fs, t) = plug fs t"

fun loc_ok :: "('a, 'v) location \<Rightarrow> bool" where
  "loc_ok (fs, t) \<longleftrightarrow> t \<noteq> Leaf"

fun loc_value :: "('a, 'v) location \<Rightarrow> 'a" where
  "loc_value (fs, Node c l x a r) = x"

fun loc_before :: "('a, 'v) location \<Rightarrow> 'a list" where
  "loc_before (fs, t) = before fs @ inorder (tree_child Left t)"

fun loc_after :: "('a, 'v) location \<Rightarrow> 'a list" where
  "loc_after (fs, t) = inorder (tree_child Right t) @ after fs"

fun tree_find :: "('a \<Rightarrow> 'v \<Rightarrow> ordering) \<Rightarrow> ('a, 'v) frame list \<Rightarrow> ('a, 'v) rbtree \<Rightarrow> ('a, 'v) location option" where
  "tree_find ev fs Leaf = None"
| "tree_find ev fs (Node c l x a r) =
     (case a of
        None \<Rightarrow> None
      | Some v \<Rightarrow>
          (case ev x v of
             Greater \<Rightarrow> tree_find ev (Frame Left c x a r # fs) l
           | Equal \<Rightarrow> Some (fs, Node c l x a r)
           | Less \<Rightarrow> tree_find ev (Frame Right c x a l # fs) r))"

fun tree_lower_bound :: "('a \<Rightarrow> 'v \<Rightarrow> bool) \<Rightarrow> ('a, 'v) location option \<Rightarrow> ('a, 'v) frame list \<Rightarrow> ('a, 'v) rbtree \<Rightarrow> ('a, 'v) location option" where
  "tree_lower_bound ev cand fs Leaf = cand"
| "tree_lower_bound ev cand fs (Node c l x a r) =
     (case a of
        None \<Rightarrow> None
      | Some v \<Rightarrow>
          (if ev x v then tree_lower_bound ev (Some (fs, Node c l x a r)) (Frame Left c x a r # fs) l
           else tree_lower_bound ev cand (Frame Right c x a l # fs) r))"

fun tree_lowest :: "('a, 'v) rbtree \<Rightarrow> ('a, 'v) location option" where
  "tree_lowest Leaf = None"
| "tree_lowest t = Some (tree_leftmost [] t)"

fun tree_climb :: "('a, 'v) frame list \<Rightarrow> ('a, 'v) rbtree \<Rightarrow> ('a, 'v) location option" where
  "tree_climb [] t = None"
| "tree_climb (Frame Left c x a s # fs) t = Some (fs, Node c t x a s)"
| "tree_climb (Frame Right c x a s # fs) t = tree_climb fs (Node c s x a t)"

fun tree_successor :: "('a, 'v) location \<Rightarrow> ('a, 'v) location option" where
  "tree_successor (fs, Leaf) = None"
| "tree_successor (fs, Node c l x a r) =
     (if r = Leaf then tree_climb fs (Node c l x a r)
      else Some (tree_leftmost (Frame Right c x a l # fs) r))"

definition first_loc :: "('a \<Rightarrow> bool) \<Rightarrow> ('a, 'v) rbtree \<Rightarrow> ('a, 'v) location option" where
  "first_loc P t = tree_lower_bound (\<lambda>x _. P x) None [] t"

definition find_loc :: "('a \<Rightarrow> ordering) \<Rightarrow> ('a, 'v) rbtree \<Rightarrow> ('a, 'v) location option" where
  "find_loc e t = tree_find (\<lambda>x _. e x) [] t"

definition insert_before :: "('a \<Rightarrow> 'a \<Rightarrow> ordering) \<Rightarrow> 'a \<Rightarrow> 'a list \<Rightarrow> 'a list" where
  "insert_before cmp x xs =
     takeWhile (\<lambda>y. \<not> is_le (cmp x y)) xs @ x # dropWhile (\<lambda>y. \<not> is_le (cmp x y)) xs"

definition upward :: "('a \<Rightarrow> bool) \<Rightarrow> 'a list \<Rightarrow> bool" where
  "upward P xs \<longleftrightarrow> sorted_wrt (\<lambda>x y. P x \<longrightarrow> P y) xs"

definition rb_wf :: "('a \<Rightarrow> 'v option \<Rightarrow> 'v option \<Rightarrow> 'v) \<Rightarrow> ('a, 'v) rbtree \<Rightarrow> bool" where
  "rb_wf f t \<longleftrightarrow> clean f t \<and> invc t \<and> invh t"

section \<open>The laws of the searches\<close>

lemma upward_Nil [simp]: "upward P []"
  by (simp add: upward_def)

lemma upward_append:
  "upward P (xs @ ys) \<longleftrightarrow> upward P xs \<and> upward P ys \<and> (\<forall>x\<in>set xs. \<forall>y\<in>set ys. P x \<longrightarrow> P y)"
  by (auto simp: upward_def sorted_wrt_append)

lemma upward_Cons: "upward P (x # xs) \<longleftrightarrow> (\<forall>y\<in>set xs. P x \<longrightarrow> P y) \<and> upward P xs"
  by (auto simp: upward_def)

lemma sorted_wrt_mid:
  assumes "sorted_wrt R (xs @ x # ys)"
  shows "sorted_wrt R xs" "sorted_wrt R ys" "\<forall>y\<in>set xs. R y x" "\<forall>y\<in>set ys. R x y"
  using assms by (auto simp: sorted_wrt_append)

lemma upward_mid:
  assumes "upward P (xs @ x # ys)"
  shows "upward P xs" "upward P ys" "\<forall>y\<in>set xs. P y \<longrightarrow> P x" "\<forall>y\<in>set ys. P x \<longrightarrow> P y"
  using sorted_wrt_mid [OF assms [unfolded upward_def]] unfolding upward_def .

lemma loc_split: "loc_ok loc \<Longrightarrow> inorder (loc_tree loc) = loc_before loc @ loc_value loc # loc_after loc"
  by (cases loc rule: loc_value.cases) (auto simp: inorder_plug)

lemma takeWhile_upward:
  "\<forall>x\<in>set xs. \<not> P x \<Longrightarrow> takeWhile (\<lambda>x. \<not> P x) (xs @ ys) = xs @ takeWhile (\<lambda>x. \<not> P x) ys"
  "\<forall>x\<in>set xs. \<not> P x \<Longrightarrow> dropWhile (\<lambda>x. \<not> P x) (xs @ ys) = dropWhile (\<lambda>x. \<not> P x) ys"
  by (auto simp: takeWhile_append dropWhile_append3)

lemma While_hit:
  "P x \<Longrightarrow> takeWhile (\<lambda>x. \<not> P x) (xs @ x # ys) = takeWhile (\<lambda>x. \<not> P x) xs"
  "P x \<Longrightarrow> dropWhile (\<lambda>x. \<not> P x) (xs @ x # ys) = dropWhile (\<lambda>x. \<not> P x) xs @ x # ys"
  by (induction xs) auto

lemma While_miss:
  "\<forall>x\<in>set xs. \<not> P x \<Longrightarrow> takeWhile (\<lambda>x. \<not> P x) xs = xs"
  "\<forall>x\<in>set xs. \<not> P x \<Longrightarrow> dropWhile (\<lambda>x. \<not> P x) xs = []"
  by (induction xs) auto

text \<open>The descent of an insertion stops in front of the first element that is not smaller.\<close>

lemma tree_place_position:
  "upward (\<lambda>y. is_le (cmp x y)) (inorder t) \<Longrightarrow>
     before (tree_place cmp x fs t) = before fs @ takeWhile (\<lambda>y. \<not> is_le (cmp x y)) (inorder t) \<and>
     after (tree_place cmp x fs t) = dropWhile (\<lambda>y. \<not> is_le (cmp x y)) (inorder t) @ after fs"
proof (induction cmp x fs t rule: tree_place.induct)
  case (2 cmp x fs c l y a r)
  have up: "upward (\<lambda>y. is_le (cmp x y)) (inorder l)" "upward (\<lambda>y. is_le (cmp x y)) (inorder r)"
    "\<forall>z\<in>set (inorder l). is_le (cmp x z) \<longrightarrow> is_le (cmp x y)"
    using upward_mid [OF "2.prems" [unfolded inorder.simps]] by blast+
  show ?case
  proof (cases "is_le (cmp x y)")
    case True
    with "2.IH"(1) [OF True up(1)] show ?thesis by (simp add: While_hit)
  next
    case False
    with up(3) have "\<forall>z\<in>set (inorder l). \<not> is_le (cmp x z)" by blast
    with False "2.IH"(2) [OF False up(2)] show ?thesis by (simp add: takeWhile_upward)
  qed
qed simp

lemma tree_insert_seq:
  "upward (\<lambda>y. is_le (cmp x y)) (inorder t) \<Longrightarrow>
   inorder (tree_insert f cmp x t) = insert_before cmp x (inorder t)"
  by (simp add: tree_insert_inorder tree_place_position insert_before_def)

lemma tree_lower_bound_spec:
  assumes "clean f t" "upward P (inorder t)"
  shows "if \<exists>x\<in>set (inorder t). P x
         then \<exists>loc. tree_lower_bound (\<lambda>x _. P x) cand fs t = Some loc \<and> loc_tree loc = plug fs t \<and> loc_ok loc \<and>
                loc_before loc = before fs @ takeWhile (\<lambda>x. \<not> P x) (inorder t) \<and>
                loc_value loc # loc_after loc = dropWhile (\<lambda>x. \<not> P x) (inorder t) @ after fs
         else tree_lower_bound (\<lambda>x _. P x) cand fs t = cand"
  using assms
proof (induction t arbitrary: cand fs)
  case (Node c l x a r)
  from Node.prems obtain v where a: "a = Some v" by auto
  note up = upward_mid [OF Node.prems(2) [unfolded inorder.simps]]
  show ?case
  proof (cases "P x")
    case True
    let ?cand = "Some (fs, Node c l x a r)"
    have eq: "tree_lower_bound (\<lambda>x _. P x) cand fs (Node c l x a r) =
        tree_lower_bound (\<lambda>x _. P x) ?cand (Frame Left c x a r # fs) l" using True a by simp
    note IH = Node.IH(1) [OF _ up(1), of ?cand "Frame Left c x a r # fs"]
    show ?thesis
    proof (cases "\<exists>x\<in>set (inorder l). P x")
      case l: True
      with IH Node.prems(1) True show ?thesis unfolding eq by (simp add: While_hit)
    next
      case l: False
      then have "tree_lower_bound (\<lambda>x _. P x) ?cand (Frame Left c x a r # fs) l = ?cand"
        using IH Node.prems(1) by (simp split: if_splits)
      with True l show ?thesis unfolding eq by (simp add: While_hit While_miss)
    qed
  next
    case False
    then have l: "\<forall>y\<in>set (inorder l). \<not> P y" using up(3) by blast
    then have ex: "(\<exists>y\<in>set (inorder (Node c l x a r)). P y) \<longleftrightarrow> (\<exists>y\<in>set (inorder r). P y)" using False by auto
    have eq: "tree_lower_bound (\<lambda>x _. P x) cand fs (Node c l x a r) =
        tree_lower_bound (\<lambda>x _. P x) cand (Frame Right c x a l # fs) r" using False a by simp
    have "clean f r" using Node.prems(1) by simp
    from Node.IH(2) [OF this up(2), of cand "Frame Right c x a l # fs"] False l
    show ?thesis unfolding eq ex by (cases "\<exists>y\<in>set (inorder r). P y") (simp_all add: takeWhile_upward)
  qed
qed simp

lemma first_loc_None:
  "clean f t \<Longrightarrow> upward P (inorder t) \<Longrightarrow> first_loc P t = None \<longleftrightarrow> (\<forall>x\<in>set (inorder t). \<not> P x)"
  using tree_lower_bound_spec [of f t P None "[]"] by (auto simp: first_loc_def split: if_splits)

lemma first_loc_Some:
  assumes "clean f t" "upward P (inorder t)" "first_loc P t = Some loc"
  shows "loc_tree loc = t" "loc_ok loc" "loc_before loc = takeWhile (\<lambda>x. \<not> P x) (inorder t)"
    "loc_value loc # loc_after loc = dropWhile (\<lambda>x. \<not> P x) (inorder t)"
  using tree_lower_bound_spec [OF assms(1,2), of None "[]"] assms(3)
  by (auto simp: first_loc_def split: if_splits)

lemma tree_find_sound:
  "tree_find ev fs t = Some loc \<Longrightarrow>
   loc_tree loc = plug fs t \<and> (\<exists>c l x v r. snd loc = Node c l x (Some v) r \<and> ev x v = Equal)"
  by (induction ev fs t rule: tree_find.induct) (auto split: option.splits ordering.splits)

text \<open>A three-way evaluation that is consistent with the order finds every match.\<close>

definition directed :: "('a \<Rightarrow> ordering) \<Rightarrow> 'a list \<Rightarrow> bool" where
  "directed e xs \<longleftrightarrow> sorted_wrt (\<lambda>x y. (e x \<noteq> Less \<longrightarrow> e y \<noteq> Less) \<and> (e y \<noteq> Greater \<longrightarrow> e x \<noteq> Greater)) xs"

lemma tree_find_complete:
  assumes "clean f t" "directed e (inorder t)" "x \<in> set (inorder t)" "e x = Equal"
  shows "tree_find (\<lambda>x _. e x) fs t \<noteq> None"
  using assms
proof (induction t arbitrary: fs)
  case (Node c l y a r)
  from Node.prems obtain v where a: "a = Some v" by auto
  have d: "directed e (inorder l)" "directed e (inorder r)"
    "\<And>z. z \<in> set (inorder l) \<Longrightarrow> e y \<noteq> Greater \<Longrightarrow> e z \<noteq> Greater"
    "\<And>z. z \<in> set (inorder l) \<Longrightarrow> e z \<noteq> Less \<Longrightarrow> e y \<noteq> Less"
    "\<And>z. z \<in> set (inorder r) \<Longrightarrow> e z \<noteq> Greater \<Longrightarrow> e y \<noteq> Greater"
    using Node.prems(2) by (auto simp: directed_def sorted_wrt_append)
  have "x \<in> set (inorder l)" if "e y = Greater"
    using that Node.prems(3,4) d(5) [of x] by auto
  moreover have "x \<in> set (inorder r)" if "e y = Less"
    using that Node.prems(3,4) d(4) [of x] by auto
  ultimately show ?case using Node.IH Node.prems(1,4) d(1,2) a by (cases "e y") auto
qed simp

lemma find_loc_Some:
  "find_loc e t = Some loc \<Longrightarrow> loc_tree loc = t \<and> loc_ok loc \<and> e (loc_value loc) = Equal"
  using tree_find_sound [of "\<lambda>x _. e x" "[]" t loc]
  by (cases loc) (auto simp: find_loc_def)

lemma find_loc_None:
  "clean f t \<Longrightarrow> directed e (inorder t) \<Longrightarrow>
   find_loc e t = None \<longleftrightarrow> (\<forall>x\<in>set (inorder t). e x \<noteq> Equal)"
  using tree_find_complete [of f t e _ "[]"] find_loc_Some [of e t] loc_split
  by (cases "find_loc e t") (fastforce simp: find_loc_def)+

section \<open>Walking through a tree\<close>

lemma tree_leftmost_loc:
  assumes "tree_leftmost fs t = loc" "t \<noteq> Leaf"
  shows "loc_tree loc = plug fs t" "loc_ok loc" "loc_before loc = before fs"
    "loc_value loc # loc_after loc = inorder t @ after fs"
proof -
  obtain gs u where loc: "loc = (gs, u)" by (rule prod.exhaust)
  note lm = assms(1) [unfolded loc]
  show p: "loc_tree loc = plug fs t" using tree_leftmost_plug [OF lm] loc by simp
  show ok: "loc_ok loc" using tree_leftmost_Leaf [OF lm] assms(2) loc by simp
  show b: "loc_before loc = before fs"
    using tree_leftmost_Leaf [OF lm] tree_leftmost_frames [OF lm] loc by auto
  have "loc_before loc @ loc_value loc # loc_after loc = before fs @ inorder t @ after fs"
    using loc_split [OF ok] p inorder_plug [of fs t] by simp
  with b show "loc_value loc # loc_after loc = inorder t @ after fs" by simp
qed

lemma tree_lowest_spec:
  "tree_lowest t = None \<longleftrightarrow> t = Leaf"
  "tree_lowest t = Some loc \<Longrightarrow>
     loc_tree loc = t \<and> loc_ok loc \<and> loc_before loc = [] \<and> loc_value loc # loc_after loc = inorder t"
  using tree_leftmost_loc [of "[]" t loc] by (cases t; auto)+

lemma tree_climb_spec:
  assumes "t \<noteq> Leaf"
  shows "case tree_climb fs t of
           None \<Rightarrow> after fs = []
         | Some loc \<Rightarrow> loc_tree loc = plug fs t \<and> loc_ok loc \<and> loc_before loc = before fs @ inorder t \<and>
             loc_value loc # loc_after loc = after fs"
  using assms
  by (induction fs t rule: tree_climb.induct) (auto split: option.splits)

text \<open>The successor is the next element of the sequence.\<close>

lemma tree_successor_spec:
  assumes "loc_ok loc"
  shows "tree_successor loc = None \<longleftrightarrow> loc_after loc = []"
    "tree_successor loc = Some loc' \<Longrightarrow>
       loc_tree loc' = loc_tree loc \<and> loc_ok loc' \<and> loc_before loc' = loc_before loc @ [loc_value loc] \<and>
       loc_value loc' # loc_after loc' = loc_after loc"
proof -
  obtain fs c l x a r where loc: "loc = (fs, Node c l x a r)"
    using assms by (cases loc rule: tree_successor.cases) auto
  show "tree_successor loc = None \<longleftrightarrow> loc_after loc = []"
    using loc tree_climb_spec [of "Node c l x a r" fs] by (cases r) (auto split: option.splits)
  show "loc_tree loc' = loc_tree loc \<and> loc_ok loc' \<and> loc_before loc' = loc_before loc @ [loc_value loc] \<and>
       loc_value loc' # loc_after loc' = loc_after loc" if "tree_successor loc = Some loc'"
  proof (cases "r = Leaf")
    case True
    with that loc tree_climb_spec [of "Node c l x a r" fs] show ?thesis by auto
  next
    case False
    with that loc tree_leftmost_loc [of "Frame Right c x a l # fs" r loc'] show ?thesis by auto
  qed
qed

lemma tree_remove_seq: "loc_ok loc \<Longrightarrow> inorder (tree_remove f loc) = loc_before loc @ loc_after loc"
  by (cases loc rule: loc_value.cases) (auto simp: tree_remove_inorder)

lemma rb_wf_insert: "rb_wf f t \<Longrightarrow> rb_wf f (tree_insert f cmp x t)"
  by (simp add: rb_wf_def tree_insert_inv tree_insert_clean)

lemma rb_wf_remove: "rb_wf f (loc_tree loc) \<Longrightarrow> loc_ok loc \<Longrightarrow> rb_wf f (tree_remove f loc)"
  by (cases loc rule: loc_value.cases) (auto simp: rb_wf_def tree_remove_inv tree_remove_clean)

lemma rb_wf_Leaf [simp]: "rb_wf f Leaf"
  by (simp add: rb_wf_def)

section \<open>The interface for the clients\<close>

locale ordered_store =
  fixes wf :: "'t \<Rightarrow> bool"
    and items :: "'t \<Rightarrow> 'a list"
    and empty :: 't
    and ins :: "('a \<Rightarrow> 'a \<Rightarrow> ordering) \<Rightarrow> 'a \<Rightarrow> 't \<Rightarrow> 't"
    and first :: "('a \<Rightarrow> bool) \<Rightarrow> 't \<Rightarrow> 'l option"
    and val :: "'l \<Rightarrow> 'a"
    and del :: "'l \<Rightarrow> 't"
  assumes wf_empty: "wf empty" and items_empty: "items empty = []"
    and wf_ins: "wf t \<Longrightarrow> wf (ins cmp x t)"
    and items_ins: "wf t \<Longrightarrow> upward (\<lambda>y. is_le (cmp x y)) (items t) \<Longrightarrow>
                      items (ins cmp x t) = insert_before cmp x (items t)"
    and first_none: "wf t \<Longrightarrow> upward P (items t) \<Longrightarrow> first P t = None \<longleftrightarrow> (\<forall>x\<in>set (items t). \<not> P x)"
    and first_some: "wf t \<Longrightarrow> upward P (items t) \<Longrightarrow> first P t = Some l \<Longrightarrow>
                      \<exists>xs ys. items t = xs @ val l # ys \<and> P (val l) \<and> (\<forall>x\<in>set xs. \<not> P x) \<and>
                              wf (del l) \<and> items (del l) = xs @ ys"
begin

lemma first_cases:
  assumes "wf t" "upward P (items t)"
  obtains "first P t = None" "\<forall>x\<in>set (items t). \<not> P x"
  | l xs ys where "first P t = Some l" "items t = xs @ val l # ys" "P (val l)" "\<forall>x\<in>set xs. \<not> P x"
      "wf (del l)" "items (del l) = xs @ ys"
proof (cases "first P t")
  case None
  with first_none [OF assms] that(1) show ?thesis by blast
next
  case (Some l)
  with first_some [OF assms Some] that(2) show ?thesis by blast
qed

lemma ins_between:
  assumes "wf t" "items t = xs @ ys" "\<forall>y\<in>set xs. \<not> is_le (cmp x y)" "\<forall>y\<in>set ys. is_le (cmp x y)"
  shows "wf (ins cmp x t)" "items (ins cmp x t) = xs @ x # ys"
proof -
  have "upward (\<lambda>y. is_le (cmp x y)) (items t)"
    using assms(2-4) by (auto simp: upward_def sorted_wrt_append intro: sorted_wrt_mono_rel [of _ "\<lambda>_ _. True"])
  from items_ins [of t cmp x, OF assms(1) this] assms(2-4) show "items (ins cmp x t) = xs @ x # ys"
    by (cases ys) (simp_all add: insert_before_def takeWhile_upward)
  show "wf (ins cmp x t)" using assms(1) by (rule wf_ins)
qed

end

lemma first_loc_store:
  assumes "rb_wf f t" "upward P (inorder t)" "first_loc P t = Some l"
  shows "\<exists>xs ys. inorder t = xs @ loc_value l # ys \<and> P (loc_value l) \<and> (\<forall>x\<in>set xs. \<not> P x) \<and>
          rb_wf f (tree_remove f l) \<and> inorder (tree_remove f l) = xs @ ys"
proof -
  have cl: "clean f t" using assms(1) by (simp add: rb_wf_def)
  note fl = first_loc_Some [OF cl assms(2,3)]
  have "P (loc_value l)" using fl(4) by (metis dropWhile_eq_Cons_conv)
  moreover have "inorder t = loc_before l @ loc_value l # loc_after l" using loc_split [OF fl(2)] fl(1) by simp
  moreover have "\<forall>x\<in>set (loc_before l). \<not> P x" using fl(3) by (auto dest: set_takeWhileD)
  moreover have "rb_wf f (tree_remove f l)" using rb_wf_remove fl(1,2) assms(1) by blast
  ultimately show ?thesis using tree_remove_seq [OF fl(2)] by blast
qed

interpretation rbs: ordered_store "rb_wf f" inorder Leaf "tree_insert f" first_loc loc_value "tree_remove f"
  for f :: "'a \<Rightarrow> 'v option \<Rightarrow> 'v option \<Rightarrow> 'v"
proof
  fix t :: "('a, 'v) rbtree" and P l
  show "rb_wf f t \<Longrightarrow> upward P (inorder t) \<Longrightarrow> first_loc P t = None \<longleftrightarrow> (\<forall>x\<in>set (inorder t). \<not> P x)"
    by (auto simp: rb_wf_def first_loc_None)
qed (auto simp: rb_wf_insert tree_insert_seq intro: first_loc_store)

end
