(* ===== verification/Rb_Fold.thy ===== *)
theory Rb_Fold
  imports Rb_Seq
begin

text \<open>
  Whole-tree operations on the functional trees: replacing every value, and merging adjacent pairs.  A
  position is addressed by its rank in the sequence, which plays the part of the node pointer that
  \<^verbatim>\<open>pairwise_merge\<close> keeps across removals.
\<close>

datatype no_augment = Unit

definition unit_augment :: "'a \<Rightarrow> no_augment option \<Rightarrow> no_augment option \<Rightarrow> no_augment" where
  "unit_augment x l r = Unit"

fun merge_pairs :: "('a \<Rightarrow> 'a \<Rightarrow> 'a \<times> bool) \<Rightarrow> 'a list \<Rightarrow> 'a list" where
  "merge_pairs m (x # y # zs) =
     (let (x', merged) = m x y in if merged then merge_pairs m (x' # zs) else x' # merge_pairs m (y # zs))"
| "merge_pairs m xs = xs"

lemma pairs_induct [case_names Nil One Two]:
  assumes "P []" "\<And>x. P [x]" "\<And>x y zs. (\<And>w. P (w # zs)) \<Longrightarrow> P (x # y # zs)"
  shows "P xs"
proof (induction "length xs" arbitrary: xs rule: less_induct)
  case less
  then show ?case using assms by (cases xs rule: remdups_adj.cases) auto
qed

fun tree_loc_at :: "nat \<Rightarrow> ('a, 'v) frame list \<Rightarrow> ('a, 'v) rbtree \<Rightarrow> ('a, 'v) location" where
  "tree_loc_at n fs Leaf = (fs, Leaf)"
| "tree_loc_at n fs (Node c l x a r) =
     (let k = length (inorder l) in
      if n < k then tree_loc_at n (Frame Left c x a r # fs) l
      else if n = k then (fs, Node c l x a r)
      else tree_loc_at (n - Suc k) (Frame Right c x a l # fs) r)"

fun loc_set :: "'a \<Rightarrow> ('a, 'v) location \<Rightarrow> ('a, 'v) location" where
  "loc_set y (fs, Leaf) = (fs, Leaf)"
| "loc_set y (fs, Node c l x a r) = (fs, Node c l y a r)"

fun loc_touch :: "('a, 'v) location \<Rightarrow> ('a, 'v) location" where
  "loc_touch (fs, Leaf) = (fs, Leaf)"
| "loc_touch (fs, Node c l x a r) = (dirty fs, Node c l x None r)"

primrec tree_update_values :: "('a \<Rightarrow> 'a) \<Rightarrow> ('a, 'v) rbtree \<Rightarrow> ('a, 'v) rbtree" where
  "tree_update_values g Leaf = Leaf"
| "tree_update_values g (Node c l x a r) = Node c (tree_update_values g l) (g x) a (tree_update_values g r)"

lemma tree_loc_at_spec:
  assumes "n < length (inorder t)"
  shows "loc_tree (tree_loc_at n fs t) = plug fs t \<and> loc_ok (tree_loc_at n fs t) \<and>
         loc_before (tree_loc_at n fs t) = before fs @ take n (inorder t) \<and>
         loc_value (tree_loc_at n fs t) = inorder t ! n \<and>
         loc_after (tree_loc_at n fs t) = drop (Suc n) (inorder t) @ after fs"
  using assms
proof (induction n fs t rule: tree_loc_at.induct)
  case (2 n fs c l x a r)
  consider "n < length (inorder l)" | "n = length (inorder l)" | "length (inorder l) < n" by linarith
  then show ?case
  proof cases
    case 1
    with "2.IH"(1) [OF refl] show ?thesis by (simp add: nth_append Let_def)
  next
    case 2
    then show ?thesis by (simp add: nth_append Let_def)
  next
    case 3
    then obtain k where k: "n = Suc (length (inorder l) + k)" by (metis less_imp_Suc_add)
    with "2.IH"(2) [OF refl] "2.prems" show ?thesis by (simp add: nth_append Let_def)
  qed
qed simp

lemma tree_loc_at_out: "length (inorder t) \<le> n \<Longrightarrow> snd (tree_loc_at n fs t) = Leaf"
  by (induction n fs t rule: tree_loc_at.induct) (auto simp: Let_def)

lemma loc_set_spec:
  "loc_ok loc \<Longrightarrow> inorder (loc_tree (loc_set y loc)) = loc_before loc @ y # loc_after loc"
  by (cases "(y, loc)" rule: loc_set.cases) (auto simp: inorder_plug)

lemma loc_touch_inorder: "inorder (loc_tree (loc_touch loc)) = inorder (loc_tree loc)"
  by (cases loc rule: loc_touch.cases) (auto simp: inorder_plug)

lemma tree_successor_rank:
  assumes "tree_successor (tree_loc_at k [] t) = Some succ"
  shows "Suc k < length (inorder t)" "loc_value succ = inorder t ! Suc k"
proof -
  have k: "k < length (inorder t)"
  proof (rule ccontr)
    assume "\<not> k < length (inorder t)"
    with tree_loc_at_out [of t k "[]"] assms show False by (cases "tree_loc_at k [] t") auto
  qed
  note sp = tree_loc_at_spec [OF k, of "[]"]
  from sp have ok: "loc_ok (tree_loc_at k [] t)" and af: "loc_after (tree_loc_at k [] t) = drop (Suc k) (inorder t)" by auto
  from tree_successor_spec(1) [OF ok] assms af show "Suc k < length (inorder t)" by auto
  then have "drop (Suc k) (inorder t) = inorder t ! Suc k # drop (Suc (Suc k)) (inorder t)"
    by (simp add: Cons_nth_drop_Suc)
  with tree_successor_spec(2) [OF ok assms] af show "loc_value succ = inorder t ! Suc k" by simp
qed

lemma tree_remove_at_length:
  "n < length (inorder t) \<Longrightarrow> Suc (length (inorder (tree_remove f (tree_loc_at n [] t)))) = length (inorder t)"
  using tree_loc_at_spec [of n t "[]"] tree_remove_seq [of "tree_loc_at n [] t" f] by auto

lemma loc_set_at_length:
  "n < length (inorder t) \<Longrightarrow> length (inorder (loc_tree (loc_set y (tree_loc_at n [] t)))) = length (inorder t)"
  using tree_loc_at_spec [of n t "[]"] loc_set_spec [of "tree_loc_at n [] t" y] by auto

function tree_merge_loop :: "('a \<Rightarrow> 'v option \<Rightarrow> 'v option \<Rightarrow> 'v) \<Rightarrow> ('a \<Rightarrow> 'a \<Rightarrow> 'a \<times> bool) \<Rightarrow> nat \<Rightarrow> ('a, 'v) rbtree \<Rightarrow> ('a, 'v) rbtree" where
  "tree_merge_loop f m k t =
     (let node = tree_loc_at k [] t in
      case tree_successor node of
        None \<Rightarrow> t
      | Some succ \<Rightarrow>
          (let (left, merged) = m (loc_value node) (loc_value succ);
               t1 = loc_tree (loc_set left node)
           in if merged
              then tree_merge_loop f m k (loc_tree (loc_touch (tree_loc_at k [] (tree_remove f (tree_loc_at (Suc k) [] t1)))))
              else tree_merge_loop f m (Suc k) t1))"
  by pat_completeness auto
termination
proof (relation "measure (\<lambda>(f, m, k, t). length (inorder t) - k)", goal_cases)
  case 1
  show ?case by simp
next
  case (2 f m k t node succ p left merged t1)
  then have k: "Suc k < length (inorder t)" using tree_successor_rank by blast
  then have l: "length (inorder t1) = length (inorder t)" using 2 loc_set_at_length [of k t left] by simp
  let ?t2 = "tree_remove f (tree_loc_at (Suc k) [] t1)"
  have "Suc (length (inorder ?t2)) = length (inorder t)" using tree_remove_at_length [of "Suc k" t1 f] k l by simp
  then have "loc_tree (tree_loc_at k [] ?t2) = ?t2" using k tree_loc_at_spec [of k ?t2 "[]"] by simp
  with \<open>Suc (length (inorder ?t2)) = _\<close> k show ?case by (simp add: loc_touch_inorder)
next
  case (3 f m k t node succ p left merged t1)
  then have k: "Suc k < length (inorder t)" using tree_successor_rank by blast
  then show ?case using 3 loc_set_at_length [of k t left] by simp
qed

definition tree_pairwise_merge ::
  "('a \<Rightarrow> 'v option \<Rightarrow> 'v option \<Rightarrow> 'v) \<Rightarrow> ('a \<Rightarrow> 'a \<Rightarrow> 'a \<times> bool) \<Rightarrow> ('a, 'v) rbtree \<Rightarrow> ('a, 'v) rbtree" where
  "tree_pairwise_merge f m t = (if t = Leaf then t else tree_update_augments f (tree_merge_loop f m 0 t))"

declare tree_merge_loop.simps [simp del]

lemma semi_plug_cong:
  assumes "semi f (plug fs t)" "tree_aug t = tree_aug u" "clean f t \<Longrightarrow> clean f u" "semi f t \<Longrightarrow> semi f u"
  shows "semi f (plug fs u)" "clean f (plug fs t) \<Longrightarrow> clean f (plug fs u)"
proof -
  have "(semi f (plug fs t) \<longrightarrow> semi f (plug fs u)) \<and> (clean f (plug fs t) \<longrightarrow> clean f (plug fs u))"
    using assms(2-4)
  proof (induction fs t arbitrary: u rule: plug.induct)
    case (2 d c x a s fs t)
    have "clean f (bin d c x a t s) \<Longrightarrow> clean f (bin d c x a u s)"
      using "2.prems" by (cases d) auto
    moreover have "semi f (bin d c x a t s) \<Longrightarrow> semi f (bin d c x a u s)"
      using "2.prems" by (cases d; cases a) auto
    ultimately show ?case using "2.IH" [of "bin d c x a u s"] by simp
  qed auto
  with assms(1) show "semi f (plug fs u)" "clean f (plug fs t) \<Longrightarrow> clean f (plug fs u)" by auto
qed

lemma set_value_tree:
  assumes "f y = f x" "semi f (plug fs (Node c l x a r))"
  shows "semi f (plug fs (Node c l y a r))"
    "clean f (plug fs (Node c l x a r)) \<Longrightarrow> clean f (plug fs (Node c l y a r))"
proof -
  have "clean f (Node c l x a r) \<Longrightarrow> clean f (Node c l y a r)" using assms(1) by simp
  moreover have "semi f (Node c l x a r) \<Longrightarrow> semi f (Node c l y a r)"
    using assms(1) by (cases a) auto
  ultimately show "semi f (plug fs (Node c l y a r))"
    "clean f (plug fs (Node c l x a r)) \<Longrightarrow> clean f (plug fs (Node c l y a r))"
    using semi_plug_cong [OF assms(2), of "Node c l y a r"] by auto
qed

section \<open>The laws\<close>

lemma tree_update_values_inorder: "inorder (tree_update_values g t) = map g (inorder t)"
  by (induction t) auto

lemma tree_update_values_inv [simp]:
  "tree_color (tree_update_values g t) = tree_color t" "bheight (tree_update_values g t) = bheight t"
  "tree_aug (tree_update_values g t) = tree_aug t"
  by (induction t) auto

lemma rb_wf_update_values:
  assumes "rb_wf f t" "\<And>x. f (g x) = f x"
  shows "rb_wf f (tree_update_values g t)"
proof -
  have "invc t \<Longrightarrow> invc (tree_update_values g t)" "invh t \<Longrightarrow> invh (tree_update_values g t)"
    "clean f t \<Longrightarrow> clean f (tree_update_values g t)"
    using assms(2) by (induction t) auto
  with assms(1) show ?thesis by (simp add: rb_wf_def)
qed

text \<open>One merge: the left value is replaced and the right one is removed.\<close>

definition rb_semi :: "('a \<Rightarrow> 'v option \<Rightarrow> 'v option \<Rightarrow> 'v) \<Rightarrow> ('a, 'v) rbtree \<Rightarrow> bool" where
  "rb_semi f t \<longleftrightarrow> semi f t \<and> invc t \<and> invh t"

lemma loc_set_semi:
  assumes "loc_ok loc" "rb_semi f (loc_tree loc)" "f y = f (loc_value loc)"
  shows "rb_semi f (loc_tree (loc_set y loc))"
proof -
  obtain fs c l x a r where loc: "loc = (fs, Node c l x a r)" using assms(1) by (cases loc rule: loc_value.cases) auto
  with assms set_value_tree(1) [of f y x fs c l a r] show ?thesis
    by (auto simp: rb_semi_def invc_plug invh_plug split: if_splits)
qed

lemma loc_touch_semi:
  assumes "loc_ok loc" "rb_semi f (loc_tree loc)"
  shows "rb_semi f (loc_tree (loc_touch loc))"
proof -
  obtain fs c l x a r where loc: "loc = (fs, Node c l x a r)" using assms(1) by (cases loc rule: loc_value.cases) auto
  from assms loc have s: "semi f (plug fs (Node c l x a r))" by (simp add: rb_semi_def)
  with loc assms semi_ctx [OF s] semi_NodeD [of f c l x a r] show ?thesis
    by (auto simp: rb_semi_def semi_plug invc_plug invh_plug split: if_splits)
qed

lemma rb_semi_remove: "rb_semi f (loc_tree loc) \<Longrightarrow> loc_ok loc \<Longrightarrow> rb_semi f (tree_remove f loc)"
  by (cases loc rule: loc_value.cases) (auto simp: rb_semi_def tree_remove_inv tree_remove_clean)

lemma tree_merge_loop_spec:
  assumes "k < length (inorder t)" "rb_semi f t" "\<And>x y. f (fst (m x y)) = f x"
  shows "rb_semi f (tree_merge_loop f m k t) \<and>
         inorder (tree_merge_loop f m k t) = take k (inorder t) @ merge_pairs m (drop k (inorder t))"
  using assms(1,2)
proof (induction "length (inorder t) - k" arbitrary: k t rule: less_induct)
  case less
  let ?xs = "inorder t"
  let ?node = "tree_loc_at k [] t"
  from tree_loc_at_spec [OF less.prems(1), of "[]"] have sp: "loc_tree ?node = t" "loc_ok ?node"
    "loc_before ?node = take k ?xs" "loc_value ?node = ?xs ! k" "loc_after ?node = drop (Suc k) ?xs" by auto
  show ?case
  proof (cases "Suc k < length ?xs")
    case False
    then have "tree_successor ?node = None" using tree_successor_spec(1) [OF sp(2)] sp(5) by simp
    then have "tree_merge_loop f m k t = t" by (subst tree_merge_loop.simps) simp
    moreover have "drop k ?xs = [?xs ! k]" using False less.prems(1) by (simp add: Cons_nth_drop_Suc [symmetric])
    ultimately show ?thesis using less.prems append_take_drop_id [of k ?xs] by simp
  next
    case True
    then obtain succ where su: "tree_successor ?node = Some succ"
      using tree_successor_spec(1) [OF sp(2)] sp(5) by fastforce
    note sv = tree_successor_rank(2) [OF su]
    obtain left merged where m: "m (?xs ! k) (?xs ! Suc k) = (left, merged)" by (rule prod.exhaust)
    let ?t1 = "loc_tree (loc_set left ?node)"
    have i1: "inorder ?t1 = take k ?xs @ left # drop (Suc k) ?xs" using loc_set_spec [OF sp(2)] sp by simp
    have s1: "rb_semi f ?t1"
      using loc_set_semi [OF sp(2)] sp less.prems(2) assms(3) [of "?xs ! k" "?xs ! Suc k"] m by simp
    have dk: "drop k ?xs = ?xs ! k # ?xs ! Suc k # drop (Suc (Suc k)) ?xs"
      using True less.prems(1) by (simp add: Cons_nth_drop_Suc)
    have dk1: "drop (Suc k) ?xs = ?xs ! Suc k # drop (Suc (Suc k)) ?xs" using True by (simp add: Cons_nth_drop_Suc)
    show ?thesis
    proof (cases merged)
      case True
      let ?t2 = "tree_remove f (tree_loc_at (Suc k) [] ?t1)"
      have k1: "Suc k < length (inorder ?t1)" using i1 \<open>Suc k < length ?xs\<close> by simp
      note l1 = tree_loc_at_spec [OF k1, of "[]"]
      have i2: "inorder ?t2 = take k ?xs @ left # drop (Suc (Suc k)) ?xs"
        using tree_remove_seq [of "tree_loc_at (Suc k) [] ?t1" f] l1 i1 less.prems(1) by (simp add: dk1 min_def)
      have k2: "k < length (inorder ?t2)" using i2 less.prems(1) by simp
      note l2 = tree_loc_at_spec [OF k2, of "[]"]
      let ?t3 = "loc_tree (loc_touch (tree_loc_at k [] ?t2))"
      have i3: "inorder ?t3 = take k ?xs @ left # drop (Suc (Suc k)) ?xs" using l2 i2 by (simp add: loc_touch_inorder)
      have s3: "rb_semi f ?t3" using l1 l2 s1 by (intro loc_touch_semi) (simp_all add: rb_semi_remove)
      have eq: "tree_merge_loop f m k t = tree_merge_loop f m k ?t3"
        using su sv sp(4) m True by (subst tree_merge_loop.simps) simp
      show ?thesis unfolding eq
        using less.hyps [of ?t3 k] i3 s3 less.prems(1) \<open>Suc k < length ?xs\<close> dk m True by (simp add: min_def)
    next
      case False
      have eq: "tree_merge_loop f m k t = tree_merge_loop f m (Suc k) ?t1"
        using su sv sp(4) m False by (subst tree_merge_loop.simps) simp
      show ?thesis unfolding eq
        using less.hyps [of ?t1 "Suc k"] i1 s1 less.prems(1) \<open>Suc k < length ?xs\<close> dk dk1 m False by (simp add: min_def)
    qed
  qed
qed

lemma tree_pairwise_merge_spec:
  assumes "rb_wf f t" "\<And>x y. f (fst (m x y)) = f x"
  shows "rb_wf f (tree_pairwise_merge f m t)"
    "inorder (tree_pairwise_merge f m t) = merge_pairs m (inorder t)"
proof -
  have "rb_wf f (tree_pairwise_merge f m t) \<and> inorder (tree_pairwise_merge f m t) = merge_pairs m (inorder t)"
  proof (cases t)
    case (Node c l x a r)
    then have "0 < length (inorder t)" by simp
    from tree_merge_loop_spec [OF this, of f m] assms Node show ?thesis
      by (auto simp: tree_pairwise_merge_def rb_semi_def rb_wf_def semi_update_augments)
  qed (use assms in \<open>simp add: tree_pairwise_merge_def\<close>)
  then show "rb_wf f (tree_pairwise_merge f m t)"
    "inorder (tree_pairwise_merge f m t) = merge_pairs m (inorder t)" by auto
qed

end
