(* ===== verification/Rb_Iter.thy ===== *)
theory Rb_Iter
  imports Rb_Remove Rb_Fold
begin

text \<open>
  Searching and walking on the heap: the pointer programs return the nodes of the locations that the
  functional searches compute, iteration lists the values in order, two trees are compared by their
  sequences of values, and the pairwise merge and the update of all values act on the sequence.
\<close>

definition loc_ptr :: "(nat \<times> 'a, 'v) location option \<Rightarrow> ptr" where
  "loc_ptr loc = (case loc of None \<Rightarrow> None | Some (fs, t) \<Rightarrow> root t)"

lemma loc_ptr_simps [simp]: "loc_ptr None = None" "loc_ptr (Some (fs, t)) = root t"
  by (simp_all add: loc_ptr_def)

section \<open>Searching\<close>

lemma find_loop_rep:
  "rep h par t \<Longrightarrow> clean f t \<Longrightarrow>
   find_loop h ev (root t) = Some (loc_ptr (tree_find (\<lambda>e. ev (snd e)) fs t))"
proof (induction t arbitrary: par fs)
  case Leaf
  then show ?case by (simp add: find_loop.simps)
next
  case (Node c l e a r)
  obtain q x where e: "e = (q, x)" by (rule prod.exhaust)
  with Node show ?case by (subst find_loop.simps) (auto split: ordering.splits)
qed

lemma lower_bound_loop_rep:
  "rep h par t \<Longrightarrow> clean f t \<Longrightarrow>
   lower_bound_loop h ev (loc_ptr cand) (root t) = Some (loc_ptr (tree_lower_bound (\<lambda>e. ev (snd e)) cand fs t))"
proof (induction t arbitrary: par fs cand)
  case Leaf
  then show ?case by (simp add: lower_bound_loop.simps)
next
  case (Node c l e a r)
  obtain q x v where e: "e = (q, x)" "a = Some v" using Node.prems(2) by (cases e) auto
  show ?case
  proof (cases "ev x v")
    case True
    with e Node.prems Node.IH(1) [of "Some q" "Some (fs, Node c l e a r)"] show ?thesis
      by (subst lower_bound_loop.simps) simp
  next
    case False
    with e Node.prems Node.IH(2) [of "Some q" cand] show ?thesis
      by (subst lower_bound_loop.simps) simp
  qed
qed

lemma find_raw_refines:
  "zrep s [] T \<Longrightarrow> clean f T \<Longrightarrow> find_raw s ev = Some (loc_ptr (tree_find (\<lambda>e. ev (snd e)) [] T))"
  using find_loop_rep [of "mem s" None T f ev "[]"] by (simp add: zrep_def find_raw_def)

lemma lower_bound_raw_refines:
  "zrep s [] T \<Longrightarrow> clean f T \<Longrightarrow>
   lower_bound_raw s ev = Some (loc_ptr (tree_lower_bound (\<lambda>e. ev (snd e)) None [] T))"
  using lower_bound_loop_rep [of "mem s" None T f ev None "[]"] by (simp add: zrep_def lower_bound_raw_def)

section \<open>Walking\<close>

lemma zrep_loc: "zrep s [] T \<Longrightarrow> loc_tree (fs, t) = T \<Longrightarrow> zrep s fs t"
  using zrep_plug by auto

lemma root_node: "t \<noteq> Leaf \<Longrightarrow> \<exists>q. root t = Some q"
  by (cases t rule: root.cases) auto

lemma lowest_node_refines: "zrep s [] T \<Longrightarrow> lowest_node_raw s = Some (loc_ptr (tree_lowest T))"
proof (cases T rule: root.cases)
  case (2 c l q x a r)
  obtain gs u where lm: "tree_leftmost [] T = (gs, u)" by (rule prod.exhaust)
  assume "zrep s [] T"
  then have r: "rep (mem s) None T" "head s = root T" by (simp_all add: zrep_def)
  have "leftmost (mem s) q = root u" using leftmost_rep [OF r(1) lm] 2 by simp
  moreover obtain p where "root u = Some p" using tree_leftmost_Leaf [OF lm] 2 root_node [of u] by auto
  moreover have "tree_lowest T = Some (gs, u)" using lm 2 by simp
  ultimately show ?thesis using r 2 by (simp add: lowest_node_raw_def)
qed (simp add: zrep_def lowest_node_raw_def)

lemma climb_zrep:
  "zrep s fs t \<Longrightarrow> root t = Some p \<Longrightarrow> climb (mem s) p = Some (loc_ptr (tree_climb fs t))"
proof (induction fs t arbitrary: p rule: tree_climb.induct)
  case (1 t)
  then show ?case by (cases t rule: root.cases) (auto simp: zrep_def climb.simps)
next
  case (2 c e a u fs t)
  obtain q x where e: "e = (q, x)" by (rule prod.exhaust)
  with 2 show ?case by (cases t rule: root.cases) (auto simp: zrep_def climb.simps)
next
  case (3 c e a u fs t)
  obtain q x where e: "e = (q, x)" by (rule prod.exhaust)
  have z: "zrep s fs (Node c u e a t)" using "3.prems"(1) by (simp add: zrep_Frame)
  have "root u \<noteq> Some p"
    using "3.prems" root_in_addrs [of u p] root_in_addrs [of t p] by (auto simp: zrep_def e)
  moreover have "mem s q = Some (mknode Right c (parent_of fs) (Some p) (root u) x a)"
    using "3.prems" e by (simp add: zrep_def)
  moreover obtain n where "mem s p = Some n" "rb_parent n = Some q"
    using "3.prems" e by (cases t rule: root.cases) (auto simp: zrep_def)
  ultimately have "climb (mem s) p = climb (mem s) q" by (subst climb.simps) simp
  with "3.IH" [OF z, of q] e show ?case by simp
qed

lemma successor_zrep:
  assumes "zrep s fs t" "root t = Some p"
  shows "successor (mem s) p = Some (loc_ptr (tree_successor (fs, t)))"
proof -
  obtain c l x a r where t: "t = Node c l (p, x) a r" using assms(2) by (cases t rule: root.cases) auto
  have p: "mem s p = Some (mknode Left c (parent_of fs) (root l) (root r) x a)" "rep (mem s) (Some p) r"
    using assms(1) t by (simp_all add: zrep_def)
  show ?thesis
  proof (cases "r = Leaf")
    case True
    with p t climb_zrep [OF assms] show ?thesis by (simp add: successor_def)
  next
    case False
    then obtain rq where rq: "root r = Some rq" using root_node by blast
    obtain gs u where lm: "tree_leftmost (Frame Right c (p, x) a l # fs) r = (gs, u)" by (rule prod.exhaust)
    have "leftmost (mem s) rq = root u" by (rule leftmost_rep [OF p(2) lm rq])
    moreover obtain q where "root u = Some q" using tree_leftmost_Leaf [OF lm] False root_node by blast
    ultimately show ?thesis using p(1) t False lm rq by (simp add: successor_def successor_child_def)
  qed
qed

lemma iter_values_zrep:
  assumes "zrep s fs t" "t \<noteq> Leaf"
  shows "iter_values (mem s) (root t) = Some (map snd (loc_value (fs, t) # loc_after (fs, t)))"
  using assms
proof (induction "length (loc_after (fs, t))" arbitrary: fs t)
  case 0
  obtain c l p x a r where t: "t = Node c l (p, x) a r" using 0 by (cases t rule: root.cases) auto
  have "tree_successor (fs, t) = None" using 0 tree_successor_spec(1) [of "(fs, t)"] by simp
  with successor_zrep [OF "0.prems"(1), of p] 0 t show ?case
    by (simp add: iter_values.simps iter_next_def zrep_def)
next
  case (Suc n)
  obtain c l p x a r where t: "t = Node c l (p, x) a r" using Suc.prems by (cases t rule: root.cases) auto
  have "loc_after (fs, t) \<noteq> []" using Suc.hyps(2) by auto
  then obtain gs u where su: "tree_successor (fs, t) = Some (gs, u)"
    using tree_successor_spec(1) [of "(fs, t)"] Suc.prems(2) by auto
  note sp = tree_successor_spec(2) [OF _ su]
  have z: "zrep s gs u" using sp Suc.prems zrep_move [of fs t gs u s] by simp
  have al: "loc_value (gs, u) # loc_after (gs, u) = loc_after (fs, t)" "u \<noteq> Leaf" using sp Suc.prems(2) by auto
  then have len: "n = length (loc_after (gs, u))" using Suc.hyps(2) by (metis length_Cons nat.inject)
  have "successor (mem s) p = Some (root u)" using successor_zrep [OF Suc.prems(1), of p] t su by simp
  then have "iter_values (mem s) (Some p) = do { xs \<leftarrow> iter_values (mem s) (root u); Some (x # xs) }"
    using Suc.prems(1) t by (subst iter_values.simps) (simp add: iter_next_def zrep_def)
  also have "\<dots> = Some (x # map snd (loc_after (fs, t)))"
    unfolding Suc.hyps(1) [OF len z al(2)] al(1) by simp
  finally show ?case using t by simp
qed

lemma iter_refines:
  assumes "zrep s [] T"
  shows "\<exists>p. lowest_node_raw s = Some p \<and> iter_values (mem s) p = Some (map snd (inorder T))"
proof (cases "tree_lowest T")
  case None
  then show ?thesis using lowest_node_refines [OF assms] tree_lowest_spec(1) [of T]
    by (auto simp: iter_values.simps iter_next_def)
next
  case (Some loc)
  obtain fs t where loc: "loc = (fs, t)" by (rule prod.exhaust)
  note sp = tree_lowest_spec(2) [OF Some [unfolded loc]]
  have "zrep s fs t" using zrep_loc [OF assms] sp by blast
  with iter_values_zrep [of s fs t] sp have "iter_values (mem s) (root t) = Some (map snd (inorder T))"
    by (metis loc_ok.simps)
  with lowest_node_refines [OF assms] Some loc show ?thesis by simp
qed

lemma eq_loop_iter:
  "iter_values ha p = Some xs \<Longrightarrow> iter_values hb q = Some ys \<Longrightarrow> eq_loop ha hb p q = Some (xs = ys)"
proof (induction xs arbitrary: p q ys)
  case Nil
  then have "p = None"
    by (subst (asm) iter_values.simps) (auto simp: iter_next_def split: option.splits bind_splits)
  moreover have "(q = None) = (ys = [])"
    using Nil.prems(2) by (subst (asm) iter_values.simps) (auto simp: iter_next_def split: option.splits bind_splits)
  ultimately show ?case by (subst eq_loop.simps) auto
next
  case (Cons x xs)
  from Cons.prems(1) obtain a n p' where p: "p = Some a" "ha a = Some n" "rb_value n = x"
    "successor ha a = Some p'" "iter_values ha p' = Some xs"
    by (subst (asm) iter_values.simps) (auto simp: iter_next_def split: option.splits bind_splits)
  show ?case
  proof (cases q)
    case None
    then have "ys = []" using Cons.prems(2) by (simp add: iter_values.simps iter_next_def)
    with None p show ?thesis by (subst eq_loop.simps) simp
  next
    case (Some b)
    with Cons.prems(2) obtain m q' zs where q: "hb b = Some m" "successor hb b = Some q'"
      "iter_values hb q' = Some zs" "ys = rb_value m # zs"
      by (subst (asm) iter_values.simps) (auto simp: iter_next_def split: option.splits bind_splits)
    from Cons.IH [OF p(5) q(3)] p q Some show ?thesis by (subst eq_loop.simps) auto
  qed
qed

section \<open>Changing values in place\<close>

lemma loc_exists:
  assumes "inorder t = xs @ e # ys"
  shows "\<exists>gs u. plug gs u = plug fs t \<and> u \<noteq> Leaf \<and> loc_value (gs, u) = e \<and>
           loc_before (gs, u) = before fs @ xs \<and> loc_after (gs, u) = ys @ after fs"
  using assms
proof (induction t arbitrary: fs xs ys)
  case (Node c l x a r)
  from Node.prems have "inorder l @ x # inorder r = xs @ e # ys" by simp
  then consider us where "inorder l = xs @ e # us" "us @ x # inorder r = ys"
    | "inorder l = xs" "x = e" "inorder r = ys"
    | us where "xs = inorder l @ x # us" "inorder r = us @ e # ys"
    by (auto simp: append_eq_append_conv2 append_eq_Cons_conv Cons_eq_append_conv)
  then show ?case
  proof cases
    case 1
    then have "ys = us @ x # inorder r" by simp
    with Node.IH(1) [OF 1(1), of "Frame Left c x a r # fs"] show ?thesis by simp
  next
    case 2
    then show ?thesis by (intro exI [of _ fs] exI [of _ "Node c l x a r"]) auto
  next
    case 3
    with Node.IH(2) [OF 3(2), of "Frame Right c x a l # fs"] show ?thesis by simp
  qed
qed simp

lemma set_value_zrep:
  assumes "zrep s fs (Node c l (p, x) a r)" "mem s p = Some n"
  shows "zrep (s\<lparr>mem := (mem s)(p \<mapsto> n\<lparr>rb_value := y\<rparr>)\<rparr>) fs (Node c l (p, y) a r)"
proof -
  have "n\<lparr>rb_value := y\<rparr> = mknode Left c (parent_of fs) (root l) (root r) y a"
    using assms by (auto simp: zrep_def mknode_def)
  with assms(1) show ?thesis by (auto simp: zrep_def)
qed

lemma touch_zrep:
  assumes "zrep s fs (Node c l (p, x) a r)" "semi f (plug fs (Node c l (p, x) a r))"
  shows "\<exists>h. mark_dirty (mem s) (Some p) = Some h \<and> zrep (s\<lparr>mem := h\<rparr>) (dirty fs) (Node c l (p, x) None r) \<and>
           semi f (plug (dirty fs) (Node c l (p, x) None r)) \<and>
           only (set (addrs (plug fs (Node c l (p, x) a r)))) (mem s) h"
proof -
  let ?F = "Frame Left c (p, x) a r # fs"
  have z: "zrep s ?F l" using assms(1) by (simp add: zrep_Frame)
  have "up_dirty ?F" using semi_up_dirty [of f ?F l] assms(2) by simp
  from mark_dirty_zrep [OF z this] obtain h where
    h: "mark_dirty (mem s) (Some p) = Some h" "zrep (s\<lparr>mem := h\<rparr>) (dirty ?F) l" "only (set (faddrs ?F)) (mem s) h"
    by auto
  have "zrep (s\<lparr>mem := h\<rparr>) (dirty fs) (Node c l (p, x) None r)" using h(2) by (simp add: zrep_Frame)
  moreover have "semi f (plug (dirty fs) (Node c l (p, x) None r))"
    using semi_ctx [OF assms(2)] semi_NodeD [of f c l "(p, x)" a r] by (simp add: semi_plug)
  moreover have "only (set (addrs (plug fs (Node c l (p, x) a r)))) (mem s) h"
    by (rule only_mono [OF h(3)]) (auto simp: plug_addr)
  ultimately show ?thesis using h(1) by blast
qed

lemma rb_inv_cong:
  "invc (plug fs (Node c l y b r)) = invc (plug fs (Node c l x a r))"
  "invh (plug fs (Node c l y b r)) = invh (plug fs (Node c l x a r))"
  "invc (plug (dirty fs) t) = invc (plug fs t)"
  "invh (plug (dirty fs) t) = invh (plug fs t)"
  by (simp_all add: invc_plug invh_plug)

lemma update_values_loop_zrep:
  assumes "zrep s fs t" "t \<noteq> Leaf" "semi f (plug fs t)" "\<And>x. f' (g x) = f' x" "f = aaug f'"
  shows "\<exists>h T. update_values_loop (mem s) g (root t) = Some h \<and> zrep (s\<lparr>mem := h\<rparr>) [] T \<and>
           inorder T = loc_before (fs, t) @ map (apsnd g) (loc_value (fs, t) # loc_after (fs, t)) \<and>
           invc T = invc (plug fs t) \<and> invh T = invh (plug fs t) \<and> semi f T \<and>
           (clean f (plug fs t) \<longrightarrow> clean f T)"
  using assms(1-3)
proof (induction "length (loc_after (fs, t))" arbitrary: s fs t rule: less_induct)
  case less
  obtain c l p x a r where t: "t = Node c l (p, x) a r" using less.prems(2) by (cases t rule: root.cases) auto
  obtain n where n: "mem s p = Some n" "rb_value n = x" using less.prems(1) t by (simp add: zrep_def)
  let ?s = "s\<lparr>mem := (mem s)(p \<mapsto> n\<lparr>rb_value := g x\<rparr>)\<rparr>" and ?t = "Node c l (p, g x) a r"
  have z: "zrep ?s fs ?t" using set_value_zrep [OF less.prems(1) [unfolded t] n(1)] .
  have fx: "f (p, g x) = f (p, x)" using assms(4,5) by simp
  note tr = set_value_tree [OF fx less.prems(3) [unfolded t]]
  have inv: "invc (plug fs ?t) = invc (plug fs t)" "invh (plug fs ?t) = invh (plug fs t)"
    unfolding t by (rule rb_inv_cong)+
  have succ: "successor (mem ?s) p = Some (loc_ptr (tree_successor (fs, ?t)))"
    using successor_zrep [OF z, of p] by simp
  have step: "update_values_loop (mem s) g (root t) =
      update_values_loop (mem ?s) g (loc_ptr (tree_successor (fs, ?t)))"
    using n t succ by (subst update_values_loop.simps) simp
  show ?case
  proof (cases "tree_successor (fs, ?t)")
    case None
    then have "loc_after (fs, ?t) = []" using tree_successor_spec(1) [of "(fs, ?t)"] by simp
    moreover have "update_values_loop (mem s) g (root t) = Some (mem ?s)"
      using step None by (simp add: update_values_loop.simps)
    moreover have "zrep ?s [] (plug fs ?t)" using z by (simp add: zrep_plug)
    ultimately show ?thesis using tr inv t
      by (intro exI [of _ "mem ?s"] exI [of _ "plug fs ?t"]) (auto simp: inorder_plug)
  next
    case (Some loc)
    obtain gs u where su: "tree_successor (fs, ?t) = Some (gs, u)" using Some by (cases loc) auto
    note sp = tree_successor_spec(2) [OF _ su, simplified]
    have z2: "zrep ?s gs u" using sp z zrep_move [of fs ?t gs u ?s] by simp
    have "length (loc_after (gs, u)) < length (loc_after (fs, t))"
      using sp t by (metis length_Cons lessI loc_after.simps tree_child.simps(3))
    from less.hyps [OF this z2] sp tr obtain h T where
      h: "update_values_loop (mem ?s) g (root u) = Some h" "zrep (?s\<lparr>mem := h\<rparr>) [] T"
        "inorder T = loc_before (gs, u) @ map (apsnd g) (loc_value (gs, u) # loc_after (gs, u))"
        "invc T = invc (plug gs u)" "invh T = invh (plug gs u)" "semi f T"
        "clean f (plug gs u) \<longrightarrow> clean f T" by auto
    have "inorder T = loc_before (fs, t) @ map (apsnd g) (loc_value (fs, t) # loc_after (fs, t))"
      using h(3) sp t by simp
    moreover have "update_values_loop (mem s) g (root t) = Some h" using step su h(1) by simp
    ultimately show ?thesis using h(2,4-7) sp tr inv t by (intro exI [of _ h] exI [of _ T]) auto
  qed
qed

lemma update_values_refines:
  assumes "zrep s [] T" "rb_wf (aaug f) T" "\<And>x. f (g x) = f x"
  shows "\<exists>s' T'. update_values s g = Some s' \<and> zrep s' [] T' \<and> rb_wf (aaug f) T' \<and>
           inorder T' = map (apsnd g) (inorder T)"
proof (cases "tree_lowest T")
  case None
  then show ?thesis using lowest_node_refines [OF assms(1)] tree_lowest_spec(1) [of T] assms(1)
    by (auto simp: update_values_def update_values_loop.simps)
next
  case (Some loc)
  obtain fs t where loc: "loc = (fs, t)" by (rule prod.exhaust)
  note sp = tree_lowest_spec(2) [OF Some [unfolded loc]]
  have z: "zrep s fs t" using zrep_loc [OF assms(1)] sp by blast
  have cl: "clean (aaug f) (plug fs t)" using sp assms(2) by (simp add: rb_wf_def)
  from update_values_loop_zrep [of s fs t "aaug f" f g, OF z _ _ assms(3) refl] sp cl obtain h T' where
    h: "update_values_loop (mem s) g (root t) = Some h" "zrep (s\<lparr>mem := h\<rparr>) [] T'"
      "inorder T' = loc_before (fs, t) @ map (apsnd g) (loc_value (fs, t) # loc_after (fs, t))"
      "invc T' = invc (plug fs t)" "invh T' = invh (plug fs t)" "clean (aaug f) T'" by auto
  have "inorder T' = map (apsnd g) (inorder T)" using h(3) sp by (metis append_Nil)
  with h sp assms(2) lowest_node_refines [OF assms(1)] Some loc show ?thesis
    by (auto simp: update_values_def rb_wf_def)
qed

end
