(* ===== verification/Rb_Stale.thy ===== *)
theory Rb_Stale
  imports Rb_Iter
begin

text \<open>
  Trees in which the cached values of some nodes are stale.  A node is changed in place, and until it is marked the values that depend on
  it, its own and those of its ancestors, may be wrong; all others are right.  The predicates \<open>clean_but\<close> and \<open>semi_but\<close>
  follow \<open>clean\<close> and \<open>semi\<close>, except that nothing is asked of the value of a node with a changed element, given by a
  predicate \<open>P\<close>, in its subtree.  Removal keeps them, and marking the changed node makes the tree right again.
\<close>

section \<open>Stale values\<close>

definition touched :: "('a \<Rightarrow> bool) \<Rightarrow> ('a, 'v) rbtree \<Rightarrow> bool" where
  "touched P t \<longleftrightarrow> (\<exists>x\<in>set (inorder t). P x)"

fun clean_but :: "('a \<Rightarrow> bool) \<Rightarrow> ('a \<Rightarrow> 'v option \<Rightarrow> 'v option \<Rightarrow> 'v) \<Rightarrow> ('a, 'v) rbtree \<Rightarrow> bool" where
  "clean_but P f Leaf = True"
| "clean_but P f (Node c l x a r) \<longleftrightarrow> clean_but P f l \<and> clean_but P f r \<and> a \<noteq> None \<and>
     (touched P (Node c l x a r) \<or> a = Some (f x (tree_aug l) (tree_aug r)))"

fun semi_but :: "('a \<Rightarrow> bool) \<Rightarrow> ('a \<Rightarrow> 'v option \<Rightarrow> 'v option \<Rightarrow> 'v) \<Rightarrow> ('a, 'v) rbtree \<Rightarrow> bool" where
  "semi_but P f Leaf = True"
| "semi_but P f (Node c l x None r) \<longleftrightarrow> semi_but P f l \<and> semi_but P f r"
| "semi_but P f (Node c l x (Some v) r) \<longleftrightarrow> clean_but P f (Node c l x (Some v) r)"

fun ctx_but :: "('a \<Rightarrow> bool) \<Rightarrow> ('a \<Rightarrow> 'v option \<Rightarrow> 'v option \<Rightarrow> 'v) \<Rightarrow> ('a, 'v) frame list \<Rightarrow> bool" where
  "ctx_but P f [] = True"
| "ctx_but P f (Frame d c x a s # fs) \<longleftrightarrow> a = None \<and> semi_but P f s \<and> ctx_but P f fs"

lemma touched_simps [simp]:
  "\<not> touched P Leaf" "touched P (Node c l x a r) \<longleftrightarrow> touched P l \<or> P x \<or> touched P r"
  "touched P (bin d c x a t s) \<longleftrightarrow> touched P t \<or> P x \<or> touched P s"
  by (cases d; auto simp: touched_def)+

lemma clean_semi_but [simp]: "clean_but P f t \<Longrightarrow> semi_but P f t"
  by (cases t; cases "tree_aug t") auto

lemma semi_but_update: "semi_but P f t \<Longrightarrow> clean_but P f (tree_update_augments f t)"
  by (induction P f t rule: semi_but.induct) (auto simp: Let_def)

lemma semi_but_bin [simp]: "semi_but P f (bin d c x None t s) \<longleftrightarrow> semi_but P f t \<and> semi_but P f s"
  by (cases d) auto

lemma semi_but_paint [simp]: "semi_but P f (paint c t) = semi_but P f t"
  by (cases t; cases "tree_aug t") auto

lemma semi_but_child [simp]: "semi_but P f t \<Longrightarrow> semi_but P f (tree_child d t)"
  by (cases t; cases d; cases "tree_aug t") auto

lemma semi_but_NodeD: "semi_but P f (Node c l x a r) \<Longrightarrow> semi_but P f l \<and> semi_but P f r"
  by (cases a) auto

lemma semi_but_recolor: "semi_but P f (Node c l x a r) \<Longrightarrow> semi_but P f (Node c' l x a r)"
  by (cases a) auto

lemma semi_but_plug: "ctx_but P f fs \<Longrightarrow> semi_but P f (plug fs t) = semi_but P f t"
  by (induction fs t rule: plug.induct) auto

lemma semi_but_bin_D: "semi_but P f (bin d c x a t s) \<Longrightarrow> semi_but P f t \<and> semi_but P f s"
  by (cases d; cases a) auto

lemma semi_but_ctx: "semi_but P f (plug fs t) \<Longrightarrow> ctx_but P f (dirty fs) \<and> semi_but P f t"
proof (induction fs t rule: plug.induct)
  case (2 d c x a s fs t)
  then show ?case using semi_but_bin_D [of P f d c x a t s] by auto
qed simp

lemma ctx_but_append [simp]: "ctx_but P f (fs @ gs) \<longleftrightarrow> ctx_but P f fs \<and> ctx_but P f gs"
  by (induction P f fs rule: ctx_but.induct) auto

text \<open>The ancestors of a node without a cached value have none.\<close>

lemma semi_but_path: "semi_but P f (plug fs t) \<Longrightarrow> tree_aug t = None \<Longrightarrow> t \<noteq> Leaf \<Longrightarrow> dirty fs = fs"
proof (induction fs t rule: plug.induct)
  case (2 d c x a s fs t)
  then have "semi_but P f (bin d c x a t s)" using semi_but_ctx by fastforce
  with "2.prems" have "a = None" by (cases a; cases d; cases t) auto
  with 2 show ?case by auto
qed simp

lemma semi_but_closed_up: "semi_but P f T \<Longrightarrow> closed_up T"
proof -
  have "semi_but P f (plug fs t) \<Longrightarrow> up_dirty fs" for fs t
  proof (induction fs t rule: plug.induct)
    case (2 d c x a s fs t)
    then show ?case using semi_but_path [of P f fs "bin d c x a t s"] by auto
  qed simp
  then show "semi_but P f T \<Longrightarrow> closed_up T" by (auto simp: closed_up_def)
qed

section \<open>Removal\<close>

lemma fix_black_but: "semi_but P f s \<Longrightarrow> semi_but P f t \<Longrightarrow> semi_but P f (fst (fix_black d c x s t))"
  by (cases s; cases d) (auto simp: Let_def split: rbtree.splits dest: semi_but_NodeD intro: semi_but_recolor)

lemma tree_fixup_step_but:
  assumes "semi_but P f s" "semi_but P f t"
  shows "semi_but P f (fst (tree_fixup_step d c x s t))"
proof (cases "(d, c, x, s, t)" rule: tree_fixup_step.cases)
  case (1 d c x sl sx sa sr t)
  with assms show ?thesis
    using fix_black_but [of P f "tree_child d s" t d Red x] semi_but_child [of P f s "opposite d"]
    by (auto simp: Let_def split: prod.splits)
qed (use assms in \<open>auto simp: fix_black_but simp del: fix_black.simps\<close>)

lemma tree_remove_fixup_but: "ctx_but P f fs \<Longrightarrow> semi_but P f t \<Longrightarrow> semi_but P f (tree_remove_fixup fs t)"
proof (induction fs t rule: tree_remove_fixup.induct)
  case (2 d c x a s fs t)
  then show ?case
    using tree_fixup_step_but [of P f s t d c x] by (auto simp: semi_but_plug split: prod.splits)
qed simp

lemma tree_unplace_but:
  assumes "tree_unplace fs (Node c l x a r) = (fs', u, col)" "semi_but P f (plug fs (Node c l x a r))"
  shows "ctx_but P f fs' \<and> semi_but P f u"
proof -
  from semi_but_ctx [OF assms(2)] have cl: "ctx_but P f (dirty fs)" "semi_but P f l" "semi_but P f r"
    using semi_but_NodeD [of P f c l x a r] by auto
  show ?thesis
  proof (cases "l = Leaf \<or> r = Leaf")
    case True
    with assms(1) cl show ?thesis by (auto split: if_splits)
  next
    case False
    obtain gs v where lm: "tree_leftmost [] r = (gs, v)" by (rule prod.exhaust)
    have "semi_but P f (plug gs v)" using tree_leftmost_plug [OF lm] cl by simp
    then have "ctx_but P f (dirty gs) \<and> semi_but P f v" by (rule semi_but_ctx)
    with False lm assms(1) cl tree_leftmost_Leaf [OF lm] show ?thesis
      by (cases v) (auto split: if_splits dest: semi_but_NodeD)
  qed
qed

lemma tree_remove_but:
  assumes "semi_but P f (plug fs (Node c l x a r))"
  shows "clean_but P f (tree_remove f (fs, Node c l x a r))"
proof -
  obtain fs' u col where un: "tree_unplace fs (Node c l x a r) = (fs', u, col)"
    by (metis prod_cases3)
  with tree_unplace_but [OF un assms] show ?thesis
    by (auto simp: tree_remove_def semi_but_plug tree_remove_fixup_but simp del: tree_unplace.simps intro!: semi_but_update)
qed

section \<open>Changing and marking a node\<close>

lemma clean_clean_but: "clean f t \<Longrightarrow> clean_but P f t"
  by (induction t) auto

lemma semi_semi_but: "semi f t \<Longrightarrow> semi_but P f t"
  by (induction f t rule: semi.induct) (auto simp: clean_clean_but)

lemma clean_but_untouched: "clean_but P f t \<Longrightarrow> \<not> touched P t \<Longrightarrow> clean f t"
  by (induction t) auto

lemma semi_but_untouched: "semi_but P f t \<Longrightarrow> \<not> touched P t \<Longrightarrow> semi f t"
  by (induction P f t rule: semi_but.induct) (auto simp: clean_but_untouched)

lemma change_node:
  assumes "semi f (plug fs (Node c l x a r))" "P y"
  shows "semi_but P f (plug fs (Node c l y a r))"
proof -
  have "(semi f (plug fs t) \<longrightarrow> semi_but P f (plug fs u)) \<and> (clean f (plug fs t) \<longrightarrow> clean_but P f (plug fs u))"
    if "touched P u" "semi f t \<Longrightarrow> semi_but P f u" "clean f t \<Longrightarrow> clean_but P f u" for t u
    using that
  proof (induction fs t arbitrary: u rule: plug.induct)
    case (2 d c x a s fs t)
    have "clean f (bin d c x a t s) \<Longrightarrow> clean_but P f (bin d c x a u s)"
      using "2.prems" by (cases d) (auto simp: clean_clean_but)
    moreover have "semi f (bin d c x a t s) \<Longrightarrow> semi_but P f (bin d c x a u s)"
      using "2.prems" by (cases d; cases a) (auto simp: clean_clean_but semi_semi_but)
    ultimately show ?case using "2.IH" [of "bin d c x a u s"] "2.prems"(1) by simp
  qed auto
  moreover have "semi f (Node c l x a r) \<Longrightarrow> semi_but P f (Node c l y a r)" "clean f (Node c l x a r) \<Longrightarrow> clean_but P f (Node c l y a r)"
    using assms(2) by (cases a; auto simp: clean_clean_but semi_semi_but)+
  ultimately show ?thesis using assms by (metis touched_simps(2))
qed

lemma ctx_but_untouched: "ctx_but P f fs \<Longrightarrow> \<forall>x\<in>set (before fs) \<union> set (after fs). \<not> P x \<Longrightarrow> ctx_clean f fs"
proof (induction P f fs rule: ctx_but.induct)
  case (2 P f d c x a s fs)
  then show ?case by (cases d) (auto intro!: semi_but_untouched simp: touched_def)
qed simp

lemma mark_node:
  assumes "semi_but P f (plug fs (Node c l x a r))" "\<forall>y\<in>set (before fs @ inorder l @ inorder r @ after fs). \<not> P y"
  shows "semi f (plug (dirty fs) (Node c l x None r))"
proof -
  have b: "before (dirty fs) = before fs" "after (dirty fs) = after fs" for fs :: "('a, 'v) frame list"
    by (induction fs rule: before.induct) auto
  have c: "ctx_but P f (dirty fs)" "semi_but P f l" "semi_but P f r"
    using semi_but_ctx [OF assms(1)] semi_but_NodeD [of P f c l x a r] by auto
  have "ctx_clean f (dirty fs)" by (rule ctx_but_untouched [OF c(1)]) (use assms(2) in \<open>auto simp: b\<close>)
  moreover have "semi f l" "semi f r" using assms(2) c(2,3) by (auto intro!: semi_but_untouched simp: touched_def)
  ultimately show ?thesis by (simp add: semi_plug)
qed

end
