(* ===== verification/Rb_Merge.thy ===== *)
theory Rb_Merge
  imports Rb_Stale
begin

text \<open>
  Merging adjacent pairs of a tree in place, and the run-time self check of \<^verbatim>\<open>memory/rbtree.rs\<close>.
\<close>

section \<open>Merging adjacent pairs\<close>

text \<open>Removing an element, by its place in the sequence, also while a changed node leaves stale values behind.\<close>

lemma remove_at_but:
  assumes "zrep s [] T" "semi_but P (aaug f) T" "invc T" "invh T" "inorder T = xs @ (q, y) # ys"
  shows "\<exists>s' T'. remove_raw s f q = Some s' \<and> zrep s' [] T' \<and> clean_but P (aaug f) T' \<and> invc T' \<and> invh T' \<and>
           inorder T' = xs @ ys \<and> only (set (addrs T)) (mem s) (mem s')"
proof -
  from loc_exists [OF assms(5), of "[]"] obtain gs u where
    u: "plug gs u = T" "u \<noteq> Leaf" "loc_value (gs, u) = (q, y)" "loc_before (gs, u) = xs" "loc_after (gs, u) = ys"
    by auto
  then obtain c l a r where u': "u = Node c l (q, y) a r" by (cases u) auto
  have z: "zrep s gs (Node c l (q, y) a r)" using zrep_loc [OF assms(1)] u u' by auto
  let ?T = "tree_remove (aaug f) (gs, Node c l (q, y) a r)"
  from remove_raw_refines [OF z, of f] semi_but_closed_up [OF assms(2)] assms(3,4) u(1) u' obtain s' where
    "remove_raw s f q = Some s'" "zrep s' [] ?T" "only (set (addrs T)) (mem s) (mem s')" by auto
  moreover have "clean_but P (aaug f) ?T" "invc ?T" "invh ?T"
    using tree_remove_but tree_remove_inv assms(2-4) u(1) u' by metis+
  moreover have "inorder ?T = xs @ ys" using tree_remove_seq [of "(gs, u)"] u u' by simp
  ultimately show ?thesis by blast
qed

lemma remove_at:
  assumes "zrep s [] T" "semi (aaug f) T" "invc T" "invh T" "inorder T = xs @ (q, y) # ys"
  shows "\<exists>s' T'. remove_raw s f q = Some s' \<and> zrep s' [] T' \<and> clean (aaug f) T' \<and> invc T' \<and> invh T' \<and>
           inorder T' = xs @ ys \<and> only (set (addrs T)) (mem s) (mem s')"
proof -
  have "clean (aaug f) T'" if "clean_but (\<lambda>_. False) (aaug f) T'" for T'
    using clean_but_untouched [OF that] by (simp add: touched_def)
  with remove_at_but [OF assms(1) semi_semi_but [OF assms(2)] assms(3-5), of "\<lambda>_. False"] show ?thesis by blast
qed

lemma distinct_addrs: "distinct (addrs t) \<longleftrightarrow> distinct (map fst (inorder t))"
  by (induction t rule: addrs.induct) (auto simp: tree_insert_addrs)

text \<open>
  Changing a node, removing its successor and marking the node leaves it in its place; the values that depend on it are then the
  only ones missing.
\<close>

lemma merge_remove_zrep:
  assumes "zrep s fs (Node c l (p, x') a r)" "semi (aaug f) (plug fs (Node c l (p, x) a r))"
    and "invc (plug fs (Node c l (p, x) a r))" "invh (plug fs (Node c l (p, x) a r))"
    and "loc_after (fs, Node c l (p, x) a r) = (q, y) # zs"
  shows "\<exists>s1 h gs v. remove_raw s f q = Some s1 \<and> mark_dirty (mem s1) (Some p) = Some h \<and>
     zrep (s1\<lparr>mem := h\<rparr>) gs v \<and> root v = Some p \<and> semi (aaug f) (plug gs v) \<and> invc (plug gs v) \<and> invh (plug gs v) \<and>
     loc_value (gs, v) = (p, x') \<and> loc_before (gs, v) = loc_before (fs, Node c l (p, x) a r) \<and> loc_after (gs, v) = zs \<and>
     set (addrs (plug gs v)) \<subseteq> set (addrs (plug fs (Node c l (p, x) a r))) \<and>
     only (set (addrs (plug fs (Node c l (p, x) a r)))) (mem s) h"
proof -
  let ?t = "Node c l (p, x') a r" and ?P = "\<lambda>e. fst e = p"
  let ?T = "plug fs ?t" and ?b = "loc_before (fs, ?t)"
  have st: "semi_but ?P (aaug f) ?T" by (rule change_node [OF assms(2)]) simp
  have inv: "invc ?T" "invh ?T" using assms(3,4) by (auto simp: invc_plug invh_plug split: if_splits)
  have af: "loc_after (fs, ?t) = (q, y) # zs" "?b = loc_before (fs, Node c l (p, x) a r)" using assms(5) by auto
  have adT: "set (addrs (plug fs (Node c l (p, x) a r))) = set (addrs ?T)" by (simp add: plug_addr)
  have io: "inorder ?T = (?b @ [(p, x')]) @ (q, y) # zs"
    using loc_split [of "(fs, ?t)"] af(1) by simp
  have z: "zrep s [] ?T" using assms(1) by (simp add: zrep_plug)
  from remove_at_but [OF z st inv io] obtain s1 T1 where
    s1: "remove_raw s f q = Some s1" "zrep s1 [] T1" "clean_but ?P (aaug f) T1" "invc T1" "invh T1"
      "inorder T1 = (?b @ [(p, x')]) @ zs" "only (set (addrs ?T)) (mem s) (mem s1)" by blast
  have io1: "inorder T1 = ?b @ (p, x') # zs" using s1(6) by simp
  from loc_exists [OF io1, of "[]"] obtain gs v where
    v: "plug gs v = T1" "v \<noteq> Leaf" "loc_value (gs, v) = (p, x')" "loc_before (gs, v) = ?b" "loc_after (gs, v) = zs"
    by auto
  then obtain vc vl va vr where v': "v = Node vc vl (p, x') va vr" by (cases v) auto
  have z1: "zrep s1 gs (Node vc vl (p, x') va vr)" using zrep_loc [OF s1(2)] v v' by auto
  let ?v = "Node vc vl (p, x') None vr" and ?F = "Frame Left vc (p, x') va vr # gs"
  have dist: "distinct (addrs T1)" using s1(2) by (simp add: zrep_def)
  have "semi_but ?P (aaug f) (plug gs (Node vc vl (p, x') va vr))" using s1(3) v(1) v' by simp
  moreover have "\<forall>e\<in>set (before gs @ inorder vl @ inorder vr @ after gs). \<not> fst e = p"
  proof -
    have "distinct (map fst (inorder T1))" using dist unfolding distinct_addrs .
    then show ?thesis unfolding v(1) [symmetric] v' inorder_plug by (fastforce simp: image_iff)
  qed
  ultimately have sm: "semi (aaug f) (plug (dirty gs) ?v)" by (rule mark_node)
  have "up_dirty ?F" using semi_but_closed_up [OF clean_semi_but [OF s1(3)]] v(1) v' unfolding closed_up_def
    by (metis bin.simps(1) plug.simps(2))
  from mark_dirty_zrep [of s1 ?F vl, OF _ this] z1 obtain h where
    h: "mark_dirty (mem s1) (Some p) = Some h" "zrep (s1\<lparr>mem := h\<rparr>) (dirty gs) ?v" "only (set (faddrs ?F)) (mem s1) h"
    by (auto simp: zrep_Frame)
  have ad1: "set (faddrs ?F) \<subseteq> set (addrs T1)" using v(1) v' by (auto simp: plug_addr)
  have "invc (plug (dirty gs) ?v)" "invh (plug (dirty gs) ?v)"
    using s1(4,5) v' unfolding v(1) [symmetric] by (auto simp: invc_plug invh_plug split: if_splits)
  moreover have "loc_value (dirty gs, ?v) = (p, x')" "loc_before (dirty gs, ?v) = ?b" "loc_after (dirty gs, ?v) = zs"
    using v v' by auto
  moreover have ad: "set (addrs (plug (dirty gs) ?v)) = set (addrs T1)" using v(1) v' by (auto simp: plug_addr)
  moreover have ad2: "set (addrs T1) \<subseteq> set (addrs ?T)" unfolding tree_insert_addrs io io1 by auto
  moreover have "only (set (addrs ?T)) (mem s) h" using s1(7) h(3) ad1 ad2 by (meson only_mono only_trans)
  ultimately show ?thesis unfolding adT using s1(1) h(1,2) sm af(2)
    by (intro exI [of _ s1] exI [of _ h] exI [of _ "dirty gs"] exI [of _ ?v]) auto
qed

lemma successor_node:
  assumes "zrep s fs t" "root t = Some p" "loc_after (fs, t) = (q, y) # zs"
  shows "successor (mem s) p = Some (Some q)" "\<exists>k. mem s q = Some k \<and> rb_value k = y"
    "\<exists>gs u. zrep s gs u \<and> plug gs u = plug fs t \<and> root u = Some q \<and> loc_value (gs, u) = (q, y) \<and>
        loc_before (gs, u) = loc_before (fs, t) @ [loc_value (fs, t)] \<and> loc_after (gs, u) = zs"
proof -
  have ok: "loc_ok (fs, t)" using assms(2) by auto
  obtain gs u where su: "tree_successor (fs, t) = Some (gs, u)"
    using tree_successor_spec(1) [OF ok] assms(3) by fastforce
  note sp = tree_successor_spec(2) [OF ok su, unfolded assms(3)]
  obtain c l a r where u: "u = Node c l (q, y) a r" using sp by (cases u) auto
  have z: "zrep s gs u" using zrep_move [OF _ assms(1)] sp by (metis loc_tree.simps)
  show "successor (mem s) p = Some (Some q)" using successor_zrep [OF assms(1,2)] su u by simp
  show "\<exists>k. mem s q = Some k \<and> rb_value k = y" using z u by (simp add: zrep_def)
  show "\<exists>gs u. zrep s gs u \<and> plug gs u = plug fs t \<and> root u = Some q \<and> loc_value (gs, u) = (q, y) \<and>
        loc_before (gs, u) = loc_before (fs, t) @ [loc_value (fs, t)] \<and> loc_after (gs, u) = zs"
    using z sp u by (intro exI [of _ gs] exI [of _ u]) auto
qed

lemma merge_loop_zrep:
  assumes "zrep s fs t" "root t = Some p" "semi (aaug f) (plug fs t)" "invc (plug fs t)" "invh (plug fs t)"
    and f: "\<And>x y. \<not> snd (m x y) \<Longrightarrow> f (fst (m x y)) = f x"
  shows "\<exists>s' T. merge_loop s f m p = Some s' \<and> zrep s' [] T \<and> semi (aaug f) T \<and> invc T \<and> invh T \<and>
           map snd (inorder T) = map snd (loc_before (fs, t)) @ merge_pairs m (map snd (loc_value (fs, t) # loc_after (fs, t))) \<and>
           set (addrs T) \<subseteq> set (addrs (plug fs t)) \<and> only (set (addrs (plug fs t))) (mem s) (mem s')"
  using assms(1-5)
proof (induction "length (loc_after (fs, t))" arbitrary: s fs t p rule: less_induct)
  case less
  obtain c l x a r where t: "t = Node c l (p, x) a r" using less.prems(2) by (cases t rule: root.cases) auto
  show ?case
  proof (cases "loc_after (fs, t)")
    case Nil
    then have "tree_successor (fs, t) = None" using tree_successor_spec(1) [of "(fs, t)"] t by simp
    then have "merge_loop s f m p = Some s"
      using successor_zrep [OF less.prems(1,2)] by (subst merge_loop.simps) simp
    moreover have "zrep s [] (plug fs t)" using less.prems(1) by (simp add: zrep_plug)
    ultimately show ?thesis using Nil less.prems(3-5) t
      by (intro exI [of _ s] exI [of _ "plug fs t"]) (auto simp: inorder_plug)
  next
    case (Cons e zs)
    obtain q y where e: "e = (q, y)" by (rule prod.exhaust)
    obtain n where n: "mem s p = Some n" "rb_value n = x" using less.prems(1) t by (simp add: zrep_def)
    obtain x' b where m: "m x y = (x', b)" by (rule prod.exhaust)
    let ?s = "s\<lparr>mem := (mem s)(p \<mapsto> n\<lparr>rb_value := x'\<rparr>)\<rparr>" and ?t = "Node c l (p, x') a r"
    have z1: "zrep ?s fs ?t" using set_value_zrep [OF less.prems(1) [unfolded t] n(1)] .
    have st: "semi (aaug f) (plug fs ?t)" if "\<not> b"
    proof (rule set_value_tree(1) [OF _ less.prems(3) [unfolded t]])
      show "aaug f (p, x') = aaug f (p, x)" using f [of x y] m that by simp
    qed
    have inv: "invc (plug fs ?t)" "invh (plug fs ?t)"
      using less.prems(4,5) unfolding t by (auto simp: invc_plug invh_plug split: if_splits)
    have ad: "set (addrs (plug fs ?t)) = set (addrs (plug fs t))" using t by (simp add: plug_addr)
    have o1: "only (set (addrs (plug fs t))) (mem s) (mem ?s)" using t by (auto simp: only_def plug_addr)
    have af: "loc_after (fs, ?t) = (q, y) # zs" "loc_before (fs, ?t) = loc_before (fs, t)" using Cons e t by auto
    obtain k where k: "mem s q = Some k" "rb_value k = y" and sq: "successor (mem s) p = Some (Some q)"
      using successor_node [OF less.prems(1,2) Cons [unfolded e]] by blast
    have step: "merge_loop s f m p = (if b then do {
             s \<leftarrow> remove_raw ?s f q;
             h \<leftarrow> mark_dirty (mem s) (Some p);
             merge_loop (s\<lparr>mem := h\<rparr>) f m p }
           else merge_loop ?s f m q)"
      using sq n k m by (subst merge_loop.simps) simp
    have mp: "merge_pairs m (map snd (loc_value (fs, t) # loc_after (fs, t))) =
        (if b then merge_pairs m (x' # map snd zs) else x' # merge_pairs m (y # map snd zs))"
      using Cons e m t by simp
    show ?thesis
    proof (cases b)
      case True
      from merge_remove_zrep [OF z1 less.prems(3-5) [unfolded t] Cons [unfolded e t]] obtain s1 h gs v where
        v: "remove_raw ?s f q = Some s1" "mark_dirty (mem s1) (Some p) = Some h" "zrep (s1\<lparr>mem := h\<rparr>) gs v"
          "root v = Some p" "semi (aaug f) (plug gs v)" "invc (plug gs v)" "invh (plug gs v)"
          "loc_value (gs, v) = (p, x')" "loc_before (gs, v) = loc_before (fs, t)" "loc_after (gs, v) = zs"
          "set (addrs (plug gs v)) \<subseteq> set (addrs (plug fs t))" "only (set (addrs (plug fs t))) (mem ?s) h"
        unfolding t by blast
      have len: "length (loc_after (gs, v)) < length (loc_after (fs, t))" using Cons v(10) by simp
      from less.hyps [OF len v(3-7), unfolded v(8-10) list.map snd_conv] obtain s2 T where
        r: "merge_loop (s1\<lparr>mem := h\<rparr>) f m p = Some s2" "zrep s2 [] T" "semi (aaug f) T" "invc T" "invh T"
          "map snd (inorder T) = map snd (loc_before (fs, t)) @ merge_pairs m (x' # map snd zs)"
          "set (addrs T) \<subseteq> set (addrs (plug gs v))" "only (set (addrs (plug gs v))) h (mem s2)"
        by auto
      have "only (set (addrs (plug fs t))) (mem s) (mem s2)"
        using o1 v(11,12) r(8) by (meson only_mono only_trans)
      then show ?thesis unfolding mp using True step v(1,2,11) r by (intro exI [of _ s2] exI [of _ T]) auto
    next
      case False
      from successor_node(3) [OF z1 _ af(1), of p] obtain gs u where
        u: "zrep ?s gs u" "plug gs u = plug fs ?t" "root u = Some q" "loc_value (gs, u) = (q, y)"
          "loc_before (gs, u) = loc_before (fs, t) @ [(p, x')]" "loc_after (gs, u) = zs" using af(2) by auto
      have len: "length (loc_after (gs, u)) < length (loc_after (fs, t))" using Cons u(6) by simp
      from less.hyps [OF len u(1,3), unfolded u(2,4-6) ad map_append list.map snd_conv, OF st [OF False] inv] obtain s2 T where
        r: "merge_loop ?s f m q = Some s2" "zrep s2 [] T" "semi (aaug f) T" "invc T" "invh T"
          "map snd (inorder T) = map snd (loc_before (fs, t)) @ x' # merge_pairs m (y # map snd zs)"
          "set (addrs T) \<subseteq> set (addrs (plug fs t))" "only (set (addrs (plug fs t))) (mem ?s) (mem s2)"
        by auto
      have "only (set (addrs (plug fs t))) (mem s) (mem s2)" using o1 r(8) by (rule only_trans)
      then show ?thesis unfolding mp using False step r by (intro exI [of _ s2] exI [of _ T]) auto
    qed
  qed
qed

lemma pairwise_merge_refines:
  assumes "zrep s [] T" "rb_wf (aaug f) T" "\<And>x y. \<not> snd (m x y) \<Longrightarrow> f (fst (m x y)) = f x"
  shows "\<exists>s' T'. pairwise_merge s f m = Some s' \<and> zrep s' [] T' \<and> rb_wf (aaug f) T' \<and>
           map snd (inorder T') = merge_pairs m (map snd (inorder T)) \<and>
           set (addrs T') \<subseteq> set (addrs T) \<and> only (set (addrs T)) (mem s) (mem s')"
proof (cases "tree_lowest T")
  case None
  then have "T = Leaf" by (simp add: tree_lowest_spec)
  with None lowest_node_refines [OF assms(1)] assms(1) show ?thesis
    by (auto simp: pairwise_merge_def)
next
  case (Some loc)
  obtain fs t where loc: "loc = (fs, t)" by (rule prod.exhaust)
  note sp = tree_lowest_spec(2) [OF Some [unfolded loc]]
  obtain p where p: "root t = Some p" using sp root_node by auto
  have z: "zrep s fs t" using zrep_loc [OF assms(1)] sp by blast
  from merge_loop_zrep [of s fs t p f m, OF z p _ _ _ assms(3)] sp assms(2) obtain s1 T1 where
    s1: "merge_loop s f m p = Some s1" "zrep s1 [] T1" "semi (aaug f) T1" "invc T1" "invh T1"
      "map snd (inorder T1) = merge_pairs m (map snd (loc_value (fs, t) # loc_after (fs, t)))"
      "set (addrs T1) \<subseteq> set (addrs T)" "only (set (addrs T)) (mem s) (mem s1)"
    by (auto simp: rb_wf_def)
  from update_augments_zrep [OF s1(2), of f] obtain s2 where
    s2: "update_augments s1 f = Some s2" "zrep s2 [] (tree_update_augments (aaug f) T1)"
      "only (set (addrs T1)) (mem s1) (mem s2)" by blast
  have "rb_wf (aaug f) (tree_update_augments (aaug f) T1)"
    using s1(3-5) by (simp add: rb_wf_def semi_update_augments)
  moreover have "map snd (inorder T1) = merge_pairs m (map snd (inorder T))" using s1(6) sp by metis
  moreover have "only (set (addrs T)) (mem s) (mem s2)"
    using s1(7,8) s2(3) by (meson only_mono only_trans)
  moreover have "pairwise_merge s f m = Some s2"
    using lowest_node_refines [OF assms(1)] Some loc p s1(1) s2(1) by (simp add: pairwise_merge_def)
  ultimately show ?thesis using s2(2) s1(7) by (intro exI [of _ s2] exI [of _ "tree_update_augments (aaug f) T1"]) auto
qed

section \<open>The self check\<close>

fun bounded :: "('a \<Rightarrow> 'a \<Rightarrow> ordering) \<Rightarrow> 'a option \<Rightarrow> 'a option \<Rightarrow> ('a, 'v) rbtree \<Rightarrow> bool" where
  "bounded cmp lo hi Leaf \<longleftrightarrow> True"
| "bounded cmp lo hi (Node c l x a r) \<longleftrightarrow>
     (case lo of None \<Rightarrow> True | Some b \<Rightarrow> cmp x b \<noteq> Less) \<and>
     (case hi of None \<Rightarrow> True | Some b \<Rightarrow> is_le (cmp x b)) \<and>
     bounded cmp lo (Some x) l \<and> bounded cmp (Some x) hi r"

lemma tree_check_rep:
  assumes "rep h par t"
  shows "tree_check h f cmp (root t) par (map_option snd lo) (map_option snd hi) =
     (if invc t \<and> invh t \<and> clean (aaug f) t \<and> bounded (acmp cmp) lo hi t
      then Some (bheight t + 1, tree_aug t) else None)"
  using assms
proof (induction t arbitrary: par lo hi)
  case Leaf
  then show ?case by (simp add: tree_check.simps)
next
  case (Node c l e a r)
  obtain q x where e: "e = (q, x)" by (rule prod.exhaust)
  have rl: "rep h (Some q) l" "rep h (Some q) r" using Node.prems e by auto
  note IH = Node.IH(1) [OF rl(1), of lo "Some (q, x)"] Node.IH(2) [OF rl(2), of "Some (q, x)" hi]
  define G where "G \<longleftrightarrow> (c = Black \<or> tree_color l = Black) \<and> (c = Black \<or> tree_color r = Black) \<and>
    (case lo of None \<Rightarrow> True | Some b \<Rightarrow> cmp x (snd b) \<noteq> Less) \<and>
    (case hi of None \<Rightarrow> True | Some b \<Rightarrow> is_le (cmp x (snd b)))"
  have h: "h q = Some (mknode Left c par (root l) (root r) x a)" using Node.prems e by simp
  have "tree_check h f cmp (Some q) par (map_option snd lo) (map_option snd hi) =
    (if G then do {
       (ld, la) \<leftarrow> tree_check h f cmp (root l) (Some q) (map_option snd lo) (Some x);
       (rd, ra) \<leftarrow> tree_check h f cmp (root r) (Some q) (Some x) (map_option snd hi);
       (if ld = rd \<and> a = Some (f x la ra)
        then Some (ld + (if c = Black then 1 else 0), Some (f x la ra)) else None) }
     else None)"
    using h color_at_root [OF rep_anyI [OF rl(1)]] color_at_root [OF rep_anyI [OF rl(2)]]
    by (subst tree_check.simps) (cases lo; cases hi; simp add: G_def Let_def)
  also have "\<dots> = (if G \<and> (invc l \<and> invh l \<and> clean (aaug f) l \<and> bounded (acmp cmp) lo (Some (q, x)) l) \<and>
      (invc r \<and> invh r \<and> clean (aaug f) r \<and> bounded (acmp cmp) (Some (q, x)) hi r) \<and>
      bheight l = bheight r \<and> a = Some (f x (tree_aug l) (tree_aug r))
     then Some (bheight l + 1 + (if c = Black then 1 else 0), a) else None)"
    using IH by simp
  also have "(G \<and> (invc l \<and> invh l \<and> clean (aaug f) l \<and> bounded (acmp cmp) lo (Some (q, x)) l) \<and>
      (invc r \<and> invh r \<and> clean (aaug f) r \<and> bounded (acmp cmp) (Some (q, x)) hi r) \<and>
      bheight l = bheight r \<and> a = Some (f x (tree_aug l) (tree_aug r))) \<longleftrightarrow>
    invc (Node c l e a r) \<and> invh (Node c l e a r) \<and> clean (aaug f) (Node c l e a r) \<and>
    bounded (acmp cmp) lo hi (Node c l e a r)"
    using e by (cases c; cases lo; cases hi) (auto simp: G_def)
  finally show ?case using e by (cases c) simp_all
qed

end
