(* ===== verification/Rb_Spec.thy ===== *)
theory Rb_Spec
  imports Rb_Merge
begin

text \<open>
  The contract of the pointer-level red-black tree.  \<^verbatim>\<open>rb_holds f s es\<close> says that the memory \<^verbatim>\<open>s\<close> holds a
  valid red-black tree, with every cached augmented value up to date for the augmentation \<^verbatim>\<open>f\<close>, whose nodes
  are, in order, the address and value pairs \<^verbatim>\<open>es\<close>.  Every public operation of \<^verbatim>\<open>memory/rbtree.rs\<close> is
  specified by its effect on that sequence.
\<close>

definition rb_holds :: "('a \<Rightarrow> 'v option \<Rightarrow> 'v option \<Rightarrow> 'v) \<Rightarrow> ('a, 'v) rbmem \<Rightarrow> (nat \<times> 'a) list \<Rightarrow> bool" where
  "rb_holds f s es \<longleftrightarrow> (\<exists>T. zrep s [] T \<and> rb_wf (aaug f) T \<and> inorder T = es)"

definition sum_augment :: "nat \<Rightarrow> nat option \<Rightarrow> nat option \<Rightarrow> nat" where
  "sum_augment x l r = x + (case l of None \<Rightarrow> 0 | Some v \<Rightarrow> v) + (case r of None \<Rightarrow> 0 | Some v \<Rightarrow> v)"

definition sample :: "(nat, nat) rbmem" where
  "sample = \<lparr>mem = [1 \<mapsto> \<lparr>rb_color = Red, rb_parent = Some 2, rb_left = None, rb_right = None, rb_value = 10, rb_augment = Some 10\<rparr>,
                   2 \<mapsto> \<lparr>rb_color = Black, rb_parent = None, rb_left = Some 1, rb_right = Some 3, rb_value = 20, rb_augment = Some 60\<rparr>,
                   3 \<mapsto> \<lparr>rb_color = Red, rb_parent = Some 2, rb_left = None, rb_right = None, rb_value = 30, rb_augment = Some 30\<rparr>,
                   4 \<mapsto> node_new 25],
            head = Some 2\<rparr>"

lemma rb_holdsE:
  assumes "rb_holds f s es"
  obtains T where "zrep s [] T" "clean (aaug f) T" "invc T" "invh T" "inorder T = es" "rb_wf (aaug f) T"
  using assms by (auto simp: rb_holds_def rb_wf_def)

lemma rb_holds_empty [simp]: "head s = None \<Longrightarrow> rb_holds f s []"
  by (auto simp: rb_holds_def zrep_def intro!: exI [of _ Leaf])

lemma rb_holds_sample: "rb_holds sum_augment sample [(1, 10), (2, 20), (3, 30)]"
  unfolding rb_holds_def
  by (rule exI [of _ "Node Black (Node Red Leaf (1, 10) (Some 10) Leaf) (2, 20) (Some 60)
                        (Node Red Leaf (3, 30) (Some 30) Leaf)"])
    (simp add: zrep_def rb_wf_def sample_def mknode_def sum_augment_def)

lemma rb_holds_loc:
  assumes "zrep s [] T" "inorder T = xs @ (q, y) # ys"
  shows "\<exists>fs t. zrep s fs t \<and> root t = Some q \<and> loc_ok (fs, t) \<and> loc_after (fs, t) = ys"
proof -
  from loc_exists [OF assms(2), of "[]"] obtain fs t where
    t: "plug fs t = T" "t \<noteq> Leaf" "loc_value (fs, t) = (q, y)" "loc_after (fs, t) = ys" by auto
  then show ?thesis using zrep_loc [OF assms(1), of fs t]
    by (intro exI [of _ fs] exI [of _ t]) (cases t; auto)
qed

lemma upward_map: "upward P (map g xs) = upward (\<lambda>x. P (g x)) xs"
  by (simp add: upward_def sorted_wrt_map)

lemma lower_bound_find:
  assumes "clean f T" "upward P (inorder T)"
  shows "map_option loc_value (first_loc P T) = find P (inorder T)"
proof (cases "first_loc P T")
  case None
  with first_loc_None [OF assms] show ?thesis by (auto simp: find_None_iff2)
next
  case (Some loc)
  from first_loc_Some [OF assms Some] have "dropWhile (\<lambda>x. \<not> P x) (inorder T) = loc_value loc # loc_after loc" by simp
  then show ?thesis using Some by (simp add: find_dropWhile comp_def)
qed

text \<open>
  C4.  Inserting a node that is not in the tree succeeds and puts it in front of the first node that the
  comparison does not place before it.  The result is again a valid red-black tree with correct augmented
  values, and no node outside the tree is touched.
\<close>

theorem insert_raw_correct:
  assumes "rb_holds f s es" "mem s q = Some n" "q \<notin> fst ` set es"
    and "upward (\<lambda>e. is_le (cmp (rb_value n) (snd e))) es"
  shows "\<exists>s'. insert_raw s f q cmp = Some s' \<and> rb_holds f s' (insert_before (acmp cmp) (q, rb_value n) es) \<and>
              only (insert q (fst ` set es)) (mem s) (mem s')"
proof -
  from assms(1) obtain T where T: "zrep s [] T" "clean (aaug f) T" "invc T" "invh T" "inorder T = es" "rb_wf (aaug f) T"
    by (rule rb_holdsE)
  have ad: "set (addrs T) = fst ` set es" using T(5) by (simp add: tree_insert_addrs)
  from insert_raw_refines [OF T(1) _ assms(2) refl, of f cmp] T(2) assms(3) ad obtain s' where
    s': "insert_raw s f q cmp = Some s'" "zrep s' [] (tree_insert (aaug f) (acmp cmp) (q, rb_value n) T)"
      "only (insert q (set (addrs T))) (mem s) (mem s')" by auto
  moreover have "inorder (tree_insert (aaug f) (acmp cmp) (q, rb_value n) T) = insert_before (acmp cmp) (q, rb_value n) es"
    using tree_insert_seq [of "acmp cmp" "(q, rb_value n)" T "aaug f"] T(5) assms(4) by simp
  moreover have "rb_wf (aaug f) (tree_insert (aaug f) (acmp cmp) (q, rb_value n) T)" using T(6) by (rule rb_wf_insert)
  ultimately show ?thesis using ad by (auto simp: rb_holds_def)
qed

lemma insert_raw_correct_witness:
  "\<exists>s'. insert_raw sample sum_augment 4 cmp_of = Some s' \<and>
        rb_holds sum_augment s' [(1, 10), (2, 20), (4, 25), (3, 30)]"
proof -
  have m: "mem sample 4 = Some (node_new 25)" by (simp add: sample_def)
  have "upward (\<lambda>e. is_le (cmp_of (rb_value (node_new 25)) (snd e))) [(1 :: nat, 10), (2, 20), (3, 30 :: nat)]"
    by (simp add: upward_def node_new_def)
  from insert_raw_correct [of sum_augment sample _ 4 "node_new 25" cmp_of, OF rb_holds_sample m _ this]
  show ?thesis by (auto simp: insert_before_def node_new_def)
qed

text \<open>
  C5.  Removing a node of the tree succeeds, takes exactly that node out of the sequence, keeps the tree a
  valid red-black tree with correct augmented values, and touches no node outside the tree.
\<close>

theorem remove_raw_correct:
  assumes "rb_holds f s (xs @ (q, y) # ys)"
  shows "\<exists>s'. remove_raw s f q = Some s' \<and> rb_holds f s' (xs @ ys) \<and>
              only (insert q (fst ` set (xs @ ys))) (mem s) (mem s')"
proof -
  from assms obtain T where T: "zrep s [] T" "clean (aaug f) T" "invc T" "invh T" "inorder T = xs @ (q, y) # ys"
    by (rule rb_holdsE)
  have ad: "set (addrs T) = insert q (fst ` set (xs @ ys))" using T(5) by (auto simp: tree_insert_addrs)
  from remove_at [OF T(1) clean_semi [OF T(2)] T(3-5)] obtain s' T' where
    "remove_raw s f q = Some s'" "zrep s' [] T'" "clean (aaug f) T'" "invc T'" "invh T'" "inorder T' = xs @ ys"
    "only (set (addrs T)) (mem s) (mem s')" by blast
  then show ?thesis unfolding ad by (auto simp: rb_holds_def rb_wf_def)
qed

lemma remove_raw_correct_witness:
  "\<exists>s'. remove_raw sample sum_augment 2 = Some s' \<and> rb_holds sum_augment s' [(1, 10), (3, 30)]"
  using remove_raw_correct [of sum_augment sample "[(1, 10)]" 2 20 "[(3, 30)]"] rb_holds_sample by auto

text \<open>
  For a predicate that, once true along the sequence, stays true, the lower bound search returns the
  first node that satisfies it, and null exactly when there is none.
\<close>

theorem lower_bound_raw_correct:
  assumes "rb_holds f s es" "upward (\<lambda>e. P (snd e)) es"
  shows "lower_bound_raw s (\<lambda>x _. P x) = Some (map_option fst (find (\<lambda>e. P (snd e)) es))"
proof -
  from assms(1) obtain T where T: "zrep s [] T" "clean (aaug f) T" "inorder T = es" by (rule rb_holdsE)
  have "upward (\<lambda>e. P (snd e)) (inorder T)" using assms(2) T(3) by simp
  from lower_bound_find [OF T(2) this] have l: "map_option loc_value (first_loc (\<lambda>e. P (snd e)) T) = find (\<lambda>e. P (snd e)) es"
    using T(3) by simp
  have "loc_ptr (first_loc (\<lambda>e. P (snd e)) T) = map_option fst (map_option loc_value (first_loc (\<lambda>e. P (snd e)) T))"
  proof (cases "first_loc (\<lambda>e. P (snd e)) T")
    case (Some loc)
    then have "loc_ok loc" using first_loc_Some(2) [OF T(2)] assms(2) T(3) by metis
    with Some show ?thesis by (cases loc rule: loc_value.cases) auto
  qed simp
  with l lower_bound_raw_refines [OF T(1,2), of "\<lambda>x _. P x"] show ?thesis by (simp add: first_loc_def)
qed

lemma lower_bound_raw_correct_witness: "lower_bound_raw sample (\<lambda>x _. 15 < x) = Some (Some 2)"
  using lower_bound_raw_correct [OF rb_holds_sample, of "\<lambda>x. 15 < x"] by (simp add: upward_def)

text \<open>
  A three-way search that is consistent with the order finds a node exactly when some node of the tree
  compares equal, and the node it returns does.
\<close>

theorem find_raw_correct:
  assumes "rb_holds f s es" "directed (\<lambda>e. ev (snd e)) es"
  shows "\<exists>p. find_raw s (\<lambda>x _. ev x) = Some p \<and> (p = None \<longleftrightarrow> (\<forall>e\<in>set es. ev (snd e) \<noteq> Equal)) \<and>
             (\<forall>q. p = Some q \<longrightarrow> (\<exists>x. (q, x) \<in> set es \<and> ev x = Equal))"
proof -
  from assms(1) obtain T where T: "zrep s [] T" "clean (aaug f) T" "inorder T = es" by (rule rb_holdsE)
  let ?l = "find_loc (\<lambda>e. ev (snd e)) T"
  have r: "find_raw s (\<lambda>x _. ev x) = Some (loc_ptr ?l)"
    using find_raw_refines [OF T(1,2), of "\<lambda>x _. ev x"] by (simp add: find_loc_def)
  have n: "?l = None \<longleftrightarrow> (\<forall>e\<in>set es. ev (snd e) \<noteq> Equal)"
    using find_loc_None [OF T(2)] assms(2) T(3) by metis
  show ?thesis
  proof (cases ?l)
    case None
    with r n show ?thesis by simp
  next
    case (Some loc)
    note sp = find_loc_Some [OF Some]
    then obtain fs c l q x a t where loc: "loc = (fs, Node c l (q, x) a t)"
      by (cases loc rule: loc_value.cases) auto
    have "(q, x) \<in> set es" using sp T(3) loc_split [of loc] loc by auto
    with r n Some sp loc show ?thesis by auto
  qed
qed

lemma find_raw_correct_witness:
  "\<exists>p. find_raw sample (\<lambda>x _. cmp_of x 30) = Some p \<and> p \<noteq> None"
  using find_raw_correct [OF rb_holds_sample, of "\<lambda>x. cmp_of x 30"]
  by (auto simp: directed_def cmp_of_def)

text \<open>
  C23.  Starting at the lowest node and following successors, the iterator lists the values of the tree in
  order and then ends.
\<close>

theorem iter_correct:
  assumes "rb_holds f s es"
  shows "\<exists>p. lowest_node_raw s = Some p \<and> iter_values (mem s) p = Some (map snd es)"
  using assms iter_refines by (metis rb_holdsE)

lemma iter_correct_witness:
  "\<exists>p. lowest_node_raw sample = Some p \<and> iter_values (mem sample) p = Some [10, 20, 30]"
  using iter_correct [OF rb_holds_sample] by simp

text \<open> The successor of a node is the next node of the sequence, and null for the last one.\<close>

theorem successor_correct:
  assumes "rb_holds f s (xs @ (q, y) # ys)"
  shows "successor (mem s) q = Some (case ys of [] \<Rightarrow> None | (p, z) # zs \<Rightarrow> Some p)"
proof -
  from assms obtain T where T: "zrep s [] T" "inorder T = xs @ (q, y) # ys" by (rule rb_holdsE)
  from rb_holds_loc [OF T] obtain fs t where
    t: "zrep s fs t" "root t = Some q" "loc_ok (fs, t)" "loc_after (fs, t) = ys" by blast
  show ?thesis
  proof (cases ys)
    case Nil
    with t tree_successor_spec(1) [OF t(3)] successor_zrep [OF t(1,2)] show ?thesis by simp
  next
    case (Cons e zs)
    obtain p z where e: "e = (p, z)" by (rule prod.exhaust)
    with Cons successor_node(1) [OF t(1,2)] t(4) show ?thesis by auto
  qed
qed

lemma successor_correct_witness: "successor (mem sample) 2 = Some (Some 3)"
  using successor_correct [of sum_augment sample "[(1, 10)]" 2 20 "[(3, 30)]"] rb_holds_sample by simp

text \<open>
   Two trees are equal for \<^verbatim>\<open>PartialEq\<close> exactly when they hold the same sequence of values, whatever
  their shapes are; the comparison always ends.
\<close>

theorem tree_eq_correct:
  assumes "rb_holds f s1 es1" "rb_holds f s2 es2"
  shows "tree_eq s1 s2 = Some (map snd es1 = map snd es2)"
proof -
  obtain T1 T2 where T: "zrep s1 [] T1" "inorder T1 = es1" "zrep s2 [] T2" "inorder T2 = es2"
    using assms by (meson rb_holdsE)
  from iter_refines [OF T(1)] iter_refines [OF T(3)] obtain p q where
    "lowest_node_raw s1 = Some p" "iter_values (mem s1) p = Some (map snd es1)"
    "lowest_node_raw s2 = Some q" "iter_values (mem s2) q = Some (map snd es2)" using T by auto
  then show ?thesis by (simp add: tree_eq_def eq_loop_iter)
qed

lemma tree_eq_correct_witness: "tree_eq sample sample = Some True"
  using tree_eq_correct [OF rb_holds_sample rb_holds_sample] by simp

text \<open>
  C24.  Merging adjacent pairs acts on the sequence of values as the left-to-right merge of a list does: a
  merged pair is replaced by its left value, as the merge function has changed it, and the merge goes on from there.  The merge
  function may change the left value in ways that the augmentation sees if it has the right one removed, and, as its contract
  demands, not otherwise; the result is a valid tree with correct augmented values.
\<close>

theorem pairwise_merge_correct:
  assumes "rb_holds f s es" "\<And>x y. \<not> snd (m x y) \<Longrightarrow> f (fst (m x y)) = f x"
  shows "\<exists>s' es'. pairwise_merge s f m = Some s' \<and> rb_holds f s' es' \<and>
           map snd es' = merge_pairs m (map snd es) \<and> fst ` set es' \<subseteq> fst ` set es \<and>
           only (fst ` set es) (mem s) (mem s')"
proof -
  from assms(1) obtain T where T: "zrep s [] T" "rb_wf (aaug f) T" "inorder T = es" by (rule rb_holdsE)
  from pairwise_merge_refines [of s T f m, OF T(1,2) assms(2)] obtain s' T' where
    "pairwise_merge s f m = Some s'" "zrep s' [] T'" "rb_wf (aaug f) T'"
    "map snd (inorder T') = merge_pairs m (map snd (inorder T))"
    "set (addrs T') \<subseteq> set (addrs T)" "only (set (addrs T)) (mem s) (mem s')" by auto
  then show ?thesis using T(3) unfolding tree_insert_addrs
    by (intro exI [of _ s'] exI [of _ "inorder T'"]) (auto simp: rb_holds_def)
qed

definition add_twenty :: "nat \<Rightarrow> nat \<Rightarrow> nat \<times> bool" where
  "add_twenty x y = (if y = 20 then (x + y, True) else (x, False))"

lemma pairwise_merge_correct_witness:
  "\<exists>s' es'. pairwise_merge sample sum_augment add_twenty = Some s' \<and>
            rb_holds sum_augment s' es' \<and> map snd es' = [30, 30]"
proof -
  have "merge_pairs add_twenty (map snd [(1 :: nat, 10 :: nat), (2, 20), (3, 30)]) = [30, 30]" by (simp add: add_twenty_def)
  moreover have "\<And>x y. \<not> snd (add_twenty x y) \<Longrightarrow> sum_augment (fst (add_twenty x y)) = sum_augment x"
    by (auto simp: add_twenty_def split: if_splits)
  ultimately show ?thesis using pairwise_merge_correct [OF rb_holds_sample, of add_twenty] by metis
qed

text \<open>
  The run-time self check accepts a tree exactly when the colour, black-height, augmentation and
  ordering invariants hold; it returns the black height plus one and the augmented value of the root.
\<close>

theorem tree_check_correct:
  assumes "zrep s [] T"
  shows "tree_check (mem s) f cmp (head s) None None None =
     (if rb_wf (aaug f) T \<and> bounded (acmp cmp) None None T then Some (bheight T + 1, tree_aug T) else None)"
  using tree_check_rep [of "mem s" None T f cmp None None] assms by (auto simp: zrep_def rb_wf_def)

lemma tree_check_correct_witness:
  "tree_check (mem sample) sum_augment cmp_of (head sample) None None None = Some (2, Some 60)"
proof -
  let ?T = "Node Black (Node Red Leaf (1, 10 :: nat) (Some 10) Leaf) (2, 20) (Some 60) (Node Red Leaf (3, 30) (Some 30) Leaf)"
  have "zrep sample [] ?T" by (simp add: zrep_def sample_def mknode_def)
  moreover have "rb_wf (aaug sum_augment) ?T" by (simp add: rb_wf_def sum_augment_def)
  moreover have "bounded (acmp cmp_of) None None ?T" by (simp add: cmp_of_def is_le_def)
  ultimately show ?thesis using tree_check_correct [of sample ?T sum_augment cmp_of] by simp
qed

end
