(* ===== verification/Intervals.thy ===== *)
theory Intervals
  imports Rb_Fold
begin

text \<open>
  Sequences of disjoint half-open intervals, kept in a red-black tree in the order of their lower ends.  The
  boot allocator, the span allocator and the banded regions all store such sequences.  The locale
  \<^verbatim>\<open>interval_store\<close> gives the effect of inserting an interval into a gap; the locale \<^verbatim>\<open>interval_update\<close>
  describes, on lists, the update of all intervals that meet a range \<^verbatim>\<open>[a, e)\<close>, which the boot allocator and
  the banded regions implement as loops over a tree, and proves what it does to every single point.
\<close>

definition disjoint :: "('a \<Rightarrow> 'k::linorder) \<Rightarrow> ('a \<Rightarrow> 'k) \<Rightarrow> 'a list \<Rightarrow> bool" where
  "disjoint lo hi xs \<longleftrightarrow> sorted_wrt (\<lambda>x y. hi x \<le> lo y) xs \<and> (\<forall>x\<in>set xs. lo x < hi x)"

definition covers :: "('a \<Rightarrow> 'k::linorder) \<Rightarrow> ('a \<Rightarrow> 'k) \<Rightarrow> 'k \<Rightarrow> 'a \<Rightarrow> bool" where
  "covers lo hi p x \<longleftrightarrow> lo x \<le> p \<and> p < hi x"

definition seg_at :: "('a \<Rightarrow> 'k::linorder) \<Rightarrow> ('a \<Rightarrow> 'k) \<Rightarrow> 'a list \<Rightarrow> 'k \<Rightarrow> 'a option" where
  "seg_at lo hi xs p = find (covers lo hi p) xs"

fun cut :: "('a \<Rightarrow> 'k::linorder) \<Rightarrow> ('a \<Rightarrow> 'k) \<Rightarrow> ('k \<Rightarrow> 'k \<Rightarrow> 'a option \<Rightarrow> 'a list) \<Rightarrow> ('k \<Rightarrow> 'k \<Rightarrow> 'a \<Rightarrow> 'a) \<Rightarrow>
    ('k \<Rightarrow> 'k \<Rightarrow> 'a list) \<Rightarrow> 'k \<Rightarrow> 'k \<Rightarrow> 'a list \<Rightarrow> 'a list" where
  "cut lo hi mid sub fin a e [] = (if a < e then fin a e else [])"
| "cut lo hi mid sub fin a e (r # rs) =
     (if e \<le> lo r then (if a < e then fin a e else []) @ r # rs
      else (if a < lo r then mid a (lo r) None else if lo r < a then [sub (lo r) a r] else []) @
           mid (max a (lo r)) (min e (hi r)) (Some r) @
           (if e < hi r then [sub e (hi r) r] else []) @
           cut lo hi mid sub fin (hi r) e rs)"

declare cut.simps(2) [simp del]

lemma cut_stop [simp]:
  "e \<le> lo r \<Longrightarrow> cut lo hi mid sub fin a e (r # rs) = (if a < e then fin a e else []) @ r # rs"
  by (simp add: cut.simps)

section \<open>Disjoint sequences\<close>

lemma disjoint_Nil [simp]: "disjoint lo hi []"
  by (simp add: disjoint_def)

lemma disjoint_Cons:
  "disjoint lo hi (x # xs) \<longleftrightarrow> lo x < hi x \<and> (\<forall>y\<in>set xs. hi x \<le> lo y) \<and> disjoint lo hi xs"
  by (auto simp: disjoint_def)

lemma disjoint_append:
  "disjoint lo hi (xs @ ys) \<longleftrightarrow> disjoint lo hi xs \<and> disjoint lo hi ys \<and> (\<forall>x\<in>set xs. \<forall>y\<in>set ys. hi x \<le> lo y)"
  by (auto simp: disjoint_def sorted_wrt_append)

lemma disjoint_glue:
  "disjoint lo hi xs \<Longrightarrow> disjoint lo hi ys \<Longrightarrow> \<forall>x\<in>set xs. hi x \<le> m \<Longrightarrow> \<forall>y\<in>set ys. m \<le> lo y \<Longrightarrow>
   disjoint lo hi (xs @ ys)"
  by (auto simp: disjoint_append intro: order_trans)

lemma disjoint_less: "disjoint lo hi xs \<Longrightarrow> x \<in> set xs \<Longrightarrow> lo x < hi x"
  by (simp add: disjoint_def)

lemma disjoint_upward_hi:
  assumes "disjoint lo hi xs"
  shows "upward (\<lambda>x. a < hi x) xs"
proof -
  have "sorted_wrt (\<lambda>x y. hi x \<le> lo y) xs" "\<forall>x\<in>set xs. lo x < hi x" using assms by (simp_all add: disjoint_def)
  then show ?thesis unfolding upward_def by (auto intro!: sorted_wrt_mono_rel [of xs "\<lambda>x y. hi x \<le> lo y"])
qed

lemma seg_at_Nil [simp]: "seg_at lo hi [] p = None"
  by (simp add: seg_at_def)

lemma seg_at_Cons: "seg_at lo hi (x # xs) p = (if lo x \<le> p \<and> p < hi x then Some x else seg_at lo hi xs p)"
  by (simp add: seg_at_def covers_def)

lemma seg_at_append:
  "seg_at lo hi (xs @ ys) p = (case seg_at lo hi xs p of None \<Rightarrow> seg_at lo hi ys p | Some x \<Rightarrow> Some x)"
  by (induction xs) (auto simp: seg_at_Cons)

lemma seg_at_None: "seg_at lo hi xs p = None \<longleftrightarrow> (\<forall>x\<in>set xs. \<not> (lo x \<le> p \<and> p < hi x))"
  by (auto simp: seg_at_def find_None_iff covers_def)

lemma seg_at_below: "\<forall>x\<in>set xs. b \<le> lo x \<Longrightarrow> p < b \<Longrightarrow> seg_at lo hi xs p = None"
  by (auto simp: seg_at_None)

lemma seg_at_above: "\<forall>x\<in>set xs. hi x \<le> b \<Longrightarrow> b \<le> p \<Longrightarrow> seg_at lo hi xs p = None"
  by (force simp: seg_at_None)

lemma disjoint_unique:
  assumes "disjoint lo hi xs" "x \<in> set xs" "y \<in> set xs" "lo x \<le> p" "p < hi x" "lo y \<le> p" "p < hi y"
  shows "x = y"
  using assms
proof (induction xs)
  case (Cons z zs)
  have "False" if "w \<in> set zs" "lo z \<le> p" "p < hi z" "lo w \<le> p" "p < hi w" for w
    using that Cons.prems(1) by (fastforce simp: disjoint_Cons)
  with Cons show ?case by (auto simp: disjoint_Cons)
qed simp

lemma seg_at_Some:
  assumes "disjoint lo hi xs"
  shows "seg_at lo hi xs p = Some x \<longleftrightarrow> x \<in> set xs \<and> lo x \<le> p \<and> p < hi x"
proof
  show sound: "x \<in> set xs \<and> lo x \<le> p \<and> p < hi x" if "seg_at lo hi xs p = Some x" for x
    using that by (auto simp: seg_at_def find_Some_iff covers_def)
  assume x: "x \<in> set xs \<and> lo x \<le> p \<and> p < hi x"
  then obtain y where y: "seg_at lo hi xs p = Some y" using seg_at_None by (metis option.exhaust)
  with sound [OF y] x assms disjoint_unique show "seg_at lo hi xs p = Some x" by metis
qed

lemma seg_at_left: "\<forall>y\<in>set ys. m \<le> lo y \<Longrightarrow> p < m \<Longrightarrow> seg_at lo hi (xs @ ys) p = seg_at lo hi xs p"
  by (auto simp: seg_at_append seg_at_below split: option.split)

lemma seg_at_right: "\<forall>x\<in>set xs. hi x \<le> m \<Longrightarrow> m \<le> p \<Longrightarrow> seg_at lo hi (xs @ ys) p = seg_at lo hi ys p"
  by (simp add: seg_at_append seg_at_above)

lemma split_first_unique:
  assumes "xs @ x # ys = us @ v # vs" "\<forall>z\<in>set xs. \<not> P z" "P x" "\<forall>z\<in>set us. \<not> P z" "P v"
  shows "xs = us \<and> x = v \<and> ys = vs"
  using assms by (auto simp: append_eq_append_conv2 append_eq_Cons_conv Cons_eq_append_conv)

lemma disjoint_split:
  assumes "disjoint lo hi xs"
  obtains pre rs where "xs = pre @ rs" "\<forall>x\<in>set pre. hi x \<le> a" "\<forall>x\<in>set rs. a < hi x"
proof -
  let ?pre = "takeWhile (\<lambda>x. hi x \<le> a) xs" and ?rs = "dropWhile (\<lambda>x. hi x \<le> a) xs"
  have d: "disjoint lo hi ?rs" using assms by (metis disjoint_append takeWhile_dropWhile_id)
  have "\<forall>x\<in>set ?rs. a < hi x"
  proof (cases ?rs)
    case (Cons r rs)
    then have "a < hi r" by (metis dropWhile_eq_Cons_conv not_le)
    moreover have "\<forall>x\<in>set rs. hi r < hi x"
      using d Cons by (auto simp: disjoint_Cons dest: disjoint_less intro: le_less_trans)
    ultimately show ?thesis using Cons by (auto intro: less_trans)
  next
    case Nil
    then show ?thesis by (metis empty_iff list.set(1))
  qed
  then show ?thesis using that [of ?pre ?rs] by (auto dest: set_takeWhileD)
qed

section \<open>Intervals in an ordered store\<close>

locale interval_store = ordered_store wf items empty ins first val del
  for wf :: "'t \<Rightarrow> bool" and items :: "'t \<Rightarrow> 'a list" and empty :: 't
    and ins :: "('a \<Rightarrow> 'a \<Rightarrow> ordering) \<Rightarrow> 'a \<Rightarrow> 't \<Rightarrow> 't" and first :: "('a \<Rightarrow> bool) \<Rightarrow> 't \<Rightarrow> 'l option"
    and val :: "'l \<Rightarrow> 'a" and del :: "'l \<Rightarrow> 't" +
  fixes lo hi :: "'a \<Rightarrow> 'k::linorder" and cmp :: "'a \<Rightarrow> 'a \<Rightarrow> ordering"
  assumes cmp_le: "is_le (cmp x y) \<longleftrightarrow> lo x \<le> lo y"
begin

lemma ins_gap:
  assumes "wf t" "items t = xs @ ys" "disjoint lo hi (xs @ x # ys)"
  shows "wf (ins cmp x t)" "items (ins cmp x t) = xs @ x # ys"
proof -
  have "\<forall>y\<in>set xs. \<not> is_le (cmp x y)" "\<forall>y\<in>set ys. is_le (cmp x y)"
    using assms(3) by (auto simp: cmp_le disjoint_append disjoint_Cons not_le dest: disjoint_less
        intro: less_le_trans order.strict_implies_order)
  from ins_between [of t xs ys cmp x, OF assms(1,2) this] show "wf (ins cmp x t)" "items (ins cmp x t) = xs @ x # ys" by auto
qed

definition add_all :: "'a list \<Rightarrow> 't \<Rightarrow> 't" where
  "add_all fr t = fold (ins cmp) fr t"

lemma add_all_gap:
  assumes "wf t" "items t = xs @ ys" "disjoint lo hi (xs @ fr @ ys)"
  shows "wf (add_all fr t) \<and> items (add_all fr t) = xs @ fr @ ys"
  using assms
proof (induction fr arbitrary: xs t)
  case Nil
  then show ?case by (simp add: add_all_def)
next
  case (Cons x fr)
  have "disjoint lo hi (xs @ x # ys)" using Cons.prems(3) by (auto simp: disjoint_append disjoint_Cons)
  note step = ins_gap [OF Cons.prems(1,2) this]
  have "items (ins cmp x t) = (xs @ [x]) @ ys" using step(2) by simp
  moreover have "disjoint lo hi ((xs @ [x]) @ fr @ ys)" using Cons.prems(3) by simp
  ultimately have "wf (add_all fr (ins cmp x t)) \<and> items (add_all fr (ins cmp x t)) = (xs @ [x]) @ fr @ ys"
    using Cons.IH step(1) by blast
  then show ?case by (simp add: add_all_def)
qed

text \<open>The search for the first interval that ends behind a point splits the sequence there.\<close>

lemma first_beyond:
  assumes "wf t" "disjoint lo hi (items t)"
  obtains "first (\<lambda>x. a < hi x) t = None" "\<forall>x\<in>set (items t). hi x \<le> a"
  | l xs ys where "first (\<lambda>x. a < hi x) t = Some l" "items t = xs @ val l # ys" "a < hi (val l)"
      "\<forall>x\<in>set xs. hi x \<le> a" "wf (del l)" "items (del l) = xs @ ys"
  by (rule first_cases [OF assms(1) disjoint_upward_hi [OF assms(2), of a]]) (auto simp: not_less)

lemma first_split:
  assumes "wf t" "items t = pre @ rs" "disjoint lo hi (pre @ rs)" "\<forall>x\<in>set pre. hi x \<le> a" "\<forall>x\<in>set rs. a < hi x"
  shows "rs = [] \<Longrightarrow> first (\<lambda>x. a < hi x) t = None"
    "rs = r # rest \<Longrightarrow> \<exists>l. first (\<lambda>x. a < hi x) t = Some l \<and> val l = r \<and> wf (del l) \<and> items (del l) = pre @ rest"
proof -
  have d: "disjoint lo hi (items t)" using assms(2,3) by simp
  show "first (\<lambda>x. a < hi x) t = None" if "rs = []"
    by (rule first_beyond [OF assms(1) d, of a]) (use that assms(2,4) in auto)
  show "\<exists>l. first (\<lambda>x. a < hi x) t = Some l \<and> val l = r \<and> wf (del l) \<and> items (del l) = pre @ rest" if rs: "rs = r # rest"
  proof (rule first_beyond [OF assms(1) d, of a])
    fix l xs ys
    assume l: "first (\<lambda>x. a < hi x) t = Some l" "items t = xs @ val l # ys" "a < hi (val l)"
      "\<forall>x\<in>set xs. hi x \<le> a" "wf (del l)" "items (del l) = xs @ ys"
    have "pre = xs \<and> r = val l \<and> rest = ys"
      using split_first_unique [of pre r rest xs "val l" ys "\<lambda>x. a < hi x"] l(2-4) assms(2,4,5) rs by (auto simp: not_less)
    with l show ?thesis by auto
  qed (use assms(2,5) rs in auto)
qed

end

section \<open>Updating a range\<close>

locale interval_update =
  fixes lo hi :: "'a \<Rightarrow> 'k::linorder"
    and mid :: "'k \<Rightarrow> 'k \<Rightarrow> 'a option \<Rightarrow> 'a list"
    and sub :: "'k \<Rightarrow> 'k \<Rightarrow> 'a \<Rightarrow> 'a"
    and fin :: "'k \<Rightarrow> 'k \<Rightarrow> 'a list"
    and ok :: "'a \<Rightarrow> bool"
    and obs :: "'a option \<Rightarrow> 'b"
    and upd :: "'b \<Rightarrow> 'b"
  assumes sub_ends: "lo (sub a b r) = a" "hi (sub a b r) = b"
    and mid_cases: "mid a b o1 = [] \<or> (\<exists>x. mid a b o1 = [x] \<and> lo x = a \<and> hi x = b)"
    and fin_cases: "fin a b = [] \<or> (\<exists>x. fin a b = [x] \<and> lo x = a \<and> hi x = b)"
    and sub_ok: "ok r \<Longrightarrow> ok (sub a b r)"
    and mid_ok: "pred_option ok o1 \<Longrightarrow> x \<in> set (mid a b o1) \<Longrightarrow> ok x"
    and fin_ok: "x \<in> set (fin a b) \<Longrightarrow> ok x"
    and obs_sub: "obs (Some (sub a b r)) = obs (Some r)"
    and obs_mid: "pred_option ok o1 \<Longrightarrow> a \<le> p \<Longrightarrow> p < b \<Longrightarrow> obs (seg_at lo hi (mid a b o1) p) = upd (obs o1)"
    and obs_fin: "a \<le> p \<Longrightarrow> p < b \<Longrightarrow> obs (seg_at lo hi (fin a b) p) = upd (obs None)"
begin

abbreviation cutting :: "'k \<Rightarrow> 'k \<Rightarrow> 'a list \<Rightarrow> 'a list" where
  "cutting \<equiv> cut lo hi mid sub fin"

lemma mid_in: "x \<in> set (mid a b o1) \<Longrightarrow> lo x = a \<and> hi x = b"
  using mid_cases [of a b o1] by auto

lemma fin_in: "x \<in> set (fin a b) \<Longrightarrow> lo x = a \<and> hi x = b"
  using fin_cases [of a b] by auto

lemma mid_disjoint: "a < b \<Longrightarrow> disjoint lo hi (mid a b o1)"
  using mid_cases [of a b o1] by (auto simp: disjoint_Cons)

lemma fin_disjoint: "a < b \<Longrightarrow> disjoint lo hi (fin a b)"
  using fin_cases [of a b] by (auto simp: disjoint_Cons)

text \<open>The updated intervals start at \<^verbatim>\<open>a\<close> or at the left end of the first old interval, whichever is less.\<close>

lemma cut_lower:
  assumes "disjoint lo hi rs" "\<forall>r\<in>set rs. b \<le> lo r" "b \<le> a" "x \<in> set (cutting a e rs)"
  shows "b \<le> lo x"
  using assms
proof (induction rs arbitrary: a b)
  case Nil
  then show ?case by (auto split: if_splits dest: fin_in)
next
  case (Cons r rs)
  have IH: "x \<in> set (cutting (hi r) e rs) \<Longrightarrow> hi r \<le> lo x"
    using Cons.IH [of "hi r" "hi r"] Cons.prems(1) by (auto simp: disjoint_Cons)
  have "lo r < hi r" "b \<le> lo r" using Cons.prems by (auto simp: disjoint_Cons)
  then show ?case using Cons.prems IH
    by (auto split: if_splits dest!: mid_in fin_in simp: sub_ends cut.simps)
qed

lemma cut_parts:
  assumes "disjoint lo hi (r # rs)" "\<forall>x\<in>set (r # rs). a < hi x" "a < e \<or> (\<forall>x\<in>set (r # rs). e \<le> lo x)" "lo r < e"
  shows "lo r < hi r" "a < hi r" "a < e" "disjoint lo hi rs" "\<forall>x\<in>set rs. hi r \<le> lo x"
    "\<forall>x\<in>set rs. hi r < hi x" "hi r < e \<or> (\<forall>x\<in>set rs. e \<le> lo x)" "max a (lo r) < min e (hi r)"
proof -
  show r: "lo r < hi r" "a < hi r" "a < e" "disjoint lo hi rs" "\<forall>x\<in>set rs. hi r \<le> lo x"
    using assms by (auto simp: disjoint_Cons)
  then show "\<forall>x\<in>set rs. hi r < hi x" using disjoint_less by (metis order_le_less_trans)
  show "hi r < e \<or> (\<forall>x\<in>set rs. e \<le> lo x)" using r(5) by (meson not_less order_trans)
  show "max a (lo r) < min e (hi r)" using r assms(4) by simp
qed

text \<open>The pieces that replace one interval, and the boundaries between them.\<close>

definition left_piece :: "'k \<Rightarrow> 'a \<Rightarrow> 'a list" where
  "left_piece a r = (if a < lo r then mid a (lo r) None else if lo r < a then [sub (lo r) a r] else [])"

definition right_piece :: "'k \<Rightarrow> 'a \<Rightarrow> 'a list" where
  "right_piece e r = (if e < hi r then [sub e (hi r) r] else [])"

lemma cut_step:
  "\<not> e \<le> lo r \<Longrightarrow> cutting a e (r # rs) =
     left_piece a r @ mid (max a (lo r)) (min e (hi r)) (Some r) @ right_piece e r @ cutting (hi r) e rs"
  by (simp add: left_piece_def right_piece_def cut.simps)

lemma pieces:
  assumes "disjoint lo hi (r # rs)" "\<forall>x\<in>set (r # rs). a < hi x" "a < e \<or> (\<forall>x\<in>set (r # rs). e \<le> lo x)" "lo r < e"
  shows "\<forall>x\<in>set (left_piece a r). hi x \<le> max a (lo r)" "disjoint lo hi (left_piece a r)"
    "\<forall>x\<in>set (mid (max a (lo r)) (min e (hi r)) (Some r)). hi x \<le> min e (hi r)"
    "disjoint lo hi (mid (max a (lo r)) (min e (hi r)) (Some r))"
    "\<forall>x\<in>set (right_piece e r). hi x \<le> hi r" "disjoint lo hi (right_piece e r)"
    "\<forall>x\<in>set (cutting (hi r) e rs). hi r \<le> lo x"
    "\<forall>x\<in>set (right_piece e r @ cutting (hi r) e rs). min e (hi r) \<le> lo x"
    "\<forall>x\<in>set (mid (max a (lo r)) (min e (hi r)) (Some r) @ right_piece e r @ cutting (hi r) e rs). max a (lo r) \<le> lo x"
proof -
  note r = cut_parts [OF assms]
  show rest: "\<forall>x\<in>set (cutting (hi r) e rs). hi r \<le> lo x"
    using cut_lower [OF r(4,5) order_refl] by blast
  show "\<forall>x\<in>set (left_piece a r). hi x \<le> max a (lo r)" "disjoint lo hi (left_piece a r)"
    "\<forall>x\<in>set (right_piece e r). hi x \<le> hi r" "disjoint lo hi (right_piece e r)"
    by (auto simp: left_piece_def right_piece_def sub_ends disjoint_Cons le_max_iff_disj dest!: mid_in intro: mid_disjoint)
  show "\<forall>x\<in>set (mid (max a (lo r)) (min e (hi r)) (Some r)). hi x \<le> min e (hi r)"
    by (auto dest!: mid_in)
  show "disjoint lo hi (mid (max a (lo r)) (min e (hi r)) (Some r))" using r(8) by (rule mid_disjoint)
  show rr: "\<forall>x\<in>set (right_piece e r @ cutting (hi r) e rs). min e (hi r) \<le> lo x"
    using rest by (auto simp: right_piece_def sub_ends min_le_iff_disj)
  show "\<forall>x\<in>set (mid (max a (lo r)) (min e (hi r)) (Some r) @ right_piece e r @ cutting (hi r) e rs). max a (lo r) \<le> lo x"
  proof
    fix x assume "x \<in> set (mid (max a (lo r)) (min e (hi r)) (Some r) @ right_piece e r @ cutting (hi r) e rs)"
    then consider "x \<in> set (mid (max a (lo r)) (min e (hi r)) (Some r))" | "x \<in> set (right_piece e r @ cutting (hi r) e rs)"
      by auto
    then show "max a (lo r) \<le> lo x"
    proof cases
      case 1
      then show ?thesis using mid_in by simp
    next
      case 2
      then have "min e (hi r) \<le> lo x" using rr by blast
      with r(8) show ?thesis by (meson less_imp_le order_trans)
    qed
  qed
qed

lemma cut_disjoint:
  assumes "disjoint lo hi rs" "\<forall>r\<in>set rs. a < hi r" "a < e \<or> (\<forall>r\<in>set rs. e \<le> lo r)"
  shows "disjoint lo hi (cutting a e rs)"
  using assms
proof (induction rs arbitrary: a)
  case Nil
  then show ?case by (simp add: fin_disjoint)
next
  case (Cons r rs)
  show ?case
  proof (cases "e \<le> lo r")
    case True
    have "disjoint lo hi ((if a < e then fin a e else []) @ r # rs)"
      by (rule disjoint_glue [where m = e])
        (use True Cons.prems in \<open>auto simp: fin_disjoint disjoint_Cons dest!: fin_in intro: order_trans less_imp_le\<close>)
    with True show ?thesis by simp
  next
    case False
    then have "lo r < e" by simp
    note r = cut_parts [OF Cons.prems this]
    note pc = pieces [OF Cons.prems \<open>lo r < e\<close>]
    have "disjoint lo hi (cutting (hi r) e rs)" using Cons.IH r(4,6,7) by blast
    then have "disjoint lo hi (right_piece e r @ cutting (hi r) e rs)"
      by (rule disjoint_glue [OF pc(6) _ pc(5,7)])
    then have "disjoint lo hi (mid (max a (lo r)) (min e (hi r)) (Some r) @ right_piece e r @ cutting (hi r) e rs)"
      by (rule disjoint_glue [OF pc(4) _ pc(3,8)])
    then show ?thesis unfolding cut_step [OF False] by (rule disjoint_glue [OF pc(2) _ pc(1,9)])
  qed
qed

text \<open>
  One iteration of an update loop replaces the first interval by its pieces; the intervals in front of it
  stay as they are.
\<close>

definition pieces_of :: "'k \<Rightarrow> 'k \<Rightarrow> 'a \<Rightarrow> 'a list" where
  "pieces_of a e r = left_piece a r @ mid (max a (lo r)) (min e (hi r)) (Some r) @ right_piece e r"

lemma cut_pieces: "\<not> e \<le> lo r \<Longrightarrow> cutting a e (r # rs) = pieces_of a e r @ cutting (hi r) e rs"
  unfolding cut_step pieces_of_def by simp

lemma prefix_cut:
  assumes "disjoint lo hi (pre @ rs)" "\<forall>x\<in>set pre. hi x \<le> a" "\<forall>r\<in>set rs. a < hi r" "a < e \<or> (\<forall>r\<in>set rs. e \<le> lo r)"
  shows "disjoint lo hi (pre @ cutting a e rs)"
proof -
  have d: "disjoint lo hi pre" "disjoint lo hi rs" using assms(1) by (simp_all add: disjoint_append)
  have "hi x \<le> lo y" if "x \<in> set pre" "y \<in> set (cutting a e rs)" for x y
    using cut_lower [OF d(2) _ _ that(2), of "hi x"] assms(1,2) that(1) by (auto simp: disjoint_append)
  with d cut_disjoint [OF d(2) assms(3,4)] show ?thesis by (auto simp: disjoint_append)
qed

lemma prefix_pieces:
  assumes "disjoint lo hi (pre @ r # rs)" "\<forall>x\<in>set pre. hi x \<le> a" "\<forall>x\<in>set (r # rs). a < hi x"
    and "a < e \<or> (\<forall>x\<in>set (r # rs). e \<le> lo x)" "lo r < e"
  shows "disjoint lo hi (pre @ pieces_of a e r @ rs)" "\<forall>x\<in>set (pieces_of a e r). hi x \<le> hi r"
proof -
  have d: "disjoint lo hi (r # rs)" using assms(1) by (simp add: disjoint_append)
  note parts = cut_parts [OF d assms(3-5)] and pc = pieces [OF d assms(3-5)]
  have "max a (lo r) \<le> hi r" using parts(1,2) by (simp add: less_imp_le)
  then show up: "\<forall>x\<in>set (pieces_of a e r). hi x \<le> hi r"
    using pc(1,3,5) unfolding pieces_of_def by (auto intro: order_trans)
  have "disjoint lo hi (pre @ pieces_of a e r @ cutting (hi r) e rs)"
    using prefix_cut [OF assms(1-4)] cut_pieces [of e r a rs] assms(5) by simp
  then have "disjoint lo hi (pre @ pieces_of a e r)" by (auto simp: disjoint_append)
  moreover have "disjoint lo hi rs" "\<forall>x\<in>set pre. \<forall>y\<in>set rs. hi x \<le> lo y" using assms(1)
    by (auto simp: disjoint_append disjoint_Cons)
  ultimately show "disjoint lo hi (pre @ pieces_of a e r @ rs)"
    using up parts(5) by (fastforce simp: disjoint_append)
qed

text \<open>What the update does at one point.\<close>

lemma seg_at_mid_out: "\<not> (a \<le> p \<and> p < b) \<Longrightarrow> seg_at lo hi (mid a b o1) p = None"
  by (auto simp: seg_at_None dest!: mid_in)

lemma seg_at_fin_out: "\<not> (a \<le> p \<and> p < b) \<Longrightarrow> seg_at lo hi (fin a b) p = None"
  by (auto simp: seg_at_None dest!: fin_in)

lemma cut_ok: "\<forall>r\<in>set rs. ok r \<Longrightarrow> x \<in> set (cutting a e rs) \<Longrightarrow> ok x"
proof (induction rs arbitrary: a)
  case Nil
  then show ?case by (auto simp: fin_ok split: if_splits)
next
  case (Cons r rs)
  then show ?case using mid_ok [of None x] mid_ok [of "Some r" x] fin_ok [of x]
    by (auto simp: sub_ok cut.simps split: if_splits)
qed

lemma cut_obs:
  assumes "\<forall>r\<in>set rs. ok r" "disjoint lo hi rs" "\<forall>r\<in>set rs. a < hi r" "a < e \<or> (\<forall>r\<in>set rs. e \<le> lo r)"
  shows "obs (seg_at lo hi (cutting a e rs) p) =
           (if a \<le> p \<and> p < e then upd (obs (seg_at lo hi rs p)) else obs (seg_at lo hi rs p))"
  using assms
proof (induction rs arbitrary: a)
  case Nil
  then show ?case by (auto simp: obs_fin seg_at_fin_out)
next
  case (Cons r rs)
  show ?case
  proof (cases "e \<le> lo r")
    case True
    have "\<forall>x\<in>set (r # rs). e \<le> lo x" using True Cons.prems(2) by (auto simp: disjoint_Cons intro: order_trans less_imp_le)
    then have below: "p < e \<Longrightarrow> seg_at lo hi (r # rs) p = None" by (rule seg_at_below)
    show ?thesis
    proof (cases "a \<le> p \<and> p < e")
      case in_range: True
      with True below obs_fin [of a p e] show ?thesis by (auto simp: seg_at_append split: option.split)
    next
      case False
      with True show ?thesis by (auto simp: seg_at_append seg_at_fin_out)
    qed
  next
    case False
    then have le: "lo r < e" by simp
    note r = cut_parts [OF Cons.prems(2-4) le] and pc = pieces [OF Cons.prems(2-4) le]
    consider "p < max a (lo r)" | "max a (lo r) \<le> p" "p < min e (hi r)" | "min e (hi r) \<le> p" "p < hi r" | "hi r \<le> p"
      by (meson not_less)
    then show ?thesis
    proof cases
      case 1
      then have "seg_at lo hi (cutting a e (r # rs)) p = seg_at lo hi (left_piece a r) p"
        unfolding cut_step [OF False] by (rule seg_at_left [OF pc(9)])
      moreover have "p < lo r \<Longrightarrow> seg_at lo hi (r # rs) p = None"
        using Cons.prems(2) by (intro seg_at_below [of _ "lo r"]) (auto simp: disjoint_Cons)
      moreover have "lo r \<le> p \<Longrightarrow> p < a \<Longrightarrow> seg_at lo hi (r # rs) p = Some r"
        using less_trans [OF _ r(2)] by (simp add: seg_at_Cons)
      ultimately show ?thesis using 1 r(1-3) le
        by (auto simp: left_piece_def seg_at_Cons sub_ends obs_sub obs_mid seg_at_mid_out less_max_iff_disj)
    next
      case 2
      then have "seg_at lo hi (cutting a e (r # rs)) p = seg_at lo hi (mid (max a (lo r)) (min e (hi r)) (Some r)) p"
        unfolding cut_step [OF False] using seg_at_right [OF pc(1)] seg_at_left [OF pc(8)] by simp
      with 2 Cons.prems(1) show ?thesis by (simp add: obs_mid seg_at_Cons)
    next
      case 3
      have m: "max a (lo r) \<le> p" using order_trans [OF less_imp_le [OF r(8)] 3(1)] .
      have "seg_at lo hi (cutting a e (r # rs)) p = seg_at lo hi (right_piece e r) p"
        unfolding cut_step [OF False] seg_at_right [OF pc(1) m] seg_at_right [OF pc(3) 3(1)] seg_at_left [OF pc(7) 3(2)] ..
      moreover have "e \<le> p" "p < hi r" "lo r \<le> p" "e < hi r" using 3 le by (auto simp: min_le_iff_disj)
      ultimately show ?thesis by (auto simp: right_piece_def seg_at_Cons sub_ends obs_sub min_le_iff_disj)
    next
      case 4
      have m: "min e (hi r) \<le> p" using 4 by (simp add: min_le_iff_disj)
      have n: "max a (lo r) \<le> p" using order_trans [OF less_imp_le [OF r(8)] m] .
      have "seg_at lo hi (cutting a e (r # rs)) p = seg_at lo hi (cutting (hi r) e rs) p"
        unfolding cut_step [OF False] seg_at_right [OF pc(1) n] seg_at_right [OF pc(3) m] seg_at_right [OF pc(5) 4] ..
      moreover have "seg_at lo hi (r # rs) p = seg_at lo hi rs p" using 4 by (auto simp: seg_at_Cons)
      moreover have "a \<le> p" using less_imp_le [OF less_le_trans [OF r(2) 4]] .
      ultimately show ?thesis using 4 Cons.IH [OF _ r(4,6,7)] Cons.prems(1) by simp
    qed
  qed
qed

lemma prefix_obs:
  assumes "\<forall>r\<in>set rs. ok r" "disjoint lo hi (pre @ rs)" "\<forall>x\<in>set pre. hi x \<le> a" "\<forall>r\<in>set rs. a < hi r"
    and "a < e \<or> (\<forall>r\<in>set rs. e \<le> lo r)"
  shows "obs (seg_at lo hi (pre @ cutting a e rs) p) =
           (if a \<le> p \<and> p < e then upd (obs (seg_at lo hi (pre @ rs) p)) else obs (seg_at lo hi (pre @ rs) p))"
proof -
  have "disjoint lo hi rs" using assms(2) by (simp add: disjoint_append)
  note c = cut_obs [OF assms(1) this assms(4,5), of p]
  show ?thesis
  proof (cases "a \<le> p")
    case True
    with c show ?thesis by (simp add: seg_at_right [OF assms(3)])
  next
    case False
    with c show ?thesis by (auto simp: seg_at_append split: option.split)
  qed
qed

end

section \<open>Merging touching intervals\<close>

locale interval_merge =
  fixes lo hi :: "'a \<Rightarrow> 'k::linorder"
    and m :: "'a \<Rightarrow> 'a \<Rightarrow> 'a \<times> bool"
    and obs :: "'a option \<Rightarrow> 'b"
  assumes merged: "m x y = (x', True) \<Longrightarrow>
      hi x = lo y \<and> lo x' = lo x \<and> hi x' = hi y \<and> obs (Some x) = obs (Some x') \<and> obs (Some y) = obs (Some x')"
    and kept: "m x y = (x', False) \<Longrightarrow> x' = x"
    and stable: "m x y = (x', True) \<Longrightarrow> snd (m w x') = snd (m w x)"
begin

lemma m_cases:
  obtains (merge) x' where "m x y = (x', True)" "hi x = lo y" "lo x' = lo x" "hi x' = hi y"
      "obs (Some x) = obs (Some x')" "obs (Some y) = obs (Some x')"
  | (keep) "m x y = (x, False)"
proof (cases "snd (m x y)")
  case True
  then have "m x y = (fst (m x y), True)" by (simp add: prod_eq_iff)
  with merged [OF this] show ?thesis using merge by blast
next
  case False
  then have "m x y = (fst (m x y), False)" by (simp add: prod_eq_iff)
  with kept [OF this] show ?thesis using keep by simp
qed

lemma merge_pairs_lower:
  "\<forall>x\<in>set xs. b \<le> lo x \<Longrightarrow> z \<in> set (merge_pairs m xs) \<Longrightarrow> b \<le> lo z"
proof (induction xs rule: pairs_induct)
  case (Two x y zs)
  show ?case
  proof (cases x y rule: m_cases)
    case (merge x')
    with Two.IH [of x'] Two.prems show ?thesis by auto
  next
    case keep
    with Two.IH [of y] Two.prems show ?thesis by auto
  qed
qed auto

lemma merge_pairs_all:
  assumes "\<And>x y x'. P x \<Longrightarrow> m x y = (x', True) \<Longrightarrow> P x'"
  shows "\<forall>x\<in>set xs. P x \<Longrightarrow> z \<in> set (merge_pairs m xs) \<Longrightarrow> P z"
proof (induction xs rule: pairs_induct)
  case (Two x y zs)
  show ?case
  proof (cases x y rule: m_cases)
    case (merge x')
    with Two.IH [of x'] Two.prems assms [of x y x'] show ?thesis by auto
  next
    case keep
    with Two.IH [of y] Two.prems show ?thesis by auto
  qed
qed auto

lemma merged_disjoint:
  assumes "disjoint lo hi (x # y # zs)" "hi x = lo y" "lo x' = lo x" "hi x' = hi y"
  shows "disjoint lo hi (x' # zs)"
  using assms unfolding disjoint_Cons by (auto intro: less_trans)

lemma merge_pairs_disjoint: "disjoint lo hi xs \<Longrightarrow> disjoint lo hi (merge_pairs m xs)"
proof (induction xs rule: pairs_induct)
  case (Two x y zs)
  show ?case
  proof (cases x y rule: m_cases)
    case (merge x')
    from merged_disjoint [OF Two.prems merge(2-4)] Two.IH [of x'] merge(1) show ?thesis by simp
  next
    case keep
    have "\<forall>z\<in>set (merge_pairs m (y # zs)). hi x \<le> lo z"
      using merge_pairs_lower [of "y # zs" "hi x"] Two.prems unfolding disjoint_Cons by blast
    with keep Two.IH [of y] Two.prems show ?thesis by (simp add: disjoint_Cons)
  qed
qed auto

lemma merge_pairs_obs: "disjoint lo hi xs \<Longrightarrow> obs (seg_at lo hi (merge_pairs m xs) p) = obs (seg_at lo hi xs p)"
proof (induction xs rule: pairs_induct)
  case (Two x y zs)
  have le: "lo x < hi x" "lo y < hi y" "disjoint lo hi (y # zs)" using Two.prems unfolding disjoint_Cons by blast+
  show ?case
  proof (cases x y rule: m_cases)
    case (merge x')
    have "obs (seg_at lo hi (x' # zs) p) = obs (seg_at lo hi (x # y # zs) p)"
    proof (cases "p < lo y")
      case True
      with le(2) have "p < hi y" "\<not> lo y \<le> p" by auto
      with True merge show ?thesis by (simp add: seg_at_Cons)
    next
      case False
      with le(1) merge(2) have "lo x \<le> p" "\<not> p < hi x" "lo y \<le> p" by (auto simp: not_less intro: order_trans less_imp_le)
      with merge(3-6) show ?thesis by (simp add: seg_at_Cons)
    qed
    with Two.IH [OF merged_disjoint [OF Two.prems merge(2-4)]] merge(1) show ?thesis by simp
  next
    case keep
    with Two.IH [OF le(3)] show ?thesis by (simp add: seg_at_Cons)
  qed
qed auto

lemma merge_pairs_head:
  "merge_pairs m (x # xs) = z # zs \<Longrightarrow> snd (m w z) = snd (m w x)"
proof (induction xs arbitrary: x)
  case (Cons y ys)
  show ?case
  proof (cases x y rule: m_cases)
    case (merge x')
    with Cons.prems have "merge_pairs m (x' # ys) = z # zs" by simp
    with Cons.IH stable [OF merge(1)] show ?thesis by simp
  next
    case keep
    with Cons.prems show ?thesis by simp
  qed
qed simp

text \<open>Nothing is left to merge.\<close>

lemma merge_pairs_complete: "successively (\<lambda>x y. \<not> snd (m x y)) (merge_pairs m xs)"
proof (induction xs rule: pairs_induct)
  case (Two x y zs)
  show ?case
  proof (cases x y rule: m_cases)
    case (merge x')
    with Two.IH [of x'] show ?thesis by simp
  next
    case keep
    have "\<not> snd (m x z)" if "merge_pairs m (y # zs) = z # us" for z us
      using merge_pairs_head [OF that] keep by simp
    then show ?thesis using Two.IH [of y] keep by (auto simp: successively_Cons neq_Nil_conv)
  qed
qed auto

end

end
