(* ===== verification/Geometry.thy ===== *)
theory Geometry
  imports Prelude "HOL-Library.Monad_Syntax"
begin

text \<open>
  Points, colours and half-open rectangles (\<^verbatim>\<open>draw/geometry.rs\<close>).  Coordinates are 32-bit signed integers,
  modelled as integers: comparisons and copies are exact, and an addition or subtraction that leaves the
  range is \<^term>\<open>None\<close>, the panic of the overflow check.
\<close>

definition i32_min :: int where "i32_min = - (2 ^ 31)"
definition i32_max :: int where "i32_max = 2 ^ 31 - 1"

definition i32 :: "int \<Rightarrow> int option" where
  "i32 n = (if i32_min \<le> n \<and> n \<le> i32_max then Some n else None)"

record rgba =
  red :: nat
  green :: nat
  blue :: nat
  alpha :: nat

definition BLACK :: rgba where "BLACK = \<lparr>red = 0, green = 0, blue = 0, alpha = 255\<rparr>"
definition WHITE :: rgba where "WHITE = \<lparr>red = 255, green = 255, blue = 255, alpha = 255\<rparr>"
definition RED :: rgba where "RED = \<lparr>red = 255, green = 0, blue = 0, alpha = 255\<rparr>"
definition GREEN :: rgba where "GREEN = \<lparr>red = 0, green = 255, blue = 0, alpha = 255\<rparr>"
definition BLUE :: rgba where "BLUE = \<lparr>red = 0, green = 0, blue = 255, alpha = 255\<rparr>"

record point =
  px :: int
  py :: int

record rect =
  rtl :: point
  rbr :: point

definition point_new :: "int \<Rightarrow> int \<Rightarrow> point" where
  "point_new x y = \<lparr>px = x, py = y\<rparr>"

definition point_add :: "point \<Rightarrow> point \<Rightarrow> point option" where
  "point_add p q = do { x \<leftarrow> i32 (px p + px q); y \<leftarrow> i32 (py p + py q); Some (point_new x y) }"

definition point_sub :: "point \<Rightarrow> point \<Rightarrow> point option" where
  "point_sub p q = do { x \<leftarrow> i32 (px p - px q); y \<leftarrow> i32 (py p - py q); Some (point_new x y) }"

definition point_add_assign :: "point \<Rightarrow> point \<Rightarrow> point option" where
  "point_add_assign p rhs = do { x \<leftarrow> i32 (px p + px rhs); let p = p\<lparr>px := x\<rparr>; y \<leftarrow> i32 (py p + py rhs); Some (p\<lparr>py := y\<rparr>) }"

definition point_sub_assign :: "point \<Rightarrow> point \<Rightarrow> point option" where
  "point_sub_assign p rhs = do { x \<leftarrow> i32 (px p - px rhs); let p = p\<lparr>px := x\<rparr>; y \<leftarrow> i32 (py p - py rhs); Some (p\<lparr>py := y\<rparr>) }"

definition rect_new :: "int \<Rightarrow> int \<Rightarrow> int \<Rightarrow> int \<Rightarrow> rect" where
  "rect_new x0 y0 x1 y1 = \<lparr>rtl = point_new x0 y0, rbr = point_new x1 y1\<rparr>"

definition EMPTY :: rect where
  "EMPTY = rect_new 0 0 0 0"

definition rect_width :: "rect \<Rightarrow> int option" where
  "rect_width r = i32 (px (rbr r) - px (rtl r))"

definition rect_height :: "rect \<Rightarrow> int option" where
  "rect_height r = i32 (py (rbr r) - py (rtl r))"

definition rect_size :: "rect \<Rightarrow> point option" where
  "rect_size r = do { w \<leftarrow> rect_width r; h \<leftarrow> rect_height r; Some (point_new w h) }"

definition contains_point :: "rect \<Rightarrow> point \<Rightarrow> bool" where
  "contains_point r p \<longleftrightarrow> px (rtl r) \<le> px p \<and> px p < px (rbr r) \<and> py (rtl r) \<le> py p \<and> py p < py (rbr r)"

definition rect_is_empty :: "rect \<Rightarrow> bool" where
  "rect_is_empty r \<longleftrightarrow> px (rbr r) \<le> px (rtl r) \<or> py (rbr r) \<le> py (rtl r)"

definition rect_intersect :: "rect \<Rightarrow> rect \<Rightarrow> rect option" where
  "rect_intersect r boundary =
     (let tl_x = max (px (rtl r)) (px (rtl boundary));
          tl_y = max (py (rtl r)) (py (rtl boundary));
          br_x = min (px (rbr r)) (px (rbr boundary));
          br_y = min (py (rbr r)) (py (rbr boundary))
      in if tl_x < br_x \<and> tl_y < br_y then Some (rect_new tl_x tl_y br_x br_y) else None)"

definition rect_merge :: "rect \<Rightarrow> rect \<Rightarrow> rect" where
  "rect_merge r other =
     (if rect_is_empty r then other
      else if rect_is_empty other then r
      else rect_new (min (px (rtl r)) (px (rtl other))) (min (py (rtl r)) (py (rtl other)))
                    (max (px (rbr r)) (px (rbr other))) (max (py (rbr r)) (py (rbr other))))"

lemma point_new_sel [simp]: "px (point_new x y) = x" "py (point_new x y) = y"
  by (simp_all add: point_new_def)

lemma rect_new_sel [simp]: "rtl (rect_new x0 y0 x1 y1) = point_new x0 y0" "rbr (rect_new x0 y0 x1 y1) = point_new x1 y1"
  by (simp_all add: rect_new_def)

lemma empty_iff_no_point: "rect_is_empty r \<longleftrightarrow> (\<forall>p. \<not> contains_point r p)"
proof
  assume "\<forall>p. \<not> contains_point r p"
  then have "\<not> contains_point r (rtl r)" by blast
  then show "rect_is_empty r" by (auto simp: contains_point_def rect_is_empty_def)
qed (auto simp: contains_point_def rect_is_empty_def)

lemma contains_width: "contains_point r p \<Longrightarrow> px (rbr r) \<noteq> px (rtl r) \<and> py (rbr r) \<noteq> py (rtl r)"
  by (auto simp: contains_point_def)

text \<open>
  The intersection of two rectangles holds exactly the points that both hold; it is absent exactly
  when they share none, and it is never empty.
\<close>

theorem intersect_exact:
  "case rect_intersect r s of
     None \<Rightarrow> (\<forall>p. \<not> (contains_point r p \<and> contains_point s p))
   | Some t \<Rightarrow> \<not> rect_is_empty t \<and> (\<forall>p. contains_point t p = (contains_point r p \<and> contains_point s p))"
  by (auto simp: rect_intersect_def Let_def contains_point_def rect_is_empty_def)

text \<open>
   The merge of two rectangles is the least rectangle around both: it holds every point of either, and
  every rectangle that holds all of them holds all of it.
\<close>

theorem merge_least:
  "(contains_point r p \<or> contains_point s p \<longrightarrow> contains_point (rect_merge r s) p) \<and>
   ((\<forall>q. contains_point r q \<or> contains_point s q \<longrightarrow> contains_point t q) \<longrightarrow>
      (contains_point (rect_merge r s) p \<longrightarrow> contains_point t p))"
proof -
  have corner: "px (rtl t) \<le> px (rtl u) \<and> py (rtl t) \<le> py (rtl u) \<and> px (rbr u) \<le> px (rbr t) \<and> py (rbr u) \<le> py (rbr t)"
    if "\<not> rect_is_empty u" "\<forall>q. contains_point u q \<longrightarrow> contains_point t q" for u
  proof -
    have "contains_point u (rtl u)" "contains_point u (point_new (px (rbr u) - 1) (py (rbr u) - 1))"
      using that(1) by (auto simp: contains_point_def rect_is_empty_def)
    then have "contains_point t (rtl u)" "contains_point t (point_new (px (rbr u) - 1) (py (rbr u) - 1))"
      using that(2) by blast+
    then show ?thesis by (auto simp: contains_point_def)
  qed
  have "contains_point t p"
    if t: "\<forall>q. contains_point r q \<or> contains_point s q \<longrightarrow> contains_point t q" and p: "contains_point (rect_merge r s) p"
  proof (cases "rect_is_empty r \<or> rect_is_empty s")
    case True
    with t p show ?thesis by (auto simp: rect_merge_def split: if_splits)
  next
    case False
    with corner [of r] corner [of s] t p show ?thesis
      by (simp add: rect_merge_def) (auto simp: contains_point_def)
  qed
  moreover have "contains_point r p \<or> contains_point s p \<Longrightarrow> contains_point (rect_merge r s) p"
    using empty_iff_no_point [of r] empty_iff_no_point [of s] by (auto simp: rect_merge_def) (auto simp: contains_point_def)
  ultimately show ?thesis by blast
qed

lemma merge_least_witness:
  "contains_point (rect_merge (rect_new 0 0 2 2) (rect_new 4 4 6 6)) (point_new 3 3) \<and>
   contains_point (rect_new 0 0 9 9) (point_new 3 3)"
  using merge_least [of "rect_new 0 0 2 2" "point_new 3 3" "rect_new 4 4 6 6" "rect_new 0 0 9 9"]
  by (simp add: contains_point_def rect_merge_def rect_is_empty_def)

end
