(* ===== verification/Banded_Region.thy ===== *)
theory Banded_Region
  imports Intervals Rb_Fold Geometry
begin

text \<open>
  Banded regions (\<^verbatim>\<open>draw/banded_region.rs\<close>): a partial map from pixels to values, stored as disjoint
  horizontal bands that each hold disjoint horizontal regions, both in red-black trees.  The loops that may
  not end on an invalid structure are partial functions; the theorems show that they return.
\<close>

section \<open>Data\<close>

record 'v region =
  x_start :: int
  x_end :: int
  reg_value :: 'v

record 'v band =
  y_start :: int
  y_end :: int
  regions :: "('v region, no_augment) rbtree"

record 'v banded =
  bands :: "('v band, no_augment) rbtree"

definition banded_new :: "'v banded" where
  "banded_new = \<lparr>bands = Leaf\<rparr>"

definition region_new :: "int \<Rightarrow> int \<Rightarrow> 'v \<Rightarrow> 'v region" where
  "region_new xs xe v = \<lparr>x_start = xs, x_end = xe, reg_value = v\<rparr>"

definition region_cmp :: "'v region \<Rightarrow> 'v region \<Rightarrow> ordering" where
  "region_cmp a b = cmp_of (x_start a) (x_start b)"

definition band_cmp :: "'v band \<Rightarrow> 'v band \<Rightarrow> ordering" where
  "band_cmp a b = cmp_of (y_start a) (y_start b)"

definition band_new :: "int \<Rightarrow> int \<Rightarrow> 'v band" where
  "band_new ys ye = \<lparr>y_start = ys, y_end = ye, regions = Leaf\<rparr>"

section \<open>Updating\<close>

definition put_region :: "('v region, no_augment) rbtree \<Rightarrow> int \<Rightarrow> int \<Rightarrow> 'v option \<Rightarrow> ('v region, no_augment) rbtree" where
  "put_region t xs xe value =
     (case value of
        None \<Rightarrow> t
      | Some v \<Rightarrow> tree_insert unit_augment region_cmp (region_new xs xe v) t)"

partial_function (option) band_update_loop ::
  "('v option \<Rightarrow> 'v option) \<Rightarrow> int \<Rightarrow> ('v region, no_augment) rbtree \<Rightarrow> int \<Rightarrow> (('v region, no_augment) rbtree \<times> int) option" where
  "band_update_loop upd xe t xs =
     (case first_loc (\<lambda>region. xs < x_end region) t of
        None \<Rightarrow> Some (t, xs)
      | Some node \<Rightarrow>
          (if xe \<le> x_start (loc_value node) then Some (t, xs)
           else
             (let region = loc_value node;
                  t = tree_remove unit_augment node;
                  (t, xs) =
                    (if xs < x_start region then (put_region t xs (x_start region) (upd None), x_start region)
                     else if xs > x_start region
                     then (tree_insert unit_augment region_cmp (region_new (x_start region) xs (reg_value region)) t, xs)
                     else (t, xs));
                  t = put_region t xs (min xe (x_end region)) (upd (Some (reg_value region)));
                  t = (if xe < x_end region
                       then tree_insert unit_augment region_cmp (region_new xe (x_end region) (reg_value region)) t
                       else t)
              in band_update_loop upd xe t (x_end region))))"

definition band_update :: "'v band \<Rightarrow> int \<Rightarrow> int \<Rightarrow> ('v option \<Rightarrow> 'v option) \<Rightarrow> 'v band option" where
  "band_update b xs xe upd = do {
     (t, xs) \<leftarrow> band_update_loop upd xe (regions b) xs;
     Some (b\<lparr>regions := (if xs < xe then put_region t xs xe (upd None) else t)\<rparr>) }"

definition put_band :: "('v band, no_augment) rbtree \<Rightarrow> 'v band \<Rightarrow> ('v band, no_augment) rbtree" where
  "put_band t b = (if regions b = Leaf then t else tree_insert unit_augment band_cmp b t)"

partial_function (option) banded_update_loop ::
  "rect \<Rightarrow> ('v option \<Rightarrow> 'v option) \<Rightarrow> ('v band, no_augment) rbtree \<Rightarrow> int \<Rightarrow> (('v band, no_augment) rbtree \<times> int) option" where
  "banded_update_loop rect upd t ys =
     (case first_loc (\<lambda>band. ys < y_end band) t of
        None \<Rightarrow> Some (t, ys)
      | Some node \<Rightarrow>
          (if py (rbr rect) \<le> y_start (loc_value node) then Some (t, ys)
           else do {
             let band = loc_value node;
             let t = tree_remove unit_augment node;
             (t, ys) \<leftarrow>
               (if ys < y_start band then do {
                  new_band \<leftarrow> band_update (band_new ys (y_start band)) (px (rtl rect)) (px (rbr rect)) upd;
                  Some (put_band t new_band, y_start band) }
                else if ys > y_start band
                then Some (tree_insert unit_augment band_cmp (band\<lparr>y_end := ys\<rparr>) t, ys)
                else Some (t, ys));
             new_band \<leftarrow> band_update (band\<lparr>y_start := ys, y_end := min (py (rbr rect)) (y_end band)\<rparr>)
                          (px (rtl rect)) (px (rbr rect)) upd;
             let t = put_band t new_band;
             let t = (if py (rbr rect) < y_end band
                      then tree_insert unit_augment band_cmp (band\<lparr>y_start := py (rbr rect)\<rparr>) t
                      else t);
             banded_update_loop rect upd t (y_end band) }))"

definition banded_update :: "'v banded \<Rightarrow> rect \<Rightarrow> ('v option \<Rightarrow> 'v option) \<Rightarrow> 'v banded option" where
  "banded_update s rect upd = do {
     (t, ys) \<leftarrow> banded_update_loop rect upd (bands s) (py (rtl rect));
     if ys < py (rbr rect) then do {
       new_band \<leftarrow> band_update (band_new ys (py (rbr rect))) (px (rtl rect)) (px (rbr rect)) upd;
       Some (s\<lparr>bands := tree_insert unit_augment band_cmp new_band t\<rparr>) }
     else Some (s\<lparr>bands := t\<rparr>) }"

definition banded_insert :: "'v banded \<Rightarrow> rect \<Rightarrow> 'v \<Rightarrow> 'v banded option" where
  "banded_insert s rect v = banded_update s rect (\<lambda>_. Some v)"

definition banded_remove :: "'v banded \<Rightarrow> rect \<Rightarrow> 'v banded option" where
  "banded_remove s rect = banded_update s rect (\<lambda>_. None)"

section \<open>Coalescing and updating values\<close>

definition merge_regions :: "'v region \<Rightarrow> 'v region \<Rightarrow> 'v region \<times> bool" where
  "merge_regions left right =
     (if x_end left = x_start right \<and> reg_value left = reg_value right
      then (left\<lparr>x_end := x_end right\<rparr>, True) else (left, False))"

definition band_coalesce :: "'v band \<Rightarrow> 'v band" where
  "band_coalesce b = b\<lparr>regions := tree_pairwise_merge unit_augment merge_regions (regions b)\<rparr>"

definition merge_bands :: "'v band \<Rightarrow> 'v band \<Rightarrow> 'v band \<times> bool" where
  "merge_bands left right =
     (if y_end left = y_start right \<and> inorder (regions left) = inorder (regions right)
      then (left\<lparr>y_end := y_end right\<rparr>, True) else (left, False))"

definition banded_coalesce :: "'v banded \<Rightarrow> 'v banded" where
  "banded_coalesce s =
     s\<lparr>bands := tree_pairwise_merge unit_augment merge_bands (tree_update_values band_coalesce (bands s))\<rparr>"

definition banded_update_values :: "'v banded \<Rightarrow> (rect \<Rightarrow> 'v \<Rightarrow> 'v) \<Rightarrow> 'v banded" where
  "banded_update_values s upd =
     s\<lparr>bands := tree_update_values
         (\<lambda>band. band\<lparr>regions := tree_update_values
            (\<lambda>region. region\<lparr>reg_value :=
               upd (rect_new (x_start region) (y_start band) (x_end region) (y_end band)) (reg_value region)\<rparr>)
            (regions band)\<rparr>)
         (bands s)\<rparr>"

declare band_update_loop.simps [code] banded_update_loop.simps [code]

section \<open>Meaning\<close>

definition row_at :: "('v region, no_augment) rbtree \<Rightarrow> int \<Rightarrow> 'v option" where
  "row_at t x = map_option reg_value (seg_at x_start x_end (inorder t) x)"

definition pixel_at :: "'v banded \<Rightarrow> int \<Rightarrow> int \<Rightarrow> 'v option" where
  "pixel_at s x y =
     (case seg_at y_start y_end (inorder (bands s)) y of None \<Rightarrow> None | Some b \<Rightarrow> row_at (regions b) x)"

definition row_ok :: "('v region, no_augment) rbtree \<Rightarrow> bool" where
  "row_ok t \<longleftrightarrow> rb_wf unit_augment t \<and> disjoint x_start x_end (inorder t)"

definition banded_ok :: "'v banded \<Rightarrow> bool" where
  "banded_ok s \<longleftrightarrow> rb_wf unit_augment (bands s) \<and> disjoint y_start y_end (inorder (bands s)) \<and>
                 (\<forall>b\<in>set (inorder (bands s)). row_ok (regions b))"

lemma region_new_sel [simp]:
  "x_start (region_new a b v) = a" "x_end (region_new a b v) = b" "reg_value (region_new a b v) = v"
  by (simp_all add: region_new_def)

lemma band_new_sel [simp]:
  "y_start (band_new a b) = a" "y_end (band_new a b) = b" "regions (band_new a b) = Leaf"
  by (simp_all add: band_new_def)

section \<open>One band\<close>

definition region_mid :: "('v option \<Rightarrow> 'v option) \<Rightarrow> int \<Rightarrow> int \<Rightarrow> 'v region option \<Rightarrow> 'v region list" where
  "region_mid upd a b old = (case upd (map_option reg_value old) of None \<Rightarrow> [] | Some v \<Rightarrow> [region_new a b v])"

definition region_sub :: "int \<Rightarrow> int \<Rightarrow> 'v region \<Rightarrow> 'v region" where
  "region_sub a b r = region_new a b (reg_value r)"

interpretation row: interval_store "rb_wf unit_augment" inorder Leaf "tree_insert unit_augment" first_loc
    loc_value "tree_remove unit_augment" x_start x_end region_cmp
  by unfold_locales (simp add: region_cmp_def)

interpretation rcut: interval_update x_start x_end "region_mid upd" region_sub "\<lambda>a b. region_mid upd a b None"
    "\<lambda>_. True" "map_option reg_value" upd
  for upd :: "'v option \<Rightarrow> 'v option"
  by unfold_locales (auto simp: region_mid_def region_sub_def seg_at_Cons split: option.splits)

lemma put_region_add:
  "put_region t a b (upd (map_option reg_value old)) = row.add_all (region_mid upd a b old) t"
  by (auto simp: put_region_def region_mid_def row.add_all_def split: option.splits)

lemma band_update_step:
  assumes "first_loc (\<lambda>r. xs < x_end r) t = Some node" "x_start (loc_value node) < xe"
  shows "band_update_loop upd xe t xs =
    band_update_loop upd xe (row.add_all (rcut.pieces_of upd xs xe (loc_value node)) (tree_remove unit_augment node))
      (x_end (loc_value node))"
proof -
  let ?r = "loc_value node"
  have "rcut.pieces_of upd xs xe ?r =
      (if xs < x_start ?r then region_mid upd xs (x_start ?r) None
       else if x_start ?r < xs then [region_sub (x_start ?r) xs ?r] else []) @
      region_mid upd (max xs (x_start ?r)) (min xe (x_end ?r)) (Some ?r) @
      (if xe < x_end ?r then [region_sub xe (x_end ?r) ?r] else [])"
    by (simp add: rcut.pieces_of_def rcut.left_piece_def rcut.right_piece_def)
  then show ?thesis
    using assms put_region_add [where upd = upd and old = None] put_region_add [where upd = upd and old = "Some ?r"]
    by (subst band_update_loop.simps) (auto simp: row.add_all_def region_sub_def Let_def max_def)
qed

lemma band_update_loop_spec:
  assumes "rb_wf unit_augment t" "inorder t = pre @ rs" "disjoint x_start x_end (pre @ rs)"
    and "\<forall>r\<in>set pre. x_end r \<le> xs" "\<forall>r\<in>set rs. xs < x_end r" "xs < xe \<or> (\<forall>r\<in>set rs. xe \<le> x_start r)"
  shows "\<exists>t' xs'. band_update_loop upd xe t xs = Some (t', xs') \<and>
           row_ok (if xs' < xe then put_region t' xs' xe (upd None) else t') \<and>
           inorder (if xs' < xe then put_region t' xs' xe (upd None) else t') = pre @ rcut.cutting upd xs xe rs"
  using assms
proof (induction rs arbitrary: pre t xs)
  case Nil
  have "first_loc (\<lambda>r. xs < x_end r) t = None"
    using row.first_split(1) [OF Nil.prems(1-5)] by simp
  then have eq: "band_update_loop upd xe t xs = Some (t, xs)" by (subst band_update_loop.simps) simp
  have "\<forall>x\<in>set pre. \<forall>y\<in>set (region_mid upd xs xe None). x_end x \<le> x_start y"
    using Nil.prems(4) rcut.mid_in by fastforce
  then have "disjoint x_start x_end (pre @ rcut.cutting upd xs xe [])"
    using Nil.prems(3) rcut.cut_disjoint [of "[]" xs xe upd] by (auto simp: disjoint_append)
  with row.add_all_gap [OF Nil.prems(1), of pre "[]" "region_mid upd xs xe None"] Nil.prems(1-3) show ?case
    unfolding eq using put_region_add [of t xs xe upd None] by (auto simp: row_ok_def)
next
  case (Cons r rs)
  from row.first_split(2) [OF Cons.prems(1-5) refl] obtain node where
    node: "first_loc (\<lambda>r. xs < x_end r) t = Some node" "loc_value node = r"
      "rb_wf unit_augment (tree_remove unit_augment node)" "inorder (tree_remove unit_augment node) = pre @ rs"
    by blast
  show ?case
  proof (cases "xe \<le> x_start r")
    case True
    have eq: "band_update_loop upd xe t xs = Some (t, xs)"
      using node True by (subst band_update_loop.simps) simp
    have d: "disjoint x_start x_end (pre @ rcut.cutting upd xs xe (r # rs))"
      using rcut.prefix_cut [OF Cons.prems(3-6)] .
    show ?thesis unfolding eq
      using row.add_all_gap [OF Cons.prems(1,2), of "region_mid upd xs xe None"] Cons.prems(1-3) d True
        put_region_add [of t xs xe upd None] by (auto simp: row_ok_def)
  next
    case False
    then have le: "x_start r < xe" by simp
    note pp = rcut.prefix_pieces [OF Cons.prems(3-6) le]
    let ?t = "row.add_all (rcut.pieces_of upd xs xe r) (tree_remove unit_augment node)"
    have t: "rb_wf unit_augment ?t" "inorder ?t = (pre @ rcut.pieces_of upd xs xe r) @ rs"
      using row.add_all_gap [OF node(3,4) pp(1)] by auto
    have d: "disjoint x_start x_end (r # rs)" using Cons.prems(3) by (simp add: disjoint_append)
    note parts = rcut.cut_parts [OF d Cons.prems(5,6) le]
    have eq: "band_update_loop upd xe t xs = band_update_loop upd xe ?t (x_end r)"
      using band_update_step [OF node(1)] le node(2) by simp
    have pre: "\<forall>x\<in>set (pre @ rcut.pieces_of upd xs xe r). x_end x \<le> x_end r"
      using pp(2) Cons.prems(4) parts(2) by fastforce
    have "pre @ rcut.cutting upd xs xe (r # rs) = (pre @ rcut.pieces_of upd xs xe r) @ rcut.cutting upd (x_end r) xe rs"
      using rcut.cut_pieces [of xe r upd xs rs] False by simp
    with Cons.IH [OF t _ pre parts(6,7)] pp(1) show ?thesis unfolding eq by simp
  qed
qed

lemma band_update_spec:
  assumes "row_ok (regions b)" "xs < xe"
  shows "\<exists>b'. band_update b xs xe upd = Some b' \<and> y_start b' = y_start b \<and> y_end b' = y_end b \<and> row_ok (regions b') \<and>
           (\<forall>x. row_at (regions b') x = (if xs \<le> x \<and> x < xe then upd (row_at (regions b) x) else row_at (regions b) x))"
proof -
  let ?t = "regions b"
  have wf: "rb_wf unit_augment ?t" and d: "disjoint x_start x_end (inorder ?t)" using assms(1) by (simp_all add: row_ok_def)
  from disjoint_split [OF d, of xs] obtain pre rs where
    sp: "inorder ?t = pre @ rs" "\<forall>r\<in>set pre. x_end r \<le> xs" "\<forall>r\<in>set rs. xs < x_end r" by blast
  have d': "disjoint x_start x_end (pre @ rs)" using d sp(1) by simp
  from band_update_loop_spec [OF wf sp(1) d' sp(2,3), of xe upd] assms(2) obtain t' xs' where
    l: "band_update_loop upd xe ?t xs = Some (t', xs')"
      "row_ok (if xs' < xe then put_region t' xs' xe (upd None) else t')"
      "inorder (if xs' < xe then put_region t' xs' xe (upd None) else t') = pre @ rcut.cutting upd xs xe rs" by blast
  let ?t' = "if xs' < xe then put_region t' xs' xe (upd None) else t'"
  have "row_at ?t' x = (if xs \<le> x \<and> x < xe then upd (row_at ?t x) else row_at ?t x)" for x
    using rcut.prefix_obs [OF _ d' sp(2,3), of xe upd x] assms(2) l(3) sp(1) by (simp add: row_at_def)
  with l(1,2) show ?thesis by (simp add: band_update_def)
qed

section \<open>All bands\<close>

definition band_obs :: "'v band option \<Rightarrow> int \<Rightarrow> 'v option" where
  "band_obs old x = (case old of None \<Rightarrow> None | Some b \<Rightarrow> row_at (regions b) x)"

definition band_sub :: "int \<Rightarrow> int \<Rightarrow> 'v band \<Rightarrow> 'v band" where
  "band_sub a b r = r\<lparr>y_start := a, y_end := b\<rparr>"

definition band_piece :: "int \<Rightarrow> int \<Rightarrow> ('v option \<Rightarrow> 'v option) \<Rightarrow> int \<Rightarrow> int \<Rightarrow> 'v band option \<Rightarrow> 'v band" where
  "band_piece xl xr upd a b old =
     (let r = (case old of None \<Rightarrow> band_new a b | Some r \<Rightarrow> band_sub a b r)
      in case (if xl < xr then band_update r xl xr upd else None) of
           None \<Rightarrow> r
         | Some r' \<Rightarrow> r'\<lparr>y_start := a, y_end := b\<rparr>)"

definition band_mid :: "int \<Rightarrow> int \<Rightarrow> ('v option \<Rightarrow> 'v option) \<Rightarrow> int \<Rightarrow> int \<Rightarrow> 'v band option \<Rightarrow> 'v band list" where
  "band_mid xl xr upd a b old =
     (let r = band_piece xl xr upd a b old in if regions r = Leaf then [] else [r])"

definition row_upd :: "int \<Rightarrow> int \<Rightarrow> ('v option \<Rightarrow> 'v option) \<Rightarrow> (int \<Rightarrow> 'v option) \<Rightarrow> int \<Rightarrow> 'v option" where
  "row_upd xl xr upd row x = (if xl \<le> x \<and> x < xr then upd (row x) else row x)"

lemma row_Leaf [simp]: "row_at Leaf x = None" "row_ok Leaf"
  by (simp_all add: row_at_def row_ok_def)

lemma band_piece_ends [simp]:
  "y_start (band_piece xl xr upd a b old) = a" "y_end (band_piece xl xr upd a b old) = b"
  by (auto simp: band_piece_def Let_def band_sub_def split: option.splits)

lemma band_piece_spec:
  assumes "pred_option (\<lambda>b. row_ok (regions b)) old"
  shows "row_ok (regions (band_piece xl xr upd a b old))"
    "row_at (regions (band_piece xl xr upd a b old)) = row_upd xl xr upd (band_obs old)"
    "xl < xr \<Longrightarrow> band_update (case old of None \<Rightarrow> band_new a b | Some r \<Rightarrow> band_sub a b r) xl xr upd =
                Some (band_piece xl xr upd a b old)"
proof -
  define r where "r = (case old of None \<Rightarrow> band_new a b | Some r \<Rightarrow> band_sub a b r)"
  have r: "row_ok (regions r)" "y_start r = a" "y_end r = b" "row_at (regions r) = band_obs old"
    using assms by (auto simp: r_def band_sub_def band_obs_def fun_eq_iff split: option.split)
  have pc: "band_piece xl xr upd a b old = (case (if xl < xr then band_update r xl xr upd else None) of
      None \<Rightarrow> r | Some r' \<Rightarrow> r'\<lparr>y_start := a, y_end := b\<rparr>)"
    unfolding band_piece_def r_def Let_def ..
  have "row_ok (regions (band_piece xl xr upd a b old)) \<and>
    row_at (regions (band_piece xl xr upd a b old)) = row_upd xl xr upd (band_obs old) \<and>
    (xl < xr \<longrightarrow> band_update r xl xr upd = Some (band_piece xl xr upd a b old))"
  proof (cases "xl < xr")
    case True
    from band_update_spec [OF r(1) True, of upd] obtain r' where
      r': "band_update r xl xr upd = Some r'" "y_start r' = a" "y_end r' = b" "row_ok (regions r')"
        "\<And>x. row_at (regions r') x = (if xl \<le> x \<and> x < xr then upd (row_at (regions r) x) else row_at (regions r) x)"
      using r(2,3) by auto
    then have "band_piece xl xr upd a b old = r'" using True pc by simp
    with r' r(4) show ?thesis by (simp add: row_upd_def fun_eq_iff)
  next
    case False
    with pc r show ?thesis by (auto simp: row_upd_def fun_eq_iff)
  qed
  then show "row_ok (regions (band_piece xl xr upd a b old))"
    "row_at (regions (band_piece xl xr upd a b old)) = row_upd xl xr upd (band_obs old)"
    "xl < xr \<Longrightarrow> band_update (case old of None \<Rightarrow> band_new a b | Some r \<Rightarrow> band_sub a b r) xl xr upd =
                Some (band_piece xl xr upd a b old)"
    unfolding r_def by auto
qed

lemma band_mid_obs:
  assumes "pred_option (\<lambda>b. row_ok (regions b)) old" "a \<le> p" "p < b"
  shows "band_obs (seg_at y_start y_end (band_mid xl xr upd a b old) p) = row_upd xl xr upd (band_obs old)"
proof (cases "regions (band_piece xl xr upd a b old) = Leaf")
  case True
  with band_piece_spec(2) [OF assms(1), of xl xr upd a b] have "row_upd xl xr upd (band_obs old) = (\<lambda>x. None)"
    by (simp add: fun_eq_iff)
  with True show ?thesis by (simp add: band_mid_def Let_def band_obs_def fun_eq_iff)
next
  case False
  with assms band_piece_spec(2) [OF assms(1), of xl xr upd a b] show ?thesis
    by (simp add: band_mid_def Let_def seg_at_Cons) (simp add: band_obs_def fun_eq_iff)
qed

interpretation rows: interval_store "rb_wf unit_augment" inorder Leaf "tree_insert unit_augment" first_loc
    loc_value "tree_remove unit_augment" y_start y_end band_cmp
  by unfold_locales (simp add: band_cmp_def)

interpretation bcut: interval_update y_start y_end "band_mid xl xr upd" band_sub
    "\<lambda>a b. [band_piece xl xr upd a b None]" "\<lambda>b. row_ok (regions b)" band_obs "row_upd xl xr upd"
  for xl xr and upd :: "'v option \<Rightarrow> 'v option"
proof
  fix a b p :: int and r x :: "'v band" and old :: "'v band option"
  show "band_mid xl xr upd a b old = [] \<or> (\<exists>x. band_mid xl xr upd a b old = [x] \<and> y_start x = a \<and> y_end x = b)"
    by (simp add: band_mid_def Let_def)
  show "pred_option (\<lambda>b. row_ok (regions b)) old \<Longrightarrow> x \<in> set (band_mid xl xr upd a b old) \<Longrightarrow> row_ok (regions x)"
    using band_piece_spec(1) [of old xl xr upd a b] by (auto simp: band_mid_def Let_def split: if_splits)
  show "a \<le> p \<Longrightarrow> p < b \<Longrightarrow>
      band_obs (seg_at y_start y_end [band_piece xl xr upd a b None] p) = row_upd xl xr upd (band_obs None)"
    using band_piece_spec(2) [of None xl xr upd a b] by (simp add: seg_at_Cons) (simp add: band_obs_def fun_eq_iff)
  show "band_obs (Some (band_sub a b r)) = band_obs (Some r)" by (simp add: band_sub_def band_obs_def fun_eq_iff)
qed (auto simp: band_sub_def band_piece_spec(1) intro: band_mid_obs)

lemma put_band_add:
  "put_band t (band_piece xl xr upd a b old) = rows.add_all (band_mid xl xr upd a b old) t"
  by (simp add: put_band_def band_mid_def rows.add_all_def Let_def)

lemma banded_update_step:
  assumes "first_loc (\<lambda>b. ys < y_end b) t = Some node" "y_start (loc_value node) < py (rbr rect)"
    and "row_ok (regions (loc_value node))" "px (rtl rect) < px (rbr rect)"
  shows "banded_update_loop rect upd t ys =
    banded_update_loop rect upd
      (rows.add_all (bcut.pieces_of (px (rtl rect)) (px (rbr rect)) upd ys (py (rbr rect)) (loc_value node))
        (tree_remove unit_augment node))
      (y_end (loc_value node))"
proof -
  let ?b = "loc_value node" and ?xl = "px (rtl rect)" and ?xr = "px (rbr rect)" and ?ye = "py (rbr rect)"
  have new: "band_update (band_new a b) ?xl ?xr upd = Some (band_piece ?xl ?xr upd a b None)" for a b
    using band_piece_spec(3) [of None ?xl ?xr a b upd] assms(4) by simp
  have old: "band_update (?b\<lparr>y_start := a, y_end := b\<rparr>) ?xl ?xr upd = Some (band_piece ?xl ?xr upd a b (Some ?b))" for a b
    using band_piece_spec(3) [of "Some ?b" ?xl ?xr a b upd] assms(3,4) by (simp add: band_sub_def)
  have sub: "?b\<lparr>y_end := a\<rparr> = band_sub (y_start ?b) a ?b" "?b\<lparr>y_start := a\<rparr> = band_sub a (y_end ?b) ?b" for a
    by (simp_all add: band_sub_def)
  have add: "rows.add_all (xs @ zs) u = rows.add_all zs (rows.add_all xs u)"
    "rows.add_all [x] u = tree_insert unit_augment band_cmp x u" "rows.add_all [] u = u" for xs zs u and x :: "'a band"
    by (simp_all add: rows.add_all_def)
  show ?thesis
    using assms(1,2) new old
    by (subst banded_update_loop.simps)
      (auto simp: bcut.pieces_of_def bcut.left_piece_def bcut.right_piece_def add put_band_add Let_def sub max_def)
qed


text \<open>
  The loop followed by the insertion of the last band computes the cut sequence, for every rectangle of
  positive width.
\<close>

lemma banded_update_loop_spec:
  assumes "rb_wf unit_augment t" "inorder t = pre @ rs" "disjoint y_start y_end (pre @ rs)"
    and "\<forall>r\<in>set pre. y_end r \<le> ys" "\<forall>r\<in>set rs. ys < y_end r" "ys < ye \<or> (\<forall>r\<in>set rs. ye \<le> y_start r)"
    and "\<forall>r\<in>set rs. row_ok (regions r)" "xl < xr"
    and "xl = px (rtl rect)" "xr = px (rbr rect)" "ye = py (rbr rect)"
  shows "\<exists>t' ys'. banded_update_loop rect upd t ys = Some (t', ys') \<and>
     (let u = (if ys' < ye then tree_insert unit_augment band_cmp (band_piece xl xr upd ys' ye None) t' else t')
      in rb_wf unit_augment u \<and> inorder u = pre @ bcut.cutting xl xr upd ys ye rs)"
  using assms(1-7)
proof (induction rs arbitrary: pre t ys)
  case Nil
  have "first_loc (\<lambda>r. ys < y_end r) t = None"
    using rows.first_split(1) [OF Nil.prems(1-5)] by simp
  then have eq: "banded_update_loop rect upd t ys = Some (t, ys)" by (subst banded_update_loop.simps) simp
  have "disjoint y_start y_end (pre @ bcut.cutting xl xr upd ys ye [])"
    using bcut.prefix_cut [OF Nil.prems(3-6)] .
  with rows.add_all_gap [OF Nil.prems(1), of pre "[]" "[band_piece xl xr upd ys ye None]"] Nil.prems(1,2) show ?case
    unfolding eq by (auto simp: rows.add_all_def Let_def)
next
  case (Cons r rs)
  from rows.first_split(2) [OF Cons.prems(1-5) refl] obtain node where
    node: "first_loc (\<lambda>r. ys < y_end r) t = Some node" "loc_value node = r"
      "rb_wf unit_augment (tree_remove unit_augment node)" "inorder (tree_remove unit_augment node) = pre @ rs"
    by blast
  show ?case
  proof (cases "ye \<le> y_start r")
    case True
    have eq: "banded_update_loop rect upd t ys = Some (t, ys)"
      using node True assms(11) by (subst banded_update_loop.simps) simp
    have d: "disjoint y_start y_end (pre @ bcut.cutting xl xr upd ys ye (r # rs))"
      using bcut.prefix_cut [OF Cons.prems(3-6)] .
    show ?thesis unfolding eq
      using rows.add_all_gap [OF Cons.prems(1,2), of "[band_piece xl xr upd ys ye None]"] Cons.prems(1,2) d True
      by (auto simp: rows.add_all_def Let_def)
  next
    case False
    then have le: "y_start r < ye" by simp
    note pp = bcut.prefix_pieces [OF Cons.prems(3-6) le]
    let ?ps = "bcut.pieces_of xl xr upd ys ye r"
    let ?t = "rows.add_all ?ps (tree_remove unit_augment node)"
    have t: "rb_wf unit_augment ?t" "inorder ?t = (pre @ ?ps) @ rs"
      using rows.add_all_gap [OF node(3,4) pp(1)] by auto
    have d: "disjoint y_start y_end (r # rs)" using Cons.prems(3) by (simp add: disjoint_append)
    note parts = bcut.cut_parts [OF d Cons.prems(5,6) le]
    have eq: "banded_update_loop rect upd t ys = banded_update_loop rect upd ?t (y_end r)"
      using banded_update_step [OF node(1)] le node(2) assms(8-11) Cons.prems(7) by simp
    have pre: "\<forall>x\<in>set (pre @ ?ps). y_end x \<le> y_end r"
      using pp(2) Cons.prems(4) parts(2) by fastforce
    have "pre @ bcut.cutting xl xr upd ys ye (r # rs) = (pre @ ?ps) @ bcut.cutting xl xr upd (y_end r) ye rs"
      using bcut.cut_pieces [of ye r xl xr upd ys rs] False by simp
    with Cons.IH [OF t _ pre parts(6,7)] pp(1) Cons.prems(7) show ?thesis unfolding eq by simp
  qed
qed

lemma pixel_at_obs: "pixel_at s x y = band_obs (seg_at y_start y_end (inorder (bands s)) y) x"
  by (simp add: pixel_at_def band_obs_def)

lemma banded_update_spec:
  assumes "banded_ok s" "\<not> rect_is_empty rect"
  shows "\<exists>s'. banded_update s rect upd = Some s' \<and> banded_ok s' \<and>
    (\<forall>x y. pixel_at s' x y = (if contains_point rect (point_new x y) then upd (pixel_at s x y) else pixel_at s x y))"
proof -
  let ?t = "bands s" and ?xl = "px (rtl rect)" and ?xr = "px (rbr rect)" and ?ys = "py (rtl rect)" and ?ye = "py (rbr rect)"
  have wf: "rb_wf unit_augment ?t" and d: "disjoint y_start y_end (inorder ?t)"
    and ok: "\<forall>b\<in>set (inorder ?t). row_ok (regions b)" using assms(1) by (auto simp: banded_ok_def)
  have le: "?xl < ?xr" "?ys < ?ye" using assms(2) by (auto simp: rect_is_empty_def)
  from disjoint_split [OF d, of ?ys] obtain pre rs where
    sp: "inorder ?t = pre @ rs" "\<forall>r\<in>set pre. y_end r \<le> ?ys" "\<forall>r\<in>set rs. ?ys < y_end r" by blast
  have d': "disjoint y_start y_end (pre @ rs)" and oks: "\<forall>r\<in>set rs. row_ok (regions r)" "\<forall>r\<in>set pre. row_ok (regions r)"
    using d ok sp(1) by auto
  have lt: "?ys < ?ye \<or> (\<forall>r\<in>set rs. ?ye \<le> y_start r)" using le(2) by simp
  from banded_update_loop_spec [OF wf sp(1) d' sp(2,3) lt oks(1) le(1) refl refl refl, of upd] obtain t' ys' where
    l: "banded_update_loop rect upd ?t ?ys = Some (t', ys')"
      "let u = (if ys' < ?ye then tree_insert unit_augment band_cmp (band_piece ?xl ?xr upd ys' ?ye None) t' else t')
       in rb_wf unit_augment u \<and> inorder u = pre @ bcut.cutting ?xl ?xr upd ?ys ?ye rs" by blast
  define u where "u = (if ys' < ?ye then tree_insert unit_augment band_cmp (band_piece ?xl ?xr upd ys' ?ye None) t' else t')"
  have u: "rb_wf unit_augment u" "inorder u = pre @ bcut.cutting ?xl ?xr upd ?ys ?ye rs"
    using l(2) by (simp_all add: Let_def u_def)
  have "band_update (band_new ys' ?ye) ?xl ?xr upd = Some (band_piece ?xl ?xr upd ys' ?ye None)"
    using band_piece_spec(3) [of None ?xl ?xr ys' ?ye upd] le(1) by simp
  then have res: "banded_update s rect upd = Some (s\<lparr>bands := u\<rparr>)" using l(1) by (simp add: banded_update_def u_def)
  have "\<forall>b\<in>set (bcut.cutting ?xl ?xr upd ?ys ?ye rs). row_ok (regions b)" using bcut.cut_ok [OF oks(1)] by blast
  with u oks(2) bcut.prefix_cut [OF d' sp(2,3) lt, of ?xl ?xr upd] have "banded_ok (s\<lparr>bands := u\<rparr>)"
    by (auto simp: banded_ok_def)
  moreover have "pixel_at (s\<lparr>bands := u\<rparr>) x y =
      (if contains_point rect (point_new x y) then upd (pixel_at s x y) else pixel_at s x y)" for x y
    using bcut.prefix_obs [OF oks(1) d' sp(2,3) lt, of ?xl ?xr upd y] u(2) sp(1)
    by (auto simp: pixel_at_obs contains_point_def row_upd_def)
  ultimately show ?thesis using res by blast
qed

section \<open>Coalescing\<close>

interpretation rmerge: interval_merge x_start x_end merge_regions "map_option reg_value"
  by unfold_locales (auto simp: merge_regions_def split: if_splits)

interpretation bmerge: interval_merge y_start y_end merge_bands
    "map_option (\<lambda>b::'v band. inorder (regions b))"
  by unfold_locales (auto simp: merge_bands_def split: if_splits)

definition row_coalesced :: "('v region, no_augment) rbtree \<Rightarrow> bool" where
  "row_coalesced t \<longleftrightarrow> successively (\<lambda>l r. \<not> (x_end l = x_start r \<and> reg_value l = reg_value r)) (inorder t)"

definition coalesced :: "'v banded \<Rightarrow> bool" where
  "coalesced s \<longleftrightarrow> (\<forall>b\<in>set (inorder (bands s)). row_coalesced (regions b)) \<and>
     successively (\<lambda>u l. \<not> (y_end u = y_start l \<and> inorder (regions u) = inorder (regions l))) (inorder (bands s))"

lemma merge_snd [simp]:
  "snd (merge_regions l r) \<longleftrightarrow> x_end l = x_start r \<and> reg_value l = reg_value r"
  "snd (merge_bands u l') \<longleftrightarrow> y_end u = y_start l' \<and> inorder (regions u) = inorder (regions l')"
  by (simp_all add: merge_regions_def merge_bands_def)

lemma band_coalesce_sel [simp]:
  "y_start (band_coalesce b) = y_start b" "y_end (band_coalesce b) = y_end b"
  by (simp_all add: band_coalesce_def)

lemma band_coalesce_spec:
  assumes "row_ok (regions b)"
  shows "row_ok (regions (band_coalesce b))" "row_coalesced (regions (band_coalesce b))"
    "row_at (regions (band_coalesce b)) x = row_at (regions b) x"
proof -
  have "rb_wf unit_augment (regions b)" and d: "disjoint x_start x_end (inorder (regions b))"
    using assms by (simp_all add: row_ok_def)
  note sp = tree_pairwise_merge_spec [OF this(1), of merge_regions]
  show "row_ok (regions (band_coalesce b))" "row_coalesced (regions (band_coalesce b))"
    "row_at (regions (band_coalesce b)) x = row_at (regions b) x"
    using sp rmerge.merge_pairs_disjoint [OF d] rmerge.merge_pairs_complete [of "inorder (regions b)"]
      rmerge.merge_pairs_obs [OF d, of x]
    by (simp_all add: band_coalesce_def row_ok_def row_coalesced_def row_at_def unit_augment_def fun_eq_iff)
qed

lemma seg_at_map:
  assumes "\<And>x. lo (g x) = lo x" "\<And>x. hi (g x) = hi x"
  shows "seg_at lo hi (map g xs) p = map_option g (seg_at lo hi xs p)"
  using assms by (induction xs) (auto simp: seg_at_Cons)

lemma disjoint_map:
  assumes "\<And>x. lo (g x) = lo x" "\<And>x. hi (g x) = hi x"
  shows "disjoint lo hi (map g xs) = disjoint lo hi xs"
  using assms by (induction xs) (auto simp: disjoint_Cons)

lemma pixel_at_cong:
  assumes "map_option (\<lambda>b. inorder (regions b)) (seg_at y_start y_end (inorder (bands s)) y) =
           map_option (\<lambda>b. inorder (regions b)) (seg_at y_start y_end (inorder (bands s')) y)"
  shows "pixel_at s x y = pixel_at s' x y"
  using assms by (auto simp: pixel_at_def row_at_def split: option.splits)

lemma banded_coalesce_spec:
  assumes "banded_ok s"
  shows "banded_ok (banded_coalesce s)" "coalesced (banded_coalesce s)"
    "pixel_at (banded_coalesce s) x y = pixel_at s x y"
proof -
  let ?bs = "inorder (bands s)" and ?t = "tree_update_values band_coalesce (bands s)"
  have wf: "rb_wf unit_augment (bands s)" and d: "disjoint y_start y_end ?bs" and ok: "\<forall>b\<in>set ?bs. row_ok (regions b)"
    using assms by (auto simp: banded_ok_def)
  have "rb_wf unit_augment ?t" by (rule rb_wf_update_values [OF wf]) (simp add: unit_augment_def fun_eq_iff)
  note sp = tree_pairwise_merge_spec [OF this, of merge_bands, unfolded tree_update_values_inorder]
  let ?r = "merge_pairs merge_bands (map band_coalesce ?bs)"
  have r: "rb_wf unit_augment (bands (banded_coalesce s))" "inorder (bands (banded_coalesce s)) = ?r"
    using sp by (simp_all add: banded_coalesce_def unit_augment_def fun_eq_iff)
  have d': "disjoint y_start y_end (map band_coalesce ?bs)" using d by (subst disjoint_map) simp_all
  have all: "\<forall>z\<in>set ?r. row_ok (regions z) \<and> row_coalesced (regions z)"
  proof
    fix z assume "z \<in> set ?r"
    then show "row_ok (regions z) \<and> row_coalesced (regions z)"
      by (rule bmerge.merge_pairs_all [where P = "\<lambda>z. row_ok (regions z) \<and> row_coalesced (regions z)", rotated -1])
        (auto simp: merge_bands_def band_coalesce_spec ok split: if_splits)
  qed
  show "banded_ok (banded_coalesce s)" using r all bmerge.merge_pairs_disjoint [OF d'] by (simp add: banded_ok_def)
  show "coalesced (banded_coalesce s)"
    using r(2) all bmerge.merge_pairs_complete [of "map band_coalesce ?bs"] by (simp add: coalesced_def)
  define s' where "s' = s\<lparr>bands := ?t\<rparr>"
  have "pixel_at (banded_coalesce s) x y = pixel_at s' x y"
    by (rule pixel_at_cong) (simp add: r(2) s'_def tree_update_values_inorder bmerge.merge_pairs_obs [OF d'])
  also have "\<dots> = pixel_at s x y"
  proof (cases "seg_at y_start y_end ?bs y")
    case (Some b)
    then have "row_ok (regions b)" using ok seg_at_Some [OF d] by blast
    with Some show ?thesis
      by (simp add: pixel_at_def s'_def tree_update_values_inorder seg_at_map band_coalesce_spec(3))
  qed (simp add: pixel_at_def s'_def tree_update_values_inorder seg_at_map)
  finally show "pixel_at (banded_coalesce s) x y = pixel_at s x y" .
qed

section \<open>Updating values\<close>

text \<open>The rectangle that the update function is given for a pixel: the stored region around it.\<close>

definition rect_around :: "'v banded \<Rightarrow> int \<Rightarrow> int \<Rightarrow> rect option" where
  "rect_around s x y = do {
     b \<leftarrow> seg_at y_start y_end (inorder (bands s)) y;
     r \<leftarrow> seg_at x_start x_end (inorder (regions b)) x;
     Some (rect_new (x_start r) (y_start b) (x_end r) (y_end b)) }"

lemma banded_update_values_spec:
  assumes "banded_ok s"
  shows "banded_ok (banded_update_values s upd)"
    "pixel_at (banded_update_values s upd) x y =
       (case (rect_around s x y, pixel_at s x y) of (Some r, Some v) \<Rightarrow> Some (upd r v) | _ \<Rightarrow> None)"
proof -
  define g where "g b r = r\<lparr>reg_value := upd (rect_new (x_start r) (y_start b) (x_end r) (y_end b)) (reg_value r)\<rparr>"
    for b :: "'a band" and r :: "'a region"
  define h where "h b = b\<lparr>regions := tree_update_values (g b) (regions b)\<rparr>" for b :: "'a band"
  have eq: "banded_update_values s upd = s\<lparr>bands := tree_update_values h (bands s)\<rparr>"
    by (simp add: banded_update_values_def h_def [abs_def] g_def [abs_def])
  have g: "x_start (g b r) = x_start r" "x_end (g b r) = x_end r" for b r by (simp_all add: g_def)
  have h: "y_start (h b) = y_start b" "y_end (h b) = y_end b" for b by (simp_all add: h_def)
  have u: "unit_augment (k x) = unit_augment x" for k :: "'z \<Rightarrow> 'z" and x by (simp add: unit_augment_def fun_eq_iff)
  have "row_ok (regions (h b))" if "row_ok (regions b)" for b
    using that by (auto simp: row_ok_def h_def tree_update_values_inorder disjoint_map g intro: rb_wf_update_values u)
  with assms show "banded_ok (banded_update_values s upd)"
    by (auto simp: banded_ok_def eq tree_update_values_inorder disjoint_map h intro: rb_wf_update_values u)
  show "pixel_at (banded_update_values s upd) x y =
       (case (rect_around s x y, pixel_at s x y) of (Some r, Some v) \<Rightarrow> Some (upd r v) | _ \<Rightarrow> None)"
  proof (cases "seg_at y_start y_end (inorder (bands s)) y")
    case (Some b)
    then show ?thesis
      by (cases "seg_at x_start x_end (inorder (regions b)) x")
        (simp_all add: pixel_at_def row_at_def rect_around_def eq tree_update_values_inorder seg_at_map h,
          simp_all add: h_def tree_update_values_inorder seg_at_map g, simp add: g_def)
  qed (simp add: pixel_at_def rect_around_def eq tree_update_values_inorder seg_at_map h)
qed

end
