(* ===== verification/Banded_Iter.thy ===== *)
theory Banded_Iter
  imports Banded_Region
begin

text \<open>
  Queries on banded regions (\<^verbatim>\<open>draw/banded_region.rs\<close>, second half): the iterator over maximal rectangles
  and the draining iterator.  A node reference is a location of the tree.  The loops are partial functions;
  \<^term>\<open>None\<close> stands for a loop that does not end and for the panic of \<^verbatim>\<open>unwrap\<close>.
\<close>

section \<open>Searching in a range\<close>

definition first_band_in_range :: "'v banded \<Rightarrow> int \<Rightarrow> int \<Rightarrow> ('v band, no_augment) location option" where
  "first_band_in_range s ys ye =
     (if ys \<ge> ye then None
      else case first_loc (\<lambda>band. ys < y_end band) (bands s) of
             None \<Rightarrow> None
           | Some node \<Rightarrow> if y_start (loc_value node) < ye then Some node else None)"

definition first_region_in_range :: "'v band \<Rightarrow> int \<Rightarrow> int \<Rightarrow> ('v region, no_augment) location option" where
  "first_region_in_range b xs xe =
     (if xs \<ge> xe then None
      else case first_loc (\<lambda>region. xs < x_end region) (regions b) of
             None \<Rightarrow> None
           | Some node \<Rightarrow> if x_start (loc_value node) < xe then Some node else None)"

text \<open>The callback is stateful: it takes its captured state and returns it with its verdict.\<close>

partial_function (option) for_all_in_range ::
  "'v band \<Rightarrow> int \<Rightarrow> int \<Rightarrow> (int \<Rightarrow> int \<Rightarrow> 'v option \<Rightarrow> 's \<Rightarrow> bool \<times> 's) \<Rightarrow> 's \<Rightarrow> 's option" where
  "for_all_in_range b xs xe g st =
     (case first_region_in_range b xs xe of
        Some node \<Rightarrow>
          (let region = loc_value node;
               (go, st) = (if x_start region > xs then g xs (x_start region) None st else (True, st))
           in if \<not> go then Some st
              else let (go, st) = g (x_start region) (x_end region) (Some (reg_value region)) st
                   in if \<not> go then Some st
                      else for_all_in_range b (min xe (x_end region)) xe g st)
      | None \<Rightarrow> Some (if xs < xe then snd (g xs xe None st) else st))"

definition all_in_range :: "'v band \<Rightarrow> int \<Rightarrow> int \<Rightarrow> (int \<Rightarrow> int \<Rightarrow> 'v option \<Rightarrow> bool) \<Rightarrow> bool option" where
  "all_in_range b xs xe g =
     for_all_in_range b xs xe (\<lambda>x0 x1 value st. if g x0 x1 value then (True, st) else (False, False)) True"

section \<open>The next rectangle\<close>

partial_function (option) find_next_rect ::
  "'v banded \<Rightarrow> rect \<Rightarrow> point \<Rightarrow>
   ((('v band, no_augment) location \<times> ('v region, no_augment) location \<times> rect) option \<times> point) option" where
  "find_next_rect s boundary cursor =
     (case first_band_in_range s (py cursor) (py (rbr boundary)) of
        None \<Rightarrow> Some (None, cursor\<lparr>py := py (rbr boundary)\<rparr>)
      | Some band_node \<Rightarrow>
          (let band = loc_value band_node in
           case first_region_in_range band (px cursor) (px (rbr boundary)) of
             None \<Rightarrow> find_next_rect s boundary (cursor\<lparr>px := px (rtl boundary), py := y_end band\<rparr>)
           | Some region_node \<Rightarrow> do {
               let region = loc_value region_node;
               rect \<leftarrow> rect_intersect (rect_new (x_start region) (y_start band) (x_end region) (y_end band))
                         \<lparr>rtl = cursor, rbr = rbr boundary\<rparr>;
               Some (Some (band_node, region_node, rect), cursor) }))"

definition set_br_x :: "int \<Rightarrow> rect \<Rightarrow> rect" where
  "set_br_x x r = r\<lparr>rbr := (rbr r)\<lparr>px := x\<rparr>\<rparr>"

definition set_br_y :: "int \<Rightarrow> rect \<Rightarrow> rect" where
  "set_br_y y r = r\<lparr>rbr := (rbr r)\<lparr>py := y\<rparr>\<rparr>"

partial_function (option) rect_grow_x ::
  "rect \<Rightarrow> ('v region, no_augment) location \<Rightarrow> rect \<Rightarrow> rect option" where
  "rect_grow_x boundary region_node rect =
     (if px (rbr rect) < px (rbr boundary) then
        case tree_successor region_node of
          None \<Rightarrow> Some rect
        | Some succ \<Rightarrow>
            (if x_start (loc_value succ) \<noteq> x_end (loc_value region_node) \<or>
                reg_value (loc_value succ) \<noteq> reg_value (loc_value region_node) then Some rect
             else rect_grow_x boundary succ (set_br_x (min (px (rbr boundary)) (x_end (loc_value succ))) rect))
      else Some rect)"

partial_function (option) rect_grow_y ::
  "rect \<Rightarrow> ('v band, no_augment) location \<Rightarrow> rect \<Rightarrow> 'v \<Rightarrow> bool \<Rightarrow> (rect \<times> int) option" where
  "rect_grow_y boundary band_node rect rect_value is_draining =
     (if py (rbr rect) < py (rbr boundary) then
        case tree_successor band_node of
          None \<Rightarrow> Some (rect, y_start (loc_value band_node))
        | Some succ \<Rightarrow>
            (if y_start (loc_value succ) \<noteq> y_end (loc_value band_node) \<or>
                \<not> is_draining \<and> first_region_in_range (loc_value band_node) (px (rbr rect)) (px (rbr boundary)) \<noteq> None \<or>
                \<not> is_draining \<and> first_region_in_range (loc_value succ) (px (rtl boundary)) (px (rtl rect)) \<noteq> None
             then Some (rect, y_start (loc_value band_node))
             else do {
               same \<leftarrow> all_in_range (loc_value succ) (px (rtl rect)) (px (rbr rect)) (\<lambda>_ _ value. value = Some rect_value);
               if \<not> same then Some (rect, y_start (loc_value band_node))
               else rect_grow_y boundary succ (set_br_y (min (py (rbr boundary)) (y_end (loc_value succ))) rect)
                      rect_value is_draining })
      else Some (rect, y_start (loc_value band_node)))"

section \<open>The iterators\<close>

record 'v banded_iter =
  it_region :: "'v banded"
  it_boundary :: rect
  it_cursor :: point

definition banded_query :: "'v banded \<Rightarrow> rect \<Rightarrow> 'v banded_iter" where
  "banded_query s bd = \<lparr>it_region = s, it_boundary = bd, it_cursor = rtl bd\<rparr>"

definition query_next :: "'v banded_iter \<Rightarrow> ((rect \<times> 'v) option \<times> 'v banded_iter) option" where
  "query_next it = do {
     (found, cur) \<leftarrow> find_next_rect (it_region it) (it_boundary it) (it_cursor it);
     case found of
       None \<Rightarrow> Some (None, it\<lparr>it_cursor := cur\<rparr>)
     | Some (band_node, region_node, rect) \<Rightarrow> do {
         let value = reg_value (loc_value region_node);
         rect \<leftarrow> rect_grow_x (it_boundary it) region_node rect;
         (rect, y) \<leftarrow> rect_grow_y (it_boundary it) band_node rect value False;
         Some (Some (rect, value), it\<lparr>it_cursor := \<lparr>px = px (rbr rect), py = y\<rparr>\<rparr>) } }"

definition banded_drain :: "'v banded \<Rightarrow> rect \<Rightarrow> 'v banded_iter" where
  "banded_drain s bd = \<lparr>it_region = s, it_boundary = bd, it_cursor = rtl bd\<rparr>"

definition drain_next :: "'v banded_iter \<Rightarrow> ((rect \<times> 'v) option \<times> 'v banded_iter) option" where
  "drain_next it = do {
     (found, cur) \<leftarrow> find_next_rect (it_region it) (it_boundary it) (it_cursor it);
     case found of
       None \<Rightarrow> Some (None, it\<lparr>it_cursor := cur\<rparr>)
     | Some (band_node, region_node, rect) \<Rightarrow> do {
         let value = reg_value (loc_value region_node);
         rect \<leftarrow> rect_grow_x (it_boundary it) region_node rect;
         (rect, y) \<leftarrow> rect_grow_y (it_boundary it) band_node rect value True;
         s \<leftarrow> banded_remove (it_region it) rect;
         Some (Some (rect, value), it\<lparr>it_region := s, it_cursor := cur\<rparr>) } }"

text \<open>Running an iterator to its end, as a \<^verbatim>\<open>for\<close> loop over it and as its destructor do.\<close>

partial_function (option) run_iter :: "('i \<Rightarrow> ('x option \<times> 'i) option) \<Rightarrow> 'i \<Rightarrow> ('x list \<times> 'i) option" where
  "run_iter nxt it = do {
     (item, it) \<leftarrow> nxt it;
     case item of
       None \<Rightarrow> Some ([], it)
     | Some x \<Rightarrow> do { (xs, it) \<leftarrow> run_iter nxt it; Some (x # xs, it) } }"

declare for_all_in_range.simps [code] find_next_rect.simps [code] rect_grow_x.simps [code] rect_grow_y.simps [code]
  run_iter.simps [code]

section \<open>What the searches find\<close>

lemma first_loc_beyond:
  assumes "rb_wf f t" "disjoint lo hi (inorder t)"
  obtains (none) "first_loc (\<lambda>x. a < hi x) t = None" "\<forall>x\<in>set (inorder t). hi x \<le> a"
  | (some) l where "first_loc (\<lambda>x. a < hi x) t = Some l" "loc_tree l = t" "loc_ok l" "a < hi (loc_value l)"
      "\<forall>x\<in>set (loc_before l). hi x \<le> a"
proof (cases "first_loc (\<lambda>x. a < hi x) t")
  case None
  have "clean f t" using assms(1) by (simp add: rb_wf_def)
  from first_loc_None [OF this disjoint_upward_hi [OF assms(2), of a]] None none show ?thesis by (auto simp: not_less)
next
  case (Some l)
  have "clean f t" using assms(1) by (simp add: rb_wf_def)
  note sp = first_loc_Some [OF this disjoint_upward_hi [OF assms(2), of a] Some]
  have "a < hi (loc_value l)" using sp(4) [symmetric] by (simp add: dropWhile_eq_Cons_conv)
  moreover have "\<forall>x\<in>set (loc_before l). hi x \<le> a" using sp(3) by (auto dest: set_takeWhileD)
  ultimately show ?thesis using some Some sp(1,2) by blast
qed

lemma loc_seg_at:
  assumes "disjoint lo hi (inorder (loc_tree l))" "loc_ok l"
  shows "loc_value l \<in> set (inorder (loc_tree l))" "lo (loc_value l) < hi (loc_value l)"
    "lo (loc_value l) \<le> p \<Longrightarrow> p < hi (loc_value l) \<Longrightarrow> seg_at lo hi (inorder (loc_tree l)) p = Some (loc_value l)"
    "\<forall>x\<in>set (loc_before l). hi x \<le> a \<Longrightarrow> a \<le> p \<Longrightarrow> p < lo (loc_value l) \<Longrightarrow> seg_at lo hi (inorder (loc_tree l)) p = None"
proof -
  note sp = loc_split [OF assms(2)]
  show m: "loc_value l \<in> set (inorder (loc_tree l))" by (simp add: sp)
  then show "lo (loc_value l) < hi (loc_value l)" using assms(1) by (rule disjoint_less [rotated])
  show "lo (loc_value l) \<le> p \<Longrightarrow> p < hi (loc_value l) \<Longrightarrow> seg_at lo hi (inorder (loc_tree l)) p = Some (loc_value l)"
    using seg_at_Some [OF assms(1)] m by blast
  show "seg_at lo hi (inorder (loc_tree l)) p = None"
    if b: "\<forall>x\<in>set (loc_before l). hi x \<le> a" and p: "a \<le> p" "p < lo (loc_value l)"
  proof -
    have "\<forall>x\<in>set (loc_after l). hi (loc_value l) \<le> lo x" "lo (loc_value l) < hi (loc_value l)"
      using assms(1) unfolding sp by (auto simp: disjoint_append disjoint_Cons)
    then have "\<forall>x\<in>set (loc_value l # loc_after l). lo (loc_value l) \<le> lo x" by auto
    from seg_at_left [OF this p(2)] have "seg_at lo hi (inorder (loc_tree l)) p = seg_at lo hi (loc_before l) p"
      unfolding sp .
    then show ?thesis using seg_at_above [OF b p(1)] by simp
  qed
qed

lemma loc_next:
  assumes "disjoint lo hi (inorder (loc_tree l))" "loc_ok l" "tree_successor l = Some l'"
  shows "loc_tree l' = loc_tree l" "loc_ok l'" "length (loc_after l') < length (loc_after l)"
    "hi (loc_value l) \<le> lo (loc_value l')" "lo (loc_value l') < hi (loc_value l')"
proof -
  note su = tree_successor_spec(2) [OF assms(2,3)]
  then have after: "loc_after l = loc_value l' # loc_after l'" by simp
  with su show "loc_tree l' = loc_tree l" "loc_ok l'" "length (loc_after l') < length (loc_after l)" by auto
  from assms(1) after show "hi (loc_value l) \<le> lo (loc_value l')" "lo (loc_value l') < hi (loc_value l')"
    by (auto simp: loc_split [OF assms(2)] disjoint_append disjoint_Cons)
qed

lemma first_in_range:
  assumes "rb_wf f t" "disjoint lo hi (inorder t)"
    and "found = (if a \<ge> e then None
      else case first_loc (\<lambda>x. a < hi x) t of None \<Rightarrow> None
           | Some node \<Rightarrow> if lo (loc_value node) < e then Some node else None)"
  obtains (none) "found = None" "\<forall>p. a \<le> p \<and> p < e \<longrightarrow> seg_at lo hi (inorder t) p = None"
  | (some) node where "found = Some node" "loc_tree node = t" "loc_ok node" "a < e" "a < hi (loc_value node)"
      "lo (loc_value node) < e" "\<forall>r\<in>set (loc_before node). hi r \<le> a"
proof (cases "a < e")
  case True
  from assms(1,2) show ?thesis
  proof (cases rule: first_loc_beyond [where a = a])
    case none
    then have "\<forall>p. a \<le> p \<longrightarrow> seg_at lo hi (inorder t) p = None" using seg_at_above by blast
    with none(1) True that(1) assms(3) show ?thesis by simp
  next
    case (some l)
    show ?thesis
    proof (cases "lo (loc_value l) < e")
      case True
      with some \<open>a < e\<close> that(2) [of l] assms(3) show ?thesis by simp
    next
      case False
      then have "\<forall>p. a \<le> p \<and> p < e \<longrightarrow> seg_at lo hi (inorder t) p = None"
        using loc_seg_at(4) [of lo hi l a] assms(2) some(2,3,5) by auto
      with some False \<open>a < e\<close> that(1) assms(3) show ?thesis by simp
    qed
  qed
next
  case False
  then have "\<forall>p. a \<le> p \<and> p < e \<longrightarrow> seg_at lo hi (inorder t) p = None" by auto
  moreover have "found = None" using False assms(3) by (simp add: not_less)
  ultimately show ?thesis using that(1) by blast
qed

lemma first_region_cases:
  assumes "row_ok (regions b)"
  obtains (none) "first_region_in_range b xs xe = None" "\<forall>x. xs \<le> x \<and> x < xe \<longrightarrow> row_at (regions b) x = None"
  | (some) node where "first_region_in_range b xs xe = Some node" "loc_tree node = regions b" "loc_ok node" "xs < xe"
      "xs < x_end (loc_value node)" "x_start (loc_value node) < xe" "\<forall>r\<in>set (loc_before node). x_end r \<le> xs"
proof (rule first_in_range [OF _ _ first_region_in_range_def [of b xs xe]])
  show "rb_wf unit_augment (regions b)" "disjoint x_start x_end (inorder (regions b))"
    using assms by (simp_all add: row_ok_def)
qed (use that in \<open>auto simp: row_at_def\<close>)

lemma first_band_cases:
  assumes "banded_ok s"
  obtains (none) "first_band_in_range s ys ye = None" "\<forall>x y. ys \<le> y \<and> y < ye \<longrightarrow> pixel_at s x y = None"
  | (some) node where "first_band_in_range s ys ye = Some node" "loc_tree node = bands s" "loc_ok node" "ys < ye"
      "ys < y_end (loc_value node)" "y_start (loc_value node) < ye" "\<forall>r\<in>set (loc_before node). y_end r \<le> ys"
proof (rule first_in_range [OF _ _ first_band_in_range_def [of s ys ye]])
  show "rb_wf unit_augment (bands s)" "disjoint y_start y_end (inorder (bands s))"
    using assms by (simp_all add: banded_ok_def)
qed (use that in \<open>auto simp: pixel_at_def\<close>)

text \<open>A location in a row or in the bands fixes the pixels it covers and the gap in front of it.\<close>

lemma region_loc:
  assumes "row_ok t" "loc_tree l = t" "loc_ok l"
  shows "x_start (loc_value l) < x_end (loc_value l)"
    "x_start (loc_value l) \<le> x \<Longrightarrow> x < x_end (loc_value l) \<Longrightarrow> row_at t x = Some (reg_value (loc_value l))"
    "\<forall>r\<in>set (loc_before l). x_end r \<le> a \<Longrightarrow> a \<le> x \<Longrightarrow> x < x_start (loc_value l) \<Longrightarrow> row_at t x = None"
  using loc_seg_at [of x_start x_end l] assms by (auto simp: row_ok_def row_at_def)

lemma band_loc:
  assumes "banded_ok s" "loc_tree l = bands s" "loc_ok l"
  shows "y_start (loc_value l) < y_end (loc_value l)" "row_ok (regions (loc_value l))"
    "y_start (loc_value l) \<le> y \<Longrightarrow> y < y_end (loc_value l) \<Longrightarrow> pixel_at s x y = row_at (regions (loc_value l)) x"
    "\<forall>r\<in>set (loc_before l). y_end r \<le> a \<Longrightarrow> a \<le> y \<Longrightarrow> y < y_start (loc_value l) \<Longrightarrow> pixel_at s x y = None"
  using loc_seg_at [of y_start y_end l] assms by (auto simp: banded_ok_def pixel_at_def)

lemma all_in_range_spec:
  assumes "row_ok (regions b)"
  shows "all_in_range b xs xe (\<lambda>_ _. P) = Some (\<forall>x. xs \<le> x \<and> x < xe \<longrightarrow> P (row_at (regions b) x))"
proof (induction "nat (xe - xs)" arbitrary: xs rule: less_induct)
  case less
  let ?g = "\<lambda>(x0::int) (x1::int) value st. if P value then (True, st) else (False, False)"
  from assms show ?case
  proof (cases rule: first_region_cases [where xs = xs and xe = xe])
    case none
    then show ?thesis by (auto simp: all_in_range_def for_all_in_range.simps [of b xs])
  next
    case (some node)
    let ?r = "loc_value node" and ?m = "min xe (x_end (loc_value node))"
    note rl = region_loc [OF assms some(2,3)]
    have step: "all_in_range b xs xe (\<lambda>_ _. P) =
        (if x_start ?r > xs \<and> \<not> P None then Some False
         else if \<not> P (Some (reg_value ?r)) then Some False else all_in_range b ?m xe (\<lambda>_ _. P))"
      using some(1) by (auto simp: all_in_range_def for_all_in_range.simps [of b xs])
    have IH: "all_in_range b ?m xe (\<lambda>_ _. P) = Some (\<forall>x. ?m \<le> x \<and> x < xe \<longrightarrow> P (row_at (regions b) x))"
      by (rule less) (use some in auto)
    have gap: "row_at (regions b) x = None" if "xs \<le> x" "x < x_start ?r" for x using rl(3) [OF some(7)] that by blast
    have in_r: "row_at (regions b) x = Some (reg_value ?r)" if "x_start ?r \<le> x" "x < ?m" for x using rl(2) that by simp
    have "(\<forall>x. xs \<le> x \<and> x < xe \<longrightarrow> P (row_at (regions b) x)) \<longleftrightarrow>
        (x_start ?r > xs \<longrightarrow> P None) \<and> P (Some (reg_value ?r)) \<and> (\<forall>x. ?m \<le> x \<and> x < xe \<longrightarrow> P (row_at (regions b) x))"
      (is "?all \<longleftrightarrow> ?parts")
    proof
      assume all: ?all
      have "P (row_at (regions b) (max xs (x_start ?r)))" using all some(4,6) by auto
      then have "P (Some (reg_value ?r))" using in_r [of "max xs (x_start ?r)"] some(4-6) rl(1) by auto
      moreover have "P (row_at (regions b) xs)" using all some(4) by auto
      then have "x_start ?r > xs \<longrightarrow> P None" using gap [of xs] by auto
      ultimately show ?parts using all some(4,5) by auto
    next
      assume parts: ?parts
      show ?all
      proof (intro allI impI)
        fix x assume "xs \<le> x \<and> x < xe"
        then consider "xs \<le> x" "x < x_start ?r" | "x_start ?r \<le> x" "x < ?m" | "?m \<le> x" "x < xe" by linarith
        then show "P (row_at (regions b) x)" by cases (use parts gap in_r in auto)
      qed
    qed
    then show ?thesis unfolding step IH by auto
  qed
qed

section \<open>Growing a rectangle\<close>

text \<open>A rectangle all of whose pixels have one value.\<close>

definition uniform :: "'v banded \<Rightarrow> 'v \<Rightarrow> rect \<Rightarrow> bool" where
  "uniform s v r \<longleftrightarrow> \<not> rect_is_empty r \<and> (\<forall>x y. contains_point r (point_new x y) \<longrightarrow> pixel_at s x y = Some v)"

lemma set_br_sel [simp]:
  "rtl (set_br_x x r) = rtl r" "px (rbr (set_br_x x r)) = x" "py (rbr (set_br_x x r)) = py (rbr r)"
  "rtl (set_br_y y r) = rtl r" "px (rbr (set_br_y y r)) = px (rbr r)" "py (rbr (set_br_y y r)) = y"
  by (simp_all add: set_br_x_def set_br_y_def)

lemma rect_grow_x_spec:
  assumes "row_ok t" "loc_tree node = t" "loc_ok node" "reg_value (loc_value node) = v"
    and "px (rbr rect) = min (px (rbr boundary)) (x_end (loc_value node))"
    and "\<forall>x. px (rtl rect) \<le> x \<and> x < px (rbr rect) \<longrightarrow> row_at t x = Some v"
  shows "\<exists>xr. rect_grow_x boundary node rect = Some (set_br_x xr rect) \<and> px (rbr rect) \<le> xr \<and> xr \<le> px (rbr boundary) \<and>
           (\<forall>x. px (rtl rect) \<le> x \<and> x < xr \<longrightarrow> row_at t x = Some v)"
  using assms(2-)
proof (induction "length (loc_after node)" arbitrary: node rect rule: less_induct)
  case less
  have stop: ?case if "rect_grow_x boundary node rect = Some rect"
    using that less.prems by (intro exI [of _ "px (rbr rect)"]) (auto simp: set_br_x_def)
  have d: "disjoint x_start x_end (inorder (loc_tree node))" using assms(1) less.prems(1) by (simp add: row_ok_def)
  show ?case
  proof (cases "px (rbr rect) < px (rbr boundary)")
    case in_boundary: True
    show ?thesis
    proof (cases "tree_successor node")
      case (Some succ)
      note nx = loc_next [OF d less.prems(2) Some]
      show ?thesis
      proof (cases "x_start (loc_value succ) = x_end (loc_value node) \<and> reg_value (loc_value succ) = v")
        case True
        let ?r = "set_br_x (min (px (rbr boundary)) (x_end (loc_value succ))) rect"
        have eq: "rect_grow_x boundary node rect = rect_grow_x boundary succ ?r"
          using Some True less.prems(3) in_boundary by (subst rect_grow_x.simps) simp
        have "row_at t x = Some v" if "px (rtl rect) \<le> x" "x < px (rbr ?r)" for x
        proof (cases "x < px (rbr rect)")
          case False
          then show ?thesis using region_loc(2) [of t succ x] that nx(1,2) assms(1) less.prems(1,4) True in_boundary by auto
        qed (use less.prems(5) that in simp)
        moreover have "loc_tree succ = t" using nx(1) less.prems(1) by simp
        ultimately obtain xr where "rect_grow_x boundary succ ?r = Some (set_br_x xr ?r)" "px (rbr ?r) \<le> xr"
          "xr \<le> px (rbr boundary)" "\<forall>x. px (rtl ?r) \<le> x \<and> x < xr \<longrightarrow> row_at t x = Some v"
          using less.hyps [OF nx(3), of ?r] nx(2) True by auto
        moreover have "set_br_x xr ?r = set_br_x xr rect" by (simp add: set_br_x_def)
        ultimately show ?thesis using eq nx(5) True less.prems(4) in_boundary by (intro exI [of _ xr]) auto
      next
        case False
        then show ?thesis using Some less.prems(3) by (intro stop) (subst rect_grow_x.simps, auto)
      qed
    next
      case None
      then show ?thesis by (intro stop) (subst rect_grow_x.simps, simp)
    qed
  next
    case False
    then show ?thesis by (intro stop) (subst rect_grow_x.simps, simp)
  qed
qed

lemma rect_grow_y_spec:
  assumes "banded_ok s" "loc_tree node = bands s" "loc_ok node"
    and "py (rbr rect) = min (py (rbr boundary)) (y_end (loc_value node))" "uniform s v rect"
  shows "\<exists>yb k. rect_grow_y boundary node rect v draining = Some (set_br_y yb rect, k) \<and>
           py (rbr rect) \<le> yb \<and> yb \<le> py (rbr boundary) \<and> uniform s v (set_br_y yb rect)"
  using assms(2-)
proof (induction "length (loc_after node)" arbitrary: node rect rule: less_induct)
  case less
  have stop: ?case if "rect_grow_y boundary node rect v draining = Some (rect, y_start (loc_value node))"
  proof -
    have "set_br_y (py (rbr rect)) rect = rect" by (simp add: set_br_y_def)
    with that less.prems(4) less.prems(3) show ?thesis by (metis min.cobounded1 order_refl)
  qed
  have d: "disjoint y_start y_end (inorder (loc_tree node))" using assms(1) less.prems(1) by (simp add: banded_ok_def)
  show ?case
  proof (cases "py (rbr rect) < py (rbr boundary)")
    case in_boundary: True
    show ?thesis
    proof (cases "tree_successor node")
      case (Some succ)
      note nx = loc_next [OF d less.prems(2) Some]
      have st: "loc_tree succ = bands s" using nx(1) less.prems(1) by simp
      note bl = band_loc [OF assms(1) st nx(2)]
      note air = all_in_range_spec [OF bl(2), where P = "\<lambda>value. value = Some v"]
      let ?r = "set_br_y (min (py (rbr boundary)) (y_end (loc_value succ))) rect"
      have step: "rect_grow_y boundary node rect v draining = Some (rect, y_start (loc_value node)) \<or>
          y_start (loc_value succ) = y_end (loc_value node) \<and>
          (\<forall>x. px (rtl rect) \<le> x \<and> x < px (rbr rect) \<longrightarrow> row_at (regions (loc_value succ)) x = Some v) \<and>
          rect_grow_y boundary node rect v draining = rect_grow_y boundary succ ?r v draining"
        using Some in_boundary air [of "px (rtl rect)" "px (rbr rect)"]
        unfolding rect_grow_y.simps [of boundary node rect v draining] by auto
      then show ?thesis
      proof (elim disjE conjE)
        assume t: "y_start (loc_value succ) = y_end (loc_value node)"
          "\<forall>x. px (rtl rect) \<le> x \<and> x < px (rbr rect) \<longrightarrow> row_at (regions (loc_value succ)) x = Some v"
          and eq: "rect_grow_y boundary node rect v draining = rect_grow_y boundary succ ?r v draining"
        have edge: "py (rbr rect) = y_start (loc_value succ)" using less.prems(3) in_boundary t(1) by simp
        have "uniform s v ?r"
          unfolding uniform_def
        proof (intro conjI allI impI)
          show "\<not> rect_is_empty ?r" using less.prems(4) nx(5) edge in_boundary by (auto simp: uniform_def rect_is_empty_def)
          fix x y assume p: "contains_point ?r (point_new x y)"
          show "pixel_at s x y = Some v"
          proof (cases "y < y_start (loc_value succ)")
            case True
            then have "contains_point rect (point_new x y)" using p edge by (simp add: contains_point_def)
            with less.prems(4) show ?thesis by (simp add: uniform_def)
          next
            case False
            then show ?thesis using bl(3) [of y x] t(2) p by (simp add: contains_point_def)
          qed
        qed
        then obtain yb k where "rect_grow_y boundary succ ?r v draining = Some (set_br_y yb ?r, k)" "py (rbr ?r) \<le> yb"
          "yb \<le> py (rbr boundary)" "uniform s v (set_br_y yb ?r)"
          using less.hyps [OF nx(3) st nx(2), of ?r] by auto
        moreover have "set_br_y yb ?r = set_br_y yb rect" by (simp add: set_br_y_def)
        ultimately show ?thesis using eq nx(5) t(1) less.prems(3) in_boundary
          by (intro exI [of _ yb] exI [of _ k]) auto
      qed (rule stop)
    next
      case None
      then show ?thesis by (intro stop) (subst rect_grow_y.simps, simp)
    qed
  next
    case False
    then show ?thesis by (intro stop) (subst rect_grow_y.simps, simp)
  qed
qed

section \<open>Finding the next rectangle\<close>

text \<open>
  The search skips pixels without a value only; what it finds is the first rectangle behind the cursor.  The
  cursor of a draining iterator always stands at the left edge of the boundary.
\<close>

definition blank :: "'v banded \<Rightarrow> rect \<Rightarrow> int \<Rightarrow> int \<Rightarrow> bool" where
  "blank s bd y0 y1 \<longleftrightarrow>
     (\<forall>x y. px (rtl bd) \<le> x \<and> x < px (rbr bd) \<and> y0 \<le> y \<and> y < y1 \<longrightarrow> pixel_at s x y = None)"

definition found_ok :: "'v banded \<Rightarrow> rect \<Rightarrow> point \<Rightarrow> ('v band, no_augment) location \<Rightarrow>
    ('v region, no_augment) location \<Rightarrow> rect \<Rightarrow> bool" where
  "found_ok s bd cur bn rn rect \<longleftrightarrow>
     loc_tree bn = bands s \<and> loc_ok bn \<and> loc_tree rn = regions (loc_value bn) \<and> loc_ok rn \<and>
     rect_intersect (rect_new (x_start (loc_value rn)) (y_start (loc_value bn)) (x_end (loc_value rn)) (y_end (loc_value bn)))
       \<lparr>rtl = cur, rbr = rbr bd\<rparr> = Some rect"

lemma find_next_rect_spec:
  assumes "banded_ok s" "px (rtl boundary) \<le> px cursor"
  shows "\<exists>found cur. find_next_rect s boundary cursor = Some (found, cur) \<and> px (rtl boundary) \<le> px cur \<and>
    (px cursor = px (rtl boundary) \<longrightarrow>
       px cur = px (rtl boundary) \<and> blank s boundary (py cursor) (min (py cur) (py (rbr boundary)))) \<and>
    (case found of
       None \<Rightarrow> py cur = py (rbr boundary)
     | Some (bn, rn, rect) \<Rightarrow> py cursor \<le> py cur \<and> found_ok s boundary cur bn rn rect)"
  using assms(2)
proof (induction "nat (py (rbr boundary) - py cursor)" arbitrary: cursor rule: less_induct)
  case less
  from assms(1) show ?case
  proof (cases rule: first_band_cases [where ys = "py cursor" and ye = "py (rbr boundary)"])
    case none
    then show ?thesis using less.prems by (subst find_next_rect.simps) (auto simp: blank_def)
  next
    case (some bn)
    let ?b = "loc_value bn"
    note bl = band_loc [OF assms(1) some(2,3)]
    show ?thesis using bl(2)
    proof (cases rule: first_region_cases [where xs = "px cursor" and xe = "px (rbr boundary)"])
      case none
      define cur where "cur = cursor\<lparr>px := px (rtl boundary), py := y_end ?b\<rparr>"
      have step: "find_next_rect s boundary cursor = find_next_rect s boundary cur"
        using some(1) none(1) by (subst find_next_rect.simps) (simp add: cur_def)
      have cur: "px cur = px (rtl boundary)" "py cur = y_end ?b" by (simp_all add: cur_def)
      have skip: "pixel_at s x y = None"
        if "px cursor \<le> x" "x < px (rbr boundary)" "py cursor \<le> y" "y < y_end ?b" for x y
        using that none(2) bl(3) [of y x] bl(4) [OF some(7), of y x] by (cases "y < y_start ?b") auto
      have "nat (py (rbr boundary) - py cur) < nat (py (rbr boundary) - py cursor)" using some(4,5) cur(2) by auto
      from less.hyps [OF this] cur(1) obtain found cur' where
        res: "find_next_rect s boundary cur = Some (found, cur')" "px cur' = px (rtl boundary)"
        and bk: "blank s boundary (py cur) (min (py cur') (py (rbr boundary)))"
        and fd: "case found of None \<Rightarrow> py cur' = py (rbr boundary)
          | Some (bn, rn, rect) \<Rightarrow> py cur \<le> py cur' \<and> found_ok s boundary cur' bn rn rect"
        by (metis order_refl)
      have "blank s boundary (py cursor) (min (py cur') (py (rbr boundary)))" if "px cursor = px (rtl boundary)"
        unfolding blank_def
      proof (intro allI impI)
        fix x y
        assume "px (rtl boundary) \<le> x \<and> x < px (rbr boundary) \<and> py cursor \<le> y \<and> y < min (py cur') (py (rbr boundary))"
        then show "pixel_at s x y = None" using bk skip [of x y] that cur(2) by (cases "y < y_end ?b") (auto simp: blank_def)
      qed
      with res fd some(5) cur show ?thesis unfolding step by (auto split: option.splits)
    next
      case region: (some rn)
      have "rect_intersect (rect_new (x_start (loc_value rn)) (y_start ?b) (x_end (loc_value rn)) (y_end ?b))
          \<lparr>rtl = cursor, rbr = rbr boundary\<rparr> \<noteq> None"
        using some(4-6) region(4-6) bl(1) region_loc(1) [OF bl(2) region(2,3)] by (simp add: rect_intersect_def Let_def)
      with some region less.prems show ?thesis
        by (subst find_next_rect.simps) (auto simp: found_ok_def blank_def)
    qed
  qed
qed

lemma found_ok_rect:
  assumes "banded_ok s" "found_ok s bd cur bn rn rect"
  shows "px (rbr rect) = min (px (rbr bd)) (x_end (loc_value rn))" "py (rbr rect) = min (py (rbr bd)) (y_end (loc_value bn))"
    "px cur \<le> px (rtl rect)" "py cur \<le> py (rtl rect)" "\<not> rect_is_empty rect"
    "y_start (loc_value bn) \<le> py (rtl rect)" "x_start (loc_value rn) \<le> px (rtl rect)"
  using assms(2)
  by (auto simp: found_ok_def rect_intersect_def Let_def rect_is_empty_def split: if_splits)

text \<open>The grown rectangle has one value throughout and stays between the cursor and the boundary.\<close>

lemma grow_spec:
  assumes "banded_ok s" "found_ok s bd cur bn rn rect" "v = reg_value (loc_value rn)"
  shows "\<exists>rect1 rect2 k. rect_grow_x bd rn rect = Some rect1 \<and> rect_grow_y bd bn rect1 v draining = Some (rect2, k) \<and>
    uniform s v rect2 \<and> px cur \<le> px (rtl rect2) \<and> py cur \<le> py (rtl rect2) \<and>
    px (rbr rect2) \<le> px (rbr bd) \<and> py (rbr rect2) \<le> py (rbr bd)"
proof -
  have loc: "loc_tree bn = bands s" "loc_ok bn" "loc_tree rn = regions (loc_value bn)" "loc_ok rn"
    using assms(2) by (simp_all add: found_ok_def)
  note r = found_ok_rect [OF assms(1,2)] and bl = band_loc [OF assms(1) loc(1,2)]
  have row: "\<forall>x. px (rtl rect) \<le> x \<and> x < px (rbr rect) \<longrightarrow> row_at (regions (loc_value bn)) x = Some v"
    using region_loc(2) [OF bl(2) loc(3,4)] r(1,7) assms(3) by auto
  from rect_grow_x_spec [OF bl(2) loc(3,4) assms(3) [symmetric] r(1) row] obtain xr where
    gx: "rect_grow_x bd rn rect = Some (set_br_x xr rect)" "px (rbr rect) \<le> xr" "xr \<le> px (rbr bd)"
    "\<forall>x. px (rtl rect) \<le> x \<and> x < xr \<longrightarrow> row_at (regions (loc_value bn)) x = Some v" by blast
  have "uniform s v (set_br_x xr rect)"
    using gx(2,4) r(2,5,6) bl(3) by (auto simp: uniform_def rect_is_empty_def contains_point_def)
  with rect_grow_y_spec [OF assms(1) loc(1,2), of "set_br_x xr rect" bd v draining] r(2) obtain yb k where
    "rect_grow_y bd bn (set_br_x xr rect) v draining = Some (set_br_y yb (set_br_x xr rect), k)"
    "yb \<le> py (rbr bd)" "uniform s v (set_br_y yb (set_br_x xr rect))" by auto
  with gx(1,3) r(3,4) have "rect_grow_x bd rn rect = Some (set_br_x xr rect) \<and>
    rect_grow_y bd bn (set_br_x xr rect) v draining = Some (set_br_y yb (set_br_x xr rect), k) \<and>
    uniform s v (set_br_y yb (set_br_x xr rect)) \<and> px cur \<le> px (rtl (set_br_y yb (set_br_x xr rect))) \<and>
    py cur \<le> py (rtl (set_br_y yb (set_br_x xr rect))) \<and> px (rbr (set_br_y yb (set_br_x xr rect))) \<le> px (rbr bd) \<and>
    py (rbr (set_br_y yb (set_br_x xr rect))) \<le> py (rbr bd)" by simp
  then show ?thesis by blast
qed

section \<open>Draining\<close>

definition drain_inv :: "'v banded_iter \<Rightarrow> bool" where
  "drain_inv it \<longleftrightarrow> banded_ok (it_region it) \<and> px (it_cursor it) = px (rtl (it_boundary it)) \<and>
     py (rtl (it_boundary it)) \<le> py (it_cursor it) \<and>
     blank (it_region it) (it_boundary it) (py (rtl (it_boundary it))) (min (py (it_cursor it)) (py (rbr (it_boundary it))))"

definition rect_within :: "rect \<Rightarrow> rect \<Rightarrow> bool" where
  "rect_within r bd \<longleftrightarrow> px (rtl bd) \<le> px (rtl r) \<and> py (rtl bd) \<le> py (rtl r) \<and>
     px (rbr r) \<le> px (rbr bd) \<and> py (rbr r) \<le> py (rbr bd)"

definition erased :: "'v banded \<Rightarrow> rect \<Rightarrow> 'v banded \<Rightarrow> bool" where
  "erased s r s' \<longleftrightarrow> banded_ok s' \<and>
     (\<forall>x y. pixel_at s' x y = (if contains_point r (point_new x y) then None else pixel_at s x y))"

lemma within_contains: "rect_within r bd \<Longrightarrow> contains_point r p \<Longrightarrow> contains_point bd p"
  by (auto simp: rect_within_def contains_point_def)

lemma blank_join:
  "blank s bd a (min b e) \<Longrightarrow> blank s bd b (min c e) \<Longrightarrow> blank s bd a (min c e)"
  unfolding blank_def by (metis min_less_iff_conj not_le)

lemma drain_next_spec:
  assumes "drain_inv it"
  shows "\<exists>item it'. drain_next it = Some (item, it') \<and> it_boundary it' = it_boundary it \<and>
    (case item of
       None \<Rightarrow> it_region it' = it_region it \<and>
               blank (it_region it) (it_boundary it) (py (rtl (it_boundary it))) (py (rbr (it_boundary it)))
     | Some (r, v) \<Rightarrow> drain_inv it' \<and> rect_within r (it_boundary it) \<and> uniform (it_region it) v r \<and>
                      erased (it_region it) r (it_region it'))"
proof -
  let ?s = "it_region it" and ?bd = "it_boundary it" and ?c = "it_cursor it"
  have ok: "banded_ok ?s" and c: "px ?c = px (rtl ?bd)" "py (rtl ?bd) \<le> py ?c"
    and bk: "blank ?s ?bd (py (rtl ?bd)) (min (py ?c) (py (rbr ?bd)))" using assms by (simp_all add: drain_inv_def)
  from find_next_rect_spec [OF ok, of ?bd ?c] c(1) obtain found cur where
    f: "find_next_rect ?s ?bd ?c = Some (found, cur)" "px cur = px (rtl ?bd)" "blank ?s ?bd (py ?c) (min (py cur) (py (rbr ?bd)))"
      "case found of None \<Rightarrow> py cur = py (rbr ?bd) | Some (bn, rn, rect) \<Rightarrow> py ?c \<le> py cur \<and> found_ok ?s ?bd cur bn rn rect"
    by auto
  note bk' = blank_join [OF bk f(3)]
  show ?thesis
  proof (cases found)
    case None
    with f bk' show ?thesis by (simp add: drain_next_def)
  next
    case (Some q)
    then obtain bn rn rect where q: "found = Some (bn, rn, rect)" by (cases q) auto
    let ?v = "reg_value (loc_value rn)"
    have le: "py ?c \<le> py cur" and fok: "found_ok ?s ?bd cur bn rn rect" using f(4) q by simp_all
    from grow_spec [OF ok fok refl, of True] obtain rect1 r k where
      g: "rect_grow_x ?bd rn rect = Some rect1" "rect_grow_y ?bd bn rect1 ?v True = Some (r, k)" "uniform ?s ?v r"
        "px cur \<le> px (rtl r)" "py cur \<le> py (rtl r)" "px (rbr r) \<le> px (rbr ?bd)" "py (rbr r) \<le> py (rbr ?bd)" by blast
    have "\<not> rect_is_empty r" using g(3) by (simp add: uniform_def)
    from banded_update_spec [OF ok this, of "\<lambda>_. None"] obtain s' where
      s': "banded_remove ?s r = Some s'" "erased ?s r s'" by (auto simp: banded_remove_def erased_def)
    let ?it = "it\<lparr>it_region := s', it_cursor := cur\<rparr>"
    have "drain_next it = Some (Some (r, ?v), ?it)" using f(1) q g(1,2) s'(1) by (simp add: drain_next_def)
    moreover have "rect_within r ?bd" using g(4-7) f(2) le c(2) by (simp add: rect_within_def)
    moreover have "drain_inv ?it"
      using s'(2) bk' f(2) le c(2) by (simp add: drain_inv_def erased_def blank_def)
    ultimately show ?thesis using g(3) s'(2) by (intro exI [of _ "Some (r, ?v)"] exI [of _ ?it]) simp
  qed
qed

text \<open>The pixels of the boundary that still have a value: every rectangle that is drained takes some of them.\<close>

definition live :: "'v banded \<Rightarrow> rect \<Rightarrow> (int \<times> int) set" where
  "live s bd = {(x, y). contains_point bd (point_new x y) \<and> pixel_at s x y \<noteq> None}"

lemma finite_live: "finite (live s bd)"
proof (rule finite_subset)
  show "live s bd \<subseteq> {px (rtl bd)..<px (rbr bd)} \<times> {py (rtl bd)..<py (rbr bd)}"
    by (auto simp: live_def contains_point_def)
qed simp

lemma live_erased:
  assumes "uniform s v r" "rect_within r bd" "erased s r s'"
  shows "card (live s' bd) < card (live s bd)"
proof (rule psubset_card_mono [OF finite_live])
  have "contains_point r (rtl r)" using assms(1) by (auto simp: uniform_def rect_is_empty_def contains_point_def)
  then have p: "contains_point r (point_new (px (rtl r)) (py (rtl r)))" by (simp add: contains_point_def)
  then have "(px (rtl r), py (rtl r)) \<in> live s bd" "(px (rtl r), py (rtl r)) \<notin> live s' bd"
    using assms within_contains [OF assms(2) p] by (auto simp: live_def uniform_def erased_def)
  moreover have "live s' bd \<subseteq> live s bd" using assms(3) by (auto simp: live_def erased_def split: if_splits)
  ultimately show "live s' bd \<subset> live s bd" by blast
qed

definition pieces_exact :: "'v banded \<Rightarrow> rect \<Rightarrow> (rect \<times> 'v) list \<Rightarrow> bool" where
  "pieces_exact s bd rs \<longleftrightarrow>
     (\<forall>(r, v)\<in>set rs. \<not> rect_is_empty r \<and> rect_within r bd) \<and>
     sorted_wrt (\<lambda>(r, _) (r', _). \<forall>p. \<not> (contains_point r p \<and> contains_point r' p)) rs \<and>
     (\<forall>x y v. contains_point bd (point_new x y) \<longrightarrow>
        (pixel_at s x y = Some v \<longleftrightarrow> (\<exists>r. (r, v) \<in> set rs \<and> contains_point r (point_new x y))))"

lemma pieces_exact_Nil: "blank s bd (py (rtl bd)) (py (rbr bd)) \<Longrightarrow> pieces_exact s bd []"
  by (auto simp: pieces_exact_def blank_def contains_point_def)

lemma pieces_exact_Cons:
  assumes "uniform s v r" "rect_within r bd" "erased s r s'" "pieces_exact s' bd rs"
  shows "pieces_exact s bd ((r, v) # rs)"
proof -
  have un: "\<And>x y. contains_point r (point_new x y) \<Longrightarrow> pixel_at s x y = Some v" "\<not> rect_is_empty r"
    using assms(1) by (auto simp: uniform_def)
  have er: "pixel_at s' x y = (if contains_point r (point_new x y) then None else pixel_at s x y)" for x y
    using assms(3) by (simp add: erased_def)
  have rs: "\<forall>(r, v)\<in>set rs. \<not> rect_is_empty r \<and> rect_within r bd"
    "sorted_wrt (\<lambda>(r, _) (r', _). \<forall>p. \<not> (contains_point r p \<and> contains_point r' p)) rs"
    and px: "\<And>x y w. contains_point bd (point_new x y) \<Longrightarrow>
        pixel_at s' x y = Some w \<longleftrightarrow> (\<exists>r. (r, w) \<in> set rs \<and> contains_point r (point_new x y))"
    using assms(4) by (auto simp: pieces_exact_def)
  have sep: "\<not> (contains_point r p \<and> contains_point r' p)" if "(r', w) \<in> set rs" for r' w p
  proof
    assume p: "contains_point r p \<and> contains_point r' p"
    then have q: "contains_point r (point_new (px p) (py p))" "contains_point r' (point_new (px p) (py p))"
      by (simp_all add: contains_point_def)
    with px [of "px p" "py p" w] within_contains [OF assms(2)] that have "pixel_at s' (px p) (py p) = Some w" by blast
    with er q(1) show False by simp
  qed
  have "pixel_at s x y = Some w \<longleftrightarrow> (\<exists>r'. (r', w) \<in> set ((r, v) # rs) \<and> contains_point r' (point_new x y))"
    if "contains_point bd (point_new x y)" for x y w
  proof (cases "contains_point r (point_new x y)")
    case True
    then have "\<not> (\<exists>r'. (r', w) \<in> set rs \<and> contains_point r' (point_new x y))" using sep by blast
    with True un(1) show ?thesis by auto
  next
    case False
    with px [OF that, of w] er show ?thesis by auto
  qed
  then show ?thesis using rs un(2) assms(2) sep by (fastforce simp: pieces_exact_def)
qed

lemma erased_trans: "erased s r s1 \<Longrightarrow> erased s1 bd s2 \<Longrightarrow> rect_within r bd \<Longrightarrow> erased s bd s2"
  using within_contains by (auto simp: erased_def)

lemma drain_run:
  assumes "drain_inv it"
  shows "\<exists>rs it'. run_iter drain_next it = Some (rs, it') \<and> pieces_exact (it_region it) (it_boundary it) rs \<and>
           erased (it_region it) (it_boundary it) (it_region it')"
  using assms
proof (induction "card (live (it_region it) (it_boundary it))" arbitrary: it rule: less_induct)
  case less
  from drain_next_spec [OF less.prems] obtain item it1 where
    n: "drain_next it = Some (item, it1)" "it_boundary it1 = it_boundary it"
      "case item of None \<Rightarrow> it_region it1 = it_region it \<and>
           blank (it_region it) (it_boundary it) (py (rtl (it_boundary it))) (py (rbr (it_boundary it)))
       | Some (r, v) \<Rightarrow> drain_inv it1 \<and> rect_within r (it_boundary it) \<and> uniform (it_region it) v r \<and>
           erased (it_region it) r (it_region it1)" by blast
  show ?case
  proof (cases item)
    case None
    have "erased (it_region it) (it_boundary it) (it_region it)"
      using None n(3) less.prems by (auto simp: erased_def drain_inv_def blank_def contains_point_def)
    with None n show ?thesis by (subst run_iter.simps) (auto intro: pieces_exact_Nil)
  next
    case (Some q)
    then obtain r v where q: "item = Some (r, v)" by (cases q) auto
    with n(3) have r: "drain_inv it1" "rect_within r (it_boundary it)" "uniform (it_region it) v r"
      "erased (it_region it) r (it_region it1)" by auto
    from less.hyps [OF _ r(1)] live_erased [OF r(3,2,4)] n(2) obtain rs it' where
      rs: "run_iter drain_next it1 = Some (rs, it')" "pieces_exact (it_region it1) (it_boundary it) rs"
        "erased (it_region it1) (it_boundary it) (it_region it')" by auto
    from pieces_exact_Cons [OF r(3,2,4) rs(2)] erased_trans [OF r(4) rs(3) r(2)] n(1) q rs(1)
    show ?thesis by (subst run_iter.simps) auto
  qed
qed

section \<open>Properties\<close>

definition demo :: "nat banded" where
  "demo = \<lparr>bands = Node Black Leaf
     \<lparr>y_start = 0, y_end = 40, regions = Node Black Leaf (region_new 10 15 1) (Some Unit)
        (Node Red Leaf (region_new 20 25 2) (Some Unit) Leaf)\<rparr> (Some Unit) Leaf\<rparr>"

lemma demo_ok: "banded_ok demo"
  by (simp add: demo_def banded_ok_def row_ok_def rb_wf_def disjoint_def unit_augment_def)

text \<open>
  C11.  Updating with a non-empty rectangle returns, keeps the bands and regions disjoint and in order, and
  applies the update function to exactly the pixels of the rectangle; no other pixel changes.
\<close>

theorem banded_update_correct:
  assumes "banded_ok s" "\<not> rect_is_empty rect"
  shows "\<exists>s'. banded_update s rect upd = Some s' \<and> banded_ok s' \<and>
    (\<forall>x y. pixel_at s' x y = (if contains_point rect (point_new x y) then upd (pixel_at s x y) else pixel_at s x y))"
  using assms by (rule banded_update_spec)

lemma banded_update_correct_witness:
  "\<exists>s'. banded_update demo (rect_new 12 5 22 50) (map_option Suc) = Some s' \<and> banded_ok s' \<and>
    pixel_at s' 12 5 = Some 2 \<and> pixel_at s' 11 5 = Some 1 \<and> pixel_at s' 16 5 = None"
proof -
  have "\<not> rect_is_empty (rect_new 12 5 22 50)" by (simp add: rect_is_empty_def)
  from banded_update_correct [OF demo_ok this, of "map_option Suc"] obtain s' where
    "banded_update demo (rect_new 12 5 22 50) (map_option Suc) = Some s'" "banded_ok s'"
    "\<And>x y. pixel_at s' x y = (if contains_point (rect_new 12 5 22 50) (point_new x y)
        then map_option Suc (pixel_at demo x y) else pixel_at demo x y)" by blast
  moreover have "pixel_at demo 12 5 = Some 1" "pixel_at demo 11 5 = Some 1" "pixel_at demo 16 5 = None"
    by (simp_all add: demo_def pixel_at_def row_at_def seg_at_Cons)
  ultimately show ?thesis by (simp add: contains_point_def)
qed

text \<open>
  Coalescing changes no pixel and leaves nothing to merge: no two touching regions of a band have the
  same value, and no two touching bands have the same regions.
\<close>

theorem banded_coalesce_correct:
  assumes "banded_ok s"
  shows "banded_ok (banded_coalesce s) \<and> coalesced (banded_coalesce s) \<and>
         (\<forall>x y. pixel_at (banded_coalesce s) x y = pixel_at s x y)"
  using banded_coalesce_spec [OF assms] by blast

lemma banded_coalesce_correct_witness: "coalesced (banded_coalesce demo) \<and> pixel_at (banded_coalesce demo) 12 5 = Some 1"
proof -
  have "pixel_at demo 12 5 = Some 1" by (simp add: demo_def pixel_at_def row_at_def seg_at_Cons)
  with banded_coalesce_correct [OF demo_ok] show ?thesis by simp
qed

text \<open>
   Updating values keeps the shape: every pixel with a value gets the function of its stored rectangle
  and its old value, and the others stay without one.
\<close>

theorem banded_update_values_correct:
  assumes "banded_ok s"
  shows "banded_ok (banded_update_values s upd) \<and>
    (\<forall>x y. pixel_at (banded_update_values s upd) x y =
       (case (rect_around s x y, pixel_at s x y) of (Some r, Some v) \<Rightarrow> Some (upd r v) | _ \<Rightarrow> None))"
  using banded_update_values_spec [OF assms] by blast

lemma banded_update_values_correct_witness:
  "pixel_at (banded_update_values demo (\<lambda>_ v. v + 3)) 12 5 = Some 4"
proof -
  have "pixel_at demo 12 5 = Some 1" "rect_around demo 12 5 = Some (rect_new 10 0 15 40)"
    by (simp_all add: demo_def pixel_at_def row_at_def rect_around_def seg_at_Cons)
  with banded_update_values_correct [OF demo_ok, of "\<lambda>_ v. v + 3"] show ?thesis by simp
qed

text \<open>
  C25.  Running the draining iterator to its end returns.  The rectangles it yields are non-empty, lie in the
  boundary, are pairwise disjoint and show exactly the values of the boundary's pixels; afterwards these
  pixels have no value and every other pixel is unchanged.
\<close>

theorem drain_correct:
  assumes "banded_ok s"
  shows "\<exists>rs it. run_iter drain_next (banded_drain s bd) = Some (rs, it) \<and> pieces_exact s bd rs \<and>
           erased s bd (it_region it)"
proof -
  have "drain_inv (banded_drain s bd)" using assms by (auto simp: drain_inv_def banded_drain_def blank_def)
  from drain_run [OF this] show ?thesis by (simp add: banded_drain_def)
qed

lemma drain_correct_witness:
  "\<exists>rs it. run_iter drain_next (banded_drain demo (rect_new 0 0 30 30)) = Some (rs, it) \<and>
     pieces_exact demo (rect_new 0 0 30 30) rs \<and> erased demo (rect_new 0 0 30 30) (it_region it)"
  using drain_correct [OF demo_ok] by blast

text \<open>
  The query iterator always returns.  What it yields is a non-empty rectangle of pixels that all have the
  value it is reported with, between the cursor and the lower right corner of the boundary.
\<close>

theorem query_next_sound:
  assumes "banded_ok (it_region it)" "px (rtl (it_boundary it)) \<le> px (it_cursor it)"
  shows "\<exists>item it'. query_next it = Some (item, it') \<and> it_region it' = it_region it \<and>
    (case item of None \<Rightarrow> True
     | Some (r, v) \<Rightarrow> uniform (it_region it) v r \<and> px (rtl (it_boundary it)) \<le> px (rtl r) \<and>
         py (it_cursor it) \<le> py (rtl r) \<and> px (rbr r) \<le> px (rbr (it_boundary it)) \<and> py (rbr r) \<le> py (rbr (it_boundary it)))"
proof -
  let ?s = "it_region it" and ?bd = "it_boundary it" and ?c = "it_cursor it"
  from find_next_rect_spec [OF assms] obtain found cur where
    f: "find_next_rect ?s ?bd ?c = Some (found, cur)" "px (rtl ?bd) \<le> px cur"
      "case found of None \<Rightarrow> py cur = py (rbr ?bd) | Some (bn, rn, rect) \<Rightarrow> py ?c \<le> py cur \<and> found_ok ?s ?bd cur bn rn rect"
    by auto
  show ?thesis
  proof (cases found)
    case None
    with f show ?thesis by (simp add: query_next_def)
  next
    case (Some q)
    then obtain bn rn rect where q: "found = Some (bn, rn, rect)" by (cases q) auto
    then have le: "py ?c \<le> py cur" and fok: "found_ok ?s ?bd cur bn rn rect" using f(3) by simp_all
    from grow_spec [OF assms(1) fok refl, of False] obtain rect1 r k where
      g: "rect_grow_x ?bd rn rect = Some rect1"
        "rect_grow_y ?bd bn rect1 (reg_value (loc_value rn)) False = Some (r, k)" "uniform ?s (reg_value (loc_value rn)) r"
        "px cur \<le> px (rtl r)" "py cur \<le> py (rtl r)" "px (rbr r) \<le> px (rbr ?bd)" "py (rbr r) \<le> py (rbr ?bd)" by blast
    then show ?thesis using f(1,2) q le by (simp add: query_next_def)
  qed
qed

lemma query_next_sound_witness:
  "\<exists>item it'. query_next (banded_query demo (rect_new 0 0 30 30)) = Some (item, it') \<and> it_region it' = demo"
  using query_next_sound [of "banded_query demo (rect_new 0 0 30 30)"] demo_ok by (auto simp: banded_query_def)

text \<open>
  A query can leave its boundary.  After a rectangle the cursor returns to the top of the band it stands
  in, not to the top of the boundary: here the second rectangle of a query of the rows 10 to 30 starts at row 0.
\<close>

theorem query_leaves_boundary:
  "map_option fst (run_iter query_next (banded_query demo (rect_new 10 10 30 30))) =
     Some [(rect_new 10 10 15 30, 1), (rect_new 20 0 25 30, 2)]"
  by code_simp

end
