(* ===== verification/Span_Alloc.thy ===== *)
theory Span_Alloc
  imports Intervals "HOL-Library.Monad_Syntax"
begin

text \<open>
  The span allocator (\<^verbatim>\<open>memory/virtual_alloc.rs\<close>): disjoint spans of an address range in a red-black tree
  whose nodes cache the extent and the largest gap of their subtree.  Addresses are integers; the spans of a good
  allocator lie in a range of 64-bit addresses, and the differences that the code forms on them are not negative
  (\<open>augment_asserts\<close>).  The one sum that can leave the type is that of the start of a block and its size, in an allocation;
  it is checked, and \<^term>\<open>None\<close> is the panic on an overflow.  The outcome of
  allocating a tree node is a parameter, since it comes from the direct allocator.
\<close>

section \<open>Data\<close>

record 'v span =
  sp_start :: int
  sp_end :: int
  sp_value :: 'v

record max_gap =
  min_addr :: int
  max_addr :: int
  mg_gap :: int

record 'v span_alloc =
  spans :: "('v span, max_gap) rbtree"
  range_start :: int
  range_end :: int

datatype memory_error = OutOfMemory | OutOfVirtual | SizeTooBig

datatype span_error = Memory memory_error | Exhausted | InvalidAddress | Overlapped

text \<open>
  The cached value of a node.  The two debug assertions of the code, that the subtrees lie before and behind the node, hold where
  the spans are apart; this is \<open>augment_asserts\<close> below.
\<close>

definition span_augment :: "'v span \<Rightarrow> max_gap option \<Rightarrow> max_gap option \<Rightarrow> max_gap" where
  "span_augment node left right =
     (let mg = 0; lo = sp_start node; hi = sp_end node;
          (mg, lo) = (case left of
             None \<Rightarrow> (mg, lo)
           | Some left \<Rightarrow> (max (max mg (mg_gap left)) (sp_start node - max_addr left), min lo (min_addr left)));
          (mg, hi) = (case right of
             None \<Rightarrow> (mg, hi)
           | Some right \<Rightarrow> (max (max mg (mg_gap right)) (min_addr right - sp_end node), max hi (max_addr right)))
      in \<lparr>min_addr = lo, max_addr = hi, mg_gap = mg\<rparr>)"

definition span_alloc_new :: "int \<Rightarrow> int \<Rightarrow> 'v span_alloc" where
  "span_alloc_new a b = \<lparr>spans = Leaf, range_start = a, range_end = b\<rparr>"

definition node_cmp :: "'v span \<Rightarrow> 'v span \<Rightarrow> ordering" where
  "node_cmp x y = cmp_of (sp_start x) (sp_start y)"

definition by_containing :: "int \<Rightarrow> 'v span \<Rightarrow> ordering" where
  "by_containing addr span =
     (if addr < sp_start span then Greater else if addr \<ge> sp_end span then Less else Equal)"

definition by_overlap :: "int \<Rightarrow> int \<Rightarrow> 'v span \<Rightarrow> ordering" where
  "by_overlap a b span =
     (if sp_end span \<le> a then Less else if sp_start span \<ge> b then Greater else Equal)"

definition addr_add :: "int \<Rightarrow> int \<Rightarrow> int option" where
  "addr_add a n = (if a + n < 2 ^ 64 then Some (a + n) else None)"

section \<open>Operations\<close>

text \<open>The cached value of a child, if there is a child; \<^term>\<open>None\<close> is the panic on a node without one.\<close>

fun child_gap :: "('a, 'v) rbtree \<Rightarrow> 'v option option" where
  "child_gap Leaf = Some None"
| "child_gap (Node c l x a r) = map_option Some a"

fun find_gap_loop :: "int \<Rightarrow> int \<Rightarrow> int \<Rightarrow> ('v span, max_gap) rbtree \<Rightarrow> (int \<times> int) option option" where
  "find_gap_loop sz tree_min tree_max Leaf = None"
| "find_gap_loop sz tree_min tree_max (Node c l node a r) =
     (case (child_gap l, child_gap r) of
        (Some left, Some right) \<Rightarrow>
          (let after_left = (\<lambda>left_end.
             let right_start = (case right of None \<Rightarrow> tree_max | Some right \<Rightarrow> min_addr right)
             in if sp_start node - left_end \<ge> sz then Some (Some (left_end, sp_start node))
                else if right_start - sp_end node \<ge> sz then Some (Some (sp_end node, right_start))
                else case right of
                       None \<Rightarrow> Some None
                     | Some right \<Rightarrow>
                         if mg_gap right \<ge> sz then find_gap_loop sz (sp_end node) tree_max r
                         else if tree_max - max_addr right \<ge> sz then Some (Some (max_addr right, tree_max))
                         else Some None)
           in case left of
                None \<Rightarrow> after_left tree_min
              | Some left \<Rightarrow>
                  if min_addr left - tree_min \<ge> sz then Some (Some (tree_min, min_addr left))
                  else if mg_gap left \<ge> sz then find_gap_loop sz tree_min (sp_start node) l
                  else after_left (max_addr left))
      | _ \<Rightarrow> None)"

definition find_gap :: "'v span_alloc \<Rightarrow> int \<Rightarrow> (int \<times> int) option option" where
  "find_gap s sz =
     (if spans s = Leaf then Some (Some (range_start s, range_end s))
      else find_gap_loop sz (range_start s) (range_end s) (spans s))"

definition put_span :: "'v span_alloc \<Rightarrow> 'v span \<Rightarrow> 'v span_alloc" where
  "put_span s x = s\<lparr>spans := tree_insert span_augment node_cmp x (spans s)\<rparr>"

definition span_insert :: "memory_error option \<Rightarrow> 'v span_alloc \<Rightarrow> int \<Rightarrow> int \<Rightarrow> 'v \<Rightarrow> span_error + 'v span_alloc" where
  "span_insert node_alloc s a b v =
     (if range_start s < range_start s \<or> range_end s > range_end s then Inl InvalidAddress
      else if find_loc (by_overlap a b) (spans s) \<noteq> None then Inl Overlapped
      else case node_alloc of
             Some e \<Rightarrow> Inl (Memory e)
           | None \<Rightarrow> Inr (put_span s \<lparr>sp_start = a, sp_end = b, sp_value = v\<rparr>))"

definition span_alloc_op :: "memory_error option \<Rightarrow> 'v span_alloc \<Rightarrow> int \<Rightarrow> 'v \<Rightarrow>
    (span_error + (int \<times> int) \<times> 'v span_alloc) option" where
  "span_alloc_op node_alloc s sz v = do {
     gap \<leftarrow> find_gap s sz;
     (case gap of
        None \<Rightarrow> Some (Inl Exhausted)
      | Some gap \<Rightarrow> do {
          stop \<leftarrow> addr_add (fst gap) sz;
          let range = (fst gap, stop);
          let span = \<lparr>sp_start = fst range, sp_end = snd range, sp_value = v\<rparr>;
          Some (case node_alloc of
             Some e \<Rightarrow> Inl (Memory e)
           | None \<Rightarrow> Inr (range, put_span s span)) }) }"

definition span_containing :: "'v span_alloc \<Rightarrow> int \<Rightarrow> 'v option" where
  "span_containing s addr = map_option (\<lambda>l. sp_value (loc_value l)) (find_loc (by_containing addr) (spans s))"

definition span_free :: "'v span_alloc \<Rightarrow> int \<Rightarrow> (((int \<times> int) \<times> 'v) \<times> 'v span_alloc) option" where
  "span_free s addr = do {
     node \<leftarrow> find_loc (by_containing addr) (spans s);
     let span = loc_value node;
     Some (((sp_start span, sp_end span), sp_value span), s\<lparr>spans := tree_remove span_augment node\<rparr>) }"

section \<open>Gaps\<close>

text \<open>The gaps between the spans of a range, and those inside a sequence of spans.\<close>

fun gaps :: "int \<Rightarrow> 'v span list \<Rightarrow> int \<Rightarrow> (int \<times> int) list" where
  "gaps a [] b = [(a, b)]"
| "gaps a (x # xs) b = (a, sp_start x) # gaps (sp_end x) xs b"

fun inner :: "'v span list \<Rightarrow> (int \<times> int) list" where
  "inner (x # y # zs) = (sp_end x, sp_start y) # inner (y # zs)"
| "inner xs = []"

definition wide :: "int \<Rightarrow> (int \<times> int) list \<Rightarrow> bool" where
  "wide sz gs \<longleftrightarrow> (\<exists>(a, b)\<in>set gs. sz \<le> b - a)"

lemma wide_simps [simp]:
  "\<not> wide sz []" "wide sz (g # gs) \<longleftrightarrow> sz \<le> snd g - fst g \<or> wide sz gs" "wide sz (gs @ hs) \<longleftrightarrow> wide sz gs \<or> wide sz hs"
  by (auto simp: wide_def)

lemma gaps_append: "gaps a (xs @ x # ys) b = gaps a xs (sp_start x) @ gaps (sp_end x) ys b"
  by (induction xs arbitrary: a) auto

lemma gaps_inner: "xs \<noteq> [] \<Longrightarrow> gaps a xs b = (a, sp_start (hd xs)) # inner xs @ [(sp_end (last xs), b)]"
  by (induction xs arbitrary: a rule: inner.induct) auto

lemma inner_append:
  "inner (xs @ x # ys) = inner xs @ (if xs = [] then [] else [(sp_end (last xs), sp_start x)]) @
     (if ys = [] then [] else [(sp_end x, sp_start (hd ys))]) @ inner ys"
  by (induction xs rule: inner.induct) (cases ys; auto)+

abbreviation apart :: "'v span list \<Rightarrow> bool" where
  "apart \<equiv> disjoint sp_start sp_end"

lemma apart_ends:
  assumes "apart (xs @ x # ys)"
  shows "xs \<noteq> [] \<Longrightarrow> sp_start (hd xs) \<le> sp_start x" "ys \<noteq> [] \<Longrightarrow> sp_end x \<le> sp_end (last ys)"
    "sp_start x < sp_end x" "apart xs" "apart ys"
proof -
  have d: "\<forall>y\<in>set xs. sp_start y < sp_end y \<and> sp_end y \<le> sp_start x" "\<forall>y\<in>set ys. sp_end x \<le> sp_start y \<and> sp_start y < sp_end y"
    using assms by (auto simp: disjoint_append disjoint_Cons dest: disjoint_less)
  show "xs \<noteq> [] \<Longrightarrow> sp_start (hd xs) \<le> sp_start x" using d(1) by (cases xs) auto
  show "ys \<noteq> [] \<Longrightarrow> sp_end x \<le> sp_end (last ys)" using d(2) by (metis last_in_set less_imp_le order_trans)
  show "sp_start x < sp_end x" "apart xs" "apart ys" using assms by (auto simp: disjoint_append disjoint_Cons)
qed

text \<open>The cached values are exact.\<close>

lemma cached_exact:
  assumes "clean span_augment t" "apart (inorder t)" "t \<noteq> Leaf"
  shows "\<exists>mg. tree_aug t = Some mg \<and> min_addr mg = sp_start (hd (inorder t)) \<and> max_addr mg = sp_end (last (inorder t)) \<and>
     0 \<le> mg_gap mg \<and> (\<forall>sz>0. sz \<le> mg_gap mg \<longleftrightarrow> wide sz (inner (inorder t)))"
  using assms
proof (induction t)
  case (Node c l x a r)
  have ap: "apart (inorder l @ x # inorder r)" using Node.prems(2) by simp
  note e = apart_ends [OF ap]
  have a: "a = Some (span_augment x (tree_aug l) (tree_aug r))" "clean span_augment l" "clean span_augment r"
    using Node.prems(1) by auto
  have L: "l \<noteq> Leaf \<Longrightarrow> inorder l \<noteq> []" and R: "r \<noteq> Leaf \<Longrightarrow> inorder r \<noteq> []" by (cases l; simp)+ (cases r; simp)+
  show ?case
  proof (cases "l = Leaf"; cases "r = Leaf")
    assume "l = Leaf" "r = Leaf"
    then show ?thesis using a(1) by (simp add: span_augment_def)
  next
    assume lr: "l = Leaf" "r \<noteq> Leaf"
    with Node.IH(2) a(3) e(5) obtain rg where "tree_aug r = Some rg" "min_addr rg = sp_start (hd (inorder r))"
      "max_addr rg = sp_end (last (inorder r))" "0 \<le> mg_gap rg" "\<forall>sz>0. sz \<le> mg_gap rg \<longleftrightarrow> wide sz (inner (inorder r))" by auto
    then show ?thesis using lr a(1) R e(2) by (auto simp: span_augment_def inner_append [of "[]", simplified] le_max_iff_disj)
  next
    assume lr: "l \<noteq> Leaf" "r = Leaf"
    with Node.IH(1) a(2) e(4) obtain lg where "tree_aug l = Some lg" "min_addr lg = sp_start (hd (inorder l))"
      "max_addr lg = sp_end (last (inorder l))" "0 \<le> mg_gap lg" "\<forall>sz>0. sz \<le> mg_gap lg \<longleftrightarrow> wide sz (inner (inorder l))" by auto
    then show ?thesis using lr a(1) L e(1) by (auto simp: span_augment_def inner_append le_max_iff_disj)
  next
    assume lr: "l \<noteq> Leaf" "r \<noteq> Leaf"
    with Node.IH(1) a(2) e(4) obtain lg where "tree_aug l = Some lg" "min_addr lg = sp_start (hd (inorder l))"
      "max_addr lg = sp_end (last (inorder l))" "0 \<le> mg_gap lg" "\<forall>sz>0. sz \<le> mg_gap lg \<longleftrightarrow> wide sz (inner (inorder l))" by auto
    moreover from lr Node.IH(2) a(3) e(5) obtain rg where "tree_aug r = Some rg" "min_addr rg = sp_start (hd (inorder r))"
      "max_addr rg = sp_end (last (inorder r))" "0 \<le> mg_gap rg" "\<forall>sz>0. sz \<le> mg_gap rg \<longleftrightarrow> wide sz (inner (inorder r))" by auto
    ultimately show ?thesis using lr a(1) L R e(1,2) by (auto simp: span_augment_def inner_append le_max_iff_disj)
  qed
qed simp

text \<open>Where a node is recomputed over subtrees with spans apart, the assertions hold, and no subtraction underflows.\<close>

lemma augment_asserts:
  assumes "clean span_augment l" "clean span_augment r" "apart (inorder l @ x # inorder r)"
  shows "tree_aug l = Some lg \<Longrightarrow> max_addr lg \<le> sp_start x" "tree_aug r = Some rg \<Longrightarrow> sp_end x \<le> min_addr rg"
proof -
  have ap: "apart (inorder l)" "apart (inorder r)" using apart_ends(4,5) [OF assms(3)] by auto
  have ne: "t \<noteq> Leaf \<Longrightarrow> inorder t \<noteq> []" for t :: "('a span, max_gap) rbtree" by (cases t) auto
  have d: "\<forall>y\<in>set (inorder l). sp_end y \<le> sp_start x" "\<forall>y\<in>set (inorder r). sp_end x \<le> sp_start y"
    using assms(3) by (auto simp: disjoint_append disjoint_Cons)
  show "tree_aug l = Some lg \<Longrightarrow> max_addr lg \<le> sp_start x"
    using cached_exact [OF assms(1) ap(1)] last_in_set [OF ne [of l]] d(1) by (cases "l = Leaf") auto
  show "tree_aug r = Some rg \<Longrightarrow> sp_end x \<le> min_addr rg"
    using cached_exact [OF assms(2) ap(2)] hd_in_set [OF ne [of r]] d(2) by (cases "r = Leaf") auto
qed

text \<open>The search finds a gap that is wide enough, or there is none.\<close>

lemma find_gap_loop_spec:
  assumes "clean span_augment t" "apart (inorder t)" "t \<noteq> Leaf" "0 < sz"
  shows "\<exists>res. find_gap_loop sz a b t = Some res \<and>
     (case res of
        None \<Rightarrow> \<not> wide sz (gaps a (inorder t) b)
      | Some g \<Rightarrow> g \<in> set (gaps a (inorder t) b) \<and> sz \<le> snd g - fst g)"
  using assms(1-3)
proof (induction t arbitrary: a b)
  case (Node c l x au r)
  have ap: "apart (inorder l)" "apart (inorder r)"
    using apart_ends(4,5) [of "inorder l" x "inorder r"] Node.prems(2) by simp_all
  have cl: "clean span_augment l" "clean span_augment r" using Node.prems(1) by auto
  have ne: "l \<noteq> Leaf \<Longrightarrow> inorder l \<noteq> []" "r \<noteq> Leaf \<Longrightarrow> inorder r \<noteq> []" by (cases l; simp)+ (cases r; simp)+
  have ca: "child_gap t = Some (tree_aug t)" if "clean span_augment t" for t :: "('a span, max_gap) rbtree"
    using that by (cases t) auto
  have gl: "gaps p (inorder l) q = (p, sp_start (hd (inorder l))) # inner (inorder l) @ [(sp_end (last (inorder l)), q)]"
    if "l \<noteq> Leaf" for p q using gaps_inner ne(1) that by blast
  have gr: "gaps p (inorder r) q = (p, sp_start (hd (inorder r))) # inner (inorder r) @ [(sp_end (last (inorder r)), q)]"
    if "r \<noteq> Leaf" for p q using gaps_inner ne(2) that by blast
  have all: "gaps a (inorder (Node c l x au r)) b = gaps a (inorder l) (sp_start x) @ gaps (sp_end x) (inorder r) b"
    by (simp add: gaps_append)
  define rest where "rest = (\<lambda>left_end. 
     let right_start = (case tree_aug r of None \<Rightarrow> b | Some right \<Rightarrow> min_addr right)
     in if sp_start x - left_end \<ge> sz then Some (Some (left_end, sp_start x))
        else if right_start - sp_end x \<ge> sz then Some (Some (sp_end x, right_start))
        else case tree_aug r of
               None \<Rightarrow> Some None
             | Some right \<Rightarrow>
                 if mg_gap right \<ge> sz then find_gap_loop sz (sp_end x) b r
                 else if b - max_addr right \<ge> sz then Some (Some (max_addr right, b))
                 else Some None)"
  have rest_ok: "\<exists>res. rest e = Some res \<and>
      (case res of None \<Rightarrow> \<not> wide sz ((e, sp_start x) # gaps (sp_end x) (inorder r) b)
       | Some g \<Rightarrow> g \<in> set ((e, sp_start x) # gaps (sp_end x) (inorder r) b) \<and> sz \<le> snd g - fst g)" for e
  proof (cases "r = Leaf")
    case True
    then show ?thesis by (simp add: rest_def Let_def)
  next
    case False
    from cached_exact [OF cl(2) ap(2) False] obtain rg where
      rg: "tree_aug r = Some rg" "min_addr rg = sp_start (hd (inorder r))" "max_addr rg = sp_end (last (inorder r))"
        "sz \<le> mg_gap rg \<longleftrightarrow> wide sz (inner (inorder r))" using assms(4) by auto
    show ?thesis
    proof (cases "sz \<le> mg_gap rg")
      case True
      from Node.IH(2) [OF cl(2) ap(2) False, of "sp_end x" b] show ?thesis
        using rg True by (auto simp: rest_def Let_def gr [OF False] split: option.splits)
    next
      case nw: False
      then show ?thesis using rg by (auto simp: rest_def Let_def gr [OF False])
    qed
  qed
  have eq: "find_gap_loop sz a b (Node c l x au r) =
      (case tree_aug l of
         None \<Rightarrow> rest a
       | Some left \<Rightarrow>
           if min_addr left - a \<ge> sz then Some (Some (a, min_addr left))
           else if mg_gap left \<ge> sz then find_gap_loop sz a (sp_start x) l
           else rest (max_addr left))"
    by (simp add: ca [OF cl(1)] ca [OF cl(2)] rest_def Let_def split: option.split)
  show ?case
  proof (cases "l = Leaf")
    case True
    then have g: "gaps a (inorder l) (sp_start x) @ gaps (sp_end x) (inorder r) b = (a, sp_start x) # gaps (sp_end x) (inorder r) b"
      by simp
    show ?thesis unfolding eq all g using rest_ok [of a] True by simp
  next
    case False
    from cached_exact [OF cl(1) ap(1) False] obtain lg where
      lg: "tree_aug l = Some lg" "min_addr lg = sp_start (hd (inorder l))" "max_addr lg = sp_end (last (inorder l))"
        "sz \<le> mg_gap lg \<longleftrightarrow> wide sz (inner (inorder l))" using assms(4) by auto
    consider (first) "sz \<le> min_addr lg - a" | (left) "\<not> sz \<le> min_addr lg - a" "sz \<le> mg_gap lg"
      | (right) "\<not> sz \<le> min_addr lg - a" "\<not> sz \<le> mg_gap lg" by blast
    then show ?thesis
    proof cases
      case first
      with lg show ?thesis unfolding eq all by (auto simp: gl [OF False])
    next
      case left
      with Node.IH(1) [OF cl(1) ap(1) False, of a "sp_start x"] lg show ?thesis unfolding eq all
        by (auto simp: gl [OF False] split: option.splits)
    next
      case right
      with rest_ok [of "max_addr lg"] lg show ?thesis unfolding eq all
        by (auto simp: gl [OF False] split: option.splits)
    qed
  qed
qed simp

lemma gaps_split:
  assumes "apart xs" "\<forall>x\<in>set xs. a \<le> sp_start x \<and> sp_end x \<le> b" "g \<in> set (gaps a xs b)"
  shows "\<exists>ys zs. xs = ys @ zs \<and> (\<forall>y\<in>set ys. sp_end y \<le> fst g) \<and> (\<forall>z\<in>set zs. snd g \<le> sp_start z) \<and>
           a \<le> fst g \<and> snd g \<le> b"
  using assms
proof (induction xs arbitrary: a)
  case Nil
  then show ?case by auto
next
  case (Cons x xs)
  have x: "sp_start x < sp_end x" "\<forall>y\<in>set xs. sp_end x \<le> sp_start y" "apart xs" "a \<le> sp_start x" "sp_end x \<le> b"
    using Cons.prems by (auto simp: disjoint_Cons)
  show ?case
  proof (cases "g = (a, sp_start x)")
    case True
    with x show ?thesis by (intro exI [of _ "[]"] exI [of _ "x # xs"]) auto
  next
    case False
    then have "g \<in> set (gaps (sp_end x) xs b)" using Cons.prems(3) by auto
    with Cons.IH [of "sp_end x"] x(2,3) Cons.prems(2) obtain ys zs where
      "xs = ys @ zs" "\<forall>y\<in>set ys. sp_end y \<le> fst g" "\<forall>z\<in>set zs. snd g \<le> sp_start z" "sp_end x \<le> fst g" "snd g \<le> b" by auto
    with x show ?thesis by (intro exI [of _ "x # ys"] exI [of _ zs]) auto
  qed
qed

lemma gaps_complete:
  assumes "apart xs" "0 < sz" "a \<le> p" "p + sz \<le> b" "\<forall>x\<in>set xs. sp_end x \<le> p \<or> p + sz \<le> sp_start x"
  shows "wide sz (gaps a xs b)"
  using assms
proof (induction xs arbitrary: a)
  case (Cons x xs)
  show ?case
  proof (cases "sp_end x \<le> p")
    case True
    with Cons.IH [of "sp_end x"] Cons.prems show ?thesis by (auto simp: disjoint_Cons)
  next
    case False
    with Cons.prems show ?thesis by auto
  qed
qed auto

section \<open>The operations on well-formed allocators\<close>

definition span_ok :: "'v span_alloc \<Rightarrow> bool" where
  "span_ok s \<longleftrightarrow> rb_wf span_augment (spans s) \<and> apart (inorder (spans s)) \<and>
     (\<forall>x\<in>set (inorder (spans s)). range_start s \<le> sp_start x \<and> sp_end x \<le> range_end s) \<and>
     0 \<le> range_start s \<and> range_end s < 2 ^ 64"

definition span_list :: "'v span_alloc \<Rightarrow> ((int \<times> int) \<times> 'v) list" where
  "span_list s = map (\<lambda>x. ((sp_start x, sp_end x), sp_value x)) (inorder (spans s))"

definition is_free :: "'v span_alloc \<Rightarrow> int \<Rightarrow> int \<Rightarrow> bool" where
  "is_free s a b \<longleftrightarrow> (\<forall>((c, d), _)\<in>set (span_list s). d \<le> a \<or> b \<le> c)"

interpretation sas: interval_store "rb_wf span_augment" inorder Leaf "tree_insert span_augment" first_loc
    loc_value "tree_remove span_augment" sp_start sp_end node_cmp
  by unfold_locales (simp add: node_cmp_def)

lemma is_free_iff: "is_free s a b \<longleftrightarrow> (\<forall>x\<in>set (inorder (spans s)). sp_end x \<le> a \<or> b \<le> sp_start x)"
  by (auto simp: is_free_def span_list_def)

lemma apart_free_split:
  assumes "apart xs" "a < b" "\<forall>x\<in>set xs. sp_end x \<le> a \<or> b \<le> sp_start x"
  obtains ys zs where "xs = ys @ zs" "\<forall>y\<in>set ys. sp_end y \<le> a" "\<forall>z\<in>set zs. b \<le> sp_start z"
proof -
  from disjoint_split [OF assms(1), of a] obtain ys zs where
    "xs = ys @ zs" "\<forall>y\<in>set ys. sp_end y \<le> a" "\<forall>z\<in>set zs. a < sp_end z" by blast
  moreover from this assms(3) have "\<forall>z\<in>set zs. b \<le> sp_start z" by force
  ultimately show ?thesis using that by blast
qed

text \<open>A span that overlaps nothing takes its place in the sequence.\<close>

lemma put_span_spec:
  assumes "span_ok s" "a < b" "is_free s a b"
  obtains ys zs where "span_list s = ys @ zs"
    "span_list (put_span s \<lparr>sp_start = a, sp_end = b, sp_value = v\<rparr>) = ys @ ((a, b), v) # zs"
    "range_start s \<le> a \<Longrightarrow> b \<le> range_end s \<Longrightarrow> span_ok (put_span s \<lparr>sp_start = a, sp_end = b, sp_value = v\<rparr>)"
proof -
  let ?x = "\<lparr>sp_start = a, sp_end = b, sp_value = v\<rparr>"
  have ok: "rb_wf span_augment (spans s)" "apart (inorder (spans s))" using assms(1) by (simp_all add: span_ok_def)
  from apart_free_split [OF ok(2) assms(2)] assms(3) obtain ys zs where
    yz: "inorder (spans s) = ys @ zs" "\<forall>y\<in>set ys. sp_end y \<le> a" "\<forall>z\<in>set zs. b \<le> sp_start z"
    by (metis is_free_iff)
  have d: "apart (ys @ ?x # zs)" using yz ok(2) assms(2) by (force simp: disjoint_append disjoint_Cons)
  note ins = sas.ins_gap [OF ok(1) yz(1) d]
  show ?thesis
  proof (rule that [of "map (\<lambda>x. ((sp_start x, sp_end x), sp_value x)) ys" "map (\<lambda>x. ((sp_start x, sp_end x), sp_value x)) zs"])
    show "span_ok (put_span s ?x)" if "range_start s \<le> a" "b \<le> range_end s"
      using ins d yz(1) that assms(1) by (auto simp: span_ok_def put_span_def)
  qed (use ins yz(1) in \<open>simp_all add: span_list_def put_span_def\<close>)
qed

lemma directed_overlap: "apart xs \<Longrightarrow> a < b \<Longrightarrow> directed (by_overlap a b) xs"
  unfolding directed_def disjoint_def
  by (auto simp: by_overlap_def intro!: sorted_wrt_mono_rel [of xs "\<lambda>x y. sp_end x \<le> sp_start y"])

lemma directed_containing: "apart xs \<Longrightarrow> directed (by_containing p) xs"
  unfolding directed_def disjoint_def
  by (auto simp: by_containing_def intro!: sorted_wrt_mono_rel [of xs "\<lambda>x y. sp_end x \<le> sp_start y"])

lemma find_overlap:
  assumes "span_ok s" "a < b"
  shows "find_loc (by_overlap a b) (spans s) = None \<longleftrightarrow> is_free s a b"
proof -
  have "clean span_augment (spans s)" "apart (inorder (spans s))" using assms(1) by (simp_all add: span_ok_def rb_wf_def)
  from find_loc_None [OF this(1) directed_overlap [OF this(2) assms(2)]] show ?thesis
    by (auto simp: is_free_iff by_overlap_def)
qed

text \<open>The span around an address, by the search and in the sequence.\<close>

lemma find_containing:
  assumes "span_ok s"
  shows "find_loc (by_containing p) (spans s) = None \<Longrightarrow> \<forall>((c, d), _)\<in>set (span_list s). \<not> (c \<le> p \<and> p < d)"
    "find_loc (by_containing p) (spans s) = Some l \<Longrightarrow>
       \<exists>ys zs. span_list s = ys @ ((sp_start (loc_value l), sp_end (loc_value l)), sp_value (loc_value l)) # zs \<and>
         sp_start (loc_value l) \<le> p \<and> p < sp_end (loc_value l) \<and>
         span_ok (s\<lparr>spans := tree_remove span_augment l\<rparr>) \<and> span_list (s\<lparr>spans := tree_remove span_augment l\<rparr>) = ys @ zs"
proof -
  have ok: "clean span_augment (spans s)" "apart (inorder (spans s))" "rb_wf span_augment (spans s)"
    using assms by (simp_all add: span_ok_def rb_wf_def)
  show "find_loc (by_containing p) (spans s) = None \<Longrightarrow> \<forall>((c, d), _)\<in>set (span_list s). \<not> (c \<le> p \<and> p < d)"
    using find_loc_None [OF ok(1) directed_containing [OF ok(2), of p]]
    by (auto simp: span_list_def by_containing_def split: if_splits)
  assume "find_loc (by_containing p) (spans s) = Some l"
  from find_loc_Some [OF this] have l: "loc_tree l = spans s" "loc_ok l" "by_containing p (loc_value l) = Equal" by auto
  note sp = loc_split [OF l(2), unfolded l(1)] and rm = tree_remove_seq [OF l(2), of span_augment]
  have wf: "rb_wf span_augment (tree_remove span_augment l)" using rb_wf_remove [OF _ l(2)] l(1) ok(3) by simp
  have "apart (loc_before l @ loc_after l)" using ok(2) unfolding sp by (auto simp: disjoint_append disjoint_Cons)
  moreover have "\<forall>x\<in>set (loc_before l @ loc_after l). range_start s \<le> sp_start x \<and> sp_end x \<le> range_end s"
    using assms unfolding span_ok_def sp by auto
  ultimately have "span_ok (s\<lparr>spans := tree_remove span_augment l\<rparr>)" using wf rm assms by (simp add: span_ok_def)
  then show "\<exists>ys zs. span_list s = ys @ ((sp_start (loc_value l), sp_end (loc_value l)), sp_value (loc_value l)) # zs \<and>
         sp_start (loc_value l) \<le> p \<and> p < sp_end (loc_value l) \<and>
         span_ok (s\<lparr>spans := tree_remove span_augment l\<rparr>) \<and> span_list (s\<lparr>spans := tree_remove span_augment l\<rparr>) = ys @ zs"
    using l(3) unfolding span_list_def sp rm by (fastforce simp: by_containing_def sp rm split: if_splits)
qed

lemma find_gap_spec:
  assumes "span_ok s" "0 < sz" "spans s = Leaf \<longrightarrow> sz \<le> range_end s - range_start s"
  shows "\<exists>res. find_gap s sz = Some res \<and>
    (case res of
       None \<Rightarrow> \<forall>p. range_start s \<le> p \<and> p + sz \<le> range_end s \<longrightarrow> \<not> is_free s p (p + sz)
     | Some (a, b) \<Rightarrow> range_start s \<le> a \<and> b \<le> range_end s \<and> sz \<le> b - a \<and> is_free s a b)"
proof (cases "spans s = Leaf")
  case True
  with assms(3) show ?thesis by (simp add: find_gap_def is_free_iff)
next
  case False
  let ?xs = "inorder (spans s)" and ?a = "range_start s" and ?b = "range_end s"
  have ok: "clean span_augment (spans s)" "apart ?xs" "\<forall>x\<in>set ?xs. ?a \<le> sp_start x \<and> sp_end x \<le> ?b"
    using assms(1) by (auto simp: span_ok_def rb_wf_def)
  from find_gap_loop_spec [OF ok(1,2) False assms(2), of ?a ?b] obtain res where
    res: "find_gap s sz = Some res" "case res of None \<Rightarrow> \<not> wide sz (gaps ?a ?xs ?b)
        | Some g \<Rightarrow> g \<in> set (gaps ?a ?xs ?b) \<and> sz \<le> snd g - fst g"
    using False by (auto simp: find_gap_def)
  show ?thesis
  proof (cases res)
    case None
    with res gaps_complete [OF ok(2) assms(2), of ?a _ ?b] show ?thesis by (auto simp: is_free_iff)
  next
    case (Some g)
    with res(2) have g: "g \<in> set (gaps ?a ?xs ?b)" "sz \<le> snd g - fst g" by auto
    from gaps_split [OF ok(2,3) g(1)] obtain ys zs where "?xs = ys @ zs" "\<forall>y\<in>set ys. sp_end y \<le> fst g"
      "\<forall>z\<in>set zs. snd g \<le> sp_start z" "?a \<le> fst g" "snd g \<le> ?b" by blast
    with res(1) Some g(2) show ?thesis by (auto simp: is_free_iff)
  qed
qed

lemma is_free_mono: "is_free s a b \<Longrightarrow> c \<le> b \<Longrightarrow> is_free s a c"
  by (force simp: is_free_def)

lemma span_alloc_spec:
  assumes "span_ok s" "0 < sz"
  shows "case span_alloc_op node_alloc s sz v of
      None \<Rightarrow> spans s = Leaf \<and> 2 ^ 64 \<le> range_start s + sz
    | Some (Inl e) \<Rightarrow> (e = Exhausted \<and> (\<forall>p. range_start s \<le> p \<and> p + sz \<le> range_end s \<longrightarrow> \<not> is_free s p (p + sz))) \<or>
        (\<exists>m. node_alloc = Some m \<and> e = Memory m)
    | Some (Inr ((a, b), s')) \<Rightarrow> node_alloc = None \<and> b = a + sz \<and> range_start s \<le> a \<and> is_free s a b \<and>
        (\<exists>ys zs. span_list s = ys @ zs \<and> span_list s' = ys @ ((a, b), v) # zs) \<and>
        (if spans s = Leaf \<and> range_end s - range_start s < sz then a = range_start s \<and> range_end s < b
         else b \<le> range_end s \<and> span_ok s')"
proof (cases "spans s = Leaf \<and> range_end s - range_start s < sz")
  case True
  have free: "is_free s (range_start s) (range_start s + sz)" using True by (simp add: is_free_def span_list_def)
  have lt: "range_start s < range_start s + sz" using assms(2) by simp
  from put_span_spec [OF assms(1) lt free, of v] obtain ys zs where
    "span_list s = ys @ zs" "span_list (put_span s \<lparr>sp_start = range_start s, sp_end = range_start s + sz, sp_value = v\<rparr>) = ys @ ((range_start s, range_start s + sz), v) # zs"
    by metis
  moreover have "span_alloc_op node_alloc s sz v = do {
      stop \<leftarrow> addr_add (range_start s) sz;
      Some (case node_alloc of Some e \<Rightarrow> Inl (Memory e)
        | None \<Rightarrow> Inr ((range_start s, stop), put_span s \<lparr>sp_start = range_start s, sp_end = stop, sp_value = v\<rparr>)) }"
    using True by (cases node_alloc) (simp_all add: span_alloc_op_def find_gap_def Let_def)
  ultimately show ?thesis using True free by (cases node_alloc) (auto simp: addr_add_def)
next
  case big: False
  from big have "spans s = Leaf \<longrightarrow> sz \<le> range_end s - range_start s" by auto
  from find_gap_spec [OF assms this] obtain res where res: "find_gap s sz = Some res"
    "case res of None \<Rightarrow> \<forall>p. range_start s \<le> p \<and> p + sz \<le> range_end s \<longrightarrow> \<not> is_free s p (p + sz)
     | Some (a, b) \<Rightarrow> range_start s \<le> a \<and> b \<le> range_end s \<and> sz \<le> b - a \<and> is_free s a b" by blast
  show ?thesis
  proof (cases res)
    case None
    with res show ?thesis by (simp add: span_alloc_op_def)
  next
    case (Some ab)
    then obtain a b where r: "res = Some (a, b)" by (cases ab) auto
    with res(2) have g: "range_start s \<le> a" "b \<le> range_end s" "sz \<le> b - a" "is_free s a b" by auto
    have free: "is_free s a (a + sz)" using is_free_mono [OF g(4)] g(3) by simp
    have lt: "a < a + sz" using assms(2) by simp
    obtain ys zs where
      "span_list s = ys @ zs" "span_list (put_span s \<lparr>sp_start = a, sp_end = a + sz, sp_value = v\<rparr>) = ys @ ((a, a + sz), v) # zs"
      "range_start s \<le> a \<Longrightarrow> a + sz \<le> range_end s \<Longrightarrow> span_ok (put_span s \<lparr>sp_start = a, sp_end = a + sz, sp_value = v\<rparr>)"
      using put_span_spec [OF assms(1) lt free, of v] by metis
    moreover have "addr_add a sz = Some (a + sz)" using g assms(1) by (simp add: addr_add_def span_ok_def)
    ultimately show ?thesis using res(1) r g free big by (cases node_alloc) (auto simp: span_alloc_op_def)
  qed
qed

lemma span_alloc_cases:
  assumes "span_ok s" "0 < sz" "spans s = Leaf \<longrightarrow> sz \<le> range_end s - range_start s"
  obtains (error) e where "span_alloc_op node_alloc s sz v = Some (Inl e)" "e = Exhausted \<or> (\<exists>m. e = Memory m)"
  | (block) a s' ys zs where "span_alloc_op node_alloc s sz v = Some (Inr ((a, a + sz), s'))" "range_start s \<le> a"
      "a + sz \<le> range_end s" "is_free s a (a + sz)" "span_ok s'" "span_list s = ys @ zs"
      "span_list s' = ys @ ((a, a + sz), v) # zs"
proof (cases "span_alloc_op node_alloc s sz v")
  case None
  with span_alloc_spec [OF assms(1,2), of node_alloc v] assms show ?thesis by (auto simp: span_ok_def)
next
  case (Some res)
  with span_alloc_spec [OF assms(1,2), of node_alloc v] assms(3) error block show ?thesis
    by (cases res) (auto split: if_splits)
qed

lemma span_alloc_range:
  "span_alloc_op node_alloc s sz v = Some (Inr (r, s')) \<Longrightarrow> range_start s' = range_start s \<and> range_end s' = range_end s"
  by (cases "find_gap s sz"; cases "the (find_gap s sz)"; cases node_alloc)
    (auto simp: span_alloc_op_def put_span_def split: bind_splits)

text \<open>Freeing by an address inside a known span.\<close>

lemma span_free_at:
  assumes "span_ok s" "span_list s = ys @ ((a, b), v) # zs" "a \<le> p" "p < b"
  obtains s' where "span_free s p = Some (((a, b), v), s')" "span_ok s'" "span_list s' = ys @ zs"
    "range_start s' = range_start s" "range_end s' = range_end s"
proof -
  let ?f = "\<lambda>x. ((sp_start x, sp_end x), sp_value x)" and ?in = "inorder (spans s)"
  have ap: "apart ?in" using assms(1) by (simp add: span_ok_def)
  from assms(2) obtain us x vs where x: "?in = us @ x # vs" "ys = map ?f us" "?f x = ((a, b), v)" "zs = map ?f vs"
    by (auto simp: span_list_def map_eq_append_conv map_eq_Cons_conv)
  have "((a, b), v) \<in> set (span_list s)" using assms(2) by simp
  with find_containing(1) [OF assms(1), of p] assms(3,4) obtain l where l: "find_loc (by_containing p) (spans s) = Some l"
    by (cases "find_loc (by_containing p) (spans s)") auto
  from find_loc_Some [OF l] have loc: "loc_tree l = spans s" "loc_ok l" "sp_start (loc_value l) \<le> p" "p < sp_end (loc_value l)"
    by (auto simp: by_containing_def split: if_splits)
  have sp: "?in = loc_before l @ loc_value l # loc_after l" using loc_split [OF loc(2)] loc(1) by simp
  have left: "\<forall>y\<in>set ls. \<not> p < sp_end y" if "?in = ls @ z # rs" "sp_start z \<le> p" for ls z rs
    using ap that by (auto simp: disjoint_append)
  have "\<forall>y\<in>set us. \<not> p < sp_end y" "\<forall>y\<in>set (loc_before l). \<not> p < sp_end y"
    using left [OF x(1)] left [OF sp loc(3)] x(3) assms(3) by auto
  from split_first_unique [of us x vs "loc_before l" "loc_value l" "loc_after l" "\<lambda>y. p < sp_end y", OF _ this(1) _ this(2) loc(4)]
  have "us = loc_before l \<and> x = loc_value l \<and> vs = loc_after l" using x(1,3) sp assms(4) by auto
  moreover from find_containing(2) [OF assms(1) l] have "span_ok (s\<lparr>spans := tree_remove span_augment l\<rparr>)" by blast
  ultimately show ?thesis
    using that [of "s\<lparr>spans := tree_remove span_augment l\<rparr>"] l x(2-4) tree_remove_seq [OF loc(2), of span_augment]
    by (simp add: span_free_def span_list_def Let_def)
qed

lemma span_list_sep:
  assumes "span_ok s" "span_list s = ys @ ((a, b), v) # zs" "x \<in> set ys \<union> set zs"
  shows "snd (fst x) \<le> a \<or> b \<le> fst (fst x)"
proof -
  have "apart (inorder (spans s))" using assms(1) by (simp add: span_ok_def)
  with assms(2,3) show ?thesis
    by (auto simp: span_list_def map_eq_append_conv map_eq_Cons_conv disjoint_append disjoint_Cons)
qed

section \<open>Properties\<close>

text \<open>
  C12.  An allocation of a positive size reports exhaustion only if no free block of the size is left in the range, and fails
  otherwise only if the tree node cannot be allocated.  A block that it returns has the size asked for, overlaps no span, and is added to
  the spans at its place.  It lies in the range, with one exception: an allocator without spans does not compare the size with
  its range, and hands out an oversized block at the start of the range, or panics if the end of that block is no 64-bit
  address; there is no other panic.
\<close>

theorem span_alloc_correct:
  assumes "span_ok s" "0 < sz"
  shows "case span_alloc_op node_alloc s sz v of
      None \<Rightarrow> spans s = Leaf \<and> 2 ^ 64 \<le> range_start s + sz
    | Some (Inl e) \<Rightarrow> (e = Exhausted \<and> (\<forall>p. range_start s \<le> p \<and> p + sz \<le> range_end s \<longrightarrow> \<not> is_free s p (p + sz))) \<or>
        (\<exists>m. node_alloc = Some m \<and> e = Memory m)
    | Some (Inr ((a, b), s')) \<Rightarrow> node_alloc = None \<and> b = a + sz \<and> range_start s \<le> a \<and> is_free s a b \<and>
        (\<exists>ys zs. span_list s = ys @ zs \<and> span_list s' = ys @ ((a, b), v) # zs) \<and>
        (if spans s = Leaf \<and> range_end s - range_start s < sz then a = range_start s \<and> range_end s < b
         else b \<le> range_end s \<and> span_ok s')"
  using assms by (rule span_alloc_spec)

definition small_alloc :: "nat span_alloc" where
  "small_alloc = put_span (put_span (span_alloc_new 0 100) \<lparr>sp_start = 0, sp_end = 10, sp_value = 1\<rparr>)
     \<lparr>sp_start = 20, sp_end = 90, sp_value = 2\<rparr>"

lemma small_alloc_ok: "span_ok small_alloc" "span_list small_alloc = [((0, 10), 1), ((20, 90), 2)]"
proof -
  let ?s = "put_span (span_alloc_new 0 100) \<lparr>sp_start = 0, sp_end = 10, sp_value = 1::nat\<rparr>"
  have e: "span_ok (span_alloc_new 0 100 :: nat span_alloc)" "is_free (span_alloc_new 0 100 :: nat span_alloc) 0 10"
    "span_list (span_alloc_new 0 100 :: nat span_alloc) = []"
    by (simp_all add: span_alloc_new_def span_ok_def is_free_def span_list_def)
  have p: "range_start ?s = 0" "range_end ?s = 100" by (simp_all add: put_span_def span_alloc_new_def)
  have o1: "span_ok ?s" and l1: "span_list ?s = [((0, 10), 1)]"
    using put_span_spec [OF e(1) _ e(2), of 1] e(3) by (auto simp: span_alloc_new_def)
  have f: "is_free ?s 20 90" using l1 by (simp add: is_free_def)
  have "ys = [((0, 10), 1)] \<and> zs = [] \<or> ys = [] \<and> zs = [((0, 10), 1)]" if "[((0, 10), 1)] = ys @ zs"
    for ys zs :: "((int \<times> int) \<times> nat) list" using that by (cases ys) auto
  have "small_alloc = put_span ?s \<lparr>sp_start = 20, sp_end = 90, sp_value = 2\<rparr>" by (simp add: small_alloc_def)
  with put_span_spec [OF o1 _ f, of 2] p show "span_ok small_alloc" by auto
  show "span_list small_alloc = [((0, 10), 1), ((20, 90), 2)]" by code_simp
qed

lemma span_alloc_correct_witness:
  "\<exists>a s'. span_alloc_op None small_alloc 10 7 = Some (Inr ((a, a + 10), s')) \<and> a + 10 \<le> 100 \<and> span_ok s'"
proof -
  have "span_list small_alloc = [((0, 10), 1), ((20, 90), 2)]" by (rule small_alloc_ok)
  then have f: "is_free small_alloc 10 (10 + 10)" "spans small_alloc \<noteq> Leaf" "range_start small_alloc = 0" "range_end small_alloc = 100"
    by (auto simp: is_free_def span_list_def small_alloc_def put_span_def span_alloc_new_def)
  show ?thesis using span_alloc_correct [OF small_alloc_ok(1), of 10 None 7] f
    by (auto split: option.splits sum.splits dest: spec [of _ 10])
qed

text \<open>
  Freeing removes exactly the span around the address and returns its bounds and value; it panics
  exactly if no span holds the address.
\<close>

theorem span_free_correct:
  assumes "span_ok s"
  shows "case span_free s p of
    None \<Rightarrow> (\<forall>((a, b), _)\<in>set (span_list s). \<not> (a \<le> p \<and> p < b))
  | Some (((a, b), v), s') \<Rightarrow> a \<le> p \<and> p < b \<and> span_ok s' \<and>
      (\<exists>ys zs. span_list s = ys @ ((a, b), v) # zs \<and> span_list s' = ys @ zs)"
proof (cases "find_loc (by_containing p) (spans s)")
  case None
  with find_containing(1) [OF assms] show ?thesis by (simp add: span_free_def)
next
  case (Some l)
  with find_containing(2) [OF assms Some] show ?thesis by (auto simp: span_free_def Let_def)
qed

lemma span_free_correct_witness:
  "\<exists>r s'. span_free small_alloc 25 = Some (r, s') \<and> span_ok s'"
proof -
  have "((20, 90), 2) \<in> set (span_list small_alloc)" using small_alloc_ok(2) by simp
  with span_free_correct [OF small_alloc_ok(1), of 25] show ?thesis by (auto split: option.splits)
qed

text \<open>
  C26.  Allocating a block and freeing it again by its address gives back the block and its value and leaves
  the spans as they were.
\<close>

theorem span_alloc_free_roundtrip:
  assumes "span_ok s" "0 < sz" "spans s = Leaf \<longrightarrow> sz \<le> range_end s - range_start s"
    and "span_alloc_op None s sz v = Some (Inr ((a, b), s'))"
  shows "\<exists>s''. span_free s' a = Some (((a, b), v), s'') \<and> span_ok s'' \<and> span_list s'' = span_list s"
proof -
  from span_alloc_spec [OF assms(1,2), of None v] assms(3,4) obtain ys zs where
    ok: "span_ok s'" "b = a + sz" "is_free s a b" "span_list s = ys @ zs" "span_list s' = ys @ ((a, b), v) # zs" by (auto split: if_splits)
  have lt: "a < b" using ok(2) assms(2) by simp
  obtain s'' where "span_free s' a = Some (((a, b), v), s'')" "span_ok s''" "span_list s'' = ys @ zs"
    by (rule span_free_at [OF ok(1,5) order_refl lt])
  with ok(4) show ?thesis by simp
qed

lemma span_alloc_free_roundtrip_witness:
  "\<exists>a b s' s''. span_alloc_op None small_alloc 10 7 = Some (Inr ((a, b), s')) \<and>
     span_free s' a = Some (((a, b), 7), s'') \<and> span_list s'' = span_list small_alloc"
proof -
  have r: "map_option (map_sum id fst) (span_alloc_op None small_alloc 10 7) = Some (Inr (10, 20))" by code_simp
  then obtain s' where s': "span_alloc_op None small_alloc 10 7 = Some (Inr ((10, 20), s'))"
    by (cases "span_alloc_op None small_alloc 10 7"; cases "the (span_alloc_op None small_alloc 10 7)") auto
  have "spans small_alloc \<noteq> Leaf" using small_alloc_ok(2) by (auto simp: span_list_def)
  with span_alloc_free_roundtrip [OF small_alloc_ok(1) _ _ s'] s' show ?thesis by auto
qed

text \<open>
  Inserting a non-empty range succeeds exactly if it overlaps no span and the tree node can be allocated;
  the span is then added at its place, and on failure nothing has changed.
\<close>

theorem span_insert_correct:
  assumes "span_ok s" "a < b"
  shows "case span_insert node_alloc s a b v of
    Inl e \<Rightarrow> e = Overlapped \<and> \<not> is_free s a b \<or> (\<exists>m. is_free s a b \<and> node_alloc = Some m \<and> e = Memory m)
  | Inr s' \<Rightarrow> is_free s a b \<and> node_alloc = None \<and>
      (range_start s \<le> a \<and> b \<le> range_end s \<longrightarrow> span_ok s') \<and>
      (\<exists>ys zs. span_list s = ys @ zs \<and> span_list s' = ys @ ((a, b), v) # zs)"
proof (cases "is_free s a b \<and> node_alloc = None")
  case True
  then obtain ys zs where "span_list s = ys @ zs"
    "span_list (put_span s \<lparr>sp_start = a, sp_end = b, sp_value = v\<rparr>) = ys @ ((a, b), v) # zs"
    "range_start s \<le> a \<Longrightarrow> b \<le> range_end s \<Longrightarrow> span_ok (put_span s \<lparr>sp_start = a, sp_end = b, sp_value = v\<rparr>)"
    using put_span_spec [OF assms, of v] by metis
  with True find_overlap [OF assms] show ?thesis by (auto simp: span_insert_def)
next
  case False
  with find_overlap [OF assms] show ?thesis by (auto simp: span_insert_def split: option.splits)
qed

lemma span_insert_correct_witness: "span_insert None small_alloc 5 15 3 = Inl Overlapped"
proof -
  have "\<not> is_free small_alloc 5 15" using small_alloc_ok(2) by (simp add: is_free_def)
  with span_insert_correct [OF small_alloc_ok(1), of 5 15 None 3] show ?thesis by (auto split: sum.splits)
qed

text \<open>
   The range is not respected where it should be: an allocator without spans hands out a block of any
  size, and an insertion outside the range is accepted instead of being reported as an invalid address.
\<close>

theorem span_range_ignored:
  "map_option (map_sum id fst) (span_alloc_op None (span_alloc_new 0 10 :: nat span_alloc) 100 7) = Some (Inr (0, 100)) \<and>
   map_sum id span_list (span_insert None (span_alloc_new 0 10 :: nat span_alloc) 50 60 7) = Inr [((50, 60), 7)]"
  by code_simp

end
