(* ===== verification/Virtual_Alloc.thy ===== *)
theory Virtual_Alloc
  imports Span_Alloc
begin

text \<open>
  The virtual allocator (\<^verbatim>\<open>memory/virtual_alloc.rs\<close>, \<^verbatim>\<open>memory/address_space.rs\<close>): a span of kernel addresses
  is reserved, its pages are backed by frames one by one, and undone when the frame of a page cannot be had.  The page table
  and the frame allocator under it are parameters, grouped in \<^verbatim>\<open>page_ops\<close>; \<^verbatim>\<open>page_laws\<close> states what
  their documentation promises, failures included: mapping a page may fail for lack of frames for the tables above it, which the
  code unwraps.  \<^term>\<open>None\<close> is a panic.
\<close>

definition FRAME_SIZE :: int where "FRAME_SIZE = 4096"
definition VIRTUAL_ALLOCATOR_START :: int where "VIRTUAL_ALLOCATOR_START = 0xFFFFA00000000000"
definition VIRTUAL_ALLOCATOR_END :: int where "VIRTUAL_ALLOCATOR_END = 0xFFFFB00000000000"
definition USIZE_MAX :: int where "USIZE_MAX = 2 ^ 64 - 1"
definition ISIZE_MAX :: int where "ISIZE_MAX = 2 ^ 63 - 1"

record 'k page_ops =
  alloc_frame :: "'k \<Rightarrow> memory_error + int \<times> 'k"
  map_to :: "int \<Rightarrow> int \<Rightarrow> 'k \<Rightarrow> 'k option"
  unmap :: "int \<Rightarrow> 'k \<Rightarrow> (int \<times> 'k) option"
  free_frame :: "int \<Rightarrow> 'k \<Rightarrow> 'k option"

record virtual_allocation =
  guard_bottom :: int
  guard_top :: int

record alloc_settings =
  set_bottom :: int
  set_top :: int

record layout =
  lsize :: int
  lalign :: int

section \<open>Kernel address space\<close>

definition map_new_page :: "'k page_ops \<Rightarrow> int \<Rightarrow> 'k \<Rightarrow> (memory_error + 'k) option" where
  "map_new_page ops addr k =
     (case alloc_frame ops k of
        Inl e \<Rightarrow> Some (Inl e)
      | Inr (phys, k) \<Rightarrow> map_option Inr (map_to ops addr phys k))"

definition unmap_page :: "'k page_ops \<Rightarrow> int \<Rightarrow> 'k \<Rightarrow> 'k option" where
  "unmap_page ops addr k = do { (frame, k) \<leftarrow> unmap ops addr k; free_frame ops frame k }"

section \<open>Sizes\<close>

definition usize :: "int \<Rightarrow> int option" where
  "usize n = (if 0 \<le> n \<and> n \<le> USIZE_MAX then Some n else None)"

definition next_multiple_of :: "int \<Rightarrow> int \<Rightarrow> int option" where
  "next_multiple_of n m = usize (if n mod m = 0 then n else n + (m - n mod m))"

definition align_to :: "layout \<Rightarrow> int \<Rightarrow> layout option" where
  "align_to l a =
     (let al = max (lalign l) a
      in if lsize l > ISIZE_MAX + 1 - al then None else Some (l\<lparr>lalign := al\<rparr>))"

definition pad_to_align :: "layout \<Rightarrow> layout" where
  "pad_to_align l = l\<lparr>lsize := (lsize l + lalign l - 1) div lalign l * lalign l\<rparr>"

section \<open>Operations\<close>

definition err_map :: "span_error \<Rightarrow> memory_error option" where
  "err_map e = (case e of Memory m \<Rightarrow> Some m | Exhausted \<Rightarrow> Some OutOfVirtual | Overlapped \<Rightarrow> None | InvalidAddress \<Rightarrow> None)"

definition virtual_new :: "virtual_allocation span_alloc" where
  "virtual_new = span_alloc_new VIRTUAL_ALLOCATOR_START VIRTUAL_ALLOCATOR_END"

function step_pages :: "int \<Rightarrow> int \<Rightarrow> int list" where
  "step_pages a e = (if a < e then a # step_pages (a + FRAME_SIZE) e else [])"
  by pat_completeness auto
termination by (relation "measure (\<lambda>(a, e). nat (e - a))") (auto simp: FRAME_SIZE_def)

declare step_pages.simps [simp del]

fun map_each :: "'k page_ops \<Rightarrow> int list \<Rightarrow> 'k \<Rightarrow> ((int \<times> memory_error) option \<times> 'k) option" where
  "map_each ops [] k = Some (None, k)"
| "map_each ops (addr # addrs) k = do {
     r \<leftarrow> map_new_page ops addr k;
     (case r of
        Inl e \<Rightarrow> Some (Some (addr, e), k)
      | Inr k \<Rightarrow> map_each ops addrs k) }"

text \<open>The error carries the range that has been mapped.\<close>

definition try_map_pages :: "'k page_ops \<Rightarrow> int \<Rightarrow> int \<Rightarrow> 'k \<Rightarrow> (((int \<times> int) \<times> memory_error) option \<times> 'k) option" where
  "try_map_pages ops a e k = do {
     (failed, k) \<leftarrow> map_each ops (step_pages a e) k;
     Some (map_option (\<lambda>(addr, err). ((a, addr), err)) failed, k) }"

fun unmap_each :: "'k page_ops \<Rightarrow> int list \<Rightarrow> 'k \<Rightarrow> 'k option" where
  "unmap_each ops [] k = Some k"
| "unmap_each ops (addr # addrs) k = do { k \<leftarrow> unmap_page ops addr k; unmap_each ops addrs k }"

definition unmap_pages :: "'k page_ops \<Rightarrow> int \<Rightarrow> int \<Rightarrow> 'k \<Rightarrow> 'k option" where
  "unmap_pages ops a e k = unmap_each ops (step_pages a e) k"

text \<open>Backing a reserved range with pages, or undoing everything.\<close>

definition virtual_map :: "'k page_ops \<Rightarrow> alloc_settings \<Rightarrow> int \<times> int \<Rightarrow> virtual_allocation span_alloc \<Rightarrow> 'k \<Rightarrow>
    ((memory_error + int) \<times> virtual_allocation span_alloc \<times> 'k) option" where
  "virtual_map ops settings total_range s k = do {
     let start = fst total_range + set_bottom settings;
     let stop = snd total_range - set_top settings;
     (failed, k) \<leftarrow> try_map_pages ops start stop k;
     (case failed of
        None \<Rightarrow> Some (Inr start, s, k)
      | Some (done_range, err) \<Rightarrow> do {
          k \<leftarrow> unmap_pages ops (fst done_range) (snd done_range) k;
          (_, s) \<leftarrow> span_free s start;
          Some (Inl err, s, k) }) }"

definition virtual_alloc :: "'k page_ops \<Rightarrow> memory_error option \<Rightarrow> virtual_allocation span_alloc \<Rightarrow> layout \<Rightarrow>
    alloc_settings \<Rightarrow> 'k \<Rightarrow> ((memory_error + int) \<times> virtual_allocation span_alloc \<times> 'k) option" where
  "virtual_alloc ops node_alloc s layout settings k = do {
     gb \<leftarrow> next_multiple_of (set_bottom settings) FRAME_SIZE;
     gt \<leftarrow> next_multiple_of (set_top settings) FRAME_SIZE;
     aligned \<leftarrow> align_to layout FRAME_SIZE;
     let layout = pad_to_align aligned;
     if \<not> lalign layout \<le> 4096 then None else do {
     part \<leftarrow> usize (lsize layout + gb);
     total_size \<leftarrow> usize (part + gt);
     reserved \<leftarrow> span_alloc_op node_alloc s total_size \<lparr>guard_bottom = gb, guard_top = gt\<rparr>;
     (case reserved of
        Inl e \<Rightarrow> map_option (\<lambda>m. (Inl m, s, k)) (err_map e)
      | Inr (total_range, s) \<Rightarrow> virtual_map ops settings total_range s k) } }"

definition virtual_free :: "'k page_ops \<Rightarrow> virtual_allocation span_alloc \<Rightarrow> int \<Rightarrow> 'k \<Rightarrow>
    (virtual_allocation span_alloc \<times> 'k) option" where
  "virtual_free ops s addr k = do {
     ((total_range, allocation), s) \<leftarrow> span_free s addr;
     let start = fst total_range + guard_bottom allocation;
     let stop = snd total_range - guard_top allocation;
     if addr \<noteq> start then None else do {
     k \<leftarrow> unmap_pages ops start stop k;
     Some (s, k) } }"

section \<open>What the page tables promise\<close>

text \<open>
  The parameters keep track of the mapped pages and of the frames that are left.  A frame allocation takes one frame and maps nothing.
  Mapping a page takes at most three frames for the tables above it, and succeeds on a page that is not mapped if that
  many are left; otherwise it may fail.  A mapped page can be unmapped, and its frame, which came from the allocator, can be
  released.
\<close>

definition page_laws :: "'k page_ops \<Rightarrow> ('k \<Rightarrow> int set) \<Rightarrow> ('k \<Rightarrow> nat) \<Rightarrow> bool" where
  "page_laws ops mapped spare \<longleftrightarrow>
     (\<forall>k f k'. alloc_frame ops k = Inr (f, k') \<longrightarrow> mapped k' = mapped k \<and> spare k \<le> spare k' + 1) \<and>
     (\<forall>a f k k'. map_to ops a f k = Some k' \<longrightarrow> mapped k' = insert a (mapped k) \<and> spare k \<le> spare k' + 3) \<and>
     (\<forall>a f k. a \<notin> mapped k \<and> 3 \<le> spare k \<longrightarrow> map_to ops a f k \<noteq> None) \<and>
     (\<forall>a k. a \<in> mapped k \<longrightarrow> (\<exists>f k' k''. unmap ops a k = Some (f, k') \<and> free_frame ops f k' = Some k'' \<and> mapped k'' = mapped k - {a}))"

lemma page_lawsD:
  assumes "page_laws ops mapped spare"
  shows "alloc_frame ops k = Inr (f, k') \<Longrightarrow> mapped k' = mapped k \<and> spare k \<le> spare k' + 1"
    "map_to ops a f k = Some k' \<Longrightarrow> mapped k' = insert a (mapped k) \<and> spare k \<le> spare k' + 3"
    "a \<notin> mapped k \<Longrightarrow> 3 \<le> spare k \<Longrightarrow> map_to ops a f k \<noteq> None"
    "a \<in> mapped k \<Longrightarrow> \<exists>f k' k''. unmap ops a k = Some (f, k') \<and> free_frame ops f k' = Some k'' \<and> mapped k'' = mapped k - {a}"
proof -
  note l = assms [unfolded page_laws_def, THEN conjunct1] assms [unfolded page_laws_def, THEN conjunct2, THEN conjunct1]
    assms [unfolded page_laws_def, THEN conjunct2, THEN conjunct2, THEN conjunct1]
    assms [unfolded page_laws_def, THEN conjunct2, THEN conjunct2, THEN conjunct2]
  show "alloc_frame ops k = Inr (f, k') \<Longrightarrow> mapped k' = mapped k \<and> spare k \<le> spare k' + 1" using l(1) by blast
  show "map_to ops a f k = Some k' \<Longrightarrow> mapped k' = insert a (mapped k) \<and> spare k \<le> spare k' + 3" using l(2) by blast
  show "a \<notin> mapped k \<Longrightarrow> 3 \<le> spare k \<Longrightarrow> map_to ops a f k \<noteq> None" using l(3) by blast
  show "a \<in> mapped k \<Longrightarrow> \<exists>f k' k''. unmap ops a k = Some (f, k') \<and> free_frame ops f k' = Some k'' \<and> mapped k'' = mapped k - {a}"
    using l(4) by blast
qed

lemma map_new_page_law:
  assumes "page_laws ops mapped spare" "a \<notin> mapped k"
  shows "case map_new_page ops a k of None \<Rightarrow> spare k < 4 | Some (Inl e) \<Rightarrow> True
    | Some (Inr k') \<Rightarrow> mapped k' = insert a (mapped k) \<and> spare k \<le> spare k' + 4"
proof (cases "alloc_frame ops k")
  case (Inl e)
  then show ?thesis by (simp add: map_new_page_def)
next
  case (Inr fk)
  then obtain f k1 where f: "alloc_frame ops k = Inr (f, k1)" by (cases fk) auto
  have k1: "mapped k1 = mapped k" "spare k \<le> spare k1 + 1" using page_lawsD(1) [OF assms(1) f] by auto
  then have "a \<notin> mapped k1" using assms(2) by simp
  from page_lawsD(3) [OF assms(1) this, of f] page_lawsD(2) [OF assms(1), of a f k1] k1 f show ?thesis
    by (cases "map_to ops a f k1") (fastforce simp: map_new_page_def)+
qed

lemma unmap_page_law:
  assumes "page_laws ops mapped spare" "a \<in> mapped k"
  shows "\<exists>k'. unmap_page ops a k = Some k' \<and> mapped k' = mapped k - {a}"
  using page_lawsD(4) [OF assms] by (auto simp: unmap_page_def)

lemma map_each_law:
  assumes "page_laws ops mapped spare" "distinct as" "set as \<inter> mapped k = {}"
  shows "case map_each ops as k of None \<Rightarrow> spare k < 4 * length as
    | Some (None, k') \<Rightarrow> mapped k' = mapped k \<union> set as
    | Some (Some (a, e), k') \<Rightarrow> \<exists>us vs. as = us @ a # vs \<and> mapped k' = mapped k \<union> set us"
  using assms(2,3)
proof (induction as arbitrary: k)
  case (Cons a as)
  have a: "a \<notin> mapped k" using Cons.prems by auto
  note law = map_new_page_law [OF assms(1) a]
  show ?case
  proof (cases "map_new_page ops a k")
    case None
    with law show ?thesis by simp
  next
    case (Some r)
    show ?thesis
    proof (cases r)
      case (Inl e)
      with Some show ?thesis by (auto intro: exI [of _ "[]"])
    next
      case (Inr k1)
      with Some law have k1: "map_new_page ops a k = Some (Inr k1)" "mapped k1 = insert a (mapped k)" "spare k \<le> spare k1 + 4" by auto
      have "set as \<inter> mapped k1 = {}" "distinct as" using Cons.prems k1(2) by auto
      note IH = Cons.IH [OF this(2,1)]
      have grow: "\<exists>us vs. a # as = us @ b # vs \<and> mapped k' = mapped k \<union> set us"
        if "as = us @ b # vs" "mapped k' = mapped k1 \<union> set us" for us b vs k'
        using that k1(2) by (intro exI [of _ "a # us"] exI [of _ vs]) auto
      show ?thesis using IH k1 grow by (auto split: option.splits)
    qed
  qed
qed simp

lemma unmap_each_law:
  assumes "page_laws ops mapped spare" "distinct as" "set as \<subseteq> mapped k"
  shows "\<exists>k'. unmap_each ops as k = Some k' \<and> mapped k' = mapped k - set as"
  using assms(2,3)
proof (induction as arbitrary: k)
  case (Cons a as)
  then have "a \<in> mapped k" by simp
  from unmap_page_law [OF assms(1) this] obtain k1 where "unmap_page ops a k = Some k1" "mapped k1 = mapped k - {a}" by blast
  moreover from this Cons.IH [of k1] Cons.prems obtain k' where "unmap_each ops as k1 = Some k'" "mapped k' = mapped k1 - set as"
    by auto
  ultimately show ?case by auto
qed simp

lemma step_pages_bounds: "p \<in> set (step_pages a e) \<Longrightarrow> a \<le> p \<and> p < e"
proof (induction a e rule: step_pages.induct)
  case (1 a e)
  then show ?case by (subst (asm) (2) step_pages.simps) (auto simp: FRAME_SIZE_def split: if_splits)
qed

lemma step_pages_distinct: "distinct (step_pages a e)"
proof (induction a e rule: step_pages.induct)
  case (1 a e)
  then show ?case by (subst step_pages.simps) (auto simp: FRAME_SIZE_def dest: step_pages_bounds)
qed

lemma step_pages_Cons: "step_pages a e = u # us \<longleftrightarrow> a < e \<and> u = a \<and> step_pages (a + FRAME_SIZE) e = us"
  by (subst step_pages.simps) auto

lemma step_pages_prefix: "step_pages a e = us @ p # vs \<Longrightarrow> step_pages a p = us"
proof (induction us arbitrary: a)
  case Nil
  then have "a = p" by (simp add: step_pages_Cons)
  then show ?case by (simp add: step_pages.simps)
next
  case (Cons u us)
  then have u: "u = a" "step_pages (a + FRAME_SIZE) e = us @ p # vs" by (simp_all add: step_pages_Cons)
  have "p \<in> set (step_pages (a + FRAME_SIZE) e)" using u(2) by simp
  from step_pages_bounds [OF this] have "a < p" by (simp add: FRAME_SIZE_def)
  with Cons.IH [OF u(2)] u(1) show ?case by (simp add: step_pages_Cons)
qed

lemma step_pages_length: "a \<le> e \<Longrightarrow> FRAME_SIZE dvd e - a \<Longrightarrow> int (length (step_pages a e)) = (e - a) div FRAME_SIZE"
proof (induction a e rule: step_pages.induct)
  case (1 a e)
  show ?case
  proof (cases "a < e")
    case True
    from 1(3) obtain n where n: "e - a = FRAME_SIZE * n" by (auto elim: dvdE)
    with True have "0 < n" by (simp add: FRAME_SIZE_def)
    have e': "e - (a + FRAME_SIZE) = FRAME_SIZE * (n - 1)" using n by (simp add: algebra_simps)
    have F: "0 < FRAME_SIZE" by (simp add: FRAME_SIZE_def)
    have "0 \<le> FRAME_SIZE * (n - 1)" using F \<open>0 < n\<close> by simp
    then have "a + FRAME_SIZE \<le> e" using e' by linarith
    moreover have "FRAME_SIZE dvd e - (a + FRAME_SIZE)" "(e - (a + FRAME_SIZE)) div FRAME_SIZE = n - 1" "(e - a) div FRAME_SIZE = n"
      unfolding e' n using F by simp_all
    ultimately show ?thesis using 1(1) [OF True] True by (subst step_pages.simps) simp
  next
    case False
    with 1(2) show ?thesis by (subst step_pages.simps) simp
  qed
qed

lemma try_map_pages_law:
  assumes "page_laws ops mapped spare" "set (step_pages a e) \<inter> mapped k = {}"
  shows "case try_map_pages ops a e k of None \<Rightarrow> spare k < 4 * length (step_pages a e)
    | Some (None, k') \<Rightarrow> mapped k' = mapped k \<union> set (step_pages a e)
    | Some (Some ((a', p), err), k') \<Rightarrow> a' = a \<and> (\<exists>k''. unmap_pages ops a p k' = Some k'' \<and> mapped k'' = mapped k)"
proof (cases "map_each ops (step_pages a e) k")
  case None
  with map_each_law [OF assms(1) step_pages_distinct assms(2)] show ?thesis by (simp add: try_map_pages_def)
next
  case (Some fk)
  obtain failed k' where fk: "fk = (failed, k')" by (cases fk)
  note r = map_each_law [OF assms(1) step_pages_distinct assms(2), unfolded Some fk]
  show ?thesis
  proof (cases failed)
    case None
    with r Some fk show ?thesis by (simp add: try_map_pages_def)
  next
    case q: (Some q)
    then obtain p err where q: "failed = Some (p, err)" by (cases q) auto
    with r obtain us vs where us: "step_pages a e = us @ p # vs" "mapped k' = mapped k \<union> set us" by auto
    have "distinct us" using step_pages_distinct [of a e] us(1) by simp
    with unmap_each_law [OF assms(1) this, of k'] us(2) obtain k'' where
      "unmap_each ops us k' = Some k''" "mapped k'' = mapped k' - set us" by auto
    moreover have "set us \<inter> mapped k = {}" using assms(2) us(1) by auto
    ultimately show ?thesis using Some fk q us step_pages_prefix [OF us(1)]
      by (auto simp: try_map_pages_def unmap_pages_def)
  qed
qed

section \<open>Allocation and release\<close>

text \<open>
  The pages of a span between its guards.  In a good state of the virtual allocator, whose range is fixed, exactly these pages
  of the range are mapped.
\<close>

definition body :: "(int \<times> int) \<times> virtual_allocation \<Rightarrow> int set" where
  "body sp = set (step_pages (fst (fst sp) + guard_bottom (snd sp)) (snd (fst sp) - guard_top (snd sp)))"

definition va_ok :: "virtual_allocation span_alloc \<Rightarrow> int set \<Rightarrow> bool" where
  "va_ok s M \<longleftrightarrow> span_ok s \<and> range_start s = VIRTUAL_ALLOCATOR_START \<and> range_end s = VIRTUAL_ALLOCATOR_END \<and>
     (\<forall>sp\<in>set (span_list s). 0 \<le> guard_bottom (snd sp) \<and> 0 \<le> guard_top (snd sp)) \<and>
     (\<forall>p. range_start s \<le> p \<and> p < range_end s \<longrightarrow> (p \<in> M \<longleftrightarrow> (\<exists>sp\<in>set (span_list s). p \<in> body sp)))"

lemma body_bounds:
  "p \<in> body sp \<Longrightarrow> 0 \<le> guard_bottom (snd sp) \<Longrightarrow> 0 \<le> guard_top (snd sp) \<Longrightarrow> fst (fst sp) \<le> p \<and> p < snd (fst sp)"
  by (auto simp: body_def dest: step_pages_bounds)

lemma padded:
  fixes n :: int
  shows "n \<le> (n + 4096 - 1) div 4096 * 4096" "(n + 4096 - 1) div 4096 * 4096 < n + 4096"
proof -
  have "(n + 4096 - 1) div 4096 * 4096 = n + 4095 - (n + 4095) mod 4096" by (simp add: minus_mod_eq_div_mult [symmetric] add.commute)
  moreover have "0 \<le> (n + 4095) mod 4096" "(n + 4095) mod 4096 < 4096" by simp_all
  ultimately show "n \<le> (n + 4096 - 1) div 4096 * 4096" "(n + 4096 - 1) div 4096 * 4096 < n + 4096" by linarith+
qed

text \<open>The checked arithmetic at the head of an allocation succeeds on sizes that fit in the range.\<close>

definition fitting :: "layout \<Rightarrow> alloc_settings \<Rightarrow> bool" where
  "fitting l st \<longleftrightarrow> 0 < lsize l \<and> 0 < lalign l \<and> lalign l \<le> 4096 \<and> 0 \<le> set_bottom st \<and> set_bottom st mod FRAME_SIZE = 0 \<and>
     0 \<le> set_top st \<and> set_top st mod FRAME_SIZE = 0 \<and> lsize l + set_bottom st + set_top st + FRAME_SIZE \<le> 2 ^ 44"

definition padded_size :: "layout \<Rightarrow> int" where
  "padded_size l = (lsize l + 4096 - 1) div 4096 * 4096"

lemma virtual_alloc_unfold:
  assumes "fitting l st"
  shows "virtual_alloc ops node_alloc s l st k = do {
     reserved \<leftarrow> span_alloc_op node_alloc s (padded_size l + set_bottom st + set_top st)
       \<lparr>guard_bottom = set_bottom st, guard_top = set_top st\<rparr>;
     (case reserved of
        Inl e \<Rightarrow> map_option (\<lambda>m. (Inl m, s, k)) (err_map e)
      | Inr (total_range, s) \<Rightarrow> virtual_map ops st total_range s k) }"
proof -
  have f: "0 < lsize l" "0 < lalign l" "lalign l \<le> 4096" "0 \<le> set_bottom st" "0 \<le> set_top st"
    "lsize l + set_bottom st + set_top st + 4096 \<le> 2 ^ 44" using assms by (auto simp: fitting_def FRAME_SIZE_def)
  have "next_multiple_of (set_bottom st) FRAME_SIZE = Some (set_bottom st)" "next_multiple_of (set_top st) FRAME_SIZE = Some (set_top st)"
    using assms f by (auto simp: fitting_def next_multiple_of_def usize_def USIZE_MAX_def)
  moreover have "align_to l FRAME_SIZE = Some (l\<lparr>lalign := 4096\<rparr>)"
    using f by (auto simp: align_to_def Let_def ISIZE_MAX_def FRAME_SIZE_def)
  moreover have "lsize (pad_to_align (l\<lparr>lalign := 4096\<rparr>)) = padded_size l" "lalign (pad_to_align (l\<lparr>lalign := 4096\<rparr>)) = 4096"
    by (simp_all add: pad_to_align_def padded_size_def)
  moreover have "0 < padded_size l" "padded_size l < lsize l + 4096" using padded [of "lsize l"] f(1) by (auto simp: padded_size_def)
  then have "usize (padded_size l + set_bottom st) = Some (padded_size l + set_bottom st)"
    "usize (padded_size l + set_bottom st + set_top st) = Some (padded_size l + set_bottom st + set_top st)"
    using f by (auto simp: usize_def USIZE_MAX_def)
  ultimately show ?thesis by (simp add: virtual_alloc_def Let_def)
qed

lemma va_ok_step:
  assumes "va_ok s M" "span_ok s'" "span_list s = ys @ zs" "span_list s' = ys @ sp # zs"
    and "0 \<le> guard_bottom (snd sp)" "0 \<le> guard_top (snd sp)" "range_start s' = range_start s" "range_end s' = range_end s"
  shows "va_ok s' (M \<union> body sp)"
  using assms by (auto simp: va_ok_def)

lemma body_fresh:
  assumes "va_ok s M" "is_free s a b" "range_start s \<le> a" "b \<le> range_end s" "p \<in> set (step_pages c d)" "a \<le> c" "d \<le> b"
  shows "p \<notin> M"
proof
  assume "p \<in> M"
  have p: "a \<le> p" "p < b" using step_pages_bounds [OF assms(5)] assms(6,7) by auto
  with assms(1,3,4) \<open>p \<in> M\<close> obtain sp where sp: "sp \<in> set (span_list s)" "p \<in> body sp"
    "0 \<le> guard_bottom (snd sp)" "0 \<le> guard_top (snd sp)" unfolding va_ok_def by (meson less_le_trans order_trans)
  from body_bounds [OF sp(2-4)] have "fst (fst sp) \<le> p" "p < snd (fst sp)" by auto
  moreover have "snd (fst sp) \<le> a \<or> b \<le> fst (fst sp)" using assms(2) sp(1) by (auto simp: is_free_def)
  ultimately show False using p by auto
qed

lemma virtual_map_spec:
  assumes "page_laws ops mapped spare" "va_ok s (mapped k)" "span_ok s'" "is_free s a b" "range_start s \<le> a" "b \<le> range_end s"
    and "span_list s = ys @ zs" "span_list s' = ys @ ((a, b), \<lparr>guard_bottom = set_bottom st, guard_top = set_top st\<rparr>) # zs"
    and "range_start s' = range_start s" "range_end s' = range_end s" "0 \<le> set_bottom st" "0 \<le> set_top st"
    and "a + set_bottom st < b - set_top st"
  shows "case virtual_map ops st (a, b) s' k of
      None \<Rightarrow> spare k < 4 * length (step_pages (a + set_bottom st) (b - set_top st))
    | Some (Inl e, s'', k') \<Rightarrow> va_ok s'' (mapped k') \<and> span_list s'' = span_list s \<and> mapped k' = mapped k
    | Some (Inr addr, s'', k') \<Rightarrow> va_ok s'' (mapped k') \<and> s'' = s' \<and> addr = a + set_bottom st \<and>
        mapped k' = mapped k \<union> set (step_pages addr (b - set_top st))"
proof -
  let ?g = "\<lparr>guard_bottom = set_bottom st, guard_top = set_top st\<rparr>" and ?c = "a + set_bottom st" and ?d = "b - set_top st"
  have fresh: "set (step_pages ?c ?d) \<inter> mapped k = {}"
    using body_fresh [OF assms(2,4-6), of _ ?c ?d] assms(11,12) by auto
  note law = try_map_pages_law [OF assms(1) fresh]
  consider (panic) "try_map_pages ops ?c ?d k = None" | (ready) k' where "try_map_pages ops ?c ?d k = Some (None, k')"
    | (failed) a' p err k1 where "try_map_pages ops ?c ?d k = Some (Some ((a', p), err), k1)"
  proof (cases "try_map_pages ops ?c ?d k")
    case (Some r)
    then show thesis using that by (cases r; cases "fst r") auto
  qed (use that in blast)
  then show ?thesis
  proof cases
    case panic
    with law show ?thesis by (simp add: virtual_map_def)
  next
    case (ready k')
    have "va_ok s' (mapped k \<union> body ((a, b), ?g))"
      using va_ok_step [OF assms(2,3,7,8)] assms(9-12) by simp
    then show ?thesis using ready law by (simp add: virtual_map_def body_def)
  next
    case (failed a' p err k1)
    with law obtain k2 where f: "a' = ?c" "unmap_pages ops ?c p k1 = Some k2" "mapped k2 = mapped k" by auto
    have "a \<le> ?c" "?c < b" using assms(11-13) by auto
    then obtain s'' where s'': "span_free s' ?c = Some (((a, b), ?g), s'')" "span_ok s''" "span_list s'' = ys @ zs"
      "range_start s'' = range_start s'" "range_end s'' = range_end s'"
      using span_free_at [OF assms(3,8)] by metis
    have "va_ok s'' (mapped k2)" using assms(2,7,9,10) s'' f(3) by (simp add: va_ok_def)
    then show ?thesis using f s'' assms(7) failed by (simp add: virtual_map_def)
  qed
qed

section \<open>Properties\<close>

text \<open>The number of pages that an allocation maps.\<close>

definition page_count :: "layout \<Rightarrow> nat" where
  "page_count l = nat (padded_size l div FRAME_SIZE)"

lemma virtual_alloc_spec:
  assumes "page_laws ops mapped spare" "va_ok s (mapped k)" "fitting l st"
  shows "case virtual_alloc ops node_alloc s l st k of
      None \<Rightarrow> spare k < 4 * page_count l
    | Some (Inl e, s', k') \<Rightarrow> va_ok s' (mapped k') \<and> span_list s' = span_list s \<and> mapped k' = mapped k
    | Some (Inr addr, s', k') \<Rightarrow> va_ok s' (mapped k') \<and> (\<exists>a b ys zs. span_list s = ys @ zs \<and>
         span_list s' = ys @ ((a, b), \<lparr>guard_bottom = set_bottom st, guard_top = set_top st\<rparr>) # zs \<and>
         addr = a + set_bottom st \<and> padded_size l = b - set_top st - addr \<and>
         mapped k' = mapped k \<union> set (step_pages addr (b - set_top st)) \<and>
         set (step_pages addr (b - set_top st)) \<inter> mapped k = {})"
proof -
  let ?g = "\<lparr>guard_bottom = set_bottom st, guard_top = set_top st\<rparr>" and ?sz = "padded_size l + set_bottom st + set_top st"
  have st: "0 \<le> set_bottom st" "0 \<le> set_top st" "0 < padded_size l" "lsize l \<le> padded_size l"
    using assms(3) padded(1) [of "lsize l"] by (auto simp: fitting_def padded_size_def)
  have ok: "span_ok s" using assms(2) by (simp add: va_ok_def)
  have sz: "0 < ?sz" using st by simp
  have "?sz \<le> range_end s - range_start s" using assms(2,3) padded(2) [of "lsize l"]
    by (simp add: va_ok_def fitting_def padded_size_def FRAME_SIZE_def VIRTUAL_ALLOCATOR_START_def VIRTUAL_ALLOCATOR_END_def)
  then have room: "spans s = Leaf \<longrightarrow> ?sz \<le> range_end s - range_start s" by blast
  from ok sz room show ?thesis
  proof (cases rule: span_alloc_cases [where node_alloc = node_alloc and v = ?g])
    case (error e)
    with assms(2) show ?thesis by (auto simp: virtual_alloc_unfold [OF assms(3)] err_map_def)
  next
    case (block a s' ys zs)
    let ?b = "a + ?sz"
    have rng: "range_start s' = range_start s" "range_end s' = range_end s"
      using span_alloc_range [OF block(1)] by simp_all
    have lt: "a + set_bottom st < ?b - set_top st" using st by simp
    note v = virtual_map_spec [OF assms(1,2) block(5,4,2,3,6,7) rng st(1,2) lt]
    have fresh: "set (step_pages (a + set_bottom st) (?b - set_top st)) \<inter> mapped k = {}"
      using body_fresh [OF assms(2) block(4,2,3), of _ "a + set_bottom st" "?b - set_top st"] st by auto
    have len: "padded_size l = ?b - set_top st - (a + set_bottom st)" by simp
    have "FRAME_SIZE dvd padded_size l" by (simp add: padded_size_def FRAME_SIZE_def)
    then have "int (length (step_pages (a + set_bottom st) (?b - set_top st))) = padded_size l div FRAME_SIZE"
      using step_pages_length [of "a + set_bottom st" "?b - set_top st"] st(3) by simp
    then have cnt: "length (step_pages (a + set_bottom st) (?b - set_top st)) = page_count l" by (simp add: page_count_def)
    have run: "virtual_alloc ops node_alloc s l st k = virtual_map ops st (a, ?b) s' k"
      using block(1) by (simp add: virtual_alloc_unfold [OF assms(3)])
    show ?thesis
    proof (cases "virtual_map ops st (a, ?b) s' k")
      case None
      with v cnt run show ?thesis by simp
    next
      case (Some r)
      obtain res s'' k' where r: "r = (res, s'', k')" by (cases r)
      show ?thesis
      proof (cases res)
        case (Inl e)
        with v Some r run show ?thesis by auto
      next
        case (Inr addr)
        with v Some r have m: "va_ok s'' (mapped k')" "s'' = s'" "addr = a + set_bottom st"
          "mapped k' = mapped k \<union> set (step_pages addr (?b - set_top st))" by auto
        have "\<exists>a b ys zs. span_list s = ys @ zs \<and> span_list s' = ys @ ((a, b), ?g) # zs \<and>
           addr = a + set_bottom st \<and> padded_size l = b - set_top st - addr \<and>
           mapped k' = mapped k \<union> set (step_pages addr (b - set_top st)) \<and>
           set (step_pages addr (b - set_top st)) \<inter> mapped k = {}"
          by (intro exI [of _ a] exI [of _ ?b] exI [of _ ys] exI [of _ zs]) (use m block(6,7) len fresh in simp)
        with m(1,2) Inr Some r run show ?thesis by simp
      qed
    qed
  qed
qed


text \<open>A page table over lists of mapped pages, with a bounded supply of frames, of which each mapping takes one for a table.\<close>

definition list_ops :: "(nat \<times> int list) page_ops" where
  "list_ops = \<lparr>
     alloc_frame = (\<lambda>(n, m). if n = 0 then Inl OutOfMemory else Inr (0, (n - 1, m))),
     map_to = (\<lambda>a _ (n, m). if a \<in> set m \<or> n = 0 then None else Some (n - 1, a # m)),
     unmap = (\<lambda>a (n, m). if a \<in> set m then Some (0, (n, removeAll a m)) else None),
     free_frame = (\<lambda>_ (n, m). Some (n + 1, m))\<rparr>"

lemma list_ops_laws: "page_laws list_ops (\<lambda>(n, m). set m) fst"
  by (auto simp: page_laws_def list_ops_def split: if_splits)

lemma virtual_new_ok: "va_ok virtual_new {}"
  by (simp add: va_ok_def virtual_new_def span_alloc_new_def span_ok_def span_list_def VIRTUAL_ALLOCATOR_START_def VIRTUAL_ALLOCATOR_END_def)

definition one_page :: layout where "one_page = \<lparr>lsize = 100, lalign = 8\<rparr>"

definition guarded :: alloc_settings where "guarded = \<lparr>set_bottom = 4096, set_top = 0\<rparr>"


text \<open>A mapping without a frame for a table panics, although the operation returns an error for lack of memory.\<close>

theorem virtual_table_panic: "virtual_alloc list_ops None virtual_new one_page guarded (1, []) = None"
  by code_simp

lemma virtual_free_spec:
  assumes "page_laws ops mapped spare" "va_ok s (mapped k)" "span_list s = ys @ ((a, b), g) # zs"
    and "addr = a + guard_bottom g" "addr < b"
  shows "\<exists>s' k'. virtual_free ops s addr k = Some (s', k') \<and> va_ok s' (mapped k') \<and> span_list s' = ys @ zs \<and>
           mapped k' = mapped k - body ((a, b), g)"
proof -
  have ok: "span_ok s" and g: "0 \<le> guard_bottom g" "0 \<le> guard_top g" using assms(2,3) by (auto simp: va_ok_def)
  have le: "a \<le> addr" using g(1) assms(4) by simp
  obtain s' where s': "span_free s addr = Some (((a, b), g), s')" "span_ok s'" "span_list s' = ys @ zs"
    "range_start s' = range_start s" "range_end s' = range_end s"
    by (rule span_free_at [OF ok assms(3) le assms(5)])
  have rng: "range_start s \<le> a" "b \<le> range_end s"
    using ok assms(3) by (auto simp: span_ok_def span_list_def map_eq_append_conv map_eq_Cons_conv)
  have bd: "p \<in> mapped k" "a \<le> p" "p < b" if "p \<in> body ((a, b), g)" for p
  proof -
    show p: "a \<le> p" "p < b" using body_bounds [OF that] g by auto
    have "((a, b), g) \<in> set (span_list s)" using assms(3) by simp
    then show "p \<in> mapped k" using assms(2) p rng that unfolding va_ok_def
      by (meson less_le_trans order_trans)
  qed
  have "set (step_pages addr (b - guard_top g)) \<subseteq> mapped k" using bd(1) assms(4) by (auto simp: body_def)
  from unmap_each_law [OF assms(1) step_pages_distinct this] obtain k' where
    k': "unmap_pages ops addr (b - guard_top g) k = Some k'" "mapped k' = mapped k - body ((a, b), g)"
    using assms(4) by (auto simp: unmap_pages_def body_def)
  have sep: "sp \<in> set ys \<union> set zs \<Longrightarrow> p \<in> body sp \<Longrightarrow> p \<notin> body ((a, b), g)" for sp p
    using span_list_sep [OF ok assms(3)] body_bounds [of p sp] bd(2,3) [of p] assms(2,3)
    by (fastforce simp: va_ok_def)
  have "va_ok s' (mapped k')"
    unfolding va_ok_def
  proof (intro conjI allI impI)
    fix p assume "range_start s' \<le> p \<and> p < range_end s'"
    then have "p \<in> mapped k \<longleftrightarrow> p \<in> body ((a, b), g) \<or> (\<exists>sp\<in>set ys \<union> set zs. p \<in> body sp)"
      using assms(2,3) s'(4,5) by (simp add: va_ok_def)
    then show "p \<in> mapped k' \<longleftrightarrow> (\<exists>sp\<in>set (span_list s'). p \<in> body sp)" using k'(2) s'(3) sep by auto blast+
  qed (use assms(2,3) s' in \<open>auto simp: va_ok_def\<close>)
  then show ?thesis using s' k' assms(4) by (simp add: virtual_free_def)
qed

text \<open>
  C27.  Freeing the address of an allocation in a good state never panics: the span disappears, exactly its
  pages are unmapped and their frames released, and the state stays good.
\<close>

theorem virtual_free_correct:
  assumes "page_laws ops mapped spare" "va_ok s (mapped k)" "span_list s = ys @ ((a, b), g) # zs"
    and "addr = a + guard_bottom g" "addr < b"
  shows "\<exists>s' k'. virtual_free ops s addr k = Some (s', k') \<and> va_ok s' (mapped k') \<and> span_list s' = ys @ zs \<and>
           mapped k' = mapped k - body ((a, b), g)"
  by (rule virtual_free_spec [OF assms])

definition one_span :: "virtual_allocation span_alloc" where
  "one_span = put_span virtual_new \<lparr>sp_start = VIRTUAL_ALLOCATOR_START, sp_end = VIRTUAL_ALLOCATOR_START + 8192,
     sp_value = \<lparr>guard_bottom = 4096, guard_top = 0\<rparr>\<rparr>"

lemma virtual_free_correct_witness:
  "\<exists>s' k'. virtual_free list_ops one_span (VIRTUAL_ALLOCATOR_START + 4096) (0, [VIRTUAL_ALLOCATOR_START + 4096]) = Some (s', k') \<and>
     span_list s' = [] \<and> set (snd k') = {}"
proof -
  let ?a = VIRTUAL_ALLOCATOR_START and ?g = "\<lparr>guard_bottom = 4096, guard_top = 0\<rparr>"
  have e: "span_ok virtual_new" "is_free virtual_new ?a (?a + 8192)" "span_list virtual_new = []" "range_start virtual_new = ?a"
    "range_end virtual_new = VIRTUAL_ALLOCATOR_END" "?a + 8192 \<le> VIRTUAL_ALLOCATOR_END"
    using virtual_new_ok by (simp_all add: va_ok_def is_free_def span_list_def virtual_new_def span_alloc_new_def VIRTUAL_ALLOCATOR_START_def
      VIRTUAL_ALLOCATOR_END_def)
  have l: "span_list one_span = [] @ ((?a, ?a + 8192), ?g) # []" and ok: "span_ok one_span"
    and rng: "range_start one_span = ?a" "range_end one_span = VIRTUAL_ALLOCATOR_END"
    using put_span_spec [OF e(1) _ e(2), of ?g] e(3-6) by (fastforce simp: one_span_def, fastforce simp: one_span_def, simp_all add: one_span_def put_span_def)
  have pages: "step_pages (?a + 4096) (?a + 8192) = [?a + 4096]" by (simp add: step_pages.simps FRAME_SIZE_def)
  have "va_ok one_span (set (snd (0::nat, [?a + 4096])))" using l ok rng pages by (auto simp: va_ok_def body_def)
  then have v: "va_ok one_span ((\<lambda>(n, m). set m) (0 :: nat, [?a + 4096]))" by simp
  have b: "body ((?a, ?a + 8192), ?g) = {?a + 4096}" using pages by (simp add: body_def)
  from virtual_free_correct [OF list_ops_laws v l, of "?a + 4096"] obtain s' k' where
    "virtual_free list_ops one_span (?a + 4096) (0, [?a + 4096]) = Some (s', k')" "span_list s' = []"
    "(\<lambda>(n, m). set m) k' = {?a + 4096} - body ((?a, ?a + 8192), ?g)" by auto
  then show ?thesis unfolding b by (cases k') auto
qed

text \<open>
   The guard sizes are rounded up for the size of the span and for its record, but the address is computed
  with the sizes as they were given: an allocation with a guard of one byte succeeds, starts off the page
  boundary, and its own address cannot be freed.
\<close>

theorem virtual_guard_mismatch:
  "(case virtual_alloc list_ops None (span_alloc_new 0 65536) one_page \<lparr>set_bottom = 1, set_top = 0\<rparr> (5, []) of
      Some (Inr addr, s, k) \<Rightarrow> (addr, virtual_free list_ops s addr k = None)
    | _ \<Rightarrow> (0, False)) = (1, True)"
  by code_simp

end
