(* ===== verification/Boot_Alloc.thy ===== *)
theory Boot_Alloc
  imports Intervals "HOL-Library.Monad_Syntax"
begin

text \<open>
  The boot allocator (\<^verbatim>\<open>memory/boot_alloc.rs\<close>): typed spans of physical memory in a red-black tree that caches
  the largest free span.  The nodes come from a fixed array of slots; their free list is modelled by its
  length, since nothing depends on which slot is used.  An insertion that finds no slot compacts the tree and
  panics if that frees none.  The update loop is a partial function; the theorems show that it returns.  Addresses and sizes
  are natural numbers; the sums that can leave 64 bits, the end of an updated range, a padded size, and the rounding of the start
  of a span up to the alignment, are checked, and panic.
\<close>

section \<open>Data\<close>

datatype span_type = Reserved | InUse | Reclaimable | Free

record bspan =
  bs_start :: nat
  bs_end :: nat
  bs_type :: span_type

record boot_alloc =
  boot_tree :: "(bspan, nat) rbtree"
  free_nodes :: nat

text \<open>The panics: no slot is left, an address overflows, an assertion of the update function fails.\<close>

datatype boot_error = OutOfSpans | AddrOverflow | AssertFailed

definition needs_frameinfo :: "span_type \<Rightarrow> bool" where
  "needs_frameinfo t = (case t of Reserved \<Rightarrow> False | InUse \<Rightarrow> True | Reclaimable \<Rightarrow> True | Free \<Rightarrow> True)"

definition is_usable :: "span_type \<Rightarrow> bool" where
  "is_usable t = (case t of Reserved \<Rightarrow> False | InUse \<Rightarrow> False | Reclaimable \<Rightarrow> True | Free \<Rightarrow> True)"

definition max_free :: "bspan \<Rightarrow> nat option \<Rightarrow> nat option \<Rightarrow> nat" where
  "max_free node left right =
     (let a = (if bs_type node = Free then bs_end node - bs_start node else 0)
      in max (max a (case left of None \<Rightarrow> 0 | Some x \<Rightarrow> x)) (case right of None \<Rightarrow> 0 | Some x \<Rightarrow> x))"

definition boot_new :: "nat \<Rightarrow> boot_alloc" where
  "boot_new slots = \<lparr>boot_tree = Leaf, free_nodes = slots\<rparr>"

definition bspan_cmp :: "bspan \<Rightarrow> bspan \<Rightarrow> ordering" where
  "bspan_cmp a b = cmp_of (bs_start a) (bs_start b)"

definition bspan_new :: "nat \<Rightarrow> nat \<Rightarrow> span_type \<Rightarrow> bspan" where
  "bspan_new a b t = \<lparr>bs_start = a, bs_end = b, bs_type = t\<rparr>"

section \<open>Compaction, insertion, removal\<close>

lemma tree_insert_length: "length (inorder (tree_insert f cmp x t)) = Suc (length (inorder t))"
proof -
  have "length (before (tree_place cmp x [] t) @ after (tree_place cmp x [] t)) = length (inorder t)"
    by (subst tree_place_split) simp
  then show ?thesis by (simp add: tree_insert_inorder)
qed

definition boot_remove :: "boot_alloc \<Rightarrow> (bspan, nat) location \<Rightarrow> bspan \<times> boot_alloc" where
  "boot_remove s node = (loc_value node, s\<lparr>boot_tree := tree_remove max_free node, free_nodes := free_nodes s + 1\<rparr>)"

text \<open>The node of rank \<^verbatim>\<open>k\<close> and its successor; the merged node takes the rank of the first again.\<close>

function compact_loop :: "nat \<Rightarrow> boot_alloc \<Rightarrow> boot_alloc" where
  "compact_loop k s =
     (let node = tree_loc_at k [] (boot_tree s) in
      case tree_successor node of
        None \<Rightarrow> s
      | Some succ \<Rightarrow>
          if bs_type (loc_value node) = bs_type (loc_value succ) \<and> bs_end (loc_value node) = bs_start (loc_value succ)
          then
            (let merged = bspan_new (bs_start (loc_value node)) (bs_end (loc_value succ)) (bs_type (loc_value node));
                 s = s\<lparr>boot_tree := tree_remove max_free node\<rparr>;
                 (_, s) = boot_remove s (tree_loc_at k [] (boot_tree s))
             in compact_loop k (s\<lparr>boot_tree := tree_insert max_free bspan_cmp merged (boot_tree s)\<rparr>))
          else compact_loop (Suc k) s)"
  by pat_completeness auto
termination
proof (relation "measure (\<lambda>(k, s). length (inorder (boot_tree s)) - k)", goal_cases)
  case 1
  show ?case by simp
next
  case (2 k s node succ merged s1 p u s2)
  then have k: "Suc k < length (inorder (boot_tree s))" using tree_successor_rank by blast
  have l1: "Suc (length (inorder (boot_tree s1))) = length (inorder (boot_tree s))"
    using tree_remove_at_length [of k "boot_tree s" max_free] k 2 by simp
  then have "Suc (length (inorder (tree_remove max_free (tree_loc_at k [] (boot_tree s1))))) = length (inorder (boot_tree s1))"
    using tree_remove_at_length [of k "boot_tree s1" max_free] k by simp
  then have "Suc (length (inorder (boot_tree s2))) = length (inorder (boot_tree s1))"
    using 2 by (auto simp: boot_remove_def)
  with l1 k show ?case by (simp add: tree_insert_length)
next
  case (3 k s node succ)
  then have "Suc k < length (inorder (boot_tree s))" using tree_successor_rank by blast
  then show ?case by simp
qed

declare compact_loop.simps [simp del]

definition compact :: "boot_alloc \<Rightarrow> boot_alloc" where
  "compact s = (if boot_tree s = Leaf then s else compact_loop 0 s)"

definition boot_insert :: "boot_alloc \<Rightarrow> bspan \<Rightarrow> boot_error + boot_alloc" where
  "boot_insert s x =
     (let s = (if free_nodes s = 0 then compact s else s)
      in if free_nodes s = 0 then Inl OutOfSpans
         else Inr (s\<lparr>boot_tree := tree_insert max_free bspan_cmp x (boot_tree s), free_nodes := free_nodes s - 1\<rparr>))"

section \<open>Updating a range\<close>

text \<open>The update function may panic, as the one of an allocation does.\<close>

definition boot_put :: "boot_alloc \<Rightarrow> nat \<Rightarrow> nat \<Rightarrow> boot_error + span_type \<Rightarrow> boot_error + boot_alloc" where
  "boot_put s a b t = (case t of Inl e \<Rightarrow> Inl e | Inr t \<Rightarrow> boot_insert s (bspan_new a b t))"

definition boot_split_left :: "(span_type option \<Rightarrow> boot_error + span_type) \<Rightarrow> bspan \<Rightarrow> boot_alloc \<Rightarrow> nat \<Rightarrow>
    boot_error + boot_alloc \<times> nat" where
  "boot_split_left upd old s addr =
     (if bs_start old > addr then map_sum id (\<lambda>s. (s, bs_start old)) (boot_put s addr (bs_start old) (upd None))
      else if bs_start old < addr then map_sum id (\<lambda>s. (s, addr)) (boot_insert s (bspan_new (bs_start old) addr (bs_type old)))
      else Inr (s, addr))"

definition boot_update_step :: "(span_type option \<Rightarrow> boot_error + span_type) \<Rightarrow> nat \<Rightarrow> bspan \<Rightarrow> boot_alloc \<Rightarrow> nat \<Rightarrow>
    boot_error + boot_alloc \<times> nat" where
  "boot_update_step upd e old s addr =
     (case boot_split_left upd old s addr of
        Inl err \<Rightarrow> Inl err
      | Inr (s, addr) \<Rightarrow>
          (let n_end = min (bs_end old) e in
           case boot_put s addr n_end (upd (Some (bs_type old))) of
             Inl err \<Rightarrow> Inl err
           | Inr s \<Rightarrow>
               (if bs_end old > e
                then map_sum id (\<lambda>s. (s, n_end)) (boot_insert s (bspan_new e (bs_end old) (bs_type old)))
                else Inr (s, n_end))))"

partial_function (option) boot_update_loop ::
  "(span_type option \<Rightarrow> boot_error + span_type) \<Rightarrow> nat \<Rightarrow> boot_alloc \<Rightarrow> nat \<Rightarrow> (boot_error + boot_alloc \<times> nat) option" where
  "boot_update_loop upd e s addr =
     (if addr = e then Some (Inr (s, addr))
      else case first_loc (\<lambda>n. bs_end n > addr) (boot_tree s) of
             None \<Rightarrow> Some (Inr (s, addr))
           | Some node \<Rightarrow>
               (if bs_start (loc_value node) \<ge> e then Some (Inr (s, addr))
                else let (old, s) = boot_remove s node in
                     case boot_update_step upd e old s addr of
                       Inl err \<Rightarrow> Some (Inl err)
                     | Inr (s, addr) \<Rightarrow> boot_update_loop upd e s addr))"

definition U64_MAX :: nat where "U64_MAX = 2 ^ 64 - 1"

definition boot_update :: "boot_alloc \<Rightarrow> nat \<Rightarrow> nat \<Rightarrow> (span_type option \<Rightarrow> boot_error + span_type) \<Rightarrow>
    (boot_error + boot_alloc) option" where
  "boot_update s addr len upd =
     (let e = addr + len in
      if e > U64_MAX then Some (Inl AddrOverflow)
      else do {
        r \<leftarrow> boot_update_loop upd e s addr;
        Some (case r of
          Inl err \<Rightarrow> Inl err
        | Inr (s, addr) \<Rightarrow> if addr \<noteq> e then boot_put s addr e (upd None) else Inr s) })"

definition mark_reserved :: "boot_alloc \<Rightarrow> nat \<Rightarrow> nat \<Rightarrow> (boot_error + boot_alloc) option" where
  "mark_reserved s start len = boot_update s start len (\<lambda>_. Inr Reserved)"

definition mark_used :: "boot_alloc \<Rightarrow> nat \<Rightarrow> nat \<Rightarrow> (boot_error + boot_alloc) option" where
  "mark_used s start len = boot_update s start len (\<lambda>t. if t = Some Reserved then Inr Reserved else Inr InUse)"

definition mark_reclaimable :: "boot_alloc \<Rightarrow> nat \<Rightarrow> nat \<Rightarrow> (boot_error + boot_alloc) option" where
  "mark_reclaimable s start len = boot_update s start len (\<lambda>t. if t = Some Reserved then Inr Reserved else Inr Reclaimable)"

section \<open>Allocation\<close>

definition next_multiple :: "nat \<Rightarrow> nat \<Rightarrow> nat" where
  "next_multiple n m = (if n mod m = 0 then n else n + (m - n mod m))"

definition u64_multiple :: "nat \<Rightarrow> nat \<Rightarrow> nat option" where
  "u64_multiple n m = (if next_multiple n m > U64_MAX then None else Some (next_multiple n m))"

text \<open>
  The recursive search; \<^term>\<open>None\<close> outside is a panic: on a node without a cached value, or when the rounded start of a
  free span leaves 64 bits.
\<close>

definition child_free :: "(bspan, nat) rbtree \<Rightarrow> nat option option" where
  "child_free t = (case t of Leaf \<Rightarrow> Some None | Node c l x a r \<Rightarrow> map_option Some a)"

definition span_fit :: "nat \<Rightarrow> nat \<Rightarrow> bspan \<Rightarrow> nat option option" where
  "span_fit sz al x =
     (if bs_type x = Free then do {
        start \<leftarrow> u64_multiple (bs_start x) al;
        let available = bs_end x - start;
        Some (if available \<ge> sz then Some start else None) }
      else Some None)"

fun alloc_worker :: "nat \<Rightarrow> nat \<Rightarrow> (bspan, nat) rbtree \<Rightarrow> nat option option" where
  "alloc_worker sz al Leaf = None"
| "alloc_worker sz al (Node c l x a r) = do {
     left \<leftarrow> child_free l;
     from_left \<leftarrow> (case left of Some m \<Rightarrow> if m \<ge> sz then alloc_worker sz al l else Some None | None \<Rightarrow> Some None);
     (case from_left of
        Some result \<Rightarrow> Some (Some result)
      | None \<Rightarrow> do {
          here \<leftarrow> span_fit sz al x;
          (case here of
             Some start \<Rightarrow> Some (Some start)
           | None \<Rightarrow> do {
               right \<leftarrow> child_free r;
               (case right of Some m \<Rightarrow> if m \<ge> sz then alloc_worker sz al r else Some None | None \<Rightarrow> Some None) }) }) }"

text \<open>The alignment is at least a page and the size is rounded up to it; a size that leaves the type panics.\<close>

definition boot_alloc_op :: "boot_alloc \<Rightarrow> nat \<Rightarrow> nat \<Rightarrow> (boot_error + nat \<times> boot_alloc) option option" where
  "boot_alloc_op s size0 align0 =
     (let al = max align0 4096; sz = (size0 + al - 1) div al * al in
      if size0 > 2 ^ 63 - al then None
      else if boot_tree s = Leaf then Some None
      else do {
        found \<leftarrow> alloc_worker sz al (boot_tree s);
        (case found of
           None \<Rightarrow> Some None
         | Some start \<Rightarrow> do {
             r \<leftarrow> boot_update s start sz (\<lambda>t. if t = Some Free then Inr InUse else Inl AssertFailed);
             Some (Some (map_sum id (\<lambda>s. (start, s)) r)) }) })"

declare boot_update_loop.simps [code] compact_loop.simps [code]

section \<open>Compaction changes no type\<close>

definition merge_spans :: "bspan \<Rightarrow> bspan \<Rightarrow> bspan \<times> bool" where
  "merge_spans x y =
     (if bs_type x = bs_type y \<and> bs_end x = bs_start y then (bspan_new (bs_start x) (bs_end y) (bs_type x), True)
      else (x, False))"

definition type_at :: "boot_alloc \<Rightarrow> nat \<Rightarrow> span_type option" where
  "type_at s p = map_option bs_type (seg_at bs_start bs_end (inorder (boot_tree s)) p)"

definition boot_ok :: "boot_alloc \<Rightarrow> bool" where
  "boot_ok s \<longleftrightarrow> rb_wf max_free (boot_tree s) \<and> disjoint bs_start bs_end (inorder (boot_tree s))"

lemma bspan_new_sel [simp]: "bs_start (bspan_new a b t) = a" "bs_end (bspan_new a b t) = b" "bs_type (bspan_new a b t) = t"
  by (simp_all add: bspan_new_def)

interpretation bst: interval_store "rb_wf max_free" inorder Leaf "tree_insert max_free" first_loc
    loc_value "tree_remove max_free" bs_start bs_end bspan_cmp
  by unfold_locales (simp add: bspan_cmp_def)

interpretation bmg: interval_merge bs_start bs_end merge_spans "map_option bs_type"
  by unfold_locales (auto simp: merge_spans_def split: if_splits)

lemma compact_loop_spec:
  assumes "k < length (inorder (boot_tree s))" "boot_ok s"
  shows "boot_ok (compact_loop k s) \<and>
     inorder (boot_tree (compact_loop k s)) = take k (inorder (boot_tree s)) @ merge_pairs merge_spans (drop k (inorder (boot_tree s))) \<and>
     free_nodes (compact_loop k s) + length (inorder (boot_tree (compact_loop k s))) = free_nodes s + length (inorder (boot_tree s))"
  using assms
proof (induction "length (inorder (boot_tree s)) - k" arbitrary: k s rule: less_induct)
  case less
  let ?t = "boot_tree s" and ?xs = "inorder (boot_tree s)"
  let ?node = "tree_loc_at k [] ?t"
  have wf: "rb_wf max_free ?t" and d: "disjoint bs_start bs_end ?xs" using less.prems(2) by (simp_all add: boot_ok_def)
  from tree_loc_at_spec [OF less.prems(1), of "[]"] have sp: "loc_tree ?node = ?t" "loc_ok ?node"
    "loc_before ?node = take k ?xs" "loc_value ?node = ?xs ! k" "loc_after ?node = drop (Suc k) ?xs" by auto
  show ?case
  proof (cases "Suc k < length ?xs")
    case False
    then have "tree_successor ?node = None" using tree_successor_spec(1) [OF sp(2)] sp(5) by simp
    then have "compact_loop k s = s" by (subst compact_loop.simps) simp
    moreover have "drop k ?xs = [?xs ! k]" using False less.prems(1) by (simp add: Cons_nth_drop_Suc [symmetric])
    ultimately show ?thesis using less.prems append_take_drop_id [of k ?xs] by simp
  next
    case True
    then obtain succ where su: "tree_successor ?node = Some succ"
      using tree_successor_spec(1) [OF sp(2)] sp(5) by fastforce
    note sv = tree_successor_rank(2) [OF su]
    let ?x = "?xs ! k" and ?y = "?xs ! Suc k" and ?rest = "drop (Suc (Suc k)) ?xs"
    have dk: "drop k ?xs = ?x # ?y # ?rest" and dk1: "drop (Suc k) ?xs = ?y # ?rest"
      using True less.prems(1) by (simp_all add: Cons_nth_drop_Suc)
    have xs: "?xs = take k ?xs @ ?x # ?y # ?rest" using append_take_drop_id [of k ?xs] dk by simp
    show ?thesis
    proof (cases "bs_type ?x = bs_type ?y \<and> bs_end ?x = bs_start ?y")
      case merge: True
      let ?m = "bspan_new (bs_start ?x) (bs_end ?y) (bs_type ?x)"
      let ?t1 = "tree_remove max_free ?node"
      have i1: "inorder ?t1 = take k ?xs @ ?y # ?rest" using tree_remove_seq [OF sp(2), of max_free] sp dk1 by simp
      have w1: "rb_wf max_free ?t1" using rb_wf_remove [OF _ sp(2)] wf sp(1) by simp
      have k1: "k < length (inorder ?t1)" using i1 less.prems(1) by simp
      note l1 = tree_loc_at_spec [OF k1, of "[]"]
      let ?t2 = "tree_remove max_free (tree_loc_at k [] ?t1)"
      have i2: "inorder ?t2 = take k ?xs @ ?rest"
        using tree_remove_seq [of "tree_loc_at k [] ?t1" max_free] l1 i1 less.prems(1) by (simp add: min_def)
      have w2: "rb_wf max_free ?t2" using rb_wf_remove [of max_free "tree_loc_at k [] ?t1"] w1 l1 by simp
      have "disjoint bs_start bs_end (take k ?xs @ ?x # ?y # ?rest)" using d xs by simp
      then have d3: "disjoint bs_start bs_end (take k ?xs @ ?m # ?rest)"
        using merge by (auto simp: disjoint_append disjoint_Cons)
      note ins = bst.ins_gap [OF w2 i2 d3]
      define s' where "s' = s\<lparr>free_nodes := free_nodes s + 1, boot_tree := tree_insert max_free bspan_cmp ?m ?t2\<rparr>"
      have eq: "compact_loop k s = compact_loop k s'"
        using su sv sp(4) merge by (subst compact_loop.simps) (simp add: boot_remove_def Let_def s'_def)
      have in': "inorder (boot_tree s') = take k ?xs @ ?m # ?rest" and fn: "free_nodes s' = free_nodes s + 1"
        using ins(2) by (simp_all add: s'_def)
      have ok': "boot_ok s'" using ins d3 by (simp add: boot_ok_def s'_def)
      have len: "length (inorder (boot_tree s')) = length ?xs - 1" "k < length (inorder (boot_tree s'))"
        and td: "take k (inorder (boot_tree s')) = take k ?xs" "drop k (inorder (boot_tree s')) = ?m # ?rest"
        using in' True by (auto simp: min_def)
      have mp: "merge_pairs merge_spans (drop k ?xs) = merge_pairs merge_spans (?m # ?rest)"
        unfolding dk using merge by (simp add: merge_spans_def)
      have lt: "length (inorder (boot_tree s')) - k < length ?xs - k" using len(1) True by simp
      note ih = less.hyps [OF lt len(2) ok', unfolded td]
      have "free_nodes s' + length (inorder (boot_tree s')) = free_nodes s + length ?xs" using fn len(1) True by simp
      with ih show ?thesis unfolding eq mp by (elim conjE) (intro conjI; assumption?; simp only:)
    next
      case keep: False
      have eq: "compact_loop k s = compact_loop (Suc k) s"
        using su sv sp(4) keep by (subst compact_loop.simps) auto
      have tk: "take (Suc k) ?xs = take k ?xs @ [?x]" using less.prems(1) by (simp add: take_Suc_conv_app_nth)
      have mp: "take k ?xs @ merge_pairs merge_spans (drop k ?xs) = take (Suc k) ?xs @ merge_pairs merge_spans (drop (Suc k) ?xs)"
        unfolding dk dk1 tk using keep by (auto simp: merge_spans_def)
      have "length ?xs - Suc k < length ?xs - k" using True by simp
      from less.hyps [OF this True less.prems(2)] show ?thesis unfolding eq mp .
    qed
  qed
qed

lemma compact_spec:
  assumes "boot_ok s"
  shows "boot_ok (compact s)" "inorder (boot_tree (compact s)) = merge_pairs merge_spans (inorder (boot_tree s))"
    "type_at (compact s) p = type_at s p"
    "free_nodes (compact s) + length (inorder (boot_tree (compact s))) = free_nodes s + length (inorder (boot_tree s))"
proof -
  have *: "boot_ok (compact s) \<and> inorder (boot_tree (compact s)) = merge_pairs merge_spans (inorder (boot_tree s)) \<and>
    free_nodes (compact s) + length (inorder (boot_tree (compact s))) = free_nodes s + length (inorder (boot_tree s))"
  proof (cases "boot_tree s")
    case Leaf
    with assms show ?thesis by (simp add: compact_def)
  next
    case (Node c l x a r)
    then have "0 < length (inorder (boot_tree s))" by simp
    from compact_loop_spec [OF this assms] Node show ?thesis by (auto simp: compact_def)
  qed
  then show "boot_ok (compact s)" "inorder (boot_tree (compact s)) = merge_pairs merge_spans (inorder (boot_tree s))"
    "free_nodes (compact s) + length (inorder (boot_tree (compact s))) = free_nodes s + length (inorder (boot_tree s))" by auto
  have "disjoint bs_start bs_end (inorder (boot_tree s))" using assms by (simp add: boot_ok_def)
  from bmg.merge_pairs_obs [OF this] * show "type_at (compact s) p = type_at s p" by (simp add: type_at_def)
qed

section \<open>Insertion and removal, point by point\<close>

definition span_count :: "(bspan \<Rightarrow> bool) \<Rightarrow> boot_alloc \<Rightarrow> nat" where
  "span_count P s = length (filter P (inorder (boot_tree s)))"

lemma span_count_mono:
  assumes "\<And>x. P x \<Longrightarrow> Q x"
  shows "span_count P s \<le> span_count Q s"
proof -
  have "length (filter P xs) \<le> length (filter Q xs)" for xs using assms by (induction xs) auto
  then show ?thesis by (simp add: span_count_def)
qed

text \<open>
  All bounds of spans are in \<^verbatim>\<open>B\<close>; with the condition \<^verbatim>\<open>c\<close> there is also room for every way to cut memory at the points
  of \<^verbatim>\<open>B\<close>, as many slots as pieces between the points.
\<close>

definition roomy :: "bool \<Rightarrow> nat set \<Rightarrow> boot_alloc \<Rightarrow> bool" where
  "roomy c B s \<longleftrightarrow> span_count (\<lambda>x. bs_start x \<notin> B \<or> bs_end x \<notin> B) s = 0 \<and>
     (c \<longrightarrow> finite B \<and> card B \<le> free_nodes s + span_count (\<lambda>_. True) s + 1)"

text \<open>What an insertion into a gap does: one slot is used, unless there was none left and spans were merged.\<close>

definition grown :: "nat \<Rightarrow> nat \<Rightarrow> span_type \<Rightarrow> boot_alloc \<Rightarrow> boot_alloc \<Rightarrow> bool" where
  "grown a b t s s' \<longleftrightarrow> boot_ok s' \<and> (\<forall>p. type_at s' p = (if a \<le> p \<and> p < b then Some t else type_at s p)) \<and>
     (0 < free_nodes s \<longrightarrow> free_nodes s' = free_nodes s - 1 \<and>
        (\<forall>P. span_count P s' = span_count P s + (if P (bspan_new a b t) then 1 else 0))) \<and>
     (\<forall>c B. roomy c B s \<and> a \<in> B \<and> b \<in> B \<longrightarrow> roomy c B s')"

lemma type_gap:
  assumes "boot_ok s" "a < b" "\<forall>p. a \<le> p \<and> p < b \<longrightarrow> type_at s p = None"
  obtains ys zs where "inorder (boot_tree s) = ys @ zs" "disjoint bs_start bs_end (ys @ bspan_new a b t # zs)"
proof -
  let ?xs = "inorder (boot_tree s)"
  have d: "disjoint bs_start bs_end ?xs" using assms(1) by (simp add: boot_ok_def)
  from disjoint_split [OF d, of a] obtain ys zs where
    yz: "?xs = ys @ zs" "\<forall>y\<in>set ys. bs_end y \<le> a" "\<forall>z\<in>set zs. a < bs_end z" by blast
  have "b \<le> bs_start z" if z: "z \<in> set zs" for z
  proof (rule ccontr)
    assume "\<not> b \<le> bs_start z"
    then have p: "a \<le> max a (bs_start z)" "max a (bs_start z) < b" using assms(2) by auto
    then have "seg_at bs_start bs_end ?xs (max a (bs_start z)) = None" using assms(3) by (auto simp: type_at_def)
    moreover have zin: "z \<in> set ?xs" using z yz(1) by simp
    moreover have "bs_start z < bs_end z" by (rule disjoint_less [OF d zin])
    ultimately show False using yz(3) z by (auto simp: seg_at_None)
  qed
  then have "disjoint bs_start bs_end (ys @ bspan_new a b t # zs)"
    using d yz assms(2) by (force simp: disjoint_append disjoint_Cons)
  with yz(1) that show ?thesis by blast
qed

lemma disjoint_card:
  assumes "disjoint bs_start bs_end xs" "finite B" "\<forall>x\<in>set xs. bs_start x \<in> B \<and> bs_end x \<in> B" "xs \<noteq> []"
  shows "length xs < card B"
proof -
  have "distinct (map bs_start xs) \<and> (\<forall>x\<in>set xs. bs_start x < bs_end (last xs))"
    using assms(1,4)
  proof (induction xs)
    case (Cons x xs)
    then show ?case by (cases xs) (fastforce simp: disjoint_Cons)+
  qed simp
  then have d: "distinct (map bs_start xs @ [bs_end (last xs)])" by auto
  have "set (map bs_start xs @ [bs_end (last xs)]) \<subseteq> B" using assms(3,4) by auto
  from card_mono [OF assms(2) this] distinct_card [OF d] show ?thesis by simp
qed

lemma roomy_free:
  assumes "roomy True B s" "boot_ok s" "a < b" "\<forall>p. a \<le> p \<and> p < b \<longrightarrow> type_at s p = None" "a \<in> B" "b \<in> B"
  shows "0 < free_nodes s"
proof -
  obtain ys zs where yz: "inorder (boot_tree s) = ys @ zs" "disjoint bs_start bs_end (ys @ bspan_new a b Free # zs)"
    by (rule type_gap [OF assms(2-4)])
  have "\<forall>x\<in>set (ys @ bspan_new a b Free # zs). bs_start x \<in> B \<and> bs_end x \<in> B" "finite B"
    using assms(1,5,6) yz(1) by (auto simp: roomy_def span_count_def filter_empty_conv)
  from disjoint_card [OF yz(2) this(2,1)] assms(1) yz(1) show ?thesis by (simp add: roomy_def span_count_def)
qed

lemma bounds_merged:
  "\<forall>x\<in>set xs. bs_start x \<in> B \<and> bs_end x \<in> B \<Longrightarrow> \<forall>x\<in>set (merge_pairs merge_spans xs). bs_start x \<in> B \<and> bs_end x \<in> B"
proof (induction xs rule: pairs_induct)
  case (Two x y zs)
  show ?case
  proof (cases "bs_type x = bs_type y \<and> bs_end x = bs_start y")
    case True
    then have "merge_spans x y = (bspan_new (bs_start x) (bs_end y) (bs_type x), True)" by (simp add: merge_spans_def)
    with Two.IH [of "bspan_new (bs_start x) (bs_end y) (bs_type x)"] Two.prems show ?thesis by simp
  next
    case False
    then have "merge_spans x y = (x, False)" by (auto simp: merge_spans_def)
    with Two.IH [of y] Two.prems show ?thesis by simp
  qed
qed auto

lemma roomy_add:
  assumes "roomy c B s" "0 < free_nodes s" "a \<in> B" "b \<in> B"
    and "free_nodes s' = free_nodes s - 1" "\<And>P. span_count P s' = span_count P s + (if P (bspan_new a b t) then 1 else 0)"
  shows "roomy c B s'"
  using assms by (simp add: roomy_def)

lemma roomy_remove:
  assumes "roomy c B s" "\<And>P. span_count P s = span_count P (snd (boot_remove s l)) + (if P (loc_value l) then 1 else 0)"
  shows "roomy c B (snd (boot_remove s l))" "bs_start (loc_value l) \<in> B" "bs_end (loc_value l) \<in> B"
proof -
  have "free_nodes (snd (boot_remove s l)) = free_nodes s + 1" by (simp add: boot_remove_def)
  then show "roomy c B (snd (boot_remove s l))" "bs_start (loc_value l) \<in> B" "bs_end (loc_value l) \<in> B"
    using assms(1) assms(2) [of "\<lambda>_. True"] assms(2) [of "\<lambda>x. bs_start x \<notin> B \<or> bs_end x \<notin> B"] by (auto simp: roomy_def split: if_splits)
qed

lemma seg_at_insert:
  assumes "disjoint lo hi (ys @ x # zs)"
  shows "seg_at lo hi (ys @ x # zs) p = (if lo x \<le> p \<and> p < hi x then Some x else seg_at lo hi (ys @ zs) p)"
proof (cases "lo x \<le> p \<and> p < hi x")
  case True
  with seg_at_Some [OF assms, of p x] show ?thesis by simp
next
  case False
  then show ?thesis by (auto simp: seg_at_append seg_at_Cons split: option.split)
qed

lemma boot_insert_spec:
  assumes "boot_ok s" "a < b" "\<forall>p. a \<le> p \<and> p < b \<longrightarrow> type_at s p = None"
  obtains (full) "boot_insert s (bspan_new a b t) = Inl OutOfSpans" "free_nodes s = 0" "\<forall>B. \<not> (roomy True B s \<and> a \<in> B \<and> b \<in> B)"
  | (ins_case) s' where "boot_insert s (bspan_new a b t) = Inr s'" "grown a b t s s'"
proof -
  define s1 where "s1 = (if free_nodes s = 0 then compact s else s)"
  have s1: "boot_ok s1" "\<And>p. type_at s1 p = type_at s p" "free_nodes s \<noteq> 0 \<Longrightarrow> s1 = s"
    using compact_spec [OF assms(1)] assms(1) by (auto simp: s1_def)
  show ?thesis
  proof (cases "free_nodes s1 = 0")
    case True
    then have "boot_insert s (bspan_new a b t) = Inl OutOfSpans \<and> free_nodes s = 0"
      using s1(3) by (auto simp: boot_insert_def Let_def s1_def split: if_splits)
    with full roomy_free [OF _ assms] show ?thesis by auto
  next
    case False
    let ?x = "bspan_new a b t"
    let ?s = "s1\<lparr>boot_tree := tree_insert max_free bspan_cmp ?x (boot_tree s1), free_nodes := free_nodes s1 - 1\<rparr>"
    have gap: "\<forall>p. a \<le> p \<and> p < b \<longrightarrow> type_at s1 p = None" using assms(3) s1(2) by simp
    obtain ys zs where yz: "inorder (boot_tree s1) = ys @ zs" "disjoint bs_start bs_end (ys @ ?x # zs)"
      by (rule type_gap [OF s1(1) assms(2) gap])
    have "rb_wf max_free (boot_tree s1)" using s1(1) by (simp add: boot_ok_def)
    note ins = bst.ins_gap [OF this yz]
    have "type_at ?s p = (if a \<le> p \<and> p < b then Some t else type_at s1 p)" for p
      using ins(2) yz seg_at_insert [OF yz(2), of p] by (simp add: type_at_def)
    moreover have cnt: "free_nodes ?s = free_nodes s - 1 \<and> (\<forall>P. span_count P ?s = span_count P s + (if P ?x then 1 else 0))"
      if "0 < free_nodes s"
      using that ins yz s1(3) by (auto simp: span_count_def)
    moreover have "roomy c B ?s" if r: "roomy c B s" "a \<in> B" "b \<in> B" for c B
    proof (cases c)
      case True
      have "0 < free_nodes s" using roomy_free [OF _ assms r(2,3)] r(1) True by simp
      with cnt [OF this] show ?thesis by (intro roomy_add [OF r(1) _ r(2,3)]) blast+
    next
      case False
      have "\<forall>x\<in>set (inorder (boot_tree s)). bs_start x \<in> B \<and> bs_end x \<in> B" using r(1) by (auto simp: roomy_def span_count_def filter_empty_conv)
      then have "\<forall>x\<in>set (inorder (boot_tree s1)). bs_start x \<in> B \<and> bs_end x \<in> B"
        using bounds_merged [of "inorder (boot_tree s)" B] compact_spec(2) [OF assms(1)] by (auto simp: s1_def)
      then show ?thesis using ins(2) yz(1) r(2,3) False by (auto simp: roomy_def span_count_def filter_empty_conv)
    qed
    ultimately have "grown a b t s ?s"
      using ins yz s1(2) by (auto simp: grown_def boot_ok_def)
    moreover have "boot_insert s ?x = Inr ?s" using False by (simp add: boot_insert_def Let_def s1_def)
    ultimately show ?thesis using ins_case by blast
  qed
qed

lemma boot_first_cases:
  assumes "boot_ok s"
  obtains (none) "first_loc (\<lambda>n. addr < bs_end n) (boot_tree s) = None" "\<forall>p. addr \<le> p \<longrightarrow> type_at s p = None"
  | (some) l where "first_loc (\<lambda>n. addr < bs_end n) (boot_tree s) = Some l" "addr < bs_end (loc_value l)"
      "bs_start (loc_value l) < bs_end (loc_value l)"
      "\<And>p. bs_start (loc_value l) \<le> p \<Longrightarrow> p < bs_end (loc_value l) \<Longrightarrow> type_at s p = Some (bs_type (loc_value l))"
      "\<And>p. addr \<le> p \<Longrightarrow> p < bs_start (loc_value l) \<Longrightarrow> type_at s p = None"
      "boot_ok (snd (boot_remove s l))"
      "\<And>p. type_at (snd (boot_remove s l)) p =
         (if bs_start (loc_value l) \<le> p \<and> p < bs_end (loc_value l) then None else type_at s p)"
      "\<And>P. span_count P s = span_count P (snd (boot_remove s l)) + (if P (loc_value l) then 1 else 0)"
proof -
  have wf: "rb_wf max_free (boot_tree s)" and d: "disjoint bs_start bs_end (inorder (boot_tree s))"
    using assms by (simp_all add: boot_ok_def)
  show ?thesis
  proof (rule bst.first_beyond [OF wf d, of addr])
    assume "first_loc (\<lambda>x. addr < bs_end x) (boot_tree s) = None" "\<forall>x\<in>set (inorder (boot_tree s)). bs_end x \<le> addr"
    moreover from this(2) have "\<forall>p. addr \<le> p \<longrightarrow> type_at s p = None" using seg_at_above by (fastforce simp: type_at_def)
    ultimately show ?thesis using none by blast
  next
    fix l xs ys
    assume l: "first_loc (\<lambda>x. addr < bs_end x) (boot_tree s) = Some l" "inorder (boot_tree s) = xs @ loc_value l # ys"
      "addr < bs_end (loc_value l)" "\<forall>x\<in>set xs. bs_end x \<le> addr" "rb_wf max_free (tree_remove max_free l)"
      "inorder (tree_remove max_free l) = xs @ ys"
    let ?x = "loc_value l"
    have d': "disjoint bs_start bs_end (xs @ ?x # ys)" using d l(2) by simp
    then have x: "bs_start ?x < bs_end ?x" "\<forall>y\<in>set ys. bs_end ?x \<le> bs_start y" "\<forall>y\<in>set xs. bs_end y \<le> bs_start ?x"
      "disjoint bs_start bs_end (xs @ ys)" by (auto simp: disjoint_append disjoint_Cons)
    have rest: "seg_at bs_start bs_end (xs @ ys) p = None" if "bs_start ?x \<le> p" "p < bs_end ?x" for p
      using x that by (fastforce simp: seg_at_None)
    have before: "type_at s p = None" if "addr \<le> p" "p < bs_start ?x" for p
      using that l(2,4) x(1,2) by (fastforce simp: type_at_def seg_at_None)
    note at = seg_at_insert [OF d']
    show ?thesis
    proof (rule some [OF l(1,3) x(1) _ before])
      show "type_at s p = Some (bs_type ?x)" if "bs_start ?x \<le> p" "p < bs_end ?x" for p
        using at [of p] that l(2) by (simp add: type_at_def)
      show "boot_ok (snd (boot_remove s l))" using l(5,6) x(4) by (simp add: boot_ok_def boot_remove_def)
      show "type_at (snd (boot_remove s l)) p = (if bs_start ?x \<le> p \<and> p < bs_end ?x then None else type_at s p)" for p
        using at [of p] rest [of p] l(2,6) by (simp add: type_at_def boot_remove_def)
      show "span_count P s = span_count P (snd (boot_remove s l)) + (if P ?x then 1 else 0)" for P
        using l(2,6) by (simp add: span_count_def boot_remove_def)
    qed
  qed
qed

section \<open>The update loop\<close>

abbreviation total_upd :: "(span_type option \<Rightarrow> boot_error + span_type) \<Rightarrow> span_type option \<Rightarrow> span_type option" where
  "total_upd upd old \<equiv> (case upd old of Inl e \<Rightarrow> None | Inr t \<Rightarrow> Some t)"

text \<open>The update function accepts every type that occurs in the range.\<close>

definition accepts :: "(span_type option \<Rightarrow> boot_error + span_type) \<Rightarrow> boot_alloc \<Rightarrow> nat \<Rightarrow> nat \<Rightarrow> bool" where
  "accepts upd s a e \<longleftrightarrow> (\<forall>p. a \<le> p \<and> p < e \<longrightarrow> (\<exists>t. upd (type_at s p) = Inr t))"

text \<open>The range up to \<^verbatim>\<open>b\<close> has been updated.\<close>

definition updated :: "(span_type option \<Rightarrow> boot_error + span_type) \<Rightarrow> boot_alloc \<Rightarrow> nat \<Rightarrow> nat \<Rightarrow> boot_alloc \<Rightarrow> bool" where
  "updated upd s a b s' \<longleftrightarrow> boot_ok s' \<and>
     (\<forall>p. type_at s' p = (if a \<le> p \<and> p < b then total_upd upd (type_at s p) else type_at s p))"

lemma boot_put_cases:
  assumes "boot_ok s" "a < b" "\<forall>p. a \<le> p \<and> p < b \<longrightarrow> type_at s p = None" "u = Inr t"
  obtains (full) "boot_put s a b u = Inl OutOfSpans" "free_nodes s = 0" "\<forall>B. \<not> (roomy True B s \<and> a \<in> B \<and> b \<in> B)"
  | (ins_case) s' where "boot_put s a b u = Inr s'" "grown a b t s s'"
proof (rule boot_insert_spec [OF assms(1-3), of t])
  assume "boot_insert s (bspan_new a b t) = Inl OutOfSpans" "free_nodes s = 0" "\<forall>B. \<not> (roomy True B s \<and> a \<in> B \<and> b \<in> B)"
  with full assms(4) show ?thesis by (simp add: boot_put_def)
next
  fix s' assume "boot_insert s (bspan_new a b t) = Inr s'" "grown a b t s s'"
  with ins_case assms(4) show ?thesis by (simp add: boot_put_def)
qed

text \<open>The part of the old span left of the range, or the gap in front of it.\<close>

lemma boot_split_left_cases:
  assumes "boot_ok s1" "addr < e" "bs_start old < e" "addr < bs_end old" "bs_start old < bs_end old"
    and old: "\<And>p. bs_start old \<le> p \<Longrightarrow> p < bs_end old \<Longrightarrow> type_at s p = Some (bs_type old)"
    and gap: "\<And>p. addr \<le> p \<Longrightarrow> p < bs_start old \<Longrightarrow> type_at s p = None"
    and s1: "\<And>p. type_at s1 p = (if bs_start old \<le> p \<and> p < bs_end old then None else type_at s p)"
    and "accepts upd s addr e"
  obtains (full) "boot_split_left upd old s1 addr = Inl OutOfSpans" "free_nodes s1 = 0" "\<forall>B. \<not> (roomy True B s1 \<and> addr \<in> B \<and> bs_start old \<in> B)"
  | (ins_case) s2 where "boot_split_left upd old s1 addr = Inr (s2, max addr (bs_start old))" "boot_ok s2"
      "\<And>p. type_at s2 p = (if max addr (bs_start old) \<le> p \<and> p < bs_end old then None
         else if addr \<le> p \<and> p < max addr (bs_start old) then total_upd upd (type_at s p) else type_at s p)"
      "0 < free_nodes s1 \<Longrightarrow> free_nodes s1 \<le> free_nodes s2 + 1 \<and>
         span_count (\<lambda>x. c < bs_end x) s2 \<le> span_count (\<lambda>x. c < bs_end x) s1 + (if c < max addr (bs_start old) then 1 else 0)"
      "\<forall>c B. roomy c B s1 \<and> addr \<in> B \<and> bs_start old \<in> B \<longrightarrow> roomy c B s2"
proof -
  consider (gap) "addr < bs_start old" | (left) "bs_start old < addr" | (exact) "bs_start old = addr" by linarith
  then show ?thesis
  proof cases
    case gap
    then obtain t where t: "upd None = Inr t" using assms(2,9) \<open>\<And>p. addr \<le> p \<Longrightarrow> p < bs_start old \<Longrightarrow> type_at s p = None\<close> [of addr]
      by (auto simp: accepts_def)
    have free: "\<forall>p. addr \<le> p \<and> p < bs_start old \<longrightarrow> type_at s1 p = None"
      using s1 \<open>\<And>p. addr \<le> p \<Longrightarrow> p < bs_start old \<Longrightarrow> type_at s p = None\<close> by auto
    from assms(1) gap free t show ?thesis
    proof (cases rule: boot_put_cases)
      case full
      with that(1) gap show ?thesis by (simp add: boot_split_left_def)
    next
      case (ins_case s2)
      show ?thesis
      proof (rule that(2) [of s2])
        show "boot_split_left upd old s1 addr = Inr (s2, max addr (bs_start old))"
          using ins_case(1) gap by (simp add: boot_split_left_def max_def)
        show "type_at s2 p = (if max addr (bs_start old) \<le> p \<and> p < bs_end old then None
            else if addr \<le> p \<and> p < max addr (bs_start old) then total_upd upd (type_at s p) else type_at s p)" for p
          using ins_case(2) gap s1 [of p] \<open>\<And>p. addr \<le> p \<Longrightarrow> p < bs_start old \<Longrightarrow> type_at s p = None\<close> [of p] t
          by (auto simp: grown_def max_def)
      qed (use ins_case(2) gap in \<open>auto simp: grown_def max_def\<close>)
    qed
  next
    case left
    have free: "\<forall>p. bs_start old \<le> p \<and> p < addr \<longrightarrow> type_at s1 p = None" using s1 assms(4) by auto
    show ?thesis
    proof (rule boot_insert_spec [OF assms(1) left free, of "bs_type old"])
      assume "boot_insert s1 (bspan_new (bs_start old) addr (bs_type old)) = Inl OutOfSpans" "free_nodes s1 = 0"
        "\<forall>B. \<not> (roomy True B s1 \<and> bs_start old \<in> B \<and> addr \<in> B)"
      with that(1) left show ?thesis by (auto simp: boot_split_left_def)
    next
      fix s2 assume ins: "boot_insert s1 (bspan_new (bs_start old) addr (bs_type old)) = Inr s2"
        "grown (bs_start old) addr (bs_type old) s1 s2"
      show ?thesis
      proof (rule that(2) [of s2])
        show "boot_split_left upd old s1 addr = Inr (s2, max addr (bs_start old))"
          using ins(1) left by (simp add: boot_split_left_def max_def)
        show "type_at s2 p = (if max addr (bs_start old) \<le> p \<and> p < bs_end old then None
            else if addr \<le> p \<and> p < max addr (bs_start old) then total_upd upd (type_at s p) else type_at s p)" for p
          using ins(2) left s1 [of p] old [of p] assms(4) by (auto simp: grown_def max_def)
      qed (use ins(2) left in \<open>auto simp: grown_def max_def\<close>)
    qed
  next
    case exact
    then show ?thesis using that(2) [of s1] assms(1) s1 by (simp add: boot_split_left_def)
  qed
qed

lemma boot_update_step_cases:
  assumes "boot_ok s1" "addr < e" "bs_start old < e" "addr < bs_end old" "bs_start old < bs_end old"
    and old: "\<And>p. bs_start old \<le> p \<Longrightarrow> p < bs_end old \<Longrightarrow> type_at s p = Some (bs_type old)"
    and gap: "\<And>p. addr \<le> p \<Longrightarrow> p < bs_start old \<Longrightarrow> type_at s p = None"
    and s1: "\<And>p. type_at s1 p = (if bs_start old \<le> p \<and> p < bs_end old then None else type_at s p)"
    and acc: "accepts upd s addr e"
  obtains (full) "boot_update_step upd e old s1 addr = Inl OutOfSpans" "free_nodes s1 < 3"
      "\<forall>B. \<not> (roomy True B s1 \<and> addr \<in> B \<and> e \<in> B \<and> bs_start old \<in> B \<and> bs_end old \<in> B)"
  | (stepped) s' where "boot_update_step upd e old s1 addr = Inr (s', min (bs_end old) e)"
      "updated upd s addr (min (bs_end old) e) s'"
      "3 \<le> free_nodes s1 \<Longrightarrow> bs_end old \<le> e \<Longrightarrow> free_nodes s1 \<le> free_nodes s' + 3 \<and>
         span_count (\<lambda>x. bs_end old < bs_end x) s' \<le> span_count (\<lambda>x. bs_end old < bs_end x) s1"
      "\<forall>c B. roomy c B s1 \<and> addr \<in> B \<and> e \<in> B \<and> bs_start old \<in> B \<and> bs_end old \<in> B \<longrightarrow> roomy c B s'"
proof -
  let ?a = "max addr (bs_start old)" and ?n = "min (bs_end old) e" and ?P = "\<lambda>x. bs_end old < bs_end x"
  have an: "?a < ?n" using assms(2-5) by simp
  have type_a: "type_at s ?a = Some (bs_type old)" using old assms(4,5) by simp
  then obtain t where t: "upd (Some (bs_type old)) = Inr t" using acc assms(2,3) by (auto simp: accepts_def dest: spec [of _ ?a])
  show ?thesis
  proof (rule boot_split_left_cases [OF assms(1-5) old gap s1 acc, where c = "bs_end old"])
    assume "boot_split_left upd old s1 addr = Inl OutOfSpans" "free_nodes s1 = 0" "\<forall>B. \<not> (roomy True B s1 \<and> addr \<in> B \<and> bs_start old \<in> B)"
    then show ?thesis using full by (auto simp: boot_update_step_def)
  next
    fix s2
    assume split: "boot_split_left upd old s1 addr = Inr (s2, ?a)" "boot_ok s2"
      "\<And>p. type_at s2 p = (if ?a \<le> p \<and> p < bs_end old then None
         else if addr \<le> p \<and> p < ?a then total_upd upd (type_at s p) else type_at s p)"
      "0 < free_nodes s1 \<Longrightarrow> free_nodes s1 \<le> free_nodes s2 + 1 \<and>
         span_count ?P s2 \<le> span_count ?P s1 + (if bs_end old < ?a then 1 else 0)"
      "\<forall>c B. roomy c B s1 \<and> addr \<in> B \<and> bs_start old \<in> B \<longrightarrow> roomy c B s2"
    have bounds: "?a \<in> B \<and> ?n \<in> B" if "addr \<in> B" "e \<in> B" "bs_start old \<in> B" "bs_end old \<in> B" for B
      using that by (simp add: max_def min_def)
    have free: "\<forall>p. ?a \<le> p \<and> p < ?n \<longrightarrow> type_at s2 p = None" using split(3) by simp
    from split(2) an free t show ?thesis
    proof (cases rule: boot_put_cases)
      case put_full: full
      have "free_nodes s1 < 3" using split(4) put_full(2) by (cases "free_nodes s1") auto
      moreover have "\<forall>B. \<not> (roomy True B s1 \<and> addr \<in> B \<and> e \<in> B \<and> bs_start old \<in> B \<and> bs_end old \<in> B)"
        using split(5) put_full(3) bounds by blast
      ultimately show ?thesis using split(1) put_full(1) full by (simp add: boot_update_step_def Let_def)
    next
      case put: (ins_case s3)
      have t3: "type_at s3 p = (if ?a \<le> p \<and> p < ?n then Some t else type_at s2 p)" for p using put(2) by (simp add: grown_def)
      have cnt: "free_nodes s1 \<le> free_nodes s3 + 2 \<and> span_count ?P s3 \<le> span_count ?P s1" if "3 \<le> free_nodes s1"
      proof -
        note that
        moreover have "\<not> bs_end old < ?a" using assms(4,5) by simp
        ultimately show ?thesis using split(4) put(2) by (simp add: grown_def)
      qed
      have room: "roomy c B s3" if "roomy c B s1 \<and> addr \<in> B \<and> e \<in> B \<and> bs_start old \<in> B \<and> bs_end old \<in> B" for c B
        using that split(5) put(2) bounds [of B] unfolding grown_def by blast
      have mid: "type_at s p = Some (bs_type old)" if "?a \<le> p" "p < bs_end old" for p using that old by simp
      show ?thesis
      proof (cases "e < bs_end old")
        case True
        have ne: "?n = e" using True by simp
        have free3: "\<forall>p. e \<le> p \<and> p < bs_end old \<longrightarrow> type_at s3 p = None" using t3 split(3) assms(2,3) ne by auto
        have ok3: "boot_ok s3" using put(2) by (simp add: grown_def)
        show ?thesis
        proof (rule boot_insert_spec [OF ok3 True free3, of "bs_type old"])
          assume f: "boot_insert s3 (bspan_new e (bs_end old) (bs_type old)) = Inl OutOfSpans" "free_nodes s3 = 0"
            "\<forall>B. \<not> (roomy True B s3 \<and> e \<in> B \<and> bs_end old \<in> B)"
          show ?thesis
          proof (rule full)
            show "boot_update_step upd e old s1 addr = Inl OutOfSpans" using f(1) split(1) put(1) True by (simp add: boot_update_step_def Let_def)
            show "free_nodes s1 < 3" using f(2) cnt by fastforce
            show "\<forall>B. \<not> (roomy True B s1 \<and> addr \<in> B \<and> e \<in> B \<and> bs_start old \<in> B \<and> bs_end old \<in> B)" using f(3) room by blast
          qed
        next
          fix s4 assume ins: "boot_insert s3 (bspan_new e (bs_end old) (bs_type old)) = Inr s4"
            "grown e (bs_end old) (bs_type old) s3 s4"
          have "type_at s4 p = (if addr \<le> p \<and> p < e then total_upd upd (type_at s p) else type_at s p)" for p
          proof (cases "?a \<le> p")
            case a: True
            then show ?thesis using ins(2) t3 [of p] split(3) [of p] mid [of p] t ne True by (auto simp: grown_def)
          next
            case False
            then show ?thesis using ins(2) t3 [of p] split(3) [of p] assms(2,3) by (auto simp: grown_def)
          qed
          then have "updated upd s addr ?n s4" using ins(2) ne by (simp add: updated_def grown_def)
          moreover have "\<forall>c B. roomy c B s1 \<and> addr \<in> B \<and> e \<in> B \<and> bs_start old \<in> B \<and> bs_end old \<in> B \<longrightarrow> roomy c B s4"
            using ins(2) room unfolding grown_def by blast
          moreover have "boot_update_step upd e old s1 addr = Inr (s4, ?n)"
            using split(1) put(1) ins(1) True ne by (simp add: boot_update_step_def Let_def)
          ultimately show ?thesis using stepped [of s4] True by simp
        qed
      next
        case False
        then have ne: "?n = bs_end old" by simp
        have "type_at s3 p = (if addr \<le> p \<and> p < ?n then total_upd upd (type_at s p) else type_at s p)" for p
          using t3 [of p] split(3) [of p] mid [of p] t ne assms(5) by (cases "?a \<le> p") auto
        then have "updated upd s addr ?n s3" using put(2) by (simp add: updated_def grown_def)
        moreover have "boot_update_step upd e old s1 addr = Inr (s3, ?n)"
          using split(1) put(1) False by (simp add: boot_update_step_def Let_def)
        ultimately show ?thesis using stepped [of s3] cnt room by fastforce
      qed
    qed
  qed
qed

lemma updated_trans:
  assumes "updated upd s a b s1" "updated upd s1 b c s2" "a \<le> b" "b \<le> c"
  shows "updated upd s a c s2"
  using assms by (auto simp: updated_def)

lemma updated_accepts: "updated upd s a b s1 \<Longrightarrow> accepts upd s a e \<Longrightarrow> a \<le> b \<Longrightarrow> accepts upd s1 b e"
  by (auto simp: updated_def accepts_def)

text \<open>
  The loop ends for every update function that accepts the types in the range; it fails only for lack of
  slots, and two slots for each span behind the start and one more are enough.
\<close>

lemma boot_update_loop_spec:
  assumes "boot_ok s" "addr \<le> e" "accepts upd s addr e"
  shows "\<exists>r. boot_update_loop upd e s addr = Some r \<and>
    (case r of
       Inl err \<Rightarrow> err = OutOfSpans \<and> free_nodes s < 2 * span_count (\<lambda>x. addr < bs_end x) s + 1 \<and>
         (\<forall>B. \<not> (roomy True B s \<and> addr \<in> B \<and> e \<in> B))
     | Inr (s', addr') \<Rightarrow> addr \<le> addr' \<and> addr' \<le> e \<and> updated upd s addr addr' s' \<and>
         (\<forall>p. addr' \<le> p \<and> p < e \<longrightarrow> type_at s' p = None) \<and>
         (2 * span_count (\<lambda>x. addr < bs_end x) s + 1 \<le> free_nodes s \<and> addr' \<noteq> e \<longrightarrow> 0 < free_nodes s') \<and>
         (\<forall>c B. roomy c B s \<and> addr \<in> B \<and> e \<in> B \<longrightarrow> roomy c B s' \<and> addr' \<in> B))"
  using assms
proof (induction "e - addr" arbitrary: s addr rule: less_induct)
  case less
  have self: "updated upd s addr addr s" using less.prems(1) by (auto simp: updated_def)
  show ?case
  proof (cases "addr = e")
    case True
    then show ?thesis using self by (subst boot_update_loop.simps) auto
  next
    case ne: False
    then have lt: "addr < e" using less.prems(2) by simp
    from less.prems(1) show ?thesis
    proof (cases rule: boot_first_cases [where addr = addr])
      case none
      then show ?thesis using ne lt self by (subst boot_update_loop.simps) simp
    next
      case (some l)
      let ?old = "loc_value l" and ?s1 = "snd (boot_remove s l)"
      have fn: "free_nodes ?s1 = free_nodes s + 1" by (simp add: boot_remove_def)
      have c1: "span_count (\<lambda>x. addr < bs_end x) s = span_count (\<lambda>x. addr < bs_end x) ?s1 + 1" using some(2,8) by simp
      show ?thesis
      proof (cases "bs_start ?old < e")
        case False
        then have "\<forall>p. addr \<le> p \<and> p < e \<longrightarrow> type_at s p = None" using some(5) by simp
        then show ?thesis using False ne lt self some(1) by (subst boot_update_loop.simps) simp
      next
        case True
        show ?thesis
        proof (rule boot_update_step_cases [OF some(6) lt True some(2,3,4,5,7) less.prems(3)])
          assume full: "boot_update_step upd e ?old ?s1 addr = Inl OutOfSpans" "free_nodes ?s1 < 3"
            "\<forall>B. \<not> (roomy True B ?s1 \<and> addr \<in> B \<and> e \<in> B \<and> bs_start ?old \<in> B \<and> bs_end ?old \<in> B)"
          then have "boot_update_loop upd e s addr = Some (Inl OutOfSpans)"
            using ne some(1) True by (subst boot_update_loop.simps) (simp add: boot_remove_def Let_def)
          moreover have "\<forall>B. \<not> (roomy True B s \<and> addr \<in> B \<and> e \<in> B)" using full(3) roomy_remove [OF _ some(8)] by blast
          ultimately show ?thesis using full(2) fn c1 by simp
        next
          let ?n = "min (bs_end ?old) e"
          fix s'
          assume stepped: "boot_update_step upd e ?old ?s1 addr = Inr (s', ?n)" "updated upd s addr ?n s'"
            "3 \<le> free_nodes ?s1 \<Longrightarrow> bs_end ?old \<le> e \<Longrightarrow> free_nodes ?s1 \<le> free_nodes s' + 3 \<and>
               span_count (\<lambda>x. bs_end ?old < bs_end x) s' \<le> span_count (\<lambda>x. bs_end ?old < bs_end x) ?s1"
            "\<forall>c B. roomy c B ?s1 \<and> addr \<in> B \<and> e \<in> B \<and> bs_start ?old \<in> B \<and> bs_end ?old \<in> B \<longrightarrow> roomy c B s'"
          have room: "roomy c B s' \<and> ?n \<in> B" if "roomy c B s \<and> addr \<in> B \<and> e \<in> B" for c B
            using that stepped(4) roomy_remove [OF _ some(8), of c B] by (auto simp: min_def)
          have eq: "boot_update_loop upd e s addr = boot_update_loop upd e s' ?n"
            using stepped(1) ne some(1) True by (subst boot_update_loop.simps) (simp add: boot_remove_def Let_def)
          have n: "addr < ?n" "?n \<le> e" using some(2) lt by auto
          have ok': "boot_ok s'" "accepts upd s' ?n e"
            using stepped(2) updated_accepts [OF stepped(2) less.prems(3)] n(1) by (simp_all add: updated_def)
          have dec: "e - ?n < e - addr" using diff_less_mono2 [OF n(1) lt] .
          from less.hyps [OF dec ok'(1) n(2) ok'(2)] obtain r where
            r: "boot_update_loop upd e s' ?n = Some r"
              "case r of Inl err \<Rightarrow> err = OutOfSpans \<and> free_nodes s' < 2 * span_count (\<lambda>x. ?n < bs_end x) s' + 1 \<and>
                   (\<forall>B. \<not> (roomy True B s' \<and> ?n \<in> B \<and> e \<in> B))
               | Inr (s2, a2) \<Rightarrow> ?n \<le> a2 \<and> a2 \<le> e \<and> updated upd s' ?n a2 s2 \<and>
                   (\<forall>p. a2 \<le> p \<and> p < e \<longrightarrow> type_at s2 p = None) \<and>
                   (2 * span_count (\<lambda>x. ?n < bs_end x) s' + 1 \<le> free_nodes s' \<and> a2 \<noteq> e \<longrightarrow> 0 < free_nodes s2) \<and>
                   (\<forall>c B. roomy c B s' \<and> ?n \<in> B \<and> e \<in> B \<longrightarrow> roomy c B s2 \<and> a2 \<in> B)" by blast
          have enough: "2 * span_count (\<lambda>x. ?n < bs_end x) s' + 1 \<le> free_nodes s'"
            if "2 * span_count (\<lambda>x. addr < bs_end x) s + 1 \<le> free_nodes s" "?n \<noteq> e"
          proof -
            have "?n = bs_end ?old" "bs_end ?old \<le> e" "3 \<le> free_nodes ?s1" using that c1 fn by auto
            with stepped(3) have "free_nodes ?s1 \<le> free_nodes s' + 3"
              "span_count (\<lambda>x. ?n < bs_end x) s' \<le> span_count (\<lambda>x. bs_end ?old < bs_end x) ?s1" by auto
            moreover have "span_count (\<lambda>x. bs_end ?old < bs_end x) ?s1 \<le> span_count (\<lambda>x. addr < bs_end x) ?s1"
              using span_count_mono [of "\<lambda>x. bs_end ?old < bs_end x" "\<lambda>x. addr < bs_end x"] some(2) by simp
            ultimately show ?thesis using that(1) c1 fn by linarith
          qed
          show ?thesis
          proof (cases "?n = e")
            case True
            then have "r = Inr (s', e)" using r(1) by (subst (asm) boot_update_loop.simps) simp
            then show ?thesis using eq r(1) True stepped(2) lt room by auto
          next
            case False
            show ?thesis
            proof (cases r)
              case (Inl err)
              with r(2) have i: "err = OutOfSpans" "free_nodes s' < 2 * span_count (\<lambda>x. ?n < bs_end x) s' + 1"
                "\<forall>B. \<not> (roomy True B s' \<and> ?n \<in> B \<and> e \<in> B)" by simp_all
              have "free_nodes s < 2 * span_count (\<lambda>x. addr < bs_end x) s + 1" using enough [OF _ False] i(2) by fastforce
              moreover have "\<forall>B. \<not> (roomy True B s \<and> addr \<in> B \<and> e \<in> B)" using i(3) room by blast
              ultimately show ?thesis using i(1) r(1) eq Inl by simp
            next
              case (Inr q)
              then obtain s2 a2 where q: "r = Inr (s2, a2)" by (cases q) auto
              with r(2) have "?n \<le> a2" "updated upd s' ?n a2 s2" and keep: "\<forall>c B. roomy c B s' \<and> ?n \<in> B \<and> e \<in> B \<longrightarrow> roomy c B s2 \<and> a2 \<in> B" by auto
              with updated_trans [OF stepped(2) this(2)] n(1) have "updated upd s addr a2 s2" by simp
              moreover have "\<forall>c B. roomy c B s \<and> addr \<in> B \<and> e \<in> B \<longrightarrow> roomy c B s2 \<and> a2 \<in> B" using keep room by blast
              ultimately show ?thesis using q r eq n(1) enough [OF _ False] by auto
            qed
          qed
        qed
      qed
    qed
  qed
qed

lemma boot_update_room:
  assumes "boot_ok s" "accepts upd s addr (addr + len)" "addr + len \<le> U64_MAX"
  shows "\<exists>r. boot_update s addr len upd = Some r \<and>
    (case r of
       Inl err \<Rightarrow> err = OutOfSpans \<and> free_nodes s < 2 * span_count (\<lambda>x. addr < bs_end x) s + 1 \<and>
         (\<forall>B. \<not> (roomy True B s \<and> addr \<in> B \<and> addr + len \<in> B))
     | Inr s' \<Rightarrow> updated upd s addr (addr + len) s' \<and> (\<forall>c B. roomy c B s \<and> addr \<in> B \<and> addr + len \<in> B \<longrightarrow> roomy c B s'))"
proof -
  let ?e = "addr + len"
  from boot_update_loop_spec [OF assms(1) _ assms(2)] obtain r where
    r: "boot_update_loop upd ?e s addr = Some r"
    "case r of Inl err \<Rightarrow> err = OutOfSpans \<and> free_nodes s < 2 * span_count (\<lambda>x. addr < bs_end x) s + 1 \<and>
         (\<forall>B. \<not> (roomy True B s \<and> addr \<in> B \<and> ?e \<in> B))
     | Inr (s', addr') \<Rightarrow> addr \<le> addr' \<and> addr' \<le> ?e \<and> updated upd s addr addr' s' \<and>
         (\<forall>p. addr' \<le> p \<and> p < ?e \<longrightarrow> type_at s' p = None) \<and>
         (2 * span_count (\<lambda>x. addr < bs_end x) s + 1 \<le> free_nodes s \<and> addr' \<noteq> ?e \<longrightarrow> 0 < free_nodes s') \<and>
         (\<forall>c B. roomy c B s \<and> addr \<in> B \<and> ?e \<in> B \<longrightarrow> roomy c B s' \<and> addr' \<in> B)"
    using le_add1 by blast
  show ?thesis
  proof (cases r)
    case (Inl err)
    with r assms(3) show ?thesis by (simp add: boot_update_def)
  next
    case (Inr q)
    then obtain s' a where q: "r = Inr (s', a)" by (cases q) auto
    with r(2) have l: "addr \<le> a" "a \<le> ?e" "updated upd s addr a s'" "\<forall>p. a \<le> p \<and> p < ?e \<longrightarrow> type_at s' p = None"
      "2 * span_count (\<lambda>x. addr < bs_end x) s + 1 \<le> free_nodes s \<and> a \<noteq> ?e \<longrightarrow> 0 < free_nodes s'"
      "\<forall>c B. roomy c B s \<and> addr \<in> B \<and> ?e \<in> B \<longrightarrow> roomy c B s' \<and> a \<in> B" by auto
    show ?thesis
    proof (cases "a = ?e")
      case True
      with q r(1) l(3,6) assms(3) show ?thesis by (simp add: boot_update_def)
    next
      case False
      then have lt: "a < ?e" using l(2) by simp
      have "accepts upd s' a ?e" using updated_accepts [OF l(3) assms(2) l(1)] .
      then obtain t where t: "upd None = Inr t" using l(4) lt by (auto simp: accepts_def dest: spec [of _ a])
      have ok: "boot_ok s'" using l(3) by (simp add: updated_def)
      have eq: "boot_update s addr len upd = Some (boot_put s' a ?e (upd None))"
        using r(1) q False assms(3) by (simp add: boot_update_def)
      from ok lt l(4) t show ?thesis
      proof (cases rule: boot_put_cases)
        case full
        moreover have "\<forall>B. \<not> (roomy True B s \<and> addr \<in> B \<and> ?e \<in> B)" using full(3) l(6) by blast
        ultimately show ?thesis using eq l(5) False by simp
      next
        case (ins_case s2)
        have "updated upd s' a ?e s2" using ins_case(2) l(4) t by (auto simp: grown_def updated_def)
        moreover have "\<forall>c B. roomy c B s \<and> addr \<in> B \<and> ?e \<in> B \<longrightarrow> roomy c B s2" using ins_case(2) l(6) unfolding grown_def by blast
        ultimately show ?thesis using updated_trans [OF l(3) _ l(1,2)] eq ins_case(1) by simp
      qed
    qed
  qed
qed

lemma boot_update_spec:
  assumes "boot_ok s" "accepts upd s addr (addr + len)" "addr + len \<le> U64_MAX"
  shows "\<exists>r. boot_update s addr len upd = Some r \<and>
    (case r of
       Inl err \<Rightarrow> err = OutOfSpans \<and> free_nodes s < 2 * span_count (\<lambda>x. addr < bs_end x) s + 1
     | Inr s' \<Rightarrow> updated upd s addr (addr + len) s')"
  using boot_update_room [OF assms] by (auto split: sum.splits)

section \<open>The search for free memory\<close>

lemma max_free_exact:
  assumes "clean max_free t" "t \<noteq> Leaf"
  shows "\<exists>m. tree_aug t = Some m \<and> (\<forall>x\<in>set (inorder t). bs_type x = Free \<longrightarrow> bs_end x - bs_start x \<le> m)"
  using assms
proof (induction t)
  case (Node c l x a r)
  have "l \<noteq> Leaf \<Longrightarrow> \<exists>m. tree_aug l = Some m \<and> (\<forall>x\<in>set (inorder l). bs_type x = Free \<longrightarrow> bs_end x - bs_start x \<le> m)"
    "r \<noteq> Leaf \<Longrightarrow> \<exists>m. tree_aug r = Some m \<and> (\<forall>x\<in>set (inorder r). bs_type x = Free \<longrightarrow> bs_end x - bs_start x \<le> m)"
    using Node by auto
  with Node.prems(1) show ?case
    by (cases "l = Leaf"; cases "r = Leaf") (fastforce simp: max_free_def Let_def le_max_iff_disj)+
qed simp

lemma next_multiple_spec:
  assumes "0 < m"
  shows "n \<le> next_multiple n m" "m dvd next_multiple n m" "n \<le> k \<Longrightarrow> m dvd k \<Longrightarrow> next_multiple n m \<le> k"
proof -
  have up: "next_multiple n m = (n div m + 1) * m" if "n mod m \<noteq> 0"
    using that div_mult_mod_eq [of n m] mod_less_divisor [OF assms, of n]
    by (simp only: next_multiple_def add_mult_distrib mult_1 if_False)
  show "n \<le> next_multiple n m" by (simp add: next_multiple_def)
  show "m dvd next_multiple n m" using up by (cases "n mod m = 0") (auto simp: next_multiple_def)
  show "next_multiple n m \<le> k" if le: "n \<le> k" and dv: "m dvd k"
  proof (cases "n mod m = 0")
    case False
    obtain q where q: "k = q * m" using dv by (metis dvd_def mult.commute)
    with False le have "n < q * m" by (metis le_neq_implies_less mod_mult_self2_is_0)
    then have "n div m + 1 \<le> q" using less_mult_imp_div_less by fastforce
    then have "(n div m + 1) * m \<le> q * m" by (rule mult_le_mono1)
    with up [OF False] q show ?thesis by simp
  qed (use le in \<open>simp add: next_multiple_def\<close>)
qed

text \<open>A block in a free span; a free span without a multiple of the alignment behind its start.\<close>

definition fits :: "nat \<Rightarrow> nat \<Rightarrow> bspan \<Rightarrow> nat \<Rightarrow> bool" where
  "fits sz al x a \<longleftrightarrow> bs_type x = Free \<and> al dvd a \<and> bs_start x \<le> a \<and> a + sz \<le> bs_end x"

definition overflows :: "nat \<Rightarrow> bspan \<Rightarrow> bool" where
  "overflows al x \<longleftrightarrow> bs_type x = Free \<and> U64_MAX < next_multiple (bs_start x) al"

definition search_result :: "nat \<Rightarrow> nat \<Rightarrow> bspan set \<Rightarrow> nat option option \<Rightarrow> bool" where
  "search_result sz al X r \<longleftrightarrow>
     (case r of None \<Rightarrow> \<exists>x\<in>X. overflows al x | Some None \<Rightarrow> \<forall>x\<in>X. \<forall>a. \<not> fits sz al x a | Some (Some a) \<Rightarrow> \<exists>x\<in>X. fits sz al x a)"

lemma span_fit_spec:
  assumes "0 < al" "0 < sz"
  shows "search_result sz al {x} (span_fit sz al x)"
proof -
  note m = next_multiple_spec [OF assms(1), of "bs_start x"]
  have "\<not> a + sz \<le> bs_end x" if "al dvd a" "bs_start x \<le> a" "bs_end x - next_multiple (bs_start x) al < sz" for a
    using m(3) [OF that(2,1)] that(3) by linarith
  then show ?thesis using m(1,2) assms(2)
    by (auto simp: search_result_def span_fit_def u64_multiple_def overflows_def fits_def Let_def)
qed

lemma search_none: "search_result sz al X (Some None) \<Longrightarrow> search_result sz al Y r \<Longrightarrow> search_result sz al (X \<union> Y) r"
  by (auto simp: search_result_def split: option.splits)

lemma search_found: "search_result sz al X r \<Longrightarrow> r \<noteq> Some None \<Longrightarrow> search_result sz al (X \<union> Y) r"
  by (auto simp: search_result_def split: option.splits)

text \<open>The search returns an aligned block in a free span, unless no free span has one.\<close>

lemma alloc_worker_spec:
  assumes "clean max_free t" "t \<noteq> Leaf" "0 < al" "0 < sz"
  shows "search_result sz al (set (inorder t)) (alloc_worker sz al t)"
  using assms(1,2)
proof (induction t)
  case (Node c l x au r)
  have cl: "clean max_free l" "clean max_free r" using Node.prems(1) by auto
  have cf: "child_free t = Some (tree_aug t)" if "clean max_free t" for t using that by (cases t) (auto simp: child_free_def)
  define go where "go = (\<lambda>t. case tree_aug t of Some m \<Rightarrow> if m \<ge> sz then alloc_worker sz al t else Some None | None \<Rightarrow> Some None)"
  have branch: "search_result sz al (set (inorder t)) (go t)"
    if c: "clean max_free t" and IH: "t \<noteq> Leaf \<Longrightarrow> search_result sz al (set (inorder t)) (alloc_worker sz al t)" for t
  proof (cases "t = Leaf")
    case False
    obtain m where m: "tree_aug t = Some m" "\<forall>y\<in>set (inorder t). bs_type y = Free \<longrightarrow> bs_end y - bs_start y \<le> m"
      using max_free_exact [OF c False] by auto
    have "\<not> fits sz al y a" if "m < sz" "y \<in> set (inorder t)" for y a
      using m(2) that by (fastforce simp: fits_def)
    then show ?thesis using m(1) IH [OF False] by (auto simp: go_def search_result_def)
  qed (simp add: go_def search_result_def)
  have L: "search_result sz al (set (inorder l)) (go l)" and R: "search_result sz al (set (inorder r)) (go r)"
    using branch Node.IH cl by blast+
  note X = span_fit_spec [OF assms(3,4), of x]
  have eq: "alloc_worker sz al (Node c l x au r) =
      (if go l \<noteq> Some None then go l else if span_fit sz al x \<noteq> Some None then span_fit sz al x else go r)"
  proof -
    have "alloc_worker sz al (Node c l x au r) = do { from_left \<leftarrow> go l;
        (case from_left of Some result \<Rightarrow> Some (Some result)
         | None \<Rightarrow> do { here \<leftarrow> span_fit sz al x; (case here of Some start \<Rightarrow> Some (Some start) | None \<Rightarrow> go r) }) }"
      unfolding go_def by (simp add: cf [OF cl(1)] cf [OF cl(2)])
    then show ?thesis by (cases "go l"; cases "the (go l)"; cases "span_fit sz al x"; cases "the (span_fit sz al x)") auto
  qed
  have all: "set (inorder (Node c l x au r)) = set (inorder l) \<union> ({x} \<union> set (inorder r))" by auto
  show ?case unfolding eq all
  proof (cases "go l = Some None")
    case l: True
    then have L': "search_result sz al (set (inorder l)) (Some None)" using L by simp
    have "search_result sz al ({x} \<union> set (inorder r)) (if span_fit sz al x \<noteq> Some None then span_fit sz al x else go r)"
      using search_found [OF X, of "set (inorder r)"] search_none [OF _ R, of "{x}"] X by (cases "span_fit sz al x = Some None") simp_all
    from search_none [OF L' this] l show "search_result sz al (set (inorder l) \<union> ({x} \<union> set (inorder r)))
      (if go l \<noteq> Some None then go l else if span_fit sz al x \<noteq> Some None then span_fit sz al x else go r)" by simp
  next
    case False
    with search_found [OF L False, of "{x} \<union> set (inorder r)"] show "search_result sz al (set (inorder l) \<union> ({x} \<union> set (inorder r)))
      (if go l \<noteq> Some None then go l else if span_fit sz al x \<noteq> Some None then span_fit sz al x else go r)" by simp
  qed
qed simp

section \<open>Properties\<close>

text \<open>
  C20.  Updating a range of physical memory returns; if the update function accepts every type in the range, it
  changes the type of exactly the addresses of the range and keeps the spans disjoint and in order.  It fails
  only for lack of span slots, and two slots for each span behind the start and one more are enough.
\<close>

theorem boot_update_correct:
  assumes "boot_ok s" "accepts upd s addr (addr + len)" "addr + len \<le> U64_MAX"
  shows "\<exists>r. boot_update s addr len upd = Some r \<and>
    (case r of
       Inl err \<Rightarrow> err = OutOfSpans \<and> free_nodes s < 2 * span_count (\<lambda>x. addr < bs_end x) s + 1
     | Inr s' \<Rightarrow> boot_ok s' \<and>
         (\<forall>p. type_at s' p = (if addr \<le> p \<and> p < addr + len then total_upd upd (type_at s p) else type_at s p)))"
  using boot_update_spec [OF assms] unfolding updated_def .

lemma boot_new_ok [simp]: "boot_ok (boot_new n)" "type_at (boot_new n) p = None" "span_count P (boot_new n) = 0"
  by (simp_all add: boot_ok_def boot_new_def type_at_def span_count_def)

lemma boot_update_correct_witness:
  "\<exists>s'. boot_update (boot_new 4) 4096 8192 (\<lambda>_. Inr Free) = Some (Inr s') \<and> type_at s' 5000 = Some Free \<and> type_at s' 4095 = None"
proof -
  have "\<exists>r. boot_update (boot_new 4) 4096 8192 (\<lambda>_. Inr Free) = Some r \<and>
    (case r of
       Inl err \<Rightarrow> err = OutOfSpans \<and> free_nodes (boot_new 4) < 2 * span_count (\<lambda>x. 4096 < bs_end x) (boot_new 4) + 1
     | Inr s' \<Rightarrow> boot_ok s' \<and>
         (\<forall>p. type_at s' p = (if 4096 \<le> p \<and> p < 4096 + 8192 then total_upd (\<lambda>_. Inr Free) (type_at (boot_new 4) p)
            else type_at (boot_new 4) p)))"
    by (rule boot_update_correct) (simp_all add: accepts_def U64_MAX_def)
  then obtain r where r: "boot_update (boot_new 4) 4096 8192 (\<lambda>_. Inr Free) = Some r"
    "case r of Inl err \<Rightarrow> free_nodes (boot_new 4) < 1
     | Inr s' \<Rightarrow> (\<forall>p. type_at s' p = (if 4096 \<le> p \<and> p < 12288 then Some Free else None))"
    by (fastforce split: sum.splits)
  then show ?thesis by (cases r) (simp_all add: boot_new_def)
qed

text \<open>
  Compaction changes the type of no address, keeps the spans well formed, merges touching spans of one
  type completely, and gives the slots of the merged spans back.
\<close>

theorem compact_correct:
  assumes "boot_ok s"
  shows "boot_ok (compact s) \<and> (\<forall>p. type_at (compact s) p = type_at s p) \<and>
    successively (\<lambda>x y. \<not> (bs_type x = bs_type y \<and> bs_end x = bs_start y)) (inorder (boot_tree (compact s))) \<and>
    free_nodes (compact s) + length (inorder (boot_tree (compact s))) = free_nodes s + length (inorder (boot_tree s))"
proof -
  have "snd (merge_spans x y) \<longleftrightarrow> bs_type x = bs_type y \<and> bs_end x = bs_start y" for x y by (simp add: merge_spans_def)
  with compact_spec [OF assms] bmg.merge_pairs_complete [of "inorder (boot_tree s)"] show ?thesis by simp
qed

definition two_spans :: boot_alloc where
  "two_spans = \<lparr>boot_tree = Node Black Leaf (bspan_new 0 4096 Free) (Some 8192)
     (Node Red Leaf (bspan_new 4096 12288 Free) (Some 8192) Leaf), free_nodes = 3\<rparr>"

lemma two_spans_ok: "boot_ok two_spans" "\<And>p. p < 12288 \<Longrightarrow> type_at two_spans p = Some Free"
  by (auto simp: two_spans_def boot_ok_def rb_wf_def disjoint_def max_free_def Let_def bspan_new_def type_at_def seg_at_Cons)

lemma compact_correct_witness: "type_at (compact two_spans) 5000 = Some Free"
  using compact_correct [OF two_spans_ok(1)] two_spans_ok(2) [of 5000] by simp

lemma boot_alloc_spec:
  assumes "boot_ok s" "0 < size0" "size0 \<le> 2 ^ 63 - max align0 4096" "\<forall>x\<in>set (inorder (boot_tree s)). bs_end x \<le> U64_MAX"
    and "al = max align0 4096" "sz = (size0 + al - 1) div al * al"
  shows "case boot_alloc_op s size0 align0 of
      None \<Rightarrow> \<exists>x\<in>set (inorder (boot_tree s)). overflows al x
    | Some None \<Rightarrow> \<forall>x\<in>set (inorder (boot_tree s)). \<forall>a. \<not> fits sz al x a
    | Some (Some (Inl err)) \<Rightarrow> err = OutOfSpans
    | Some (Some (Inr (a, s'))) \<Rightarrow> al dvd a \<and> size0 \<le> sz \<and> boot_ok s' \<and> (\<forall>p. a \<le> p \<and> p < a + sz \<longrightarrow> type_at s p = Some Free) \<and>
         (\<forall>p. type_at s' p = (if a \<le> p \<and> p < a + sz then Some InUse else type_at s p)) \<and>
         (\<forall>c B. roomy c B s \<and> a \<in> B \<and> a + sz \<in> B \<longrightarrow> roomy c B s')"
proof -
  have al: "0 < al" using assms(5) by simp
  have "size0 \<le> sz" using assms(2,6) al next_multiple_spec(1) [OF al, of size0] div_mult_mod_eq [of "size0 + al - 1" al]
    mod_less_divisor [OF al, of "size0 + al - 1"] by linarith
  with assms(2) have sz: "0 < sz" by simp
  show ?thesis
  proof (cases "boot_tree s = Leaf")
    case True
    with assms(3,5) show ?thesis by (simp add: boot_alloc_op_def Let_def)
  next
    case False
    let ?upd = "\<lambda>t. if t = Some Free then Inr InUse else Inl AssertFailed"
    have "clean max_free (boot_tree s)" using assms(1) by (simp add: boot_ok_def rb_wf_def)
    note w = alloc_worker_spec [OF this False al sz]
    have eq: "boot_alloc_op s size0 align0 = do { found \<leftarrow> alloc_worker sz al (boot_tree s);
        (case found of None \<Rightarrow> Some None
         | Some start \<Rightarrow> do { r \<leftarrow> boot_update s start sz ?upd; Some (Some (map_sum id (\<lambda>s. (start, s)) r)) }) }"
      using False assms(3) unfolding assms(5,6) by (simp add: boot_alloc_op_def Let_def del: One_nat_def)
    consider (panic) "alloc_worker sz al (boot_tree s) = None" | (none) "alloc_worker sz al (boot_tree s) = Some None"
      | (found) a where "alloc_worker sz al (boot_tree s) = Some (Some a)" by (metis option.exhaust)
    then show ?thesis
    proof cases
      case (found a)
      with w obtain x where x: "x \<in> set (inorder (boot_tree s))" "bs_type x = Free" "al dvd a" "bs_start x \<le> a"
        "a + sz \<le> bs_end x" by (auto simp: search_result_def fits_def)
      have free: "type_at s p = Some Free" if "a \<le> p" "p < a + sz" for p
        using seg_at_Some [of bs_start bs_end "inorder (boot_tree s)" p x] assms(1) x that
        by (auto simp: boot_ok_def type_at_def)
      have acc: "accepts ?upd s a (a + sz)" using free by (simp add: accepts_def)
      have "a + sz \<le> U64_MAX" using x(1,5) assms(4) by fastforce
      from boot_update_room [OF assms(1) acc this] obtain r where
        r: "boot_update s a sz ?upd = Some r" "case r of Inl err \<Rightarrow> err = OutOfSpans \<and> free_nodes s < 2 * span_count (\<lambda>x. a < bs_end x) s + 1 \<and>
            (\<forall>B. \<not> (roomy True B s \<and> a \<in> B \<and> a + sz \<in> B))
          | Inr s' \<Rightarrow> updated ?upd s a (a + sz) s' \<and> (\<forall>c B. roomy c B s \<and> a \<in> B \<and> a + sz \<in> B \<longrightarrow> roomy c B s')" by blast
      show ?thesis
      proof (cases r)
        case (Inl err)
        with r eq found show ?thesis by simp
      next
        case (Inr s')
        with r(2) free have "boot_ok s'" "\<forall>p. type_at s' p = (if a \<le> p \<and> p < a + sz then Some InUse else type_at s p)"
          "\<forall>c B. roomy c B s \<and> a \<in> B \<and> a + sz \<in> B \<longrightarrow> roomy c B s'"
          by (auto simp: updated_def)
        with Inr r(1) eq found x(3) free \<open>size0 \<le> sz\<close> show ?thesis by simp
      qed
    qed (use w eq in \<open>simp_all add: search_result_def\<close>)
  qed
qed



end
