(* ===== verification/X86.thy ===== *)
theory X86
  imports Prelude "HOL-Library.Word"
begin

text \<open>
  The part of the processor that the assembly stubs of the kernel use: the sixteen general registers, memory in
  64-bit cells, the control registers that an interrupt and a system call save, and the two bases exchanged by
  \<^verbatim>\<open>swapgs\<close>.  A stub is a list of instructions; its jumps go forward.  A called function is a parameter, applied to the
  whole state.  Memory is accessed in aligned cells only, so a cell is named by its address.
\<close>

section \<open>State\<close>

datatype reg = RAX | RBX | RCX | RDX | RSI | RDI | RBP | RSP | R8 | R9 | R10 | R11 | R12 | R13 | R14 | R15

record cpu =
  regs :: "reg \<Rightarrow> 64 word"
  mem :: "64 word \<Rightarrow> 64 word"
  ip :: "64 word"
  cs :: "64 word"
  ss :: "64 word"
  flags :: "64 word"
  gs_base :: "64 word"
  kernel_gs_base :: "64 word"

datatype instr =
    Push reg
  | PushImm "64 word"
  | PushMem reg "64 word"
  | PushGs "64 word"
  | Pop reg
  | PopMem reg "64 word"
  | Mov reg reg
  | Load reg reg "64 word"
  | Store reg "64 word" reg
  | LoadGs reg "64 word"
  | StoreGs "64 word" reg
  | AddImm reg "64 word"
  | SkipIfKernel reg "64 word" nat
  | Swapgs
  | Cli
  | Call
  | Ret
  | Iretq
  | Sysretq

section \<open>Instructions\<close>

unbundle bit_operations_syntax

definition IF_FLAG :: "64 word" where "IF_FLAG = 512"

definition USER_CODE_SELECTOR :: "64 word" where "USER_CODE_SELECTOR = 35"
definition USER_DATA_SELECTOR :: "64 word" where "USER_DATA_SELECTOR = 27"

definition set_reg :: "reg \<Rightarrow> 64 word \<Rightarrow> cpu \<Rightarrow> cpu" where
  "set_reg r v c = c\<lparr>regs := (regs c)(r := v)\<rparr>"

definition set_mem :: "64 word \<Rightarrow> 64 word \<Rightarrow> cpu \<Rightarrow> cpu" where
  "set_mem a v c = c\<lparr>mem := (mem c)(a := v)\<rparr>"

definition push :: "64 word \<Rightarrow> cpu \<Rightarrow> cpu" where
  "push v c = (let sp = regs c RSP - 8 in set_mem sp v (set_reg RSP sp c))"

definition pop :: "cpu \<Rightarrow> 64 word \<times> cpu" where
  "pop c = (mem c (regs c RSP), set_reg RSP (regs c RSP + 8) c)"

definition swapgs :: "cpu \<Rightarrow> cpu" where
  "swapgs c = c\<lparr>gs_base := kernel_gs_base c, kernel_gs_base := gs_base c\<rparr>"

text \<open>
  \<^verbatim>\<open>SkipIfKernel\<close> is the pair of \<^verbatim>\<open>test dword ptr [r + d], 3\<close> and \<^verbatim>\<open>jz\<close> over a number of instructions.  The return from
  an interrupt takes all five cells of the frame; the return from a system call takes its address and flags from
  registers and goes to user mode.
\<close>

fun exec :: "(cpu \<Rightarrow> cpu) \<Rightarrow> instr \<Rightarrow> cpu \<Rightarrow> cpu" where
  "exec h (Push r) c = push (regs c r) c"
| "exec h (PushImm v) c = push v c"
| "exec h (PushMem r d) c = push (mem c (regs c r + d)) c"
| "exec h (PushGs d) c = push (mem c (gs_base c + d)) c"
| "exec h (Pop r) c = (let (v, c) = pop c in set_reg r v c)"
| "exec h (PopMem r d) c = (let (v, c) = pop c in set_mem (regs c r + d) v c)"
| "exec h (Mov r s) c = set_reg r (regs c s) c"
| "exec h (Load r s d) c = set_reg r (mem c (regs c s + d)) c"
| "exec h (Store r d s) c = set_mem (regs c r + d) (regs c s) c"
| "exec h (LoadGs r d) c = set_reg r (mem c (gs_base c + d)) c"
| "exec h (StoreGs d r) c = set_mem (gs_base c + d) (regs c r) c"
| "exec h (AddImm r v) c = set_reg r (regs c r + v) c"
| "exec h (SkipIfKernel r d n) c = c"
| "exec h Swapgs c = swapgs c"
| "exec h Cli c = c\<lparr>flags := flags c AND NOT IF_FLAG\<rparr>"
| "exec h Call c = h c"
| "exec h Ret c = (let (v, c) = pop c in c\<lparr>ip := v\<rparr>)"
| "exec h Iretq c =
     (let sp = regs c RSP in
      c\<lparr>ip := mem c sp, cs := mem c (sp + 8), flags := mem c (sp + 16), ss := mem c (sp + 32),
        regs := (regs c)(RSP := mem c (sp + 24))\<rparr>)"
| "exec h Sysretq c =
     c\<lparr>ip := regs c RCX, flags := regs c R11, cs := USER_CODE_SELECTOR, ss := USER_DATA_SELECTOR\<rparr>"

fun run :: "(cpu \<Rightarrow> cpu) \<Rightarrow> instr list \<Rightarrow> cpu \<Rightarrow> cpu" where
  "run h [] c = c"
| "run h (i # is) c =
     (case i of
        SkipIfKernel r d n \<Rightarrow> if mem c (regs c r + d) AND 3 = 0 then run h (drop n is) c else run h is c
      | _ \<Rightarrow> run h is (exec h i c))"

text \<open>
  What the processor does on an interrupt: it saves the state on the stack chosen for it, with the error code of the
  exceptions that have one, and turns interrupts off.  \<open>stack\<close> is that stack, aligned; \<open>kernel_cs\<close> the segment of the
  handler.
\<close>

definition cpu_interrupt :: "64 word \<Rightarrow> 64 word \<Rightarrow> 64 word option \<Rightarrow> cpu \<Rightarrow> cpu" where
  "cpu_interrupt stack kernel_cs err c =
     (let c' = c\<lparr>flags := flags c AND NOT IF_FLAG, cs := kernel_cs, regs := (regs c)(RSP := stack)\<rparr>;
          c' = push (ip c) (push (cs c) (push (flags c) (push (regs c RSP) (push (ss c) c'))))
      in case err of Some e \<Rightarrow> push e c' | None \<Rightarrow> c')"

text \<open>A system call saves the return address and the flags in registers and clears the flags of the mask.\<close>

definition cpu_syscall :: "64 word \<Rightarrow> 64 word \<Rightarrow> cpu \<Rightarrow> cpu" where
  "cpu_syscall sfmask kernel_cs c =
     c\<lparr>regs := (regs c)(RCX := ip c, R11 := flags c), flags := flags c AND NOT sfmask, cs := kernel_cs\<rparr>"

section \<open>The stack as a list\<close>

text \<open>The cells from an address upwards.\<close>

definition cells :: "cpu \<Rightarrow> 64 word \<Rightarrow> nat \<Rightarrow> 64 word list" where
  "cells c a n = map (\<lambda>k. mem c (a + 8 * of_nat k)) [0..<n]"

lemma cells_0 [simp]: "cells c a 0 = []"
  by (simp add: cells_def)

lemma cells_length [simp]: "length (cells c a n) = n"
  by (simp add: cells_def)

lemma cells_Suc: "cells c a (Suc n) = mem c a # cells c (a + 8) n"
  by (simp add: cells_def upt_rec [of 0] algebra_simps flip: map_Suc_upt del: upt_Suc)

lemma cells_mem: "mem c = mem c' \<Longrightarrow> cells c a n = cells c' a n"
  by (simp add: cells_def)

lemma below_stack: "k < 2 ^ 60 \<Longrightarrow> (a :: 64 word) - 8 \<noteq> a + 8 * of_nat k"
proof
  assume k: "k < 2 ^ 60" and "a - 8 = a + 8 * of_nat k"
  then have "of_nat (8 * Suc k) = (0 :: 64 word)" by (simp add: algebra_simps)
  then have "2 ^ 64 dvd 8 * Suc k" by (simp only: word_of_nat_eq_0_iff) simp
  then have "2 ^ 64 \<le> 8 * Suc k" by (rule dvd_imp_le) simp
  with k show False by simp
qed

definition push_all :: "64 word list \<Rightarrow> cpu \<Rightarrow> cpu" where
  "push_all vs c = fold push vs c"

lemma push_simps [simp]:
  "regs (push v c) = (regs c)(RSP := regs c RSP - 8)" "ip (push v c) = ip c" "cs (push v c) = cs c" "ss (push v c) = ss c"
  "flags (push v c) = flags c" "gs_base (push v c) = gs_base c" "kernel_gs_base (push v c) = kernel_gs_base c"
  by (simp_all add: push_def Let_def set_mem_def set_reg_def)

lemma push_cells:
  assumes "n < 2 ^ 60"
  shows "cells (push v c) (regs (push v c) RSP) (Suc n) = v # cells c (regs c RSP) n"
proof -
  have "mem (push v c) (regs c RSP + 8 * of_nat k) = mem c (regs c RSP + 8 * of_nat k)" if "k < n" for k
    using below_stack [of k "regs c RSP"] assms that by (simp add: push_def Let_def set_mem_def set_reg_def)
  then show ?thesis by (simp add: cells_Suc) (simp add: cells_def push_def Let_def set_mem_def set_reg_def)
qed

lemma push_all_simps [simp]:
  "push_all [] c = c" "push_all (v # vs) c = push_all vs (push v c)"
  by (simp_all add: push_all_def)

lemma push_all_append: "push_all (vs @ ws) c = push_all ws (push_all vs c)"
  by (simp add: push_all_def)

lemma push_all_frame [simp]:
  "regs (push_all vs c) = (regs c)(RSP := regs c RSP - 8 * of_nat (length vs))" "ip (push_all vs c) = ip c"
  "cs (push_all vs c) = cs c" "ss (push_all vs c) = ss c" "flags (push_all vs c) = flags c"
  "gs_base (push_all vs c) = gs_base c" "kernel_gs_base (push_all vs c) = kernel_gs_base c"
  by (induction vs arbitrary: c) (simp_all add: algebra_simps)

lemma push_all_cells:
  assumes "length vs + n < 2 ^ 60"
  shows "cells (push_all vs c) (regs (push_all vs c) RSP) (length vs + n) = rev vs @ cells c (regs c RSP) n"
  using assms
proof (induction vs arbitrary: c n)
  case (Cons v vs)
  have "cells (push_all vs (push v c)) (regs (push_all vs (push v c)) RSP) (length vs + Suc n) =
      rev vs @ cells (push v c) (regs (push v c) RSP) (Suc n)"
    using Cons.prems by (intro Cons.IH) simp
  also have "cells (push v c) (regs (push v c) RSP) (Suc n) = v # cells c (regs c RSP) n"
    using Cons.prems by (intro push_cells) simp
  finally show ?case by simp
qed simp

section \<open>Sequences of pushes and pops\<close>

lemma run_pushes: "RSP \<notin> set rs \<Longrightarrow> run h (map Push rs @ is) c = run h is (push_all (map (regs c) rs) c)"
proof (induction rs arbitrary: c)
  case (Cons r rs)
  then have "map (regs (push (regs c r) c)) rs = map (regs c) rs" by auto
  with Cons show ?case by simp
qed simp

fun load_regs :: "reg list \<Rightarrow> 64 word list \<Rightarrow> (reg \<Rightarrow> 64 word) \<Rightarrow> reg \<Rightarrow> 64 word" where
  "load_regs (r # rs) (v # vs) f = load_regs rs vs (f(r := v))"
| "load_regs _ _ f = f"

lemma load_regs_rsp: "RSP \<notin> set rs \<Longrightarrow> load_regs rs vs (f(RSP := x)) = (load_regs rs vs f)(RSP := x)"
proof (induction rs vs f rule: load_regs.induct)
  case (1 r rs v vs f)
  then have "f(RSP := x, r := v) = f(r := v, RSP := x)" by auto
  with 1 show ?case by (simp only: load_regs.simps list.set insert_iff simp_thms) blast
qed simp_all

lemma regs_regs: "(c :: cpu)\<lparr>regs := f, regs := g\<rparr> = c\<lparr>regs := g\<rparr>"
  by (cases c) simp

lemma run_pops:
  assumes "RSP \<notin> set rs" "length vs = length rs" "cells c (regs c RSP) (length rs + n) = vs @ ws"
  shows "run h (map Pop rs @ is) c =
    run h is (c\<lparr>regs := (load_regs rs vs (regs c))(RSP := regs c RSP + 8 * of_nat (length rs))\<rparr>)"
  using assms
proof (induction rs arbitrary: c vs)
  case (Cons r rs)
  obtain v vs' where vs: "vs = v # vs'" using Cons.prems(2) by (cases vs) auto
  let ?c = "c\<lparr>regs := (regs c)(RSP := regs c RSP + 8, r := v)\<rparr>"
  have v: "mem c (regs c RSP) = v" and rest: "cells c (regs c RSP + 8) (length rs + n) = vs' @ ws"
    using Cons.prems(3) by (simp_all add: vs cells_Suc)
  have r: "r \<noteq> RSP" "RSP \<notin> set rs" using Cons.prems(1) by auto
  have cs: "cells ?c (regs ?c RSP) (length rs + n) = vs' @ ws" using rest r by (simp add: cells_def)
  have l: "length vs' = length rs" using Cons.prems(2) vs by simp
  have e: "exec h (Pop r) c = ?c" using v r by (simp add: pop_def set_reg_def)
  have "load_regs rs vs' ((regs c)(RSP := x, r := v)) = (load_regs (r # rs) vs (regs c))(RSP := x)" for x
    using load_regs_rsp [of rs vs' "(regs c)(r := v)" x] fun_upd_twist [OF r(1), of "regs c" v x] r(2) vs by (metis load_regs.simps(1))
  then have regs: "(load_regs rs vs' (regs ?c))(RSP := y) = (load_regs (r # rs) vs (regs c))(RSP := y)" for y
    by (simp del: fun_upd_apply load_regs.simps)
  have rsp: "regs ?c RSP + 8 * of_nat (length rs) = regs c RSP + 8 * of_nat (length (r # rs))" using r by simp
  have "run h (map Pop (r # rs) @ is) c = run h (map Pop rs @ is) ?c" by (simp only: list.map append_Cons run.simps instr.case e)
  also have "\<dots> = run h is (?c\<lparr>regs := (load_regs rs vs' (regs ?c))(RSP := regs ?c RSP + 8 * of_nat (length rs))\<rparr>)"
    by (rule Cons.IH [OF r(2) l cs])
  finally show ?case by (simp only: regs rsp regs_regs)
qed simp

end
