(* ===== verification/Int_Tables.thy ===== *)
theory Int_Tables
  imports X86
begin

text \<open>
  The interrupt tables (\<^verbatim>\<open>interrupts/tables.rs\<close>): the entry stubs made by the macro \<^verbatim>\<open>int_entry!\<close>, the descriptor table filled
  with them, and the enumeration of the interrupts with its conversions.  The stubs and gates of the 224 vectors from 32
  on follow one pattern and are one definition each.  A gate is addressed by its vector, which is the position the
  architecture gives to the fields of the descriptor table.
\<close>

section \<open>Entry stubs\<close>

datatype entry_sym =
    DivideErrorEntry | DebugEntry | NonMaskableInterruptEntry | BreakpointEntry | OverflowEntry |
    BoundRangeExceededEntry | InvalidOpcodeEntry | DeviceNotAvailableEntry | DoubleFaultEntry | InvalidTssEntry |
    SegmentNotPresentEntry | StackSegmentFaultEntry | GeneralProtectionFaultEntry | PageFaultEntry |
    X87FloatingPointEntry | AlignmentCheckEntry | MachineCheckEntry | SimdFloatingPointEntry | VirtualizationEntry |
    CpProtectionExceptionEntry | HvInjectionExceptionEntry | VmmCommunicationExceptionEntry |
    SecurityExceptionEntry | IrqEntry nat

text \<open>The number the stub pushes, and whether the processor has pushed an error code.\<close>

definition irq_entry :: "nat \<Rightarrow> nat \<times> bool" where
  "irq_entry n = (32 + n, False)"

fun int_entry :: "entry_sym \<Rightarrow> nat \<times> bool" where
  "int_entry DivideErrorEntry = (0, False)"
| "int_entry DebugEntry = (1, False)"
| "int_entry NonMaskableInterruptEntry = (2, False)"
| "int_entry BreakpointEntry = (3, False)"
| "int_entry OverflowEntry = (4, False)"
| "int_entry BoundRangeExceededEntry = (5, False)"
| "int_entry InvalidOpcodeEntry = (6, False)"
| "int_entry DeviceNotAvailableEntry = (7, False)"
| "int_entry DoubleFaultEntry = (8, True)"
| "int_entry InvalidTssEntry = (10, True)"
| "int_entry SegmentNotPresentEntry = (11, True)"
| "int_entry StackSegmentFaultEntry = (12, True)"
| "int_entry GeneralProtectionFaultEntry = (13, True)"
| "int_entry PageFaultEntry = (14, True)"
| "int_entry X87FloatingPointEntry = (16, False)"
| "int_entry AlignmentCheckEntry = (17, True)"
| "int_entry MachineCheckEntry = (18, False)"
| "int_entry SimdFloatingPointEntry = (19, False)"
| "int_entry VirtualizationEntry = (20, False)"
| "int_entry CpProtectionExceptionEntry = (21, True)"
| "int_entry HvInjectionExceptionEntry = (28, False)"
| "int_entry VmmCommunicationExceptionEntry = (29, True)"
| "int_entry SecurityExceptionEntry = (30, True)"
| "int_entry (IrqEntry n) = irq_entry n"

text \<open>The body of the macro, up to the jump to the common entry.\<close>

definition entry_stub :: "entry_sym \<Rightarrow> instr list" where
  "entry_stub e =
     (let (num, has_code) = int_entry e
      in if has_code then [PushImm (of_nat num)] else [PushImm 0, PushImm (of_nat num)])"

section \<open>Descriptor table\<close>

record gate =
  gate_entry :: entry_sym
  gate_ist :: "nat option"

definition DOUBLE_FAULT_IST_INDEX :: nat where "DOUBLE_FAULT_IST_INDEX = 0"

definition exception_gates :: "(nat \<times> entry_sym) list" where
  "exception_gates = [
     (0, DivideErrorEntry), (1, DebugEntry), (2, NonMaskableInterruptEntry), (3, BreakpointEntry),
     (4, OverflowEntry), (5, BoundRangeExceededEntry), (6, InvalidOpcodeEntry), (7, DeviceNotAvailableEntry),
     (8, DoubleFaultEntry), (10, InvalidTssEntry), (11, SegmentNotPresentEntry), (12, StackSegmentFaultEntry),
     (13, GeneralProtectionFaultEntry), (14, PageFaultEntry), (16, X87FloatingPointEntry), (17, AlignmentCheckEntry),
     (18, MachineCheckEntry), (19, SimdFloatingPointEntry), (20, VirtualizationEntry),
     (21, CpProtectionExceptionEntry), (28, HvInjectionExceptionEntry), (29, VmmCommunicationExceptionEntry),
     (30, SecurityExceptionEntry)]"

definition irq_gates :: "(nat \<times> entry_sym) list" where
  "irq_gates = map (\<lambda>n. (32 + n, IrqEntry n)) [0..<224]"

definition set_handler_addr :: "nat \<times> entry_sym \<Rightarrow> (nat \<rightharpoonup> gate) \<Rightarrow> nat \<rightharpoonup> gate" where
  "set_handler_addr g idt =
     idt(fst g \<mapsto> \<lparr>gate_entry = snd g, gate_ist = (if snd g = DoubleFaultEntry then Some DOUBLE_FAULT_IST_INDEX else None)\<rparr>)"

definition fill_idt :: "(nat \<rightharpoonup> gate) \<Rightarrow> nat \<rightharpoonup> gate" where
  "fill_idt idt = fold set_handler_addr (exception_gates @ irq_gates) idt"

section \<open>Interrupts\<close>

datatype interrupt =
    DivideError | Debug | NonMaskableInterrupt | Breakpoint | Overflow | BoundRangeExceeded | InvalidOpcode |
    DeviceNotAvailable | DoubleFault | CoprocessorSegmentOverrun | InvalidTss | SegmentNotPresent |
    StackSegmentFault | GeneralProtectionFault | PageFault | X87FloatingPoint | AlignmentCheck | MachineCheck |
    SimdFloatingPoint | Virtualization | CpProtectionException | HvInjectionException | VmmCommunicationException |
    SecurityException | Irq nat

text \<open>The vector is a byte: the addition panics above it.\<close>

fun as_u8 :: "interrupt \<Rightarrow> nat option" where
  "as_u8 DivideError = Some 0"
| "as_u8 Debug = Some 1"
| "as_u8 NonMaskableInterrupt = Some 2"
| "as_u8 Breakpoint = Some 3"
| "as_u8 Overflow = Some 4"
| "as_u8 BoundRangeExceeded = Some 5"
| "as_u8 InvalidOpcode = Some 6"
| "as_u8 DeviceNotAvailable = Some 7"
| "as_u8 DoubleFault = Some 8"
| "as_u8 CoprocessorSegmentOverrun = Some 9"
| "as_u8 InvalidTss = Some 10"
| "as_u8 SegmentNotPresent = Some 11"
| "as_u8 StackSegmentFault = Some 12"
| "as_u8 GeneralProtectionFault = Some 13"
| "as_u8 PageFault = Some 14"
| "as_u8 X87FloatingPoint = Some 16"
| "as_u8 AlignmentCheck = Some 17"
| "as_u8 MachineCheck = Some 18"
| "as_u8 SimdFloatingPoint = Some 19"
| "as_u8 Virtualization = Some 20"
| "as_u8 CpProtectionException = Some 21"
| "as_u8 HvInjectionException = Some 28"
| "as_u8 VmmCommunicationException = Some 29"
| "as_u8 SecurityException = Some 30"
| "as_u8 (Irq n) = (if n + 32 < 256 then Some (n + 32) else None)"

definition has_error_code :: "interrupt \<Rightarrow> bool" where
  "has_error_code i \<longleftrightarrow> i \<in> {DoubleFault, InvalidTss, SegmentNotPresent, StackSegmentFault, GeneralProtectionFault, PageFault,
       AlignmentCheck, CpProtectionException, VmmCommunicationException, SecurityException}"

datatype reserved_vector = ReservedVector nat

definition try_from_u8 :: "nat \<Rightarrow> reserved_vector + interrupt" where
  "try_from_u8 v =
     (if v = 15 \<or> 22 \<le> v \<and> v \<le> 27 \<or> v = 31 then Inl (ReservedVector v)
      else if v = 0 then Inr DivideError
      else if v = 1 then Inr Debug
      else if v = 2 then Inr NonMaskableInterrupt
      else if v = 3 then Inr Breakpoint
      else if v = 4 then Inr Overflow
      else if v = 5 then Inr BoundRangeExceeded
      else if v = 6 then Inr InvalidOpcode
      else if v = 7 then Inr DeviceNotAvailable
      else if v = 8 then Inr DoubleFault
      else if v = 9 then Inr CoprocessorSegmentOverrun
      else if v = 10 then Inr InvalidTss
      else if v = 11 then Inr SegmentNotPresent
      else if v = 12 then Inr StackSegmentFault
      else if v = 13 then Inr GeneralProtectionFault
      else if v = 14 then Inr PageFault
      else if v = 16 then Inr X87FloatingPoint
      else if v = 17 then Inr AlignmentCheck
      else if v = 18 then Inr MachineCheck
      else if v = 19 then Inr SimdFloatingPoint
      else if v = 20 then Inr Virtualization
      else if v = 21 then Inr CpProtectionException
      else if v = 28 then Inr HvInjectionException
      else if v = 29 then Inr VmmCommunicationException
      else if v = 30 then Inr SecurityException
      else Inr (Irq (v - 32)))"

section \<open>Lemmas\<close>

lemma fold_irq_gates:
  "fold set_handler_addr (map (\<lambda>n. (32 + n, IrqEntry n)) [0..<k]) idt v =
     (if 32 \<le> v \<and> v < 32 + k then Some \<lparr>gate_entry = IrqEntry (v - 32), gate_ist = None\<rparr> else idt v)"
  by (induction k) (auto simp: set_handler_addr_def)

lemma fill_idt_irq: "32 \<le> v \<Longrightarrow> v < 256 \<Longrightarrow> fill_idt idt v = Some \<lparr>gate_entry = IrqEntry (v - 32), gate_ist = None\<rparr>"
  by (simp add: fill_idt_def irq_gates_def fold_irq_gates)

lemma fill_idt_exception: "v < 32 \<Longrightarrow> fill_idt idt v = fold set_handler_addr exception_gates idt v"
  by (simp add: fill_idt_def irq_gates_def fold_irq_gates)

lemma try_from_as_u8: "as_u8 i = Some v \<Longrightarrow> try_from_u8 v = Inr i"
  by (cases i) (auto simp: try_from_u8_def split: if_splits)

text \<open>A vector of the table: its gate leads to the stub that pushes this vector.\<close>

definition gate_consistent :: "(nat \<rightharpoonup> gate) \<Rightarrow> nat \<Rightarrow> bool" where
  "gate_consistent idt v =
     (case idt v of
        None \<Rightarrow> v \<in> {9, 15, 31} \<union> {22..27}
      | Some g \<Rightarrow> (case try_from_u8 v of
          Inl _ \<Rightarrow> False
        | Inr i \<Rightarrow> as_u8 i = Some v \<and> int_entry (gate_entry g) = (v, has_error_code i)))"

lemma exception_gates_consistent: "v < 32 \<Longrightarrow> gate_consistent (fill_idt Map.empty) v"
proof -
  have "list_all (gate_consistent (fold set_handler_addr exception_gates Map.empty)) [0..<32]" by code_simp
  then have "v < 32 \<Longrightarrow> gate_consistent (fold set_handler_addr exception_gates Map.empty) v" by (simp add: list_all_iff)
  then show "v < 32 \<Longrightarrow> gate_consistent (fill_idt Map.empty) v" by (simp add: gate_consistent_def fill_idt_exception)
qed

lemma idt_gates: "v < 256 \<Longrightarrow> gate_consistent (fill_idt Map.empty) v"
proof (cases "v < 32")
  case False
  assume "v < 256"
  with False show ?thesis
    by (simp add: gate_consistent_def fill_idt_irq try_from_u8_def has_error_code_def irq_entry_def)
qed (rule exception_gates_consistent)

section \<open>Properties\<close>

text \<open>
  C29.  The descriptor table has a gate for every vector except those without an interrupt.  The stub behind a gate
  pushes the number of its vector, it pushes a substitute error code exactly if the processor pushes none, and
  the number converts to the interrupt with this vector, so the dispatcher never meets a reserved vector.
  Conversions between interrupts and vectors are inverse to each other.
\<close>

theorem idt_consistent:
  "(v < 256 \<longrightarrow> gate_consistent (fill_idt Map.empty) v) \<and> (as_u8 i = Some w \<longrightarrow> try_from_u8 w = Inr i)"
  using idt_gates try_from_as_u8 by blast

lemma idt_consistent_witness:
  "gate_consistent (fill_idt Map.empty) 14 \<and> fill_idt Map.empty 14 = Some \<lparr>gate_entry = PageFaultEntry, gate_ist = None\<rparr> \<and>
   try_from_u8 14 = Inr PageFault"
  using idt_consistent [of 14 PageFault 14]
  by (simp add: fill_idt_exception exception_gates_def set_handler_addr_def)

end
