(* ===== verification/Entry.thy ===== *)
theory Entry
  imports Int_Tables
begin

text \<open>
  The assembly of the kernel (\<^verbatim>\<open>interrupts.rs\<close>, \<^verbatim>\<open>sched.rs\<close>): the common entry of interrupts, the entry of system calls and the
  thread switch, with the layouts of the frames they build.  The called handler is a parameter; the theorems assume of
  it what every compiled function guarantees, that it returns with the stack pointer it was called with.
\<close>

section \<open>Frames\<close>

record trap_frame =
  tf_rax :: "64 word"
  tf_rbx :: "64 word"
  tf_rcx :: "64 word"
  tf_rdx :: "64 word"
  tf_rsi :: "64 word"
  tf_rdi :: "64 word"
  tf_rbp :: "64 word"
  tf_r8 :: "64 word"
  tf_r9 :: "64 word"
  tf_r10 :: "64 word"
  tf_r11 :: "64 word"
  tf_r12 :: "64 word"
  tf_r13 :: "64 word"
  tf_r14 :: "64 word"
  tf_r15 :: "64 word"
  tf_int_num :: "64 word"
  tf_error_code :: "64 word"
  tf_rip :: "64 word"
  tf_cs :: "64 word"
  tf_rflags :: "64 word"
  tf_rsp :: "64 word"
  tf_ss :: "64 word"

text \<open>The fields of the structure lie at consecutive cells (\<^verbatim>\<open>repr(C)\<close>).\<close>

definition trap_frame_at :: "cpu \<Rightarrow> 64 word \<Rightarrow> trap_frame" where
  "trap_frame_at c a =
     \<lparr>tf_rax = mem c a, tf_rbx = mem c (a + 8), tf_rcx = mem c (a + 16), tf_rdx = mem c (a + 24),
      tf_rsi = mem c (a + 32), tf_rdi = mem c (a + 40), tf_rbp = mem c (a + 48), tf_r8 = mem c (a + 56),
      tf_r9 = mem c (a + 64), tf_r10 = mem c (a + 72), tf_r11 = mem c (a + 80), tf_r12 = mem c (a + 88),
      tf_r13 = mem c (a + 96), tf_r14 = mem c (a + 104), tf_r15 = mem c (a + 112),
      tf_int_num = mem c (a + 120), tf_error_code = mem c (a + 128),
      tf_rip = mem c (a + 136), tf_cs = mem c (a + 144), tf_rflags = mem c (a + 152), tf_rsp = mem c (a + 160),
      tf_ss = mem c (a + 168)\<rparr>"

record switch_frame =
  sf_rbx :: "64 word"
  sf_rbp :: "64 word"
  sf_r12 :: "64 word"
  sf_r13 :: "64 word"
  sf_r14 :: "64 word"
  sf_r15 :: "64 word"
  sf_rip :: "64 word"
  sf_rsp :: "64 word"

definition switch_frame_at :: "cpu \<Rightarrow> 64 word \<Rightarrow> switch_frame" where
  "switch_frame_at c a =
     \<lparr>sf_rbx = mem c a, sf_rbp = mem c (a + 8), sf_r12 = mem c (a + 16), sf_r13 = mem c (a + 24),
      sf_r14 = mem c (a + 32), sf_r15 = mem c (a + 40), sf_rip = mem c (a + 48), sf_rsp = mem c (a + 56)\<rparr>"

section \<open>Code\<close>

definition SYSCALL_SENTINEL_INT_NUM :: "64 word" where "SYSCALL_SENTINEL_INT_NUM = 256"

definition push_registers :: "instr list" where
  "push_registers = map Push [R15, R14, R13, R12, R11, R10, R9, R8, RBP, RDI, RSI, RDX, RCX, RBX, RAX]"

definition pop_registers :: "instr list" where
  "pop_registers = map Pop [RAX, RBX, RCX, RDX, RSI, RDI, RBP, R8, R9, R10, R11, R12, R13, R14, R15]"

text \<open>The common entry up to the call of \<^verbatim>\<open>int_handler\<close>, and after it.\<close>

definition int_entry_save :: "instr list" where
  "int_entry_save = [SkipIfKernel RSP 24 1, Swapgs] @ push_registers @ [Mov RDI RSP]"

definition int_entry_restore :: "instr list" where
  "int_entry_restore = pop_registers @ [SkipIfKernel RSP 24 1, Swapgs, AddImm RSP 16, Iretq]"

definition int_common_entry :: "instr list" where
  "int_common_entry = int_entry_save @ [Call] @ int_entry_restore"

definition syscall_save :: "64 word \<Rightarrow> 64 word \<Rightarrow> instr list" where
  "syscall_save user_rsp_offset kernel_rsp_offset =
     [Swapgs, StoreGs user_rsp_offset RSP, LoadGs RSP kernel_rsp_offset, PushImm USER_DATA_SELECTOR,
      PushGs user_rsp_offset, Push R11, PushImm USER_CODE_SELECTOR, Push RCX, PushImm 0,
      PushImm SYSCALL_SENTINEL_INT_NUM] @ push_registers @ [Mov RDI RSP]"

definition syscall_restore :: "instr list" where
  "syscall_restore = [Cli] @ pop_registers @ [Load RSP RSP 40, Swapgs, Sysretq]"

definition syscall_entry :: "64 word \<Rightarrow> 64 word \<Rightarrow> instr list" where
  "syscall_entry user_rsp_offset kernel_rsp_offset =
     syscall_save user_rsp_offset kernel_rsp_offset @ [Call] @ syscall_restore"

definition switch :: "instr list" where
  "switch =
     [Mov RAX RDX,
      Store RDI 0 RBX, Store RDI 8 RBP, Store RDI 16 R12, Store RDI 24 R13, Store RDI 32 R14, Store RDI 40 R15,
      PopMem RDI 48, Store RDI 56 RSP,
      Load RBX RSI 0, Load RBP RSI 8, Load R12 RSI 16, Load R13 RSI 24, Load R14 RSI 32, Load R15 RSI 40,
      Load RSP RSI 56, PushMem RSI 48, Ret]"

definition thread_entry_stub :: "instr list" where
  "thread_entry_stub = [Mov RDI RBX, Mov RSI RSP, Call]"

section \<open>Interrupts\<close>

lemma run_append_plain: "\<forall>i\<in>set xs. \<nexists>r d n. i = SkipIfKernel r d n \<Longrightarrow> run h (xs @ ys) c = run h ys (run h xs c)"
  by (induction xs arbitrary: c) (auto split: instr.split)

text \<open>The state in which the handler is called, and the frame it is given.\<close>

definition int_saved :: "64 word \<Rightarrow> 64 word \<Rightarrow> 64 word option \<Rightarrow> entry_sym \<Rightarrow> cpu \<Rightarrow> cpu" where
  "int_saved stack kernel_cs err e c =
     run (\<lambda>c. c) (entry_stub e @ int_entry_save) (cpu_interrupt stack kernel_cs err c)"

definition interrupted_frame :: "nat \<Rightarrow> 64 word option \<Rightarrow> cpu \<Rightarrow> trap_frame" where
  "interrupted_frame v err c =
     \<lparr>tf_rax = regs c RAX, tf_rbx = regs c RBX, tf_rcx = regs c RCX, tf_rdx = regs c RDX,
      tf_rsi = regs c RSI, tf_rdi = regs c RDI, tf_rbp = regs c RBP, tf_r8 = regs c R8, tf_r9 = regs c R9,
      tf_r10 = regs c R10, tf_r11 = regs c R11, tf_r12 = regs c R12, tf_r13 = regs c R13, tf_r14 = regs c R14,
      tf_r15 = regs c R15, tf_int_num = of_nat v, tf_error_code = (case err of Some x \<Rightarrow> x | None \<Rightarrow> 0),
      tf_rip = ip c, tf_cs = cs c, tf_rflags = flags c, tf_rsp = regs c RSP, tf_ss = ss c\<rparr>"

lemma cells_frame: "cells c a 22 = [mem c a, mem c (a + 8), mem c (a + 16), mem c (a + 24), mem c (a + 32), mem c (a + 40),
    mem c (a + 48), mem c (a + 56), mem c (a + 64), mem c (a + 72), mem c (a + 80), mem c (a + 88), mem c (a + 96),
    mem c (a + 104), mem c (a + 112), mem c (a + 120), mem c (a + 128), mem c (a + 136), mem c (a + 144), mem c (a + 152),
    mem c (a + 160), mem c (a + 168)]"
  by (simp add: eval_nat_numeral cells_Suc) (simp add: add.commute)

lemma cells_registers: "cells c a 15 = [mem c a, mem c (a + 8), mem c (a + 16), mem c (a + 24), mem c (a + 32), mem c (a + 40),
    mem c (a + 48), mem c (a + 56), mem c (a + 64), mem c (a + 72), mem c (a + 80), mem c (a + 88), mem c (a + 96),
    mem c (a + 104), mem c (a + 112)]"
  by (simp add: eval_nat_numeral cells_Suc) (simp add: add.commute)

text \<open>What the processor and the stub have pushed.\<close>

definition stub_values :: "nat \<Rightarrow> 64 word option \<Rightarrow> cpu \<Rightarrow> 64 word list" where
  "stub_values v err c = [ss c, regs c RSP, flags c, cs c, ip c, (case err of Some x \<Rightarrow> x | None \<Rightarrow> 0), of_nat v]"

definition int_start :: "64 word \<Rightarrow> 64 word \<Rightarrow> cpu \<Rightarrow> cpu" where
  "int_start stack kernel_cs c = c\<lparr>flags := flags c AND NOT IF_FLAG, cs := kernel_cs, regs := (regs c)(RSP := stack)\<rparr>"

lemma cpu_interrupt_push_all:
  "cpu_interrupt stack kcs err c =
     push_all ([ss c, regs c RSP, flags c, cs c, ip c] @ (case err of Some e \<Rightarrow> [e] | None \<Rightarrow> [])) (int_start stack kcs c)"
  by (cases err) (simp_all add: cpu_interrupt_def int_start_def Let_def)

lemma run_stub:
  assumes "int_entry e = (v, err \<noteq> None)"
  shows "run h (entry_stub e @ is) (cpu_interrupt stack kcs err c) = run h is (push_all (stub_values v err c) (int_start stack kcs c))"
  using assms by (cases err) (simp_all add: cpu_interrupt_push_all entry_stub_def stub_values_def push_all_append)

definition swapgs_if :: "bool \<Rightarrow> cpu \<Rightarrow> cpu" where
  "swapgs_if b c = (if b then swapgs c else c)"

lemma swapgs_if_simps [simp]:
  "regs (swapgs_if b c) = regs c" "mem (swapgs_if b c) = mem c" "flags (swapgs_if b c) = flags c" "ip (swapgs_if b c) = ip c"
  "cs (swapgs_if b c) = cs c" "ss (swapgs_if b c) = ss c"
  "gs_base (swapgs_if b c) = (if b then kernel_gs_base c else gs_base c)"
  "kernel_gs_base (swapgs_if b c) = (if b then gs_base c else kernel_gs_base c)"
  by (simp_all add: swapgs_if_def swapgs_def)

lemma run_swapgs_if:
  "run h (SkipIfKernel r d 1 # Swapgs # is) c = run h is (swapgs_if (mem c (regs c r + d) AND 3 \<noteq> 0) c)"
  by (simp add: swapgs_if_def)

lemma stub_cs:
  "mem (push_all (stub_values v err c) c') (regs (push_all (stub_values v err c) c') RSP + 24) = cs c"
proof -
  have "cells (push_all (stub_values v err c) c') (regs (push_all (stub_values v err c) c') RSP) (length (stub_values v err c) + 0) =
      rev (stub_values v err c) @ cells c' (regs c' RSP) 0"
    by (rule push_all_cells) (simp add: stub_values_def)
  then show ?thesis by (simp add: stub_values_def eval_nat_numeral cells_Suc)
qed

definition saved_registers :: "reg list" where
  "saved_registers = [R15, R14, R13, R12, R11, R10, R9, R8, RBP, RDI, RSI, RDX, RCX, RBX, RAX]"

definition from_user :: "cpu \<Rightarrow> bool" where
  "from_user c \<longleftrightarrow> cs c AND 3 \<noteq> 0"

lemma int_saved_eq:
  assumes "int_entry e = (v, err \<noteq> None)"
  shows "int_saved stack kcs err e c =
    (let c' = push_all (map (regs c) saved_registers)
                (swapgs_if (from_user c) (push_all (stub_values v err c) (int_start stack kcs c)))
     in set_reg RDI (regs c' RSP) c')"
proof -
  let ?p = "push_all (stub_values v err c) (int_start stack kcs c)"
  let ?q = "swapgs_if (from_user c) ?p"
  have "map (regs ?q) saved_registers = map (regs c) saved_registers" by (simp add: saved_registers_def int_start_def)
  moreover have "run (\<lambda>c. c) (map Push saved_registers @ [Mov RDI RSP]) ?q =
      run (\<lambda>c. c) [Mov RDI RSP] (push_all (map (regs ?q) saved_registers) ?q)"
    by (rule run_pushes) (simp add: saved_registers_def)
  moreover have "run (\<lambda>c. c) int_entry_save ?p = run (\<lambda>c. c) (map Push saved_registers @ [Mov RDI RSP]) ?q"
    using stub_cs [of v err c "int_start stack kcs c"]
    by (simp only: int_entry_save_def push_registers_def saved_registers_def append_Cons append_Nil run_swapgs_if from_user_def)
  ultimately show ?thesis
    by (simp only: int_saved_def run_stub [OF assms] Let_def run.simps instr.case exec.simps)
qed

lemma int_saved_cells:
  assumes "int_entry e = (v, err \<noteq> None)"
  shows "cells (int_saved stack kcs err e c) (regs (int_saved stack kcs err e c) RDI) 22 =
    rev (stub_values v err c @ map (regs c) saved_registers)"
proof -
  let ?p = "push_all (stub_values v err c) (int_start stack kcs c)"
  let ?q = "swapgs_if (from_user c) ?p"
  let ?r = "push_all (map (regs c) saved_registers) ?q"
  have "cells ?r (regs ?r RSP) (length (map (regs c) saved_registers) + 7) = rev (map (regs c) saved_registers) @ cells ?q (regs ?q RSP) 7"
    by (rule push_all_cells) (simp add: saved_registers_def)
  moreover have "cells ?q (regs ?q RSP) 7 = cells ?p (regs ?p RSP) 7" by (simp add: cells_def)
  moreover have "cells ?p (regs ?p RSP) (length (stub_values v err c) + 0) = rev (stub_values v err c) @ cells (int_start stack kcs c) (regs (int_start stack kcs c) RSP) 0"
    by (rule push_all_cells) (simp add: stub_values_def)
  moreover have "length (stub_values v err c) = 7" "length saved_registers = 15" by (simp_all add: stub_values_def saved_registers_def)
  moreover have "cells (set_reg RDI x ?r) a 22 = cells ?r a 22" for a x by (simp add: cells_def set_reg_def)
  ultimately show ?thesis by (simp add: int_saved_eq [OF assms] Let_def) (simp add: set_reg_def)
qed

lemma int_saved_frame:
  assumes "int_entry e = (v, err \<noteq> None)"
  shows "trap_frame_at (int_saved stack kcs err e c) (regs (int_saved stack kcs err e c) RDI) = interrupted_frame v err c"
  using int_saved_cells [OF assms, of stack kcs c]
  by (simp add: cells_frame stub_values_def saved_registers_def trap_frame_at_def interrupted_frame_def)

text \<open>The way back: every register and the control state come from the frame.\<close>

definition frame_regs :: "trap_frame \<Rightarrow> reg \<Rightarrow> 64 word" where
  "frame_regs tf r =
     (case r of
        RAX \<Rightarrow> tf_rax tf | RBX \<Rightarrow> tf_rbx tf | RCX \<Rightarrow> tf_rcx tf | RDX \<Rightarrow> tf_rdx tf | RSI \<Rightarrow> tf_rsi tf | RDI \<Rightarrow> tf_rdi tf
      | RBP \<Rightarrow> tf_rbp tf | RSP \<Rightarrow> tf_rsp tf | R8 \<Rightarrow> tf_r8 tf | R9 \<Rightarrow> tf_r9 tf | R10 \<Rightarrow> tf_r10 tf | R11 \<Rightarrow> tf_r11 tf
      | R12 \<Rightarrow> tf_r12 tf | R13 \<Rightarrow> tf_r13 tf | R14 \<Rightarrow> tf_r14 tf | R15 \<Rightarrow> tf_r15 tf)"

lemma run_pop_registers:
  "run h (pop_registers @ is) c =
     run h is (c\<lparr>regs := (frame_regs (trap_frame_at c (regs c RSP)))(RSP := regs c RSP + 120)\<rparr>)"
proof -
  let ?rs = "[RAX, RBX, RCX, RDX, RSI, RDI, RBP, R8, R9, R10, R11, R12, R13, R14, R15]"
  have "(load_regs ?rs (cells c (regs c RSP) 15) (regs c))(RSP := x) = (frame_regs (trap_frame_at c (regs c RSP)))(RSP := x)" for x
  proof
    fix r show "((load_regs ?rs (cells c (regs c RSP) 15) (regs c))(RSP := x)) r = ((frame_regs (trap_frame_at c (regs c RSP)))(RSP := x)) r"
      by (cases r) (simp_all add: cells_registers frame_regs_def trap_frame_at_def)
  qed
  moreover have "run h (map Pop ?rs @ is) c =
      run h is (c\<lparr>regs := (load_regs ?rs (cells c (regs c RSP) 15) (regs c))(RSP := regs c RSP + 8 * of_nat (length ?rs))\<rparr>)"
    by (rule run_pops [where n = 0 and ws = "[]"]) (simp_all only: cells_length list.size append_Nil2 add_0_right, simp_all add: eval_nat_numeral)
  ultimately show ?thesis by (simp only: pop_registers_def) simp
qed

definition restored :: "trap_frame \<Rightarrow> cpu \<Rightarrow> cpu" where
  "restored tf c =
     (swapgs_if (tf_cs tf AND 3 \<noteq> 0) c)\<lparr>regs := frame_regs tf, ip := tf_rip tf, cs := tf_cs tf, flags := tf_rflags tf, ss := tf_ss tf\<rparr>"

lemma run_int_restore: "run h int_entry_restore c = restored (trap_frame_at c (regs c RSP)) c"
proof -
  let ?tf = "trap_frame_at c (regs c RSP)"
  let ?c = "c\<lparr>regs := (frame_regs ?tf)(RSP := regs c RSP + 120)\<rparr>"
  have cs: "mem ?c (regs ?c RSP + 24) = tf_cs ?tf" by (simp add: trap_frame_at_def add.commute)
  have "run h int_entry_restore c = run h [SkipIfKernel RSP 24 1, Swapgs, AddImm RSP 16, Iretq] ?c"
    by (simp only: int_entry_restore_def run_pop_registers)
  also have "\<dots> = run h [AddImm RSP 16, Iretq] (swapgs_if (tf_cs ?tf AND 3 \<noteq> 0) ?c)"
    by (simp only: run_swapgs_if cs)
  also have "\<dots> = restored ?tf c"
    by (cases "tf_cs ?tf AND 3 \<noteq> 0")
      (simp_all add: restored_def swapgs_if_def swapgs_def set_reg_def fun_eq_iff frame_regs_def trap_frame_at_def Let_def add.commute)
  finally show ?thesis .
qed

lemma frame_regs_interrupted [simp]: "frame_regs (interrupted_frame v err c) = regs c"
  by (rule ext) (auto simp: frame_regs_def interrupted_frame_def split: reg.split)

lemma run_int_common_entry:
  assumes "int_entry e = (v, err \<noteq> None)"
  shows "run h (entry_stub e @ int_common_entry) (cpu_interrupt stack kcs err c) =
    run h int_entry_restore (h (int_saved stack kcs err e c))"
proof -
  let ?p = "push_all (stub_values v err c) (int_start stack kcs c)"
  have *: "run h (int_entry_save @ is) ?p = run h is (run (\<lambda>c. c) int_entry_save ?p)" for "is"
  proof -
    have "run h (map Push saved_registers @ [Mov RDI RSP] @ is) q = run h is (run (\<lambda>c. c) (map Push saved_registers @ [Mov RDI RSP]) q)" for q
    proof -
      have "RSP \<notin> set saved_registers" by (simp add: saved_registers_def)
      then show ?thesis by (simp add: run_pushes)
    qed
    then show ?thesis
      by (simp only: int_entry_save_def push_registers_def saved_registers_def append_Cons append_Nil append_assoc run_swapgs_if)
  qed
  show ?thesis
    by (simp only: int_common_entry_def int_saved_def run_stub [OF assms] * append_assoc append_Cons append_Nil run.simps instr.case exec.simps)
qed

section \<open>Properties\<close>

text \<open>
  C15.  An interrupt through a gate of the descriptor table calls the handler with a frame that holds every register, the
  control state, the number of the vector and the error code of the processor, or zero if it has none.  If the
  handler returns with its stack pointer and leaves the frame and the bases alone, the interrupted code goes on
  with every register, its flags, segments and bases as they were.
\<close>

theorem interrupt_transparent:
  assumes "v < 256" "fill_idt Map.empty v = Some g" "try_from_u8 v = Inr i" "(err \<noteq> None) = has_error_code i"
    and s: "s = int_saved stack kernel_cs err (gate_entry g) c" and a: "a = regs s RDI"
    and "regs (h s) RSP = regs s RSP" "trap_frame_at (h s) a = trap_frame_at s a"
    and "gs_base (h s) = gs_base s" "kernel_gs_base (h s) = kernel_gs_base s"
    and r: "r = run h (entry_stub (gate_entry g) @ int_common_entry) (cpu_interrupt stack kernel_cs err c)"
  shows "trap_frame_at s a = interrupted_frame v err c \<and> regs r = regs c \<and> ip r = ip c \<and> cs r = cs c \<and> ss r = ss c \<and>
    flags r = flags c \<and> gs_base r = gs_base c \<and> kernel_gs_base r = kernel_gs_base c"
proof -
  have "gate_consistent (fill_idt Map.empty) v" using idt_gates assms(1) by blast
  then have e: "int_entry (gate_entry g) = (v, err \<noteq> None)" using assms(2-4) by (simp add: gate_consistent_def)
  have tf: "trap_frame_at s a = interrupted_frame v err c" using int_saved_frame [OF e, of stack kernel_cs c] by (simp add: s a)
  have "regs s RSP = a" by (simp add: s a int_saved_eq [OF e] Let_def set_reg_def)
  then have "r = restored (interrupted_frame v err c) (h s)"
    using assms(7,8) tf by (simp only: r run_int_common_entry [OF e] run_int_restore s)
  moreover have "gs_base s = (if from_user c then kernel_gs_base c else gs_base c)"
      "kernel_gs_base s = (if from_user c then gs_base c else kernel_gs_base c)"
    by (simp_all add: s int_saved_eq [OF e] Let_def set_reg_def int_start_def)
  moreover have "tf_cs (interrupted_frame v err c) = cs c" "tf_rip (interrupted_frame v err c) = ip c"
      "tf_rflags (interrupted_frame v err c) = flags c" "tf_ss (interrupted_frame v err c) = ss c"
    by (simp_all add: interrupted_frame_def)
  ultimately show ?thesis using tf assms(9,10) by (simp add: restored_def from_user_def)
qed

definition idle_cpu :: cpu where
  "idle_cpu = \<lparr>regs = (\<lambda>r. 7), mem = (\<lambda>a. 0), ip = 4096, cs = USER_CODE_SELECTOR, ss = USER_DATA_SELECTOR, flags = IF_FLAG,
     gs_base = 1, kernel_gs_base = 2\<rparr>"

lemma interrupt_transparent_witness:
  "int_entry PageFaultEntry = (14, True) \<and>
   (let r = run (\<lambda>c. c) (entry_stub PageFaultEntry @ int_common_entry) (cpu_interrupt 65536 8 (Some 2) idle_cpu)
    in regs r = regs idle_cpu \<and> ip r = 4096 \<and> flags r = IF_FLAG \<and> gs_base r = 1 \<and> kernel_gs_base r = 2)"
proof -
  have g: "fill_idt Map.empty 14 = Some \<lparr>gate_entry = PageFaultEntry, gate_ist = None\<rparr>"
    by (simp add: fill_idt_exception exception_gates_def set_handler_addr_def)
  have i: "try_from_u8 14 = Inr PageFault" "(Some (2 :: 64 word) \<noteq> None) = has_error_code PageFault"
    by (simp_all add: try_from_u8_def has_error_code_def)
  from interrupt_transparent [OF _ g i refl refl, where stack = 65536 and kernel_cs = 8 and c = idle_cpu and h = "\<lambda>c. c", OF _ refl refl refl refl refl]
  show ?thesis by (simp add: Let_def idle_cpu_def)
qed

section \<open>The thread switch\<close>

definition frame_cells :: "64 word \<Rightarrow> 64 word set" where
  "frame_cells p = {p, p + 8, p + 16, p + 24, p + 32, p + 40, p + 48, p + 56}"

text \<open>A call of \<^verbatim>\<open>switch\<close>: the two frames do not overlap, and neither overlaps the two stacks at the cells in use.\<close>

definition switch_call :: "cpu \<Rightarrow> bool" where
  "switch_call c \<longleftrightarrow>
     (let p = regs c RDI; q = regs c RSI; next_sp = sf_rsp (switch_frame_at c q) in
      frame_cells p \<inter> frame_cells q = {} \<and> regs c RSP \<notin> frame_cells p \<and> next_sp - 8 \<notin> frame_cells p)"

definition own_frame :: "cpu \<Rightarrow> switch_frame" where
  "own_frame c =
     \<lparr>sf_rbx = regs c RBX, sf_rbp = regs c RBP, sf_r12 = regs c R12, sf_r13 = regs c R13, sf_r14 = regs c R14, sf_r15 = regs c R15,
      sf_rip = mem c (regs c RSP), sf_rsp = regs c RSP + 8\<rparr>"

definition with_frame :: "switch_frame \<Rightarrow> (reg \<Rightarrow> 64 word) \<Rightarrow> reg \<Rightarrow> 64 word" where
  "with_frame f rs =
     rs(RBX := sf_rbx f, RBP := sf_rbp f, R12 := sf_r12 f, R13 := sf_r13 f, R14 := sf_r14 f, R15 := sf_r15 f, RSP := sf_rsp f)"

definition switch_mem :: "cpu \<Rightarrow> 64 word \<Rightarrow> 64 word" where
  "switch_mem c =
     (let p = regs c RDI in
      (mem c)(p := regs c RBX, p + 8 := regs c RBP, p + 16 := regs c R12, p + 24 := regs c R13, p + 32 := regs c R14,
        p + 40 := regs c R15, p + 48 := mem c (regs c RSP), p + 56 := regs c RSP + 8))"

definition switch_half :: "cpu \<Rightarrow> cpu" where
  "switch_half c = c\<lparr>regs := (regs c)(RAX := regs c RDX, RSP := regs c RSP + 8), mem := switch_mem c\<rparr>"

definition switch_out :: "instr list" where
  "switch_out = [Mov RAX RDX, Store RDI 0 RBX, Store RDI 8 RBP, Store RDI 16 R12, Store RDI 24 R13, Store RDI 32 R14,
     Store RDI 40 R15, PopMem RDI 48, Store RDI 56 RSP]"

definition switch_in :: "instr list" where
  "switch_in = [Load RBX RSI 0, Load RBP RSI 8, Load R12 RSI 16, Load R13 RSI 24, Load R14 RSI 32, Load R15 RSI 40,
     Load RSP RSI 56, PushMem RSI 48, Ret]"

lemma run_switch_out: "regs c RSP \<notin> frame_cells (regs c RDI) \<Longrightarrow> run h (switch_out @ is) c = run h is (switch_half c)"
  by (simp add: switch_out_def switch_half_def switch_mem_def Let_def set_reg_def set_mem_def pop_def frame_cells_def fun_upd_twist)

lemma run_switch_in:
  "run h switch_in c =
     (let f = switch_frame_at c (regs c RSI)
      in c\<lparr>regs := with_frame f (regs c), mem := (mem c)(sf_rsp f - 8 := sf_rip f), ip := sf_rip f\<rparr>)"
  by (simp add: switch_in_def with_frame_def Let_def set_reg_def set_mem_def pop_def push_def switch_frame_at_def fun_upd_twist)

lemma switch_mem_outside: "a \<notin> frame_cells (regs c RDI) \<Longrightarrow> switch_mem c a = mem c a"
  by (simp add: switch_mem_def frame_cells_def Let_def)

lemma frame_at_outside:
  assumes "frame_cells p \<inter> frame_cells q = {}" "\<And>a. a \<notin> frame_cells p \<Longrightarrow> mem c' a = mem c a"
  shows "switch_frame_at c' q = switch_frame_at c q"
proof -
  have "\<forall>a\<in>frame_cells q. mem c' a = mem c a" using assms by blast
  then show ?thesis by (simp add: frame_cells_def switch_frame_at_def)
qed

lemma own_frame_stored:
  assumes "x \<notin> frame_cells (regs c RDI)" "mem c' = (switch_mem c)(x := v)"
  shows "switch_frame_at c' (regs c RDI) = own_frame c"
proof -
  have "\<forall>a\<in>frame_cells (regs c RDI). mem c' a = switch_mem c a" using assms by auto
  then show ?thesis by (simp add: frame_cells_def switch_frame_at_def own_frame_def) (simp add: switch_mem_def Let_def)
qed

lemma switch_spec:
  assumes "switch_call c"
  shows "let nf = switch_frame_at c (regs c RSI); c' = run h switch c in
    regs c' = with_frame nf ((regs c)(RAX := regs c RDX)) \<and> ip c' = sf_rip nf \<and>
    switch_frame_at c' (regs c RDI) = own_frame c \<and>
    (\<forall>a. a \<notin> frame_cells (regs c RDI) \<and> a \<noteq> sf_rsp nf - 8 \<longrightarrow> mem c' a = mem c a)"
proof -
  let ?p = "regs c RDI"
  define nf where "nf = switch_frame_at c (regs c RSI)"
  have sep: "frame_cells ?p \<inter> frame_cells (regs c RSI) = {}" "regs c RSP \<notin> frame_cells ?p" "sf_rsp nf - 8 \<notin> frame_cells ?p"
    using assms by (simp_all add: switch_call_def Let_def nf_def)
  have half: "regs (switch_half c) RSI = regs c RSI" "mem (switch_half c) = switch_mem c" by (simp_all add: switch_half_def)
  have nf: "switch_frame_at (switch_half c) (regs c RSI) = nf"
    unfolding nf_def by (rule frame_at_outside [OF sep(1)]) (simp add: half switch_mem_outside)
  have "run h switch c = run h (switch_out @ switch_in) c" by (simp only: switch_def switch_out_def switch_in_def append_Cons append_Nil)
  also have "\<dots> = run h switch_in (switch_half c)" by (rule run_switch_out [OF sep(2)])
  finally have r: "run h switch c = (switch_half c)\<lparr>regs := with_frame nf (regs (switch_half c)),
      mem := (switch_mem c)(sf_rsp nf - 8 := sf_rip nf), ip := sf_rip nf\<rparr>"
    by (simp only: run_switch_in half nf Let_def)
  then have m: "mem (run h switch c) = (switch_mem c)(sf_rsp nf - 8 := sf_rip nf)" by simp
  have "with_frame nf (regs (switch_half c)) = with_frame nf ((regs c)(RAX := regs c RDX))"
    by (rule ext) (simp add: with_frame_def switch_half_def)
  then have "regs (run h switch c) = with_frame nf ((regs c)(RAX := regs c RDX))" "ip (run h switch c) = sf_rip nf"
    by (simp_all add: r)
  moreover have "mem (run h switch c) a = mem c a" if "a \<notin> frame_cells ?p" "a \<noteq> sf_rsp nf - 8" for a
    using that switch_mem_outside [of a c] by (simp add: m)
  ultimately show ?thesis using own_frame_stored [OF sep(3) m] unfolding Let_def nf_def [symmetric] by blast
qed

text \<open>
  C19.  For a thread, \<^verbatim>\<open>switch\<close> is a call that returns: when the thread has switched away and another thread, with the
  frame left as it was, switches back to it, it goes on at its return address with its stack and the registers that
  a called function has to preserve, and with the pointer that the other thread passes as the result.
\<close>

theorem switch_returns:
  assumes "switch_call c" "c1 = run h switch c"
    and "switch_frame_at c2 (regs c RDI) = switch_frame_at c1 (regs c RDI)"
    and "switch_call c2" "regs c2 RSI = regs c RDI" "c3 = run h switch c2"
  shows "ip c3 = mem c (regs c RSP) \<and> regs c3 RSP = regs c RSP + 8 \<and> regs c3 RAX = regs c2 RDX \<and>
    (\<forall>r. r \<in> {RBX, RBP, R12, R13, R14, R15} \<longrightarrow> regs c3 r = regs c r) \<and>
    switch_frame_at c3 (regs c2 RDI) = own_frame c2"
proof -
  have "switch_frame_at c2 (regs c RDI) = own_frame c" using switch_spec [OF assms(1), of h] assms(2,3) by (simp add: Let_def)
  with switch_spec [OF assms(4), of h] assms(5,6) show ?thesis by (auto simp: Let_def with_frame_def own_frame_def)
qed

definition switching_cpu :: cpu where
  "switching_cpu = \<lparr>regs = (\<lambda>r. case r of RDI \<Rightarrow> 4096 | RSI \<Rightarrow> 8192 | RSP \<Rightarrow> 65536 | RBX \<Rightarrow> 5 | _ \<Rightarrow> 9), mem = (\<lambda>a. if a = 65536 then 77 else 32768),
     ip = 0, cs = 8, ss = 16, flags = 0, gs_base = 0, kernel_gs_base = 0\<rparr>"

lemma switch_returns_witness:
  "switch_call switching_cpu \<and>
   (let c1 = run (\<lambda>c. c) switch switching_cpu; c2 = c1\<lparr>regs := (regs c1)(RDI := 8192, RSI := 4096)\<rparr>; c3 = run (\<lambda>c. c) switch c2
    in ip c3 = 77 \<and> regs c3 RSP = 65544 \<and> regs c3 RBX = 5)"
proof -
  define c1 where "c1 = run (\<lambda>c. c) switch switching_cpu"
  define c2 where "c2 = c1\<lparr>regs := (regs c1)(RDI := 8192, RSI := 4096)\<rparr>"
  have call: "switch_call switching_cpu"
    by (simp add: switch_call_def switching_cpu_def switch_frame_at_def frame_cells_def Let_def)
  have frame: "switch_frame_at c2 4096 = switch_frame_at c1 4096" by (simp add: c2_def switch_frame_at_def)
  have "switch_frame_at c1 4096 = own_frame switching_cpu" "regs c1 RSP = 32768"
    using switch_spec [OF call, of "\<lambda>c. c"] by (simp_all add: c1_def Let_def switching_cpu_def with_frame_def switch_frame_at_def)
  then have "switch_call c2" using frame
    by (simp add: switch_call_def Let_def) (simp add: c2_def own_frame_def switching_cpu_def frame_cells_def)
  moreover have vals: "regs switching_cpu RDI = 4096" "regs switching_cpu RSP = 65536" "regs switching_cpu RBX = 5"
      "mem switching_cpu 65536 = 77" "regs c2 RSI = 4096"
    by (simp_all add: switching_cpu_def c2_def)
  ultimately have "ip (run (\<lambda>c. c) switch c2) = 77 \<and> regs (run (\<lambda>c. c) switch c2) RSP = 65544 \<and> regs (run (\<lambda>c. c) switch c2) RBX = 5"
    using switch_returns [OF call c1_def, of c2 "run (\<lambda>c. c) switch c2"] frame by simp
  with call show ?thesis by (simp only: Let_def c1_def c2_def simp_thms)
qed

section \<open>System calls\<close>

definition syscall_saved :: "64 word \<Rightarrow> 64 word \<Rightarrow> 64 word \<Rightarrow> 64 word \<Rightarrow> cpu \<Rightarrow> cpu" where
  "syscall_saved uro kro sfmask kernel_cs c = run (\<lambda>c. c) (syscall_save uro kro) (cpu_syscall sfmask kernel_cs c)"

definition syscall_frame :: "cpu \<Rightarrow> trap_frame" where
  "syscall_frame c =
     (interrupted_frame 256 None c)\<lparr>tf_rcx := ip c, tf_r11 := flags c, tf_cs := USER_CODE_SELECTOR, tf_ss := USER_DATA_SELECTOR\<rparr>"

definition syscall_values :: "cpu \<Rightarrow> 64 word list" where
  "syscall_values c =
     [USER_DATA_SELECTOR, regs c RSP, flags c, USER_CODE_SELECTOR, ip c, 0, SYSCALL_SENTINEL_INT_NUM]"

text \<open>The state on the kernel stack, before anything is pushed.\<close>

definition syscall_stack :: "64 word \<Rightarrow> 64 word \<Rightarrow> 64 word \<Rightarrow> 64 word \<Rightarrow> cpu \<Rightarrow> cpu" where
  "syscall_stack uro kro sfmask kernel_cs c =
     (let c' = set_mem (kernel_gs_base c + uro) (regs c RSP) (swapgs (cpu_syscall sfmask kernel_cs c))
      in set_reg RSP (mem c' (gs_base c' + kro)) c')"

definition syscall_prefix :: "64 word \<Rightarrow> 64 word \<Rightarrow> instr list" where
  "syscall_prefix uro kro = [Swapgs, StoreGs uro RSP, LoadGs RSP kro, PushImm USER_DATA_SELECTOR, PushGs uro, Push R11,
     PushImm USER_CODE_SELECTOR, Push RCX, PushImm 0, PushImm SYSCALL_SENTINEL_INT_NUM]"

lemma mem_push_other: "a \<noteq> regs c RSP - 8 \<Longrightarrow> mem (push v c) a = mem c a"
  by (simp add: push_def Let_def set_mem_def set_reg_def)

lemma run_syscall_prefix:
  assumes "regs (syscall_stack uro kro sfmask kcs c) RSP - 8 \<noteq> kernel_gs_base c + uro"
  shows "run h (syscall_prefix uro kro @ is) (cpu_syscall sfmask kcs c) =
    run h is (push_all (syscall_values c) (syscall_stack uro kro sfmask kcs c))"
proof -
  let ?s = "syscall_stack uro kro sfmask kcs c"
  have gs: "gs_base ?s = kernel_gs_base c" "mem ?s (kernel_gs_base c + uro) = regs c RSP" "regs ?s R11 = flags c" "regs ?s RCX = ip c"
    by (simp_all add: syscall_stack_def Let_def set_mem_def set_reg_def swapgs_def cpu_syscall_def)
  have "run h (syscall_prefix uro kro @ is) (cpu_syscall sfmask kcs c) =
      run h ([PushImm USER_DATA_SELECTOR, PushGs uro, Push R11, PushImm USER_CODE_SELECTOR, Push RCX, PushImm 0,
        PushImm SYSCALL_SENTINEL_INT_NUM] @ is) ?s"
    by (simp add: syscall_prefix_def syscall_stack_def Let_def swapgs_def cpu_syscall_def set_mem_def)
  also have "\<dots> = run h is (push_all (syscall_values c) ?s)"
    using assms gs mem_push_other [of "kernel_gs_base c + uro" ?s USER_DATA_SELECTOR] by (simp add: syscall_values_def)
  finally show ?thesis .
qed

lemma run_syscall_save:
  assumes "regs (syscall_stack uro kro sfmask kcs c) RSP - 8 \<noteq> kernel_gs_base c + uro"
  shows "run h (syscall_save uro kro @ is) (cpu_syscall sfmask kcs c) =
    run h is (let c' = push_all (syscall_values c @ map (regs (cpu_syscall sfmask kcs c)) saved_registers) (syscall_stack uro kro sfmask kcs c)
              in set_reg RDI (regs c' RSP) c')"
proof -
  let ?p = "push_all (syscall_values c) (syscall_stack uro kro sfmask kcs c)"
  have m: "map (regs ?p) saved_registers = map (regs (cpu_syscall sfmask kcs c)) saved_registers"
    by (simp add: saved_registers_def syscall_stack_def Let_def set_reg_def set_mem_def swapgs_def)
  have "run h (syscall_save uro kro @ is) (cpu_syscall sfmask kcs c) =
      run h (syscall_prefix uro kro @ map Push saved_registers @ [Mov RDI RSP] @ is) (cpu_syscall sfmask kcs c)"
    by (simp only: syscall_save_def syscall_prefix_def push_registers_def saved_registers_def append_assoc)
  also have "\<dots> = run h (map Push saved_registers @ [Mov RDI RSP] @ is) ?p"
    by (rule run_syscall_prefix [OF assms])
  also have "\<dots> = run h ([Mov RDI RSP] @ is) (push_all (map (regs ?p) saved_registers) ?p)"
    by (rule run_pushes) (simp add: saved_registers_def)
  finally show ?thesis
    by (simp only: m push_all_append Let_def append_Cons append_Nil run.simps instr.case exec.simps)
qed

lemma syscall_saved_eq:
  assumes "regs (syscall_stack uro kro sfmask kcs c) RSP - 8 \<noteq> kernel_gs_base c + uro"
  shows "syscall_saved uro kro sfmask kcs c =
    (let c' = push_all (syscall_values c @ map (regs (cpu_syscall sfmask kcs c)) saved_registers) (syscall_stack uro kro sfmask kcs c)
     in set_reg RDI (regs c' RSP) c')"
  using run_syscall_save [OF assms, of "\<lambda>c. c" "[]"] by (simp only: syscall_saved_def append_Nil2 run.simps)

lemma syscall_saved_frame:
  assumes "regs (syscall_stack uro kro sfmask kcs c) RSP - 8 \<noteq> kernel_gs_base c + uro"
  shows "trap_frame_at (syscall_saved uro kro sfmask kcs c) (regs (syscall_saved uro kro sfmask kcs c) RDI) = syscall_frame c"
proof -
  let ?s = "syscall_stack uro kro sfmask kcs c"
  define vs where "vs = syscall_values c @ map (regs (cpu_syscall sfmask kcs c)) saved_registers"
  define st where "st = push_all vs ?s"
  have "length vs = 22" by (simp add: vs_def syscall_values_def saved_registers_def)
  then have "cells st (regs st RSP) 22 = rev vs" using push_all_cells [of vs 0 ?s] by (simp add: st_def)
  moreover have "syscall_saved uro kro sfmask kcs c = set_reg RDI (regs st RSP) st"
    by (simp only: syscall_saved_eq [OF assms] Let_def st_def vs_def)
  ultimately have "cells (syscall_saved uro kro sfmask kcs c) (regs (syscall_saved uro kro sfmask kcs c) RDI) 22 = rev vs"
    using cells_mem [of "set_reg RDI (regs st RSP) st" st] by (simp add: set_reg_def)
  then show ?thesis
    by (simp add: cells_frame vs_def syscall_values_def saved_registers_def trap_frame_at_def syscall_frame_def interrupted_frame_def
        cpu_syscall_def SYSCALL_SENTINEL_INT_NUM_def)
qed

lemma run_syscall_restore:
  "run h syscall_restore c =
     (let tf = trap_frame_at c (regs c RSP)
      in c\<lparr>regs := frame_regs tf, ip := tf_rcx tf, flags := tf_r11 tf, cs := USER_CODE_SELECTOR, ss := USER_DATA_SELECTOR,
           gs_base := kernel_gs_base c, kernel_gs_base := gs_base c\<rparr>)"
proof -
  let ?c = "c\<lparr>flags := flags c AND NOT IF_FLAG\<rparr>"
  let ?tf = "trap_frame_at c (regs c RSP)"
  have tf: "trap_frame_at ?c (regs ?c RSP) = ?tf" by (simp add: trap_frame_at_def)
  have "run h syscall_restore c = run h (pop_registers @ [Load RSP RSP 40, Swapgs, Sysretq]) ?c"
    by (simp only: syscall_restore_def append_Cons append_Nil run.simps instr.case exec.simps)
  also have "\<dots> = run h [Load RSP RSP 40, Swapgs, Sysretq] (?c\<lparr>regs := (frame_regs ?tf)(RSP := regs c RSP + 120)\<rparr>)"
    by (simp only: run_pop_registers tf) simp
  also have "\<dots> = (let tf = ?tf
      in c\<lparr>regs := frame_regs tf, ip := tf_rcx tf, flags := tf_r11 tf, cs := USER_CODE_SELECTOR, ss := USER_DATA_SELECTOR,
           gs_base := kernel_gs_base c, kernel_gs_base := gs_base c\<rparr>)"
    by (simp add: swapgs_def set_reg_def Let_def fun_eq_iff frame_regs_def trap_frame_at_def add.commute)
  finally show ?thesis .
qed

text \<open>
  C22.  A system call calls the handler with a frame that holds the registers of the user, the return address and the
  stack of the user, marked by the number 256.  If the handler changes only the result in the frame, the user code
  goes on behind the call with its flags, its stack and every register except the result and the two registers that
  the instruction itself overwrites.
\<close>

theorem syscall_returns:
  assumes "regs (syscall_stack uro kro sfmask kernel_cs c) RSP - 8 \<noteq> kernel_gs_base c + uro"
    and s: "s = syscall_saved uro kro sfmask kernel_cs c" and a: "a = regs s RDI"
    and "regs (h s) RSP = regs s RSP" "trap_frame_at (h s) a = (trap_frame_at s a)\<lparr>tf_rax := result\<rparr>"
    and "gs_base (h s) = gs_base s" "kernel_gs_base (h s) = kernel_gs_base s"
    and r: "r = run h (syscall_entry uro kro) (cpu_syscall sfmask kernel_cs c)"
  shows "trap_frame_at s a = syscall_frame c \<and> regs r = (regs c)(RAX := result, RCX := ip c, R11 := flags c) \<and> ip r = ip c \<and>
    flags r = flags c \<and> cs r = USER_CODE_SELECTOR \<and> ss r = USER_DATA_SELECTOR \<and> gs_base r = gs_base c \<and>
    kernel_gs_base r = kernel_gs_base c"
proof -
  have tf: "trap_frame_at s a = syscall_frame c" using syscall_saved_frame [OF assms(1)] by (simp add: s a)
  have sp: "regs s RSP = a" by (simp add: s a syscall_saved_eq [OF assms(1)] Let_def set_reg_def)
  have gs: "gs_base s = kernel_gs_base c" "kernel_gs_base s = gs_base c"
    by (simp_all add: s syscall_saved_eq [OF assms(1)] Let_def set_reg_def set_mem_def syscall_stack_def swapgs_def cpu_syscall_def)
  have "r = run h ([Call] @ syscall_restore) s"
    by (simp only: r syscall_entry_def run_syscall_save [OF assms(1)] s syscall_saved_eq [OF assms(1)])
  then have "r = run h syscall_restore (h s)" by (simp only: append_Cons append_Nil run.simps instr.case exec.simps)
  moreover have "frame_regs ((syscall_frame c)\<lparr>tf_rax := result\<rparr>) = (regs c)(RAX := result, RCX := ip c, R11 := flags c)"
    by (rule ext) (auto simp: frame_regs_def syscall_frame_def interrupted_frame_def split: reg.split)
  moreover have "tf_rcx (syscall_frame c) = ip c" "tf_r11 (syscall_frame c) = flags c"
    by (simp_all add: syscall_frame_def)
  ultimately show ?thesis using tf sp gs assms(4-7) by (simp add: run_syscall_restore Let_def)
qed

definition syscall_cpu :: cpu where
  "syscall_cpu = idle_cpu\<lparr>mem := (\<lambda>a. if a = 18 then 65536 else 0)\<rparr>"

lemma syscall_returns_witness:
  "let r = run (\<lambda>c. c) (syscall_entry 8 16) (cpu_syscall IF_FLAG 8 syscall_cpu)
   in regs r = (regs syscall_cpu)(RCX := 4096, R11 := IF_FLAG) \<and> ip r = 4096 \<and> gs_base r = 1"
proof -
  have k: "regs (syscall_stack 8 16 IF_FLAG 8 syscall_cpu) RSP - 8 \<noteq> kernel_gs_base syscall_cpu + 8"
    by (simp add: syscall_stack_def syscall_cpu_def idle_cpu_def Let_def set_mem_def set_reg_def swapgs_def cpu_syscall_def)
  let ?s = "syscall_saved 8 16 IF_FLAG 8 syscall_cpu"
  have "trap_frame_at ?s (regs ?s RDI) = (trap_frame_at ?s (regs ?s RDI))\<lparr>tf_rax := 7\<rparr>"
    by (simp only: syscall_saved_frame [OF k]) (simp add: syscall_frame_def interrupted_frame_def syscall_cpu_def idle_cpu_def)
  from syscall_returns [OF k refl refl, of "\<lambda>c. c", OF refl this refl refl refl]
  show ?thesis by (auto simp: Let_def syscall_cpu_def idle_cpu_def)
qed

end
