(* ===== verification/Mach.thy ===== *)
theory Mach
  imports Prelude
begin

text \<open>
  The state of the machine that the kernel keeps (\<^verbatim>\<open>mach.rs\<close>) and the guards that turn interrupts off
  (\<^verbatim>\<open>sync.rs\<close>).  The record holds the fields of \<^verbatim>\<open>Mach\<close> that the scheduler uses, with the interrupt flag and the page table register of
  the processor, and the saved stack pointer of the task state segment.  The kernel runs on one processor: a spin lock
  that is taken twice never returns, which is an error of the model.
\<close>

section \<open>State\<close>

record proc =
  proc_ptr :: nat
  page_table :: nat

record mach =
  current_thread_id :: nat
  current_proc :: "proc option"
  irq_lock_count :: nat
  irq_need_resched :: bool
  ticks :: nat
  kernel_rsp :: nat
  cr3 :: nat
  int_flag :: bool

text \<open>The record written by \<^verbatim>\<open>mach::init\<close>; interrupts are off at boot.\<close>

definition mach_new :: "nat \<Rightarrow> mach" where
  "mach_new table =
     \<lparr>current_thread_id = 0, current_proc = None, irq_lock_count = 0, irq_need_resched = False, ticks = 0, kernel_rsp = 0,
      cr3 = table, int_flag = False\<rparr>"

definition set_kernel_rsp :: "nat \<Rightarrow> mach \<Rightarrow> mach" where
  "set_kernel_rsp a m = m\<lparr>kernel_rsp := a\<rparr>"

section \<open>Guards\<close>

definition guard_enter :: "mach \<Rightarrow> mach" where
  "guard_enter m = m\<lparr>int_flag := False, irq_lock_count := irq_lock_count m + 1\<rparr>"

text \<open>The subtraction wraps around at zero.\<close>

definition fetch_sub :: "nat \<Rightarrow> nat" where
  "fetch_sub n = (if n = 0 then 2 ^ 64 - 1 else n - 1)"

definition guard_leave :: "mach \<Rightarrow> mach" where
  "guard_leave m =
     (let m' = m\<lparr>irq_lock_count := fetch_sub (irq_lock_count m)\<rparr>
      in if irq_lock_count m = 1 then m'\<lparr>int_flag := True\<rparr> else m')"

definition drop_would_reenable :: "mach \<Rightarrow> bool" where
  "drop_would_reenable m \<longleftrightarrow> irq_lock_count m = 1"

definition drop_without_disabling :: "mach \<Rightarrow> mach" where
  "drop_without_disabling m = m\<lparr>irq_lock_count := fetch_sub (irq_lock_count m)\<rparr>"

section \<open>Processes\<close>

text \<open>Making a process the active one: its pointer is stored and its page table loaded, with interrupts off.\<close>

definition activate :: "proc \<Rightarrow> mach \<Rightarrow> mach" where
  "activate p m =
     (let m = guard_enter m;
          m = m\<lparr>current_proc := Some p\<rparr>;
          m = (if cr3 m \<noteq> page_table p then m\<lparr>cr3 := page_table p\<rparr> else m)
      in guard_leave m)"

section \<open>Lemmas\<close>

text \<open>Interrupts are on exactly if nothing holds them off.\<close>

definition irq_ok :: "mach \<Rightarrow> bool" where
  "irq_ok m \<longleftrightarrow> (int_flag m \<longleftrightarrow> irq_lock_count m = 0)"

lemma guard_enter_ok [simp]: "irq_ok (guard_enter m)"
  by (simp add: irq_ok_def guard_enter_def)

lemma guard_leave_ok [simp]: "irq_ok m \<Longrightarrow> 0 < irq_lock_count m \<Longrightarrow> irq_ok (guard_leave m)"
  by (auto simp: irq_ok_def guard_leave_def fetch_sub_def Let_def)

lemma guard_leave_enter: "irq_ok m \<Longrightarrow> guard_leave (guard_enter m) = m"
  by (cases m) (auto simp: irq_ok_def guard_leave_def guard_enter_def fetch_sub_def Let_def)

lemma guard_simps [simp]:
  "current_thread_id (guard_enter m) = current_thread_id m" "current_thread_id (guard_leave m) = current_thread_id m"
  "current_proc (guard_enter m) = current_proc m" "current_proc (guard_leave m) = current_proc m"
  "irq_need_resched (guard_enter m) = irq_need_resched m" "irq_need_resched (guard_leave m) = irq_need_resched m"
  "ticks (guard_enter m) = ticks m" "ticks (guard_leave m) = ticks m"
  "cr3 (guard_enter m) = cr3 m" "cr3 (guard_leave m) = cr3 m"
  "kernel_rsp (guard_enter m) = kernel_rsp m" "kernel_rsp (guard_leave m) = kernel_rsp m"
  "irq_lock_count (guard_enter m) = Suc (irq_lock_count m)" "irq_lock_count (guard_leave m) = fetch_sub (irq_lock_count m)"
  by (simp_all add: guard_enter_def guard_leave_def Let_def)

lemma fetch_sub_simps [simp]: "fetch_sub (Suc n) = n" "fetch_sub 1 = 0"
  by (simp_all add: fetch_sub_def)

lemma activate_eq: "irq_ok m \<Longrightarrow> activate p m = m\<lparr>current_proc := Some p, cr3 := page_table p\<rparr>"
  by (cases m) (auto simp: activate_def irq_ok_def guard_leave_def guard_enter_def fetch_sub_def Let_def)

end
