(* ===== verification/Id_Vec.thy ===== *)
theory Id_Vec
  imports Prelude "HOL-Library.Monad_Syntax"
begin

text \<open>
  The sparse vector of \<^verbatim>\<open>id_vec.rs\<close>: a vector of optional values and a queue of the indices to use again.  The
  identifiers made by \<^verbatim>\<open>define_id!\<close> wrap a \<^verbatim>\<open>usize\<close>, so the conversion to an index never fails and an identifier is
  its index.  A mutable reference is modelled by the value it points to and the function that writes a new value back.
  A panic is \<^term>\<open>None\<close>.  The locale \<open>slot_map\<close> is the contract the scheduler and the executor rely on.
\<close>

section \<open>Operations\<close>

record 'a id_vec =
  iv_list :: "'a option list"
  iv_free :: "nat list"

definition iv_new :: "'a id_vec" where
  "iv_new = \<lparr>iv_list = [], iv_free = []\<rparr>"

definition iv_get :: "'a id_vec \<Rightarrow> nat \<Rightarrow> 'a option" where
  "iv_get v i = (if i < length (iv_list v) then iv_list v ! i else None)"

definition iv_write :: "nat \<Rightarrow> 'a \<Rightarrow> 'a id_vec \<Rightarrow> 'a id_vec" where
  "iv_write i x v = v\<lparr>iv_list := (iv_list v)[i := Some x]\<rparr>"

definition iv_get_mut :: "'a id_vec \<Rightarrow> nat \<Rightarrow> ('a \<times> ('a \<Rightarrow> 'a id_vec)) option" where
  "iv_get_mut v i =
     (if i < length (iv_list v)
      then (case iv_list v ! i of Some x \<Rightarrow> Some (x, \<lambda>y. iv_write i y v) | None \<Rightarrow> None)
      else None)"

text \<open>Two references at once: the indices have to be in range and different.\<close>

definition iv_get_mut_2 :: "'a id_vec \<Rightarrow> nat \<Rightarrow> nat \<Rightarrow> ('a \<times> 'a \<times> ('a \<Rightarrow> 'a \<Rightarrow> 'a id_vec)) option" where
  "iv_get_mut_2 v id1 id2 =
     (if id1 < length (iv_list v) \<and> id2 < length (iv_list v) \<and> id1 \<noteq> id2
      then (case (iv_list v ! id1, iv_list v ! id2) of
              (Some x, Some y) \<Rightarrow> Some (x, y, \<lambda>a b. iv_write id2 b (iv_write id1 a v))
            | _ \<Rightarrow> None)
      else None)"

definition iv_insert :: "'a id_vec \<Rightarrow> 'a \<Rightarrow> (nat \<times> 'a id_vec) option" where
  "iv_insert v x =
     (case iv_free v of
        i # rest \<Rightarrow>
          if i < length (iv_list v) then Some (i, v\<lparr>iv_list := (iv_list v)[i := Some x], iv_free := rest\<rparr>) else None
      | [] \<Rightarrow> (let i = length (iv_list v) in Some (i, v\<lparr>iv_list := iv_list v @ [Some x]\<rparr>)))"

definition iv_remove :: "'a id_vec \<Rightarrow> nat \<Rightarrow> ('a \<times> 'a id_vec) option" where
  "iv_remove v i =
     (if i < length (iv_list v)
      then (let old = iv_list v ! i;
                v = v\<lparr>iv_list := (iv_list v)[i := None], iv_free := iv_free v @ [i]\<rparr>
            in map_option (\<lambda>x. (x, v)) old)
      else None)"

text \<open>The items of \<^verbatim>\<open>iter_mut\<close>, in order, with their identifiers.\<close>

definition iv_iter :: "'a id_vec \<Rightarrow> (nat \<times> 'a) list" where
  "iv_iter v = List.map_filter (\<lambda>(i, x). map_option (Pair i) x) (enumerate 0 (iv_list v))"

section \<open>The contract\<close>

locale slot_map =
  fixes inv :: "'s \<Rightarrow> bool"
    and empty :: 's
    and lookup :: "'s \<Rightarrow> nat \<Rightarrow> 'a option"
    and put :: "nat \<Rightarrow> 'a \<Rightarrow> 's \<Rightarrow> 's"
    and insert :: "'s \<Rightarrow> 'a \<Rightarrow> (nat \<times> 's) option"
    and remove :: "'s \<Rightarrow> nat \<Rightarrow> ('a \<times> 's) option"
  assumes empty: "inv empty" "lookup empty = Map.empty"
    and put: "inv s \<Longrightarrow> lookup s i \<noteq> None \<Longrightarrow> inv (put i x s) \<and> lookup (put i x s) = (lookup s)(i \<mapsto> x)"
    and insert: "inv s \<Longrightarrow> \<exists>i s'. insert s x = Some (i, s') \<and> inv s' \<and> lookup s i = None \<and> lookup s' = (lookup s)(i \<mapsto> x)"
    and remove: "inv s \<Longrightarrow> lookup s i = Some x \<Longrightarrow>
          \<exists>s'. remove s i = Some (x, s') \<and> inv s' \<and> lookup s' = (lookup s)(i := None)"
    and remove_none: "lookup s i = None \<Longrightarrow> remove s i = None"
    and finite: "finite (dom (lookup s))"
begin

lemma insertE:
  assumes "inv s"
  obtains i s' where "insert s x = Some (i, s')" "inv s'" "lookup s i = None" "lookup s' = (lookup s)(i \<mapsto> x)"
  using insert [OF assms, of x] by blast

lemma removeE:
  assumes "inv s" "lookup s i = Some x"
  obtains s' where "remove s i = Some (x, s')" "inv s'" "lookup s' = (lookup s)(i := None)"
  using remove [OF assms] by blast

lemma remove_iff: "inv s \<Longrightarrow> remove s i = None \<longleftrightarrow> lookup s i = None"
  using remove remove_none by (metis not_None_eq option.distinct(1))

lemma insert_remove:
  assumes "inv s" "insert s x = Some (i, s')"
  shows "\<exists>s''. remove s' i = Some (x, s'') \<and> inv s'' \<and> lookup s'' = lookup s"
proof -
  from assms have s': "inv s'" "lookup s i = None" "lookup s' = (lookup s)(i \<mapsto> x)"
    using insert [OF assms(1), of x] by auto
  moreover have "((lookup s)(i \<mapsto> x))(i := None) = lookup s" using s'(2) by auto
  ultimately show ?thesis using remove [of s' i x] by auto
qed

end

section \<open>The vector implements the contract\<close>

text \<open>The queue holds every empty slot, once.\<close>

definition iv_ok :: "'a id_vec \<Rightarrow> bool" where
  "iv_ok v \<longleftrightarrow> distinct (iv_free v) \<and> set (iv_free v) = {i. i < length (iv_list v) \<and> iv_list v ! i = None}"

lemma iv_ok_iff:
  "iv_ok v \<longleftrightarrow> distinct (iv_free v) \<and> (\<forall>j. j \<in> set (iv_free v) \<longleftrightarrow> j < length (iv_list v) \<and> iv_list v ! j = None)"
  by (simp add: iv_ok_def set_eq_iff)

lemma iv_get_Some: "iv_get v i = Some x \<longleftrightarrow> i < length (iv_list v) \<and> iv_list v ! i = Some x"
  by (simp add: iv_get_def)

lemma iv_get_write: "iv_get v i \<noteq> None \<Longrightarrow> iv_get (iv_write i x v) = (iv_get v)(i \<mapsto> x)"
  by (rule ext) (auto simp: iv_get_def iv_write_def nth_list_update split: if_splits)

lemma iv_ok_write: "iv_ok v \<Longrightarrow> iv_get v i \<noteq> None \<Longrightarrow> iv_ok (iv_write i x v)"
  by (auto simp: iv_ok_iff iv_write_def iv_get_def nth_list_update split: if_splits)

lemma iv_insert_spec:
  assumes "iv_ok v"
  shows "\<exists>i v'. iv_insert v x = Some (i, v') \<and> iv_ok v' \<and> iv_get v i = None \<and> iv_get v' = (iv_get v)(i \<mapsto> x)"
proof (cases "iv_free v")
  case Nil
  let ?v = "v\<lparr>iv_list := iv_list v @ [Some x]\<rparr>"
  have "iv_ok ?v" using assms Nil by (auto simp: iv_ok_iff nth_append less_Suc_eq)
  moreover have "iv_get ?v = (iv_get v)(length (iv_list v) \<mapsto> x)" by (rule ext) (auto simp: iv_get_def nth_append)
  ultimately show ?thesis using Nil by (simp add: iv_insert_def iv_get_def Let_def)
next
  case (Cons i rest)
  let ?v = "v\<lparr>iv_list := (iv_list v)[i := Some x], iv_free := rest\<rparr>"
  have i: "i < length (iv_list v)" "iv_list v ! i = None" using assms Cons by (auto simp: iv_ok_iff)
  have "j \<in> set rest \<longleftrightarrow> j \<in> set (iv_free v) \<and> j \<noteq> i" for j using assms Cons by (auto simp: iv_ok_iff)
  moreover have "distinct rest" using assms Cons by (simp add: iv_ok_def)
  ultimately have "iv_ok ?v" using assms i by (auto simp: iv_ok_iff nth_list_update)
  moreover have "iv_get ?v = (iv_get v)(i \<mapsto> x)" by (rule ext) (use i in \<open>auto simp: iv_get_def nth_list_update\<close>)
  ultimately show ?thesis using Cons i by (simp add: iv_insert_def iv_get_def)
qed

lemma iv_remove_spec:
  assumes "iv_ok v" "iv_get v i = Some x"
  shows "\<exists>v'. iv_remove v i = Some (x, v') \<and> iv_ok v' \<and> iv_get v' = (iv_get v)(i := None)"
proof -
  let ?v = "v\<lparr>iv_list := (iv_list v)[i := None], iv_free := iv_free v @ [i]\<rparr>"
  have i: "i < length (iv_list v)" "iv_list v ! i = Some x" using assms(2) by (auto simp: iv_get_Some)
  then have "iv_ok ?v" using assms(1) by (auto simp: iv_ok_iff nth_list_update)
  moreover have "iv_get ?v = (iv_get v)(i := None)" by (rule ext) (auto simp: iv_get_def nth_list_update)
  ultimately show ?thesis using i by (simp add: iv_remove_def Let_def)
qed

lemma iv_finite: "finite (dom (iv_get v))"
proof (rule finite_subset)
  show "dom (iv_get v) \<subseteq> {..<length (iv_list v)}" by (auto simp: iv_get_def split: if_splits)
qed simp

interpretation iv: slot_map iv_ok iv_new iv_get iv_write iv_insert iv_remove
proof
  show "iv_remove s i = None" if "iv_get s i = None" for s :: "'a id_vec" and i
    using that by (simp add: iv_get_def iv_remove_def split: if_splits)
qed (auto simp: iv_ok_write iv_get_write iv_insert_spec iv_remove_spec iv_finite, auto simp: iv_ok_def iv_new_def iv_get_def)

lemma iv_get_mut_eq: "iv_get_mut v i = map_option (\<lambda>x. (x, \<lambda>y. iv_write i y v)) (iv_get v i)"
  by (auto simp: iv_get_mut_def iv_get_def split: option.split)

lemma iv_get_mut_2_eq:
  "iv_get_mut_2 v i j =
     (if i = j then None
      else do { x \<leftarrow> iv_get v i; y \<leftarrow> iv_get v j; Some (x, y, \<lambda>a b. iv_write j b (iv_write i a v)) })"
  by (auto simp: iv_get_mut_2_def iv_get_def split: option.split)

lemma iv_iter_set: "set (iv_iter v) = {(i, x). iv_get v i = Some x}"
  by (auto simp: iv_iter_def iv_get_Some map_filter_def in_set_enumerate_eq image_iff) (metis option.map(2) option.sel)

lemma iv_iter_sorted: "sorted_wrt (<) (map fst (iv_iter v))"
proof -
  have *: "set (map fst (List.map_filter (\<lambda>(i, x). map_option (Pair i) x) (enumerate n xs))) \<subseteq> {n..}" for n and xs :: "'a option list"
    by (induction xs arbitrary: n) (auto simp: map_filter_def in_set_enumerate_eq)
  have "sorted_wrt (<) (map fst (List.map_filter (\<lambda>(i, x). map_option (Pair i) x) (enumerate n xs)))" for n and xs :: "'a option list"
  proof (induction xs arbitrary: n)
    case (Cons y xs)
    show ?case using Cons [of "Suc n"] * [of "Suc n" xs] by (cases y) (auto simp: map_filter_simps)
  qed (simp add: map_filter_simps)
  then show ?thesis by (simp add: iv_iter_def)
qed

section \<open>Properties\<close>

text \<open>
  C28.  A sparse vector in a good state hands out an identifier that was not in use, keeps every other entry, gives
  the value back for that identifier, and stays good.  Removing the entry returns the value and restores the
  entries; removing an identifier without an entry panics.  The items of the iteration are the entries in the order
  of their identifiers.
\<close>

theorem id_vec_correct:
  assumes "iv_ok v"
  shows "\<exists>i v' v''. iv_insert v x = Some (i, v') \<and> iv_ok v' \<and> iv_get v i = None \<and> iv_get v' = (iv_get v)(i \<mapsto> x) \<and>
      iv_remove v i = None \<and> iv_remove v' i = Some (x, v'') \<and> iv_ok v'' \<and> iv_get v'' = iv_get v \<and>
      sorted_wrt (<) (map fst (iv_iter v')) \<and> map_of (iv_iter v') = iv_get v'"
proof -
  obtain i v' where v': "iv_insert v x = Some (i, v')" "iv_ok v'" "iv_get v i = None" "iv_get v' = (iv_get v)(i \<mapsto> x)"
    using assms by (rule iv.insertE)
  have "distinct (map fst (iv_iter v'))" using iv_iter_sorted [of v'] strict_sorted_iff by blast
  then have "map_of (iv_iter v') j = Some y \<longleftrightarrow> iv_get v' j = Some y" for j y
    by (subst map_of_eq_Some_iff) (simp_all add: iv_iter_set)
  then have "map_of (iv_iter v') = iv_get v'" by (intro ext) (metis not_Some_eq)
  with v' iv.insert_remove [OF assms v'(1)] iv.remove_none [OF v'(3)] iv_iter_sorted [of v'] show ?thesis by blast
qed

lemma id_vec_correct_witness:
  "iv_ok \<lparr>iv_list = [Some 7, None, Some (9::nat)], iv_free = [1]\<rparr> \<and>
   (\<exists>i v'. iv_insert \<lparr>iv_list = [Some 7, None, Some (9::nat)], iv_free = [1]\<rparr> 8 = Some (i, v') \<and> iv_get v' i = Some 8)"
proof -
  have ok: "iv_ok \<lparr>iv_list = [Some 7, None, Some (9::nat)], iv_free = [1]\<rparr>"
    by (simp add: iv_ok_iff less_Suc_eq numeral_3_eq_3) (auto simp: nth_Cons')
  from id_vec_correct [OF ok, of 8] ok show ?thesis by auto
qed

end
