(* ===== verification/Timer.thy ===== *)
theory Timer
  imports Prelude "HOL-Library.Multiset"
begin

text \<open>
  The timer queue of \<^verbatim>\<open>sched.rs\<close>: events with the delay to the event before them.  The queue is abstracted to the list of
  deadlines relative to the present, on which an insertion is a stable insertion by deadline and an interrupt is a
  decrement.  A run of insertions and interrupts fires every event at the interrupt it was scheduled for, as long as
  no event is inserted with a delay of zero; with one, the other events are late.
\<close>

section \<open>Operations\<close>

record 'c timer_event =
  delta :: nat
  closure :: 'c

type_synonym 'c timer_queue = "'c timer_event list"

definition timer_new :: "'c timer_queue" where
  "timer_new = []"

text \<open>The loop over the events and the insertion at its position, or at the end.\<close>

fun timer_insert :: "nat \<Rightarrow> 'c \<Rightarrow> 'c timer_queue \<Rightarrow> 'c timer_queue" where
  "timer_insert n c [] = [\<lparr>delta = n, closure = c\<rparr>]"
| "timer_insert n c (t # ts) =
     (if n < delta t then \<lparr>delta = n, closure = c\<rparr> # t\<lparr>delta := delta t - n\<rparr> # ts
      else t # timer_insert (n - delta t) c ts)"

definition timer_tick :: "'c timer_queue \<Rightarrow> 'c timer_queue" where
  "timer_tick q = (case q of [] \<Rightarrow> [] | t # ts \<Rightarrow> if delta t > 0 then t\<lparr>delta := delta t - 1\<rparr> # ts else q)"

definition pop_closure :: "'c timer_queue \<Rightarrow> ('c \<times> 'c timer_queue) option" where
  "pop_closure q = (case q of [] \<Rightarrow> None | t # ts \<Rightarrow> if delta t = 0 then Some (closure t, ts) else None)"

definition PIT_FREQUENCY :: nat where "PIT_FREQUENCY = 1193182"
definition DESIRED_HZ :: nat where "DESIRED_HZ = 100"
definition DIVISOR :: nat where "DIVISOR = PIT_FREQUENCY div DESIRED_HZ mod 2 ^ 16"
definition TICK_NS :: nat where "TICK_NS = 1000000000 * DIVISOR div PIT_FREQUENCY"

definition div_ceil :: "nat \<Rightarrow> nat \<Rightarrow> nat" where
  "div_ceil a b = (if a mod b = 0 then a div b else a div b + 1)"

text \<open>
  Scheduling returns the tick the event is meant for and the new queue; \<^term>\<open>None\<close> is the panic when the tick leaves
  the 64 bits of the counter.
\<close>

definition run_later :: "nat \<Rightarrow> nat \<Rightarrow> 'c \<Rightarrow> 'c timer_queue \<Rightarrow> (nat \<times> 'c timer_queue) option" where
  "run_later now delay_ns c q =
     (let n = div_ceil delay_ns TICK_NS in
      if now + n < 2 ^ 64 then Some (now + n, timer_insert n c q) else None)"

text \<open>The loop of the interrupt that takes out the due events.\<close>

function due :: "'c timer_queue \<Rightarrow> 'c list \<times> 'c timer_queue" where
  "due q = (case pop_closure q of None \<Rightarrow> ([], q) | Some (c, q) \<Rightarrow> map_prod (Cons c) (\<lambda>q. q) (due q))"
  by pat_completeness auto
termination
  by (relation "measure length") (auto simp: pop_closure_def split: list.splits if_splits)

declare due.simps [simp del]

lemma due_simps [simp]:
  "due [] = ([], [])"
  "due (t # ts) = (if delta t = 0 then map_prod (Cons (closure t)) (\<lambda>q. q) (due ts) else ([], t # ts))"
  by (simp_all add: due.simps [of "[]"] due.simps [of "t # ts"] pop_closure_def)

lemma due_insert: "0 < n \<Longrightarrow> due (timer_insert n c q) = map_prod id (timer_insert n c) (due q)"
  by (induction n c q rule: timer_insert.induct) (auto simp: prod.map_comp comp_def)

section \<open>Deadlines\<close>

text \<open>The events with the number of interrupts until they are due.\<close>

fun deadlines :: "nat \<Rightarrow> 'c timer_queue \<Rightarrow> (nat \<times> 'c) list" where
  "deadlines b [] = []"
| "deadlines b (t # ts) = (b + delta t, closure t) # deadlines (b + delta t) ts"

lemma deadlines_ge: "(d, c) \<in> set (deadlines b q) \<Longrightarrow> b \<le> d"
  by (induction q arbitrary: b) force+

lemma deadlines_shift: "deadlines (b + n) q = map (\<lambda>(d, c). (d + n, c)) (deadlines b q)"
proof (induction q arbitrary: b)
  case (Cons t q)
  show ?case using Cons [of "b + delta t"] by (simp add: add.commute add.left_commute)
qed simp

lemma deadlines_Suc: "deadlines (Suc b) q = map (\<lambda>(d, c). (Suc d, c)) (deadlines b q)"
  using deadlines_shift [of b 1 q] by simp

lemma deadlines_sorted: "sorted (map fst (deadlines b q))"
  by (induction q arbitrary: b) (auto dest: deadlines_ge)

lemma filter_ge_deadlines: "n \<le> b \<Longrightarrow> filter (\<lambda>(d, c). d < n) (deadlines b q) = []"
  by (auto simp: filter_empty_conv dest: deadlines_ge)

lemma filter_gt_all: "n < b \<Longrightarrow> filter (\<lambda>(d, c). n < d) (deadlines b q) = deadlines b q"
  by (auto simp: filter_id_conv dest: deadlines_ge)

lemma filter_le_none: "n < b \<Longrightarrow> filter (\<lambda>(d, c). d \<le> n) (deadlines b q) = []"
  by (auto simp: filter_empty_conv dest: deadlines_ge)

text \<open>An insertion is the stable insertion by deadline.\<close>

lemma deadlines_insert:
  "deadlines b (timer_insert n c q) =
     filter (\<lambda>(d, c). d \<le> b + n) (deadlines b q) @ (b + n, c) # filter (\<lambda>(d, c). b + n < d) (deadlines b q)"
proof (induction n c q arbitrary: b rule: timer_insert.induct)
  case (2 n c t ts)
  show ?case
  proof (cases "n < delta t")
    case True
    then have "b + n < b + delta t" by simp
    with True show ?thesis using filter_le_none [of "b + n" "b + delta t" ts] filter_gt_all [of "b + n" "b + delta t" ts] by simp
  next
    case False
    then have "b + delta t + (n - delta t) = b + n" by simp
    with False 2 [OF False, of "b + delta t"] show ?thesis by simp
  qed
qed simp

text \<open>An interrupt is a decrement, if no event is already due.\<close>

lemma deadlines_tick:
  assumes "\<forall>(d, c)\<in>set (deadlines 0 q). 0 < d"
  shows "deadlines 1 (timer_tick q) = deadlines 0 q"
  using assms by (cases q) (simp_all add: timer_tick_def)

lemma due_deadlines:
  "(\<forall>d c. (d, c) \<in> set (deadlines b (snd (due q))) \<longrightarrow> b < d) \<and>
   deadlines b q = map (Pair b) (fst (due q)) @ deadlines b (snd (due q))"
  by (induction q) (auto simp: less_le_trans dest: deadlines_ge)

section \<open>Runs\<close>

text \<open>
  A run schedules events, with a delay in ticks, and takes interrupts.  It collects the fired events with the value
  of the tick counter, which wraps around at 64 bits.
\<close>

datatype 'c timer_op = Later nat 'c | Interrupt

text \<open>
  The interrupt takes out the due events.  In the code their closures run one by one between the removals, and may schedule
  further events; for a positive delay this is the same as scheduling them after the interrupt (\<open>due_insert\<close>), which is how
  a run has them.
\<close>

definition interrupt_step :: "nat \<times> 'c timer_queue \<Rightarrow> (nat \<times> 'c) list \<times> nat \<times> 'c timer_queue" where
  "interrupt_step s =
     (let now = (fst s + 1) mod 2 ^ 64; (cs, q) = due (timer_tick (snd s)) in (map (Pair now) cs, now, q))"

fun timer_run :: "'c timer_op list \<Rightarrow> nat \<times> 'c timer_queue \<Rightarrow> (nat \<times> 'c) list \<times> nat \<times> 'c timer_queue" where
  "timer_run [] s = ([], s)"
| "timer_run (Later n c # ops) s = timer_run ops (fst s, timer_insert n c (snd s))"
| "timer_run (Interrupt # ops) s =
     (let (fired, s) = interrupt_step s; (fired', s) = timer_run ops s in (fired @ fired', s))"

text \<open>The events a run schedules, with the tick each is meant for, and the number of its interrupts.\<close>

fun scheduled :: "nat \<Rightarrow> 'c timer_op list \<Rightarrow> (nat \<times> 'c) multiset" where
  "scheduled now [] = {#}"
| "scheduled now (Later n c # ops) = add_mset (now + n, c) (scheduled now ops)"
| "scheduled now (Interrupt # ops) = scheduled (Suc now) ops"

fun interrupts :: "'c timer_op list \<Rightarrow> nat" where
  "interrupts [] = 0"
| "interrupts (Later n c # ops) = interrupts ops"
| "interrupts (Interrupt # ops) = Suc (interrupts ops)"

text \<open>The pending events with absolute deadlines.\<close>

definition agenda :: "nat \<times> 'c timer_queue \<Rightarrow> (nat \<times> 'c) multiset" where
  "agenda s = mset (deadlines (fst s) (snd s))"

definition none_due :: "nat \<times> 'c timer_queue \<Rightarrow> bool" where
  "none_due s \<longleftrightarrow> (\<forall>(d, c)\<in>#agenda s. fst s < d)"

lemma agenda_insert: "agenda (now, timer_insert n c q) = add_mset (now + n, c) (agenda (now, q))"
proof -
  have "filter_mset (\<lambda>(d, c). d \<le> now + n) M + filter_mset (\<lambda>(d, c). now + n < d) M = M" for M :: "(nat \<times> 'c) multiset"
    by (induction M) auto
  then show ?thesis by (simp add: agenda_def deadlines_insert mset_filter)
qed

lemma interrupt_step_spec:
  assumes "none_due s" "fst s + 1 < 2 ^ 64" "interrupt_step s = (fired, s')"
  shows "fst s' = fst s + 1 \<and> none_due s' \<and> agenda s = mset fired + agenda s' \<and> (\<forall>(t, c)\<in>set fired. t = fst s')"
proof -
  obtain now q where s: "s = (now, q)" by (cases s)
  have now: "(now + 1) mod 2 ^ 64 = now + 1" using assms(2) s by simp
  obtain cs q' where d: "due (timer_tick q) = (cs, q')" by (cases "due (timer_tick q)")
  have r: "fired = map (Pair (now + 1)) cs" "s' = (now + 1, q')"
    using assms(3) d now by (simp_all add: s interrupt_step_def)
  have "\<forall>(d, c)\<in>set (deadlines 0 q). 0 < d"
  proof safe
    fix d c assume "(d, c) \<in> set (deadlines 0 q)"
    then have "(d + now, c) \<in> set (deadlines now q)" using deadlines_shift [of 0 now q] by force
    with assms(1) show "0 < d" by (auto simp: none_due_def agenda_def s)
  qed
  then have "deadlines (now + 1) (timer_tick q) = deadlines now q"
    using deadlines_shift [of 1 now "timer_tick q"] deadlines_shift [of 0 now q] deadlines_tick [of q] by simp
  moreover from this have "mset (deadlines now q) = mset (map (Pair (now + 1)) cs @ deadlines (now + 1) q')"
    using due_deadlines [of "now + 1" "timer_tick q"] d by (metis fst_conv snd_conv)
  ultimately show ?thesis using due_deadlines [of "now + 1" "timer_tick q"] d
    by (auto simp: r s agenda_def none_due_def)
qed

lemma timer_run_spec:
  assumes "none_due s" "fst s + interrupts ops < 2 ^ 64" "\<forall>n c. Later n c \<in> set ops \<longrightarrow> 0 < n" "timer_run ops s = (fired, s')"
  shows "fst s' = fst s + interrupts ops \<and> none_due s' \<and> agenda s + scheduled (fst s) ops = mset fired + agenda s' \<and>
    (\<forall>(t, c)\<in>set fired. fst s < t \<and> t \<le> fst s') \<and> sorted (map fst fired)"
  using assms
proof (induction ops s arbitrary: fired s' rule: timer_run.induct)
  case (2 n c ops s)
  have "none_due (fst s, timer_insert n c (snd s))"
    using 2(2,4) by (simp add: none_due_def agenda_insert)
  moreover have "\<forall>n c. Later n c \<in> set ops \<longrightarrow> 0 < n" using 2(4) by auto
  ultimately show ?case using 2(1) [of fired s'] 2(3,5) by (auto simp: agenda_insert)
next
  case (3 ops s)
  obtain f1 s1 where 1: "interrupt_step s = (f1, s1)" by (cases "interrupt_step s")
  obtain f2 s2 where 2: "timer_run ops s1 = (f2, s2)" by (cases "timer_run ops s1")
  have r: "fired = f1 @ f2" "s' = s2" using 3(5) 1 2 by auto
  have "fst s + 1 < 2 ^ 64" using 3(3) by simp
  then have i: "fst s1 = fst s + 1 \<and> none_due s1 \<and> agenda s = mset f1 + agenda s1 \<and> (\<forall>(t, c)\<in>set f1. t = fst s1)"
    using interrupt_step_spec [OF 3(2) _ 1] by blast
  then have *: "fst s2 = fst s1 + interrupts ops \<and> none_due s2 \<and> agenda s1 + scheduled (fst s1) ops = mset f2 + agenda s2 \<and>
      (\<forall>(t, c)\<in>set f2. fst s1 < t \<and> t \<le> fst s2) \<and> sorted (map fst f2)"
    using 3(1) [of "(f1, s1)" f1 s1 f2 s2] 1 2 3(3,4) by auto
  have "\<forall>(t, c)\<in>set f1. t = fst s1" using i by blast
  then have "sorted (map fst f1)" by (induction f1) auto
  then have "sorted (map fst fired)" using i * by (fastforce simp: r sorted_append)
  with i * show ?case by (fastforce simp: r algebra_simps)
qed simp

section \<open>Properties\<close>

text \<open>
  C18.  A run from the empty queue in which every delay is positive, up to the wrap-around of the tick counter, fires exactly the scheduled events whose tick the
  counter reaches, each at the tick it was scheduled for, in the order of the ticks; the others stay pending.
\<close>

theorem timer_on_time:
  assumes "timer_run ops (now, timer_new) = (fired, now', q)"
    and "\<forall>n c. Later n c \<in> set ops \<longrightarrow> 0 < n" and "now + interrupts ops < 2 ^ 64"
  shows "now' = now + interrupts ops \<and> sorted (map fst fired) \<and>
    mset fired = {#x \<in># scheduled now ops. fst x \<le> now'#} \<and>
    mset (deadlines now' q) = {#x \<in># scheduled now ops. now' < fst x#}"
proof -
  have "none_due (now, timer_new)" by (simp add: none_due_def agenda_def timer_new_def)
  then have r: "now' = now + interrupts ops" "none_due (now', q)" "scheduled now ops = mset fired + agenda (now', q)"
      "\<forall>(t, c)\<in>set fired. now < t \<and> t \<le> now'" "sorted (map fst fired)"
    using timer_run_spec [of "(now, timer_new)" ops fired "(now', q)"] assms by (auto simp: agenda_def timer_new_def)
  have "filter (\<lambda>x. fst x \<le> now') fired = fired" "filter (\<lambda>x. now' < fst x) fired = []"
    using r(4) by (auto simp: filter_id_conv filter_empty_conv)
  moreover have "filter (\<lambda>x. fst x \<le> now') (deadlines now' q) = []" "filter (\<lambda>x. now' < fst x) (deadlines now' q) = deadlines now' q"
    using r(2) by (auto simp: none_due_def agenda_def filter_id_conv filter_empty_conv)
  ultimately show ?thesis using r(1,5) by (simp add: r(3) agenda_def flip: mset_filter)
qed

lemma timer_on_time_witness:
  "timer_run [Later 2 ''a'', Interrupt, Later 1 ''b'', Interrupt] (5, timer_new) = ([(7, ''a''), (7, ''b'')], 7, []) \<and>
   mset [(7, ''a''), (7, ''b'')] = {#x \<in># scheduled 5 [Later 2 ''a'', Interrupt, Later 1 ''b'', Interrupt]. fst x \<le> 7#}"
proof -
  have run: "timer_run [Later 2 ''a'', Interrupt, Later 1 ''b'', Interrupt] (5, timer_new) = ([(7, ''a''), (7, ''b'')], 7, [])"
    by (simp add: timer_new_def interrupt_step_def timer_tick_def)
  from timer_on_time [OF run] run show ?thesis by auto
qed

text \<open>
  An event with the delay zero takes up the next interrupt: the event scheduled for tick 2 fires at tick 2
  without it, and at tick 3 with it.
\<close>

theorem timer_zero_delay:
  "fst (timer_run [Later 2 ''a'', Interrupt, Interrupt, Interrupt] (0, timer_new)) = [(2, ''a'')] \<and>
   fst (timer_run [Later 2 ''a'', Later 0 ''z'', Interrupt, Interrupt, Interrupt] (0, timer_new)) = [(1, ''z''), (3, ''a'')]"
  by (simp add: timer_new_def interrupt_step_def timer_tick_def)

end
