(* ===== verification/Tasks.thy ===== *)
theory Tasks
  imports Id_Vec Timer
begin

text \<open>
  The executor of \<^verbatim>\<open>tasks.rs\<close>.  A future is a value of a type parameter, since polling runs code of the task; what the
  executor sees of a poll is its result and the wake-ups it causes.  Each operation returns whether it wakes a thread
  waiting for work (\<^verbatim>\<open>EXECUTOR_WAIT.wake_one\<close>); \<^term>\<open>None\<close> is a panic.  The executor thread takes a ready task, releases
  the lock while it polls, and puts the task back, so that between the two halves other operations interleave: this is
  the step relation \<open>exec_step\<close>, whose reachable states satisfy \<open>exec_ok\<close>.
\<close>

section \<open>Operations\<close>

datatype 'f task_state = Executing | ExecutingAndAwoken | TaskReady 'f | Paused 'f

record 'f executor =
  tasks :: "'f task_state id_vec"
  exec_ready :: "nat list"

definition exec_new :: "'f executor" where
  "exec_new = \<lparr>tasks = iv_new, exec_ready = []\<rparr>"

definition exec_spawn :: "'f \<Rightarrow> 'f executor \<Rightarrow> ('f executor \<times> bool) option" where
  "exec_spawn f ex = do {
     (i, ts) \<leftarrow> iv_insert (tasks ex) (TaskReady f);
     Some (ex\<lparr>tasks := ts, exec_ready := exec_ready ex @ [i]\<rparr>, True) }"

definition exec_wake :: "nat \<Rightarrow> 'f executor \<Rightarrow> 'f executor \<times> bool" where
  "exec_wake i ex =
     (case iv_get_mut (tasks ex) i of
        None \<Rightarrow> (ex, False)
      | Some (state, put) \<Rightarrow>
          (case state of
             Executing \<Rightarrow> (ex\<lparr>tasks := put ExecutingAndAwoken\<rparr>, False)
           | ExecutingAndAwoken \<Rightarrow> (ex\<lparr>tasks := put ExecutingAndAwoken\<rparr>, False)
           | Paused f \<Rightarrow> (ex\<lparr>tasks := put (TaskReady f), exec_ready := exec_ready ex @ [i]\<rparr>, True)
           | TaskReady f \<Rightarrow> (ex\<lparr>tasks := put (TaskReady f)\<rparr>, False)))"

text \<open>The two halves of a round of \<^verbatim>\<open>executor_thread\<close>, before and after the poll.\<close>

definition exec_take :: "'f executor \<Rightarrow> (nat \<times> 'f \<times> 'f executor) option" where
  "exec_take ex =
     (case exec_ready ex of
        [] \<Rightarrow> None
      | i # rest \<Rightarrow>
          do { (state, put) \<leftarrow> iv_get_mut (tasks ex) i;
               (case state of
                  TaskReady f \<Rightarrow> Some (i, f, ex\<lparr>tasks := put Executing, exec_ready := rest\<rparr>)
                | _ \<Rightarrow> None) })"

datatype 'f poll = PollReady | PollPending 'f

definition exec_finish :: "nat \<Rightarrow> 'f poll \<Rightarrow> 'f executor \<Rightarrow> 'f executor option" where
  "exec_finish i result ex =
     (case result of
        PollReady \<Rightarrow> map_option (\<lambda>(_, ts). ex\<lparr>tasks := ts\<rparr>) (iv_remove (tasks ex) i)
      | PollPending f \<Rightarrow> do {
          (state, put) \<leftarrow> iv_get_mut (tasks ex) i;
          (case state of
             Executing \<Rightarrow> Some (ex\<lparr>tasks := put (Paused f)\<rparr>)
           | ExecutingAndAwoken \<Rightarrow> Some (ex\<lparr>tasks := put (TaskReady f), exec_ready := exec_ready ex @ [i]\<rparr>)
           | _ \<Rightarrow> None) })"

section \<open>The futures of the module\<close>

datatype yield_future = NotYielded | Yielded

text \<open>The result of the poll with the new state of the future, and whether it wakes its own task.\<close>

definition yield_poll :: "yield_future \<Rightarrow> yield_future poll \<times> bool" where
  "yield_poll s = (case s of NotYielded \<Rightarrow> (PollPending Yielded, True) | Yielded \<Rightarrow> (PollReady, False))"

datatype sleep_future = NotYet nat | Yet nat

definition sleep_poll :: "nat \<Rightarrow> 'c \<Rightarrow> 'c timer_queue \<Rightarrow> sleep_future \<Rightarrow> (sleep_future poll \<times> 'c timer_queue) option" where
  "sleep_poll now wake q s =
     (case s of
        NotYet delay_ns \<Rightarrow> do { (target, q) \<leftarrow> run_later now delay_ns wake q; Some (PollPending (Yet target), q) }
      | Yet target \<Rightarrow> Some (if now \<ge> target then PollReady else PollPending (Yet target), q))"

section \<open>The interleaved system\<close>

text \<open>The executor and the task its thread is polling.\<close>

type_synonym 'f exec_state = "'f executor \<times> nat option"

inductive exec_step :: "'f exec_state \<Rightarrow> 'f exec_state \<Rightarrow> bool" where
  spawn: "exec_spawn f ex = Some (ex', n) \<Longrightarrow> exec_step (ex, p) (ex', p)"
| wake: "exec_wake i ex = (ex', n) \<Longrightarrow> exec_step (ex, p) (ex', p)"
| take: "exec_take ex = Some (i, f, ex') \<Longrightarrow> exec_step (ex, None) (ex', Some i)"
| finish: "exec_finish i result ex = Some ex' \<Longrightarrow> exec_step (ex, Some i) (ex', None)"

inductive_cases exec_stepE: "exec_step s s'"

abbreviation exec_reachable :: "'f exec_state \<Rightarrow> bool" where
  "exec_reachable \<equiv> exec_step\<^sup>*\<^sup>* (exec_new, None)"

fun polled :: "'f task_state option \<Rightarrow> bool" where
  "polled (Some Executing) = True"
| "polled (Some ExecutingAndAwoken) = True"
| "polled _ = False"

fun is_ready :: "'f task_state option \<Rightarrow> bool" where
  "is_ready (Some (TaskReady f)) = True"
| "is_ready _ = False"

lemma polled_not_ready: "polled t \<Longrightarrow> \<not> is_ready t"
  by (cases t rule: polled.cases) simp_all

lemma is_readyE: "is_ready t \<Longrightarrow> (\<And>f. t = Some (TaskReady f) \<Longrightarrow> P) \<Longrightarrow> P"
  by (cases t rule: is_ready.cases) simp_all

lemma polledE: "polled t \<Longrightarrow> (t = Some Executing \<Longrightarrow> P) \<Longrightarrow> (t = Some ExecutingAndAwoken \<Longrightarrow> P) \<Longrightarrow> P"
  by (cases t rule: polled.cases) simp_all

text \<open>The queue holds the ready tasks, once each, and the task being polled is the only one marked as executing.\<close>

definition exec_ok :: "'f exec_state \<Rightarrow> bool" where
  "exec_ok s \<longleftrightarrow> iv_ok (tasks (fst s)) \<and> distinct (exec_ready (fst s)) \<and>
     (\<forall>i. i \<in> set (exec_ready (fst s)) \<longleftrightarrow> is_ready (iv_get (tasks (fst s)) i)) \<and>
     (\<forall>i. polled (iv_get (tasks (fst s)) i) \<longleftrightarrow> snd s = Some i)"

lemma exec_ok_simps:
  assumes "exec_ok (ex, p)"
  shows "iv_ok (tasks ex)" "distinct (exec_ready ex)" "i \<in> set (exec_ready ex) \<longleftrightarrow> is_ready (iv_get (tasks ex) i)"
    "polled (iv_get (tasks ex) i) \<longleftrightarrow> p = Some i"
  using assms by (simp_all add: exec_ok_def)

lemma exec_put:
  assumes "exec_ok (ex, p)" "iv_get (tasks ex) i = Some t"
  shows "iv_ok (iv_write i x (tasks ex))" "iv_get (iv_write i x (tasks ex)) = (iv_get (tasks ex))(i \<mapsto> x)"
  using iv.put [of "tasks ex" i x] assms by (simp_all add: exec_ok_def)

lemma exec_new_ok: "exec_ok (exec_new, None)"
  by (simp add: exec_ok_def exec_new_def iv.empty)

lemma exec_spawn_ok:
  assumes "exec_ok (ex, p)"
  shows "\<exists>ex' i. exec_spawn f ex = Some (ex', True) \<and> exec_ok (ex', p) \<and> iv_get (tasks ex) i = None \<and>
    iv_get (tasks ex') = (iv_get (tasks ex))(i \<mapsto> TaskReady f) \<and> exec_ready ex' = exec_ready ex @ [i]"
proof -
  have "iv_ok (tasks ex)" using assms by (simp add: exec_ok_def)
  then obtain i ts where i: "iv_insert (tasks ex) (TaskReady f) = Some (i, ts)" "iv_ok ts" "iv_get (tasks ex) i = None"
      "iv_get ts = (iv_get (tasks ex))(i \<mapsto> TaskReady f)"
    by (rule iv.insertE)
  have "i \<notin> set (exec_ready ex)" "p \<noteq> Some i" using exec_ok_simps(3,4) [OF assms, of i] i(3) by auto
  with assms i show ?thesis by (auto simp: exec_spawn_def exec_ok_def)
qed

lemma exec_wake_ok:
  assumes "exec_ok (ex, p)"
  shows "exec_ok (fst (exec_wake i ex), p)"
proof (cases "iv_get (tasks ex) i")
  case (Some state)
  note put = exec_put [OF assms Some] and inv = exec_ok_simps [OF assms]
  show ?thesis using put inv(1,2) inv(3,4) [of i] inv(3,4) Some
    by (cases state) (auto simp: exec_wake_def exec_ok_def iv_get_mut_eq)
qed (use assms in \<open>simp add: exec_wake_def iv_get_mut_eq\<close>)

lemma exec_take_ok:
  assumes "exec_ok (ex, None)" "exec_ready ex = i # rest"
  shows "\<exists>f ex'. exec_take ex = Some (i, f, ex') \<and> exec_ok (ex', Some i) \<and> exec_ready ex' = rest \<and>
    iv_get (tasks ex) i = Some (TaskReady f) \<and> iv_get (tasks ex') = (iv_get (tasks ex))(i \<mapsto> Executing)"
proof -
  have "is_ready (iv_get (tasks ex) i)" using exec_ok_simps(3) [OF assms(1), of i] assms(2) by simp
  then obtain f where f: "iv_get (tasks ex) i = Some (TaskReady f)" by (rule is_readyE)
  note put = exec_put [OF assms(1) f]
  have d: "distinct (i # rest)" "\<And>j. j = i \<or> j \<in> set rest \<longleftrightarrow> is_ready (iv_get (tasks ex) j)" "\<And>j. \<not> polled (iv_get (tasks ex) j)"
    using assms by (auto simp: exec_ok_def)
  have "exec_ok (ex\<lparr>tasks := iv_write i Executing (tasks ex), exec_ready := rest\<rparr>, Some i)"
    using d put by (auto simp: exec_ok_def)
  with assms(2) f put show ?thesis by (simp add: exec_take_def iv_get_mut_eq)
qed

lemma exec_finish_ok:
  assumes "exec_ok (ex, Some i)"
  shows "\<exists>ex'. exec_finish i result ex = Some ex' \<and> exec_ok (ex', None) \<and>
    (case result of
       PollReady \<Rightarrow> iv_get (tasks ex') = (iv_get (tasks ex))(i := None) \<and> exec_ready ex' = exec_ready ex
     | PollPending f \<Rightarrow>
         if iv_get (tasks ex) i = Some ExecutingAndAwoken
         then iv_get (tasks ex') = (iv_get (tasks ex))(i \<mapsto> TaskReady f) \<and> exec_ready ex' = exec_ready ex @ [i]
         else iv_get (tasks ex') = (iv_get (tasks ex))(i \<mapsto> Paused f) \<and> exec_ready ex' = exec_ready ex)"
proof -
  have ok: "iv_ok (tasks ex)" and p: "polled (iv_get (tasks ex) i)" and nr: "i \<notin> set (exec_ready ex)"
    and d: "distinct (exec_ready ex)" "\<And>j. j \<in> set (exec_ready ex) \<longleftrightarrow> is_ready (iv_get (tasks ex) j)"
      "\<And>j. polled (iv_get (tasks ex) j) \<longleftrightarrow> j = i"
    using exec_ok_simps [OF assms] polled_not_ready by auto
  obtain state where st: "iv_get (tasks ex) i = Some state" "state = Executing \<or> state = ExecutingAndAwoken"
    using p by (auto elim: polledE)
  note put = exec_put [OF assms st(1)]
  show ?thesis
  proof (cases result)
    case PollReady
    obtain ts where "iv_remove (tasks ex) i = Some (state, ts)" "iv_ok ts" "iv_get ts = (iv_get (tasks ex))(i := None)"
      using ok st(1) by (rule iv.removeE)
    with PollReady d nr show ?thesis by (auto simp: exec_finish_def exec_ok_def)
  next
    case (PollPending f)
    with put st d nr show ?thesis
      by (auto simp: exec_finish_def iv_get_mut_eq exec_ok_def)
  qed
qed

lemma exec_step_ok: "exec_step s s' \<Longrightarrow> exec_ok s \<Longrightarrow> exec_ok s'"
proof (induction rule: exec_step.induct)
  case (spawn f ex ex' n p)
  then show ?case using exec_spawn_ok [of ex p f] by auto
next
  case (wake i ex ex' n p)
  then show ?case using exec_wake_ok [of ex p i] by simp
next
  case (take ex i f ex')
  then obtain rest where "exec_ready ex = i # rest"
    by (auto simp: exec_take_def split: list.splits task_state.splits Option.bind_splits)
  with take show ?case using exec_take_ok [of ex i rest] by auto
next
  case (finish i result ex ex')
  then show ?case using exec_finish_ok [of ex i result] by auto
qed

lemma exec_reachable_ok: "exec_reachable s \<Longrightarrow> exec_ok s"
  by (induction rule: rtranclp_induct) (auto intro: exec_new_ok exec_step_ok)

section \<open>Properties\<close>

text \<open>
  C21.  However spawns, wake-ups and polls interleave, the executor never panics: spawning succeeds, a task taken
  from the queue is ready, and the task that was polled can be put back or removed.
\<close>

theorem executor_never_panics:
  assumes "exec_reachable (ex, p)"
  shows "(\<exists>ex'. exec_spawn f ex = Some (ex', True)) \<and>
    (p = None \<and> exec_ready ex \<noteq> [] \<longrightarrow> (\<exists>i g ex'. exec_take ex = Some (i, g, ex'))) \<and>
    (\<forall>i. p = Some i \<longrightarrow> (\<exists>ex'. exec_finish i result ex = Some ex'))"
proof -
  have ok: "exec_ok (ex, p)" using assms by (rule exec_reachable_ok)
  show ?thesis
    using exec_spawn_ok [OF ok, of f] exec_take_ok [of ex] exec_finish_ok [of ex] ok
    by (metis neq_Nil_conv)
qed

text \<open>A task that has been woken: it is queued, or it is being polled and marked for another round.\<close>

definition awake :: "nat \<Rightarrow> 'f executor \<Rightarrow> bool" where
  "awake i ex \<longleftrightarrow> i \<in> set (exec_ready ex) \<or> iv_get (tasks ex) i = Some ExecutingAndAwoken"

lemma exec_wake_keeps:
  assumes "exec_ok (ex, p)" "awake i ex"
  shows "awake i (fst (exec_wake j ex))"
proof (cases "iv_get (tasks ex) j")
  case (Some state)
  then show ?thesis using assms(2) exec_put(2) [OF assms(1) Some] exec_ok_simps(3) [OF assms(1), of i]
    by (cases state) (auto simp: exec_wake_def awake_def iv_get_mut_eq)
qed (use assms in \<open>simp add: exec_wake_def iv_get_mut_eq\<close>)

lemma exec_wake_awake:
  assumes "exec_ok (ex, p)" "iv_get (tasks ex) i \<noteq> None"
  shows "awake i (fst (exec_wake i ex))"
proof -
  obtain state where st: "iv_get (tasks ex) i = Some state" using assms(2) by blast
  then show ?thesis using exec_put(2) [OF assms(1) st] exec_ok_simps(3) [OF assms(1), of i]
    by (cases state) (auto simp: exec_wake_def awake_def iv_get_mut_eq)
qed

text \<open>
  C17.  No wake-up is lost.  Waking an existing task makes it awake.  An awake task stays awake in every step, spawns and wake-ups during its own
  poll included, except for two: the step that takes it from the queue for a new poll, and the end of its poll with
  the task finished.  If its poll ends with the task pending, it is in the queue.
\<close>

theorem executor_keeps_wakeups:
  assumes "exec_reachable (ex, p)" "exec_step (ex, p) (ex', p')"
  shows "(iv_get (tasks ex) i \<noteq> None \<longrightarrow> awake i (fst (exec_wake i ex))) \<and>
    (awake i ex \<longrightarrow> awake i ex' \<or> p = None \<and> (\<exists>f. exec_take ex = Some (i, f, ex')) \<or> p = Some i \<and> exec_finish i PollReady ex = Some ex') \<and>
    (awake i ex \<and> p = Some i \<longrightarrow> (\<exists>ex''. exec_finish i (PollPending g) ex = Some ex'' \<and> i \<in> set (exec_ready ex'')))"
proof -
  have ok: "exec_ok (ex, p)" using assms(1) by (rule exec_reachable_ok)
  have "awake i ex' \<or> p = None \<and> (\<exists>f. exec_take ex = Some (i, f, ex')) \<or> p = Some i \<and> exec_finish i PollReady ex = Some ex'" if a: "awake i ex"
    using assms(2)
  proof (cases rule: exec_step.cases)
    case (spawn f n)
    then show ?thesis using exec_spawn_ok [OF ok, of f] a by (auto simp: awake_def)
  next
    case (wake j n)
    then show ?thesis using exec_wake_keeps [OF ok a, of j] by simp
  next
    case (take j f)
    then obtain rest where r: "exec_ready ex = j # rest"
      by (auto simp: exec_take_def split: list.splits task_state.splits Option.bind_splits)
    have "\<not> polled (iv_get (tasks ex) i)" using ok take by (simp add: exec_ok_def)
    then have "i = j \<or> i \<in> set rest" using a r by (auto simp: awake_def)
    then show ?thesis using exec_take_ok [of ex j rest] ok r take by (auto simp: awake_def)
  next
    case (finish j result)
    have "i \<in> set (exec_ready ex) \<Longrightarrow> i \<noteq> j" using exec_ok_simps(3,4) [OF ok, of j] finish polled_not_ready by auto
    then show ?thesis using exec_finish_ok [of ex j result] ok finish a
      by (cases result) (auto simp: awake_def split: if_splits)
  qed
  moreover have "\<exists>ex''. exec_finish i (PollPending g) ex = Some ex'' \<and> i \<in> set (exec_ready ex'')" if a: "awake i ex" "p = Some i"
  proof -
    have "i \<notin> set (exec_ready ex)" using exec_ok_simps(3,4) [OF ok, of i] a(2) polled_not_ready by auto
    with a exec_finish_ok [of ex i "PollPending g"] ok show ?thesis by (auto simp: awake_def)
  qed
  ultimately show ?thesis using exec_wake_awake [OF ok] by blast
qed

definition two_tasks :: "nat executor" where
  "two_tasks = \<lparr>tasks = \<lparr>iv_list = [Some Executing, Some (TaskReady 8)], iv_free = []\<rparr>, exec_ready = [1]\<rparr>"

lemma two_tasks_reachable: "exec_reachable (two_tasks, Some 0)"
proof -
  let ?e1 = "\<lparr>tasks = \<lparr>iv_list = [Some (TaskReady 7)], iv_free = []\<rparr>, exec_ready = [0]\<rparr>"
  let ?e2 = "\<lparr>tasks = \<lparr>iv_list = [Some (TaskReady 7), Some (TaskReady 8)], iv_free = []\<rparr>, exec_ready = [0, 1]\<rparr>"
  have "exec_step (exec_new, None) (?e1, None)"
    by (rule exec_step.spawn [of 7]) (simp add: exec_spawn_def exec_new_def iv_insert_def iv_new_def)
  moreover have "exec_step (?e1, None) (?e2, None)"
    by (rule exec_step.spawn [of 8]) (simp add: exec_spawn_def iv_insert_def)
  moreover have "exec_step (?e2, None) (two_tasks, Some 0)"
    by (rule exec_step.take [of _ _ 7]) (simp add: exec_take_def iv_get_mut_def iv_write_def two_tasks_def)
  ultimately show ?thesis by (meson rtranclp.rtrancl_refl rtranclp.rtrancl_into_rtrancl)
qed

lemma executor_never_panics_witness:
  "exec_reachable (two_tasks, Some 0) \<and> (\<exists>ex'. exec_finish 0 (PollPending 7) two_tasks = Some ex')"
  using executor_never_panics [OF two_tasks_reachable, of 0 "PollPending 7"] two_tasks_reachable by simp

lemma executor_keeps_wakeups_witness:
  "exec_reachable (two_tasks, Some 0) \<and> awake 0 (fst (exec_wake 0 two_tasks))"
proof -
  have "exec_step (two_tasks, Some 0) (fst (exec_wake 0 two_tasks), Some 0)" by (rule exec_step.wake [of 0 _ _ "snd (exec_wake 0 two_tasks)"]) simp
  from executor_keeps_wakeups [OF two_tasks_reachable this, of 0 7] two_tasks_reachable show ?thesis
    by (simp add: two_tasks_def iv_get_def)
qed

end
