(* ===== verification/Sched.thy ===== *)
theory Sched
  imports Mach Tasks Entry
begin

text \<open>
  The scheduler (\<^verbatim>\<open>sched.rs\<close>) with the interrupt dispatcher and the system calls (\<^verbatim>\<open>interrupts.rs\<close>) on one state: the machine, the
  threads, the queue of ready threads, the timer queue, the wait queues and the executor.  A call that changes the
  running thread is executed up to the point where the new thread runs outside the scheduler.  The rest of a suspended
  call of \<^verbatim>\<open>sched\<close>, which lives on the stack of its thread, is the field \<open>th_kont\<close>: a new thread enters through \<^verbatim>\<open>thread_entry\<close>, another
  one returns from \<^verbatim>\<open>sched\<close> to its caller or to the interrupt handler.  The registers with which a thread calls \<^verbatim>\<open>switch\<close> are
  an argument; what the switch does with them is shown in the theory on the entry code.  Locks other than the one of
  the scheduler are taken and released inside one operation with interrupts off and are not represented.
\<close>

section \<open>Data\<close>

definition IDLE_THREAD_ID :: nat where "IDLE_THREAD_ID = 0"

definition MIN_STACK :: nat where "MIN_STACK = 8192"

definition KERNEL_STACK_SIZE :: nat where "KERNEL_STACK_SIZE = 256 * 4096"

datatype thread_state = Running | Ready | Exiting | Waiting | Sleeping

datatype sched_reason = YieldingR | ExitingR | WaitingR | SleepingR

datatype deferred_action = NoAction | Cleanup nat

datatype kont = ThreadEntry | Return sched_reason | IrqReturn bool

record sched_thread =
  th_stack :: nat
  th_regs :: switch_frame
  th_proc :: "proc option"
  th_state :: thread_state
  th_kont :: kont

text \<open>The closures of the kernel: a sleeping thread is woken, the waker of a task is run.\<close>

datatype timer_closure = WakeThread nat | WakeTask nat

record 'f kernel =
  mach :: mach
  threads :: "sched_thread id_vec"
  ready :: "nat list"
  sched_locked :: bool
  timers :: "timer_closure timer_queue"
  waiters :: "nat \<Rightarrow> nat list"
  executor :: "'f executor"

text \<open>A failed assertion, a panic on a missing value, a lock that is never released, code marked as unreachable.\<close>

datatype sched_error = AssertFailed | UnwrapFailed | Deadlock | Unreachable | OutOfStack | Unhandled

abbreviation current :: "'f kernel \<Rightarrow> nat" where
  "current s \<equiv> current_thread_id (mach s)"

abbreviation thread :: "'f kernel \<Rightarrow> nat \<Rightarrow> sched_thread option" where
  "thread s \<equiv> iv_get (threads s)"

definition bind_sum :: "'e + 'a \<Rightarrow> ('a \<Rightarrow> 'e + 'b) \<Rightarrow> 'e + 'b" where
  "bind_sum r f = (case r of Inl e \<Rightarrow> Inl e | Inr x \<Rightarrow> f x)"

section \<open>The lock\<close>

definition sched_lock :: "'f kernel \<Rightarrow> sched_error + 'f kernel" where
  "sched_lock s =
     (let s = s\<lparr>mach := guard_enter (mach s)\<rparr>
      in if sched_locked s then Inl Deadlock else Inr (s\<lparr>sched_locked := True\<rparr>))"

definition lock_with_interrupt_guard :: "'f kernel \<Rightarrow> sched_error + 'f kernel" where
  "lock_with_interrupt_guard s = (if sched_locked s then Inl Deadlock else Inr (s\<lparr>sched_locked := True\<rparr>))"

definition sched_unlock :: "'f kernel \<Rightarrow> 'f kernel" where
  "sched_unlock s = s\<lparr>sched_locked := False, mach := guard_leave (mach s)\<rparr>"

section \<open>Operations under the lock\<close>

definition align_down :: "nat \<Rightarrow> nat \<Rightarrow> nat" where
  "align_down a n = a div n * n"

definition switch_frame_default :: switch_frame where
  "switch_frame_default =
     \<lparr>sf_rbx = 0, sf_rbp = 0, sf_r12 = 0, sf_r13 = 0, sf_r14 = 0, sf_r15 = 0, sf_rip = 0, sf_rsp = 0\<rparr>"

text \<open>\<open>stack\<close> is the top of the stack that was allocated, or nothing; \<open>stub\<close> and \<open>fn\<close> are the addresses of the entry stub and the body.\<close>

definition spawn_inner :: "64 word \<Rightarrow> nat option \<Rightarrow> 64 word \<Rightarrow> nat \<Rightarrow> nat \<Rightarrow> 'f kernel \<Rightarrow> sched_error + 'f kernel" where
  "spawn_inner stub stack fn size0 align s =
     (case stack of
        None \<Rightarrow> Inl UnwrapFailed
      | Some st_top \<Rightarrow>
          (let rsp = align_down (align_down (st_top - size0) align) 16 in
           if \<not> rsp \<ge> st_top - KERNEL_STACK_SIZE + MIN_STACK then Inl AssertFailed
           else
             (let regs = switch_frame_default\<lparr>sf_rip := stub, sf_rbx := fn, sf_rsp := of_nat rsp\<rparr>;
                  t = \<lparr>th_stack = st_top, th_regs = regs, th_proc = None, th_state = Ready, th_kont = ThreadEntry\<rparr>
              in case iv_insert (threads s) t of
                   None \<Rightarrow> Inl UnwrapFailed
                 | Some (i, ts) \<Rightarrow> Inr (s\<lparr>threads := ts, ready := ready s @ [i]\<rparr>))))"

definition clean_up :: "nat \<Rightarrow> 'f kernel \<Rightarrow> sched_error + 'f kernel" where
  "clean_up i s =
     (case iv_get_mut (threads s) i of
        None \<Rightarrow> Inl UnwrapFailed
      | Some (t, put) \<Rightarrow>
          if th_state t \<noteq> Exiting then Inl AssertFailed
          else (case iv_remove (threads s) i of None \<Rightarrow> Inl UnwrapFailed | Some (_, ts) \<Rightarrow> Inr (s\<lparr>threads := ts\<rparr>)))"

definition wake :: "nat \<Rightarrow> 'f kernel \<Rightarrow> sched_error + 'f kernel" where
  "wake i s =
     (case iv_get_mut (threads s) i of
        None \<Rightarrow> Inl UnwrapFailed
      | Some (t, put) \<Rightarrow>
          if \<not> (th_state t = Waiting \<or> th_state t = Sleeping) then Inl AssertFailed
          else Inr (s\<lparr>threads := put (t\<lparr>th_state := Ready\<rparr>), ready := ready s @ [i]\<rparr>))"

section \<open>Switching\<close>

definition reason_of :: "kont \<Rightarrow> sched_reason" where
  "reason_of k = (case k of Return r \<Rightarrow> r | _ \<Rightarrow> YieldingR)"

text \<open>The thread to run next and the rest of the queue.\<close>

definition next_thread :: "sched_reason \<Rightarrow> 'f kernel \<Rightarrow> nat \<times> nat list" where
  "next_thread reason s =
     (if reason = ExitingR then (IDLE_THREAD_ID, ready s)
      else case ready s of [] \<Rightarrow> (IDLE_THREAD_ID, []) | i # rest \<Rightarrow> (i, rest))"

text \<open>The new state of the thread that is left, the queue, and what the idle thread has to do.\<close>

definition leave_thread :: "sched_reason \<Rightarrow> nat \<Rightarrow> nat list \<Rightarrow> sched_error + thread_state \<times> nat list \<times> deferred_action" where
  "leave_thread reason cur q =
     (case reason of
        YieldingR \<Rightarrow> Inr (Ready, if cur \<noteq> IDLE_THREAD_ID then q @ [cur] else q, NoAction)
      | ExitingR \<Rightarrow> if cur = IDLE_THREAD_ID then Inl AssertFailed else Inr (Exiting, q, Cleanup cur)
      | WaitingR \<Rightarrow> Inr (Waiting, q, NoAction)
      | SleepingR \<Rightarrow> Inr (Sleeping, q, NoAction))"

text \<open>
  One round of the loop of \<^verbatim>\<open>sched\<close> up to the switch.  \<open>fr\<close> gives the registers with which a thread calls \<^verbatim>\<open>switch\<close>, \<open>k\<close> the
  rest of the present call.  \<^term>\<open>None\<close> is the return without a switch; otherwise the result has the rest of the call
  that the switch goes on with.
\<close>

definition sched_switch :: "(nat \<Rightarrow> switch_frame) \<Rightarrow> kont \<Rightarrow> sched_reason \<Rightarrow> 'f kernel \<Rightarrow>
    sched_error + (deferred_action \<times> kont \<times> 'f kernel) option" where
  "sched_switch fr k reason s =
     (let cur = current s in
      if irq_lock_count (mach s) \<noteq> 1 then Inl AssertFailed
      else if reason = YieldingR \<and> ready s = [] then Inr None
      else
        (let (nxt, q) = next_thread reason s in
         if cur = nxt then Inl AssertFailed
         else case iv_get_mut_2 (threads s) cur nxt of
           None \<Rightarrow> Inl UnwrapFailed
         | Some (ct, nt, put) \<Rightarrow>
             if th_state ct \<noteq> Running then Inl AssertFailed
             else bind_sum (leave_thread reason cur q) (\<lambda>(st, q, action).
               let ct = ct\<lparr>th_state := st, th_proc := current_proc (mach s), th_regs := fr cur, th_kont := k\<rparr>;
                   m = (mach s)\<lparr>current_thread_id := nxt\<rparr>;
                   m = (case th_proc nt of Some p \<Rightarrow> activate p m | None \<Rightarrow> m);
                   m = set_kernel_rsp (th_stack nt) m
               in Inr (Some (action, th_kont nt, s\<lparr>threads := put ct (nt\<lparr>th_state := Running\<rparr>), ready := q, mach := m\<rparr>)))))"

lemma current_activate [simp]: "current_thread_id (activate p m) = current_thread_id m"
  by (simp add: activate_def Let_def)

lemma clean_up_current: "clean_up i s = Inr s' \<Longrightarrow> mach s' = mach s"
  by (auto simp: clean_up_def split: option.splits if_splits)

lemma sched_switch_cleanup:
  assumes "sched_switch fr k reason s = Inr (Some (Cleanup i, k', s'))"
  shows "current s \<noteq> IDLE_THREAD_ID \<and> current s' = IDLE_THREAD_ID"
proof -
  obtain nxt q where n: "next_thread reason s = (nxt, q)" by (cases "next_thread reason s")
  obtain ct nt put where g: "iv_get_mut_2 (threads s) (current s) nxt = Some (ct, nt, put)"
    using assms n by (auto simp: sched_switch_def Let_def split: if_splits option.splits)
  obtain st q' where l: "leave_thread reason (current s) q = Inr (st, q', Cleanup i)" and m: "current s' = nxt"
    using assms n g
    by (auto simp: sched_switch_def Let_def bind_sum_def set_kernel_rsp_def split: if_splits sum.splits prod.splits option.splits)
  then have "reason = ExitingR" "current s \<noteq> IDLE_THREAD_ID" by (auto simp: leave_thread_def split: sched_reason.splits if_splits)
  with n m show ?thesis by (simp add: next_thread_def)
qed

text \<open>The loop: after the switch, an existing thread does the deferred action and goes round again, with its own reason.\<close>

function sched :: "(nat \<Rightarrow> switch_frame) \<Rightarrow> kont \<Rightarrow> sched_reason \<Rightarrow> 'f kernel \<Rightarrow> sched_error + kont \<times> 'f kernel" where
  "sched fr k reason s =
     (case sched_switch fr k reason s of
        Inl e \<Rightarrow> Inl e
      | Inr None \<Rightarrow> Inr (k, s)
      | Inr (Some (action, k', s')) \<Rightarrow>
          if k' = ThreadEntry then Inr (k', s')
          else (case action of
                  NoAction \<Rightarrow> Inr (k', s')
                | Cleanup i \<Rightarrow>
                    if current s' \<noteq> IDLE_THREAD_ID then Inl AssertFailed
                    else (case clean_up i s' of Inl e \<Rightarrow> Inl e | Inr s'' \<Rightarrow> sched fr k' (reason_of k') s'')))"
  by pat_completeness auto
termination
proof (relation "measure (\<lambda>(fr, k, reason, s). if current s = IDLE_THREAD_ID then 0 else 1)", goal_cases)
  case 1
  show ?case by simp
next
  case 2
  then show ?case using sched_switch_cleanup clean_up_current by fastforce
qed

declare sched.simps [simp del]

text \<open>
  Where the call continues: \<^verbatim>\<open>thread_entry\<close> and the callers of \<^verbatim>\<open>sched\<close> give the lock back; the interrupt handler keeps interrupts
  off and the return from the interrupt restores the flag, which the assertion compares with the counter.
\<close>

definition resume :: "kont \<times> 'f kernel \<Rightarrow> sched_error + 'f kernel" where
  "resume r =
     (case r of (k, s) \<Rightarrow>
        (case k of
           ThreadEntry \<Rightarrow> Inr (sched_unlock s)
         | Return reason \<Rightarrow> if reason = ExitingR then Inl Unreachable else Inr (sched_unlock s)
         | IrqReturn f \<Rightarrow>
             (let m = drop_without_disabling (mach s) in
              if (irq_lock_count m = 0) \<noteq> f then Inl AssertFailed
              else Inr (s\<lparr>sched_locked := False, mach := m\<lparr>int_flag := f\<rparr>\<rparr>))))"

definition call_sched :: "(nat \<Rightarrow> switch_frame) \<Rightarrow> sched_reason \<Rightarrow> 'f kernel \<Rightarrow> sched_error + 'f kernel" where
  "call_sched fr reason s = bind_sum (sched fr (Return reason) reason s) resume"

section \<open>Calls of threads\<close>

definition sched_init :: "nat \<Rightarrow> 'f kernel \<Rightarrow> sched_error + 'f kernel" where
  "sched_init stack s =
     bind_sum (sched_lock s) (\<lambda>s.
       case iv_insert (threads s)
             \<lparr>th_stack = stack, th_regs = switch_frame_default, th_proc = None, th_state = Running, th_kont = Return YieldingR\<rparr> of
         None \<Rightarrow> Inl UnwrapFailed
       | Some (i, ts) \<Rightarrow> if i \<noteq> IDLE_THREAD_ID then Inl AssertFailed else Inr (sched_unlock (s\<lparr>threads := ts\<rparr>)))"

definition thread_spawn :: "64 word \<Rightarrow> nat option \<Rightarrow> 64 word \<Rightarrow> nat \<Rightarrow> nat \<Rightarrow> 'f kernel \<Rightarrow> sched_error + 'f kernel" where
  "thread_spawn stub stack fn size0 align s =
     bind_sum (sched_lock s) (\<lambda>s. map_sum (\<lambda>e. e) sched_unlock (spawn_inner stub stack fn size0 align s))"

definition thread_yield :: "(nat \<Rightarrow> switch_frame) \<Rightarrow> 'f kernel \<Rightarrow> sched_error + 'f kernel" where
  "thread_yield fr s = bind_sum (sched_lock s) (call_sched fr YieldingR)"

definition thread_exit :: "(nat \<Rightarrow> switch_frame) \<Rightarrow> 'f kernel \<Rightarrow> sched_error + 'f kernel" where
  "thread_exit fr s = bind_sum (sched_lock s) (call_sched fr ExitingR)"

definition thread_sleep :: "(nat \<Rightarrow> switch_frame) \<Rightarrow> nat \<Rightarrow> 'f kernel \<Rightarrow> sched_error + 'f kernel" where
  "thread_sleep fr delay_ns s =
     bind_sum (sched_lock s) (\<lambda>s.
       case run_later (ticks (mach s)) delay_ns (WakeThread (current s)) (timers s) of
         None \<Rightarrow> Inl AssertFailed
       | Some (_, q) \<Rightarrow> call_sched fr SleepingR (s\<lparr>timers := q\<rparr>))"

section \<open>Wait queues\<close>

text \<open>One round of \<^verbatim>\<open>sleep_until\<close> in which the condition does not hold.\<close>

definition wait_on :: "(nat \<Rightarrow> switch_frame) \<Rightarrow> nat \<Rightarrow> 'f kernel \<Rightarrow> sched_error + 'f kernel" where
  "wait_on fr w s =
     bind_sum (sched_lock s) (\<lambda>s. call_sched fr WaitingR (s\<lparr>waiters := (waiters s)(w := waiters s w @ [current s])\<rparr>))"

definition wake_one :: "nat \<Rightarrow> 'f kernel \<Rightarrow> sched_error + 'f kernel" where
  "wake_one w s =
     bind_sum (sched_lock s) (\<lambda>s.
       map_sum (\<lambda>e. e) sched_unlock
         (case waiters s w of [] \<Rightarrow> Inr s | i # rest \<Rightarrow> wake i (s\<lparr>waiters := (waiters s)(w := rest)\<rparr>)))"

fun wake_each :: "nat list \<Rightarrow> 'f kernel \<Rightarrow> sched_error + 'f kernel" where
  "wake_each [] s = Inr s"
| "wake_each (i # is) s = bind_sum (wake i s) (wake_each is)"

definition wake_all :: "nat \<Rightarrow> 'f kernel \<Rightarrow> sched_error + 'f kernel" where
  "wake_all w s =
     bind_sum (sched_lock s) (\<lambda>s.
       map_sum (\<lambda>e. e) sched_unlock (wake_each (waiters s w) (s\<lparr>waiters := (waiters s)(w := [])\<rparr>)))"

section \<open>Tasks\<close>

definition EXECUTOR_WAIT :: nat where "EXECUTOR_WAIT = 0"

definition notify_executor :: "bool \<Rightarrow> 'f kernel \<Rightarrow> sched_error + 'f kernel" where
  "notify_executor b s = (if b then wake_one EXECUTOR_WAIT s else Inr s)"

definition task_wake :: "nat \<Rightarrow> 'f kernel \<Rightarrow> sched_error + 'f kernel" where
  "task_wake i s = (case exec_wake i (executor s) of (ex, b) \<Rightarrow> notify_executor b (s\<lparr>executor := ex\<rparr>))"

definition task_spawn :: "'f \<Rightarrow> 'f kernel \<Rightarrow> sched_error + 'f kernel" where
  "task_spawn f s =
     (case exec_spawn f (executor s) of
        None \<Rightarrow> Inl UnwrapFailed
      | Some (ex, b) \<Rightarrow> notify_executor b (s\<lparr>executor := ex\<rparr>))"

section \<open>Interrupts\<close>

definition run_closure :: "timer_closure \<Rightarrow> 'f kernel \<Rightarrow> sched_error + 'f kernel" where
  "run_closure c s =
     (case c of
        WakeThread i \<Rightarrow> bind_sum (sched_lock s) (\<lambda>s. map_sum (\<lambda>e. e) sched_unlock (wake i s))
      | WakeTask i \<Rightarrow> task_wake i s)"

lemma bind_sum_Inr: "bind_sum r f = Inr y \<Longrightarrow> \<exists>x. r = Inr x \<and> f x = Inr y"
  by (cases r) (simp_all add: bind_sum_def)

lemma map_sum_Inr: "map_sum (\<lambda>e. e) f r = Inr y \<Longrightarrow> \<exists>x. r = Inr x \<and> y = f x"
  by (cases r) auto

lemma sched_unlock_timers [simp]: "timers (sched_unlock s) = timers s"
  by (simp add: sched_unlock_def)

lemma sched_lock_timers: "sched_lock s = Inr s' \<Longrightarrow> timers s' = timers s"
  by (auto simp: sched_lock_def Let_def split: if_splits)

lemma wake_timers: "wake i s = Inr s' \<Longrightarrow> timers s' = timers s"
  by (auto simp: wake_def split: option.splits if_splits)

lemma wake_one_timers: "wake_one w s = Inr s' \<Longrightarrow> timers s' = timers s"
  by (fastforce simp: wake_one_def dest!: bind_sum_Inr map_sum_Inr dest: sched_lock_timers wake_timers split: list.splits)

lemma run_closure_timers: "run_closure c s = Inr s' \<Longrightarrow> timers s' = timers s"
  by (cases c; fastforce simp: run_closure_def task_wake_def notify_executor_def dest!: bind_sum_Inr map_sum_Inr
      dest: sched_lock_timers wake_timers wake_one_timers split: if_splits prod.splits)

text \<open>The loop of the timer interrupt: a due closure is taken out and run.\<close>

function run_due :: "'f kernel \<Rightarrow> sched_error + 'f kernel" where
  "run_due s =
     (case pop_closure (timers s) of
        None \<Rightarrow> Inr s
      | Some (c, q) \<Rightarrow> (case run_closure c (s\<lparr>timers := q\<rparr>) of Inl e \<Rightarrow> Inl e | Inr s' \<Rightarrow> run_due s'))"
  by pat_completeness auto
termination
  by (relation "measure (\<lambda>s. length (timers s))")
    (auto simp: pop_closure_def split: list.splits if_splits dest!: run_closure_timers)

declare run_due.simps [simp del]

definition timer_interrupt :: "'f kernel \<Rightarrow> sched_error + 'f kernel" where
  "timer_interrupt s =
     (let s = s\<lparr>mach := (mach s)\<lparr>ticks := (ticks (mach s) + 1) mod 2 ^ 64\<rparr>, timers := timer_tick (timers s)\<rparr>
      in map_sum (\<lambda>e. e) (\<lambda>s. s\<lparr>mach := (mach s)\<lparr>irq_need_resched := True\<rparr>\<rparr>) (run_due s))"

text \<open>
  The dispatcher.  The processor has turned interrupts off; \<open>f\<close> is the interrupt flag of the interrupted code, as it is in the
  trap frame.  The page fault handler is a parameter.
\<close>

definition int_dispatch :: "('f kernel \<Rightarrow> sched_error + 'f kernel) \<Rightarrow> nat \<Rightarrow> 'f kernel \<Rightarrow> sched_error + 'f kernel" where
  "int_dispatch page_fault v s =
     (case try_from_u8 v of
        Inl _ \<Rightarrow> Inl UnwrapFailed
      | Inr i \<Rightarrow>
          if i = PageFault then page_fault s
          else if i = Irq 0 then timer_interrupt s
          else Inl Unhandled)"

definition int_handler :: "('f kernel \<Rightarrow> sched_error + 'f kernel) \<Rightarrow> (nat \<Rightarrow> switch_frame) \<Rightarrow> nat \<Rightarrow> bool \<Rightarrow> 'f kernel \<Rightarrow>
    sched_error + 'f kernel" where
  "int_handler page_fault fr v f s =
     bind_sum (int_dispatch page_fault v (s\<lparr>mach := guard_enter (mach s)\<rparr>)) (\<lambda>s.
       if drop_would_reenable (mach s) \<and> irq_need_resched (mach s)
       then bind_sum (lock_with_interrupt_guard (s\<lparr>mach := (mach s)\<lparr>irq_need_resched := False\<rparr>\<rparr>)) (\<lambda>s.
              bind_sum (sched fr (IrqReturn f) YieldingR s) resume)
       else
         (let m = drop_without_disabling (mach s) in
          if (irq_lock_count m = 0) \<noteq> f then Inl AssertFailed else Inr (s\<lparr>mach := m\<lparr>int_flag := f\<rparr>\<rparr>)))"

definition irq :: "('f kernel \<Rightarrow> sched_error + 'f kernel) \<Rightarrow> (nat \<Rightarrow> switch_frame) \<Rightarrow> nat \<Rightarrow> 'f kernel \<Rightarrow> sched_error + 'f kernel" where
  "irq page_fault fr v s = int_handler page_fault fr v (int_flag (mach s)) (s\<lparr>mach := (mach s)\<lparr>int_flag := False\<rparr>\<rparr>)"

text \<open>
  The system calls of a user thread, entered with interrupts off and the counter at zero; the call that prints a
  character only writes to the console.  The result is the value of \<^verbatim>\<open>rax\<close>.
\<close>

definition syscall_handler :: "(nat \<Rightarrow> switch_frame) \<Rightarrow> nat \<Rightarrow> nat \<Rightarrow> 'f kernel \<Rightarrow> sched_error + nat \<times> 'f kernel" where
  "syscall_handler fr rdi rax s =
     (if irq_lock_count (mach s) \<noteq> 0 then Inl AssertFailed
      else
        (let s = s\<lparr>mach := (mach s)\<lparr>int_flag := True\<rparr>\<rparr> in
         if rdi = 1 then map_sum (\<lambda>e. e) (Pair rax) (thread_sleep fr 100000000 s)
         else if rdi = 2 then Inr (current s, s)
         else Inr (rax, s)))"

end
