(* ===== verification/Sched_Inv.thy ===== *)
theory Sched_Inv
  imports Sched
begin

text \<open>
  The invariant of the scheduler and what its operations do to it.  The first part is about the data alone: \<open>core\<close> relates the
  running thread, the states, the ready queue, the wait queues and the sleepers, and each lemma is one transition of
  it.  The second part gives the effect of every operation of the code on the state.
\<close>

section \<open>The data\<close>

definition core :: "nat \<Rightarrow> (nat \<Rightarrow> thread_state option) \<Rightarrow> nat list \<Rightarrow> (nat \<Rightarrow> nat list) \<Rightarrow> nat list \<Rightarrow> bool" where
  "core cur st q W Z \<longleftrightarrow>
     distinct q \<and> (\<forall>i. i \<in> set q \<longleftrightarrow> i \<noteq> IDLE_THREAD_ID \<and> st i = Some Ready) \<and>
     (st IDLE_THREAD_ID = Some Running \<or> st IDLE_THREAD_ID = Some Ready) \<and>
     (\<forall>i. st i = Some Running \<longleftrightarrow> i = cur) \<and> (\<forall>i. st i \<noteq> Some Exiting) \<and>
     (\<forall>w. distinct (W w)) \<and> (\<forall>w w' i. i \<in> set (W w) \<longrightarrow> i \<in> set (W w') \<longrightarrow> w = w') \<and>
     (\<forall>i. st i = Some Waiting \<longleftrightarrow> (\<exists>w. i \<in> set (W w))) \<and>
     distinct Z \<and> (\<forall>i. st i = Some Sleeping \<longleftrightarrow> i \<in> set Z)"

lemma core_facts:
  assumes "core cur st q W Z"
  shows "distinct q" "i \<in> set q \<longleftrightarrow> i \<noteq> IDLE_THREAD_ID \<and> st i = Some Ready"
    "st IDLE_THREAD_ID = Some Running \<or> st IDLE_THREAD_ID = Some Ready" "st i = Some Running \<longleftrightarrow> i = cur" "st i \<noteq> Some Exiting"
    "distinct (W w)" "i \<in> set (W w) \<Longrightarrow> i \<in> set (W w') \<Longrightarrow> w = w'" "st i = Some Waiting \<longleftrightarrow> (\<exists>w. i \<in> set (W w))"
    "distinct Z" "st i = Some Sleeping \<longleftrightarrow> i \<in> set Z"
  using assms unfolding core_def by blast+

lemma core_spawn:
  assumes "core cur st q W Z" "st i = None"
  shows "core cur (st(i := Some Ready)) (q @ [i]) W Z"
proof -
  note f = core_facts [OF assms(1)]
  have n: "i \<notin> set q" "i \<noteq> cur" "i \<noteq> IDLE_THREAD_ID" "i \<notin> set Z" "\<And>w. i \<notin> set (W w)"
    using f(2) [of i] f(4) [of i] f(3) f(10) [of i] f(8) [of i] assms(2) by auto
  show ?thesis unfolding core_def
    using f(1-6,9,10) n f(8) by (auto dest: f(7))
qed

lemma core_wake_sleeper:
  assumes "core cur st q W (i # Z)"
  shows "core cur (st(i := Some Ready)) (q @ [i]) W Z"
proof -
  note f = core_facts [OF assms]
  have i: "st i = Some Sleeping" using f(10) [of i] by simp
  then have n: "i \<notin> set q" "i \<noteq> cur" "i \<noteq> IDLE_THREAD_ID" "i \<notin> set Z" "\<And>w. i \<notin> set (W w)"
    using f(2) [of i] f(4) [of i] f(3,9) f(8) [of i] by auto
  show ?thesis unfolding core_def
    using f(1-6,9) f(10) n f(8) by (auto dest: f(7))
qed

lemma core_wake_waiter:
  assumes "core cur st q W Z" "W w = i # rest"
  shows "core cur (st(i := Some Ready)) (q @ [i]) (W(w := rest)) Z"
proof -
  note f = core_facts [OF assms(1)]
  have i: "st i = Some Waiting" using f(8) [of i] assms(2) by (auto intro: exI [of _ w])
  then have n: "i \<notin> set q" "i \<noteq> cur" "i \<noteq> IDLE_THREAD_ID" "i \<notin> set Z"
    using f(2) [of i] f(4) [of i] f(3) f(10) [of i] by auto
  have r: "i \<notin> set rest" "distinct rest" "\<And>w'. w' \<noteq> w \<Longrightarrow> i \<notin> set (W w')"
    using f(6) [of w] f(7) [of i w] assms(2) by auto
  have w: "(\<exists>w'. j \<in> set ((W(w := rest)) w')) \<longleftrightarrow> j \<noteq> i \<and> (\<exists>w'. j \<in> set (W w'))" for j
    using assms(2) r(1,3) by (metis fun_upd_other fun_upd_same list.set_intros(2) set_ConsD)
  have "j \<in> set ((W(w := rest)) w1) \<Longrightarrow> j \<in> set ((W(w := rest)) w2) \<Longrightarrow> w1 = w2" for j w1 w2
    using f(7) [of j w1 w2] assms(2) by (auto split: if_splits)
  moreover have "distinct ((W(w := rest)) w')" for w' using f(6) [of w'] r(2) by simp
  ultimately show ?thesis unfolding core_def
    using f(1-5,9,10) n f(8) w by (auto simp del: fun_upd_apply simp: fun_upd_apply [of st])
qed

text \<open>The running thread gives the processor to another one.\<close>

lemma core_yield:
  assumes "core cur st (n # q) W Z"
  shows "core n (st(cur := Some Ready, n := Some Running)) (if cur \<noteq> IDLE_THREAD_ID then q @ [cur] else q) W Z"
proof -
  note f = core_facts [OF assms]
  have n: "n \<noteq> cur" "n \<noteq> IDLE_THREAD_ID" "st n = Some Ready" "st cur = Some Running" "n \<notin> set q" "distinct q"
    using f(2) [of n] f(4) [of n] f(4) [of cur] f(1) by auto
  have c: "cur \<notin> set q" "\<And>w. cur \<notin> set (W w)" "cur \<notin> set Z" "\<And>w. n \<notin> set (W w)" "n \<notin> set Z"
    using f(2) [of cur] f(8) [of cur] f(10) [of cur] f(8) [of n] f(10) [of n] n by auto
  show ?thesis unfolding core_def
    using f(2-6,9) f(8,10) n c by (auto dest: f(7))
qed

lemma core_block:
  assumes "core cur st q W Z" "cur \<noteq> IDLE_THREAD_ID"
    and "(n, q') = (case q of [] \<Rightarrow> (IDLE_THREAD_ID, []) | i # rest \<Rightarrow> (i, rest))"
  shows "n \<noteq> cur" "st n = Some Ready"
    "core n (st(cur := None, n := Some Running)) q' W Z"
    "core n (st(cur := Some Sleeping, n := Some Running)) q' W (Z @ [cur])"
    "core n (st(cur := Some Waiting, n := Some Running)) q' (W(w := W w @ [cur])) Z"
proof -
  note f = core_facts [OF assms(1)]
  have st: "st cur = Some Running" using f(4) [of cur] by simp
  then have nr: "st cur \<noteq> Some Ready" by simp
  show n: "n \<noteq> cur" "st n = Some Ready"
    using assms(2,3) f(2) [of n] f(3) f(4) [of IDLE_THREAD_ID] f(4) [of n] by (auto split: list.splits)
  have c: "cur \<notin> set q" "\<And>w. cur \<notin> set (W w)" "cur \<notin> set Z" "\<And>w. n \<notin> set (W w)" "n \<notin> set Z"
    using f(2) [of cur] f(8) [of cur] f(10) [of cur] f(8) [of n] f(10) [of n] n st by auto
  have q: "distinct q'" "\<And>i. i \<in> set q' \<longleftrightarrow> i \<in> set q \<and> i \<noteq> n"
    using f(1) f(2) [of IDLE_THREAD_ID] assms(3) by (auto split: list.splits)
  note facts = f(2-6,9) f(8,10) n c q nr assms(2)
  show "core n (st(cur := None, n := Some Running)) q' W Z"
    unfolding core_def using facts by (auto dest: f(7))
  show "core n (st(cur := Some Sleeping, n := Some Running)) q' W (Z @ [cur])"
    unfolding core_def using facts by (auto dest: f(7))
  have w: "(\<exists>w'. j \<in> set ((W(w := W w @ [cur])) w')) \<longleftrightarrow> j = cur \<or> (\<exists>w'. j \<in> set (W w'))" for j
    by (auto split: if_splits)
  moreover have "j \<in> set ((W(w := W w @ [cur])) w1) \<Longrightarrow> j \<in> set ((W(w := W w @ [cur])) w2) \<Longrightarrow> w1 = w2" for j w1 w2
    using f(7) [of j w1 w2] c(2) by (auto split: if_splits)
  moreover have "distinct ((W(w := W w @ [cur])) w')" for w' using f(6) [of w'] c(2) by auto
  ultimately show "core n (st(cur := Some Waiting, n := Some Running)) q' (W(w := W w @ [cur])) Z"
    unfolding core_def using facts by (auto simp del: fun_upd_apply simp: fun_upd_apply [of st] fun_upd_apply [of "st(cur := x)" for x])
qed

section \<open>The invariant of the state\<close>

definition sts :: "'f kernel \<Rightarrow> nat \<Rightarrow> thread_state option" where
  "sts s i = map_option th_state (thread s i)"

fun sleepers :: "timer_closure timer_queue \<Rightarrow> nat list" where
  "sleepers [] = []"
| "sleepers (t # ts) = (case closure t of WakeThread i \<Rightarrow> i # sleepers ts | WakeTask i \<Rightarrow> sleepers ts)"

text \<open>What a suspended thread continues with: never with the return of an exited thread, and the idle thread has yielded.\<close>

definition kont_ok :: "nat \<Rightarrow> kont \<Rightarrow> bool" where
  "kont_ok i k \<longleftrightarrow> k \<noteq> Return ExitingR \<and> k \<noteq> IrqReturn False \<and> (i = IDLE_THREAD_ID \<longrightarrow> k \<noteq> ThreadEntry \<and> reason_of k = YieldingR)"

definition konts_ok :: "'f kernel \<Rightarrow> bool" where
  "konts_ok s \<longleftrightarrow> (\<forall>i t. thread s i = Some t \<longrightarrow> i \<noteq> current s \<longrightarrow> kont_ok i (th_kont t))"

definition core_ok :: "'f kernel \<Rightarrow> bool" where
  "core_ok s \<longleftrightarrow> core (current s) (sts s) (ready s) (waiters s) (sleepers (timers s))"

text \<open>
  The state while the counter is \<open>n\<close>: zero outside the kernel, one in an interrupt handler.  \<open>data_ok\<close> leaves the lock and the counter open.
\<close>

definition data_ok :: "'f kernel \<Rightarrow> bool" where
  "data_ok s \<longleftrightarrow> iv_ok (threads s) \<and> konts_ok s \<and> core_ok s \<and> iv_ok (tasks (executor s))"

definition kernel_inv :: "nat \<Rightarrow> 'f kernel \<Rightarrow> bool" where
  "kernel_inv n s \<longleftrightarrow> data_ok s \<and> \<not> sched_locked s \<and> irq_lock_count (mach s) = n \<and> irq_ok (mach s)"

abbreviation kernel_ok :: "'f kernel \<Rightarrow> bool" where
  "kernel_ok \<equiv> kernel_inv 0"

section \<open>Waking\<close>

definition woken :: "nat \<Rightarrow> sched_thread \<Rightarrow> 'f kernel \<Rightarrow> 'f kernel" where
  "woken i t s = s\<lparr>threads := iv_write i (t\<lparr>th_state := Ready\<rparr>) (threads s), ready := ready s @ [i]\<rparr>"

lemma wake_eq:
  "thread s i = Some t \<Longrightarrow> th_state t = Waiting \<or> th_state t = Sleeping \<Longrightarrow> wake i s = Inr (woken i t s)"
  by (auto simp: wake_def iv_get_mut_eq woken_def)

lemma woken_spec:
  assumes "iv_ok (threads s)" "thread s i = Some t"
  shows "iv_ok (threads (woken i t s))" "thread (woken i t s) = (thread s)(i \<mapsto> t\<lparr>th_state := Ready\<rparr>)"
    "sts (woken i t s) = (sts s)(i := Some Ready)" "konts_ok s \<Longrightarrow> konts_ok (woken i t s)"
proof -
  show p: "iv_ok (threads (woken i t s))" "thread (woken i t s) = (thread s)(i \<mapsto> t\<lparr>th_state := Ready\<rparr>)"
    using iv.put [of "threads s" i] assms by (simp_all add: woken_def)
  then show "sts (woken i t s) = (sts s)(i := Some Ready)" by (auto simp: sts_def)
  show "konts_ok s \<Longrightarrow> konts_ok (woken i t s)"
    using p(2) assms(2) by (auto simp: konts_ok_def) (simp add: woken_def)+
qed

text \<open>An operation under the lock that leaves the machine alone.\<close>

definition under_lock :: "'f kernel \<Rightarrow> 'f kernel" where
  "under_lock s = s\<lparr>mach := guard_enter (mach s), sched_locked := True\<rparr>"

lemma sched_lock_eq: "\<not> sched_locked s \<Longrightarrow> sched_lock s = Inr (under_lock s)"
  by (simp add: sched_lock_def under_lock_def Let_def)

lemma under_lock_simps [simp]:
  "threads (under_lock s) = threads s" "ready (under_lock s) = ready s" "waiters (under_lock s) = waiters s"
  "timers (under_lock s) = timers s" "executor (under_lock s) = executor s" "mach (under_lock s) = guard_enter (mach s)"
  "sched_locked (under_lock s)"
  by (simp_all add: under_lock_def)

lemma under_lock_data [simp]: "data_ok (under_lock s) = data_ok s"
  by (simp add: data_ok_def konts_ok_def core_ok_def sts_def [abs_def])

lemma unlock_inv:
  assumes "data_ok s" "mach s = guard_enter m" "irq_ok m"
  shows "kernel_inv (irq_lock_count m) (sched_unlock s)"
  using assms guard_leave_enter [OF assms(3)]
  by (simp add: kernel_inv_def data_ok_def konts_ok_def core_ok_def sts_def [abs_def] sched_unlock_def)

lemma data_state: "data_ok s \<Longrightarrow> sts s i = Some x \<Longrightarrow> \<exists>t. thread s i = Some t \<and> th_state t = x"
  by (auto simp: sts_def)

lemma wake_sleeper_data:
  assumes "iv_ok (threads s)" "konts_ok s" "iv_ok (tasks (executor s))"
    and "core (current s) (sts s) (ready s) (waiters s) (i # sleepers (timers s))"
  shows "\<exists>t. wake i s = Inr (woken i t s) \<and> data_ok (woken i t s) \<and> thread s i = Some t"
proof -
  have "sts s i = Some Sleeping" using core_facts(10) [OF assms(4), of i] by simp
  then obtain t where t: "thread s i = Some t" "th_state t = Sleeping" by (auto simp: sts_def)
  have "core (current s) ((sts s)(i := Some Ready)) (ready s @ [i]) (waiters s) (sleepers (timers s))"
    using assms(4) by (rule core_wake_sleeper)
  then have "data_ok (woken i t s)"
    using woken_spec [OF assms(1) t(1)] assms(2,3) by (simp add: data_ok_def core_ok_def) (simp add: woken_def)
  with t show ?thesis by (auto simp: wake_eq)
qed

lemma wake_waiter_data:
  assumes "data_ok s" "waiters s w = i # rest"
  shows "\<exists>t. wake i (s\<lparr>waiters := (waiters s)(w := rest)\<rparr>) = Inr (woken i t (s\<lparr>waiters := (waiters s)(w := rest)\<rparr>)) \<and>
    data_ok (woken i t (s\<lparr>waiters := (waiters s)(w := rest)\<rparr>)) \<and> thread s i = Some t"
proof -
  let ?s = "s\<lparr>waiters := (waiters s)(w := rest)\<rparr>"
  have c: "core (current s) (sts s) (ready s) (waiters s) (sleepers (timers s))" using assms(1) by (simp add: data_ok_def core_ok_def)
  have "sts s i = Some Waiting" using core_facts(8) [OF c, of i] assms(2) by (auto intro: exI [of _ w])
  then obtain t where t: "thread s i = Some t" "th_state t = Waiting" by (auto simp: sts_def)
  have "core (current s) ((sts s)(i := Some Ready)) (ready s @ [i]) ((waiters s)(w := rest)) (sleepers (timers s))"
    using c assms(2) by (rule core_wake_waiter)
  moreover have "sts ?s = sts s" "konts_ok ?s = konts_ok s" by (simp_all add: sts_def [abs_def] konts_ok_def)
  ultimately have "data_ok (woken i t ?s)"
    using woken_spec [of ?s i t] t assms(1) by (simp add: data_ok_def core_ok_def) (simp add: woken_def)
  with t show ?thesis by (auto simp: wake_eq)
qed

section \<open>Operations that only wake threads\<close>

text \<open>The running thread and the machine stay as they are and the queue grows at its end.\<close>

definition woke :: "'f kernel \<Rightarrow> 'f kernel \<Rightarrow> bool" where
  "woke s s' \<longleftrightarrow> mach s' = mach s \<and> timers s' = timers s \<and> (\<exists>xs. ready s' = ready s @ xs) \<and>
     (\<forall>i. map_option th_proc (thread s' i) = map_option th_proc (thread s i))"

lemma woke_refl [simp]: "woke s s"
  by (simp add: woke_def)

lemma woke_trans: "woke s s' \<Longrightarrow> woke s' s'' \<Longrightarrow> woke s s''"
  by (auto simp: woke_def)

lemma woke_woken: "iv_ok (threads s) \<Longrightarrow> thread s i = Some t \<Longrightarrow> woke s (woken i t s)"
  using woken_spec(2) [of s i t] by (auto simp: woke_def) (simp_all add: woken_def)

lemma woke_unlock: "woke (under_lock s) s' \<Longrightarrow> irq_ok (mach s) \<Longrightarrow> woke s (sched_unlock s')"
  by (auto simp: woke_def sched_unlock_def guard_leave_enter)

lemma kernel_invE:
  assumes "kernel_inv n s"
  shows "data_ok s" "\<not> sched_locked s" "irq_lock_count (mach s) = n" "irq_ok (mach s)" "iv_ok (threads s)"
    "core (current s) (sts s) (ready s) (waiters s) (sleepers (timers s))" "konts_ok s" "iv_ok (tasks (executor s))"
  using assms by (simp_all add: kernel_inv_def data_ok_def core_ok_def)

lemma finish_wake:
  assumes "kernel_inv n s" "data_ok s'" "woke (under_lock s) s'"
  shows "kernel_inv n (sched_unlock s') \<and> woke s (sched_unlock s')"
  using unlock_inv [OF assms(2), of "mach s"] woke_unlock [OF assms(3)] assms(3) kernel_invE(3,4) [OF assms(1)]
  by (auto simp: woke_def)

lemma wake_one_ok:
  assumes "kernel_inv n s"
  shows "\<exists>s'. wake_one w s = Inr s' \<and> kernel_inv n s' \<and> woke s s'"
proof -
  note inv = kernel_invE [OF assms]
  let ?l = "under_lock s"
  have l: "data_ok ?l" using inv(1) by simp
  show ?thesis
  proof (cases "waiters s w")
    case Nil
    then show ?thesis using finish_wake [OF assms l woke_refl] inv(2) by (simp add: wake_one_def sched_lock_eq bind_sum_def)
  next
    case (Cons i rest)
    let ?r = "?l\<lparr>waiters := (waiters ?l)(w := rest)\<rparr>"
    obtain t where t: "wake i ?r = Inr (woken i t ?r)" "data_ok (woken i t ?r)" "thread s i = Some t"
      using wake_waiter_data [OF l, of w i rest] Cons by auto
    have "woke ?l ?r" by (simp add: woke_def)
    moreover have "woke ?r (woken i t ?r)" using t(3) inv(5) by (intro woke_woken) simp_all
    ultimately have "woke ?l (woken i t ?r)" by (rule woke_trans)
    from finish_wake [OF assms t(2) this] t(1) Cons inv(2) show ?thesis
      by (simp add: wake_one_def sched_lock_eq bind_sum_def)
  qed
qed

lemma wake_each_ok:
  assumes "data_ok (s\<lparr>waiters := (waiters s)(w := is)\<rparr>)" "waiters s w = []"
  shows "\<exists>s'. wake_each is s = Inr s' \<and> data_ok s' \<and> woke s s'"
  using assms
proof (induction "is" arbitrary: s)
  case Nil
  then have "s\<lparr>waiters := (waiters s)(w := [])\<rparr> = s" by (metis fun_upd_triv kernel.surjective kernel.update_convs(6))
  with Nil(1) have "data_ok s" by (simp only:)
  then show ?case by simp
next
  case (Cons i rest)
  let ?a = "s\<lparr>waiters := (waiters s)(w := i # rest)\<rparr>" and ?r = "s\<lparr>waiters := (waiters s)(w := rest)\<rparr>"
  have "waiters ?a w = i # rest" "?a\<lparr>waiters := (waiters ?a)(w := rest)\<rparr> = ?r" by simp_all
  with wake_waiter_data [OF Cons.prems(1)] obtain t where
    t: "wake i ?r = Inr (woken i t ?r)" "data_ok (woken i t ?r)" "thread s i = Some t" by fastforce
  have ok: "iv_ok (threads s)" using Cons.prems(1) by (simp add: data_ok_def)
  have "th_state t = Waiting \<or> th_state t = Sleeping" using t(1,3) by (auto simp: wake_def iv_get_mut_eq split: if_splits)
  then have w: "wake i s = Inr (woken i t s)" using t(3) by (intro wake_eq)
  have "(woken i t s)\<lparr>waiters := (waiters (woken i t s))(w := rest)\<rparr> = woken i t ?r" by (simp add: woken_def)
  then have "data_ok ((woken i t s)\<lparr>waiters := (waiters (woken i t s))(w := rest)\<rparr>)" using t(2) by (simp only:)
  moreover have "waiters (woken i t s) w = []" using Cons.prems(2) by (simp add: woken_def)
  ultimately obtain s' where "wake_each rest (woken i t s) = Inr s'" "data_ok s'" "woke (woken i t s) s'"
    using Cons.IH by blast
  with w woke_trans [OF woke_woken [OF ok t(3)]] show ?case by (auto simp: bind_sum_def)
qed

lemma wake_all_ok:
  assumes "kernel_inv n s"
  shows "\<exists>s'. wake_all w s = Inr s' \<and> kernel_inv n s' \<and> woke s s'"
proof -
  note inv = kernel_invE [OF assms]
  let ?l = "under_lock s" and ?r = "(under_lock s)\<lparr>waiters := (waiters s)(w := [])\<rparr>"
  have "?r\<lparr>waiters := (waiters ?r)(w := waiters s w)\<rparr> = ?l" by (simp add: under_lock_def)
  then have "data_ok (?r\<lparr>waiters := (waiters ?r)(w := waiters s w)\<rparr>)" using inv(1) by (simp only: under_lock_data)
  then obtain s' where s': "wake_each (waiters s w) ?r = Inr s'" "data_ok s'" "woke ?r s'"
    using wake_each_ok [of ?r w "waiters s w"] by auto
  then have "woke ?l s'" by (simp add: woke_def)
  from finish_wake [OF assms s'(2) this] s'(1) inv(2) show ?thesis
    by (simp add: wake_all_def sched_lock_eq bind_sum_def)
qed

lemma executor_inv: "kernel_inv n s \<Longrightarrow> iv_ok (tasks ex) \<Longrightarrow> kernel_inv n (s\<lparr>executor := ex\<rparr>)"
  by (simp add: kernel_inv_def data_ok_def konts_ok_def core_ok_def sts_def [abs_def])

lemma notify_executor_ok:
  assumes "kernel_inv n s" "iv_ok (tasks ex)"
  shows "\<exists>s'. notify_executor b (s\<lparr>executor := ex\<rparr>) = Inr s' \<and> kernel_inv n s' \<and> woke s s'"
proof -
  have e: "kernel_inv n (s\<lparr>executor := ex\<rparr>)" using assms by (rule executor_inv)
  have w: "woke s (s\<lparr>executor := ex\<rparr>)" by (simp add: woke_def)
  obtain s' where s': "wake_one EXECUTOR_WAIT (s\<lparr>executor := ex\<rparr>) = Inr s'" "kernel_inv n s'" "woke (s\<lparr>executor := ex\<rparr>) s'"
    using wake_one_ok [OF e, of EXECUTOR_WAIT] by (elim exE conjE)
  show ?thesis using e w s' woke_trans [OF w s'(3)] by (cases b) (simp_all add: notify_executor_def)
qed

lemma task_wake_ok:
  assumes "kernel_inv n s"
  shows "\<exists>s'. task_wake i s = Inr s' \<and> kernel_inv n s' \<and> woke s s'"
proof -
  obtain ex b where e: "exec_wake i (executor s) = (ex, b)" by (cases "exec_wake i (executor s)")
  have "iv_ok (iv_write i x (tasks (executor s)))" if "iv_get (tasks (executor s)) i \<noteq> None" for x
    using iv_ok_write [OF kernel_invE(8) [OF assms] that] .
  then have "iv_ok (tasks ex)" using e kernel_invE(8) [OF assms]
    by (cases "iv_get (tasks (executor s)) i") (auto simp: exec_wake_def iv_get_mut_eq split: task_state.splits)
  from notify_executor_ok [OF assms this, of b] e show ?thesis by (simp add: task_wake_def)
qed

lemma task_spawn_ok:
  assumes "kernel_inv n s"
  shows "\<exists>s'. task_spawn f s = Inr s' \<and> kernel_inv n s' \<and> woke s s'"
proof -
  obtain i ts where i: "iv_insert (tasks (executor s)) (TaskReady f) = Some (i, ts)" "iv_ok ts"
    using kernel_invE(8) [OF assms] by (rule iv.insertE)
  let ?ex = "(executor s)\<lparr>tasks := ts, exec_ready := exec_ready (executor s) @ [i]\<rparr>"
  have "iv_ok (tasks ?ex)" using i by simp
  from notify_executor_ok [OF assms this, of True] i show ?thesis by (simp add: task_spawn_def exec_spawn_def)
qed

section \<open>The timer interrupt\<close>

lemma sleepers_tick [simp]: "sleepers (timer_tick q) = sleepers q"
  by (cases q) (simp_all add: timer_tick_def)

lemma sleepers_insert: "mset (sleepers (timer_insert n (WakeThread i) q)) = add_mset i (mset (sleepers q))"
  by (induction n "WakeThread i" q rule: timer_insert.induct) (auto split: timer_closure.splits)

text \<open>The closures change no field of the machine.\<close>

definition same_mach :: "'f kernel \<Rightarrow> 'f kernel \<Rightarrow> bool" where
  "same_mach s s' \<longleftrightarrow> mach s' = mach s \<and> (\<exists>xs. ready s' = ready s @ xs) \<and>
     (\<forall>i. map_option th_proc (thread s' i) = map_option th_proc (thread s i))"

lemma run_closure_ok:
  assumes "kernel_inv n s" "timers s = t # ts"
  shows "\<exists>s'. run_closure (closure t) (s\<lparr>timers := ts\<rparr>) = Inr s' \<and> kernel_inv n s' \<and> same_mach s s' \<and> timers s' = ts"
proof (cases "closure t")
  case (WakeThread i)
  note inv = kernel_invE [OF assms(1)]
  let ?r = "(under_lock s)\<lparr>timers := ts\<rparr>"
  have r: "under_lock (s\<lparr>timers := ts\<rparr>) = ?r" by (simp add: under_lock_def)
  have "core (current ?r) (sts ?r) (ready ?r) (waiters ?r) (i # sleepers (timers ?r))"
    using inv(6) assms(2) WakeThread by (simp add: sts_def [abs_def])
  then obtain t' where t': "wake i ?r = Inr (woken i t' ?r)" "data_ok (woken i t' ?r)" "thread s i = Some t'"
    using wake_sleeper_data [of ?r i] inv(5,7,8) by (auto simp: konts_ok_def)
  have w: "woke ?r (woken i t' ?r)" using t'(3) inv(5) by (intro woke_woken) simp_all
  have m: "mach (woken i t' ?r) = guard_enter (mach s)" using w by (simp add: woke_def)
  have "kernel_inv n (sched_unlock (woken i t' ?r))" using unlock_inv [OF t'(2) m inv(4)] inv(3) by simp
  moreover have "same_mach s (sched_unlock (woken i t' ?r))" "timers (sched_unlock (woken i t' ?r)) = ts"
    using w inv(4) by (auto simp: same_mach_def woke_def sched_unlock_def guard_leave_enter)
  ultimately show ?thesis using t'(1) inv(2) WakeThread
    by (simp add: run_closure_def sched_lock_eq bind_sum_def r)
next
  case (WakeTask i)
  have "kernel_inv n (s\<lparr>timers := ts\<rparr>)"
    using assms WakeTask by (simp add: kernel_inv_def data_ok_def konts_ok_def core_ok_def sts_def [abs_def])
  from task_wake_ok [OF this, of i] WakeTask show ?thesis
    by (fastforce simp: run_closure_def same_mach_def woke_def)
qed

lemma run_due_ok:
  assumes "kernel_inv n s"
  shows "\<exists>s'. run_due s = Inr s' \<and> kernel_inv n s' \<and> same_mach s s'"
  using assms
proof (induction "length (timers s)" arbitrary: s)
  case 0
  then show ?case by (simp add: run_due.simps pop_closure_def same_mach_def)
next
  case (Suc m)
  then obtain t ts where t: "timers s = t # ts" by (metis length_Suc_conv)
  show ?case
  proof (cases "delta t = 0")
    case False
    then show ?thesis using t Suc.prems by (simp add: run_due.simps pop_closure_def same_mach_def)
  next
    case True
    obtain s1 where s1: "run_closure (closure t) (s\<lparr>timers := ts\<rparr>) = Inr s1" "kernel_inv n s1" "same_mach s s1" "timers s1 = ts"
      using run_closure_ok [OF Suc.prems t] by blast
    obtain s2 where s2: "run_due s1 = Inr s2" "kernel_inv n s2" "same_mach s1 s2"
      using Suc.hyps(1) [of s1] s1(2,4) t Suc.hyps(2) by auto
    have "run_due s = run_due s1" using t True s1(1) by (subst run_due.simps) (simp add: pop_closure_def)
    with s2 s1(3) show ?thesis by (auto simp: same_mach_def)
  qed
qed

lemma timer_interrupt_ok:
  assumes "kernel_inv n s"
  shows "\<exists>s'. timer_interrupt s = Inr s' \<and> kernel_inv n s' \<and> irq_need_resched (mach s') \<and> current s' = current s \<and>
    current_proc (mach s') = current_proc (mach s) \<and> cr3 (mach s') = cr3 (mach s) \<and> (\<exists>xs. ready s' = ready s @ xs) \<and>
    (\<forall>i. map_option th_proc (thread s' i) = map_option th_proc (thread s i))"
proof -
  let ?s = "s\<lparr>mach := (mach s)\<lparr>ticks := (ticks (mach s) + 1) mod 2 ^ 64\<rparr>, timers := timer_tick (timers s)\<rparr>"
  have "kernel_inv n ?s"
    using assms by (simp add: kernel_inv_def data_ok_def konts_ok_def core_ok_def sts_def [abs_def] irq_ok_def)
  then obtain s' where s': "run_due ?s = Inr s'" "kernel_inv n s'" "same_mach ?s s'" using run_due_ok by blast
  let ?f = "s'\<lparr>mach := (mach s')\<lparr>irq_need_resched := True\<rparr>\<rparr>"
  have "kernel_inv n ?f"
    using s'(2) by (simp add: kernel_inv_def data_ok_def konts_ok_def core_ok_def sts_def [abs_def] irq_ok_def)
  moreover have "timer_interrupt s = Inr ?f" using s'(1) by (simp add: timer_interrupt_def)
  ultimately show ?thesis using s'(3) by (auto simp: same_mach_def)
qed

end
