(* ===== verification/Sched_Spec.thy ===== *)
theory Sched_Spec
  imports Sched_Inv
begin

text \<open>
  What a call of \<^verbatim>\<open>sched\<close> does for each reason, the kernel as a transition system of the calls of threads and the interrupts, and
  the properties of its reachable states.
\<close>

section \<open>One switch\<close>

definition switched :: "nat \<Rightarrow> sched_thread \<Rightarrow> mach \<Rightarrow> mach" where
  "switched n nt m =
     (case th_proc nt of
        Some p \<Rightarrow> m\<lparr>current_thread_id := n, current_proc := Some p, cr3 := page_table p, kernel_rsp := th_stack nt\<rparr>
      | None \<Rightarrow> m\<lparr>current_thread_id := n, kernel_rsp := th_stack nt\<rparr>)"

lemma switched_simps [simp]:
  "current_thread_id (switched n nt m) = n" "irq_lock_count (switched n nt m) = irq_lock_count m"
  "irq_ok (switched n nt m) = irq_ok m" "th_proc nt = Some p \<Longrightarrow> current_proc (switched n nt m) = Some p"
  "th_proc nt = Some p \<Longrightarrow> cr3 (switched n nt m) = page_table p"
  by (simp_all add: switched_def irq_ok_def split: option.split)

lemma switched_eq:
  "irq_ok m \<Longrightarrow> set_kernel_rsp (th_stack nt) (case th_proc nt of Some p \<Rightarrow> activate p (m\<lparr>current_thread_id := n\<rparr>) | None \<Rightarrow> m\<lparr>current_thread_id := n\<rparr>) =
    switched n nt m"
  by (cases "th_proc nt") (simp_all add: switched_def set_kernel_rsp_def activate_eq irq_ok_def)

definition left :: "(nat \<Rightarrow> switch_frame) \<Rightarrow> kont \<Rightarrow> thread_state \<Rightarrow> 'f kernel \<Rightarrow> sched_thread \<Rightarrow> sched_thread" where
  "left fr k x s ct = ct\<lparr>th_state := x, th_proc := current_proc (mach s), th_regs := fr (current s), th_kont := k\<rparr>"

lemma sched_switch_eq:
  assumes "iv_ok (threads s)" "irq_lock_count (mach s) = 1" "irq_ok (mach s)"
    and "thread s (current s) = Some ct" "th_state ct = Running" "\<not> (reason = YieldingR \<and> ready s = [])"
    and "next_thread reason s = (n, q)" "n \<noteq> current s" "thread s n = Some nt" "leave_thread reason (current s) q = Inr (x, q', a)"
  shows "\<exists>ts. sched_switch fr k reason s =
      Inr (Some (a, th_kont nt, s\<lparr>threads := ts, ready := q', mach := switched n nt (mach s)\<rparr>)) \<and>
    iv_ok ts \<and> iv_get ts = (thread s)(current s \<mapsto> left fr k x s ct, n \<mapsto> nt\<lparr>th_state := Running\<rparr>)"
proof -
  let ?t1 = "iv_write (current s) (left fr k x s ct) (threads s)"
  let ?t2 = "iv_write n (nt\<lparr>th_state := Running\<rparr>) ?t1"
  have 1: "iv_ok ?t1" "iv_get ?t1 = (thread s)(current s \<mapsto> left fr k x s ct)"
    using iv.put [of "threads s" "current s" "left fr k x s ct"] assms(1,4) by simp_all
  then have "iv_ok ?t2" "iv_get ?t2 = (thread s)(current s \<mapsto> left fr k x s ct, n \<mapsto> nt\<lparr>th_state := Running\<rparr>)"
    using iv.put [of ?t1 n "nt\<lparr>th_state := Running\<rparr>"] assms(9) by simp_all
  moreover have "iv_get_mut_2 (threads s) (current s) n = Some (ct, nt, \<lambda>a b. iv_write n b (iv_write (current s) a (threads s)))"
    using assms(4,8,9) by (simp add: iv_get_mut_2_eq)
  ultimately show ?thesis using assms switched_eq [OF assms(3), of nt n]
    by (auto simp: sched_switch_def Let_def bind_sum_def left_def)
qed

section \<open>Calls of the scheduler\<close>

text \<open>The state in which the scheduler is called: it holds the lock, which is the only reason for interrupts to be off.\<close>

definition inside :: "kont \<Rightarrow> 'f kernel \<Rightarrow> bool" where
  "inside k s \<longleftrightarrow> iv_ok (threads s) \<and> konts_ok s \<and> iv_ok (tasks (executor s)) \<and> sched_locked s \<and>
     irq_lock_count (mach s) = 1 \<and> irq_ok (mach s) \<and> kont_ok (current s) k"

text \<open>The result: a thread goes on that can go on, its process is active, and the process of the thread before is saved.\<close>

definition handed_over :: "'f kernel \<Rightarrow> kont \<Rightarrow> 'f kernel \<Rightarrow> bool" where
  "handed_over s k' s' \<longleftrightarrow> data_ok s' \<and> sched_locked s' \<and> irq_lock_count (mach s') = 1 \<and> irq_ok (mach s') \<and>
     k' \<noteq> Return ExitingR \<and> k' \<noteq> IrqReturn False \<and>
     (current s' \<noteq> current s \<longrightarrow>
        (\<forall>t p. thread s (current s') = Some t \<longrightarrow> th_proc t = Some p \<longrightarrow> current_proc (mach s') = Some p \<and> cr3 (mach s') = page_table p) \<and>
        (\<forall>t. thread s' (current s) = Some t \<longrightarrow> th_proc t = current_proc (mach s))) \<and>
     (\<forall>i. i \<noteq> current s \<longrightarrow> i \<noteq> IDLE_THREAD_ID \<longrightarrow> map_option th_proc (thread s' i) = map_option th_proc (thread s i))"

lemma handed_over_proc:
  "handed_over s k' s' \<Longrightarrow> i \<noteq> current s \<Longrightarrow> i \<noteq> IDLE_THREAD_ID \<Longrightarrow> map_option th_proc (thread s' i) = map_option th_proc (thread s i)"
  by (simp add: handed_over_def)

lemma core_perm: "mset Z = mset Z' \<Longrightarrow> core cur st q W Z = core cur st q W Z'"
proof -
  assume "mset Z = mset Z'"
  then have "distinct Z = distinct Z'" "set Z = set Z'" by (rule mset_eq_imp_distinct_iff, rule mset_eq_setD)
  then show ?thesis by (simp only: core_def)
qed

lemma konts_switch:
  assumes "konts_ok s" "thread s n = Some nt" "kont_ok (current s) k"
    and "th = (thread s)(current s \<mapsto> left fr k x s ct, n \<mapsto> nt\<lparr>th_state := Running\<rparr>)"
    and "thread s' = th" "current s' = n"
  shows "konts_ok s'"
  using assms by (auto simp: konts_ok_def left_def split: if_splits)

text \<open>A switch for any reason but exiting: the new data invariant is a transition of \<open>core\<close>.\<close>

lemma sched_hands_over:
  assumes in1: "inside k s" and run: "sts s (current s) = Some Running" and "reason \<noteq> ExitingR"
    and ne: "\<not> (reason = YieldingR \<and> ready s = [])"
    and nxt: "next_thread reason s = (n, q)" "n \<noteq> current s" "sts s n = Some Ready"
    and lv: "leave_thread reason (current s) q = Inr (x, q', NoAction)"
    and core: "core n ((sts s)(current s := Some x, n := Some Running)) q' (waiters s) (sleepers (timers s))"
  shows "\<exists>k' s'. sched fr k reason s = Inr (k', s') \<and> handed_over s k' s' \<and> current s' = n \<and> ready s' = q'"
proof -
  obtain ct where ct: "thread s (current s) = Some ct" "th_state ct = Running" using run by (auto simp: sts_def)
  obtain nt where nt: "thread s n = Some nt" using nxt(3) by (auto simp: sts_def)
  note i = in1 [unfolded inside_def]
  obtain ts where sw: "sched_switch fr k reason s =
        Inr (Some (NoAction, th_kont nt, s\<lparr>threads := ts, ready := q', mach := switched n nt (mach s)\<rparr>))"
      and ts: "iv_ok ts" "iv_get ts = (thread s)(current s \<mapsto> left fr k x s ct, n \<mapsto> nt\<lparr>th_state := Running\<rparr>)"
    using sched_switch_eq [OF _ _ _ ct ne nxt(1,2) nt lv, of fr k] i by blast
  let ?s = "s\<lparr>threads := ts, ready := q', mach := switched n nt (mach s)\<rparr>"
  have "sts ?s = (sts s)(current s := Some x, n := Some Running)" using ts(2) by (auto simp: sts_def left_def)
  with core have "core_ok ?s" by (simp add: core_ok_def)
  moreover have "konts_ok ?s" by (rule konts_switch [of s n nt k]) (use i nt ts(2) in simp_all)
  ultimately have "data_ok ?s" using ts i by (simp add: data_ok_def)
  moreover have "th_kont nt \<noteq> Return ExitingR" "th_kont nt \<noteq> IrqReturn False"
    using i nt nxt(2) by (auto simp: konts_ok_def kont_ok_def)
  ultimately have "handed_over s (th_kont nt) ?s"
    using i nt nxt(2) ts(2) by (auto simp: handed_over_def left_def)
  moreover have "sched fr k reason s = Inr (th_kont nt, ?s)" by (simp add: sched.simps sw)
  ultimately show ?thesis by (intro exI [of _ "th_kont nt"] exI [of _ ?s]) simp
qed

text \<open>The queue after a switch: the first thread is taken, and at most the thread that was running is added.\<close>

lemma sched_yields:
  assumes "inside k s" "core_ok s"
  shows "\<exists>k' s'. sched fr k YieldingR s = Inr (k', s') \<and> handed_over s k' s' \<and>
    (case ready s of
       [] \<Rightarrow> s' = s \<and> k' = k
     | n # q \<Rightarrow> current s' = n \<and> ready s' = (if current s \<noteq> IDLE_THREAD_ID then q @ [current s] else q))"
proof (cases "ready s")
  case Nil
  have "sched_switch fr k YieldingR s = Inr None" using assms(1) Nil by (simp add: sched_switch_def inside_def)
  moreover have "handed_over s k s"
    using assms by (simp add: handed_over_def inside_def data_ok_def kont_ok_def)
  ultimately show ?thesis using Nil by (simp add: sched.simps)
next
  case (Cons n q)
  have c: "core (current s) (sts s) (n # q) (waiters s) (sleepers (timers s))" using assms(2) Cons by (simp add: core_ok_def)
  have n: "n \<noteq> current s" "sts s n = Some Ready" "sts s (current s) = Some Running"
    using core_facts(2) [OF c, of n] core_facts(4) [OF c, of n] core_facts(4) [OF c, of "current s"] by auto
  let ?q = "if current s \<noteq> IDLE_THREAD_ID then q @ [current s] else q"
  have "\<exists>k' s'. sched fr k YieldingR s = Inr (k', s') \<and> handed_over s k' s' \<and> current s' = n \<and> ready s' = ?q"
    by (rule sched_hands_over [OF assms(1) n(3), where q = q and x = Ready])
      (use n core_yield [OF c] Cons in \<open>simp_all add: next_thread_def leave_thread_def\<close>)
  with Cons show ?thesis by simp
qed

definition head_or_idle :: "nat list \<Rightarrow> nat \<times> nat list" where
  "head_or_idle q = (case q of [] \<Rightarrow> (IDLE_THREAD_ID, []) | i # rest \<Rightarrow> (i, rest))"

lemma sched_sleeps:
  assumes "inside k s" "current s \<noteq> IDLE_THREAD_ID" "core (current s) (sts s) (ready s) (waiters s) Z"
    and "mset (sleepers (timers s)) = add_mset (current s) (mset Z)" "head_or_idle (ready s) = (n, q)"
  shows "\<exists>k' s'. sched fr k SleepingR s = Inr (k', s') \<and> handed_over s k' s' \<and> current s' = n \<and> ready s' = q"
proof -
  have h: "(n, q) = (case ready s of [] \<Rightarrow> (IDLE_THREAD_ID, []) | i # rest \<Rightarrow> (i, rest))"
    using assms(5) by (simp add: head_or_idle_def)
  note b = core_block [OF assms(3,2) h]
  have "core n ((sts s)(current s := Some Sleeping, n := Some Running)) q (waiters s) (sleepers (timers s))"
    using b(4) core_perm [of "sleepers (timers s)" "Z @ [current s]"] assms(4) by simp
  then show ?thesis
    using b(1,2) core_facts(4) [OF assms(3), of "current s"] h
    by (intro sched_hands_over [OF assms(1), where x = Sleeping and q = q]) (simp_all add: next_thread_def leave_thread_def)
qed

lemma sched_waits:
  assumes "inside k s" "current s \<noteq> IDLE_THREAD_ID" "core (current s) (sts s) (ready s) W (sleepers (timers s))"
    and "waiters s = W(w := W w @ [current s])" "head_or_idle (ready s) = (n, q)"
  shows "\<exists>k' s'. sched fr k WaitingR s = Inr (k', s') \<and> handed_over s k' s' \<and> current s' = n \<and> ready s' = q"
proof -
  have h: "(n, q) = (case ready s of [] \<Rightarrow> (IDLE_THREAD_ID, []) | i # rest \<Rightarrow> (i, rest))"
    using assms(5) by (simp add: head_or_idle_def)
  note b = core_block [OF assms(3,2) h]
  have "core n ((sts s)(current s := Some Waiting, n := Some Running)) q (waiters s) (sleepers (timers s))"
    using b(5) [of w] by (simp only: assms(4))
  then show ?thesis
    using b(1,2) core_facts(4) [OF assms(3), of "current s"] h
    by (intro sched_hands_over [OF assms(1), where x = Waiting and q = q]) (simp_all add: next_thread_def leave_thread_def)
qed

lemma core_exit:
  assumes "core cur st q W Z" "cur \<noteq> IDLE_THREAD_ID"
  shows "core IDLE_THREAD_ID (st(cur := None, IDLE_THREAD_ID := Some Running)) q W Z"
proof -
  note f = core_facts [OF assms(1)]
  have n: "st IDLE_THREAD_ID = Some Ready" using f(3) f(4) [of IDLE_THREAD_ID] assms(2) by auto
  have c: "cur \<notin> set q" "\<And>w. cur \<notin> set (W w)" "cur \<notin> set Z" "\<And>w. IDLE_THREAD_ID \<notin> set (W w)" "IDLE_THREAD_ID \<notin> set Z"
    using f(2) [of cur] f(4) [of cur] f(8) [of cur] f(10) [of cur] f(8) [of IDLE_THREAD_ID] f(10) [of IDLE_THREAD_ID] n by auto
  have "st cur \<noteq> Some Ready" using f(4) [of cur] by simp
  then show ?thesis unfolding core_def using f(1,2,4-6,9) f(8,10) n c assms(2) by (auto dest: f(7))
qed

text \<open>An exiting thread is cleaned up on the stack of the idle thread, which then yields.\<close>

lemma sched_exits:
  assumes "inside k s" "current s \<noteq> IDLE_THREAD_ID" "core_ok s"
  shows "\<exists>k' s'. sched fr (Return ExitingR) ExitingR s = Inr (k', s') \<and> handed_over s k' s' \<and>
    (current s', ready s') = head_or_idle (ready s) \<and> thread s' (current s) = None"
proof -
  let ?c = "current s"
  note i = assms(1) [unfolded inside_def]
  have c: "core ?c (sts s) (ready s) (waiters s) (sleepers (timers s))" using assms(3) by (simp add: core_ok_def)
  obtain ct where ct: "thread s ?c = Some ct" "th_state ct = Running" using core_facts(4) [OF c, of ?c] by (auto simp: sts_def)
  have "sts s IDLE_THREAD_ID = Some Ready" using core_facts(3) [OF c] core_facts(4) [OF c, of IDLE_THREAD_ID] assms(2) by auto
  then obtain t0 where t0: "thread s IDLE_THREAD_ID = Some t0" by (auto simp: sts_def)
  have k0: "kont_ok IDLE_THREAD_ID (th_kont t0)" using i t0 assms(2) by (auto simp: konts_ok_def)
  obtain ts where sw: "sched_switch fr (Return ExitingR) ExitingR s =
        Inr (Some (Cleanup ?c, th_kont t0, s\<lparr>threads := ts, ready := ready s, mach := switched IDLE_THREAD_ID t0 (mach s)\<rparr>))"
      and ts: "iv_ok ts" "iv_get ts = (thread s)(?c \<mapsto> left fr (Return ExitingR) Exiting s ct, IDLE_THREAD_ID \<mapsto> t0\<lparr>th_state := Running\<rparr>)"
    using sched_switch_eq [of s ct ExitingR IDLE_THREAD_ID "ready s" t0 Exiting "ready s" "Cleanup ?c" fr "Return ExitingR"] i ct t0 assms(2)
    by (auto simp: next_thread_def leave_thread_def)
  let ?s1 = "s\<lparr>threads := ts, ready := ready s, mach := switched IDLE_THREAD_ID t0 (mach s)\<rparr>"
  obtain ts' where rm: "iv_remove ts ?c = Some (left fr (Return ExitingR) Exiting s ct, ts')" and ts': "iv_ok ts'" "iv_get ts' = (iv_get ts)(?c := None)"
    using ts assms(2) by (auto intro: iv.removeE)
  define s2 where "s2 = ?s1\<lparr>threads := ts'\<rparr>"
  have r2: "ready s2 = ready s" "current s2 = IDLE_THREAD_ID" by (simp_all add: s2_def)
  have th2: "thread s2 = (thread s)(?c := None, IDLE_THREAD_ID \<mapsto> t0\<lparr>th_state := Running\<rparr>)"
    using ts' ts(2) assms(2) by (auto simp: s2_def)
  have cl: "clean_up ?c ?s1 = Inr s2" using ts(2) rm assms(2) by (simp add: clean_up_def iv_get_mut_eq left_def s2_def)
  have "sts s2 = (sts s)(?c := None, IDLE_THREAD_ID := Some Running)" using th2 by (auto simp: sts_def)
  then have c2: "core_ok s2" using core_exit [OF c assms(2)] by (simp add: core_ok_def s2_def)
  have "konts_ok s2" using i th2 r2 by (auto simp: konts_ok_def split: if_splits)
  then have in2: "inside (th_kont t0) s2" using i ts'(1) k0 by (simp add: inside_def s2_def)
  obtain k' s' where y: "sched fr (th_kont t0) YieldingR s2 = Inr (k', s')" "handed_over s2 k' s'"
      "case ready s of [] \<Rightarrow> s' = s2 \<and> k' = th_kont t0 | n # q \<Rightarrow> current s' = n \<and> ready s' = q"
    using sched_yields [OF in2 c2, of fr] unfolding r2 by (cases "ready s") auto
  have "sched fr (Return ExitingR) ExitingR s = Inr (k', s')"
    using k0 y(1) cl by (subst sched.simps) (simp add: sw kont_ok_def)
  moreover have q: "(current s', ready s') = head_or_idle (ready s)"
    using y(3) r2 by (auto simp: head_or_idle_def split: list.splits)
  moreover have "thread s' ?c = None" using handed_over_proc [OF y(2), of ?c] th2 r2 assms(2) by simp
  moreover have "handed_over s k' s'"
  proof (cases "ready s")
    case Nil
    then show ?thesis using y(2,3) th2 r2 assms(2) t0 by (auto simp: handed_over_def s2_def)
  next
    case (Cons n q)
    then have "n \<noteq> IDLE_THREAD_ID" "n \<noteq> ?c" using core_facts(2) [OF c, of n] core_facts(4) [OF c, of n] by auto
    then show ?thesis using y(2,3) th2 r2 assms(2) Cons by (auto simp: handed_over_def)
  qed
  ultimately show ?thesis by blast
qed

section \<open>The kernel as a transition system\<close>

datatype 'f event =
    Spawn "64 word" "nat option" "64 word" nat nat
  | Yield
  | Exit
  | Sleep nat
  | WaitOn nat
  | WakeOne nat
  | WakeAll nat
  | TaskSpawn 'f
  | TaskWake nat
  | TimerIrq
  | Activate proc

text \<open>Vector 32 is the timer; the page fault handler is not called for it.\<close>

definition run_event :: "(nat \<Rightarrow> switch_frame) \<Rightarrow> 'f event \<Rightarrow> 'f kernel \<Rightarrow> sched_error + 'f kernel" where
  "run_event fr ev s =
     (case ev of
        Spawn stub stack fn sz al \<Rightarrow> thread_spawn stub stack fn sz al s
      | Yield \<Rightarrow> thread_yield fr s
      | Exit \<Rightarrow> thread_exit fr s
      | Sleep d \<Rightarrow> thread_sleep fr d s
      | WaitOn w \<Rightarrow> wait_on fr w s
      | WakeOne w \<Rightarrow> wake_one w s
      | WakeAll w \<Rightarrow> wake_all w s
      | TaskSpawn f \<Rightarrow> task_spawn f s
      | TaskWake i \<Rightarrow> task_wake i s
      | TimerIrq \<Rightarrow> irq (\<lambda>s. Inl Unhandled) fr 32 s
      | Activate p \<Rightarrow> Inr (s\<lparr>mach := activate p (mach s)\<rparr>))"

text \<open>
  What a caller has to observe: there is a stack and the body fits on it, the idle thread neither exits nor blocks, and the
  tick counter does not overflow.
\<close>

definition enabled :: "'f event \<Rightarrow> 'f kernel \<Rightarrow> bool" where
  "enabled ev s =
     (case ev of
        Spawn stub stack fn sz al \<Rightarrow>
          (case stack of None \<Rightarrow> False
           | Some a \<Rightarrow> a - KERNEL_STACK_SIZE + MIN_STACK \<le> align_down (align_down (a - sz) al) 16)
      | Exit \<Rightarrow> current s \<noteq> IDLE_THREAD_ID
      | Sleep d \<Rightarrow> current s \<noteq> IDLE_THREAD_ID \<and> ticks (mach s) + div_ceil d TICK_NS < 2 ^ 64
      | WaitOn w \<Rightarrow> current s \<noteq> IDLE_THREAD_ID
      | _ \<Rightarrow> True)"

definition switches :: "'f event \<Rightarrow> bool" where
  "switches ev = (case ev of Yield \<Rightarrow> True | Exit \<Rightarrow> True | Sleep d \<Rightarrow> True | WaitOn w \<Rightarrow> True | TimerIrq \<Rightarrow> True | _ \<Rightarrow> False)"

text \<open>The queue is first in, first out, and an event that switches runs its first thread.\<close>

definition fifo :: "bool \<Rightarrow> 'f kernel \<Rightarrow> 'f kernel \<Rightarrow> bool" where
  "fifo b s s' \<longleftrightarrow>
     (if b then (case ready s of [] \<Rightarrow> True | n # q \<Rightarrow> current s' = n \<and> (\<exists>xs. ready s' = q @ xs))
      else current s' = current s \<and> (\<exists>xs. ready s' = ready s @ xs))"

definition proc_kept :: "'f kernel \<Rightarrow> 'f kernel \<Rightarrow> bool" where
  "proc_kept s s' \<longleftrightarrow>
     (current s' \<noteq> current s \<longrightarrow>
        (\<forall>t p. thread s (current s') = Some t \<longrightarrow> th_proc t = Some p \<longrightarrow> current_proc (mach s') = Some p \<and> cr3 (mach s') = page_table p) \<and>
        (\<forall>t. thread s' (current s) = Some t \<longrightarrow> th_proc t = current_proc (mach s))) \<and>
     (\<forall>i. i \<noteq> current s \<longrightarrow> i \<noteq> IDLE_THREAD_ID \<longrightarrow> thread s i \<noteq> None \<longrightarrow> map_option th_proc (thread s' i) = map_option th_proc (thread s i))"

definition event_ok :: "bool \<Rightarrow> 'f kernel \<Rightarrow> sched_error + 'f kernel \<Rightarrow> bool" where
  "event_ok b s r \<longleftrightarrow> (\<exists>s'. r = Inr s' \<and> kernel_ok s' \<and> fifo b s s' \<and> proc_kept s s')"

section \<open>Every event\<close>

definition released :: "'f kernel \<Rightarrow> 'f kernel" where
  "released s = s\<lparr>sched_locked := False, mach := (mach s)\<lparr>irq_lock_count := 0, int_flag := True\<rparr>\<rparr>"

lemma resume_eq: "handed_over s k s' \<Longrightarrow> resume (k, s') = Inr (released s')"
  by (cases k) (auto simp: handed_over_def resume_def sched_unlock_def guard_leave_def drop_without_disabling_def released_def
      fetch_sub_def Let_def)

lemma released_ok: "handed_over s k s' \<Longrightarrow> kernel_ok (released s')"
  by (auto simp: handed_over_def released_def kernel_inv_def data_ok_def konts_ok_def core_ok_def sts_def [abs_def] irq_ok_def)

lemma released_simps [simp]:
  "current (released s) = current s" "ready (released s) = ready s" "threads (released s) = threads s"
  "current_proc (mach (released s)) = current_proc (mach s)" "cr3 (mach (released s)) = cr3 (mach s)"
  by (simp_all add: released_def)

text \<open>From the scheduler back to the threads; the caller may have changed what does not matter for queue and processes.\<close>

lemma event_handed_over:
  assumes "handed_over s1 k' s'"
    and "current s1 = current s" "\<And>i. map_option th_proc (thread s1 i) = map_option th_proc (thread s i)" "current_proc (mach s1) = current_proc (mach s)"
    and "case ready s of [] \<Rightarrow> True | n # q \<Rightarrow> current s' = n \<and> (\<exists>xs. ready s' = q @ xs)"
  shows "event_ok True s (resume (k', s'))"
proof -
  have "\<exists>t'. thread s1 i = Some t' \<and> th_proc t' = th_proc t" if "thread s i = Some t" for i t
    using assms(3) [of i] that by auto
  then have "proc_kept s (released s')" using assms(1,2,4) assms(3) unfolding proc_kept_def handed_over_def by simp metis
  moreover have "fifo True s (released s')" using assms(5) by (simp add: fifo_def split: list.splits)
  ultimately show ?thesis using resume_eq [OF assms(1)] released_ok [OF assms(1)] by (auto simp: event_ok_def)
qed

lemma inside_under_lock: "kernel_ok s \<Longrightarrow> kont_ok (current s) k \<Longrightarrow> inside k (under_lock s)"
  by (auto simp: kernel_inv_def data_ok_def inside_def konts_ok_def)

lemma kont_ok_Return [simp]: "kont_ok i (Return r) \<longleftrightarrow> r \<noteq> ExitingR \<and> (i = IDLE_THREAD_ID \<longrightarrow> r = YieldingR)"
  by (auto simp: kont_ok_def reason_of_def)

lemma core_ok_under_lock [simp]: "core_ok (under_lock s) = core_ok s"
  by (simp add: core_ok_def sts_def [abs_def])

lemma head_or_idle_fifo:
  "(n, q) = head_or_idle (ready s) \<Longrightarrow> current s' = n \<Longrightarrow> ready s' = q \<Longrightarrow>
    case ready s of [] \<Rightarrow> True | n # q \<Rightarrow> current s' = n \<and> (\<exists>xs. ready s' = q @ xs)"
  by (simp add: head_or_idle_def split: list.splits)

lemma yield_event: "kernel_ok s \<Longrightarrow> event_ok True s (thread_yield fr s)"
proof -
  assume ok: "kernel_ok s"
  note inv = kernel_invE [OF ok]
  obtain k' s' where y: "sched fr (Return YieldingR) YieldingR (under_lock s) = Inr (k', s')" "handed_over (under_lock s) k' s'"
      "case ready s of [] \<Rightarrow> s' = under_lock s \<and> k' = Return YieldingR
       | n # q \<Rightarrow> current s' = n \<and> ready s' = (if current s \<noteq> IDLE_THREAD_ID then q @ [current s] else q)"
    using sched_yields [OF inside_under_lock [OF ok], of "Return YieldingR" fr] inv(1) by (cases "ready s") (auto simp: data_ok_def)
  have "event_ok True s (resume (k', s'))"
    by (rule event_handed_over [OF y(2)]) (use y(3) in \<open>auto split: list.splits\<close>)
  then show ?thesis using y(1) inv(2) by (simp add: thread_yield_def sched_lock_eq bind_sum_def call_sched_def)
qed

lemma exit_event: "kernel_ok s \<Longrightarrow> current s \<noteq> IDLE_THREAD_ID \<Longrightarrow> event_ok True s (thread_exit fr s)"
proof -
  assume ok: "kernel_ok s" and c: "current s \<noteq> IDLE_THREAD_ID"
  note inv = kernel_invE [OF ok]
  have "inside (Return YieldingR) (under_lock s)" using inside_under_lock [OF ok] by simp
  then obtain k' s' where y: "sched fr (Return ExitingR) ExitingR (under_lock s) = Inr (k', s')" "handed_over (under_lock s) k' s'"
      "(current s', ready s') = head_or_idle (ready s)"
    using sched_exits [of "Return YieldingR" "under_lock s" fr] c inv(1) by (auto simp: data_ok_def)
  have "event_ok True s (resume (k', s'))"
    by (rule event_handed_over [OF y(2)]) (use head_or_idle_fifo [OF y(3), of s'] in simp_all)
  then show ?thesis using y(1) inv(2) by (simp add: thread_exit_def sched_lock_eq bind_sum_def call_sched_def)
qed

lemma sleep_event:
  assumes ok: "kernel_ok s" and c: "current s \<noteq> IDLE_THREAD_ID" and t: "ticks (mach s) + div_ceil d TICK_NS < 2 ^ 64"
  shows "event_ok True s (thread_sleep fr d s)"
proof -
  note inv = kernel_invE [OF ok]
  let ?q = "timer_insert (div_ceil d TICK_NS) (WakeThread (current s)) (timers s)"
  let ?s = "(under_lock s)\<lparr>timers := ?q\<rparr>"
  obtain n q where h: "head_or_idle (ready s) = (n, q)" by (cases "head_or_idle (ready s)")
  have "inside (Return SleepingR) (under_lock s)" using inside_under_lock [OF ok] c by simp
  then have "inside (Return SleepingR) ?s" by (simp add: inside_def konts_ok_def)
  then obtain k' s' where y: "sched fr (Return SleepingR) SleepingR ?s = Inr (k', s')" "handed_over ?s k' s'" "current s' = n" "ready s' = q"
    using sched_sleeps [of "Return SleepingR" ?s "sleepers (timers s)" n q fr] c h inv(6) sleepers_insert
    by (auto simp: sts_def [abs_def])
  have "event_ok True s (resume (k', s'))"
    by (rule event_handed_over [OF y(2)]) (use head_or_idle_fifo [OF h [symmetric] y(3,4)] in simp_all)
  then show ?thesis using y(1) inv(2) t
    by (simp add: thread_sleep_def sched_lock_eq bind_sum_def call_sched_def run_later_def Let_def)
qed

lemma wait_event:
  assumes ok: "kernel_ok s" and c: "current s \<noteq> IDLE_THREAD_ID"
  shows "event_ok True s (wait_on fr w s)"
proof -
  note inv = kernel_invE [OF ok]
  define s1 where "s1 = (under_lock s)\<lparr>waiters := (waiters s)(w := waiters s w @ [current s])\<rparr>"
  have s1: "waiters s1 = (waiters s)(w := waiters s w @ [current s1])" "ready s1 = ready s" "current s1 = current s" "threads s1 = threads s"
      "timers s1 = timers s" "current_proc (mach s1) = current_proc (mach s)" "sts s1 = sts s"
    by (simp_all add: s1_def sts_def [abs_def])
  obtain n q where h: "head_or_idle (ready s) = (n, q)" by (cases "head_or_idle (ready s)")
  have "inside (Return WaitingR) (under_lock s)" using inside_under_lock [OF ok] c by simp
  then have "inside (Return WaitingR) s1" by (simp add: s1_def inside_def konts_ok_def)
  then obtain k' s' where y: "sched fr (Return WaitingR) WaitingR s1 = Inr (k', s')" "handed_over s1 k' s'" "current s' = n" "ready s' = q"
    using sched_waits [of "Return WaitingR" s1 "waiters s" w n q fr] c h inv(6) s1 by auto
  have "event_ok True s (resume (k', s'))"
    by (rule event_handed_over [OF y(2)]) (use head_or_idle_fifo [OF h [symmetric] y(3,4)] s1 in simp_all)
  then show ?thesis using y(1) inv(2)
    by (simp add: wait_on_def sched_lock_eq bind_sum_def call_sched_def flip: s1_def)
qed

lemma woke_event: "kernel_ok s' \<Longrightarrow> woke s s' \<Longrightarrow> event_ok False s (Inr s')"
  by (auto simp: event_ok_def fifo_def proc_kept_def woke_def)

lemma spawn_event:
  assumes ok: "kernel_ok s" and "a - KERNEL_STACK_SIZE + MIN_STACK \<le> align_down (align_down (a - sz) al) 16"
  shows "event_ok False s (thread_spawn stub (Some a) fn sz al s)"
proof -
  note inv = kernel_invE [OF ok]
  define t where "t = \<lparr>th_stack = a, th_regs = switch_frame_default\<lparr>sf_rip := stub, sf_rbx := fn,
      sf_rsp := of_nat (align_down (align_down (a - sz) al) 16)\<rparr>, th_proc = None, th_state = Ready, th_kont = ThreadEntry\<rparr>"
  obtain i ts where i: "iv_insert (threads s) t = Some (i, ts)" "iv_ok ts" "thread s i = None" "iv_get ts = (thread s)(i \<mapsto> t)"
    using inv(5) by (rule iv.insertE)
  let ?s = "(under_lock s)\<lparr>threads := ts, ready := ready s @ [i]\<rparr>"
  have n: "sts s i = None" using i(3) by (simp add: sts_def)
  have "i \<noteq> IDLE_THREAD_ID" "i \<noteq> current s" using core_facts(3) [OF inv(6)] core_facts(4) [OF inv(6), of i] n by auto
  then have k: "konts_ok ?s" using inv(7) i(4) by (auto simp: konts_ok_def kont_ok_def t_def)
  have "sts ?s = (sts s)(i := Some Ready)" using i(4) by (auto simp: sts_def t_def)
  then have "core_ok ?s" using core_spawn [OF inv(6) n] by (simp add: core_ok_def)
  with k have d: "data_ok ?s" using i(2) inv(8) by (simp add: data_ok_def)
  have u: "kernel_ok (sched_unlock ?s)" using unlock_inv [OF d, of "mach s"] inv(3,4) by simp
  have m: "mach (sched_unlock ?s) = mach s" using guard_leave_enter [OF inv(4)] by (simp add: sched_unlock_def)
  have "thread_spawn stub (Some a) fn sz al s = Inr (sched_unlock ?s)"
    using i(1) inv(2) assms(2) by (simp add: thread_spawn_def sched_lock_eq bind_sum_def spawn_inner_def Let_def flip: t_def)
  moreover have "fifo False s (sched_unlock ?s)" using m by (simp add: fifo_def sched_unlock_def)
  moreover have "proc_kept s (sched_unlock ?s)" using m i(3,4) by (auto simp: proc_kept_def sched_unlock_def)
  ultimately show ?thesis using u by (simp add: event_ok_def)
qed

lemma irq_event:
  assumes ok: "kernel_ok s"
  shows "event_ok True s (irq pf fr 32 s)"
proof -
  note inv = kernel_invE [OF ok]
  define s1 where "s1 = s\<lparr>mach := guard_enter ((mach s)\<lparr>int_flag := False\<rparr>)\<rparr>"
  have f: "int_flag (mach s)" using inv(3,4) by (simp add: irq_ok_def)
  have "kernel_inv 1 s1"
    using inv(1-3) by (simp add: s1_def kernel_inv_def data_ok_def konts_ok_def core_ok_def sts_def [abs_def])
  from timer_interrupt_ok [OF this] obtain s2 where s2: "timer_interrupt s1 = Inr s2" "kernel_inv 1 s2" "irq_need_resched (mach s2)"
      "current s2 = current s" "current_proc (mach s2) = current_proc (mach s)" "\<exists>xs. ready s2 = ready s @ xs"
      "\<And>i. map_option th_proc (thread s2 i) = map_option th_proc (thread s i)"
    by (auto simp: s1_def)
  note inv2 = kernel_invE [OF s2(2)]
  define s3 where "s3 = s2\<lparr>mach := (mach s2)\<lparr>irq_need_resched := False\<rparr>, sched_locked := True\<rparr>"
  have in3: "inside (IrqReturn True) s3" "core_ok s3"
    using inv2 by (auto simp: s3_def inside_def konts_ok_def core_ok_def sts_def [abs_def] irq_ok_def kont_ok_def reason_of_def)
  obtain k' s' where y: "sched fr (IrqReturn True) YieldingR s3 = Inr (k', s')" "handed_over s3 k' s'"
      "case ready s2 of [] \<Rightarrow> s' = s3 \<and> k' = IrqReturn True | n # q \<Rightarrow> current s' = n \<and> (\<exists>xs. ready s' = q @ xs)"
    using sched_yields [OF in3, of fr] by (cases "ready s2") (auto simp: s3_def split: if_splits)
  have "event_ok True s (resume (k', s'))"
    by (rule event_handed_over [OF y(2)]) (use s2(4-7) y(3) in \<open>auto simp: s3_def split: list.splits\<close>)
  moreover have "irq pf fr 32 s = resume (k', s')"
    using s2(1,3) inv2(2,3) f y(1)
    by (simp add: irq_def int_handler_def int_dispatch_def try_from_u8_def bind_sum_def drop_would_reenable_def
        lock_with_interrupt_guard_def flip: s1_def s3_def)
  ultimately show ?thesis by simp
qed

lemma activate_event: "kernel_ok s \<Longrightarrow> event_ok False s (Inr (s\<lparr>mach := activate p (mach s)\<rparr>))"
  by (auto simp: event_ok_def fifo_def proc_kept_def activate_eq kernel_inv_def data_ok_def konts_ok_def core_ok_def sts_def [abs_def] irq_ok_def)

lemma event_runs:
  assumes "kernel_ok s" "enabled ev s"
  shows "event_ok (switches ev) s (run_event fr ev s)"
proof (cases ev)
  case (Spawn stub stack fn sz al)
  with assms spawn_event [OF assms(1), of _ sz al stub fn] show ?thesis
    by (auto simp: enabled_def run_event_def switches_def split: option.splits)
next
  case (Sleep d)
  then show ?thesis using assms sleep_event [of s d fr] by (simp add: enabled_def run_event_def switches_def)
next
  case (WakeOne w)
  then show ?thesis using wake_one_ok [OF assms(1), of w] woke_event by (auto simp: run_event_def switches_def)
next
  case (WakeAll w)
  then show ?thesis using wake_all_ok [OF assms(1), of w] woke_event by (auto simp: run_event_def switches_def)
next
  case (TaskSpawn f)
  then show ?thesis using task_spawn_ok [OF assms(1), of f] woke_event by (auto simp: run_event_def switches_def)
next
  case (TaskWake i)
  then show ?thesis using task_wake_ok [OF assms(1), of i] woke_event by (auto simp: run_event_def switches_def)
qed (use assms yield_event exit_event wait_event irq_event activate_event in \<open>simp_all add: enabled_def run_event_def switches_def\<close>)

section \<open>Reachable states\<close>

text \<open>Boot: the machine is set up, and the main function enters its own thread with interrupts off and then turns them on.
  The calls between them do not act here: \<^verbatim>\<open>tasks::init\<close> spawns the thread of the executor, which is a \<^verbatim>\<open>Spawn\<close> event of the
  transition system below, and \<^verbatim>\<open>ramfs::init\<close> (\<^verbatim>\<open>Ram_Fs\<close>) does not use the scheduler.\<close>

definition kernel_boot :: "nat \<Rightarrow> 'f kernel" where
  "kernel_boot table =
     \<lparr>mach = mach_new table, threads = iv_new, ready = [], sched_locked = False, timers = timer_new, waiters = (\<lambda>w. []),
      executor = exec_new\<rparr>"

definition kernel_main :: "nat \<Rightarrow> nat \<Rightarrow> sched_error + 'f kernel" where
  "kernel_main table stack =
     (let s = kernel_boot table
      in map_sum (\<lambda>e. e) (\<lambda>s. s\<lparr>mach := guard_leave (mach s)\<rparr>) (sched_init stack (s\<lparr>mach := guard_enter (mach s)\<rparr>)))"

inductive kernel_step :: "'f kernel \<Rightarrow> 'f kernel \<Rightarrow> bool" where
  "enabled ev s \<Longrightarrow> run_event fr ev s = Inr s' \<Longrightarrow> kernel_step s s'"

definition idle_start :: "nat \<Rightarrow> sched_thread" where
  "idle_start stack =
     \<lparr>th_stack = stack, th_regs = switch_frame_default, th_proc = None, th_state = Running, th_kont = Return YieldingR\<rparr>"

definition kernel_started :: "nat \<Rightarrow> nat \<Rightarrow> 'f kernel" where
  "kernel_started table stack =
     (kernel_boot table)\<lparr>mach := (mach_new table)\<lparr>int_flag := True\<rparr>, threads := \<lparr>iv_list = [Some (idle_start stack)], iv_free = []\<rparr>\<rparr>"

lemma kernel_main_eq: "kernel_main table stack = Inr (kernel_started table stack)"
  by (simp add: kernel_main_def kernel_boot_def kernel_started_def sched_init_def sched_lock_def bind_sum_def iv_insert_def iv_new_def
      mach_new_def guard_enter_def guard_leave_def fetch_sub_def sched_unlock_def IDLE_THREAD_ID_def Let_def idle_start_def)

lemma kernel_started_ok: "kernel_ok (kernel_started table stack :: 'f kernel)"
proof -
  let ?s = "kernel_started table stack :: 'f kernel"
  have t: "threads ?s = \<lparr>iv_list = [Some (idle_start stack)], iv_free = []\<rparr>" by (simp add: kernel_started_def)
  have g: "thread ?s = [IDLE_THREAD_ID \<mapsto> idle_start stack]" by (auto simp: t iv_get_def IDLE_THREAD_ID_def)
  have st: "sts ?s = [IDLE_THREAD_ID \<mapsto> Running]" by (auto simp: sts_def g idle_start_def)
  have "core IDLE_THREAD_ID [IDLE_THREAD_ID \<mapsto> Running] [] (\<lambda>w. []) []" by (auto simp: core_def)
  moreover have "current ?s = IDLE_THREAD_ID" "ready ?s = []" "waiters ?s = (\<lambda>w. [])" "timers ?s = []"
    by (simp_all add: kernel_started_def kernel_boot_def mach_new_def timer_new_def IDLE_THREAD_ID_def)
  ultimately have "core_ok ?s" by (simp add: core_ok_def st)
  moreover have "konts_ok ?s" using g by (auto simp: konts_ok_def kernel_started_def mach_new_def IDLE_THREAD_ID_def)
  moreover have "iv_ok (threads ?s)" by (auto simp: t iv_ok_def)
  ultimately show ?thesis
    by (simp add: kernel_inv_def data_ok_def kernel_started_def kernel_boot_def mach_new_def irq_ok_def exec_new_def iv.empty)
qed

lemma kernel_step_ok: "kernel_step s s' \<Longrightarrow> kernel_ok s \<Longrightarrow> kernel_ok s'"
proof (induction rule: kernel_step.induct)
  case (1 ev s fr s')
  then show ?case using event_runs [OF 1(3,1), of fr] by (simp add: event_ok_def)
qed

lemma kernel_reachable_ok: "kernel_main table stack = Inr s0 \<Longrightarrow> kernel_step\<^sup>*\<^sup>* s0 s \<Longrightarrow> kernel_ok s"
proof -
  assume "kernel_main table stack = Inr s0"
  then have s0: "s0 = kernel_started table stack" by (simp add: kernel_main_eq)
  assume "kernel_step\<^sup>*\<^sup>* s0 s"
  then show ?thesis by (induction rule: rtranclp_induct) (simp_all add: s0 kernel_started_ok kernel_step_ok)
qed

section \<open>Runs\<close>

text \<open>The states after each of a sequence of events.\<close>

fun run_events :: "(nat \<Rightarrow> switch_frame) \<Rightarrow> 'f event list \<Rightarrow> 'f kernel \<Rightarrow> 'f kernel list option" where
  "run_events fr [] s = Some []"
| "run_events fr (ev # evs) s =
     (if enabled ev s
      then (case run_event fr ev s of Inl e \<Rightarrow> None | Inr s' \<Rightarrow> map_option (Cons s') (run_events fr evs s'))
      else None)"

lemma run_events_ConsE:
  assumes "run_events fr (ev # evs) s = Some tr" "kernel_ok s"
  obtains s' tr' where "tr = s' # tr'" "run_event fr ev s = Inr s'" "run_events fr evs s' = Some tr'" "kernel_ok s'"
    "fifo (switches ev) s s'" "proc_kept s s'"
proof -
  have e: "enabled ev s" using assms(1) by (simp split: if_splits)
  then obtain s' where "run_event fr ev s = Inr s'" "kernel_ok s'" "fifo (switches ev) s s'" "proc_kept s s'"
    using event_runs [OF assms(2) e, of fr] by (auto simp: event_ok_def)
  with e assms(1) show ?thesis by (auto intro: that)
qed

lemma ready_runs:
  assumes "kernel_ok s" "k < length (ready s)" "ready s ! k = i" "run_events fr evs s = Some tr" "k < length (filter switches evs)"
  shows "\<exists>s'\<in>set tr. current s' = i"
  using assms
proof (induction evs arbitrary: s k tr)
  case (Cons ev evs)
  obtain s' tr' where e: "tr = s' # tr'" "run_events fr evs s' = Some tr'" "kernel_ok s'" "fifo (switches ev) s s'"
    using Cons.prems(4,1) by (rule run_events_ConsE)
  show ?case
  proof (cases "switches ev")
    case False
    then obtain xs where "ready s' = ready s @ xs" using e(4) by (auto simp: fifo_def)
    then show ?thesis using Cons.IH [OF e(3), of k tr'] Cons.prems(2,3,5) e(1,2) False by (auto simp: nth_append)
  next
    case True
    obtain n q where r: "ready s = n # q" using Cons.prems(2) by (cases "ready s") auto
    then obtain xs where s': "current s' = n" "ready s' = q @ xs" using e(4) True by (auto simp: fifo_def)
    show ?thesis
    proof (cases k)
      case 0
      then show ?thesis using Cons.prems(3) r s'(1) e(1) by auto
    next
      case (Suc m)
      then show ?thesis using Cons.IH [OF e(3), of m tr'] Cons.prems(2,3,5) e(1,2) r s'(2) True by (auto simp: nth_append)
    qed
  qed
qed simp

lemma suspended_proc:
  assumes "kernel_ok s" "thread s i = Some t" "th_proc t = Some p" "current s \<noteq> i" "i \<noteq> IDLE_THREAD_ID"
    and "run_events fr evs s = Some tr" "tr \<noteq> []" "\<forall>x\<in>set (butlast tr). current x \<noteq> i" "current (last tr) = i"
  shows "current_proc (mach (last tr)) = Some p \<and> cr3 (mach (last tr)) = page_table p"
  using assms
proof (induction evs arbitrary: s t tr)
  case (Cons ev evs)
  obtain s' tr' where e: "tr = s' # tr'" "run_events fr evs s' = Some tr'" "kernel_ok s'" "proc_kept s s'"
    using Cons.prems(6,1) by (rule run_events_ConsE)
  show ?case
  proof (cases "tr' = []")
    case True
    then show ?thesis using Cons.prems(2-4,9) e(1,4) by (auto simp: proc_kept_def)
  next
    case False
    have "map_option th_proc (thread s' i) = Some (Some p)" using e(4) Cons.prems(2-5) by (auto simp: proc_kept_def)
    then obtain t' where "thread s' i = Some t'" "th_proc t' = Some p" by auto
    moreover have "current s' \<noteq> i" "\<forall>x\<in>set (butlast tr'). current x \<noteq> i" "current (last tr') = i"
      using Cons.prems(8,9) e(1) False by auto
    ultimately show ?thesis using Cons.IH [OF e(3) _ _ _ Cons.prems(5) e(2) False] e(1) False by simp
  qed
qed simp

section \<open>Properties\<close>

text \<open>
  C1.  In every state that the kernel reaches from boot by calls of threads and timer interrupts, the scheduler invariant
  holds: one thread is running, the ready queue holds the other threads that can run, every waiting thread is in
  one wait queue and every sleeping one has one timer event, and interrupts are on.  Every call that a thread may
  make and every timer interrupt succeeds, without a panic or a deadlock, in such a state.
\<close>

theorem kernel_never_panics:
  assumes "kernel_main table stack = Inr s0" "kernel_step\<^sup>*\<^sup>* s0 s"
  shows "kernel_ok s \<and> int_flag (mach s) \<and>
    (\<forall>ev fr. enabled ev s \<longrightarrow> (\<exists>s'. run_event fr ev s = Inr s' \<and> kernel_step s s'))"
proof -
  have ok: "kernel_ok s" using assms by (rule kernel_reachable_ok)
  then have "int_flag (mach s)" by (simp add: kernel_inv_def irq_ok_def)
  moreover have "\<exists>s'. run_event fr ev s = Inr s' \<and> kernel_step s s'" if "enabled ev s" for ev fr
    using event_runs [OF ok that, of fr] kernel_step.intros [OF that, of fr] by (auto simp: event_ok_def)
  ultimately show ?thesis using ok by blast
qed

text \<open>
  C10.  Scheduling is fair: the thread at position \<open>k\<close> of the ready queue runs before \<open>k + 1\<close> further events that switch threads
  have happened; in particular within \<open>k + 1\<close> timer interrupts.
\<close>

theorem ready_thread_runs:
  assumes "kernel_main table stack = Inr s0" "kernel_step\<^sup>*\<^sup>* s0 s" "k < length (ready s)" "run_events fr evs s = Some tr"
    and "k < length (filter switches evs)"
  shows "\<exists>s'\<in>set tr. current s' = ready s ! k"
  using ready_runs [OF kernel_reachable_ok [OF assms(1,2)] assms(3) refl assms(4,5)] .

text \<open>
  C16.  A thread that was running in a process finds this process active, with its page table loaded, when it runs again,
  whatever the other threads did in between.
\<close>

theorem process_restored:
  assumes "kernel_main table stack = Inr s0" "kernel_step\<^sup>*\<^sup>* s0 s" "current s \<noteq> IDLE_THREAD_ID" "current_proc (mach s) = Some p"
    and "run_events fr (ev # evs) s = Some (s1 # tr)" "current s1 \<noteq> current s" "thread s1 (current s) \<noteq> None"
    and "tr \<noteq> []" "\<forall>x\<in>set (butlast tr). current x \<noteq> current s" "current (last tr) = current s"
  shows "current_proc (mach (last tr)) = Some p \<and> cr3 (mach (last tr)) = page_table p"
proof -
  have ok: "kernel_ok s" using assms(1,2) by (rule kernel_reachable_ok)
  have s1: "run_events fr evs s1 = Some tr" "kernel_ok s1" "proc_kept s s1"
    using run_events_ConsE [OF assms(5) ok] by auto
  obtain t where t: "thread s1 (current s) = Some t" using assms(7) by auto
  then have "th_proc t = Some p" using s1(3) assms(4,6) by (simp add: proc_kept_def)
  then show ?thesis by (rule suspended_proc [OF s1(2) t _ assms(6,3) s1(1) assms(8-10)])
qed

section \<open>Witnesses\<close>

definition first_kernel :: "nat kernel" where
  "first_kernel = kernel_started 1 4194304"

definition no_frame :: "nat \<Rightarrow> switch_frame" where
  "no_frame i = switch_frame_default"

definition some_proc :: proc where
  "some_proc = \<lparr>proc_ptr = 5, page_table = 6\<rparr>"

text \<open>Two threads are started, the first one runs and enters a process.\<close>

definition two_threads :: "nat event list" where
  "two_threads = [Spawn 1 (Some 4194304) 2 16 8, Spawn 1 (Some 8388608) 3 16 8, Yield, Activate some_proc]"

lemmas kernel_eval = run_event_def enabled_def thread_spawn_def sched_lock_def bind_sum_def spawn_inner_def align_down_def
  KERNEL_STACK_SIZE_def MIN_STACK_def iv_insert_def sched_unlock_def guard_enter_def guard_leave_def fetch_sub_def Let_def
  IDLE_THREAD_ID_def thread_yield_def call_sched_def sched_switch_def next_thread_def iv_get_mut_2_def leave_thread_def
  set_kernel_rsp_def resume_def iv_write_def activate_def idle_start_def kernel_started_def kernel_boot_def mach_new_def
  two_threads_def first_kernel_def some_proc_def sched.simps [of _ _ YieldingR]

lemma run_events_reachable: "run_events fr evs s = Some tr \<Longrightarrow> kernel_step\<^sup>*\<^sup>* s (last (s # tr))"
proof (induction evs arbitrary: s tr)
  case (Cons ev evs)
  then obtain s' tr' where "enabled ev s" "run_event fr ev s = Inr s'" "run_events fr evs s' = Some tr'" "tr = s' # tr'"
    by (auto split: if_splits sum.splits)
  with Cons.IH [of s' tr'] kernel_step.intros [of ev s fr s'] show ?case by (auto intro: converse_rtranclp_into_rtranclp)
qed simp

lemma two_threads_run:
  obtains s s1 s2 where "kernel_step\<^sup>*\<^sup>* first_kernel s" "current s = 1" "ready s = [2]" "current_proc (mach s) = Some some_proc"
    "run_events no_frame [Yield, Yield] s = Some [s1, s2]" "current s1 = 2" "thread s1 1 \<noteq> None" "current s2 = 1"
proof -
  have run: "map_option (\<lambda>tr. let s = last tr in (current s, ready s, current_proc (mach s),
      map_option (map (\<lambda>x. (current x, thread x 1 \<noteq> None))) (run_events no_frame [Yield, Yield] s))) (run_events no_frame two_threads first_kernel) =
    Some (1, [2], Some some_proc, Some [(2, True), (1, True)])"
    by (simp add: kernel_eval iv_get_def)
  then obtain tr where tr: "run_events no_frame two_threads first_kernel = Some tr" by auto
  have "tr \<noteq> []" using tr by (auto simp: two_threads_def split: if_splits sum.splits)
  then have "kernel_step\<^sup>*\<^sup>* first_kernel (last tr)" using run_events_reachable [OF tr] by simp
  with run tr show ?thesis by (auto simp: Let_def intro: that)
qed

lemma kernel_never_panics_witness:
  "kernel_main 1 4194304 = Inr first_kernel \<and> (\<exists>s'. run_event no_frame TimerIrq first_kernel = Inr s')"
proof -
  have m: "kernel_main 1 4194304 = Inr first_kernel" by (simp add: first_kernel_def kernel_main_eq)
  have "enabled TimerIrq first_kernel" by (simp add: enabled_def)
  with kernel_never_panics [OF m rtranclp.rtrancl_refl] m show ?thesis by blast
qed

lemma ready_thread_runs_witness:
  "\<exists>s tr. kernel_step\<^sup>*\<^sup>* first_kernel s \<and> ready s = [2] \<and> run_events no_frame [Yield, Yield] s = Some tr \<and> (\<exists>s'\<in>set tr. current s' = 2)"
proof -
  have m: "kernel_main 1 4194304 = Inr first_kernel" by (simp add: first_kernel_def kernel_main_eq)
  obtain s s1 s2 where s: "kernel_step\<^sup>*\<^sup>* first_kernel s" "ready s = [2]" "run_events no_frame [Yield, Yield] s = Some [s1, s2]"
    by (rule two_threads_run)
  have "\<exists>s'\<in>set [s1, s2]. current s' = ready s ! 0"
    by (rule ready_thread_runs [OF m s(1) _ s(3)]) (simp_all add: s(2) switches_def)
  then have "\<exists>s'\<in>set [s1, s2]. current s' = 2" using s(2) by simp
  with s show ?thesis by blast
qed

lemma process_restored_witness:
  "\<exists>s s1 s2. kernel_step\<^sup>*\<^sup>* first_kernel s \<and> run_events no_frame [Yield, Yield] s = Some [s1, s2] \<and> current s1 \<noteq> current s \<and>
    current s2 = current s \<and> current_proc (mach s2) = Some some_proc"
proof -
  have m: "kernel_main 1 4194304 = Inr first_kernel" by (simp add: first_kernel_def kernel_main_eq)
  obtain s s1 s2 where s: "kernel_step\<^sup>*\<^sup>* first_kernel s" "current s = 1" "current_proc (mach s) = Some some_proc"
      "run_events no_frame [Yield, Yield] s = Some [s1, s2]" "current s1 = 2" "thread s1 1 \<noteq> None" "current s2 = 1"
    by (rule two_threads_run)
  have "current_proc (mach (last [s2])) = Some some_proc \<and> cr3 (mach (last [s2])) = page_table some_proc"
    by (rule process_restored [OF m s(1) _ s(3,4)]) (use s in \<open>simp_all add: IDLE_THREAD_ID_def\<close>)
  then have "current_proc (mach s2) = Some some_proc" "current s1 \<noteq> current s" "current s2 = current s" using s by simp_all
  with s(1,4) show ?thesis by blast
qed

end
