(* ===== verification/Ring.thy ===== *)
theory Ring
  imports Prelude "HOL-Library.Monad_Syntax"
begin

text \<open>
  Circular doubly linked lists with a head node, the shape of \<^verbatim>\<open>BuddyList\<close> (\<^verbatim>\<open>memory/buddy.rs\<close>) and
  \<^verbatim>\<open>SlabList\<close> (\<^verbatim>\<open>memory/slub.rs\<close>).  \<open>links\<close> relates the successor and predecessor functions of a memory to
  the list of nodes between two ends; \<open>ring\<close> closes it on the head.  The locale \<open>ring_memory\<close> is the interface
  of a memory in which such a list is updated by pointer writes; it is interpreted on the memory of the buddy
  allocator and on that of the slab caches.
\<close>

fun links :: "('p \<Rightarrow> 'p) \<Rightarrow> ('p \<Rightarrow> 'p) \<Rightarrow> 'p \<Rightarrow> 'p list \<Rightarrow> 'p \<Rightarrow> bool" where
  "links nx pv p [] q \<longleftrightarrow> nx p = q \<and> pv q = p"
| "links nx pv p (x # xs) q \<longleftrightarrow> nx p = x \<and> pv x = p \<and> links nx pv x xs q"

definition ring :: "('p \<Rightarrow> 'p) \<Rightarrow> ('p \<Rightarrow> 'p) \<Rightarrow> 'p \<Rightarrow> 'p list \<Rightarrow> bool" where
  "ring nx pv h xs \<longleftrightarrow> links nx pv h xs h \<and> distinct (h # xs)"

lemma links_append:
  "links nx pv p (xs @ x # ys) q \<longleftrightarrow> links nx pv p xs x \<and> links nx pv x ys q"
  by (induction xs arbitrary: p) auto

lemma links_cong:
  assumes "\<And>x. x \<in> set (p # xs) \<Longrightarrow> nx' x = nx x" and "\<And>x. x \<in> set (xs @ [q]) \<Longrightarrow> pv' x = pv x"
  shows "links nx' pv' p xs q \<longleftrightarrow> links nx pv p xs q"
  using assms by (induction xs arbitrary: p) auto

lemma links_ends:
  assumes "links nx pv p xs q"
  shows "nx p = hd (xs @ [q])" and "pv q = last (p # xs)"
  using assms by (induction xs arbitrary: p) auto

lemma ring_cong:
  assumes "\<And>x. x \<in> set (h # xs) \<Longrightarrow> nx' x = nx x \<and> pv' x = pv x"
  shows "ring nx' pv' h xs \<longleftrightarrow> ring nx pv h xs"
  unfolding ring_def using assms by (subst links_cong [where nx = nx and pv = pv]) auto

lemma ring_Nil [simp]: "ring nx pv h [] \<longleftrightarrow> nx h = h \<and> pv h = h"
  by (auto simp: ring_def)

lemma ring_first: "ring nx pv h xs \<Longrightarrow> nx h = hd (xs @ [h])"
  by (auto simp: ring_def dest: links_ends)

lemma ring_last: "ring nx pv h xs \<Longrightarrow> pv h = last (h # xs)"
  by (auto simp: ring_def dest: links_ends)

lemma ring_prev_in: "ring nx pv h xs \<Longrightarrow> pv h \<in> set (h # xs)"
  by (auto dest!: ring_last)

lemma ring_next_in: "ring nx pv h xs \<Longrightarrow> nx h \<in> set (h # xs)"
  by (cases xs) (auto dest!: ring_first)

lemma ring_insert:
  assumes "ring nx pv h xs" and x: "x \<notin> set (h # xs)"
  shows "ring (nx(x := h, pv h := x)) (pv(x := pv h, h := x)) h (xs @ [x])"
proof -
  have l: "links nx pv h xs h" and d: "distinct (h # xs)" using assms(1) by (auto simp: ring_def)
  have "links (nx(x := h, pv h := x)) (pv(x := pv h, h := x)) h xs x"
  proof (cases xs rule: rev_cases)
    case Nil
    then show ?thesis using l x by auto
  next
    case (snoc ys y)
    then have y: "pv h = y" and ly: "links nx pv h ys y" using l by (auto simp: links_append)
    have "links (nx(x := h, y := x)) (pv(x := y, h := x)) h ys y"
      using ly d x snoc by (subst links_cong [where nx = nx and pv = pv]) auto
    then show ?thesis using snoc y d x by (auto simp: links_append)
  qed
  then show ?thesis using x d ring_prev_in [OF assms(1)] by (auto simp: ring_def links_append)
qed

lemma ring_neighbours:
  assumes "ring nx pv h (xs @ x # ys)"
  shows "pv x = last (h # xs)" and "nx x = hd (ys @ [h])"
  using assms by (auto simp: ring_def links_append dest: links_ends)

lemma ring_back:
  assumes "ring nx pv h (xs @ x # ys)"
  shows "nx (pv x) = x"
  using assms by (cases xs rule: rev_cases) (auto simp: ring_def links_append)

lemma ring_adjacent:
  assumes "ring nx pv h (xs @ x # ys)"
  shows "pv x \<in> set (h # xs)" and "nx x \<in> set (h # ys)"
  using ring_neighbours [OF assms] by (auto simp del: last.simps intro: last_in_set split: if_splits) (cases ys; auto)+

lemma ring_unlink:
  assumes r: "ring nx pv h (xs @ x # ys)"
  shows "ring (nx(pv x := nx x, x := z)) (pv(nx x := pv x, x := z)) h (xs @ ys)"
proof -
  have l: "links nx pv h xs x" "links nx pv x ys h" and d: "distinct (h # xs @ x # ys)"
    using r by (auto simp: ring_def links_append)
  note p = ring_neighbours(1) [OF r] and n = ring_neighbours(2) [OF r]
  let ?nx = "nx(pv x := nx x, x := z)" and ?pv = "pv(nx x := pv x, x := z)"
  have *: "links ?nx ?pv h xs (nx x)"
  proof (cases xs rule: rev_cases)
    case Nil
    then show ?thesis using p n d by (cases ys) auto
  next
    case (snoc zs y)
    have "links ?nx ?pv h zs y"
      using l(1) d snoc p n by (subst links_cong [where nx = nx and pv = pv]) (cases ys; auto simp: links_append)+
    then show ?thesis using snoc p n d by (cases ys) (auto simp: links_append)
  qed
  show ?thesis
  proof (cases ys)
    case Nil
    then show ?thesis using * n d by (auto simp: ring_def)
  next
    case (Cons w ws)
    have "links ?nx ?pv w ws h"
      using l(2) d Cons p n by (subst links_cong [where nx = nx and pv = pv]) (cases xs rule: rev_cases; auto)+
    then show ?thesis using * n d Cons by (auto simp: ring_def links_append)
  qed
qed

section \<open>The interface of a memory with rings\<close>

text \<open>
  A memory \<open>s\<close> holds nodes that can be read (\<open>node\<close>) and places a node can be written to (\<open>room\<close>); \<open>insert\<close> puts
  a node before the head and \<open>unlink\<close> takes a node out of the list it is in.  Both are sequences of pointer
  writes that fail on an inaccessible node.
\<close>

locale ring_memory =
  fixes next_of :: "'s \<Rightarrow> 'p \<Rightarrow> 'p"
    and prev_of :: "'s \<Rightarrow> 'p \<Rightarrow> 'p"
    and node :: "'s \<Rightarrow> 'p \<Rightarrow> bool"
    and room :: "'s \<Rightarrow> 'p \<Rightarrow> bool"
    and put_last :: "'p \<Rightarrow> 'p \<Rightarrow> 's \<Rightarrow> 's option"
    and take_out :: "'p \<Rightarrow> 's \<Rightarrow> 's option"
    and nil :: 'p
  assumes put_last_law: "\<lbrakk>node s h; node s (prev_of s h); room s x; x \<noteq> h; x \<noteq> prev_of s h\<rbrakk> \<Longrightarrow>
      \<exists>s'. put_last h x s = Some s' \<and> next_of s' = (next_of s)(x := h, prev_of s h := x) \<and>
           prev_of s' = (prev_of s)(x := prev_of s h, h := x) \<and> node s' = (node s)(x := True)"
    and take_out_law: "\<lbrakk>node s x; node s (prev_of s x); node s (next_of s x); prev_of s x \<noteq> x; next_of s x \<noteq> x;
        next_of s (prev_of s x) = x\<rbrakk> \<Longrightarrow>
      \<exists>s'. take_out x s = Some s' \<and> next_of s' = (next_of s)(prev_of s x := next_of s x, x := nil) \<and>
           prev_of s' = (prev_of s)(next_of s x := prev_of s x, x := nil) \<and> node s' = node s"
begin

definition holds :: "'s \<Rightarrow> 'p \<Rightarrow> 'p list \<Rightarrow> bool" where
  "holds s h xs \<longleftrightarrow> ring (next_of s) (prev_of s) h xs \<and> (\<forall>x\<in>set (h # xs). node s x)"

lemma put_last_holds:
  assumes "holds s h xs" and "x \<notin> set (h # xs)" and "room s x"
  obtains s' where "put_last h x s = Some s'" and "holds s' h (xs @ [x])"
    and "\<And>g ys. holds s g ys \<Longrightarrow> set (g # ys) \<inter> set (x # h # xs) = {} \<Longrightarrow> holds s' g ys"
    and "\<And>q. q \<notin> set (x # h # xs) \<Longrightarrow> next_of s' q = next_of s q \<and> prev_of s' q = prev_of s q"
    and "node s' = (node s)(x := True)"
proof -
  have r: "ring (next_of s) (prev_of s) h xs" and n: "\<forall>y\<in>set (h # xs). node s y"
    using assms(1) by (auto simp: holds_def)
  note pv = ring_prev_in [OF r]
  have pre: "node s h" "node s (prev_of s h)" "x \<noteq> h" "x \<noteq> prev_of s h" using n pv assms(2) by auto
  obtain s' where s': "put_last h x s = Some s'" "next_of s' = (next_of s)(x := h, prev_of s h := x)"
    "prev_of s' = (prev_of s)(x := prev_of s h, h := x)" "node s' = (node s)(x := True)"
    using put_last_law [OF pre(1,2) assms(3) pre(3,4)] by blast
  show thesis
  proof (rule that [of s'])
    show "holds s' h (xs @ [x])" using ring_insert [OF r assms(2)] n by (auto simp: holds_def s')
  next
    fix g ys assume "holds s g ys" and "set (g # ys) \<inter> set (x # h # xs) = {}"
    then show "holds s' g ys" using pv unfolding holds_def
      by (subst ring_cong [where nx = "next_of s" and pv = "prev_of s"]) (auto simp: s')
  qed (use s' pv in auto)
qed

lemma take_out_holds:
  assumes "holds s h (xs @ x # ys)"
  obtains s' where "take_out x s = Some s'" and "holds s' h (xs @ ys)"
    and "\<And>g zs. holds s g zs \<Longrightarrow> set (g # zs) \<inter> set (h # xs @ x # ys) = {} \<Longrightarrow> holds s' g zs"
    and "\<And>q. q \<notin> set (h # xs @ x # ys) \<Longrightarrow> next_of s' q = next_of s q \<and> prev_of s' q = prev_of s q"
    and "node s' = node s"
proof -
  have r: "ring (next_of s) (prev_of s) h (xs @ x # ys)" and n: "\<forall>y\<in>set (h # xs @ x # ys). node s y"
    using assms(1) by (auto simp: holds_def)
  have d: "distinct (h # xs @ x # ys)" using r by (auto simp: ring_def)
  note p = ring_adjacent(1) [OF r] and q = ring_adjacent(2) [OF r]
  have pre: "node s x" "node s (prev_of s x)" "node s (next_of s x)" "prev_of s x \<noteq> x" "next_of s x \<noteq> x"
    "next_of s (prev_of s x) = x" using n p q d ring_back [OF r] by auto
  obtain s' where s': "take_out x s = Some s'" "next_of s' = (next_of s)(prev_of s x := next_of s x, x := nil)"
    "prev_of s' = (prev_of s)(next_of s x := prev_of s x, x := nil)" "node s' = node s"
    using take_out_law [OF pre] by blast
  show thesis
  proof (rule that [of s'])
    show "holds s' h (xs @ ys)" using ring_unlink [OF r] n by (auto simp: holds_def s')
  next
    fix g zs assume "holds s g zs" and "set (g # zs) \<inter> set (h # xs @ x # ys) = {}"
    then show "holds s' g zs" using p q unfolding holds_def
      by (subst ring_cong [where nx = "next_of s" and pv = "prev_of s"]) (auto simp: s')
  qed (use s' p q in auto)
qed

end

end
