(* ===== verification/Frame_Info.thy ===== *)
theory Frame_Info
  imports Ring "HOL-Library.Word"
begin

text \<open>
  Descriptors of physical frames (\<^verbatim>\<open>memory/frame_info.rs\<close>), the address arithmetic that finds them, and the direct
  map of physical memory (\<^verbatim>\<open>memory.rs\<close>).  Addresses are 64-bit words.  A descriptor lies at a fixed address
  computed from its frame; the memory of the descriptors is a partial function from their addresses, undefined
  where no page is mapped.  The union in a descriptor is a datatype: reading a field of another variant than the
  one last written fails.  \<^term>\<open>None\<close> is a panic or a fault.
\<close>

unbundle bit_operations_syntax

section \<open>Lists through descriptors\<close>

text \<open>A pointer to a list node: the head at an index of the allocator, or the node in the descriptor at an address.\<close>

datatype list_ptr = NullPtr | HeadPtr nat | FramePtr "64 word"

record buddy_list =
  bnext :: list_ptr
  bprev :: list_ptr
  border :: nat

record slab_list =
  snext :: list_ptr
  sprev :: list_ptr
  free_list :: "64 word"
  free_count :: nat
  cache_index :: nat

datatype frame_info_data = NoData | BuddyData buddy_list | SlabData slab_list

datatype frame_type = FReserved | FBuddy | FBuddyTail | FBuddyAllocated | FSlab

record frame_info =
  fflags :: "64 word"
  fdata :: frame_info_data

type_synonym descriptors = "64 word \<Rightarrow> frame_info option"

section \<open>Constants\<close>

definition FRAME_FLAGS_TYPE_MASK :: "64 word" where "FRAME_FLAGS_TYPE_MASK = 0xFF"
definition FRAME_BYTES :: "64 word" where "FRAME_BYTES = 4096"
definition FRAME_SHIFT :: nat where "FRAME_SHIFT = 12"
definition FRAME_INFO_ADDR :: "64 word" where "FRAME_INFO_ADDR = 0xFFFF900000000000"
definition FRAME_INFO_BYTES :: "64 word" where "FRAME_INFO_BYTES = 64"
definition FRAME_INFO_SHIFT :: nat where "FRAME_INFO_SHIFT = 6"
definition PHYSICAL_MEMORY_OFFSET :: "64 word" where "PHYSICAL_MEMORY_OFFSET = 0xFFFF800000000000"
definition PHYSICAL_MEMORY_MAX_SIZE :: "64 word" where "PHYSICAL_MEMORY_MAX_SIZE = 4 * 1024 * 1024 * 1024 * 1024"

lemmas frame_consts = FRAME_FLAGS_TYPE_MASK_def FRAME_BYTES_def FRAME_SHIFT_def FRAME_INFO_ADDR_def
  FRAME_INFO_BYTES_def FRAME_INFO_SHIFT_def PHYSICAL_MEMORY_OFFSET_def PHYSICAL_MEMORY_MAX_SIZE_def

section \<open>Addresses\<close>

definition frame_info_addr :: "64 word \<Rightarrow> 64 word" where
  "frame_info_addr addr = FRAME_INFO_ADDR + (addr div FRAME_BYTES) * FRAME_INFO_BYTES"

definition from_frame_info_addr :: "64 word \<Rightarrow> 64 word" where
  "from_frame_info_addr virt = ((virt - FRAME_INFO_ADDR) div FRAME_INFO_BYTES) * FRAME_BYTES"

definition is_user_address :: "64 word \<Rightarrow> bool" where
  "is_user_address virt \<longleftrightarrow> drop_bit 48 virt = 0"

definition phys_to_virt :: "64 word \<Rightarrow> 64 word option" where
  "phys_to_virt phys = (if phys < PHYSICAL_MEMORY_MAX_SIZE then Some (PHYSICAL_MEMORY_OFFSET + phys) else None)"

definition virt_to_phys :: "64 word \<Rightarrow> 64 word option" where
  "virt_to_phys virt =
     (if virt \<ge> PHYSICAL_MEMORY_OFFSET \<and> virt < PHYSICAL_MEMORY_OFFSET + PHYSICAL_MEMORY_MAX_SIZE
      then Some (virt - PHYSICAL_MEMORY_OFFSET) else None)"

definition ZST_SENTINEL :: "64 word" where "ZST_SENTINEL = PHYSICAL_MEMORY_OFFSET"

section \<open>Descriptors\<close>

fun type_code :: "frame_type \<Rightarrow> 64 word" where
  "type_code FReserved = 0"
| "type_code FBuddy = 1"
| "type_code FBuddyTail = 2"
| "type_code FBuddyAllocated = 3"
| "type_code FSlab = 4"

text \<open>The transmutation of a byte to a frame type: a byte that is no discriminant is undefined behaviour.\<close>

definition type_of_code :: "64 word \<Rightarrow> frame_type option" where
  "type_of_code c =
     (if c = 0 then Some FReserved else if c = 1 then Some FBuddy else if c = 2 then Some FBuddyTail
      else if c = 3 then Some FBuddyAllocated else if c = 4 then Some FSlab else None)"

definition new_at :: "64 word \<Rightarrow> descriptors \<Rightarrow> descriptors" where
  "new_at fi m = m(fi \<mapsto> \<lparr>fflags = type_code FReserved, fdata = NoData\<rparr>)"

definition new_page :: "64 word \<Rightarrow> descriptors \<Rightarrow> descriptors" where
  "new_page ptr m = fold (\<lambda>i. new_at (ptr + of_nat i * FRAME_INFO_BYTES)) [0..<4096 div 64] m"

definition ty_of_flags :: "64 word \<Rightarrow> frame_type option" where
  "ty_of_flags f = type_of_code (f AND FRAME_FLAGS_TYPE_MASK)"

definition frame_ty :: "64 word \<Rightarrow> descriptors \<Rightarrow> frame_type option" where
  "frame_ty fi m = do { d \<leftarrow> m fi; ty_of_flags (fflags d) }"

definition set_ty_flags :: "frame_type \<Rightarrow> 64 word \<Rightarrow> 64 word" where
  "set_ty_flags t f = (f AND NOT FRAME_FLAGS_TYPE_MASK) OR type_code t"

definition set_ty :: "64 word \<Rightarrow> frame_type \<Rightarrow> descriptors \<Rightarrow> descriptors option" where
  "set_ty fi t m = do { d \<leftarrow> m fi; Some (m(fi \<mapsto> d\<lparr>fflags := set_ty_flags t (fflags d)\<rparr>)) }"

section \<open>Frame types\<close>

lemma type_of_code_code [simp]: "type_of_code (type_code t) = Some t"
  by (cases t) (simp_all add: type_of_code_def)

lemma type_code_mask: "type_code t AND 0xFF = type_code t"
  by (cases t) simp_all

lemma ty_set_ty_flags [simp]: "ty_of_flags (set_ty_flags t f) = Some t"
proof -
  have "set_ty_flags t f AND FRAME_FLAGS_TYPE_MASK = type_code t"
    unfolding set_ty_flags_def FRAME_FLAGS_TYPE_MASK_def
    by (simp add: bit.conj_disj_distrib2 and.assoc type_code_mask)
  then show ?thesis by (simp add: ty_of_flags_def)
qed

lemma set_ty_flags_rest: "set_ty_flags t f AND NOT FRAME_FLAGS_TYPE_MASK = f AND NOT FRAME_FLAGS_TYPE_MASK"
proof -
  have "type_code t AND NOT 0xFF = 0" using type_code_mask [of t] by (metis and.assoc bit.conj_cancel_right bit.conj_zero_right)
  then show ?thesis unfolding set_ty_flags_def FRAME_FLAGS_TYPE_MASK_def
    by (simp add: bit.conj_disj_distrib2 and.assoc)
qed

lemma frame_ty_upd [simp]:
  "frame_ty fi (m(fi \<mapsto> d)) = ty_of_flags (fflags d)"
  "fi \<noteq> gi \<Longrightarrow> frame_ty fi (m(gi \<mapsto> d)) = frame_ty fi m"
  by (simp_all add: frame_ty_def)

lemma frame_ty_mapped: "frame_ty fi m = Some t \<Longrightarrow> m fi \<noteq> None"
  by (auto simp: frame_ty_def bind_eq_Some_conv)

lemma set_ty_Some:
  assumes "m fi = Some d"
  shows "set_ty fi t m = Some (m(fi \<mapsto> d\<lparr>fflags := set_ty_flags t (fflags d)\<rparr>))"
  using assms by (simp add: set_ty_def)

section \<open>Frames by number\<close>

text \<open>The frames of the direct map are numbered below \<open>2\<^sup>3\<^sup>0\<close>; \<open>fi_of n\<close> is the address of the descriptor of frame \<open>n\<close>.\<close>

definition max_frames :: nat where "max_frames = 2 ^ 30"

definition frame_addr :: "nat \<Rightarrow> 64 word" where
  "frame_addr n = of_nat n * FRAME_BYTES"

definition fi_of :: "nat \<Rightarrow> 64 word" where
  "fi_of n = frame_info_addr (frame_addr n)"

lemma frame_addr_div:
  assumes "n < max_frames"
  shows "frame_addr n div FRAME_BYTES = of_nat n"
proof -
  have "unat (frame_addr n) = n * 4096" using assms
    by (simp add: frame_addr_def FRAME_BYTES_def unat_word_ariths unat_of_nat max_frames_def)
  then show ?thesis by (simp add: FRAME_BYTES_def word_arith_nat_div)
qed

lemma fi_of_eq: "n < max_frames \<Longrightarrow> fi_of n = FRAME_INFO_ADDR + of_nat n * 64"
  by (simp add: fi_of_def frame_info_addr_def frame_addr_div FRAME_INFO_BYTES_def)

lemma bit_frame_word:
  assumes "n < max_frames"
  shows "bit (of_nat n :: 64 word) i \<longleftrightarrow> bit n i" and "bit n i \<Longrightarrow> i < 30"
proof -
  show "bit n i \<Longrightarrow> i < 30" using assms
    unfolding max_frames_def by (metis bit_take_bit_iff take_bit_nat_eq_self)
  then show "bit (of_nat n :: 64 word) i \<longleftrightarrow> bit n i" by (auto simp: bit_of_nat_iff)
qed

lemma bit_base: "bit FRAME_INFO_ADDR i \<Longrightarrow> 44 \<le> i"
proof -
  have "push_bit 44 (0xFFFF9 :: 64 word) = FRAME_INFO_ADDR" by (simp add: FRAME_INFO_ADDR_def push_bit_eq_mult)
  then show "bit FRAME_INFO_ADDR i \<Longrightarrow> 44 \<le> i" using bit_push_bit_iff [of 44 "0xFFFF9 :: 64 word" i] by metis
qed

lemma bit_fi_of:
  assumes "n < max_frames"
  shows "bit (fi_of n) i \<longleftrightarrow> bit FRAME_INFO_ADDR i \<or> 6 \<le> i \<and> bit n (i - 6)"
proof -
  have e: "fi_of n = FRAME_INFO_ADDR + push_bit 6 (of_nat n)"
    by (simp add: fi_of_eq [OF assms] push_bit_eq_mult)
  have "FRAME_INFO_ADDR AND push_bit 6 (of_nat n) = 0"
    by (rule bit_word_eqI)
      (auto simp: bit_and_iff bit_push_bit_iff bit_frame_word [OF assms] dest!: bit_base bit_frame_word(2) [OF assms])
  then have "fi_of n = FRAME_INFO_ADDR OR push_bit 6 (of_nat n)" by (simp add: e disjunctive_add_eq_or)
  then show ?thesis using bit_frame_word [OF assms, of "i - 6"]
    by (auto simp: bit_or_iff bit_push_bit_iff)
qed

lemma fi_of_inj [simp]:
  assumes "n < max_frames" "m < max_frames"
  shows "fi_of n = fi_of m \<longleftrightarrow> n = m"
proof
  assume "fi_of n = fi_of m"
  then have "bit n i = bit m i" for i
    using bit_fi_of [OF assms(1), of "i + 6"] bit_fi_of [OF assms(2), of "i + 6"] bit_base [of "i + 6"]
      bit_frame_word(2) [OF assms(1), of i] bit_frame_word(2) [OF assms(2), of i] by (cases "i < 30") auto
  then show "n = m" by (rule bit_eqI)
qed simp

lemma flip_bit_less: "n < max_frames \<Longrightarrow> k < 30 \<Longrightarrow> flip_bit k n < max_frames"
  unfolding max_frames_def by (metis take_bit_flip_bit_eq take_bit_nat_eq_self take_bit_nat_eq_self_iff not_less)

lemma set_bit_less: "n < max_frames \<Longrightarrow> k < 30 \<Longrightarrow> set_bit k n < max_frames"
  unfolding max_frames_def by (metis take_bit_set_bit_eq take_bit_nat_eq_self take_bit_nat_eq_self_iff not_less)

lemma unset_bit_less: "n < max_frames \<Longrightarrow> k < 30 \<Longrightarrow> unset_bit k n < max_frames"
  unfolding max_frames_def by (metis take_bit_unset_bit_eq take_bit_nat_eq_self take_bit_nat_eq_self_iff not_less)

lemma fi_of_flip:
  assumes "n < max_frames" "k < 30"
  shows "fi_of n XOR push_bit (k + 6) 1 = fi_of (flip_bit k n)"
  by (rule bit_word_eqI)
    (use assms in \<open>auto simp: bit_fi_of flip_bit_less bit_xor_iff bit_push_bit_iff bit_flip_bit_iff bit_exp_iff dest: bit_base\<close>)

lemma fi_of_set:
  assumes "n < max_frames" "k < 30"
  shows "fi_of n OR push_bit (k + 6) 1 = fi_of (set_bit k n)"
  by (rule bit_word_eqI)
    (use assms in \<open>auto simp: bit_fi_of set_bit_less bit_or_iff bit_push_bit_iff bit_set_bit_iff bit_exp_iff dest: bit_base\<close>)

lemma fi_of_unset:
  assumes "n < max_frames" "k < 30"
  shows "fi_of n AND NOT (push_bit (k + 6) 1) = fi_of (unset_bit k n)"
  by (rule bit_word_eqI)
    (use assms in \<open>auto simp: bit_fi_of unset_bit_less bit_and_iff bit_not_iff bit_push_bit_iff bit_unset_bit_iff bit_exp_iff dest: bit_base\<close>)

lemma fi_of_add:
  assumes "n + m < max_frames"
  shows "fi_of n + of_nat m * FRAME_INFO_BYTES = fi_of (n + m)"
  using assms by (simp add: fi_of_eq FRAME_INFO_BYTES_def algebra_simps)

lemma from_fi_of:
  assumes "n < max_frames"
  shows "from_frame_info_addr (fi_of n) = frame_addr n"
proof -
  have "unat (of_nat n * 64 :: 64 word) = n * 64" using assms by (simp add: unat_word_ariths unat_of_nat max_frames_def)
  then have "(of_nat n * 64 :: 64 word) div 64 = of_nat n" by (simp add: word_arith_nat_div)
  then show ?thesis by (simp add: from_frame_info_addr_def fi_of_eq [OF assms] frame_addr_def FRAME_INFO_BYTES_def)
qed

end
