(* ===== verification/Buddy.thy ===== *)
theory Buddy
  imports Frame_Info Span_Alloc
begin

text \<open>
  The buddy allocator of physical frames (\<^verbatim>\<open>memory/buddy.rs\<close>).  The state is the array of list heads and the memory of
  the frame descriptors; a block of \<open>2\<^sup>k\<close> frames is represented by the descriptor of its first frame, linked into the
  list of order \<open>k\<close> while it is free.  The list operations are the source's sequences of reads and writes through
  pointers.  \<^term>\<open>None\<close> is a panic, a fault on a descriptor that is not mapped, or a read of the wrong union variant;
  \<^term>\<open>Inl\<close> is an error the allocator returns.
\<close>

unbundle bit_operations_syntax

section \<open>Lists\<close>

record frame_mem =
  heads :: "buddy_list list"
  fis :: descriptors

definition bl_get :: "list_ptr \<Rightarrow> frame_mem \<Rightarrow> buddy_list option" where
  "bl_get p s =
     (case p of
        NullPtr \<Rightarrow> None
      | HeadPtr i \<Rightarrow> if i < length (heads s) then Some (heads s ! i) else None
      | FramePtr fi \<Rightarrow> do { d \<leftarrow> fis s fi; case fdata d of BuddyData b \<Rightarrow> Some b | _ \<Rightarrow> None })"

definition bl_set :: "list_ptr \<Rightarrow> buddy_list \<Rightarrow> frame_mem \<Rightarrow> frame_mem option" where
  "bl_set p b s =
     (case p of
        NullPtr \<Rightarrow> None
      | HeadPtr i \<Rightarrow> if i < length (heads s) then Some (s\<lparr>heads := (heads s)[i := b]\<rparr>) else None
      | FramePtr fi \<Rightarrow> do { d \<leftarrow> fis s fi; Some (s\<lparr>fis := (fis s)(fi \<mapsto> d\<lparr>fdata := BuddyData b\<rparr>)\<rparr>) })"

definition bl_set_next :: "list_ptr \<Rightarrow> list_ptr \<Rightarrow> frame_mem \<Rightarrow> frame_mem option" where
  "bl_set_next p q s = do { b \<leftarrow> bl_get p s; bl_set p (b\<lparr>bnext := q\<rparr>) s }"

definition bl_set_prev :: "list_ptr \<Rightarrow> list_ptr \<Rightarrow> frame_mem \<Rightarrow> frame_mem option" where
  "bl_set_prev p q s = do { b \<leftarrow> bl_get p s; bl_set p (b\<lparr>bprev := q\<rparr>) s }"

definition bl_insert :: "list_ptr \<Rightarrow> list_ptr \<Rightarrow> frame_mem \<Rightarrow> frame_mem option" where
  "bl_insert self item s = do {
     h \<leftarrow> bl_get self s;
     s \<leftarrow> bl_set item \<lparr>bnext = self, bprev = bprev h, border = border h\<rparr> s;
     h \<leftarrow> bl_get self s;
     s \<leftarrow> bl_set_next (bprev h) item s;
     bl_set_prev self item s }"

definition bl_pop_front :: "list_ptr \<Rightarrow> frame_mem \<Rightarrow> (list_ptr option \<times> frame_mem) option" where
  "bl_pop_front self s = do {
     h \<leftarrow> bl_get self s;
     let item = bnext h;
     if item \<noteq> self then do {
       i \<leftarrow> bl_get item s;
       s \<leftarrow> bl_set_next self (bnext i) s;
       h \<leftarrow> bl_get self s;
       s \<leftarrow> bl_set_prev (bnext h) self s;
       s \<leftarrow> bl_set_prev item NullPtr s;
       s \<leftarrow> bl_set_next item NullPtr s;
       Some (Some item, s) }
     else Some (None, s) }"

definition bl_unlink :: "list_ptr \<Rightarrow> frame_mem \<Rightarrow> frame_mem option" where
  "bl_unlink self s = do {
     b \<leftarrow> bl_get self s;
     s \<leftarrow> bl_set_prev (bnext b) (bprev b) s;
     b \<leftarrow> bl_get self s;
     s \<leftarrow> bl_set_next (bprev b) (bnext b) s;
     s \<leftarrow> bl_set_prev self NullPtr s;
     bl_set_next self NullPtr s }"

fun bl_frame_info :: "list_ptr \<Rightarrow> 64 word option" where
  "bl_frame_info (FramePtr fi) = Some fi"
| "bl_frame_info _ = None"

section \<open>Allocator\<close>

definition MAX_ORDER :: nat where "MAX_ORDER = 10"

definition BUDDY_MAX :: nat where "BUDDY_MAX = 4096 * 2 ^ MAX_ORDER"

definition buddy_dummy :: "buddy_list list" where
  "buddy_dummy = replicate (MAX_ORDER + 1) \<lparr>bnext = NullPtr, bprev = NullPtr, border = 0\<rparr>"

definition buddy_init :: "frame_mem \<Rightarrow> frame_mem" where
  "buddy_init s = s\<lparr>heads := map (\<lambda>i. \<lparr>bnext = HeadPtr i, bprev = HeadPtr i, border = i mod 256\<rparr>) [0..<MAX_ORDER + 1]\<rparr>"

text \<open>The integer intrinsics the code uses.\<close>

fun trailing_zeros :: "nat \<Rightarrow> nat" where
  "trailing_zeros n = (if n = 0 then 64 else if even n then Suc (trailing_zeros (n div 2)) else 0)"

fun ilog2 :: "nat \<Rightarrow> nat" where
  "ilog2 n = (if n \<le> 1 then 0 else Suc (ilog2 (n div 2)))"

declare trailing_zeros.simps [simp del] ilog2.simps [simp del]

lemma ilog2_bounds: "0 < n \<Longrightarrow> 2 ^ ilog2 n \<le> n \<and> n < 2 ^ Suc (ilog2 n)"
proof (induction n rule: ilog2.induct)
  case (1 n)
  show ?case
  proof (cases "n \<le> 1")
    case False
    then have "2 ^ ilog2 (n div 2) \<le> n div 2 \<and> n div 2 < 2 ^ Suc (ilog2 (n div 2))" using 1 by auto
    then show ?thesis using False by (subst (1 2) ilog2.simps) auto
  qed (use 1 in \<open>auto simp: ilog2.simps\<close>)
qed

definition mem_set_ty :: "64 word \<Rightarrow> frame_type \<Rightarrow> frame_mem \<Rightarrow> frame_mem option" where
  "mem_set_ty fi t s = do { m \<leftarrow> set_ty fi t (fis s); Some (s\<lparr>fis := m\<rparr>) }"

text \<open>The addresses of a stepped range, and the loop that marks the frames behind the first one.\<close>

definition step_frames :: "64 word \<Rightarrow> 64 word \<Rightarrow> 64 word list" where
  "step_frames a e = map (\<lambda>i. a + of_nat i * FRAME_BYTES) [0..<(unat e - unat a + 4095) div 4096]"

fun mark_tails :: "64 word list \<Rightarrow> frame_mem \<Rightarrow> frame_mem option" where
  "mark_tails [] s = Some s"
| "mark_tails (a # as) s = do { s \<leftarrow> mem_set_ty (frame_info_addr a) FBuddyTail s; mark_tails as s }"

definition range_order :: "64 word \<Rightarrow> 64 word \<Rightarrow> nat" where
  "range_order addr end =
     min (trailing_zeros (unat (drop_bit FRAME_SHIFT addr OR push_bit MAX_ORDER 1))) (ilog2 (unat (end - addr)) - FRAME_SHIFT)"

lemma range_order_bound:
  assumes "addr < end" "\<not> ilog2 (unat (end - addr)) < FRAME_SHIFT"
  shows "2 ^ (range_order addr end + FRAME_SHIFT) \<le> unat end - unat addr"
proof -
  have u: "unat (end - addr) = unat end - unat addr" using assms(1) by (simp add: unat_sub less_imp_le)
  have pos: "0 < unat end - unat addr" using assms(1) by (simp add: word_less_nat_alt)
  have "range_order addr end + FRAME_SHIFT \<le> ilog2 (unat end - unat addr)"
    using assms(2) by (auto simp: range_order_def u)
  then have "(2::nat) ^ (range_order addr end + FRAME_SHIFT) \<le> 2 ^ ilog2 (unat end - unat addr)" by simp
  then show ?thesis using ilog2_bounds [OF pos] by linarith
qed

lemma range_step:
  assumes "addr < end" "\<not> ilog2 (unat (end - addr)) < FRAME_SHIFT"
  shows "unat (addr + push_bit (range_order addr end + FRAME_SHIFT) 1) =
    unat addr + 2 ^ (range_order addr end + FRAME_SHIFT)"
proof -
  note b = range_order_bound [OF assms]
  have e: "unat end < 2 ^ 64" using unsigned_less [of "end"] by simp
  have "2 ^ (range_order addr end + FRAME_SHIFT) < (2::nat) ^ 64" using b e by linarith
  then have "unat (of_nat (2 ^ (range_order addr end + FRAME_SHIFT)) :: 64 word) = 2 ^ (range_order addr end + FRAME_SHIFT)"
    by (simp add: unat_of_nat del: of_nat_power)
  then have "unat (push_bit (range_order addr end + FRAME_SHIFT) 1 :: 64 word) = 2 ^ (range_order addr end + FRAME_SHIFT)"
    by simp
  moreover have "unat addr + 2 ^ (range_order addr end + FRAME_SHIFT) < 2 ^ 64"
    using b e assms(1) unfolding word_less_nat_alt by linarith
  ultimately show ?thesis by (simp add: unat_word_ariths)
qed

function add_blocks :: "64 word \<Rightarrow> 64 word \<Rightarrow> frame_mem \<Rightarrow> frame_mem option" where
  "add_blocks addr end s =
     (if addr < end then
        if ilog2 (unat (end - addr)) < FRAME_SHIFT then None
        else do {
          let order = range_order addr end;
          let fi = frame_info_addr addr;
          s \<leftarrow> bl_insert (HeadPtr order) (FramePtr fi) s;
          s \<leftarrow> mem_set_ty fi FBuddy s;
          s \<leftarrow> mark_tails (step_frames (addr + FRAME_BYTES) end) s;
          add_blocks (addr + push_bit (order + FRAME_SHIFT) 1) end s }
      else Some s)"
  by pat_completeness auto
termination
proof (relation "measure (\<lambda>(addr, end, s). unat end - unat addr)", goal_cases)
  case (2 addr e s order fi s1 s2 s3)
  then have o: "order = range_order addr e" by simp
  have "unat addr < unat e" using 2(1) by (simp add: word_less_nat_alt)
  then show ?case using range_step [OF 2(1,2)] range_order_bound [OF 2(1,2)] unfolding o
    by (simp del: push_bit_of_1 add: diff_less_mono2)
qed simp

declare add_blocks.simps [simp del]

definition buddy_add_range :: "64 word \<Rightarrow> 64 word \<Rightarrow> frame_mem \<Rightarrow> frame_mem option" where
  "buddy_add_range addr end s =
     (if addr mod FRAME_BYTES = 0 \<and> end mod FRAME_BYTES = 0 then add_blocks addr end s else None)"

definition get_buddy :: "64 word \<Rightarrow> nat \<Rightarrow> 64 word" where
  "get_buddy fi order = fi XOR push_bit (order + FRAME_INFO_SHIFT) 1"

definition sort_buddies :: "64 word \<Rightarrow> nat \<Rightarrow> 64 word \<times> 64 word" where
  "sort_buddies fi order =
     (fi AND NOT (push_bit (order + FRAME_INFO_SHIFT) 1), fi OR push_bit (order + FRAME_INFO_SHIFT) 1)"

fun alloc_min_from :: "nat list \<Rightarrow> frame_mem \<Rightarrow> ((memory_error + 64 word \<times> nat) \<times> frame_mem) option" where
  "alloc_min_from [] s = Some (Inl OutOfMemory, s)"
| "alloc_min_from (k # ks) s = do {
     (r, s) \<leftarrow> bl_pop_front (HeadPtr k) s;
     case r of
       Some bl \<Rightarrow> do { fi \<leftarrow> bl_frame_info bl; Some (Inr (fi, k), s) }
     | None \<Rightarrow> alloc_min_from ks s }"

definition alloc_min :: "nat \<Rightarrow> frame_mem \<Rightarrow> ((memory_error + 64 word \<times> nat) \<times> frame_mem) option" where
  "alloc_min order s = alloc_min_from [order..<MAX_ORDER + 1] s"

fun split_block :: "64 word \<Rightarrow> nat \<Rightarrow> nat \<Rightarrow> frame_mem \<Rightarrow> frame_mem option" where
  "split_block fi order target_order s =
     (if order > target_order then do {
        let other_fi = fi + of_nat (2 ^ (order - 1)) * FRAME_INFO_BYTES;
        s \<leftarrow> bl_insert (HeadPtr (order - 1)) (FramePtr other_fi) s;
        s \<leftarrow> mem_set_ty other_fi FBuddy s;
        split_block fi (order - 1) target_order s }
      else do { b \<leftarrow> bl_get (FramePtr fi) s; bl_set (FramePtr fi) (b\<lparr>border := order mod 256\<rparr>) s })"

declare split_block.simps [simp del]

definition buddy_alloc :: "nat \<Rightarrow> frame_mem \<Rightarrow> ((memory_error + 64 word) \<times> frame_mem) option" where
  "buddy_alloc order s =
     (if order \<le> MAX_ORDER then do {
        (r, s) \<leftarrow> alloc_min order s;
        case r of
          Inl e \<Rightarrow> Some (Inl e, s)
        | Inr (fi, k) \<Rightarrow> do {
            s \<leftarrow> split_block fi k order s;
            s \<leftarrow> mem_set_ty fi FBuddyAllocated s;
            Some (Inr (from_frame_info_addr fi), s) } }
      else None)"

function merge_block :: "64 word \<Rightarrow> nat \<Rightarrow> frame_mem \<Rightarrow> (64 word \<times> nat \<times> frame_mem) option" where
  "merge_block fi order s =
     (if order < MAX_ORDER then do {
        let buddy = get_buddy fi order;
        t \<leftarrow> frame_ty buddy (fis s);
        case t of
          FReserved \<Rightarrow> Some (fi, order, s)
        | FBuddyAllocated \<Rightarrow> Some (fi, order, s)
        | FSlab \<Rightarrow> Some (fi, order, s)
        | FBuddy \<Rightarrow> do {
            bl \<leftarrow> bl_get (FramePtr buddy) s;
            if border bl \<noteq> order then Some (fi, order, s)
            else do {
              s \<leftarrow> bl_unlink (FramePtr buddy) s;
              let (lower, higher) = sort_buddies fi order;
              s \<leftarrow> mem_set_ty higher FBuddyTail s;
              merge_block lower (order + 1) s } }
        | FBuddyTail \<Rightarrow> None }
      else Some (fi, order, s))"
  by pat_completeness auto
termination by (relation "measure (\<lambda>(fi, order, s). MAX_ORDER - order)") auto

declare merge_block.simps [simp del]

definition buddy_free :: "64 word \<Rightarrow> nat \<Rightarrow> frame_mem \<Rightarrow> frame_mem option" where
  "buddy_free addr order s = do {
     let fi = frame_info_addr addr;
     (merged_fi, merged_order, s) \<leftarrow> merge_block fi order s;
     s \<leftarrow> bl_insert (HeadPtr merged_order) (FramePtr merged_fi) s;
     mem_set_ty merged_fi FBuddy s }"

end
