(* ===== verification/Buddy_Rep.thy ===== *)
theory Buddy_Rep
  imports Buddy
begin

text \<open>
  The free lists in the memory of the buddy allocator.  The pointer operations meet the contract of rings; on top
  of it, \<open>free_lists s F\<close> says that the list of every order \<open>k\<close> holds the frames \<open>F k\<close>, in order, and the
  operations on one list are described by their effect on \<open>F\<close> and on the types and orders of the descriptors.
\<close>

unbundle bit_operations_syntax

section \<open>Reading and writing nodes\<close>

definition bl_next :: "frame_mem \<Rightarrow> list_ptr \<Rightarrow> list_ptr" where
  "bl_next s p = (case bl_get p s of Some b \<Rightarrow> bnext b | None \<Rightarrow> NullPtr)"

definition bl_prev :: "frame_mem \<Rightarrow> list_ptr \<Rightarrow> list_ptr" where
  "bl_prev s p = (case bl_get p s of Some b \<Rightarrow> bprev b | None \<Rightarrow> NullPtr)"

definition bl_order :: "frame_mem \<Rightarrow> list_ptr \<Rightarrow> nat" where
  "bl_order s p = (case bl_get p s of Some b \<Rightarrow> border b | None \<Rightarrow> 0)"

definition bl_node :: "frame_mem \<Rightarrow> list_ptr \<Rightarrow> bool" where
  "bl_node s p \<longleftrightarrow> bl_get p s \<noteq> None"

definition bl_room :: "frame_mem \<Rightarrow> list_ptr \<Rightarrow> bool" where
  "bl_room s p \<longleftrightarrow> (case p of NullPtr \<Rightarrow> False | HeadPtr i \<Rightarrow> i < length (heads s) | FramePtr fi \<Rightarrow> fis s fi \<noteq> None)"

definition bl_upd :: "list_ptr \<Rightarrow> buddy_list \<Rightarrow> frame_mem \<Rightarrow> frame_mem" where
  "bl_upd p b s = (case bl_set p b s of Some s' \<Rightarrow> s' | None \<Rightarrow> s)"

definition same_frames :: "frame_mem \<Rightarrow> frame_mem \<Rightarrow> bool" where
  "same_frames s s' \<longleftrightarrow> length (heads s') = length (heads s) \<and>
     (\<forall>fi. map_option fflags (fis s' fi) = map_option fflags (fis s fi))"

lemma same_frames_refl [simp]: "same_frames s s" by (simp add: same_frames_def)

lemma same_frames_trans: "same_frames s t \<Longrightarrow> same_frames t u \<Longrightarrow> same_frames s u"
  by (simp add: same_frames_def)

lemma same_frames_ty: "same_frames s s' \<Longrightarrow> frame_ty fi (fis s') = frame_ty fi (fis s)"
  unfolding same_frames_def frame_ty_def by (cases "fis s fi"; cases "fis s' fi") (auto dest: spec [of _ fi])

lemma same_frames_mapped: "same_frames s s' \<Longrightarrow> fis s' fi = None \<longleftrightarrow> fis s fi = None"
  unfolding same_frames_def by (metis map_option_is_None)

lemma same_frames_room: "same_frames s s' \<Longrightarrow> bl_room s' p = bl_room s p"
  by (auto simp: bl_room_def same_frames_mapped split: list_ptr.splits) (auto simp: same_frames_def)

lemma bl_get_room: "bl_get p s = Some b \<Longrightarrow> bl_room s p"
  by (auto simp: bl_get_def bl_room_def bind_eq_Some_conv split: list_ptr.splits if_splits)

lemma bl_set_upd: "bl_set p b s = (if bl_room s p then Some (bl_upd p b s) else None)"
  by (auto simp: bl_set_def bl_upd_def bl_room_def split: list_ptr.splits)

lemma bl_get_upd: "bl_get q (bl_upd p b s) = (if q = p \<and> bl_room s p then Some b else bl_get q s)"
  by (auto simp: bl_set_def bl_upd_def bl_room_def bl_get_def split: list_ptr.splits Option.bind_splits)

lemma same_frames_upd: "same_frames s (bl_upd p b s)"
  by (auto simp: bl_set_def bl_upd_def same_frames_def split: list_ptr.splits Option.bind_splits)

lemma bl_room_upd [simp]: "bl_room (bl_upd p b s) q = bl_room s q"
  by (rule same_frames_room [OF same_frames_upd])

lemma fis_upd: "FramePtr fi \<noteq> p \<Longrightarrow> fis (bl_upd p b s) fi = fis s fi"
  by (auto simp: bl_set_def bl_upd_def split: list_ptr.splits Option.bind_splits)

lemmas bl_fields = bl_next_def bl_prev_def bl_order_def bl_node_def
lemmas bl_ops = bl_insert_def bl_unlink_def bl_pop_front_def bl_set_next_def bl_set_prev_def

lemma bl_nodeE:
  assumes "bl_node s p"
  obtains b where "bl_get p s = Some b" "bl_room s p" "bl_next s p = bnext b" "bl_prev s p = bprev b" "bl_order s p = border b"
  using assms by (auto simp: bl_fields dest: bl_get_room)

section \<open>The list operations are operations on rings\<close>

lemma bl_insert_effect:
  assumes "bl_node s h" "bl_node s (bl_prev s h)" "bl_room s x" "x \<noteq> h" "x \<noteq> bl_prev s h"
  shows "\<exists>s'. bl_insert h x s = Some s' \<and> bl_next s' = (bl_next s)(x := h, bl_prev s h := x) \<and>
    bl_prev s' = (bl_prev s)(x := bl_prev s h, h := x) \<and> bl_node s' = (bl_node s)(x := True) \<and>
    bl_order s' = (bl_order s)(x := bl_order s h) \<and> same_frames s s' \<and>
    (\<forall>fi. FramePtr fi \<notin> {x, h, bl_prev s h} \<longrightarrow> fis s' fi = fis s fi)"
proof -
  obtain b where b: "bl_get h s = Some b" "bl_room s h" "bl_prev s h = bprev b" using assms(1) by (rule bl_nodeE)
  obtain c where c: "bl_get (bprev b) s = Some c" "bl_room s (bprev b)" using assms(2) b by (auto elim: bl_nodeE)
  let ?s1 = "bl_upd x \<lparr>bnext = h, bprev = bprev b, border = border b\<rparr> s"
  let ?s2 = "bl_upd (bprev b) (c\<lparr>bnext := x\<rparr>) ?s1"
  obtain d where d: "bl_get h ?s2 = Some d" using assms(4) by (cases "h = bprev b") (auto simp: bl_get_upd b c)
  let ?s3 = "bl_upd h (d\<lparr>bprev := x\<rparr>) ?s2"
  have e: "bl_insert h x s = Some ?s3" using assms b c d by (simp add: bl_ops bl_set_upd bl_get_upd)
  have f: "same_frames s ?s3" by (blast intro: same_frames_upd same_frames_trans)
  show ?thesis using assms b c d f unfolding e
    by (intro exI [of _ ?s3]) (auto simp: fun_eq_iff bl_fields bl_get_upd fis_upd split: if_splits)
qed

lemma bl_unlink_effect:
  assumes "bl_node s x" "bl_node s (bl_prev s x)" "bl_node s (bl_next s x)" "bl_prev s x \<noteq> x" "bl_next s x \<noteq> x"
  shows "\<exists>s'. bl_unlink x s = Some s' \<and> bl_next s' = (bl_next s)(bl_prev s x := bl_next s x, x := NullPtr) \<and>
    bl_prev s' = (bl_prev s)(bl_next s x := bl_prev s x, x := NullPtr) \<and> bl_node s' = bl_node s \<and>
    bl_order s' = bl_order s \<and> same_frames s s' \<and>
    (\<forall>fi. FramePtr fi \<notin> {x, bl_prev s x, bl_next s x} \<longrightarrow> fis s' fi = fis s fi)"
proof -
  obtain b where b: "bl_get x s = Some b" "bl_room s x" "bl_prev s x = bprev b" "bl_next s x = bnext b"
    using assms(1) by (rule bl_nodeE)
  obtain c where c: "bl_get (bnext b) s = Some c" "bl_room s (bnext b)" using assms(3) b by (auto elim: bl_nodeE)
  obtain p where p: "bl_get (bprev b) s = Some p" "bl_room s (bprev b)" using assms(2) b by (auto elim: bl_nodeE)
  let ?s1 = "bl_upd (bnext b) (c\<lparr>bprev := bprev b\<rparr>) s"
  obtain d where d: "bl_get (bprev b) ?s1 = Some d" by (cases "bprev b = bnext b") (auto simp: bl_get_upd p c)
  let ?s2 = "bl_upd (bprev b) (d\<lparr>bnext := bnext b\<rparr>) ?s1"
  let ?s3 = "bl_upd x (b\<lparr>bprev := NullPtr\<rparr>) ?s2"
  let ?s4 = "bl_upd x (b\<lparr>bprev := NullPtr, bnext := NullPtr\<rparr>) ?s3"
  have e: "bl_unlink x s = Some ?s4" using assms b c p d by (simp add: bl_ops bl_set_upd bl_get_upd)
  have f: "same_frames s ?s4" by (blast intro: same_frames_upd same_frames_trans)
  show ?thesis using assms b c p d f unfolding e
    by (intro exI [of _ ?s4]) (auto simp: fun_eq_iff bl_fields bl_get_upd fis_upd split: if_splits)
qed

lemma bl_pop_front_effect:
  assumes "bl_node s x" "bl_node s (bl_prev s x)" "bl_node s (bl_next s x)" "bl_prev s x \<noteq> x" "bl_next s x \<noteq> x"
    and bk: "bl_next s (bl_prev s x) = x"
  shows "\<exists>s'. bl_pop_front (bl_prev s x) s = Some (Some x, s') \<and>
    bl_next s' = (bl_next s)(bl_prev s x := bl_next s x, x := NullPtr) \<and>
    bl_prev s' = (bl_prev s)(bl_next s x := bl_prev s x, x := NullPtr) \<and> bl_node s' = bl_node s \<and>
    bl_order s' = bl_order s \<and> same_frames s s' \<and>
    (\<forall>fi. FramePtr fi \<notin> {x, bl_prev s x, bl_next s x} \<longrightarrow> fis s' fi = fis s fi)"
proof -
  obtain b where b: "bl_get x s = Some b" "bl_room s x" "bl_prev s x = bprev b" "bl_next s x = bnext b"
    using assms(1) by (rule bl_nodeE)
  obtain c where c: "bl_get (bnext b) s = Some c" "bl_room s (bnext b)" using assms(3) b by (auto elim: bl_nodeE)
  obtain p where p: "bl_get (bprev b) s = Some p" "bl_room s (bprev b)" "bnext p = x"
    using assms(2) bk b by (auto elim: bl_nodeE)
  let ?s1 = "bl_upd (bprev b) (p\<lparr>bnext := bnext b\<rparr>) s"
  obtain d where d: "bl_get (bnext b) ?s1 = Some d" by (cases "bprev b = bnext b") (auto simp: bl_get_upd p c)
  let ?s2 = "bl_upd (bnext b) (d\<lparr>bprev := bprev b\<rparr>) ?s1"
  let ?s3 = "bl_upd x (b\<lparr>bprev := NullPtr\<rparr>) ?s2"
  let ?s4 = "bl_upd x (b\<lparr>bprev := NullPtr, bnext := NullPtr\<rparr>) ?s3"
  have e: "bl_pop_front (bl_prev s x) s = Some (Some x, ?s4)"
    using assms b c p d by (cases "bnext b = bprev b") (auto simp: bl_ops bl_set_upd bl_get_upd)
  have f: "same_frames s ?s4" by (blast intro: same_frames_upd same_frames_trans)
  show ?thesis using assms b c p d f unfolding e
    by (intro exI [of _ ?s4]) (auto simp: fun_eq_iff bl_fields bl_get_upd fis_upd split: if_splits)
qed

definition bl_pop :: "list_ptr \<Rightarrow> frame_mem \<Rightarrow> frame_mem option" where
  "bl_pop x s = map_option snd (bl_pop_front (bl_prev s x) s)"

interpretation bl: ring_memory bl_next bl_prev bl_node bl_room bl_insert bl_unlink NullPtr
proof unfold_locales
  fix s h x
  assume "bl_node s h" "bl_node s (bl_prev s h)" "bl_room s x" "x \<noteq> h" "x \<noteq> bl_prev s h"
  from bl_insert_effect [OF this]
  show "\<exists>s'. bl_insert h x s = Some s' \<and> bl_next s' = (bl_next s)(x := h, bl_prev s h := x) \<and>
    bl_prev s' = (bl_prev s)(x := bl_prev s h, h := x) \<and> bl_node s' = (bl_node s)(x := True)" by blast
next
  fix s x
  assume "bl_node s x" "bl_node s (bl_prev s x)" "bl_node s (bl_next s x)" "bl_prev s x \<noteq> x" "bl_next s x \<noteq> x"
  from bl_unlink_effect [OF this]
  show "\<exists>s'. bl_unlink x s = Some s' \<and> bl_next s' = (bl_next s)(bl_prev s x := bl_next s x, x := NullPtr) \<and>
    bl_prev s' = (bl_prev s)(bl_next s x := bl_prev s x, x := NullPtr) \<and> bl_node s' = bl_node s" by blast
qed

interpretation bp: ring_memory bl_next bl_prev bl_node bl_room bl_insert bl_pop NullPtr
proof unfold_locales
  fix s x
  assume "bl_node s x" "bl_node s (bl_prev s x)" "bl_node s (bl_next s x)" "bl_prev s x \<noteq> x" "bl_next s x \<noteq> x"
    "bl_next s (bl_prev s x) = x"
  from bl_pop_front_effect [OF this]
  show "\<exists>s'. bl_pop x s = Some s' \<and> bl_next s' = (bl_next s)(bl_prev s x := bl_next s x, x := NullPtr) \<and>
    bl_prev s' = (bl_prev s)(bl_next s x := bl_prev s x, x := NullPtr) \<and> bl_node s' = bl_node s"
    by (auto simp: bl_pop_def)
qed (rule bl.put_last_law)

section \<open>Free lists\<close>

definition fptr :: "nat \<Rightarrow> list_ptr" where
  "fptr n = FramePtr (fi_of n)"

lemma fptr_inj [simp]: "n < max_frames \<Longrightarrow> m < max_frames \<Longrightarrow> fptr n = fptr m \<longleftrightarrow> n = m"
  by (simp add: fptr_def)

lemma fptr_head [simp]: "fptr n \<noteq> HeadPtr k" "HeadPtr k \<noteq> fptr n"
  by (simp_all add: fptr_def)

definition free_lists :: "frame_mem \<Rightarrow> (nat \<Rightarrow> nat list) \<Rightarrow> bool" where
  "free_lists s F \<longleftrightarrow>
     (\<forall>k\<le>MAX_ORDER. bl.holds s (HeadPtr k) (map fptr (F k)) \<and> bl_order s (HeadPtr k) = k \<and>
        (\<forall>n\<in>set (F k). n < max_frames \<and> bl_order s (fptr n) = k))"

lemma free_listsD:
  assumes "free_lists s F" "k \<le> MAX_ORDER"
  shows "bl.holds s (HeadPtr k) (map fptr (F k))" "bl_order s (HeadPtr k) = k"
    "n \<in> set (F k) \<Longrightarrow> n < max_frames" "n \<in> set (F k) \<Longrightarrow> bl_order s (fptr n) = k"
    "n \<in> set (F k) \<Longrightarrow> bl_node s (fptr n)"
  using assms by (auto simp: free_lists_def bl.holds_def)

lemma free_lists_distinct: "free_lists s F \<Longrightarrow> k \<le> MAX_ORDER \<Longrightarrow> distinct (F k)"
  by (auto simp: free_lists_def bl.holds_def ring_def distinct_map)

lemma free_lists_apart:
  assumes "free_lists s F" "j \<le> MAX_ORDER" "k \<le> MAX_ORDER" "j \<noteq> k"
  shows "set (HeadPtr j # map fptr (F j)) \<inter> set (HeadPtr k # map fptr (F k)) = {}"
proof -
  have "fptr n \<noteq> fptr m" if "n \<in> set (F j)" "m \<in> set (F k)" for n m
    using free_listsD(4) [OF assms(1,2) that(1)] free_listsD(4) [OF assms(1,3) that(2)] assms(4) by auto
  then show ?thesis using assms(4) by auto
qed

lemma bl_insert_lists:
  assumes s: "free_lists s F" and k: "k \<le> MAX_ORDER" and n: "n < max_frames" "fis s (fi_of n) \<noteq> None"
    and new: "\<forall>j\<le>MAX_ORDER. n \<notin> set (F j)"
  obtains s' where "bl_insert (HeadPtr k) (fptr n) s = Some s'" "free_lists s' (F(k := F k @ [n]))" "same_frames s s'"
    "bl_order s' = (bl_order s)(fptr n := k)" "bl_node s' = (bl_node s)(fptr n := True)"
    "\<And>fi. FramePtr fi \<noteq> fptr n \<Longrightarrow> \<forall>j\<le>MAX_ORDER. FramePtr fi \<notin> fptr ` set (F j) \<Longrightarrow> fis s' fi = fis s fi"
proof -
  have fresh: "fptr n \<notin> set (HeadPtr j # map fptr (F j))" if "j \<le> MAX_ORDER" for j
    using new n that free_listsD(3) [OF s that] by auto
  have room: "bl_room s (fptr n)" using n by (simp add: bl_room_def fptr_def)
  obtain s' where s': "bl_insert (HeadPtr k) (fptr n) s = Some s'" "bl.holds s' (HeadPtr k) (map fptr (F k) @ [fptr n])"
    and rest: "\<And>g ys. bl.holds s g ys \<Longrightarrow> set (g # ys) \<inter> set (fptr n # HeadPtr k # map fptr (F k)) = {} \<Longrightarrow> bl.holds s' g ys"
    by (rule bl.put_last_holds [OF free_listsD(1) [OF s k] fresh [OF k] room]) blast
  have h: "bl_node s (HeadPtr k)" "bl_node s (bl_prev s (HeadPtr k))" "fptr n \<noteq> bl_prev s (HeadPtr k)"
    "bl_prev s (HeadPtr k) \<in> set (HeadPtr k # map fptr (F k))"
    using free_listsD(1) [OF s k] fresh [OF k] ring_prev_in [of "bl_next s" "bl_prev s" "HeadPtr k" "map fptr (F k)"]
    by (auto simp: bl.holds_def)
  have eff: "bl_order s' = (bl_order s)(fptr n := k)" "same_frames s s'" "bl_node s' = (bl_node s)(fptr n := True)"
    "\<forall>fi. FramePtr fi \<notin> {fptr n, HeadPtr k, bl_prev s (HeadPtr k)} \<longrightarrow> fis s' fi = fis s fi"
    using bl_insert_effect [OF h(1,2) room _ h(3)] s'(1) free_listsD(2) [OF s k] by auto
  have "free_lists s' (F(k := F k @ [n]))"
    unfolding free_lists_def
  proof (intro allI impI conjI ballI)
    fix j assume j: "j \<le> MAX_ORDER"
    show "bl.holds s' (HeadPtr j) (map fptr ((F(k := F k @ [n])) j))"
      using s'(2) rest [OF free_listsD(1) [OF s j]] free_lists_apart [OF s j k] fresh [OF j] by (cases "j = k") auto
    show "bl_order s' (HeadPtr j) = j" using eff(1) free_listsD(2) [OF s j] by simp
    fix m assume m: "m \<in> set ((F(k := F k @ [n])) j)"
    show mm: "m < max_frames" using m n free_listsD(3) [OF s j, of m] by (auto split: if_splits)
    have "m = n \<and> j = k \<or> m \<in> set (F j) \<and> m \<noteq> n" using m new j by (auto split: if_splits)
    then show "bl_order s' (fptr m) = j" using eff(1) free_listsD(4) [OF s j, of m] mm n by auto
  qed
  moreover have "fis s' fi = fis s fi" if "FramePtr fi \<noteq> fptr n" "\<forall>j\<le>MAX_ORDER. FramePtr fi \<notin> fptr ` set (F j)" for fi
  proof -
    have "FramePtr fi \<notin> set (HeadPtr k # map fptr (F k))" using that(2) k by simp
    then have "FramePtr fi \<notin> {fptr n, HeadPtr k, bl_prev s (HeadPtr k)}" using that(1) h(4) by (metis insertE singletonD list.set_intros(1))
    then show ?thesis using eff(4) by blast
  qed
  ultimately show thesis using that s' eff by blast
qed

lemma free_lists_remove:
  assumes s: "free_lists s F" and k: "k \<le> MAX_ORDER" and F: "F k = xs @ n # ys"
    and h: "bl.holds s' (HeadPtr k) (map fptr (xs @ ys))" and o: "bl_order s' = bl_order s"
    and rest: "\<And>g zs. bl.holds s g zs \<Longrightarrow> set (g # zs) \<inter> set (HeadPtr k # map fptr (F k)) = {} \<Longrightarrow> bl.holds s' g zs"
  shows "free_lists s' (F(k := xs @ ys))"
  unfolding free_lists_def
proof (intro allI impI conjI ballI)
  fix j assume j: "j \<le> MAX_ORDER"
  show "bl.holds s' (HeadPtr j) (map fptr ((F(k := xs @ ys)) j))"
    using h rest [OF free_listsD(1) [OF s j]] free_lists_apart [OF s j k] by (cases "j = k") auto
  show "bl_order s' (HeadPtr j) = j" using o free_listsD(2) [OF s j] by simp
  fix m assume "m \<in> set ((F(k := xs @ ys)) j)"
  then have "m \<in> set (F j)" using F by (auto split: if_splits)
  then show "m < max_frames" "bl_order s' (fptr m) = j" using free_listsD(3,4) [OF s j] o by auto
qed

lemma ring_links_ok:
  assumes "bl.holds s h (xs @ x # ys)"
  shows "bl_node s x" "bl_node s (bl_prev s x)" "bl_node s (bl_next s x)" "bl_prev s x \<noteq> x" "bl_next s x \<noteq> x"
    "bl_next s (bl_prev s x) = x"
proof -
  have r: "ring (bl_next s) (bl_prev s) h (xs @ x # ys)" and n: "\<forall>y\<in>set (h # xs @ x # ys). bl_node s y"
    using assms by (auto simp: bl.holds_def)
  note i = ring_adjacent [OF r] and d = ring_def [of "bl_next s" "bl_prev s" h "xs @ x # ys"]
  show "bl_node s x" "bl_node s (bl_prev s x)" "bl_node s (bl_next s x)" "bl_prev s x \<noteq> x" "bl_next s x \<noteq> x"
    "bl_next s (bl_prev s x) = x" using n i r d ring_back [OF r] by auto
qed

lemma ring_links_near:
  assumes "bl.holds s h (xs @ x # ys)"
  shows "bl_prev s x \<in> set (h # xs)" "bl_next s x \<in> set (h # ys)"
  using assms ring_adjacent [of "bl_next s" "bl_prev s" h xs x ys] unfolding bl.holds_def by blast+

lemma bl_unlink_lists:
  assumes s: "free_lists s F" and k: "k \<le> MAX_ORDER" and F: "F k = xs @ n # ys"
  obtains s' where "bl_unlink (fptr n) s = Some s'" "free_lists s' (F(k := xs @ ys))" "same_frames s s'"
    "bl_order s' = bl_order s" "bl_node s' = bl_node s"
    "\<And>fi. \<forall>j\<le>MAX_ORDER. FramePtr fi \<notin> fptr ` set (F j) \<Longrightarrow> fis s' fi = fis s fi"
proof -
  have h: "bl.holds s (HeadPtr k) (map fptr xs @ fptr n # map fptr ys)" using free_listsD(1) [OF s k] F by simp
  obtain s' where s': "bl_unlink (fptr n) s = Some s'" "bl.holds s' (HeadPtr k) (map fptr xs @ map fptr ys)"
    and rest: "\<And>g zs. bl.holds s g zs \<Longrightarrow> set (g # zs) \<inter> set (HeadPtr k # map fptr xs @ fptr n # map fptr ys) = {} \<Longrightarrow> bl.holds s' g zs"
    by (rule bl.take_out_holds [OF h]) blast
  have eff: "bl_order s' = bl_order s" "same_frames s s'" "bl_node s' = bl_node s"
    "\<forall>fi. FramePtr fi \<notin> {fptr n, bl_prev s (fptr n), bl_next s (fptr n)} \<longrightarrow> fis s' fi = fis s fi"
    using bl_unlink_effect [OF ring_links_ok(1-5) [OF h]] s'(1) by auto
  have kept: "fis s' fi = fis s fi" if "\<forall>j\<le>MAX_ORDER. FramePtr fi \<notin> fptr ` set (F j)" for fi
  proof -
    have "FramePtr fi \<notin> set (HeadPtr k # map fptr (F k))" using that k by simp
    then have "FramePtr fi \<notin> {fptr n, bl_prev s (fptr n), bl_next s (fptr n)}"
      using ring_links_near [OF h] F by (auto simp del: fptr_inj)
    then show ?thesis using eff(4) by blast
  qed
  show thesis using that s' eff kept free_lists_remove [OF s k F _ eff(1)] rest F by simp
qed

lemma bl_pop_front_lists:
  assumes s: "free_lists s F" and k: "k \<le> MAX_ORDER" and F: "F k = n # ys"
  obtains s' where "bl_pop_front (HeadPtr k) s = Some (Some (fptr n), s')" "free_lists s' (F(k := ys))" "same_frames s s'"
    "bl_order s' = bl_order s" "bl_node s' = bl_node s"
    "\<And>fi. \<forall>j\<le>MAX_ORDER. FramePtr fi \<notin> fptr ` set (F j) \<Longrightarrow> fis s' fi = fis s fi"
proof -
  have h: "bl.holds s (HeadPtr k) ([] @ fptr n # map fptr ys)" using free_listsD(1) [OF s k] F by simp
  have p: "bl_prev s (fptr n) = HeadPtr k" using h by (auto simp: bl.holds_def ring_def)
  obtain s' where s': "bl_pop (fptr n) s = Some s'" "bl.holds s' (HeadPtr k) (map fptr ys)"
    and rest: "\<And>g zs. bl.holds s g zs \<Longrightarrow> set (g # zs) \<inter> set (HeadPtr k # fptr n # map fptr ys) = {} \<Longrightarrow> bl.holds s' g zs"
    by (rule bp.take_out_holds [OF h [unfolded bl.holds_def, folded bp.holds_def]])
      (simp add: bl.holds_def bp.holds_def)
  have eff: "bl_pop_front (HeadPtr k) s = Some (Some (fptr n), s')" "bl_order s' = bl_order s" "same_frames s s'"
    "bl_node s' = bl_node s" "\<forall>fi. FramePtr fi \<notin> {fptr n, bl_prev s (fptr n), bl_next s (fptr n)} \<longrightarrow> fis s' fi = fis s fi"
    using bl_pop_front_effect [OF ring_links_ok [OF h]] s'(1) by (auto simp: bl_pop_def p)
  have kept: "fis s' fi = fis s fi" if "\<forall>j\<le>MAX_ORDER. FramePtr fi \<notin> fptr ` set (F j)" for fi
  proof -
    have "FramePtr fi \<notin> set (HeadPtr k # map fptr (F k))" using that k by simp
    then have "FramePtr fi \<notin> {fptr n, bl_prev s (fptr n), bl_next s (fptr n)}"
      using ring_links_near [OF h] F by (auto simp del: fptr_inj)
    then show ?thesis using eff(5) by blast
  qed
  show thesis using that s' eff kept free_lists_remove [OF s k, of "[]" n ys] rest F by simp
qed

lemma bl_pop_front_empty:
  assumes s: "free_lists s F" and k: "k \<le> MAX_ORDER" and F: "F k = []"
  shows "bl_pop_front (HeadPtr k) s = Some (None, s)"
proof -
  have "bl_node s (HeadPtr k)" "bl_next s (HeadPtr k) = HeadPtr k"
    using free_listsD(1) [OF s k] F by (auto simp: bl.holds_def)
  then show ?thesis by (auto simp: bl_pop_front_def bl_fields)
qed

section \<open>Other writes\<close>

lemma free_lists_cong:
  assumes "bl_next s' = bl_next s" "bl_prev s' = bl_prev s" "bl_node s' = bl_node s"
    and "\<And>p. bl_order s' p \<noteq> bl_order s p \<Longrightarrow> \<exists>n. p = fptr n \<and> n < max_frames \<and> (\<forall>k\<le>MAX_ORDER. n \<notin> set (F k))"
    and "free_lists s F"
  shows "free_lists s' F"
  using assms(5) unfolding free_lists_def bl.holds_def assms(1,2,3)
  by (metis assms(4) fptr_head(1) fptr_inj)

lemma mem_set_ty_eff:
  assumes "fis s fi \<noteq> None"
  obtains s' where "mem_set_ty fi t s = Some s'" "bl_next s' = bl_next s" "bl_prev s' = bl_prev s" "bl_node s' = bl_node s"
    "bl_order s' = bl_order s" "\<And>gi. frame_ty gi (fis s') = (if gi = fi then Some t else frame_ty gi (fis s))"
    "\<And>gi. fis s' gi = None \<longleftrightarrow> fis s gi = None" "\<And>p. bl_get p s' = bl_get p s"
    "\<And>gi. gi \<noteq> fi \<Longrightarrow> fis s' gi = fis s gi"
proof -
  obtain d where d: "fis s fi = Some d" using assms by blast
  let ?s = "s\<lparr>fis := (fis s)(fi \<mapsto> d\<lparr>fflags := set_ty_flags t (fflags d)\<rparr>)\<rparr>"
  have e: "mem_set_ty fi t s = Some ?s" by (simp add: mem_set_ty_def set_ty_Some [of "fis s", OF d])
  have g: "bl_get p ?s = bl_get p s" for p using d by (auto simp: bl_get_def split: list_ptr.splits)
  show thesis by (rule that [OF e]) (use d in \<open>auto simp: fun_eq_iff bl_fields g\<close>)
qed

lemma free_lists_same:
  assumes "\<And>p. bl_get p s' = bl_get p s" and "free_lists s F"
  shows "free_lists s' F"
  by (rule free_lists_cong [OF _ _ _ _ assms(2)]) (auto simp: fun_eq_iff bl_fields assms(1))

end
