(* ===== verification/Buddy_Spec.thy ===== *)
theory Buddy_Spec
  imports Buddy_Rep
begin

text \<open>
  What the buddy allocator promises.  A block is a frame number and an order.  \<open>buddy_state K s F A R\<close> relates the
  memory to the free lists \<open>F\<close>, the set \<open>A\<close> of allocated blocks and a set \<open>R\<close> of frames in transit: blocks are
  aligned and disjoint, the types of the descriptors tell free, allocated and inner frames apart, and the order of
  an allocated block is recorded.  Allocation, release and the addition of a range preserve it, and move exactly
  the frames of the block.
\<close>

unbundle bit_operations_syntax

type_synonym block = "nat \<times> nat"

section \<open>Blocks\<close>

definition blk :: "block \<Rightarrow> nat set" where
  "blk b = {fst b..<fst b + 2 ^ snd b}"

definition block_ok :: "block \<Rightarrow> bool" where
  "block_ok b \<longleftrightarrow> snd b \<le> MAX_ORDER \<and> 2 ^ snd b dvd fst b \<and> fst b + 2 ^ snd b \<le> max_frames"

definition frames :: "block set \<Rightarrow> nat set" where
  "frames B = (\<Union>b\<in>B. blk b)"

definition fblocks :: "(nat \<Rightarrow> nat list) \<Rightarrow> block set" where
  "fblocks F = {(n, k). k \<le> MAX_ORDER \<and> n \<in> set (F k)}"

lemma first_in_blk [simp]: "n \<in> blk (n, k)"
  by (simp add: blk_def)

lemma fst_in_blk [simp]: "fst b \<in> blk b"
  by (simp add: blk_def)

lemma blk_nonempty [simp]: "blk b \<noteq> {}"
  using fst_in_blk by blast

lemma blk_less: "block_ok b \<Longrightarrow> m \<in> blk b \<Longrightarrow> m < max_frames"
  by (auto simp: block_ok_def blk_def)

lemma frames_insert: "frames (insert b B) = blk b \<union> frames B"
  by (simp add: frames_def)

lemma frames_Un: "frames (B \<union> C) = frames B \<union> frames C"
  by (auto simp: frames_def)

lemma fblocks_append: "k \<le> MAX_ORDER \<Longrightarrow> fblocks (F(k := F k @ [n])) = insert (n, k) (fblocks F)"
  by (auto simp: fblocks_def split: if_splits)

lemma fblocks_remove:
  "k \<le> MAX_ORDER \<Longrightarrow> distinct (F k) \<Longrightarrow> F k = xs @ n # ys \<Longrightarrow> fblocks F = insert (n, k) (fblocks (F(k := xs @ ys))) \<and>
     (n, k) \<notin> fblocks (F(k := xs @ ys))"
  by (auto simp: fblocks_def split: if_splits)

text \<open>A block and its buddy are the two halves of a block of the next order.\<close>

lemma buddy_cases:
  assumes "2 ^ k dvd (n :: nat)"
  obtains (lower) "2 ^ Suc k dvd n" "flip_bit k n = n + 2 ^ k" "unset_bit k n = n" "set_bit k n = n + 2 ^ k"
  | (upper) l where "2 ^ Suc k dvd l" "n = l + 2 ^ k" "flip_bit k n = l" "unset_bit k n = l" "set_bit k n = n"
proof -
  obtain q where q: "n = 2 ^ k * q" using assms by auto
  have b: "bit n k \<longleftrightarrow> odd q" by (simp add: q bit_iff_odd)
  show thesis
  proof (cases "even q")
    case True
    then obtain r where "q = 2 * r" by blast
    then have "2 ^ Suc k dvd n" using q by simp
    moreover have "unset_bit k n = n" using True b by (auto intro!: bit_eqI simp: bit_unset_bit_iff)
    ultimately show thesis using lower True b by (simp add: flip_bit_eq_if set_bit_eq)
  next
    case False
    then obtain r where r: "q = Suc (2 * r)" using oddE by fastforce
    have n: "n = 2 ^ Suc k * r + 2 ^ k" using q r by (simp add: algebra_simps)
    have z: "\<not> bit (2 ^ Suc k * r) k" by (simp add: bit_iff_odd)
    then have "n = set_bit k (2 ^ Suc k * r)" by (simp add: n set_bit_eq)
    then have "unset_bit k n = 2 ^ Suc k * r" using z
      by (auto intro!: bit_eqI simp: bit_unset_bit_iff bit_set_bit_iff simp del: power_Suc)
    then show thesis using upper [of "2 ^ Suc k * r"] n False b by (simp add: flip_bit_eq_if set_bit_eq)
  qed
qed

lemma max_aligned: "k \<le> MAX_ORDER \<Longrightarrow> 2 ^ k dvd max_frames"
  unfolding MAX_ORDER_def max_frames_def by (rule le_imp_power_dvd) simp

lemma aligned_le:
  assumes "(d::nat) dvd a" "d dvd b" "a < b"
  shows "a + d \<le> b"
proof -
  obtain p q where pq: "a = d * p" "b = d * q" using assms by (auto elim!: dvdE)
  then have "p < q" using assms(3) mult_le_mono2 [of q p d] by (cases "p < q") auto
  then have "Suc p \<le> q" by simp
  then have "d * Suc p \<le> d * q" by (rule mult_le_mono2)
  then show ?thesis using pq by simp
qed

lemma chunk_same:
  assumes "2 ^ Suc k dvd (l :: nat)" "Suc k \<le> MAX_ORDER"
  shows "(l + 2 ^ k) div 2 ^ MAX_ORDER = l div 2 ^ MAX_ORDER"
proof -
  have "l div 2 ^ MAX_ORDER = l div 2 ^ Suc k div 2 ^ (MAX_ORDER - Suc k)" for l :: nat
    using assms(2) by (simp only: div_mult2_eq [symmetric] power_add [symmetric]) simp
  moreover have "(l + 2 ^ k) div 2 ^ Suc k = l div 2 ^ Suc k" using assms(1) by (simp add: div_add1_eq [of l] mod_eq_0_iff_dvd)
  ultimately show ?thesis by presburger
qed

lemma merged_block:
  assumes ok: "block_ok (n, k)" and k: "k < MAX_ORDER"
  defines "b \<equiv> flip_bit k n" and "l \<equiv> unset_bit k n" and "h \<equiv> set_bit k n"
  shows "block_ok (l, Suc k)" "blk (l, Suc k) = blk (n, k) \<union> blk (b, k)" "b \<notin> blk (n, k)" "b < max_frames"
    "b div 2 ^ MAX_ORDER = n div 2 ^ MAX_ORDER" "h = l + 2 ^ k" "{n, b} = {l, h}" "2 ^ k dvd b" "block_ok (b, k)"
proof -
  have d: "2 ^ k dvd n" and n: "n + 2 ^ k \<le> max_frames" using ok by (auto simp: block_ok_def)
  have m: "2 ^ Suc k dvd max_frames" using max_aligned [of "Suc k"] k by simp
  from d have "block_ok (l, Suc k) \<and> blk (l, Suc k) = blk (n, k) \<union> blk (b, k) \<and> b \<notin> blk (n, k) \<and> b < max_frames \<and>
    b div 2 ^ MAX_ORDER = n div 2 ^ MAX_ORDER \<and> h = l + 2 ^ k \<and> {n, b} = {l, h} \<and> 2 ^ k dvd b \<and> block_ok (b, k)"
  proof (cases rule: buddy_cases)
    case lower
    have "n < max_frames" using n zero_less_power [of "2::nat" k] by linarith
    then have "n + 2 ^ Suc k \<le> max_frames" by (rule aligned_le [OF lower(1) m])
    moreover have "2 ^ k dvd n + 2 ^ k" using d by simp
    moreover have "n + 2 ^ k < max_frames" using \<open>n + 2 ^ Suc k \<le> max_frames\<close> zero_less_power [of "2::nat" k]
      unfolding power_Suc by linarith
    ultimately show ?thesis using lower k chunk_same [OF lower(1)] unfolding b_def l_def h_def
      by (auto simp: block_ok_def blk_def)
  next
    case (upper l')
    moreover have "2 ^ k dvd l'" using upper(1) by (meson dvd_trans le_imp_power_dvd le_SucI order_refl)
    moreover have "l' < max_frames" using upper(2) n zero_less_power [of "2::nat" k] by linarith
    ultimately show ?thesis using k n chunk_same [OF upper(1)] unfolding b_def l_def h_def
      by (auto simp: block_ok_def blk_def)
  qed
  then show "block_ok (l, Suc k)" "blk (l, Suc k) = blk (n, k) \<union> blk (b, k)" "b \<notin> blk (n, k)" "b < max_frames"
    "b div 2 ^ MAX_ORDER = n div 2 ^ MAX_ORDER" "h = l + 2 ^ k" "{n, b} = {l, h}" "2 ^ k dvd b" "block_ok (b, k)" by blast+
qed

text \<open>A block that starts before the buddy of a block and contains it contains the block too.\<close>

lemma inner_buddy:
  assumes ok: "block_ok (n, k)" and k: "k < MAX_ORDER" and c: "block_ok (c, j)"
    and inside: "flip_bit k n \<in> blk (c, j)" "flip_bit k n \<noteq> c"
  shows "n \<in> blk (c, j)"
proof -
  let ?b = "flip_bit k n" and ?l = "unset_bit k n"
  note mb = merged_block [OF ok k]
  have cb: "c < ?b" "?b < c + 2 ^ j" and dc: "2 ^ j dvd c" using inside c by (auto simp: blk_def block_ok_def)
  have "\<not> j \<le> k"
  proof
    assume "j \<le> k"
    then have "2 ^ j dvd ?b" using mb(8) by (meson dvd_trans le_imp_power_dvd)
    then show False using aligned_le [OF dc _ cb(1)] cb(2) by simp
  qed
  then have jk: "Suc k \<le> j" by simp
  then have dk: "2 ^ Suc k dvd c" "2 ^ Suc k dvd c + 2 ^ j" using dc by (auto intro: dvd_trans le_imp_power_dvd simp del: power_Suc)
  have dl: "2 ^ Suc k dvd ?l" using mb(1) by (auto simp: block_ok_def simp del: power_Suc)
  have "?l < ?l + 2 ^ Suc k" "?l + 2 ^ k < ?l + 2 ^ Suc k" by simp_all
  then have "\<forall>x\<in>{n, ?b}. ?l \<le> x \<and> x < ?l + 2 ^ Suc k" unfolding mb(6,7) by simp
  then have lb: "?l \<le> ?b" "?b < ?l + 2 ^ Suc k" and ln: "?l \<le> n" "n < ?l + 2 ^ Suc k" by blast+
  have "c \<le> ?l" using aligned_le [OF dl dk(1)] cb lb by linarith
  moreover have "?l + 2 ^ Suc k \<le> c + 2 ^ j" using aligned_le [OF dl dk(2)] cb lb by linarith
  ultimately show ?thesis using ln by (auto simp: blk_def)
qed

section \<open>The state\<close>

definition fty :: "frame_mem \<Rightarrow> nat \<Rightarrow> frame_type option" where
  "fty s n = (if n < max_frames then frame_ty (fi_of n) (fis s) else None)"

definition layout :: "block set \<Rightarrow> nat set \<Rightarrow> bool" where
  "layout B R \<longleftrightarrow> (\<forall>b\<in>B. block_ok b \<and> blk b \<inter> R = {}) \<and> (\<forall>b\<in>B. \<forall>c\<in>B. b \<noteq> c \<longrightarrow> blk b \<inter> blk c = {})"

definition typed :: "(nat \<Rightarrow> frame_type option) \<Rightarrow> block set \<Rightarrow> block set \<Rightarrow> nat set \<Rightarrow> bool" where
  "typed T B A R \<longleftrightarrow>
     (\<forall>b\<in>B. T (fst b) = Some FBuddy) \<and>
     (\<forall>b\<in>A. T (fst b) = Some FBuddyAllocated \<or> T (fst b) = Some FSlab) \<and>
     (\<forall>b\<in>B \<union> A. \<forall>m\<in>blk b. m \<noteq> fst b \<longrightarrow> T m = Some FBuddyTail) \<and>
     (\<forall>m<max_frames. m \<notin> frames (B \<union> A) \<and> m \<notin> R \<and> T m \<noteq> None \<longrightarrow> T m = Some FReserved)"

text \<open>The descriptors are mapped for whole groups of \<open>2\<^sup>1\<^sup>0\<close> frames, so that a buddy always has one.\<close>

definition chunked :: "(nat \<Rightarrow> frame_type option) \<Rightarrow> bool" where
  "chunked T \<longleftrightarrow> (\<forall>m m'. m < max_frames \<and> m' < max_frames \<and> m' div 2 ^ MAX_ORDER = m div 2 ^ MAX_ORDER \<and> T m \<noteq> None \<longrightarrow> T m' \<noteq> None)"

definition orders :: "frame_mem \<Rightarrow> block set \<Rightarrow> bool" where
  "orders s A \<longleftrightarrow> (\<forall>(n, k)\<in>A. fty s n = Some FBuddyAllocated \<longrightarrow> bl_node s (fptr n) \<and> bl_order s (fptr n) = k)"

text \<open>
  The users of allocated blocks may keep data of their own in the descriptor of the first frame; \<open>held K s A\<close> says
  that the descriptors given by \<open>K\<close> belong to allocated blocks and are as \<open>K\<close> says.
\<close>

definition held :: "(nat \<Rightarrow> frame_info option) \<Rightarrow> frame_mem \<Rightarrow> block set \<Rightarrow> bool" where
  "held K s A \<longleftrightarrow> (\<forall>n d. K n = Some d \<longrightarrow> n < max_frames \<and> n \<in> fst ` A \<and> fis s (fi_of n) = Some d)"

definition buddy_core :: "(nat \<Rightarrow> frame_info option) \<Rightarrow> frame_mem \<Rightarrow> (nat \<Rightarrow> nat list) \<Rightarrow> block set \<Rightarrow> nat set \<Rightarrow> bool" where
  "buddy_core K s F A R \<longleftrightarrow> free_lists s F \<and> layout (fblocks F \<union> A) R \<and> fblocks F \<inter> A = {} \<and> chunked (fty s) \<and> orders s A \<and>
     held K s A"

definition buddy_state :: "(nat \<Rightarrow> frame_info option) \<Rightarrow> frame_mem \<Rightarrow> (nat \<Rightarrow> nat list) \<Rightarrow> block set \<Rightarrow> nat set \<Rightarrow> bool" where
  "buddy_state K s F A R \<longleftrightarrow> buddy_core K s F A R \<and> typed (fty s) (fblocks F) A R"

lemma fty_mapped: "fty s n \<noteq> None \<Longrightarrow> fis s (fi_of n) \<noteq> None"
  by (cases "fis s (fi_of n)") (auto simp: fty_def frame_ty_def split: if_splits)

lemma fty_less: "fty s n \<noteq> None \<Longrightarrow> n < max_frames"
  by (simp add: fty_def split: if_splits)

lemma fty_same: "same_frames s s' \<Longrightarrow> fty s' = fty s"
  by (auto simp: fun_eq_iff fty_def same_frames_ty)

lemma layout_remove: "layout (insert b B) R \<Longrightarrow> b \<notin> B \<Longrightarrow> layout B (R \<union> blk b)"
  unfolding layout_def by (auto simp: Int_Un_distrib)

lemma layout_add:
  assumes "layout B R" "block_ok b" "blk b \<subseteq> R"
  shows "layout (insert b B) (R - blk b)" and "b \<notin> B"
proof -
  have *: "blk c \<inter> blk b = {}" if "c \<in> B" for c using assms that by (auto simp: layout_def)
  then show "b \<notin> B" using fst_in_blk [of b] by blast
  show "layout (insert b B) (R - blk b)" using assms(1,2) * unfolding layout_def by blast
qed

lemma chunked_upd: "chunked T \<Longrightarrow> T n \<noteq> None \<Longrightarrow> chunked (T(n \<mapsto> t))"
  unfolding chunked_def by (metis fun_upd_apply option.distinct(1))

lemma layout_first:
  assumes "layout B R" "b \<in> B" "c \<in> B" "fst b \<in> blk c"
  shows "b = c"
proof (rule ccontr)
  assume "b \<noteq> c"
  then have "blk b \<inter> blk c = {}" using assms by (auto simp: layout_def)
  then show False using assms(4) fst_in_blk [of b] by blast
qed

lemma typed_mono: "typed T B A R \<Longrightarrow> R \<subseteq> R' \<Longrightarrow> typed T B A R'"
  unfolding typed_def by blast

lemma typed_remove_free: "typed T (insert b B) A R \<Longrightarrow> typed T B A (R \<union> blk b)"
  unfolding typed_def by (auto simp: frames_insert)

lemma typed_remove_alloc: "typed T B (insert b A) R \<Longrightarrow> typed T B A (R \<union> blk b)"
  unfolding typed_def by (auto simp: frames_insert)

lemma typed_add_free:
  assumes "typed T B A R" "T (fst b) = Some FBuddy" "\<And>m. m \<in> blk b \<Longrightarrow> m \<noteq> fst b \<Longrightarrow> T m = Some FBuddyTail"
  shows "typed T (insert b B) A (R - blk b)"
  using assms unfolding typed_def by (auto simp: frames_insert)

lemma typed_add_alloc:
  assumes "typed T B A R" "T (fst b) = Some FBuddyAllocated \<or> T (fst b) = Some FSlab"
    "\<And>m. m \<in> blk b \<Longrightarrow> m \<noteq> fst b \<Longrightarrow> T m = Some FBuddyTail"
  shows "typed T B (insert b A) (R - blk b)"
  using assms unfolding typed_def by (auto simp: frames_insert)

lemma typed_upd:
  assumes "typed T B A R" "layout (B \<union> A) R" "n \<in> R"
  shows "typed (T(n \<mapsto> t)) B A R"
proof -
  have *: "b \<in> B \<union> A \<Longrightarrow> n \<notin> blk b" for b using assms(2,3) by (auto simp: layout_def)
  then have "b \<in> B \<union> A \<Longrightarrow> fst b \<noteq> n" for b using fst_in_blk by metis
  then show ?thesis using assms(1,3) * unfolding typed_def by auto
qed

text \<open>The type of a frame tells where it is.\<close>

lemma frame_cases:
  assumes st: "buddy_state K s F A R" and m: "m < max_frames" "m \<notin> R" and t: "fty s m = Some t"
  obtains (reserved) "t = FReserved" "m \<notin> frames (fblocks F \<union> A)"
  | (inner) c where "c \<in> fblocks F \<union> A" "m \<in> blk c" "m \<noteq> fst c" "t = FBuddyTail"
  | (free) k where "(m, k) \<in> fblocks F" "t = FBuddy"
  | (allocated) k where "(m, k) \<in> A" "t = FBuddyAllocated \<or> t = FSlab"
proof -
  have ty: "typed (fty s) (fblocks F) A R" using st by (simp add: buddy_state_def)
  show thesis
  proof (cases "m \<in> frames (fblocks F \<union> A)")
    case False
    then show thesis using reserved ty m t unfolding typed_def by auto
  next
    case True
    then obtain c where c: "c \<in> fblocks F \<union> A" "m \<in> blk c" by (auto simp: frames_def)
    show thesis
    proof (cases "m = fst c")
      case True
      then have "(m, snd c) \<in> fblocks F \<and> t = FBuddy \<or> (m, snd c) \<in> A \<and> (t = FBuddyAllocated \<or> t = FSlab)"
        using c(1) ty t by (auto simp: typed_def)
      then show thesis using free allocated by blast
    qed (use inner c ty t in \<open>auto simp: typed_def\<close>)
  qed
qed

section \<open>Steps\<close>

lemma layout_apart: "layout B R \<Longrightarrow> n \<in> R \<Longrightarrow> (n, k) \<notin> B"
  unfolding layout_def using first_in_blk [of n k] by (metis disjoint_iff)

lemma held_step:
  assumes "held K s A" "\<And>m. m < max_frames \<Longrightarrow> m \<in> fst ` A \<Longrightarrow> fis s' (fi_of m) = fis s (fi_of m)"
  shows "held K s' A"
  using assms unfolding held_def by metis

lemma core_apart:
  assumes "buddy_core K s F A R" "m \<in> fst ` A"
  shows "m \<notin> R" and "j \<le> MAX_ORDER \<Longrightarrow> m \<notin> set (F j)"
proof -
  obtain k where k: "(m, k) \<in> A" using assms(2) by auto
  have la: "layout (fblocks F \<union> A) R" and d: "fblocks F \<inter> A = {}" using assms(1) by (auto simp: buddy_core_def)
  show "m \<notin> R" using layout_apart [OF la] k by blast
  show "m \<notin> set (F j)" if "j \<le> MAX_ORDER"
  proof
    assume "m \<in> set (F j)"
    then have b: "(m, j) \<in> fblocks F" using that by (simp add: fblocks_def)
    then have "(m, j) = (m, k)" using layout_first [OF la, of "(m, j)" "(m, k)"] k by auto
    then show False using b k d by auto
  qed
qed

lemma core_apart_ptr:
  assumes "buddy_core K s F A R" "m \<in> fst ` A" "m < max_frames"
  shows "\<forall>j\<le>MAX_ORDER. FramePtr (fi_of m) \<notin> fptr ` set (F j)"
proof (intro allI impI notI)
  fix j assume j: "j \<le> MAX_ORDER" and "FramePtr (fi_of m) \<in> fptr ` set (F j)"
  then obtain i where i: "fptr m = fptr i" "i \<in> set (F j)" by (auto simp: fptr_def)
  moreover have "i < max_frames" using i(2) j free_listsD(3) [of s F j] assms(1) by (simp add: buddy_core_def)
  ultimately show False using core_apart(2) [OF assms(1,2) j] assms(3) by simp
qed

lemma core_insert:
  assumes c: "buddy_core K s F A R" and ok: "block_ok (n, k)" and R: "blk (n, k) \<subseteq> R" and n: "fty s n \<noteq> None"
  obtains s' where "bl_insert (HeadPtr k) (fptr n) s = Some s'" "buddy_core K s' (F(k := F k @ [n])) A (R - blk (n, k))"
    "fty s' = fty s" "\<And>p. bl_node s p \<Longrightarrow> bl_node s' p"
proof -
  have fl: "free_lists s F" and la: "layout (fblocks F \<union> A) R" and o: "orders s A" and k: "k \<le> MAX_ORDER"
    using c ok by (auto simp: buddy_core_def block_ok_def)
  have nR: "n \<in> R" using R first_in_blk by blast
  have new: "\<forall>j\<le>MAX_ORDER. n \<notin> set (F j)" using layout_apart [OF la nR] by (auto simp: fblocks_def)
  obtain s' where s': "bl_insert (HeadPtr k) (fptr n) s = Some s'" "free_lists s' (F(k := F k @ [n]))" "same_frames s s'"
    "bl_order s' = (bl_order s)(fptr n := k)" "bl_node s' = (bl_node s)(fptr n := True)"
    and kept: "\<And>fi. FramePtr fi \<noteq> fptr n \<Longrightarrow> \<forall>j\<le>MAX_ORDER. FramePtr fi \<notin> fptr ` set (F j) \<Longrightarrow> fis s' fi = fis s fi"
    by (rule bl_insert_lists [OF fl k fty_less [OF n] fty_mapped [OF n] new]) blast
  note t = fty_same [OF s'(3)]
  have "orders s' A" unfolding orders_def t
  proof (clarify)
    fix m j assume "(m, j) \<in> A" and ty: "fty s m = Some FBuddyAllocated"
    moreover have "m \<noteq> n" using \<open>(m, j) \<in> A\<close> layout_apart [OF la nR] by blast
    ultimately show "bl_node s' (fptr m) \<and> bl_order s' (fptr m) = j"
      using o fty_less [OF n] fty_less [of s m] by (auto simp: s' orders_def)
  qed
  moreover have "held K s' A"
  proof (rule held_step [of K s])
    show "held K s A" using c by (simp add: buddy_core_def)
    fix m assume m: "m < max_frames" "m \<in> fst ` A"
    then have "m \<noteq> n" using core_apart(1) [OF c m(2)] nR by blast
    then have "FramePtr (fi_of m) \<noteq> fptr n" using m(1) fty_less [OF n] by (simp add: fptr_def)
    then show "fis s' (fi_of m) = fis s (fi_of m)" using kept core_apart_ptr [OF c m(2,1)] by blast
  qed
  ultimately have "buddy_core K s' (F(k := F k @ [n])) A (R - blk (n, k))"
    using s' c layout_add [OF la ok R] by (auto simp: buddy_core_def fblocks_append [OF k] t)
  then show thesis using that s' t by simp
qed

lemma core_set_ty:
  assumes c: "buddy_core K s F A R" and n: "fty s n \<noteq> None" and a: "n \<notin> fst ` A"
  obtains s' where "mem_set_ty (fi_of n) t s = Some s'" "buddy_core K s' F A R" "fty s' = (fty s)(n \<mapsto> t)"
    "\<And>p. bl_get p s' = bl_get p s"
proof -
  obtain s' where s': "mem_set_ty (fi_of n) t s = Some s'" "bl_node s' = bl_node s" "bl_order s' = bl_order s"
    "\<And>gi. frame_ty gi (fis s') = (if gi = fi_of n then Some t else frame_ty gi (fis s))" "\<And>p. bl_get p s' = bl_get p s"
    and kept: "\<And>gi. gi \<noteq> fi_of n \<Longrightarrow> fis s' gi = fis s gi"
    by (rule mem_set_ty_eff [OF fty_mapped [OF n]]) blast
  have t: "fty s' = (fty s)(n \<mapsto> t)" using fty_less [OF n] by (auto simp: fun_eq_iff fty_def s'(4))
  have "orders s' A" using c a unfolding buddy_core_def orders_def t s' by (force simp: image_iff)
  moreover have "held K s' A"
  proof (rule held_step [of K s])
    show "held K s A" using c by (simp add: buddy_core_def)
    fix m assume m: "m < max_frames" "m \<in> fst ` A"
    then have "fi_of m \<noteq> fi_of n" using a fty_less [OF n] by auto
    then show "fis s' (fi_of m) = fis s (fi_of m)" by (rule kept)
  qed
  ultimately have "buddy_core K s' F A R" using c free_lists_same [OF s'(5)] chunked_upd [of "fty s" n t] n
    by (simp add: buddy_core_def t)
  then show thesis using that s' t by blast
qed

lemma core_take:
  assumes c: "buddy_core K s F A R" and k: "k \<le> MAX_ORDER" and F: "F k = xs @ n # ys"
    and s': "free_lists s' (F(k := xs @ ys))" "same_frames s s'" "bl_order s' = bl_order s" "bl_node s' = bl_node s"
    and kept: "\<And>fi. \<forall>j\<le>MAX_ORDER. FramePtr fi \<notin> fptr ` set (F j) \<Longrightarrow> fis s' fi = fis s fi"
  shows "buddy_core K s' (F(k := xs @ ys)) A (R \<union> blk (n, k))" "fty s' = fty s"
    "fblocks F = insert (n, k) (fblocks (F(k := xs @ ys)))"
proof -
  show t: "fty s' = fty s" by (rule fty_same [OF s'(2)])
  have fl: "free_lists s F" and la: "layout (fblocks F \<union> A) R" and d: "fblocks F \<inter> A = {}"
    using c by (auto simp: buddy_core_def)
  note fb = fblocks_remove [of k F xs n ys, OF k free_lists_distinct [OF fl k] F]
  then show "fblocks F = insert (n, k) (fblocks (F(k := xs @ ys)))" by blast
  have "layout (insert (n, k) (fblocks (F(k := xs @ ys)) \<union> A)) R" using la fb by simp
  then have "layout (fblocks (F(k := xs @ ys)) \<union> A) (R \<union> blk (n, k))" using d fb by (intro layout_remove) auto
  moreover have "held K s' A"
  proof (rule held_step [of K s])
    show "held K s A" using c by (simp add: buddy_core_def)
    show "fis s' (fi_of m) = fis s (fi_of m)" if "m < max_frames" "m \<in> fst ` A" for m
      using core_apart_ptr [OF c that(2,1)] by (rule kept)
  qed
  moreover have "fblocks (F(k := xs @ ys)) \<inter> A = {}" using d fb by blast
  moreover have "orders s' A" using c by (simp add: buddy_core_def orders_def t s'(3,4))
  ultimately show "buddy_core K s' (F(k := xs @ ys)) A (R \<union> blk (n, k))" using c s'(1) by (simp add: buddy_core_def t)
qed

lemma state_unlink:
  assumes st: "buddy_state K s F A R" and b: "(n, k) \<in> fblocks F"
  obtains s' F' where "bl_unlink (fptr n) s = Some s'" "buddy_state K s' F' A (R \<union> blk (n, k))" "fty s' = fty s"
    "fblocks F = insert (n, k) (fblocks F')" "(n, k) \<notin> fblocks F'"
proof -
  have c: "buddy_core K s F A R" and fl: "free_lists s F" using st by (auto simp: buddy_state_def buddy_core_def)
  have k: "k \<le> MAX_ORDER" using b by (simp add: fblocks_def)
  obtain xs ys where F: "F k = xs @ n # ys" using b by (auto simp: fblocks_def dest: split_list)
  obtain s' where s': "bl_unlink (fptr n) s = Some s'" "free_lists s' (F(k := xs @ ys))" "same_frames s s'"
    "bl_order s' = bl_order s" "bl_node s' = bl_node s"
    and kept: "\<And>fi. \<forall>j\<le>MAX_ORDER. FramePtr fi \<notin> fptr ` set (F j) \<Longrightarrow> fis s' fi = fis s fi"
    by (rule bl_unlink_lists [OF fl k F]) blast
  note ct = core_take [OF c k F s'(2-5) kept] and fb = fblocks_remove [of k F xs n ys, OF k free_lists_distinct [OF fl k] F]
  have "typed (fty s) (fblocks (F(k := xs @ ys))) A (R \<union> blk (n, k))"
    using st ct(3) typed_remove_free by (simp add: buddy_state_def)
  then have "buddy_state K s' (F(k := xs @ ys)) A (R \<union> blk (n, k))" using ct by (simp add: buddy_state_def)
  then show thesis using that [of s' "F(k := xs @ ys)"] s'(1) ct fb by blast
qed

lemma state_pop:
  assumes st: "buddy_state K s F A R" and k: "k \<le> MAX_ORDER" and F: "F k = n # ys"
  obtains s' where "bl_pop_front (HeadPtr k) s = Some (Some (fptr n), s')" "buddy_state K s' (F(k := ys)) A (R \<union> blk (n, k))"
    "fty s' = fty s" "fblocks F = insert (n, k) (fblocks (F(k := ys)))" "bl_node s' (fptr n)"
proof -
  have c: "buddy_core K s F A R" and fl: "free_lists s F" using st by (auto simp: buddy_state_def buddy_core_def)
  obtain s' where s': "bl_pop_front (HeadPtr k) s = Some (Some (fptr n), s')" "free_lists s' (F(k := ys))" "same_frames s s'"
    "bl_order s' = bl_order s" "bl_node s' = bl_node s"
    and kept: "\<And>fi. \<forall>j\<le>MAX_ORDER. FramePtr fi \<notin> fptr ` set (F j) \<Longrightarrow> fis s' fi = fis s fi"
    by (rule bl_pop_front_lists [OF fl k F]) blast
  have F0: "F k = [] @ n # ys" using F by simp
  have s0: "free_lists s' (F(k := [] @ ys))" using s'(2) by simp
  note ct = core_take [OF c k F0 s0 s'(3-5) kept, unfolded append_Nil]
  have "typed (fty s) (fblocks (F(k := ys))) A (R \<union> blk (n, k))"
    using st ct(3) typed_remove_free by (simp add: buddy_state_def)
  then have "buddy_state K s' (F(k := ys)) A (R \<union> blk (n, k))" using ct by (simp add: buddy_state_def)
  then show thesis using that s' ct free_listsD(5) [OF fl k, of n] F by simp
qed

lemma state_set_ty:
  assumes st: "buddy_state K s F A R" and n: "n \<in> R" "fty s n \<noteq> None"
  obtains s' where "mem_set_ty (fi_of n) t s = Some s'" "buddy_state K s' F A R" "fty s' = (fty s)(n \<mapsto> t)"
    "\<And>p. bl_get p s' = bl_get p s"
proof -
  have c: "buddy_core K s F A R" and la: "layout (fblocks F \<union> A) R" using st by (auto simp: buddy_state_def buddy_core_def)
  have "n \<notin> fst ` A" using layout_apart [OF la n(1)] by auto
  from core_set_ty [OF c n(2) this, of t]
  obtain s' where "mem_set_ty (fi_of n) t s = Some s'" "buddy_core K s' F A R" "fty s' = (fty s)(n \<mapsto> t)"
    "\<And>p. bl_get p s' = bl_get p s" by blast
  then show thesis using that [of s'] st typed_upd [OF _ la n(1)] by (simp add: buddy_state_def)
qed

text \<open>A block whose inner frames are marked becomes free.\<close>

lemma state_put_free:
  assumes st: "buddy_state K s F A R" and ok: "block_ok (n, k)" and R: "blk (n, k) \<subseteq> R" and n: "fty s n \<noteq> None"
    and tails: "\<And>m. m \<in> blk (n, k) \<Longrightarrow> m \<noteq> n \<Longrightarrow> fty s m = Some FBuddyTail"
  obtains s1 s2 where "bl_insert (HeadPtr k) (fptr n) s = Some s1" "mem_set_ty (fi_of n) FBuddy s1 = Some s2"
    "buddy_state K s2 (F(k := F k @ [n])) A (R - blk (n, k))" "fty s2 = (fty s)(n \<mapsto> FBuddy)"
    "\<And>p. bl_node s p \<Longrightarrow> bl_node s2 p"
proof -
  have c: "buddy_core K s F A R" and la: "layout (fblocks F \<union> A) R" and k: "k \<le> MAX_ORDER"
    using st ok by (auto simp: buddy_state_def buddy_core_def block_ok_def)
  have nR: "n \<in> R" using R first_in_blk by blast
  have nA: "n \<notin> fst ` A" using layout_apart [OF la nR] by auto
  obtain s1 where s1: "bl_insert (HeadPtr k) (fptr n) s = Some s1" "buddy_core K s1 (F(k := F k @ [n])) A (R - blk (n, k))"
    "fty s1 = fty s" "\<And>p. bl_node s p \<Longrightarrow> bl_node s1 p" by (rule core_insert [OF c ok R n]) blast
  obtain s2 where s2: "mem_set_ty (fi_of n) FBuddy s1 = Some s2" "buddy_core K s2 (F(k := F k @ [n])) A (R - blk (n, k))"
    "fty s2 = (fty s)(n \<mapsto> FBuddy)" "\<And>p. bl_get p s2 = bl_get p s1"
    by (rule core_set_ty [OF s1(2), of n]) (use n nA s1(3) in auto)
  have "typed ((fty s)(n \<mapsto> FBuddy)) (fblocks F) A R" using st typed_upd [OF _ la nR] by (simp add: buddy_state_def)
  then have "typed (fty s2) (insert (n, k) (fblocks F)) A (R - blk (n, k))"
    using tails unfolding s2(3) by (intro typed_add_free) auto
  then show thesis using that s1 s2 by (simp add: buddy_state_def fblocks_append [OF k] bl_node_def)
qed

lemma state_set_order:
  assumes st: "buddy_state K s F A R" and n: "n \<in> R" "n < max_frames" and b: "bl_get (fptr n) s = Some b"
  obtains s' where "bl_set (fptr n) (b\<lparr>border := k\<rparr>) s = Some s'" "buddy_state K s' F A R" "fty s' = fty s"
    "bl_node s' (fptr n)" "bl_order s' (fptr n) = k"
proof -
  have fl: "free_lists s F" and la: "layout (fblocks F \<union> A) R" and o: "orders s A"
    using st by (auto simp: buddy_state_def buddy_core_def)
  let ?s = "bl_upd (fptr n) (b\<lparr>border := k\<rparr>) s"
  have room: "bl_room s (fptr n)" using b by (rule bl_get_room)
  then have e: "bl_set (fptr n) (b\<lparr>border := k\<rparr>) s = Some ?s" by (simp add: bl_set_upd)
  note t = fty_same [OF same_frames_upd [of s "fptr n" "b\<lparr>border := k\<rparr>"]]
  have eff: "bl_next ?s = bl_next s" "bl_prev ?s = bl_prev s" "bl_node ?s = bl_node s" "bl_order ?s = (bl_order s)(fptr n := k)"
    using b room by (auto simp: fun_eq_iff bl_fields bl_get_upd)
  have "\<forall>k\<le>MAX_ORDER. n \<notin> set (F k)" using layout_apart [OF la n(1)] by (auto simp: fblocks_def)
  then have fl': "free_lists ?s F" using n(2) by (intro free_lists_cong [OF eff(1-3) _ fl]) (auto simp: eff(4) split: if_splits)
  have "orders ?s A" unfolding orders_def t
  proof (clarify)
    fix m j assume "(m, j) \<in> A" and ty: "fty s m = Some FBuddyAllocated"
    moreover have "m \<noteq> n" using \<open>(m, j) \<in> A\<close> layout_apart [OF la n(1)] by blast
    ultimately show "bl_node ?s (fptr m) \<and> bl_order ?s (fptr m) = j"
      using o n(2) fty_less [of s m] by (auto simp: eff orders_def)
  qed
  moreover have "held K ?s A"
  proof (rule held_step [of K s])
    show "held K s A" using st by (simp add: buddy_state_def buddy_core_def)
    fix m assume m: "m < max_frames" "m \<in> fst ` A"
    then have "m \<noteq> n" using layout_apart [OF la n(1)] by force
    then have "FramePtr (fi_of m) \<noteq> fptr n" using m(1) n(2) by (simp add: fptr_def)
    then show "fis ?s (fi_of m) = fis s (fi_of m)" by (rule fis_upd)
  qed
  ultimately have "buddy_state K ?s F A R" using st fl' by (simp add: buddy_state_def buddy_core_def t)
  then show thesis using that [OF e] t eff b by (simp add: bl_node_def)
qed

section \<open>Release\<close>

definition in_transit :: "frame_mem \<Rightarrow> nat \<Rightarrow> nat \<Rightarrow> bool" where
  "in_transit s n k \<longleftrightarrow> block_ok (n, k) \<and> fty s n \<noteq> None \<and> (\<forall>m\<in>blk (n, k). m \<noteq> n \<longrightarrow> fty s m = Some FBuddyTail)"

lemma get_buddy_fi: "n < max_frames \<Longrightarrow> k < 30 \<Longrightarrow> get_buddy (fi_of n) k = fi_of (flip_bit k n)"
  by (simp add: get_buddy_def FRAME_INFO_SHIFT_def fi_of_flip del: push_bit_of_1)

lemma sort_buddies_fi:
  "n < max_frames \<Longrightarrow> k < 30 \<Longrightarrow> sort_buddies (fi_of n) k = (fi_of (unset_bit k n), fi_of (set_bit k n))"
  by (simp add: sort_buddies_def FRAME_INFO_SHIFT_def fi_of_set fi_of_unset del: push_bit_of_1)

text \<open>Merging stops at a buddy that is not a free block of the same order.\<close>

lemma merge_stop:
  assumes st: "buddy_state K s F A (blk (n, k))" and tr: "in_transit s n k" and k: "k < MAX_ORDER"
    and no: "(flip_bit k n, k) \<notin> fblocks F"
  shows "merge_block (fi_of n) k s = Some (fi_of n, k, s)"
proof -
  have ok: "block_ok (n, k)" and ty: "fty s n \<noteq> None" using tr by (auto simp: in_transit_def)
  let ?b = "flip_bit k n"
  note mb = merged_block [OF ok k]
  have "chunked (fty s)" using st by (simp add: buddy_state_def buddy_core_def)
  then obtain t where t: "fty s ?b = Some t" using ty fty_less [OF ty] mb(4,5) unfolding chunked_def by blast
  have g: "get_buddy (fi_of n) k = fi_of ?b" using get_buddy_fi [OF fty_less [OF ty]] k by (simp add: MAX_ORDER_def)
  have e: "frame_ty (fi_of ?b) (fis s) = Some t" using t by (simp add: fty_def split: if_splits)
  from st mb(4,3) t show ?thesis
  proof (cases rule: frame_cases)
    case (inner c)
    then have "n \<in> blk c" using inner_buddy [OF ok k, of "fst c" "snd c"] st
      by (auto simp: buddy_state_def buddy_core_def layout_def)
    moreover have "blk c \<inter> blk (n, k) = {}" using inner(1) st by (auto simp: buddy_state_def buddy_core_def layout_def)
    ultimately have False using first_in_blk [of n k] by blast
    then show ?thesis ..
  next
    case (free j)
    then have "j \<noteq> k" "j \<le> MAX_ORDER" "?b \<in> set (F j)" using no by (auto simp: fblocks_def)
    then have "bl_node s (fptr ?b)" "bl_order s (fptr ?b) = j"
      using free_listsD(4,5) [of s F j ?b] st by (auto simp: buddy_state_def buddy_core_def)
    then show ?thesis using k e free \<open>j \<noteq> k\<close>
      by (subst merge_block.simps) (auto simp: g bl_fields fptr_def)
  qed (use k e in \<open>subst merge_block.simps, auto simp: g\<close>)+
qed

lemma merge_step:
  assumes st: "buddy_state K s F A (blk (n, k))" and tr: "in_transit s n k" and k: "k < MAX_ORDER"
    and b: "(flip_bit k n, k) \<in> fblocks F"
  obtains s' F' where "merge_block (fi_of n) k s = merge_block (fi_of (unset_bit k n)) (Suc k) s'"
    "buddy_state K s' F' A (blk (unset_bit k n, Suc k))" "in_transit s' (unset_bit k n) (Suc k)"
    "fblocks F = insert (flip_bit k n, k) (fblocks F')"
proof -
  have ok: "block_ok (n, k)" and ty: "fty s n \<noteq> None" and tl: "\<forall>m\<in>blk (n, k). m \<noteq> n \<longrightarrow> fty s m = Some FBuddyTail"
    using tr by (auto simp: in_transit_def)
  let ?b = "flip_bit k n" and ?l = "unset_bit k n" and ?h = "set_bit k n"
  note mb = merged_block [OF ok k]
  have fl: "free_lists s F" and tyd: "typed (fty s) (fblocks F) A (blk (n, k))"
    using st by (auto simp: buddy_state_def buddy_core_def)
  have k30: "k < 30" using k by (simp add: MAX_ORDER_def)
  have tb: "fty s ?b = Some FBuddy" "\<forall>m\<in>blk (?b, k). m \<noteq> ?b \<longrightarrow> fty s m = Some FBuddyTail"
    using tyd b unfolding typed_def by force+
  have ob: "bl_node s (fptr ?b)" "bl_order s (fptr ?b) = k" using free_listsD(4,5) [OF fl, of k ?b] b by (auto simp: fblocks_def)
  obtain s1 F1 where s1: "bl_unlink (fptr ?b) s = Some s1" "buddy_state K s1 F1 A (blk (n, k) \<union> blk (?b, k))" "fty s1 = fty s"
    "fblocks F = insert (?b, k) (fblocks F1)" by (rule state_unlink [OF st b])
  have hh: "?h \<in> {n, ?b}" "?l \<in> {n, ?b}" using mb(7) by auto
  have "?h \<in> blk (n, k) \<union> blk (?b, k)" "fty s1 ?h \<noteq> None" using hh ty tb s1(3) first_in_blk by auto
  from state_set_ty [OF s1(2) this, of FBuddyTail]
  obtain s2 where s2: "mem_set_ty (fi_of ?h) FBuddyTail s1 = Some s2" "buddy_state K s2 F1 A (blk (n, k) \<union> blk (?b, k))"
    "fty s2 = (fty s)(?h \<mapsto> FBuddyTail)" using s1(3) by metis
  have "merge_block (fi_of n) k s = merge_block (fi_of ?l) (Suc k) s2"
    using k tb(1) ob s1(1) s2(1) fty_less [OF ty]
    by (subst merge_block.simps)
      (auto simp: get_buddy_fi k30 sort_buddies_fi bl_fields fptr_def fty_def split: if_splits)
  moreover have "in_transit s2 ?l (Suc k)"
  proof -
    have "m = ?h \<or> fty s m = Some FBuddyTail" if "m \<in> blk (?l, Suc k)" "m \<noteq> ?l" for m
      using that tl tb(2) mb(2,7) by (auto simp: doubleton_eq_iff)
    then show ?thesis using mb(1) hh ty tb(1) by (auto simp: in_transit_def s2(3))
  qed
  ultimately show thesis using that s2(2) s1(4) mb(2) by simp
qed

lemma merge_correct:
  assumes "buddy_state K s F A (blk (n, k))" and "in_transit s n k"
  shows "\<exists>s' F' n' k'. merge_block (fi_of n) k s = Some (fi_of n', k', s') \<and> buddy_state K s' F' A (blk (n', k')) \<and>
    in_transit s' n' k' \<and> frames (fblocks F') \<union> blk (n', k') = frames (fblocks F) \<union> blk (n, k) \<and>
    fblocks F' \<subseteq> fblocks F \<and> (k' < MAX_ORDER \<longrightarrow> (flip_bit k' n', k') \<notin> fblocks F')"
  using assms
proof (induction "MAX_ORDER - k" arbitrary: k n s F)
  case 0
  then have "\<not> k < MAX_ORDER" by simp
  then have "merge_block (fi_of n) k s = Some (fi_of n, k, s)" by (subst merge_block.simps) simp
  then show ?case using 0 \<open>\<not> k < MAX_ORDER\<close> by blast
next
  case (Suc d)
  then have k: "k < MAX_ORDER" by simp
  show ?case
  proof (cases "(flip_bit k n, k) \<in> fblocks F")
    case False
    then show ?thesis using merge_stop [OF Suc.prems k] Suc.prems by blast
  next
    case True
    obtain s1 F1 where s1: "merge_block (fi_of n) k s = merge_block (fi_of (unset_bit k n)) (Suc k) s1"
      "buddy_state K s1 F1 A (blk (unset_bit k n, Suc k))" "in_transit s1 (unset_bit k n) (Suc k)"
      "fblocks F = insert (flip_bit k n, k) (fblocks F1)" by (rule merge_step [OF Suc.prems k True])
    have "blk (unset_bit k n, Suc k) = blk (n, k) \<union> blk (flip_bit k n, k)"
      using merged_block(2) [of n k] k Suc.prems(2) by (simp add: in_transit_def)
    then have fr: "frames (fblocks F1) \<union> blk (unset_bit k n, Suc k) = frames (fblocks F) \<union> blk (n, k)"
      using s1(4) by (auto simp: frames_insert)
    have "d = MAX_ORDER - Suc k" using Suc.hyps(2) by simp
    from Suc.hyps(1) [OF this s1(2,3)]
    obtain s' F' n' k' where r: "merge_block (fi_of (unset_bit k n)) (Suc k) s1 = Some (fi_of n', k', s')"
      "buddy_state K s' F' A (blk (n', k'))" "in_transit s' n' k'" "k' < MAX_ORDER \<longrightarrow> (flip_bit k' n', k') \<notin> fblocks F'"
      "frames (fblocks F') \<union> blk (n', k') = frames (fblocks F1) \<union> blk (unset_bit k n, Suc k)" "fblocks F' \<subseteq> fblocks F1"
      by blast
    have "fblocks F' \<subseteq> fblocks F" using r(6) s1(4) by blast
    then show ?thesis using r(1-4) r(5) [unfolded fr] unfolding s1(1) by blast
  qed
qed

text \<open>No two free blocks are buddies: the allocator keeps memory merged.\<close>

definition coalesced :: "(nat \<Rightarrow> nat list) \<Rightarrow> bool" where
  "coalesced F \<longleftrightarrow> (\<forall>(n, k)\<in>fblocks F. k < MAX_ORDER \<longrightarrow> (flip_bit k n, k) \<notin> fblocks F)"

definition buddy_held :: "(nat \<Rightarrow> frame_info option) \<Rightarrow> frame_mem \<Rightarrow> (nat \<Rightarrow> nat list) \<Rightarrow> block set \<Rightarrow> bool" where
  "buddy_held K s F A \<longleftrightarrow> buddy_state K s F A {}"

definition buddy_ok :: "frame_mem \<Rightarrow> (nat \<Rightarrow> nat list) \<Rightarrow> block set \<Rightarrow> bool" where
  "buddy_ok s F A \<longleftrightarrow> buddy_held (\<lambda>n. None) s F A"

lemma flip_flip [simp]: "flip_bit k (flip_bit k (n :: nat)) = n"
  by (rule bit_eqI) (auto simp: bit_flip_bit_iff)

lemma coalesced_insert:
  assumes "coalesced F" "fblocks F' \<subseteq> fblocks F" "fblocks F'' = insert (n, k) (fblocks F')"
    and "k < MAX_ORDER \<longrightarrow> (flip_bit k n, k) \<notin> fblocks F'"
  shows "coalesced F''"
  unfolding coalesced_def
proof (intro ballI, clarify)
  fix m j assume m: "(m, j) \<in> fblocks F''" and j: "j < MAX_ORDER" and b: "(flip_bit j m, j) \<in> fblocks F''"
  have "flip_bit j m \<noteq> m" by (simp add: flip_bit_eq_if) (metis bit_set_bit_iff bit_unset_bit_iff possible_bit_nat)
  then consider "(m, j) = (n, k)" "(flip_bit k n, k) \<in> fblocks F'" | "(flip_bit j m, j) = (n, k)" "(m, j) \<in> fblocks F'"
    | "(m, j) \<in> fblocks F'" "(flip_bit j m, j) \<in> fblocks F'"
    using m b assms(3) by auto
  then show False
  proof cases
    case 2
    then have "flip_bit k n = m" "j = k" by auto
    then show False using assms(4) 2 j by auto
  qed (use assms j in \<open>auto simp: coalesced_def\<close>)
qed

lemma state_free_alloc:
  assumes "buddy_state K s F A R" and b: "(n, k) \<in> A" and K: "K n = None"
  shows "buddy_state K s F (A - {(n, k)}) (R \<union> blk (n, k))" and "in_transit s n k"
proof -
  let ?A = "A - {(n, k)}"
  have A: "A = insert (n, k) ?A" using b by blast
  have c: "buddy_core K s F A R" and ty: "typed (fty s) (fblocks F) A R" using assms by (auto simp: buddy_state_def)
  have la: "layout (insert (n, k) (fblocks F \<union> ?A)) R" "(n, k) \<notin> fblocks F \<union> ?A"
    using c b insert_Diff [OF b] by (auto simp: buddy_core_def simp flip: Un_insert_right)
  have "typed (fty s) (fblocks F) ?A (R \<union> blk (n, k))" using ty typed_remove_alloc by (metis A)
  moreover have "buddy_core K s F ?A (R \<union> blk (n, k))" using c layout_remove [OF la] K by (force simp: buddy_core_def orders_def held_def)
  ultimately show "buddy_state K s F ?A (R \<union> blk (n, k))" by (simp add: buddy_state_def)
  have "block_ok (n, k)" using la by (simp add: layout_def)
  then show "in_transit s n k" using ty b by (force simp: in_transit_def typed_def)
qed

lemma buddy_free_effect:
  assumes st: "buddy_held K s F A" and b: "(n, k) \<in> A" and K: "K n = None"
  shows "\<exists>s' F'. buddy_free (frame_addr n) k s = Some s' \<and> buddy_held K s' F' (A - {(n, k)}) \<and>
    frames (fblocks F') = frames (fblocks F) \<union> blk (n, k) \<and> (coalesced F \<longrightarrow> coalesced F')"
proof -
  have "buddy_state K s F (A - {(n, k)}) (blk (n, k))" "in_transit s n k"
    using state_free_alloc [OF st [unfolded buddy_held_def] b K] by auto
  from merge_correct [OF this] obtain s1 F1 n1 k1 where m: "merge_block (fi_of n) k s = Some (fi_of n1, k1, s1)"
    "buddy_state K s1 F1 (A - {(n, k)}) (blk (n1, k1))" "in_transit s1 n1 k1"
    "frames (fblocks F1) \<union> blk (n1, k1) = frames (fblocks F) \<union> blk (n, k)" "fblocks F1 \<subseteq> fblocks F"
    "k1 < MAX_ORDER \<longrightarrow> (flip_bit k1 n1, k1) \<notin> fblocks F1" by blast
  have t: "block_ok (n1, k1)" "fty s1 n1 \<noteq> None" "\<And>m. m \<in> blk (n1, k1) \<Longrightarrow> m \<noteq> n1 \<Longrightarrow> fty s1 m = Some FBuddyTail"
    using m(3) by (auto simp: in_transit_def)
  obtain s2 s3 where i: "bl_insert (HeadPtr k1) (fptr n1) s1 = Some s2" "mem_set_ty (fi_of n1) FBuddy s2 = Some s3"
    "buddy_state K s3 (F1(k1 := F1 k1 @ [n1])) (A - {(n, k)}) (blk (n1, k1) - blk (n1, k1))"
    by (rule state_put_free [OF m(2) t(1) order_refl t(2,3)])
  have "k1 \<le> MAX_ORDER" using t(1) by (simp add: block_ok_def)
  note fb = fblocks_append [OF this, of F1 n1]
  have "buddy_free (frame_addr n) k s = Some s3" using m(1) i(1,2) by (simp add: buddy_free_def fi_of_def [symmetric] fptr_def)
  moreover have "frames (fblocks (F1(k1 := F1 k1 @ [n1]))) = frames (fblocks F) \<union> blk (n, k)"
    using m(4) by (auto simp: fb frames_insert)
  moreover have "coalesced F \<longrightarrow> coalesced (F1(k1 := F1 k1 @ [n1]))" using coalesced_insert [OF _ m(5) fb m(6)] by blast
  ultimately show ?thesis using i(3) by (auto simp: buddy_held_def)
qed

section \<open>Allocation\<close>

lemma alloc_min_from_correct:
  assumes "buddy_held K s F A" and "\<forall>k\<in>set ks. k \<le> MAX_ORDER"
  shows "(\<forall>k\<in>set ks. F k = []) \<and> alloc_min_from ks s = Some (Inl OutOfMemory, s) \<or>
    (\<exists>j\<in>set ks. \<exists>n ys s'. F j = n # ys \<and> alloc_min_from ks s = Some (Inr (fi_of n, j), s') \<and>
       buddy_state K s' (F(j := ys)) A (blk (n, j)) \<and> in_transit s' n j \<and> bl_node s' (fptr n) \<and>
       fblocks F = insert (n, j) (fblocks (F(j := ys))))"
  using assms(2)
proof (induction ks)
  case (Cons k ks)
  have fl: "free_lists s F" using assms(1) by (simp add: buddy_held_def buddy_state_def buddy_core_def)
  have k: "k \<le> MAX_ORDER" using Cons.prems by simp
  show ?case
  proof (cases "F k")
    case Nil
    then show ?thesis using Cons bl_pop_front_empty [OF fl k Nil] by auto
  next
    case (Cons n ys)
    obtain s' where s': "bl_pop_front (HeadPtr k) s = Some (Some (fptr n), s')" "buddy_state K s' (F(k := ys)) A ({} \<union> blk (n, k))"
      "fty s' = fty s" "fblocks F = insert (n, k) (fblocks (F(k := ys)))" "bl_node s' (fptr n)"
      by (rule state_pop [OF assms(1) [unfolded buddy_held_def] k Cons])
    have "(n, k) \<in> fblocks F" using s'(4) by blast
    then have "in_transit s' n k" using assms(1)
      by (force simp: in_transit_def s'(3) buddy_held_def buddy_state_def buddy_core_def layout_def typed_def)
    moreover have "alloc_min_from (k # ks) s = Some (Inr (fi_of n, k), s')" using s'(1) by (simp add: fptr_def)
    moreover have "buddy_state K s' (F(k := ys)) A (blk (n, k))" using s'(2) by simp
    ultimately show ?thesis using Cons s'(4,5) by (meson list.set_intros(1))
  qed
qed simp

lemma blk_halves: "blk (n, Suc k) = blk (n, k) \<union> blk (n + 2 ^ k, k)" "blk (n, k) \<inter> blk (n + 2 ^ k, k) = {}"
  by (auto simp: blk_def)

lemma block_ok_halves:
  assumes "block_ok (n, Suc k)"
  shows "block_ok (n, k)" "block_ok (n + 2 ^ k, k)"
proof -
  have "2 ^ k dvd n" using assms by (auto simp: block_ok_def elim: dvd_trans [rotated])
  then show "block_ok (n, k)" "block_ok (n + 2 ^ k, k)" using assms by (auto simp: block_ok_def)
qed

lemma split_correct:
  assumes "buddy_state K s F A (blk (n, j))" "in_transit s n j" "bl_node s (fptr n)" "k \<le> j"
  shows "\<exists>s' F'. split_block (fi_of n) j k s = Some s' \<and> buddy_state K s' F' A (blk (n, k)) \<and> in_transit s' n k \<and>
    bl_node s' (fptr n) \<and> bl_order s' (fptr n) = k \<and> fblocks F' = fblocks F \<union> {(n + 2 ^ i, i) |i. k \<le> i \<and> i < j} \<and>
    frames (fblocks F') \<union> blk (n, k) = frames (fblocks F) \<union> blk (n, j)"
  using assms
proof (induction j arbitrary: s F)
  case 0
  obtain b where b: "bl_get (fptr n) s = Some b" using 0 by (auto simp: bl_node_def)
  have n: "n \<in> blk (n, 0)" "n < max_frames" using 0(2) fty_less [of s n] by (auto simp: in_transit_def)
  obtain s' where "bl_set (fptr n) (b\<lparr>border := 0\<rparr>) s = Some s'" "buddy_state K s' F A (blk (n, 0))" "fty s' = fty s"
    "bl_node s' (fptr n)" "bl_order s' (fptr n) = 0" by (rule state_set_order [OF 0(1) n b])
  then show ?case using 0 b by (subst split_block.simps) (auto simp: fptr_def in_transit_def)
next
  case (Suc j)
  have ok: "block_ok (n, Suc j)" and ty: "fty s n \<noteq> None" using Suc.prems(2) by (auto simp: in_transit_def)
  show ?case
  proof (cases "k = Suc j")
    case True
    obtain b where b: "bl_get (fptr n) s = Some b" using Suc.prems by (auto simp: bl_node_def)
    have n: "n \<in> blk (n, Suc j)" "n < max_frames" using fty_less [OF ty] by auto
    have small: "Suc j mod 256 = Suc j" using ok by (simp add: block_ok_def MAX_ORDER_def)
    obtain s' where "bl_set (fptr n) (b\<lparr>border := Suc j\<rparr>) s = Some s'" "buddy_state K s' F A (blk (n, Suc j))" "fty s' = fty s"
      "bl_node s' (fptr n)" "bl_order s' (fptr n) = Suc j" by (rule state_set_order [OF Suc.prems(1) n b])
    then show ?thesis using True b Suc.prems(2) small by (subst split_block.simps) (auto simp: fptr_def in_transit_def)
  next
    case False
    let ?m = "n + 2 ^ j"
    note half = block_ok_halves [OF ok] and bh = blk_halves [of n j]
    have jm: "j \<le> MAX_ORDER" using half(1) by (simp add: block_ok_def)
    have t: "fty s i = Some FBuddyTail" if "i \<in> blk (n, Suc j)" "i \<noteq> n" for i using Suc.prems(2) that by (auto simp: in_transit_def)
    have tm: "fty s ?m \<noteq> None" "\<And>i. i \<in> blk (?m, j) \<Longrightarrow> i \<noteq> ?m \<Longrightarrow> fty s i = Some FBuddyTail"
      using t [of ?m] t bh first_in_blk [of ?m j] by (auto simp: blk_def)
    have sub: "blk (?m, j) \<subseteq> blk (n, Suc j)" and diff: "blk (n, Suc j) - blk (?m, j) = blk (n, j)" using bh by auto
    obtain s1 s2 where s2: "bl_insert (HeadPtr j) (fptr ?m) s = Some s1" "mem_set_ty (fi_of ?m) FBuddy s1 = Some s2"
      "buddy_state K s2 (F(j := F j @ [?m])) A (blk (n, j))" "fty s2 = (fty s)(?m \<mapsto> FBuddy)"
      "\<And>p. bl_node s p \<Longrightarrow> bl_node s2 p"
      using state_put_free [OF Suc.prems(1) half(2) sub tm] unfolding diff by metis
    have tr: "in_transit s2 n j" using half(1) ty t bh by (auto simp: in_transit_def s2(4) blk_def)
    have "?m < max_frames" using fty_less [OF tm(1)] .
    then have "fi_of n + of_nat (2 ^ j) * FRAME_INFO_BYTES = fi_of ?m" by (rule fi_of_add)
    then have e: "split_block (fi_of n) (Suc j) k s = split_block (fi_of n) j k s2"
      using s2 False Suc.prems(4) by (subst split_block.simps) (simp add: fptr_def)
    have kj: "k \<le> j" using False Suc.prems(4) by simp
    from Suc.IH [OF s2(3) tr s2(5) [OF Suc.prems(3)] kj]
    obtain s' F' where r: "split_block (fi_of n) j k s2 = Some s'" "buddy_state K s' F' A (blk (n, k))" "in_transit s' n k"
      "bl_node s' (fptr n)" "bl_order s' (fptr n) = k"
      "fblocks F' = fblocks (F(j := F j @ [?m])) \<union> {(n + 2 ^ i, i) |i. k \<le> i \<and> i < j}"
      "frames (fblocks F') \<union> blk (n, k) = frames (fblocks (F(j := F j @ [?m]))) \<union> blk (n, j)" by blast
    have "fblocks F' = fblocks F \<union> {(n + 2 ^ i, i) |i. k \<le> i \<and> i < Suc j}"
      using r(6) Suc.prems(4) False unfolding fblocks_append [OF jm] by (auto simp: less_Suc_eq)
    moreover have "frames (fblocks F') \<union> blk (n, k) = frames (fblocks F) \<union> blk (n, Suc j)"
      using r(7) unfolding fblocks_append [OF jm] bh(1) frames_insert by blast
    ultimately show ?thesis using r(1-5) unfolding e by blast
  qed
qed

end
