(* ===== verification/Buddy_Laws.thy ===== *)
theory Buddy_Laws
  imports Buddy_Spec
begin

text \<open>
  The operations of the buddy allocator as a whole: allocation on every branch, the addition of a range of frames,
  and initialisation.
\<close>

unbundle bit_operations_syntax

section \<open>Allocation\<close>

lemma flip_low:
  assumes "2 ^ Suc i dvd (n :: nat)"
  shows "flip_bit i (n + 2 ^ i) = n"
proof -
  have "\<not> bit n i" using assms by (auto simp: bit_iff_odd elim!: dvdE)
  then have "flip_bit i n = n + 2 ^ i" by (simp add: flip_bit_eq_if set_bit_eq)
  then show ?thesis by (metis flip_flip)
qed

text \<open>The halves left by splitting a block have no free buddy: each buddy contains the first frame of the block.\<close>

lemma split_coalesced:
  assumes "coalesced F" and la: "layout (fblocks F') R" and n: "n \<in> R" and d: "2 ^ j dvd n"
    and F': "fblocks F' = fblocks F0 \<union> {(n + 2 ^ i, i) |i. k \<le> i \<and> i < j}" and sub: "fblocks F0 \<subseteq> fblocks F"
  shows "coalesced F'"
  unfolding coalesced_def
proof (intro ballI, clarify)
  fix m i assume m: "(m, i) \<in> fblocks F'" and b: "(flip_bit i m, i) \<in> fblocks F'" and i: "i < MAX_ORDER"
  have no: "(n, i) \<notin> fblocks F'" by (rule layout_apart [OF la n])
  have low: "flip_bit i (n + 2 ^ i) = n" if "i < j" using that
    by (intro flip_low dvd_trans [OF le_imp_power_dvd d]) simp
  consider "(m, i) \<in> fblocks F0" "(flip_bit i m, i) \<in> fblocks F0" | "m = n + 2 ^ i" "i < j" | "flip_bit i m = n + 2 ^ i" "i < j"
    using m b F' by auto
  then show False
  proof cases
    case 1
    then show False using assms(1) sub i by (auto simp: coalesced_def)
  next
    case 2
    then show False using low b no by simp
  next
    case 3
    then have "m = n" using low flip_flip [of i m] by simp
    then show False using m no by simp
  qed
qed

lemma state_give_alloc:
  assumes st: "buddy_state K s F A R" and R: "blk (n, k) \<subseteq> R" and tr: "in_transit s n k"
    and ty: "fty s n = Some FBuddyAllocated" and o: "bl_node s (fptr n)" "bl_order s (fptr n) = k"
  shows "buddy_state K s F (insert (n, k) A) (R - blk (n, k))" "(n, k) \<notin> fblocks F \<union> A"
proof -
  have c: "buddy_core K s F A R" and la: "layout (fblocks F \<union> A) R" using st by (auto simp: buddy_state_def buddy_core_def)
  have ok: "block_ok (n, k)" using tr by (simp add: in_transit_def)
  note l = layout_add [OF la ok R]
  show "(n, k) \<notin> fblocks F \<union> A" by (rule l(2))
  have "typed (fty s) (fblocks F) (insert (n, k) A) (R - blk (n, k))"
    using st tr ty by (intro typed_add_alloc) (auto simp: buddy_state_def in_transit_def)
  moreover have "buddy_core K s F (insert (n, k) A) (R - blk (n, k))" using c l o by (force simp: buddy_core_def orders_def held_def)
  ultimately show "buddy_state K s F (insert (n, k) A) (R - blk (n, k))" by (simp add: buddy_state_def)
qed

lemma buddy_alloc_effect:
  assumes st: "buddy_held K s F A" and k: "k \<le> MAX_ORDER"
  shows "(\<forall>b\<in>fblocks F. snd b < k) \<and> buddy_alloc k s = Some (Inl OutOfMemory, s) \<or>
    (\<exists>n s' F'. buddy_alloc k s = Some (Inr (frame_addr n), s') \<and> buddy_held K s' F' (insert (n, k) A) \<and> (n, k) \<notin> A \<and>
       blk (n, k) \<subseteq> frames (fblocks F) \<and> frames (fblocks F') = frames (fblocks F) - blk (n, k) \<and>
       (coalesced F \<longrightarrow> coalesced F') \<and> fty s' n = Some FBuddyAllocated)"
proof -
  have ks: "\<forall>j\<in>set [k..<MAX_ORDER + 1]. j \<le> MAX_ORDER" by auto
  from alloc_min_from_correct [OF st ks] show ?thesis
  proof (elim disjE conjE bexE exE)
    assume "\<forall>j\<in>set [k..<MAX_ORDER + 1]. F j = []" "alloc_min_from [k..<MAX_ORDER + 1] s = Some (Inl OutOfMemory, s)"
    moreover from this(1) have "\<forall>b\<in>fblocks F. snd b < k" by (force simp: fblocks_def not_less)
    ultimately show ?thesis using k by (simp add: buddy_alloc_def alloc_min_def)
  next
    fix j n ys s1 assume j: "j \<in> set [k..<MAX_ORDER + 1]" and F: "F j = n # ys"
      and a: "alloc_min_from [k..<MAX_ORDER + 1] s = Some (Inr (fi_of n, j), s1)"
      and s1: "buddy_state K s1 (F(j := ys)) A (blk (n, j))" "in_transit s1 n j" "bl_node s1 (fptr n)"
      and fb: "fblocks F = insert (n, j) (fblocks (F(j := ys)))"
    have kj: "k \<le> j" using j by auto
    from split_correct [OF s1 kj] obtain s2 F2 where s2: "split_block (fi_of n) j k s1 = Some s2" "buddy_state K s2 F2 A (blk (n, k))"
      "in_transit s2 n k" "bl_node s2 (fptr n)" "bl_order s2 (fptr n) = k"
      "fblocks F2 = fblocks (F(j := ys)) \<union> {(n + 2 ^ i, i) |i. k \<le> i \<and> i < j}"
      "frames (fblocks F2) \<union> blk (n, k) = frames (fblocks (F(j := ys))) \<union> blk (n, j)" by blast
    have "fty s2 n \<noteq> None" using s2(3) by (simp add: in_transit_def)
    from state_set_ty [OF s2(2) first_in_blk this, of FBuddyAllocated]
    obtain s3 where s3: "mem_set_ty (fi_of n) FBuddyAllocated s2 = Some s3" "buddy_state K s3 F2 A (blk (n, k))"
      "fty s3 = (fty s2)(n \<mapsto> FBuddyAllocated)" "\<And>p. bl_get p s3 = bl_get p s2" by blast
    have n: "n < max_frames" using s2(3) fty_less [of s2 n] by (simp add: in_transit_def)
    have tr: "in_transit s3 n k" "fty s3 n = Some FBuddyAllocated" "bl_node s3 (fptr n)" "bl_order s3 (fptr n) = k"
      using s2(3-5) by (auto simp: in_transit_def s3(3,4) bl_fields)
    from state_give_alloc [OF s3(2) order_refl tr]
    have ok: "buddy_held K s3 F2 (insert (n, k) A)" "(n, k) \<notin> fblocks F2 \<union> A" by (simp_all add: buddy_held_def)
    have e: "buddy_alloc k s = Some (Inr (frame_addr n), s3)"
      using k a s2(1) s3(1) by (simp add: buddy_alloc_def alloc_min_def from_fi_of [OF n])
    have la: "layout (fblocks F2 \<union> A) (blk (n, k))" "2 ^ j dvd n"
      using s2(2) s1(2) by (auto simp: buddy_state_def buddy_core_def in_transit_def block_ok_def)
    then have la2: "layout (fblocks F2) (blk (n, k))" by (simp add: layout_def)
    have fr: "frames (fblocks F2) \<union> blk (n, k) = frames (fblocks F)" using s2(7) fb by (auto simp: frames_insert)
    moreover have "frames (fblocks F2) \<inter> blk (n, k) = {}" using la2 by (auto simp: layout_def frames_def)
    ultimately have "blk (n, k) \<subseteq> frames (fblocks F)" "frames (fblocks F2) = frames (fblocks F) - blk (n, k)" by blast+
    moreover have "coalesced F \<longrightarrow> coalesced F2"
      using split_coalesced [OF _ la2 first_in_blk la(2) s2(6)] fb by blast
    ultimately show ?thesis using e ok tr(2) by blast
  qed
qed

section \<open>Adding a range\<close>

lemma trailing_zeros_dvd:
  "x \<noteq> 0 \<Longrightarrow> 2 ^ trailing_zeros x dvd x \<and> \<not> 2 ^ Suc (trailing_zeros x) dvd x"
proof (induction x rule: trailing_zeros.induct)
  case (1 x)
  show ?case
  proof (cases "even x")
    case True
    then obtain y where y: "x = 2 * y" by blast
    then have "y \<noteq> 0" using 1 by simp
    then have "2 ^ trailing_zeros y dvd y \<and> \<not> 2 ^ Suc (trailing_zeros y) dvd y" using 1 True y by simp
    moreover have "trailing_zeros x = Suc (trailing_zeros y)" using True y \<open>y \<noteq> 0\<close> by (subst trailing_zeros.simps) simp
    ultimately show ?thesis using y by simp
  qed (use 1 in \<open>simp add: trailing_zeros.simps\<close>)
qed

lemma dvd_bits: "2 ^ k dvd (x :: nat) \<longleftrightarrow> (\<forall>i<k. \<not> bit x i)"
proof -
  have "2 ^ k dvd x \<longleftrightarrow> take_bit k x = 0" by (simp add: take_bit_eq_0_iff)
  also have "\<dots> \<longleftrightarrow> (\<forall>i<k. \<not> bit x i)" by (auto simp: bit_eq_iff bit_take_bit_iff)
  finally show ?thesis .
qed

lemma unat_frame_addr: "n \<le> max_frames \<Longrightarrow> unat (frame_addr n) = 4096 * n"
  by (simp add: frame_addr_def FRAME_BYTES_def unat_word_ariths unat_of_nat max_frames_def)

lemma frame_addr_less: "n \<le> max_frames \<Longrightarrow> m \<le> max_frames \<Longrightarrow> frame_addr n < frame_addr m \<longleftrightarrow> n < m"
  by (simp add: word_less_nat_alt unat_frame_addr)

lemma frame_addr_bytes: "n < m \<Longrightarrow> m \<le> max_frames \<Longrightarrow> unat (frame_addr m - frame_addr n) = 4096 * (m - n)"
  using frame_addr_less [of n m] by (subst unat_sub) (auto simp: unat_frame_addr)

lemma range_aligned:
  assumes "n < m" "m \<le> max_frames"
  shows "\<not> ilog2 (unat (frame_addr m - frame_addr n)) < FRAME_SHIFT"
proof
  assume a: "ilog2 (unat (frame_addr m - frame_addr n)) < FRAME_SHIFT"
  have u: "unat (frame_addr m - frame_addr n) = 4096 * (m - n)" by (rule frame_addr_bytes [OF assms])
  then have "0 < unat (frame_addr m - frame_addr n)" using assms by simp
  then have "unat (frame_addr m - frame_addr n) < 2 ^ Suc (ilog2 (unat (frame_addr m - frame_addr n)))" using ilog2_bounds by blast
  also have "\<dots> \<le> 2 ^ FRAME_SHIFT" using a by (intro power_increasing) auto
  finally show False using assms u by (simp add: FRAME_SHIFT_def)
qed

lemma range_order_ok:
  assumes "n < m" "m \<le> max_frames"
  defines "k \<equiv> range_order (frame_addr n) (frame_addr m)"
  shows "block_ok (n, k)" "n + 2 ^ k \<le> m"
proof -
  let ?x = "n OR 2 ^ MAX_ORDER"
  have "drop_bit FRAME_SHIFT (frame_addr n) = of_nat n"
    using frame_addr_div [of n] assms by (simp add: drop_bit_eq_div FRAME_SHIFT_def FRAME_BYTES_def)
  then have "unat (drop_bit FRAME_SHIFT (frame_addr n) OR push_bit MAX_ORDER 1) = unat (of_nat n OR of_nat (2 ^ MAX_ORDER) :: 64 word)"
    by simp
  also have "\<dots> = ?x" using assms by (simp add: unsigned_or_eq unat_of_nat max_frames_def MAX_ORDER_def take_bit_nat_eq_self)
  finally have kx: "k \<le> trailing_zeros ?x" by (simp add: k_def range_order_def)
  have "bit ?x MAX_ORDER" by (simp add: bit_or_iff bit_exp_iff)
  then have "?x \<noteq> 0" by (metis bit_0_eq bot_apply bot_bool_def)
  then have d: "2 ^ trailing_zeros ?x dvd ?x" using trailing_zeros_dvd by blast
  then have z: "\<forall>i<trailing_zeros ?x. \<not> bit ?x i" by (simp only: dvd_bits)
  then have t: "trailing_zeros ?x \<le> MAX_ORDER" using \<open>bit ?x MAX_ORDER\<close> not_less by blast
  have "2 ^ k dvd n" unfolding dvd_bits using z kx by (auto simp: bit_or_iff)
  have "2 ^ (k + FRAME_SHIFT) \<le> 4096 * m - 4096 * n"
    using range_order_bound [OF _ range_aligned [OF assms(1,2)]] frame_addr_less [of n m] assms by (simp add: unat_frame_addr)
  then have b: "2 ^ k \<le> m - n" by (simp add: FRAME_SHIFT_def power_add)
  show "n + 2 ^ k \<le> m" using b assms by simp
  then show "block_ok (n, k)" using \<open>2 ^ k dvd n\<close> kx t assms by (simp add: block_ok_def)
qed

lemma step_frames_eq:
  assumes "n \<le> m" "m \<le> max_frames"
  shows "step_frames (frame_addr n) (frame_addr m) = map frame_addr [n..<m]"
proof -
  have c: "(unat (frame_addr m) - unat (frame_addr n) + 4095) div 4096 = m - n"
    using assms by (simp add: unat_frame_addr flip: diff_mult_distrib2)
  show ?thesis unfolding step_frames_def c
    by (rule nth_equalityI) (simp_all add: frame_addr_def algebra_simps)
qed

lemma mark_tails_core:
  assumes "buddy_core K s F A R" "\<forall>m\<in>set ms. fty s m \<noteq> None \<and> m \<notin> fst ` A"
  shows "\<exists>s'. mark_tails (map frame_addr ms) s = Some s' \<and> buddy_core K s' F A R \<and>
    fty s' = (\<lambda>m. if m \<in> set ms then Some FBuddyTail else fty s m)"
  using assms
proof (induction ms arbitrary: s)
  case (Cons m ms)
  have m: "fty s m \<noteq> None" "m \<notin> fst ` A" using Cons.prems by auto
  from core_set_ty [OF Cons.prems(1) m, of FBuddyTail]
  obtain s1 where s1: "mem_set_ty (fi_of m) FBuddyTail s = Some s1" "buddy_core K s1 F A R" "fty s1 = (fty s)(m \<mapsto> FBuddyTail)" by blast
  have "\<forall>i\<in>set ms. fty s1 i \<noteq> None \<and> i \<notin> fst ` A" using Cons.prems s1(3) by auto
  from Cons.IH [OF s1(2) this]
  obtain s2 where "mark_tails (map frame_addr ms) s1 = Some s2" "buddy_core K s2 F A R"
    "fty s2 = (\<lambda>i. if i \<in> set ms then Some FBuddyTail else fty s1 i)" by blast
  then show ?case using s1 by (auto simp: fi_of_def [symmetric] fun_eq_iff)
qed simp

lemma typed_inside:
  assumes "typed T B A R" "layout (B \<union> A) R" "\<And>m. m \<notin> R \<Longrightarrow> T' m = T m"
  shows "typed T' B A R"
proof -
  have *: "b \<in> B \<union> A \<Longrightarrow> m \<in> blk b \<Longrightarrow> T' m = T m" for b m using assms(2,3) by (auto simp: layout_def)
  then have **: "b \<in> B \<union> A \<Longrightarrow> T' (fst b) = T (fst b)" for b using fst_in_blk by blast
  show ?thesis unfolding typed_def
  proof (intro conjI ballI allI impI)
    fix b assume "b \<in> B"
    then show "T' (fst b) = Some FBuddy" using assms(1) ** by (simp add: typed_def)
  next
    fix b assume "b \<in> A"
    then show "T' (fst b) = Some FBuddyAllocated \<or> T' (fst b) = Some FSlab" using assms(1) ** by (simp add: typed_def)
  next
    fix b m assume "b \<in> B \<union> A" "m \<in> blk b" "m \<noteq> fst b"
    then show "T' m = Some FBuddyTail" using assms(1) * by (simp add: typed_def)
  next
    fix m assume m: "m < max_frames" "m \<notin> frames (B \<union> A) \<and> m \<notin> R \<and> T' m \<noteq> None"
    then have "T' m = T m" using assms(3) by blast
    then show "T' m = Some FReserved" using m assms(1) by (simp add: typed_def)
  qed
qed

lemma add_blocks_step:
  assumes st: "buddy_state K s F A {n..<m}" and nm: "n < m" "m \<le> max_frames" and ty: "\<forall>i\<in>{n..<m}. fty s i \<noteq> None"
  defines "k \<equiv> range_order (frame_addr n) (frame_addr m)"
  obtains s' where "add_blocks (frame_addr n) (frame_addr m) s = add_blocks (frame_addr (n + 2 ^ k)) (frame_addr m) s'"
    "buddy_state K s' (F(k := F k @ [n])) A {n + 2 ^ k..<m}" "\<forall>i\<in>{n..<m}. fty s' i \<noteq> None"
proof -
  note ok = range_order_ok(1) [OF nm, folded k_def] and le = range_order_ok(2) [OF nm, folded k_def]
  have c: "buddy_core K s F A {n..<m}" and la: "layout (fblocks F \<union> A) {n..<m}" and k: "k \<le> MAX_ORDER"
    using st ok by (auto simp: buddy_state_def buddy_core_def block_ok_def)
  have R: "blk (n, k) \<subseteq> {n..<m}" "{n..<m} - blk (n, k) = {n + 2 ^ k..<m}" using le by (auto simp: blk_def)
  have nA: "i \<notin> fst ` A" if "i \<in> {n..<m}" for i using layout_apart [OF la that] by auto
  have tn: "fty s n \<noteq> None" using ty nm by simp
  let ?F = "F(k := F k @ [n])" and ?R = "{n + 2 ^ k..<m}"
  obtain s1 where s1: "bl_insert (HeadPtr k) (fptr n) s = Some s1" "buddy_core K s1 ?F A ?R" "fty s1 = fty s"
    using core_insert [OF c ok R(1) tn] unfolding R(2) by blast
  have "fty s1 n \<noteq> None" "n \<notin> fst ` A" using tn s1(3) nA [of n] nm by auto
  from core_set_ty [OF s1(2) this, of FBuddy]
  obtain s2 where s2: "mem_set_ty (fi_of n) FBuddy s1 = Some s2" "buddy_core K s2 ?F A ?R" "fty s2 = (fty s)(n \<mapsto> FBuddy)"
    using s1(3) by metis
  have "\<forall>i\<in>set [Suc n..<m]. fty s2 i \<noteq> None \<and> i \<notin> fst ` A" using ty nA s2(3) by auto
  from mark_tails_core [OF s2(2) this]
  obtain s3 where s3: "mark_tails (map frame_addr [Suc n..<m]) s2 = Some s3" "buddy_core K s3 ?F A ?R"
    "fty s3 = (\<lambda>i. if i \<in> set [Suc n..<m] then Some FBuddyTail else fty s2 i)" by blast
  have out: "fty s3 i = fty s i" if "i \<notin> {n..<m}" for i using that nm by (auto simp: s3(3) s2(3))
  have "typed (fty s) (fblocks F) A {n..<m}" using st by (simp add: buddy_state_def)
  from typed_inside [OF this la out] have "typed (fty s3) (fblocks F) A {n..<m}" .
  then have "typed (fty s3) (insert (n, k) (fblocks F)) A ({n..<m} - blk (n, k))"
    using le by (intro typed_add_free) (auto simp: s3(3) s2(3) blk_def)
  then have "buddy_state K s3 ?F A ?R" using s3(2) by (simp add: buddy_state_def fblocks_append [OF k] R(2))
  moreover have "add_blocks (frame_addr n) (frame_addr m) s = add_blocks (frame_addr (n + 2 ^ k)) (frame_addr m) s3"
  proof -
    have "frame_addr n + FRAME_BYTES = frame_addr (Suc n)" by (simp add: frame_addr_def algebra_simps)
    then have f: "step_frames (frame_addr n + FRAME_BYTES) (frame_addr m) = map frame_addr [Suc n..<m]"
      using nm step_frames_eq [of "Suc n" m] by simp
    have a: "frame_addr n + push_bit (k + FRAME_SHIFT) 1 = frame_addr (n + 2 ^ k)"
      by (simp add: frame_addr_def FRAME_SHIFT_def FRAME_BYTES_def algebra_simps power_add)
    have fi: "frame_info_addr (frame_addr n) = fi_of n" "FramePtr (fi_of n) = fptr n" by (simp_all add: fi_of_def fptr_def)
    show ?thesis using nm frame_addr_less [of n m] range_aligned [OF nm] s1(1) s2(1) s3(1)
      by (subst add_blocks.simps) (simp add: k_def [symmetric] f a fi del: push_bit_of_1)
  qed
  moreover have "\<forall>i\<in>{n..<m}. fty s3 i \<noteq> None" using ty by (auto simp: s3(3) s2(3))
  ultimately show thesis using that by blast
qed

lemma add_blocks_correct:
  assumes "buddy_state K s F A {n..<m}" "n \<le> m" "m \<le> max_frames" "\<forall>i\<in>{n..<m}. fty s i \<noteq> None"
  shows "\<exists>s' F'. add_blocks (frame_addr n) (frame_addr m) s = Some s' \<and> buddy_held K s' F' A \<and>
    frames (fblocks F') = frames (fblocks F) \<union> {n..<m}"
  using assms
proof (induction "m - n" arbitrary: n s F rule: less_induct)
  case less
  show ?case
  proof (cases "n < m")
    case False
    then have "add_blocks (frame_addr n) (frame_addr m) s = Some s"
      using less.prems frame_addr_less [of n m] by (subst add_blocks.simps) simp
    then show ?thesis using less.prems False by (auto simp: buddy_held_def)
  next
    case True
    define k where "k = range_order (frame_addr n) (frame_addr m)"
    note ok = range_order_ok [OF True less.prems(3), folded k_def]
    obtain s1 where s1: "add_blocks (frame_addr n) (frame_addr m) s = add_blocks (frame_addr (n + 2 ^ k)) (frame_addr m) s1"
      "buddy_state K s1 (F(k := F k @ [n])) A {n + 2 ^ k..<m}" "\<forall>i\<in>{n..<m}. fty s1 i \<noteq> None"
      unfolding k_def by (rule add_blocks_step [OF less.prems(1) True less.prems(3,4)])
    have "m - (n + 2 ^ k) < m - n" using True zero_less_power [of "2::nat" k] by linarith
    have rest: "\<forall>i\<in>{n + 2 ^ k..<m}. fty s1 i \<noteq> None" using s1(3) by simp
    from less.hyps [OF \<open>m - (n + 2 ^ k) < m - n\<close> s1(2) ok(2) less.prems(3) rest]
    obtain s' F' where r: "add_blocks (frame_addr (n + 2 ^ k)) (frame_addr m) s1 = Some s'" "buddy_held K s' F' A"
      "frames (fblocks F') = frames (fblocks (F(k := F k @ [n]))) \<union> {n + 2 ^ k..<m}" by blast
    have "k \<le> MAX_ORDER" using ok(1) by (simp add: block_ok_def)
    moreover have "blk (n, k) \<union> {n + 2 ^ k..<m} = {n..<m}" using ok(2) by (auto simp: blk_def)
    ultimately have "frames (fblocks F') = frames (fblocks F) \<union> {n..<m}"
      using r(3) by (simp add: fblocks_append frames_insert Un_ac)
    then show ?thesis using r(1,2) unfolding s1(1) by blast
  qed
qed

section \<open>Initialisation\<close>

text \<open>The descriptors show all memory as reserved, for whole groups of frames.\<close>

definition all_reserved :: "frame_mem \<Rightarrow> bool" where
  "all_reserved s \<longleftrightarrow> (\<forall>n. fty s n \<noteq> None \<longrightarrow> fty s n = Some FReserved) \<and> chunked (fty s)"

lemma buddy_init_ok:
  assumes "all_reserved s"
  shows "buddy_held (\<lambda>n. None) (buddy_init s) (\<lambda>k. []) {}"
proof -
  have h: "heads (buddy_init s) ! k = \<lparr>bnext = HeadPtr k, bprev = HeadPtr k, border = k mod 256\<rparr>" if "k \<le> MAX_ORDER" for k
    using that by (simp add: buddy_init_def del: upt_Suc)
  have g: "bl_get (HeadPtr k) (buddy_init s) = Some \<lparr>bnext = HeadPtr k, bprev = HeadPtr k, border = k mod 256\<rparr>" if "k \<le> MAX_ORDER" for k
    using that h [OF that] by (simp add: bl_get_def) (simp add: buddy_init_def)
  have "free_lists (buddy_init s) (\<lambda>k. [])"
    by (auto simp: free_lists_def bl.holds_def bl_fields g MAX_ORDER_def)
  moreover have "fty (buddy_init s) = fty s" by (simp add: fun_eq_iff fty_def buddy_init_def)
  ultimately show ?thesis using assms
    by (auto simp: buddy_held_def buddy_state_def buddy_core_def fblocks_def layout_def typed_def orders_def held_def all_reserved_def)
qed

lemma buddy_add_range_effect:
  assumes ok: "buddy_held K s F A" and nm: "n \<le> m" "m \<le> max_frames" and ty: "\<forall>i\<in>{n..<m}. fty s i = Some FReserved"
  shows "\<exists>s' F'. buddy_add_range (frame_addr n) (frame_addr m) s = Some s' \<and> buddy_held K s' F' A \<and>
    frames (fblocks F') = frames (fblocks F) \<union> {n..<m}"
proof -
  have st: "buddy_state K s F A {}" using ok by (simp add: buddy_held_def)
  then have ty': "typed (fty s) (fblocks F) A {}" and la: "layout (fblocks F \<union> A) {}" by (auto simp: buddy_state_def buddy_core_def)
  have "blk b \<inter> {n..<m} = {}" if "b \<in> fblocks F \<union> A" for b
  proof -
    have "fty s i \<noteq> Some FReserved" if "i \<in> blk b" for i
      using ty' that \<open>b \<in> fblocks F \<union> A\<close> by (cases "i = fst b") (auto simp: typed_def)
    then show ?thesis using ty by blast
  qed
  then have "layout (fblocks F \<union> A) {n..<m}" using la by (auto simp: layout_def)
  moreover have "typed (fty s) (fblocks F) A {n..<m}" using ty' by (rule typed_mono) simp
  ultimately have st': "buddy_state K s F A {n..<m}" using st by (auto simp: buddy_state_def buddy_core_def)
  have al: "frame_addr i mod FRAME_BYTES = 0" if "i \<le> max_frames" for i
  proof -
    have "unat (frame_addr i mod FRAME_BYTES) = 0" using that by (simp add: unat_mod unat_frame_addr FRAME_BYTES_def)
    then show ?thesis by (simp add: unat_eq_zero)
  qed
  then show ?thesis using add_blocks_correct [OF st' nm] ty nm by (simp add: buddy_add_range_def)
qed

section \<open>Descriptors of other blocks\<close>

text \<open>Allocation and release leave the descriptors at the start of the other allocated blocks as they are.\<close>

definition heads_of :: "frame_mem \<Rightarrow> block set \<Rightarrow> nat \<Rightarrow> frame_info option" where
  "heads_of s A n = (if n \<in> fst ` A then fis s (fi_of n) else None)"

lemma buddy_held_weaken: "buddy_held K s F A \<Longrightarrow> buddy_ok s F A"
  by (simp add: buddy_held_def buddy_ok_def buddy_state_def buddy_core_def held_def)

lemma buddy_ok_heads:
  assumes "buddy_ok s F A" "B \<subseteq> A"
  shows "buddy_held (heads_of s B) s F A"
proof -
  have "n < max_frames" if "n \<in> fst ` A" for n
  proof -
    obtain k where "(n, k) \<in> A" using \<open>n \<in> fst ` A\<close> by auto
    then have "block_ok (n, k)" using assms(1)
      by (auto simp: buddy_held_def buddy_ok_def buddy_state_def buddy_core_def layout_def)
    then show ?thesis by (rule blk_less) simp
  qed
  then have "held (heads_of s B) s A" using assms(2) by (auto simp: held_def heads_of_def split: if_splits)
  then show ?thesis using assms(1) by (simp add: buddy_held_def buddy_ok_def buddy_state_def buddy_core_def)
qed

lemma buddy_held_fis:
  assumes "buddy_held (heads_of s B) s' F' A'" "n \<in> fst ` B" "fis s (fi_of n) \<noteq> None"
  shows "fis s' (fi_of n) = fis s (fi_of n)"
proof -
  obtain d where d: "fis s (fi_of n) = Some d" using assms(3) by blast
  then have "heads_of s B n = Some d" using assms(2) by (simp add: heads_of_def)
  moreover have "held (heads_of s B) s' A'" using assms(1) by (simp add: buddy_held_def buddy_state_def buddy_core_def)
  ultimately show ?thesis using d by (simp add: held_def)
qed

lemma buddy_ok_mapped:
  assumes "buddy_ok s F A" "n \<in> fst ` A"
  shows "fis s (fi_of n) \<noteq> None" "n < max_frames"
proof -
  have "fty s n \<noteq> None" using assms by (auto simp: buddy_held_def buddy_ok_def buddy_state_def typed_def)
  then show "fis s (fi_of n) \<noteq> None" "n < max_frames" by (rule fty_mapped, rule fty_less)
qed

lemma buddy_alloc_kept:
  assumes ok: "buddy_ok s F A" and k: "k \<le> MAX_ORDER"
  shows "(\<forall>b\<in>fblocks F. snd b < k) \<and> buddy_alloc k s = Some (Inl OutOfMemory, s) \<or>
    (\<exists>n s' F'. buddy_alloc k s = Some (Inr (frame_addr n), s') \<and> buddy_ok s' F' (insert (n, k) A) \<and> n \<notin> fst ` A \<and>
       blk (n, k) \<subseteq> frames (fblocks F) \<and> frames (fblocks F') = frames (fblocks F) - blk (n, k) \<and>
       fty s' n = Some FBuddyAllocated \<and> (\<forall>m\<in>fst ` A. fis s' (fi_of m) = fis s (fi_of m)))"
proof -
  from buddy_alloc_effect [OF buddy_ok_heads [OF ok order_refl] k] show ?thesis
  proof (elim disjE exE conjE)
    fix n s' F' assume a: "buddy_alloc k s = Some (Inr (frame_addr n), s')" "buddy_held (heads_of s A) s' F' (insert (n, k) A)"
      "(n, k) \<notin> A" "blk (n, k) \<subseteq> frames (fblocks F)" "frames (fblocks F') = frames (fblocks F) - blk (n, k)"
      "fty s' n = Some FBuddyAllocated"
    have "n \<notin> fst ` A"
    proof
      assume "n \<in> fst ` A"
      then obtain j where j: "(n, j) \<in> A" by auto
      have "layout (fblocks F' \<union> insert (n, k) A) {}" using a(2) by (simp add: buddy_held_def buddy_state_def buddy_core_def)
      then have "(n, k) = (n, j)" by (rule layout_first) (use j in auto)
      then show False using j a(3) by simp
    qed
    moreover have "\<forall>m\<in>fst ` A. fis s' (fi_of m) = fis s (fi_of m)"
      using buddy_held_fis [OF a(2)] buddy_ok_mapped(1) [OF ok] by blast
    ultimately show ?thesis using a buddy_held_weaken [OF a(2)] by blast
  qed blast
qed

lemma buddy_free_kept:
  assumes ok: "buddy_ok s F A" and b: "(n, k) \<in> A"
  shows "\<exists>s' F'. buddy_free (frame_addr n) k s = Some s' \<and> buddy_ok s' F' (A - {(n, k)}) \<and>
    frames (fblocks F') = frames (fblocks F) \<union> blk (n, k) \<and> (\<forall>m\<in>fst ` (A - {(n, k)}). fis s' (fi_of m) = fis s (fi_of m))"
proof -
  have "n \<notin> fst ` (A - {(n, k)})"
  proof
    assume "n \<in> fst ` (A - {(n, k)})"
    then obtain b where b': "b \<in> A - {(n, k)}" "n = fst b" by (rule imageE)
    define j where "j = snd b"
    have j: "(n, j) \<in> A" "j \<noteq> k" using b' by (auto simp: j_def)
    have "layout (fblocks F \<union> A) {}" using ok by (simp add: buddy_ok_def buddy_held_def buddy_state_def buddy_core_def)
    then have "(n, k) = (n, j)" by (rule layout_first) (use j b in auto)
    then show False using j by simp
  qed
  then have "heads_of s (A - {(n, k)}) n = None" by (simp add: heads_of_def)
  from buddy_free_effect [OF buddy_ok_heads [OF ok Diff_subset] b this]
  obtain s' F' where r: "buddy_free (frame_addr n) k s = Some s'" "buddy_held (heads_of s (A - {(n, k)})) s' F' (A - {(n, k)})"
    "frames (fblocks F') = frames (fblocks F) \<union> blk (n, k)" by blast
  have "fis s' (fi_of m) = fis s (fi_of m)" if m: "m \<in> fst ` (A - {(n, k)})" for m
  proof (rule buddy_held_fis [OF r(2) m])
    have "m \<in> fst ` A" using m by (rule rev_subsetD) (rule image_mono [OF Diff_subset])
    then show "fis s (fi_of m) \<noteq> None" by (rule buddy_ok_mapped(1) [OF ok])
  qed
  then show ?thesis using r(1,3) buddy_held_weaken [OF r(2)] by blast
qed

section \<open>Correctness\<close>

definition descriptors_demo :: frame_mem where
  "descriptors_demo = \<lparr>heads = buddy_dummy, fis = (\<lambda>a. Some \<lparr>fflags = 0, fdata = NoData\<rparr>)\<rparr>"

lemma descriptors_demo_reserved: "fty descriptors_demo n = (if n < max_frames then Some FReserved else None)"
  by (simp add: fty_def descriptors_demo_def frame_ty_def ty_of_flags_def type_of_code_def)

lemma all_reserved_demo: "all_reserved descriptors_demo"
  by (auto simp: all_reserved_def chunked_def descriptors_demo_reserved)

lemma demo_range:
  "\<exists>s F. buddy_add_range (frame_addr 3) (frame_addr 8) (buddy_init descriptors_demo) = Some s \<and> buddy_ok s F {} \<and>
     frames (fblocks F) = {3..<8}"
proof -
  have "fty (buddy_init descriptors_demo) = fty descriptors_demo" by (simp add: fun_eq_iff fty_def buddy_init_def)
  then have "\<forall>i\<in>{3..<8}. fty (buddy_init descriptors_demo) i = Some FReserved"
    by (simp add: descriptors_demo_reserved max_frames_def)
  from buddy_add_range_effect [OF buddy_init_ok [OF all_reserved_demo] _ _ this]
  show ?thesis unfolding buddy_ok_def by (simp add: max_frames_def fblocks_def frames_def)
qed

text \<open>
  Initialisation on descriptors that show all memory as reserved gives an empty allocator, and adding the frames
  from \<open>n\<close> to \<open>m\<close> of reserved memory never fails and makes exactly these frames free, in aligned blocks.
\<close>

theorem buddy_add_range_correct:
  assumes "all_reserved s0" and "buddy_ok s F A" and "n \<le> m" and "m \<le> max_frames" and "\<forall>i\<in>{n..<m}. fty s i = Some FReserved"
  shows "buddy_ok (buddy_init s0) (\<lambda>k. []) {} \<and>
    (\<exists>s' F'. buddy_add_range (frame_addr n) (frame_addr m) s = Some s' \<and> buddy_ok s' F' A \<and>
      frames (fblocks F') = frames (fblocks F) \<union> {n..<m})"
  using buddy_init_ok [OF assms(1)] buddy_add_range_effect [OF assms(2) [unfolded buddy_ok_def] assms(3-5)]
  unfolding buddy_ok_def by blast

theorem buddy_add_range_correct_witness:
  "\<exists>s' F'. buddy_add_range (frame_addr 3) (frame_addr 8) (buddy_init descriptors_demo) = Some s' \<and> buddy_ok s' F' {} \<and>
     frames (fblocks F') = {3..<8}"
proof -
  have "fty (buddy_init descriptors_demo) = fty descriptors_demo" by (simp add: fun_eq_iff fty_def buddy_init_def)
  then have "\<forall>i\<in>{3..<8}. fty (buddy_init descriptors_demo) i = Some FReserved"
    by (simp add: descriptors_demo_reserved max_frames_def)
  from buddy_add_range_correct [OF all_reserved_demo buddy_init_ok [OF all_reserved_demo, folded buddy_ok_def] _ _ this]
  show ?thesis by (simp add: max_frames_def fblocks_def frames_def)
qed

text \<open>
  C2. An allocation of order \<open>k\<close> either returns an aligned block of \<open>2\<^sup>k\<close> frames that was free, takes exactly these
  frames out of the free memory and leaves every other allocated block alone, or reports that memory is exhausted
  because no free block has order \<open>k\<close> or more.  It keeps free memory merged.
\<close>

theorem buddy_alloc_correct:
  assumes "buddy_ok s F A" and "k \<le> MAX_ORDER"
  shows "(\<forall>b\<in>fblocks F. snd b < k) \<and> buddy_alloc k s = Some (Inl OutOfMemory, s) \<or>
    (\<exists>n s' F'. buddy_alloc k s = Some (Inr (frame_addr n), s') \<and> buddy_ok s' F' (insert (n, k) A) \<and> (n, k) \<notin> A \<and>
       blk (n, k) \<subseteq> frames (fblocks F) \<and> frames (fblocks F') = frames (fblocks F) - blk (n, k) \<and>
       (coalesced F \<longrightarrow> coalesced F') \<and> fty s' n = Some FBuddyAllocated)"
  unfolding buddy_ok_def by (rule buddy_alloc_effect [OF assms [unfolded buddy_ok_def]])

theorem buddy_alloc_correct_witness:
  "\<exists>s F n s' F'. buddy_ok s F {} \<and> frames (fblocks F) = {3..<8} \<and> buddy_alloc 0 s = Some (Inr (frame_addr n), s') \<and>
     buddy_ok s' F' {(n, 0)} \<and> n \<in> {3..<8} \<and> frames (fblocks F') = {3..<8} - {n}"
proof -
  obtain s F where s: "buddy_ok s F {}" "frames (fblocks F) = {3..<8}" using demo_range by blast
  have "3 \<in> frames (fblocks F)" using s(2) by simp
  then have "\<not> (\<forall>b\<in>fblocks F. snd b < 0)" by (auto simp: frames_def)
  moreover have "blk (n, 0) = {n}" for n by (auto simp: blk_def)
  ultimately show ?thesis using buddy_alloc_correct [OF s(1), of 0] s by fastforce
qed

text \<open>
  C7. Releasing an allocated block succeeds, merges it with its free buddies as long as there are any, and makes
  exactly its frames free again; in memory that was merged, no two free blocks are buddies afterwards.
\<close>

theorem buddy_free_correct:
  assumes "buddy_ok s F A" and "(n, k) \<in> A"
  shows "\<exists>s' F'. buddy_free (frame_addr n) k s = Some s' \<and> buddy_ok s' F' (A - {(n, k)}) \<and>
    frames (fblocks F') = frames (fblocks F) \<union> blk (n, k) \<and> (coalesced F \<longrightarrow> coalesced F')"
  unfolding buddy_ok_def by (rule buddy_free_effect [OF assms [unfolded buddy_ok_def] refl])

theorem buddy_free_correct_witness:
  "\<exists>s F n s' F'. buddy_ok s F {(n, 0)} \<and> n \<in> {3..<8} \<and> buddy_free (frame_addr n) 0 s = Some s' \<and>
     buddy_ok s' F' {} \<and> frames (fblocks F') = {3..<8}"
proof -
  obtain s F where s: "buddy_ok s F {}" "frames (fblocks F) = {3..<8}" using demo_range by blast
  have "3 \<in> frames (fblocks F)" using s(2) by simp
  then have "\<not> (\<forall>b\<in>fblocks F. snd b < 0)" by (auto simp: frames_def)
  then obtain n s1 F1 where a: "buddy_ok s1 F1 {(n, 0)}" "blk (n, 0) \<subseteq> frames (fblocks F)"
    "frames (fblocks F1) = frames (fblocks F) - blk (n, 0)" using buddy_alloc_effect [OF s(1) [unfolded buddy_ok_def], of 0] unfolding buddy_ok_def by fastforce
  have "n \<in> {3..<8}" using a(2) s(2) first_in_blk [of n 0] by blast
  then show ?thesis using buddy_free_correct [OF a(1), of n 0] a s(2) by fastforce
qed

end
