(* ===== verification/Slub.thy ===== *)
theory Slub
  imports Buddy_Laws
begin

text \<open>
  The slab allocator (\<^verbatim>\<open>memory/slub.rs\<close>) on top of the buddy allocator.  A cache serves the objects of one size class
  from slabs of one block each; the descriptor of a slab holds the head and the length of the list of its free
  objects, which is threaded through the objects themselves (\<open>cells\<close>, the words of the direct map), and slabs with
  free objects are linked into the list of their cache.  \<^term>\<open>None\<close> is a panic or a fault.
\<close>

unbundle bit_operations_syntax

section \<open>Size classes\<close>

text \<open>\<^verbatim>\<open>clog2\<close> of \<^verbatim>\<open>util.rs\<close>: the number of bits of \<open>n - 1\<close>.  The argument zero underflows.\<close>

fun bit_length :: "nat \<Rightarrow> nat" where
  "bit_length n = (if n = 0 then 0 else Suc (bit_length (n div 2)))"

declare bit_length.simps [simp del]

definition clog2 :: "nat \<Rightarrow> nat option" where
  "clog2 n = (if n = 0 then None else Some (bit_length (n - 1)))"

definition NUM_SIZE_CLASSES :: nat where "NUM_SIZE_CLASSES = 11"

definition SIZE_CLASSES :: "nat list" where
  "SIZE_CLASSES = [8, 16, 24, 32, 48, 64, 96, 128, 256, 512, 1024]"

definition SLUB_MAX :: nat where "SLUB_MAX = SIZE_CLASSES ! (NUM_SIZE_CLASSES - 1)"

definition SIZE_LOOKUP_SIZE :: nat where "SIZE_LOOKUP_SIZE = bit_length (SLUB_MAX - 1) + 1"

definition USIZE_LIMIT :: nat where "USIZE_LIMIT = 2 ^ 64 - 1"

definition isolate_lowest_one :: "nat \<Rightarrow> nat" where
  "isolate_lowest_one n = (if n = 0 then 0 else 2 ^ trailing_zeros n)"

text \<open>The loops that fill the lookup table: every class is a candidate for the powers of two up to its size.\<close>

fun note_class :: "nat \<Rightarrow> nat list \<Rightarrow> nat list \<Rightarrow> nat list" where
  "note_class index [] table = table"
| "note_class index (i # is) table = note_class index is (table[i := min (table ! i) index])"

fun fill_lookup :: "(nat \<times> nat) list \<Rightarrow> nat list \<Rightarrow> nat list option" where
  "fill_lookup [] table = Some table"
| "fill_lookup ((index, v) # cs) table = do {
     b \<leftarrow> clog2 v;
     if b < length table then fill_lookup cs (note_class index [0..<b + 1] table) else None }"

definition init_size_lookup :: "nat list option" where
  "init_size_lookup =
     (if isolate_lowest_one SLUB_MAX = SLUB_MAX
      then fill_lookup (enumerate 0 SIZE_CLASSES) (replicate SIZE_LOOKUP_SIZE USIZE_LIMIT) else None)"

text \<open>The search from the first candidate; an index behind the last class is a panic.\<close>

function search_class :: "nat \<Rightarrow> nat \<Rightarrow> nat \<Rightarrow> (nat \<times> nat) option" where
  "search_class sz al index =
     (if index < NUM_SIZE_CLASSES then
        if sz \<le> SIZE_CLASSES ! index \<and> al \<le> isolate_lowest_one (SIZE_CLASSES ! index)
        then Some (index, SIZE_CLASSES ! index) else search_class sz al (index + 1)
      else None)"
  by pat_completeness auto
termination by (relation "measure (\<lambda>(sz, al, index). NUM_SIZE_CLASSES - index)") auto

declare search_class.simps [simp del]

definition find_class :: "nat list \<Rightarrow> nat \<Rightarrow> nat \<Rightarrow> (nat \<times> nat) option" where
  "find_class lookup sz al =
     (if sz \<le> SLUB_MAX \<and> al \<le> SLUB_MAX then do {
        b \<leftarrow> clog2 sz;
        if b < length lookup then search_class sz al (lookup ! b) else None }
      else None)"

section \<open>State\<close>

record slab_cache =
  clist :: slab_list
  object_size :: nat
  slab_order :: nat
  max_free_count :: nat

record slub_mem =
  slabs :: "slab_cache list"
  size_lookup :: "nat list"
  cells :: "64 word \<Rightarrow> 64 word"
  pages :: frame_mem

definition dummy_list :: slab_list where
  "dummy_list = \<lparr>snext = NullPtr, sprev = NullPtr, free_list = 0, free_count = 0, cache_index = 0\<rparr>"

definition slub_dummy :: "slab_cache list" where
  "slub_dummy = replicate NUM_SIZE_CLASSES \<lparr>clist = dummy_list, object_size = 0, slab_order = 0, max_free_count = 0\<rparr>"

definition slub_init :: "slub_mem \<Rightarrow> slub_mem option" where
  "slub_init st = do {
     lookup \<leftarrow> init_size_lookup;
     Some (st\<lparr>size_lookup := lookup,
              slabs := map (\<lambda>(index, sz).
                \<lparr>clist = (clist (slabs st ! index))\<lparr>cache_index := index, snext := HeadPtr index, sprev := HeadPtr index\<rparr>,
                 object_size = sz, slab_order = 0, max_free_count = 4096 div sz\<rparr>) (enumerate 0 SIZE_CLASSES)\<rparr>) }"

section \<open>Lists of slabs\<close>

definition sl_get :: "list_ptr \<Rightarrow> slub_mem \<Rightarrow> slab_list option" where
  "sl_get p st =
     (case p of
        NullPtr \<Rightarrow> None
      | HeadPtr i \<Rightarrow> if i < length (slabs st) then Some (clist (slabs st ! i)) else None
      | FramePtr fi \<Rightarrow> do { d \<leftarrow> fis (pages st) fi; case fdata d of SlabData b \<Rightarrow> Some b | _ \<Rightarrow> None })"

definition sl_put :: "list_ptr \<Rightarrow> slab_list \<Rightarrow> slub_mem \<Rightarrow> slub_mem option" where
  "sl_put p b st =
     (case p of
        NullPtr \<Rightarrow> None
      | HeadPtr i \<Rightarrow> if i < length (slabs st) then Some (st\<lparr>slabs := (slabs st)[i := (slabs st ! i)\<lparr>clist := b\<rparr>]\<rparr>) else None
      | FramePtr fi \<Rightarrow> do {
          d \<leftarrow> fis (pages st) fi;
          Some (st\<lparr>pages := (pages st)\<lparr>fis := (fis (pages st))(fi \<mapsto> d\<lparr>fdata := SlabData b\<rparr>)\<rparr>\<rparr>) })"

definition sl_modify :: "list_ptr \<Rightarrow> (slab_list \<Rightarrow> slab_list) \<Rightarrow> slub_mem \<Rightarrow> slub_mem option" where
  "sl_modify p f st = do { b \<leftarrow> sl_get p st; sl_put p (f b) st }"

definition sl_insert :: "list_ptr \<Rightarrow> list_ptr \<Rightarrow> slub_mem \<Rightarrow> slub_mem option" where
  "sl_insert self item st = do {
     st \<leftarrow> sl_modify item (\<lambda>b. b\<lparr>snext := self\<rparr>) st;
     h \<leftarrow> sl_get self st;
     st \<leftarrow> sl_modify item (\<lambda>b. b\<lparr>sprev := sprev h\<rparr>) st;
     h \<leftarrow> sl_get self st;
     st \<leftarrow> sl_modify (sprev h) (\<lambda>b. b\<lparr>snext := item\<rparr>) st;
     sl_modify self (\<lambda>b. b\<lparr>sprev := item\<rparr>) st }"

definition sl_unlink :: "list_ptr \<Rightarrow> slub_mem \<Rightarrow> slub_mem option" where
  "sl_unlink self st = do {
     b \<leftarrow> sl_get self st;
     st \<leftarrow> sl_modify (snext b) (\<lambda>c. c\<lparr>sprev := sprev b\<rparr>) st;
     b \<leftarrow> sl_get self st;
     st \<leftarrow> sl_modify (sprev b) (\<lambda>c. c\<lparr>snext := snext b\<rparr>) st;
     st \<leftarrow> sl_modify self (\<lambda>c. c\<lparr>sprev := NullPtr\<rparr>) st;
     sl_modify self (\<lambda>c. c\<lparr>snext := NullPtr\<rparr>) st }"

section \<open>Slabs\<close>

text \<open>
  The loop that threads the free list through a new slab: \<open>pp\<close> is the place the next pointer goes to, the local
  variable \<^verbatim>\<open>list_start\<close> (\<^term>\<open>None\<close>) or the object before.
\<close>

fun write_slab_link :: "64 word option \<Rightarrow> 64 word \<Rightarrow> 64 word \<times> (64 word \<Rightarrow> 64 word) \<Rightarrow> 64 word \<times> (64 word \<Rightarrow> 64 word)" where
  "write_slab_link None v (ls, c) = (v, c)"
| "write_slab_link (Some a) v (ls, c) = (ls, c(a := v))"

fun thread_objects :: "64 word list \<Rightarrow> 64 word option \<Rightarrow> 64 word \<times> (64 word \<Rightarrow> 64 word) \<Rightarrow> 64 word \<times> (64 word \<Rightarrow> 64 word)" where
  "thread_objects [] pp m = write_slab_link pp 0 m"
| "thread_objects (p # ps) pp m = thread_objects ps (Some p) (write_slab_link pp p m)"

definition init_slab :: "nat \<Rightarrow> 64 word \<Rightarrow> slub_mem \<Rightarrow> slub_mem option" where
  "init_slab index addr st = do {
     let c = slabs st ! index;
     p \<leftarrow> phys_to_virt addr;
     let (list_start, m) = thread_objects (map (\<lambda>i. p + of_nat (object_size c * i)) [0..<max_free_count c]) None (0, cells st);
     let st = st\<lparr>cells := m\<rparr>;
     sl_put (FramePtr (frame_info_addr addr))
       \<lparr>snext = NullPtr, sprev = NullPtr, free_list = list_start, free_count = max_free_count c, cache_index = cache_index (clist c)\<rparr> st }"

definition slub_set_ty :: "64 word \<Rightarrow> frame_type \<Rightarrow> slub_mem \<Rightarrow> slub_mem option" where
  "slub_set_ty fi t st = do { m \<leftarrow> mem_set_ty fi t (pages st); Some (st\<lparr>pages := m\<rparr>) }"

definition grab_slab :: "nat \<Rightarrow> slub_mem \<Rightarrow> ((memory_error + 64 word) \<times> slub_mem) option" where
  "grab_slab index st = do {
     h \<leftarrow> sl_get (HeadPtr index) st;
     if snext h \<noteq> HeadPtr index then do { fi \<leftarrow> bl_frame_info (snext h); Some (Inr fi, st) }
     else do {
       (r, m) \<leftarrow> buddy_alloc (slab_order (slabs st ! index)) (pages st);
       let st = st\<lparr>pages := m\<rparr>;
       case r of
         Inl e \<Rightarrow> Some (Inl e, st)
       | Inr addr \<Rightarrow> do {
           let fi = frame_info_addr addr;
           st \<leftarrow> init_slab index addr st;
           st \<leftarrow> sl_insert (HeadPtr index) (FramePtr fi) st;
           st \<leftarrow> slub_set_ty fi FSlab st;
           Some (Inr fi, st) } } }"

definition put_slab :: "nat \<Rightarrow> 64 word \<Rightarrow> slub_mem \<Rightarrow> slub_mem option" where
  "put_slab index fi st = do {
     sl \<leftarrow> sl_get (FramePtr fi) st;
     c \<leftarrow> if index < length (slabs st) then Some (slabs st ! index) else None;
     if free_count sl = 1 then sl_insert (HeadPtr index) (FramePtr fi) st
     else if free_count sl = max_free_count c then do {
       st \<leftarrow> sl_unlink (FramePtr fi) st;
       m \<leftarrow> buddy_free (from_frame_info_addr fi) (slab_order c) (pages st);
       Some (st\<lparr>pages := m\<rparr>) }
     else Some st }"

section \<open>Operations\<close>

definition slub_alloc :: "nat \<Rightarrow> nat \<Rightarrow> slub_mem \<Rightarrow> ((memory_error + 64 word) \<times> slub_mem) option" where
  "slub_alloc sz al st = do {
     (index, _) \<leftarrow> find_class (size_lookup st) sz al;
     (r, st) \<leftarrow> grab_slab index st;
     case r of
       Inl e \<Rightarrow> Some (Inl e, st)
     | Inr fi \<Rightarrow> do {
         sl \<leftarrow> sl_get (FramePtr fi) st;
         let p = free_list sl;
         st \<leftarrow> sl_modify (FramePtr fi) (\<lambda>b. b\<lparr>free_list := cells st p\<rparr>) st;
         if free_count sl = 0 then None
         else do {
           st \<leftarrow> sl_modify (FramePtr fi) (\<lambda>b. b\<lparr>free_count := free_count b - 1\<rparr>) st;
           sl \<leftarrow> sl_get (FramePtr fi) st;
           st \<leftarrow> if free_count sl = 0 then sl_unlink (FramePtr fi) st else Some st;
           Some (Inr p, st) } } }"

definition slub_free :: "64 word \<Rightarrow> slub_mem \<Rightarrow> slub_mem option" where
  "slub_free object st = do {
     phys \<leftarrow> virt_to_phys object;
     let fi = frame_info_addr phys;
     t \<leftarrow> frame_ty fi (fis (pages st));
     if t \<noteq> FSlab then None
     else do {
       sl \<leftarrow> sl_get (FramePtr fi) st;
       let st = st\<lparr>cells := (cells st)(object := free_list sl)\<rparr>;
       st \<leftarrow> sl_modify (FramePtr fi) (\<lambda>b. b\<lparr>free_list := object\<rparr>) st;
       st \<leftarrow> sl_modify (FramePtr fi) (\<lambda>b. b\<lparr>free_count := free_count b + 1\<rparr>) st;
       put_slab (cache_index sl) fi st } }"

end
