(* ===== verification/Slub_Inv.thy ===== *)
theory Slub_Inv
  imports Slub
begin

text \<open>
  The choice of the size class, and the lists of slabs as rings: the pointer operations of \<^verbatim>\<open>SlabList\<close> meet the same
  contract as those of \<^verbatim>\<open>BuddyList\<close>, and leave the free objects and the state of the buddy allocator alone.
\<close>

section \<open>Size classes\<close>

definition size_table :: "nat list" where
  "size_table = [0, 0, 0, 0, 1, 2, 4, 6, 8, 9, 10]"

lemmas size_class_consts = SIZE_CLASSES_def NUM_SIZE_CLASSES_def SLUB_MAX_def SIZE_LOOKUP_SIZE_def USIZE_LIMIT_def

lemma lookup_table: "init_size_lookup = Some size_table"
  by (simp add: init_size_lookup_def size_class_consts isolate_lowest_one_def trailing_zeros.simps clog2_def
      bit_length.simps upt_rec size_table_def)

lemma bit_length_bounds: "n < 2 ^ bit_length n \<and> (0 < n \<longrightarrow> 2 ^ (bit_length n - 1) \<le> n)"
proof (induction n rule: bit_length.induct)
  case (1 n)
  show ?case
  proof (cases "n = 0")
    case False
    then have b: "bit_length n = Suc (bit_length (n div 2))" by (subst bit_length.simps) simp
    have "n div 2 < 2 ^ bit_length (n div 2)" using 1 False by blast
    moreover have "2 ^ bit_length (n div 2) \<le> n"
    proof (cases "n div 2 = 0")
      case True
      then show ?thesis using False by (simp add: bit_length.simps)
    next
      case c: False
      then have "2 ^ (bit_length (n div 2) - 1) \<le> n div 2" "bit_length (n div 2) \<noteq> 0"
        using 1 False by (auto simp: bit_length.simps)
      then show ?thesis by (cases "bit_length (n div 2)") auto
    qed
    ultimately show ?thesis by (simp add: b)
  qed (simp add: bit_length.simps)
qed

lemma clog2_bounds:
  assumes "clog2 n = Some b"
  shows "n \<le> 2 ^ b" and "0 < b \<Longrightarrow> 2 ^ (b - 1) < n"
proof -
  have b: "b = bit_length (n - 1)" "n \<noteq> 0" using assms by (auto simp: clog2_def split: if_splits)
  have "n - 1 < 2 ^ b" using bit_length_bounds [of "n - 1"] b by blast
  then show "n \<le> 2 ^ b" using b(2) by linarith
  show "2 ^ (b - 1) < n" if "0 < b"
  proof -
    have "0 < n - 1" using that b by (cases "n - 1 = 0") (auto simp: bit_length.simps)
    then have "2 ^ (b - 1) \<le> n - 1" using bit_length_bounds [of "n - 1"] b by blast
    then show ?thesis using b(2) by linarith
  qed
qed

lemma nth_cases11:
  assumes "i < 11" "P 0" "P 1" "P 2" "P 3" "P 4" "P 5" "P 6" "P 7" "P 8" "P 9" "P (10::nat)"
  shows "P i"
proof -
  have "[0..<11] = [0, 1, 2, 3, 4, 5, 6, 7, 8, 9, 10]" by (simp add: upt_rec)
  moreover have "i \<in> set [0..<11]" using assms(1) by simp
  ultimately have "i \<in> {0, 1, 2, 3, 4, 5, 6, 7, 8, 9, 10}" by simp
  then show ?thesis using assms(2-) by blast
qed

lemma search_class_least:
  assumes "index \<le> k" "k < NUM_SIZE_CLASSES" "sz \<le> SIZE_CLASSES ! k" "al \<le> isolate_lowest_one (SIZE_CLASSES ! k)"
  shows "\<exists>i. search_class sz al index = Some (i, SIZE_CLASSES ! i) \<and> index \<le> i \<and> i < NUM_SIZE_CLASSES \<and> sz \<le> SIZE_CLASSES ! i \<and>
    al \<le> isolate_lowest_one (SIZE_CLASSES ! i) \<and>
    (\<forall>j. index \<le> j \<and> j < i \<longrightarrow> \<not> (sz \<le> SIZE_CLASSES ! j \<and> al \<le> isolate_lowest_one (SIZE_CLASSES ! j)))"
  using assms(1)
proof (induction "k - index" arbitrary: index)
  case 0
  then show ?case using assms by (subst search_class.simps) (auto intro!: exI [of _ k])
next
  case (Suc d)
  show ?case
  proof (cases "sz \<le> SIZE_CLASSES ! index \<and> al \<le> isolate_lowest_one (SIZE_CLASSES ! index)")
    case True
    then show ?thesis using assms(2) Suc.prems by (subst search_class.simps) (auto intro!: exI [of _ index])
  next
    case False
    have e: "search_class sz al index = search_class sz al (index + 1)"
      using False assms(2) Suc.prems by (subst search_class.simps) auto
    have "d = k - (index + 1)" "index + 1 \<le> k" using Suc.hyps(2) by auto
    from Suc.hyps(1) [OF this] obtain i where i: "search_class sz al (index + 1) = Some (i, SIZE_CLASSES ! i)" "index + 1 \<le> i"
      "i < NUM_SIZE_CLASSES" "sz \<le> SIZE_CLASSES ! i" "al \<le> isolate_lowest_one (SIZE_CLASSES ! i)"
      "\<forall>j. index + 1 \<le> j \<and> j < i \<longrightarrow> \<not> (sz \<le> SIZE_CLASSES ! j \<and> al \<le> isolate_lowest_one (SIZE_CLASSES ! j))" by blast
    have "\<forall>j. index \<le> j \<and> j < i \<longrightarrow> \<not> (sz \<le> SIZE_CLASSES ! j \<and> al \<le> isolate_lowest_one (SIZE_CLASSES ! j))"
      using i(6) False by (metis Suc_eq_plus1 le_antisym not_less_eq_eq)
    then show ?thesis using i unfolding e by (intro exI [of _ i]) auto
  qed
qed

lemma lowest_ones: "map isolate_lowest_one SIZE_CLASSES = [8, 16, 8, 32, 16, 64, 32, 128, 256, 512, 1024]"
  by (simp add: SIZE_CLASSES_def isolate_lowest_one_def trailing_zeros.simps)

lemma low_one_dvd:
  assumes "i < NUM_SIZE_CLASSES"
  shows "2 ^ a \<le> isolate_lowest_one (SIZE_CLASSES ! i) \<longleftrightarrow> 2 ^ a dvd SIZE_CLASSES ! i"
proof -
  let ?c = "SIZE_CLASSES ! i"
  have c: "?c \<noteq> 0" by (rule nth_cases11 [of i]) (use assms in \<open>simp_all add: NUM_SIZE_CLASSES_def SIZE_CLASSES_def\<close>)
  note t = trailing_zeros_dvd [OF c]
  have "2 ^ a \<le> isolate_lowest_one ?c \<longleftrightarrow> a \<le> trailing_zeros ?c" using c by (simp add: isolate_lowest_one_def)
  also have "\<dots> \<longleftrightarrow> 2 ^ a dvd ?c"
    using t by (meson dvd_trans le_imp_power_dvd not_less_eq_eq)
  finally show ?thesis .
qed

lemma small_classes:
  assumes "clog2 sz = Some b" "b < 11" "j < size_table ! b"
  shows "SIZE_CLASSES ! j < sz"
proof -
  have *: "\<forall>b\<in>set [0..<11]. \<forall>j\<in>set [0..<size_table ! b]. 0 < b \<and> SIZE_CLASSES ! j \<le> 2 ^ (b - 1)"
    by code_simp
  then have "0 < b \<and> SIZE_CLASSES ! j \<le> 2 ^ (b - 1)" using assms(2,3) by auto
  then show ?thesis using clog2_bounds(2) [OF assms(1)] by auto
qed

lemma find_class_least:
  assumes "0 < sz" "sz \<le> SLUB_MAX" "2 ^ a \<le> SLUB_MAX"
  shows "\<exists>i. find_class size_table sz (2 ^ a) = Some (i, SIZE_CLASSES ! i) \<and> i < NUM_SIZE_CLASSES \<and> sz \<le> SIZE_CLASSES ! i \<and>
    2 ^ a dvd SIZE_CLASSES ! i \<and> (\<forall>j<i. \<not> (sz \<le> SIZE_CLASSES ! j \<and> 2 ^ a dvd SIZE_CLASSES ! j))"
proof -
  have m: "SLUB_MAX = 1024" by (simp add: size_class_consts)
  obtain b where b: "clog2 sz = Some b" using assms(1) by (simp add: clog2_def)
  have "b < 11"
  proof (rule ccontr)
    assume "\<not> b < 11"
    then have "(2::nat) ^ 10 \<le> 2 ^ (b - 1)" "0 < b" by (intro power_increasing, simp_all)
    then show False using clog2_bounds(2) [OF b] assms(2) m by simp
  qed
  have t: "size_table ! b \<le> 10" by (rule nth_cases11 [OF \<open>b < 11\<close>]) (simp_all add: size_table_def)
  have "isolate_lowest_one (SIZE_CLASSES ! 10) = 1024"
    by (simp add: SIZE_CLASSES_def isolate_lowest_one_def trailing_zeros.simps)
  then obtain i where i: "search_class sz (2 ^ a) (size_table ! b) = Some (i, SIZE_CLASSES ! i)" "i < NUM_SIZE_CLASSES"
    "sz \<le> SIZE_CLASSES ! i" "2 ^ a \<le> isolate_lowest_one (SIZE_CLASSES ! i)"
    "\<forall>j. size_table ! b \<le> j \<and> j < i \<longrightarrow> \<not> (sz \<le> SIZE_CLASSES ! j \<and> 2 ^ a \<le> isolate_lowest_one (SIZE_CLASSES ! j))"
    using search_class_least [OF t, of sz "2 ^ a"] assms m by (auto simp: SIZE_CLASSES_def NUM_SIZE_CLASSES_def)
  have "\<not> (sz \<le> SIZE_CLASSES ! j \<and> 2 ^ a dvd SIZE_CLASSES ! j)" if "j < i" for j
    using i(5) small_classes [OF b \<open>b < 11\<close>, of j] low_one_dvd [of j a] that i(2) by (cases "j < size_table ! b") auto
  then show ?thesis using i assms b \<open>b < 11\<close> low_one_dvd [OF i(2)]
    by (intro exI [of _ i]) (simp add: find_class_def size_table_def)
qed

section \<open>Lists of slabs\<close>

definition sl_next :: "slub_mem \<Rightarrow> list_ptr \<Rightarrow> list_ptr" where
  "sl_next st p = (case sl_get p st of Some b \<Rightarrow> snext b | None \<Rightarrow> NullPtr)"

definition sl_prev :: "slub_mem \<Rightarrow> list_ptr \<Rightarrow> list_ptr" where
  "sl_prev st p = (case sl_get p st of Some b \<Rightarrow> sprev b | None \<Rightarrow> NullPtr)"

definition sl_node :: "slub_mem \<Rightarrow> list_ptr \<Rightarrow> bool" where
  "sl_node st p \<longleftrightarrow> sl_get p st \<noteq> None"

definition sl_upd :: "list_ptr \<Rightarrow> slab_list \<Rightarrow> slub_mem \<Rightarrow> slub_mem" where
  "sl_upd p b st = (case sl_put p b st of Some st' \<Rightarrow> st' | None \<Rightarrow> st)"

text \<open>What a write to the list fields of existing nodes leaves alone.\<close>

definition meta :: "slab_list \<Rightarrow> 64 word \<times> nat \<times> nat" where
  "meta b = (free_list b, free_count b, cache_index b)"

definition params :: "slab_cache \<Rightarrow> nat \<times> nat \<times> nat" where
  "params c = (object_size c, slab_order c, max_free_count c)"

definition same_rest :: "slub_mem \<Rightarrow> slub_mem \<Rightarrow> bool" where
  "same_rest st st' \<longleftrightarrow> cells st' = cells st \<and> size_lookup st' = size_lookup st \<and>
     map params (slabs st') = map params (slabs st) \<and> same_frames (pages st) (pages st') \<and>
     (\<forall>p. bl_get p (pages st') = bl_get p (pages st))"

lemma same_rest_refl [simp]: "same_rest st st"
  by (simp add: same_rest_def)

lemma same_rest_trans: "same_rest st st1 \<Longrightarrow> same_rest st1 st2 \<Longrightarrow> same_rest st st2"
  by (auto simp: same_rest_def intro: same_frames_trans)

lemma same_rest_length: "same_rest st st' \<Longrightarrow> length (slabs st') = length (slabs st)"
  unfolding same_rest_def by (metis length_map)

lemma sl_put_upd:
  assumes "sl_get p st = Some b0"
  shows "sl_put p b st = Some (sl_upd p b st)"
  using assms by (auto simp: sl_put_def sl_upd_def sl_get_def bind_eq_Some_conv split: list_ptr.splits if_splits)

lemma sl_get_upd:
  assumes "sl_get p st = Some b0"
  shows "sl_get q (sl_upd p b st) = (if q = p then Some b else sl_get q st)"
  using assms
  by (auto simp: sl_put_def sl_upd_def sl_get_def nth_list_update bind_eq_Some_conv split: list_ptr.splits if_splits)

lemma sl_get_frame: "sl_get (FramePtr fi) st = Some b \<longleftrightarrow> (\<exists>d. fis (pages st) fi = Some d \<and> fdata d = SlabData b)"
  by (cases "fis (pages st) fi") (auto simp: sl_get_def split: frame_info_data.splits)

lemma same_rest_upd:
  assumes "sl_get p st = Some b0"
  shows "same_rest st (sl_upd p b st)"
proof (cases p)
  case (HeadPtr i)
  then have i: "i < length (slabs st)" using assms by (simp add: sl_get_def split: if_splits)
  have "map params ((slabs st)[i := (slabs st ! i)\<lparr>clist := b\<rparr>]) = map params (slabs st)"
    by (rule nth_equalityI) (use i in \<open>auto simp: nth_list_update params_def\<close>)
  then show ?thesis using HeadPtr i by (simp add: sl_upd_def sl_put_def same_rest_def)
next
  case (FramePtr fi)
  then obtain d where d: "fis (pages st) fi = Some d" "fdata d = SlabData b0"
    using assms by (auto simp: sl_get_frame)
  then show ?thesis using FramePtr
    by (auto simp: sl_upd_def sl_put_def same_rest_def same_frames_def bl_get_def split: list_ptr.splits)
qed (use assms in \<open>simp add: sl_get_def\<close>)

lemma sl_fis_upd: "FramePtr fi \<noteq> p \<Longrightarrow> fis (pages (sl_upd p b st)) fi = fis (pages st) fi"
  by (auto simp: sl_upd_def sl_put_def split: list_ptr.splits Option.bind_splits)

lemmas sl_fields = sl_next_def sl_prev_def sl_node_def

lemma sl_modify_eq:
  assumes "sl_get p st = Some b"
  shows "sl_modify p f st = Some (sl_upd p (f b) st)"
  using assms by (simp add: sl_modify_def sl_put_upd)

lemma sl_insert_effect:
  assumes "sl_node st h" "sl_node st (sl_prev st h)" "sl_node st x" "x \<noteq> h" "x \<noteq> sl_prev st h"
  shows "\<exists>st'. sl_insert h x st = Some st' \<and> sl_next st' = (sl_next st)(x := h, sl_prev st h := x) \<and>
    sl_prev st' = (sl_prev st)(x := sl_prev st h, h := x) \<and> sl_node st' = sl_node st \<and> same_rest st st' \<and>
    (\<forall>q. map_option meta (sl_get q st') = map_option meta (sl_get q st))"
proof -
  obtain a where a: "sl_get h st = Some a" "sl_prev st h = sprev a" using assms(1) by (auto simp: sl_fields)
  obtain b where b: "sl_get x st = Some b" using assms(3) by (auto simp: sl_fields)
  obtain c where c: "sl_get (sprev a) st = Some c" using assms(2) a by (auto simp: sl_fields)
  define s1 where "s1 = sl_upd x (b\<lparr>snext := h\<rparr>) st"
  have g1: "sl_get q s1 = (if q = x then Some (b\<lparr>snext := h\<rparr>) else sl_get q st)" for q unfolding s1_def by (rule sl_get_upd [OF b])
  define s2 where "s2 = sl_upd x (b\<lparr>snext := h, sprev := sprev a\<rparr>) s1"
  have x1: "sl_get x s1 = Some (b\<lparr>snext := h\<rparr>)" by (simp add: g1)
  have g2: "sl_get q s2 = (if q = x then Some (b\<lparr>snext := h, sprev := sprev a\<rparr>) else sl_get q st)" for q
    unfolding s2_def sl_get_upd [OF x1] by (simp add: g1)
  have c2: "sl_get (sprev a) s2 = Some c" using assms(5) a c by (simp add: g2)
  define s3 where "s3 = sl_upd (sprev a) (c\<lparr>snext := x\<rparr>) s2"
  have g3: "sl_get q s3 = (if q = sprev a then Some (c\<lparr>snext := x\<rparr>) else sl_get q s2)" for q
    unfolding s3_def by (rule sl_get_upd [OF c2])
  obtain d where d: "sl_get h s3 = Some d" "meta d = meta a" "snext d = (if h = sprev a then x else snext a)"
    using a c assms(4) by (cases "h = sprev a") (auto simp: g3 g2 meta_def)
  define s4 where "s4 = sl_upd h (d\<lparr>sprev := x\<rparr>) s3"
  have g4: "sl_get q s4 = (if q = h then Some (d\<lparr>sprev := x\<rparr>) else sl_get q s3)" for q
    unfolding s4_def by (rule sl_get_upd [OF d(1)])
  have "sl_get h s1 = Some a" "sl_get h s2 = Some a" using a assms(4) by (simp_all add: g1 g2)
  then have e: "sl_insert h x st = Some s4" unfolding sl_insert_def
    by (simp add: sl_modify_eq [OF b] sl_modify_eq [OF x1] sl_modify_eq [OF c2] sl_modify_eq [OF d(1)] flip: s1_def s2_def s3_def s4_def)
  have r: "same_rest st s4" using same_rest_upd [OF b] same_rest_upd [OF x1] same_rest_upd [OF c2] same_rest_upd [OF d(1)]
    unfolding s4_def s3_def s2_def s1_def by (meson same_rest_trans)
  show ?thesis unfolding e using assms a b c d r
    by (intro exI [of _ s4]) (auto simp: fun_eq_iff sl_fields g4 g3 g2 meta_def)
qed

lemma sl_unlink_effect:
  assumes "sl_node st x" "sl_node st (sl_prev st x)" "sl_node st (sl_next st x)" "sl_prev st x \<noteq> x" "sl_next st x \<noteq> x"
  shows "\<exists>st'. sl_unlink x st = Some st' \<and> sl_next st' = (sl_next st)(sl_prev st x := sl_next st x, x := NullPtr) \<and>
    sl_prev st' = (sl_prev st)(sl_next st x := sl_prev st x, x := NullPtr) \<and> sl_node st' = sl_node st \<and> same_rest st st' \<and>
    (\<forall>q. map_option meta (sl_get q st') = map_option meta (sl_get q st))"
proof -
  obtain b where b: "sl_get x st = Some b" "sl_prev st x = sprev b" "sl_next st x = snext b" using assms(1) by (auto simp: sl_fields)
  obtain c where c: "sl_get (snext b) st = Some c" using assms(3) b by (auto simp: sl_fields)
  obtain p where p: "sl_get (sprev b) st = Some p" using assms(2) b by (auto simp: sl_fields)
  have ne: "snext b \<noteq> x" "sprev b \<noteq> x" using assms(4,5) b by auto
  define s1 where "s1 = sl_upd (snext b) (c\<lparr>sprev := sprev b\<rparr>) st"
  have g1: "sl_get q s1 = (if q = snext b then Some (c\<lparr>sprev := sprev b\<rparr>) else sl_get q st)" for q
    unfolding s1_def by (rule sl_get_upd [OF c])
  obtain d where d: "sl_get (sprev b) s1 = Some d" "meta d = meta p" "sprev d = (if sprev b = snext b then sprev b else sprev p)"
    using p c by (cases "sprev b = snext b") (auto simp: g1 meta_def)
  define s2 where "s2 = sl_upd (sprev b) (d\<lparr>snext := snext b\<rparr>) s1"
  have g2: "sl_get q s2 = (if q = sprev b then Some (d\<lparr>snext := snext b\<rparr>) else sl_get q s1)" for q
    unfolding s2_def by (rule sl_get_upd [OF d(1)])
  have x2: "sl_get x s2 = Some b" using ne b by (simp add: g2 g1)
  define s3 where "s3 = sl_upd x (b\<lparr>sprev := NullPtr\<rparr>) s2"
  have g3: "sl_get q s3 = (if q = x then Some (b\<lparr>sprev := NullPtr\<rparr>) else sl_get q s2)" for q
    unfolding s3_def by (rule sl_get_upd [OF x2])
  have x3: "sl_get x s3 = Some (b\<lparr>sprev := NullPtr\<rparr>)" by (simp add: g3)
  define s4 where "s4 = sl_upd x (b\<lparr>sprev := NullPtr, snext := NullPtr\<rparr>) s3"
  have g4: "sl_get q s4 = (if q = x then Some (b\<lparr>sprev := NullPtr, snext := NullPtr\<rparr>) else sl_get q s2)" for q
    unfolding s4_def sl_get_upd [OF x3] by (simp add: g3)
  have "sl_get x s1 = Some b" using ne b by (simp add: g1)
  then have e: "sl_unlink x st = Some s4" unfolding sl_unlink_def
    by (simp add: b(1) sl_modify_eq [OF c] sl_modify_eq [OF d(1)] sl_modify_eq [OF x2] sl_modify_eq [OF x3] flip: s1_def s2_def s3_def s4_def)
  have r: "same_rest st s4" using same_rest_upd [OF c] same_rest_upd [OF d(1)] same_rest_upd [OF x2] same_rest_upd [OF x3]
    unfolding s4_def s3_def s2_def s1_def by (meson same_rest_trans)
  show ?thesis unfolding e using assms b c p d r ne
    by (intro exI [of _ s4]) (auto simp: fun_eq_iff sl_fields g4 g2 g1 meta_def)
qed

interpretation sl: ring_memory sl_next sl_prev sl_node sl_node sl_insert sl_unlink NullPtr
proof unfold_locales
  fix st h x
  assume a: "sl_node st h" "sl_node st (sl_prev st h)" "sl_node st x" "x \<noteq> h" "x \<noteq> sl_prev st h"
  have n: "(sl_node st)(x := True) = sl_node st" using a(3) by (simp add: fun_upd_idem)
  from sl_insert_effect [OF a]
  show "\<exists>st'. sl_insert h x st = Some st' \<and> sl_next st' = (sl_next st)(x := h, sl_prev st h := x) \<and>
    sl_prev st' = (sl_prev st)(x := sl_prev st h, h := x) \<and> sl_node st' = (sl_node st)(x := True)"
    unfolding n by blast
next
  fix st x
  assume "sl_node st x" "sl_node st (sl_prev st x)" "sl_node st (sl_next st x)" "sl_prev st x \<noteq> x" "sl_next st x \<noteq> x"
  from sl_unlink_effect [OF this]
  show "\<exists>st'. sl_unlink x st = Some st' \<and> sl_next st' = (sl_next st)(sl_prev st x := sl_next st x, x := NullPtr) \<and>
    sl_prev st' = (sl_prev st)(sl_next st x := sl_prev st x, x := NullPtr) \<and> sl_node st' = sl_node st" by blast
qed

end
