(* ===== verification/Slub_Spec.thy ===== *)
theory Slub_Spec
  imports Slub_Inv
begin

text \<open>
  The invariant of the slab allocator.  \<open>T\<close> gives for every slab its cache and the list of its free objects, \<open>L\<close> the
  list of slabs of each cache.  The objects of a slab are the slots of its frame; the free ones are chained through
  memory in the order of \<open>T\<close>, the others are live.  The steps of the operations are described by their effect on
  \<open>T\<close> and \<open>L\<close>.
\<close>

section \<open>Objects\<close>

definition nobj :: "nat \<Rightarrow> nat" where
  "nobj i = 4096 div SIZE_CLASSES ! i"

definition slot :: "nat \<Rightarrow> nat \<Rightarrow> nat \<Rightarrow> 64 word" where
  "slot n i j = PHYSICAL_MEMORY_OFFSET + frame_addr n + of_nat (SIZE_CLASSES ! i * j)"

definition slots :: "nat \<Rightarrow> nat \<Rightarrow> 64 word set" where
  "slots n i = slot n i ` {..<nobj i}"

lemma class_bounds:
  assumes "i < NUM_SIZE_CLASSES"
  shows "8 \<le> SIZE_CLASSES ! i" "SIZE_CLASSES ! i \<le> 1024" "4 \<le> nobj i"
proof -
  have i: "i < 11" using assms by (simp add: NUM_SIZE_CLASSES_def)
  show "8 \<le> SIZE_CLASSES ! i" by (rule nth_cases11 [OF i]) (simp_all add: SIZE_CLASSES_def)
  show "SIZE_CLASSES ! i \<le> 1024" by (rule nth_cases11 [OF i]) (simp_all add: SIZE_CLASSES_def)
  show "4 \<le> nobj i" by (rule nth_cases11 [OF i]) (simp_all add: SIZE_CLASSES_def nobj_def)
qed

lemma object_end: "j < nobj i \<Longrightarrow> SIZE_CLASSES ! i * j + SIZE_CLASSES ! i \<le> 4096"
proof -
  assume "j < nobj i"
  then have "SIZE_CLASSES ! i * Suc j \<le> SIZE_CLASSES ! i * nobj i" by (intro mult_le_mono2) simp
  also have "\<dots> \<le> 4096" by (simp add: nobj_def)
  finally show ?thesis by simp
qed

lemma object_inside:
  assumes "i < NUM_SIZE_CLASSES" "j < nobj i"
  shows "SIZE_CLASSES ! i * j < 4096"
  using object_end [OF assms(2)] class_bounds(1) [OF assms(1)] by simp

lemma slot_phys:
  assumes "n < max_frames" "x < 4096"
  shows "unat (frame_addr n + of_nat x) = 4096 * n + x"
  using assms unat_frame_addr [of n] by (simp add: unat_word_ariths unat_of_nat max_frames_def)

lemma unat_slot:
  assumes "n < max_frames" "i < NUM_SIZE_CLASSES" "j < nobj i"
  shows "unat (slot n i j) = 0xFFFF800000000000 + (4096 * n + SIZE_CLASSES ! i * j)"
proof -
  have e: "slot n i j = PHYSICAL_MEMORY_OFFSET + (frame_addr n + of_nat (SIZE_CLASSES ! i * j))" by (simp add: slot_def)
  have "unat (frame_addr n + of_nat (SIZE_CLASSES ! i * j)) = 4096 * n + SIZE_CLASSES ! i * j"
    by (rule slot_phys [OF assms(1) object_inside [OF assms(2,3)]])
  moreover have "4096 * n + SIZE_CLASSES ! i * j < 2 ^ 43" using object_inside [OF assms(2,3)] assms(1) by (simp add: max_frames_def)
  ultimately show ?thesis unfolding e by (simp add: unat_word_ariths PHYSICAL_MEMORY_OFFSET_def)
qed

lemma slot_eq:
  assumes "n < max_frames" "m < max_frames" "i < NUM_SIZE_CLASSES" "k < NUM_SIZE_CLASSES" "j < nobj i" "l < nobj k"
    and "slot n i j = slot m k l"
  shows "n = m" and "i = k \<Longrightarrow> j = l"
proof -
  have e: "4096 * n + SIZE_CLASSES ! i * j = 4096 * m + SIZE_CLASSES ! k * l"
    using assms(7) unat_slot [OF assms(1,3,5)] unat_slot [OF assms(2,4,6)] by simp
  then have "(4096 * n + SIZE_CLASSES ! i * j) div 4096 = (4096 * m + SIZE_CLASSES ! k * l) div 4096" by simp
  then show nm: "n = m" using object_inside [OF assms(3,5)] object_inside [OF assms(4,6)] by simp
  assume "i = k"
  then show "j = l" using e nm class_bounds(1) [OF assms(3)] by simp
qed

lemma slots_apart:
  assumes "n < max_frames" "m < max_frames" "i < NUM_SIZE_CLASSES" "k < NUM_SIZE_CLASSES" "n \<noteq> m"
  shows "slots n i \<inter> slots m k = {}"
  using slot_eq(1) assms by (auto simp: slots_def)

text \<open>An object determines the descriptor of its frame.\<close>

lemma slot_frame:
  assumes "n < max_frames" "i < NUM_SIZE_CLASSES" "p \<in> slots n i"
  shows "\<exists>phys. virt_to_phys p = Some phys \<and> frame_info_addr phys = fi_of n"
proof -
  obtain j where j: "j < nobj i" "p = slot n i j" using assms(3) by (auto simp: slots_def)
  let ?x = "frame_addr n + of_nat (SIZE_CLASSES ! i * j) :: 64 word"
  have u: "unat ?x = 4096 * n + SIZE_CLASSES ! i * j" by (rule slot_phys [OF assms(1) object_inside [OF assms(2) j(1)]])
  have "4096 * n + SIZE_CLASSES ! i * j < 2 ^ 42" using object_inside [OF assms(2) j(1)] assms(1) by (simp add: max_frames_def)
  then have "virt_to_phys p = Some ?x" using unat_slot [OF assms(1,2) j(1)] j(2)
    by (simp add: virt_to_phys_def word_le_nat_alt word_less_nat_alt PHYSICAL_MEMORY_OFFSET_def PHYSICAL_MEMORY_MAX_SIZE_def slot_def)
  moreover have "?x div FRAME_BYTES = of_nat n"
    using u object_inside [OF assms(2) j(1)] by (simp add: FRAME_BYTES_def word_arith_nat_div)
  then have "frame_info_addr ?x = fi_of n"
    by (simp add: frame_info_addr_def fi_of_def frame_addr_div [OF assms(1)])
  ultimately show ?thesis by blast
qed

lemma slot_aligned:
  assumes "n < max_frames" "i < NUM_SIZE_CLASSES" "p \<in> slots n i" "2 ^ a dvd SIZE_CLASSES ! i" "2 ^ a \<le> (1024::nat)"
  shows "2 ^ a dvd unat p"
proof -
  obtain j where j: "j < nobj i" "p = slot n i j" using assms(3) by (auto simp: slots_def)
  have a: "a \<le> 10" using assms(5) power_le_imp_le_exp [of "2::nat" a 10] by simp
  then have "2 ^ a dvd (2::nat) ^ 12" "2 ^ a dvd (2::nat) ^ 44" by (simp_all add: le_imp_power_dvd del: power_numeral)
  then have d: "2 ^ a dvd (4096::nat)" "2 ^ a dvd (17592186044416::nat)" by simp_all
  have "(0xFFFF800000000000::nat) = 17592186044416 * 0xFFFF8" by simp
  then have "2 ^ a dvd (0xFFFF800000000000::nat)" using d(2) by (metis dvd_mult2)
  then show ?thesis unfolding j(2) unat_slot [OF assms(1,2) j(1)] using d(1) assms(4) by (auto intro!: dvd_add)
qed

section \<open>Chains of free objects\<close>

fun chain :: "(64 word \<Rightarrow> 64 word) \<Rightarrow> 64 word \<Rightarrow> 64 word list \<Rightarrow> bool" where
  "chain c a [] \<longleftrightarrow> a = 0"
| "chain c a (p # ps) \<longleftrightarrow> a = p \<and> chain c (c p) ps"

lemma chain_cong: "(\<And>p. p \<in> set ps \<Longrightarrow> c' p = c p) \<Longrightarrow> chain c' a ps = chain c a ps"
  by (induction ps arbitrary: a) auto

lemma thread_chain:
  assumes "distinct (q # ps)" "thread_objects ps (Some q) (ls, c) = (ls', c')"
  shows "ls' = ls \<and> chain c' (c' q) ps \<and> (\<forall>a. a \<notin> set (q # ps) \<longrightarrow> c' a = c a)"
  using assms
proof (induction ps arbitrary: q c)
  case (Cons p ps)
  have d: "distinct (p # ps)" "q \<notin> set (p # ps)" using Cons.prems by auto
  have "thread_objects ps (Some p) (ls, c(q := p)) = (ls', c')" using Cons.prems by simp
  from Cons.IH [OF d(1) this] d(2) show ?case by auto
qed auto

lemma thread_start:
  assumes "distinct ps" "ps \<noteq> []" "thread_objects ps None (ls, c) = (ls', c')"
  shows "chain c' ls' ps" and "a \<notin> set ps \<Longrightarrow> c' a = c a"
proof -
  obtain q qs where q: "ps = q # qs" using assms(2) by (cases ps) auto
  then have "thread_objects qs (Some q) (q, c) = (ls', c')" using assms(3) by simp
  from thread_chain [OF _ this] assms(1) q show "chain c' ls' ps" "a \<notin> set ps \<Longrightarrow> c' a = c a" by auto
qed

section \<open>The invariant\<close>

type_synonym slab_map = "nat \<Rightarrow> (nat \<times> 64 word list) option"

definition slab_ok :: "slub_mem \<Rightarrow> nat \<Rightarrow> nat \<Rightarrow> 64 word list \<Rightarrow> bool" where
  "slab_ok st n i fs \<longleftrightarrow> i < NUM_SIZE_CLASSES \<and> n < max_frames \<and> fty (pages st) n = Some FSlab \<and>
     (\<exists>a. map_option meta (sl_get (fptr n) st) = Some (a, length fs, i) \<and> chain (cells st) a fs) \<and>
     distinct fs \<and> set fs \<subseteq> slots n i"

definition caches_ok :: "slub_mem \<Rightarrow> bool" where
  "caches_ok st \<longleftrightarrow> size_lookup st = size_table \<and> map params (slabs st) = map (\<lambda>sz. (sz, 0, 4096 div sz)) SIZE_CLASSES \<and>
     (\<forall>i<NUM_SIZE_CLASSES. \<exists>a k. map_option meta (sl_get (HeadPtr i) st) = Some (a, k, i))"

definition slub_core :: "slub_mem \<Rightarrow> (nat \<Rightarrow> nat list) \<Rightarrow> block set \<Rightarrow> slab_map \<Rightarrow> bool" where
  "slub_core st F A T \<longleftrightarrow> caches_ok st \<and> (\<forall>n i fs. T n = Some (i, fs) \<longrightarrow> slab_ok st n i fs \<and> (n, 0) \<in> A) \<and>
     (\<forall>n k. (n, k) \<in> A \<and> T n = None \<longrightarrow> fty (pages st) n = Some FBuddyAllocated) \<and> buddy_ok (pages st) F A"

definition slab_lists :: "slub_mem \<Rightarrow> (nat \<Rightarrow> nat list) \<Rightarrow> bool" where
  "slab_lists st L \<longleftrightarrow> (\<forall>i<NUM_SIZE_CLASSES. sl.holds st (HeadPtr i) (map fptr (L i)) \<and> (\<forall>n\<in>set (L i). n < max_frames)) \<and>
     (\<forall>i<NUM_SIZE_CLASSES. \<forall>j<NUM_SIZE_CLASSES. i \<noteq> j \<longrightarrow> set (L i) \<inter> set (L j) = {})"

definition matches :: "slab_map \<Rightarrow> (nat \<Rightarrow> nat list) \<Rightarrow> bool" where
  "matches T L \<longleftrightarrow> (\<forall>i<NUM_SIZE_CLASSES. \<forall>n. n \<in> set (L i) \<longleftrightarrow> (\<exists>fs. T n = Some (i, fs) \<and> fs \<noteq> []))"

text \<open>A slab that becomes entirely free is given back at once.\<close>

definition busy :: "slab_map \<Rightarrow> bool" where
  "busy T \<longleftrightarrow> (\<forall>n i fs. T n = Some (i, fs) \<longrightarrow> length fs < nobj i)"

definition slub_inv :: "slub_mem \<Rightarrow> (nat \<Rightarrow> nat list) \<Rightarrow> block set \<Rightarrow> slab_map \<Rightarrow> (nat \<Rightarrow> nat list) \<Rightarrow> bool" where
  "slub_inv st F A T L \<longleftrightarrow> slub_core st F A T \<and> slab_lists st L \<and> matches T L \<and> busy T"

text \<open>The live objects, with the size of their class.\<close>

definition live_in :: "nat \<Rightarrow> (nat \<times> 64 word list) option \<Rightarrow> (64 word \<times> nat) set" where
  "live_in n r = (case r of None \<Rightarrow> {} | Some (i, fs) \<Rightarrow> (\<lambda>p. (p, SIZE_CLASSES ! i)) ` (slots n i - set fs))"

definition live :: "slab_map \<Rightarrow> (64 word \<times> nat) set" where
  "live T = (\<Union>n. live_in n (T n))"

lemma live_iff: "(p, a) \<in> live T \<longleftrightarrow> (\<exists>n i fs. T n = Some (i, fs) \<and> p \<in> slots n i - set fs \<and> a = SIZE_CLASSES ! i)"
proof -
  have "(p, a) \<in> live_in n r \<longleftrightarrow> (\<exists>i fs. r = Some (i, fs) \<and> p \<in> slots n i - set fs \<and> a = SIZE_CLASSES ! i)" for n r
    by (cases r) (auto simp: live_in_def)
  then show ?thesis by (simp add: live_def)
qed

lemma live_split: "live T = live_in n (T n) \<union> (\<Union>m\<in>- {n}. live_in m (T m))"
  unfolding live_def by blast

lemma live_fun_upd: "live (T(n := r)) = live_in n r \<union> (\<Union>m\<in>- {n}. live_in m (T m))"
  by (subst live_split [of _ n]) auto

lemma live_apart:
  assumes "slub_core st F A T" "(p, a) \<in> live T" "(q, b) \<in> live T" "p \<noteq> q"
  shows "{unat p..<unat p + a} \<inter> {unat q..<unat q + b} = {}"
proof -
  obtain n i fs j where n: "T n = Some (i, fs)" "p = slot n i j" "j < nobj i" "a = SIZE_CLASSES ! i"
    using assms(2) by (auto simp: live_iff slots_def)
  obtain m k gs l where m: "T m = Some (k, gs)" "q = slot m k l" "l < nobj k" "b = SIZE_CLASSES ! k"
    using assms(3) by (auto simp: live_iff slots_def)
  have ok: "n < max_frames" "i < NUM_SIZE_CLASSES" "m < max_frames" "k < NUM_SIZE_CLASSES"
    using assms(1) n(1) m(1) by (auto simp: slub_core_def slab_ok_def)
  note un = unat_slot [OF ok(1,2) n(3)] and um = unat_slot [OF ok(3,4) m(3)]
  show ?thesis
  proof (cases "n = m")
    case True
    then have ik: "k = i" using n(1) m(1) by simp
    then have "j \<noteq> l" using n m True assms(4) by auto
    then consider "Suc j \<le> l" | "Suc l \<le> j" by linarith
    then show ?thesis
    proof cases
      case 1
      then have "a * Suc j \<le> a * l" by (intro mult_le_mono2)
      then show ?thesis using n m ik True un um by auto
    next
      case 2
      then have "a * Suc l \<le> a * j" by (intro mult_le_mono2)
      then show ?thesis using n m ik True un um by auto
    qed
  next
    case False
    then consider "Suc n \<le> m" | "Suc m \<le> n" by linarith
    then show ?thesis using object_end [OF n(3)] object_end [OF m(3)] n m un um by cases auto
  qed
qed

section \<open>Changes to pages\<close>

lemma free_lists_agree:
  assumes "free_lists s F" "\<And>k p. k \<le> MAX_ORDER \<Longrightarrow> p \<in> set (HeadPtr k # map fptr (F k)) \<Longrightarrow> bl_get p s' = bl_get p s"
  shows "free_lists s' F"
  unfolding free_lists_def
proof (intro allI impI conjI ballI)
  fix k assume k: "k \<le> MAX_ORDER"
  note eq = assms(2) [OF k] and D = free_listsD [OF assms(1) k]
  have n: "bl_next s' x = bl_next s x \<and> bl_prev s' x = bl_prev s x \<and> bl_node s' x = bl_node s x \<and> bl_order s' x = bl_order s x"
    if "x \<in> set (HeadPtr k # map fptr (F k))" for x using eq [OF that] by (simp add: bl_fields)
  have "ring (bl_next s') (bl_prev s') (HeadPtr k) (map fptr (F k))"
    using D(1) n by (subst ring_cong [where nx = "bl_next s" and pv = "bl_prev s"]) (auto simp: bl.holds_def)
  then show "bl.holds s' (HeadPtr k) (map fptr (F k))" using D(1) n by (auto simp: bl.holds_def)
  show "bl_order s' (HeadPtr k) = k" using D(2) n by simp
  fix m assume m: "m \<in> set (F k)"
  show "m < max_frames" "bl_order s' (fptr m) = k" using D(3,4) [OF m] n m by auto
qed

text \<open>The descriptors of allocated blocks may be written if the blocks are marked as slabs afterwards.\<close>

lemma buddy_ok_change:
  assumes ok: "buddy_ok s F A" and g: "\<And>p. p \<notin> fptr ` N \<Longrightarrow> bl_get p s' = bl_get p s"
    and t: "\<And>n. n \<notin> N \<Longrightarrow> fty s' n = fty s n" and N: "\<And>n. n \<in> N \<Longrightarrow> n \<in> fst ` A \<and> fty s' n = Some FSlab"
  shows "buddy_ok s' F A"
proof -
  have c: "buddy_core (\<lambda>n. None) s F A {}" and ty: "typed (fty s) (fblocks F) A {}" and la: "layout (fblocks F \<union> A) {}"
    using ok by (auto simp: buddy_ok_def buddy_held_def buddy_state_def buddy_core_def)
  have fl: "free_lists s F" using c by (simp add: buddy_core_def)
  have Nm: "n < max_frames" "fty s n \<noteq> None" if "n \<in> N" for n
    using fty_less [of s' n] N [OF that] ty by (auto simp: typed_def)
  have "free_lists s' F"
  proof (rule free_lists_agree [OF fl])
    fix k p assume k: "k \<le> MAX_ORDER" and p: "p \<in> set (HeadPtr k # map fptr (F k))"
    have "p \<notin> fptr ` N"
    proof
      assume "p \<in> fptr ` N"
      then obtain n where n: "n \<in> N" "p = fptr n" by blast
      then obtain m where m: "m \<in> set (F k)" "fptr n = fptr m" using p by auto
      then have "n = m" using Nm(1) [OF n(1)] free_listsD(3) [OF fl k m(1)] by simp
      then show False using core_apart(2) [OF c _ k] N [OF n(1)] m(1) by blast
    qed
    then show "bl_get p s' = bl_get p s" by (rule g)
  qed
  moreover have "chunked (fty s')"
  proof -
    have "fty s' n = None \<longleftrightarrow> fty s n = None" for n using N [of n] Nm(2) [of n] t [of n] by (cases "n \<in> N") auto
    then show ?thesis using c unfolding buddy_core_def chunked_def by metis
  qed
  moreover have "orders s' A"
  proof -
    have "bl_node s' (fptr n) \<and> bl_order s' (fptr n) = k" if "(n, k) \<in> A" "fty s' n = Some FBuddyAllocated" for n k
    proof -
      have n: "n \<notin> N" using N [of n] that(2) by auto
      then have "fptr n \<notin> fptr ` N" using Nm(1) fty_less [of s' n] that(2) by auto
      then show ?thesis using c that t [OF n] g by (auto simp: buddy_core_def orders_def bl_fields)
    qed
    then show ?thesis by (auto simp: orders_def)
  qed
  moreover have "typed (fty s') (fblocks F) A {}"
  proof -
    have h: "n \<notin> N" if "(n, k) \<in> fblocks F" for n k
      using core_apart(2) [OF c, of n k] N [of n] that by (auto simp: fblocks_def)
    have i: "m \<notin> N" if "b \<in> fblocks F \<union> A" "m \<in> blk b" "m \<noteq> fst b" for m b
    proof
      assume "m \<in> N"
      then obtain k where "(m, k) \<in> A" using N by force
      then have "(m, k) = b" using layout_first [OF la _ that(1), of "(m, k)"] that(2) by auto
      then show False using that(3) by auto
    qed
    show ?thesis unfolding typed_def
    proof (intro conjI ballI allI impI)
      fix b assume b: "b \<in> fblocks F"
      then show "fty s' (fst b) = Some FBuddy" using ty t h [of "fst b" "snd b"] by (simp add: typed_def)
    next
      fix b assume "b \<in> A"
      then show "fty s' (fst b) = Some FBuddyAllocated \<or> fty s' (fst b) = Some FSlab"
        using ty t N by (cases "fst b \<in> N") (auto simp: typed_def)
    next
      fix b m assume "b \<in> fblocks F \<union> A" "m \<in> blk b" "m \<noteq> fst b"
      then show "fty s' m = Some FBuddyTail" using ty t i by (simp add: typed_def)
    next
      fix m assume m: "m < max_frames" "m \<notin> frames (fblocks F \<union> A) \<and> m \<notin> {} \<and> fty s' m \<noteq> None"
      have "m \<notin> N"
      proof
        assume "m \<in> N"
        then obtain k where "(m, k) \<in> A" using N by force
        then show False using m first_in_blk [of m k] unfolding frames_def by blast
      qed
      then show "fty s' m = Some FReserved" using m ty t by (simp add: typed_def)
    qed
  qed
  ultimately show ?thesis using c by (simp add: buddy_ok_def buddy_held_def buddy_state_def buddy_core_def held_def)
qed

lemma same_rest_pages:
  assumes "same_rest st st'"
  shows "fty (pages st') = fty (pages st)" "buddy_ok (pages st) F A \<Longrightarrow> buddy_ok (pages st') F A"
proof -
  show t: "fty (pages st') = fty (pages st)" using assms by (intro fty_same) (simp add: same_rest_def)
  show "buddy_ok (pages st) F A \<Longrightarrow> buddy_ok (pages st') F A"
    by (rule buddy_ok_change [of "pages st" F A "{}"]) (use assms t in \<open>auto simp: same_rest_def\<close>)
qed

section \<open>Steps on lists\<close>

lemma lists_cong:
  assumes "sl_next st' = sl_next st" "sl_prev st' = sl_prev st" "sl_node st' = sl_node st"
  shows "slab_lists st' L \<longleftrightarrow> slab_lists st L"
  using assms by (simp add: slab_lists_def sl.holds_def)

lemma lists_agree:
  assumes "slab_lists st L" "\<And>i p. i < NUM_SIZE_CLASSES \<Longrightarrow> p \<in> set (HeadPtr i # map fptr (L i)) \<Longrightarrow> sl_get p st' = sl_get p st"
  shows "slab_lists st' L"
proof -
  have "sl.holds st' (HeadPtr i) (map fptr (L i))" if i: "i < NUM_SIZE_CLASSES" for i
  proof -
    have n: "sl_next st' x = sl_next st x \<and> sl_prev st' x = sl_prev st x \<and> sl_node st' x = sl_node st x"
      if "x \<in> set (HeadPtr i # map fptr (L i))" for x using assms(2) [OF i that] by (simp add: sl_fields)
    have h: "sl.holds st (HeadPtr i) (map fptr (L i))" using assms(1) i by (simp add: slab_lists_def)
    then have "ring (sl_next st') (sl_prev st') (HeadPtr i) (map fptr (L i))"
      using n by (subst ring_cong [where nx = "sl_next st" and pv = "sl_prev st"]) (auto simp: sl.holds_def)
    then show ?thesis using h n by (auto simp: sl.holds_def)
  qed
  then show ?thesis using assms(1) by (simp add: slab_lists_def)
qed

lemma lists_apart:
  assumes "slab_lists st L" "i < NUM_SIZE_CLASSES" "j < NUM_SIZE_CLASSES" "i \<noteq> j"
  shows "set (HeadPtr i # map fptr (L i)) \<inter> set (HeadPtr j # map fptr (L j)) = {}"
proof -
  have "fptr n \<noteq> fptr m" if "n \<in> set (L i)" "m \<in> set (L j)" for n m
    using assms that unfolding slab_lists_def by (metis disjoint_iff fptr_inj)
  then show ?thesis using assms(4) by auto
qed

lemma lists_insert:
  assumes L: "slab_lists st L" and i: "i < NUM_SIZE_CLASSES" and n: "n < max_frames" "sl_node st (fptr n)"
    and new: "\<And>j. j < NUM_SIZE_CLASSES \<Longrightarrow> n \<notin> set (L j)"
  obtains st' where "sl_insert (HeadPtr i) (fptr n) st = Some st'" "slab_lists st' (L(i := L i @ [n]))" "same_rest st st'"
    "\<And>q. map_option meta (sl_get q st') = map_option meta (sl_get q st)"
proof -
  have h: "sl.holds st (HeadPtr j) (map fptr (L j))" if "j < NUM_SIZE_CLASSES" for j using L that by (simp add: slab_lists_def)
  have fresh: "fptr n \<notin> set (HeadPtr j # map fptr (L j))" if "j < NUM_SIZE_CLASSES" for j
    using new [OF that] n L that by (auto simp: slab_lists_def)
  obtain st' where st': "sl_insert (HeadPtr i) (fptr n) st = Some st'" "sl.holds st' (HeadPtr i) (map fptr (L i) @ [fptr n])"
    and rest: "\<And>g ys. sl.holds st g ys \<Longrightarrow> set (g # ys) \<inter> set (fptr n # HeadPtr i # map fptr (L i)) = {} \<Longrightarrow> sl.holds st' g ys"
    by (rule sl.put_last_holds [OF h [OF i] fresh [OF i] n(2)]) blast
  have pre: "sl_node st (HeadPtr i)" "sl_node st (sl_prev st (HeadPtr i))" "fptr n \<noteq> sl_prev st (HeadPtr i)"
    using h [OF i] fresh [OF i] ring_prev_in [of "sl_next st" "sl_prev st" "HeadPtr i" "map fptr (L i)"]
    by (auto simp: sl.holds_def)
  have eff: "same_rest st st'" "\<forall>q. map_option meta (sl_get q st') = map_option meta (sl_get q st)"
    using sl_insert_effect [OF pre(1,2) n(2) _ pre(3)] st'(1) by auto
  have "sl.holds st' (HeadPtr j) (map fptr ((L(i := L i @ [n])) j))" if j: "j < NUM_SIZE_CLASSES" for j
  proof (cases "j = i")
    case False
    have "set (HeadPtr j # map fptr (L j)) \<inter> set (fptr n # HeadPtr i # map fptr (L i)) = {}"
      using lists_apart [OF L j i False] fresh [OF j] by auto
    then show ?thesis using rest [OF h [OF j]] False by simp
  qed (use st'(2) in simp)
  then have "slab_lists st' (L(i := L i @ [n]))" using L n new by (auto simp: slab_lists_def)
  then show thesis using that st' eff by blast
qed

lemma ring_other: "ring nx pv h (xs @ x # ys) \<Longrightarrow> pv x \<noteq> x \<and> nx x \<noteq> x"
  using ring_adjacent [of nx pv h xs x ys] by (auto simp: ring_def)

lemma lists_unlink:
  assumes L: "slab_lists st L" and i: "i < NUM_SIZE_CLASSES" and n: "n \<in> set (L i)"
  obtains st' where "sl_unlink (fptr n) st = Some st'" "slab_lists st' (L(i := remove1 n (L i)))" "same_rest st st'"
    "\<And>q. map_option meta (sl_get q st') = map_option meta (sl_get q st)"
proof -
  have h: "sl.holds st (HeadPtr j) (map fptr (L j))" if "j < NUM_SIZE_CLASSES" for j using L that by (simp add: slab_lists_def)
  obtain xs ys where x: "L i = xs @ n # ys" "n \<notin> set xs" using n by (meson split_list_first)
  then have r: "remove1 n (L i) = xs @ ys" by (simp add: remove1_append)
  have hi: "sl.holds st (HeadPtr i) (map fptr xs @ fptr n # map fptr ys)" using h [OF i] x by simp
  obtain st' where st': "sl_unlink (fptr n) st = Some st'" "sl.holds st' (HeadPtr i) (map fptr xs @ map fptr ys)"
    and rest: "\<And>g zs. sl.holds st g zs \<Longrightarrow> set (g # zs) \<inter> set (HeadPtr i # map fptr xs @ fptr n # map fptr ys) = {} \<Longrightarrow> sl.holds st' g zs"
    by (rule sl.take_out_holds [OF hi]) blast
  have rg: "ring (sl_next st) (sl_prev st) (HeadPtr i) (map fptr xs @ fptr n # map fptr ys)"
    and nd: "\<forall>y\<in>set (HeadPtr i # map fptr xs @ fptr n # map fptr ys). sl_node st y" using hi by (auto simp: sl.holds_def)
  note ad = ring_adjacent [OF rg]
  have "sl_node st (fptr n)" "sl_node st (sl_prev st (fptr n))" "sl_node st (sl_next st (fptr n))"
    "sl_prev st (fptr n) \<noteq> fptr n" "sl_next st (fptr n) \<noteq> fptr n" using nd ad ring_other [OF rg] by auto
  from sl_unlink_effect [OF this] st'(1)
  have eff: "same_rest st st'" "\<forall>q. map_option meta (sl_get q st') = map_option meta (sl_get q st)" by auto
  have "sl.holds st' (HeadPtr j) (map fptr ((L(i := xs @ ys)) j))" if j: "j < NUM_SIZE_CLASSES" for j
  proof (cases "j = i")
    case False
    have "set (HeadPtr j # map fptr (L j)) \<inter> set (HeadPtr i # map fptr xs @ fptr n # map fptr ys) = {}"
      using lists_apart [OF L j i False] x by auto
    then show ?thesis using rest [OF h [OF j]] False by simp
  qed (use st'(2) in simp)
  moreover have "set ((L(i := xs @ ys)) j) \<subseteq> set (L j)" for j using x by auto
  ultimately have "slab_lists st' (L(i := remove1 n (L i)))" unfolding r using L unfolding slab_lists_def by blast
  then show thesis using that st' eff by blast
qed

end
