(* ===== verification/Slub_Laws.thy ===== *)
theory Slub_Laws
  imports Slub_Spec
begin

text \<open>
  The operations of the slab allocator preserve its invariant and change the set of live objects as they should:
  an allocation adds one object that was not live, large and aligned enough, a release removes one.
\<close>

section \<open>Steps\<close>

lemma slab_ok_agree:
  assumes "slab_ok st n i fs" "fty (pages st') n = fty (pages st) n"
    and "map_option meta (sl_get (fptr n) st') = map_option meta (sl_get (fptr n) st)" and "\<And>p. p \<in> slots n i \<Longrightarrow> cells st' p = cells st p"
  shows "slab_ok st' n i fs"
proof -
  have "chain (cells st') a fs = chain (cells st) a fs" for a
    using assms(1,4) by (intro chain_cong) (auto simp: slab_ok_def)
  then show ?thesis using assms by (simp add: slab_ok_def)
qed

lemma core_same:
  assumes c: "slub_core st F A T" and r: "same_rest st st'" and m: "\<And>q. map_option meta (sl_get q st') = map_option meta (sl_get q st)"
  shows "slub_core st' F A T"
proof -
  note t = same_rest_pages [OF r]
  have e: "cells st' = cells st" "size_lookup st' = size_lookup st" "map params (slabs st') = map params (slabs st)"
    using r by (simp_all add: same_rest_def)
  have "slab_ok st' n i fs \<longleftrightarrow> slab_ok st n i fs" for n i fs by (simp add: slab_ok_def t(1) e(1) m)
  moreover have "caches_ok st' \<longleftrightarrow> caches_ok st" by (simp only: caches_ok_def e m)
  ultimately show ?thesis using c t(2) by (simp add: slub_core_def t(1))
qed

text \<open>A slab is added or changed; nothing else is.\<close>

lemma core_update:
  assumes c: "slub_core st F A T" and pr: "size_lookup st' = size_lookup st" "map params (slabs st') = map params (slabs st)"
    and b: "buddy_ok (pages st') F' (insert (n, 0) A)" and t: "\<And>m. m \<in> fst ` A \<Longrightarrow> m \<noteq> n \<Longrightarrow> fty (pages st') m = fty (pages st) m"
    and h: "\<And>k. k < NUM_SIZE_CLASSES \<Longrightarrow> map_option meta (sl_get (HeadPtr k) st') = map_option meta (sl_get (HeadPtr k) st)"
    and g: "\<And>m. T m \<noteq> None \<Longrightarrow> m \<noteq> n \<Longrightarrow> map_option meta (sl_get (fptr m) st') = map_option meta (sl_get (fptr m) st)"
    and n: "slab_ok st' n i fs" and w: "\<And>p. p \<notin> slots n i \<Longrightarrow> cells st' p = cells st p"
  shows "slub_core st' F' (insert (n, 0) A) (T(n \<mapsto> (i, fs)))"
proof -
  have ok: "slab_ok st' m k gs \<and> (m, 0) \<in> insert (n, 0) A" if m: "(T(n \<mapsto> (i, fs))) m = Some (k, gs)" for m k gs
  proof (cases "m = n")
    case False
    then have "T m = Some (k, gs)" using m by simp
    then have o: "slab_ok st m k gs" "(m, 0) \<in> A" using c by (auto simp: slub_core_def)
    have "slots m k \<inter> slots n i = {}" using o(1) n False by (intro slots_apart) (auto simp: slab_ok_def)
    then have "slab_ok st' m k gs" using o t [of m] False g [of m] w \<open>T m = Some (k, gs)\<close>
      by (intro slab_ok_agree [OF o(1)]) force+
    then show ?thesis using o(2) by blast
  qed (use m n in simp)
  moreover have "fty (pages st') m = Some FBuddyAllocated" if "(m, k) \<in> insert (n, 0) A" "(T(n \<mapsto> (i, fs))) m = None" for m k
  proof -
    have "m \<noteq> n" "(m, k) \<in> A" "T m = None" using that by (auto split: if_splits)
    moreover have "fty (pages st') m = fty (pages st) m" using t calculation(1,2) by force
    ultimately show ?thesis using c by (auto simp: slub_core_def)
  qed
  moreover have "caches_ok st'" using c pr h by (simp add: slub_core_def caches_ok_def)
  ultimately show ?thesis using b unfolding slub_core_def by blast
qed

lemma params_nth:
  assumes "caches_ok st" "i < NUM_SIZE_CLASSES"
  shows "i < length (slabs st)" "object_size (slabs st ! i) = SIZE_CLASSES ! i" "slab_order (slabs st ! i) = 0"
    "max_free_count (slabs st ! i) = nobj i"
proof -
  have m: "map params (slabs st) = map (\<lambda>sz. (sz, 0, 4096 div sz)) SIZE_CLASSES" using assms(1) by (simp add: caches_ok_def)
  have "length (slabs st) = length SIZE_CLASSES" using arg_cong [OF m, of length] by simp
  then show i: "i < length (slabs st)" using assms(2) by (simp add: SIZE_CLASSES_def NUM_SIZE_CLASSES_def)
  have "i < length SIZE_CLASSES" using i \<open>length (slabs st) = length SIZE_CLASSES\<close> by simp
  then have "params (slabs st ! i) = (SIZE_CLASSES ! i, 0, 4096 div SIZE_CLASSES ! i)"
    using arg_cong [OF m, of "\<lambda>xs. xs ! i"] i by simp
  then show "object_size (slabs st ! i) = SIZE_CLASSES ! i" "slab_order (slabs st ! i) = 0" "max_free_count (slabs st ! i) = nobj i"
    by (auto simp: params_def nobj_def)
qed

text \<open>The first free object of a slab is taken.\<close>

lemma slab_take:
  assumes c: "slub_core st F A T" and L: "slab_lists st L" and T: "T n = Some (i, p # fs)"
  obtains b st1 st2 where "sl_get (fptr n) st = Some b" "free_list b = p" "free_count b = Suc (length fs)"
    "sl_modify (fptr n) (\<lambda>b. b\<lparr>free_list := cells st p\<rparr>) st = Some st1"
    "sl_modify (fptr n) (\<lambda>b. b\<lparr>free_count := free_count b - 1\<rparr>) st1 = Some st2"
    "map_option free_count (sl_get (fptr n) st2) = Some (length fs)"
    "slub_core st2 F A (T(n \<mapsto> (i, fs)))" "slab_lists st2 L"
proof -
  have ok: "slab_ok st n i (p # fs)" and a: "(n, 0) \<in> A" using c T by (auto simp: slub_core_def)
  obtain b where b: "sl_get (fptr n) st = Some b" "free_list b = p" "free_count b = Suc (length fs)" "cache_index b = i"
    "chain (cells st) (cells st p) fs" using ok by (auto simp: slab_ok_def meta_def)
  define st1 where "st1 = sl_upd (fptr n) (b\<lparr>free_list := cells st p\<rparr>) st"
  have b1: "sl_get (fptr n) st1 = Some (b\<lparr>free_list := cells st p\<rparr>)" unfolding st1_def by (simp add: sl_get_upd [OF b(1)])
  define b2 where "b2 = b\<lparr>free_list := cells st p, free_count := length fs\<rparr>"
  define st2 where "st2 = sl_upd (fptr n) b2 st1"
  have m1: "sl_modify (fptr n) (\<lambda>b. b\<lparr>free_list := cells st p\<rparr>) st = Some st1" by (simp add: sl_modify_eq [OF b(1)] st1_def)
  have m2: "sl_modify (fptr n) (\<lambda>b. b\<lparr>free_count := free_count b - 1\<rparr>) st1 = Some st2"
    by (simp add: sl_modify_eq [OF b1] st2_def b2_def b)
  have g: "sl_get q st2 = (if q = fptr n then Some b2 else sl_get q st)" for q
  proof -
    have "sl_get q st1 = (if q = fptr n then Some (b\<lparr>free_list := cells st p\<rparr>) else sl_get q st)"
      unfolding st1_def by (rule sl_get_upd [OF b(1)])
    then show ?thesis unfolding st2_def sl_get_upd [OF b1] by simp
  qed
  have r: "same_rest st st2" using same_rest_upd [OF b(1)] same_rest_upd [OF b1] unfolding st2_def st1_def by (meson same_rest_trans)
  have ok2: "slab_ok st2 n i fs"
    using ok b r same_rest_pages(1) [OF r] by (auto simp: slab_ok_def g meta_def b2_def same_rest_def)
  have mn: "m < max_frames" if "T m \<noteq> None" for m using c that by (auto simp: slub_core_def slab_ok_def)
  have other: "fptr m \<noteq> fptr n" if "T m \<noteq> None" "m \<noteq> n" for m using mn that T by auto
  have "insert (n, 0) A = A" using a by blast
  moreover have "slub_core st2 F (insert (n, 0) A) (T(n \<mapsto> (i, fs)))"
  proof (rule core_update [OF c _ _ _ _ _ _ ok2])
    show "buddy_ok (pages st2) F (insert (n, 0) A)"
      using c same_rest_pages(2) [OF r] \<open>insert (n, 0) A = A\<close> by (simp add: slub_core_def)
  qed (use r same_rest_pages(1) [OF r] other in \<open>auto simp: same_rest_def g\<close>)
  moreover have "slab_lists st2 L"
  proof -
    have "sl_next st2 = sl_next st" "sl_prev st2 = sl_prev st" "sl_node st2 = sl_node st"
      using b by (auto simp: fun_eq_iff sl_fields g b2_def)
    then show ?thesis using L lists_cong by blast
  qed
  ultimately show thesis using that [OF b(1-3) m1 m2] by (simp add: g b2_def)
qed

text \<open>An object is given back to its slab.\<close>

lemma slab_give:
  assumes c: "slub_core st F A T" and L: "slab_lists st L" and T: "T n = Some (i, fs)" and p: "p \<in> slots n i" "p \<notin> set fs"
  obtains b st1 st2 where "sl_get (fptr n) st = Some b" "cache_index b = i"
    "sl_modify (fptr n) (\<lambda>b. b\<lparr>free_list := p\<rparr>) (st\<lparr>cells := (cells st)(p := free_list b)\<rparr>) = Some st1"
    "sl_modify (fptr n) (\<lambda>b. b\<lparr>free_count := free_count b + 1\<rparr>) st1 = Some st2"
    "map_option meta (sl_get (fptr n) st2) = Some (p, Suc (length fs), i)"
    "slub_core st2 F A (T(n \<mapsto> (i, p # fs)))" "slab_lists st2 L"
proof -
  have ok: "slab_ok st n i fs" and a: "(n, 0) \<in> A" using c T by (auto simp: slub_core_def)
  obtain b where b: "sl_get (fptr n) st = Some b" "free_count b = length fs" "cache_index b = i"
    "chain (cells st) (free_list b) fs" using ok by (auto simp: slab_ok_def meta_def)
  define st0 where "st0 = st\<lparr>cells := (cells st)(p := free_list b)\<rparr>"
  have g0: "sl_get q st0 = sl_get q st" for q by (simp add: st0_def sl_get_def split: list_ptr.splits)
  have b0: "sl_get (fptr n) st0 = Some b" by (simp add: g0 b)
  define st1 where "st1 = sl_upd (fptr n) (b\<lparr>free_list := p\<rparr>) st0"
  have b1: "sl_get (fptr n) st1 = Some (b\<lparr>free_list := p\<rparr>)" unfolding st1_def by (simp add: sl_get_upd [OF b0])
  define b2 where "b2 = b\<lparr>free_list := p, free_count := Suc (length fs)\<rparr>"
  define st2 where "st2 = sl_upd (fptr n) b2 st1"
  have m1: "sl_modify (fptr n) (\<lambda>b. b\<lparr>free_list := p\<rparr>) st0 = Some st1" by (simp add: sl_modify_eq [OF b0] st1_def)
  have m2: "sl_modify (fptr n) (\<lambda>b. b\<lparr>free_count := free_count b + 1\<rparr>) st1 = Some st2"
    by (simp add: sl_modify_eq [OF b1] st2_def b2_def b)
  have g: "sl_get q st2 = (if q = fptr n then Some b2 else sl_get q st)" for q
  proof -
    have "sl_get q st1 = (if q = fptr n then Some (b\<lparr>free_list := p\<rparr>) else sl_get q st)"
      unfolding st1_def sl_get_upd [OF b0] by (simp add: g0)
    then show ?thesis unfolding st2_def sl_get_upd [OF b1] by simp
  qed
  have r: "same_rest st0 st2" using same_rest_upd [OF b0] same_rest_upd [OF b1] unfolding st2_def st1_def by (meson same_rest_trans)
  have pg: "pages st0 = pages st" "slabs st0 = slabs st" "size_lookup st0 = size_lookup st" by (simp_all add: st0_def)
  have cl: "cells st2 = (cells st)(p := free_list b)" using r by (simp add: same_rest_def st0_def)
  have "chain ((cells st)(p := free_list b)) (free_list b) fs"
    using b(4) p(2) by (subst chain_cong [where c = "cells st"]) auto
  then have ok2: "slab_ok st2 n i (p # fs)"
    using ok b r p same_rest_pages(1) [OF r] by (auto simp: slab_ok_def g meta_def b2_def cl pg)
  have mn: "m < max_frames" if "T m \<noteq> None" for m using c that by (auto simp: slub_core_def slab_ok_def)
  have other: "fptr m \<noteq> fptr n" if "T m \<noteq> None" "m \<noteq> n" for m using mn that T by auto
  have "insert (n, 0) A = A" using a by blast
  have w: "cells st2 q = cells st q" if "q \<notin> slots n i" for q using that p cl by auto
  have "slub_core st2 F (insert (n, 0) A) (T(n \<mapsto> (i, p # fs)))"
  proof (rule core_update [OF c _ _ _ _ _ _ ok2 w])
    show "buddy_ok (pages st2) F (insert (n, 0) A)"
      using c same_rest_pages(2) [OF r] \<open>insert (n, 0) A = A\<close> by (simp add: slub_core_def pg)
  qed (use r p same_rest_pages(1) [OF r] other in \<open>auto simp: same_rest_def g cl pg\<close>)
  moreover have "slab_lists st2 L"
  proof -
    have "sl_next st2 = sl_next st" "sl_prev st2 = sl_prev st" "sl_node st2 = sl_node st"
      using b by (auto simp: fun_eq_iff sl_fields g b2_def)
    then show ?thesis using L lists_cong by blast
  qed
  ultimately show thesis using that [OF b(1,3) m1 [unfolded st0_def] m2] b(3) \<open>insert (n, 0) A = A\<close>
    by (simp add: g b2_def meta_def)
qed

section \<open>A slab with free objects\<close>

lemma slub_set_ty_eff:
  assumes "fis (pages st) fi \<noteq> None"
  obtains st' where "slub_set_ty fi t st = Some st'" "\<And>q. sl_get q st' = sl_get q st" "cells st' = cells st"
    "size_lookup st' = size_lookup st" "slabs st' = slabs st" "\<And>p. bl_get p (pages st') = bl_get p (pages st)"
    "\<And>gi. frame_ty gi (fis (pages st')) = (if gi = fi then Some t else frame_ty gi (fis (pages st)))"
proof -
  obtain d where d: "fis (pages st) fi = Some d" using assms by blast
  let ?m = "(pages st)\<lparr>fis := (fis (pages st))(fi \<mapsto> d\<lparr>fflags := set_ty_flags t (fflags d)\<rparr>)\<rparr>"
  have e: "mem_set_ty fi t (pages st) = Some ?m" by (simp add: mem_set_ty_def set_ty_Some [of "fis (pages st)", OF d])
  show thesis
  proof (rule that [of "st\<lparr>pages := ?m\<rparr>"])
    show "slub_set_ty fi t st = Some (st\<lparr>pages := ?m\<rparr>)" by (simp add: slub_set_ty_def e)
  qed (use d in \<open>auto simp: sl_get_def bl_get_def split: list_ptr.splits\<close>)
qed

definition new_objects :: "nat \<Rightarrow> nat \<Rightarrow> 64 word list" where
  "new_objects n i = map (slot n i) [0..<nobj i]"

lemma new_objects:
  assumes "n < max_frames" "i < NUM_SIZE_CLASSES"
  shows "set (new_objects n i) = slots n i" "distinct (new_objects n i)" "length (new_objects n i) = nobj i" "new_objects n i \<noteq> []"
proof -
  show "set (new_objects n i) = slots n i" by (auto simp: new_objects_def slots_def)
  show "distinct (new_objects n i)"
    using slot_eq(2) [OF assms(1,1) assms(2,2)] by (auto simp: new_objects_def distinct_map inj_on_def)
  show "length (new_objects n i) = nobj i" "new_objects n i \<noteq> []" using class_bounds(3) [OF assms(2)] by (auto simp: new_objects_def)
qed

lemma init_slab_eff:
  assumes c: "caches_ok st" and i: "i < NUM_SIZE_CLASSES" and n: "n < max_frames" and m: "fis (pages st) (fi_of n) \<noteq> None"
  obtains st' b where "init_slab i (frame_addr n) st = Some st'" "size_lookup st' = size_lookup st" "slabs st' = slabs st"
    "\<And>q. sl_get q st' = (if q = fptr n then Some b else sl_get q st)" "free_count b = nobj i" "cache_index b = i"
    "chain (cells st') (free_list b) (new_objects n i)" "\<And>p. p \<notin> slots n i \<Longrightarrow> cells st' p = cells st p"
    "same_frames (pages st) (pages st')" "\<And>p. p \<noteq> fptr n \<Longrightarrow> bl_get p (pages st') = bl_get p (pages st)"
proof -
  note no = new_objects [OF n i] and pn = params_nth [OF c i]
  obtain d where d: "fis (pages st) (fi_of n) = Some d" using m by blast
  obtain ls c' where t: "thread_objects (new_objects n i) None (0, cells st) = (ls, c')" by (cases "thread_objects (new_objects n i) None (0, cells st)")
  note ch = thread_start [OF no(2,4) t]
  have ix: "cache_index (clist (slabs st ! i)) = i" using c i pn(1) by (auto simp: caches_ok_def sl_get_def meta_def)
  have "frame_addr n < PHYSICAL_MEMORY_MAX_SIZE"
    using unat_frame_addr [of n] n by (simp add: word_less_nat_alt PHYSICAL_MEMORY_MAX_SIZE_def max_frames_def)
  then have v: "phys_to_virt (frame_addr n) = Some (PHYSICAL_MEMORY_OFFSET + frame_addr n)" by (simp add: phys_to_virt_def)
  have ob: "map (\<lambda>j. PHYSICAL_MEMORY_OFFSET + frame_addr n + of_nat (SIZE_CLASSES ! i * j)) [0..<nobj i] = new_objects n i"
    by (simp add: new_objects_def slot_def [abs_def])
  define b where "b = \<lparr>snext = NullPtr, sprev = NullPtr, free_list = ls, free_count = nobj i, cache_index = i\<rparr>"
  define st' where "st' = st\<lparr>cells := c', pages := (pages st)\<lparr>fis := (fis (pages st))(fi_of n \<mapsto> d\<lparr>fdata := SlabData b\<rparr>)\<rparr>\<rparr>"
  have "init_slab i (frame_addr n) st = Some st'"
    unfolding init_slab_def Let_def pn v ix fi_of_def [symmetric] Option.bind.bind_lunit ob t
    by (simp add: sl_put_def d b_def st'_def)
  moreover have "sl_get q st' = (if q = fptr n then Some b else sl_get q st)" for q
    using d by (auto simp: st'_def sl_get_def fptr_def split: list_ptr.splits)
  moreover have "same_frames (pages st) (pages st')" using d by (auto simp: st'_def same_frames_def)
  moreover have "bl_get p (pages st') = bl_get p (pages st)" if "p \<noteq> fptr n" for p
    using that by (auto simp: st'_def bl_get_def fptr_def split: list_ptr.splits)
  moreover have "cells st' = c'" by (simp add: st'_def)
  ultimately show thesis using that [of st' b] ch no(1) by (simp add: b_def) (simp add: st'_def)
qed

definition direct :: "block set \<Rightarrow> slab_map \<Rightarrow> block set" where
  "direct A T = {b \<in> A. T (fst b) = None}"

text \<open>The frames the allocators manage.\<close>

definition pool :: "(nat \<Rightarrow> nat list) \<Rightarrow> block set \<Rightarrow> nat set" where
  "pool F A = frames (fblocks F \<union> A)"

lemma pool_take: "blk b \<subseteq> frames (fblocks F) \<Longrightarrow> frames (fblocks F') = frames (fblocks F) - blk b \<Longrightarrow> pool F' (insert b A) = pool F A"
  by (auto simp: pool_def frames_Un frames_insert)

lemma pool_give:
  assumes "b \<in> A" "frames (fblocks F') = frames (fblocks F) \<union> blk b"
  shows "pool F' (A - {b}) = pool F A"
proof -
  have "frames A = frames (A - {b}) \<union> blk b" using frames_insert [of b "A - {b}"] assms(1) by (simp add: insert_absorb Un_commute)
  then show ?thesis using assms(2) by (auto simp: pool_def frames_Un)
qed

lemma fty_fis: "fis s' (fi_of n) = fis s (fi_of n) \<Longrightarrow> fty s' n = fty s n"
  by (simp add: fty_def frame_ty_def)

lemma live_upd:
  assumes "T n = None" "set fs = slots n i"
  shows "live (T(n \<mapsto> (i, fs))) = live T"
  unfolding live_fun_upd live_split [of T n] using assms by (simp add: live_in_def)

lemma new_slab:
  assumes c: "slub_core st F A T" and L: "slab_lists st L" and mt: "matches T L" and i: "i < NUM_SIZE_CLASSES" and e: "L i = []"
    and m: "buddy_ok m F' (insert (n, 0) A)" "n \<notin> fst ` A" "fty m n = Some FBuddyAllocated"
      "\<forall>x\<in>fst ` A. fis m (fi_of x) = fis (pages st) (fi_of x)"
  obtains st1 st2 st3 where "init_slab i (frame_addr n) (st\<lparr>pages := m\<rparr>) = Some st1"
    "sl_insert (HeadPtr i) (fptr n) st1 = Some st2" "slub_set_ty (fi_of n) FSlab st2 = Some st3"
    "slub_core st3 F' (insert (n, 0) A) (T(n \<mapsto> (i, new_objects n i)))" "slab_lists st3 (L(i := [n]))"
    "matches (T(n \<mapsto> (i, new_objects n i))) (L(i := [n]))"
proof -
  have n: "n < max_frames" "fis m (fi_of n) \<noteq> None" using m(3) fty_less [of m n] fty_mapped [of m n] by auto
  have co: "caches_ok st" and dT: "T x \<noteq> None \<Longrightarrow> x \<in> fst ` A \<and> x < max_frames" for x
    using c by (auto simp: slub_core_def slab_ok_def image_iff) force
  have Tn: "T n = None" using dT m(2) by blast
  define st0 where "st0 = st\<lparr>pages := m\<rparr>"
  have g0: "sl_get (HeadPtr k) st0 = sl_get (HeadPtr k) st" "x \<in> fst ` A \<Longrightarrow> sl_get (fptr x) st0 = sl_get (fptr x) st" for k x
    using m(4) by (auto simp: st0_def sl_get_def fptr_def)
  have "caches_ok st0" using co by (simp add: caches_ok_def g0) (simp add: st0_def)
  moreover have "fis (pages st0) (fi_of n) \<noteq> None" using n(2) by (simp add: st0_def)
  ultimately obtain st1 b where s1: "init_slab i (frame_addr n) st0 = Some st1" "size_lookup st1 = size_lookup st0" "slabs st1 = slabs st0"
    "free_count b = nobj i" "cache_index b = i" "chain (cells st1) (free_list b) (new_objects n i)" "same_frames (pages st0) (pages st1)"
    and g1: "\<And>q. sl_get q st1 = (if q = fptr n then Some b else sl_get q st0)"
    and w1: "\<And>p. p \<notin> slots n i \<Longrightarrow> cells st1 p = cells st0 p"
    and bl1: "\<And>p. p \<noteq> fptr n \<Longrightarrow> bl_get p (pages st1) = bl_get p (pages st0)"
    by (rule init_slab_eff [OF _ i n(1)]) blast
  have LA: "x \<in> fst ` A" "x < max_frames" "x \<noteq> n" if "k < NUM_SIZE_CLASSES" "x \<in> set (L k)" for k x
    using that mt dT [of x] Tn by (auto simp: matches_def)
  have "slab_lists st1 L"
  proof (rule lists_agree [OF L])
    fix k p assume "k < NUM_SIZE_CLASSES" "p \<in> set (HeadPtr k # map fptr (L k))"
    then show "sl_get p st1 = sl_get p st" using LA [of k] n(1) by (auto simp: g1 g0)
  qed
  moreover have "sl_node st1 (fptr n)" by (simp add: sl_fields g1)
  ultimately obtain st2 where s2: "sl_insert (HeadPtr i) (fptr n) st1 = Some st2" "slab_lists st2 (L(i := L i @ [n]))" "same_rest st1 st2"
    and g2: "\<And>q. map_option meta (sl_get q st2) = map_option meta (sl_get q st1)"
    by (rule lists_insert [OF _ i n(1)]) (use LA in blast)+
  note r2 = s2(3) [unfolded same_rest_def]
  have "fis (pages st2) (fi_of n) \<noteq> None"
    using same_frames_mapped [OF s1(7)] same_frames_mapped [of "pages st1" "pages st2"] r2 n(2) by (simp add: st0_def)
  then obtain st3 where s3: "slub_set_ty (fi_of n) FSlab st2 = Some st3" "cells st3 = cells st2" "size_lookup st3 = size_lookup st2" "slabs st3 = slabs st2"
    and g3: "\<And>q. sl_get q st3 = sl_get q st2" and bl3: "\<And>p. bl_get p (pages st3) = bl_get p (pages st2)"
    and t3: "\<And>gi. frame_ty gi (fis (pages st3)) = (if gi = fi_of n then Some FSlab else frame_ty gi (fis (pages st2)))"
    by (rule slub_set_ty_eff) blast
  have f12: "fty (pages st2) = fty m" using fty_same [OF s1(7)] fty_same [of "pages st1" "pages st2"] r2 by (simp add: st0_def)
  have f3: "fty (pages st3) x = (if x = n then Some FSlab else fty m x)" for x
    using n(1) f12 by (auto simp: fty_def t3 fun_eq_iff split: if_splits)
  have meta3: "map_option meta (sl_get q st3) = (if q = fptr n then Some (meta b) else map_option meta (sl_get q st0))" for q
    by (simp add: g3 g2 g1)
  have cells3: "cells st3 = cells st1" using r2 s3(2) by simp
  have ok3: "slab_ok st3 n i (new_objects n i)"
    using new_objects [OF n(1) i] i n(1) s1(4-6) by (auto simp: slab_ok_def f3 meta3 cells3 meta_def)
  have "buddy_ok (pages st3) F' (insert (n, 0) A)"
    by (rule buddy_ok_change [OF m(1), of "{n}"]) (use r2 bl1 in \<open>auto simp: f3 bl3 st0_def\<close>)
  moreover have "fty (pages st3) x = fty (pages st) x" if "x \<in> fst ` A" "x \<noteq> n" for x
    using that fty_fis [of m x "pages st", OF m(4) [rule_format, OF that(1)]] by (simp add: f3)
  ultimately have "slub_core st3 F' (insert (n, 0) A) (T(n \<mapsto> (i, new_objects n i)))"
    using c ok3
  proof (intro core_update [OF c _ _ _ _ _ _ ok3])
    show "size_lookup st3 = size_lookup st" "map params (slabs st3) = map params (slabs st)" using r2 s1 s3 by (simp_all add: st0_def)
    show "map_option meta (sl_get (fptr x) st3) = map_option meta (sl_get (fptr x) st)" if "T x \<noteq> None" "x \<noteq> n" for x
      using dT [OF that(1)] that(2) n(1) by (simp add: meta3 g0)
    show "cells st3 p = cells st p" if "p \<notin> slots n i" for p using w1 [OF that] cells3 by (simp add: st0_def)
  qed (auto simp: meta3 g0)
  moreover have "slab_lists st3 (L(i := [n]))"
  proof -
    have "sl_next st3 = sl_next st2" "sl_prev st3 = sl_prev st2" "sl_node st3 = sl_node st2" by (auto simp: fun_eq_iff sl_fields g3)
    from lists_cong [OF this] s2(2) e show ?thesis by simp
  qed
  moreover have "matches (T(n \<mapsto> (i, new_objects n i))) (L(i := [n]))"
    unfolding matches_def
  proof (intro allI impI)
    fix k x assume k: "k < NUM_SIZE_CLASSES"
    have *: "x \<in> set (L k) \<longleftrightarrow> (\<exists>fs. T x = Some (k, fs) \<and> fs \<noteq> [])" using mt k by (simp add: matches_def)
    show "x \<in> set ((L(i := [n])) k) \<longleftrightarrow> (\<exists>fs. (T(n \<mapsto> (i, new_objects n i))) x = Some (k, fs) \<and> fs \<noteq> [])"
      using * e Tn LA(3) [OF k, of x] new_objects(4) [OF n(1) i] by (cases "x = n"; cases "k = i") simp_all
  qed
  ultimately show thesis using that s1(1) s2(1) s3(1) by (simp add: st0_def)
qed

lemma grab_slab_correct:
  assumes inv: "slub_inv st F A T L" and i: "i < NUM_SIZE_CLASSES"
  shows "fblocks F = {} \<and> grab_slab i st = Some (Inl OutOfMemory, st) \<or>
    (\<exists>st' F' A' T' L' n p fs. grab_slab i st = Some (Inr (fi_of n), st') \<and> slub_core st' F' A' T' \<and> slab_lists st' L' \<and>
       matches T' L' \<and> T' n = Some (i, p # fs) \<and> live T' = live T \<and> direct A' T' = direct A T \<and> pool F' A' = pool F A \<and>
       (\<forall>m j gs. m \<noteq> n \<and> T' m = Some (j, gs) \<longrightarrow> length gs < nobj j) \<and> length fs < nobj i)"
proof -
  have c: "slub_core st F A T" and L: "slab_lists st L" and mt: "matches T L" and bs: "busy T" using inv by (auto simp: slub_inv_def)
  have co: "caches_ok st" and bok: "buddy_ok (pages st) F A" using c by (auto simp: slub_core_def)
  have h: "sl.holds st (HeadPtr i) (map fptr (L i))" using L i by (simp add: slab_lists_def)
  then have "sl_next st (HeadPtr i) = hd (map fptr (L i) @ [HeadPtr i])" "sl_node st (HeadPtr i)"
    by (auto simp: sl.holds_def intro: ring_first)
  then obtain a where a: "sl_get (HeadPtr i) st = Some a" "snext a = hd (map fptr (L i) @ [HeadPtr i])"
    by (auto simp: sl_fields)
  show ?thesis
  proof (cases "L i")
    case (Cons n ns)
    then obtain fs where fs: "T n = Some (i, fs)" "fs \<noteq> []" using mt i unfolding matches_def by (metis list.set_intros(1))
    then obtain p ps where p: "fs = p # ps" by (cases fs) auto
    have "grab_slab i st = Some (Inr (fi_of n), st)" using a Cons by (simp add: grab_slab_def fptr_def)
    then show ?thesis using c L mt bs fs p unfolding busy_def
      by (intro disjI2 exI [of _ st] exI [of _ F] exI [of _ A] exI [of _ T] exI [of _ L] exI [of _ n] exI [of _ p] exI [of _ ps]) force
  next
    case Nil
    then have e: "snext a = HeadPtr i" using a by simp
    have o: "slab_order (slabs st ! i) = 0" by (rule params_nth(3) [OF co i])
    from buddy_alloc_kept [OF bok le0] show ?thesis
    proof (elim disjE exE conjE)
      assume "\<forall>b\<in>fblocks F. snd b < 0" "buddy_alloc 0 (pages st) = Some (Inl OutOfMemory, pages st)"
      then show ?thesis using a e o by (auto simp: grab_slab_def)
    next
      fix n m F' assume al: "buddy_alloc 0 (pages st) = Some (Inr (frame_addr n), m)"
        and po: "blk (n, 0) \<subseteq> frames (fblocks F)" "frames (fblocks F') = frames (fblocks F) - blk (n, 0)"
        and m: "buddy_ok m F' (insert (n, 0) A)" "n \<notin> fst ` A"
        "fty m n = Some FBuddyAllocated" "\<forall>x\<in>fst ` A. fis m (fi_of x) = fis (pages st) (fi_of x)"
      obtain st1 st2 st3 where s: "init_slab i (frame_addr n) (st\<lparr>pages := m\<rparr>) = Some st1"
        "sl_insert (HeadPtr i) (fptr n) st1 = Some st2" "slub_set_ty (fi_of n) FSlab st2 = Some st3"
        "slub_core st3 F' (insert (n, 0) A) (T(n \<mapsto> (i, new_objects n i)))" "slab_lists st3 (L(i := [n]))"
        "matches (T(n \<mapsto> (i, new_objects n i))) (L(i := [n]))"
        by (rule new_slab [OF c L mt i Nil m])
      have n: "n < max_frames" using fty_less [of m n] m(3) by simp
      have Tn: "T n = None"
      proof (rule ccontr)
        assume "T n \<noteq> None"
        then have "(n, 0) \<in> A" using c by (auto simp: slub_core_def)
        then show False using m(2) by force
      qed
      note no = new_objects [OF n i]
      obtain p ps where p: "new_objects n i = p # ps" using no(4) by (cases "new_objects n i") auto
      have "grab_slab i st = Some (Inr (fi_of n), st3)"
        using a e o al s(1-3) by (simp add: grab_slab_def fi_of_def [symmetric] fptr_def)
      moreover have "live (T(n \<mapsto> (i, new_objects n i))) = live T" by (rule live_upd [of T, OF Tn no(1)])
      moreover have "direct (insert (n, 0) A) (T(n \<mapsto> (i, new_objects n i))) = direct A T"
        using m(2) by (force simp: direct_def)
      moreover have "length ps < nobj i" using no(3) p by simp
      ultimately show ?thesis using s(4-6) bs p pool_take [OF po] unfolding busy_def
        by (intro disjI2 exI [of _ st3] exI [of _ F'] exI [of _ "insert (n, 0) A"] exI [of _ "T(n \<mapsto> (i, new_objects n i))"]
            exI [of _ "L(i := [n])"] exI [of _ n] exI [of _ p] exI [of _ ps]) simp
    qed
  qed
qed

section \<open>Allocation\<close>

lemma matches_take:
  assumes mt: "matches T L" and T: "T n = Some (i, gs)" "gs \<noteq> []" and d: "distinct (L i)"
  shows "matches (T(n \<mapsto> (i, fs))) (if fs = [] then L(i := remove1 n (L i)) else L)"
  unfolding matches_def
proof (intro allI impI)
  fix k x assume k: "k < NUM_SIZE_CLASSES"
  have *: "x \<in> set (L k) \<longleftrightarrow> (\<exists>fs. T x = Some (k, fs) \<and> fs \<noteq> [])" using mt k by (simp add: matches_def)
  show "x \<in> set ((if fs = [] then L(i := remove1 n (L i)) else L) k) \<longleftrightarrow> (\<exists>hs. (T(n \<mapsto> (i, fs))) x = Some (k, hs) \<and> hs \<noteq> [])"
    using * T d by (cases "x = n"; cases "k = i"; cases "fs = []") auto
qed

lemma lists_distinct: "slab_lists st L \<Longrightarrow> i < NUM_SIZE_CLASSES \<Longrightarrow> distinct (L i)"
  by (auto simp: slab_lists_def sl.holds_def ring_def distinct_map)

lemma live_take:
  assumes "T n = Some (i, p # fs)" "slab_ok st n i (p # fs)"
  shows "live (T(n \<mapsto> (i, fs))) = insert (p, SIZE_CLASSES ! i) (live T)"
proof -
  have "slots n i - set fs = insert p (slots n i - set (p # fs))" using assms(2) by (auto simp: slab_ok_def)
  then show ?thesis unfolding live_fun_upd live_split [of T n] assms(1) by (simp add: live_in_def)
qed

lemma not_live:
  assumes c: "slub_core st F A T" and T: "T n = Some (i, fs)" and p: "p \<in> set fs"
  shows "(p, a) \<notin> live T"
proof
  assume "(p, a) \<in> live T"
  then obtain m k gs where m: "T m = Some (k, gs)" "p \<in> slots m k - set gs" by (auto simp: live_iff)
  have ok: "slab_ok st n i fs" "slab_ok st m k gs" using c T m by (auto simp: slub_core_def)
  have "m \<noteq> n" using m T p by auto
  then have "slots n i \<inter> slots m k = {}" using ok by (intro slots_apart) (auto simp: slab_ok_def)
  then show False using ok(1) p m(2) by (auto simp: slab_ok_def)
qed

lemma slub_alloc_effect:
  assumes inv: "slub_inv st F A T L" and sz: "0 < sz" "sz \<le> SLUB_MAX" "2 ^ a \<le> SLUB_MAX"
  shows "fblocks F = {} \<and> slub_alloc sz (2 ^ a) st = Some (Inl OutOfMemory, st) \<or>
    (\<exists>p c st' F' A' T' L'. slub_alloc sz (2 ^ a) st = Some (Inr p, st') \<and> slub_inv st' F' A' T' L' \<and>
       (\<forall>b. (p, b) \<notin> live T) \<and> live T' = insert (p, c) (live T) \<and> sz \<le> c \<and> 2 ^ a dvd unat p \<and>
       direct A' T' = direct A T \<and> pool F' A' = pool F A)"
proof -
  have lk: "size_lookup st = size_table" using inv by (simp add: slub_inv_def slub_core_def caches_ok_def)
  obtain i where i: "find_class size_table sz (2 ^ a) = Some (i, SIZE_CLASSES ! i)" "i < NUM_SIZE_CLASSES" "sz \<le> SIZE_CLASSES ! i"
    "2 ^ a dvd SIZE_CLASSES ! i" using find_class_least [OF sz] by blast
  from grab_slab_correct [OF inv i(2)] show ?thesis
  proof (elim disjE exE conjE)
    assume "fblocks F = {}" "grab_slab i st = Some (Inl OutOfMemory, st)"
    then show ?thesis using i by (simp add: slub_alloc_def lk)
  next
    fix st1 F1 A1 T1 L1 n p fs
    assume g: "grab_slab i st = Some (Inr (fi_of n), st1)" and c: "slub_core st1 F1 A1 T1" and L: "slab_lists st1 L1"
      and mt: "matches T1 L1" and T: "T1 n = Some (i, p # fs)" and lv: "live T1 = live T" and dr: "direct A1 T1 = direct A T" and po: "pool F1 A1 = pool F A"
      and bs: "\<forall>m j gs. m \<noteq> n \<and> T1 m = Some (j, gs) \<longrightarrow> length gs < nobj j" "length fs < nobj i"
    have ok: "slab_ok st1 n i (p # fs)" using c T by (auto simp: slub_core_def)
    obtain b st2 st3 where s: "sl_get (fptr n) st1 = Some b" "free_list b = p" "free_count b = Suc (length fs)"
      "sl_modify (fptr n) (\<lambda>b. b\<lparr>free_list := cells st1 p\<rparr>) st1 = Some st2"
      "sl_modify (fptr n) (\<lambda>b. b\<lparr>free_count := free_count b - 1\<rparr>) st2 = Some st3"
      "map_option free_count (sl_get (fptr n) st3) = Some (length fs)"
      "slub_core st3 F1 A1 (T1(n \<mapsto> (i, fs)))" "slab_lists st3 L1"
      by (rule slab_take [OF c L T])
    obtain b3 where b3: "sl_get (fptr n) st3 = Some b3" "free_count b3 = length fs" using s(6) by auto
    let ?T = "T1(n \<mapsto> (i, fs))" and ?L = "if fs = [] then L1(i := remove1 n (L1 i)) else L1"
    have mt': "matches ?T ?L" by (rule matches_take [OF mt T _ lists_distinct [OF L i(2)]]) simp
    obtain st4 where s4: "(if free_count b3 = 0 then sl_unlink (fptr n) st3 else Some st3) = Some st4" "slub_core st4 F1 A1 ?T" "slab_lists st4 ?L"
    proof (cases "fs = []")
      case True
      have "n \<in> set (L1 i)" using mt T i(2) by (auto simp: matches_def)
      then obtain st4 where "sl_unlink (fptr n) st3 = Some st4" "slab_lists st4 (L1(i := remove1 n (L1 i)))" "same_rest st3 st4"
        "\<And>q. map_option meta (sl_get q st4) = map_option meta (sl_get q st3)"
        by (rule lists_unlink [OF s(8) i(2)]) blast
      then show thesis using that [of st4] True b3 core_same [OF s(7)] by simp
    qed (use that [of st3] s(7,8) b3 in simp)
    have "slub_alloc sz (2 ^ a) st = Some (Inr p, st4)"
      using i g s(1-5) b3 s4(1) by (cases "fs = []") (auto simp: slub_alloc_def lk fptr_def)
    moreover have "busy ?T" using bs by (auto simp: busy_def)
    moreover have "live ?T = insert (p, SIZE_CLASSES ! i) (live T)" using live_take [of T1, OF T ok] lv by simp
    moreover have "\<forall>b. (p, b) \<notin> live T" using not_live [OF c T, of p] lv by simp
    moreover have "direct A1 ?T = direct A T"
    proof -
      have "direct A1 ?T = direct A1 T1" using T by (auto simp: direct_def)
      then show ?thesis using dr by simp
    qed
    moreover have "2 ^ a dvd unat p" using ok i sz(3)
      by (intro slot_aligned [of n i p a]) (auto simp: slab_ok_def size_class_consts)
    ultimately show ?thesis using s4(2,3) mt' i(3) po unfolding slub_inv_def by blast
  qed
qed

section \<open>Release\<close>

lemma matches_give:
  assumes mt: "matches T L" and T: "T n = Some (i, fs)"
  shows "matches (T(n \<mapsto> (i, p # fs))) (if fs = [] then L(i := L i @ [n]) else L)"
  unfolding matches_def
proof (intro allI impI)
  fix k x assume k: "k < NUM_SIZE_CLASSES"
  have *: "x \<in> set (L k) \<longleftrightarrow> (\<exists>fs. T x = Some (k, fs) \<and> fs \<noteq> [])" using mt k by (simp add: matches_def)
  show "x \<in> set ((if fs = [] then L(i := L i @ [n]) else L) k) \<longleftrightarrow> (\<exists>hs. (T(n \<mapsto> (i, p # fs))) x = Some (k, hs) \<and> hs \<noteq> [])"
    using * T by (cases "x = n"; cases "k = i"; cases "fs = []") auto
qed

lemma matches_drop:
  assumes mt: "matches T L" and T: "T n = Some (i, fs)" and d: "distinct (L i)"
  shows "matches (T(n := None)) (L(i := remove1 n (L i)))"
  unfolding matches_def
proof (intro allI impI)
  fix k x assume k: "k < NUM_SIZE_CLASSES"
  have *: "x \<in> set (L k) \<longleftrightarrow> (\<exists>fs. T x = Some (k, fs) \<and> fs \<noteq> [])" using mt k by (simp add: matches_def)
  show "x \<in> set ((L(i := remove1 n (L i))) k) \<longleftrightarrow> (\<exists>hs. (T(n := None)) x = Some (k, hs) \<and> hs \<noteq> [])"
    using * T d by (cases "x = n"; cases "k = i") auto
qed

lemma live_give:
  assumes c: "slub_core st F A T" and T: "T n = Some (i, fs)" and p: "p \<in> slots n i" "p \<notin> set fs"
  shows "live (T(n \<mapsto> (i, p # fs))) = live T - {(p, SIZE_CLASSES ! i)}"
proof -
  have "(p, a) \<notin> live_in m (T m)" if "m \<noteq> n" for m a
  proof
    assume "(p, a) \<in> live_in m (T m)"
    then obtain k gs where m: "T m = Some (k, gs)" "p \<in> slots m k" by (cases "T m") (auto simp: live_in_def)
    have "slab_ok st n i fs" "slab_ok st m k gs" using c T m(1) by (auto simp: slub_core_def)
    then have "slots n i \<inter> slots m k = {}" using that by (intro slots_apart) (auto simp: slab_ok_def)
    then show False using p(1) m(2) by blast
  qed
  then have "(p, SIZE_CLASSES ! i) \<notin> (\<Union>m\<in>- {n}. live_in m (T m))" by blast
  then show ?thesis unfolding live_fun_upd live_split [of T n] T by (auto simp: live_in_def)
qed

text \<open>A block of the buddy allocator is released: only the descriptors of free blocks and of this one change.\<close>

lemma core_release:
  assumes c: "slub_core st F A T" and a: "(n, k) \<in> A"
  obtains m F' where "buddy_free (frame_addr n) k (pages st) = Some m" "slub_core (st\<lparr>pages := m\<rparr>) F' (A - {(n, k)}) (T(n := None))"
    "pool F' (A - {(n, k)}) = pool F A" "\<And>x. T x \<noteq> None \<Longrightarrow> x \<noteq> n \<Longrightarrow> sl_get (fptr x) (st\<lparr>pages := m\<rparr>) = sl_get (fptr x) st"
proof -
  have la: "layout (fblocks F \<union> A) {}" and ok: "buddy_ok (pages st) F A"
    using c by (auto simp: slub_core_def buddy_ok_def buddy_held_def buddy_state_def buddy_core_def)
  from buddy_free_kept [OF ok a] obtain m F' where m: "buddy_free (frame_addr n) k (pages st) = Some m" "buddy_ok m F' (A - {(n, k)})"
    "frames (fblocks F') = frames (fblocks F) \<union> blk (n, k)" "\<forall>x\<in>fst ` (A - {(n, k)}). fis m (fi_of x) = fis (pages st) (fi_of x)" by blast
  let ?st = "st\<lparr>pages := m\<rparr>" and ?T = "T(n := None)"
  have keep: "fis m (fi_of x) = fis (pages st) (fi_of x)" if "(x, j) \<in> A" "x \<noteq> n" for x j
  proof -
    have "(x, j) \<in> A - {(n, k)}" using that by blast
    then have "x \<in> fst ` (A - {(n, k)})" by (metis fst_conv imageI)
    then show ?thesis using m(4) by blast
  qed
  have gf: "sl_get (fptr x) ?st = sl_get (fptr x) st" if "(x, j) \<in> A" "x \<noteq> n" for x j
    using keep [OF that] by (simp add: sl_get_def fptr_def)
  have gh: "sl_get (HeadPtr j) ?st = sl_get (HeadPtr j) st" for j by (simp add: sl_get_def)
  have TA: "T x = Some (j, gs) \<Longrightarrow> slab_ok st x j gs \<and> (x, 0) \<in> A" for x j gs using c by (auto simp: slub_core_def)
  have "slab_ok ?st x j gs \<and> (x, 0) \<in> A - {(n, k)}" if "?T x = Some (j, gs)" for x j gs
  proof -
    have x: "x \<noteq> n" "T x = Some (j, gs)" using that by (auto split: if_splits)
    then have o: "slab_ok st x j gs" "(x, 0) \<in> A" using TA by auto
    have "slab_ok ?st x j gs"
      by (rule slab_ok_agree [OF o(1)]) (simp_all add: gf [OF o(2) x(1)] fty_fis [OF keep [OF o(2) x(1)]])
    then show ?thesis using o x by simp
  qed
  moreover have "fty (pages ?st) x = Some FBuddyAllocated" if "(x, j) \<in> A - {(n, k)}" "?T x = None" for x j
  proof -
    have "x \<noteq> n" using layout_first [OF la, of "(n, k)" "(x, j)"] that(1) a first_in_blk [of n j] by auto
    then have "T x = None" "fty m x = fty (pages st) x" "(x, j) \<in> A" using that fty_fis [OF keep, of x j] by auto
    then show ?thesis using c by (auto simp: slub_core_def)
  qed
  moreover have "caches_ok ?st" using c by (simp add: slub_core_def caches_ok_def gh)
  moreover have "buddy_ok (pages ?st) F' (A - {(n, k)})" using m(2) by simp
  ultimately have "slub_core ?st F' (A - {(n, k)}) ?T" unfolding slub_core_def by blast
  moreover have "sl_get (fptr x) ?st = sl_get (fptr x) st" if x: "T x \<noteq> None" "x \<noteq> n" for x
  proof -
    obtain j gs where "T x = Some (j, gs)" using x(1) by auto
    then show ?thesis using TA gf x(2) by blast
  qed
  ultimately show thesis using that [of m F'] m(1) pool_give [OF a m(3)] by blast
qed

text \<open>The lists of slabs survive every change of descriptors that are not in them.\<close>

lemma lists_matched:
  assumes "slab_lists st L" "matches T L" "\<And>k. sl_get (HeadPtr k) st' = sl_get (HeadPtr k) st"
    and "\<And>x. T x \<noteq> None \<Longrightarrow> sl_get (fptr x) st' = sl_get (fptr x) st"
  shows "slab_lists st' L"
proof (rule lists_agree [OF assms(1)])
  fix k p assume k: "k < NUM_SIZE_CLASSES" "p \<in> set (HeadPtr k # map fptr (L k))"
  show "sl_get p st' = sl_get p st"
  proof (cases "p = HeadPtr k")
    case False
    then obtain x where x: "p = fptr x" "x \<in> set (L k)" using k by auto
    then have "T x \<noteq> None" using assms(2) k(1) by (auto simp: matches_def)
    then show ?thesis using assms(4) x(1) by blast
  qed (simp add: assms(3))
qed

text \<open>A slab without live objects goes back to the buddy allocator.\<close>

lemma slab_drop:
  assumes c: "slub_core st F A T" and L: "slab_lists st L" and mt: "matches T L" and T: "T n = Some (i, fs)" "set fs = slots n i" "fs \<noteq> []"
  obtains st1 m F' where "sl_unlink (fptr n) st = Some st1" "buddy_free (frame_addr n) 0 (pages st1) = Some m"
    "slub_core (st1\<lparr>pages := m\<rparr>) F' (A - {(n, 0)}) (T(n := None))" "slab_lists (st1\<lparr>pages := m\<rparr>) (L(i := remove1 n (L i)))"
    "matches (T(n := None)) (L(i := remove1 n (L i)))" "live (T(n := None)) = live T" "pool F' (A - {(n, 0)}) = pool F A"
proof -
  have i: "i < NUM_SIZE_CLASSES" and a: "(n, 0) \<in> A" using c T(1) by (auto simp: slub_core_def slab_ok_def)
  have nL: "n \<in> set (L i)" using mt T i by (auto simp: matches_def)
  obtain st1 where s1: "sl_unlink (fptr n) st = Some st1" "slab_lists st1 (L(i := remove1 n (L i)))" "same_rest st st1"
    and m1: "\<And>q. map_option meta (sl_get q st1) = map_option meta (sl_get q st)"
    by (rule lists_unlink [OF L i nL]) blast
  obtain m F' where m: "buddy_free (frame_addr n) 0 (pages st1) = Some m" "slub_core (st1\<lparr>pages := m\<rparr>) F' (A - {(n, 0)}) (T(n := None))"
    "pool F' (A - {(n, 0)}) = pool F A"
    and g: "\<And>x. T x \<noteq> None \<Longrightarrow> x \<noteq> n \<Longrightarrow> sl_get (fptr x) (st1\<lparr>pages := m\<rparr>) = sl_get (fptr x) st1"
    by (rule core_release [OF core_same [OF c s1(3) m1] a]) blast
  have mt': "matches (T(n := None)) (L(i := remove1 n (L i)))" by (rule matches_drop [OF mt T(1) lists_distinct [OF L i]])
  have "slab_lists (st1\<lparr>pages := m\<rparr>) (L(i := remove1 n (L i)))"
    by (rule lists_matched [OF s1(2) mt']) (auto simp: sl_get_def [of "HeadPtr _"] split: if_splits intro!: g)
  moreover have "live (T(n := None)) = live T" unfolding live_fun_upd live_split [of T n] T(1) using T(2) by (simp add: live_in_def)
  ultimately show thesis using that s1(1) m mt' by blast
qed

lemma slub_free_effect:
  assumes inv: "slub_inv st F A T L" and p: "(p, a) \<in> live T"
  shows "\<exists>st' F' A' T' L'. slub_free p st = Some st' \<and> slub_inv st' F' A' T' L' \<and> live T' = live T - {(p, a)} \<and>
    direct A' T' = direct A T \<and> pool F' A' = pool F A"
proof -
  have c: "slub_core st F A T" and L: "slab_lists st L" and mt: "matches T L" and bs: "busy T" using inv by (auto simp: slub_inv_def)
  obtain n i fs where T: "T n = Some (i, fs)" "p \<in> slots n i" "p \<notin> set fs" "a = SIZE_CLASSES ! i" using p by (auto simp: live_iff)
  have ok: "slab_ok st n i fs" and A: "(n, 0) \<in> A" using c T(1) by (auto simp: slub_core_def)
  then have i: "i < NUM_SIZE_CLASSES" and n: "n < max_frames" and ty: "frame_ty (fi_of n) (fis (pages st)) = Some FSlab"
    by (auto simp: slab_ok_def fty_def split: if_splits)
  obtain phys where ph: "virt_to_phys p = Some phys" "frame_info_addr phys = fi_of n" using slot_frame [OF n i T(2)] by blast
  obtain b st1 st2 where s: "sl_get (fptr n) st = Some b" "cache_index b = i"
    "sl_modify (fptr n) (\<lambda>b. b\<lparr>free_list := p\<rparr>) (st\<lparr>cells := (cells st)(p := free_list b)\<rparr>) = Some st1"
    "sl_modify (fptr n) (\<lambda>b. b\<lparr>free_count := free_count b + 1\<rparr>) st1 = Some st2"
    "map_option meta (sl_get (fptr n) st2) = Some (p, Suc (length fs), i)"
    "slub_core st2 F A (T(n \<mapsto> (i, p # fs)))" "slab_lists st2 L"
    by (rule slab_give [OF c L T(1-3)])
  have e: "slub_free p st = put_slab i (fi_of n) st2"
    using ph ty s(1-4) by (simp add: slub_free_def fptr_def)
  obtain b2 where b2: "sl_get (fptr n) st2 = Some b2" "free_count b2 = Suc (length fs)" using s(5) by (auto simp: meta_def)
  have co: "caches_ok st2" using s(6) by (simp add: slub_core_def)
  note pn = params_nth [OF co i]
  let ?T = "T(n \<mapsto> (i, p # fs))"
  have lv: "live ?T = live T - {(p, a)}" using live_give [OF c T(1-3)] T(4) by simp
  have len: "length fs < nobj i" using bs T(1) by (simp add: busy_def)
  have dr: "direct A ?T = direct A T" using T(1) by (auto simp: direct_def)
  show ?thesis
  proof (cases "fs = []")
    case True
    have "n \<notin> set (L j)" if "j < NUM_SIZE_CLASSES" for j using mt T(1) True that by (auto simp: matches_def)
    then obtain st3 where s3: "sl_insert (HeadPtr i) (fptr n) st2 = Some st3" "slab_lists st3 (L(i := L i @ [n]))" "same_rest st2 st3"
      "\<And>q. map_option meta (sl_get q st3) = map_option meta (sl_get q st2)"
      by (rule lists_insert [OF s(7) i n, rotated]) (use b2 in \<open>auto simp: sl_node_def\<close>)
    have "slub_free p st = Some st3" using e b2 True pn(1) s3(1) by (simp add: put_slab_def fptr_def)
    moreover have "slub_core st3 F A ?T" by (rule core_same [OF s(6) s3(3,4)])
    moreover have "matches ?T (L(i := L i @ [n]))" using matches_give [OF mt T(1), of p] True by simp
    moreover have "busy ?T" using bs class_bounds(3) [OF i] True by (auto simp: busy_def)
    ultimately show ?thesis using s3(2) lv dr unfolding slub_inv_def by blast
  next
    case False
    then have mt': "matches ?T L" using matches_give [OF mt T(1), of p] by simp
    show ?thesis
    proof (cases "Suc (length fs) = nobj i")
      case full: True
      have d: "distinct (p # fs)" "set (p # fs) \<subseteq> slots n i" using ok T(2,3) by (auto simp: slab_ok_def)
      have "card (slots n i) \<le> length (p # fs)" using full card_image_le [of "{..<nobj i}" "slot n i"] by (simp add: slots_def)
      then have full': "set (p # fs) = slots n i"
        using d distinct_card [OF d(1)] by (intro card_seteq) (auto simp: slots_def)
      have Tn: "?T n = Some (i, p # fs)" by simp
      obtain st3 m F' where s3: "sl_unlink (fptr n) st2 = Some st3" "buddy_free (frame_addr n) 0 (pages st3) = Some m"
        "slub_core (st3\<lparr>pages := m\<rparr>) F' (A - {(n, 0)}) (?T(n := None))" "slab_lists (st3\<lparr>pages := m\<rparr>) (L(i := remove1 n (L i)))"
        "matches (?T(n := None)) (L(i := remove1 n (L i)))" "live (?T(n := None)) = live ?T" "pool F' (A - {(n, 0)}) = pool F A"
        by (rule slab_drop [OF s(6,7) mt' Tn full' list.distinct(2)])
      have "slub_free p st = Some (st3\<lparr>pages := m\<rparr>)"
        using e b2 False full pn s3(1,2) from_fi_of [OF n] class_bounds(3) [OF i] by (simp add: put_slab_def fptr_def)
      moreover have "busy (?T(n := None))" using bs by (auto simp: busy_def)
      moreover have "direct (A - {(n, 0)}) (?T(n := None)) = direct A T"
      proof -
        have la: "layout (fblocks F \<union> A) {}" using c by (simp add: slub_core_def buddy_ok_def buddy_held_def buddy_state_def buddy_core_def)
        have "b = (n, 0)" if "b \<in> A" "fst b = n" for b using layout_first [OF la, of "(n, 0)" b] that A by auto
        then show ?thesis using T(1) by (auto simp: direct_def)
      qed
      ultimately show ?thesis using s3(3-7) lv unfolding slub_inv_def by metis
    next
      case nf: False
      have "slub_free p st = Some st2" using e b2 False nf pn by (simp add: put_slab_def fptr_def)
      moreover have "busy ?T" using bs len nf by (auto simp: busy_def)
      ultimately show ?thesis using s(6,7) mt' lv dr unfolding slub_inv_def by blast
    qed
  qed
qed

section \<open>Initialisation and use\<close>

lemma slub_init_ok:
  assumes "length (slabs st) = NUM_SIZE_CLASSES" "buddy_ok (pages st) F {}"
  obtains st' where "slub_init st = Some st'" "slub_inv st' F {} (\<lambda>n. None) (\<lambda>i. [])" "pages st' = pages st"
proof -
  define st' where "st' = st\<lparr>size_lookup := size_table,
              slabs := map (\<lambda>(index, sz).
                \<lparr>clist = (clist (slabs st ! index))\<lparr>cache_index := index, snext := HeadPtr index, sprev := HeadPtr index\<rparr>,
                 object_size = sz, slab_order = 0, max_free_count = 4096 div sz\<rparr>) (enumerate 0 SIZE_CLASSES)\<rparr>"
  have e: "slub_init st = Some st'" by (simp add: slub_init_def lookup_table st'_def)
  have len: "length SIZE_CLASSES = NUM_SIZE_CLASSES" by (simp add: SIZE_CLASSES_def NUM_SIZE_CLASSES_def)
  have g: "sl_get (HeadPtr i) st' = Some ((clist (slabs st ! i))\<lparr>cache_index := i, snext := HeadPtr i, sprev := HeadPtr i\<rparr>)"
    if "i < NUM_SIZE_CLASSES" for i using that by (simp add: sl_get_def st'_def len nth_enumerate_eq)
  have "map params (slabs st') = map (\<lambda>sz. (sz, 0, 4096 div sz)) SIZE_CLASSES"
    by (rule nth_equalityI) (simp_all add: st'_def nth_enumerate_eq params_def)
  then have "caches_ok st'" using g by (auto simp: caches_ok_def meta_def st'_def)
  then have "slub_core st' F {} (\<lambda>n. None)" using assms(2) by (simp add: slub_core_def st'_def)
  moreover have "slab_lists st' (\<lambda>i. [])" by (auto simp: slab_lists_def sl.holds_def sl_fields g)
  moreover have "pages st' = pages st" by (simp add: st'_def)
  ultimately show thesis using that e by (simp add: slub_inv_def matches_def busy_def)
qed

text \<open>The contents of live objects are the business of their owners.\<close>

lemma slub_user_write:
  assumes "slub_inv st F A T L" "\<And>n i fs q. T n = Some (i, fs) \<Longrightarrow> q \<in> set fs \<Longrightarrow> c q = cells st q"
  shows "slub_inv (st\<lparr>cells := c\<rparr>) F A T L"
proof -
  have g: "sl_get q (st\<lparr>cells := c\<rparr>) = sl_get q st" for q by (simp add: sl_get_def split: list_ptr.splits)
  have "slab_ok (st\<lparr>cells := c\<rparr>) n i fs" if "T n = Some (i, fs)" for n i fs
  proof -
    have "chain c a fs = chain (cells st) a fs" for a using assms(2) [OF that] by (intro chain_cong)
    then show ?thesis using assms(1) that by (auto simp: slub_inv_def slub_core_def slab_ok_def g)
  qed
  moreover have "slab_lists (st\<lparr>cells := c\<rparr>) L"
    using assms(1) lists_cong [of "st\<lparr>cells := c\<rparr>" st L] by (simp add: slub_inv_def fun_eq_iff sl_fields g)
  ultimately show ?thesis using assms(1) by (auto simp: slub_inv_def slub_core_def caches_ok_def g)
qed

lemma slub_demo: "\<exists>st F. slub_inv st F {} (\<lambda>n. None) (\<lambda>i. []) \<and> fblocks F \<noteq> {}"
proof -
  obtain s F where s: "buddy_ok s F {}" "frames (fblocks F) = {3..<8}" using demo_range by blast
  let ?st = "\<lparr>slabs = slub_dummy, size_lookup = [], cells = (\<lambda>a. 0), pages = s\<rparr>"
  have "length (slabs ?st) = NUM_SIZE_CLASSES" "buddy_ok (pages ?st) F {}" using s by (simp_all add: slub_dummy_def)
  then obtain st where "slub_inv st F {} (\<lambda>n. None) (\<lambda>i. [])" by (rule slub_init_ok)
  moreover have "fblocks F \<noteq> {}" using s(2) by (auto simp: frames_def)
  ultimately show ?thesis by blast
qed

section \<open>Correctness\<close>

text \<open>
  For every size from 1 to 1024 and every power of two up to 1024 as alignment, the table of first candidates and
  the search find the smallest size class that is large enough and a multiple of the alignment.
\<close>

theorem find_class_correct:
  assumes "0 < sz" and "sz \<le> SLUB_MAX" and "2 ^ a \<le> SLUB_MAX"
  shows "\<exists>t i. init_size_lookup = Some t \<and> find_class t sz (2 ^ a) = Some (i, SIZE_CLASSES ! i) \<and> i < NUM_SIZE_CLASSES \<and>
    sz \<le> SIZE_CLASSES ! i \<and> 2 ^ a dvd SIZE_CLASSES ! i \<and> (\<forall>j<i. \<not> (sz \<le> SIZE_CLASSES ! j \<and> 2 ^ a dvd SIZE_CLASSES ! j))"
  using find_class_least [OF assms] lookup_table by blast

theorem find_class_correct_witness:
  "\<exists>t i. init_size_lookup = Some t \<and> find_class t 40 (2 ^ 5) = Some (i, SIZE_CLASSES ! i) \<and> i < NUM_SIZE_CLASSES \<and> 32 dvd SIZE_CLASSES ! i"
  using find_class_correct [of 40 5] by (auto simp: size_class_consts)

text \<open>
  C9. An allocation of the slab allocator either returns an object that is not live, overlaps no live object, is large
  enough and aligned, and makes it live, or reports that memory is exhausted, because no frame is free, and
  changes nothing.  The blocks handed out by the buddy allocator directly stay as they are, and no frame is lost.
\<close>

theorem slub_alloc_correct:
  assumes "slub_inv st F A T L" and "0 < sz" and "sz \<le> SLUB_MAX" and "2 ^ a \<le> SLUB_MAX"
  shows "fblocks F = {} \<and> slub_alloc sz (2 ^ a) st = Some (Inl OutOfMemory, st) \<or>
    (\<exists>p c st' F' A' T' L'. slub_alloc sz (2 ^ a) st = Some (Inr p, st') \<and> slub_inv st' F' A' T' L' \<and>
       live T' = insert (p, c) (live T) \<and> (\<forall>(q, b)\<in>live T. {unat p..<unat p + c} \<inter> {unat q..<unat q + b} = {}) \<and>
       sz \<le> c \<and> 2 ^ a dvd unat p \<and> direct A' T' = direct A T \<and> pool F' A' = pool F A)"
  using slub_alloc_effect [OF assms]
proof (elim disjE exE conjE)
  fix p c st' F' A' T' L'
  assume r: "slub_alloc sz (2 ^ a) st = Some (Inr p, st')" "slub_inv st' F' A' T' L'" "\<forall>b. (p, b) \<notin> live T"
    "live T' = insert (p, c) (live T)" "sz \<le> c" "2 ^ a dvd unat p" "direct A' T' = direct A T" "pool F' A' = pool F A"
  have "{unat p..<unat p + c} \<inter> {unat q..<unat q + b} = {}" if "(q, b) \<in> live T" for q b
    using r(2) by (intro live_apart [of st' F' A' T']) (use r(3,4) that in \<open>auto simp: slub_inv_def\<close>)
  then show ?thesis using r by blast
qed blast

theorem slub_alloc_correct_witness:
  "\<exists>st p c st' F' A' T' L'. slub_alloc 24 (2 ^ 3) st = Some (Inr p, st') \<and> slub_inv st' F' A' T' L' \<and>
     live T' = {(p, c)} \<and> 24 \<le> c \<and> 8 dvd unat p"
proof -
  obtain st F where s: "slub_inv st F {} (\<lambda>n. None) (\<lambda>i. [])" "fblocks F \<noteq> {}" using slub_demo by blast
  have "live (\<lambda>n. None) = {}" by (simp add: live_def live_in_def)
  then show ?thesis using slub_alloc_correct [OF s(1), of 24 3] s(2) by (fastforce simp: size_class_consts)
qed

text \<open>
  Releasing a live object succeeds and makes exactly this object free; a slab that has no live object left goes
  back to the buddy allocator, and no frame is lost.
\<close>

theorem slub_free_correct:
  assumes "slub_inv st F A T L" and "(p, c) \<in> live T"
  shows "\<exists>st' F' A' T' L'. slub_free p st = Some st' \<and> slub_inv st' F' A' T' L' \<and> live T' = live T - {(p, c)} \<and>
    direct A' T' = direct A T \<and> pool F' A' = pool F A"
  by (rule slub_free_effect [OF assms])

theorem slub_free_correct_witness:
  "\<exists>st p st' F' A' T' L'. slub_free p st = Some st' \<and> slub_inv st' F' A' T' L' \<and> live T' = {}"
proof -
  obtain st F where s: "slub_inv st F {} (\<lambda>n. None) (\<lambda>i. [])" "fblocks F \<noteq> {}" using slub_demo by blast
  have l: "live (\<lambda>n. None) = {}" by (simp add: live_def live_in_def)
  have "0 < (24::nat)" "24 \<le> SLUB_MAX" "2 ^ 3 \<le> SLUB_MAX" by (simp_all add: size_class_consts)
  from slub_alloc_effect [OF s(1) this] s(2) l
  obtain p c st' F' A' T' L' where a: "slub_inv st' F' A' T' L'" "live T' = {(p, c)}" by auto
  then have "(p, c) \<in> live T'" by simp
  from slub_free_correct [OF a(1) this]
  obtain st2 F2 A2 T2 L2 where "slub_free p st' = Some st2" "slub_inv st2 F2 A2 T2 L2" "live T2 = live T' - {(p, c)}" by blast
  moreover have "live T' - {(p, c)} = {}" using a(2) by simp
  ultimately show ?thesis by metis
qed

end
