(* ===== verification/Memory.thy ===== *)
theory Memory
  imports Slub_Laws
begin

text \<open>
  The dispatcher of direct allocations (\<^verbatim>\<open>memory.rs\<close>): by size, a request goes to the slab allocator or to the buddy
  allocator, and a release finds the owner of an address from the type of its frame.  Both return addresses of the
  direct mapping of physical memory.  A layout is given by its size and its alignment.  \<^term>\<open>None\<close> is a panic.
\<close>

section \<open>Operations\<close>

definition direct_alloc :: "nat \<Rightarrow> nat \<Rightarrow> slub_mem \<Rightarrow> ((memory_error + 64 word) \<times> slub_mem) option" where
  "direct_alloc sz al st =
     (let effective_size = max sz al
      in if sz = 0 then Some (Inr ZST_SENTINEL, st)
         else if effective_size \<le> SLUB_MAX then slub_alloc sz al st
         else if effective_size \<le> BUDDY_MAX then do {
           c \<leftarrow> clog2 effective_size;
           let order = c - FRAME_SHIFT;
           (r, m) \<leftarrow> buddy_alloc order (pages st);
           let st = st\<lparr>pages := m\<rparr>;
           case r of
             Inl e \<Rightarrow> Some (Inl e, st)
           | Inr phys \<Rightarrow> do { v \<leftarrow> phys_to_virt phys; Some (Inr v, st) } }
         else Some (Inl SizeTooBig, st))"

definition frame_alloc :: "slub_mem \<Rightarrow> ((memory_error + 64 word) \<times> slub_mem) option" where
  "frame_alloc st = do { (r, m) \<leftarrow> buddy_alloc 0 (pages st); Some (r, st\<lparr>pages := m\<rparr>) }"

definition direct_free :: "64 word \<Rightarrow> slub_mem \<Rightarrow> slub_mem option" where
  "direct_free addr st =
     (if addr = ZST_SENTINEL then Some st
      else do {
        phys \<leftarrow> virt_to_phys addr;
        let fi = frame_info_addr phys;
        t \<leftarrow> frame_ty fi (fis (pages st));
        case t of
          FBuddyAllocated \<Rightarrow> do {
            b \<leftarrow> bl_get (FramePtr fi) (pages st);
            m \<leftarrow> buddy_free phys (border b) (pages st);
            Some (st\<lparr>pages := m\<rparr>) }
        | FSlab \<Rightarrow> slub_free addr st
        | FReserved \<Rightarrow> None
        | FBuddy \<Rightarrow> None
        | FBuddyTail \<Rightarrow> None })"

section \<open>Allocations\<close>

text \<open>
  The allocations a client holds: the live objects of the slabs and the blocks of the buddy allocator that are not
  slabs, with their addresses in the direct mapping and their sizes.
\<close>

definition block_range :: "block \<Rightarrow> 64 word \<times> nat" where
  "block_range b = (PHYSICAL_MEMORY_OFFSET + frame_addr (fst b), 4096 * 2 ^ snd b)"

definition allocs :: "block set \<Rightarrow> slab_map \<Rightarrow> (64 word \<times> nat) set" where
  "allocs A T = live T \<union> block_range ` direct A T"

definition span_of :: "64 word \<times> nat \<Rightarrow> nat set" where
  "span_of r = {unat (fst r)..<unat (fst r) + snd r}"

definition mem_ok :: "slub_mem \<Rightarrow> (nat \<Rightarrow> nat list) \<Rightarrow> block set \<Rightarrow> slab_map \<Rightarrow> (nat \<Rightarrow> nat list) \<Rightarrow> bool" where
  "mem_ok st F A T L \<longleftrightarrow> slub_inv st F A T L \<and> 0 \<notin> pool F A"

text \<open>The bytes of the direct mapping that belong to a set of frames.\<close>

definition frame_bytes :: "nat set \<Rightarrow> nat set" where
  "frame_bytes N = {x. 0xFFFF800000000000 \<le> x \<and> (x - 0xFFFF800000000000) div 4096 \<in> N}"

lemma frame_bytes_disjoint: "N \<inter> M = {} \<Longrightarrow> frame_bytes N \<inter> frame_bytes M = {}"
  by (auto simp: frame_bytes_def)

lemma frame_bytes_mono: "N \<subseteq> M \<Longrightarrow> frame_bytes N \<subseteq> frame_bytes M"
  by (auto simp: frame_bytes_def)

lemma unat_direct: "n < max_frames \<Longrightarrow> unat (PHYSICAL_MEMORY_OFFSET + frame_addr n) = 0xFFFF800000000000 + 4096 * n"
  using unat_frame_addr [of n] by (simp add: unat_word_ariths PHYSICAL_MEMORY_OFFSET_def max_frames_def)

lemma block_first: "block_ok b \<Longrightarrow> fst b < max_frames"
proof -
  have "0 < (2::nat) ^ snd b" by simp
  then show "block_ok b \<Longrightarrow> fst b < max_frames" unfolding block_ok_def by linarith
qed

lemma span_of_block:
  assumes "block_ok b"
  shows "span_of (block_range b) = frame_bytes (blk b)"
proof -
  have u: "unat (fst (block_range b)) = 0xFFFF800000000000 + 4096 * fst b"
    using block_first [OF assms] by (simp add: block_range_def unat_direct)
  show ?thesis
  proof (rule set_eqI)
    fix x :: nat
    have "fst b \<le> (x - 0xFFFF800000000000) div 4096 \<longleftrightarrow> 4096 * fst b \<le> x - 0xFFFF800000000000"
      by (simp add: less_eq_div_iff_mult_less_eq mult.commute)
    moreover have "(x - 0xFFFF800000000000) div 4096 < fst b + 2 ^ snd b \<longleftrightarrow> x - 0xFFFF800000000000 < 4096 * (fst b + 2 ^ snd b)"
      by (simp add: div_less_iff_less_mult mult.commute)
    ultimately show "x \<in> span_of (block_range b) \<longleftrightarrow> x \<in> frame_bytes (blk b)"
      unfolding frame_bytes_def blk_def span_of_def u by (auto simp: block_range_def)
  qed
qed

lemma span_of_slot:
  assumes "n < max_frames" "i < NUM_SIZE_CLASSES" "p \<in> slots n i"
  shows "span_of (p, SIZE_CLASSES ! i) \<subseteq> frame_bytes {n}"
proof -
  obtain j where j: "j < nobj i" "p = slot n i j" using assms(3) by (auto simp: slots_def)
  have "(x - 0xFFFF800000000000) div 4096 = n" if "x \<in> span_of (p, SIZE_CLASSES ! i)" for x
  proof (rule div_nat_eqI)
    show "4096 * n \<le> x - 0xFFFF800000000000" "x - 0xFFFF800000000000 < 4096 * Suc n"
      using that object_end [OF j(1)] by (auto simp: span_of_def j(2) unat_slot [OF assms(1,2) j(1)])
  qed
  then show ?thesis by (auto simp: frame_bytes_def span_of_def j(2) unat_slot [OF assms(1,2) j(1)])
qed

lemma mem_okD:
  assumes "mem_ok st F A T L"
  shows "slub_inv st F A T L" "slub_core st F A T" "slab_lists st L" "matches T L" "busy T" "0 \<notin> pool F A" "buddy_ok (pages st) F A"
    "layout (fblocks F \<union> A) {}" "orders (pages st) A" "fblocks F \<inter> A = {}"
  using assms by (auto simp: mem_ok_def slub_inv_def slub_core_def buddy_ok_def buddy_held_def buddy_state_def buddy_core_def)

text \<open>Every allocation lies in an allocated block of frames.\<close>

lemma live_inside:
  assumes c: "slub_core st F A T" and l: "s \<in> live T"
  obtains n where "T n \<noteq> None" "(n, 0) \<in> A" "span_of s \<subseteq> frame_bytes (blk (n, 0))" "0 < snd s"
proof -
  have "(fst s, snd s) \<in> live T" using l by simp
  then obtain n i fs where n: "T n = Some (i, fs)" "fst s \<in> slots n i" "snd s = SIZE_CLASSES ! i" unfolding live_iff by blast
  have k: "n < max_frames" "i < NUM_SIZE_CLASSES" "(n, 0) \<in> A" using c n(1) by (auto simp: slub_core_def slab_ok_def)
  moreover have "blk (n, 0) = {n}" by (auto simp: blk_def)
  moreover have "0 < snd s" using class_bounds(1) [OF k(2)] n(3) by simp
  ultimately show thesis using that [of n] n(1) span_of_slot [OF k(1,2) n(2)] n(3) by (metis option.distinct(1) prod.collapse)
qed

lemma direct_block:
  assumes "slub_core st F A T" "b \<in> direct A T"
  shows "block_ok b" "b \<in> A" "T (fst b) = None" "span_of (block_range b) = frame_bytes (blk b)" "fst b < max_frames"
proof -
  show b: "block_ok b" "b \<in> A" "T (fst b) = None"
    using assms by (auto simp: direct_def slub_core_def layout_def buddy_ok_def buddy_held_def buddy_state_def buddy_core_def)
  then show "span_of (block_range b) = frame_bytes (blk b)" "fst b < max_frames" by (simp_all add: span_of_block block_first)
qed

lemma blocks_apart:
  assumes "slub_core st F A T" "b \<in> A" "c \<in> A" "b \<noteq> c"
  shows "frame_bytes (blk b) \<inter> frame_bytes (blk c) = {}"
  using assms by (intro frame_bytes_disjoint)
    (auto simp: slub_core_def layout_def buddy_ok_def buddy_held_def buddy_state_def buddy_core_def)

lemma live_block_apart:
  assumes c: "slub_core st F A T" and s: "s \<in> live T" and b: "b \<in> direct A T"
  shows "span_of s \<inter> span_of (block_range b) = {}"
proof -
  obtain n where n: "T n \<noteq> None" "(n, 0) \<in> A" "span_of s \<subseteq> frame_bytes (blk (n, 0))" by (rule live_inside [OF c s])
  note B = direct_block [OF c b]
  have "b \<noteq> (n, 0)" using B(3) n(1) by auto
  then show ?thesis using blocks_apart [OF c n(2) B(2)] n(3) B(4) by blast
qed

lemma alloc_inside:
  assumes c: "slub_core st F A T" and r: "r \<in> allocs A T"
  shows "span_of r \<subseteq> frame_bytes (frames A)" "unat (fst r) \<in> span_of r"
proof -
  have *: "blk b \<subseteq> frames A" if "b \<in> A" for b using that by (auto simp: frames_def)
  have "span_of r \<subseteq> frame_bytes (frames A) \<and> 0 < snd r"
    using r unfolding allocs_def
  proof (elim UnE imageE)
    assume "r \<in> live T"
    then obtain n where "(n, 0) \<in> A" "span_of r \<subseteq> frame_bytes (blk (n, 0))" "0 < snd r" by (rule live_inside [OF c])
    then show ?thesis using frame_bytes_mono [OF *] by blast
  next
    fix b assume "r = block_range b" "b \<in> direct A T"
    then show ?thesis using direct_block [OF c, of b] frame_bytes_mono [OF *, of b] by (auto simp: block_range_def)
  qed
  then show "span_of r \<subseteq> frame_bytes (frames A)" "unat (fst r) \<in> span_of r" by (auto simp: span_of_def)
qed

lemma alloc_not_sentinel:
  assumes "mem_ok st F A T L" "(p, c) \<in> allocs A T"
  shows "p \<noteq> ZST_SENTINEL"
proof
  assume p: "p = ZST_SENTINEL"
  have "unat p \<in> frame_bytes (frames A)" using alloc_inside [OF mem_okD(2) [OF assms(1)] assms(2)] by auto
  then have "0 \<in> frames A" by (simp add: frame_bytes_def p ZST_SENTINEL_def PHYSICAL_MEMORY_OFFSET_def)
  then show False using mem_okD(6) [OF assms(1)] by (simp add: pool_def frames_Un)
qed

text \<open>No two allocations overlap.\<close>

lemma allocs_apart:
  assumes c: "slub_core st F A T" and r: "r \<in> allocs A T" "r' \<in> allocs A T" "r \<noteq> r'"
  shows "span_of r \<inter> span_of r' = {}"
  using r(1,2) unfolding allocs_def
proof (elim UnE imageE)
  assume l: "r \<in> live T" "r' \<in> live T"
  then obtain p a q b where e: "r = (p, a)" "r' = (q, b)" by (metis prod.collapse)
  show ?thesis
  proof (cases "p = q")
    case True
    obtain n i fs where n: "T n = Some (i, fs)" "p \<in> slots n i" "a = SIZE_CLASSES ! i" using l(1) e by (auto simp: live_iff)
    obtain m j gs where m: "T m = Some (j, gs)" "p \<in> slots m j" "b = SIZE_CLASSES ! j" using l(2) e True by (auto simp: live_iff)
    have "slab_ok st n i fs" "slab_ok st m j gs" using c n(1) m(1) by (auto simp: slub_core_def)
    then have "n = m" using n(2) m(2) slots_apart [of n m i j] by (auto simp: slab_ok_def)
    then show ?thesis using n m r(3) e True by simp
  qed (use live_apart [OF c, of p a q b] l e in \<open>simp add: span_of_def\<close>)
next
  fix b b' assume b: "r = block_range b" "b \<in> direct A T" "r' = block_range b'" "b' \<in> direct A T"
  then have "b \<noteq> b'" using r(3) by blast
  then show ?thesis using blocks_apart [OF c, of b b'] direct_block [OF c] b by metis
qed (use live_block_apart [OF c] in \<open>auto simp: Int_commute\<close>)

section \<open>Allocation\<close>

text \<open>A block of the buddy allocator is handed out.\<close>

lemma core_claim:
  assumes c: "slub_core st F A T" and m: "buddy_ok m F' (insert (n, k) A)" "n \<notin> fst ` A" "fty m n = Some FBuddyAllocated"
    "\<forall>x\<in>fst ` A. fis m (fi_of x) = fis (pages st) (fi_of x)"
  shows "slub_core (st\<lparr>pages := m\<rparr>) F' (insert (n, k) A) T" "T x \<noteq> None \<Longrightarrow> sl_get (fptr x) (st\<lparr>pages := m\<rparr>) = sl_get (fptr x) st"
    "T n = None"
proof -
  have TA: "slab_ok st x j gs \<and> (x, 0) \<in> A" if "T x = Some (j, gs)" for x j gs using c that by (auto simp: slub_core_def)
  have fA: "x \<in> fst ` A" if "(x, j) \<in> A" for x j using that by force
  have g: "sl_get (fptr x) (st\<lparr>pages := m\<rparr>) = sl_get (fptr x) st" if "x \<in> fst ` A" for x
    using m(4) that by (auto simp: sl_get_def fptr_def)
  have Tf: "x \<in> fst ` A" if x: "T x \<noteq> None" for x
  proof -
    obtain j gs where "T x = Some (j, gs)" using x by (cases "T x") auto
    then show ?thesis using TA fA by blast
  qed
  show "T x \<noteq> None \<Longrightarrow> sl_get (fptr x) (st\<lparr>pages := m\<rparr>) = sl_get (fptr x) st" by (rule g [OF Tf])
  have hd: "sl_get (HeadPtr k) (st\<lparr>pages := m\<rparr>) = sl_get (HeadPtr k) st" for k by (simp add: sl_get_def)
  show Tn: "T n = None" using Tf [of n] m(2) by blast
  have so: "slab_ok (st\<lparr>pages := m\<rparr>) x j gs \<and> (x, 0) \<in> insert (n, k) A" if "T x = Some (j, gs)" for x j gs
  proof -
    note o = conjunct1 [OF TA [OF that]] and x = fA [OF conjunct2 [OF TA [OF that]]]
    have "slab_ok (st\<lparr>pages := m\<rparr>) x j gs"
      by (rule slab_ok_agree [OF o]) (simp_all add: g [OF x] fty_fis [of m x "pages st", OF m(4) [rule_format, OF x]])
    then show ?thesis using TA [OF that] by blast
  qed
  have ty: "fty (pages (st\<lparr>pages := m\<rparr>)) x = Some FBuddyAllocated" if x: "(x, j) \<in> insert (n, k) A" "T x = None" for x j
  proof (cases "(x, j) \<in> A")
    case True
    then have "fty m x = fty (pages st) x" using fty_fis m(4) fA by blast
    moreover have "fty (pages st) x = Some FBuddyAllocated" using c True x(2) unfolding slub_core_def by blast
    ultimately show ?thesis by simp
  qed (use x m(3) in auto)
  have ca: "caches_ok (st\<lparr>pages := m\<rparr>)" using c hd by (simp add: slub_core_def caches_ok_def)
  have bu: "buddy_ok (pages (st\<lparr>pages := m\<rparr>)) F' (insert (n, k) A)" using m(1) by simp
  show "slub_core (st\<lparr>pages := m\<rparr>) F' (insert (n, k) A) T" unfolding slub_core_def using so ty ca bu by (intro conjI allI impI) blast+
qed

lemma phys_to_virt_frame: "n < max_frames \<Longrightarrow> phys_to_virt (frame_addr n) = Some (PHYSICAL_MEMORY_OFFSET + frame_addr n)"
  using unat_frame_addr [of n] by (simp add: phys_to_virt_def word_less_nat_alt PHYSICAL_MEMORY_MAX_SIZE_def max_frames_def)

lemma virt_to_phys_frame: "n < max_frames \<Longrightarrow> virt_to_phys (PHYSICAL_MEMORY_OFFSET + frame_addr n) = Some (frame_addr n)"
  using unat_direct [of n] by (simp add: virt_to_phys_def word_le_nat_alt word_less_nat_alt PHYSICAL_MEMORY_OFFSET_def PHYSICAL_MEMORY_MAX_SIZE_def max_frames_def)

lemma buddy_claim:
  assumes ok: "mem_ok st F A T L" and k: "k \<le> MAX_ORDER"
  shows "(\<forall>b\<in>fblocks F. snd b < k) \<and> buddy_alloc k (pages st) = Some (Inl OutOfMemory, pages st) \<or>
    (\<exists>n m F'. buddy_alloc k (pages st) = Some (Inr (frame_addr n), m) \<and> mem_ok (st\<lparr>pages := m\<rparr>) F' (insert (n, k) A) T L \<and>
       direct (insert (n, k) A) T = insert (n, k) (direct A T) \<and> (n, k) \<notin> A \<and> block_ok (n, k) \<and> pool F' (insert (n, k) A) = pool F A)"
  using buddy_alloc_kept [OF mem_okD(7) [OF ok] k]
proof (elim disjE exE conjE)
  fix n m F' assume al: "buddy_alloc k (pages st) = Some (Inr (frame_addr n), m)" and m: "buddy_ok m F' (insert (n, k) A)" "n \<notin> fst ` A"
    "fty m n = Some FBuddyAllocated" "\<forall>x\<in>fst ` A. fis m (fi_of x) = fis (pages st) (fi_of x)"
    and po: "blk (n, k) \<subseteq> frames (fblocks F)" "frames (fblocks F') = frames (fblocks F) - blk (n, k)"
  note c = core_claim [OF mem_okD(2) [OF ok] m]
  have "slab_lists (st\<lparr>pages := m\<rparr>) L"
    by (rule lists_matched [OF mem_okD(3,4) [OF ok]]) (auto simp: sl_get_def [of "HeadPtr _"] intro: c(2))
  moreover have "direct (insert (n, k) A) T = insert (n, k) (direct A T)" using c(3) by (auto simp: direct_def)
  moreover have "(n, k) \<notin> A" using m(2) by force
  moreover have "block_ok (n, k)" using m(1) by (auto simp: buddy_ok_def buddy_held_def buddy_state_def buddy_core_def layout_def)
  ultimately show ?thesis using al c(1) mem_okD(4-6) [OF ok] pool_take [OF po, of A] by (auto simp: mem_ok_def slub_inv_def)
qed simp

lemma SLUB_BUDDY: "SLUB_MAX < BUDDY_MAX"
  by (simp add: size_class_consts BUDDY_MAX_def MAX_ORDER_def)

text \<open>The order of a request that is too large for the slab allocator.\<close>

lemma request_order:
  assumes "SLUB_MAX < e" "e \<le> BUDDY_MAX"
  obtains c where "clog2 e = Some c" "c - FRAME_SHIFT \<le> MAX_ORDER" "e \<le> 4096 * 2 ^ (c - FRAME_SHIFT)"
    "\<And>j. j < c - FRAME_SHIFT \<Longrightarrow> 4096 * 2 ^ j < e"
proof -
  obtain c where c: "clog2 e = Some c" using assms(1) by (auto simp: clog2_def)
  note b = clog2_bounds [OF c]
  have "c \<le> 22"
  proof (rule ccontr)
    assume "\<not> c \<le> 22"
    then have "(2::nat) ^ 22 \<le> 2 ^ (c - 1)" by (intro power_increasing) auto
    then show False using b(2) \<open>\<not> c \<le> 22\<close> assms(2) by (simp add: BUDDY_MAX_def MAX_ORDER_def)
  qed
  then have "c - FRAME_SHIFT \<le> MAX_ORDER" by (simp add: FRAME_SHIFT_def MAX_ORDER_def)
  moreover have "e \<le> 4096 * 2 ^ (c - FRAME_SHIFT)"
  proof -
    have "(2::nat) ^ c \<le> 2 ^ (12 + (c - 12))" by (intro power_increasing) auto
    then show ?thesis using b(1) by (simp add: power_add FRAME_SHIFT_def)
  qed
  moreover have "4096 * 2 ^ j < e" if "j < c - FRAME_SHIFT" for j
  proof -
    have "(2::nat) ^ (12 + j) \<le> 2 ^ (c - 1)" using that by (intro power_increasing) (auto simp: FRAME_SHIFT_def)
    moreover have "0 < c" using that by simp
    ultimately show ?thesis using b(2) by (simp add: power_add)
  qed
  ultimately show thesis using that c by blast
qed

lemma block_aligned:
  assumes "block_ok (n, k)" "2 ^ a \<le> (4096::nat) * 2 ^ k"
  shows "2 ^ a dvd unat (PHYSICAL_MEMORY_OFFSET + frame_addr n)"
proof -
  have n: "n < max_frames" and k: "k \<le> 10" "2 ^ k dvd n" using assms(1) block_first [OF assms(1)] by (auto simp: block_ok_def MAX_ORDER_def)
  have "(2::nat) ^ a \<le> 2 ^ (12 + k)" using assms(2) by (simp add: power_add)
  then have a: "a \<le> 12 + k" by (rule power_le_imp_le_exp [rotated]) simp
  have "(2::nat) ^ a dvd 2 ^ (12 + k)" using a by (rule le_imp_power_dvd)
  also have "\<dots> dvd 4096 * n" using k(2) by (simp add: power_add mult_dvd_mono)
  finally have 1: "2 ^ a dvd 4096 * n" .
  have "(2::nat) ^ a dvd 2 ^ 44" using a k(1) by (intro le_imp_power_dvd) simp
  then have "2 ^ a dvd (17592186044416::nat)" by simp
  moreover have "(0xFFFF800000000000::nat) = 17592186044416 * 0xFFFF8" by simp
  ultimately have "2 ^ a dvd (0xFFFF800000000000::nat)" by (metis dvd_mult2)
  then show ?thesis unfolding unat_direct [OF n] using 1 by (rule dvd_add)
qed

lemma direct_alloc_effect:
  assumes ok: "mem_ok st F A T L"
  shows "sz = 0 \<and> direct_alloc sz (2 ^ a) st = Some (Inr ZST_SENTINEL, st) \<or>
    0 < sz \<and> BUDDY_MAX < max sz (2 ^ a) \<and> direct_alloc sz (2 ^ a) st = Some (Inl SizeTooBig, st) \<or>
    0 < sz \<and> (\<forall>b\<in>fblocks F. 4096 * 2 ^ snd b < max sz (2 ^ a)) \<and> direct_alloc sz (2 ^ a) st = Some (Inl OutOfMemory, st) \<or>
    (\<exists>p c st' F' A' T' L'. 0 < sz \<and> direct_alloc sz (2 ^ a) st = Some (Inr p, st') \<and> mem_ok st' F' A' T' L' \<and> (p, c) \<notin> allocs A T \<and>
       allocs A' T' = insert (p, c) (allocs A T) \<and> sz \<le> c \<and> 2 ^ a dvd unat p \<and> pool F' A' = pool F A)"
proof -
  let ?e = "max sz (2 ^ a)"
  note c = mem_okD(2) [OF ok]
  consider "sz = 0" | "0 < sz" "?e \<le> SLUB_MAX" | "0 < sz" "SLUB_MAX < ?e" "?e \<le> BUDDY_MAX" | "0 < sz" "BUDDY_MAX < ?e" by linarith
  then show ?thesis
  proof cases
    case 2
    then have d: "direct_alloc sz (2 ^ a) st = slub_alloc sz (2 ^ a) st" by (simp add: direct_alloc_def)
    have "sz \<le> SLUB_MAX" "2 ^ a \<le> SLUB_MAX" using 2(2) by auto
    from slub_alloc_effect [OF mem_okD(1) [OF ok] 2(1) this] show ?thesis
    proof (elim disjE exE conjE)
      fix p b st' F' A' T' L' assume s: "slub_alloc sz (2 ^ a) st = Some (Inr p, st')" "slub_inv st' F' A' T' L'" "\<forall>b. (p, b) \<notin> live T"
        "live T' = insert (p, b) (live T)" "sz \<le> b" "2 ^ a dvd unat p" "direct A' T' = direct A T" "pool F' A' = pool F A"
      have ok': "mem_ok st' F' A' T' L'" using s(2,8) mem_okD(6) [OF ok] by (simp add: mem_ok_def)
      have "(p, b) \<notin> block_range ` direct A T"
      proof
        assume "(p, b) \<in> block_range ` direct A T"
        then obtain x where "(p, b) = block_range x" "x \<in> direct A' T'" using s(7) by auto
        moreover have l: "(p, b) \<in> live T'" using s(4) by simp
        ultimately have "span_of (p, b) = {}" using live_block_apart [OF mem_okD(2) [OF ok'], of "(p, b)" x] by auto
        then show False using alloc_inside(2) [OF mem_okD(2) [OF ok'], of "(p, b)"] l by (auto simp: allocs_def)
      qed
      then have "(p, b) \<notin> allocs A T" "allocs A' T' = insert (p, b) (allocs A T)" using s(3,4,7) by (auto simp: allocs_def)
      then show ?thesis using 2(1) s ok' d by (intro disjI2 exI [of _ p] exI [of _ b] exI [of _ st'] exI [of _ F'] exI [of _ A'] exI [of _ T'] exI [of _ L']) simp
    qed (use 2(1) d in simp)
  next
    case 3
    obtain k where k: "clog2 ?e = Some k" "k - FRAME_SHIFT \<le> MAX_ORDER" "?e \<le> 4096 * 2 ^ (k - FRAME_SHIFT)"
      and j: "\<And>j. j < k - FRAME_SHIFT \<Longrightarrow> 4096 * 2 ^ j < ?e" by (rule request_order [OF 3(2,3)]) blast
    let ?k = "k - FRAME_SHIFT"
    from buddy_claim [OF ok k(2)] show ?thesis
    proof (elim disjE exE conjE)
      assume "\<forall>b\<in>fblocks F. snd b < ?k" "buddy_alloc ?k (pages st) = Some (Inl OutOfMemory, pages st)"
      then have "\<forall>b\<in>fblocks F. 4096 * 2 ^ snd b < ?e" "direct_alloc sz (2 ^ a) st = Some (Inl OutOfMemory, st)"
        using j 3 k(1) by (auto simp: direct_alloc_def Let_def)
      then show ?thesis using 3(1) by blast
    next
      fix n m F' assume s: "buddy_alloc ?k (pages st) = Some (Inr (frame_addr n), m)" "mem_ok (st\<lparr>pages := m\<rparr>) F' (insert (n, ?k) A) T L"
        "direct (insert (n, ?k) A) T = insert (n, ?k) (direct A T)" "(n, ?k) \<notin> A" "block_ok (n, ?k)" "pool F' (insert (n, ?k) A) = pool F A"
      have n: "n < max_frames" using block_first [OF s(5)] by simp
      let ?r = "block_range (n, ?k)"
      have d: "direct_alloc sz (2 ^ a) st = Some (Inr (fst ?r), st\<lparr>pages := m\<rparr>)"
        using 3 k(1) s(1) phys_to_virt_frame [OF n] by (auto simp: direct_alloc_def Let_def block_range_def)
      have e: "allocs (insert (n, ?k) A) T = insert ?r (allocs A T)" by (auto simp: allocs_def s(3))
      have new: "?r \<notin> allocs A T"
      proof
        assume r: "?r \<in> allocs A T"
        note c' = mem_okD(2) [OF s(2)]
        have D: "(n, ?k) \<in> direct (insert (n, ?k) A) T" using s(3) by simp
        have "?r \<notin> live T" using live_block_apart [OF c' _ D, of ?r] alloc_inside(2) [OF c', of ?r] e by auto
        then obtain b where b: "?r = block_range b" "b \<in> direct A T" using r by (auto simp: allocs_def)
        then have "b \<noteq> (n, ?k)" "b \<in> insert (n, ?k) A" using s(4) by (auto simp: direct_def)
        then have "frame_bytes (blk b) \<inter> frame_bytes (blk (n, ?k)) = {}" by (intro blocks_apart [OF c']) auto
        moreover have "b \<in> direct (insert (n, ?k) A) T" using b(2) s(3) by simp
        ultimately have "span_of ?r = {}" using direct_block(4) [OF c', of b] direct_block(4) [OF c' D] b(1) by simp
        then show False using alloc_inside(2) [OF c', of ?r] e by auto
      qed
      have "sz \<le> snd ?r" "2 ^ a \<le> snd ?r" using k(3) by (auto simp: block_range_def)
      then have "2 ^ a dvd unat (fst ?r)" using block_aligned [OF s(5), of a] by (simp add: block_range_def)
      then show ?thesis using 3(1) d s(2,6) new e \<open>sz \<le> snd ?r\<close> by (metis prod.collapse)
    qed
  next
    case 4
    then have "\<not> max sz (2 ^ a) \<le> SLUB_MAX" "\<not> max sz (2 ^ a) \<le> BUDDY_MAX" "sz \<noteq> 0" using SLUB_BUDDY by linarith+
    then have "direct_alloc sz (2 ^ a) st = Some (Inl SizeTooBig, st)" unfolding direct_alloc_def Let_def by (simp only: if_False)
    then show ?thesis using 4 by blast
  qed (simp add: direct_alloc_def)
qed

section \<open>Release\<close>

lemma direct_free_block:
  assumes ok: "mem_ok st F A T L" and b: "(n, k) \<in> direct A T"
  shows "\<exists>m F'. direct_free (fst (block_range (n, k))) st = Some (st\<lparr>pages := m\<rparr>) \<and> mem_ok (st\<lparr>pages := m\<rparr>) F' (A - {(n, k)}) T L \<and>
    pool F' (A - {(n, k)}) = pool F A"
proof -
  let ?p = "PHYSICAL_MEMORY_OFFSET + frame_addr n"
  note c = mem_okD(2) [OF ok] and B = direct_block [OF mem_okD(2) [OF ok] b]
  have n: "n < max_frames" "T n = None" "(n, k) \<in> A" using B by simp_all
  have ty: "fty (pages st) n = Some FBuddyAllocated" using c n(2,3) by (auto simp: slub_core_def)
  then have "bl_node (pages st) (fptr n)" "bl_order (pages st) (fptr n) = k" using mem_okD(9) [OF ok] n(3) by (auto simp: orders_def)
  then obtain bl where bl: "bl_get (fptr n) (pages st) = Some bl" "border bl = k" by (auto simp: bl_fields)
  obtain m F' where m: "buddy_free (frame_addr n) k (pages st) = Some m" "slub_core (st\<lparr>pages := m\<rparr>) F' (A - {(n, k)}) (T(n := None))"
    "pool F' (A - {(n, k)}) = pool F A"
    and g: "\<And>x. T x \<noteq> None \<Longrightarrow> x \<noteq> n \<Longrightarrow> sl_get (fptr x) (st\<lparr>pages := m\<rparr>) = sl_get (fptr x) st"
    by (rule core_release [OF c n(3)]) blast
  have T: "T(n := None) = T" using n(2) by (simp add: fun_upd_idem)
  have "slab_lists (st\<lparr>pages := m\<rparr>) L"
  proof (rule lists_matched [OF mem_okD(3,4) [OF ok]])
    show "sl_get (fptr x) (st\<lparr>pages := m\<rparr>) = sl_get (fptr x) st" if "T x \<noteq> None" for x using that n(2) by (intro g) auto
  qed (simp add: sl_get_def)
  then have "mem_ok (st\<lparr>pages := m\<rparr>) F' (A - {(n, k)}) T L"
    using m(2,3) mem_okD(4-6) [OF ok] by (simp add: mem_ok_def slub_inv_def T)
  moreover have "block_range (n, k) \<in> allocs A T" using b by (simp add: allocs_def)
  then have "?p \<noteq> ZST_SENTINEL" using alloc_not_sentinel [OF ok, of ?p] by (simp add: block_range_def)
  moreover have "frame_ty (fi_of n) (fis (pages st)) = Some FBuddyAllocated" using ty n(1) by (simp add: fty_def)
  ultimately show ?thesis using m(1,3) bl virt_to_phys_frame [OF n(1)]
    by (auto simp: direct_free_def block_range_def Let_def fi_of_def [symmetric] fptr_def)
qed

lemma direct_free_effect:
  assumes ok: "mem_ok st F A T L" and r: "(p, a) \<in> allocs A T"
  shows "\<exists>st' F' A' T' L'. direct_free p st = Some st' \<and> mem_ok st' F' A' T' L' \<and> allocs A' T' = allocs A T - {(p, a)} \<and> pool F' A' = pool F A"
proof -
  note c = mem_okD(2) [OF ok]
  have ne: "span_of (p, a) \<noteq> {}" using alloc_inside(2) [OF c r] by auto
  have "(p, a) \<in> live T \<union> block_range ` direct A T" using r by (simp add: allocs_def)
  then show ?thesis
  proof (elim UnE imageE)
    assume l: "(p, a) \<in> live T"
    then obtain n i fs where n: "T n = Some (i, fs)" "p \<in> slots n i" by (auto simp: live_iff)
    then have k: "n < max_frames" "i < NUM_SIZE_CLASSES" "fty (pages st) n = Some FSlab" using c by (auto simp: slub_core_def slab_ok_def)
    obtain phys where ph: "virt_to_phys p = Some phys" "frame_info_addr phys = fi_of n" using slot_frame [OF k(1,2) n(2)] by blast
    have "frame_ty (fi_of n) (fis (pages st)) = Some FSlab" using k by (simp add: fty_def)
    then have d: "direct_free p st = slub_free p st" using ph alloc_not_sentinel [OF ok r] by (simp add: direct_free_def)
    from slub_free_effect [OF mem_okD(1) [OF ok] l] obtain st' F' A' T' L' where s: "slub_free p st = Some st'" "slub_inv st' F' A' T' L'"
      "live T' = live T - {(p, a)}" "direct A' T' = direct A T" "pool F' A' = pool F A" by blast
    have "(p, a) \<notin> block_range ` direct A T"
    proof
      assume "(p, a) \<in> block_range ` direct A T"
      then obtain b where "(p, a) = block_range b" "b \<in> direct A T" by (rule imageE)
      then show False using live_block_apart [OF c l, of b] ne by simp
    qed
    then have "allocs A' T' = allocs A T - {(p, a)}" using s(3,4) by (auto simp: allocs_def)
    moreover have "mem_ok st' F' A' T' L'" using s(2,5) mem_okD(6) [OF ok] by (simp add: mem_ok_def)
    ultimately show ?thesis using s(1,5) d by metis
  next
    fix b assume b: "(p, a) = block_range b" "b \<in> direct A T"
    obtain n k where nk: "b = (n, k)" by (cases b)
    from direct_free_block [OF ok, of n k] b nk obtain m F' where m: "direct_free p st = Some (st\<lparr>pages := m\<rparr>)"
      "mem_ok (st\<lparr>pages := m\<rparr>) F' (A - {b}) T L" "pool F' (A - {b}) = pool F A" by (metis fst_conv)
    have "(p, a) \<notin> live T" using live_block_apart [OF c _ b(2), of "(p, a)"] b(1) ne by auto
    moreover have "(p, a) \<notin> block_range ` (direct A T - {b})"
    proof
      assume "(p, a) \<in> block_range ` (direct A T - {b})"
      then obtain b' where b': "(p, a) = block_range b'" "b' \<in> direct A T" "b' \<noteq> b" by auto
      then have "frame_bytes (blk b') \<inter> frame_bytes (blk b) = {}" using b direct_block(2) [OF c] by (intro blocks_apart [OF c]) auto
      then show False using direct_block(4) [OF c b(2)] direct_block(4) [OF c b'(2)] b(1) b'(1) ne by simp
    qed
    moreover have "direct (A - {b}) T = direct A T - {b}" by (auto simp: direct_def)
    moreover have "block_range ` direct A T = insert (p, a) (block_range ` (direct A T - {b}))" unfolding b(1) using b(2) by blast
    ultimately have "allocs (A - {b}) T = allocs A T - {(p, a)}" unfolding allocs_def by blast
    then show ?thesis using m by metis
  qed
qed

section \<open>Correctness\<close>

text \<open>
  C6. A direct allocation with a power of two as alignment answers every request: the sentinel for an empty one, an
  error for one that is too large or for which no free block is left, and otherwise an allocation that is large
  enough, aligned and apart from every allocation in use, wherever it comes from.  No frame is lost.
\<close>

theorem direct_alloc_correct:
  assumes "mem_ok st F A T L"
  shows "sz = 0 \<and> direct_alloc sz (2 ^ a) st = Some (Inr ZST_SENTINEL, st) \<or>
    0 < sz \<and> BUDDY_MAX < max sz (2 ^ a) \<and> direct_alloc sz (2 ^ a) st = Some (Inl SizeTooBig, st) \<or>
    0 < sz \<and> (\<forall>b\<in>fblocks F. 4096 * 2 ^ snd b < max sz (2 ^ a)) \<and> direct_alloc sz (2 ^ a) st = Some (Inl OutOfMemory, st) \<or>
    (\<exists>p c st' F' A' T' L'. 0 < sz \<and> direct_alloc sz (2 ^ a) st = Some (Inr p, st') \<and> mem_ok st' F' A' T' L' \<and>
       allocs A' T' = insert (p, c) (allocs A T) \<and> (\<forall>r\<in>allocs A T. span_of (p, c) \<inter> span_of r = {}) \<and>
       sz \<le> c \<and> 2 ^ a dvd unat p \<and> p \<noteq> ZST_SENTINEL \<and> pool F' A' = pool F A)"
  using direct_alloc_effect [OF assms, of sz a]
proof (elim disjE exE conjE)
  fix p c st' F' A' T' L'
  assume s: "0 < sz" "direct_alloc sz (2 ^ a) st = Some (Inr p, st')" "mem_ok st' F' A' T' L'" "(p, c) \<notin> allocs A T"
    "allocs A' T' = insert (p, c) (allocs A T)" "sz \<le> c" "2 ^ a dvd unat p" "pool F' A' = pool F A"
  have "span_of (p, c) \<inter> span_of r = {}" if "r \<in> allocs A T" for r
    using s(4,5) that by (intro allocs_apart [OF mem_okD(2) [OF s(3)]]) auto
  moreover have "p \<noteq> ZST_SENTINEL" using alloc_not_sentinel [OF s(3), of p c] s(5) by simp
  ultimately show ?thesis using s by blast
qed simp_all

text \<open>
  C8. Releasing an allocation succeeds whichever allocator it came from, ends exactly this allocation and returns its
  memory without losing a frame; releasing the sentinel changes nothing.
\<close>

theorem direct_free_correct:
  assumes "mem_ok st F A T L" and "(p, c) \<in> allocs A T"
  shows "(\<exists>st' F' A' T' L'. direct_free p st = Some st' \<and> mem_ok st' F' A' T' L' \<and> allocs A' T' = allocs A T - {(p, c)} \<and>
      pool F' A' = pool F A) \<and> direct_free ZST_SENTINEL st = Some st"
  using direct_free_effect [OF assms] by (simp add: direct_free_def)

lemma mem_demo: "\<exists>st F. mem_ok st F {} (\<lambda>n. None) (\<lambda>i. []) \<and> pool F {} = {3..<8}"
proof -
  obtain s F where s: "buddy_ok s F {}" "frames (fblocks F) = {3..<8}" using demo_range by blast
  let ?st = "\<lparr>slabs = slub_dummy, size_lookup = [], cells = (\<lambda>a. 0), pages = s\<rparr>"
  have "length (slabs ?st) = NUM_SIZE_CLASSES" "buddy_ok (pages ?st) F {}" using s by (simp_all add: slub_dummy_def)
  then obtain st where "slub_inv st F {} (\<lambda>n. None) (\<lambda>i. [])" by (rule slub_init_ok)
  moreover have "pool F {} = {3..<8}" using s(2) by (simp add: pool_def)
  ultimately have "mem_ok st F {} (\<lambda>n. None) (\<lambda>i. [])" by (simp add: mem_ok_def)
  then show ?thesis using \<open>pool F {} = {3..<8}\<close> by blast
qed

lemma allocs_none: "allocs {} (\<lambda>n. None) = {}"
  by (simp add: allocs_def live_def live_in_def direct_def)

lemma small_request:
  assumes "pool F {} = {3..<8}"
  shows "\<not> (\<forall>b\<in>fblocks F. 4096 * 2 ^ snd b < max 24 (2 ^ 12 :: nat))" "\<not> BUDDY_MAX < max 24 (2 ^ 12)"
proof -
  have "fblocks F \<noteq> {}" using assms by (auto simp: pool_def frames_def)
  then obtain b where b: "b \<in> fblocks F" by blast
  have "1 \<le> (2::nat) ^ snd b" by simp
  then have "4096 * 1 \<le> 4096 * (2::nat) ^ snd b" by (rule mult_le_mono2)
  then have "\<not> 4096 * 2 ^ snd b < max 24 (2 ^ 12 :: nat)" by simp
  then show "\<not> (\<forall>b\<in>fblocks F. 4096 * 2 ^ snd b < max 24 (2 ^ 12 :: nat))" using b by blast
  show "\<not> BUDDY_MAX < max 24 (2 ^ 12)" by (simp add: BUDDY_MAX_def MAX_ORDER_def)
qed

theorem direct_alloc_correct_witness:
  "\<exists>st p c st' F' A' T' L'. direct_alloc 24 (2 ^ 12) st = Some (Inr p, st') \<and> mem_ok st' F' A' T' L' \<and>
     allocs A' T' = {(p, c)} \<and> 24 \<le> c \<and> 2 ^ 12 dvd unat p"
proof -
  obtain st F where m: "mem_ok st F {} (\<lambda>n. None) (\<lambda>i. [])" "pool F {} = {3..<8}" using mem_demo by blast
  from direct_alloc_correct [OF m(1), of 24 12] show ?thesis
  proof (elim disjE exE conjE)
    fix p c st' F' A' T' L' assume "direct_alloc 24 (2 ^ 12) st = Some (Inr p, st')" "mem_ok st' F' A' T' L'"
      "allocs A' T' = insert (p, c) (allocs {} (\<lambda>n. None))" "24 \<le> c" "2 ^ 12 dvd unat p"
    then show ?thesis unfolding allocs_none by blast
  qed (use small_request [OF m(2)] in \<open>blast | simp\<close>)+
qed

theorem direct_free_correct_witness:
  "\<exists>st p st' F' A' T' L'. direct_free p st = Some st' \<and> p \<noteq> ZST_SENTINEL \<and> mem_ok st' F' A' T' L' \<and> allocs A' T' = {} \<and> pool F' A' = {3..<8}"
proof -
  obtain st F where m: "mem_ok st F {} (\<lambda>n. None) (\<lambda>i. [])" "pool F {} = {3..<8}" using mem_demo by blast
  from direct_alloc_effect [OF m(1), of 24 12] show ?thesis
  proof (elim disjE exE conjE)
    fix p c st' F' A' T' L' assume s: "mem_ok st' F' A' T' L'" "allocs A' T' = insert (p, c) (allocs {} (\<lambda>n. None))" "pool F' A' = pool F {}"
    then have r: "(p, c) \<in> allocs A' T'" by simp
    from direct_free_correct [OF s(1) r] obtain st2 F2 A2 T2 L2 where f: "direct_free p st' = Some st2" "mem_ok st2 F2 A2 T2 L2"
      "allocs A2 T2 = allocs A' T' - {(p, c)}" "pool F2 A2 = pool F' A'" by blast
    have "allocs A2 T2 = {}" using f(3) s(2) unfolding allocs_none by simp
    moreover have "pool F2 A2 = {3..<8}" using f(4) s(3) m(2) by simp
    ultimately show ?thesis using f(1,2) alloc_not_sentinel [OF s(1) r] by blast
  qed (use small_request [OF m(2)] in \<open>blast | simp\<close>)+
qed

end
