(* ===== verification/Boot_Claim.thy ===== *)
theory Boot_Claim
  imports Boot_Alloc Memory
begin

text \<open>
  The hand-over of physical memory from the boot allocator to the buddy allocator (\<^verbatim>\<open>memory/boot_alloc.rs\<close>,
  \<^verbatim>\<open>memory/bootstrap.rs\<close>): first all whole pages of free spans, later, when the boot data are no longer needed, all
  whole pages of free or reclaimable memory.  A panic is a value of \<^typ>\<open>boot_error\<close>; a failed assertion of the buddy
  allocator is \<^const>\<open>AssertFailed\<close>.
\<close>

section \<open>Claiming free ranges\<close>

definition align_down :: "nat \<Rightarrow> nat" where
  "align_down n = n - n mod 4096"

definition align_up :: "nat \<Rightarrow> nat" where
  "align_up n = next_multiple n 4096"

definition bind_boot :: "boot_error + 'a \<Rightarrow> ('a \<Rightarrow> boot_error + 'b) \<Rightarrow> boot_error + 'b" where
  "bind_boot r f = (case r of Inl e \<Rightarrow> Inl e | Inr x \<Rightarrow> f x)"

definition add_range_boot :: "nat \<Rightarrow> nat \<Rightarrow> frame_mem \<Rightarrow> boot_error + frame_mem" where
  "add_range_boot a b m = (case buddy_add_range (of_nat a) (of_nat b) m of None \<Rightarrow> Inl AssertFailed | Some m \<Rightarrow> Inr m)"

definition claim_span :: "(bspan, nat) location \<Rightarrow> boot_alloc \<Rightarrow> frame_mem \<Rightarrow> boot_error + boot_alloc \<times> frame_mem" where
  "claim_span node s m =
     (let span = loc_value node in
      if bs_type span = Free then
        let start = align_up (bs_start span); stop = align_down (bs_end span) in
        if stop > start then
          bind_boot (add_range_boot start stop m) (\<lambda>m.
          let (_, s) = boot_remove s node in
          bind_boot (boot_insert s (bspan_new start stop InUse)) (\<lambda>s.
          bind_boot (if bs_start span < start then boot_insert s (bspan_new (bs_start span) start Free) else Inr s) (\<lambda>s.
          bind_boot (if stop < bs_end span then boot_insert s (bspan_new stop (bs_end span) Free) else Inr s) (\<lambda>s.
          Inr (s, m)))))
        else Inr (s, m)
      else Inr (s, m))"

partial_function (option) claim_loop :: "nat \<Rightarrow> boot_alloc \<Rightarrow> frame_mem \<Rightarrow> (boot_error + boot_alloc \<times> frame_mem) option" where
  "claim_loop addr s m =
     (case first_loc (\<lambda>x. bs_start x \<ge> addr) (boot_tree s) of
        None \<Rightarrow> Some (Inr (s, m))
      | Some node \<Rightarrow>
          (case claim_span node s m of
             Inl e \<Rightarrow> Some (Inl e)
           | Inr (s, m) \<Rightarrow> claim_loop (bs_end (loc_value node)) s m))"

definition claim_free_ranges :: "boot_alloc \<Rightarrow> frame_mem \<Rightarrow> (boot_error + boot_alloc \<times> frame_mem) option" where
  "claim_free_ranges s m = claim_loop 0 (compact s) m"

section \<open>Reclaiming\<close>

text \<open>The iterator over the ranges of usable memory stands at a node of the tree, or at the end.\<close>

type_synonym reclaim_iter = "(bspan, nat) location option"

definition reclaimable_range_iter :: "boot_alloc \<Rightarrow> reclaim_iter" where
  "reclaimable_range_iter s = tree_lowest (boot_tree s)"

partial_function (option) skip_unusable :: "reclaim_iter \<Rightarrow> reclaim_iter option" where
  "skip_unusable it =
     (case it of
        None \<Rightarrow> Some None
      | Some node \<Rightarrow> if is_usable (bs_type (loc_value node)) then Some (Some node) else skip_unusable (tree_successor node))"

partial_function (option) extend_range :: "nat \<Rightarrow> reclaim_iter \<Rightarrow> (nat \<times> reclaim_iter) option" where
  "extend_range end_addr it =
     (case it of
        None \<Rightarrow> Some (end_addr, None)
      | Some s \<Rightarrow>
          if bs_start (loc_value s) \<noteq> end_addr \<or> \<not> is_usable (bs_type (loc_value s)) then Some (end_addr, Some s)
          else extend_range (bs_end (loc_value s)) (tree_successor s))"

partial_function (option) reclaim_next :: "reclaim_iter \<Rightarrow> ((nat \<times> nat) option \<times> reclaim_iter) option" where
  "reclaim_next it = do {
     it \<leftarrow> skip_unusable it;
     case it of
       None \<Rightarrow> Some (None, None)
     | Some node \<Rightarrow> do {
         (end_addr, succ) \<leftarrow> extend_range (bs_end (loc_value node)) (tree_successor node);
         let s = align_up (bs_start (loc_value node));
         let e = align_down end_addr;
         if s < e then Some (Some (s, e), succ) else reclaim_next succ } }"

partial_function (option) reclaim_loop :: "nat \<Rightarrow> reclaim_iter \<Rightarrow> frame_mem \<Rightarrow> (boot_error + nat \<times> frame_mem) option" where
  "reclaim_loop bytes it m = do {
     (r, it) \<leftarrow> reclaim_next it;
     case r of
       None \<Rightarrow> Some (Inr (bytes, m))
     | Some (a, b) \<Rightarrow>
         (case add_range_boot a b m of
            Inl e \<Rightarrow> Some (Inl e)
          | Inr m \<Rightarrow> reclaim_loop (bytes + (b - a)) it m) }"

definition reclaimer_drop :: "boot_alloc \<Rightarrow> frame_mem \<Rightarrow> (boot_error + nat \<times> frame_mem) option" where
  "reclaimer_drop s m = reclaim_loop 0 (reclaimable_range_iter s) m"

section \<open>Adding ranges of frames\<close>

text \<open>No operation on the free lists makes a descriptor disappear.\<close>

definition types_kept :: "frame_mem \<Rightarrow> frame_mem \<Rightarrow> bool" where
  "types_kept s s' \<longleftrightarrow> (\<forall>gi. frame_ty gi (fis s) \<noteq> None \<longrightarrow> frame_ty gi (fis s') \<noteq> None)"

lemma types_kept_refl: "types_kept s s"
  by (simp add: types_kept_def)

lemma types_kept_trans: "types_kept s s1 \<Longrightarrow> types_kept s1 s2 \<Longrightarrow> types_kept s s2"
  by (simp add: types_kept_def)

lemma bl_set_kept: "bl_set p b s = Some s' \<Longrightarrow> types_kept s s'"
  by (auto simp: bl_set_def types_kept_def frame_ty_def split: list_ptr.splits if_splits Option.bind_splits)

lemma bl_insert_kept: "bl_insert p q s = Some s' \<Longrightarrow> types_kept s s'"
  by (auto simp: bl_insert_def bl_set_next_def bl_set_prev_def split: Option.bind_splits dest!: bl_set_kept intro: types_kept_trans)

lemma mem_set_ty_kept: "mem_set_ty fi t s = Some s' \<Longrightarrow> types_kept s s'"
  by (auto simp: mem_set_ty_def set_ty_def types_kept_def frame_ty_def ty_set_ty_flags split: Option.bind_splits if_splits)

lemma mark_tails_kept: "mark_tails as s = Some s' \<Longrightarrow> types_kept s s'"
proof (induction as arbitrary: s)
  case (Cons a as)
  then obtain s1 where "mem_set_ty (frame_info_addr a) FBuddyTail s = Some s1" "mark_tails as s1 = Some s'"
    by (auto split: Option.bind_splits)
  then show ?case using Cons.IH mem_set_ty_kept types_kept_trans by blast
qed (simp add: types_kept_refl)

lemma add_blocks_kept: "add_blocks a e s = Some s' \<Longrightarrow> types_kept s s'"
proof (induction a e s rule: add_blocks.induct)
  case (1 a e s)
  show ?case
  proof (cases "a < e")
    case True
    let ?k = "range_order a e" and ?fi = "frame_info_addr a"
    have n: "\<not> ilog2 (unat (e - a)) < FRAME_SHIFT" using 1(2) True by (subst (asm) add_blocks.simps) (auto split: if_splits)
    then obtain s1 s2 s3 where s: "bl_insert (HeadPtr ?k) (FramePtr ?fi) s = Some s1" "mem_set_ty ?fi FBuddy s1 = Some s2"
      "mark_tails (step_frames (a + FRAME_BYTES) e) s2 = Some s3" "add_blocks (a + push_bit (?k + FRAME_SHIFT) 1) e s3 = Some s'"
      using 1(2) True by (subst (asm) add_blocks.simps) (auto simp: Let_def split: Option.bind_splits)
    then have "types_kept s3 s'" using 1(1) [OF True n refl refl s(1-3) s(4)] by blast
    from types_kept_trans [OF bl_insert_kept [OF s(1)] types_kept_trans [OF mem_set_ty_kept [OF s(2)] types_kept_trans [OF mark_tails_kept [OF s(3)] this]]]
    show ?thesis .
  qed (use 1(2) in \<open>subst (asm) add_blocks.simps, simp add: types_kept_refl\<close>)
qed

text \<open>Reserved frames are added; the others stay as they are.\<close>

definition addable :: "frame_mem \<Rightarrow> nat set \<Rightarrow> bool" where
  "addable m N \<longleftrightarrow> (\<forall>n\<in>N. n < max_frames \<and> fty m n = Some FReserved)"

lemma add_range_boot_ok:
  assumes ok: "buddy_ok m F A" and ab: "a \<le> b" "b \<le> max_frames" and N: "addable m N" "{a..<b} \<subseteq> N"
  obtains m' F' where "add_range_boot (4096 * a) (4096 * b) m = Inr m'" "buddy_ok m' F' A"
    "frames (fblocks F') = frames (fblocks F) \<union> {a..<b}" "addable m' (N - {a..<b})"
proof -
  have "\<forall>i\<in>{a..<b}. fty m i = Some FReserved" using N by (auto simp: addable_def)
  from buddy_add_range_effect [OF ok [unfolded buddy_ok_def] ab this]
  obtain m' F' where m: "buddy_add_range (frame_addr a) (frame_addr b) m = Some m'" "buddy_ok m' F' A"
    "frames (fblocks F') = frames (fblocks F) \<union> {a..<b}" unfolding buddy_ok_def by blast
  have e: "(of_nat (4096 * x) :: 64 word) = frame_addr x" for x by (simp add: frame_addr_def FRAME_BYTES_def)
  have kept: "types_kept m m'" using m(1) add_blocks_kept by (auto simp: buddy_add_range_def split: if_splits)
  have T: "typed (fty s) (fblocks G) A {}" if "buddy_ok s G A" for s G
    using that by (simp add: buddy_ok_def buddy_held_def buddy_state_def)
  have "fty m' n = Some FReserved" if n: "n \<in> N - {a..<b}" for n
  proof -
    have r: "n < max_frames" "fty m n = Some FReserved" using N(1) n by (auto simp: addable_def)
    have "n \<notin> blk c" if c: "c \<in> fblocks F \<union> A" for c
    proof
      assume "n \<in> blk c"
      then have "fty m n \<noteq> Some FReserved" using T [OF ok] c by (cases "n = fst c") (auto simp: typed_def)
      then show False using r(2) by simp
    qed
    then have "n \<notin> frames (fblocks F' \<union> A)" using m(3) n by (auto simp: frames_Un frames_def)
    moreover have "fty m' n \<noteq> None" using kept r by (auto simp: types_kept_def fty_def)
    ultimately show ?thesis using T [OF m(2)] r(1) by (simp add: typed_def)
  qed
  then have "addable m' (N - {a..<b})" using N(1) by (auto simp: addable_def)
  then show thesis using that m by (simp only: add_range_boot_def e option.case)
qed

section \<open>Whole pages\<close>

definition page :: "nat \<Rightarrow> nat set" where
  "page n = {4096 * n..<4096 * Suc n}"

definition whole :: "nat set \<Rightarrow> nat set" where
  "whole P = {n. page n \<subseteq> P}"

lemma align_up_spec:
  "a \<le> align_up a" "4096 * (align_up a div 4096) = align_up a" "a \<le> 4096 * n \<longleftrightarrow> align_up a div 4096 \<le> n"
proof -
  note m = next_multiple_spec [of 4096 a, folded align_up_def, simplified]
  show 1: "a \<le> align_up a" by (rule m(1))
  show 2: "4096 * (align_up a div 4096) = align_up a" using m(2) by simp
  show "a \<le> 4096 * n \<longleftrightarrow> align_up a div 4096 \<le> n"
  proof
    assume "a \<le> 4096 * n"
    then have "align_up a \<le> 4096 * n" by (intro m(3)) auto
    then have "align_up a div 4096 \<le> 4096 * n div 4096" by (rule div_le_mono)
    then show "align_up a div 4096 \<le> n" by simp
  next
    assume "align_up a div 4096 \<le> n"
    then have "4096 * (align_up a div 4096) \<le> 4096 * n" by (rule mult_le_mono2)
    then show "a \<le> 4096 * n" using 1 2 by linarith
  qed
qed

lemma align_down_spec: "align_down b \<le> b" "4096 * (align_down b div 4096) = align_down b" "align_down b div 4096 = b div 4096"
proof -
  have e: "align_down b = 4096 * (b div 4096)" by (simp add: align_down_def minus_mod_eq_mult_div)
  show "align_down b \<le> b" by (simp add: align_down_def)
  show "4096 * (align_down b div 4096) = align_down b" "align_down b div 4096 = b div 4096" unfolding e by simp_all
qed

lemma align_less: "align_up a < align_down b \<longleftrightarrow> align_up a div 4096 < align_down b div 4096"
proof -
  have "4096 * (align_up a div 4096) < 4096 * (align_down b div 4096) \<longleftrightarrow> align_up a div 4096 < align_down b div 4096" by simp
  then show ?thesis by (simp only: align_up_spec(2) align_down_spec(2))
qed

lemma whole_range: "whole {a..<b} = {align_up a div 4096..<align_down b div 4096}"
proof -
  have "page n \<subseteq> {a..<b} \<longleftrightarrow> a \<le> 4096 * n \<and> 4096 * Suc n \<le> b" for n
    unfolding page_def by (subst ivl_subset) auto
  moreover have "4096 * Suc n \<le> b \<longleftrightarrow> n < b div 4096" for n by (simp add: Suc_le_eq [symmetric] less_eq_div_iff_mult_less_eq mult.commute del: mult_Suc mult_Suc_right)
  ultimately show ?thesis by (auto simp: whole_def align_up_spec(3) align_down_spec(3))
qed

text \<open>A page cannot lie across a point that is not covered.\<close>

lemma whole_gap:
  assumes "P \<subseteq> {..<e}" "Q \<subseteq> {e<..}"
  shows "whole (P \<union> Q) = whole P \<union> whole Q"
proof -
  have "page n \<subseteq> P \<or> page n \<subseteq> Q" if n: "page n \<subseteq> P \<union> Q" for n
  proof -
    have "e \<notin> page n" using n assms by blast
    then have "page n \<subseteq> {..<e} \<or> page n \<subseteq> {e<..}" by (auto simp: page_def)
    then show ?thesis using n assms by fastforce
  qed
  then show ?thesis by (auto simp: whole_def)
qed

lemma whole_point: "p div 4096 \<in> whole P \<Longrightarrow> p \<in> P"
proof -
  assume "p div 4096 \<in> whole P"
  moreover have "p \<in> page (p div 4096)"
    using div_mult_mod_eq [of p 4096] mod_less_divisor [of 4096 p] by (simp add: page_def)
  ultimately show "p \<in> P" by (auto simp: whole_def)
qed

lemma whole_mono: "P \<subseteq> Q \<Longrightarrow> whole P \<subseteq> whole Q"
  by (auto simp: whole_def)

section \<open>Claiming\<close>

definition claimed :: "bspan \<Rightarrow> nat set" where
  "claimed x = (if bs_type x = Free then whole {bs_start x..<bs_end x} else {})"

definition claim_pieces :: "bspan \<Rightarrow> bspan list" where
  "claim_pieces x =
     (let a = align_up (bs_start x); b = align_down (bs_end x) in
      if bs_type x = Free \<and> a < b
      then (if bs_start x < a then [bspan_new (bs_start x) a Free] else []) @ [bspan_new a b InUse] @
           (if b < bs_end x then [bspan_new b (bs_end x) Free] else [])
      else [x])"

lemma boot_insert_gap:
  assumes ok: "boot_ok s" and f: "0 < free_nodes s" and xs: "inorder (boot_tree s) = ys @ zs" "disjoint bs_start bs_end (ys @ x # zs)"
  obtains s' where "boot_insert s x = Inr s'" "boot_ok s'" "inorder (boot_tree s') = ys @ x # zs" "free_nodes s' = free_nodes s - 1"
proof -
  have "rb_wf max_free (boot_tree s)" using ok by (simp add: boot_ok_def)
  note ins = bst.ins_gap [OF this xs]
  let ?s = "s\<lparr>boot_tree := tree_insert max_free bspan_cmp x (boot_tree s), free_nodes := free_nodes s - 1\<rparr>"
  have "boot_insert s x = Inr ?s" "boot_ok ?s" using f ins xs(2) by (simp_all add: boot_insert_def boot_ok_def)
  then show thesis using that ins(2) by simp
qed

text \<open>An optional insertion.\<close>

lemma boot_insert_opt:
  assumes "boot_ok s" "inorder (boot_tree s) = ys @ zs" "c \<longrightarrow> 0 < free_nodes s" "c \<longrightarrow> disjoint bs_start bs_end (ys @ x # zs)"
  shows "\<exists>s'. (if c then boot_insert s x else Inr s) = Inr s' \<and> boot_ok s' \<and> inorder (boot_tree s') = ys @ (if c then [x] else []) @ zs \<and>
    free_nodes s' + (if c then 1 else 0) = free_nodes s"
proof (cases c)
  case True
  have f: "0 < free_nodes s" "disjoint bs_start bs_end (ys @ x # zs)" using assms(3,4) True by simp_all
  obtain s' where "boot_insert s x = Inr s'" "boot_ok s'" "inorder (boot_tree s') = ys @ x # zs" "free_nodes s' = free_nodes s - 1"
    using boot_insert_gap [OF assms(1) f(1) assms(2) f(2)] by blast
  then show ?thesis using True f(1) by simp
qed (use assms in simp)

lemma disjoint_drop: "disjoint lo hi (us @ vs @ ws) \<Longrightarrow> disjoint lo hi (us @ ws)"
  by (auto simp: disjoint_append)

lemma claim_pieces_split:
  assumes "bs_type x = Free \<and> align_up (bs_start x) < align_down (bs_end x)"
  shows "claim_pieces x = (if bs_start x < align_up (bs_start x) then [bspan_new (bs_start x) (align_up (bs_start x)) Free] else []) @
    [bspan_new (align_up (bs_start x)) (align_down (bs_end x)) InUse] @
    (if align_down (bs_end x) < bs_end x then [bspan_new (align_down (bs_end x)) (bs_end x) Free] else [])"
  unfolding claim_pieces_def Let_def if_P [OF assms] ..

lemma pieces_disjoint:
  assumes "disjoint bs_start bs_end (ys @ x # zs)"
  shows "disjoint bs_start bs_end (ys @ claim_pieces x @ zs)"
proof (cases "bs_type x = Free \<and> align_up (bs_start x) < align_down (bs_end x)")
  case True
  have l: "\<forall>y\<in>set ys. bs_end y \<le> bs_start x" "\<forall>z\<in>set zs. bs_end x \<le> bs_start z" "disjoint bs_start bs_end ys" "disjoint bs_start bs_end zs"
    using assms by (auto simp: disjoint_append disjoint_Cons)
  obtain a b where ab: "bs_start x \<le> a" "a < b" "b \<le> bs_end x" and pc: "claim_pieces x =
      (if bs_start x < a then [bspan_new (bs_start x) a Free] else []) @ [bspan_new a b InUse] @ (if b < bs_end x then [bspan_new b (bs_end x) Free] else [])"
    using claim_pieces_split [OF True] True align_up_spec(1) [of "bs_start x"] align_down_spec(1) [of "bs_end x"] by blast
  have "\<forall>y\<in>set (claim_pieces x). bs_start x \<le> bs_start y \<and> bs_end y \<le> bs_end x"
    using ab unfolding pc by (cases "bs_start x < a"; cases "b < bs_end x") auto
  moreover have "disjoint bs_start bs_end (claim_pieces x)"
    using ab unfolding pc by (cases "bs_start x < a"; cases "b < bs_end x") (auto simp: disjoint_Cons)
  moreover have "bs_end y \<le> bs_start z" if "y \<in> set ys" "z \<in> set zs" for y z using assms that by (auto simp: disjoint_append disjoint_Cons)
  ultimately show ?thesis unfolding disjoint_append using l by (auto intro: order_trans)
qed (use assms in \<open>auto simp: claim_pieces_def Let_def\<close>)

lemma claim_span_ok:
  assumes ok: "boot_ok s" and node: "first_loc P (boot_tree s) = Some node" "upward P (inorder (boot_tree s))"
    and xs: "inorder (boot_tree s) = ys @ x # zs" "loc_value node = x" "\<forall>y\<in>set ys. \<not> P y"
    and fr: "bs_type x = Free \<Longrightarrow> 2 \<le> free_nodes s" and b: "buddy_ok m F A" "addable m N" "claimed x \<subseteq> N"
  obtains s' m' F' where "claim_span node s m = Inr (s', m')" "boot_ok s'" "inorder (boot_tree s') = ys @ claim_pieces x @ zs"
    "free_nodes s' + length (claim_pieces x) = Suc (free_nodes s)" "buddy_ok m' F' A"
    "frames (fblocks F') = frames (fblocks F) \<union> claimed x" "addable m' (N - claimed x)"
proof (cases "bs_type x = Free \<and> align_up (bs_start x) < align_down (bs_end x)")
  case False
  then have "claim_span node s m = Inr (s, m)" "claim_pieces x = [x]" "claimed x = {}"
    using xs(2) by (auto simp: claim_span_def claim_pieces_def Let_def claimed_def whole_range align_less)
  then show thesis using that [of s m F] ok xs(1) b by simp
next
  case True
  let ?a = "align_up (bs_start x)" and ?b = "align_down (bs_end x)"
  have wf: "rb_wf max_free (boot_tree s)" and d: "disjoint bs_start bs_end (ys @ x # zs)" using ok xs(1) by (simp_all add: boot_ok_def)
  have cl: "claimed x = {?a div 4096..<?b div 4096}" using True by (simp add: claimed_def whole_range)
  have ab: "4096 * (?a div 4096) = ?a" "4096 * (?b div 4096) = ?b" by (simp_all add: align_up_spec align_down_spec(2))
  have le: "?a div 4096 \<le> ?b div 4096" using True by (simp add: div_le_mono)
  have "?b div 4096 \<le> max_frames"
  proof -
    have "?b div 4096 - 1 \<in> claimed x" using True align_up_spec(2) [of "bs_start x"] align_down_spec(2) [of "bs_end x"] unfolding cl by auto
    then have "?b div 4096 - 1 < max_frames" using b(2,3) by (auto simp: addable_def)
    then show ?thesis by linarith
  qed
  then obtain m' F' where m: "add_range_boot ?a ?b m = Inr m'" "buddy_ok m' F' A" "frames (fblocks F') = frames (fblocks F) \<union> claimed x"
    "addable m' (N - claimed x)"
    using add_range_boot_ok [OF b(1) le _ b(2), folded cl, unfolded ab] b(3) by blast
  obtain s1 where s1: "boot_remove s node = (x, s1)" "boot_ok s1" "inorder (boot_tree s1) = ys @ zs" "free_nodes s1 = free_nodes s + 1"
  proof (rule rbs.first_cases [OF wf node(2)])
    fix l us vs assume l: "first_loc P (boot_tree s) = Some l" "inorder (boot_tree s) = us @ loc_value l # vs" "P (loc_value l)"
      "\<forall>x\<in>set us. \<not> P x" "rb_wf max_free (tree_remove max_free l)" "inorder (tree_remove max_free l) = us @ vs"
    have "l = node" using l(1) node(1) by simp
    then have "us @ x # vs = ys @ x # zs" "P x" using l(2,3) xs(1,2) by simp_all
    then have "us = ys \<and> vs = zs" using split_first_unique [of us x vs ys x zs P] l(4) xs(3) by blast
    then have "disjoint bs_start bs_end (us @ vs)" using d by (auto simp: disjoint_append disjoint_Cons)
    then show thesis using that [of "s\<lparr>boot_tree := tree_remove max_free node, free_nodes := free_nodes s + 1\<rparr>"] l node(1) xs(2) \<open>us = ys \<and> vs = zs\<close>
      by (simp add: boot_remove_def boot_ok_def)
  qed (use node(1) in simp)
  have dp: "disjoint bs_start bs_end (ys @ claim_pieces x @ zs)" by (rule pieces_disjoint [OF d])
  let ?l = "bs_start x < ?a" and ?r = "?b < bs_end x"
  note pc = claim_pieces_split [OF True]
  let ?L = "if ?l then [bspan_new (bs_start x) ?a Free] else []" and ?R = "if ?r then [bspan_new ?b (bs_end x) Free] else []"
  have "disjoint bs_start bs_end (ys @ ?L @ ([bspan_new ?a ?b InUse] @ ?R @ zs))" using dp unfolding pc by (simp only: append_assoc)
  then have "disjoint bs_start bs_end ((ys @ [bspan_new ?a ?b InUse]) @ ?R @ zs)"
    using disjoint_drop [of bs_start bs_end ys ?L] by (simp only: append_assoc)
  then have "disjoint bs_start bs_end (ys @ bspan_new ?a ?b InUse # zs)"
    using disjoint_drop [of bs_start bs_end "ys @ [bspan_new ?a ?b InUse]" ?R zs] by (simp only: append_assoc append_Cons append_Nil)
  then obtain s2 where s2: "boot_insert s1 (bspan_new ?a ?b InUse) = Inr s2" "boot_ok s2" "inorder (boot_tree s2) = ys @ bspan_new ?a ?b InUse # zs"
    "free_nodes s2 = free_nodes s1 - 1" using boot_insert_gap [OF s1(2) _ s1(3)] s1(4) by (metis less_add_one not_gr_zero not_less_zero)
  have "?l \<longrightarrow> disjoint bs_start bs_end (ys @ bspan_new (bs_start x) ?a Free # (bspan_new ?a ?b InUse # zs))"
    using disjoint_drop [of bs_start bs_end "ys @ ?L @ [bspan_new ?a ?b InUse]" ?R zs] dp unfolding pc by (cases ?l) simp_all
  moreover have "?l \<longrightarrow> 0 < free_nodes s2" using s1(4) s2(4) fr True by simp
  ultimately obtain s3 where s3: "(if ?l then boot_insert s2 (bspan_new (bs_start x) ?a Free) else Inr s2) = Inr s3" "boot_ok s3"
    "inorder (boot_tree s3) = ys @ ?L @ bspan_new ?a ?b InUse # zs" "free_nodes s3 + (if ?l then 1 else 0) = free_nodes s2"
    using boot_insert_opt [OF s2(2,3)] by blast
  let ?ys = "ys @ ?L @ [bspan_new ?a ?b InUse]"
  have i3: "inorder (boot_tree s3) = ?ys @ zs" using s3(3) by simp
  have "?r \<longrightarrow> disjoint bs_start bs_end (?ys @ bspan_new ?b (bs_end x) Free # zs)" using dp unfolding pc by (cases ?r) simp_all
  moreover have "?r \<longrightarrow> 0 < free_nodes s3" using s1(4) s2(4) s3(4) fr True by (cases ?l) simp_all
  ultimately obtain s4 where s4: "(if ?r then boot_insert s3 (bspan_new ?b (bs_end x) Free) else Inr s3) = Inr s4" "boot_ok s4"
    "inorder (boot_tree s4) = ?ys @ ?R @ zs" "free_nodes s4 + (if ?r then 1 else 0) = free_nodes s3"
    using boot_insert_opt [OF s3(2) i3] by blast
  have "claim_span node s m = Inr (s4, m')"
    using True xs(2) m(1) s1(1) s2(1) s3(1) s4(1) by (simp add: claim_span_def Let_def bind_boot_def)
  moreover have "free_nodes s4 + length (claim_pieces x) = Suc (free_nodes s)"
    using s1(4) s2(4) s3(4) s4(4) unfolding pc by (auto split: if_splits)
  moreover have "inorder (boot_tree s4) = ys @ claim_pieces x @ zs" using s4(3) unfolding pc by simp
  ultimately show thesis using that m s4(2) by blast
qed

text \<open>The loop over the spans that start at an address or behind it.\<close>

lemma starts_upward: "disjoint bs_start bs_end xs \<Longrightarrow> upward (\<lambda>x. bs_start x \<ge> a) xs"
proof (induction xs)
  case (Cons x xs)
  then have "bs_start x \<le> bs_start y" if "y \<in> set xs" for y
    using that disjoint_less [OF Cons.prems, of x] by (fastforce simp: disjoint_Cons)
  then show ?case using Cons by (fastforce simp: upward_Cons disjoint_Cons)
qed simp

definition free_count_of :: "bspan list \<Rightarrow> nat" where
  "free_count_of xs = length (filter (\<lambda>x. bs_type x = Free) xs)"

lemma claim_loop_ok:
  assumes "boot_ok s" "inorder (boot_tree s) = ys @ zs" "\<forall>y\<in>set ys. bs_start y < addr" "\<forall>z\<in>set zs. addr \<le> bs_start z"
    and "2 * free_count_of zs \<le> free_nodes s" "buddy_ok m F A" "addable m N" "(\<Union>z\<in>set zs. claimed z) \<subseteq> N"
    and "\<forall>x\<in>set zs. \<forall>y\<in>set zs. x \<noteq> y \<longrightarrow> claimed x \<inter> claimed y = {}" "distinct zs"
  shows "\<exists>s' m' F'. claim_loop addr s m = Some (Inr (s', m')) \<and> boot_ok s' \<and> inorder (boot_tree s') = ys @ concat (map claim_pieces zs) \<and>
    buddy_ok m' F' A \<and> frames (fblocks F') = frames (fblocks F) \<union> (\<Union>z\<in>set zs. claimed z)"
  using assms
proof (induction zs arbitrary: s ys addr m F N)
  case Nil
  have "rb_wf max_free (boot_tree s)" "upward (\<lambda>x. bs_start x \<ge> addr) (inorder (boot_tree s))"
    using Nil.prems(1) starts_upward by (auto simp: boot_ok_def)
  then have "first_loc (\<lambda>x. bs_start x \<ge> addr) (boot_tree s) = None"
    by (rule rbs.first_cases) (use Nil.prems(2,3) in auto)
  then show ?case using Nil by (subst claim_loop.simps) auto
next
  case (Cons x zs)
  have wf: "rb_wf max_free (boot_tree s)" and up: "upward (\<lambda>x. bs_start x \<ge> addr) (inorder (boot_tree s))"
    and d: "disjoint bs_start bs_end (ys @ x # zs)" using Cons.prems(1,2) starts_upward by (auto simp: boot_ok_def)
  obtain node where node: "first_loc (\<lambda>x. bs_start x \<ge> addr) (boot_tree s) = Some node" "loc_value node = x"
  proof (rule rbs.first_cases [OF wf up])
    fix l us vs assume l: "first_loc (\<lambda>x. bs_start x \<ge> addr) (boot_tree s) = Some l" "inorder (boot_tree s) = us @ loc_value l # vs"
      "addr \<le> bs_start (loc_value l)" "\<forall>x\<in>set us. \<not> addr \<le> bs_start x"
    have "us = ys \<and> loc_value l = x \<and> vs = zs"
      by (rule split_first_unique [of _ _ _ _ _ _ "\<lambda>x. addr \<le> bs_start x"]) (use l Cons.prems(2-4) in \<open>auto simp: not_le\<close>)
    then show thesis using that l(1) by blast
  qed (use Cons.prems(2,4) in auto)
  have fr: "bs_type x = Free \<Longrightarrow> 2 \<le> free_nodes s" using Cons.prems(5) by (simp add: free_count_of_def)
  obtain s1 m1 F1 where s1: "claim_span node s m = Inr (s1, m1)" "boot_ok s1" "inorder (boot_tree s1) = ys @ claim_pieces x @ zs"
    "free_nodes s1 + length (claim_pieces x) = Suc (free_nodes s)" "buddy_ok m1 F1 A"
    "frames (fblocks F1) = frames (fblocks F) \<union> claimed x" "addable m1 (N - claimed x)"
    by (rule claim_span_ok [OF Cons.prems(1) node(1) up Cons.prems(2) node(2) _ fr Cons.prems(6,7)]) (use Cons.prems(3,8) in auto)
  have lx: "bs_start x < bs_end x" by (rule disjoint_less [OF d]) simp
  have z: "bs_end x \<le> bs_start z" if "z \<in> set zs" for z using d that by (auto simp: disjoint_append disjoint_Cons)
  have dp: "disjoint bs_start bs_end (ys @ claim_pieces x @ zs)" by (rule pieces_disjoint [OF d])
  have pe: "bs_start y < bs_end x" if "y \<in> set (claim_pieces x)" for y
    using that lx align_down_spec(1) [of "bs_end x"] unfolding claim_pieces_def Let_def by (auto split: if_splits)
  have "\<exists>s' m' F'. claim_loop (bs_end x) s1 m1 = Some (Inr (s', m')) \<and> boot_ok s' \<and>
      inorder (boot_tree s') = (ys @ claim_pieces x) @ concat (map claim_pieces zs) \<and> buddy_ok m' F' A \<and>
      frames (fblocks F') = frames (fblocks F1) \<union> (\<Union>z\<in>set zs. claimed z)"
  proof (rule Cons.IH [OF s1(2) _ _ _ _ s1(5,7)])
    show "inorder (boot_tree s1) = (ys @ claim_pieces x) @ zs" using s1(3) by simp
    show "\<forall>y\<in>set (ys @ claim_pieces x). bs_start y < bs_end x" using pe Cons.prems(3,4) lx by force
    show "\<forall>z\<in>set zs. bs_end x \<le> bs_start z" using z by blast
    have "length (claim_pieces x) \<le> (if bs_type x = Free then 3 else 1)" by (auto simp: claim_pieces_def Let_def)
    then show "2 * free_count_of zs \<le> free_nodes s1" using s1(4) Cons.prems(5) by (auto simp: free_count_of_def split: if_splits)
    show "(\<Union>z\<in>set zs. claimed z) \<subseteq> N - claimed x" using Cons.prems(8-10) by fastforce
    show "\<forall>x\<in>set zs. \<forall>y\<in>set zs. x \<noteq> y \<longrightarrow> claimed x \<inter> claimed y = {}" "distinct zs" using Cons.prems(9,10) by auto
  qed
  moreover have "claim_loop addr s m = claim_loop (bs_end x) s1 m1" using node s1(1) by (subst claim_loop.simps) simp
  ultimately show ?case using s1(6) by (auto simp: Un_assoc)
qed

section \<open>Frames by type\<close>

text \<open>The addresses whose type satisfies a predicate, and the whole frames among them.\<close>

definition typed_as :: "(span_type \<Rightarrow> bool) \<Rightarrow> boot_alloc \<Rightarrow> nat set" where
  "typed_as P s = {p. \<exists>t. type_at s p = Some t \<and> P t}"

definition cover :: "(span_type \<Rightarrow> bool) \<Rightarrow> bspan list \<Rightarrow> nat set" where
  "cover P xs = (\<Union>x\<in>{x \<in> set xs. P (bs_type x)}. {bs_start x..<bs_end x})"

lemma typed_as_cover: "boot_ok s \<Longrightarrow> typed_as P s = cover P (inorder (boot_tree s))"
  unfolding boot_ok_def typed_as_def cover_def type_at_def by (auto simp: seg_at_Some) blast

lemma cover_simps [simp]:
  "cover P [] = {}" "cover P (x # xs) = (if P (bs_type x) then {bs_start x..<bs_end x} else {}) \<union> cover P xs"
  by (auto simp: cover_def)

lemma cover_above: "\<forall>y\<in>set xs. e \<le> bs_start y \<Longrightarrow> cover P xs \<subseteq> {e..}"
  by (force simp: cover_def)

text \<open>Spans that could be merged have been merged: no page is covered by two free spans together.\<close>

lemma whole_merged:
  assumes "disjoint bs_start bs_end xs" "successively (\<lambda>x y. \<not> (bs_type x = bs_type y \<and> bs_end x = bs_start y)) xs"
  shows "whole (cover (\<lambda>t. t = Free) xs) = (\<Union>x\<in>set xs. claimed x)"
  using assms
proof (induction xs)
  case Nil
  have "page n \<noteq> {}" for n by (auto simp: page_def)
  then show ?case by (auto simp: whole_def)
next
  case (Cons x xs)
  have d: "\<forall>y\<in>set xs. bs_end x \<le> bs_start y" "disjoint bs_start bs_end xs" using Cons.prems(1) by (auto simp: disjoint_Cons)
  have IH: "whole (cover (\<lambda>t. t = Free) xs) = (\<Union>x\<in>set xs. claimed x)"
    using Cons.IH d(2) Cons.prems(2) by (auto simp: successively_Cons)
  show ?case
  proof (cases "bs_type x = Free")
    case True
    have "bs_end x \<notin> cover (\<lambda>t. t = Free) xs"
    proof
      assume "bs_end x \<in> cover (\<lambda>t. t = Free) xs"
      then obtain y where y: "y \<in> set xs" "bs_type y = Free" "bs_start y \<le> bs_end x" by (auto simp: cover_def)
      then obtain z zs where z: "xs = z # zs" by (cases xs) auto
      have "bs_end x \<le> bs_start z" using d(1) z by simp
      moreover have "bs_start z < bs_start y" if "y \<noteq> z" using y(1) that z d(2) disjoint_less [OF d(2), of z] by (auto simp: disjoint_Cons)
      ultimately have "y = z" "bs_end x = bs_start z" using y(3) by force+
      then show False using Cons.prems(2) z y(2) True by auto
    qed
    then have "cover (\<lambda>t. t = Free) xs \<subseteq> {bs_end x<..}" using cover_above [OF d(1), of "\<lambda>t. t = Free"] by (auto simp: le_less)
    then have "whole ({bs_start x..<bs_end x} \<union> cover (\<lambda>t. t = Free) xs) = whole {bs_start x..<bs_end x} \<union> whole (cover (\<lambda>t. t = Free) xs)"
      by (intro whole_gap [of _ "bs_end x"]) auto
    then show ?thesis using True IH by (simp add: claimed_def)
  qed (use IH in \<open>simp add: claimed_def\<close>)
qed

lemma disjoint_distinct: "disjoint bs_start bs_end xs \<Longrightarrow> distinct xs"
proof (induction xs)
  case (Cons x xs)
  then have "x \<notin> set xs" by (auto simp: disjoint_Cons)
  then show ?case using Cons by (simp add: disjoint_Cons)
qed simp

lemma claimed_apart:
  assumes "disjoint bs_start bs_end xs" "x \<in> set xs" "y \<in> set xs" "x \<noteq> y"
  shows "claimed x \<inter> claimed y = {}"
proof -
  have "{bs_start x..<bs_end x} \<inter> {bs_start y..<bs_end y} = {}" using assms disjoint_unique by fastforce
  have "4096 * n \<in> page n" for n by (simp add: page_def)
  then have "n \<notin> whole {bs_start x..<bs_end x} \<or> n \<notin> whole {bs_start y..<bs_end y}" for n
    using \<open>{bs_start x..<bs_end x} \<inter> {bs_start y..<bs_end y} = {}\<close> unfolding whole_def by blast
  then show ?thesis unfolding claimed_def by auto
qed

lemma pieces_type:
  assumes "bs_start x < bs_end x"
  shows "seg_at bs_start bs_end (claim_pieces x) p = None \<longleftrightarrow> \<not> (bs_start x \<le> p \<and> p < bs_end x)"
    and "seg_at bs_start bs_end (claim_pieces x) p = Some y \<Longrightarrow> bs_type y = (if p div 4096 \<in> claimed x then InUse else bs_type x)"
proof -
  let ?a = "align_up (bs_start x)" and ?b = "align_down (bs_end x)"
  have cut: "seg_at bs_start bs_end ((if l < a then [bspan_new l a Free] else []) @ [bspan_new a b InUse] @ (if b < r then [bspan_new b r Free] else [])) p =
      (if a \<le> p \<and> p < b then Some (bspan_new a b InUse) else if l \<le> p \<and> p < a then Some (bspan_new l a Free)
       else if b \<le> p \<and> p < r then Some (bspan_new b r Free) else None)" if "l \<le> a" "a < b" "b \<le> r" for l a b r
    using that by (cases "l < a"; cases "b < r") (auto simp: seg_at_append seg_at_Cons)
  have one: "claim_pieces x = [x]" if "\<not> (bs_type x = Free \<and> ?a < ?b)" using that unfolding claim_pieces_def Let_def by (rule if_not_P)
  note al = align_up_spec(1) [of "bs_start x"] align_down_spec(1) [of "bs_end x"]
  show "seg_at bs_start bs_end (claim_pieces x) p = None \<longleftrightarrow> \<not> (bs_start x \<le> p \<and> p < bs_end x)"
  proof (cases "bs_type x = Free \<and> ?a < ?b")
    case True
    then show ?thesis unfolding claim_pieces_split [OF True] cut [OF al(1) conjunct2 [OF True] al(2)] using al by (auto simp: not_less)
  qed (use one in \<open>simp add: seg_at_None\<close>)
  have in_c: "p div 4096 \<in> claimed x \<longleftrightarrow> bs_type x = Free \<and> ?a \<le> p \<and> p < ?b"
  proof -
    have "?a div 4096 \<le> p div 4096 \<longleftrightarrow> ?a \<le> p"
      using align_up_spec(2) [of "bs_start x"] by (metis div_le_mono less_eq_div_iff_mult_less_eq mult.commute zero_less_numeral)
    moreover have "p div 4096 < ?b div 4096 \<longleftrightarrow> p < ?b"
      using align_down_spec(2) [of "bs_end x"] by (metis div_less_iff_less_mult mult.commute zero_less_numeral)
    ultimately show ?thesis by (auto simp: claimed_def whole_range)
  qed
  assume y: "seg_at bs_start bs_end (claim_pieces x) p = Some y"
  show "bs_type y = (if p div 4096 \<in> claimed x then InUse else bs_type x)"
  proof (cases "bs_type x = Free \<and> ?a < ?b")
    case True
    show ?thesis using y True unfolding in_c claim_pieces_split [OF True] cut [OF al(1) conjunct2 [OF True] al(2)] by (auto split: if_splits)
  next
    case False
    then have "\<not> (bs_type x = Free \<and> ?a \<le> p \<and> p < ?b)" by auto
    then show ?thesis using y unfolding in_c one [OF False] by (simp add: seg_at_Cons split: if_splits)
  qed
qed

lemma pieces_types:
  assumes "disjoint bs_start bs_end xs"
  shows "map_option bs_type (seg_at bs_start bs_end (concat (map claim_pieces xs)) p) =
    (if p div 4096 \<in> (\<Union>x\<in>set xs. claimed x) then Some InUse else map_option bs_type (seg_at bs_start bs_end xs p))"
  using assms
proof (induction xs)
  case (Cons x xs)
  have lx: "bs_start x < bs_end x" by (rule disjoint_less [OF Cons.prems]) simp
  note pt = pieces_type [OF lx, of p]
  have out: "p div 4096 \<notin> claimed y" if "\<not> (bs_start y \<le> p \<and> p < bs_end y)" for y
    using that whole_point [of p "{bs_start y..<bs_end y}"] by (auto simp: claimed_def)
  show ?case
  proof (cases "bs_start x \<le> p \<and> p < bs_end x")
    case True
    then obtain y where y: "seg_at bs_start bs_end (claim_pieces x) p = Some y" using pt(1) by fastforce
    have "p div 4096 \<notin> claimed z" if "z \<in> set xs" for z
      using Cons.prems True that by (intro out) (auto simp: disjoint_Cons)
    then show ?thesis using True y pt(2) [OF y] by (auto simp: seg_at_append seg_at_Cons)
  next
    case False
    then have "seg_at bs_start bs_end (claim_pieces x) p = None" "seg_at bs_start bs_end (x # xs) p = seg_at bs_start bs_end xs p"
      using pt(1) by (auto simp: seg_at_Cons)
    then show ?thesis using out [OF False] Cons by (simp add: seg_at_append disjoint_Cons)
  qed
qed simp

lemma claim_free_ranges_effect:
  assumes ok: "boot_ok s" and slots: "2 * span_count (\<lambda>x. bs_type x = Free) (compact s) \<le> free_nodes (compact s)"
    and b: "buddy_ok m F A" "addable m (whole (typed_as (\<lambda>t. t = Free) s))"
  shows "\<exists>s' m' F'. claim_free_ranges s m = Some (Inr (s', m')) \<and> boot_ok s' \<and> buddy_ok m' F' A \<and>
    frames (fblocks F') = frames (fblocks F) \<union> whole (typed_as (\<lambda>t. t = Free) s) \<and>
    (\<forall>p. type_at s' p = (if p div 4096 \<in> whole (typed_as (\<lambda>t. t = Free) s) then Some InUse else type_at s p))"
proof -
  note c = compact_spec [OF ok]
  let ?xs = "inorder (boot_tree (compact s))"
  have d: "disjoint bs_start bs_end ?xs" using c(1) by (simp add: boot_ok_def)
  have "snd (merge_spans x y) \<longleftrightarrow> bs_type x = bs_type y \<and> bs_end x = bs_start y" for x y by (simp add: merge_spans_def)
  then have mg: "successively (\<lambda>x y. \<not> (bs_type x = bs_type y \<and> bs_end x = bs_start y)) ?xs"
    using bmg.merge_pairs_complete [of "inorder (boot_tree s)"] c(2) by simp
  have "typed_as P (compact s) = typed_as P s" for P using c(3) by (simp add: typed_as_def)
  then have U: "whole (typed_as (\<lambda>t. t = Free) s) = (\<Union>x\<in>set ?xs. claimed x)"
    using whole_merged [OF d mg] typed_as_cover [OF c(1)] by simp
  have "distinct ?xs" by (rule disjoint_distinct [OF d])
  then obtain s' m' F' where r: "claim_loop 0 (compact s) m = Some (Inr (s', m'))" "boot_ok s'"
    "inorder (boot_tree s') = [] @ concat (map claim_pieces ?xs)" "buddy_ok m' F' A" "frames (fblocks F') = frames (fblocks F) \<union> (\<Union>z\<in>set ?xs. claimed z)"
    using claim_loop_ok [OF c(1), of "[]" ?xs 0 m F A "\<Union>x\<in>set ?xs. claimed x"] slots b claimed_apart [OF d] unfolding U
    by (auto simp: free_count_of_def span_count_def)
  have "type_at s' p = (if p div 4096 \<in> (\<Union>x\<in>set ?xs. claimed x) then Some InUse else type_at s p)" for p
    using pieces_types [OF d, of p] r(3) c(3) [of p] by (simp add: type_at_def)
  then show ?thesis using r unfolding U claim_free_ranges_def by blast
qed

section \<open>The reclaiming iterator\<close>

text \<open>The iterator stands before the spans it has still to visit.\<close>

definition stand :: "reclaim_iter \<Rightarrow> bspan list \<Rightarrow> bool" where
  "stand it xs \<longleftrightarrow> (case it of None \<Rightarrow> xs = [] | Some node \<Rightarrow> loc_ok node \<and> loc_value node # loc_after node = xs)"

lemma stand_Nil: "stand it [] \<longleftrightarrow> it = None"
  by (auto simp: stand_def split: option.splits)

lemma stand_Cons: "stand it (x # xs) \<longleftrightarrow> (\<exists>node. it = Some node \<and> loc_value node = x \<and> stand (tree_successor node) xs \<and> loc_ok node)"
proof (cases it)
  case (Some node)
  have "loc_ok node \<Longrightarrow> stand (tree_successor node) (loc_after node)"
    using tree_successor_spec [of node] by (auto simp: stand_def split: option.splits)
  moreover have "stand (tree_successor node) xs \<Longrightarrow> loc_ok node \<Longrightarrow> xs = loc_after node"
    using tree_successor_spec [of node] by (auto simp: stand_def split: option.splits)
  ultimately show ?thesis using Some by (auto simp: stand_def)
qed (simp add: stand_def)

lemma stand_start: "stand (reclaimable_range_iter s) (inorder (boot_tree s))"
  using tree_lowest_spec [of "boot_tree s"] by (auto simp: stand_def reclaimable_range_iter_def split: option.split)

lemma skip_unusable_ok:
  assumes "stand it xs"
  shows "\<exists>it'. skip_unusable it = Some it' \<and> stand it' (dropWhile (\<lambda>x. \<not> is_usable (bs_type x)) xs)"
  using assms
proof (induction xs arbitrary: it)
  case Nil
  then show ?case by (subst skip_unusable.simps) (simp add: stand_Nil)
next
  case (Cons x xs)
  then show ?case by (subst skip_unusable.simps) (auto simp: stand_Cons)
qed

fun run_end :: "nat \<Rightarrow> bspan list \<Rightarrow> nat \<times> bspan list" where
  "run_end e [] = (e, [])"
| "run_end e (x # xs) = (if bs_start x \<noteq> e \<or> \<not> is_usable (bs_type x) then (e, x # xs) else run_end (bs_end x) xs)"

lemma extend_range_ok:
  assumes "stand it xs"
  shows "\<exists>it'. extend_range e it = Some (fst (run_end e xs), it') \<and> stand it' (snd (run_end e xs))"
  using assms
proof (induction xs arbitrary: e it)
  case Nil
  then show ?case by (subst extend_range.simps) (simp add: stand_Nil)
next
  case (Cons x xs)
  then obtain node where n: "it = Some node" "loc_value node = x" "stand (tree_successor node) xs" "loc_ok node" by (auto simp: stand_Cons)
  show ?case
  proof (cases "bs_start x \<noteq> e \<or> \<not> is_usable (bs_type x)")
    case True
    then have "extend_range e it = Some (e, it)" using n by (subst extend_range.simps) simp
    then show ?thesis using True Cons.prems by simp
  next
    case False
    then have "extend_range e it = extend_range (bs_end x) (tree_successor node)" using n by (subst extend_range.simps) simp
    then show ?thesis using False Cons.IH [OF n(3), of "bs_end x"] by simp
  qed
qed

text \<open>A run of touching usable spans is cut off; the rest does not touch it.\<close>

lemma run_end_spec:
  assumes "disjoint bs_start bs_end xs" "\<forall>x\<in>set xs. e \<le> bs_start x"
  shows "e \<le> fst (run_end e xs) \<and> cover is_usable xs = {e..<fst (run_end e xs)} \<union> cover is_usable (snd (run_end e xs)) \<and>
    cover is_usable (snd (run_end e xs)) \<subseteq> {fst (run_end e xs)<..} \<and> disjoint bs_start bs_end (snd (run_end e xs)) \<and>
    length (snd (run_end e xs)) \<le> length xs"
  using assms
proof (induction e xs rule: run_end.induct)
  case (2 e x xs)
  have d: "bs_start x < bs_end x" "\<forall>y\<in>set xs. bs_end x \<le> bs_start y" "disjoint bs_start bs_end xs" "e \<le> bs_start x"
    using 2(2,3) by (auto simp: disjoint_Cons)
  have ab: "cover is_usable xs \<subseteq> {bs_end x..}" by (rule cover_above [OF d(2)])
  show ?case
  proof (cases "bs_start x \<noteq> e \<or> \<not> is_usable (bs_type x)")
    case True
    have "cover is_usable (x # xs) \<subseteq> {e<..}"
      using True d(1,4) ab by (cases "is_usable (bs_type x)") auto
    then show ?thesis using True 2(2) by simp
  next
    case False
    let ?e = "fst (run_end (bs_end x) xs)"
    have IH: "bs_end x \<le> ?e" "cover is_usable xs = {bs_end x..<?e} \<union> cover is_usable (snd (run_end (bs_end x) xs))"
      "cover is_usable (snd (run_end (bs_end x) xs)) \<subseteq> {?e<..}" "disjoint bs_start bs_end (snd (run_end (bs_end x) xs))"
      "length (snd (run_end (bs_end x) xs)) \<le> length xs" using 2(1) [OF False d(3,2)] by auto
    have "{bs_start x..<bs_end x} \<union> {bs_end x..<?e} = {bs_start x..<?e}" using d(1) IH(1) by (intro ivl_disj_un) auto
    then have "cover is_usable (x # xs) = {e..<?e} \<union> cover is_usable (snd (run_end (bs_end x) xs))"
      using False IH(2) by (simp add: Un_assoc [symmetric])
    then show ?thesis using False IH d by simp
  qed
qed auto

lemma skip_cover: "cover P (dropWhile (\<lambda>x. \<not> P (bs_type x)) xs) = cover P xs"
  by (induction xs) auto

text \<open>One step of the iterator: the next range of whole pages, and the pages of the remaining spans.\<close>

definition yields :: "(nat \<times> nat) option \<Rightarrow> reclaim_iter \<Rightarrow> bspan list \<Rightarrow> bool" where
  "yields r it xs \<longleftrightarrow>
    (case r of
       None \<Rightarrow> whole (cover is_usable xs) = {}
     | Some (a, b) \<Rightarrow> \<exists>i j ys. a = 4096 * i \<and> b = 4096 * j \<and> i < j \<and> stand it ys \<and> disjoint bs_start bs_end ys \<and> length ys < length xs \<and>
         whole (cover is_usable xs) = {i..<j} \<union> whole (cover is_usable ys) \<and> {i..<j} \<inter> whole (cover is_usable ys) = {})"

lemma yields_longer: "yields r it ys \<Longrightarrow> length ys < length xs \<Longrightarrow> whole (cover is_usable xs) = whole (cover is_usable ys) \<Longrightarrow> yields r it xs"
  unfolding yields_def by (auto split: option.splits) (metis less_trans)

lemma reclaim_next_ok:
  assumes "stand it xs" "disjoint bs_start bs_end xs"
  shows "\<exists>r it'. reclaim_next it = Some (r, it') \<and> yields r it' xs"
  using assms
proof (induction "length xs" arbitrary: it xs rule: less_induct)
  case less
  let ?zs = "dropWhile (\<lambda>x. \<not> is_usable (bs_type x)) xs"
  obtain it1 where it1: "skip_unusable it = Some it1" "stand it1 ?zs" using skip_unusable_ok [OF less.prems(1)] by blast
  have dz: "disjoint bs_start bs_end ?zs" using less.prems(2) by (metis disjoint_append takeWhile_dropWhile_id)
  have lz: "length ?zs \<le> length xs" by (rule length_dropWhile_le)
  show ?case
  proof (cases ?zs)
    case Nil
    then have "cover is_usable xs = {}" using skip_cover [of is_usable xs] by (simp only: cover_simps)
    moreover have "page n \<noteq> {}" for n by (auto simp: page_def)
    ultimately have "whole (cover is_usable xs) = {}" by (auto simp: whole_def)
    moreover have "reclaim_next it = Some (None, None)" using it1 Nil by (subst reclaim_next.simps) (simp add: stand_Nil)
    ultimately show ?thesis by (simp add: yields_def)
  next
    case (Cons x zs)
    have ux: "is_usable (bs_type x)" using Cons hd_dropWhile [of "\<lambda>x. \<not> is_usable (bs_type x)" xs] by (metis list.distinct(1) list.sel(1))
    obtain node where node: "it1 = Some node" "loc_value node = x" "stand (tree_successor node) zs" using it1(2) Cons by (auto simp: stand_Cons)
    let ?e = "fst (run_end (bs_end x) zs)" and ?ys = "snd (run_end (bs_end x) zs)"
    obtain it2 where it2: "extend_range (bs_end x) (tree_successor node) = Some (?e, it2)" "stand it2 ?ys"
      using extend_range_ok [OF node(3)] by blast
    have d: "bs_start x < bs_end x" "\<forall>y\<in>set zs. bs_end x \<le> bs_start y" "disjoint bs_start bs_end zs" using dz Cons by (auto simp: disjoint_Cons)
    have re: "bs_end x \<le> ?e" "cover is_usable zs = {bs_end x..<?e} \<union> cover is_usable ?ys" "cover is_usable ?ys \<subseteq> {?e<..}"
      "disjoint bs_start bs_end ?ys" "length ?ys \<le> length zs" using run_end_spec [OF d(3,2)] by auto
    have "{bs_start x..<bs_end x} \<union> {bs_end x..<?e} = {bs_start x..<?e}" using d(1) re(1) by (intro ivl_disj_un) auto
    then have cv: "cover is_usable xs = {bs_start x..<?e} \<union> cover is_usable ?ys"
      using skip_cover [of is_usable xs] Cons ux re(2) by (simp add: Un_assoc [symmetric])
    let ?a = "align_up (bs_start x)" and ?b = "align_down ?e"
    have w: "whole (cover is_usable xs) = {?a div 4096..<?b div 4096} \<union> whole (cover is_usable ?ys)"
      unfolding cv whole_range [symmetric] using re(3) by (intro whole_gap) auto
    have lt: "length ?ys < length xs" using re(5) lz Cons by simp
    have ap: "{?a div 4096..<?b div 4096} \<inter> whole (cover is_usable ?ys) = {}"
    proof -
      have "4096 * n \<in> page n" for n by (simp add: page_def)
      then have "n \<in> whole P \<Longrightarrow> 4096 * n \<in> P" for n P by (auto simp: whole_def)
      then show ?thesis unfolding whole_range [symmetric] using re(3) by fastforce
    qed
    show ?thesis
    proof (cases "?a < ?b")
      case True
      then have "reclaim_next it = Some (Some (?a, ?b), it2)" using it1(1) node(1,2) it2(1) by (subst reclaim_next.simps) simp
      moreover have "yields (Some (?a, ?b)) it2 xs"
        using True it2(2) re(4) lt w ap align_less [of "bs_start x" ?e] align_up_spec(2) [of "bs_start x"] align_down_spec(2) [of ?e]
        unfolding yields_def by (simp only: option.case prod.case) (metis (no_types, lifting))
      ultimately show ?thesis by blast
    next
      case False
      then have "reclaim_next it = reclaim_next it2" using it1(1) node(1,2) it2(1) by (subst reclaim_next.simps) simp
      moreover have "{?a div 4096..<?b div 4096} = {}" using False align_less by simp
      then have "whole (cover is_usable xs) = whole (cover is_usable ?ys)" using w by simp
      ultimately show ?thesis using less.hyps [OF lt it2(2) re(4)] yields_longer lt by metis
    qed
  qed
qed

lemma reclaim_loop_ok:
  assumes "stand it xs" "disjoint bs_start bs_end xs" "buddy_ok m F A" "addable m (whole (cover is_usable xs))"
  shows "\<exists>m' F'. reclaim_loop bytes it m = Some (Inr (bytes + 4096 * card (whole (cover is_usable xs)), m')) \<and> buddy_ok m' F' A \<and>
    frames (fblocks F') = frames (fblocks F) \<union> whole (cover is_usable xs)"
  using assms
proof (induction "length xs" arbitrary: it xs m F bytes rule: less_induct)
  case less
  from reclaim_next_ok [OF less.prems(1,2)] obtain r it' where r: "reclaim_next it = Some (r, it')"
    "yields r it' xs" by blast
  show ?case
  proof (cases r)
    case None
    then have "reclaim_loop bytes it m = Some (Inr (bytes, m))" using r(1) by (subst reclaim_loop.simps) simp
    then show ?thesis using None r(2) less.prems(3) by (auto simp: yields_def)
  next
    case (Some ab)
    let ?W = "whole (cover is_usable xs)"
    obtain i j ys where ij: "ab = (4096 * i, 4096 * j)" "i < j" "stand it' ys" "disjoint bs_start bs_end ys" "length ys < length xs"
      "?W = {i..<j} \<union> whole (cover is_usable ys)" "{i..<j} \<inter> whole (cover is_usable ys) = {}" using r(2) Some by (cases ab) (auto simp: yields_def)
    have "j - 1 \<in> ?W" using ij(2,6) by auto
    then have j: "j \<le> max_frames" using less.prems(4) by (auto simp: addable_def)
    obtain m1 F1 where m1: "add_range_boot (4096 * i) (4096 * j) m = Inr m1" "buddy_ok m1 F1 A" "frames (fblocks F1) = frames (fblocks F) \<union> {i..<j}"
      "addable m1 (?W - {i..<j})"
      by (rule add_range_boot_ok [OF less.prems(3) less_imp_le [OF ij(2)] j less.prems(4)]) (simp add: ij(6))
    have "?W - {i..<j} = whole (cover is_usable ys)" using ij(6,7) by blast
    then have "addable m1 (whole (cover is_usable ys))" using m1(4) by simp
    from less.hyps [OF ij(5,3,4) m1(2) this, of "bytes + (4096 * j - 4096 * i)"] obtain m' F' where
      m': "reclaim_loop (bytes + (4096 * j - 4096 * i)) it' m1 = Some (Inr (bytes + (4096 * j - 4096 * i) + 4096 * card (whole (cover is_usable ys)), m'))"
      "buddy_ok m' F' A" "frames (fblocks F') = frames (fblocks F1) \<union> whole (cover is_usable ys)" by blast
    have "finite ?W" by (rule finite_subset [of _ "{..<max_frames}"]) (use less.prems(4) in \<open>auto simp: addable_def\<close>)
    then have "finite (whole (cover is_usable ys))" using ij(6) by simp
    then have "card ?W = (j - i) + card (whole (cover is_usable ys))" using ij(6,7) by (simp add: card_Un_disjoint)
    then have "bytes + (4096 * j - 4096 * i) + 4096 * card (whole (cover is_usable ys)) = bytes + 4096 * card ?W" using ij(2) by simp
    moreover have "reclaim_loop bytes it m = reclaim_loop (bytes + (4096 * j - 4096 * i)) it' m1"
      using r(1) Some ij(1) m1(1) by (subst reclaim_loop.simps) simp
    ultimately show ?thesis using m' m1(3) ij(6) by (auto simp: Un_assoc)
  qed
qed

section \<open>Correctness\<close>

text \<open>
  C30. Claiming hands exactly the whole frames of free memory to the buddy allocator, marks exactly these as in use and
  keeps the type of every other address, so that no frame is handed out twice; it never panics if there are two spare slots for every free
  span and the descriptors of the frames exist.
\<close>

theorem claim_free_ranges_correct:
  assumes "boot_ok s" and "2 * span_count (\<lambda>x. bs_type x = Free) (compact s) \<le> free_nodes (compact s)"
    and "buddy_ok m F A" and "addable m (whole (typed_as (\<lambda>t. t = Free) s))"
  shows "\<exists>s' m' F'. claim_free_ranges s m = Some (Inr (s', m')) \<and> boot_ok s' \<and> buddy_ok m' F' A \<and>
    frames (fblocks F') = frames (fblocks F) \<union> whole (typed_as (\<lambda>t. t = Free) s) \<and>
    (\<forall>p. type_at s' p = (if p div 4096 \<in> whole (typed_as (\<lambda>t. t = Free) s) then Some InUse else type_at s p))"
  by (rule claim_free_ranges_effect [OF assms])

definition boot_demo :: "span_type \<Rightarrow> boot_alloc" where
  "boot_demo t = \<lparr>boot_tree = Node Black Leaf (bspan_new 12000 32768 t) (Some (max_free (bspan_new 12000 32768 t) None None)) Leaf, free_nodes = 5\<rparr>"

lemma boot_demo_ok: "boot_ok (boot_demo t)" "P t \<Longrightarrow> typed_as P (boot_demo t) = {12000..<32768}"
proof -
  show "boot_ok (boot_demo t)" by (auto simp: boot_demo_def boot_ok_def rb_wf_def disjoint_Cons)
  then show "P t \<Longrightarrow> typed_as P (boot_demo t) = {12000..<32768}" by (simp add: typed_as_cover) (simp add: boot_demo_def)
qed

lemma demo_whole: "whole {12000..<32768} = {3..<8}"
  by (simp add: whole_range align_up_def align_down_def next_multiple_def)

lemma demo_addable: "addable (buddy_init descriptors_demo) {3..<8}"
proof -
  have "fty (buddy_init descriptors_demo) = fty descriptors_demo" by (simp add: fun_eq_iff fty_def buddy_init_def)
  then show ?thesis by (simp add: addable_def descriptors_demo_reserved max_frames_def)
qed

lemma demo_buddy: "buddy_ok (buddy_init descriptors_demo) (\<lambda>k. []) {}"
  using buddy_init_ok [OF all_reserved_demo] by (simp add: buddy_ok_def)

theorem claim_free_ranges_correct_witness:
  "\<exists>s' m' F'. claim_free_ranges (boot_demo Free) (buddy_init descriptors_demo) = Some (Inr (s', m')) \<and> buddy_ok m' F' {} \<and>
     frames (fblocks F') = {3..<8} \<and> type_at s' 20000 = Some InUse"
proof -
  note ok = boot_demo_ok(1) [of Free] and W = boot_demo_ok(2) [of "\<lambda>t. t = Free" Free, OF refl]
  have "inorder (boot_tree (compact (boot_demo Free))) = [bspan_new 12000 32768 Free]" using compact_spec(2) [OF ok] by (simp add: boot_demo_def)
  moreover from this have "free_nodes (compact (boot_demo Free)) = 5" using compact_spec(4) [OF ok] by (simp add: boot_demo_def)
  ultimately have sl: "2 * span_count (\<lambda>x. bs_type x = Free) (compact (boot_demo Free)) \<le> free_nodes (compact (boot_demo Free))"
    by (simp add: span_count_def)
  have "frames (fblocks (\<lambda>k. [])) = {}" by (simp add: fblocks_def frames_def)
  then show ?thesis using claim_free_ranges_correct [OF ok sl demo_buddy] demo_addable unfolding W demo_whole by fastforce
qed

text \<open>
  C31. When the boot data are dropped, exactly the whole frames of free and reclaimable memory go to the buddy allocator, also where a
  frame is made up of several spans, and the number of bytes reported is their size; the iterator ends.
\<close>

theorem reclaimer_drop_correct:
  assumes "boot_ok s" and "buddy_ok m F A" and "addable m (whole (typed_as is_usable s))"
  shows "\<exists>m' F'. reclaimer_drop s m = Some (Inr (4096 * card (whole (typed_as is_usable s)), m')) \<and> buddy_ok m' F' A \<and>
    frames (fblocks F') = frames (fblocks F) \<union> whole (typed_as is_usable s)"
  using reclaim_loop_ok [OF stand_start, of s m F A 0] assms typed_as_cover [OF assms(1), of is_usable]
  by (simp add: reclaimer_drop_def boot_ok_def)

theorem reclaimer_drop_correct_witness:
  "\<exists>m' F'. reclaimer_drop (boot_demo Reclaimable) (buddy_init descriptors_demo) = Some (Inr (20480, m')) \<and> buddy_ok m' F' {} \<and>
     frames (fblocks F') = {3..<8}"
proof -
  have W: "typed_as is_usable (boot_demo Reclaimable) = {12000..<32768}" by (rule boot_demo_ok(2)) (simp add: is_usable_def)
  have "frames (fblocks (\<lambda>k. [])) = {}" by (simp add: fblocks_def frames_def)
  then show ?thesis using reclaimer_drop_correct [OF boot_demo_ok(1) demo_buddy, of Reclaimable] demo_addable unfolding W demo_whole by simp
qed

end
