(* ===== verification/Cp437.thy ===== *)
theory Cp437
  imports Prelude "HOL-Library.Monad_Syntax"
begin

text \<open>
  Text for the consoles: the decoding of byte strings as UTF-8 (\<^verbatim>\<open>core::str\<close>) and the translation of characters to code
  page 437 (the tables and \<^verbatim>\<open>unicode_to_cp437\<close> of \<^verbatim>\<open>device/vga_buffer.rs\<close>, repeated word for word in \<^verbatim>\<open>draw/text.rs\<close>).
  Bytes and characters are natural numbers.
\<close>

definition UNICODE_TO_CP437_KEYS :: "nat list" where
  "UNICODE_TO_CP437_KEYS = [
    160, 161, 162, 163, 165, 170, 171, 172, 176, 177, 178, 181, 183, 186, 187, 188, 189, 191, 196, 197, 198,
    199, 201, 209, 214, 220, 223, 224, 225, 226, 228, 229, 230, 231, 232, 233, 234, 235, 236, 237, 238, 239,
    241, 242, 243, 244, 246, 247, 249, 250, 251, 252, 255, 402, 915, 920, 931, 934, 937, 945, 948, 949, 960,
    963, 964, 966, 8319, 8359, 8729, 8730, 8734, 8745, 8776, 8801, 8804, 8805, 8976, 8992, 8993, 9472, 9474,
    9484, 9488, 9492, 9496, 9500, 9508, 9516, 9524, 9532, 9552, 9553, 9554, 9555, 9556, 9557, 9558, 9559,
    9560, 9561, 9562, 9563, 9564, 9565, 9566, 9567, 9568, 9569, 9570, 9571, 9572, 9573, 9574, 9575, 9576,
    9577, 9578, 9579, 9580, 9600, 9604, 9608, 9612, 9616, 9617, 9618, 9619, 9632]"

definition UNICODE_TO_CP437_VALS :: "nat list" where
  "UNICODE_TO_CP437_VALS = [
    255, 173, 155, 156, 157, 166, 174, 170, 248, 241, 253, 230, 250, 167, 175, 172, 171, 168, 142, 143, 146,
    128, 144, 165, 153, 154, 225, 133, 160, 131, 132, 134, 145, 135, 138, 130, 136, 137, 141, 161, 140, 139,
    164, 149, 162, 147, 148, 246, 151, 163, 150, 129, 152, 159, 226, 233, 228, 232, 234, 224, 235, 238, 227,
    229, 231, 237, 252, 158, 249, 251, 236, 239, 247, 240, 243, 242, 169, 244, 245, 196, 179, 218, 191, 192,
    217, 195, 180, 194, 193, 197, 205, 186, 213, 214, 201, 184, 183, 187, 212, 211, 200, 190, 189, 188, 198,
    199, 204, 181, 182, 185, 209, 210, 203, 207, 208, 202, 216, 215, 206, 223, 220, 219, 221, 222, 176, 177,
    178, 254]"

text \<open>\<^verbatim>\<open>slice::binary_search\<close> of the standard library.\<close>

function search_loop :: "nat list \<Rightarrow> nat \<Rightarrow> nat \<Rightarrow> nat \<Rightarrow> nat" where
  "search_loop xs x base sz =
     (if sz > 1
      then let half = sz div 2; mid = base + half
        in search_loop xs x (if cmp_of (xs ! mid) x = Greater then base else mid) (sz - half)
      else base)"
  by pat_completeness auto
termination
  by (relation "measure (\<lambda>(_, _, _, sz). sz)") auto

declare search_loop.simps [simp del]

definition binary_search :: "nat list \<Rightarrow> nat \<Rightarrow> nat option" where
  "binary_search xs x =
     (if xs = [] then None
      else let base = search_loop xs x 0 (length xs) in if cmp_of (xs ! base) x = Equal then Some base else None)"

definition unicode_to_cp437 :: "nat \<Rightarrow> nat option" where
  "unicode_to_cp437 cp =
     (if cp < 128 then Some cp
      else do {
        cp \<leftarrow> (if cp < 65536 then Some cp else None);
        i \<leftarrow> binary_search UNICODE_TO_CP437_KEYS cp;
        Some (UNICODE_TO_CP437_VALS ! i) })"

section \<open>Decoding\<close>

definition safe_get :: "nat list \<Rightarrow> nat \<Rightarrow> nat" where
  "safe_get bs i = (if i < length bs then bs ! i else 0)"

definition is_cont :: "nat \<Rightarrow> bool" where
  "is_cont b \<longleftrightarrow> b div 64 = 2"

text \<open>The first character of a byte string and its length, or the length of the invalid bytes in front.\<close>

definition utf8_next :: "nat list \<Rightarrow> nat option \<times> nat" where
  "utf8_next bs =
     (let b = safe_get bs 0; b1 = safe_get bs 1; b2 = safe_get bs 2; b3 = safe_get bs 3 in
      if b < 128 then (Some b, 1)
      else if 194 \<le> b \<and> b \<le> 223 then
        (if \<not> is_cont b1 then (None, 1) else (Some (b mod 32 * 64 + b1 mod 64), 2))
      else if 224 \<le> b \<and> b \<le> 239 then
        (if \<not> (b = 224 \<and> 160 \<le> b1 \<and> b1 \<le> 191 \<or> 225 \<le> b \<and> b \<le> 236 \<and> is_cont b1 \<or>
                b = 237 \<and> 128 \<le> b1 \<and> b1 \<le> 159 \<or> 238 \<le> b \<and> is_cont b1) then (None, 1)
         else if \<not> is_cont b2 then (None, 2)
         else (Some ((b mod 16 * 64 + b1 mod 64) * 64 + b2 mod 64), 3))
      else if 240 \<le> b \<and> b \<le> 244 then
        (if \<not> (b = 240 \<and> 144 \<le> b1 \<and> b1 \<le> 191 \<or> 241 \<le> b \<and> b \<le> 243 \<and> is_cont b1 \<or>
                b = 244 \<and> 128 \<le> b1 \<and> b1 \<le> 143) then (None, 1)
         else if \<not> is_cont b2 then (None, 2)
         else if \<not> is_cont b3 then (None, 3)
         else (Some (((b mod 8 * 64 + b1 mod 64) * 64 + b2 mod 64) * 64 + b3 mod 64), 4))
      else (None, 1))"

lemma utf8_next_pos: "0 < snd (utf8_next bs)"
  by (simp add: utf8_next_def Let_def)

text \<open>The items of a byte string in order: characters, and \<^term>\<open>None\<close> for each maximal invalid part.\<close>

function utf8_items :: "nat list \<Rightarrow> nat option list" where
  "utf8_items bs = (if bs = [] then [] else fst (utf8_next bs) # utf8_items (drop (snd (utf8_next bs)) bs))"
  by pat_completeness auto
termination
  using utf8_next_pos by (relation "measure length") auto

declare utf8_items.simps [simp del]

definition utf8_valid :: "nat list \<Rightarrow> bool" where
  "utf8_valid bs \<longleftrightarrow> None \<notin> set (utf8_items bs)"

section \<open>The search\<close>

lemma search_loop_ok:
  assumes sorted: "sorted_wrt (<) xs" and i: "i < length xs"
  shows "base + sz \<le> length xs \<Longrightarrow> base \<le> i \<Longrightarrow> i < base + sz \<Longrightarrow> search_loop xs (xs ! i) base sz = i"
proof (induction sz arbitrary: base rule: less_induct)
  case (less sz)
  show ?case
  proof (cases "sz > 1")
    case True
    define half where "half = sz div 2"
    have h: "0 < half" "half < sz" "half + half \<le> sz" using True by (auto simp: half_def)
    have m: "base + half < length xs" using less.prems h by linarith
    have cmp: "cmp_of (xs ! (base + half)) (xs ! i) = Greater \<longleftrightarrow> i < base + half"
      using sorted_wrt_nth_less [OF sorted, of i "base + half"] sorted_wrt_nth_less [OF sorted, of "base + half" i] i m
      by (cases i "base + half" rule: linorder_cases) (auto simp: cmp_of_def)
    have "search_loop xs (xs ! i) (if i < base + half then base else base + half) (sz - half) = i"
      by (rule less.IH) (use less.prems h in auto)
    with True show ?thesis by (subst search_loop.simps) (simp add: Let_def cmp flip: half_def)
  next
    case False
    with less.prems show ?thesis by (subst search_loop.simps) simp
  qed
qed

lemma search_loop_range: "0 < sz \<Longrightarrow> base + sz \<le> m \<Longrightarrow> search_loop xs x base sz < m"
proof (induction xs x base sz rule: search_loop.induct)
  case (1 xs x base sz)
  show ?case
  proof (cases "sz > 1")
    case True
    have "search_loop xs x (if cmp_of (xs ! (base + sz div 2)) x = Greater then base else base + sz div 2) (sz - sz div 2) < m"
      by (rule "1.IH" [OF True refl refl]) (use 1 True in auto)
    with True show ?thesis by (subst search_loop.simps) (simp add: Let_def)
  qed (use 1 in \<open>subst search_loop.simps, simp\<close>)
qed

lemma binary_search_ok:
  assumes "sorted_wrt (<) xs"
  shows "binary_search xs x = Some i \<longleftrightarrow> i < length xs \<and> xs ! i = x"
proof
  assume "binary_search xs x = Some i"
  then have "xs \<noteq> []" "i = search_loop xs x 0 (length xs)" "xs ! i = x"
    by (auto simp: binary_search_def Let_def cmp_of_def split: if_splits)
  with search_loop_range [of "length xs" 0 "length xs" xs x] show "i < length xs \<and> xs ! i = x" by simp
next
  assume i: "i < length xs \<and> xs ! i = x"
  then have "search_loop xs x 0 (length xs) = i" using search_loop_ok [OF assms, of i 0 "length xs"] by simp
  with i show "binary_search xs x = Some i" by (auto simp: binary_search_def cmp_of_def)
qed

section \<open>The tables\<close>

lemma keys_sorted: "sorted_wrt (<) UNICODE_TO_CP437_KEYS" "length UNICODE_TO_CP437_KEYS = 128"
proof -
  have "successively (<) UNICODE_TO_CP437_KEYS" by (simp add: UNICODE_TO_CP437_KEYS_def)
  then show "sorted_wrt (<) UNICODE_TO_CP437_KEYS" by (simp add: successively_conv_sorted_wrt transp_on_def)
qed (simp add: UNICODE_TO_CP437_KEYS_def)

lemma keys_range: "\<forall>k\<in>set UNICODE_TO_CP437_KEYS. 128 \<le> k \<and> k < 65536"
  by (simp add: UNICODE_TO_CP437_KEYS_def)

lemma vals_distinct: "length UNICODE_TO_CP437_VALS = 128" "distinct UNICODE_TO_CP437_VALS"
  by (simp_all add: UNICODE_TO_CP437_VALS_def)

lemma vals_set: "set UNICODE_TO_CP437_VALS = {128..<256}"
proof (rule card_subset_eq)
  show "set UNICODE_TO_CP437_VALS \<subseteq> {128..<256}" by (simp add: UNICODE_TO_CP437_VALS_def)
  show "card (set UNICODE_TO_CP437_VALS) = card {128..<256::nat}" by (simp add: distinct_card vals_distinct)
qed simp

lemma cp437_high:
  assumes "128 \<le> cp"
  shows "unicode_to_cp437 cp = Some b \<longleftrightarrow>
     (\<exists>i<128. UNICODE_TO_CP437_KEYS ! i = cp \<and> UNICODE_TO_CP437_VALS ! i = b)"
proof -
  have "unicode_to_cp437 cp = Some b \<longleftrightarrow>
    cp < 65536 \<and> (\<exists>i. binary_search UNICODE_TO_CP437_KEYS cp = Some i \<and> UNICODE_TO_CP437_VALS ! i = b)"
    using assms by (auto simp: unicode_to_cp437_def split: bind_splits)
  also have "\<dots> \<longleftrightarrow> cp < 65536 \<and> (\<exists>i<128. UNICODE_TO_CP437_KEYS ! i = cp \<and> UNICODE_TO_CP437_VALS ! i = b)"
    by (auto simp: binary_search_ok [OF keys_sorted(1)] keys_sorted(2))
  also have "\<dots> \<longleftrightarrow> (\<exists>i<128. UNICODE_TO_CP437_KEYS ! i = cp \<and> UNICODE_TO_CP437_VALS ! i = b)"
    using keys_range keys_sorted(2) nth_mem by metis
  finally show ?thesis .
qed

lemma cp437_low: "cp < 128 \<Longrightarrow> unicode_to_cp437 cp = Some cp"
  by (simp add: unicode_to_cp437_def)

lemma cp437_range: "unicode_to_cp437 cp = Some b \<Longrightarrow> b < 256 \<and> (b < 128 \<longleftrightarrow> cp < 128)"
proof (cases "cp < 128")
  case False
  assume "unicode_to_cp437 cp = Some b"
  with False have "b \<in> set UNICODE_TO_CP437_VALS" using cp437_high [of cp b] vals_distinct(1) by (auto simp: not_less)
  with False show ?thesis by (simp add: vals_set)
qed (simp add: cp437_low)

lemma cp437_inj: "unicode_to_cp437 cp = Some b \<Longrightarrow> unicode_to_cp437 cp' = Some b \<Longrightarrow> cp = cp'"
proof (cases "b < 128")
  case True
  assume "unicode_to_cp437 cp = Some b" "unicode_to_cp437 cp' = Some b"
  with True show ?thesis using cp437_range [of cp b] cp437_range [of cp' b] by (simp add: cp437_low)
next
  case False
  assume u: "unicode_to_cp437 cp = Some b" "unicode_to_cp437 cp' = Some b"
  with False have "128 \<le> cp" "128 \<le> cp'" using cp437_range [of cp b] cp437_range [of cp' b] by simp_all
  with u obtain i j where "i < 128" "UNICODE_TO_CP437_KEYS ! i = cp" "UNICODE_TO_CP437_VALS ! i = b"
    "j < 128" "UNICODE_TO_CP437_KEYS ! j = cp'" "UNICODE_TO_CP437_VALS ! j = b" by (auto simp: cp437_high)
  then show ?thesis using vals_distinct(2) vals_distinct(1) nth_eq_iff_index_eq [of UNICODE_TO_CP437_VALS i j] by auto
qed

lemma cp437_surj: "b < 256 \<Longrightarrow> \<exists>cp. unicode_to_cp437 cp = Some b"
proof (cases "b < 128")
  case False
  assume "b < 256"
  with False have "b \<in> set UNICODE_TO_CP437_VALS" by (simp add: vals_set)
  then obtain i where i: "i < 128" "UNICODE_TO_CP437_VALS ! i = b" using vals_distinct(1) by (metis in_set_conv_nth)
  then have "128 \<le> UNICODE_TO_CP437_KEYS ! i" using keys_range keys_sorted(2) by simp
  with i show ?thesis using cp437_high by blast
qed (use cp437_low in blast)

text \<open>
  C34.  The translation to code page 437 is a bijection between the characters it knows and the 256 codes, and keeps the
  characters below 128: the binary search finds every key of the table, and no two keys have the same code.
\<close>

theorem cp437_bijective:
  "bij_betw (the \<circ> unicode_to_cp437) (dom unicode_to_cp437) {..<256} \<and>
   map unicode_to_cp437 [0..<128] = map Some [0..<128]"
proof
  show "bij_betw (the \<circ> unicode_to_cp437) (dom unicode_to_cp437) {..<256}"
  proof (rule bij_betw_imageI)
    show "inj_on (the \<circ> unicode_to_cp437) (dom unicode_to_cp437)"
      using cp437_inj by (intro inj_onI) (auto simp: dom_def)
    show "(the \<circ> unicode_to_cp437) ` dom unicode_to_cp437 = {..<256}"
    proof (intro equalityI subsetI)
      fix b assume "b \<in> {..<256::nat}"
      then obtain cp where "unicode_to_cp437 cp = Some b" using cp437_surj by auto
      then show "b \<in> (the \<circ> unicode_to_cp437) ` dom unicode_to_cp437" by (intro image_eqI [of _ _ cp]) auto
    qed (use cp437_range in auto)
  qed
qed (simp add: cp437_low)

end
