(* ===== verification/Vga_Buffer.thy ===== *)
theory Vga_Buffer
  imports Cp437
begin

text \<open>
  The text mode console (\<^verbatim>\<open>device/vga_buffer.rs\<close>).  The buffer is a list of rows of cells; an index outside of it is a
  panic, the value \<^term>\<open>None\<close>.  Bytes are natural numbers below 256.
\<close>

datatype vga_color = Black | Blue | Green | Cyan | Red | Magenta | Brown | LightGray
  | DarkGray | LightBlue | LightGreen | LightCyan | LightRed | Pink | Yellow | White

fun color_code_of :: "vga_color \<Rightarrow> nat" where
  "color_code_of Black = 0"
| "color_code_of Blue = 1"
| "color_code_of Green = 2"
| "color_code_of Cyan = 3"
| "color_code_of Red = 4"
| "color_code_of Magenta = 5"
| "color_code_of Brown = 6"
| "color_code_of LightGray = 7"
| "color_code_of DarkGray = 8"
| "color_code_of LightBlue = 9"
| "color_code_of LightGreen = 10"
| "color_code_of LightCyan = 11"
| "color_code_of LightRed = 12"
| "color_code_of Pink = 13"
| "color_code_of Yellow = 14"
| "color_code_of White = 15"

text \<open>The background is shifted into the upper four bits of the byte; both codes are below 16.\<close>

definition color_code_new :: "vga_color \<Rightarrow> vga_color \<Rightarrow> nat" where
  "color_code_new foreground background = (color_code_of background * 16) mod 256 + color_code_of foreground"

record screen_char =
  ascii_character :: nat
  color_code :: nat

definition BUFFER_HEIGHT :: nat where "BUFFER_HEIGHT = 25"
definition BUFFER_WIDTH :: nat where "BUFFER_WIDTH = 80"

record vga_writer =
  column_position :: nat
  w_color_code :: nat
  chars :: "screen_char list list"

definition cell_read :: "vga_writer \<Rightarrow> nat \<Rightarrow> nat \<Rightarrow> screen_char option" where
  "cell_read w row col =
     (if row < length (chars w) \<and> col < length (chars w ! row) then Some (chars w ! row ! col) else None)"

definition cell_write :: "vga_writer \<Rightarrow> nat \<Rightarrow> nat \<Rightarrow> screen_char \<Rightarrow> vga_writer option" where
  "cell_write w row col c =
     (if row < length (chars w) \<and> col < length (chars w ! row)
      then Some (w\<lparr>chars := (chars w)[row := (chars w ! row)[col := c]]\<rparr>) else None)"

fun clear_cells :: "vga_writer \<Rightarrow> nat \<Rightarrow> screen_char \<Rightarrow> nat list \<Rightarrow> vga_writer option" where
  "clear_cells w row blank [] = Some w"
| "clear_cells w row blank (col # cols) = do { w \<leftarrow> cell_write w row col blank; clear_cells w row blank cols }"

definition clear_row :: "vga_writer \<Rightarrow> nat \<Rightarrow> vga_writer option" where
  "clear_row w row =
     (let blank = \<lparr>ascii_character = 32, color_code = w_color_code w\<rparr> in clear_cells w row blank [0..<BUFFER_WIDTH])"

fun copy_cells :: "vga_writer \<Rightarrow> nat \<Rightarrow> nat list \<Rightarrow> vga_writer option" where
  "copy_cells w row [] = Some w"
| "copy_cells w row (col # cols) = do {
     character \<leftarrow> cell_read w row col;
     w \<leftarrow> cell_write w (row - 1) col character;
     copy_cells w row cols }"

fun copy_rows :: "vga_writer \<Rightarrow> nat list \<Rightarrow> vga_writer option" where
  "copy_rows w [] = Some w"
| "copy_rows w (row # rows) = do { w \<leftarrow> copy_cells w row [0..<BUFFER_WIDTH]; copy_rows w rows }"

definition new_line :: "vga_writer \<Rightarrow> vga_writer option" where
  "new_line w = do {
     w \<leftarrow> copy_rows w [1..<BUFFER_HEIGHT];
     w \<leftarrow> clear_row w (BUFFER_HEIGHT - 1);
     Some (w\<lparr>column_position := 0\<rparr>) }"

definition write_byte :: "vga_writer \<Rightarrow> nat \<Rightarrow> vga_writer option" where
  "write_byte w byte =
     (if byte = 10 then new_line w
      else do {
        w \<leftarrow> (if column_position w \<ge> BUFFER_WIDTH then new_line w else Some w);
        let row = BUFFER_HEIGHT - 1;
        let col = column_position w;
        w \<leftarrow> cell_write w row col \<lparr>ascii_character = byte, color_code = w_color_code w\<rparr>;
        Some (w\<lparr>column_position := column_position w + 1\<rparr>) })"

fun write_string :: "vga_writer \<Rightarrow> nat list \<Rightarrow> vga_writer option" where
  "write_string w [] = Some w"
| "write_string w (ch # s) = do {
     w \<leftarrow> write_byte w (case unicode_to_cp437 ch of Some b \<Rightarrow> b | None \<Rightarrow> 254);
     write_string w s }"

text \<open>
  \<^verbatim>\<open>write\<close> takes the byte string in chunks: the characters of the valid part of a chunk, and one replacement for its
  invalid part.
\<close>

fun write_items :: "vga_writer \<Rightarrow> nat option list \<Rightarrow> vga_writer option" where
  "write_items w [] = Some w"
| "write_items w (Some ch # items) = do { w \<leftarrow> write_string w [ch]; write_items w items }"
| "write_items w (None # items) = do { w \<leftarrow> write_byte w 254; write_items w items }"

definition vga_write :: "vga_writer \<Rightarrow> nat list \<Rightarrow> vga_writer option" where
  "vga_write w data = write_items w (utf8_items data)"

definition vga_init :: "screen_char list list \<Rightarrow> vga_writer" where
  "vga_init buffer = \<lparr>column_position = 0, w_color_code = color_code_new Yellow Black, chars = buffer\<rparr>"

section \<open>Rows\<close>

definition grid :: "vga_writer \<Rightarrow> bool" where
  "grid w \<longleftrightarrow> length (chars w) = BUFFER_HEIGHT \<and> (\<forall>r\<in>set (chars w). length r = BUFFER_WIDTH)"

definition writer_ok :: "vga_writer \<Rightarrow> bool" where
  "writer_ok w \<longleftrightarrow> grid w \<and> column_position w \<le> BUFFER_WIDTH"

lemma grid_row: "grid w \<Longrightarrow> row < BUFFER_HEIGHT \<Longrightarrow> row < length (chars w) \<and> length (chars w ! row) = BUFFER_WIDTH"
  by (simp add: grid_def)

lemma copy_cells_append: "copy_cells w row (xs @ ys) = Option.bind (copy_cells w row xs) (\<lambda>w. copy_cells w row ys)"
  by (induction xs arbitrary: w) (auto split: bind_splits)

lemma clear_cells_append: "clear_cells w row b (xs @ ys) = Option.bind (clear_cells w row b xs) (\<lambda>w. clear_cells w row b ys)"
  by (induction xs arbitrary: w) (auto split: bind_splits)

lemma copy_rows_append: "copy_rows w (xs @ ys) = Option.bind (copy_rows w xs) (\<lambda>w. copy_rows w ys)"
  by (induction xs arbitrary: w) (auto split: bind_splits)

lemma take_update: "n < length xs \<Longrightarrow> length ys = length xs \<Longrightarrow> (take n xs @ drop n ys)[n := xs ! n] = take (Suc n) xs @ drop (Suc n) ys"
  by (auto simp: list_update_append take_Suc_conv_app_nth Cons_nth_drop_Suc [symmetric] upd_conv_take_nth_drop)

lemma copy_cells_upto:
  assumes "grid w" "0 < row" "row < BUFFER_HEIGHT" "n \<le> BUFFER_WIDTH"
  shows "copy_cells w row [0..<n] =
    Some (w\<lparr>chars := (chars w)[row - 1 := take n (chars w ! row) @ drop n (chars w ! (row - 1))]\<rparr>)"
  using assms(4)
proof (induction n)
  case (Suc n)
  have r: "row < length (chars w)" "length (chars w ! row) = BUFFER_WIDTH" "row - 1 < length (chars w)"
    "length (chars w ! (row - 1)) = BUFFER_WIDTH"
    using grid_row [OF assms(1), of row] grid_row [OF assms(1), of "row - 1"] assms by auto
  with Suc assms(2) show ?case
    by (simp add: copy_cells_append cell_read_def cell_write_def take_update)
qed simp

lemma clear_cells_upto:
  assumes "grid w" "row < BUFFER_HEIGHT" "n \<le> BUFFER_WIDTH"
  shows "clear_cells w row b [0..<n] = Some (w\<lparr>chars := (chars w)[row := replicate n b @ drop n (chars w ! row)]\<rparr>)"
  using assms(3)
proof (induction n)
  case (Suc n)
  have r: "row < length (chars w)" "length (chars w ! row) = BUFFER_WIDTH" using grid_row [OF assms(1,2)] by auto
  with Suc show ?case
    using take_update [of n "replicate BUFFER_WIDTH b" "chars w ! row"]
    by (simp add: clear_cells_append cell_write_def min_def replicate_append_same [symmetric])
qed simp

lemma grid_update: "grid w \<Longrightarrow> length r = BUFFER_WIDTH \<Longrightarrow> grid (w\<lparr>chars := (chars w)[i := r]\<rparr>)"
  using set_update_subset_insert [of "chars w" i r] by (auto simp: grid_def)

lemma copy_rows_upto:
  assumes "grid w" "n < BUFFER_HEIGHT"
  shows "copy_rows w [1..<Suc n] = Some (w\<lparr>chars := take n (tl (chars w)) @ drop n (chars w)\<rparr>)"
  using assms(2)
proof (induction n)
  case (Suc n)
  let ?w = "w\<lparr>chars := take n (tl (chars w)) @ drop n (chars w)\<rparr>"
  have len: "length (chars w) = BUFFER_HEIGHT" using assms(1) by (simp add: grid_def)
  have g: "grid ?w" using assms(1) Suc.prems
    by (auto simp: grid_def dest!: in_set_takeD in_set_dropD) (metis in_set_dropD drop_Suc drop_0)
  have c: "copy_cells ?w (Suc n) [0..<BUFFER_WIDTH] = Some (?w\<lparr>chars := (chars ?w)[n := chars ?w ! Suc n]\<rparr>)"
    using copy_cells_upto [OF g, of "Suc n" BUFFER_WIDTH] grid_row [OF g, of "Suc n"] grid_row [OF g, of n] Suc.prems by simp
  have "chars ?w ! Suc n = tl (chars w) ! n" using Suc.prems len by (simp add: nth_append nth_tl)
  then have "(chars ?w)[n := chars ?w ! Suc n] = take (Suc n) (tl (chars w)) @ drop (Suc n) (chars w)"
    using Suc.prems len by (simp add: list_update_append take_Suc_conv_app_nth upd_conv_take_nth_drop drop_Suc tl_drop)
  with Suc c show ?case by (simp add: copy_rows_append)
qed simp

definition blank_row :: "nat \<Rightarrow> screen_char list" where
  "blank_row color = replicate BUFFER_WIDTH \<lparr>ascii_character = 32, color_code = color\<rparr>"

lemma new_line_ok:
  assumes "grid w"
  shows "new_line w = Some (w\<lparr>chars := tl (chars w) @ [blank_row (w_color_code w)], column_position := 0\<rparr>)"
proof -
  let ?w = "w\<lparr>chars := take 24 (tl (chars w)) @ drop 24 (chars w)\<rparr>"
  have len: "length (chars w) = 25" using assms by (simp add: grid_def BUFFER_HEIGHT_def)
  have c: "copy_rows w [1..<BUFFER_HEIGHT] = Some ?w"
    using copy_rows_upto [OF assms, of 24] by (simp add: BUFFER_HEIGHT_def)
  have rows: "chars ?w = tl (chars w) @ [last (chars w)]"
    using len by (cases "chars w" rule: rev_cases) (auto simp: tl_append split: list.splits)
  have set: "set (tl (chars w)) \<subseteq> set (chars w)" "last (chars w) \<in> set (chars w)"
    using len by (cases "chars w"; auto)+
  have g: "grid ?w" unfolding grid_def rows using assms set len by (auto simp: grid_def BUFFER_HEIGHT_def)
  have "clear_row ?w 24 = Some (?w\<lparr>chars := (chars ?w)[24 := blank_row (w_color_code w)]\<rparr>)"
    using clear_cells_upto [OF g, of 24 BUFFER_WIDTH] grid_row [OF g, of 24]
    by (simp add: clear_row_def blank_row_def BUFFER_HEIGHT_def)
  moreover have "(chars ?w)[24 := blank_row (w_color_code w)] = tl (chars w) @ [blank_row (w_color_code w)]"
    unfolding rows using len by (simp add: list_update_append)
  ultimately show ?thesis using c by (simp add: new_line_def BUFFER_HEIGHT_def)
qed

section \<open>Lines\<close>

text \<open>The layout of a byte string: lines end at a line feed and are cut into pieces of the width of the screen.\<close>

fun split_lines :: "nat list \<Rightarrow> nat list list" where
  "split_lines [] = [[]]"
| "split_lines (b # bs) =
     (if b = 10 then [] # split_lines bs else (b # hd (split_lines bs)) # tl (split_lines bs))"

function chunks :: "nat \<Rightarrow> 'a list \<Rightarrow> 'a list list" where
  "chunks n xs = (if n = 0 \<or> length xs \<le> n then [xs] else take n xs # chunks n (drop n xs))"
  by pat_completeness auto
termination
  by (relation "measure (\<lambda>(_, xs). length xs)") auto

declare chunks.simps [simp del]

definition lines_of :: "nat list \<Rightarrow> nat list list" where
  "lines_of bs = concat (map (chunks BUFFER_WIDTH) (split_lines bs))"

fun wrap :: "nat list \<Rightarrow> nat list \<Rightarrow> nat list list" where
  "wrap cur [] = [cur]"
| "wrap cur (b # bs) =
     (if b = 10 then cur # wrap [] bs
      else if length cur \<ge> BUFFER_WIDTH then cur # wrap [b] bs else wrap (cur @ [b]) bs)"

lemma split_lines_ne [simp]: "split_lines bs \<noteq> []"
  by (induction bs) auto

lemma wrap_ne [simp]: "wrap cur bs \<noteq> []"
  by (induction cur bs rule: wrap.induct) auto

lemma chunks_short: "length xs \<le> n \<Longrightarrow> chunks n xs = [xs]"
  by (subst chunks.simps) simp

lemma chunks_cut: "0 < n \<Longrightarrow> length xs = n \<Longrightarrow> ys \<noteq> [] \<Longrightarrow> chunks n (xs @ ys) = xs # chunks n ys"
  by (subst chunks.simps) (auto simp: not_le)

lemma wrap_lines:
  "length cur \<le> BUFFER_WIDTH \<Longrightarrow>
   wrap cur bs = chunks BUFFER_WIDTH (cur @ hd (split_lines bs)) @ concat (map (chunks BUFFER_WIDTH) (tl (split_lines bs)))"
proof (induction cur bs rule: wrap.induct)
  case (2 cur b bs)
  have cons: "chunks BUFFER_WIDTH (hd (split_lines bs)) @ concat (map (chunks BUFFER_WIDTH) (tl (split_lines bs))) =
    concat (map (chunks BUFFER_WIDTH) (split_lines bs))" by (cases "split_lines bs") auto
  show ?case
  proof (cases "b = 10")
    case True
    with 2 show ?thesis by (simp add: chunks_short cons)
  next
    case False
    then show ?thesis
    proof (cases "length cur \<ge> BUFFER_WIDTH")
      case full: True
      with 2(4) have "length cur = BUFFER_WIDTH" by simp
      with 2(2) [OF False full] False full show ?thesis by (simp add: chunks_cut BUFFER_WIDTH_def)
    next
      case room: False
      with 2(3) [OF False room] False show ?thesis by simp
    qed
  qed
qed (simp add: chunks_short)

lemma wrap_nil: "wrap [] bs = lines_of bs"
  using wrap_lines [of "[]" bs] by (cases "split_lines bs") (auto simp: lines_of_def)

definition overlay :: "nat \<Rightarrow> screen_char list \<Rightarrow> nat list \<Rightarrow> screen_char list" where
  "overlay color below l = map (\<lambda>b. \<lparr>ascii_character = b, color_code = color\<rparr>) l @ drop (length l) below"

fun write_bytes :: "vga_writer \<Rightarrow> nat list \<Rightarrow> vga_writer option" where
  "write_bytes w [] = Some w"
| "write_bytes w (b # bs) = do { w \<leftarrow> write_byte w b; write_bytes w bs }"

definition item_byte :: "nat option \<Rightarrow> nat" where
  "item_byte item = (case Option.bind item unicode_to_cp437 of Some b \<Rightarrow> b | None \<Rightarrow> 254)"

lemma write_items_bytes: "write_items w items = write_bytes w (map item_byte items)"
  by (induction w items rule: write_items.induct) (auto simp: item_byte_def split: bind_splits)

lemma write_string_bytes: "write_string w s = write_items w (map Some s)"
  by (induction w s rule: write_string.induct) (auto split: bind_splits)

lemma overlay_length: "length l \<le> length below \<Longrightarrow> length (overlay c below l) = length below"
  by (simp add: overlay_def)

text \<open>The last row shows the current line over what was there before it.\<close>

definition at_line :: "vga_writer \<Rightarrow> nat list \<Rightarrow> screen_char list \<Rightarrow> bool" where
  "at_line w cur below \<longleftrightarrow> grid w \<and> column_position w = length cur \<and> length cur \<le> BUFFER_WIDTH \<and>
     length below = BUFFER_WIDTH \<and> last (chars w) = overlay (w_color_code w) below cur"

lemma at_line_new:
  assumes "at_line w cur below"
  shows "\<exists>w'. new_line w = Some w' \<and> at_line w' [] (blank_row (w_color_code w)) \<and> w_color_code w' = w_color_code w \<and>
    butlast (chars w') = tl (chars w)"
proof -
  have "grid w" using assms by (simp add: at_line_def)
  moreover from this have "chars w \<noteq> []" by (auto simp: grid_def BUFFER_HEIGHT_def)
  ultimately show ?thesis using new_line_ok [of w]
    by (auto simp: at_line_def grid_def overlay_def blank_row_def BUFFER_HEIGHT_def dest: list.set_sel(2))
qed

lemma at_line_put:
  assumes "at_line w cur below" "length cur < BUFFER_WIDTH" "b \<noteq> 10"
  shows "\<exists>w'. write_byte w b = Some w' \<and> at_line w' (cur @ [b]) below \<and> w_color_code w' = w_color_code w \<and>
    butlast (chars w') = butlast (chars w)"
proof -
  let ?c = "\<lparr>ascii_character = b, color_code = w_color_code w\<rparr>" and ?k = "length cur"
  have len: "length (chars w) = BUFFER_HEIGHT" using assms(1) by (simp add: at_line_def grid_def)
  then obtain rows r where rows: "chars w = rows @ [r]" "length rows = BUFFER_HEIGHT - 1"
    by (cases "chars w" rule: rev_cases) (auto simp: BUFFER_HEIGHT_def)
  have r: "r = overlay (w_color_code w) below cur" "length r = BUFFER_WIDTH" using assms(1) rows by (auto simp: at_line_def grid_def)
  have "r[?k := ?c] = overlay (w_color_code w) below (cur @ [b])"
    using assms r(2) by (simp add: r(1) overlay_def list_update_append at_line_def Cons_nth_drop_Suc [symmetric])
  moreover have "write_byte w b = Some (w\<lparr>chars := rows @ [r[?k := ?c]], column_position := Suc ?k\<rparr>)"
    using assms rows r len by (simp add: write_byte_def at_line_def cell_write_def nth_append list_update_append BUFFER_HEIGHT_def Let_def)
  ultimately show ?thesis using assms rows r by (auto simp: at_line_def grid_def BUFFER_HEIGHT_def overlay_length)
qed

lemma at_line_shift:
  assumes "at_line w cur below"
  shows "butlast (chars w) @ [overlay (w_color_code w) below cur] = chars w"
    "drop k (tl (chars w) @ xs) = drop (Suc k) (butlast (chars w) @ overlay (w_color_code w) below cur # xs)"
proof -
  have w: "chars w \<noteq> []" "last (chars w) = overlay (w_color_code w) below cur"
    using assms by (auto simp: at_line_def grid_def BUFFER_HEIGHT_def)
  then show eq: "butlast (chars w) @ [overlay (w_color_code w) below cur] = chars w" by (metis append_butlast_last_id)
  then have "butlast (chars w) @ overlay (w_color_code w) below cur # xs = chars w @ xs"
    by (metis append.assoc append_Cons append_Nil)
  with w(1) show "drop k (tl (chars w) @ xs) = drop (Suc k) (butlast (chars w) @ overlay (w_color_code w) below cur # xs)"
    by (simp only: drop_Suc tl_append2 not_False_eq_True)
qed

lemma write_bytes_ok:
  assumes "at_line w cur below"
  shows "\<exists>w' cur' below'. write_bytes w bs = Some w' \<and> at_line w' cur' below' \<and>
    chars w' = drop (length (wrap cur bs) - 1) (butlast (chars w) @ overlay (w_color_code w) below (hd (wrap cur bs)) #
      map (overlay (w_color_code w) (blank_row (w_color_code w))) (tl (wrap cur bs)))"
  using assms
proof (induction bs arbitrary: w cur below)
  case Nil
  with at_line_shift(1) [OF Nil] show ?case by auto
next
  case (Cons b bs)
  let ?c = "w_color_code w" and ?u = "blank_row (w_color_code w)"
  note shift = at_line_shift(2) [OF Cons.prems]
  from at_line_new [OF Cons.prems] obtain w0 where w0: "new_line w = Some w0" "at_line w0 [] ?u" "w_color_code w0 = ?c"
    "butlast (chars w0) = tl (chars w)" by blast
  consider (nl) "b = 10" | (room) "b \<noteq> 10" "length cur < BUFFER_WIDTH" | (full) "b \<noteq> 10" "length cur = BUFFER_WIDTH"
    using Cons.prems by (cases "length cur = BUFFER_WIDTH") (auto simp: at_line_def le_less)
  then show ?case
  proof cases
    case nl
    from Cons.IH [OF w0(2)] w0 obtain w' cur' below' where w': "write_bytes w0 bs = Some w'" "at_line w' cur' below'"
      "chars w' = drop (length (wrap [] bs) - 1) (tl (chars w) @ map (overlay ?c ?u) (wrap [] bs))"
      by (cases "wrap [] bs") auto
    with nl w0(1) shift show ?thesis by (cases "wrap [] bs") (auto simp: write_byte_def)
  next
    case room
    from at_line_put [OF Cons.prems room(2,1)] obtain w1 where w1: "write_byte w b = Some w1" "at_line w1 (cur @ [b]) below"
      "w_color_code w1 = ?c" "butlast (chars w1) = butlast (chars w)" by blast
    from Cons.IH [OF w1(2)] w1 room show ?thesis by simp
  next
    case full
    from at_line_put [OF w0(2) _ full(1)] obtain w1 where w1: "write_byte w0 b = Some w1" "at_line w1 [b] ?u"
      "w_color_code w1 = ?c" "butlast (chars w1) = tl (chars w)" using w0 by (auto simp: BUFFER_WIDTH_def)
    have wb: "write_byte w b = Some w1"
      using full Cons.prems w0(1,2) w1(1) by (simp add: write_byte_def at_line_def BUFFER_WIDTH_def)
    from Cons.IH [OF w1(2)] w1 obtain w' cur' below' where w': "write_bytes w1 bs = Some w'" "at_line w' cur' below'"
      "chars w' = drop (length (wrap [b] bs) - 1) (tl (chars w) @ map (overlay ?c ?u) (wrap [b] bs))"
      by (cases "wrap [b] bs") auto
    then show ?thesis using wb full shift by (cases "wrap [b] bs") auto
  qed
qed

section \<open>Properties\<close>

fun vga_writes :: "vga_writer \<Rightarrow> nat list list \<Rightarrow> vga_writer option" where
  "vga_writes w [] = Some w"
| "vga_writes w (d # ds) = do { w \<leftarrow> vga_write w d; vga_writes w ds }"

lemma write_bytes_append: "write_bytes w (xs @ ys) = Option.bind (write_bytes w xs) (\<lambda>w. write_bytes w ys)"
  by (induction xs arbitrary: w) (auto split: bind_splits)

definition console_bytes :: "nat list list \<Rightarrow> nat list" where
  "console_bytes ds = concat (map (\<lambda>d. map item_byte (utf8_items d)) ds)"

lemma vga_writes_bytes: "vga_writes w ds = write_bytes w (console_bytes ds)"
  by (induction w ds rule: vga_writes.induct)
    (auto simp: console_bytes_def vga_write_def write_items_bytes write_bytes_append split: bind_splits)

text \<open>
  C33.  However the console is written to from its initialisation on, it never panics, and shows the last 25 lines of what was
  written: the text is decoded, cut at line feeds and at the width of the screen, and each line stands on a cleared
  row; only the first one is written over the row that was there at the beginning, below the rows above it.
\<close>

theorem vga_shows_last_lines:
  assumes "length buffer = BUFFER_HEIGHT" "\<forall>r\<in>set buffer. length r = BUFFER_WIDTH"
  shows "\<exists>w. vga_writes (vga_init buffer) ds = Some w \<and> column_position w \<le> BUFFER_WIDTH \<and>
    (let ls = lines_of (console_bytes ds); yellow = color_code_new Yellow Black in
      chars w = drop (length ls - 1)
        (butlast buffer @ overlay yellow (last buffer) (hd ls) # map (overlay yellow (blank_row yellow)) (tl ls)) \<and>
      length (chars w) = BUFFER_HEIGHT)"
proof -
  let ?w = "vga_init buffer"
  have "last buffer \<in> set buffer" using assms(1) by (intro last_in_set) (auto simp: BUFFER_HEIGHT_def)
  then have "at_line ?w [] (last buffer)" using assms by (auto simp: at_line_def vga_init_def grid_def overlay_def)
  from write_bytes_ok [OF this, of "console_bytes ds"] show ?thesis
    by (auto simp: vga_writes_bytes wrap_nil vga_init_def at_line_def grid_def Let_def)
qed

lemma vga_shows_last_lines_witness:
  "\<exists>w. vga_writes (vga_init (replicate 25 (blank_row 7))) [[72, 105, 10], [79, 107]] = Some w \<and>
     take 2 (map ascii_character (last (chars w))) = [79, 107] \<and> take 2 (map ascii_character (chars w ! 23)) = [72, 105]"
proof -
  have "length (replicate 25 (blank_row 7)) = BUFFER_HEIGHT" "\<forall>r\<in>set (replicate 25 (blank_row 7)). length r = BUFFER_WIDTH"
    by (simp_all add: BUFFER_HEIGHT_def blank_row_def)
  note shown = vga_shows_last_lines [OF this, of "[[72, 105, 10], [79, 107]]"]
  have "utf8_items [72, 105, 10] = [Some 72, Some 105, Some 10]" "utf8_items [79, 107] = [Some 79, Some 107]"
    by (simp_all add: utf8_items.simps utf8_next_def safe_get_def Let_def)
  then have "lines_of (console_bytes [[72, 105, 10], [79, 107]]) = [[72, 105], [79, 107]]"
    by (simp add: lines_of_def console_bytes_def item_byte_def unicode_to_cp437_def chunks_short BUFFER_WIDTH_def)
  with shown show ?thesis by (auto simp: overlay_def nth_append blank_row_def Let_def)
qed

end
