(* ===== verification/Surface.thy ===== *)
theory Surface
  imports Geometry
begin

text \<open>
  Surfaces (\<^verbatim>\<open>draw/surface.rs\<close>): a rectangle of pixels in memory.  Images are kept in an explicit store, since two
  surfaces may share one: a pointer to the first pixel of an image is a number, and the store holds for each pointer
  the pixels and whether the memory belongs to the kernel's allocator.  \<^term>\<open>None\<close> is a panic or an access outside
  the image.  Coordinates are checked 32-bit integers as in \<^verbatim>\<open>Geometry\<close>, offsets are checked 64-bit integers.
\<close>

record pixmap =
  cells :: "rgba list"
  owned :: bool

type_synonym images = "nat \<Rightarrow> pixmap option"

record surface =
  s_image :: nat
  s_rect :: rect
  s_stride :: nat
  s_fill :: rgba

definition as_usize :: "int \<Rightarrow> nat" where
  "as_usize n = nat (if n < 0 then 2 ^ 64 + n else n)"

definition usize_check :: "nat \<Rightarrow> nat option" where
  "usize_check n = (if n < 2 ^ 64 then Some n else None)"

section \<open>Pixels\<close>

definition image_ptr :: "surface \<Rightarrow> point \<Rightarrow> nat option" where
  "image_ptr s p = do {
     dy \<leftarrow> i32 (py p - py (rtl (s_rect s)));
     row \<leftarrow> usize_check (as_usize dy * s_stride s);
     dx \<leftarrow> i32 (px p - px (rtl (s_rect s)));
     usize_check (row + as_usize dx) }"

definition read_run :: "images \<Rightarrow> nat \<Rightarrow> nat \<Rightarrow> nat \<Rightarrow> rgba list option" where
  "read_run h a k n = do {
     im \<leftarrow> h a;
     if k + n \<le> length (cells im) then Some (take n (drop k (cells im))) else None }"

definition write_run :: "images \<Rightarrow> nat \<Rightarrow> nat \<Rightarrow> rgba list \<Rightarrow> images option" where
  "write_run h a k cs = do {
     im \<leftarrow> h a;
     if k + length cs \<le> length (cells im)
     then Some (h(a \<mapsto> im\<lparr>cells := take k (cells im) @ cs @ drop (k + length cs) (cells im)\<rparr>)) else None }"

definition fill_row :: "images \<Rightarrow> surface \<Rightarrow> rect \<Rightarrow> rgba \<Rightarrow> int \<Rightarrow> images option" where
  "fill_row h s dst_rect color y = do {
     w \<leftarrow> rect_width dst_rect;
     k \<leftarrow> image_ptr s (point_new (px (rtl dst_rect)) y);
     write_run h (s_image s) k (replicate (as_usize w) color) }"

fun fill_rows :: "images \<Rightarrow> surface \<Rightarrow> rect \<Rightarrow> rgba \<Rightarrow> int list \<Rightarrow> images option" where
  "fill_rows h s dst_rect color [] = Some h"
| "fill_rows h s dst_rect color (y # ys) = do {
     h \<leftarrow> fill_row h s dst_rect color y;
     fill_rows h s dst_rect color ys }"

definition fill_unsafe :: "images \<Rightarrow> surface \<Rightarrow> rect \<Rightarrow> rgba \<Rightarrow> images option" where
  "fill_unsafe h s dst_rect color = fill_rows h s dst_rect color [py (rtl dst_rect)..py (rbr dst_rect) - 1]"

definition surface_fill :: "images \<Rightarrow> surface \<Rightarrow> rect \<Rightarrow> rgba \<Rightarrow> images option" where
  "surface_fill h s dst_rect color =
     (case rect_intersect dst_rect (s_rect s) of Some r \<Rightarrow> fill_unsafe h s r color | None \<Rightarrow> Some h)"

section \<open>Creation and release\<close>

text \<open>
  The allocator is an argument: for a number of pixels it returns a pointer to memory with some content, or nothing.
  \<^verbatim>\<open>Layout::repeat\<close> fails for more than \<^verbatim>\<open>isize::MAX\<close> bytes.
\<close>

definition surface_new ::
  "(images \<Rightarrow> nat \<Rightarrow> (nat \<times> rgba list) option) \<Rightarrow> images \<Rightarrow> rect \<Rightarrow> rgba \<Rightarrow> (surface \<times> images) option" where
  "surface_new kernel_alloc h rect fill = do {
     w \<leftarrow> rect_width rect;
     ht \<leftarrow> rect_height rect;
     n \<leftarrow> usize_check (as_usize w * as_usize ht);
     if 4 * n \<ge> 2 ^ 63 then None else do {
       (img, junk) \<leftarrow> kernel_alloc h n;
       let h = h(img \<mapsto> \<lparr>cells = junk, owned = True\<rparr>);
       let surface = \<lparr>s_image = img, s_rect = rect, s_stride = as_usize w, s_fill = fill\<rparr>;
       h \<leftarrow> fill_unsafe h surface rect fill;
       Some (surface, h) } }"

definition from_raw :: "nat \<Rightarrow> rect \<Rightarrow> nat \<Rightarrow> rgba \<Rightarrow> surface" where
  "from_raw img rect stride fill = \<lparr>s_image = img, s_rect = rect, s_stride = stride, s_fill = fill\<rparr>"

definition surface_drop :: "images \<Rightarrow> surface \<Rightarrow> images option" where
  "surface_drop h s = do { im \<leftarrow> h (s_image s); if owned im then Some (h(s_image s := None)) else None }"

section \<open>Copying\<close>

definition blit_row :: "images \<Rightarrow> surface \<Rightarrow> point \<Rightarrow> surface \<Rightarrow> point \<Rightarrow> int \<Rightarrow> int \<Rightarrow> images option" where
  "blit_row h s dst_start src src_start width y = do {
     dy \<leftarrow> i32 (py dst_start + y);
     dst_row \<leftarrow> image_ptr s (point_new (px dst_start) dy);
     sy \<leftarrow> i32 (py src_start + y);
     src_row \<leftarrow> image_ptr src (point_new (px src_start) sy);
     cs \<leftarrow> read_run h (s_image src) src_row (as_usize width);
     write_run h (s_image s) dst_row cs }"

fun blit_rows :: "images \<Rightarrow> surface \<Rightarrow> point \<Rightarrow> surface \<Rightarrow> point \<Rightarrow> int \<Rightarrow> int list \<Rightarrow> images option" where
  "blit_rows h s dst_start src src_start width [] = Some h"
| "blit_rows h s dst_start src src_start width (y # ys) = do {
     h \<leftarrow> blit_row h s dst_start src src_start width y;
     blit_rows h s dst_start src src_start width ys }"

definition blit_unsafe :: "images \<Rightarrow> surface \<Rightarrow> point \<Rightarrow> surface \<Rightarrow> point \<Rightarrow> int \<Rightarrow> int \<Rightarrow> images option" where
  "blit_unsafe h s dst_start src src_start width height =
     (if s_image s = s_image src \<and> py dst_start > py src_start
      then blit_rows h s dst_start src src_start width (rev [0..height - 1])
      else blit_rows h s dst_start src src_start width [0..height - 1])"

definition fill_if :: "bool \<Rightarrow> images \<Rightarrow> surface \<Rightarrow> rect \<Rightarrow> rgba \<Rightarrow> images option" where
  "fill_if c h s r color = (if c then fill_unsafe h s r color else Some h)"

definition blit :: "images \<Rightarrow> surface \<Rightarrow> rect \<Rightarrow> surface \<Rightarrow> point \<Rightarrow> images option" where
  "blit h s dst_rect src src_start =
     (case rect_intersect dst_rect (s_rect s) of None \<Rightarrow> Some h
      | Some clamped_dst_rect \<Rightarrow> do {
          d \<leftarrow> point_sub (rtl clamped_dst_rect) (rtl dst_rect);
          src_start \<leftarrow> point_add_assign src_start d;
          let dst_rect = clamped_dst_rect;
          sz \<leftarrow> rect_size dst_rect;
          br \<leftarrow> point_add src_start sz;
          case rect_intersect \<lparr>rtl = src_start, rbr = br\<rparr> (s_rect src) of
            None \<Rightarrow> fill_unsafe h s dst_rect (s_fill src)
          | Some blit_src \<Rightarrow> do {
              d \<leftarrow> point_sub (rtl blit_src) src_start;
              blit_dst_tl \<leftarrow> point_add (rtl dst_rect) d;
              sz \<leftarrow> rect_size blit_src;
              blit_dst_br \<leftarrow> point_add blit_dst_tl sz;
              w \<leftarrow> rect_width blit_src;
              ht \<leftarrow> rect_height blit_src;
              h \<leftarrow> blit_unsafe h s blit_dst_tl src (rtl blit_src) w ht;
              h \<leftarrow> fill_if (py (rtl dst_rect) < py blit_dst_tl) h s
                (rect_new (px (rtl dst_rect)) (py (rtl dst_rect)) (px (rbr dst_rect)) (py blit_dst_tl)) (s_fill src);
              h \<leftarrow> fill_if (px (rtl dst_rect) < px blit_dst_tl) h s
                (rect_new (px (rtl dst_rect)) (py blit_dst_tl) (px blit_dst_tl) (py blit_dst_br)) (s_fill src);
              h \<leftarrow> fill_if (px blit_dst_br < px (rbr dst_rect)) h s
                (rect_new (px blit_dst_br) (py blit_dst_tl) (px (rbr dst_rect)) (py blit_dst_br)) (s_fill src);
              fill_if (py blit_dst_br < py (rbr dst_rect)) h s
                (rect_new (px (rtl dst_rect)) (py blit_dst_br) (px (rbr dst_rect)) (py (rbr dst_rect))) (s_fill src) } })"

text \<open>The temporary source surface shares the image, and is dropped when \<^verbatim>\<open>self_blit\<close> returns.\<close>

definition self_blit :: "images \<Rightarrow> surface \<Rightarrow> rect \<Rightarrow> point \<Rightarrow> images option" where
  "self_blit h s dst_rect src_start = do {
     let src = \<lparr>s_image = s_image s, s_rect = s_rect s, s_stride = s_stride s, s_fill = s_fill s\<rparr>;
     h \<leftarrow> blit h s dst_rect src src_start;
     surface_drop h src }"

section \<open>Surfaces as maps from points to colours\<close>

definition in_range :: "rect \<Rightarrow> bool" where
  "in_range r \<longleftrightarrow> (\<forall>n\<in>{px (rtl r), py (rtl r), px (rbr r), py (rbr r)}. - (2 ^ 29) \<le> n \<and> n < 2 ^ 29)"

definition point_in_range :: "point \<Rightarrow> bool" where
  "point_in_range p \<longleftrightarrow> (\<forall>n\<in>{px p, py p}. - (2 ^ 29) \<le> n \<and> n < 2 ^ 29)"

definition surface_ok :: "images \<Rightarrow> surface \<Rightarrow> bool" where
  "surface_ok h s \<longleftrightarrow> in_range (s_rect s) \<and> \<not> rect_is_empty (s_rect s) \<and>
     px (rbr (s_rect s)) - px (rtl (s_rect s)) \<le> int (s_stride s) \<and>
     (case h (s_image s) of None \<Rightarrow> False
      | Some im \<Rightarrow> (py (rbr (s_rect s)) - py (rtl (s_rect s))) * int (s_stride s) \<le> int (length (cells im)) \<and> length (cells im) < 2 ^ 63)"

definition offset :: "surface \<Rightarrow> point \<Rightarrow> nat" where
  "offset s p = nat (py p - py (rtl (s_rect s))) * s_stride s + nat (px p - px (rtl (s_rect s)))"

definition pixel :: "images \<Rightarrow> surface \<Rightarrow> point \<Rightarrow> rgba" where
  "pixel h s p = cells (the (h (s_image s))) ! offset s p"

lemma rect_collapse: "\<lparr>rtl = p, rbr = q\<rparr> = rect_new (px p) (py p) (px q) (py q)"
  by (simp add: rect_new_def point_new_def)

lemma i32_Some [simp]: "- (2 ^ 31) \<le> n \<Longrightarrow> n < 2 ^ 31 \<Longrightarrow> i32 n = Some n"
  by (simp add: i32_def i32_min_def i32_max_def)

lemma surface_okD:
  assumes "surface_ok h s"
  obtains im where "h (s_image s) = Some im" "length (cells im) < 2 ^ 63"
    "nat (py (rbr (s_rect s)) - py (rtl (s_rect s))) * s_stride s \<le> length (cells im)"
    "nat (px (rbr (s_rect s)) - px (rtl (s_rect s))) \<le> s_stride s"
    "in_range (s_rect s)" "px (rtl (s_rect s)) < px (rbr (s_rect s))" "py (rtl (s_rect s)) < py (rbr (s_rect s))"
proof -
  from assms obtain im where im: "h (s_image s) = Some im" "length (cells im) < 2 ^ 63"
    "(py (rbr (s_rect s)) - py (rtl (s_rect s))) * int (s_stride s) \<le> int (length (cells im))"
    "px (rbr (s_rect s)) - px (rtl (s_rect s)) \<le> int (s_stride s)" "in_range (s_rect s)" "\<not> rect_is_empty (s_rect s)"
    by (auto simp: surface_ok_def split: option.splits)
  then have "nat (py (rbr (s_rect s)) - py (rtl (s_rect s))) * s_stride s \<le> length (cells im)"
    by (subst of_nat_le_iff [where 'a = int, symmetric]) (simp add: rect_is_empty_def)
  with im show thesis by (intro that) (auto simp: rect_is_empty_def)
qed

lemma offset_bound:
  assumes "surface_ok h s" "h (s_image s) = Some im" "contains_point (s_rect s) p"
  shows "offset s p + nat (px (rbr (s_rect s)) - px p) \<le> length (cells im)"
proof -
  from surface_okD [OF assms(1)] assms(2) have b: "nat (py (rbr (s_rect s)) - py (rtl (s_rect s))) * s_stride s \<le> length (cells im)"
    "nat (px (rbr (s_rect s)) - px (rtl (s_rect s))) \<le> s_stride s" by auto
  have y: "nat (py p - py (rtl (s_rect s))) + 1 \<le> nat (py (rbr (s_rect s)) - py (rtl (s_rect s)))"
    and x: "nat (px p - px (rtl (s_rect s))) + nat (px (rbr (s_rect s)) - px p) = nat (px (rbr (s_rect s)) - px (rtl (s_rect s)))"
    using assms(3) by (auto simp: contains_point_def)
  have "(nat (py p - py (rtl (s_rect s))) + 1) * s_stride s \<le> length (cells im)"
    using mult_le_mono1 [OF y, of "s_stride s"] b(1) by linarith
  with x b(2) show ?thesis by (simp add: offset_def)
qed

lemma image_ptr_ok:
  assumes "surface_ok h s" "contains_point (s_rect s) p"
  shows "image_ptr s p = Some (offset s p)"
proof -
  from surface_okD [OF assms(1)] obtain im where im: "h (s_image s) = Some im" "length (cells im) < 2 ^ 63" "in_range (s_rect s)" by metis
  have "offset s p < 2 ^ 64" using offset_bound [OF assms(1) im(1) assms(2)] im(2) by simp
  moreover have "i32 (py p - py (rtl (s_rect s))) = Some (py p - py (rtl (s_rect s)))" "i32 (px p - px (rtl (s_rect s))) = Some (px p - px (rtl (s_rect s)))"
    using assms(2) im(3) by (auto simp: contains_point_def in_range_def intro!: i32_Some)
  moreover have "as_usize (py p - py (rtl (s_rect s))) = nat (py p - py (rtl (s_rect s)))"
    "as_usize (px p - px (rtl (s_rect s))) = nat (px p - px (rtl (s_rect s)))"
    using assms(2) by (auto simp: as_usize_def contains_point_def)
  ultimately show ?thesis by (auto simp: image_ptr_def offset_def usize_check_def)
qed

lemma offset_inj:
  assumes "surface_ok h s" "contains_point (s_rect s) p" "contains_point (s_rect s) q"
  shows "offset s q = offset s p + k \<and> k < nat (px (rbr (s_rect s)) - px p) \<longleftrightarrow> q = point_new (px p + int k) (py p) \<and> k < nat (px (rbr (s_rect s)) - px p)"
proof (cases "k < nat (px (rbr (s_rect s)) - px p)")
  case True
  from surface_okD [OF assms(1)] have w: "nat (px (rbr (s_rect s)) - px (rtl (s_rect s))) \<le> s_stride s" by metis
  define d where "d = s_stride s"
  define a b c e where "a = nat (py p - py (rtl (s_rect s)))" "b = nat (px p - px (rtl (s_rect s))) + k"
    "c = nat (py q - py (rtl (s_rect s)))" "e = nat (px q - px (rtl (s_rect s)))"
  have lt: "b < d" "e < d" using w assms(2,3) True by (auto simp: a_b_c_e_def d_def contains_point_def)
  have "offset s q = offset s p + k \<longleftrightarrow> c * d + e = a * d + b" by (simp add: offset_def a_b_c_e_def d_def add.assoc)
  also have "\<dots> \<longleftrightarrow> c = a \<and> e = b"
    using lt div_mult_self3 [of d e c] by (metis add.commute div_less mod_less mod_mult_self3 div_mult_self3 add_0_right gr_implies_not0 not_less_zero)
  also have "\<dots> \<longleftrightarrow> py q = py p \<and> px q = px p + int k"
    using assms(2,3) True by (auto simp: a_b_c_e_def contains_point_def)
  finally show ?thesis using True by (auto simp: point_new_def)
qed simp

definition paints :: "images \<Rightarrow> surface \<Rightarrow> (point \<Rightarrow> rgba option) \<Rightarrow> images \<Rightarrow> bool" where
  "paints h s u h' \<longleftrightarrow>
     (\<exists>im im'. h (s_image s) = Some im \<and> h' = h(s_image s \<mapsto> im') \<and> length (cells im') = length (cells im) \<and> owned im' = owned im) \<and>
     (\<forall>q. contains_point (s_rect s) q \<longrightarrow> pixel h' s q = (case u q of None \<Rightarrow> pixel h s q | Some c \<Rightarrow> c))"

lemma paints_ok: "paints h s u h' \<Longrightarrow> surface_ok h t \<Longrightarrow> surface_ok h' t"
  by (auto simp: paints_def surface_ok_def split: option.splits)

lemma paints_other: "paints h s u h' \<Longrightarrow> s_image t \<noteq> s_image s \<Longrightarrow> pixel h' t q = pixel h t q"
  by (auto simp: paints_def pixel_def)

lemma paints_refl: "surface_ok h s \<Longrightarrow> paints h s Map.empty h"
  by (auto simp: paints_def surface_ok_def split: option.splits intro!: exI)

lemma paints_trans: "paints h s u h1 \<Longrightarrow> paints h1 s v h2 \<Longrightarrow> paints h s (u ++ v) h2"
  by (auto simp: paints_def map_add_def split: option.splits)

lemma paints_cong: "paints h s u h' \<Longrightarrow> (\<And>q. contains_point (s_rect s) q \<Longrightarrow> u q = v q) \<Longrightarrow> paints h s v h'"
  by (simp add: paints_def)

text \<open>A run of pixels that starts in the rectangle and does not leave its row.\<close>

definition run_at :: "point \<Rightarrow> nat \<Rightarrow> point \<Rightarrow> bool" where
  "run_at p n q \<longleftrightarrow> py q = py p \<and> px p \<le> px q \<and> px q < px p + int n"

lemma write_run_ok:
  assumes ok: "surface_ok h s" and p: "contains_point (s_rect s) p" and n: "px p + int (length cs) \<le> px (rbr (s_rect s))"
  shows "\<exists>h'. write_run h (s_image s) (offset s p) cs = Some h' \<and>
    paints h s (\<lambda>q. if run_at p (length cs) q then Some (cs ! nat (px q - px p)) else None) h'"
proof -
  from surface_okD [OF ok] obtain im where im: "h (s_image s) = Some im" by metis
  define k xs where "k = offset s p" "xs = take k (cells im) @ cs @ drop (k + length cs) (cells im)"
  have kl: "k + length cs \<le> length (cells im)" using offset_bound [OF ok im p] n by (simp add: k_xs_def)
  then have len: "length xs = length (cells im)" by (simp add: k_xs_def)
  have nth: "xs ! i = (if k \<le> i \<and> i < k + length cs then cs ! (i - k) else cells im ! i)" if "i < length (cells im)" for i
    using that kl by (auto simp: k_xs_def nth_append)
  let ?h = "h(s_image s \<mapsto> im\<lparr>cells := xs\<rparr>)"
  have px: "pixel ?h s q = (if run_at p (length cs) q then cs ! nat (px q - px p) else pixel h s q)"
    if q: "contains_point (s_rect s) q" for q
  proof -
    have "0 < nat (px (rbr (s_rect s)) - px q)" using q by (simp add: contains_point_def)
    then have qb: "offset s q < length (cells im)" using offset_bound [OF ok im q] by linarith
    show ?thesis
    proof (cases "run_at p (length cs) q")
      case True
      then obtain j where j: "j < length cs" "q = point_new (px p + int j) (py p)"
        by (intro that [of "nat (px q - px p)"]) (auto simp: run_at_def point_new_def)
      then have "offset s q = k + j" using offset_inj [OF ok p q, of j] n by (auto simp: k_xs_def)
      with True j nth [OF qb] show ?thesis by (simp add: pixel_def)
    next
      case False
      have "\<not> (k \<le> offset s q \<and> offset s q < k + length cs)"
      proof
        assume a: "k \<le> offset s q \<and> offset s q < k + length cs"
        define j where "j = offset s q - k"
        have "offset s q = offset s p + j" "j < length cs" using a by (auto simp: j_def k_xs_def)
        then have "q = point_new (px p + int j) (py p)" using offset_inj [OF ok p q, of j] n by auto
        with \<open>j < length cs\<close> False show False by (simp add: run_at_def)
      qed
      with False nth [OF qb] im show ?thesis by (auto simp: pixel_def)
    qed
  qed
  have "write_run h (s_image s) (offset s p) cs = Some ?h"
    using im kl by (simp add: write_run_def k_xs_def)
  moreover have "paints h s (\<lambda>q. if run_at p (length cs) q then Some (cs ! nat (px q - px p)) else None) ?h"
    using im len px by (auto simp: paints_def)
  ultimately show ?thesis by blast
qed

lemma read_run_ok:
  assumes ok: "surface_ok h s" and p: "contains_point (s_rect s) p" and n: "px p + int n \<le> px (rbr (s_rect s))"
  shows "read_run h (s_image s) (offset s p) n = Some (map (\<lambda>j. pixel h s (point_new (px p + int j) (py p))) [0..<n])"
proof -
  from surface_okD [OF ok] obtain im where im: "h (s_image s) = Some im" by metis
  have kl: "offset s p + n \<le> length (cells im)" using offset_bound [OF ok im p] n by simp
  have "offset s (point_new (px p + int j) (py p)) = offset s p + j" for j
  proof -
    have "nat (px p + int j - px (rtl (s_rect s))) = nat (px p - px (rtl (s_rect s))) + j"
      using p by (auto simp: contains_point_def)
    then show ?thesis by (simp add: offset_def)
  qed
  with im kl show ?thesis by (auto simp: read_run_def pixel_def intro!: nth_equalityI)
qed

section \<open>Filling\<close>

definition inside :: "rect \<Rightarrow> rect \<Rightarrow> bool" where
  "inside r b \<longleftrightarrow> px (rtl b) \<le> px (rtl r) \<and> px (rtl r) < px (rbr r) \<and> px (rbr r) \<le> px (rbr b) \<and>
     py (rtl b) \<le> py (rtl r) \<and> py (rtl r) < py (rbr r) \<and> py (rbr r) \<le> py (rbr b)"

lemma inside_width:
  assumes "surface_ok h s" "inside r (s_rect s)"
  shows "rect_width r = Some (px (rbr r) - px (rtl r))" "rect_height r = Some (py (rbr r) - py (rtl r))"
    "as_usize (px (rbr r) - px (rtl r)) = nat (px (rbr r) - px (rtl r))"
proof -
  have "in_range (s_rect s)" using assms(1) by (simp add: surface_ok_def)
  then show "rect_width r = Some (px (rbr r) - px (rtl r))" "rect_height r = Some (py (rbr r) - py (rtl r))"
    "as_usize (px (rbr r) - px (rtl r)) = nat (px (rbr r) - px (rtl r))"
    using assms(2) by (auto simp: rect_width_def rect_height_def as_usize_def inside_def in_range_def intro!: i32_Some)
qed

lemma fill_row_ok:
  assumes ok: "surface_ok h s" and r: "inside r (s_rect s)" and y: "py (rtl r) \<le> y" "y < py (rbr r)"
  shows "\<exists>h'. fill_row h s r c y = Some h' \<and>
    paints h s (\<lambda>q. if contains_point r q \<and> py q = y then Some c else None) h'"
proof -
  let ?p = "point_new (px (rtl r)) y" and ?n = "nat (px (rbr r) - px (rtl r))"
  have p: "contains_point (s_rect s) ?p" using r y by (auto simp: inside_def contains_point_def)
  have n: "px ?p + int (length (replicate ?n c)) \<le> px (rbr (s_rect s))" using r by (auto simp: inside_def)
  from write_run_ok [OF ok p n] obtain h' where h': "write_run h (s_image s) (offset s ?p) (replicate ?n c) = Some h'"
    and pt: "paints h s (\<lambda>q. if run_at ?p (length (replicate ?n c)) q then Some (replicate ?n c ! nat (px q - px ?p)) else None) h'" by blast
  have "paints h s (\<lambda>q. if contains_point r q \<and> py q = y then Some c else None) h'"
    by (rule paints_cong [OF pt]) (use r y in \<open>auto simp: run_at_def contains_point_def inside_def\<close>)
  with h' show ?thesis using inside_width [OF ok r] image_ptr_ok [OF ok p] by (simp add: fill_row_def)
qed

lemma fill_rows_ok:
  assumes "surface_ok h s" "inside r (s_rect s)" "\<forall>y\<in>set ys. py (rtl r) \<le> y \<and> y < py (rbr r)"
  shows "\<exists>h'. fill_rows h s r c ys = Some h' \<and>
    paints h s (\<lambda>q. if contains_point r q \<and> py q \<in> set ys then Some c else None) h'"
  using assms(1,3)
proof (induction ys arbitrary: h)
  case Nil
  then show ?case using paints_refl by simp
next
  case (Cons y ys)
  from Cons.prems have y: "py (rtl r) \<le> y" "y < py (rbr r)" by simp_all
  from fill_row_ok [OF Cons.prems(1) assms(2) y] obtain h1 where h1: "fill_row h s r c y = Some h1"
    "paints h s (\<lambda>q. if contains_point r q \<and> py q = y then Some c else None) h1" by blast
  from Cons.IH [OF paints_ok [OF h1(2) Cons.prems(1)]] Cons.prems(2) obtain h2 where h2: "fill_rows h1 s r c ys = Some h2"
    "paints h1 s (\<lambda>q. if contains_point r q \<and> py q \<in> set ys then Some c else None) h2" by auto
  have "paints h s (\<lambda>q. if contains_point r q \<and> py q \<in> set (y # ys) then Some c else None) h2"
    by (rule paints_cong [OF paints_trans [OF h1(2) h2(2)]]) (auto simp: map_add_def)
  with h1 h2 show ?case by simp
qed

abbreviation filled :: "rect \<Rightarrow> rgba \<Rightarrow> point \<Rightarrow> rgba option" where
  "filled r c \<equiv> \<lambda>q. if contains_point r q then Some c else None"

lemma fill_unsafe_ok:
  assumes "surface_ok h s" "inside r (s_rect s)"
  shows "\<exists>h'. fill_unsafe h s r c = Some h' \<and> paints h s (filled r c) h'"
proof -
  from fill_rows_ok [OF assms, of "[py (rtl r)..py (rbr r) - 1]" c] obtain h' where
    h': "fill_unsafe h s r c = Some h'"
    "paints h s (\<lambda>q. if contains_point r q \<and> py q \<in> set [py (rtl r)..py (rbr r) - 1] then Some c else None) h'"
    by (auto simp: fill_unsafe_def)
  have "paints h s (filled r c) h'" by (rule paints_cong [OF h'(2)]) (auto simp: contains_point_def)
  with h' show ?thesis by blast
qed

lemma fill_if_ok:
  assumes "surface_ok h s" "c \<Longrightarrow> inside r (s_rect s)"
  shows "\<exists>h'. fill_if c h s r col = Some h' \<and> paints h s (\<lambda>q. if c \<and> contains_point r q then Some col else None) h'"
  using fill_unsafe_ok [OF assms(1)] assms(2) paints_refl [OF assms(1)] by (cases c) (auto simp: fill_if_def)

lemma intersect_inside:
  assumes "rect_intersect r b = Some t"
  shows "inside t b" "inside t r" "\<And>p. contains_point t p \<longleftrightarrow> contains_point r p \<and> contains_point b p"
  using assms by (auto simp: rect_intersect_def Let_def inside_def contains_point_def split: if_splits)

lemma intersect_None: "rect_intersect r b = None \<Longrightarrow> contains_point r p \<Longrightarrow> \<not> contains_point b p"
  by (auto simp: rect_intersect_def Let_def contains_point_def split: if_splits)

lemma surface_fill_ok:
  assumes "surface_ok h s"
  shows "\<exists>h'. surface_fill h s r c = Some h' \<and> paints h s (filled r c) h'"
proof (cases "rect_intersect r (s_rect s)")
  case None
  have "paints h s (filled r c) h"
    by (rule paints_cong [OF paints_refl [OF assms]]) (use intersect_None [OF None] in auto)
  with None show ?thesis by (simp add: surface_fill_def)
next
  case (Some t)
  from fill_unsafe_ok [OF assms intersect_inside(1) [OF Some]] obtain h' where
    h': "fill_unsafe h s t c = Some h'" "paints h s (filled t c) h'" by blast
  have "paints h s (filled r c) h'"
    by (rule paints_cong [OF h'(2)]) (use intersect_inside(3) [OF Some] in auto)
  with h' Some show ?thesis by (simp add: surface_fill_def)
qed

section \<open>Copying rows\<close>

definition shares :: "surface \<Rightarrow> surface \<Rightarrow> bool" where
  "shares s src \<longleftrightarrow> s_image s = s_image src \<longrightarrow> s_rect s = s_rect src \<and> s_stride s = s_stride src"

lemma paints_source:
  assumes "paints h s u h'" "shares s src" "contains_point (s_rect src) q"
    "s_image s = s_image src \<Longrightarrow> u q = None"
  shows "pixel h' src q = pixel h src q"
proof (cases "s_image s = s_image src")
  case True
  then have "pixel g src q = pixel g s q" for g using assms(2) by (simp add: pixel_def offset_def shares_def)
  with True assms show ?thesis by (auto simp: paints_def shares_def)
next
  case False
  then show ?thesis using paints_other [OF assms(1)] by metis
qed

definition shifted :: "point \<Rightarrow> point \<Rightarrow> point \<Rightarrow> point" where
  "shifted d p q = point_new (px q - px d + px p) (py q - py d + py p)"

lemma shifted_sel [simp]: "px (shifted d p q) = px q - px d + px p" "py (shifted d p q) = py q - py d + py p"
  by (simp_all add: shifted_def)

definition row_fits :: "surface \<Rightarrow> point \<Rightarrow> int \<Rightarrow> int \<Rightarrow> bool" where
  "row_fits s p w y \<longleftrightarrow> 0 < w \<and> px (rtl (s_rect s)) \<le> px p \<and> px p + w \<le> px (rbr (s_rect s)) \<and>
     py (rtl (s_rect s)) \<le> py p + y \<and> py p + y < py (rbr (s_rect s))"

lemma row_fits_ptr:
  assumes "surface_ok h s" "row_fits s p w y"
  shows "i32 (py p + y) = Some (py p + y)" "contains_point (s_rect s) (point_new (px p) (py p + y))"
    "image_ptr s (point_new (px p) (py p + y)) = Some (offset s (point_new (px p) (py p + y)))"
proof -
  have "in_range (s_rect s)" using assms(1) by (simp add: surface_ok_def)
  with assms(2) show "i32 (py p + y) = Some (py p + y)" by (auto simp: row_fits_def in_range_def intro!: i32_Some)
  show c: "contains_point (s_rect s) (point_new (px p) (py p + y))" using assms(2) by (auto simp: row_fits_def contains_point_def)
  show "image_ptr s (point_new (px p) (py p + y)) = Some (offset s (point_new (px p) (py p + y)))"
    by (rule image_ptr_ok [OF assms(1) c])
qed

definition row_copy :: "images \<Rightarrow> point \<Rightarrow> surface \<Rightarrow> point \<Rightarrow> int \<Rightarrow> int set \<Rightarrow> point \<Rightarrow> rgba option" where
  "row_copy h d src p w ys q =
     (if px d \<le> px q \<and> px q < px d + w \<and> py q - py d \<in> ys then Some (pixel h src (shifted d p q)) else None)"

lemma blit_row_ok:
  assumes ok: "surface_ok h s" "surface_ok h src" and f: "row_fits s d w y" "row_fits src p w y"
  shows "\<exists>h'. blit_row h s d src p w y = Some h' \<and> paints h s (row_copy h d src p w {y}) h'"
proof -
  let ?d = "point_new (px d) (py d + y)" and ?p = "point_new (px p) (py p + y)" and ?n = "nat w"
  note fd = row_fits_ptr [OF ok(1) f(1)] and fp = row_fits_ptr [OF ok(2) f(2)]
  define cs where "cs = map (\<lambda>j. pixel h src (point_new (px ?p + int j) (py ?p))) [0..<?n]"
  have u: "as_usize w = ?n" using f(1) by (simp add: as_usize_def row_fits_def)
  have rd: "read_run h (s_image src) (offset src ?p) ?n = Some cs"
    unfolding cs_def by (rule read_run_ok [OF ok(2) fp(2)]) (use f(2) in \<open>simp add: row_fits_def\<close>)
  have n: "px ?d + int (length cs) \<le> px (rbr (s_rect s))" using f(1) by (simp add: row_fits_def cs_def)
  from write_run_ok [OF ok(1) fd(2) n] obtain h' where h': "write_run h (s_image s) (offset s ?d) cs = Some h'"
    and pt: "paints h s (\<lambda>q. if run_at ?d (length cs) q then Some (cs ! nat (px q - px ?d)) else None) h'" by blast
  have "paints h s (row_copy h d src p w {y}) h'"
    by (rule paints_cong [OF pt])
      (use f(1) in \<open>auto simp: run_at_def row_copy_def row_fits_def cs_def shifted_def point_new_def add.commute\<close>)
  with h' show ?thesis using fd fp u rd by (simp add: blit_row_def)
qed

lemma blit_rows_ok:
  assumes "surface_ok h s" "surface_ok h src" "shares s src"
    "\<forall>y\<in>set ys. row_fits s d w y \<and> row_fits src p w y"
    "sorted_wrt (\<lambda>y y'. s_image s = s_image src \<longrightarrow> py d + y \<noteq> py p + y') ys"
  shows "\<exists>h'. blit_rows h s d src p w ys = Some h' \<and> paints h s (row_copy h d src p w (set ys)) h'"
  using assms(1,2,4,5)
proof (induction ys arbitrary: h)
  case Nil
  have "paints h s (row_copy h d src p w {}) h"
    by (rule paints_cong [OF paints_refl [OF Nil.prems(1)]]) (simp add: row_copy_def)
  then show ?case by simp
next
  case (Cons y ys)
  from Cons.prems have "row_fits s d w y" "row_fits src p w y" by simp_all
  from blit_row_ok [OF Cons.prems(1,2) this] obtain h1 where h1: "blit_row h s d src p w y = Some h1"
    "paints h s (row_copy h d src p w {y}) h1" by blast
  from Cons.IH [OF paints_ok [OF h1(2) Cons.prems(1)] paints_ok [OF h1(2) Cons.prems(2)]] Cons.prems(3,4) obtain h2 where
    h2: "blit_rows h1 s d src p w ys = Some h2" "paints h1 s (row_copy h1 d src p w (set ys)) h2" by auto
  have same: "pixel h1 src (shifted d p q) = pixel h src (shifted d p q)"
    if q: "px d \<le> px q" "px q < px d + w" "py q - py d \<in> set ys" for q
  proof (rule paints_source [OF h1(2) assms(3)])
    show "contains_point (s_rect src) (shifted d p q)"
      using q Cons.prems(3) by (auto simp: contains_point_def row_fits_def)
    show "row_copy h d src p w {y} (shifted d p q) = None" if "s_image s = s_image src"
    proof -
      have "py d + y \<noteq> py p + (py q - py d)" using Cons.prems(4) q(3) that by auto
      then show ?thesis by (auto simp: row_copy_def)
    qed
  qed
  have "paints h s (row_copy h d src p w (set (y # ys))) h2"
    by (rule paints_cong [OF paints_trans [OF h1(2) h2(2)]]) (auto simp: map_add_def row_copy_def same)
  with h1 h2 show ?case by simp
qed

lemma blit_unsafe_ok:
  assumes "surface_ok h s" "surface_ok h src" "shares s src"
    "\<And>y. 0 \<le> y \<Longrightarrow> y < ht \<Longrightarrow> row_fits s d w y \<and> row_fits src p w y"
  shows "\<exists>h'. blit_unsafe h s d src p w ht = Some h' \<and> paints h s (row_copy h d src p w {0..<ht}) h'"
proof -
  have set: "set [0..ht - 1] = {0..<ht}" by auto
  have up: "sorted_wrt (<) [0..ht - 1]" by (simp add: sorted_wrt_upto)
  show ?thesis
  proof (cases "s_image s = s_image src \<and> py d > py p")
    case True
    have "sorted_wrt (\<lambda>y y'. s_image s = s_image src \<longrightarrow> py d + y \<noteq> py p + y') (rev [0..ht - 1])"
      unfolding sorted_wrt_rev by (rule sorted_wrt_mono_rel [OF _ up]) (use True in auto)
    with blit_rows_ok [OF assms(1-3), of "rev [0..ht - 1]" d w p] assms(4) set True show ?thesis
      by (simp add: blit_unsafe_def)
  next
    case False
    have "sorted_wrt (\<lambda>y y'. s_image s = s_image src \<longrightarrow> py d + y \<noteq> py p + y') [0..ht - 1]"
      by (rule sorted_wrt_mono_rel [OF _ up]) (use False in auto)
    moreover have "blit_unsafe h s d src p w ht = blit_rows h s d src p w [0..ht - 1]"
      using False by (auto simp: blit_unsafe_def)
    ultimately show ?thesis using blit_rows_ok [OF assms(1-3), of "[0..ht - 1]" d w p] assms(4) set by simp
  qed
qed

section \<open>Blitting\<close>

text \<open>The colour that a point of the destination gets: that of the shifted source point, or the fill colour outside the source.\<close>

definition blit_colour :: "images \<Rightarrow> rect \<Rightarrow> surface \<Rightarrow> point \<Rightarrow> point \<Rightarrow> rgba option" where
  "blit_colour h dst_rect src src_start q =
     (if contains_point dst_rect q
      then Some (let p = shifted (rtl dst_rect) src_start q in
        if contains_point (s_rect src) p then pixel h src p else s_fill src)
      else None)"

text \<open>The destination splits into the copied part and the four strips around it.\<close>

lemma strips:
  assumes "inside d c"
  shows "contains_point c q \<and> \<not> contains_point d q \<longleftrightarrow>
    py (rtl c) < py (rtl d) \<and> contains_point (rect_new (px (rtl c)) (py (rtl c)) (px (rbr c)) (py (rtl d))) q \<or>
    px (rtl c) < px (rtl d) \<and> contains_point (rect_new (px (rtl c)) (py (rtl d)) (px (rtl d)) (py (rbr d))) q \<or>
    px (rbr d) < px (rbr c) \<and> contains_point (rect_new (px (rbr d)) (py (rtl d)) (px (rbr c)) (py (rbr d))) q \<or>
    py (rbr d) < py (rbr c) \<and> contains_point (rect_new (px (rtl c)) (py (rbr d)) (px (rbr c)) (py (rbr c))) q"
  using assms by (auto simp: inside_def contains_point_def)

definition fill_strips :: "images \<Rightarrow> surface \<Rightarrow> rect \<Rightarrow> rect \<Rightarrow> rgba \<Rightarrow> images option" where
  "fill_strips h s c d col = do {
     h \<leftarrow> fill_if (py (rtl c) < py (rtl d)) h s (rect_new (px (rtl c)) (py (rtl c)) (px (rbr c)) (py (rtl d))) col;
     h \<leftarrow> fill_if (px (rtl c) < px (rtl d)) h s (rect_new (px (rtl c)) (py (rtl d)) (px (rtl d)) (py (rbr d))) col;
     h \<leftarrow> fill_if (px (rbr d) < px (rbr c)) h s (rect_new (px (rbr d)) (py (rtl d)) (px (rbr c)) (py (rbr d))) col;
     fill_if (py (rbr d) < py (rbr c)) h s (rect_new (px (rtl c)) (py (rbr d)) (px (rbr c)) (py (rbr c))) col }"

lemma fill_strips_ok:
  assumes ok: "surface_ok h s" and d: "inside d c" and c: "inside c (s_rect s)"
  shows "\<exists>h'. fill_strips h s c d col = Some h' \<and>
    paints h s (\<lambda>q. if contains_point c q \<and> \<not> contains_point d q then Some col else None) h'"
proof -
  let ?c1 = "py (rtl c) < py (rtl d)" and ?c2 = "px (rtl c) < px (rtl d)" and ?c3 = "px (rbr d) < px (rbr c)" and ?c4 = "py (rbr d) < py (rbr c)"
  let ?r1 = "rect_new (px (rtl c)) (py (rtl c)) (px (rbr c)) (py (rtl d))" and ?r2 = "rect_new (px (rtl c)) (py (rtl d)) (px (rtl d)) (py (rbr d))"
  let ?r3 = "rect_new (px (rbr d)) (py (rtl d)) (px (rbr c)) (py (rbr d))" and ?r4 = "rect_new (px (rtl c)) (py (rbr d)) (px (rbr c)) (py (rbr c))"
  have i: "?c1 \<Longrightarrow> inside ?r1 (s_rect s)" "?c2 \<Longrightarrow> inside ?r2 (s_rect s)" "?c3 \<Longrightarrow> inside ?r3 (s_rect s)" "?c4 \<Longrightarrow> inside ?r4 (s_rect s)"
    using c d by (auto simp: inside_def)
  from fill_if_ok [OF ok i(1)] obtain h1 where h1: "fill_if ?c1 h s ?r1 col = Some h1"
    "paints h s (\<lambda>q. if ?c1 \<and> contains_point ?r1 q then Some col else None) h1" by blast
  note ok1 = paints_ok [OF h1(2) ok]
  from fill_if_ok [OF ok1 i(2)] obtain h2 where h2: "fill_if ?c2 h1 s ?r2 col = Some h2"
    "paints h1 s (\<lambda>q. if ?c2 \<and> contains_point ?r2 q then Some col else None) h2" by blast
  note ok2 = paints_ok [OF h2(2) ok1]
  from fill_if_ok [OF ok2 i(3)] obtain h3 where h3: "fill_if ?c3 h2 s ?r3 col = Some h3"
    "paints h2 s (\<lambda>q. if ?c3 \<and> contains_point ?r3 q then Some col else None) h3" by blast
  note ok3 = paints_ok [OF h3(2) ok2]
  from fill_if_ok [OF ok3 i(4)] obtain h4 where h4: "fill_if ?c4 h3 s ?r4 col = Some h4"
    "paints h3 s (\<lambda>q. if ?c4 \<and> contains_point ?r4 q then Some col else None) h4" by blast
  have "paints h s (\<lambda>q. if contains_point c q \<and> \<not> contains_point d q then Some col else None) h4"
    by (rule paints_cong [OF paints_trans [OF paints_trans [OF paints_trans [OF h1(2) h2(2)] h3(2)] h4(2)]])
      (simp add: strips [OF d] map_add_def)
  with h1 h2 h3 h4 show ?thesis by (auto simp: fill_strips_def)
qed

lemma point_add_ok: "point_add p q = Some (point_new (px p + px q) (py p + py q))"
  if "- (2 ^ 31) \<le> px p + px q" "px p + px q < 2 ^ 31" "- (2 ^ 31) \<le> py p + py q" "py p + py q < 2 ^ 31"
  using that by (simp add: point_add_def)

lemma point_sub_ok: "point_sub p q = Some (point_new (px p - px q) (py p - py q))"
  if "- (2 ^ 31) \<le> px p - px q" "px p - px q < 2 ^ 31" "- (2 ^ 31) \<le> py p - py q" "py p - py q < 2 ^ 31"
  using that by (simp add: point_sub_def)

lemma blit_ok:
  assumes ok: "surface_ok h s" "surface_ok h src" and sh: "shares s src" and dr: "in_range dst_rect" and sr: "point_in_range src_start"
  shows "\<exists>h'. blit h s dst_rect src src_start = Some h' \<and> paints h s (blit_colour h dst_rect src src_start) h'"
proof (cases "rect_intersect dst_rect (s_rect s)")
  case None
  have "paints h s (blit_colour h dst_rect src src_start) h"
    by (rule paints_cong [OF paints_refl [OF ok(1)]]) (use intersect_None [OF None] in \<open>auto simp: blit_colour_def\<close>)
  with None show ?thesis by (simp add: blit_def)
next
  case (Some c)
  note ci = intersect_inside [OF Some]
  define p1 where "p1 = shifted (rtl dst_rect) src_start (rtl c)"
  define e where "e = point_new (px p1 + px (rbr c) - px (rtl c)) (py p1 + py (rbr c) - py (rtl c))"
  have rg: "in_range (s_rect s)" using ok(1) by (simp add: surface_ok_def)
  have r: "- (2 ^ 29) \<le> px src_start" "px src_start < 2 ^ 29" "- (2 ^ 29) \<le> py src_start" "py src_start < 2 ^ 29"
    "- (2 ^ 29) \<le> px (rtl dst_rect)" "px (rbr dst_rect) < 2 ^ 29" "- (2 ^ 29) \<le> py (rtl dst_rect)" "py (rbr dst_rect) < 2 ^ 29"
    using dr sr by (simp_all add: in_range_def point_in_range_def)
  have ord: "px (rtl dst_rect) \<le> px (rtl c)" "px (rtl c) < px (rbr c)" "px (rbr c) \<le> px (rbr dst_rect)"
    "py (rtl dst_rect) \<le> py (rtl c)" "py (rtl c) < py (rbr c)" "py (rbr c) \<le> py (rbr dst_rect)"
    using ci(2) by (simp_all add: inside_def)
  have p1: "px p1 = px (rtl c) - px (rtl dst_rect) + px src_start" "py p1 = py (rtl c) - py (rtl dst_rect) + py src_start" by (simp_all add: p1_def)
  have st1: "point_sub (rtl c) (rtl dst_rect) = Some (point_new (px (rtl c) - px (rtl dst_rect)) (py (rtl c) - py (rtl dst_rect)))"
    using r ord by (intro point_sub_ok) auto
  have st2: "point_add_assign src_start (point_new (px (rtl c) - px (rtl dst_rect)) (py (rtl c) - py (rtl dst_rect))) = Some p1"
    using r ord by (simp add: point_add_assign_def p1_def shifted_def point_new_def add.commute)
  have st3: "rect_size c = Some (point_new (px (rbr c) - px (rtl c)) (py (rbr c) - py (rtl c)))"
    using inside_width [OF ok(1) ci(1)] by (simp add: rect_size_def)
  have st4: "point_add p1 (point_new (px (rbr c) - px (rtl c)) (py (rbr c) - py (rtl c))) = Some e"
    using r ord p1 by (subst point_add_ok) (auto simp: e_def)
  have img: "shifted (rtl dst_rect) src_start q = shifted (rtl c) p1 q" for q by (simp add: shifted_def p1 point_new_def)
  let ?src = "\<lparr>rtl = p1, rbr = e\<rparr>"
  have cs: "contains_point ?src (shifted (rtl c) p1 q) \<longleftrightarrow> contains_point c q" for q
    by (auto simp: contains_point_def e_def)
  show ?thesis
  proof (cases "rect_intersect ?src (s_rect src)")
    case None
    from fill_unsafe_ok [OF ok(1) ci(1)] obtain h' where h': "fill_unsafe h s c (s_fill src) = Some h'" "paints h s (filled c (s_fill src)) h'" by blast
    have "paints h s (blit_colour h dst_rect src src_start) h'"
      by (rule paints_cong [OF h'(2)]) (use ci(3) intersect_None [OF None] cs in \<open>auto simp: blit_colour_def img Let_def\<close>)
    with h' Some None st1 st2 st3 st4 show ?thesis by (simp add: blit_def)
  next
    case bs: (Some b)
    note bi = intersect_inside [OF bs]
    define d where "d = shifted p1 (rtl c) (rtl b)"
    define d2 where "d2 = shifted p1 (rtl c) (rbr b)"
    let ?w = "px (rbr b) - px (rtl b)" and ?ht = "py (rbr b) - py (rtl b)" and ?d = "\<lparr>rtl = d, rbr = d2\<rparr>"
    have bo: "px p1 \<le> px (rtl b)" "px (rtl b) < px (rbr b)" "px (rbr b) \<le> px e" "py p1 \<le> py (rtl b)" "py (rtl b) < py (rbr b)" "py (rbr b) \<le> py e"
      using bi(2) by (simp_all add: inside_def)
    have di: "inside ?d c" using bo by (auto simp: inside_def d_def d2_def e_def)
    have crng: "- (2 ^ 29) \<le> px (rtl c)" "px (rbr c) < 2 ^ 29" "- (2 ^ 29) \<le> py (rtl c)" "py (rbr c) < 2 ^ 29" using r ord by linarith+
    have st5: "point_sub (rtl b) p1 = Some (point_new (px (rtl b) - px p1) (py (rtl b) - py p1))"
      using bo crng ord by (intro point_sub_ok) (auto simp: e_def)
    have st6: "point_add (rtl c) (point_new (px (rtl b) - px p1) (py (rtl b) - py p1)) = Some d"
      using bo crng ord by (subst point_add_ok) (auto simp: e_def d_def shifted_def point_new_def)
    have st7: "rect_width b = Some ?w" "rect_height b = Some ?ht" "rect_size b = Some (point_new ?w ?ht)"
      using inside_width [OF ok(2) bi(1)] by (simp_all add: rect_size_def)
    have st8: "point_add d (point_new ?w ?ht) = Some d2"
      using bo crng ord by (subst point_add_ok) (auto simp: e_def d_def d2_def shifted_def point_new_def)
    have fits: "row_fits s d ?w y \<and> row_fits src (rtl b) ?w y" if "0 \<le> y" "y < ?ht" for y
      using that bo di ci(1) bi(1) by (auto simp: row_fits_def inside_def d_def d2_def)
    from blit_unsafe_ok [OF ok sh fits] obtain h1 where h1: "blit_unsafe h s d src (rtl b) ?w ?ht = Some h1"
      "paints h s (row_copy h d src (rtl b) ?w {0..<?ht}) h1" by blast
    from fill_strips_ok [OF paints_ok [OF h1(2) ok(1)] di ci(1)] obtain h2 where h2: "fill_strips h1 s c ?d (s_fill src) = Some h2"
      "paints h1 s (\<lambda>q. if contains_point c q \<and> \<not> contains_point ?d q then Some (s_fill src) else None) h2" by blast
    have sd: "shifted d (rtl b) q = shifted (rtl c) p1 q" for q by (simp add: shifted_def d_def)
    have inb: "contains_point ?d q \<longleftrightarrow> contains_point b (shifted (rtl c) p1 q)" for q
      by (auto simp: contains_point_def d_def d2_def)
    have rc: "row_copy h d src (rtl b) ?w {0..<?ht} q = (if contains_point ?d q then Some (pixel h src (shifted (rtl c) p1 q)) else None)" for q
      unfolding row_copy_def sd by (auto simp: contains_point_def d_def d2_def)
    have "paints h s (blit_colour h dst_rect src src_start) h2"
      by (rule paints_cong [OF paints_trans [OF h1(2) h2(2)]])
        (use ci(3) bi(3) cs in \<open>auto simp: blit_colour_def map_add_def rc inb img Let_def\<close>)
    moreover have "blit h s dst_rect src src_start = Some h2"
      using Some bs st1 st2 st3 st4 st5 st6 st7 st8 h1(1) h2(1) by (simp add: blit_def fill_strips_def)
    ultimately show ?thesis by blast
  qed
qed

text \<open>The number of pixels of a rectangle, which is what a new surface asks the allocator for.\<close>

definition rect_pixels :: "rect \<Rightarrow> nat" where
  "rect_pixels r = nat (px (rbr r) - px (rtl r)) * nat (py (rbr r) - py (rtl r))"

lemma surface_new_run:
  assumes r: "in_range rect" "\<not> rect_is_empty rect"
    and sound: "\<And>n a junk. kernel_alloc h n = Some (a, junk) \<Longrightarrow> h a = None \<and> length junk = n"
  shows "case kernel_alloc h (rect_pixels rect) of None \<Rightarrow> surface_new kernel_alloc h rect fill = None
    | Some _ \<Rightarrow> \<exists>s h'. surface_new kernel_alloc h rect fill = Some (s, h') \<and>
        s_rect s = rect \<and> s_fill s = fill \<and> h (s_image s) = None \<and> surface_ok h' s \<and> h'(s_image s := None) = h \<and>
        map_option owned (h' (s_image s)) = Some True \<and> (\<forall>q. contains_point rect q \<longrightarrow> pixel h' s q = fill)"
proof -
  define w ht where "w = px (rbr rect) - px (rtl rect)" "ht = py (rbr rect) - py (rtl rect)"
  have b: "0 < w" "w < 2 ^ 30" "0 < ht" "ht < 2 ^ 30" using r by (auto simp: w_ht_def in_range_def rect_is_empty_def)
  define n where "n = nat w * nat ht"
  have n_eq: "rect_pixels rect = n" by (simp add: rect_pixels_def n_def w_ht_def)
  have "nat w \<le> 2 ^ 30 - 1" "nat ht \<le> 2 ^ 30 - 1" using b by auto
  from mult_le_mono [OF this] have n: "n \<le> (2 ^ 30 - 1) * (2 ^ 30 - 1)" unfolding n_def .
  have eq: "rect_width rect = Some w" "rect_height rect = Some ht" using r
    by (auto simp: rect_width_def rect_height_def w_ht_def in_range_def intro!: i32_Some)
  have fits: "usize_check n = Some n" "\<not> 2 ^ 63 \<le> 4 * n" using n by (simp_all add: usize_check_def)
  have run: "surface_new kernel_alloc h rect fill = do { (p, junk) \<leftarrow> kernel_alloc h n;
      h \<leftarrow> fill_unsafe (h(p \<mapsto> \<lparr>cells = junk, owned = True\<rparr>)) \<lparr>s_image = p, s_rect = rect, s_stride = nat w, s_fill = fill\<rparr> rect fill;
      Some (\<lparr>s_image = p, s_rect = rect, s_stride = nat w, s_fill = fill\<rparr>, h) }"
    using eq fits b by (simp add: surface_new_def as_usize_def Let_def flip: n_def)
  show ?thesis
  proof (cases "kernel_alloc h n")
    case None
    then show ?thesis by (simp add: n_eq run)
  next
    case (Some pj)
    then obtain p junk where al: "kernel_alloc h n = Some (p, junk)" by (cases pj) auto
    define s where "s = \<lparr>s_image = p, s_rect = rect, s_stride = nat w, s_fill = fill\<rparr>"
    define h0 where "h0 = h(p \<mapsto> \<lparr>cells = junk, owned = True\<rparr>)"
    note fresh = sound [OF al]
    have "ht * w \<le> int n" using b by (simp add: n_def)
    then have ok: "surface_ok h0 s" using r n fresh b by (simp add: surface_ok_def h0_def s_def flip: w_ht_def)
    have ins: "inside rect (s_rect s)" using r(2) by (auto simp: s_def inside_def rect_is_empty_def)
    from fill_unsafe_ok [OF ok ins, of fill] obtain h' where fl: "fill_unsafe h0 s rect fill = Some h'"
      and pt: "paints h0 s (filled rect fill) h'" by blast
    have "surface_new kernel_alloc h rect fill = Some (s, h')" using fl by (simp add: run al flip: s_def h0_def)
    moreover have "h'(s_image s := None) = h" "map_option owned (h' (s_image s)) = Some True"
      using pt fresh by (auto simp: paints_def h0_def s_def)
    moreover have "\<forall>q. contains_point rect q \<longrightarrow> pixel h' s q = fill" using pt by (auto simp: paints_def s_def)
    ultimately show ?thesis using paints_ok [OF pt ok] fresh al by (auto simp: n_eq s_def)
  qed
qed

lemma surface_new_ok:
  assumes r: "in_range rect" "\<not> rect_is_empty rect"
    and sound: "\<And>n a junk. kernel_alloc h n = Some (a, junk) \<Longrightarrow> h a = None \<and> length junk = n"
    and new: "surface_new kernel_alloc h rect fill = Some (s, h')"
  shows "s_rect s = rect \<and> s_fill s = fill \<and> h (s_image s) = None \<and> surface_ok h' s \<and> h'(s_image s := None) = h \<and> map_option owned (h' (s_image s)) = Some True \<and>
    (\<forall>q. contains_point rect q \<longrightarrow> pixel h' s q = fill)"
  using surface_new_run [where kernel_alloc = kernel_alloc and h = h, OF r sound, of fill] new by (auto split: option.splits)

section \<open>Properties\<close>

definition demo_images :: images where
  "demo_images = [0 \<mapsto> \<lparr>cells = [RED, GREEN, BLUE, WHITE], owned = True\<rparr>]"

definition demo_surface :: surface where
  "demo_surface = from_raw 0 (rect_new 0 0 2 2) 2 BLACK"

lemma demo_surface_ok: "surface_ok demo_images demo_surface" "shares s s"
  by (simp_all add: surface_ok_def demo_images_def demo_surface_def from_raw_def in_range_def rect_is_empty_def shares_def)

text \<open>
  C32.  Blitting never leaves the images and has the effect of one simultaneous copy.  Every point of the destination
  rectangle that lies in the surface gets the colour that its source point had before, or the fill colour of the
  source outside of it; every other point keeps its colour, and no other image changes.  This includes the case that
  source and destination share one image and overlap.
\<close>

theorem blit_correct:
  assumes "surface_ok h s" "surface_ok h src" "shares s src" "in_range dst_rect" "point_in_range src_start"
  shows "\<exists>h'. blit h s dst_rect src src_start = Some h' \<and> surface_ok h' s \<and>
    (\<forall>q. contains_point (s_rect s) q \<longrightarrow> pixel h' s q =
       (if \<not> contains_point dst_rect q then pixel h s q
        else let p = point_new (px q - px (rtl dst_rect) + px src_start) (py q - py (rtl dst_rect) + py src_start) in
          if contains_point (s_rect src) p then pixel h src p else s_fill src)) \<and>
    (\<forall>a. a \<noteq> s_image s \<longrightarrow> h' a = h a)"
proof -
  from blit_ok [OF assms] obtain h' where h': "blit h s dst_rect src src_start = Some h'"
    "paints h s (blit_colour h dst_rect src src_start) h'" by blast
  then show ?thesis using paints_ok [OF h'(2) assms(1)] by (auto simp: paints_def blit_colour_def shifted_def Let_def)
qed

lemma blit_correct_witness:
  "\<exists>h'. blit demo_images demo_surface (rect_new 0 1 2 2) demo_surface (point_new 1 0) = Some h' \<and>
     pixel h' demo_surface (point_new 0 1) = GREEN \<and> pixel h' demo_surface (point_new 1 1) = BLACK \<and>
     pixel h' demo_surface (point_new 0 0) = RED"
proof -
  have "in_range (rect_new 0 1 2 2)" "point_in_range (point_new 1 0)" by (simp_all add: in_range_def point_in_range_def)
  from blit_correct [OF demo_surface_ok(1) demo_surface_ok(1) demo_surface_ok(2) this] obtain h' where
    h': "blit demo_images demo_surface (rect_new 0 1 2 2) demo_surface (point_new 1 0) = Some h'"
    "\<And>q. contains_point (s_rect demo_surface) q \<Longrightarrow> pixel h' demo_surface q =
       (if \<not> contains_point (rect_new 0 1 2 2) q then pixel demo_images demo_surface q
        else let p = point_new (px q - 0 + 1) (py q - 1 + 0) in
          if contains_point (s_rect demo_surface) p then pixel demo_images demo_surface p else s_fill demo_surface)" by auto
  have "pixel h' demo_surface (point_new 0 1) = GREEN" "pixel h' demo_surface (point_new 1 1) = BLACK"
    "pixel h' demo_surface (point_new 0 0) = RED"
    by (subst h'(2); simp add: demo_surface_def demo_images_def from_raw_def contains_point_def pixel_def offset_def Let_def)+
  with h'(1) show ?thesis by blast
qed

lemma self_blit_drop:
  assumes "surface_ok h s" "in_range dst_rect" "point_in_range src_start"
  shows "\<exists>h1. blit h s dst_rect s src_start = Some h1 \<and> self_blit h s dst_rect src_start = surface_drop h1 s \<and>
    map_option owned (h1 (s_image s)) = map_option owned (h (s_image s)) \<and> h1 (s_image s) \<noteq> None"
proof -
  have same: "\<lparr>s_image = s_image s, s_rect = s_rect s, s_stride = s_stride s, s_fill = s_fill s\<rparr> = s" by simp
  from blit_ok [OF assms(1) assms(1) demo_surface_ok(2) assms(2,3)] obtain h1 where h1: "blit h s dst_rect s src_start = Some h1"
    "paints h s (blit_colour h dst_rect s src_start) h1" by blast
  from h1 show ?thesis unfolding self_blit_def same Let_def by (auto simp: paints_def)
qed

text \<open>
  A blit within one surface releases the surface's own image: the temporary source is dropped.  For an image of
  the allocator the pixels are gone afterwards, and the next access to any pixel of the surface fails; for an image
  that does not belong to it, such as the frame buffer, the operation never returns.
\<close>

theorem self_blit_releases:
  assumes "surface_ok h s" "in_range dst_rect" "point_in_range src_start"
  shows "if map_option owned (h (s_image s)) = Some True
    then \<exists>h'. self_blit h s dst_rect src_start = Some h' \<and> h' (s_image s) = None \<and> (\<forall>k cs. write_run h' (s_image s) k cs = None)
    else self_blit h s dst_rect src_start = None"
  using self_blit_drop [OF assms] by (cases "h (s_image s)") (auto simp: surface_drop_def write_run_def)

lemma self_blit_releases_witness:
  "\<exists>h'. self_blit demo_images demo_surface (rect_new 0 0 2 2) (point_new 0 1) = Some h' \<and> h' 0 = None"
proof -
  have "in_range (rect_new 0 0 2 2)" "point_in_range (point_new 0 1)" by (simp_all add: in_range_def point_in_range_def)
  from self_blit_releases [OF demo_surface_ok(1) this] show ?thesis
    by (auto simp: demo_images_def demo_surface_def from_raw_def)
qed

end
