(* ===== verification/Text_Writer.thy ===== *)
theory Text_Writer
  imports Surface Cp437
begin

text \<open>
  Text on a surface (\<^verbatim>\<open>draw/text.rs\<close>).  The font is the content of \<^verbatim>\<open>font.bin\<close>, 14 bytes for each of the 256 characters, and an
  argument of the definitions.  The position of the writer and the store of images are passed explicitly.
\<close>

definition glyph_bit :: "nat list \<Rightarrow> int \<Rightarrow> int \<Rightarrow> bool" where
  "glyph_bit f j i \<longleftrightarrow> f ! nat (min j 13) div 2 ^ nat (7 - i) mod 2 \<noteq> 0"

definition render_cell ::
  "nat list \<Rightarrow> surface \<Rightarrow> point \<Rightarrow> nat \<Rightarrow> rgba \<Rightarrow> int \<Rightarrow> int \<Rightarrow> images \<Rightarrow> images option" where
  "render_cell f s pos ch color j i h = do {
     x \<leftarrow> i32 (px pos + i);
     y \<leftarrow> i32 (py pos + j);
     let p = point_new x y;
     if contains_point (s_rect s) p then do {
       ptr \<leftarrow> image_ptr s p;
       let box_drawing = (ch \<ge> 176 \<and> ch \<le> 223);
       let bit = glyph_bit f j i;
       if (j < 14 \<or> box_drawing) \<and> bit then write_run h (s_image s) ptr [color] else Some h }
     else Some h }"

fun render_cells ::
  "nat list \<Rightarrow> surface \<Rightarrow> point \<Rightarrow> nat \<Rightarrow> rgba \<Rightarrow> (int \<times> int) list \<Rightarrow> images \<Rightarrow> images option" where
  "render_cells f s pos ch color [] h = Some h"
| "render_cells f s pos ch color ((j, i) # cs) h = do {
     h \<leftarrow> render_cell f s pos ch color j i h;
     render_cells f s pos ch color cs h }"

definition render_char :: "nat list \<Rightarrow> images \<Rightarrow> surface \<Rightarrow> point \<Rightarrow> nat \<Rightarrow> rgba \<Rightarrow> images option" where
  "render_char font h s pos ch color =
     (if 14 * (ch + 1) \<le> length font
      then let f = take 14 (drop (14 * ch) font) in render_cells f s pos ch color (List.product [0..15] [0..7]) h
      else None)"

definition text_write_byte :: "nat list \<Rightarrow> images \<Rightarrow> surface \<Rightarrow> point \<Rightarrow> nat \<Rightarrow> (images \<times> point) option" where
  "text_write_byte font h s pos b = do {
     (h, pos) \<leftarrow> (if b = 10 then do {
         y \<leftarrow> i32 (py pos + 16);
         Some (h, point_new (px (rtl (s_rect s))) y) }
       else do {
         h \<leftarrow> render_char font h s pos b WHITE;
         x \<leftarrow> i32 (px pos + 8);
         if x \<ge> px (rbr (s_rect s)) then do {
           y \<leftarrow> i32 (py pos + 16);
           Some (h, point_new (px (rtl (s_rect s))) y) }
         else Some (h, point_new x (py pos)) });
     if py pos \<ge> py (rbr (s_rect s)) then do {
       h \<leftarrow> self_blit h s (s_rect s) (point_new 0 16);
       y \<leftarrow> i32 (py pos - 16);
       Some (h, point_new (px pos) y) }
     else Some (h, pos) }"

fun text_write_string :: "nat list \<Rightarrow> images \<Rightarrow> surface \<Rightarrow> point \<Rightarrow> nat list \<Rightarrow> (images \<times> point) option" where
  "text_write_string font h s pos [] = Some (h, pos)"
| "text_write_string font h s pos (ch # str) = do {
     (h, pos) \<leftarrow> text_write_byte font h s pos (case unicode_to_cp437 ch of Some b \<Rightarrow> b | None \<Rightarrow> 254);
     text_write_string font h s pos str }"

fun text_write_items :: "nat list \<Rightarrow> images \<Rightarrow> surface \<Rightarrow> point \<Rightarrow> nat option list \<Rightarrow> (images \<times> point) option" where
  "text_write_items font h s pos [] = Some (h, pos)"
| "text_write_items font h s pos (Some ch # items) = do {
     (h, pos) \<leftarrow> text_write_string font h s pos [ch];
     text_write_items font h s pos items }"
| "text_write_items font h s pos (None # items) = do {
     (h, pos) \<leftarrow> text_write_byte font h s pos 254;
     text_write_items font h s pos items }"

definition text_write :: "nat list \<Rightarrow> images \<Rightarrow> surface \<Rightarrow> point \<Rightarrow> nat list \<Rightarrow> (images \<times> point) option" where
  "text_write font h s pos data = text_write_items font h s pos (utf8_items data)"

section \<open>Glyphs\<close>

text \<open>Whether a character has a lit pixel at a distance from its upper left corner.\<close>

definition lit :: "nat list \<Rightarrow> nat \<Rightarrow> int \<Rightarrow> int \<Rightarrow> bool" where
  "lit font ch i j \<longleftrightarrow> 0 \<le> i \<and> i < 8 \<and> 0 \<le> j \<and> (j < 14 \<or> 176 \<le> ch \<and> ch \<le> 223 \<and> j < 16) \<and>
     odd (font ! (14 * ch + nat (min j 13)) div 2 ^ nat (7 - i))"

definition inked :: "nat list \<Rightarrow> point \<Rightarrow> nat \<Rightarrow> rgba \<Rightarrow> (int \<times> int) set \<Rightarrow> point \<Rightarrow> rgba option" where
  "inked font pos ch color cs q =
     (if (py q - py pos, px q - px pos) \<in> cs \<and> lit font ch (px q - px pos) (py q - py pos) then Some color else None)"

lemma glyph_lit:
  assumes "14 * (ch + 1) \<le> length font" "0 \<le> i" "i < 8" "0 \<le> j" "j < 16"
  shows "lit font ch i j \<longleftrightarrow> (j < 14 \<or> ch \<ge> 176 \<and> ch \<le> 223) \<and> glyph_bit (take 14 (drop (14 * ch) font)) j i"
proof -
  have "nat (min j 13) < 14" using assms by auto
  then have "take 14 (drop (14 * ch) font) ! nat (min j 13) = font ! (14 * ch + nat (min j 13))" using assms(1) by simp
  with assms show ?thesis by (auto simp: lit_def glyph_bit_def odd_iff_mod_2_eq_one)
qed

lemma render_cells_ok:
  assumes f: "14 * (ch + 1) \<le> length font" and pos: "point_in_range pos" and ok: "surface_ok h s"
    and cs: "\<forall>(j, i)\<in>set cs. 0 \<le> i \<and> i < 8 \<and> 0 \<le> j \<and> j < 16"
  shows "\<exists>h'. render_cells (take 14 (drop (14 * ch) font)) s pos ch color cs h = Some h' \<and>
    paints h s (inked font pos ch color (set cs)) h'"
  using ok cs
proof (induction cs arbitrary: h)
  case Nil
  have "paints h s (inked font pos ch color {}) h" by (rule paints_cong [OF paints_refl [OF Nil.prems(1)]]) (simp add: inked_def)
  then show ?case by simp
next
  case (Cons c cs)
  obtain j i where c: "c = (j, i)" by (cases c)
  with Cons.prems have b: "0 \<le> i" "i < 8" "0 \<le> j" "j < 16" by auto
  let ?p = "point_new (px pos + i) (py pos + j)" and ?f = "take 14 (drop (14 * ch) font)"
  have r: "i32 (px pos + i) = Some (px pos + i)" "i32 (py pos + j) = Some (py pos + j)"
    using pos b by (auto simp: point_in_range_def intro!: i32_Some)
  have "\<exists>h1. render_cell ?f s pos ch color j i h = Some h1 \<and> paints h s (inked font pos ch color {(j, i)}) h1"
  proof (cases "contains_point (s_rect s) ?p \<and> lit font ch i j")
    case True
    then have p: "contains_point (s_rect s) ?p" and l: "lit font ch i j" by auto
    have "px ?p + int (length [color]) \<le> px (rbr (s_rect s))" using p by (simp add: contains_point_def)
    from write_run_ok [OF Cons.prems(1) p this] obtain h1 where h1: "write_run h (s_image s) (offset s ?p) [color] = Some h1"
      "paints h s (\<lambda>q. if run_at ?p (length [color]) q then Some ([color] ! nat (px q - px ?p)) else None) h1" by blast
    have "paints h s (inked font pos ch color {(j, i)}) h1"
      by (rule paints_cong [OF h1(2)]) (use l in \<open>auto simp: inked_def run_at_def\<close>)
    with h1 show ?thesis using r p l image_ptr_ok [OF Cons.prems(1) p] glyph_lit [OF f b] by (auto simp: render_cell_def)
  next
    case False
    have "paints h s (inked font pos ch color {(j, i)}) h"
      by (rule paints_cong [OF paints_refl [OF Cons.prems(1)]]) (use False in \<open>auto simp: inked_def contains_point_def\<close>)
    moreover have "render_cell ?f s pos ch color j i h = Some h"
      using False r image_ptr_ok [OF Cons.prems(1), of ?p] glyph_lit [OF f b] by (auto simp: render_cell_def Let_def)
    ultimately show ?thesis by blast
  qed
  then obtain h1 where h1: "render_cell ?f s pos ch color j i h = Some h1" "paints h s (inked font pos ch color {(j, i)}) h1" by blast
  from Cons.IH [OF paints_ok [OF h1(2) Cons.prems(1)]] Cons.prems(2) obtain h2 where
    h2: "render_cells ?f s pos ch color cs h1 = Some h2" "paints h1 s (inked font pos ch color (set cs)) h2" by auto
  have "paints h s (inked font pos ch color (set (c # cs))) h2"
    by (rule paints_cong [OF paints_trans [OF h1(2) h2(2)]]) (auto simp: inked_def map_add_def c)
  with c h1 h2 show ?case by simp
qed

definition glyph_at :: "nat list \<Rightarrow> point \<Rightarrow> nat \<Rightarrow> rgba \<Rightarrow> point \<Rightarrow> rgba option" where
  "glyph_at font pos ch color q = (if lit font ch (px q - px pos) (py q - py pos) then Some color else None)"

lemma render_char_ok:
  assumes "14 * (ch + 1) \<le> length font" "point_in_range pos" "surface_ok h s"
  shows "\<exists>h'. render_char font h s pos ch color = Some h' \<and> paints h s (glyph_at font pos ch color) h'"
proof -
  from render_cells_ok [OF assms, of "List.product [0..15] [0..7]" color] obtain h' where
    h': "render_cells (take 14 (drop (14 * ch) font)) s pos ch color (List.product [0..15] [0..7]) h = Some h'"
    "paints h s (inked font pos ch color (set (List.product [0..15] [0..7]))) h'" by auto
  have "paints h s (glyph_at font pos ch color) h'"
    by (rule paints_cong [OF h'(2)]) (auto simp: inked_def glyph_at_def lit_def)
  with h' assms(1) show ?thesis by (auto simp: render_char_def)
qed

section \<open>Properties\<close>

definition next_pos :: "rect \<Rightarrow> point \<Rightarrow> nat \<Rightarrow> point" where
  "next_pos r pos b =
     (if b = 10 \<or> px pos + 8 \<ge> px (rbr r) then point_new (px (rtl r)) (py pos + 16) else point_new (px pos + 8) (py pos))"

text \<open>
  C35.  On a surface whose image is not the allocator's, such as the frame buffer, writing a byte draws exactly the lit pixels of its
  glyph at the position of the writer, moves the position by one character and wraps it at the right edge.  When the
  next line would start below the surface, the writer does not return: scrolling releases the image.
\<close>

theorem text_write_byte_correct:
  assumes "surface_ok h s" "map_option owned (h (s_image s)) = Some False" "length font = 14 * 256" "b < 256"
    "contains_point (s_rect s) pos"
  shows "if py (next_pos (s_rect s) pos b) \<ge> py (rbr (s_rect s)) then text_write_byte font h s pos b = None
    else \<exists>h'. text_write_byte font h s pos b = Some (h', next_pos (s_rect s) pos b) \<and>
      contains_point (s_rect s) (next_pos (s_rect s) pos b) \<and>
      (\<forall>q. contains_point (s_rect s) q \<longrightarrow> pixel h' s q =
        (if b \<noteq> 10 \<and> lit font b (px q - px pos) (py q - py pos) then WHITE else pixel h s q))"
proof -
  let ?r = "s_rect s" and ?n = "next_pos (s_rect s) pos b"
  have rg: "in_range ?r" "\<not> rect_is_empty ?r" using assms(1) by (simp_all add: surface_ok_def)
  then have pos: "point_in_range pos" and r: "i32 (px pos + 8) = Some (px pos + 8)" "i32 (py pos + 16) = Some (py pos + 16)"
    using assms(5) by (auto simp: in_range_def point_in_range_def contains_point_def intro!: i32_Some)
  have "\<exists>h1. (if b = 10 then Some h else render_char font h s pos b WHITE) = Some h1 \<and>
    paints h s (\<lambda>q. if b \<noteq> 10 \<and> lit font b (px q - px pos) (py q - py pos) then Some WHITE else None) h1"
    using paints_refl [OF assms(1)] render_char_ok [OF _ pos assms(1), of b font WHITE] assms(3,4)
    by (auto simp: glyph_at_def [abs_def])
  then obtain h1 where h1: "(if b = 10 then Some h else render_char font h s pos b WHITE) = Some h1"
    and pt: "paints h s (\<lambda>q. if b \<noteq> 10 \<and> lit font b (px q - px pos) (py q - py pos) then Some WHITE else None) h1" by blast
  have eq: "text_write_byte font h s pos b =
    (if py ?n \<ge> py (rbr ?r) then do { h \<leftarrow> self_blit h1 s ?r (point_new 0 16); y \<leftarrow> i32 (py ?n - 16); Some (h, point_new (px ?n) y) }
     else Some (h1, ?n))"
    using h1 r by (auto simp: text_write_byte_def next_pos_def point_new_def)
  have "map_option owned (h1 (s_image s)) = Some False" using pt assms(2) by (auto simp: paints_def)
  with self_blit_drop [OF paints_ok [OF pt assms(1)] rg(1), of "point_new 0 16"] have "self_blit h1 s ?r (point_new 0 16) = None"
    by (auto simp: surface_drop_def point_in_range_def)
  moreover have "contains_point ?r ?n" if "py ?n < py (rbr ?r)"
    using that assms(5) rg(2) by (auto simp: next_pos_def contains_point_def rect_is_empty_def)
  moreover have "\<forall>q. contains_point ?r q \<longrightarrow> pixel h1 s q =
      (if b \<noteq> 10 \<and> lit font b (px q - px pos) (py q - py pos) then WHITE else pixel h s q)"
    using pt by (simp add: paints_def)
  ultimately show ?thesis using eq by auto
qed

definition raw_image :: "images" where
  "raw_image = [0 \<mapsto> \<lparr>cells = replicate 512 BLACK, owned = False\<rparr>]"

definition raw_surface :: surface where
  "raw_surface = from_raw 0 (rect_new 0 0 16 32) 16 BLACK"

lemma text_write_byte_correct_witness:
  "(\<exists>h'. text_write_byte (replicate 3584 255) raw_image raw_surface (point_new 0 0) 65 = Some (h', point_new 8 0) \<and>
      pixel h' raw_surface (point_new 3 4) = WHITE) \<and>
   text_write_byte (replicate 3584 255) raw_image raw_surface (point_new 8 16) 65 = None"
proof -
  have ok: "surface_ok raw_image raw_surface" "map_option owned (raw_image (s_image raw_surface)) = Some False"
    by (simp_all add: surface_ok_def raw_image_def raw_surface_def from_raw_def in_range_def rect_is_empty_def)
  have in0: "contains_point (s_rect raw_surface) (point_new 0 0)" "contains_point (s_rect raw_surface) (point_new 8 16)"
    and q: "contains_point (s_rect raw_surface) (point_new 3 4)"
    and n: "next_pos (s_rect raw_surface) (point_new 0 0) 65 = point_new 8 0" "next_pos (s_rect raw_surface) (point_new 8 16) 65 = point_new 0 32"
    and br: "py (rbr (s_rect raw_surface)) = 32"
    by (simp_all add: contains_point_def raw_surface_def from_raw_def next_pos_def)
  have l: "lit (replicate 3584 255) 65 3 4" by (simp add: lit_def)
  have f: "length (replicate 3584 (255 :: nat)) = 14 * 256" "(65 :: nat) < 256" by simp_all
  from text_write_byte_correct [OF ok f in0(1)] text_write_byte_correct [OF ok f in0(2)] q l show ?thesis
    unfolding n br by auto
qed

end
