(* ===== verification/Ram_Fs.thy ===== *)
theory Ram_Fs
  imports Cp437
begin

unbundle bit_operations_syntax

text \<open>
  The file system image: the tool that builds it on the host (\<^verbatim>\<open>host/fs-tool/src/main.rs\<close>) and the reader in the kernel
  (\<^verbatim>\<open>ramfs.rs\<close>).  Bytes and unsigned integers are natural numbers; a sum that does not fit 64 bits panics.  A string is
  the list of its bytes.  \<^term>\<open>None\<close> is a panic or a read outside the image.
\<close>

definition u64 :: "nat \<Rightarrow> nat option" where
  "u64 n = (if n < 2 ^ 64 then Some n else None)"

definition to_le_bytes :: "nat \<Rightarrow> nat list" where
  "to_le_bytes n = map (\<lambda>i. n div 256 ^ i mod 256) [0..<8]"

fun from_le_bytes :: "nat list \<Rightarrow> nat" where
  "from_le_bytes [] = 0"
| "from_le_bytes (b # bs) = b + 256 * from_le_bytes bs"

section \<open>Building an image\<close>

definition MAGIC :: "nat list" where
  "MAGIC = [76, 73, 76, 73, 84, 72, 33, 33]"

definition PAGE_SIZE :: nat where "PAGE_SIZE = 4096"
definition NAME_LEN :: nat where "NAME_LEN = 32"
definition ENTRY_SIZE :: nat where "ENTRY_SIZE = 64"
definition HEADER_SIZE :: nat where "HEADER_SIZE = 16"

definition fs_align_up :: "nat \<Rightarrow> nat \<Rightarrow> nat option" where
  "fs_align_up val align = do { s \<leftarrow> u64 (val + align); Some (nat (int (s - 1) AND NOT (int (align - 1)))) }"

datatype fs_error = Usage | NameTooLong | DuplicateName | Panic

fun collect_files :: "nat list list \<Rightarrow> (nat list \<times> nat list) list \<Rightarrow> fs_error + (nat list \<times> nat list) list" where
  "collect_files seen [] = Inr []"
| "collect_files seen ((name, data) # rest) =
     (if length name > NAME_LEN then Inl NameTooLong
      else if name \<in> set seen then Inl DuplicateName
      else case collect_files (name # seen) rest of Inl e \<Rightarrow> Inl e | Inr files \<Rightarrow> Inr ((name, data) # files))"

fun place_files :: "nat \<Rightarrow> (nat list \<times> nat list) list \<Rightarrow> ((nat list \<times> nat \<times> nat) list \<times> nat) option" where
  "place_files offset [] = Some ([], offset)"
| "place_files offset ((name, data) # files) = do {
     end \<leftarrow> u64 (offset + length data);
     next \<leftarrow> fs_align_up end PAGE_SIZE;
     (entries, total) \<leftarrow> place_files next files;
     Some ((name, offset, length data) # entries, total) }"

definition copy_from_slice :: "nat list \<Rightarrow> nat \<Rightarrow> nat list \<Rightarrow> nat list option" where
  "copy_from_slice img at bs =
     (if at + length bs \<le> length img then Some (take at img @ bs @ drop (at + length bs) img) else None)"

fun put_table :: "nat list \<Rightarrow> nat \<Rightarrow> (nat list \<times> nat \<times> nat) list \<Rightarrow> nat list option" where
  "put_table img i [] = Some img"
| "put_table img i ((name, off, sz) # entries) = do {
     let base = HEADER_SIZE + i * ENTRY_SIZE;
     img \<leftarrow> copy_from_slice img base name;
     img \<leftarrow> copy_from_slice img (base + 32) (to_le_bytes off);
     img \<leftarrow> copy_from_slice img (base + 40) (to_le_bytes sz);
     put_table img (i + 1) entries }"

fun put_data :: "nat list \<Rightarrow> nat \<Rightarrow> (nat list \<times> nat \<times> nat) list \<Rightarrow> (nat list \<times> nat list) list \<Rightarrow> nat list option" where
  "put_data img i entries [] = Some img"
| "put_data img i entries ((name, data) # files) =
     (if i < length entries then do {
        let off = fst (snd (entries ! i));
        img \<leftarrow> copy_from_slice img off data;
        put_data img (i + 1) entries files }
      else None)"

definition build_image :: "(nat list \<times> nat list) list \<Rightarrow> nat list option" where
  "build_image files = do {
     let num_files = length files;
     table_size \<leftarrow> u64 (ENTRY_SIZE * num_files);
     t \<leftarrow> u64 (HEADER_SIZE + table_size);
     data_start \<leftarrow> fs_align_up t PAGE_SIZE;
     (entries, total_size) \<leftarrow> place_files data_start files;
     if total_size \<ge> 2 ^ 63 then None else do {
       let img = replicate total_size 0;
       img \<leftarrow> copy_from_slice img 0 MAGIC;
       img \<leftarrow> copy_from_slice img 8 (to_le_bytes num_files);
       img \<leftarrow> put_table img 0 entries;
       put_data img 0 entries files } }"

text \<open>The whole tool, on the names and contents of the files given as arguments.\<close>

definition fs_tool :: "(nat list \<times> nat list) list \<Rightarrow> fs_error + nat list" where
  "fs_tool args =
     (if args = [] then Inl Usage
      else case collect_files [] args of Inl e \<Rightarrow> Inl e
      | Inr files \<Rightarrow> (case build_image files of None \<Rightarrow> Inl Panic | Some img \<Rightarrow> Inr img))"

section \<open>Reading an image\<close>

record fs_header =
  magic :: nat
  n_files :: nat

record fs_entry =
  fe_name :: "nat list"
  fe_offset :: nat
  fe_size :: nat
  fe_reserved :: "nat list"

definition byte_range :: "nat list \<Rightarrow> nat \<Rightarrow> nat \<Rightarrow> nat list" where
  "byte_range data a n = take n (drop a data)"

definition ramfs_header :: "nat list \<Rightarrow> fs_header option" where
  "ramfs_header data =
     (if 16 \<le> length data
      then Some \<lparr>magic = from_le_bytes (byte_range data 0 8), n_files = from_le_bytes (byte_range data 8 8)\<rparr> else None)"

definition entry_at :: "nat list \<Rightarrow> nat \<Rightarrow> fs_entry" where
  "entry_at data a =
     \<lparr>fe_name = byte_range data a 32, fe_offset = from_le_bytes (byte_range data (a + 32) 8),
      fe_size = from_le_bytes (byte_range data (a + 40) 8), fe_reserved = byte_range data (a + 48) 16\<rparr>"

definition ramfs_entries :: "nat list \<Rightarrow> fs_entry list option" where
  "ramfs_entries data = do {
     hd \<leftarrow> ramfs_header data;
     if 16 + 64 * n_files hd \<le> length data then Some (map (\<lambda>i. entry_at data (16 + 64 * i)) [0..<n_files hd]) else None }"

definition entry_name :: "fs_entry \<Rightarrow> nat list option" where
  "entry_name e =
     (let name = takeWhile (\<lambda>c. c \<noteq> 0) (fe_name e) in if utf8_valid name then Some name else None)"

text \<open>The iterator over the names is consumed up to the first match.\<close>

fun name_position :: "fs_entry list \<Rightarrow> nat list \<Rightarrow> nat option option" where
  "name_position [] name = Some None"
| "name_position (e # es) name = do {
     n \<leftarrow> entry_name e;
     if n = name then Some (Some 0) else do { r \<leftarrow> name_position es name; Some (map_option Suc r) } }"

definition ramfs_get :: "nat list \<Rightarrow> nat list \<Rightarrow> nat list option option" where
  "ramfs_get data name = do {
     entries \<leftarrow> ramfs_entries data;
     index \<leftarrow> name_position entries name;
     case index of None \<Rightarrow> Some None
     | Some i \<Rightarrow> do {
         let entry = entries ! i;
         stop \<leftarrow> u64 (fe_offset entry + fe_size entry);
         if fe_offset entry \<le> stop \<and> stop \<le> length data
         then Some (Some (byte_range data (fe_offset entry) (stop - fe_offset entry))) else None } }"

section \<open>Arithmetic\<close>

lemma le_bytes_length [simp]: "length (to_le_bytes n) = 8"
  by (simp add: to_le_bytes_def)

lemma from_le_digits: "from_le_bytes (map (\<lambda>i. n div 256 ^ i mod 256) [k..<k + m]) = n div 256 ^ k mod 256 ^ m"
proof (induction m arbitrary: k)
  case (Suc m)
  have "[k..<k + Suc m] = k # [Suc k..<Suc k + m]" by (simp add: upt_conv_Cons)
  then have "from_le_bytes (map (\<lambda>i. n div 256 ^ i mod 256) [k..<k + Suc m]) =
    n div 256 ^ k mod 256 + 256 * (n div 256 ^ k div 256 mod 256 ^ m)"
    using Suc.IH [of "Suc k"] by (simp add: div_mult2_eq [symmetric] mult.commute)
  also have "\<dots> = n div 256 ^ k mod 256 ^ Suc m" by (simp add: mod_mult2_eq)
  finally show ?case .
qed simp

lemma le_roundtrip: "n < 2 ^ 64 \<Longrightarrow> from_le_bytes (to_le_bytes n) = n"
  using from_le_digits [of n 0 8] by (simp add: to_le_bytes_def)

lemma and_not_mask: "(a :: int) AND NOT (2 ^ n - 1) = 2 ^ n * (a div 2 ^ n)"
proof -
  have "a AND NOT (mask n) = push_bit n (drop_bit n a)" by (rule bit_eqI) (auto simp: bit_simps)
  then show ?thesis by (simp add: mask_eq_exp_minus_1 push_bit_eq_mult drop_bit_eq_div)
qed

lemma fs_align_up_ok:
  assumes "n + 4096 < 2 ^ 64"
  shows "\<exists>m. fs_align_up n PAGE_SIZE = Some m \<and> n \<le> m \<and> m \<le> n + 4095 \<and> 4096 dvd m"
proof -
  have "int (n + 4095) AND NOT (2 ^ 12 - 1) = 4096 * (int (n + 4095) div 4096)" using and_not_mask [of "int (n + 4095)" 12] by simp
  also have "\<dots> = int (4096 * ((n + 4095) div 4096))" by (simp only: of_nat_mult zdiv_int of_nat_numeral)
  finally have "fs_align_up n PAGE_SIZE = Some (4096 * ((n + 4095) div 4096))"
    using assms by (simp add: fs_align_up_def u64_def PAGE_SIZE_def add.commute)
  moreover have "n \<le> 4096 * ((n + 4095) div 4096)" "4096 * ((n + 4095) div 4096) \<le> n + 4095" by linarith+
  ultimately show ?thesis by auto
qed

section \<open>Parts of an image\<close>

definition holds :: "nat list \<Rightarrow> nat \<Rightarrow> nat list \<Rightarrow> bool" where
  "holds img a bs \<longleftrightarrow> a + length bs \<le> length img \<and> byte_range img a (length bs) = bs"

lemma holds_append: "holds img a (bs @ cs) \<longleftrightarrow> holds img a bs \<and> holds img (a + length bs) cs"
  by (auto simp: holds_def byte_range_def take_add add.commute add.left_commute)

lemma holds_take: "holds img a bs \<Longrightarrow> byte_range img a (length bs) = bs \<and> a + length bs \<le> length img"
  by (simp add: holds_def)

definition kept :: "nat \<Rightarrow> nat \<Rightarrow> nat list \<Rightarrow> nat list \<Rightarrow> bool" where
  "kept a b img img' \<longleftrightarrow> length img' = length img \<and>
     (\<forall>c cs. holds img c cs \<longrightarrow> c + length cs \<le> a \<or> b \<le> c \<longrightarrow> holds img' c cs)"

lemma kept_trans: "kept a b x y \<Longrightarrow> kept c d y z \<Longrightarrow> l \<le> a \<Longrightarrow> l \<le> c \<Longrightarrow> b \<le> h \<Longrightarrow> d \<le> h \<Longrightarrow> kept l h x z"
  unfolding kept_def by (auto intro: order_trans dest: order_trans)

lemma kept_refl: "kept a b x x"
  by (simp add: kept_def)

lemma copy_ok:
  assumes "a + length bs \<le> length img"
  shows "\<exists>img'. copy_from_slice img a bs = Some img' \<and> holds img' a bs \<and> kept a (a + length bs) img img'"
proof -
  define img' where "img' = take a img @ bs @ drop (a + length bs) img"
  have "holds img' c cs" if h: "holds img c cs" and d: "c + length cs \<le> a \<or> a + length bs \<le> c" for c cs
  proof -
    have nth: "img' ! i = img ! i" if "i < length img" "i < a \<or> a + length bs \<le> i" for i
      using that assms by (auto simp: img'_def nth_append)
    have "length cs + c \<le> length img" using h by (simp add: holds_def)
    moreover have "take (length cs) (drop c img') = take (length cs) (drop c img)"
      by (rule nth_equalityI) (use calculation d assms in \<open>auto simp: nth img'_def [symmetric]\<close>, simp_all add: img'_def)
    ultimately show ?thesis using h assms by (simp add: holds_def byte_range_def) (simp add: img'_def)
  qed
  moreover have "holds img' a bs" "length img' = length img" using assms by (simp_all add: img'_def holds_def byte_range_def)
  ultimately show ?thesis using assms by (auto simp: copy_from_slice_def img'_def kept_def)
qed

definition entry_bytes :: "nat list \<times> nat \<times> nat \<Rightarrow> nat list" where
  "entry_bytes = (\<lambda>(name, off, sz). name @ replicate (32 - length name) 0 @ to_le_bytes off @ to_le_bytes sz @ replicate 16 0)"

lemma entry_bytes_length: "length (fst e) \<le> 32 \<Longrightarrow> length (entry_bytes e) = 64"
  by (cases e) (simp add: entry_bytes_def)

lemma holds_zeros: "holds img a (replicate n 0) \<Longrightarrow> k + m \<le> n \<Longrightarrow> holds img (a + k) (replicate m 0)"
proof -
  assume h: "holds img a (replicate n 0)" and "k + m \<le> n"
  then have "replicate n (0 :: nat) = replicate k 0 @ replicate m 0 @ replicate (n - k - m) 0"
    by (simp flip: replicate_add)
  with h show ?thesis by (simp add: holds_append)
qed

lemma put_entry_ok:
  assumes z: "holds img a (replicate 64 0)" and n: "length name \<le> 32"
  shows "\<exists>img1 img2 img3. copy_from_slice img a name = Some img1 \<and> copy_from_slice img1 (a + 32) (to_le_bytes off) = Some img2 \<and>
    copy_from_slice img2 (a + 40) (to_le_bytes sz) = Some img3 \<and> holds img3 a (entry_bytes (name, off, sz)) \<and> kept a (a + 64) img img3"
proof -
  have len: "a + 64 \<le> length img" using z by (simp add: holds_def)
  from copy_ok [of a name img] len n obtain img1 where 1: "copy_from_slice img a name = Some img1" "holds img1 a name"
    "kept a (a + length name) img img1" by auto
  then have l1: "length img1 = length img" by (simp add: kept_def)
  from copy_ok [of "a + 32" "to_le_bytes off" img1] len l1 obtain img2 where 2: "copy_from_slice img1 (a + 32) (to_le_bytes off) = Some img2"
    "holds img2 (a + 32) (to_le_bytes off)" "kept (a + 32) (a + 40) img1 img2" by (auto simp: add.commute)
  then have l2: "length img2 = length img" using l1 by (simp add: kept_def)
  from copy_ok [of "a + 40" "to_le_bytes sz" img2] len l2 obtain img3 where 3: "copy_from_slice img2 (a + 40) (to_le_bytes sz) = Some img3"
    "holds img3 (a + 40) (to_le_bytes sz)" "kept (a + 40) (a + 48) img2 img3" by (auto simp: add.commute)
  have k: "kept (a + 32) (a + 48) img1 img3" by (rule kept_trans [OF 2(3) 3(3)]) auto
  have pad: "holds img (a + length name) (replicate (32 - length name) 0)" "holds img (a + 48) (replicate 16 0)"
    using holds_zeros [OF z, of "length name" "32 - length name"] holds_zeros [OF z, of 48 16] n by auto
  have "holds img1 (a + length name) (replicate (32 - length name) 0)" "holds img1 (a + 48) (replicate 16 0)"
    using pad 1(3) n by (auto simp: kept_def)
  then have "holds img3 a name" "holds img3 (a + length name) (replicate (32 - length name) 0)" "holds img3 (a + 48) (replicate 16 0)"
    "holds img3 (a + 32) (to_le_bytes off)"
    using k 1(2) 2(2) 3(3) n by (auto simp: kept_def)
  then have "holds img3 a (entry_bytes (name, off, sz))" using 3(2) n by (simp add: entry_bytes_def holds_append add.assoc)
  moreover have "kept a (a + 64) img img3" by (rule kept_trans [OF 1(3) k]) (use n in auto)
  ultimately show ?thesis using 1(1) 2(1) 3(1) by blast
qed

lemma put_table_ok:
  assumes "holds img (16 + 64 * i) (replicate (64 * length es) 0)" "\<forall>e\<in>set es. length (fst e) \<le> 32"
  shows "\<exists>img'. put_table img i es = Some img' \<and> holds img' (16 + 64 * i) (concat (map entry_bytes es)) \<and>
    kept (16 + 64 * i) (16 + 64 * (i + length es)) img img'"
  using assms
proof (induction es arbitrary: img i)
  case Nil
  then show ?case by (auto simp: kept_refl holds_def byte_range_def)
next
  case (Cons e es)
  obtain name off sz where e: "e = (name, off, sz)" by (cases e) auto
  let ?a = "16 + 64 * i"
  have z: "holds img ?a (replicate 64 0)" "holds img (16 + 64 * Suc i) (replicate (64 * length es) 0)"
    using holds_zeros [OF Cons.prems(1), of 0 64] holds_zeros [OF Cons.prems(1), of 64 "64 * length es"] by (simp_all add: add.commute)
  from put_entry_ok [OF z(1), of name off sz] Cons.prems(2) e obtain img1 img2 img3 where
    c: "copy_from_slice img ?a name = Some img1" "copy_from_slice img1 (?a + 32) (to_le_bytes off) = Some img2"
      "copy_from_slice img2 (?a + 40) (to_le_bytes sz) = Some img3" and
    h: "holds img3 ?a (entry_bytes e)" and k: "kept ?a (?a + 64) img img3" by auto
  have "holds img3 (16 + 64 * Suc i) (replicate (64 * length es) 0)" using z(2) k by (auto simp: kept_def)
  from Cons.IH [OF this] Cons.prems(2) obtain img' where p: "put_table img3 (Suc i) es = Some img'"
    "holds img' (16 + 64 * Suc i) (concat (map entry_bytes es))" "kept (16 + 64 * Suc i) (16 + 64 * (Suc i + length es)) img3 img'" by auto
  have l: "length (entry_bytes e) = 64" using Cons.prems(2) by (simp add: entry_bytes_length)
  have "holds img' ?a (entry_bytes e)" using h p(3) l by (auto simp: kept_def)
  then have "holds img' ?a (concat (map entry_bytes (e # es)))" using p(2) l by (simp add: holds_append add.commute add.left_commute)
  moreover have "kept ?a (16 + 64 * (i + length (e # es))) img img'" by (rule kept_trans [OF k p(3)]) auto
  moreover have "put_table img i (e # es) = Some img'"
    using c p(1) e by (simp add: HEADER_SIZE_def ENTRY_SIZE_def mult.commute add.assoc)
  ultimately show ?case by blast
qed

section \<open>The data of the files\<close>

definition fits :: "nat \<Rightarrow> (nat list \<times> nat list) list \<Rightarrow> bool" where
  "fits offset files \<longleftrightarrow> offset + sum_list (map (\<lambda>(_, d). length d + 4096) files) < 2 ^ 63"

lemma place_files_ok:
  assumes "fits offset files"
  shows "\<exists>es tot. place_files offset files = Some (es, tot) \<and> offset \<le> tot \<and> tot < 2 ^ 63 \<and> length es = length files \<and>
    map fst es = map fst files \<and> (\<forall>e\<in>set es. fst (snd e) < 2 ^ 63 \<and> snd (snd e) < 2 ^ 63)"
  using assms
proof (induction offset files rule: place_files.induct)
  case (2 offset name data files)
  have f: "offset + length data + 4096 < 2 ^ 63" using 2(2) by (simp add: fits_def)
  from fs_align_up_ok [of "offset + length data"] f obtain m where m: "fs_align_up (offset + length data) PAGE_SIZE = Some m"
    "offset + length data \<le> m" "m \<le> offset + length data + 4095" by auto
  have u: "u64 (offset + length data) = Some (offset + length data)" using f by (simp add: u64_def)
  have "fits m files" using 2(2) m(3) by (simp add: fits_def)
  from 2(1) [OF u m(1) this] m u f show ?case by fastforce
qed (auto simp: fits_def)

lemma put_data_ok:
  assumes "place_files lo files = Some (drop i es, tot)" "tot \<le> length img" "i + length files \<le> length es"
  shows "\<exists>img'. put_data img i es files = Some img' \<and> kept lo (length img) img img' \<and> lo \<le> tot \<and>
    (\<forall>j<length files. holds img' (fst (snd (es ! (i + j)))) (snd (files ! j)) \<and> snd (snd (es ! (i + j))) = length (snd (files ! j)))"
  using assms
proof (induction files arbitrary: lo i img)
  case Nil
  then show ?case by (simp add: kept_refl)
next
  case (Cons f files)
  obtain name data where f: "f = (name, data)" by (cases f)
  from Cons.prems(1) f obtain m es' where m: "u64 (lo + length data) = Some (lo + length data)" "fs_align_up (lo + length data) PAGE_SIZE = Some m"
    "place_files m files = Some (es', tot)" "drop i es = (name, lo, length data) # es'"
    by (auto simp: u64_def split: bind_splits if_splits)
  have mlo: "lo + length data \<le> m"
  proof (cases "lo + length data + 4096 < 2 ^ 64")
    case True
    with fs_align_up_ok [OF this] m(2) show ?thesis by auto
  next
    case False
    with m(2) show ?thesis by (simp add: fs_align_up_def u64_def PAGE_SIZE_def)
  qed
  have es: "i < length es" "es ! i = (name, lo, length data)" "es' = drop (Suc i) es"
    using m(4) by (metis drop_all linorder_not_le list.distinct(1), metis nth_via_drop, metis drop_Suc tl_drop list.sel(3))
  have room: "m \<le> tot \<and> lo + length data \<le> length img"
  proof -
    have "\<exists>img'. put_data img (Suc i) es files = Some img' \<and> kept m (length img) img img' \<and> m \<le> tot \<and>
      (\<forall>j<length files. holds img' (fst (snd (es ! (Suc i + j)))) (snd (files ! j)) \<and> snd (snd (es ! (Suc i + j))) = length (snd (files ! j)))"
      by (rule Cons.IH) (use m es Cons.prems in auto)
    with mlo Cons.prems(2) show ?thesis by auto
  qed
  from copy_ok [of lo data img] room obtain img1 where 1: "copy_from_slice img lo data = Some img1" "holds img1 lo data"
    "kept lo (lo + length data) img img1" by auto
  have l1: "length img1 = length img" using 1(3) by (simp add: kept_def)
  have "\<exists>img'. put_data img1 (Suc i) es files = Some img' \<and> kept m (length img1) img1 img' \<and> m \<le> tot \<and>
    (\<forall>j<length files. holds img' (fst (snd (es ! (Suc i + j)))) (snd (files ! j)) \<and> snd (snd (es ! (Suc i + j))) = length (snd (files ! j)))"
    by (rule Cons.IH) (use m es Cons.prems l1 in auto)
  then obtain img' where 2: "put_data img1 (Suc i) es files = Some img'" "kept m (length img) img1 img'"
    "\<forall>j<length files. holds img' (fst (snd (es ! (Suc i + j)))) (snd (files ! j)) \<and> snd (snd (es ! (Suc i + j))) = length (snd (files ! j))"
    using l1 by auto
  have "holds img' lo data" using 1(2) 2(2) mlo by (auto simp: kept_def)
  moreover have "kept lo (length img) img img'" by (rule kept_trans [OF 1(3) 2(2)]) (use mlo room in auto)
  moreover have "put_data img i es (f # files) = Some img'" using 1(1) 2(1) es f by simp
  ultimately show ?case using 2(3) es f room mlo by (auto simp: nth_Cons' less_Suc_eq_0_disj all_conj_distrib)
qed

section \<open>Looking up a name\<close>

lemma parse_entry:
  assumes "holds img a (entry_bytes (name, off, sz))" "length name \<le> 32" "off < 2 ^ 64" "sz < 2 ^ 64" "0 \<notin> set name" "utf8_valid name"
  shows "entry_name (entry_at img a) = Some name" "fe_offset (entry_at img a) = off" "fe_size (entry_at img a) = sz"
proof -
  have h: "holds img a (name @ replicate (32 - length name) 0)" "holds img (a + 32) (to_le_bytes off)" "holds img (a + 40) (to_le_bytes sz)"
    using assms(1,2) by (simp_all add: entry_bytes_def holds_append add.assoc)
  have "byte_range img a 32 = name @ replicate (32 - length name) 0" using holds_take [OF h(1)] assms(2) by simp
  moreover have "takeWhile (\<lambda>c. c \<noteq> 0) (name @ replicate (32 - length name) 0) = name"
    using assms(5) by (subst takeWhile_append2) (auto simp: takeWhile_eq_Nil_iff hd_replicate intro: gr0I)
  ultimately show "entry_name (entry_at img a) = Some name" using assms(6) by (simp add: entry_name_def entry_at_def Let_def)
  show "fe_offset (entry_at img a) = off" "fe_size (entry_at img a) = sz"
    using holds_take [OF h(2)] holds_take [OF h(3)] assms(3,4) by (simp_all add: entry_at_def le_roundtrip)
qed

lemma name_position_ok:
  assumes "map entry_name es = map (Some \<circ> fst) fs"
  shows "\<exists>r. name_position es name = Some r \<and>
    (case r of None \<Rightarrow> map_of fs name = None | Some i \<Rightarrow> i < length fs \<and> map_of fs name = Some (snd (fs ! i)))"
  using assms
proof (induction es arbitrary: fs)
  case (Cons e es)
  then obtain n d fs' where fs: "fs = (n, d) # fs'" "entry_name e = Some n" "map entry_name es = map (Some \<circ> fst) fs'" by (cases fs) auto
  from Cons.IH [OF fs(3)] obtain r where r: "name_position es name = Some r"
    "case r of None \<Rightarrow> map_of fs' name = None | Some i \<Rightarrow> i < length fs' \<and> map_of fs' name = Some (snd (fs' ! i))" by blast
  then show ?case using fs by (cases r) auto
qed simp

definition good_name :: "nat list \<Rightarrow> bool" where
  "good_name name \<longleftrightarrow> length name \<le> 32 \<and> 0 \<notin> set name \<and> utf8_valid name"

lemma holds_nth_entry:
  assumes "holds img a (concat (map entry_bytes es))" "\<forall>e\<in>set es. length (fst e) \<le> 32" "i < length es"
  shows "holds img (a + 64 * i) (entry_bytes (es ! i))"
  using assms
proof (induction es arbitrary: a i)
  case (Cons e es)
  then have l: "length (entry_bytes e) = 64" by (simp add: entry_bytes_length)
  show ?case
  proof (cases i)
    case 0
    with Cons.prems(1) show ?thesis by (simp add: holds_append)
  next
    case (Suc j)
    from Cons.IH [of "a + 64" j] Cons.prems Suc l show ?thesis by (simp add: holds_append add.assoc)
  qed
qed simp

text \<open>What the image of a list of files contains.\<close>

definition image_of :: "(nat list \<times> nat list) list \<Rightarrow> (nat list \<times> nat \<times> nat) list \<Rightarrow> nat list \<Rightarrow> bool" where
  "image_of files es img \<longleftrightarrow> length es = length files \<and> map fst es = map fst files \<and> length files < 2 ^ 58 \<and>
     (\<forall>e\<in>set es. fst (snd e) < 2 ^ 63 \<and> snd (snd e) < 2 ^ 63) \<and>
     holds img 8 (to_le_bytes (length files)) \<and> holds img 16 (concat (map entry_bytes es)) \<and>
     (\<forall>j<length files. holds img (fst (snd (es ! j))) (snd (files ! j)) \<and> snd (snd (es ! j)) = length (snd (files ! j)))"

lemma build_image_ok:
  assumes "fits (64 * length files + 4112) files" "\<forall>f\<in>set files. length (fst f) \<le> 32"
  shows "\<exists>es img. build_image files = Some img \<and> image_of files es img"
proof -
  let ?n = "length files"
  have n: "64 * ?n + 4112 < 2 ^ 63" using assms(1) by (simp add: fits_def)
  from fs_align_up_ok [of "16 + 64 * ?n"] n obtain m where m: "fs_align_up (16 + 64 * ?n) PAGE_SIZE = Some m" "16 + 64 * ?n \<le> m" "m \<le> 64 * ?n + 4111" by auto
  have "fits m files" using assms(1) m(3) by (simp add: fits_def)
  from place_files_ok [OF this] obtain es tot where p: "place_files m files = Some (es, tot)" "m \<le> tot" "tot < 2 ^ 63" "length es = ?n"
    "map fst es = map fst files" "\<forall>e\<in>set es. fst (snd e) < 2 ^ 63 \<and> snd (snd e) < 2 ^ 63" by blast
  have nm: "\<forall>e\<in>set es. length (fst e) \<le> 32" using p(5) assms(2) by (metis image_eqI image_set imageE)
  let ?img = "replicate tot (0 :: nat)"
  have z: "holds ?img 16 (replicate (64 * length es) 0)" using m(2) p(2,4) by (simp add: holds_def byte_range_def)
  have MAGIC_length: "length MAGIC = 8" by (simp add: MAGIC_def)
  from copy_ok [of 0 MAGIC ?img] m(2) p(2) obtain i1 where i1: "copy_from_slice ?img 0 MAGIC = Some i1" "kept 0 8 ?img i1"
    by (auto simp: MAGIC_length)
  have l1: "length i1 = tot" using i1(2) by (simp add: kept_def)
  from copy_ok [of 8 "to_le_bytes ?n" i1] m(2) p(2) l1 obtain i2 where i2: "copy_from_slice i1 8 (to_le_bytes ?n) = Some i2"
    "holds i2 8 (to_le_bytes ?n)" "kept 8 16 i1 i2" by auto
  have z2: "holds i2 (16 + 64 * 0) (replicate (64 * length es) 0)" using z i1(2) i2(3) by (auto simp: kept_def)
  from put_table_ok [OF z2 nm] obtain i3 where i3: "put_table i2 0 es = Some i3" "holds i3 16 (concat (map entry_bytes es))"
    "kept 16 (16 + 64 * length es) i2 i3" by auto
  have l3: "length i3 = tot" using i2(3) i3(3) l1 by (simp add: kept_def)
  have "place_files m files = Some (drop 0 es, tot)" using p(1) by simp
  from put_data_ok [OF this] p(4) l3 obtain img where d: "put_data i3 0 es files = Some img" "kept m (length i3) i3 img"
    "\<forall>j<?n. holds img (fst (snd (es ! j))) (snd (files ! j)) \<and> snd (snd (es ! j)) = length (snd (files ! j))" by auto
  have tl: "length (concat (map entry_bytes es)) = 64 * ?n" using nm p(4) by (simp add: length_concat entry_bytes_length sum_list_triv cong: map_cong)
  have "holds img 8 (to_le_bytes ?n)" "holds img 16 (concat (map entry_bytes es))"
    using i2(2) i3(2,3) d(2) m(2) tl by (auto simp: kept_def)
  then have "image_of files es img" using p d(3) n by (simp add: image_of_def)
  moreover have "build_image files = Some img"
    using m(1) p(1,3) i1(1) i2(1) i3(1) d(1) n by (simp add: build_image_def u64_def ENTRY_SIZE_def HEADER_SIZE_def)
  ultimately show ?thesis by blast
qed

lemma image_of_get:
  assumes im: "image_of files es img" and nm: "\<forall>f\<in>set files. good_name (fst f)"
  shows "ramfs_get img name = Some (map_of files name)"
proof -
  let ?n = "length files" and ?es = "map (\<lambda>i. entry_at img (16 + 64 * i)) [0..<length files]"
  have i: "length es = ?n" "map fst es = map fst files" "?n < 2 ^ 58" "\<forall>e\<in>set es. fst (snd e) < 2 ^ 63 \<and> snd (snd e) < 2 ^ 63"
    "holds img 8 (to_le_bytes ?n)" "holds img 16 (concat (map entry_bytes es))"
    "\<forall>j<?n. holds img (fst (snd (es ! j))) (snd (files ! j)) \<and> snd (snd (es ! j)) = length (snd (files ! j))"
    using im by (auto simp: image_of_def)
  have fst_nth: "fst (es ! j) = fst (files ! j)" if "j < ?n" for j using i(1,2) that by (metis nth_map)
  have le: "\<forall>e\<in>set es. length (fst e) \<le> 32"
    using nm i(2) by (metis good_name_def imageE image_eqI image_set)
  have tl: "length (concat (map entry_bytes es)) = 64 * ?n" using le i(1) by (simp add: length_concat entry_bytes_length sum_list_triv cong: map_cong)
  have ent: "ramfs_entries img = Some ?es"
    using holds_take [OF i(5)] holds_take [OF i(6)] tl i(3) by (simp add: ramfs_entries_def ramfs_header_def le_roundtrip)
  have par: "entry_name (?es ! j) = Some (fst (files ! j))" "fe_offset (?es ! j) = fst (snd (es ! j))" "fe_size (?es ! j) = snd (snd (es ! j))"
    if j: "j < ?n" for j
  proof -
    have e: "es ! j = (fst (files ! j), fst (snd (es ! j)), snd (snd (es ! j)))" using fst_nth [OF j] by (cases "es ! j") auto
    have "es ! j \<in> set es" "files ! j \<in> set files" using j i(1) by auto
    then have "fst (snd (es ! j)) < 2 ^ 64" "snd (snd (es ! j)) < 2 ^ 64" "good_name (fst (files ! j))" using i(4) nm by fastforce+
    with parse_entry [of img "16 + 64 * j" "fst (files ! j)"] holds_nth_entry [OF i(6) le] e j i(1)
    show "entry_name (?es ! j) = Some (fst (files ! j))" "fe_offset (?es ! j) = fst (snd (es ! j))" "fe_size (?es ! j) = snd (snd (es ! j))"
      by (metis (no_types, lifting) good_name_def diff_zero length_upt nth_map nth_upt add_0)+
  qed
  have "map entry_name ?es = map (Some \<circ> fst) files" by (rule nth_equalityI) (use par(1) in auto)
  from name_position_ok [OF this] obtain r where r: "name_position ?es name = Some r"
    "case r of None \<Rightarrow> map_of files name = None | Some i \<Rightarrow> i < ?n \<and> map_of files name = Some (snd (files ! i))" by blast
  show ?thesis
  proof (cases r)
    case None
    with ent r show ?thesis by (simp add: ramfs_get_def)
  next
    case (Some j)
    with r have j: "j < ?n" "map_of files name = Some (snd (files ! j))" by auto
    have h: "holds img (fst (snd (es ! j))) (snd (files ! j))" "snd (snd (es ! j)) = length (snd (files ! j))" using i(7) j(1) by auto
    have "es ! j \<in> set es" using j i(1) by auto
    then have "fst (snd (es ! j)) < 2 ^ 63" "snd (snd (es ! j)) < 2 ^ 63" using i(4) by auto
    then have "u64 (fst (snd (es ! j)) + snd (snd (es ! j))) = Some (fst (snd (es ! j)) + snd (snd (es ! j)))" by (simp add: u64_def)
    with ent r(1) Some j holds_take [OF h(1)] h(2) par [OF j(1)] show ?thesis by (simp add: ramfs_get_def Let_def)
  qed
qed

lemma collect_ok:
  "\<forall>f\<in>set files. length (fst f) \<le> 32 \<Longrightarrow> distinct (map fst files) \<Longrightarrow> set (map fst files) \<inter> set seen = {} \<Longrightarrow>
   collect_files seen files = Inr files"
  by (induction seen files rule: collect_files.induct) (auto simp: NAME_LEN_def)

section \<open>Properties\<close>

text \<open>
  C36.  The image that the tool builds for files with distinct names, of at most 32 bytes and without a zero byte, is read back
  exactly by the kernel: looking up a name returns the content of the file with this name, and nothing for every other name.
  The tool succeeds for every such list of files of less than \<open>2\<^sup>6\<^sup>2\<close> bytes in all.
\<close>

theorem fs_roundtrip:
  assumes "files \<noteq> []" "distinct (map fst files)"
    "\<forall>f\<in>set files. length (fst f) \<le> 32 \<and> 0 \<notin> set (fst f) \<and> utf8_valid (fst f)"
    "sum_list (map (\<lambda>f. length (snd f) + 8272) files) < 2 ^ 62"
  shows "\<exists>img. fs_tool files = Inr img \<and> (\<forall>name. ramfs_get img name = Some (map_of files name))"
proof -
  have "sum_list (map (\<lambda>f. length (snd f) + 8272) files) = sum_list (map (\<lambda>(_, d). length d + 4096) files) + 4176 * length files"
    by (induction files) auto
  moreover have "0 < length files" using assms(1) by simp
  ultimately have "fits (64 * length files + 4112) files" using assms(4) by (simp add: fits_def)
  from build_image_ok [OF this] assms(3) obtain es img where b: "build_image files = Some img" "image_of files es img" by blast
  have "fs_tool files = Inr img" using assms b(1) collect_ok [of files "[]"] by (simp add: fs_tool_def)
  with image_of_get [OF b(2)] assms(3) show ?thesis by (simp add: good_name_def)
qed

lemma fs_roundtrip_witness:
  "\<exists>img. fs_tool [([97], [1, 2, 3]), ([98, 99], [4])] = Inr img \<and> ramfs_get img [98, 99] = Some (Some [4]) \<and> ramfs_get img [120] = Some None"
proof -
  have "utf8_valid [97]" "utf8_valid [98, 99]"
    by (simp_all add: utf8_valid_def utf8_items.simps utf8_next_def safe_get_def Let_def)
  then show ?thesis using fs_roundtrip [of "[([97], [1, 2, 3]), ([98, 99], [4])]"] by auto
qed

end
