(* ===== verification/Screen.thy ===== *)
theory Screen
  imports Surface Banded_Iter Id_Vec
begin

text \<open>
  Windows (\<^verbatim>\<open>draw/window.rs\<close>).  The screen keeps its windows in a sparse vector, their identifiers from front to back in
  \<open>visible\<close>, and a banded region that holds for every pixel the index of the window seen there, and whether
  the pixel has to be painted.  The store of images is passed explicitly, and the allocator is an argument.
\<close>

record window =
  win_surface :: surface
  win_z :: nat

record damage =
  d_z :: nat
  d_dirty :: bool

record screen =
  windows :: "window id_vec"
  visible :: "nat list"
  damage_tracker :: "damage banded"

definition USIZE_MAX :: nat where "USIZE_MAX = 2 ^ 64 - 1"

definition win_rect :: "window \<Rightarrow> rect" where
  "win_rect w = s_rect (win_surface w)"

definition screen_new :: "rect \<Rightarrow> screen option" where
  "screen_new rect = do {
     t \<leftarrow> banded_update banded_new rect (\<lambda>_. Some \<lparr>d_z = USIZE_MAX, d_dirty = True\<rparr>);
     Some \<lparr>windows = iv_new, visible = [], damage_tracker = t\<rparr> }"

fun cover_windows :: "window id_vec \<Rightarrow> nat list \<Rightarrow> damage banded \<Rightarrow> damage banded option" where
  "cover_windows ws [] t = Some t"
| "cover_windows ws (wid # wids) t = do {
     w \<leftarrow> iv_get ws wid;
     t \<leftarrow> banded_update t (win_rect w) (\<lambda>_. Some \<lparr>d_z = win_z w, d_dirty = False\<rparr>);
     cover_windows ws wids t }"

definition reset_damage_tracker :: "screen \<Rightarrow> rect \<Rightarrow> screen option" where
  "reset_damage_tracker s rect = do {
     t \<leftarrow> banded_update banded_new rect (\<lambda>_. Some \<lparr>d_z = USIZE_MAX, d_dirty = False\<rparr>);
     t \<leftarrow> cover_windows (windows s) (rev (visible s)) t;
     Some (s\<lparr>damage_tracker := t\<rparr>) }"

definition paint_piece :: "screen \<Rightarrow> surface \<Rightarrow> rect \<times> damage \<Rightarrow> images \<Rightarrow> images option" where
  "paint_piece s frame_buffer = (\<lambda>(rect, region) h.
     if \<not> d_dirty region then Some h
     else if d_z region = USIZE_MAX then surface_fill h frame_buffer rect WHITE
     else if d_z region < length (visible s) then do {
       w \<leftarrow> iv_get (windows s) (visible s ! d_z region);
       blit h frame_buffer rect (win_surface w) (rtl rect) }
     else None)"

partial_function (option) paint_loop ::
  "screen \<Rightarrow> surface \<Rightarrow> damage banded_iter \<Rightarrow> images \<Rightarrow> (images \<times> damage banded_iter) option" where
  "paint_loop s frame_buffer it h = do {
     (item, it) \<leftarrow> drain_next it;
     case item of
       None \<Rightarrow> Some (h, it)
     | Some piece \<Rightarrow> do { h \<leftarrow> paint_piece s frame_buffer piece h; paint_loop s frame_buffer it h } }"

declare paint_loop.simps [code]

definition screen_update :: "screen \<Rightarrow> surface \<Rightarrow> images \<Rightarrow> (screen \<times> images) option" where
  "screen_update s frame_buffer h = do {
     (h, it) \<leftarrow> paint_loop s frame_buffer (banded_drain (damage_tracker s) (s_rect frame_buffer)) h;
     s \<leftarrow> reset_damage_tracker (s\<lparr>damage_tracker := it_region it\<rparr>) (s_rect frame_buffer);
     Some (s, h) }"

definition mark_dirty_beyond :: "screen \<Rightarrow> nat \<Rightarrow> rect \<Rightarrow> screen option" where
  "mark_dirty_beyond s z rect = do {
     t \<leftarrow> banded_update (damage_tracker s) rect (map_option (\<lambda>r. \<lparr>d_z = d_z r, d_dirty = d_dirty r \<or> d_z r \<ge> z\<rparr>));
     Some (s\<lparr>damage_tracker := t\<rparr>) }"

text \<open>The update function shared by the operations that put a window in front: keep some regions, replace the others.\<close>

definition put_unless :: "(damage \<Rightarrow> bool) \<Rightarrow> nat \<Rightarrow> damage option \<Rightarrow> damage option" where
  "put_unless keep z region =
     (case region of Some r \<Rightarrow> if keep r then region else Some \<lparr>d_z = z, d_dirty = True\<rparr>
      | None \<Rightarrow> Some \<lparr>d_z = z, d_dirty = True\<rparr>)"

definition mark_dirty_window :: "screen \<Rightarrow> nat \<Rightarrow> rect \<Rightarrow> screen option" where
  "mark_dirty_window s wid rect = do {
     w \<leftarrow> iv_get (windows s) wid;
     case rect_intersect rect (win_rect w) of None \<Rightarrow> Some s
     | Some rect \<Rightarrow> do {
         t \<leftarrow> banded_update (damage_tracker s) rect (put_unless (\<lambda>r. d_z r < win_z w) (win_z w));
         Some (s\<lparr>damage_tracker := t\<rparr>) } }"

definition z_index_update :: "screen \<Rightarrow> (nat \<Rightarrow> nat) \<Rightarrow> screen" where
  "z_index_update s f =
     s\<lparr>windows := (windows s)\<lparr>iv_list := map (map_option (\<lambda>w. w\<lparr>win_z := f (win_z w)\<rparr>)) (iv_list (windows s))\<rparr>,
       damage_tracker := banded_update_values (damage_tracker s) (\<lambda>_ r. r\<lparr>d_z := f (d_z r)\<rparr>)\<rparr>"

definition new_window ::
  "(images \<Rightarrow> nat \<Rightarrow> (nat \<times> rgba list) option) \<Rightarrow> screen \<Rightarrow> rect \<Rightarrow> nat \<Rightarrow> images \<Rightarrow> (nat \<times> screen \<times> images) option" where
  "new_window kernel_alloc s rect z h = do {
     let z = min z (length (visible s));
     (surface, h) \<leftarrow> surface_new kernel_alloc h rect WHITE;
     let s = z_index_update s (\<lambda>k. if k \<ge> z \<and> k \<noteq> USIZE_MAX then k + 1 else k);
     (wid, ws) \<leftarrow> iv_insert (windows s) \<lparr>win_surface = surface, win_z = z\<rparr>;
     let s = s\<lparr>windows := ws, visible := take z (visible s) @ wid # drop z (visible s)\<rparr>;
     s \<leftarrow> mark_dirty_window s wid rect;
     Some (wid, s, h) }"

fun rebuild_move :: "screen \<Rightarrow> nat list \<Rightarrow> nat \<Rightarrow> rect \<Rightarrow> screen option" where
  "rebuild_move s [] z rect = Some s"
| "rebuild_move s (wid # wids) z rect = do {
     w \<leftarrow> iv_get (windows s) wid;
     if win_z w \<le> z then rebuild_move s wids z rect
     else case rect_intersect (win_rect w) rect of None \<Rightarrow> rebuild_move s wids z rect
       | Some r \<Rightarrow> do {
           t \<leftarrow> banded_update (damage_tracker s) r (put_unless (\<lambda>r. d_z r < z) (win_z w));
           rebuild_move (s\<lparr>damage_tracker := t\<rparr>) wids z rect } }"

definition rebuild_damage_tracker_move :: "screen \<Rightarrow> nat \<Rightarrow> rect \<Rightarrow> screen option" where
  "rebuild_damage_tracker_move s z rect = rebuild_move s (rev (visible s)) z rect"

fun rebuild_back :: "screen \<Rightarrow> nat list \<Rightarrow> nat \<Rightarrow> nat \<Rightarrow> rect \<Rightarrow> screen option" where
  "rebuild_back s [] old_z new_z rect = Some s"
| "rebuild_back s (wid # wids) old_z new_z rect = do {
     w \<leftarrow> iv_get (windows s) wid;
     if win_z w < old_z \<or> win_z w \<ge> new_z then rebuild_back s wids old_z new_z rect
     else case rect_intersect (win_rect w) rect of None \<Rightarrow> rebuild_back s wids old_z new_z rect
       | Some r \<Rightarrow> do {
           t \<leftarrow> banded_update (damage_tracker s) r (put_unless (\<lambda>r. d_z r < old_z \<or> d_z r \<ge> new_z) (win_z w));
           rebuild_back (s\<lparr>damage_tracker := t\<rparr>) wids old_z new_z rect } }"

definition rebuild_damage_tracker_move_to_back :: "screen \<Rightarrow> nat \<Rightarrow> nat \<Rightarrow> rect \<Rightarrow> screen option" where
  "rebuild_damage_tracker_move_to_back s old_z new_z rect = rebuild_back s (rev (visible s)) old_z new_z rect"

definition move_window ::
  "(images \<Rightarrow> nat \<Rightarrow> (nat \<times> rgba list) option) \<Rightarrow> screen \<Rightarrow> nat \<Rightarrow> rect \<Rightarrow> images \<Rightarrow> (screen \<times> images) option" where
  "move_window kernel_alloc s wid new_rect h = do {
     w \<leftarrow> iv_get (windows s) wid;
     s \<leftarrow> rebuild_damage_tracker_move s (win_z w) (win_rect w);
     (w, put) \<leftarrow> iv_get_mut (windows s) wid;
     (surface, h) \<leftarrow> surface_new kernel_alloc h new_rect WHITE;
     h \<leftarrow> surface_drop h (win_surface w);
     let s = s\<lparr>windows := put (w\<lparr>win_surface := surface\<rparr>)\<rparr>;
     s \<leftarrow> mark_dirty_window s wid new_rect;
     Some (s, h) }"

text \<open>\<^verbatim>\<open>rotate_left(1)\<close> and \<^verbatim>\<open>rotate_right(1)\<close> of the slice from \<open>a\<close> to \<open>b\<close>, both included.\<close>

definition rotate_range :: "bool \<Rightarrow> nat \<Rightarrow> nat \<Rightarrow> nat list \<Rightarrow> nat list option" where
  "rotate_range left a b xs =
     (if a \<le> b \<and> b < length xs
      then let ys = take (b + 1 - a) (drop a xs)
        in Some (take a xs @ (if left then tl ys @ [hd ys] else last ys # butlast ys) @ drop (b + 1) xs)
      else None)"

definition set_window_z_index :: "screen \<Rightarrow> nat \<Rightarrow> nat \<Rightarrow> screen option" where
  "set_window_z_index s wid new_z =
     (if visible s = [] then None
      else do {
        let new_z = min new_z (length (visible s) - 1);
        w \<leftarrow> iv_get (windows s) wid;
        let old_z = win_z w;
        let rect = win_rect w;
        if new_z = old_z then Some s
        else if new_z > old_z then do {
          let s = z_index_update s (\<lambda>z. if z > new_z then z else if z > old_z then z - 1 else if z = old_z then new_z else z);
          v \<leftarrow> rotate_range True old_z new_z (visible s);
          rebuild_damage_tracker_move_to_back (s\<lparr>visible := v\<rparr>) old_z new_z rect }
        else do {
          let s = z_index_update s (\<lambda>z. if z > old_z then z else if z = old_z then new_z else if z \<ge> new_z then z + 1 else z);
          v \<leftarrow> rotate_range False new_z old_z (visible s);
          t \<leftarrow> banded_update (damage_tracker s) rect (put_unless (\<lambda>r. d_z r \<le> new_z) new_z);
          Some (s\<lparr>visible := v, damage_tracker := t\<rparr>) } })"

end
