(* ===== verification/Screen_Laws.thy ===== *)
theory Screen_Laws
  imports Screen
begin

text \<open>
  What the screen promises.  The windows form a stack of surfaces; the operations change it as they should, and an update
  of the frame buffer shows it.  Lowering and moving a window keep the damage tracker right only under a condition, which is
  shown to be exact.
\<close>

section \<open>What the screen shows\<close>

text \<open>
  The abstract screen is the stack of its windows, from front to back.  At each point, the first surface that contains it
  is seen, and white where there is none.  The damage tracker holds the index of that surface.
\<close>

definition stack :: "screen \<Rightarrow> (nat \<times> surface) list" where
  "stack s = map (\<lambda>wid. (wid, win_surface (the (iv_get (windows s) wid)))) (visible s)"

definition compose :: "images \<Rightarrow> (nat \<times> surface) list \<Rightarrow> point \<Rightarrow> rgba" where
  "compose h st p = (case find (\<lambda>(_, sf). contains_point (s_rect sf) p) st of Some (_, sf) \<Rightarrow> pixel h sf p | None \<Rightarrow> WHITE)"

definition front :: "(nat \<times> surface) list \<Rightarrow> point \<Rightarrow> nat" where
  "front st p =
     (let n = length (takeWhile (\<lambda>(_, sf). \<not> contains_point (s_rect sf) p) st) in if n < length st then n else USIZE_MAX)"

definition windows_ok :: "images \<Rightarrow> surface \<Rightarrow> screen \<Rightarrow> bool" where
  "windows_ok h fb s \<longleftrightarrow> iv_ok (windows s) \<and> distinct (visible s) \<and> set (visible s) = dom (iv_get (windows s)) \<and>
     length (visible s) < USIZE_MAX \<and>
     (\<forall>i<length (visible s). \<exists>w. iv_get (windows s) (visible s ! i) = Some w \<and> win_z w = i) \<and>
     (\<forall>(_, sf)\<in>set (stack s). surface_ok h sf \<and> s_image sf \<noteq> s_image fb) \<and> distinct (map (s_image \<circ> snd) (stack s)) \<and>
     (\<forall>(_, sf)\<in>set (stack s). map_option owned (h (s_image sf)) = Some True)"

definition tracks :: "surface \<Rightarrow> screen \<Rightarrow> bool" where
  "tracks fb s \<longleftrightarrow> banded_ok (damage_tracker s) \<and>
     (\<forall>p. contains_point (s_rect fb) p \<longrightarrow>
        map_option d_z (pixel_at (damage_tracker s) (px p) (py p)) = Some (front (stack s) p))"

definition fresh_pixels :: "images \<Rightarrow> surface \<Rightarrow> screen \<Rightarrow> bool" where
  "fresh_pixels h fb s \<longleftrightarrow>
     (\<forall>p. contains_point (s_rect fb) p \<longrightarrow> map_option d_dirty (pixel_at (damage_tracker s) (px p) (py p)) = Some False \<longrightarrow>
        pixel h fb p = compose h (stack s) p)"

definition screen_ok :: "images \<Rightarrow> surface \<Rightarrow> screen \<Rightarrow> bool" where
  "screen_ok h fb s \<longleftrightarrow> surface_ok h fb \<and> windows_ok h fb s \<and> tracks fb s \<and> fresh_pixels h fb s"

subsection \<open>Stacks\<close>

lemma idx_append:
  "length (takeWhile P (xs @ ys)) = (if length (takeWhile P xs) < length xs then length (takeWhile P xs) else length xs + length (takeWhile P ys))"
  by (induction xs) auto

lemma idx_le: "length (takeWhile P xs) \<le> length xs"
  by (rule length_takeWhile_le)

lemma front_cases:
  assumes "length st < USIZE_MAX"
  obtains "front st p = USIZE_MAX" "find (\<lambda>(_, sf). contains_point (s_rect sf) p) st = None"
    | "front st p < length st" "find (\<lambda>(_, sf). contains_point (s_rect sf) p) st = Some (st ! front st p)"
      "contains_point (s_rect (snd (st ! front st p))) p"
proof -
  let ?P = "\<lambda>(_, sf). contains_point (s_rect sf) p"
  have eq: "(\<lambda>x :: nat \<times> surface. \<not> ?P x) = (\<lambda>(_, sf). \<not> contains_point (s_rect sf) p)" by auto
  have "find ?P st = (let n = length (takeWhile (\<lambda>x. \<not> ?P x) st) in if n < length st then Some (st ! n) else None)"
    by (induction st) (auto simp: Let_def)
  moreover have "?P (st ! n)" if "n = length (takeWhile (\<lambda>x. \<not> ?P x) st)" "n < length st" for n
    using that nth_length_takeWhile [of "\<lambda>x. \<not> ?P x" st] by simp
  ultimately show thesis using that by (auto simp: front_def Let_def eq case_prod_unfold split: if_splits)
qed

lemma compose_front:
  assumes "length st < USIZE_MAX"
  shows "compose h st p = (if front st p = USIZE_MAX then WHITE else pixel h (snd (st ! front st p)) p)"
  using assms by (cases rule: front_cases [OF assms, of p]) (auto simp: compose_def case_prod_unfold)

lemma find_append: "find P (xs @ ys) = (case find P xs of None \<Rightarrow> find P ys | Some x \<Rightarrow> Some x)"
  by (induction xs) auto

text \<open>Putting a surface at a position of the stack.\<close>

lemma front_insert:
  assumes "length (xs @ ys) + 1 < USIZE_MAX"
  shows "front (xs @ (i, sf) # ys) p =
    (let k = front (xs @ ys) p in
     if contains_point (s_rect sf) p \<and> k \<ge> length xs then length xs else if k \<ge> length xs \<and> k \<noteq> USIZE_MAX then k + 1 else k)"
  using assms idx_le [of "\<lambda>(_, sf). \<not> contains_point (s_rect sf) p" xs] idx_le [of "\<lambda>(_, sf). \<not> contains_point (s_rect sf) p" ys]
  by (auto simp: front_def Let_def idx_append)

lemma find_front:
  assumes "length (xs @ ys) < USIZE_MAX" "front (xs @ ys) p < length xs"
  shows "find (\<lambda>(_, sf). contains_point (s_rect sf) p) xs \<noteq> None"
proof -
  have "front (xs @ ys) p < length (xs @ ys)" using assms(2) by simp
  then have "contains_point (s_rect (snd ((xs @ ys) ! front (xs @ ys) p))) p"
    using assms(1) by (cases rule: front_cases [OF assms(1), of p]) auto
  then show ?thesis using assms(2) by (auto simp: find_None_iff nth_append case_prod_unfold) (metis nth_mem prod.collapse)
qed

lemma compose_insert:
  assumes "length (xs @ ys) < USIZE_MAX" "\<not> contains_point (s_rect sf) p \<or> front (xs @ ys) p < length xs"
  shows "compose h (xs @ (i, sf) # ys) p = compose h (xs @ ys) p"
  using assms(2) find_front [OF assms(1), of p] by (auto simp: compose_def find_append split: option.splits)

text \<open>Moving a surface towards the front.\<close>

lemma front_raise:
  assumes "length (xs @ ys @ zs) + 1 < USIZE_MAX"
  shows "front (xs @ (i, sf) # ys @ zs) p =
    (let k = front (xs @ ys @ (i, sf) # zs) p in
     let k' = (if k > length (xs @ ys) then k else if k = length (xs @ ys) then length xs else if k \<ge> length xs then k + 1 else k) in
     if contains_point (s_rect sf) p \<and> k' > length xs then length xs else k')"
  using assms idx_le [of "\<lambda>(_, sf). \<not> contains_point (s_rect sf) p" xs] idx_le [of "\<lambda>(_, sf). \<not> contains_point (s_rect sf) p" ys]
    idx_le [of "\<lambda>(_, sf). \<not> contains_point (s_rect sf) p" zs]
  by (auto simp: front_def Let_def idx_append)

lemma compose_raise:
  assumes l: "length (xs @ ys @ zs) + 1 < USIZE_MAX" and
    k: "\<not> contains_point (s_rect sf) p \<or> front (xs @ ys @ (i, sf) # zs) p < length xs \<or> front (xs @ ys @ (i, sf) # zs) p = length (xs @ ys)"
  shows "compose h (xs @ (i, sf) # ys @ zs) p = compose h (xs @ ys @ (i, sf) # zs) p"
proof -
  let ?C = "\<lambda>(_, sf). contains_point (s_rect sf) p"
  consider "\<not> contains_point (s_rect sf) p" | "find ?C xs \<noteq> None"
    | "find ?C xs = None" "find ?C ys = None"
  proof -
    have "find ?C xs = None \<and> find ?C ys = None" if e: "front (xs @ ys @ (i, sf) # zs) p = length (xs @ ys)"
    proof -
      have "length (takeWhile (\<lambda>(_, sf). \<not> contains_point (s_rect sf) p) ((xs @ ys) @ (i, sf) # zs)) = length (xs @ ys)"
        using e l by (auto simp: front_def Let_def split: if_splits)
      then have "length (takeWhile (\<lambda>(_, sf). \<not> contains_point (s_rect sf) p) (xs @ ys)) = length (xs @ ys)"
        using idx_le [of "\<lambda>(_, sf). \<not> contains_point (s_rect sf) p" "xs @ ys"] by (subst (asm) idx_append) (auto split: if_splits)
      then have "\<forall>x\<in>set (xs @ ys). (\<lambda>(_, sf). \<not> contains_point (s_rect sf) p) x"
        by (metis takeWhile_eq_all_conv takeWhile_eq_take take_all_iff order_refl)
      then show ?thesis by (auto simp: find_None_iff)
    qed
    then show thesis using k find_front [of xs "ys @ (i, sf) # zs" p] l that by auto
  qed
  then show ?thesis by cases (auto simp: compose_def find_append split: option.splits)
qed

subsection \<open>Windows\<close>

lemma windows_okD:
  assumes "windows_ok h fb s"
  shows "iv_ok (windows s)" "distinct (visible s)" "set (visible s) = dom (iv_get (windows s))" "length (visible s) < USIZE_MAX"
    "\<And>i. i < length (visible s) \<Longrightarrow> \<exists>w. iv_get (windows s) (visible s ! i) = Some w \<and> win_z w = i"
    "\<And>sf wid. (wid, sf) \<in> set (stack s) \<Longrightarrow> surface_ok h sf \<and> s_image sf \<noteq> s_image fb"
    "distinct (map (s_image \<circ> snd) (stack s))"
    "\<And>sf wid. (wid, sf) \<in> set (stack s) \<Longrightarrow> map_option owned (h (s_image sf)) = Some True"
  using assms by (auto simp: windows_ok_def)

lemma stack_length [simp]: "length (stack s) = length (visible s)"
  by (simp add: stack_def)

lemma stack_nth: "i < length (visible s) \<Longrightarrow> stack s ! i = (visible s ! i, win_surface (the (iv_get (windows s) (visible s ! i))))"
  by (simp add: stack_def)

lemma window_place:
  assumes "windows_ok h fb s" "iv_get (windows s) wid = Some w"
  shows "win_z w < length (visible s)" "visible s ! win_z w = wid" "stack s ! win_z w = (wid, win_surface w)" "surface_ok h (win_surface w)"
    "(wid, win_surface w) \<in> set (stack s)"
proof -
  have "wid \<in> set (visible s)" using windows_okD(3) [OF assms(1)] assms(2) by auto
  then obtain i where i: "i < length (visible s)" "visible s ! i = wid" by (auto simp: in_set_conv_nth)
  with windows_okD(5) [OF assms(1) i(1)] assms(2) have z: "win_z w = i" by auto
  with i show "win_z w < length (visible s)" "visible s ! win_z w = wid" by simp_all
  show st: "stack s ! win_z w = (wid, win_surface w)" using i z assms(2) by (simp add: stack_nth)
  then show "(wid, win_surface w) \<in> set (stack s)" using i z by (metis nth_mem stack_length)
  then show "surface_ok h (win_surface w)" using windows_okD(6) [OF assms(1)] by blast
qed

lemma tracks_update:
  assumes "banded_ok t" "\<not> rect_is_empty r"
  shows "\<exists>t'. banded_update t r u = Some t' \<and> banded_ok t' \<and>
    (\<forall>p. pixel_at t' (px p) (py p) = (if contains_point r p then u (pixel_at t (px p) (py p)) else pixel_at t (px p) (py p)))"
proof -
  from banded_update_spec [OF assms, of u] obtain t' where t': "banded_update t r u = Some t'" "banded_ok t'"
    "\<And>x y. pixel_at t' x y = (if contains_point r (point_new x y) then u (pixel_at t x y) else pixel_at t x y)" by blast
  have "contains_point r (point_new (px p) (py p)) \<longleftrightarrow> contains_point r p" for p by (simp add: contains_point_def)
  with t' show ?thesis by auto
qed

lemma values_update:
  assumes "banded_ok t"
  shows "banded_ok (banded_update_values t (\<lambda>_. g))" "pixel_at (banded_update_values t (\<lambda>_. g)) x y = map_option g (pixel_at t x y)"
proof -
  note sp = banded_update_values_spec [OF assms, of "\<lambda>_. g"]
  show "banded_ok (banded_update_values t (\<lambda>_. g))" by (rule sp(1))
  have "rect_around t x y = None \<longleftrightarrow> pixel_at t x y = None"
    by (auto simp: rect_around_def pixel_at_def row_at_def split: option.splits bind_splits)
  then show "pixel_at (banded_update_values t (\<lambda>_. g)) x y = map_option g (pixel_at t x y)"
    using sp(2) [of x y] by (auto split: option.splits)
qed

lemma surface_nonempty: "surface_ok h s \<Longrightarrow> \<not> rect_is_empty (s_rect s)" "surface_ok h s \<Longrightarrow> in_range (s_rect s)"
  by (simp_all add: surface_ok_def)

section \<open>Painting\<close>

fun paint_all :: "screen \<Rightarrow> surface \<Rightarrow> (rect \<times> damage) list \<Rightarrow> images \<Rightarrow> images option" where
  "paint_all s fb [] h = Some h"
| "paint_all s fb (piece # rs) h = do { h \<leftarrow> paint_piece s fb piece h; paint_all s fb rs h }"

lemma paint_loop_run:
  "run_iter drain_next it = Some (rs, it') \<Longrightarrow> paint_loop s fb it h = do { h \<leftarrow> paint_all s fb rs h; Some (h, it') }"
proof (induction rs arbitrary: it h)
  case Nil
  then show ?case by (subst (asm) run_iter.simps, subst paint_loop.simps) (auto split: bind_splits option.splits)
next
  case (Cons piece rs)
  from Cons.prems obtain it1 where n: "drain_next it = Some (Some piece, it1)" "run_iter drain_next it1 = Some (rs, it')"
    by (subst (asm) run_iter.simps) (auto split: bind_splits option.splits)
  have "paint_loop s fb it h = do { h \<leftarrow> paint_piece s fb piece h; paint_loop s fb it1 h }"
    using n(1) by (subst paint_loop.simps) simp
  with Cons.IH [OF n(2)] show ?case by (auto split: bind_splits)
qed

lemma point_eta [simp]: "point_new (px p) (py p) = p"
  by (simp add: point_new_def)

lemma within_range:
  assumes "in_range b" "rect_within r b" "\<not> rect_is_empty r"
  shows "in_range r" "point_in_range (rtl r)"
  using assms by (auto simp: in_range_def point_in_range_def rect_within_def rect_is_empty_def)

lemma paint_piece_ok:
  assumes fb: "surface_ok h fb" and w: "windows_ok h fb s"
    and r: "\<not> rect_is_empty r" "rect_within r (s_rect fb)" and z: "\<And>p. contains_point r p \<Longrightarrow> d_z v = front (stack s) p"
  shows "\<exists>h'. paint_piece s fb (r, v) h = Some h' \<and>
    paints h fb (\<lambda>p. if d_dirty v \<and> contains_point r p then Some (compose h (stack s) p) else None) h'"
proof -
  have len: "length (stack s) < USIZE_MAX" using windows_okD(4) [OF w] by simp
  have c: "contains_point r (rtl r)" using r(1) by (auto simp: contains_point_def rect_is_empty_def)
  have rng: "in_range r" "point_in_range (rtl r)" using within_range [OF surface_nonempty(2) [OF fb] r(2,1)] by auto
  consider (clean) "\<not> d_dirty v" | (white) "d_dirty v" "d_z v = USIZE_MAX" | (win) "d_dirty v" "d_z v < length (visible s)" "d_z v \<noteq> USIZE_MAX"
    using z [OF c] front_cases [OF len, of "rtl r"] by (metis stack_length)
  then show ?thesis
  proof cases
    case clean
    then show ?thesis using paints_refl [OF fb] by (simp add: paint_piece_def)
  next
    case white
    from surface_fill_ok [OF fb, of r WHITE] obtain h' where h': "surface_fill h fb r WHITE = Some h'" "paints h fb (filled r WHITE) h'" by blast
    have "paints h fb (\<lambda>p. if d_dirty v \<and> contains_point r p then Some (compose h (stack s) p) else None) h'"
      by (rule paints_cong [OF h'(2)]) (use white z in \<open>auto simp: compose_front [OF len]\<close>)
    with h' white show ?thesis by (simp add: paint_piece_def)
  next
    case win
    from windows_okD(5) [OF w win(2)] obtain w0 where w0: "iv_get (windows s) (visible s ! d_z v) = Some w0" by blast
    have st: "stack s ! d_z v = (visible s ! d_z v, win_surface w0)" using w0 win(2) by (simp add: stack_nth)
    then have mem: "(visible s ! d_z v, win_surface w0) \<in> set (stack s)" using win(2) by (metis nth_mem stack_length)
    have ok: "surface_ok h (win_surface w0)" "shares fb (win_surface w0)"
      using windows_okD(6) [OF w mem] by (auto simp: shares_def)
    from blit_ok [OF fb ok rng] obtain h' where h': "blit h fb r (win_surface w0) (rtl r) = Some h'"
      "paints h fb (blit_colour h r (win_surface w0) (rtl r)) h'" by blast
    have "blit_colour h r (win_surface w0) (rtl r) q = Some (compose h (stack s) q)" if q: "contains_point r q" for q
    proof -
      have "front (stack s) q = d_z v" using z [OF q] by simp
      moreover from this have "contains_point (s_rect (win_surface w0)) q"
        using win st by (cases rule: front_cases [OF len, of q]) auto
      ultimately show ?thesis using q st win by (simp add: blit_colour_def shifted_def compose_front [OF len])
    qed
    then have "paints h fb (\<lambda>p. if d_dirty v \<and> contains_point r p then Some (compose h (stack s) p) else None) h'"
      by (intro paints_cong [OF h'(2)]) (use win(1) in \<open>auto simp: blit_colour_def\<close>)
    with h' win w0 show ?thesis by (simp add: paint_piece_def)
  qed
qed

lemma paints_owned: "paints h s u h' \<Longrightarrow> map_option owned (h' a) = map_option owned (h a)"
  by (auto simp: paints_def)

lemma windows_ok_paints:
  assumes "windows_ok h fb s" "paints h sf u h'"
  shows "windows_ok h' fb s"
  using assms paints_ok [OF assms(2)] paints_owned [OF assms(2)] by (auto simp: windows_ok_def)

lemma compose_cong: "(\<And>wid sf. (wid, sf) \<in> set st \<Longrightarrow> contains_point (s_rect sf) p \<Longrightarrow> pixel h' sf p = pixel h sf p) \<Longrightarrow> compose h' st p = compose h st p"
  by (auto simp: compose_def split: option.splits dest!: find_Some_iff [THEN iffD1] simp: nth_mem) (metis nth_mem)

lemma compose_paints_fb:
  assumes "windows_ok h fb s" "paints h fb u h'"
  shows "compose h' (stack s) p = compose h (stack s) p"
  using windows_okD(6) [OF assms(1)] paints_other [OF assms(2)] by (intro compose_cong) metis

lemma paint_all_ok:
  assumes "surface_ok h fb" "windows_ok h fb s"
    "\<forall>(r, v)\<in>set rs. \<not> rect_is_empty r \<and> rect_within r (s_rect fb) \<and> (\<forall>p. contains_point r p \<longrightarrow> d_z v = front (stack s) p)"
  shows "\<exists>h'. paint_all s fb rs h = Some h' \<and>
    paints h fb (\<lambda>p. if \<exists>(r, v)\<in>set rs. d_dirty v \<and> contains_point r p then Some (compose h (stack s) p) else None) h'"
  using assms
proof (induction rs arbitrary: h)
  case Nil
  then show ?case using paints_refl by auto
next
  case (Cons piece rs)
  obtain r v where piece: "piece = (r, v)" by (cases piece)
  with Cons.prems(3) have p: "\<not> rect_is_empty r" "rect_within r (s_rect fb)" "\<And>p. contains_point r p \<Longrightarrow> d_z v = front (stack s) p" by auto
  from paint_piece_ok [OF Cons.prems(1,2) p] obtain h1 where h1: "paint_piece s fb (r, v) h = Some h1"
    "paints h fb (\<lambda>p. if d_dirty v \<and> contains_point r p then Some (compose h (stack s) p) else None) h1" by blast
  from Cons.IH [OF paints_ok [OF h1(2) Cons.prems(1)] windows_ok_paints [OF Cons.prems(2) h1(2)]] Cons.prems(3) obtain h2 where
    h2: "paint_all s fb rs h1 = Some h2"
    "paints h1 fb (\<lambda>p. if \<exists>(r, v)\<in>set rs. d_dirty v \<and> contains_point r p then Some (compose h1 (stack s) p) else None) h2" by auto
  have "paints h fb (\<lambda>p. if \<exists>(r, v)\<in>set (piece # rs). d_dirty v \<and> contains_point r p then Some (compose h (stack s) p) else None) h2"
    by (rule paints_cong [OF paints_trans [OF h1(2) h2(2)]])
      (auto simp: map_add_def piece compose_paints_fb [OF Cons.prems(2) h1(2)])
  with h1 h2 piece show ?case by simp
qed

section \<open>Updating the frame buffer\<close>

lemma cover_windows_ok:
  assumes "banded_ok t" "\<forall>wid\<in>set wids. \<exists>w. iv_get ws wid = Some w \<and> \<not> rect_is_empty (win_rect w)"
  shows "\<exists>t'. cover_windows ws wids t = Some t' \<and> banded_ok t' \<and>
    (\<forall>p. pixel_at t' (px p) (py p) =
      (case find (\<lambda>wid. contains_point (win_rect (the (iv_get ws wid))) p) (rev wids) of
         Some wid \<Rightarrow> Some \<lparr>d_z = win_z (the (iv_get ws wid)), d_dirty = False\<rparr> | None \<Rightarrow> pixel_at t (px p) (py p)))"
  using assms
proof (induction wids arbitrary: t)
  case (Cons wid wids)
  from Cons.prems(2) obtain w where w: "iv_get ws wid = Some w" "\<not> rect_is_empty (win_rect w)" by auto
  from tracks_update [OF Cons.prems(1) w(2), of "\<lambda>_. Some \<lparr>d_z = win_z w, d_dirty = False\<rparr>"] obtain t1 where
    t1: "banded_update t (win_rect w) (\<lambda>_. Some \<lparr>d_z = win_z w, d_dirty = False\<rparr>) = Some t1" "banded_ok t1"
    "\<forall>p. pixel_at t1 (px p) (py p) = (if contains_point (win_rect w) p then Some \<lparr>d_z = win_z w, d_dirty = False\<rparr> else pixel_at t (px p) (py p))" by blast
  from Cons.IH [OF t1(2)] Cons.prems(2) obtain t2 where t2: "cover_windows ws wids t1 = Some t2" "banded_ok t2"
    "\<forall>p. pixel_at t2 (px p) (py p) =
      (case find (\<lambda>wid. contains_point (win_rect (the (iv_get ws wid))) p) (rev wids) of
         Some wid \<Rightarrow> Some \<lparr>d_z = win_z (the (iv_get ws wid)), d_dirty = False\<rparr> | None \<Rightarrow> pixel_at t1 (px p) (py p))" by auto
  with t1 w show ?case by (auto simp: find_append split: option.splits)
qed simp

lemma find_map: "find P (map g xs) = map_option g (find (P \<circ> g) xs)"
  by (induction xs) auto

lemma banded_new_ok: "banded_ok banded_new" "pixel_at banded_new x y = None"
  by (simp_all add: banded_ok_def banded_new_def pixel_at_def rb_wf_def)

lemma find_visible:
  assumes "windows_ok h fb s"
  shows "case find (\<lambda>wid. contains_point (win_rect (the (iv_get (windows s) wid))) p) (visible s) of
    Some wid \<Rightarrow> win_z (the (iv_get (windows s) wid)) = front (stack s) p | None \<Rightarrow> front (stack s) p = USIZE_MAX"
proof -
  let ?P = "\<lambda>(_, sf). contains_point (s_rect sf) p" and ?f = "find (\<lambda>wid. contains_point (win_rect (the (iv_get (windows s) wid))) p) (visible s)"
  have len: "length (stack s) < USIZE_MAX" using windows_okD(4) [OF assms] by simp
  have "find ?P (stack s) = map_option (\<lambda>wid. (wid, win_surface (the (iv_get (windows s) wid)))) ?f"
    by (simp add: stack_def find_map comp_def win_rect_def)
  then show ?thesis
  proof (cases rule: front_cases [OF len, of p])
    case 2
    assume eq: "find ?P (stack s) = map_option (\<lambda>wid. (wid, win_surface (the (iv_get (windows s) wid)))) ?f"
    with 2 stack_nth [of "front (stack s) p" s] have "?f = Some (visible s ! front (stack s) p)" by (auto split: option.splits)
    with windows_okD(5) [OF assms, of "front (stack s) p"] 2(1) show ?thesis by auto
  qed auto
qed

lemma reset_ok:
  assumes "surface_ok h fb" "windows_ok h fb s"
  shows "\<exists>t. reset_damage_tracker s (s_rect fb) = Some (s\<lparr>damage_tracker := t\<rparr>) \<and> banded_ok t \<and>
    (\<forall>p. contains_point (s_rect fb) p \<longrightarrow> pixel_at t (px p) (py p) = Some \<lparr>d_z = front (stack s) p, d_dirty = False\<rparr>)"
proof -
  from tracks_update [OF banded_new_ok(1) surface_nonempty(1) [OF assms(1)], of "\<lambda>_. Some \<lparr>d_z = USIZE_MAX, d_dirty = False\<rparr>"] obtain t0 where
    t0: "banded_update banded_new (s_rect fb) (\<lambda>_. Some \<lparr>d_z = USIZE_MAX, d_dirty = False\<rparr>) = Some t0" "banded_ok t0"
    "\<forall>p. contains_point (s_rect fb) p \<longrightarrow> pixel_at t0 (px p) (py p) = Some \<lparr>d_z = USIZE_MAX, d_dirty = False\<rparr>" by auto
  have "\<forall>wid\<in>set (rev (visible s)). \<exists>w. iv_get (windows s) wid = Some w \<and> \<not> rect_is_empty (win_rect w)"
  proof
    fix wid assume "wid \<in> set (rev (visible s))"
    then obtain w where w: "iv_get (windows s) wid = Some w" using windows_okD(3) [OF assms(2)] by auto
    then show "\<exists>w. iv_get (windows s) wid = Some w \<and> \<not> rect_is_empty (win_rect w)"
      using surface_nonempty(1) [OF window_place(4) [OF assms(2) w]] by (simp add: win_rect_def)
  qed
  from cover_windows_ok [OF t0(2) this] obtain t where t: "cover_windows (windows s) (rev (visible s)) t0 = Some t" "banded_ok t"
    "\<forall>p. pixel_at t (px p) (py p) =
      (case find (\<lambda>wid. contains_point (win_rect (the (iv_get (windows s) wid))) p) (visible s) of
         Some wid \<Rightarrow> Some \<lparr>d_z = win_z (the (iv_get (windows s) wid)), d_dirty = False\<rparr> | None \<Rightarrow> pixel_at t0 (px p) (py p))" by auto
  have "pixel_at t (px p) (py p) = Some \<lparr>d_z = front (stack s) p, d_dirty = False\<rparr>" if "contains_point (s_rect fb) p" for p
    using t0(3) that t(3) [rule_format, of p] find_visible [OF assms(2), of p] by (auto split: option.splits)
  with t0 t show ?thesis by (auto simp: reset_damage_tracker_def)
qed

lemma stack_cong: "windows s' = windows s \<Longrightarrow> visible s' = visible s \<Longrightarrow> stack s' = stack s"
  by (simp add: stack_def)

lemma windows_ok_cong: "windows s' = windows s \<Longrightarrow> visible s' = visible s \<Longrightarrow> windows_ok h fb s' = windows_ok h fb s"
  by (simp add: windows_ok_def stack_def)

lemma update_ok:
  assumes "screen_ok h fb s"
  shows "\<exists>s' h'. screen_update s fb h = Some (s', h') \<and> screen_ok h' fb s' \<and> stack s' = stack s \<and>
    (\<forall>p. contains_point (s_rect fb) p \<longrightarrow> pixel h' fb p = compose h (stack s) p) \<and> (\<forall>a. a \<noteq> s_image fb \<longrightarrow> h' a = h a)"
proof -
  have fb: "surface_ok h fb" and w: "windows_ok h fb s" and tr: "tracks fb s" and fr: "fresh_pixels h fb s"
    using assms by (simp_all add: screen_ok_def)
  let ?it = "banded_drain (damage_tracker s) (s_rect fb)"
  have "drain_inv ?it" using tr by (auto simp: drain_inv_def banded_drain_def blank_def tracks_def)
  from drain_run [OF this] obtain rs it where run: "run_iter drain_next ?it = Some (rs, it)"
    "pieces_exact (damage_tracker s) (s_rect fb) rs" by (auto simp: banded_drain_def)
  have pc: "pixel_at (damage_tracker s) (px p) (py p) = Some v \<longleftrightarrow> (\<exists>r. (r, v) \<in> set rs \<and> contains_point r p)" if "contains_point (s_rect fb) p" for p v
    using run(2) that by (auto simp: pieces_exact_def)
  have pieces: "\<forall>(r, v)\<in>set rs. \<not> rect_is_empty r \<and> rect_within r (s_rect fb) \<and> (\<forall>p. contains_point r p \<longrightarrow> d_z v = front (stack s) p)"
  proof (clarify, intro conjI allI impI)
    fix r v assume rv: "(r, v) \<in> set rs"
    then show "\<not> rect_is_empty r" "rect_within r (s_rect fb)" using run(2) by (auto simp: pieces_exact_def)
    then show "d_z v = front (stack s) p" if "contains_point r p" for p
      using that rv pc [of p v] within_contains [of r "s_rect fb" p] tr by (auto simp: tracks_def)
  qed
  from paint_all_ok [OF fb w pieces] obtain h' where h': "paint_all s fb rs h = Some h'"
    and pt: "paints h fb (\<lambda>p. if \<exists>(r, v)\<in>set rs. d_dirty v \<and> contains_point r p then Some (compose h (stack s) p) else None) h'" by blast
  have px: "pixel h' fb p = compose h (stack s) p" if p: "contains_point (s_rect fb) p" for p
  proof -
    from tr p obtain v where v: "pixel_at (damage_tracker s) (px p) (py p) = Some v" by (auto simp: tracks_def)
    show ?thesis
    proof (cases "d_dirty v")
      case True
      with v pc [OF p] pt p show ?thesis by (auto simp: paints_def)
    next
      case False
      have "v' = v" if "(r, v') \<in> set rs" "contains_point r p" for r v' using pc [OF p, of v'] v that by auto
      with False have "\<not> (\<exists>(r, v)\<in>set rs. d_dirty v \<and> contains_point r p)" by auto
      with pt p have "pixel h' fb p = pixel h fb p" by (simp add: paints_def)
      with fr p v False show ?thesis by (simp add: fresh_pixels_def)
    qed
  qed
  let ?s = "s\<lparr>damage_tracker := it_region it\<rparr>"
  have w': "windows_ok h' fb ?s" using windows_ok_paints [OF w pt] by (simp add: windows_ok_cong [of ?s s])
  have fb': "surface_ok h' fb" by (rule paints_ok [OF pt fb])
  from reset_ok [OF fb' w'] obtain t where t: "reset_damage_tracker ?s (s_rect fb) = Some (?s\<lparr>damage_tracker := t\<rparr>)" "banded_ok t"
    "\<forall>p. contains_point (s_rect fb) p \<longrightarrow> pixel_at t (px p) (py p) = Some \<lparr>d_z = front (stack ?s) p, d_dirty = False\<rparr>" by blast
  let ?s' = "s\<lparr>damage_tracker := t\<rparr>"
  have st: "stack ?s = stack s" "stack ?s' = stack s" by (simp_all add: stack_def)
  have "screen_ok h' fb ?s'"
    using fb' w' t(2,3) px compose_paints_fb [OF w pt]
    by (auto simp: screen_ok_def tracks_def fresh_pixels_def st windows_ok_cong [of ?s' s] windows_ok_cong [of ?s s])
  moreover have "screen_update s fb h = Some (?s', h')"
    using paint_loop_run [OF run(1)] h' t(1) by (simp add: screen_update_def)
  moreover have "\<forall>a. a \<noteq> s_image fb \<longrightarrow> h' a = h a" using pt by (auto simp: paints_def)
  ultimately show ?thesis using px st by blast
qed

section \<open>Changing the stack\<close>

lemma new_ok:
  assumes "surface_ok h fb"
  shows "\<exists>s. screen_new (s_rect fb) = Some s \<and> screen_ok h fb s \<and> stack s = []"
proof -
  from tracks_update [OF banded_new_ok(1) surface_nonempty(1) [OF assms], of "\<lambda>_. Some \<lparr>d_z = USIZE_MAX, d_dirty = True\<rparr>"] obtain t where
    t: "banded_update banded_new (s_rect fb) (\<lambda>_. Some \<lparr>d_z = USIZE_MAX, d_dirty = True\<rparr>) = Some t" "banded_ok t"
    "\<forall>p. contains_point (s_rect fb) p \<longrightarrow> pixel_at t (px p) (py p) = Some \<lparr>d_z = USIZE_MAX, d_dirty = True\<rparr>" by auto
  then show ?thesis using assms
    by (auto simp: screen_new_def screen_ok_def windows_ok_def tracks_def fresh_pixels_def stack_def front_def iv_ok_def iv_new_def iv_get_def USIZE_MAX_def)
qed

lemma z_index_update_get:
  "iv_get (windows (z_index_update s f)) wid = map_option (\<lambda>w. w\<lparr>win_z := f (win_z w)\<rparr>) (iv_get (windows s) wid)"
  "visible (z_index_update s f) = visible s" "iv_ok (windows (z_index_update s f)) = iv_ok (windows s)"
  by (simp_all add: z_index_update_def iv_get_def iv_ok_iff cong: conj_cong)

lemma z_index_update_tracker:
  assumes "banded_ok (damage_tracker s)"
  shows "banded_ok (damage_tracker (z_index_update s f))"
    "pixel_at (damage_tracker (z_index_update s f)) x y = map_option (\<lambda>r. r\<lparr>d_z := f (d_z r)\<rparr>) (pixel_at (damage_tracker s) x y)"
  using values_update [OF assms] by (simp_all add: z_index_update_def)

lemma mark_dirty_window_eq:
  assumes "banded_ok (damage_tracker s)" "iv_get (windows s) wid = Some w"
  shows "\<exists>t. mark_dirty_window s wid r = Some (s\<lparr>damage_tracker := t\<rparr>) \<and> banded_ok t \<and>
    (\<forall>p. pixel_at t (px p) (py p) =
      (if contains_point r p \<and> contains_point (win_rect w) p
       then put_unless (\<lambda>d. d_z d < win_z w) (win_z w) (pixel_at (damage_tracker s) (px p) (py p))
       else pixel_at (damage_tracker s) (px p) (py p)))"
proof (cases "rect_intersect r (win_rect w)")
  case None
  then show ?thesis using assms intersect_None [OF None]
    by (intro exI [of _ "damage_tracker s"]) (auto simp: mark_dirty_window_def)
next
  case (Some q)
  have "\<not> rect_is_empty q" using intersect_inside(1) [OF Some] by (auto simp: inside_def rect_is_empty_def)
  from tracks_update [OF assms(1) this, of "put_unless (\<lambda>d. d_z d < win_z w) (win_z w)"] intersect_inside(3) [OF Some] show ?thesis
    using Some assms(2) by (auto simp: mark_dirty_window_def)
qed

lemma front_le:
  assumes "i < length st" "contains_point (s_rect (snd (st ! i))) p"
  shows "front st p \<le> i"
proof -
  let ?P = "\<lambda>(_, sf). \<not> contains_point (s_rect sf) p"
  have "length (takeWhile ?P st) \<le> i"
  proof (rule ccontr)
    assume "\<not> length (takeWhile ?P st) \<le> i"
    then have "i < length (takeWhile ?P st)" by simp
    then have "?P (takeWhile ?P st ! i)" "takeWhile ?P st ! i = st ! i" by (metis nth_mem set_takeWhileD, metis takeWhile_nth)
    with assms(2) show False by (simp add: case_prod_unfold)
  qed
  with assms(1) show ?thesis by (simp add: front_def)
qed

lemma draw_ok:
  assumes ok: "screen_ok h fb s" and w: "iv_get (windows s) wid = Some w"
    and pt: "paints h (win_surface w) u h'" and u: "\<And>q. u q \<noteq> None \<Longrightarrow> contains_point r q"
  shows "\<exists>s'. mark_dirty_window s wid r = Some s' \<and> screen_ok h' fb s' \<and> stack s' = stack s"
proof -
  have fb: "surface_ok h fb" and wo: "windows_ok h fb s" and tr: "tracks fb s" and fr: "fresh_pixels h fb s"
    using ok by (simp_all add: screen_ok_def)
  note wp = window_place [OF wo w]
  have len: "length (stack s) < USIZE_MAX" using windows_okD(4) [OF wo] by simp
  from mark_dirty_window_eq [OF _ w, of r] tr obtain t where t: "mark_dirty_window s wid r = Some (s\<lparr>damage_tracker := t\<rparr>)" "banded_ok t"
    "\<And>p. pixel_at t (px p) (py p) = (if contains_point r p \<and> contains_point (win_rect w) p
       then put_unless (\<lambda>d. d_z d < win_z w) (win_z w) (pixel_at (damage_tracker s) (px p) (py p))
       else pixel_at (damage_tracker s) (px p) (py p))" by (auto simp: tracks_def)
  let ?s = "s\<lparr>damage_tracker := t\<rparr>"
  have st: "stack ?s = stack s" by (rule stack_cong) simp_all
  have z: "\<exists>d. pixel_at (damage_tracker s) (px p) (py p) = Some d \<and> d_z d = front (stack s) p \<and> (contains_point (win_rect w) p \<longrightarrow> d_z d \<le> win_z w)"
    if "contains_point (s_rect fb) p" for p
    using tr that wp(1,3) front_le [of "win_z w" "stack s" p] by (auto simp: tracks_def win_rect_def)
  have "tracks fb ?s" using z t(2,3) by (fastforce simp: tracks_def st put_unless_def)
  moreover have "fresh_pixels h' fb ?s" unfolding fresh_pixels_def st
  proof (intro allI impI)
    fix p assume p: "contains_point (s_rect fb) p" "map_option d_dirty (pixel_at (damage_tracker ?s) (px p) (py p)) = Some False"
    from z [OF p(1)] obtain d where d: "pixel_at (damage_tracker s) (px p) (py p) = Some d" "d_z d = front (stack s) p" "contains_point (win_rect w) p \<longrightarrow> d_z d \<le> win_z w" by blast
    have clean: "\<not> d_dirty d" "contains_point r p \<and> contains_point (win_rect w) p \<longrightarrow> front (stack s) p < win_z w"
      using p(2) t(3) [of p] d by (auto simp: put_unless_def split: if_splits)
    have same: "pixel h' sf p = pixel h sf p" if sf: "(i, sf) = stack s ! front (stack s) p" "front (stack s) p < length (stack s)" "contains_point (s_rect sf) p" for i sf
    proof (cases "front (stack s) p = win_z w")
      case True
      with sf wp(3) have e: "sf = win_surface w" by simp
      with sf True clean(2) have "\<not> contains_point r p" by (auto simp: win_rect_def)
      then have "u p = None" using u by blast
      with pt sf e show ?thesis by (simp add: paints_def)
    next
      case False
      have "s_image (snd (stack s ! front (stack s) p)) \<noteq> s_image (snd (stack s ! win_z w))"
        using windows_okD(7) [OF wo] False sf(2) wp(1) by (simp add: distinct_conv_nth)
      with paints_other [OF pt] sf(1) wp(3) show ?thesis by (metis snd_conv)
    qed
    have "compose h' (stack s) p = compose h (stack s) p"
    proof (cases rule: front_cases [OF len, of p])
      case 2
      then show ?thesis using same [of "fst (stack s ! front (stack s) p)" "snd (stack s ! front (stack s) p)"] by (simp add: compose_def case_prod_unfold)
    qed (simp add: compose_def)
    moreover have "pixel h' fb p = pixel h fb p" using paints_other [OF pt] windows_okD(6) [OF wo wp(5)] by metis
    ultimately show "pixel h' fb p = compose h' (stack s) p" using fr p(1) d(1) clean(1) by (simp add: fresh_pixels_def)
  qed
  ultimately show ?thesis using t(1) st paints_ok [OF pt fb] windows_ok_paints [OF wo pt]
    by (auto simp: screen_ok_def windows_ok_cong [of ?s s])
qed

lemma mark_dirty_beyond_ok:
  assumes "screen_ok h fb s" "\<not> rect_is_empty r"
  shows "\<exists>s'. mark_dirty_beyond s z r = Some s' \<and> screen_ok h fb s' \<and> stack s' = stack s"
proof -
  have tr: "tracks fb s" using assms(1) by (simp add: screen_ok_def)
  from tracks_update [OF _ assms(2), of "damage_tracker s" "map_option (\<lambda>r. \<lparr>d_z = d_z r, d_dirty = d_dirty r \<or> d_z r \<ge> z\<rparr>)"] tr obtain t where
    t: "banded_update (damage_tracker s) r (map_option (\<lambda>r. \<lparr>d_z = d_z r, d_dirty = d_dirty r \<or> d_z r \<ge> z\<rparr>)) = Some t" "banded_ok t"
    "\<And>p. pixel_at t (px p) (py p) = (if contains_point r p then map_option (\<lambda>r. \<lparr>d_z = d_z r, d_dirty = d_dirty r \<or> d_z r \<ge> z\<rparr>) (pixel_at (damage_tracker s) (px p) (py p))
      else pixel_at (damage_tracker s) (px p) (py p))" by (auto simp: tracks_def)
  let ?s = "s\<lparr>damage_tracker := t\<rparr>"
  have st: "stack ?s = stack s" by (rule stack_cong) simp_all
  have "tracks fb ?s" using tr t(2,3) by (auto simp: tracks_def st option.map_comp comp_def)
  moreover have "fresh_pixels h fb ?s" using assms(1) t(3)
    by (auto simp: screen_ok_def fresh_pixels_def st split: if_splits)
  ultimately show ?thesis using assms(1) t(1) st by (auto simp: screen_ok_def windows_ok_cong [of ?s s] mark_dirty_beyond_def)
qed

lemma fresh_image:
  assumes "h a = None" "h'(a := None) = h" "surface_ok h sf"
  shows "s_image sf \<noteq> a" "surface_ok h' sf" "pixel h' sf p = pixel h sf p"
proof -
  show ne: "s_image sf \<noteq> a" using assms(1,3) by (auto simp: surface_ok_def)
  then have "h' (s_image sf) = h (s_image sf)" using assms(2) by (metis fun_upd_other)
  then show "surface_ok h' sf" "pixel h' sf p = pixel h sf p" using assms(3) by (simp_all add: surface_ok_def pixel_def)
qed

lemma insert_at:
  assumes "k \<le> length xs"
  shows "set (take k xs @ x # drop k xs) = insert x (set xs)" "distinct (take k xs @ x # drop k xs) \<longleftrightarrow> distinct xs \<and> x \<notin> set xs"
    "i < k \<Longrightarrow> (take k xs @ x # drop k xs) ! i = xs ! i" "(take k xs @ x # drop k xs) ! k = x"
    "k < i \<Longrightarrow> i \<le> length xs \<Longrightarrow> (take k xs @ x # drop k xs) ! i = xs ! (i - 1)"
proof -
  have eq: "take k xs @ drop k xs = xs" by simp
  have "set (take k xs) \<union> set (drop k xs) = set xs" by (metis eq set_append)
  then show "set (take k xs @ x # drop k xs) = insert x (set xs)" by auto
  have "distinct (take k xs @ drop k xs) \<longleftrightarrow> distinct xs" by simp
  then show "distinct (take k xs @ x # drop k xs) \<longleftrightarrow> distinct xs \<and> x \<notin> set xs"
    using \<open>set (take k xs) \<union> set (drop k xs) = set xs\<close> by (simp only: distinct_append distinct.simps list.set) blast
  show "i < k \<Longrightarrow> (take k xs @ x # drop k xs) ! i = xs ! i" "(take k xs @ x # drop k xs) ! k = x"
    "k < i \<Longrightarrow> i \<le> length xs \<Longrightarrow> (take k xs @ x # drop k xs) ! i = xs ! (i - 1)"
    using assms by (auto simp: nth_append nth_Cons' min_def)
qed

text \<open>A screen with one more window, before its pixels are marked.\<close>

lemma insert_window:
  assumes wo: "windows_ok h fb s" and room: "length (visible s) + 1 < USIZE_MAX" and k: "k \<le> length (visible s)"
    and fresh: "h (s_image sf) = None" "h'(s_image sf := None) = h" "surface_ok h' sf" "map_option owned (h' (s_image sf)) = Some True" and fb: "surface_ok h fb"
    and ins: "iv_ok ws" "iv_get (windows s) wid = None"
      "\<And>i. iv_get ws i = (if i = wid then Some \<lparr>win_surface = sf, win_z = k\<rparr>
        else map_option (\<lambda>w. w\<lparr>win_z := (if win_z w \<ge> k then win_z w + 1 else win_z w)\<rparr>) (iv_get (windows s) i))"
    and s': "windows s' = ws" "visible s' = take k (visible s) @ wid # drop k (visible s)"
  shows "stack s' = take k (stack s) @ (wid, sf) # drop k (stack s)" "windows_ok h' fb s'"
proof -
  note ia = insert_at [OF k, where x = wid]
  have wid: "wid \<notin> set (visible s)" using ins(2) windows_okD(3) [OF wo] by auto
  have "win_surface (the (iv_get ws i)) = win_surface (the (iv_get (windows s) i))" if "i \<in> set (visible s)" for i
    using ins(3) [of i] that wid windows_okD(3) [OF wo] by auto
  then show st: "stack s' = take k (stack s) @ (wid, sf) # drop k (stack s)"
    using ins(3) [of wid] by (auto simp: stack_def s' take_map drop_map dest: in_set_takeD in_set_dropD)
  have kst: "k \<le> length (stack s)" using k by simp
  have old: "surface_ok h' t \<and> s_image t \<noteq> s_image fb \<and> s_image t \<noteq> s_image sf \<and> map_option owned (h' (s_image t)) = Some True"
    if t: "(i, t) \<in> set (stack s)" for i t
    using windows_okD(6,8) [OF wo t] fresh_image [OF fresh(1,2), of t] fresh(2) by (metis fun_upd_other)
  have "s_image fb \<noteq> s_image sf" using fresh_image(1) [OF fresh(1,2) fb] .
  then have surf: "\<forall>(_, t)\<in>set (stack s'). surface_ok h' t \<and> s_image t \<noteq> s_image fb"
    "\<forall>(_, t)\<in>set (stack s'). map_option owned (h' (s_image t)) = Some True" "distinct (map (s_image \<circ> snd) (stack s'))"
    unfolding st insert_at(1) [OF kst] using old fresh(3,4) windows_okD(7) [OF wo] insert_at(2) [of k "map (s_image \<circ> snd) (stack s)" "s_image sf"] kst
    by (auto simp: take_map drop_map)
  have z: "\<exists>w. iv_get ws (visible s' ! i) = Some w \<and> win_z w = i" if i: "i < length (visible s')" for i
  proof -
    have old: "\<exists>w. iv_get ws (visible s ! j) = Some w \<and> win_z w = (if j \<ge> k then j + 1 else j)" if j: "j < length (visible s)" for j
      using windows_okD(5) [OF wo j] ins(3) [of "visible s ! j"] wid nth_mem [OF j] by auto
    consider "i < k" | "i = k" | "k < i" "i \<le> length (visible s)" using i k by (fastforce simp: s')
    then show ?thesis
    proof cases
      case 1
      with old [of i] ia(3) [OF 1] k show ?thesis by (auto simp: s')
    next
      case 2
      with ia(4) ins(3) [of wid] show ?thesis by (simp add: s')
    next
      case 3
      then obtain j where "i = Suc j" by (cases i) auto
      with 3 old [of j] ia(5) [OF 3] show ?thesis by (simp add: s')
    qed
  qed
  have "dom (iv_get ws) = insert wid (dom (iv_get (windows s)))" using ins(3) by (auto simp: dom_def)
  then show "windows_ok h' fb s'" unfolding windows_ok_def using surf z ins(1) ia(1,2) wid windows_okD(2,3) [OF wo] room k by (simp add: s')
qed

text \<open>
  A change of the stack that renumbers the regions with \<open>g\<close> and puts the index \<open>z p\<close>, dirty, where \<open>c\<close> holds, is correct if
  the same surfaces are seen elsewhere.
\<close>

lemma restack:
  assumes "screen_ok h fb s" "surface_ok h' fb" "windows_ok h' fb s'" "banded_ok (damage_tracker s')"
    and tracker: "\<And>p d. contains_point (s_rect fb) p \<Longrightarrow> pixel_at (damage_tracker s) (px p) (py p) = Some d \<Longrightarrow> d_z d = front (stack s) p \<Longrightarrow>
      pixel_at (damage_tracker s') (px p) (py p) = Some (if c p then \<lparr>d_z = z p, d_dirty = True\<rparr> else d\<lparr>d_z := g (d_z d)\<rparr>)"
    and front: "\<And>p. contains_point (s_rect fb) p \<Longrightarrow> front (stack s') p = (if c p then z p else g (front (stack s) p))"
    and same: "\<And>p. contains_point (s_rect fb) p \<Longrightarrow> \<not> c p \<Longrightarrow> compose h' (stack s') p = compose h (stack s) p"
      "\<And>p. pixel h' fb p = pixel h fb p"
  shows "screen_ok h' fb s'"
proof -
  have tr: "\<exists>d. pixel_at (damage_tracker s) (px p) (py p) = Some d \<and> d_z d = front (stack s) p" if "contains_point (s_rect fb) p" for p
    using assms(1) that by (auto simp: screen_ok_def tracks_def)
  have "tracks fb s'" unfolding tracks_def
  proof (intro conjI allI impI)
    fix p assume p: "contains_point (s_rect fb) p"
    from tr [OF p] tracker [OF p] front [OF p]
    show "map_option d_z (pixel_at (damage_tracker s') (px p) (py p)) = Some (front (stack s') p)" by auto
  qed (rule assms(4))
  moreover have "fresh_pixels h' fb s'" unfolding fresh_pixels_def
  proof (intro allI impI)
    fix p assume p: "contains_point (s_rect fb) p" "map_option d_dirty (pixel_at (damage_tracker s') (px p) (py p)) = Some False"
    from tr [OF p(1)] obtain d where d: "pixel_at (damage_tracker s) (px p) (py p) = Some d" "d_z d = front (stack s) p" by blast
    with tracker [OF p(1) d] p(2) have "\<not> c p" "\<not> d_dirty d" by (auto split: if_splits)
    with same p(1) d(1) assms(1) show "pixel h' fb p = compose h' (stack s') p" by (simp add: screen_ok_def fresh_pixels_def)
  qed
  ultimately show ?thesis using assms(2,3) by (simp add: screen_ok_def)
qed

lemma new_window_ok:
  assumes ok: "screen_ok h fb s" and r: "in_range rect" "\<not> rect_is_empty rect" and room: "length (visible s) + 1 < USIZE_MAX"
    and sound: "\<And>n a junk. kernel_alloc h n = Some (a, junk) \<Longrightarrow> h a = None \<and> length junk = n"
    and al: "surface_new kernel_alloc h rect WHITE = Some (sf, h')"
  shows "\<exists>wid s'. new_window kernel_alloc s rect z h = Some (wid, s', h') \<and> screen_ok h' fb s' \<and>
    stack s' = take z (stack s) @ (wid, sf) # drop z (stack s)"
proof -
  have fb: "surface_ok h fb" and wo: "windows_ok h fb s" and bt: "banded_ok (damage_tracker s)"
    using ok by (simp_all add: screen_ok_def tracks_def)
  have sn: "s_rect sf = rect" "h (s_image sf) = None" "surface_ok h' sf" "h'(s_image sf := None) = h"
    "map_option owned (h' (s_image sf)) = Some True" using surface_new_ok [OF r sound al] by blast+
  define k where "k = min z (length (visible s))"
  define f where "f = (\<lambda>n. if n \<ge> k \<and> n \<noteq> USIZE_MAX then n + 1 else n)"
  have kl: "k \<le> length (visible s)" "k \<le> length (stack s)" "k < USIZE_MAX" using room by (simp_all add: k_def)
  let ?s1 = "z_index_update s f"
  have "iv_ok (windows ?s1)" using windows_okD(1) [OF wo] by (simp add: z_index_update_get)
  from iv_insert_spec [OF this, of "\<lparr>win_surface = sf, win_z = k\<rparr>"] obtain wid ws where
    ins: "iv_insert (windows ?s1) \<lparr>win_surface = sf, win_z = k\<rparr> = Some (wid, ws)" "iv_ok ws" "iv_get (windows ?s1) wid = None"
      "iv_get ws = (iv_get (windows ?s1))(wid \<mapsto> \<lparr>win_surface = sf, win_z = k\<rparr>)" by blast
  define s2 where "s2 = ?s1\<lparr>windows := ws, visible := take k (visible s) @ wid # drop k (visible s)\<rparr>"
  have zi: "f (win_z w) = (if win_z w \<ge> k then win_z w + 1 else win_z w)" if "iv_get (windows s) i = Some w" for i w
    using window_place(1) [OF wo that] windows_okD(4) [OF wo] by (auto simp: f_def)
  have gw: "iv_get ws i = (if i = wid then Some \<lparr>win_surface = sf, win_z = k\<rparr>
      else map_option (\<lambda>w. w\<lparr>win_z := (if win_z w \<ge> k then win_z w + 1 else win_z w)\<rparr>) (iv_get (windows s) i))" for i
    using zi [of i] ins(4) by (cases "iv_get (windows s) i") (auto simp: z_index_update_get)
  have none: "iv_get (windows s) wid = None" using ins(3) by (simp add: z_index_update_get)
  have st: "stack s2 = take k (stack s) @ (wid, sf) # drop k (stack s)" and wo2: "windows_ok h' fb s2"
    using insert_window [OF wo room kl(1) sn(2,4,3,5) fb ins(2) none gw, of s2] by (simp_all add: s2_def)
  have t2: "banded_ok (damage_tracker s2)"
    "\<And>x y. pixel_at (damage_tracker s2) x y = map_option (\<lambda>d. d\<lparr>d_z := f (d_z d)\<rparr>) (pixel_at (damage_tracker s) x y)"
    using z_index_update_tracker [OF bt, of f] by (simp_all add: s2_def)
  have g2: "iv_get (windows s2) wid = Some \<lparr>win_surface = sf, win_z = k\<rparr>" by (simp add: s2_def gw)
  from mark_dirty_window_eq [OF t2(1) g2, of rect] sn(1) obtain t where t: "mark_dirty_window s2 wid rect = Some (s2\<lparr>damage_tracker := t\<rparr>)" "banded_ok t"
    "\<And>p. pixel_at t (px p) (py p) = (if contains_point rect p
       then put_unless (\<lambda>d. d_z d < k) k (pixel_at (damage_tracker s2) (px p) (py p)) else pixel_at (damage_tracker s2) (px p) (py p))"
    by (auto simp: win_rect_def)
  let ?s3 = "s2\<lparr>damage_tracker := t\<rparr>" and ?c = "\<lambda>p. contains_point rect p \<and> front (stack s) p \<ge> k"
  have st3: "stack ?s3 = take k (stack s) @ (wid, sf) # drop k (stack s)" using st stack_cong [of ?s3 s2] by simp
  have lk: "length (take k (stack s)) = k" "length (take k (stack s) @ drop k (stack s)) + 1 < USIZE_MAX" using kl room by simp_all
  have "screen_ok h' fb ?s3"
  proof (rule restack [OF ok fresh_image(2) [OF sn(2,4) fb], where c = ?c and z = "\<lambda>_. k" and g = f])
    show "pixel_at (damage_tracker ?s3) (px p) (py p) = Some (if ?c p then \<lparr>d_z = k, d_dirty = True\<rparr> else d\<lparr>d_z := f (d_z d)\<rparr>)"
      if "pixel_at (damage_tracker s) (px p) (py p) = Some d" "d_z d = front (stack s) p" for p d
      using that t(3) [of p] t2(2) [of "px p" "py p"] kl(3) by (auto simp: put_unless_def f_def)
    show "front (stack ?s3) p = (if ?c p then k else f (front (stack s) p))" for p
      unfolding st3 front_insert [OF lk(2)] lk(1) by (simp add: sn(1) f_def Let_def)
    show "compose h' (stack ?s3) p = compose h (stack s) p" if "\<not> ?c p" for p
    proof -
      have "compose h' (stack ?s3) p = compose h' (stack s) p"
        unfolding st3 using compose_insert [of "take k (stack s)" "drop k (stack s)" sf p h' wid] that lk sn(1) kl(1) by (auto simp: not_le)
      also have "\<dots> = compose h (stack s) p"
        by (rule compose_cong) (use fresh_image(3) [OF sn(2,4)] windows_okD(6) [OF wo] in blast)
      finally show ?thesis .
    qed
  qed (use wo2 t(2) fresh_image(3) [OF sn(2,4) fb] in \<open>simp_all add: windows_ok_cong [of ?s3 s2]\<close>)
  moreover have "new_window kernel_alloc s rect z h = Some (wid, ?s3, h')"
    using al ins(1) t(1) by (simp add: new_window_def Let_def z_index_update_get s2_def flip: k_def f_def)
  moreover have "take k (stack s) = take z (stack s)" "drop k (stack s) = drop z (stack s)" by (auto simp: k_def min_def)
  ultimately show ?thesis using st3 by metis
qed

definition raised :: "nat \<Rightarrow> nat \<Rightarrow> nat \<Rightarrow> nat" where
  "raised old_z new_z z = (if z > old_z then z else if z = old_z then new_z else if z \<ge> new_z then z + 1 else z)"

lemma raise_window:
  assumes wo: "windows_ok h fb s" and v: "visible s = xs @ ys @ wid # zs"
    and s': "visible s' = xs @ wid # ys @ zs"
      "\<And>i. iv_get (windows s') i = map_option (\<lambda>w. w\<lparr>win_z := raised (length (xs @ ys)) (length xs) (win_z w)\<rparr>) (iv_get (windows s) i)"
      "iv_ok (windows s')"
  shows "stack s = take (length xs) (stack s) @ take (length ys) (drop (length xs) (stack s)) @ stack s ! length (xs @ ys) # drop (Suc (length (xs @ ys))) (stack s)"
    "stack s' = take (length xs) (stack s) @ stack s ! length (xs @ ys) # take (length ys) (drop (length xs) (stack s)) @ drop (Suc (length (xs @ ys))) (stack s)"
    "windows_ok h fb s'"
proof -
  have dom: "i \<in> dom (iv_get (windows s))" if "i \<in> set (visible s)" for i using that windows_okD(3) [OF wo] by auto
  have surf: "win_surface (the (iv_get (windows s') i)) = win_surface (the (iv_get (windows s) i))" if "i \<in> set (visible s)" for i
    using dom [OF that] s'(2) [of i] by auto
  then have m: "map (\<lambda>i. (i, win_surface (the (iv_get (windows s') i)))) l = map (\<lambda>i. (i, win_surface (the (iv_get (windows s) i)))) l"
    if "set l \<subseteq> set (visible s)" for l using that by (auto simp: subset_iff)
  show st0: "stack s = take (length xs) (stack s) @ take (length ys) (drop (length xs) (stack s)) @ stack s ! length (xs @ ys) # drop (Suc (length (xs @ ys))) (stack s)"
    by (simp add: stack_def v nth_append)
  have "set (visible s') \<subseteq> set (visible s)" by (auto simp: v s'(1))
  from m [OF this] show st: "stack s' = take (length xs) (stack s) @ stack s ! length (xs @ ys) # take (length ys) (drop (length xs) (stack s)) @ drop (Suc (length (xs @ ys))) (stack s)"
    by (simp add: stack_def v s'(1) nth_append)
  obtain A B x C where "stack s = A @ B @ x # C" "stack s' = A @ x # B @ C" using st0 st by blast
  then have perm: "set (stack s') = set (stack s) \<and> (distinct (map g (stack s')) \<longleftrightarrow> distinct (map g (stack s)))" for g :: "nat \<times> surface \<Rightarrow> nat"
    by auto
  have z: "\<exists>w. iv_get (windows s') (visible s' ! i) = Some w \<and> win_z w = i" if i: "i < length (visible s')" for i
  proof -
    have old: "\<exists>w. iv_get (windows s') (visible s ! j) = Some w \<and> win_z w = raised (length (xs @ ys)) (length xs) j" if "j < length (visible s)" for j
      using windows_okD(5) [OF wo that] s'(2) [of "visible s ! j"] by auto
    consider "i < length xs" | "i = length xs" | j where "i = length xs + Suc j" "j < length ys"
      | j where "i = length xs + Suc (length ys + j)" "j < length zs"
    proof -
      have "\<exists>j. i = length xs + Suc j \<and> j < length ys \<or> i = length xs + Suc (length ys + j) \<and> j < length zs" if "length xs < i"
      proof (cases "i \<le> length xs + length ys")
        case True
        with that show ?thesis by (intro exI [of _ "i - length xs - 1"]) auto
      next
        case False
        with i show ?thesis by (intro exI [of _ "i - length xs - length ys - 1"]) (auto simp: s'(1))
      qed
      then show thesis using that by (cases i "length xs" rule: linorder_cases) blast+
    qed
    then show ?thesis
    proof cases
      case 1 with old [of i] v show ?thesis by (auto simp: s'(1) nth_append raised_def)
    next
      case 2 with old [of "length (xs @ ys)"] v show ?thesis by (auto simp: s'(1) nth_append raised_def)
    next
      case 3 with old [of "length xs + j"] v show ?thesis by (auto simp: s'(1) nth_append raised_def)
    next
      case 4 with old [of "length xs + Suc (length ys + j)"] v show ?thesis by (auto simp: s'(1) nth_append raised_def)
    qed
  qed
  have "dom (iv_get (windows s')) = dom (iv_get (windows s))" using s'(2) by (auto simp: dom_def)
  moreover have "set (stack s') = set (stack s)" "distinct (map (s_image \<circ> snd) (stack s'))"
    using perm windows_okD(7) [OF wo] by auto
  ultimately show "windows_ok h fb s'" unfolding windows_ok_def
    using z s'(3) windows_okD(2,3,4) [OF wo] wo by (auto simp: windows_ok_def v s'(1))
qed

lemma raise_ok:
  assumes ok: "screen_ok h fb s" and w: "iv_get (windows s) wid = Some w" and new: "new_z \<le> win_z w" and room: "length (visible s) + 1 < USIZE_MAX"
  shows "\<exists>s' xs ys zs. set_window_z_index s wid new_z = Some s' \<and> screen_ok h fb s' \<and> length xs = new_z \<and>
    stack s = xs @ ys @ (wid, win_surface w) # zs \<and> stack s' = xs @ (wid, win_surface w) # ys @ zs"
proof (cases "new_z = win_z w")
  case True
  have wo: "windows_ok h fb s" using ok by (simp add: screen_ok_def)
  note wp = window_place [OF wo w]
  have "set_window_z_index s wid new_z = Some s" using wp(1) True w by (auto simp: set_window_z_index_def Let_def min_def)
  moreover have "stack s = take new_z (stack s) @ (wid, win_surface w) # drop (Suc new_z) (stack s)"
    using wp(1,3) True by (metis id_take_nth_drop stack_length)
  ultimately show ?thesis using ok wp(1) True
    by (intro exI [of _ s] exI [of _ "take new_z (stack s)"] exI [of _ "[]"] exI [of _ "drop (Suc new_z) (stack s)"]) auto
next
  case False
  have fb: "surface_ok h fb" and wo: "windows_ok h fb s" and bt: "banded_ok (damage_tracker s)"
    using ok by (simp_all add: screen_ok_def tracks_def)
  note wp = window_place [OF wo w]
  define old where "old = win_z w"
  have o: "new_z < old" "old < length (visible s)" using new False wp(1) by (simp_all add: old_def)
  define xs ys zs where "xs = take new_z (visible s)" "ys = take (old - new_z) (drop new_z (visible s))" "zs = drop (Suc old) (visible s)"
  have l: "length xs = new_z" "length (xs @ ys) = old" using o by (simp_all add: xs_ys_zs_def)
  have tail: "drop new_z (visible s) = ys @ wid # zs"
    using id_take_nth_drop [of "old - new_z" "drop new_z (visible s)"] o wp(2) by (simp add: xs_ys_zs_def old_def)
  then have v: "visible s = xs @ ys @ wid # zs" by (metis append_take_drop_id xs_ys_zs_def(1))
  let ?f = "raised old new_z" and ?s1 = "z_index_update s (raised old new_z)" and ?sf = "win_surface w"
  have rot: "rotate_range False new_z old (visible s) = Some (xs @ wid # ys @ zs)"
  proof -
    have "take (old + 1 - new_z) (drop new_z (visible s)) = ys @ [wid]" using l by (simp add: tail Suc_diff_le o less_imp_le)
    then show ?thesis using o by (simp add: rotate_range_def xs_ys_zs_def(1,3))
  qed
  have ne: "\<not> rect_is_empty (win_rect w)" using surface_nonempty(1) [OF wp(4)] by (simp add: win_rect_def)
  note tu = z_index_update_tracker [OF bt, of ?f]
  from tracks_update [OF tu(1) ne, of "put_unless (\<lambda>d. d_z d \<le> new_z) new_z"] obtain t where
    t: "banded_update (damage_tracker ?s1) (win_rect w) (put_unless (\<lambda>d. d_z d \<le> new_z) new_z) = Some t" "banded_ok t"
    "\<And>p. pixel_at t (px p) (py p) = (if contains_point (win_rect w) p then put_unless (\<lambda>d. d_z d \<le> new_z) new_z (pixel_at (damage_tracker ?s1) (px p) (py p))
      else pixel_at (damage_tracker ?s1) (px p) (py p))" by blast
  let ?s2 = "?s1\<lparr>visible := xs @ wid # ys @ zs, damage_tracker := t\<rparr>" and ?c = "\<lambda>p. contains_point (s_rect ?sf) p \<and> ?f (front (stack s) p) > new_z"
  have get: "iv_get (windows ?s2) i = map_option (\<lambda>w. w\<lparr>win_z := raised (length (xs @ ys)) (length xs) (win_z w)\<rparr>) (iv_get (windows s) i)" for i
    using z_index_update_get(1) [of s ?f i] l by simp
  have ivo: "iv_ok (windows ?s2)" using windows_okD(1) [OF wo] z_index_update_get(3) [of s ?f] by simp
  have top: "stack s ! length (xs @ ys) = (wid, ?sf)" using wp(3) l by (simp add: old_def)
  note rw = raise_window [OF wo v, of ?s2, OF _ get ivo, unfolded top]
  obtain A B C where st: "stack s = A @ B @ (wid, ?sf) # C" "stack ?s2 = A @ (wid, ?sf) # B @ C" "length A = new_z" "length (A @ B) = old"
    using rw(1,2) l o by (intro that [of "take (length xs) (stack s)" "take (length ys) (drop (length xs) (stack s))" "drop (Suc (length (xs @ ys))) (stack s)"]) auto
  have lABC: "length (A @ B @ C) + 1 < USIZE_MAX" using room st(1) by (metis Suc_lessD add_Suc_right append_assoc length_Cons length_append stack_length Suc_eq_plus1)
  have "screen_ok h fb ?s2"
  proof (rule restack [OF ok fb, where c = ?c and z = "\<lambda>_. new_z" and g = ?f])
    show "pixel_at (damage_tracker ?s2) (px p) (py p) = Some (if ?c p then \<lparr>d_z = new_z, d_dirty = True\<rparr> else d\<lparr>d_z := ?f (d_z d)\<rparr>)"
      if "pixel_at (damage_tracker s) (px p) (py p) = Some d" "d_z d = front (stack s) p" for p d
      using that t(3) [of p] tu(2) [of "px p" "py p"] by (auto simp: put_unless_def win_rect_def)
    show "front (stack ?s2) p = (if ?c p then new_z else ?f (front (stack s) p))" for p
      unfolding st(2) front_raise [OF lABC] st(3,4) by (simp add: raised_def Let_def flip: st(1))
    show "compose h (stack ?s2) p = compose h (stack s) p" if "\<not> ?c p" for p
      unfolding st(1,2) by (rule compose_raise [OF lABC]) (use that st o in \<open>auto simp: raised_def split: if_splits\<close>)
  qed (use rw(3) t(2) in simp_all)
  moreover have "set_window_z_index s wid new_z = Some ?s2"
    using w o rot t(1) by (auto simp: set_window_z_index_def Let_def min_def z_index_update_get raised_def [abs_def] old_def)
  ultimately show ?thesis using st by blast
qed



text \<open>The window in front, by its index.\<close>

lemma front_eqI:
  assumes "j < length st" "contains_point (s_rect (snd (st ! j))) p" "\<And>i. i < j \<Longrightarrow> \<not> contains_point (s_rect (snd (st ! i))) p"
    "length st < USIZE_MAX"
  shows "front st p = j"
  using assms front_le [OF assms(1,2)] by (cases rule: front_cases [OF assms(4), of p]) (auto simp: le_less)

lemma front_noneI:
  assumes "\<And>i. i < length st \<Longrightarrow> \<not> contains_point (s_rect (snd (st ! i))) p" "length st < USIZE_MAX"
  shows "front st p = USIZE_MAX"
  using assms by (cases rule: front_cases [OF assms(2), of p]) auto

lemma front_index:
  assumes "length st < USIZE_MAX"
  obtains "front st p = USIZE_MAX" "\<And>i. i < length st \<Longrightarrow> \<not> contains_point (s_rect (snd (st ! i))) p"
    | "front st p < length st" "contains_point (s_rect (snd (st ! front st p))) p"
      "\<And>i. i < front st p \<Longrightarrow> \<not> contains_point (s_rect (snd (st ! i))) p"
proof (cases rule: front_cases [OF assms, of p])
  case 1
  have "\<not> contains_point (s_rect (snd (st ! i))) p" if "i < length st" for i
    using 1(2) nth_mem [OF that] by (auto simp: find_None_iff) (metis prod.collapse)
  with 1(1) show thesis by (rule that(1))
next
  case 2
  have "\<not> contains_point (s_rect (snd (st ! i))) p" if "i < front st p" for i
    using front_le [of i st p] that 2(1) by fastforce
  with 2(1,3) show thesis by (rule that(2))
qed

text \<open>A permutation of the stack that renumbers the windows with \<open>f\<close>.\<close>

lemma permute_window:
  assumes wo: "windows_ok h fb s" and v: "set (visible s') = set (visible s)" "length (visible s') = length (visible s)"
      "\<And>j. j < length (visible s) \<Longrightarrow> f j < length (visible s) \<and> visible s' ! f j = visible s ! j"
    and w: "\<And>i. iv_get (windows s') i = map_option (\<lambda>w. w\<lparr>win_z := f (win_z w)\<rparr>) (iv_get (windows s) i)" "iv_ok (windows s')"
  shows "windows_ok h fb s'" "\<And>j. j < length (visible s) \<Longrightarrow> stack s' ! f j = stack s ! j"
    "\<And>i. i < length (visible s) \<Longrightarrow> \<exists>j<length (visible s). i = f j"
proof -
  have d: "distinct (visible s')" using v(1,2) windows_okD(2) [OF wo] by (metis card_distinct distinct_card)
  have surf: "win_surface (the (iv_get (windows s') i)) = win_surface (the (iv_get (windows s) i))" if "i \<in> set (visible s)" for i
    using that windows_okD(3) [OF wo] w(1) [of i] by auto
  show surj: "\<exists>j<length (visible s). i = f j" if "i < length (visible s)" for i
  proof -
    have "visible s' ! i \<in> set (visible s)" using that v(1,2) by (metis nth_mem)
    then obtain j where j: "j < length (visible s)" "visible s ! j = visible s' ! i" by (auto simp: in_set_conv_nth)
    with v(3) [OF j(1)] d that v(2) show ?thesis by (metis nth_eq_iff_index_eq)
  qed
  show nth: "stack s' ! f j = stack s ! j" if "j < length (visible s)" for j
    using v(2) v(3) [OF that] that surf by (simp add: stack_nth)
  have st: "set (stack s') = set (stack s)" unfolding stack_def using surf v(1) by (auto simp: image_iff)
  moreover have "distinct (stack s')" using d by (simp add: stack_def distinct_map inj_on_def)
  ultimately have "distinct (map (s_image \<circ> snd) (stack s'))" using windows_okD(7) [OF wo] by (simp add: distinct_map)
  moreover have "\<exists>w. iv_get (windows s') (visible s' ! i) = Some w \<and> win_z w = i" if "i < length (visible s')" for i
  proof -
    from surj that v(2) obtain j where "j < length (visible s)" "i = f j" by auto
    with windows_okD(5) [OF wo, of j] v(3) [of j] w(1) [of "visible s ! j"] show ?thesis by auto
  qed
  moreover have "dom (iv_get (windows s')) = dom (iv_get (windows s))" using w(1) by (auto simp: dom_def)
  ultimately show "windows_ok h fb s'" using wo d v(1,2) w(2) st by (simp add: windows_ok_def)
qed


definition lowered :: "nat \<Rightarrow> nat \<Rightarrow> nat \<Rightarrow> nat" where
  "lowered old_z new_z z = (if z > new_z then z else if z > old_z then z - 1 else if z = old_z then new_z else z)"

lemma rotate_left:
  assumes "old_z \<le> new_z" "new_z < length xs"
  obtains v where "rotate_range True old_z new_z xs = Some v" "length v = length xs" "set v = set xs"
    "\<And>j. j < length xs \<Longrightarrow> v ! lowered old_z new_z j = xs ! j"
proof -
  let ?A = "take old_z xs" and ?B = "take (new_z - old_z) (drop (Suc old_z) xs)" and ?C = "drop (Suc new_z) xs"
  have eq: "drop old_z xs = xs ! old_z # drop (Suc old_z) xs" using assms by (simp add: Cons_nth_drop_Suc)
  have "drop (Suc old_z) xs = ?B @ ?C" using append_take_drop_id [of "new_z - old_z" "drop (Suc old_z) xs"] assms(1) by simp
  with eq have xs: "xs = ?A @ xs ! old_z # ?B @ ?C" using append_take_drop_id [of old_z xs] by simp
  have ys: "take (new_z + 1 - old_z) (drop old_z xs) = xs ! old_z # ?B" using assms(1) by (simp add: eq Suc_diff_le)
  let ?v = "?A @ ?B @ xs ! old_z # ?C"
  have "rotate_range True old_z new_z xs = Some ?v" using assms by (simp only: rotate_range_def ys) simp
  moreover have "length ?v = length xs" using assms by simp
  moreover have "set ?v = set xs" by (subst (5) xs) auto
  moreover have "?v ! lowered old_z new_z j = xs ! j" if "j < length xs" for j
    using assms that by (auto simp: lowered_def nth_append nth_Cons' min_def)
  ultimately show thesis by (rule that)
qed

lemma rebuild_back_keeps:
  assumes "banded_ok (damage_tracker s)" "\<forall>i\<in>set wids. iv_get (windows s) i \<noteq> None"
  shows "\<exists>t. rebuild_back s wids old_z new_z r = Some (s\<lparr>damage_tracker := t\<rparr>) \<and> banded_ok t \<and>
    (\<forall>p d. pixel_at (damage_tracker s) (px p) (py p) = Some d \<and> (\<not> contains_point r p \<or> d_z d < old_z \<or> d_z d \<ge> new_z) \<longrightarrow>
      pixel_at t (px p) (py p) = Some d)"
  using assms
proof (induction wids arbitrary: s)
  case Nil
  then show ?case by (intro exI [of _ "damage_tracker s"]) simp
next
  case (Cons i wids)
  from Cons.prems(2) obtain w where w: "iv_get (windows s) i = Some w" by auto
  show ?case
  proof (cases "win_z w < old_z \<or> win_z w \<ge> new_z \<or> rect_intersect (win_rect w) r = None")
    case True
    then have "rebuild_back s (i # wids) old_z new_z r = rebuild_back s wids old_z new_z r" using w by auto
    with Cons.IH [OF Cons.prems(1)] Cons.prems(2) show ?thesis by simp
  next
    case False
    then obtain q where q: "rect_intersect (win_rect w) r = Some q" by auto
    have "\<not> rect_is_empty q" using intersect_inside(1) [OF q] by (auto simp: inside_def rect_is_empty_def)
    from tracks_update [OF Cons.prems(1) this, of "put_unless (\<lambda>d. d_z d < old_z \<or> d_z d \<ge> new_z) (win_z w)"] obtain t where
      t: "banded_update (damage_tracker s) q (put_unless (\<lambda>d. d_z d < old_z \<or> d_z d \<ge> new_z) (win_z w)) = Some t" "banded_ok t"
      "\<And>p. pixel_at t (px p) (py p) = (if contains_point q p then put_unless (\<lambda>d. d_z d < old_z \<or> d_z d \<ge> new_z) (win_z w) (pixel_at (damage_tracker s) (px p) (py p))
        else pixel_at (damage_tracker s) (px p) (py p))" by blast
    have eq: "rebuild_back s (i # wids) old_z new_z r = rebuild_back (s\<lparr>damage_tracker := t\<rparr>) wids old_z new_z r"
      using w False q t(1) by simp
    have keep: "pixel_at t (px p) (py p) = Some d"
      if "pixel_at (damage_tracker s) (px p) (py p) = Some d" "\<not> contains_point r p \<or> d_z d < old_z \<or> d_z d \<ge> new_z" for p d
      using t(3) [of p] that intersect_inside(3) [OF q] by (auto simp: put_unless_def)
    from Cons.IH [of "s\<lparr>damage_tracker := t\<rparr>"] Cons.prems(2) t(2) obtain t' where
      t': "rebuild_back (s\<lparr>damage_tracker := t\<rparr>) wids old_z new_z r = Some (s\<lparr>damage_tracker := t'\<rparr>)" "banded_ok t'"
      "\<forall>p d. pixel_at t (px p) (py p) = Some d \<and> (\<not> contains_point r p \<or> d_z d < old_z \<or> d_z d \<ge> new_z) \<longrightarrow>
        pixel_at t' (px p) (py p) = Some d" by auto
    with keep show ?thesis unfolding eq by blast
  qed
qed

text \<open>
  Lowering always gives the right stack.  The damage tracker keeps a region, renumbered, unless it lies in the
  rectangle of the window and names one of the windows that it passes.
\<close>

lemma lower_run:
  assumes ok: "screen_ok h fb s" and w: "iv_get (windows s) wid = Some w" and new: "win_z w < z" "z < length (visible s)"
  defines "f \<equiv> lowered (win_z w) z"
  shows "\<exists>s'. set_window_z_index s wid z = Some s' \<and> windows_ok h fb s' \<and> banded_ok (damage_tracker s') \<and> length (stack s') = length (stack s) \<and>
    (\<forall>j<length (stack s). f j < length (stack s) \<and> stack s' ! f j = stack s ! j) \<and> (\<forall>i<length (stack s). \<exists>j<length (stack s). i = f j) \<and>
    (\<forall>p d. pixel_at (damage_tracker s) (px p) (py p) = Some d \<and> (contains_point (win_rect w) p \<longrightarrow> d_z d \<le> win_z w \<or> d_z d > z) \<longrightarrow>
      pixel_at (damage_tracker s') (px p) (py p) = Some (d\<lparr>d_z := f (d_z d)\<rparr>))"
proof -
  have wo: "windows_ok h fb s" and bt: "banded_ok (damage_tracker s)" using ok by (simp_all add: screen_ok_def tracks_def)
  obtain v where v: "rotate_range True (win_z w) z (visible s) = Some v" "length v = length (visible s)" "set v = set (visible s)"
    "\<And>j. j < length (visible s) \<Longrightarrow> v ! f j = visible s ! j"
    unfolding f_def by (rule rotate_left [of "win_z w" z "visible s"]) (use new in auto)
  let ?s1 = "(z_index_update s f)\<lparr>visible := v\<rparr>"
  note tu = z_index_update_tracker [OF bt, of f]
  have "\<forall>i\<in>set (rev v). iv_get (windows ?s1) i \<noteq> None" using v(3) windows_okD(3) [OF wo] by (auto simp: z_index_update_get)
  from rebuild_back_keeps [OF _ this, of "win_z w" z "win_rect w"] tu(1) obtain t where
    t: "rebuild_back ?s1 (rev v) (win_z w) z (win_rect w) = Some (?s1\<lparr>damage_tracker := t\<rparr>)" "banded_ok t"
    "\<And>p d. pixel_at (damage_tracker (z_index_update s f)) (px p) (py p) = Some d \<Longrightarrow>
      \<not> contains_point (win_rect w) p \<or> d_z d < win_z w \<or> d_z d \<ge> z \<Longrightarrow> pixel_at t (px p) (py p) = Some d" by auto
  let ?s' = "?s1\<lparr>damage_tracker := t\<rparr>"
  have fl: "f j < length (visible s)" if "j < length (visible s)" for j using that new by (auto simp: f_def lowered_def)
  have "windows_ok h fb ?s' \<and> (\<forall>j<length (stack s). f j < length (stack s) \<and> stack ?s' ! f j = stack s ! j) \<and>
    (\<forall>i<length (stack s). \<exists>j<length (stack s). i = f j)"
    using permute_window [OF wo, of ?s' f] fl v(2-4) windows_okD(1) [OF wo] by (simp add: z_index_update_get)
  moreover have "set_window_z_index s wid z = Some ?s'"
    using w new v(1) t(1)
    by (auto simp: set_window_z_index_def Let_def z_index_update_get rebuild_damage_tracker_move_to_back_def f_def lowered_def [abs_def] min_def)
  moreover have "pixel_at t (px p) (py p) = Some (d\<lparr>d_z := f (d_z d)\<rparr>)"
    if "pixel_at (damage_tracker s) (px p) (py p) = Some d" "contains_point (win_rect w) p \<longrightarrow> d_z d \<le> win_z w \<or> d_z d > z" for p d
    using t(3) [of p "d\<lparr>d_z := f (d_z d)\<rparr>"] tu(2) [of "px p" "py p"] that new by (auto simp: f_def lowered_def)
  ultimately show ?thesis using t(2) v(2) by (intro exI [of _ ?s']) simp
qed

text \<open>
  The window hides none of those that it passes: where it is seen on the frame buffer, none of them is behind it.
\<close>

definition hides_none :: "surface \<Rightarrow> screen \<Rightarrow> window \<Rightarrow> nat \<Rightarrow> bool" where
  "hides_none fb s w z \<longleftrightarrow>
     (\<forall>p j. contains_point (s_rect fb) p \<and> front (stack s) p = win_z w \<and> win_z w < j \<and> j \<le> z \<and> j < length (stack s) \<longrightarrow>
        \<not> contains_point (s_rect (snd (stack s ! j))) p)"

lemma lower_ok:
  assumes ok: "screen_ok h fb s" and w: "iv_get (windows s) wid = Some w" and new: "win_z w < z" and clear: "hides_none fb s w z"
  shows "\<exists>s'. set_window_z_index s wid z = Some s' \<and> screen_ok h fb s'"
proof -
  have fb: "surface_ok h fb" and wo: "windows_ok h fb s" and tr: "tracks fb s" using ok by (simp_all add: screen_ok_def)
  note wp = window_place [OF wo w]
  define new_z where "new_z = min z (length (visible s) - 1)"
  have same: "set_window_z_index s wid z = set_window_z_index s wid new_z" by (simp add: set_window_z_index_def new_z_def Let_def)
  show ?thesis
  proof (cases "win_z w < new_z")
    case False
    then have "new_z = win_z w" using new wp(1) by (auto simp: new_z_def)
    then have "set_window_z_index s wid z = Some s" unfolding same using w wp(1) by (auto simp: set_window_z_index_def Let_def min_def)
    with ok show ?thesis by simp
  next
    case True
    have nl: "new_z < length (visible s)" "new_z \<le> z" using wp(1) by (auto simp: new_z_def)
    have len: "length (stack s) < USIZE_MAX" using windows_okD(4) [OF wo] by simp
    let ?f = "lowered (win_z w) new_z"
    from lower_run [OF ok w True nl(1)] obtain s' where s': "set_window_z_index s wid new_z = Some s'" "windows_ok h fb s'"
      "banded_ok (damage_tracker s')" "length (stack s') = length (stack s)"
      and nth: "\<And>j. j < length (stack s) \<Longrightarrow> ?f j < length (stack s) \<and> stack s' ! ?f j = stack s ! j"
      and surj: "\<And>i. i < length (stack s) \<Longrightarrow> \<exists>j<length (stack s). i = ?f j"
      and tk: "\<And>p d. pixel_at (damage_tracker s) (px p) (py p) = Some d \<Longrightarrow> contains_point (win_rect w) p \<longrightarrow> d_z d \<le> win_z w \<or> d_z d > new_z \<Longrightarrow>
        pixel_at (damage_tracker s') (px p) (py p) = Some (d\<lparr>d_z := ?f (d_z d)\<rparr>)" by blast
    have len': "length (stack s') < USIZE_MAX" using s'(4) len by simp
    have top: "?f USIZE_MAX = USIZE_MAX" using nl(1) windows_okD(4) [OF wo] by (simp add: lowered_def)
    have front: "front (stack s') p = ?f (front (stack s) p)" if p: "contains_point (s_rect fb) p" for p
    proof (cases rule: front_index [OF len, of p])
      case 1
      then show ?thesis using front_noneI [OF _ len', of p] surj nth s'(4) top by metis
    next
      case 2
      let ?k = "front (stack s) p"
      have "\<not> contains_point (s_rect (snd (stack s' ! i))) p" if i: "i < ?f ?k" for i
      proof -
        from nth [OF 2(1)] i surj [of i] obtain j where j: "j < length (stack s)" "i = ?f j" by auto
        have "j < ?k \<or> ?k = win_z w \<and> win_z w < j \<and> j \<le> z" using i j(2) nl(2) by (auto simp: lowered_def split: if_splits)
        then show ?thesis using 2(3) [of j] clear p j nth [OF j(1)] by (auto simp: hides_none_def)
      qed
      then show ?thesis using front_eqI [of "?f ?k" "stack s'" p] nth [OF 2(1)] 2(2) s'(4) len' by simp
    qed
    have "screen_ok h fb s'"
    proof (rule restack [OF ok fb s'(2,3), where c = "\<lambda>_. False" and z = "\<lambda>_. 0" and g = ?f])
      show "pixel_at (damage_tracker s') (px p) (py p) = Some (if False then \<lparr>d_z = 0, d_dirty = True\<rparr> else d\<lparr>d_z := ?f (d_z d)\<rparr>)"
        if "pixel_at (damage_tracker s) (px p) (py p) = Some d" "d_z d = front (stack s) p" for p d
        using tk [OF that(1)] that(2) front_le [of "win_z w" "stack s" p] wp(1,3) by (simp add: win_rect_def)
      show "compose h (stack s') p = compose h (stack s) p" if "contains_point (s_rect fb) p" for p
        unfolding compose_front [OF len] compose_front [OF len'] front [OF that]
        using nth top by (cases rule: front_index [OF len, of p]) (auto simp: less_imp_neq [OF less_trans [OF _ len]])
    qed (use front in simp_all)
    with s'(1) same show ?thesis by simp
  qed
qed


text \<open>Uncovering the place of a window: the first window behind it, at each point.\<close>

lemma put_twice: "\<not> keep \<lparr>d_z = a, d_dirty = True\<rparr> \<Longrightarrow> put_unless keep b (put_unless keep a x) = put_unless keep b x"
  by (auto simp: put_unless_def split: option.splits)

definition behind :: "window id_vec \<Rightarrow> nat \<Rightarrow> point \<Rightarrow> nat \<Rightarrow> bool" where
  "behind ws z p i \<longleftrightarrow> z < win_z (the (iv_get ws i)) \<and> contains_point (win_rect (the (iv_get ws i))) p"

definition uncover :: "window id_vec \<Rightarrow> nat \<Rightarrow> rect \<Rightarrow> nat list \<Rightarrow> point \<Rightarrow> damage option \<Rightarrow> damage option" where
  "uncover ws z r wids p d =
     (case find (behind ws z p) wids of
        Some i \<Rightarrow> if contains_point r p then put_unless (\<lambda>d. d_z d < z) (win_z (the (iv_get ws i))) d else d
      | None \<Rightarrow> d)"

lemma find_behindD: "find (behind ws z p) xs = Some i \<Longrightarrow> z < win_z (the (iv_get ws i))"
  by (auto simp: find_Some_iff behind_def)

lemma rebuild_move_eq:
  assumes "banded_ok (damage_tracker s)" "\<forall>i\<in>set wids. iv_get (windows s) i \<noteq> None"
  shows "\<exists>t. rebuild_move s wids z r = Some (s\<lparr>damage_tracker := t\<rparr>) \<and> banded_ok t \<and>
    (\<forall>p. pixel_at t (px p) (py p) = uncover (windows s) z r (rev wids) p (pixel_at (damage_tracker s) (px p) (py p)))"
  using assms
proof (induction wids arbitrary: s)
  case Nil
  then show ?case by (intro exI [of _ "damage_tracker s"]) (simp add: uncover_def)
next
  case (Cons i wids)
  from Cons.prems(2) obtain w where w: "iv_get (windows s) i = Some w" by auto
  show ?case
  proof (cases "win_z w \<le> z \<or> rect_intersect (win_rect w) r = None")
    case True
    then have eq: "rebuild_move s (i # wids) z r = rebuild_move s wids z r" using w by auto
    have "\<not> behind (windows s) z p i \<or> \<not> contains_point r p" for p
      using True intersect_None [of "win_rect w" r] w by (auto simp: behind_def)
    then have "uncover (windows s) z r (rev wids) p d = uncover (windows s) z r (rev (i # wids)) p d" for p d
      by (auto simp: uncover_def find_append split: option.splits)
    with Cons.IH [OF Cons.prems(1)] Cons.prems(2) show ?thesis unfolding eq by simp
  next
    case False
    then obtain q where q: "rect_intersect (win_rect w) r = Some q" by auto
    have "\<not> rect_is_empty q" using intersect_inside(1) [OF q] by (auto simp: inside_def rect_is_empty_def)
    from tracks_update [OF Cons.prems(1) this, of "put_unless (\<lambda>d. d_z d < z) (win_z w)"] obtain t where
      t: "banded_update (damage_tracker s) q (put_unless (\<lambda>d. d_z d < z) (win_z w)) = Some t" "banded_ok t"
      "\<And>p. pixel_at t (px p) (py p) = (if contains_point q p then put_unless (\<lambda>d. d_z d < z) (win_z w) (pixel_at (damage_tracker s) (px p) (py p))
        else pixel_at (damage_tracker s) (px p) (py p))" by blast
    have eq: "rebuild_move s (i # wids) z r = rebuild_move (s\<lparr>damage_tracker := t\<rparr>) wids z r" using w False q t(1) by simp
    from Cons.IH [of "s\<lparr>damage_tracker := t\<rparr>"] Cons.prems(2) t(2) obtain t' where
      t': "rebuild_move (s\<lparr>damage_tracker := t\<rparr>) wids z r = Some (s\<lparr>damage_tracker := t'\<rparr>)" "banded_ok t'"
      "\<And>p. pixel_at t' (px p) (py p) = uncover (windows s) z r (rev wids) p (pixel_at t (px p) (py p))" by auto
    have "contains_point q p \<longleftrightarrow> behind (windows s) z p i \<and> contains_point r p" for p
      using intersect_inside(3) [OF q] False w by (auto simp: behind_def)
    then have "pixel_at t' (px p) (py p) = uncover (windows s) z r (rev (i # wids)) p (pixel_at (damage_tracker s) (px p) (py p))" for p
      unfolding t'(3) t(3) using w False by (auto simp: uncover_def find_append put_twice split: option.splits dest: find_behindD)
    with t' show ?thesis unfolding eq by blast
  qed
qed

text \<open>The first window behind index \<open>z\<close> that contains a point, by its index.\<close>

lemma find_behind:
  assumes wo: "windows_ok h fb s"
  obtains "find (behind (windows s) z p) (visible s) = None"
      "\<And>k. z < k \<Longrightarrow> k < length (stack s) \<Longrightarrow> \<not> contains_point (s_rect (snd (stack s ! k))) p"
    | i j where "find (behind (windows s) z p) (visible s) = Some i" "win_z (the (iv_get (windows s) i)) = j" "z < j" "j < length (stack s)"
      "contains_point (s_rect (snd (stack s ! j))) p" "\<And>k. z < k \<Longrightarrow> k < j \<Longrightarrow> \<not> contains_point (s_rect (snd (stack s ! k))) p"
proof -
  have at: "win_z (the (iv_get (windows s) (visible s ! j))) = j" "behind (windows s) z p (visible s ! j) \<longleftrightarrow> z < j \<and> contains_point (s_rect (snd (stack s ! j))) p"
    if "j < length (visible s)" for j
    using windows_okD(5) [OF wo that] that by (auto simp: stack_nth win_rect_def behind_def)
  show thesis
  proof (cases "find (behind (windows s) z p) (visible s)")
    case None
    then have "\<not> behind (windows s) z p (visible s ! k)" if "k < length (visible s)" for k using that nth_mem by (metis find_None_iff)
    with None at(2) show thesis by (intro that(1)) simp_all
  next
    case (Some i)
    then obtain j where j: "j < length (visible s)" "i = visible s ! j" "behind (windows s) z p (visible s ! j)"
      "\<And>k. k < j \<Longrightarrow> \<not> behind (windows s) z p (visible s ! k)" by (auto simp: find_Some_iff)
    show thesis using Some at [OF j(1)] j at(2) by (intro that(2) [of i j]) auto
  qed
qed

lemma surface_drop_ok:
  assumes "map_option owned (h (s_image sf)) = Some True"
  shows "surface_drop h sf = Some (h(s_image sf := None))"
  using assms by (auto simp: surface_drop_def)

text \<open>A window gets another surface, with its image; the old image is released.\<close>

lemma replace_surface:
  assumes wo: "windows_ok h fb s" and w: "iv_get (windows s) wid = Some w" and fb: "surface_ok h fb"
    and new: "h (s_image sf) = None" "h1(s_image sf := None) = h" "surface_ok h1 sf" "map_option owned (h1 (s_image sf)) = Some True"
    and s': "windows s' = iv_write wid (w\<lparr>win_surface := sf\<rparr>) (windows s)" "visible s' = visible s"
  defines "h' \<equiv> h1(s_image (win_surface w) := None)"
  shows "windows_ok h' fb s'" "stack s' = (stack s)[win_z w := (wid, sf)]" "surface_ok h' fb" "\<And>p. pixel h' fb p = pixel h fb p"
    "\<And>p. pixel h' sf p = pixel h1 sf p"
    "\<And>j p. j < length (stack s) \<Longrightarrow> j \<noteq> win_z w \<Longrightarrow> pixel h' (snd (stack s ! j)) p = pixel h (snd (stack s ! j)) p"
proof -
  note wp = window_place [OF wo w]
  have get: "iv_get (windows s') = (iv_get (windows s))(wid \<mapsto> w\<lparr>win_surface := sf\<rparr>)" using iv_get_write [of "windows s" wid] w s'(1) by simp
  show st: "stack s' = (stack s)[win_z w := (wid, sf)]"
  proof (rule nth_equalityI)
    fix i assume "i < length (stack s')"
    moreover from this have "visible s ! i = wid \<longleftrightarrow> i = win_z w"
      using wp(1,2) windows_okD(2) [OF wo] by (simp add: s'(2)) (metis nth_eq_iff_index_eq)
    ultimately show "stack s' ! i = (stack s)[win_z w := (wid, sf)] ! i" using wp(1) by (auto simp: stack_nth get s'(2) nth_list_update)
  qed (simp add: s'(2))
  have old: "s_image (win_surface w) \<noteq> s_image fb" "s_image (win_surface w) \<noteq> s_image sf"
    using windows_okD(6) [OF wo wp(5)] new(1) by (auto simp: surface_ok_def)
  have eq: "h' a = h a" if "a \<noteq> s_image sf" "a \<noteq> s_image (win_surface w)" for a using that new(2) by (metis fun_upd_other h'_def)
  have keep: "surface_ok h' t" "pixel h' t p = pixel h t p" "map_option owned (h' (s_image t)) = map_option owned (h (s_image t))"
    if "surface_ok h t" "s_image t \<noteq> s_image (win_surface w)" for t p
  proof -
    have "s_image t \<noteq> s_image sf" using that(1) new(1) by (auto simp: surface_ok_def)
    then show "surface_ok h' t" "pixel h' t p = pixel h t p" "map_option owned (h' (s_image t)) = map_option owned (h (s_image t))"
      using eq [OF _ that(2)] that(1) by (simp_all add: surface_ok_def pixel_def)
  qed
  show "surface_ok h' fb" "\<And>p. pixel h' fb p = pixel h fb p" using keep [OF fb] old(1) by auto
  show "\<And>p. pixel h' sf p = pixel h1 sf p" using old(2) by (simp add: pixel_def h'_def)
  have other: "surface_ok h (snd (stack s ! j)) \<and> s_image (snd (stack s ! j)) \<noteq> s_image fb \<and> s_image (snd (stack s ! j)) \<noteq> s_image sf \<and>
      s_image (snd (stack s ! j)) \<noteq> s_image (win_surface w) \<and> map_option owned (h (s_image (snd (stack s ! j)))) = Some True"
    if j: "j < length (stack s)" "j \<noteq> win_z w" for j
  proof -
    have "s_image (snd (stack s ! j)) \<noteq> s_image (snd (stack s ! win_z w))"
      using windows_okD(7) [OF wo] j wp(1) by (simp add: distinct_conv_nth)
    moreover have "(fst (stack s ! j), snd (stack s ! j)) \<in> set (stack s)" using j(1) by simp
    ultimately show ?thesis using windows_okD(6,8) [OF wo] wp(3) new(1) by (fastforce simp: surface_ok_def)
  qed
  then show "\<And>j p. j < length (stack s) \<Longrightarrow> j \<noteq> win_z w \<Longrightarrow> pixel h' (snd (stack s ! j)) p = pixel h (snd (stack s ! j)) p"
    using keep(2) by blast
  have "surface_ok h' t \<and> s_image t \<noteq> s_image fb \<and> map_option owned (h' (s_image t)) = Some True" if t: "(i, t) \<in> set (stack s')" for i t
  proof -
    from t obtain j where j: "j < length (stack s)" "(i, t) = (stack s)[win_z w := (wid, sf)] ! j" by (auto simp: st in_set_conv_nth)
    have "surface_ok h' sf" "map_option owned (h' (s_image sf)) = Some True" "s_image sf \<noteq> s_image fb"
      using new(1,3,4) old fb by (auto simp: h'_def surface_ok_def)
    with j keep(1,3) [of t] other [OF j(1)] show ?thesis by (cases "j = win_z w") (auto dest: sym)
  qed
  moreover have "distinct (map (s_image \<circ> snd) (stack s'))" unfolding st map_update
    using windows_okD(7) [OF wo] other wp(1) by (auto simp: distinct_conv_nth nth_list_update) metis
  moreover have "\<exists>v. iv_get (windows s') (visible s ! i) = Some v \<and> win_z v = i" if "i < length (visible s)" for i
    using windows_okD(5) [OF wo that] w by (auto simp: get)
  moreover have "iv_ok (windows s')" using iv_ok_write [OF windows_okD(1) [OF wo], of wid] w by (simp add: s'(1))
  ultimately show "windows_ok h' fb s'" unfolding windows_ok_def
    using windows_okD(2,3,4) [OF wo] w by (auto simp: s'(2) get)
qed


text \<open>Moving always gives the right stack, if there is memory; the damage tracker is changed by uncovering and marking.\<close>

lemma move_run:
  assumes ok: "screen_ok h fb s" and w: "iv_get (windows s) wid = Some w" and r: "in_range rect" "\<not> rect_is_empty rect"
    and sound: "\<And>n a junk. kernel_alloc h n = Some (a, junk) \<Longrightarrow> h a = None \<and> length junk = n"
    and al: "surface_new kernel_alloc h rect WHITE = Some (sf, h1)"
  shows "\<exists>s' h'. move_window kernel_alloc s wid rect h = Some (s', h') \<and> windows_ok h' fb s' \<and> stack s' = (stack s)[win_z w := (wid, sf)] \<and>
    banded_ok (damage_tracker s') \<and> surface_ok h' fb \<and> (\<forall>p. pixel h' fb p = pixel h fb p) \<and> (\<forall>p. pixel h' sf p = pixel h1 sf p) \<and>
    (\<forall>j p. j < length (stack s) \<longrightarrow> j \<noteq> win_z w \<longrightarrow> pixel h' (snd (stack s ! j)) p = pixel h (snd (stack s ! j)) p) \<and>
    (\<forall>p. pixel_at (damage_tracker s') (px p) (py p) =
      (let d = uncover (windows s) (win_z w) (win_rect w) (visible s) p (pixel_at (damage_tracker s) (px p) (py p))
       in if contains_point rect p then put_unless (\<lambda>d. d_z d < win_z w) (win_z w) d else d))"
proof -
  have fb: "surface_ok h fb" and wo: "windows_ok h fb s" and bt: "banded_ok (damage_tracker s)"
    using ok by (simp_all add: screen_ok_def tracks_def)
  note wp = window_place [OF wo w]
  have sn: "s_rect sf = rect" "h (s_image sf) = None" "surface_ok h1 sf" "h1(s_image sf := None) = h"
    "map_option owned (h1 (s_image sf)) = Some True" using surface_new_ok [OF r sound al] by blast+
  have "\<forall>i\<in>set (rev (visible s)). iv_get (windows s) i \<noteq> None" using windows_okD(3) [OF wo] by auto
  from rebuild_move_eq [OF bt this, of "win_z w" "win_rect w"] obtain t where
    t: "rebuild_move s (rev (visible s)) (win_z w) (win_rect w) = Some (s\<lparr>damage_tracker := t\<rparr>)" "banded_ok t"
    "\<And>p. pixel_at t (px p) (py p) = uncover (windows s) (win_z w) (win_rect w) (visible s) p (pixel_at (damage_tracker s) (px p) (py p))" by auto
  let ?w = "w\<lparr>win_surface := sf\<rparr>" and ?h = "h1(s_image (win_surface w) := None)"
  let ?s = "s\<lparr>damage_tracker := t, windows := iv_write wid ?w (windows s)\<rparr>"
  have get: "iv_get (windows ?s) wid = Some ?w" using w iv_get_write [of "windows s" wid] by simp
  from mark_dirty_window_eq [OF _ get, of rect] t(2) sn(1) obtain t' where
    t': "mark_dirty_window ?s wid rect = Some (?s\<lparr>damage_tracker := t'\<rparr>)" "banded_ok t'"
    "\<And>p. pixel_at t' (px p) (py p) = (if contains_point rect p then put_unless (\<lambda>d. d_z d < win_z w) (win_z w) (pixel_at t (px p) (py p)) else pixel_at t (px p) (py p))"
    by (auto simp: win_rect_def)
  let ?s' = "?s\<lparr>damage_tracker := t'\<rparr>"
  note rs = replace_surface [OF wo w fb sn(2,4,3,5), of ?s']
  have "s_image (win_surface w) \<noteq> s_image sf" using wp(4) sn(2) by (auto simp: surface_ok_def)
  then have "h1 (s_image (win_surface w)) = h (s_image (win_surface w))" using sn(4) by (metis fun_upd_other)
  then have "surface_drop h1 (win_surface w) = Some ?h" using windows_okD(8) [OF wo wp(5)] by (intro surface_drop_ok) simp
  then have "move_window kernel_alloc s wid rect h = Some (?s', ?h)"
    using w t(1) al t'(1) by (simp add: move_window_def rebuild_damage_tracker_move_def iv_get_mut_eq)
  with rs t' t(3) show ?thesis by (intro exI [of _ ?s'] exI [of _ ?h]) (simp add: Let_def)
qed

text \<open>
  The place that the window leaves is covered: each point of the frame buffer where the window was seen lies in the new rectangle
  or in a window behind it.
\<close>

definition leaves_covered :: "surface \<Rightarrow> screen \<Rightarrow> window \<Rightarrow> rect \<Rightarrow> bool" where
  "leaves_covered fb s w new_rect \<longleftrightarrow>
     (\<forall>p. contains_point (s_rect fb) p \<and> front (stack s) p = win_z w \<and> \<not> contains_point new_rect p \<longrightarrow>
        (\<exists>j. win_z w < j \<and> j < length (stack s) \<and> contains_point (s_rect (snd (stack s ! j))) p))"

lemma move_ok:
  assumes ok: "screen_ok h fb s" and w: "iv_get (windows s) wid = Some w" and r: "in_range rect" "\<not> rect_is_empty rect"
    and sound: "\<And>n a junk. kernel_alloc h n = Some (a, junk) \<Longrightarrow> h a = None \<and> length junk = n"
    and al: "surface_new kernel_alloc h rect WHITE = Some (sf, h1)" and covered: "leaves_covered fb s w rect"
  shows "\<exists>s' h'. move_window kernel_alloc s wid rect h = Some (s', h') \<and> screen_ok h' fb s'"
proof -
  have wo: "windows_ok h fb s" using ok by (simp add: screen_ok_def)
  note wp = window_place [OF wo w]
  have len: "length (stack s) < USIZE_MAX" using windows_okD(4) [OF wo] by simp
  have sf: "s_rect sf = rect" using surface_new_ok [OF r sound al] by blast
  from move_run [OF ok w r sound al] obtain s' h' where s': "move_window kernel_alloc s wid rect h = Some (s', h')" "surface_ok h' fb"
      "windows_ok h' fb s'" "banded_ok (damage_tracker s')" "\<And>p. pixel h' fb p = pixel h fb p"
    and st: "stack s' = (stack s)[win_z w := (wid, sf)]"
    and px: "\<And>j p. j < length (stack s) \<Longrightarrow> j \<noteq> win_z w \<Longrightarrow> pixel h' (snd (stack s ! j)) p = pixel h (snd (stack s ! j)) p"
    and tk: "\<And>p. pixel_at (damage_tracker s') (px p) (py p) =
      (let d = uncover (windows s) (win_z w) (win_rect w) (visible s) p (pixel_at (damage_tracker s) (px p) (py p))
       in if contains_point rect p then put_unless (\<lambda>d. d_z d < win_z w) (win_z w) d else d)" by blast
  have len': "length (stack s') < USIZE_MAX" using st len by simp
  have nth: "stack s' ! j = (if j = win_z w then (wid, sf) else stack s ! j)" if "j < length (stack s)" for j using that by (simp add: st)
  let ?k = "front (stack s)"
  let ?c = "\<lambda>p. win_z w \<le> ?k p \<and> (contains_point rect p \<or> contains_point (win_rect w) p)"
  have before: "front (stack s') p = ?k p" if "?k p < win_z w" for p
    using that wp(1) front_index [OF len, of p] len' nth
    by (cases rule: front_index [OF len, of p]) (auto intro!: front_eqI simp: st len)
  have into: "front (stack s') p = win_z w" if "win_z w \<le> ?k p" "contains_point rect p" for p
  proof (rule front_eqI)
    show "\<not> contains_point (s_rect (snd (stack s' ! i))) p" if "i < win_z w" for i
      using that \<open>win_z w \<le> ?k p\<close> wp(1) nth [of i] by (cases rule: front_index [OF len, of p]) auto
  qed (use wp(1) that sf nth len' in \<open>auto simp: st\<close>)
  have left: "\<exists>i. find (behind (windows s) (win_z w) p) (visible s) = Some i \<and> front (stack s') p = win_z (the (iv_get (windows s) i)) \<and> win_z w < win_z (the (iv_get (windows s) i))"
    if p: "contains_point (s_rect fb) p" "?k p = win_z w" "\<not> contains_point rect p" for p
  proof (cases rule: find_behind [OF wo, of "win_z w" p])
    case 1
    with covered p show ?thesis by (auto simp: leaves_covered_def)
  next
    case (2 i j)
    have "front (stack s') p = j"
    proof (rule front_eqI)
      show "\<not> contains_point (s_rect (snd (stack s' ! k))) p" if "k < j" for k
        using 2(4,6) that p(2,3) sf nth [of k]
        by (cases rule: front_index [OF len, of p]; cases k "win_z w" rule: linorder_cases) (use len in auto)
    qed (use 2 nth [of j] len' in \<open>auto simp: st\<close>)
    with 2 show ?thesis by blast
  qed
  have away: "front (stack s') p = ?k p" if "win_z w \<le> ?k p" "\<not> contains_point rect p" "\<not> contains_point (win_rect w) p" for p
  proof (cases rule: front_index [OF len, of p])
    case 1
    then show ?thesis using front_noneI [of "stack s'" p] nth sf that(2) len' by (simp add: st nth_list_update)
  next
    case 2
    have "?k p \<noteq> win_z w" using 2(2) that(3) wp(3) by (auto simp: win_rect_def)
    then show ?thesis using 2 nth sf that(2) len' by (intro front_eqI) (auto simp: st nth_list_update)
  qed
  have "screen_ok h' fb s'"
  proof (rule restack [OF ok s'(2-4), where c = ?c and z = "front (stack s')" and g = id])
    fix p d assume p: "contains_point (s_rect fb) p" "pixel_at (damage_tracker s) (px p) (py p) = Some d" "d_z d = ?k p"
    have "?k p \<le> win_z w" if "contains_point (win_rect w) p" using front_le [of "win_z w" "stack s" p] wp(1,3) that by (simp add: win_rect_def)
    then show "pixel_at (damage_tracker s') (px p) (py p) = Some (if ?c p then \<lparr>d_z = front (stack s') p, d_dirty = True\<rparr> else d\<lparr>d_z := id (d_z d)\<rparr>)"
      unfolding tk Let_def using p(2,3) into [of p] left [OF p(1)]
      by (cases "contains_point rect p"; cases "contains_point (win_rect w) p") (auto simp: uncover_def put_unless_def split: option.splits dest: find_behindD)
  next
    show "front (stack s') p = (if ?c p then front (stack s') p else id (?k p))" for p
      using before [of p] away [of p] by (cases "?k p < win_z w") auto
  next
    fix p assume c: "\<not> ?c p"
    have fr: "front (stack s') p = ?k p" using c before [of p] away [of p] by (cases "?k p < win_z w") auto
    have "?k p \<noteq> win_z w" using c wp(1,3) len by (cases rule: front_index [OF len, of p]) (auto simp: win_rect_def)
    then show "compose h' (stack s') p = compose h (stack s) p"
      unfolding compose_front [OF len] compose_front [OF len'] fr
      using px nth by (cases rule: front_index [OF len, of p]) auto
  qed (use s'(5) in simp_all)
  with s'(1) show ?thesis by blast
qed

text \<open>Both conditions are necessary: without them, the damage tracker names the window where another, or none, is in front.\<close>

lemma lower_exact:
  assumes ok: "screen_ok h fb s" and w: "iv_get (windows s) wid = Some w" and new: "win_z w < z"
  shows "\<exists>s'. set_window_z_index s wid z = Some s' \<and> (screen_ok h fb s' \<longleftrightarrow> hides_none fb s w z)"
proof (cases "hides_none fb s w z")
  case True
  then show ?thesis using lower_ok [OF ok w new] by blast
next
  case False
  have wo: "windows_ok h fb s" and tr: "tracks fb s" using ok by (simp_all add: screen_ok_def)
  from False obtain p j where p: "contains_point (s_rect fb) p" "front (stack s) p = win_z w" and
    j: "win_z w < j" "j \<le> z" "j < length (stack s)" "contains_point (s_rect (snd (stack s ! j))) p" by (auto simp: hides_none_def)
  define new_z where "new_z = min z (length (visible s) - 1)"
  let ?f = "lowered (win_z w) new_z"
  have same: "set_window_z_index s wid z = set_window_z_index s wid new_z" by (simp add: set_window_z_index_def new_z_def Let_def)
  have n: "win_z w < new_z" "new_z < length (visible s)" "j \<le> new_z" using j by (auto simp: new_z_def)
  from tr p obtain d where d: "pixel_at (damage_tracker s) (px p) (py p) = Some d" "d_z d = win_z w" by (auto simp: tracks_def)
  from lower_run [OF ok w n(1,2)] obtain s' where s': "set_window_z_index s wid new_z = Some s'" "length (stack s') = length (stack s)"
    and nth: "\<forall>j<length (stack s). ?f j < length (stack s) \<and> stack s' ! ?f j = stack s ! j"
    and tk: "\<forall>p d. pixel_at (damage_tracker s) (px p) (py p) = Some d \<and> (contains_point (win_rect w) p \<longrightarrow> d_z d \<le> win_z w \<or> d_z d > new_z) \<longrightarrow>
      pixel_at (damage_tracker s') (px p) (py p) = Some (d\<lparr>d_z := ?f (d_z d)\<rparr>)" by blast
  have "front (stack s') p \<le> ?f j" using front_le [of "?f j" "stack s'" p] s'(2) nth j(3,4) by simp
  moreover have "?f j < new_z" "?f (d_z d) = new_z" using j n d(2) by (auto simp: lowered_def)
  ultimately have "\<not> tracks fb s'" using p(1) tk [rule_format, of p d] d by (auto simp: tracks_def)
  then show ?thesis using False s'(1) same by (auto simp: screen_ok_def)
qed

lemma move_exact:
  assumes ok: "screen_ok h fb s" and w: "iv_get (windows s) wid = Some w" and r: "in_range rect" "\<not> rect_is_empty rect"
    and sound: "\<And>n a junk. kernel_alloc h n = Some (a, junk) \<Longrightarrow> h a = None \<and> length junk = n"
    and al: "surface_new kernel_alloc h rect WHITE = Some (sf, h1)"
  shows "\<exists>s' h'. move_window kernel_alloc s wid rect h = Some (s', h') \<and> (screen_ok h' fb s' \<longleftrightarrow> leaves_covered fb s w rect)"
proof (cases "leaves_covered fb s w rect")
  case True
  then show ?thesis using move_ok [OF ok w r sound al] by blast
next
  case False
  have wo: "windows_ok h fb s" and tr: "tracks fb s" using ok by (simp_all add: screen_ok_def)
  note wp = window_place [OF wo w]
  have len: "length (stack s) < USIZE_MAX" using windows_okD(4) [OF wo] by simp
  have sf: "s_rect sf = rect" using surface_new_ok [OF r sound al] by blast
  from False obtain p where p: "contains_point (s_rect fb) p" "front (stack s) p = win_z w" "\<not> contains_point rect p"
    "\<And>j. win_z w < j \<Longrightarrow> j < length (stack s) \<Longrightarrow> \<not> contains_point (s_rect (snd (stack s ! j))) p" by (auto simp: leaves_covered_def)
  from tr p obtain d where d: "pixel_at (damage_tracker s) (px p) (py p) = Some d" "d_z d = win_z w" by (auto simp: tracks_def)
  from move_run [OF ok w r sound al] obtain s' h' where s': "move_window kernel_alloc s wid rect h = Some (s', h')"
    "stack s' = (stack s)[win_z w := (wid, sf)]" "\<And>p. pixel_at (damage_tracker s') (px p) (py p) =
      (let d = uncover (windows s) (win_z w) (win_rect w) (visible s) p (pixel_at (damage_tracker s) (px p) (py p))
       in if contains_point rect p then put_unless (\<lambda>d. d_z d < win_z w) (win_z w) d else d)" by blast
  have none: "\<not> contains_point (s_rect (snd (stack s' ! i))) p" if "i < length (stack s')" for i
    using that p(2-4) s'(2) sf wp(1) len
    by (cases rule: front_index [OF len, of p]; cases i "win_z w" rule: linorder_cases) auto
  have "front (stack s') p = USIZE_MAX" by (rule front_noneI [OF none]) (use s'(2) len in simp_all)
  moreover have "pixel_at (damage_tracker s') (px p) (py p) = Some d"
    using s'(3) [of p] p(3,4) d(1) by (cases rule: find_behind [OF wo, of "win_z w" p]) (auto simp: uncover_def)
  ultimately have "\<not> tracks fb s'" using p(1) d(2) wp(1) len by (auto simp: tracks_def)
  then show ?thesis using False s'(1) by (auto simp: screen_ok_def)
qed

text \<open>Lowering, on the stack.\<close>

lemma lowered_list:
  assumes "old_z \<le> new_z" "new_z < length xs" "length v = length xs" "\<And>j. j < length xs \<Longrightarrow> v ! lowered old_z new_z j = xs ! j"
    "\<And>i. i < length xs \<Longrightarrow> \<exists>j<length xs. i = lowered old_z new_z j"
  shows "\<exists>as bs cs. xs = as @ xs ! old_z # bs @ cs \<and> v = as @ bs @ xs ! old_z # cs \<and> length (as @ bs) = new_z"
proof -
  obtain u where u: "length u = length xs" "\<And>j. j < length xs \<Longrightarrow> u ! lowered old_z new_z j = xs ! j"
    "\<exists>as bs cs. xs = as @ xs ! old_z # bs @ cs \<and> u = as @ bs @ xs ! old_z # cs \<and> length (as @ bs) = new_z"
  proof -
    let ?A = "take old_z xs" and ?B = "take (new_z - old_z) (drop (Suc old_z) xs)" and ?C = "drop (Suc new_z) xs"
    have "drop (Suc old_z) xs = ?B @ ?C" using append_take_drop_id [of "new_z - old_z" "drop (Suc old_z) xs"] assms(1) by simp
    then have xs: "xs = ?A @ xs ! old_z # ?B @ ?C" using id_take_nth_drop [of old_z xs] assms by simp
    let ?u = "?A @ ?B @ xs ! old_z # ?C"
    have "?u ! lowered old_z new_z j = xs ! j" if "j < length xs" for j
      using assms that by (auto simp: lowered_def nth_append nth_Cons' min_def)
    moreover have "length ?u = length xs" "length (?A @ ?B) = new_z" using assms by simp_all
    ultimately show thesis using xs by (intro that [of ?u]) blast+
  qed
  have "v = u" using assms(3-5) u(1,2) by (intro nth_equalityI) (metis, metis)
  with u(3) show ?thesis by blast
qed

lemma lower_stack:
  assumes ok: "screen_ok h fb s" and w: "iv_get (windows s) wid = Some w" and new: "win_z w < z"
  shows "\<exists>s' xs ys zs. set_window_z_index s wid z = Some s' \<and> length (xs @ ys) = min z (length (stack s) - 1) \<and>
    stack s = xs @ (wid, win_surface w) # ys @ zs \<and> stack s' = xs @ ys @ (wid, win_surface w) # zs"
proof -
  have wo: "windows_ok h fb s" using ok by (simp add: screen_ok_def)
  note wp = window_place [OF wo w]
  define new_z where "new_z = min z (length (visible s) - 1)"
  have same: "set_window_z_index s wid z = set_window_z_index s wid new_z" by (simp add: set_window_z_index_def new_z_def Let_def)
  have nl: "new_z < length (visible s)" using wp(1) by (auto simp: new_z_def)
  show ?thesis
  proof (cases "win_z w < new_z")
    case False
    then have e: "new_z = win_z w" using new wp(1) by (auto simp: new_z_def)
    then have "set_window_z_index s wid z = Some s" unfolding same using w wp(1) by (auto simp: set_window_z_index_def Let_def min_def)
    moreover have "stack s = take new_z (stack s) @ (wid, win_surface w) # drop (Suc new_z) (stack s)"
      using id_take_nth_drop [of new_z "stack s"] wp(3) e nl by simp
    ultimately show ?thesis using nl
      by (intro exI [of _ s] exI [of _ "take new_z (stack s)"] exI [of _ "[]"] exI [of _ "drop (Suc new_z) (stack s)"]) (simp add: new_z_def)
  next
    case True
    from lower_run [OF ok w True nl] obtain s' where s': "set_window_z_index s wid new_z = Some s'" "length (stack s') = length (stack s)"
      "\<And>j. j < length (stack s) \<Longrightarrow> stack s' ! lowered (win_z w) new_z j = stack s ! j"
      "\<And>i. i < length (stack s) \<Longrightarrow> \<exists>j<length (stack s). i = lowered (win_z w) new_z j" by blast
    from lowered_list [OF _ _ s'(2-4)] True nl wp(3) obtain xs ys zs where
      "stack s = xs @ (wid, win_surface w) # ys @ zs" "stack s' = xs @ ys @ (wid, win_surface w) # zs" "length (xs @ ys) = new_z" by auto
    with s'(1) same show ?thesis unfolding new_z_def stack_length by metis
  qed
qed

section \<open>Properties\<close>

text \<open>
  The states that a client reaches by creating windows, drawing into them and marking what it drew, marking parts of
  the screen, changing the order of the windows, moving them to another place, and updating the frame buffer.  A window is lowered
  only if it hides none of the windows that it passes (\<open>hides_none\<close>), and moved only if the place that it leaves is covered
  (\<open>leaves_covered\<close>): by \<open>lower_exact\<close> and \<open>move_exact\<close>, these are exactly the cases in which the code keeps the damage tracker
  right.  The allocator returns unused memory of the right size, or fails.
\<close>

definition alloc_sound :: "(images \<Rightarrow> nat \<Rightarrow> (nat \<times> rgba list) option) \<Rightarrow> bool" where
  "alloc_sound kernel_alloc \<longleftrightarrow> (\<forall>h n a junk. kernel_alloc h n = Some (a, junk) \<longrightarrow> h a = None \<and> length junk = n)"

inductive screen_run :: "(images \<Rightarrow> nat \<Rightarrow> (nat \<times> rgba list) option) \<Rightarrow> surface \<Rightarrow> images \<Rightarrow> screen \<Rightarrow> bool"
  for kernel_alloc :: "images \<Rightarrow> nat \<Rightarrow> (nat \<times> rgba list) option" and fb :: surface where
  init: "surface_ok h fb \<Longrightarrow> screen_new (s_rect fb) = Some s \<Longrightarrow> screen_run kernel_alloc fb h s"
| window: "screen_run kernel_alloc fb h s \<Longrightarrow> in_range rect \<Longrightarrow> \<not> rect_is_empty rect \<Longrightarrow> length (visible s) + 1 < USIZE_MAX \<Longrightarrow>
    new_window kernel_alloc s rect z h = Some (wid, s', h') \<Longrightarrow> screen_run kernel_alloc fb h' s'"
| draw: "screen_run kernel_alloc fb h s \<Longrightarrow> iv_get (windows s) wid = Some w \<Longrightarrow> paints h (win_surface w) u h' \<Longrightarrow>
    (\<And>q. u q \<noteq> None \<Longrightarrow> contains_point r q) \<Longrightarrow> mark_dirty_window s wid r = Some s' \<Longrightarrow> screen_run kernel_alloc fb h' s'"
| mark: "screen_run kernel_alloc fb h s \<Longrightarrow> \<not> rect_is_empty r \<Longrightarrow> mark_dirty_beyond s z r = Some s' \<Longrightarrow> screen_run kernel_alloc fb h s'"
| raise: "screen_run kernel_alloc fb h s \<Longrightarrow> iv_get (windows s) wid = Some w \<Longrightarrow> z \<le> win_z w \<Longrightarrow> length (visible s) + 1 < USIZE_MAX \<Longrightarrow>
    set_window_z_index s wid z = Some s' \<Longrightarrow> screen_run kernel_alloc fb h s'"
| lower: "screen_run kernel_alloc fb h s \<Longrightarrow> iv_get (windows s) wid = Some w \<Longrightarrow> win_z w < z \<Longrightarrow> hides_none fb s w z \<Longrightarrow>
    set_window_z_index s wid z = Some s' \<Longrightarrow> screen_run kernel_alloc fb h s'"
| move: "screen_run kernel_alloc fb h s \<Longrightarrow> iv_get (windows s) wid = Some w \<Longrightarrow> in_range rect \<Longrightarrow> \<not> rect_is_empty rect \<Longrightarrow>
    leaves_covered fb s w rect \<Longrightarrow> move_window kernel_alloc s wid rect h = Some (s', h') \<Longrightarrow> screen_run kernel_alloc fb h' s'"
| update: "screen_run kernel_alloc fb h s \<Longrightarrow> screen_update s fb h = Some (s', h') \<Longrightarrow> screen_run kernel_alloc fb h' s'"

lemma screen_run_ok: "screen_run kernel_alloc fb h s \<Longrightarrow> alloc_sound kernel_alloc \<Longrightarrow> screen_ok h fb s"
proof (induction rule: screen_run.induct)
  case (init h s)
  then show ?case using new_ok [of h fb] by auto
next
  case (window h s rect z wid s' h')
  from window.hyps(5) obtain sf h1 where al: "surface_new kernel_alloc h rect WHITE = Some (sf, h1)"
    by (auto simp: new_window_def Let_def split: bind_splits)
  have sound: "h a = None \<and> length junk = n" if "kernel_alloc h n = Some (a, junk)" for n a junk
    using window.prems that by (auto simp: alloc_sound_def)
  from new_window_ok [OF window.IH [OF window.prems] window.hyps(2-4) sound al, of z] window.hyps(5) show ?case by auto
next
  case (draw h s wid w u h' r s')
  from draw_ok [OF draw.IH [OF draw.prems] draw.hyps(2,3), of r] draw.hyps(4,5) show ?case by auto
next
  case (mark h s r z s')
  from mark_dirty_beyond_ok [OF mark.IH [OF mark.prems] mark.hyps(2), of z] mark.hyps(3) show ?case by auto
next
  case (raise h s wid w z s')
  from raise_ok [OF raise.IH [OF raise.prems] raise.hyps(2-4)] raise.hyps(5) show ?case by auto
next
  case (lower h s wid w z s')
  from lower_ok [OF lower.IH [OF lower.prems] lower.hyps(2-4)] lower.hyps(5) show ?case by auto
next
  case (move h s wid w rect s' h')
  have sound: "h a = None \<and> length junk = n" if "kernel_alloc h n = Some (a, junk)" for n a junk
    using move.prems that by (auto simp: alloc_sound_def)
  from move.hyps(6) obtain sf h1 where al: "surface_new kernel_alloc h rect WHITE = Some (sf, h1)"
    by (auto simp: move_window_def split: bind_splits)
  from move_ok [OF move.IH [OF move.prems] move.hyps(2-4) sound al move.hyps(5)] move.hyps(6) show ?case by auto
next
  case (update h s s' h')
  from update_ok [OF update.IH [OF update.prems]] update.hyps(2) show ?case by auto
qed

text \<open>A small screen.\<close>

definition demo_alloc :: "images \<Rightarrow> nat \<Rightarrow> (nat \<times> rgba list) option" where
  "demo_alloc h n = (if h 1 = None then Some (1, replicate n BLACK) else None)"

lemma demo_alloc_sound: "alloc_sound demo_alloc"
  by (auto simp: alloc_sound_def demo_alloc_def split: if_splits)

lemma demo_window:
  "\<exists>s sf h'. screen_run demo_alloc demo_surface demo_images s \<and> visible s = [] \<and> stack s = [] \<and>
     surface_new demo_alloc demo_images (rect_new 0 0 1 1) WHITE = Some (sf, h')"
proof -
  from new_ok [OF demo_surface_ok(1)] obtain s where s: "screen_new (s_rect demo_surface) = Some s" "stack s = []" by blast
  have "surface_new demo_alloc demo_images (rect_new 0 0 1 1) WHITE \<noteq> None"
    by (simp add: surface_new_def rect_width_def rect_height_def as_usize_def usize_check_def demo_alloc_def demo_images_def
      fill_unsafe_def fill_row_def image_ptr_def write_run_def Let_def)
  with s screen_run.init [OF demo_surface_ok(1) s(1), of demo_alloc] show ?thesis by (auto simp: stack_def)
qed

text \<open>
  C3.  In every state of the screen that is reached by the operations above, updating the frame buffer returns, and makes
  each of its pixels show the colour of the window in front there, or white where there is no window; the windows and their
  contents do not change.  The operations are creating, drawing, marking, raising and updating without restriction, lowering a
  window that hides none of those it passes, and moving a window whose old place stays covered; for other lowerings and
  moves the tracker is wrong afterwards (\<open>lower_exact\<close>, \<open>move_exact\<close>).
\<close>

theorem screen_shows_windows:
  assumes "screen_run kernel_alloc fb h s" "alloc_sound kernel_alloc"
  shows "\<exists>s' h'. screen_update s fb h = Some (s', h') \<and> stack s' = stack s \<and>
    (\<forall>p. contains_point (s_rect fb) p \<longrightarrow> pixel h' fb p = compose h (stack s) p) \<and> (\<forall>a. a \<noteq> s_image fb \<longrightarrow> h' a = h a)"
  using update_ok [OF screen_run_ok [OF assms]] by blast

lemma screen_shows_windows_witness:
  "\<exists>s s' h'. screen_run demo_alloc demo_surface demo_images s \<and> screen_update s demo_surface demo_images = Some (s', h') \<and>
     pixel demo_images demo_surface (point_new 0 0) = RED \<and> pixel h' demo_surface (point_new 0 0) = WHITE"
proof -
  from demo_window obtain s where s: "screen_run demo_alloc demo_surface demo_images s" "stack s = []" by blast
  from screen_shows_windows [OF s(1) demo_alloc_sound] s(2) obtain s' h' where
    u: "screen_update s demo_surface demo_images = Some (s', h')"
      "\<And>p. contains_point (s_rect demo_surface) p \<Longrightarrow> pixel h' demo_surface p = compose demo_images [] p" by auto
  have "pixel h' demo_surface (point_new 0 0) = WHITE" "pixel demo_images demo_surface (point_new 0 0) = RED"
    by (subst u(2); simp add: demo_surface_def from_raw_def contains_point_def compose_def)
      (simp add: pixel_def offset_def demo_surface_def demo_images_def from_raw_def)
  with s(1) u(1) show ?thesis by blast
qed

text \<open>
  C37.  In every reached state the operations change the stack of windows as specified, and panic only for lack of memory.  If
  the allocator gives memory for the pixels of the rectangle, a new window, white, is put at its position in the stack, and moving a
  window gives it a new white surface in its place of the stack; without that memory, both panic.  A window that is raised or
  lowered passes exactly those between, and marking keeps the stack.
\<close>

theorem screen_operations:
  assumes "screen_run kernel_alloc fb h s" "alloc_sound kernel_alloc" "length (visible s) + 1 < USIZE_MAX"
  shows "(in_range rect \<and> \<not> rect_is_empty rect \<longrightarrow>
      (case kernel_alloc h (rect_pixels rect) of
         None \<Rightarrow> new_window kernel_alloc s rect z h = None \<and> move_window kernel_alloc s wid rect h = None
       | Some _ \<Rightarrow> (\<exists>new sf s' h'. new_window kernel_alloc s rect z h = Some (new, s', h') \<and> s_rect sf = rect \<and>
             (\<forall>q. contains_point rect q \<longrightarrow> pixel h' sf q = WHITE) \<and> stack s' = take z (stack s) @ (new, sf) # drop z (stack s)) \<and>
           (iv_get (windows s) wid = Some w \<longrightarrow> (\<exists>sf s' h'. move_window kernel_alloc s wid rect h = Some (s', h') \<and> s_rect sf = rect \<and>
             (\<forall>q. contains_point rect q \<longrightarrow> pixel h' sf q = WHITE) \<and> stack s' = (stack s)[win_z w := (wid, sf)])))) \<and>
    (iv_get (windows s) wid = Some w \<longrightarrow>
      (z \<le> win_z w \<longrightarrow> (\<exists>s' xs ys zs. set_window_z_index s wid z = Some s' \<and> length xs = z \<and>
         stack s = xs @ ys @ (wid, win_surface w) # zs \<and> stack s' = xs @ (wid, win_surface w) # ys @ zs)) \<and>
      (win_z w < z \<longrightarrow> (\<exists>s' xs ys zs. set_window_z_index s wid z = Some s' \<and> length (xs @ ys) = min z (length (stack s) - 1) \<and>
         stack s = xs @ (wid, win_surface w) # ys @ zs \<and> stack s' = xs @ ys @ (wid, win_surface w) # zs)) \<and>
      (\<exists>s'. mark_dirty_window s wid rect = Some s' \<and> stack s' = stack s))"
proof (intro conjI impI)
  note ok = screen_run_ok [OF assms(1,2)]
  have sound: "h a = None \<and> length junk = n" if "kernel_alloc h n = Some (a, junk)" for n a junk
    using assms(2) that by (auto simp: alloc_sound_def)
  assume "in_range rect \<and> \<not> rect_is_empty rect"
  then have r: "in_range rect" "\<not> rect_is_empty rect" by auto
  note run = surface_new_run [where kernel_alloc = kernel_alloc and h = h, OF r sound, of WHITE]
  show "case kernel_alloc h (rect_pixels rect) of
      None \<Rightarrow> new_window kernel_alloc s rect z h = None \<and> move_window kernel_alloc s wid rect h = None
    | Some _ \<Rightarrow> (\<exists>new sf s' h'. new_window kernel_alloc s rect z h = Some (new, s', h') \<and> s_rect sf = rect \<and>
          (\<forall>q. contains_point rect q \<longrightarrow> pixel h' sf q = WHITE) \<and> stack s' = take z (stack s) @ (new, sf) # drop z (stack s)) \<and>
        (iv_get (windows s) wid = Some w \<longrightarrow> (\<exists>sf s' h'. move_window kernel_alloc s wid rect h = Some (s', h') \<and> s_rect sf = rect \<and>
          (\<forall>q. contains_point rect q \<longrightarrow> pixel h' sf q = WHITE) \<and> stack s' = (stack s)[win_z w := (wid, sf)]))"
  proof (cases "kernel_alloc h (rect_pixels rect)")
    case None
    with run show ?thesis by (auto simp: new_window_def move_window_def Let_def split: bind_splits)
  next
    case (Some aj)
    with run obtain sf h1 where al: "surface_new kernel_alloc h rect WHITE = Some (sf, h1)" "s_rect sf = rect"
      "\<forall>q. contains_point rect q \<longrightarrow> pixel h1 sf q = WHITE" by auto
    from new_window_ok [OF ok r assms(3) sound al(1), of z] al(2,3) have "\<exists>new sf s' h'. new_window kernel_alloc s rect z h = Some (new, s', h') \<and>
      s_rect sf = rect \<and> (\<forall>q. contains_point rect q \<longrightarrow> pixel h' sf q = WHITE) \<and> stack s' = take z (stack s) @ (new, sf) # drop z (stack s)" by blast
    moreover have "\<exists>sf s' h'. move_window kernel_alloc s wid rect h = Some (s', h') \<and> s_rect sf = rect \<and>
      (\<forall>q. contains_point rect q \<longrightarrow> pixel h' sf q = WHITE) \<and> stack s' = (stack s)[win_z w := (wid, sf)]" if "iv_get (windows s) wid = Some w"
      using move_run [OF ok that r sound al(1)] al(2,3) by metis
    ultimately show ?thesis using Some by auto
  qed
next
  note ok = screen_run_ok [OF assms(1,2)]
  assume w: "iv_get (windows s) wid = Some w"
  show "\<exists>s' xs ys zs. set_window_z_index s wid z = Some s' \<and> length xs = z \<and>
    stack s = xs @ ys @ (wid, win_surface w) # zs \<and> stack s' = xs @ (wid, win_surface w) # ys @ zs" if "z \<le> win_z w"
    using raise_ok [OF ok w that assms(3)] by blast
  show "\<exists>s' xs ys zs. set_window_z_index s wid z = Some s' \<and> length (xs @ ys) = min z (length (stack s) - 1) \<and>
    stack s = xs @ (wid, win_surface w) # ys @ zs \<and> stack s' = xs @ ys @ (wid, win_surface w) # zs" if "win_z w < z"
    by (rule lower_stack [OF ok w that])
  have "surface_ok h (win_surface w)" using ok window_place(4) [of h fb s wid w] w by (simp add: screen_ok_def)
  from draw_ok [OF ok w paints_refl [OF this], of rect] show "\<exists>s'. mark_dirty_window s wid rect = Some s' \<and> stack s' = stack s" by auto
qed

lemma screen_operations_witness:
  "\<exists>s wid sf s' h'. screen_run demo_alloc demo_surface demo_images s \<and>
     new_window demo_alloc s (rect_new 0 0 1 1) 0 demo_images = Some (wid, s', h') \<and> stack s' = [(wid, sf)]"
proof -
  from demo_window obtain s where s: "screen_run demo_alloc demo_surface demo_images s" "visible s = []" "stack s = []" by blast
  have "length (visible s) + 1 < USIZE_MAX" "in_range (rect_new 0 0 1 1)" "\<not> rect_is_empty (rect_new 0 0 1 1)"
    by (simp_all add: s(2) USIZE_MAX_def in_range_def rect_is_empty_def)
  moreover have "demo_alloc demo_images (rect_pixels (rect_new 0 0 1 1)) = Some (1, [BLACK])"
    by (simp add: demo_alloc_def demo_images_def rect_pixels_def)
  ultimately obtain wid sf s' h' where "new_window demo_alloc s (rect_new 0 0 1 1) 0 demo_images = Some (wid, s', h')" "stack s' = [(wid, sf)]"
    using conjunct1 [OF screen_operations [OF s(1) demo_alloc_sound, of "rect_new 0 0 1 1" 0]] s(3) by fastforce
  with s(1) show ?thesis by blast
qed


end
