(* ===== verification/Multiboot.thy ===== *)
theory Multiboot
  imports Boot_Alloc
begin

text \<open>
  How the boot allocator is filled from the data of the boot loader (\<^verbatim>\<open>memory/multiboot.rs\<close>, and the first half of \<^verbatim>\<open>init\<close> in
  \<^verbatim>\<open>memory/bootstrap.rs\<close>).  Physical memory is read through a function from addresses to bytes; it does not change meanwhile.
  The addresses that the linker sets are arguments.  \<^term>\<open>None\<close> is a string without an end; a panic is a value of
  \<^typ>\<open>boot_error\<close>.
\<close>

section \<open>The data of the boot loader\<close>

definition u32_at :: "(nat \<Rightarrow> nat) \<Rightarrow> nat \<Rightarrow> nat" where
  "u32_at rd a = rd a + 256 * (rd (a + 1) + 256 * (rd (a + 2) + 256 * rd (a + 3)))"

definition u64_at :: "(nat \<Rightarrow> nat) \<Rightarrow> nat \<Rightarrow> nat" where
  "u64_at rd a = u32_at rd a + 2 ^ 32 * u32_at rd (a + 4)"

text \<open>The fields of \<^verbatim>\<open>MultibootInfoRaw\<close> that the kernel reads.\<close>

record multiboot_info =
  mb_flags :: nat
  mb_cmdline :: nat
  mb_mods_count :: nat
  mb_mods_addr :: nat
  mb_mmap_length :: nat
  mb_mmap_addr :: nat

definition read_info :: "(nat \<Rightarrow> nat) \<Rightarrow> nat \<Rightarrow> multiboot_info" where
  "read_info rd a =
     \<lparr>mb_flags = u32_at rd a, mb_cmdline = u32_at rd (a + 16), mb_mods_count = u32_at rd (a + 20), mb_mods_addr = u32_at rd (a + 24),
      mb_mmap_length = u32_at rd (a + 44), mb_mmap_addr = u32_at rd (a + 48)\<rparr>"

definition INFO_SIZE :: nat where "INFO_SIZE = 136"

definition has_flag :: "multiboot_info \<Rightarrow> nat \<Rightarrow> bool" where
  "has_flag info k \<longleftrightarrow> odd (mb_flags info div 2 ^ k)"

record module_raw =
  mod_start :: nat
  mod_end :: nat
  mod_name :: nat

definition info_modules :: "(nat \<Rightarrow> nat) \<Rightarrow> multiboot_info \<Rightarrow> module_raw list" where
  "info_modules rd info =
     map (\<lambda>i. let a = mb_mods_addr info + 16 * i in \<lparr>mod_start = u32_at rd a, mod_end = u32_at rd (a + 4), mod_name = u32_at rd (a + 8)\<rparr>)
       [0..<mb_mods_count info]"

record mmap_entry =
  entry_size :: nat
  me_addr :: nat
  me_len :: nat
  mem_type :: nat

definition MMAP_ENTRY_SIZE :: nat where "MMAP_ENTRY_SIZE = 24"

definition mmap_entry_at :: "(nat \<Rightarrow> nat) \<Rightarrow> nat \<Rightarrow> mmap_entry" where
  "mmap_entry_at rd a = \<lparr>entry_size = u32_at rd a, me_addr = u64_at rd (a + 4), me_len = u64_at rd (a + 12), mem_type = u32_at rd (a + 20)\<rparr>"

definition mmap_is_usable :: "mmap_entry \<Rightarrow> bool" where
  "mmap_is_usable e \<longleftrightarrow> mem_type e = 1"

record mmap_iter =
  mi_ptr :: nat
  mi_end :: nat

definition info_mmaps :: "multiboot_info \<Rightarrow> boot_error + mmap_iter" where
  "info_mmaps info =
     (if has_flag info 6 then Inr \<lparr>mi_ptr = mb_mmap_addr info, mi_end = mb_mmap_addr info + mb_mmap_length info\<rparr> else Inl AssertFailed)"

definition mmap_next :: "(nat \<Rightarrow> nat) \<Rightarrow> mmap_iter \<Rightarrow> boot_error + mmap_entry option \<times> mmap_iter" where
  "mmap_next rd it =
     (if mi_ptr it = mi_end it then Inr (None, it)
      else if mi_ptr it + MMAP_ENTRY_SIZE \<le> mi_end it then
        let r = mmap_entry_at rd (mi_ptr it) in Inr (Some r, it\<lparr>mi_ptr := mi_ptr it + (4 + entry_size r)\<rparr>)
      else Inl AssertFailed)"

section \<open>Filling the boot allocator\<close>

definition mmap_type :: "mmap_entry \<Rightarrow> span_type option \<Rightarrow> boot_error + span_type" where
  "mmap_type e s = (if mmap_is_usable e then Inr (case s of Some t \<Rightarrow> t | None \<Rightarrow> Free) else Inr Reserved)"

function add_mmaps :: "(nat \<Rightarrow> nat) \<Rightarrow> mmap_iter \<Rightarrow> boot_alloc \<Rightarrow> (boot_error + boot_alloc) option" where
  "add_mmaps rd it s =
     (case mmap_next rd it of
        Inl e \<Rightarrow> Some (Inl e)
      | Inr (None, _) \<Rightarrow> Some (Inr s)
      | Inr (Some e, it') \<Rightarrow>
          (case boot_update s (me_addr e) (me_len e) (mmap_type e) of
             None \<Rightarrow> None
           | Some (Inl err) \<Rightarrow> Some (Inl err)
           | Some (Inr s) \<Rightarrow> add_mmaps rd it' s))"
  by pat_completeness auto
termination
  by (relation "measure (\<lambda>(_, it, _). mi_end it - mi_ptr it)")
    (auto simp: mmap_next_def MMAP_ENTRY_SIZE_def Let_def split: if_splits)

declare add_mmaps.simps [simp del]

partial_function (option) count_bytes :: "(nat \<Rightarrow> nat) \<Rightarrow> nat \<Rightarrow> nat option" where
  "count_bytes rd a = (if rd a = 0 then Some 0 else do { n \<leftarrow> count_bytes rd (a + 1); Some (n + 1) })"

definition boot_then :: "(boot_error + boot_alloc) option \<Rightarrow> (boot_alloc \<Rightarrow> (boot_error + boot_alloc) option) \<Rightarrow> (boot_error + boot_alloc) option" where
  "boot_then r k = (case r of None \<Rightarrow> None | Some (Inl e) \<Rightarrow> Some (Inl e) | Some (Inr s) \<Rightarrow> k s)"

definition mark_string :: "(nat \<Rightarrow> nat) \<Rightarrow> boot_alloc \<Rightarrow> nat \<Rightarrow> (boot_error + boot_alloc) option" where
  "mark_string rd s addr = do { n \<leftarrow> count_bytes rd addr; mark_reclaimable s addr (n + 1) }"

fun mark_module_list :: "(nat \<Rightarrow> nat) \<Rightarrow> module_raw list \<Rightarrow> boot_alloc \<Rightarrow> (boot_error + boot_alloc) option" where
  "mark_module_list rd [] s = Some (Inr s)"
| "mark_module_list rd (m # ms) s =
     (if mod_end m < mod_start m then Some (Inl AddrOverflow)
      else boot_then (mark_used s (mod_start m) (mod_end m - mod_start m)) (\<lambda>s.
           boot_then (mark_string rd s (mod_name m)) (\<lambda>s.
           mark_module_list rd ms s)))"

definition mark_modules :: "(nat \<Rightarrow> nat) \<Rightarrow> multiboot_info \<Rightarrow> boot_alloc \<Rightarrow> (boot_error + boot_alloc) option" where
  "mark_modules rd info s =
     (if \<not> has_flag info 3 then Some (Inr s)
      else boot_then (mark_reclaimable s (mb_mods_addr info) (mb_mods_count info * 16)) (\<lambda>s.
           mark_module_list rd (info_modules rd info) s))"

text \<open>The physical addresses of the kernel image, from the linker.\<close>

record kernel_image =
  text_start_phys :: nat
  bss_end_phys :: nat
  reclaimable_start_phys :: nat
  reclaimable_end_phys :: nat

definition SPANS :: nat where "SPANS = 128"

definition mark_image :: "kernel_image \<Rightarrow> nat \<Rightarrow> multiboot_info \<Rightarrow> boot_alloc \<Rightarrow> (boot_error + boot_alloc) option" where
  "mark_image img info_addr info s =
     boot_then (mark_reserved s 0 4096) (\<lambda>s.
     boot_then (if bss_end_phys img < text_start_phys img then Some (Inl AddrOverflow)
                else mark_used s (text_start_phys img) (bss_end_phys img - text_start_phys img)) (\<lambda>s.
     boot_then (mark_reclaimable s info_addr INFO_SIZE) (\<lambda>s.
     boot_then (mark_reclaimable s (mb_mmap_addr info) (mb_mmap_length info)) (\<lambda>s.
     if reclaimable_end_phys img < reclaimable_start_phys img then Some (Inl AddrOverflow)
     else mark_reclaimable s (reclaimable_start_phys img) (reclaimable_end_phys img - reclaimable_start_phys img)))))"

definition boot_populate :: "(nat \<Rightarrow> nat) \<Rightarrow> kernel_image \<Rightarrow> nat \<Rightarrow> (boot_error + boot_alloc) option" where
  "boot_populate rd img info_addr =
     (let info = read_info rd info_addr in
      boot_then (case info_mmaps info of Inl e \<Rightarrow> Some (Inl e) | Inr it \<Rightarrow> add_mmaps rd it (boot_new SPANS)) (\<lambda>s.
      boot_then (if has_flag info 2 then mark_string rd s (mb_cmdline info) else Some (Inr s)) (\<lambda>s.
      boot_then (mark_image img info_addr info s) (\<lambda>s.
      mark_modules rd info s))))"

section \<open>Types of addresses\<close>

definition mark_map :: "span_type \<Rightarrow> nat \<Rightarrow> nat \<Rightarrow> (nat \<Rightarrow> span_type option) \<Rightarrow> nat \<Rightarrow> span_type option" where
  "mark_map k a l T p =
     (if a \<le> p \<and> p < a + l then (if k = Reserved \<or> T p = Some Reserved then Some Reserved else Some k) else T p)"

text \<open>
  A step that returns and whose result, if there is no panic, has the given types.  If the condition holds, which says that
  all data is well-formed and the bounds of all areas are in a set for which there is room, there is no panic.
\<close>

definition step_ok :: "bool \<Rightarrow> nat set \<Rightarrow> (boot_error + boot_alloc) option \<Rightarrow> (nat \<Rightarrow> span_type option) \<Rightarrow> bool" where
  "step_ok c B r T \<longleftrightarrow>
     (\<exists>x. r = Some x \<and> (case x of Inl _ \<Rightarrow> \<not> c | Inr s \<Rightarrow> boot_ok s \<and> type_at s = T \<and> (c \<longrightarrow> roomy True B s)))"

definition boot_room :: "bool \<Rightarrow> nat set \<Rightarrow> boot_alloc \<Rightarrow> bool" where
  "boot_room c B s \<longleftrightarrow> boot_ok s \<and> (c \<longrightarrow> roomy True B s)"

definition area_in :: "nat set \<Rightarrow> nat \<Rightarrow> nat \<Rightarrow> bool" where
  "area_in B a l \<longleftrightarrow> a \<in> B \<and> a + l \<in> B \<and> a + l \<le> U64_MAX"

lemma step_then:
  assumes "step_ok c B r T" "\<And>s. r = Some (Inr s) \<Longrightarrow> boot_room c B s \<Longrightarrow> type_at s = T \<Longrightarrow> step_ok c B (k s) T'"
  shows "step_ok c B (boot_then r k) T'"
proof -
  from assms(1) obtain x where x: "r = Some x" "case x of Inl _ \<Rightarrow> \<not> c | Inr s \<Rightarrow> boot_ok s \<and> type_at s = T \<and> (c \<longrightarrow> roomy True B s)"
    by (auto simp: step_ok_def)
  show ?thesis
  proof (cases x)
    case (Inl e)
    with x show ?thesis by (simp add: step_ok_def boot_then_def)
  next
    case (Inr s)
    with x assms(2) [of s] show ?thesis by (simp add: boot_then_def boot_room_def)
  qed
qed

lemma step_panic: "\<not> c \<Longrightarrow> step_ok c B (Some (Inl e)) T"
  by (simp add: step_ok_def)

lemma step_const: "boot_room c B s \<Longrightarrow> step_ok c B (Some (Inr s)) (type_at s)"
  by (simp add: step_ok_def boot_room_def)

lemma step_if: "(g \<Longrightarrow> \<not> c) \<Longrightarrow> step_ok c B b T \<Longrightarrow> step_ok c B (if g then Some (Inl e) else b) T"
  by (simp add: step_panic)

lemma step_update:
  assumes "boot_room c B s" "c \<Longrightarrow> area_in B a l" "\<And>t. \<exists>t'. upd t = Inr t'"
  shows "step_ok c B (boot_update s a l upd) (\<lambda>p. if a \<le> p \<and> p < a + l then total_upd upd (type_at s p) else type_at s p)"
proof (cases "a + l \<le> U64_MAX")
  case True
  have ok: "boot_ok s" and room: "c \<Longrightarrow> roomy True B s" using assms(1) by (simp_all add: boot_room_def)
  have "accepts upd s a (a + l)" using assms(3) by (simp add: accepts_def)
  from boot_update_room [OF ok this True] obtain r where r: "boot_update s a l upd = Some r"
    "case r of Inl err \<Rightarrow> err = OutOfSpans \<and> free_nodes s < 2 * span_count (\<lambda>x. a < bs_end x) s + 1 \<and> (\<forall>B. \<not> (roomy True B s \<and> a \<in> B \<and> a + l \<in> B))
     | Inr s' \<Rightarrow> updated upd s a (a + l) s' \<and> (\<forall>c B. roomy c B s \<and> a \<in> B \<and> a + l \<in> B \<longrightarrow> roomy c B s')" by blast
  show ?thesis
  proof (cases r)
    case (Inl err)
    with r room assms(2) show ?thesis by (auto simp: step_ok_def area_in_def)
  next
    case (Inr s')
    with r(2) have "updated upd s a (a + l) s'" "c \<Longrightarrow> roomy True B s'" using room assms(2) by (auto simp: area_in_def)
    with r(1) Inr show ?thesis by (auto simp: step_ok_def updated_def fun_eq_iff)
  qed
next
  case False
  then have "\<not> c" using assms(2) by (auto simp: area_in_def)
  with False show ?thesis by (simp add: boot_update_def step_ok_def)
qed

lemma step_marks:
  assumes "boot_room c B s" "c \<Longrightarrow> area_in B a l"
  shows "step_ok c B (mark_reserved s a l) (mark_map Reserved a l (type_at s))"
    "step_ok c B (mark_used s a l) (mark_map InUse a l (type_at s))"
    "step_ok c B (mark_reclaimable s a l) (mark_map Reclaimable a l (type_at s))"
proof -
  have r: "step_ok c B (boot_update s a l upd) (mark_map k a l (type_at s))"
    if "upd = (\<lambda>t. if k = Reserved \<or> t = Some Reserved then Inr Reserved else Inr k)" for k upd
  proof -
    have "\<exists>t'. upd t = Inr t'" for t using that by auto
    moreover have "mark_map k a l (type_at s) = (\<lambda>p. if a \<le> p \<and> p < a + l then total_upd upd (type_at s p) else type_at s p)"
      by (auto simp: mark_map_def that fun_eq_iff)
    ultimately show ?thesis using step_update [OF assms, of upd] by simp
  qed
  show "step_ok c B (mark_reserved s a l) (mark_map Reserved a l (type_at s))" unfolding mark_reserved_def by (rule r) auto
  show "step_ok c B (mark_used s a l) (mark_map InUse a l (type_at s))" unfolding mark_used_def by (rule r) auto
  show "step_ok c B (mark_reclaimable s a l) (mark_map Reclaimable a l (type_at s))" unfolding mark_reclaimable_def by (rule r) auto
qed

lemma count_bytes_ok:
  assumes "rd (a + n) = 0"
  shows "\<exists>m\<le>n. count_bytes rd a = Some m"
  using assms
proof (induction n arbitrary: a)
  case 0
  then show ?case by (subst count_bytes.simps) simp
next
  case (Suc n)
  show ?case
  proof (cases "rd a = 0")
    case True
    then show ?thesis by (subst count_bytes.simps) simp
  next
    case False
    with Suc.IH [of "a + 1"] Suc.prems show ?thesis by (subst count_bytes.simps) fastforce
  qed
qed

text \<open>Areas with their types, in the order in which they are marked.\<close>

definition string_mark :: "(nat \<Rightarrow> nat) \<Rightarrow> nat \<Rightarrow> span_type \<times> nat \<times> nat" where
  "string_mark rd a = (Reclaimable, a, the (count_bytes rd a) + 1)"

abbreviation put_mark :: "span_type \<times> nat \<times> nat \<Rightarrow> (nat \<Rightarrow> span_type option) \<Rightarrow> nat \<Rightarrow> span_type option" where
  "put_mark \<equiv> \<lambda>(k, a, l). mark_map k a l"

definition marks_in :: "nat set \<Rightarrow> (span_type \<times> nat \<times> nat) list \<Rightarrow> bool" where
  "marks_in B ms \<longleftrightarrow> (\<forall>(k, a, l)\<in>set ms. area_in B a l)"

lemma marks_in_simps [simp]:
  "marks_in B []" "marks_in B ((k, a, l) # ms) \<longleftrightarrow> area_in B a l \<and> marks_in B ms" "marks_in B (ms @ ns) \<longleftrightarrow> marks_in B ms \<and> marks_in B ns"
  by (simp_all add: marks_in_def ball_Un)

lemma step_string:
  assumes "boot_room c B s" "\<exists>n. rd (a + n) = 0" "c \<Longrightarrow> marks_in B [string_mark rd a]"
  shows "step_ok c B (mark_string rd s a) (put_mark (string_mark rd a) (type_at s))"
proof -
  from assms(2) count_bytes_ok [of rd a] obtain m where "count_bytes rd a = Some m" by blast
  then show ?thesis using step_marks(3) [OF assms(1), of a "m + 1"] assms(3) by (simp add: mark_string_def string_mark_def)
qed

section \<open>The memory map\<close>

function mmap_entries :: "(nat \<Rightarrow> nat) \<Rightarrow> mmap_iter \<Rightarrow> mmap_entry list" where
  "mmap_entries rd it = (case mmap_next rd it of Inr (Some e, it') \<Rightarrow> e # mmap_entries rd it' | _ \<Rightarrow> [])"
  by pat_completeness auto
termination
  by (relation "measure (\<lambda>(_, it). mi_end it - mi_ptr it)")
    (auto simp: mmap_next_def MMAP_ENTRY_SIZE_def Let_def split: if_splits)

declare mmap_entries.simps [simp del]

text \<open>The iterator ends where the map ends.\<close>

function mmap_complete :: "(nat \<Rightarrow> nat) \<Rightarrow> mmap_iter \<Rightarrow> bool" where
  "mmap_complete rd it =
     (case mmap_next rd it of Inl _ \<Rightarrow> False | Inr (None, _) \<Rightarrow> True | Inr (Some _, it') \<Rightarrow> mmap_complete rd it')"
  by pat_completeness auto
termination
  by (relation "measure (\<lambda>(_, it). mi_end it - mi_ptr it)")
    (auto simp: mmap_next_def MMAP_ENTRY_SIZE_def Let_def split: if_splits)

declare mmap_complete.simps [simp del]

definition in_entry :: "nat \<Rightarrow> mmap_entry \<Rightarrow> bool" where
  "in_entry p e \<longleftrightarrow> me_addr e \<le> p \<and> p < me_addr e + me_len e"

definition entry_map :: "mmap_entry \<Rightarrow> (nat \<Rightarrow> span_type option) \<Rightarrow> nat \<Rightarrow> span_type option" where
  "entry_map e T p = (if in_entry p e then total_upd (mmap_type e) (T p) else T p)"

lemma step_mmaps:
  "boot_room c B s \<Longrightarrow> (c \<Longrightarrow> mmap_complete rd it \<and> (\<forall>e\<in>set (mmap_entries rd it). area_in B (me_addr e) (me_len e))) \<Longrightarrow>
     step_ok c B (add_mmaps rd it s) (fold entry_map (mmap_entries rd it) (type_at s))"
proof (induction rd it s rule: add_mmaps.induct)
  case (1 rd it s)
  show ?case
  proof (cases "mmap_next rd it")
    case (Inl e)
    then have "\<not> mmap_complete rd it" by (subst mmap_complete.simps) simp
    then have "\<not> c" using "1.prems"(2) by blast
    with Inl show ?thesis by (subst add_mmaps.simps) (simp add: step_panic)
  next
    case (Inr r)
    obtain item it' where r: "r = (item, it')" by (cases r)
    show ?thesis
    proof (cases item)
      case None
      with Inr r step_const [OF "1.prems"(1)] show ?thesis by (subst add_mmaps.simps, subst mmap_entries.simps) simp
    next
      case (Some e)
      note nx = Inr [unfolded r Some]
      have t: "\<exists>t'. mmap_type e t = Inr t'" for t by (simp add: mmap_type_def)
      have entries: "mmap_entries rd it = e # mmap_entries rd it'" "mmap_complete rd it = mmap_complete rd it'"
        by (subst mmap_entries.simps, simp add: nx) (subst mmap_complete.simps, simp add: nx)
      have ar: "c \<Longrightarrow> area_in B (me_addr e) (me_len e)"
        and more: "c \<Longrightarrow> mmap_complete rd it' \<and> (\<forall>e\<in>set (mmap_entries rd it'). area_in B (me_addr e) (me_len e))"
        using "1.prems"(2) entries by simp_all
      have eq: "entry_map e (type_at s) = (\<lambda>p. if me_addr e \<le> p \<and> p < me_addr e + me_len e then total_upd (mmap_type e) (type_at s p) else type_at s p)"
        by (simp add: entry_map_def in_entry_def fun_eq_iff)
      have "step_ok c B (boot_then (boot_update s (me_addr e) (me_len e) (mmap_type e)) (add_mmaps rd it'))
        (fold entry_map (mmap_entries rd it') (entry_map e (type_at s)))"
      proof (rule step_then)
        show "step_ok c B (boot_update s (me_addr e) (me_len e) (mmap_type e)) (entry_map e (type_at s))"
          unfolding eq by (rule step_update [OF "1.prems"(1) ar t])
        fix s1 assume s1: "boot_update s (me_addr e) (me_len e) (mmap_type e) = Some (Inr s1)" "boot_room c B s1" "type_at s1 = entry_map e (type_at s)"
        with "1.IH" [OF nx refl refl s1(1) refl s1(2) more] show "step_ok c B (add_mmaps rd it' s1) (fold entry_map (mmap_entries rd it') (entry_map e (type_at s)))"
          by simp
      qed
      moreover have "add_mmaps rd it s = boot_then (boot_update s (me_addr e) (me_len e) (mmap_type e)) (add_mmaps rd it')"
        by (subst add_mmaps.simps) (simp add: nx boot_then_def)
      ultimately show ?thesis by (simp add: entries)
    qed
  qed
qed

lemma mmaps_free:
  "fold entry_map es T p = Some Free \<longleftrightarrow>
     (\<forall>e\<in>set es. in_entry p e \<longrightarrow> mmap_is_usable e) \<and> (T p = Some Free \<or> T p = None \<and> (\<exists>e\<in>set es. in_entry p e))"
proof (induction es arbitrary: T)
  case (Cons e es)
  have "entry_map e T p = (if in_entry p e then if mmap_is_usable e then Some (case T p of None \<Rightarrow> Free | Some t \<Rightarrow> t) else Some Reserved else T p)"
    by (simp add: entry_map_def mmap_type_def)
  with Cons.IH [of "entry_map e T"] show ?case by (cases "T p") auto
qed simp

section \<open>The marks\<close>

definition module_marks :: "(nat \<Rightarrow> nat) \<Rightarrow> module_raw list \<Rightarrow> (span_type \<times> nat \<times> nat) list" where
  "module_marks rd ms = concat (map (\<lambda>m. [(InUse, mod_start m, mod_end m - mod_start m), string_mark rd (mod_name m)]) ms)"

definition cmdline_marks :: "(nat \<Rightarrow> nat) \<Rightarrow> multiboot_info \<Rightarrow> (span_type \<times> nat \<times> nat) list" where
  "cmdline_marks rd info = (if has_flag info 2 then [string_mark rd (mb_cmdline info)] else [])"

definition image_marks :: "kernel_image \<Rightarrow> nat \<Rightarrow> multiboot_info \<Rightarrow> (span_type \<times> nat \<times> nat) list" where
  "image_marks img info_addr info =
     [(Reserved, 0, 4096), (InUse, text_start_phys img, bss_end_phys img - text_start_phys img),
      (Reclaimable, info_addr, INFO_SIZE), (Reclaimable, mb_mmap_addr info, mb_mmap_length info),
      (Reclaimable, reclaimable_start_phys img, reclaimable_end_phys img - reclaimable_start_phys img)]"

definition modules_marks :: "(nat \<Rightarrow> nat) \<Rightarrow> multiboot_info \<Rightarrow> (span_type \<times> nat \<times> nat) list" where
  "modules_marks rd info =
     (if has_flag info 3 then (Reclaimable, mb_mods_addr info, mb_mods_count info * 16) # module_marks rd (info_modules rd info) else [])"

definition boot_marks :: "(nat \<Rightarrow> nat) \<Rightarrow> kernel_image \<Rightarrow> nat \<Rightarrow> (span_type \<times> nat \<times> nat) list" where
  "boot_marks rd img info_addr =
     (let info = read_info rd info_addr in cmdline_marks rd info @ image_marks img info_addr info @ modules_marks rd info)"

definition boot_map :: "(nat \<Rightarrow> nat) \<Rightarrow> nat \<Rightarrow> mmap_entry list" where
  "boot_map rd info_addr = (case info_mmaps (read_info rd info_addr) of Inl e \<Rightarrow> [] | Inr it \<Rightarrow> mmap_entries rd it)"

lemma step_modules:
  assumes "boot_room c B s" "\<forall>m\<in>set ms. \<exists>n. rd (mod_name m + n) = 0"
    "c \<Longrightarrow> (\<forall>m\<in>set ms. mod_start m \<le> mod_end m) \<and> marks_in B (module_marks rd ms)"
  shows "step_ok c B (mark_module_list rd ms s) (fold put_mark (module_marks rd ms) (type_at s))"
  using assms
proof (induction ms arbitrary: s)
  case (Cons m ms)
  let ?T = "fold put_mark (module_marks rd (m # ms)) (type_at s)"
  have ar: "c \<Longrightarrow> area_in B (mod_start m) (mod_end m - mod_start m)" and str: "c \<Longrightarrow> marks_in B [string_mark rd (mod_name m)]"
    and more: "c \<Longrightarrow> (\<forall>m\<in>set ms. mod_start m \<le> mod_end m) \<and> marks_in B (module_marks rd ms)"
    using Cons.prems(3) by (auto simp: module_marks_def marks_in_def)
  have nul: "\<exists>n. rd (mod_name m + n) = 0" "\<forall>m\<in>set ms. \<exists>n. rd (mod_name m + n) = 0" using Cons.prems(2) by simp_all
  have "step_ok c B (boot_then (mark_used s (mod_start m) (mod_end m - mod_start m)) (\<lambda>s.
      boot_then (mark_string rd s (mod_name m)) (\<lambda>s. mark_module_list rd ms s))) ?T"
  proof (rule step_then [OF step_marks(2) [OF Cons.prems(1) ar]])
    fix s1 assume s1: "boot_room c B s1" "type_at s1 = mark_map InUse (mod_start m) (mod_end m - mod_start m) (type_at s)"
    show "step_ok c B (boot_then (mark_string rd s1 (mod_name m)) (\<lambda>s. mark_module_list rd ms s)) ?T"
    proof (rule step_then [OF step_string [OF s1(1) nul(1) str]])
      fix s2 assume s2: "boot_room c B s2" "type_at s2 = put_mark (string_mark rd (mod_name m)) (type_at s1)"
      from Cons.IH [OF s2(1) nul(2) more] s1(2) s2(2) show "step_ok c B (mark_module_list rd ms s2) ?T"
        by (simp add: module_marks_def)
    qed
  qed
  moreover have "mod_end m < mod_start m \<Longrightarrow> \<not> c" using Cons.prems(3) by auto
  ultimately show ?case by (simp add: step_panic)
qed (simp add: step_const module_marks_def)

definition strings_end :: "(nat \<Rightarrow> nat) \<Rightarrow> nat \<Rightarrow> bool" where
  "strings_end rd info_addr \<longleftrightarrow>
     (let info = read_info rd info_addr in
      (has_flag info 2 \<longrightarrow> (\<exists>n. rd (mb_cmdline info + n) = 0)) \<and>
      (has_flag info 3 \<longrightarrow> (\<forall>m\<in>set (info_modules rd info). \<exists>n. rd (mod_name m + n) = 0)))"

text \<open>
  The data is well-formed: there is a memory map, it ends where its length says, the limits are in order, all areas end in
  the address range, and there are at most 64 of them.
\<close>

definition boot_areas :: "(nat \<Rightarrow> nat) \<Rightarrow> kernel_image \<Rightarrow> nat \<Rightarrow> (nat \<times> nat) list" where
  "boot_areas rd img info_addr = map (\<lambda>e. (me_addr e, me_len e)) (boot_map rd info_addr) @ map snd (boot_marks rd img info_addr)"

definition boot_data_ok :: "(nat \<Rightarrow> nat) \<Rightarrow> kernel_image \<Rightarrow> nat \<Rightarrow> bool" where
  "boot_data_ok rd img info_addr \<longleftrightarrow>
     (let info = read_info rd info_addr in
      (case info_mmaps info of Inl _ \<Rightarrow> False | Inr it \<Rightarrow> mmap_complete rd it) \<and>
      text_start_phys img \<le> bss_end_phys img \<and> reclaimable_start_phys img \<le> reclaimable_end_phys img \<and>
      (has_flag info 3 \<longrightarrow> (\<forall>m\<in>set (info_modules rd info). mod_start m \<le> mod_end m)) \<and>
      (\<forall>(a, l)\<in>set (boot_areas rd img info_addr). a + l \<le> U64_MAX) \<and>
      length (boot_areas rd img info_addr) \<le> 64)"

definition area_bounds :: "(nat \<times> nat) list \<Rightarrow> nat set" where
  "area_bounds as = fst ` set as \<union> (\<lambda>(a, l). a + l) ` set as"

lemma area_bounds_card: "finite (area_bounds as)" "card (area_bounds as) \<le> 2 * length as"
proof -
  show "finite (area_bounds as)" by (simp add: area_bounds_def)
  have "card (f ` set as) \<le> length as" for f :: "nat \<times> nat \<Rightarrow> nat"
    using card_image_le [of "set as" f] card_length [of as] by simp
  then show "card (area_bounds as) \<le> 2 * length as"
    unfolding area_bounds_def using card_Un_le [of "fst ` set as" "(\<lambda>(a, l). a + l) ` set as"]
    by (smt (verit) add_mono mult_2 order_trans)
qed

lemma step_mark_modules:
  assumes "boot_room c B s" "has_flag info 3 \<Longrightarrow> \<forall>m\<in>set (info_modules rd info). \<exists>n. rd (mod_name m + n) = 0"
    "c \<Longrightarrow> (has_flag info 3 \<longrightarrow> (\<forall>m\<in>set (info_modules rd info). mod_start m \<le> mod_end m)) \<and> marks_in B (modules_marks rd info)"
  shows "step_ok c B (mark_modules rd info s) (fold put_mark (modules_marks rd info) (type_at s))"
proof (cases "has_flag info 3")
  case True
  let ?T = "fold put_mark (module_marks rd (info_modules rd info)) (mark_map Reclaimable (mb_mods_addr info) (mb_mods_count info * 16) (type_at s))"
  have c: "c \<Longrightarrow> area_in B (mb_mods_addr info) (mb_mods_count info * 16)"
    "c \<Longrightarrow> (\<forall>m\<in>set (info_modules rd info). mod_start m \<le> mod_end m) \<and> marks_in B (module_marks rd (info_modules rd info))"
    using assms(3) True by (simp_all add: modules_marks_def)
  have "step_ok c B (boot_then (mark_reclaimable s (mb_mods_addr info) (mb_mods_count info * 16)) (\<lambda>s. mark_module_list rd (info_modules rd info) s)) ?T"
  proof (rule step_then [OF step_marks(3) [OF assms(1) c(1)]])
    fix s1 assume s1: "boot_room c B s1" "type_at s1 = mark_map Reclaimable (mb_mods_addr info) (mb_mods_count info * 16) (type_at s)"
    from step_modules [OF s1(1) assms(2) [OF True] c(2)] show "step_ok c B (mark_module_list rd (info_modules rd info) s1) ?T"
      by (simp only: s1(2))
  qed
  with True show ?thesis by (simp add: mark_modules_def modules_marks_def)
next
  case False
  then show ?thesis using step_const [OF assms(1)] by (simp add: mark_modules_def modules_marks_def)
qed

lemma step_mark_image:
  assumes "boot_room c B s"
    "c \<Longrightarrow> text_start_phys img \<le> bss_end_phys img \<and> reclaimable_start_phys img \<le> reclaimable_end_phys img \<and> marks_in B (image_marks img ia info)"
  shows "step_ok c B (mark_image img ia info s) (fold put_mark (image_marks img ia info) (type_at s))"
proof -
  let ?T = "fold put_mark (image_marks img ia info) (type_at s)"
  have lim: "bss_end_phys img < text_start_phys img \<Longrightarrow> \<not> c" "reclaimable_end_phys img < reclaimable_start_phys img \<Longrightarrow> \<not> c" using assms(2) by auto
  have ar: "c \<Longrightarrow> area_in B 0 4096" "c \<Longrightarrow> area_in B (text_start_phys img) (bss_end_phys img - text_start_phys img)"
    "c \<Longrightarrow> area_in B ia INFO_SIZE" "c \<Longrightarrow> area_in B (mb_mmap_addr info) (mb_mmap_length info)"
    "c \<Longrightarrow> area_in B (reclaimable_start_phys img) (reclaimable_end_phys img - reclaimable_start_phys img)"
    using assms(2) by (simp_all add: image_marks_def)
  show ?thesis
    unfolding mark_image_def
    apply (rule step_then [OF step_marks(1) [OF assms(1) ar(1)]], assumption)
    apply (rule step_then [OF step_if [OF lim(1) step_marks(2) [OF _ ar(2)]]], assumption+)
    apply (rule step_then [OF step_marks(3) [OF _ ar(3)]], assumption+)
    apply (rule step_then [OF step_marks(3) [OF _ ar(4)]], assumption+)
    apply (rule step_if [OF lim(2)], assumption)
    subgoal for s1 s2 s3 s4
      using step_marks(3) [of c B s4, OF _ ar(5)] by (simp add: image_marks_def)
    done
qed

lemma step_populate:
  assumes "strings_end rd ia"
  shows "step_ok (boot_data_ok rd img ia) (area_bounds (boot_areas rd img ia)) (boot_populate rd img ia)
    (fold put_mark (boot_marks rd img ia) (fold entry_map (boot_map rd ia) (\<lambda>_. None)))"
proof -
  define info c B where "info = read_info rd ia" and "c = boot_data_ok rd img ia" and "B = area_bounds (boot_areas rd img ia)"
  have new: "boot_room c B (boot_new SPANS)" "type_at (boot_new SPANS) = (\<lambda>_. None)"
  proof -
    have "c \<Longrightarrow> card B \<le> 128" using area_bounds_card(2) [of "boot_areas rd img ia"] by (simp add: c_def B_def boot_data_ok_def Let_def)
    then have "c \<Longrightarrow> roomy True B (boot_new SPANS)"
      by (simp add: B_def roomy_def area_bounds_card(1) span_count_def boot_new_def SPANS_def)
    then show "boot_room c B (boot_new SPANS)" by (simp add: boot_room_def)
  qed (simp add: fun_eq_iff)
  have lim: "c \<Longrightarrow> area_in B a l" if "(a, l) \<in> set (boot_areas rd img ia)" for a l
    using that by (force simp: c_def B_def area_in_def area_bounds_def boot_data_ok_def Let_def)
  then have marks: "c \<Longrightarrow> marks_in B (boot_marks rd img ia)" unfolding marks_in_def boot_areas_def by (force simp: image_iff)
  have mm: "step_ok c B (case info_mmaps info of Inl e \<Rightarrow> Some (Inl e) | Inr it \<Rightarrow> add_mmaps rd it (boot_new SPANS)) (fold entry_map (boot_map rd ia) (\<lambda>_. None))"
  proof (cases "info_mmaps info")
    case (Inl e)
    then have "\<not> c" by (simp add: c_def boot_data_ok_def info_def Let_def)
    with Inl show ?thesis by (simp add: step_panic)
  next
    case (Inr it)
    then have es: "boot_map rd ia = mmap_entries rd it" by (simp add: boot_map_def info_def)
    have "c \<Longrightarrow> mmap_complete rd it" using Inr by (simp add: c_def boot_data_ok_def info_def Let_def)
    moreover have "c \<Longrightarrow> \<forall>e\<in>set (mmap_entries rd it). area_in B (me_addr e) (me_len e)" using lim by (auto simp: boot_areas_def es)
    ultimately show ?thesis using step_mmaps [OF new(1), of rd it] new(2) Inr es by simp
  qed
  have str: "has_flag info 2 \<Longrightarrow> \<exists>n. rd (mb_cmdline info + n) = 0" "has_flag info 3 \<Longrightarrow> \<forall>m\<in>set (info_modules rd info). \<exists>n. rd (mod_name m + n) = 0"
    using assms by (simp_all add: strings_end_def info_def Let_def)
  have part: "c \<Longrightarrow> marks_in B (cmdline_marks rd info)" "c \<Longrightarrow> marks_in B (image_marks img ia info)" "c \<Longrightarrow> marks_in B (modules_marks rd info)"
    using marks by (simp_all add: boot_marks_def info_def [symmetric] Let_def)
  have cmd: "step_ok c B (if has_flag info 2 then mark_string rd s (mb_cmdline info) else Some (Inr s)) (fold put_mark (cmdline_marks rd info) (type_at s))"
    if "boot_room c B s" for s
  proof (cases "has_flag info 2")
    case True
    from part(1) True have "c \<Longrightarrow> marks_in B [string_mark rd (mb_cmdline info)]" by (simp add: cmdline_marks_def)
    from step_string [OF that str(1) [OF True] this] True show ?thesis by (simp add: cmdline_marks_def)
  next
    case False
    with step_const [OF that] show ?thesis by (simp add: cmdline_marks_def)
  qed
  have mods: "step_ok c B (mark_modules rd info s) (fold put_mark (modules_marks rd info) (type_at s))" if "boot_room c B s" for s
    by (rule step_mark_modules [OF that str(2)]) (use part(3) in \<open>auto simp: c_def boot_data_ok_def info_def Let_def\<close>)
  have img: "step_ok c B (mark_image img ia info s) (fold put_mark (image_marks img ia info) (type_at s))" if "boot_room c B s" for s
    by (rule step_mark_image [OF that]) (use part(2) in \<open>auto simp: c_def boot_data_ok_def info_def Let_def\<close>)
  have rest: "step_ok c B (boot_then (mark_image img ia info s) (\<lambda>s. mark_modules rd info s))
      (fold put_mark (modules_marks rd info) (fold put_mark (image_marks img ia info) (type_at s)))" if "boot_room c B s" for s
    by (rule step_then [OF img [OF that]]) (metis mods)
  have rest2: "step_ok c B (boot_then (if has_flag info 2 then mark_string rd s (mb_cmdline info) else Some (Inr s)) (\<lambda>s.
      boot_then (mark_image img ia info s) (\<lambda>s. mark_modules rd info s)))
      (fold put_mark (modules_marks rd info) (fold put_mark (image_marks img ia info) (fold put_mark (cmdline_marks rd info) (type_at s))))"
    if "boot_room c B s" for s
    by (rule step_then [OF cmd [OF that]]) (metis rest)
  show ?thesis
    unfolding boot_populate_def Let_def info_def [symmetric] boot_marks_def fold_append comp_def c_def [symmetric] B_def [symmetric]
    by (rule step_then [OF mm]) (metis rest2)
qed

section \<open>The whole layout\<close>

definition in_area :: "nat \<Rightarrow> span_type \<times> nat \<times> nat \<Rightarrow> bool" where
  "in_area p m \<longleftrightarrow> (case m of (k, a, l) \<Rightarrow> a \<le> p \<and> p < a + l)"

text \<open>
  What each address is for: the first page and what the memory map does not call usable is reserved; else the last mark
  on the address decides, and the rest of the memory map is free.
\<close>

definition boot_layout :: "(nat \<Rightarrow> nat) \<Rightarrow> kernel_image \<Rightarrow> nat \<Rightarrow> nat \<Rightarrow> span_type option" where
  "boot_layout rd img info_addr p =
     (if p < 4096 \<or> (\<exists>e\<in>set (boot_map rd info_addr). in_entry p e \<and> \<not> mmap_is_usable e) then Some Reserved
      else case find (in_area p) (rev (boot_marks rd img info_addr)) of
        Some (k, _) \<Rightarrow> Some k
      | None \<Rightarrow> if \<exists>e\<in>set (boot_map rd info_addr). in_entry p e then Some Free else None)"

lemma mmaps_reserved:
  "fold entry_map es T p = Some Reserved \<longleftrightarrow> T p = Some Reserved \<or> (\<exists>e\<in>set es. in_entry p e \<and> \<not> mmap_is_usable e)"
proof (induction es arbitrary: T)
  case (Cons e es)
  have "entry_map e T p = (if in_entry p e then if mmap_is_usable e then Some (case T p of None \<Rightarrow> Free | Some t \<Rightarrow> t) else Some Reserved else T p)"
    by (simp add: entry_map_def mmap_type_def)
  with Cons.IH [of "entry_map e T"] show ?case by (cases "T p") auto
qed simp

lemma mmaps_none: "fold entry_map es T p = None \<longleftrightarrow> T p = None \<and> (\<forall>e\<in>set es. \<not> in_entry p e)"
  by (induction es arbitrary: T) (auto simp: entry_map_def mmap_type_def)

lemma mmaps_layout:
  "fold entry_map es (\<lambda>_. None) p =
     (if \<exists>e\<in>set es. in_entry p e \<and> \<not> mmap_is_usable e then Some Reserved else if \<exists>e\<in>set es. in_entry p e then Some Free else None)"
  using mmaps_reserved [of es "\<lambda>_. None" p] mmaps_free [of es "\<lambda>_. None" p] mmaps_none [of es "\<lambda>_. None" p] by auto

lemma marks_reserved:
  "fold put_mark ms T p = Some Reserved \<longleftrightarrow> T p = Some Reserved \<or> (\<exists>m\<in>set ms. in_area p m \<and> fst m = Reserved)"
  by (induction ms arbitrary: T) (auto simp: mark_map_def in_area_def split: if_splits)

lemma marks_last:
  "fold put_mark ms T p \<noteq> Some Reserved \<Longrightarrow>
     fold put_mark ms T p = (case find (in_area p) (rev ms) of Some (k, _) \<Rightarrow> Some k | None \<Rightarrow> T p)"
proof (induction ms rule: rev_induct)
  case (snoc m ms)
  obtain k a l where m: "m = (k, a, l)" by (cases m)
  have "fold put_mark (ms @ [m]) T p = mark_map k a l (fold put_mark ms T) p" by (simp add: m)
  with snoc show ?case by (auto simp: m mark_map_def in_area_def [of p "(k, a, l)"] split: if_splits)
qed simp

lemma marks_layout:
  "fold put_mark ms T p =
     (if T p = Some Reserved \<or> (\<exists>m\<in>set ms. in_area p m \<and> fst m = Reserved) then Some Reserved
      else case find (in_area p) (rev ms) of Some (k, _) \<Rightarrow> Some k | None \<Rightarrow> T p)"
  using marks_reserved [of ms T p] marks_last [of ms T p] by auto

lemma reserved_marks: "(\<exists>m\<in>set (boot_marks rd img ia). in_area p m \<and> fst m = Reserved) \<longleftrightarrow> p < 4096"
  by (auto simp: boot_marks_def Let_def cmdline_marks_def image_marks_def modules_marks_def module_marks_def string_mark_def in_area_def)

lemma boot_layout_fold: "fold put_mark (boot_marks rd img ia) (fold entry_map (boot_map rd ia) (\<lambda>_. None)) = boot_layout rd img ia"
  by (rule ext) (auto simp: marks_layout reserved_marks mmaps_layout boot_layout_def split: option.splits)

section \<open>The claim\<close>

text \<open>
  C38.  Filling the boot allocator always returns if the strings of the boot loader end, and with well-formed data it
  succeeds: 128 slots are enough for 64 areas, however they overlap.  Afterwards the allocator is valid and every address has the
  type of the layout: in particular the free addresses are those that the memory map only calls usable and that no mark
  covers, and nothing that the map calls unusable is ever handed out, also where marks cover it.
\<close>

theorem boot_populate_correct:
  assumes "strings_end rd info_addr"
  shows "\<exists>r. boot_populate rd img info_addr = Some r \<and>
    (case r of
       Inl err \<Rightarrow> \<not> boot_data_ok rd img info_addr
     | Inr s \<Rightarrow> boot_ok s \<and> (\<forall>p. type_at s p = boot_layout rd img info_addr p))"
  using step_populate [OF assms, of img] unfolding step_ok_def boot_layout_fold by (auto split: sum.splits)

text \<open>Two areas of memory, a command line and a module, which starts at three megabytes.\<close>

definition sample_memory :: "nat \<Rightarrow> nat" where
  "sample_memory = (\<lambda>_. 0)(36864 := 76, 36881 := 145, 36884 := 1, 36888 := 128, 36889 := 145, 36908 := 48, 36913 := 146, 37120 := 113, 37136 := 102, 37250 := 48, 37253 := 16, 37254 := 48, 37256 := 16, 37257 := 145, 37376 := 20, 37390 := 10, 37396 := 1, 37400 := 20, 37406 := 16, 37414 := 112, 37420 := 1)"

definition sample_image :: kernel_image where
  "sample_image = \<lparr>text_start_phys = 1048576, bss_end_phys = 2097152, reclaimable_start_phys = 1966080, reclaimable_end_phys = 2097152\<rparr>"

lemma sample_info:
  "read_info sample_memory 36864 = \<lparr>mb_flags = 76, mb_cmdline = 37120, mb_mods_count = 1, mb_mods_addr = 37248, mb_mmap_length = 48, mb_mmap_addr = 37376\<rparr>"
  by (simp add: read_info_def u32_at_def sample_memory_def)

lemma sample_modules: "info_modules sample_memory (read_info sample_memory 36864) = [\<lparr>mod_start = 3145728, mod_end = 3149824, mod_name = 37136\<rparr>]"
  by (simp add: sample_info info_modules_def Let_def) (simp add: u32_at_def sample_memory_def)

lemma sample_strings: "count_bytes sample_memory 37120 = Some 1" "count_bytes sample_memory 37136 = Some 1"
  by (subst count_bytes.simps, subst count_bytes.simps, simp add: sample_memory_def)+

lemma sample_next:
  "mmap_next sample_memory \<lparr>mi_ptr = 37376, mi_end = 37424\<rparr> =
     Inr (Some \<lparr>entry_size = 20, me_addr = 0, me_len = 655360, mem_type = 1\<rparr>, \<lparr>mi_ptr = 37400, mi_end = 37424\<rparr>)"
  "mmap_next sample_memory \<lparr>mi_ptr = 37400, mi_end = 37424\<rparr> =
     Inr (Some \<lparr>entry_size = 20, me_addr = 1048576, me_len = 7340032, mem_type = 1\<rparr>, \<lparr>mi_ptr = 37424, mi_end = 37424\<rparr>)"
  "mmap_next sample_memory \<lparr>mi_ptr = 37424, mi_end = 37424\<rparr> = Inr (None, \<lparr>mi_ptr = 37424, mi_end = 37424\<rparr>)"
  by (simp_all add: mmap_next_def MMAP_ENTRY_SIZE_def mmap_entry_at_def u64_at_def u32_at_def sample_memory_def)

lemma sample_flags [simp]: "has_flag (read_info sample_memory 36864) 2" "has_flag (read_info sample_memory 36864) 3"
  "info_mmaps (read_info sample_memory 36864) = Inr \<lparr>mi_ptr = 37376, mi_end = 37424\<rparr>"
  by (simp_all add: has_flag_def sample_info info_mmaps_def)

lemma sample_map:
  "mmap_complete sample_memory \<lparr>mi_ptr = 37376, mi_end = 37424\<rparr>"
  "boot_map sample_memory 36864 =
     [\<lparr>entry_size = 20, me_addr = 0, me_len = 655360, mem_type = 1\<rparr>, \<lparr>entry_size = 20, me_addr = 1048576, me_len = 7340032, mem_type = 1\<rparr>]"
proof -
  show "mmap_complete sample_memory \<lparr>mi_ptr = 37376, mi_end = 37424\<rparr>"
    by (subst mmap_complete.simps, simp add: sample_next)+
  have "mmap_entries sample_memory \<lparr>mi_ptr = 37376, mi_end = 37424\<rparr> =
     [\<lparr>entry_size = 20, me_addr = 0, me_len = 655360, mem_type = 1\<rparr>, \<lparr>entry_size = 20, me_addr = 1048576, me_len = 7340032, mem_type = 1\<rparr>]"
    by (subst mmap_entries.simps, simp add: sample_next)+
  then show "boot_map sample_memory 36864 =
     [\<lparr>entry_size = 20, me_addr = 0, me_len = 655360, mem_type = 1\<rparr>, \<lparr>entry_size = 20, me_addr = 1048576, me_len = 7340032, mem_type = 1\<rparr>]"
    by (simp add: boot_map_def)
qed

lemma sample_marks:
  "boot_marks sample_memory sample_image 36864 =
     [(Reclaimable, 37120, 2), (Reserved, 0, 4096), (InUse, 1048576, 1048576), (Reclaimable, 36864, 136), (Reclaimable, 37376, 48),
      (Reclaimable, 1966080, 131072), (Reclaimable, 37248, 16), (InUse, 3145728, 4096), (Reclaimable, 37136, 2)]"
  by (simp add: boot_marks_def Let_def cmdline_marks_def modules_marks_def sample_modules module_marks_def)
    (simp add: image_marks_def string_mark_def sample_info sample_strings sample_image_def INFO_SIZE_def)

lemma sample_strings_end: "strings_end sample_memory 36864"
proof -
  have "\<exists>n. sample_memory (37120 + n) = 0" "\<exists>n. sample_memory (37136 + n) = 0"
    by (rule exI [of _ 1], simp add: sample_memory_def)+
  then show ?thesis by (auto simp: strings_end_def Let_def sample_modules) (auto simp: sample_info)
qed

lemma sample_ok: "boot_data_ok sample_memory sample_image 36864"
  by (simp add: boot_data_ok_def Let_def sample_map sample_modules boot_areas_def sample_marks) (simp add: sample_image_def U64_MAX_def)

lemma boot_populate_correct_witness:
  "\<exists>s. boot_populate sample_memory sample_image 36864 = Some (Inr s) \<and> type_at s 3145728 = Some InUse \<and> type_at s 4000000 = Some Free \<and>
     type_at s 100 = Some Reserved \<and> type_at s 2000000 = Some Reclaimable \<and> type_at s 800000 = None"
proof -
  from boot_populate_correct [OF sample_strings_end, of sample_image] obtain r where
    r: "boot_populate sample_memory sample_image 36864 = Some r"
    "case r of Inl err \<Rightarrow> \<not> boot_data_ok sample_memory sample_image 36864
     | Inr s \<Rightarrow> boot_ok s \<and> (\<forall>p. type_at s p = boot_layout sample_memory sample_image 36864 p)" by blast
  from r sample_ok obtain s where s: "boot_populate sample_memory sample_image 36864 = Some (Inr s)"
    "\<And>p. type_at s p = boot_layout sample_memory sample_image 36864 p" by (cases r) auto
  have "boot_layout sample_memory sample_image 36864 3145728 = Some InUse" "boot_layout sample_memory sample_image 36864 4000000 = Some Free"
    "boot_layout sample_memory sample_image 36864 100 = Some Reserved" "boot_layout sample_memory sample_image 36864 2000000 = Some Reclaimable"
    "boot_layout sample_memory sample_image 36864 800000 = None"
    by (simp_all add: boot_layout_def sample_map sample_marks in_area_def in_entry_def mmap_is_usable_def)
  with s show ?thesis by metis
qed

end
