(* ===== verification/User_Space.thy ===== *)
theory User_Space
  imports Virtual_Alloc
begin

text \<open>
  The memory of processes (\<^verbatim>\<open>memory/address_space.rs\<close>) and the loading of programs (\<^verbatim>\<open>user.rs\<close>).  A process has a set of ranges
  that it may use; a page gets a frame, filled with zeros, at the first access.  The page table with the allocator of frames
  under it and the parsed program are parameters.  Physical memory is a function from addresses to bytes.
\<close>

record 'k user_ops =
  get_frame :: "'k \<Rightarrow> (int \<times> 'k) option"
  map_page :: "int \<Rightarrow> int \<Rightarrow> 'k \<Rightarrow> 'k option"
  page_frame :: "'k \<Rightarrow> int \<Rightarrow> int option"

record 'k user_state =
  us_mappings :: "unit span_alloc"
  us_kernel :: 'k
  us_memory :: "int \<Rightarrow> nat"

definition PAGE_ENTRIES :: nat where "PAGE_ENTRIES = 512"

text \<open>The upper half of a new table, for the kernel, is shared; the mappings are empty.\<close>

definition user_table_new :: "nat list \<Rightarrow> nat list" where
  "user_table_new global_table = map (\<lambda>i. if i < 256 then 0 else global_table ! i) [0..<PAGE_ENTRIES]"

definition user_mappings_new :: "unit span_alloc" where
  "user_mappings_new = span_alloc_new 0 (2 ^ 48)"

definition page_of :: "int \<Rightarrow> int" where
  "page_of a = a - a mod FRAME_SIZE"

definition zero_frame :: "int \<Rightarrow> (int \<Rightarrow> nat) \<Rightarrow> int \<Rightarrow> nat" where
  "zero_frame f mem a = (if f \<le> a \<and> a < f + FRAME_SIZE then 0 else mem a)"

definition add_mapping :: "memory_error option \<Rightarrow> int \<Rightarrow> int \<Rightarrow> 'k user_state \<Rightarrow> 'k user_state option" where
  "add_mapping node_alloc a b s =
     (case span_insert node_alloc (us_mappings s) a b () of Inl _ \<Rightarrow> None | Inr ms \<Rightarrow> Some (s\<lparr>us_mappings := ms\<rparr>))"

datatype 'k fault_result = Handled "'k user_state" | Unhandled | FaultPanic

definition page_fault_handler :: "'k user_ops \<Rightarrow> 'k user_state option \<Rightarrow> int \<Rightarrow> 'k fault_result" where
  "page_fault_handler ops current_proc addr =
     (if addr div 2 ^ 48 = 0 then
        (case current_proc of
           None \<Rightarrow> Unhandled
         | Some s \<Rightarrow>
             (case span_containing (us_mappings s) addr of
                None \<Rightarrow> Unhandled
              | Some _ \<Rightarrow>
                  (case get_frame ops (us_kernel s) of
                     None \<Rightarrow> FaultPanic
                   | Some (frame, k) \<Rightarrow>
                       (let mem = zero_frame frame (us_memory s) in
                        case map_page ops (page_of addr) frame k of
                          None \<Rightarrow> FaultPanic
                        | Some k \<Rightarrow> Handled (s\<lparr>us_kernel := k, us_memory := mem\<rparr>)))))
      else Unhandled)"

section \<open>Access\<close>

text \<open>
  An access by the processor: it goes through the page table; without an entry it faults and is tried again when the handler
  returns.  A fault that is not handled never returns, which is \<^term>\<open>None\<close> as is a panic.
\<close>

partial_function (option) user_store :: "'k user_ops \<Rightarrow> 'k user_state \<Rightarrow> int \<Rightarrow> nat \<Rightarrow> 'k user_state option" where
  "user_store ops s va b =
     (case page_frame ops (us_kernel s) (page_of va) of
        Some f \<Rightarrow> Some (s\<lparr>us_memory := (us_memory s)(f + va mod FRAME_SIZE := b)\<rparr>)
      | None \<Rightarrow>
          (case page_fault_handler ops (Some s) va of
             Handled s \<Rightarrow> user_store ops s va b
           | Unhandled \<Rightarrow> None
           | FaultPanic \<Rightarrow> None))"

partial_function (option) user_load :: "'k user_ops \<Rightarrow> 'k user_state \<Rightarrow> int \<Rightarrow> (nat \<times> 'k user_state) option" where
  "user_load ops s va =
     (case page_frame ops (us_kernel s) (page_of va) of
        Some f \<Rightarrow> Some (us_memory s (f + va mod FRAME_SIZE), s)
      | None \<Rightarrow>
          (case page_fault_handler ops (Some s) va of
             Handled s \<Rightarrow> user_load ops s va
           | Unhandled \<Rightarrow> None
           | FaultPanic \<Rightarrow> None))"

declare user_store.simps [code] user_load.simps [code]

fun user_copy :: "'k user_ops \<Rightarrow> 'k user_state \<Rightarrow> int \<Rightarrow> nat list \<Rightarrow> 'k user_state option" where
  "user_copy ops s va [] = Some s"
| "user_copy ops s va (b # bs) = do { s \<leftarrow> user_store ops s va b; user_copy ops s (va + 1) bs }"

section \<open>Loading a program\<close>

datatype segment_type = Load | OtherSegment

text \<open>A program header as the parser gives it: the type may be an error, the data may be of another kind.\<close>

record program_header =
  ph_type :: "segment_type option"
  ph_vaddr :: int
  ph_mem_size :: int
  ph_file_size :: int
  ph_data :: "nat list option"

record elf_file =
  elf_headers :: "program_header list"
  elf_entry :: int

definition USER_STACK_BOTTOM :: int where "USER_STACK_BOTTOM = 0x7FFF00000000"
definition USER_STACK_SIZE :: int where "USER_STACK_SIZE = 1048576"

text \<open>
  \<^verbatim>\<open>VirtAddr::new\<close>, also behind its addition: an address whose upper bits repeat bit 47 is kept, one with only bit 47
  set beyond bit 46 is sign-extended, and others, with sums that leave 64 bits, panic.
\<close>

definition virt_addr :: "int \<Rightarrow> int option" where
  "virt_addr a = (if 0 \<le> a \<and> a < 2 ^ 47 \<or> 2 ^ 64 - 2 ^ 47 \<le> a \<and> a < 2 ^ 64 then Some a
     else if 2 ^ 47 \<le> a \<and> a < 2 ^ 48 then Some (a + (2 ^ 64 - 2 ^ 48)) else None)"

definition load_segment :: "'k user_ops \<Rightarrow> memory_error option \<Rightarrow> program_header \<Rightarrow> 'k user_state \<Rightarrow> 'k user_state option" where
  "load_segment ops node_alloc h s = do {
     va \<leftarrow> virt_addr (ph_vaddr h);
     ve \<leftarrow> virt_addr (va + ph_mem_size h);
     s \<leftarrow> add_mapping node_alloc va ve s;
     contents \<leftarrow> ph_data h;
     if int (length contents) \<noteq> ph_file_size h then None
     else user_copy ops s va contents }"

fun load_segments :: "'k user_ops \<Rightarrow> memory_error option \<Rightarrow> program_header list \<Rightarrow> 'k user_state \<Rightarrow> 'k user_state option" where
  "load_segments ops node_alloc [] s = Some s"
| "load_segments ops node_alloc (h # hs) s =
     (case ph_type h of
        None \<Rightarrow> None
      | Some Load \<Rightarrow> do { s \<leftarrow> load_segment ops node_alloc h s; load_segments ops node_alloc hs s }
      | Some OtherSegment \<Rightarrow> load_segments ops node_alloc hs s)"

definition load_elf :: "'k user_ops \<Rightarrow> memory_error option \<Rightarrow> elf_file option \<Rightarrow> 'k user_state \<Rightarrow> (int \<times> 'k user_state) option" where
  "load_elf ops node_alloc elf s = do {
     elf \<leftarrow> elf;
     s \<leftarrow> load_segments ops node_alloc (elf_headers elf) s;
     s \<leftarrow> add_mapping node_alloc USER_STACK_BOTTOM (USER_STACK_BOTTOM + USER_STACK_SIZE) s;
     Some (elf_entry elf, s) }"

section \<open>What the page table promises\<close>

text \<open>
  Frames that are handed out are new, and stay handed out; a page without a frame can be given one with at most three
  frames for the tables above it; this changes the frame of this page only.
\<close>

definition user_laws :: "'k user_ops \<Rightarrow> ('k \<Rightarrow> int set) \<Rightarrow> ('k \<Rightarrow> nat) \<Rightarrow> bool" where
  "user_laws ops owned spare \<longleftrightarrow>
     (\<forall>k. 0 < spare k \<longrightarrow> get_frame ops k \<noteq> None) \<and>
     (\<forall>k f k'. get_frame ops k = Some (f, k') \<longrightarrow>
        f \<notin> owned k \<and> f \<in> owned k' \<and> owned k \<subseteq> owned k' \<and> FRAME_SIZE dvd f \<and> page_frame ops k' = page_frame ops k \<and> spare k \<le> spare k' + 1) \<and>
     (\<forall>k p f. page_frame ops k p = None \<and> 3 \<le> spare k \<longrightarrow> map_page ops p f k \<noteq> None) \<and>
     (\<forall>k p f k'. map_page ops p f k = Some k' \<longrightarrow>
        page_frame ops k' = (page_frame ops k)(p \<mapsto> f) \<and> owned k \<subseteq> owned k' \<and> spare k \<le> spare k' + 3)"

lemma user_lawsD:
  assumes "user_laws ops owned spare"
  shows "0 < spare k \<Longrightarrow> \<exists>f k'. get_frame ops k = Some (f, k')"
    "get_frame ops k = Some (f, k') \<Longrightarrow>
       f \<notin> owned k \<and> f \<in> owned k' \<and> owned k \<subseteq> owned k' \<and> FRAME_SIZE dvd f \<and> page_frame ops k' = page_frame ops k \<and> spare k \<le> spare k' + 1"
    "page_frame ops k p = None \<Longrightarrow> 3 \<le> spare k \<Longrightarrow> \<exists>k'. map_page ops p f k = Some k'"
    "map_page ops p f k = Some k' \<Longrightarrow> page_frame ops k' = (page_frame ops k)(p \<mapsto> f) \<and> owned k \<subseteq> owned k' \<and> spare k \<le> spare k' + 3"
proof -
  note l = assms [unfolded user_laws_def, THEN conjunct1] assms [unfolded user_laws_def, THEN conjunct2, THEN conjunct1]
    assms [unfolded user_laws_def, THEN conjunct2, THEN conjunct2, THEN conjunct1]
    assms [unfolded user_laws_def, THEN conjunct2, THEN conjunct2, THEN conjunct2]
  show "0 < spare k \<Longrightarrow> \<exists>f k'. get_frame ops k = Some (f, k')" using l(1) by auto
  show "get_frame ops k = Some (f, k') \<Longrightarrow>
      f \<notin> owned k \<and> f \<in> owned k' \<and> owned k \<subseteq> owned k' \<and> FRAME_SIZE dvd f \<and> page_frame ops k' = page_frame ops k \<and> spare k \<le> spare k' + 1"
    using l(2) by blast
  show "page_frame ops k p = None \<Longrightarrow> 3 \<le> spare k \<Longrightarrow> \<exists>k'. map_page ops p f k = Some k'" using l(3) by auto
  show "map_page ops p f k = Some k' \<Longrightarrow> page_frame ops k' = (page_frame ops k)(p \<mapsto> f) \<and> owned k \<subseteq> owned k' \<and> spare k \<le> spare k' + 3"
    using l(4) by blast
qed

text \<open>The frames of a process are its own, one for each page.\<close>

definition user_ok :: "'k user_ops \<Rightarrow> ('k \<Rightarrow> int set) \<Rightarrow> 'k user_state \<Rightarrow> bool" where
  "user_ok ops owned s \<longleftrightarrow> span_ok (us_mappings s) \<and>
     (\<forall>p f. page_frame ops (us_kernel s) p = Some f \<longrightarrow> f \<in> owned (us_kernel s) \<and> FRAME_SIZE dvd f) \<and>
     (\<forall>p q f. page_frame ops (us_kernel s) p = Some f \<and> page_frame ops (us_kernel s) q = Some f \<longrightarrow> p = q)"

text \<open>The memory of the process: zero where no frame is mapped yet.\<close>

definition user_byte :: "'k user_ops \<Rightarrow> 'k user_state \<Rightarrow> int \<Rightarrow> nat" where
  "user_byte ops s p =
     (case page_frame ops (us_kernel s) (page_of p) of Some f \<Rightarrow> us_memory s (f + p mod FRAME_SIZE) | None \<Rightarrow> 0)"

text \<open>
  The addresses in the ranges registered for the process, for which a fault is handled.  Frames come in whole pages: once a page
  has its frame, the processor does not fault for the rest of the page either.
\<close>

definition may_use :: "'k user_state \<Rightarrow> int \<Rightarrow> bool" where
  "may_use s p \<longleftrightarrow> (\<exists>((a, b), _)\<in>set (span_list (us_mappings s)). a \<le> p \<and> p < b)"

text \<open>There are frames enough to fill the given pages.\<close>

definition frames_for :: "'k user_ops \<Rightarrow> ('k \<Rightarrow> nat) \<Rightarrow> int set \<Rightarrow> 'k user_state \<Rightarrow> bool" where
  "frames_for ops spare P s \<longleftrightarrow> finite P \<and> 4 * card (P - dom (page_frame ops (us_kernel s))) \<le> spare (us_kernel s)"

lemma span_containing_iff:
  assumes "span_ok ms"
  shows "span_containing ms p \<noteq> None \<longleftrightarrow> (\<exists>((a, b), _)\<in>set (span_list ms). a \<le> p \<and> p < b)"
proof (cases "find_loc (by_containing p) (spans ms)")
  case None
  with find_containing(1) [OF assms None] show ?thesis by (auto simp: span_containing_def)
next
  case (Some l)
  with find_containing(2) [OF assms Some] show ?thesis by (force simp: span_containing_def)
qed

lemma frame_offset:
  assumes "FRAME_SIZE dvd f" "FRAME_SIZE dvd g" "f \<noteq> g"
  shows "\<not> (g \<le> f + p mod FRAME_SIZE \<and> f + p mod FRAME_SIZE < g + FRAME_SIZE)"
proof -
  obtain i j where "f = 4096 * i" "g = 4096 * j" using assms(1,2) by (auto simp: FRAME_SIZE_def elim!: dvdE)
  then show ?thesis using assms(3) pos_mod_bound [of 4096 p] pos_mod_sign [of 4096 p] by (auto simp: FRAME_SIZE_def)
qed

section \<open>Faults\<close>

lemma fault_handled:
  assumes "user_laws ops owned spare" "user_ok ops owned s" "may_use s va" "0 \<le> va" "va < 2 ^ 48"
    and "page_frame ops (us_kernel s) (page_of va) = None" "4 \<le> spare (us_kernel s)"
  shows "\<exists>s'. page_fault_handler ops (Some s) va = Handled s' \<and> user_ok ops owned s' \<and> us_mappings s' = us_mappings s \<and>
    user_byte ops s' = user_byte ops s \<and> dom (page_frame ops (us_kernel s')) = insert (page_of va) (dom (page_frame ops (us_kernel s))) \<and>
    spare (us_kernel s) \<le> spare (us_kernel s') + 4"
proof -
  note laws = user_lawsD [OF assms(1)]
  have ok: "span_ok (us_mappings s)" "\<And>p f. page_frame ops (us_kernel s) p = Some f \<Longrightarrow> f \<in> owned (us_kernel s) \<and> FRAME_SIZE dvd f"
    "\<And>p q f. page_frame ops (us_kernel s) p = Some f \<Longrightarrow> page_frame ops (us_kernel s) q = Some f \<Longrightarrow> p = q"
    using assms(2) by (auto simp: user_ok_def)
  obtain v where v: "span_containing (us_mappings s) va = Some v"
    using assms(3) span_containing_iff [OF ok(1), of va] by (auto simp: may_use_def)
  from laws(1) assms(7) obtain f k1 where f: "get_frame ops (us_kernel s) = Some (f, k1)" by (metis gr0I not_numeral_le_zero)
  note f' = laws(2) [OF f]
  have "page_frame ops k1 (page_of va) = None" "3 \<le> spare k1" using f' assms(6,7) by auto
  from laws(3) [OF this] obtain k2 where k2: "map_page ops (page_of va) f k1 = Some k2" by blast
  note k2' = laws(4) [OF k2]
  let ?s = "s\<lparr>us_kernel := k2, us_memory := zero_frame f (us_memory s)\<rparr>"
  have tab: "page_frame ops k2 = (page_frame ops (us_kernel s))(page_of va \<mapsto> f)" using k2' f' by simp
  have new: "g \<noteq> f" if "page_frame ops (us_kernel s) p = Some g" for p g using ok(2) [OF that] f' by blast
  have "va div 2 ^ 48 = 0" using assms(4,5) by simp
  then have h: "page_fault_handler ops (Some s) va = Handled ?s" using v f k2 by (simp add: page_fault_handler_def Let_def)
  have "user_byte ops ?s p = user_byte ops s p" for p
  proof (cases "page_of p = page_of va")
    case True
    have "0 \<le> p mod FRAME_SIZE" "p mod FRAME_SIZE < FRAME_SIZE" by (simp_all add: FRAME_SIZE_def)
    then show ?thesis using True assms(6) tab by (simp add: user_byte_def zero_frame_def)
  next
    case False
    show ?thesis
    proof (cases "page_frame ops (us_kernel s) (page_of p)")
      case None
      then show ?thesis using False tab by (simp add: user_byte_def)
    next
      case (Some g)
      have "us_memory ?s (g + p mod FRAME_SIZE) = us_memory s (g + p mod FRAME_SIZE)"
        using frame_offset [of g f p] ok(2) [OF Some] new [OF Some] f' by (auto simp: zero_frame_def)
      then show ?thesis using False Some tab by (simp add: user_byte_def)
    qed
  qed
  moreover have "user_ok ops owned ?s"
  proof -
    have "g \<in> owned k2 \<and> FRAME_SIZE dvd g" if "page_frame ops k2 p = Some g" for p g
      using that ok(2) f' k2' tab by (auto split: if_splits)
    moreover have "p = q" if "page_frame ops k2 p = Some g" "page_frame ops k2 q = Some g" for p q g
      using that ok(3) [of p g q] new [of p g] new [of q g] tab by (auto split: if_splits)
    ultimately show ?thesis using ok(1) by (auto simp: user_ok_def)
  qed
  ultimately show ?thesis using h tab f' k2' by (intro exI [of _ ?s]) (auto simp: fun_eq_iff)
qed

lemma fault_unhandled:
  assumes "span_ok (us_mappings s)" "\<not> (0 \<le> va \<and> va < 2 ^ 48 \<and> may_use s va)"
  shows "page_fault_handler ops (Some s) va = Unhandled" "page_fault_handler ops None va = Unhandled"
proof -
  have "va div 2 ^ 48 = 0 \<longleftrightarrow> 0 \<le> va \<and> va < 2 ^ 48" by (auto simp: zdiv_eq_0_iff)
  then show "page_fault_handler ops (Some s) va = Unhandled"
    using assms(2) span_containing_iff [OF assms(1), of va] by (auto simp: page_fault_handler_def may_use_def split: option.splits)
  show "page_fault_handler ops None va = Unhandled" by (simp add: page_fault_handler_def)
qed

section \<open>Reading and writing\<close>

text \<open>A frame for the page of the address, by the handler if there is none yet.\<close>

lemma user_page_ready:
  assumes "user_laws ops owned spare" "user_ok ops owned s" "may_use s va" "0 \<le> va" "va < 2 ^ 48"
    and "frames_for ops spare P s" "page_of va \<in> P"
  obtains s' f where "user_store ops s va b = user_store ops s' va b" "user_load ops s va = user_load ops s' va"
    "user_ok ops owned s'" "us_mappings s' = us_mappings s" "user_byte ops s' = user_byte ops s" "frames_for ops spare P s'"
    "page_frame ops (us_kernel s') (page_of va) = Some f"
proof (cases "page_frame ops (us_kernel s) (page_of va)")
  case (Some f)
  with that [of s f] assms show ?thesis by simp
next
  case None
  let ?D = "dom (page_frame ops (us_kernel s))"
  have fin: "finite (P - ?D)" and mem: "page_of va \<in> P - ?D" using None assms(6,7) by (auto simp: frames_for_def)
  then have "0 < card (P - ?D)" by (auto simp: card_gt_0_iff)
  then have "4 \<le> spare (us_kernel s)" using assms(6) by (simp add: frames_for_def)
  from fault_handled [OF assms(1-5) None this] obtain s' where
    s': "page_fault_handler ops (Some s) va = Handled s'" "user_ok ops owned s'" "us_mappings s' = us_mappings s"
    "user_byte ops s' = user_byte ops s" "dom (page_frame ops (us_kernel s')) = insert (page_of va) ?D"
    "spare (us_kernel s) \<le> spare (us_kernel s') + 4" by blast
  have "P - insert (page_of va) ?D = (P - ?D) - {page_of va}" by auto
  then have "card (P - insert (page_of va) ?D) = card (P - ?D) - 1" using mem fin by simp
  then have "frames_for ops spare P s'" using assms(6) s'(5,6) \<open>0 < card (P - ?D)\<close> by (auto simp: frames_for_def)
  moreover obtain f where "page_frame ops (us_kernel s') (page_of va) = Some f" using s'(5) by auto
  moreover have "user_store ops s va b = user_store ops s' va b" "user_load ops s va = user_load ops s' va"
    by (subst user_store.simps, simp add: None s'(1)) (subst user_load.simps, simp add: None s'(1))
  ultimately show ?thesis using that [of s' f] s' by blast
qed

lemma user_store_spec:
  assumes "user_laws ops owned spare" "user_ok ops owned s" "may_use s va" "0 \<le> va" "va < 2 ^ 48"
    and "frames_for ops spare P s" "page_of va \<in> P"
  shows "\<exists>s'. user_store ops s va b = Some s' \<and> user_ok ops owned s' \<and> us_mappings s' = us_mappings s \<and> frames_for ops spare P s' \<and>
    user_byte ops s' = (user_byte ops s)(va := b)"
proof -
  obtain s1 f where s1: "user_store ops s va b = user_store ops s1 va b" "user_ok ops owned s1" "us_mappings s1 = us_mappings s"
    "user_byte ops s1 = user_byte ops s" "frames_for ops spare P s1" "page_frame ops (us_kernel s1) (page_of va) = Some f"
    by (rule user_page_ready [OF assms, of b])
  let ?s = "s1\<lparr>us_memory := (us_memory s1)(f + va mod FRAME_SIZE := b)\<rparr>"
  have st: "user_store ops s1 va b = Some ?s" by (subst user_store.simps) (simp add: s1(6))
  have "user_byte ops ?s p = ((user_byte ops s1)(va := b)) p" for p
  proof (cases "p = va")
    case True
    then show ?thesis using s1(6) by (simp add: user_byte_def)
  next
    case False
    show ?thesis
    proof (cases "page_frame ops (us_kernel s1) (page_of p)")
      case None
      then show ?thesis using False by (simp add: user_byte_def)
    next
      case (Some g)
      have "g + p mod FRAME_SIZE \<noteq> f + va mod FRAME_SIZE"
      proof (cases "g = f")
        case True
        then have "page_of p = page_of va" using s1(2,6) Some by (auto simp: user_ok_def)
        then show ?thesis using True False by (auto simp: page_of_def)
      next
        case ne: False
        have "FRAME_SIZE dvd g" "FRAME_SIZE dvd f" using s1(2,6) Some by (auto simp: user_ok_def)
        from frame_offset [OF this ne, of p] show ?thesis by (auto simp: FRAME_SIZE_def)
      qed
      then show ?thesis using Some False by (simp add: user_byte_def)
    qed
  qed
  then show ?thesis using st s1 by (intro exI [of _ ?s]) (auto simp: user_ok_def frames_for_def fun_eq_iff)
qed

lemma user_load_spec:
  assumes "user_laws ops owned spare" "user_ok ops owned s" "may_use s va" "0 \<le> va" "va < 2 ^ 48"
    and "frames_for ops spare P s" "page_of va \<in> P"
  shows "\<exists>s'. user_load ops s va = Some (user_byte ops s va, s') \<and> user_ok ops owned s' \<and> us_mappings s' = us_mappings s \<and>
    user_byte ops s' = user_byte ops s"
proof -
  obtain s1 f where s1: "user_load ops s va = user_load ops s1 va" "user_ok ops owned s1" "us_mappings s1 = us_mappings s"
    "user_byte ops s1 = user_byte ops s" "page_frame ops (us_kernel s1) (page_of va) = Some f"
    by (rule user_page_ready [OF assms])
  have "user_load ops s1 va = Some (user_byte ops s1 va, s1)" by (subst user_load.simps) (simp add: s1(5) user_byte_def)
  with s1 show ?thesis by auto
qed

lemma user_copy_spec:
  assumes "user_laws ops owned spare" "user_ok ops owned s" "frames_for ops spare P s"
    and "\<forall>p. va \<le> p \<and> p < va + int (length bs) \<longrightarrow> may_use s p \<and> 0 \<le> p \<and> p < 2 ^ 48 \<and> page_of p \<in> P"
  shows "\<exists>s'. user_copy ops s va bs = Some s' \<and> user_ok ops owned s' \<and> us_mappings s' = us_mappings s \<and> frames_for ops spare P s' \<and>
    (\<forall>p. user_byte ops s' p = (if va \<le> p \<and> p < va + int (length bs) then bs ! nat (p - va) else user_byte ops s p))"
  using assms(2-4)
proof (induction bs arbitrary: s va)
  case Nil
  then show ?case by auto
next
  case (Cons b bs)
  have "may_use s va" "0 \<le> va" "va < 2 ^ 48" "page_of va \<in> P" using Cons.prems(3) by auto
  from user_store_spec [OF assms(1) Cons.prems(1) this(1-3) Cons.prems(2) this(4), of b] obtain s1 where
    s1: "user_store ops s va b = Some s1" "user_ok ops owned s1" "us_mappings s1 = us_mappings s" "frames_for ops spare P s1"
    "user_byte ops s1 = (user_byte ops s)(va := b)" by blast
  have "\<forall>p. va + 1 \<le> p \<and> p < va + 1 + int (length bs) \<longrightarrow> may_use s1 p \<and> 0 \<le> p \<and> p < 2 ^ 48 \<and> page_of p \<in> P"
    using Cons.prems(3) s1(3) by (auto simp: may_use_def)
  from Cons.IH [OF s1(2,4) this] obtain s2 where
    s2: "user_copy ops s1 (va + 1) bs = Some s2" "user_ok ops owned s2" "us_mappings s2 = us_mappings s1" "frames_for ops spare P s2"
    "\<forall>p. user_byte ops s2 p = (if va + 1 \<le> p \<and> p < va + 1 + int (length bs) then bs ! nat (p - (va + 1)) else user_byte ops s1 p)" by blast
  have "user_byte ops s2 p = (if va \<le> p \<and> p < va + int (length (b # bs)) then (b # bs) ! nat (p - va) else user_byte ops s p)" for p
  proof (cases "va + 1 \<le> p")
    case True
    then have "nat (p - va) = Suc (nat (p - (va + 1)))" by linarith
    then show ?thesis using s2(5) s1(5) True by auto
  next
    case False
    then show ?thesis using s2(5) s1(5) by (cases "p = va") auto
  qed
  with s1 s2 show ?case by auto
qed

section \<open>Loading\<close>

definition segment_apart :: "int \<times> int \<Rightarrow> int \<times> int \<Rightarrow> bool" where
  "segment_apart x y \<longleftrightarrow> snd x \<le> fst y \<or> snd y \<le> fst x"

definition segment_range :: "program_header \<Rightarrow> int \<times> int" where
  "segment_range h = (ph_vaddr h, ph_vaddr h + ph_mem_size h)"

abbreviation loads :: "program_header list \<Rightarrow> program_header list" where
  "loads hs \<equiv> filter (\<lambda>h. ph_type h = Some Load) hs"

definition STACK_RANGE :: "int \<times> int" where
  "STACK_RANGE = (USER_STACK_BOTTOM, USER_STACK_BOTTOM + USER_STACK_SIZE)"

text \<open>
  A well-formed program: every segment is not empty, has its data, which is not longer than the segment, and lies in the lower
  half of the addresses; no two segments overlap, and none overlaps the stack.
\<close>

definition segment_ok :: "program_header \<Rightarrow> bool" where
  "segment_ok h \<longleftrightarrow> 0 \<le> ph_vaddr h \<and> 0 < ph_mem_size h \<and> ph_vaddr h + ph_mem_size h < 2 ^ 47 \<and> ph_file_size h \<le> ph_mem_size h \<and>
     (case ph_data h of None \<Rightarrow> False | Some bs \<Rightarrow> int (length bs) = ph_file_size h) \<and> segment_apart (segment_range h) STACK_RANGE"

definition segments_ok :: "program_header list \<Rightarrow> bool" where
  "segments_ok hs \<longleftrightarrow> (\<forall>h\<in>set hs. ph_type h \<noteq> None) \<and> (\<forall>h\<in>set (loads hs). segment_ok h) \<and>
     sorted_wrt segment_apart (map segment_range (loads hs))"

definition in_file :: "int \<Rightarrow> program_header \<Rightarrow> bool" where
  "in_file p h \<longleftrightarrow> ph_vaddr h \<le> p \<and> p < ph_vaddr h + ph_file_size h"

text \<open>The pages that hold data from the file, and what the memory of the program is.\<close>

definition file_pages :: "program_header list \<Rightarrow> int set" where
  "file_pages hs = (\<Union>h\<in>set (loads hs). page_of ` {ph_vaddr h..<ph_vaddr h + ph_file_size h})"

definition program_byte :: "program_header list \<Rightarrow> int \<Rightarrow> nat" where
  "program_byte hs p = (case find (in_file p) (loads hs) of Some h \<Rightarrow> the (ph_data h) ! nat (p - ph_vaddr h) | None \<Rightarrow> 0)"

lemma add_mapping_spec:
  assumes "span_ok (us_mappings s)" "a < b" "range_start (us_mappings s) \<le> a" "b \<le> range_end (us_mappings s)"
    and "\<forall>r\<in>fst ` set (span_list (us_mappings s)). segment_apart (a, b) r"
  shows "\<exists>s'. add_mapping None a b s = Some s' \<and> span_ok (us_mappings s') \<and> us_kernel s' = us_kernel s \<and> us_memory s' = us_memory s \<and>
    range_start (us_mappings s') = range_start (us_mappings s) \<and> range_end (us_mappings s') = range_end (us_mappings s) \<and>
    fst ` set (span_list (us_mappings s')) = insert (a, b) (fst ` set (span_list (us_mappings s)))"
proof -
  have free: "is_free (us_mappings s) a b" using assms(5) by (force simp: is_free_def segment_apart_def)
  let ?ms = "put_span (us_mappings s) \<lparr>sp_start = a, sp_end = b, sp_value = ()\<rparr>"
  obtain ys zs where yz: "span_list (us_mappings s) = ys @ zs" "span_list ?ms = ys @ ((a, b), ()) # zs"
    "range_start (us_mappings s) \<le> a \<Longrightarrow> b \<le> range_end (us_mappings s) \<Longrightarrow> span_ok ?ms"
    using put_span_spec [OF assms(1,2) free, of "()"] by metis
  have "span_insert None (us_mappings s) a b () = Inr ?ms"
    using find_overlap [OF assms(1,2)] free by (simp add: span_insert_def)
  then have "add_mapping None a b s = Some (s\<lparr>us_mappings := ?ms\<rparr>)" by (simp add: add_mapping_def)
  moreover have "range_start ?ms = range_start (us_mappings s)" "range_end ?ms = range_end (us_mappings s)" by (simp_all add: put_span_def)
  ultimately show ?thesis using yz assms(3,4) by (auto simp: image_Un)
qed

text \<open>What loading keeps, with the ranges that have been added.\<close>

definition loading :: "'k user_ops \<Rightarrow> ('k \<Rightarrow> int set) \<Rightarrow> ('k \<Rightarrow> nat) \<Rightarrow> int set \<Rightarrow> (int \<times> int) set \<Rightarrow> (int \<Rightarrow> nat) \<Rightarrow> 'k user_state \<Rightarrow> bool" where
  "loading ops owned spare P R view s \<longleftrightarrow> user_ok ops owned s \<and> frames_for ops spare P s \<and>
     range_start (us_mappings s) = 0 \<and> range_end (us_mappings s) = 2 ^ 48 \<and>
     fst ` set (span_list (us_mappings s)) = R \<and> user_byte ops s = view"

lemma loading_mapping:
  assumes "loading ops owned spare P R view s" "0 \<le> a" "a < b" "b \<le> 2 ^ 48" "\<forall>r\<in>R. segment_apart (a, b) r"
  shows "\<exists>s'. add_mapping None a b s = Some s' \<and> loading ops owned spare P (insert (a, b) R) view s'"
proof -
  have l: "span_ok (us_mappings s)" "range_start (us_mappings s) \<le> a" "b \<le> range_end (us_mappings s)"
    "\<forall>r\<in>fst ` set (span_list (us_mappings s)). segment_apart (a, b) r"
    using assms by (simp_all add: loading_def user_ok_def)
  from add_mapping_spec [OF l(1) assms(3) l(2-4)] obtain s' where
    s': "add_mapping None a b s = Some s'" "span_ok (us_mappings s')" "us_kernel s' = us_kernel s" "us_memory s' = us_memory s"
    "range_start (us_mappings s') = range_start (us_mappings s)" "range_end (us_mappings s') = range_end (us_mappings s)"
    "fst ` set (span_list (us_mappings s')) = insert (a, b) (fst ` set (span_list (us_mappings s)))" by blast
  have "user_byte ops s' = user_byte ops s" by (intro ext) (simp only: user_byte_def s'(3,4))
  with s' assms(1) show ?thesis by (auto simp: loading_def user_ok_def frames_for_def)
qed

lemma load_segment_spec:
  assumes "user_laws ops owned spare" "loading ops owned spare P R view s" "segment_ok h"
    and "\<forall>r\<in>R. segment_apart (segment_range h) r" "page_of ` {ph_vaddr h..<ph_vaddr h + ph_file_size h} \<subseteq> P"
  shows "\<exists>s'. load_segment ops None h s = Some s' \<and>
    loading ops owned spare P (insert (segment_range h) R) (\<lambda>p. if in_file p h then the (ph_data h) ! nat (p - ph_vaddr h) else view p) s'"
proof -
  let ?a = "ph_vaddr h" and ?b = "ph_vaddr h + ph_mem_size h"
  obtain bs where bs: "ph_data h = Some bs" "int (length bs) = ph_file_size h" using assms(3) by (auto simp: segment_ok_def split: option.splits)
  have ab: "0 \<le> ?a" "?a < ?b" "?b < 2 ^ 47" "ph_file_size h \<le> ph_mem_size h" using assms(3) by (auto simp: segment_ok_def)
  then have va: "virt_addr ?a = Some ?a" "virt_addr ?b = Some ?b" by (auto simp: virt_addr_def)
  have "?b \<le> 2 ^ 48" using ab(3) by simp
  from loading_mapping [OF assms(2) ab(1,2) this] assms(4) obtain s1 where
    s1: "add_mapping None ?a ?b s = Some s1" "loading ops owned spare P (insert (?a, ?b) R) view s1" by (auto simp: segment_range_def)
  have u: "user_ok ops owned s1" "frames_for ops spare P s1" using s1(2) by (simp_all add: loading_def)
  have in1: "(?a, ?b) \<in> fst ` set (span_list (us_mappings s1))" using s1(2) by (simp add: loading_def)
  have "may_use s1 p \<and> 0 \<le> p \<and> p < 2 ^ 48 \<and> page_of p \<in> P" if "?a \<le> p \<and> p < ?a + int (length bs)" for p
  proof -
    have "p < ?b" using that bs(2) ab(4) by simp
    then have "may_use s1 p" using in1 that by (force simp: may_use_def)
    then show ?thesis using that ab(1,3) \<open>p < ?b\<close> bs(2) assms(5) by auto
  qed
  then have "\<forall>p. ?a \<le> p \<and> p < ?a + int (length bs) \<longrightarrow> may_use s1 p \<and> 0 \<le> p \<and> p < 2 ^ 48 \<and> page_of p \<in> P" by blast
  from user_copy_spec [OF assms(1) u this] obtain s2 where
    s2: "user_copy ops s1 ?a bs = Some s2" "user_ok ops owned s2" "us_mappings s2 = us_mappings s1" "frames_for ops spare P s2"
    "\<forall>p. user_byte ops s2 p = (if ?a \<le> p \<and> p < ?a + int (length bs) then bs ! nat (p - ?a) else user_byte ops s1 p)" by blast
  have "load_segment ops None h s = Some s2" using va s1(1) bs s2(1) by (simp add: load_segment_def)
  moreover have "user_byte ops s2 = (\<lambda>p. if in_file p h then the (ph_data h) ! nat (p - ph_vaddr h) else view p)"
    using s2(5) s1(2) bs by (auto simp: loading_def in_file_def fun_eq_iff)
  ultimately show ?thesis using s1(2) s2(2-4) by (auto simp: loading_def segment_range_def)
qed

lemma load_segments_spec:
  assumes "user_laws ops owned spare" "loading ops owned spare P R view s" "segments_ok hs"
    and "\<forall>h\<in>set (loads hs). \<forall>r\<in>R. segment_apart (segment_range h) r" "file_pages hs \<subseteq> P"
  shows "\<exists>s'. load_segments ops None hs s = Some s' \<and>
    loading ops owned spare P (segment_range ` set (loads hs) \<union> R)
      (\<lambda>p. case find (in_file p) (loads hs) of Some h \<Rightarrow> the (ph_data h) ! nat (p - ph_vaddr h) | None \<Rightarrow> view p) s'"
  using assms(2-5)
proof (induction hs arbitrary: s R view)
  case (Cons h hs)
  have ok: "segments_ok hs" "file_pages hs \<subseteq> P" using Cons.prems(2,4) by (auto simp: segments_ok_def file_pages_def split: if_splits)
  obtain t where t: "ph_type h = Some t" using Cons.prems(2) by (auto simp: segments_ok_def)
  show ?case
  proof (cases t)
    case OtherSegment
    with Cons.IH [OF Cons.prems(1) ok(1) _ ok(2)] Cons.prems(3) t show ?thesis by simp
  next
    case Load
    have sg: "segment_ok h" "\<forall>r\<in>R. segment_apart (segment_range h) r" "page_of ` {ph_vaddr h..<ph_vaddr h + ph_file_size h} \<subseteq> P"
      and later: "\<forall>g\<in>set (loads hs). segment_apart (segment_range h) (segment_range g)"
      using Cons.prems(2-4) t Load by (auto simp: segments_ok_def file_pages_def)
    let ?v = "\<lambda>p. if in_file p h then the (ph_data h) ! nat (p - ph_vaddr h) else view p"
    from load_segment_spec [OF assms(1) Cons.prems(1) sg] obtain s1 where
      s1: "load_segment ops None h s = Some s1" "loading ops owned spare P (insert (segment_range h) R) ?v s1" by blast
    have "\<forall>g\<in>set (loads hs). \<forall>r\<in>insert (segment_range h) R. segment_apart (segment_range g) r"
      using later Cons.prems(3) by (auto simp: segment_apart_def)
    from Cons.IH [OF s1(2) ok(1) this ok(2)] obtain s2 where
      s2: "load_segments ops None hs s1 = Some s2"
      "loading ops owned spare P (segment_range ` set (loads hs) \<union> insert (segment_range h) R)
        (\<lambda>p. case find (in_file p) (loads hs) of Some h \<Rightarrow> the (ph_data h) ! nat (p - ph_vaddr h) | None \<Rightarrow> ?v p) s2" by blast
    have one: "find (in_file p) (loads hs) = None" if "in_file p h" for p
    proof -
      have "\<not> in_file p g" if g: "g \<in> set (loads hs)" for g
      proof -
        have "segment_apart (segment_range h) (segment_range g)" "ph_file_size h \<le> ph_mem_size h" "ph_file_size g \<le> ph_mem_size g"
          using later g sg(1) ok(1) by (auto simp: segments_ok_def segment_ok_def)
        then show ?thesis using \<open>in_file p h\<close> by (auto simp: in_file_def segment_apart_def segment_range_def)
      qed
      then show ?thesis by (auto simp: find_None_iff)
    qed
    have "(\<lambda>p. case find (in_file p) (loads hs) of Some h \<Rightarrow> the (ph_data h) ! nat (p - ph_vaddr h) | None \<Rightarrow> ?v p) =
      (\<lambda>p. case find (in_file p) (loads (h # hs)) of Some h \<Rightarrow> the (ph_data h) ! nat (p - ph_vaddr h) | None \<Rightarrow> view p)"
      using one t Load by (auto simp: fun_eq_iff split: option.splits)
    with s1(1) s2 t Load show ?thesis by simp
  qed
qed simp

section \<open>Claims\<close>

text \<open>
  C39.  Demand paging gives a process the plain memory it expects: inside its ranges a store changes exactly one byte and a load
  returns what was stored last, zero where nothing was, whether or not the page had a frame before; both return as long as
  there are frames.  An access outside its ranges, or by a thread without a process, is never handled.
\<close>

theorem demand_paging_correct:
  assumes "user_laws ops owned spare" "user_ok ops owned s"
  shows "(may_use s va \<and> 0 \<le> va \<and> va < 2 ^ 48 \<and> 4 \<le> spare (us_kernel s) \<longrightarrow>
      (\<exists>s'. user_store ops s va b = Some s' \<and> user_ok ops owned s' \<and> user_byte ops s' = (user_byte ops s)(va := b)) \<and>
      (\<exists>s'. user_load ops s va = Some (user_byte ops s va, s') \<and> user_ok ops owned s' \<and> user_byte ops s' = user_byte ops s)) \<and>
    (\<not> (0 \<le> va \<and> va < 2 ^ 48 \<and> may_use s va) \<longrightarrow> page_fault_handler ops (Some s) va = Unhandled) \<and>
    page_fault_handler ops None va = Unhandled"
proof (intro conjI impI)
  assume a: "may_use s va \<and> 0 \<le> va \<and> va < 2 ^ 48 \<and> 4 \<le> spare (us_kernel s)"
  have "card ({page_of va} - dom (page_frame ops (us_kernel s))) \<le> 1" by (rule order_trans [OF card_mono [of "{page_of va}"]]) auto
  with a have f: "frames_for ops spare {page_of va} s" by (simp add: frames_for_def)
  show "\<exists>s'. user_store ops s va b = Some s' \<and> user_ok ops owned s' \<and> user_byte ops s' = (user_byte ops s)(va := b)"
    using user_store_spec [OF assms, of va "{page_of va}" b] a f by blast
  show "\<exists>s'. user_load ops s va = Some (user_byte ops s va, s') \<and> user_ok ops owned s' \<and> user_byte ops s' = user_byte ops s"
    using user_load_spec [OF assms, of va "{page_of va}"] a f by blast
next
  have "span_ok (us_mappings s)" using assms(2) by (simp add: user_ok_def)
  from fault_unhandled(1) [OF this] show "\<not> (0 \<le> va \<and> va < 2 ^ 48 \<and> may_use s va) \<Longrightarrow> page_fault_handler ops (Some s) va = Unhandled" .
qed (simp add: page_fault_handler_def)

text \<open>
  C40.  Loading a well-formed program into a new process returns its entry point, if there are frames for the pages that hold
  data and four in all for each: the memory of the process is then the data of the segments and zero elsewhere, and the
  process may use exactly its segments and the stack.
\<close>

theorem load_elf_correct:
  assumes "user_laws ops owned spare" "user_ok ops owned s" "us_mappings s = user_mappings_new"
    and "\<forall>p. page_frame ops (us_kernel s) p = None"
    and "segments_ok (elf_headers elf)" "4 * card (file_pages (elf_headers elf)) \<le> spare (us_kernel s)"
  shows "\<exists>s'. load_elf ops None (Some elf) s = Some (elf_entry elf, s') \<and> user_ok ops owned s' \<and>
    (\<forall>p. user_byte ops s' p = program_byte (elf_headers elf) p) \<and>
    (\<forall>p. may_use s' p \<longleftrightarrow> (\<exists>(a, b)\<in>insert STACK_RANGE (segment_range ` set (loads (elf_headers elf))). a \<le> p \<and> p < b))"
proof -
  let ?hs = "elf_headers elf" and ?P = "file_pages (elf_headers elf)"
  have "finite ?P" by (simp add: file_pages_def)
  moreover have "dom (page_frame ops (us_kernel s)) = {}" using assms(4) by auto
  moreover have "user_byte ops s = (\<lambda>_. 0)" using assms(4) by (simp add: user_byte_def fun_eq_iff)
  ultimately have start: "loading ops owned spare ?P {} (\<lambda>_. 0) s"
    using assms(2,3,6) by (simp add: loading_def frames_for_def user_mappings_new_def span_alloc_new_def span_list_def)
  from load_segments_spec [OF assms(1) start assms(5)] obtain s1 where
    s1: "load_segments ops None ?hs s = Some s1" "loading ops owned spare ?P (segment_range ` set (loads ?hs) \<union> {}) (program_byte ?hs) s1"
    unfolding program_byte_def [abs_def] by auto
  have st: "0 \<le> USER_STACK_BOTTOM" "USER_STACK_BOTTOM < USER_STACK_BOTTOM + USER_STACK_SIZE" "USER_STACK_BOTTOM + USER_STACK_SIZE \<le> 2 ^ 48"
    by (simp_all add: USER_STACK_BOTTOM_def USER_STACK_SIZE_def)
  have "\<forall>r\<in>segment_range ` set (loads ?hs) \<union> {}. segment_apart (USER_STACK_BOTTOM, USER_STACK_BOTTOM + USER_STACK_SIZE) r"
    using assms(5) by (auto simp: segments_ok_def segment_ok_def STACK_RANGE_def segment_apart_def)
  from loading_mapping [OF s1(2) st this] obtain s2 where
    s2: "add_mapping None USER_STACK_BOTTOM (USER_STACK_BOTTOM + USER_STACK_SIZE) s1 = Some s2"
    "loading ops owned spare ?P (insert STACK_RANGE (segment_range ` set (loads ?hs))) (program_byte ?hs) s2" by (auto simp: STACK_RANGE_def)
  have "load_elf ops None (Some elf) s = Some (elf_entry elf, s2)" using s1(1) s2(1) by (simp add: load_elf_def)
  moreover have R: "fst ` set (span_list (us_mappings s2)) = insert STACK_RANGE (segment_range ` set (loads ?hs))"
    using s2(2) by (simp add: loading_def)
  have "may_use s2 p \<longleftrightarrow> (\<exists>(a, b)\<in>fst ` set (span_list (us_mappings s2)). a \<le> p \<and> p < b)" for p by (force simp: may_use_def)
  then have "may_use s2 p \<longleftrightarrow> (\<exists>(a, b)\<in>insert STACK_RANGE (segment_range ` set (loads ?hs)). a \<le> p \<and> p < b)" for p
    unfolding R .
  ultimately show ?thesis using s2(2) by (auto simp: loading_def)
qed

text \<open>A page table as a map, with frames that are handed out in order.\<close>

definition sample_ops :: "(int \<times> (int \<rightharpoonup> int)) user_ops" where
  "sample_ops = \<lparr>get_frame = (\<lambda>(n, t). Some (FRAME_SIZE * n, n + 1, t)), map_page = (\<lambda>p f (n, t). Some (n, t(p \<mapsto> f))), page_frame = snd\<rparr>"

definition sample_owned :: "int \<times> (int \<rightharpoonup> int) \<Rightarrow> int set" where
  "sample_owned k = {f. f < FRAME_SIZE * fst k}"

lemma sample_laws: "user_laws sample_ops sample_owned (\<lambda>_. 1000)"
  by (auto simp: user_laws_def sample_ops_def sample_owned_def FRAME_SIZE_def)

definition sample_user :: "(int \<times> (int \<rightharpoonup> int)) user_state" where
  "sample_user = \<lparr>us_mappings = user_mappings_new, us_kernel = (5, Map.empty), us_memory = (\<lambda>_. 7)\<rparr>"

definition sample_elf :: elf_file where
  "sample_elf = \<lparr>elf_headers = [
     \<lparr>ph_type = Some Load, ph_vaddr = 4198400, ph_mem_size = 3, ph_file_size = 2, ph_data = Some [195, 144]\<rparr>,
     \<lparr>ph_type = Some OtherSegment, ph_vaddr = 0, ph_mem_size = 0, ph_file_size = 0, ph_data = None\<rparr>], elf_entry = 4198400\<rparr>"

lemma sample_user_ok: "user_ok sample_ops sample_owned sample_user"
  by (simp add: user_ok_def sample_user_def sample_ops_def user_mappings_new_def span_alloc_new_def span_ok_def)

lemma sample_elf_ok: "segments_ok (elf_headers sample_elf)" "4 * card (file_pages (elf_headers sample_elf)) \<le> 1000"
proof -
  show "segments_ok (elf_headers sample_elf)"
    by (simp add: sample_elf_def segments_ok_def segment_ok_def segment_range_def segment_apart_def STACK_RANGE_def USER_STACK_BOTTOM_def)
  have "file_pages (elf_headers sample_elf) \<subseteq> {4198400}"
  proof -
    have "x = 4198400 \<or> x = 4198401" if "4198400 \<le> x" "x < 4198402" for x :: int using that by linarith
    then show ?thesis by (fastforce simp: sample_elf_def file_pages_def page_of_def FRAME_SIZE_def)
  qed
  from card_mono [OF _ this] show "4 * card (file_pages (elf_headers sample_elf)) \<le> 1000" by simp
qed

lemma load_elf_correct_witness:
  "\<exists>s'. load_elf sample_ops None (Some sample_elf) sample_user = Some (4198400, s') \<and> user_byte sample_ops s' 4198400 = 195 \<and>
     user_byte sample_ops s' 4198402 = 0 \<and> may_use s' 4198402 \<and> \<not> may_use s' 4198403"
proof -
  have e: "\<forall>p. page_frame sample_ops (us_kernel sample_user) p = None" "us_mappings sample_user = user_mappings_new"
    by (simp_all add: sample_ops_def sample_user_def)
  from load_elf_correct [OF sample_laws sample_user_ok e(2,1) sample_elf_ok] obtain s' where
    s': "load_elf sample_ops None (Some sample_elf) sample_user = Some (elf_entry sample_elf, s')"
    "\<forall>p. user_byte sample_ops s' p = program_byte (elf_headers sample_elf) p"
    "\<forall>p. may_use s' p \<longleftrightarrow> (\<exists>(a, b)\<in>insert STACK_RANGE (segment_range ` set (loads (elf_headers sample_elf))). a \<le> p \<and> p < b)" by blast
  then show ?thesis
    by (auto simp: sample_elf_def program_byte_def in_file_def segment_range_def STACK_RANGE_def USER_STACK_BOTTOM_def)
qed

lemma demand_paging_correct_witness:
  "\<exists>s. add_mapping None 8192 8200 sample_user = Some s \<and>
     (\<exists>s'. user_store sample_ops s 8195 5 = Some s' \<and> user_byte sample_ops s' 8195 = 5 \<and> user_byte sample_ops s' 8196 = 0) \<and>
     page_fault_handler sample_ops (Some s) 8200 = Unhandled"
proof -
  have "span_ok (us_mappings sample_user)" "range_start (us_mappings sample_user) \<le> 8192" "8200 \<le> range_end (us_mappings sample_user)"
    "\<forall>r\<in>fst ` set (span_list (us_mappings sample_user)). segment_apart (8192, 8200) r"
    using sample_user_ok by (simp_all add: user_ok_def sample_user_def user_mappings_new_def span_alloc_new_def span_list_def)
  from add_mapping_spec [OF this(1) _ this(2-4)] obtain s where
    s: "add_mapping None 8192 8200 sample_user = Some s" "span_ok (us_mappings s)" "us_kernel s = (5, Map.empty)"
    "fst ` set (span_list (us_mappings s)) = {(8192, 8200)}"
    by (auto simp: sample_user_def user_mappings_new_def span_alloc_new_def span_list_def)
  have ok: "user_ok sample_ops sample_owned s" using s(2,3) by (simp add: user_ok_def sample_ops_def)
  have "may_use s p \<longleftrightarrow> (\<exists>(a, b)\<in>fst ` set (span_list (us_mappings s)). a \<le> p \<and> p < b)" for p by (force simp: may_use_def)
  then have use: "may_use s p \<longleftrightarrow> 8192 \<le> p \<and> p < 8200" for p unfolding s(4) by simp
  have zero: "user_byte sample_ops s p = 0" for p using s(3) by (simp add: user_byte_def sample_ops_def)
  note paging = demand_paging_correct [OF sample_laws ok]
  from paging [of 8195 5] use [of 8195] zero have "\<exists>s'. user_store sample_ops s 8195 5 = Some s' \<and> user_byte sample_ops s' 8195 = 5 \<and> user_byte sample_ops s' 8196 = 0"
    by auto
  moreover from paging [of 8200] use [of 8200] have "page_fault_handler sample_ops (Some s) 8200 = Unhandled" by simp
  ultimately show ?thesis using s(1) by blast
qed

end
