(* ===== verification/Launch.thy ===== *)
theory Launch
  imports Entry Mach User_Space
begin

text \<open>
  The start of a user program (\<^verbatim>\<open>ActiveProc::launch\<close> in \<^verbatim>\<open>user.rs\<close>): the kernel stack of the thread becomes the stack for its
  interrupts and system calls, and a return from interrupt enters the program.  The operands of the assembly are in
  registers that the pushes do not change, so that they are constants of the model.
\<close>

definition USER_STACK_TOP :: "64 word" where
  "USER_STACK_TOP = word_of_int (USER_STACK_BOTTOM + USER_STACK_SIZE)"

definition launch_code :: "64 word \<Rightarrow> instr list" where
  "launch_code entry =
     [PushImm 0x1b, PushImm USER_STACK_TOP, PushImm 0x200, PushImm X86.USER_CODE_SELECTOR, PushImm entry, Swapgs, Iretq]"

definition launch :: "nat \<Rightarrow> 64 word \<Rightarrow> mach \<times> cpu \<Rightarrow> mach \<times> cpu" where
  "launch stack_top entry s =
     (let (m, c) = s;
          m = guard_enter m;
          c = exec id Cli c;
          m = set_kernel_rsp stack_top m;
          m = drop_without_disabling m;
          c = run id (launch_code entry) c
      in (m\<lparr>int_flag := (flags c AND IF_FLAG \<noteq> 0)\<rparr>, c))"

lemma run_launch_code:
  "run id (launch_code entry) c =
     c\<lparr>ip := entry, cs := X86.USER_CODE_SELECTOR, flags := 0x200, ss := X86.USER_DATA_SELECTOR, regs := (regs c)(RSP := USER_STACK_TOP),
       gs_base := kernel_gs_base c, kernel_gs_base := gs_base c,
       mem := mem (push_all [0x1b, USER_STACK_TOP, 0x200, X86.USER_CODE_SELECTOR, entry] c)\<rparr>"
proof -
  let ?vs = "[0x1b, USER_STACK_TOP, 0x200, X86.USER_CODE_SELECTOR, entry]"
  let ?c = "push_all ?vs c"
  have "length ?vs + 0 = 5" by simp
  with push_all_cells [of ?vs 0 c] have cells: "cells ?c (regs ?c RSP) 5 = rev ?vs" by (simp only: append_Nil2 cells_0) simp
  have five: "cells ?c a 5 = [mem ?c a, mem ?c (a + 8), mem ?c (a + 16), mem ?c (a + 24), mem ?c (a + 32)]" for a
    by (simp add: eval_nat_numeral cells_Suc algebra_simps)
  have "run id (launch_code entry) c = exec id Iretq (swapgs ?c)" by (simp add: launch_code_def)
  also have "\<dots> = c\<lparr>ip := entry, cs := X86.USER_CODE_SELECTOR, flags := 0x200, ss := X86.USER_DATA_SELECTOR, regs := (regs c)(RSP := USER_STACK_TOP),
       gs_base := kernel_gs_base c, kernel_gs_base := gs_base c, mem := mem ?c\<rparr>"
    using cells unfolding five by (simp add: swapgs_def Let_def X86.USER_DATA_SELECTOR_def fun_eq_iff)
  finally show ?thesis .
qed

text \<open>
  Launching enters the program at its entry, in user mode, with interrupts on and the stack pointer at the end of the user
  stack; the kernel's base is put away, and the count of interrupt guards and the interrupt flag agree again.
\<close>

theorem launch_enters_program:
  assumes "irq_ok m" "irq_lock_count m = 0" "launch stack_top entry (m, c) = (m', c')"
  shows "ip c' = entry \<and> cs c' = X86.USER_CODE_SELECTOR \<and> ss c' = X86.USER_DATA_SELECTOR \<and> flags c' = IF_FLAG \<and>
    regs c' RSP = USER_STACK_TOP \<and> gs_base c' = kernel_gs_base c \<and> kernel_gs_base c' = gs_base c \<and>
    irq_ok m' \<and> int_flag m' \<and> kernel_rsp m' = stack_top \<and> current_proc m' = current_proc m \<and> cr3 m' = cr3 m"
  using assms
  by (auto simp: launch_def Let_def run_launch_code drop_without_disabling_def set_kernel_rsp_def irq_ok_def IF_FLAG_def)

lemma launch_enters_program_witness:
  "int_flag (fst (launch 4096 (of_nat 4198400) (guard_leave (guard_enter (mach_new 0)), idle_cpu)))"
proof -
  let ?m = "guard_leave (guard_enter (mach_new 0))"
  have "irq_ok ?m" "irq_lock_count ?m = 0"
    by (simp_all add: irq_ok_def guard_leave_def guard_enter_def mach_new_def fetch_sub_def Let_def)
  from launch_enters_program [OF this, of 4096 "of_nat 4198400" idle_cpu] show ?thesis by (metis prod.collapse)
qed

end
