(* ===== verification/Kernel_Stack.thy ===== *)
theory Kernel_Stack
  imports Virtual_Alloc
begin

text \<open>
  Kernel stacks (\<^verbatim>\<open>Stack\<close> in \<^verbatim>\<open>memory.rs\<close>): 256 pages from the virtual allocator with an unmapped page on both sides.
\<close>

definition STACK_BYTES :: int where "STACK_BYTES = 256 * 4096"

definition stack_layout :: layout where
  "stack_layout = \<lparr>lsize = STACK_BYTES, lalign = FRAME_SIZE\<rparr>"

definition stack_settings :: alloc_settings where
  "stack_settings = \<lparr>set_bottom = FRAME_SIZE, set_top = FRAME_SIZE\<rparr>"

text \<open>A stack is its top.\<close>

definition stack_new :: "'k page_ops \<Rightarrow> memory_error option \<Rightarrow> virtual_allocation span_alloc \<Rightarrow> 'k \<Rightarrow>
    ((memory_error + int) \<times> virtual_allocation span_alloc \<times> 'k) option" where
  "stack_new ops node_alloc s k = do {
     (r, s, k) \<leftarrow> virtual_alloc ops node_alloc s stack_layout stack_settings k;
     Some (map_sum id (\<lambda>bottom. bottom + STACK_BYTES) r, s, k) }"

definition stack_bottom :: "int \<Rightarrow> int" where
  "stack_bottom tp = tp - STACK_BYTES"

definition stack_drop :: "'k page_ops \<Rightarrow> int \<Rightarrow> virtual_allocation span_alloc \<Rightarrow> 'k \<Rightarrow> (virtual_allocation span_alloc \<times> 'k) option" where
  "stack_drop ops tp s k = virtual_free ops s (stack_bottom tp) k"

lemma stack_fitting: "fitting stack_layout stack_settings"
  by (simp add: fitting_def stack_layout_def stack_settings_def STACK_BYTES_def FRAME_SIZE_def)

lemma stack_padded: "padded_size stack_layout = STACK_BYTES"
  by (simp add: padded_size_def stack_layout_def STACK_BYTES_def)

text \<open>Inside a span only the pages of its body are mapped.\<close>

lemma guards_unmapped:
  assumes "va_ok s M" "span_list s = ys @ ((a, b), g) # zs" "a \<le> p" "p < b" "p < a + guard_bottom g \<or> b - guard_top g \<le> p"
  shows "p \<notin> M"
proof
  assume p: "p \<in> M"
  have ok: "span_ok s" and g: "\<forall>sp\<in>set (span_list s). 0 \<le> guard_bottom (snd sp) \<and> 0 \<le> guard_top (snd sp)" using assms(1) by (simp_all add: va_ok_def)
  have "range_start s \<le> a" "b \<le> range_end s"
    using ok assms(2) by (auto simp: span_ok_def span_list_def map_eq_append_conv map_eq_Cons_conv)
  with assms(1,3,4) p obtain sp where sp: "sp \<in> set (span_list s)" "p \<in> body sp"
    unfolding va_ok_def by (meson less_le_trans order_trans)
  show False
  proof (cases "sp = ((a, b), g)")
    case True
    with sp(2) step_pages_bounds assms(5) show ?thesis by (fastforce simp: body_def)
  next
    case False
    with sp(1) assms(2) have "sp \<in> set ys \<union> set zs" by auto
    from span_list_sep [OF ok assms(2) this] body_bounds [OF sp(2)] g sp(1) assms(3,4) show ?thesis by force
  qed
qed

text \<open>
  A stack is made or nothing changes, and making it panics only if the frames for its 256 pages and their tables run out.  It has exactly
  its 256 pages, the page below and the page above are not mapped, so that an overflow faults, and dropping it gives everything back.
\<close>

theorem stack_lifecycle:
  assumes "page_laws ops mapped spare" "va_ok s (mapped k)"
  shows "case stack_new ops node_alloc s k of
      None \<Rightarrow> spare k < 4 * 256
    | Some (Inl e, s', k') \<Rightarrow> va_ok s' (mapped k') \<and> span_list s' = span_list s \<and> mapped k' = mapped k
    | Some (Inr tp, s', k') \<Rightarrow> va_ok s' (mapped k') \<and> mapped k' = mapped k \<union> set (step_pages (stack_bottom tp) tp) \<and>
        (\<forall>p. stack_bottom tp - FRAME_SIZE \<le> p \<and> p < stack_bottom tp \<or> tp \<le> p \<and> p < tp + FRAME_SIZE \<longrightarrow> p \<notin> mapped k') \<and>
        (\<exists>s'' k''. stack_drop ops tp s' k' = Some (s'', k'') \<and> span_list s'' = span_list s \<and> mapped k'' = mapped k)"
proof -
  note v = virtual_alloc_spec [OF assms(1,2) stack_fitting, of node_alloc]
  have cnt: "page_count stack_layout = 256" unfolding page_count_def stack_padded by (simp add: STACK_BYTES_def FRAME_SIZE_def)
  show ?thesis
  proof (cases "virtual_alloc ops node_alloc s stack_layout stack_settings k")
    case None
    with v cnt show ?thesis by (simp add: stack_new_def)
  next
    case (Some res)
    obtain r s' k' where res: "res = (r, s', k')" by (cases res)
    show ?thesis
    proof (cases r)
      case (Inl e)
      with v Some res show ?thesis by (auto simp: stack_new_def)
    next
      case (Inr addr)
      let ?g = "\<lparr>guard_bottom = FRAME_SIZE, guard_top = FRAME_SIZE\<rparr>"
      from v Some res Inr obtain a b ys zs where ok: "va_ok s' (mapped k')" and x: "span_list s = ys @ zs" "span_list s' = ys @ ((a, b), ?g) # zs"
        "addr = a + FRAME_SIZE" "STACK_BYTES = b - FRAME_SIZE - addr" "mapped k' = mapped k \<union> set (step_pages addr (b - FRAME_SIZE))"
        "set (step_pages addr (b - FRAME_SIZE)) \<inter> mapped k = {}" by (auto simp: stack_padded stack_settings_def)
      let ?tp = "addr + STACK_BYTES"
      have tp: "stack_bottom ?tp = addr" "?tp = b - FRAME_SIZE" and pos: "0 < FRAME_SIZE" "0 < STACK_BYTES"
        using x(4) by (simp_all add: stack_bottom_def FRAME_SIZE_def STACK_BYTES_def)
      have "addr < b" using x(4) pos by linarith
      from virtual_free_spec [OF assms(1) ok x(2) _ this] x(3) obtain s'' k'' where
        f: "virtual_free ops s' addr k' = Some (s'', k'')" "span_list s'' = ys @ zs" "mapped k'' = mapped k' - body ((a, b), ?g)" by auto
      have "mapped k'' = mapped k" using f(3) x(3,5,6) by (auto simp: body_def)
      then have drop: "\<exists>s'' k''. stack_drop ops ?tp s' k' = Some (s'', k'') \<and> span_list s'' = span_list s \<and> mapped k'' = mapped k"
        using f(1,2) x(1) tp(1) by (simp add: stack_drop_def)
      have "p \<notin> mapped k'" if "addr - FRAME_SIZE \<le> p \<and> p < addr \<or> ?tp \<le> p \<and> p < ?tp + FRAME_SIZE" for p
        using guards_unmapped [OF ok x(2), of p] that x(3,4) pos by auto
      moreover have "stack_new ops node_alloc s k = Some (Inr ?tp, s', k')" using Some res Inr by (simp add: stack_new_def)
      ultimately show ?thesis using ok x(5) drop tp by simp
    qed
  qed
qed

lemma stack_lifecycle_witness:
  "\<exists>r s' k'. stack_new list_ops None virtual_new (2000, []) = Some (r, s', k') \<and>
     (\<forall>tp. r = Inr tp \<longrightarrow> (\<exists>s'' k''. stack_drop list_ops tp s' k' = Some (s'', k'') \<and> set (snd k'') = {}))"
proof -
  have "va_ok virtual_new ((\<lambda>(n, m). set m) (2000 :: nat, [] :: int list))" using virtual_new_ok by simp
  from stack_lifecycle [OF list_ops_laws this, of None] show ?thesis
    by (fastforce simp: case_prod_unfold split: option.splits sum.splits)
qed

end
