(* ===== verification/Spec2Isabelle.thy ===== *)
theory Spec2Isabelle
  imports Rb_Spec Banded_Iter Virtual_Alloc Boot_Alloc Entry Sched_Spec Boot_Claim Vga_Buffer Text_Writer Ram_Fs Screen_Laws Multiboot Launch Kernel_Stack
begin

text \<open>
  A verification of the lilith kernel: its memory management, its scheduler with the code that enters and leaves
  it, and its drawing library.  File names are relative to \<^verbatim>\<open>src/kernel/src\<close>.

  \<^bold>\<open>The parts of the program and the theories that model them.\<close>

  \<^item> \<^emph>\<open>Red-black tree\<close>, \<^verbatim>\<open>memory/rbtree.rs\<close>.  \<^verbatim>\<open>Rb_Heap\<close> holds the pointer programs (\<^verbatim>\<open>insert_raw\<close>, \<^verbatim>\<open>remove_raw\<close>,
    \<^verbatim>\<open>lower_bound_raw\<close>, \<^verbatim>\<open>find_raw\<close>, the iterators, \<^verbatim>\<open>pairwise_merge\<close>, the self check), statement by statement, on a heap
    from addresses to nodes, in the option monad: a null dereference or a failed assertion is \<^term>\<open>None\<close>.
    \<^verbatim>\<open>Rb_Tree\<close> is the same algorithm on a datatype with zippers, \<^verbatim>\<open>Rb_Tree_Laws\<close> proves it, \<^verbatim>\<open>Rb_Rep\<close>, \<^verbatim>\<open>Rb_Rotate\<close>,
    \<^verbatim>\<open>Rb_Insert\<close>, \<^verbatim>\<open>Rb_Remove\<close>, \<^verbatim>\<open>Rb_Iter\<close>, \<^verbatim>\<open>Rb_Stale\<close> (trees in which one cached
    value is out of date) and \<^verbatim>\<open>Rb_Merge\<close> prove that the pointer programs refine it, and \<^verbatim>\<open>Rb_Spec\<close> states
    the contract over \<open>rb_holds\<close>: the memory holds a valid tree with up-to-date augmented values whose nodes are,
    in order, a list of addresses and values.  \<^verbatim>\<open>Rb_Seq\<close> and \<^verbatim>\<open>Rb_Fold\<close> give the users of the tree the
    interface \<^verbatim>\<open>ordered_store\<close>, and \<^verbatim>\<open>Intervals\<close>, on top of it, \<^verbatim>\<open>interval_store\<close> for sequences of disjoint intervals.

  \<^item> \<^emph>\<open>Boot allocator\<close>, \<^verbatim>\<open>memory/boot_alloc.rs\<close>: \<^verbatim>\<open>Boot_Alloc\<close>.  Typed spans of physical memory in a tree whose
    nodes come from a fixed supply of slots; \<open>boot_update\<close> changes the type of a range, \<open>boot_alloc\<close> finds free
    memory, \<open>compact\<close> merges.  \<^verbatim>\<open>Boot_Claim\<close> models how free and later reclaimable pages go to the buddy allocator
    (\<^verbatim>\<open>claim_free_ranges\<close>, and \<^verbatim>\<open>Reclaimer\<close> in \<^verbatim>\<open>memory/bootstrap.rs\<close>).

  \<^item> \<^emph>\<open>Frame descriptors\<close>, \<^verbatim>\<open>memory/frame_info.rs\<close>, and the direct mapping, \<^verbatim>\<open>memory.rs\<close>: \<^verbatim>\<open>Frame_Info\<close>, on 64-bit
    words with wrap-around.

  \<^item> \<^emph>\<open>Buddy allocator\<close>, \<^verbatim>\<open>memory/buddy.rs\<close>: \<^verbatim>\<open>Buddy\<close> (the code on the descriptor table), \<^verbatim>\<open>Buddy_Rep\<close> (its intrusive
    lists as instances of the rings of \<^verbatim>\<open>Ring\<close>), \<^verbatim>\<open>Buddy_Spec\<close> (the invariant \<open>buddy_state\<close>), \<^verbatim>\<open>Buddy_Laws\<close> (the
    operations).

  \<^item> \<^emph>\<open>Slab allocator\<close>, \<^verbatim>\<open>memory/slub.rs\<close>: \<^verbatim>\<open>Slub\<close>, \<^verbatim>\<open>Slub_Inv\<close>, \<^verbatim>\<open>Slub_Spec\<close>, \<^verbatim>\<open>Slub_Laws\<close>, on top of the buddy allocator;
    \<^verbatim>\<open>Memory\<close> is the dispatcher of \<^verbatim>\<open>memory.rs\<close> over both.

  \<^item> \<^emph>\<open>Span and virtual allocator\<close>, \<^verbatim>\<open>memory/virtual_alloc.rs\<close> and \<^verbatim>\<open>memory/address_space.rs\<close>: \<^verbatim>\<open>Span_Alloc\<close> (search for a
    gap through the cached gaps, allocation, insertion, release) and \<^verbatim>\<open>Virtual_Alloc\<close> (guarded spans backed by pages,
    with the undo on failure).

  \<^item> \<^emph>\<open>Sparse vector, timers, tasks\<close>, \<^verbatim>\<open>id_vec.rs\<close>, \<^verbatim>\<open>sched.rs\<close>, \<^verbatim>\<open>tasks.rs\<close>: \<^verbatim>\<open>Id_Vec\<close>, \<^verbatim>\<open>Timer\<close>, \<^verbatim>\<open>Tasks\<close>.

  \<^item> \<^emph>\<open>Scheduler\<close>, \<^verbatim>\<open>sched.rs\<close>, \<^verbatim>\<open>mach.rs\<close>, \<^verbatim>\<open>sync.rs\<close> and the dispatcher of \<^verbatim>\<open>interrupts.rs\<close>: \<^verbatim>\<open>Mach\<close>, \<^verbatim>\<open>Sched\<close> (the
    operations on one state), \<^verbatim>\<open>Sched_Inv\<close> (the invariant), \<^verbatim>\<open>Sched_Spec\<close> (the kernel as a transition system of the
    calls of threads and the interrupts, from boot).

  \<^item> \<^emph>\<open>Entry code\<close>, the assembly in \<^verbatim>\<open>interrupts.rs\<close> and \<^verbatim>\<open>sched.rs\<close> and the tables of \<^verbatim>\<open>interrupts/tables.rs\<close>: \<^verbatim>\<open>X86\<close>
    (the instructions used), \<^verbatim>\<open>Int_Tables\<close>, \<^verbatim>\<open>Entry\<close>.

  \<^item> \<^emph>\<open>Drawing\<close>, \<^verbatim>\<open>draw/geometry.rs\<close>, \<^verbatim>\<open>draw/banded_region.rs\<close>: \<^verbatim>\<open>Geometry\<close>, \<^verbatim>\<open>Banded_Region\<close>, \<^verbatim>\<open>Banded_Iter\<close>.

  \<^item> \<^emph>\<open>Surfaces, text, windows\<close>, \<^verbatim>\<open>draw/surface.rs\<close>, \<^verbatim>\<open>draw/text.rs\<close>, \<^verbatim>\<open>draw/window.rs\<close>: \<^verbatim>\<open>Surface\<close> (pixel memory, with an explicit store of
    images so that sharing and release are visible), \<^verbatim>\<open>Text_Writer\<close> (characters of a font on a surface), \<^verbatim>\<open>Screen\<close> and
    \<^verbatim>\<open>Screen_Laws\<close> (the stack of windows with its damage tracker, which is a banded region, and the update of the
    frame buffer).

  \<^item> \<^emph>\<open>Text mode console\<close>, \<^verbatim>\<open>device/vga_buffer.rs\<close>: \<^verbatim>\<open>Cp437\<close> (decoding of UTF-8 and the code page), \<^verbatim>\<open>Vga_Buffer\<close>.

  \<^item> \<^emph>\<open>RAM file system\<close>, \<^verbatim>\<open>ramfs.rs\<close>, with the tool that builds its image, \<^verbatim>\<open>host/fs-tool/src/main.rs\<close> beside the kernel: \<^verbatim>\<open>Ram_Fs\<close>.

  \<^item> \<^emph>\<open>Boot data\<close>, \<^verbatim>\<open>memory/multiboot.rs\<close> and the first half of \<^verbatim>\<open>init\<close> in \<^verbatim>\<open>memory/bootstrap.rs\<close>: \<^verbatim>\<open>Multiboot\<close>, which reads
    the data of the boot loader from physical memory and fills the boot allocator.

  \<^item> \<^emph>\<open>User memory\<close>, \<^verbatim>\<open>memory/address_space.rs\<close> and \<^verbatim>\<open>user.rs\<close>: \<^verbatim>\<open>User_Space\<close> (address spaces, the page fault handler, loading of programs) and
    \<^verbatim>\<open>Launch\<close> (the entry into user mode).  \<^verbatim>\<open>Kernel_Stack\<close> models \<^verbatim>\<open>Stack\<close> in \<^verbatim>\<open>memory.rs\<close>.

  \<^bold>\<open>What the theorems show.\<close>

  \<^item> Trees: insertion, removal, searches, iteration and merging terminate without a panic on every valid tree and
    have the effect of the list operation they stand for; the self check is exact.
  \<^item> Physical memory: an allocation of every layer returns memory that is aligned, large enough and apart from all
    live allocations, and fails only when there is none; a release makes exactly the released memory available
    again, merged with its neighbours.  The hand-over from the boot allocator loses and duplicates no frame.
  \<^item> Virtual memory: a failed allocation leaves the pages and spans as they were; a release unmaps exactly the
    pages of its span.  An allocation panics only if the frames for its pages and their tables run out.
  \<^item> Scheduling: in every state reachable from boot no operation panics; a thread in the ready queue runs after
    as many switches as its position says; wake-ups are not lost; timers are on time; a thread resumes with its
    process and page table.
  \<^item> Entry code: interrupts are transparent, system calls and thread switches return to their callers.
  \<^item> Drawing: a banded region is exactly the map of pixels to values that its updates describe.
  \<^item> Surfaces and windows: a blit is one simultaneous copy, also where source and destination overlap; text is drawn
    where the glyph has bits and nowhere else; after every sequence of the verified operations an update makes the
    frame buffer show the composition of the windows.  Lowering a window is among them if it
    hides none of those it passes, and moving one if its old place stays covered: otherwise the damage tracker is wrong
    afterwards, and both conditions are shown to be exact.
  \<^item> Console and files: the console shows the last lines of what was written; the code page is a bijection;
    what the tool packs is what the kernel finds.
  \<^item> Boot: filling the boot allocator succeeds for well-formed data with up to 64 areas, and every address gets the
    type that the memory map and the last mark on it say.
  \<^item> Programs: demand paging behaves as plain memory that starts as zero; a loaded program finds the data of its
    segments and may use these and its stack only; launching it enters user mode with consistent interrupt state.

  \<^bold>\<open>Panics, loops and bounds.\<close>  An operation that can panic returns an option, and the theorems state when it
  returns.  Loops whose end depends on the validity of the data are partial functions in the option type, where
  \<^term>\<open>None\<close> also stands for a loop that never ends; their theorems show that they return, so that no bound or
  fuel is assumed.  The stubs of \<^verbatim>\<open>X86\<close> are lists of instructions that only jump forward, so that their execution is
  structural.  Machine integers are words of their width in \<^verbatim>\<open>Frame_Info\<close>, \<^verbatim>\<open>Buddy\<close>,
  \<^verbatim>\<open>Slub\<close>, \<^verbatim>\<open>Memory\<close> and \<^verbatim>\<open>X86\<close>, checked 32-bit integers in the drawing library, and unbounded where the invariant
  bounds the values (the theory says so at its start).

  \<^bold>\<open>Interfaces.\<close>  The locales are \<^verbatim>\<open>ordered_store\<close> and, on top of it, \<^verbatim>\<open>interval_store\<close> (trees as sequences), \<^verbatim>\<open>interval_update\<close> and
  \<^verbatim>\<open>interval_merge\<close> (cutting and joining disjoint intervals, for regions, bands and boot spans), \<^verbatim>\<open>ring_memory\<close> (the intrusive lists of the
  buddy and the slab allocator) and \<^verbatim>\<open>slot_map\<close> (the sparse vector).  Each is interpreted on the definitions of the model that
  provide it.  The page table, which is code of a crate, is a record of operations with the predicate \<open>page_laws\<close>.

  \<^bold>\<open>Parameters.\<close>  Code that is not part of the kernel is an argument of the definitions: the page table of the
  crate \<^verbatim>\<open>x86_64\<close> (with the laws that mapping and unmapping one page change that page only, and that mapping fails
  at most for lack of the three frames of its tables), whether the allocator has
  memory for one more tree node, the code of threads and futures, and the handlers called from assembly (which keep
  the stack and the registers that the calling convention preserves).

  \<^bold>\<open>Not modelled.\<close>  The boot assembly and the linker script (before the Rust code runs; their addresses are arguments); the
  video mode setup in C; the serial port, formatted output and the statistics of \<^verbatim>\<open>memory/debug_info.rs\<close> (output only); the order of
  calls in \<^verbatim>\<open>main.rs\<close> and the test runner; the page-table setup of \<^verbatim>\<open>memory/bootstrap.rs\<close>, which mostly calls the crate \<^verbatim>\<open>x86_64\<close>; drop
  implementations and conversions of the tree without effect on its state.  The processor is one core; caches and the TLB have no model.
\<close>

end
